(* ===== verification/Prelude.thy ===== *)
theory Prelude
  imports
    Main
    "HOL-Library.Char_ord"
    "HOL-Library.List_Lexorder"
    "HOL-Library.Product_Lexorder"
    "HOL-Library.Option_ord"
    "HOL-Library.Multiset"
    "HOL-Library.Monad_Syntax"
begin

text \<open>
  What every component theory shares.

  \<^item> Rust's \<open>String\<close> is the list of its UTF-8 bytes (\<open>string\<close>), so \<open>len\<close> is \<open>length\<close>,
    \<open>is_empty\<close> is \<open>= []\<close> and Rust's byte-wise \<open>Ord\<close> on strings is the lexicographic order of
    \<open>HOL-Library.List_Lexorder\<close>.  Tuples and options are ordered as Rust derives it
    (lexicographic, \<open>None\<close> first): \<open>Product_Lexorder\<close>, \<open>Option_ord\<close>.
  \<^item> The standard-library functions on strings and options the code calls: \<open>trim\<close>,
    \<open>to_ascii_lowercase\<close>, \<open>eq_ignore_ascii_case\<close>, \<open>Option::filter\<close>, \<open>Option::zip\<close>,
    \<open>is_some_and\<close>, \<open>is_none_or\<close>.
  \<^item> Checked reads and writes of a vector (\<open>None\<close> is the panic).
  \<^item> The interface of a keyed container as a locale, with the facts its clients share, and
    its two implementations: the sorted association list (\<open>BTreeMap\<close>) and the association
    list in insertion order (\<open>AHashMap\<close>).
\<close>

named_theorems model_simps \<open>unfolding rules of the model's small helpers\<close>

section \<open>Strings\<close>

text \<open>\<open>u8::to_ascii_lowercase\<close>, \<open>str::to_ascii_lowercase\<close>, \<open>str::to_ascii_uppercase\<close>.\<close>

definition ascii_lower_char :: "char \<Rightarrow> char" where
  "ascii_lower_char c =
     (let n = of_char c :: nat in if 65 \<le> n \<and> n \<le> 90 then char_of (n + 32) else c)"

definition to_ascii_lowercase :: "string \<Rightarrow> string" where
  "to_ascii_lowercase s = map ascii_lower_char s"

definition ascii_upper_char :: "char \<Rightarrow> char" where
  "ascii_upper_char c =
     (let n = of_char c :: nat in if 97 \<le> n \<and> n \<le> 122 then char_of (n - 32) else c)"

definition to_ascii_uppercase :: "string \<Rightarrow> string" where
  "to_ascii_uppercase s = map ascii_upper_char s"

definition eq_ignore_ascii_case :: "string \<Rightarrow> string \<Rightarrow> bool" where
  "eq_ignore_ascii_case a b \<longleftrightarrow> to_ascii_lowercase a = to_ascii_lowercase b"

text \<open>
  The UTF-8 encodings of the code points with the Unicode property \<open>White_Space\<close>, which is
  what \<open>str::trim\<close> removes: U+0009..U+000D, U+0020, U+0085, U+00A0, U+1680, U+2000..U+200A,
  U+2028, U+2029, U+202F, U+205F, U+3000.
\<close>

definition white_spaces :: "string list" where
  "white_spaces =
     [[CHR 0x09], [CHR 0x0A], [CHR 0x0B], [CHR 0x0C], [CHR 0x0D], [CHR 0x20],
      [CHR 0xC2, CHR 0x85], [CHR 0xC2, CHR 0xA0], [CHR 0xE1, CHR 0x9A, CHR 0x80],
      [CHR 0xE2, CHR 0x80, CHR 0x80], [CHR 0xE2, CHR 0x80, CHR 0x81],
      [CHR 0xE2, CHR 0x80, CHR 0x82], [CHR 0xE2, CHR 0x80, CHR 0x83],
      [CHR 0xE2, CHR 0x80, CHR 0x84], [CHR 0xE2, CHR 0x80, CHR 0x85],
      [CHR 0xE2, CHR 0x80, CHR 0x86], [CHR 0xE2, CHR 0x80, CHR 0x87],
      [CHR 0xE2, CHR 0x80, CHR 0x88], [CHR 0xE2, CHR 0x80, CHR 0x89],
      [CHR 0xE2, CHR 0x80, CHR 0x8A], [CHR 0xE2, CHR 0x80, CHR 0xA8],
      [CHR 0xE2, CHR 0x80, CHR 0xA9], [CHR 0xE2, CHR 0x80, CHR 0xAF],
      [CHR 0xE2, CHR 0x81, CHR 0x9F], [CHR 0xE3, CHR 0x80, CHR 0x80]]"

text \<open>
  Removing a leading white-space code point as long as there is one.  A valid UTF-8 string has
  at most one of the patterns as a prefix.  \<open>trim_end\<close> is the same on the reversed byte list.
\<close>

definition prefix_of_any :: "string list \<Rightarrow> string \<Rightarrow> string option" where
  "prefix_of_any ws s = find (\<lambda>w. w \<noteq> [] \<and> take (length w) s = w) ws"

lemma prefix_of_any_SomeD:
  "prefix_of_any ws s = Some w \<Longrightarrow> w \<in> set ws \<and> w \<noteq> [] \<and> take (length w) s = w"
  by (auto simp: prefix_of_any_def find_Some_iff)

lemma prefix_of_any_None:
  "prefix_of_any ws s = None \<longleftrightarrow> (\<forall>w \<in> set ws. w \<noteq> [] \<longrightarrow> take (length w) s \<noteq> w)"
  by (auto simp: prefix_of_any_def find_None_iff)

function trim_front :: "string list \<Rightarrow> string \<Rightarrow> string" where
  "trim_front ws s =
     (case prefix_of_any ws s of None \<Rightarrow> s | Some w \<Rightarrow> trim_front ws (drop (length w) s))"
  by pat_completeness auto
termination
proof (relation "measure (\<lambda>(ws, s). length s)")
  fix ws s w assume "prefix_of_any ws s = Some w"
  then have "w \<noteq> []" and "take (length w) s = w" by (auto dest: prefix_of_any_SomeD)
  then have "s \<noteq> []" by auto
  with \<open>w \<noteq> []\<close> show "((ws, drop (length w) s), ws, s) \<in> measure (\<lambda>(ws, s). length s)" by simp
qed simp

declare trim_front.simps [simp del]

definition trim_start :: "string \<Rightarrow> string" where
  "trim_start s = trim_front white_spaces s"

definition trim_end :: "string \<Rightarrow> string" where
  "trim_end s = rev (trim_front (map rev white_spaces) (rev s))"

definition trim :: "string \<Rightarrow> string" where
  "trim s = trim_end (trim_start s)"

lemma trim_front_stuck: "prefix_of_any ws (trim_front ws s) = None"
proof (induction ws s rule: trim_front.induct)
  case (1 ws s)
  then show ?case by (cases "prefix_of_any ws s") (simp_all add: trim_front.simps [of ws s])
qed

lemma trim_front_id: "prefix_of_any ws s = None \<Longrightarrow> trim_front ws s = s"
  by (simp add: trim_front.simps)

lemma trim_front_suffix: "\<exists>u. s = u @ trim_front ws s"
proof (induction ws s rule: trim_front.induct)
  case (1 ws s)
  show ?case
  proof (cases "prefix_of_any ws s")
    case None
    then show ?thesis by (simp add: trim_front_id)
  next
    case (Some w)
    then obtain u where "drop (length w) s = u @ trim_front ws (drop (length w) s)"
      using "1.IH" by blast
    then have "s = (take (length w) s @ u) @ trim_front ws s"
      using Some by (metis append.assoc append_take_drop_id option.simps(5) trim_front.simps)
    then show ?thesis by blast
  qed
qed

lemma trim_start_idem: "trim_start (trim_start s) = trim_start s"
  unfolding trim_start_def by (rule trim_front_id) (rule trim_front_stuck)

lemma trim_end_idem: "trim_end (trim_end s) = trim_end s"
  unfolding trim_end_def by (simp add: trim_front_id trim_front_stuck)

lemma trim_end_prefix: "\<exists>u. s = trim_end s @ u"
proof -
  obtain u where "rev s = u @ trim_front (map rev white_spaces) (rev s)"
    using trim_front_suffix by blast
  then have "s = trim_end s @ rev u"
    unfolding trim_end_def by (metis rev_append rev_rev_ident)
  then show ?thesis by blast
qed

lemma prefix_of_any_None_prefix:
  assumes "prefix_of_any ws (p @ u) = None"
  shows "prefix_of_any ws p = None"
  unfolding prefix_of_any_None
proof (intro ballI impI notI)
  fix w assume w: "w \<in> set ws" "w \<noteq> []" and eq: "take (length w) p = w"
  from eq have "length w \<le> length p"
    by (metis length_take min.cobounded1 min.absorb_iff2 le_refl)
  with eq have "take (length w) (p @ u) = w" by simp
  with assms w show False by (auto simp: prefix_of_any_None)
qed

lemma trim_start_trim_end:
  assumes "trim_start s = s" shows "trim_start (trim_end s) = trim_end s"
proof -
  have "prefix_of_any white_spaces s = None"
    using assms trim_front_stuck [of white_spaces s] by (simp add: trim_start_def)
  moreover obtain u where "s = trim_end s @ u" using trim_end_prefix by blast
  ultimately have "prefix_of_any white_spaces (trim_end s) = None"
    using prefix_of_any_None_prefix by metis
  then show ?thesis by (simp add: trim_start_def trim_front_id)
qed

lemma trim_idem [simp]: "trim (trim s) = trim s"
  by (simp add: trim_def trim_start_trim_end trim_start_idem trim_end_idem)

lemma trim_Nil [simp]: "trim [] = []"
  by (simp add: trim_def trim_start_def trim_end_def trim_front_id prefix_of_any_None)

subsection \<open>Case folding and trimming commute\<close>

lemma of_char_lower:
  "(of_char (ascii_lower_char c) :: nat) =
     (let n = of_char c :: nat in if 65 \<le> n \<and> n \<le> 90 then n + 32 else n)"
  by (auto simp: ascii_lower_char_def Let_def of_char_of)

lemma ascii_lower_char_idem [simp]: "ascii_lower_char (ascii_lower_char c) = ascii_lower_char c"
proof -
  have "(of_char (ascii_lower_char (ascii_lower_char c)) :: nat) = of_char (ascii_lower_char c)"
    by (auto simp: of_char_lower Let_def)
  then show ?thesis by simp
qed

lemma to_ascii_lowercase_idem [simp]:
  "to_ascii_lowercase (to_ascii_lowercase s) = to_ascii_lowercase s"
  by (simp add: to_ascii_lowercase_def)

lemma to_ascii_lowercase_Nil [simp]: "to_ascii_lowercase [] = []"
  by (simp add: to_ascii_lowercase_def)

lemma to_ascii_lowercase_eq_Nil [simp]: "to_ascii_lowercase s = [] \<longleftrightarrow> s = []"
  by (simp add: to_ascii_lowercase_def)

lemma length_to_ascii_lowercase [simp]: "length (to_ascii_lowercase s) = length s"
  by (simp add: to_ascii_lowercase_def)

text \<open>No byte of a white-space pattern is an ASCII letter, so case folding neither makes nor
  breaks a pattern.\<close>

definition no_letters :: "string list \<Rightarrow> bool" where
  "no_letters ws \<longleftrightarrow>
     (\<forall>w \<in> set ws. \<forall>c \<in> set w. \<not> (65 \<le> (of_char c :: nat) \<and> (of_char c :: nat) \<le> 90)
        \<and> \<not> (97 \<le> (of_char c :: nat) \<and> (of_char c :: nat) \<le> 122))"

lemma no_letters_white_spaces: "no_letters white_spaces"
  by (simp add: no_letters_def white_spaces_def)

lemma no_letters_rev: "no_letters ws \<Longrightarrow> no_letters (map rev ws)"
  by (auto simp: no_letters_def)

lemma ascii_lower_char_non_letter:
  assumes "\<not> (65 \<le> (of_char d :: nat) \<and> (of_char d :: nat) \<le> 90)"
    and "\<not> (97 \<le> (of_char d :: nat) \<and> (of_char d :: nat) \<le> 122)"
  shows "ascii_lower_char c = d \<longleftrightarrow> c = d"
proof
  assume "ascii_lower_char c = d"
  then have "(of_char d :: nat) = of_char (ascii_lower_char c)" by simp
  with assms have "(of_char d :: nat) = of_char c"
    by (auto simp: of_char_lower Let_def split: if_splits)
  then show "c = d" by simp
next
  assume "c = d"
  with assms show "ascii_lower_char c = d" by (auto simp: ascii_lower_char_def Let_def)
qed

lemma lower_eq_pattern:
  assumes "\<forall>d \<in> set w. \<not> (65 \<le> (of_char d :: nat) \<and> (of_char d :: nat) \<le> 90)
        \<and> \<not> (97 \<le> (of_char d :: nat) \<and> (of_char d :: nat) \<le> 122)"
  shows "map ascii_lower_char s = w \<longleftrightarrow> s = w"
  using assms
proof (induction s arbitrary: w)
  case (Cons c s)
  then show ?case by (cases w) (auto simp: ascii_lower_char_non_letter)
qed auto

lemma prefix_of_any_lower:
  assumes "no_letters ws"
  shows "prefix_of_any ws (map ascii_lower_char s) = prefix_of_any ws s"
proof -
  have "take (length w) (map ascii_lower_char s) = w \<longleftrightarrow> take (length w) s = w"
    if "w \<in> set ws" for w
    using assms that lower_eq_pattern [of w "take (length w) s"]
    by (auto simp: no_letters_def take_map)
  then show ?thesis
    unfolding prefix_of_any_def by (intro find_cong) auto
qed

lemma trim_front_lower:
  "no_letters ws \<Longrightarrow> trim_front ws (map ascii_lower_char s) = map ascii_lower_char (trim_front ws s)"
proof (induction ws s rule: trim_front.induct)
  case (1 ws s)
  then show ?case
    by (cases "prefix_of_any ws s")
      (simp_all add: trim_front.simps [of ws s] trim_front.simps [of ws "map ascii_lower_char s"]
        prefix_of_any_lower drop_map)
qed

lemma trim_lower: "trim (to_ascii_lowercase s) = to_ascii_lowercase (trim s)"
  by (simp add: trim_def trim_start_def trim_end_def to_ascii_lowercase_def trim_front_lower
      no_letters_white_spaces no_letters_rev rev_map)

section \<open>Options and checked vector access\<close>

definition opt_filter :: "('a \<Rightarrow> bool) \<Rightarrow> 'a option \<Rightarrow> 'a option" where
  "opt_filter P x = (case x of None \<Rightarrow> None | Some v \<Rightarrow> if P v then Some v else None)"

definition opt_zip :: "'a option \<Rightarrow> 'b option \<Rightarrow> ('a \<times> 'b) option" where
  "opt_zip x y = (case x of None \<Rightarrow> None | Some a \<Rightarrow> map_option (Pair a) y)"

definition unwrap_or :: "'a \<Rightarrow> 'a option \<Rightarrow> 'a" where
  "unwrap_or d x = (case x of None \<Rightarrow> d | Some v \<Rightarrow> v)"

definition is_some_and :: "('a \<Rightarrow> bool) \<Rightarrow> 'a option \<Rightarrow> bool" where
  "is_some_and P x \<longleftrightarrow> (case x of None \<Rightarrow> False | Some v \<Rightarrow> P v)"

definition is_none_or :: "('a \<Rightarrow> bool) \<Rightarrow> 'a option \<Rightarrow> bool" where
  "is_none_or P x \<longleftrightarrow> (case x of None \<Rightarrow> True | Some v \<Rightarrow> P v)"

definition then_some :: "bool \<Rightarrow> 'a \<Rightarrow> 'a option" where
  "then_some b v = (if b then Some v else None)"

definition opt_or :: "'a option \<Rightarrow> 'a option \<Rightarrow> 'a option" where
  "opt_or x y = (case x of None \<Rightarrow> y | Some v \<Rightarrow> Some v)"

lemma opt_filter_simps [simp]:
  "opt_filter P None = None" "opt_filter P (Some v) = (if P v then Some v else None)"
  by (simp_all add: opt_filter_def)

lemma opt_filter_eq_Some [simp]: "opt_filter P x = Some v \<longleftrightarrow> x = Some v \<and> P v"
  by (auto simp: opt_filter_def split: option.splits)

lemma opt_zip_simps [simp]:
  "opt_zip None y = None" "opt_zip x None = None" "opt_zip (Some a) (Some b) = Some (a, b)"
  by (auto simp: opt_zip_def split: option.splits)

lemma opt_zip_eq_Some: "opt_zip x y = Some p \<longleftrightarrow> x = Some (fst p) \<and> y = Some (snd p)"
  by (cases p) (auto simp: opt_zip_def split: option.splits)

lemma unwrap_or_simps [simp]: "unwrap_or d None = d" "unwrap_or d (Some v) = v"
  by (simp_all add: unwrap_or_def)

lemma is_some_and_simps [simp]: "\<not> is_some_and P None" "is_some_and P (Some v) \<longleftrightarrow> P v"
  by (simp_all add: is_some_and_def)

lemma is_some_and_iff: "is_some_and P x \<longleftrightarrow> (\<exists>v. x = Some v \<and> P v)"
  by (cases x) simp_all

lemma is_none_or_simps [simp]: "is_none_or P None" "is_none_or P (Some v) \<longleftrightarrow> P v"
  by (simp_all add: is_none_or_def)

lemma then_some_eq_Some [simp]: "then_some b v = Some w \<longleftrightarrow> b \<and> v = w"
  by (simp add: then_some_def)

lemma then_some_simps [simp]: "then_some True v = Some v" "then_some False v = None"
  by (simp_all add: then_some_def)

lemma opt_or_simps [simp]: "opt_or None y = y" "opt_or (Some v) y = Some v"
  by (simp_all add: opt_or_def)

text \<open>\<open>xs[i]\<close> and \<open>xs[i] = v\<close> on a vector: out of range is a panic (\<open>None\<close>).\<close>

definition idx :: "'a list \<Rightarrow> nat \<Rightarrow> 'a option" where
  "idx xs i = (if i < length xs then Some (xs ! i) else None)"

definition upd :: "'a list \<Rightarrow> nat \<Rightarrow> 'a \<Rightarrow> 'a list option" where
  "upd xs i v = (if i < length xs then Some (xs[i := v]) else None)"

lemma idx_in [simp]: "i < length xs \<Longrightarrow> idx xs i = Some (xs ! i)"
  by (simp add: idx_def)

lemma upd_in [simp]: "i < length xs \<Longrightarrow> upd xs i v = Some (xs[i := v])"
  by (simp add: upd_def)

lemma idx_eq_Some: "idx xs i = Some v \<longleftrightarrow> i < length xs \<and> xs ! i = v"
  by (auto simp: idx_def)

text \<open>
  \<open>xs.iter().filter(P).filter_map(f)\<close> and its kin stay as the library's \<open>filter\<close>, \<open>map\<close>,
  \<open>List.map_filter\<close>; \<open>enumerate\<close> pairs an element with its position from 0.
\<close>

definition enumerated :: "'a list \<Rightarrow> (nat \<times> 'a) list" where
  "enumerated xs = zip [0..<length xs] xs"

lemma length_enumerated [simp]: "length (enumerated xs) = length xs"
  by (simp add: enumerated_def)

lemma nth_enumerated [simp]: "i < length xs \<Longrightarrow> enumerated xs ! i = (i, xs ! i)"
  by (simp add: enumerated_def)

lemma in_set_enumerated: "(i, x) \<in> set (enumerated xs) \<longleftrightarrow> i < length xs \<and> x = xs ! i"
  unfolding enumerated_def in_set_zip by (force intro: exI [of _ i])

lemma enumerated_snoc: "enumerated (xs @ [x]) = enumerated xs @ [(length xs, x)]"
  by (simp add: enumerated_def)

lemma map_snd_enumerated [simp]: "map snd (enumerated xs) = xs"
  by (simp add: enumerated_def)

text \<open>\<open>Iterator::max_by\<close> returns the last of the greatest elements; the comparison is a boolean
  \<open>gt a b\<close>: the accumulated \<open>a\<close> is strictly greater than the new \<open>b\<close>.\<close>

fun max_by_from :: "('a \<Rightarrow> 'a \<Rightarrow> bool) \<Rightarrow> 'a \<Rightarrow> 'a list \<Rightarrow> 'a" where
  "max_by_from gt a [] = a"
| "max_by_from gt a (b # bs) = max_by_from gt (if gt a b then a else b) bs"

definition max_by :: "('a \<Rightarrow> 'a \<Rightarrow> bool) \<Rightarrow> 'a list \<Rightarrow> 'a option" where
  "max_by gt xs = (case xs of [] \<Rightarrow> None | a # as \<Rightarrow> Some (max_by_from gt a as))"

lemma max_by_from_in: "max_by_from gt a xs \<in> set (a # xs)"
  by (induction xs arbitrary: a) auto

lemma max_by_in: "max_by gt xs = Some m \<Longrightarrow> m \<in> set xs"
  using max_by_from_in [of gt] by (auto simp: max_by_def split: list.splits)

lemma max_by_None [simp]: "max_by gt xs = None \<longleftrightarrow> xs = []"
  by (simp add: max_by_def split: list.splits)

text \<open>\<open>min\<close> and \<open>max\<close> of an iterator of ordered values.\<close>

definition list_min :: "'a::linorder list \<Rightarrow> 'a option" where
  "list_min xs = (case xs of [] \<Rightarrow> None | y # ys \<Rightarrow> Some (fold min ys y))"

lemma fold_min_Min: "fold min ys y = Min (insert y (set ys))" for y :: "'a::linorder"
  by (metis Min.set_eq_fold list.simps(15))

lemma list_min_Min: "xs \<noteq> [] \<Longrightarrow> list_min xs = Some (Min (set xs))" for xs :: "'a::linorder list"
  by (cases xs) (simp_all add: list_min_def fold_min_Min)

lemma list_min_None [simp]: "list_min xs = None \<longleftrightarrow> xs = []"
  by (simp add: list_min_def split: list.splits)

lemma list_min_SomeD: "list_min xs = Some m \<Longrightarrow> m \<in> set xs \<and> (\<forall>x \<in> set xs. m \<le> x)"
  using list_min_Min [of xs] by (cases "xs = []") (auto simp: list_min_def)

section \<open>Keyed containers\<close>

text \<open>
  \<open>BTreeMap::insert\<close> on the list of entries in key order.  \<open>AHashMap::insert\<close> on the list of
  entries in insertion order; where the code iterates over an \<open>AHashMap\<close> and the order can be
  observed, the model permutes that list by a parameter.
\<close>

fun bt_insert :: "'k::linorder \<Rightarrow> 'v \<Rightarrow> ('k \<times> 'v) list \<Rightarrow> ('k \<times> 'v) list" where
  "bt_insert k v [] = [(k, v)]"
| "bt_insert k v ((k', v') # m) =
     (if k < k' then (k, v) # (k', v') # m
      else if k = k' then (k, v) # m
      else (k', v') # bt_insert k v m)"

fun ah_insert :: "'k \<Rightarrow> 'v \<Rightarrow> ('k \<times> 'v) list \<Rightarrow> ('k \<times> 'v) list" where
  "ah_insert k v [] = [(k, v)]"
| "ah_insert k v ((k', v') # m) = (if k = k' then (k, v) # m else (k', v') # ah_insert k v m)"

text \<open>\<open>*map.entry(k).or_insert(d) = f(old)\<close>, over either insertion.\<close>

definition entry_update ::
  "('k \<Rightarrow> 'v \<Rightarrow> ('k \<times> 'v) list \<Rightarrow> ('k \<times> 'v) list) \<Rightarrow> 'k \<Rightarrow> 'v \<Rightarrow> ('v \<Rightarrow> 'v) \<Rightarrow>
   ('k \<times> 'v) list \<Rightarrow> ('k \<times> 'v) list" where
  "entry_update ins k d f m = ins k (f (unwrap_or d (map_of m k))) m"

definition bt_sorted :: "('k::linorder \<times> 'v) list \<Rightarrow> bool" where
  "bt_sorted m \<longleftrightarrow> sorted_wrt (<) (map fst m)"

definition ah_distinct :: "('k \<times> 'v) list \<Rightarrow> bool" where
  "ah_distinct m \<longleftrightarrow> distinct (map fst m)"

text \<open>
  The interface the client code relies on: an insertion that overwrites one key and keeps the
  container's invariant, under which no key occurs twice.
\<close>

locale keyed_container =
  fixes ins :: "'k \<Rightarrow> 'v \<Rightarrow> ('k \<times> 'v) list \<Rightarrow> ('k \<times> 'v) list"
    and invar :: "('k \<times> 'v) list \<Rightarrow> bool"
  assumes invar_Nil: "invar []"
    and invar_ins: "invar m \<Longrightarrow> invar (ins k v m)"
    and lookup_ins: "map_of (ins k v m) = (map_of m)(k \<mapsto> v)"
    and invar_distinct: "invar m \<Longrightarrow> distinct (map fst m)"
begin

lemma keys_ins: "fst ` set (ins k v m) = insert k (fst ` set m)"
  by (metis dom_map_of_conv_image_fst lookup_ins dom_fun_upd option.discI)

lemma lookup_entry_update:
  "map_of (entry_update ins k d f m) = (map_of m)(k \<mapsto> f (unwrap_or d (map_of m k)))"
  by (simp add: entry_update_def lookup_ins)

lemma invar_entry_update: "invar m \<Longrightarrow> invar (entry_update ins k d f m)"
  by (simp add: entry_update_def invar_ins)

lemma invar_fold_entry_update:
  "invar m \<Longrightarrow> invar (fold (\<lambda>x. entry_update ins (key x) (d x) (f x)) xs m)"
  by (induction xs arbitrary: m) (simp_all add: invar_entry_update)

lemma lookup_fold_entry_update_gen:
  "map_of (fold (\<lambda>x. entry_update ins (key x) (d x) (f x)) xs m) k =
     fold (\<lambda>x old. Some (f x (unwrap_or (d x) old))) (filter (\<lambda>x. key x = k) xs) (map_of m k)"
  by (induction xs arbitrary: m) (simp_all add: lookup_entry_update)

lemma lookup_fold_entry_update:
  "map_of (fold (\<lambda>x. entry_update ins (key x) d (f x)) xs m) k =
     (if k \<in> key ` set xs
      then Some (fold (\<lambda>x. f x) (filter (\<lambda>x. key x = k) xs) (unwrap_or d (map_of m k)))
      else map_of m k)"
proof (induction xs arbitrary: m)
  case (Cons x xs)
  have "k \<notin> key ` set xs \<Longrightarrow> filter (\<lambda>x. key x = k) xs = []"
    by (auto simp: filter_empty_conv)
  with Cons.IH [of "entry_update ins (key x) d (f x) m"] show ?case
    by (auto simp: lookup_entry_update)
qed simp

lemma keys_fold_entry_update:
  "fst ` set (fold (\<lambda>x. entry_update ins (key x) d (f x)) xs m) = key ` set xs \<union> fst ` set m"
proof (induction xs arbitrary: m)
  case (Cons x xs)
  then show ?case by (auto simp: entry_update_def keys_ins)
qed simp

lemma entries_ins: "invar m \<Longrightarrow> (k', w) \<in> set (ins k v m) \<longleftrightarrow> (if k' = k then w = v else (k', w) \<in> set m)"
  using invar_distinct [OF invar_ins [of m k v]] invar_distinct [of m]
  by (metis (mono_tags, opaque_lifting) fun_upd_apply lookup_ins map_of_eq_Some_iff option.inject)

end

lemma keys_bt_insert: "fst ` set (bt_insert k v m) = insert k (fst ` set m)"
  by (induction k v m rule: bt_insert.induct) auto

lemma bt_sorted_insert: "bt_sorted m \<Longrightarrow> bt_sorted (bt_insert k v m)"
proof (induction k v m rule: bt_insert.induct)
  case (2 k v k' v' m)
  have "\<forall>x \<in> fst ` set (bt_insert k v m). k' < x" if "\<not> k < k'" "k \<noteq> k'"
    using that "2.prems" by (auto simp: keys_bt_insert bt_sorted_def)
  with 2 show ?case by (fastforce simp: bt_sorted_def)
qed (simp add: bt_sorted_def)

lemma keys_ah_insert: "fst ` set (ah_insert k v m) = insert k (fst ` set m)"
  by (induction k v m rule: ah_insert.induct) auto

lemma ah_distinct_insert: "ah_distinct m \<Longrightarrow> ah_distinct (ah_insert k v m)"
proof (induction k v m rule: ah_insert.induct)
  case (2 k v k' v' m)
  have "k' \<notin> fst ` set (ah_insert k v m)" if "k \<noteq> k'"
    using that "2.prems" by (simp add: keys_ah_insert ah_distinct_def)
  with 2 show ?case by (auto simp: ah_distinct_def)
qed (simp add: ah_distinct_def)

interpretation btree: keyed_container bt_insert bt_sorted
proof unfold_locales
  fix k :: 'a and v :: 'b and m :: "('a \<times> 'b) list"
  show "bt_sorted ([] :: ('a \<times> 'b) list)" by (simp add: bt_sorted_def)
  show "bt_sorted m \<Longrightarrow> bt_sorted (bt_insert k v m)" by (rule bt_sorted_insert)
  show "map_of (bt_insert k v m) = (map_of m)(k \<mapsto> v)"
    by (induction k v m rule: bt_insert.induct) auto
  show "bt_sorted m \<Longrightarrow> distinct (map fst m)" by (simp add: bt_sorted_def strict_sorted_iff)
qed

interpretation hashm: keyed_container ah_insert ah_distinct
proof unfold_locales
  fix k :: 'a and v :: 'b and m :: "('a \<times> 'b) list"
  show "ah_distinct ([] :: ('a \<times> 'b) list)" by (simp add: ah_distinct_def)
  show "ah_distinct m \<Longrightarrow> ah_distinct (ah_insert k v m)"
    by (rule ah_distinct_insert)
  show "map_of (ah_insert k v m) = (map_of m)(k \<mapsto> v)"
    by (induction k v m rule: ah_insert.induct) auto
  show "ah_distinct m \<Longrightarrow> distinct (map fst m)" by (simp add: ah_distinct_def)
qed

text \<open>Sorting and consecutive de-duplication (\<open>sort\<close>, \<open>dedup\<close>), sorted sets as lists.\<close>

definition sort_dedup :: "'a::linorder list \<Rightarrow> 'a list" where
  "sort_dedup xs = remdups_adj (sort xs)"

lemma set_sort_dedup [simp]: "set (sort_dedup xs) = set xs"
  by (simp add: sort_dedup_def)

lemma remdups_adj_sorted_distinct:
  "sorted xs \<Longrightarrow> distinct (remdups_adj xs)" for xs :: "'a::linorder list"
proof (induction xs rule: remdups_adj.induct)
  case (3 x y xs)
  then show ?case by (auto split: if_splits)
qed auto

lemma sorted_sort_dedup [simp]: "sorted (sort_dedup xs)"
  by (simp add: sort_dedup_def sorted_remdups_adj)

lemma distinct_sort_dedup [simp]: "distinct (sort_dedup xs)"
  by (simp add: sort_dedup_def remdups_adj_sorted_distinct)

lemma sort_dedup_eq: "sort_dedup xs = sorted_list_of_set (set xs)"
  by (metis distinct_sort_dedup sorted_sort_dedup set_sort_dedup sorted_list_of_set.idem_if_sorted_distinct)

section \<open>Buckets and first results\<close>

text \<open>
  A vector of accumulators, each event updating the one its key selects
  (\<open>for e in events { let v = &mut vs[key(e)]; .. }\<close>), and a loop that returns the first result.
\<close>

definition bucket_fold ::
  "('e \<Rightarrow> nat option) \<Rightarrow> ('e \<Rightarrow> 'v \<Rightarrow> 'v) \<Rightarrow> 'e list \<Rightarrow> 'v list \<Rightarrow> 'v list" where
  "bucket_fold key f es vs =
     fold (\<lambda>e vs. case key e of None \<Rightarrow> vs | Some k \<Rightarrow> vs[k := f e (vs ! k)]) es vs"

lemma length_bucket_fold [simp]: "length (bucket_fold key f es vs) = length vs"
  unfolding bucket_fold_def by (induction es arbitrary: vs) (auto split: option.splits)

lemma nth_bucket_fold:
  "k < length vs \<Longrightarrow> bucket_fold key f es vs ! k = fold f (filter (\<lambda>e. key e = Some k) es) (vs ! k)"
  unfolding bucket_fold_def
  by (induction es arbitrary: vs) (auto split: option.splits simp: nth_list_update)

fun first_some :: "('a \<Rightarrow> 'b option) \<Rightarrow> 'a list \<Rightarrow> 'b option" where
  "first_some f [] = None"
| "first_some f (x # xs) = (case f x of None \<Rightarrow> first_some f xs | Some y \<Rightarrow> Some y)"

lemma first_some_cong [fundef_cong]:
  "xs = ys \<Longrightarrow> (\<And>x. x \<in> set ys \<Longrightarrow> f x = g x) \<Longrightarrow> first_some f xs = first_some g ys"
  by (induction ys arbitrary: xs) (auto split: option.splits)

lemma first_some_SomeD: "first_some f xs = Some y \<Longrightarrow> \<exists>x \<in> set xs. f x = Some y"
  by (induction xs) (auto split: option.splits)

lemma first_some_None: "first_some f xs = None \<longleftrightarrow> (\<forall>x \<in> set xs. f x = None)"
  by (induction xs) (auto split: option.splits)

lemmas option_model_simps [model_simps] =
  opt_filter_def opt_zip_def unwrap_or_def is_some_and_def is_none_or_def then_some_def opt_or_def

lemma fold_Suc: "fold (\<lambda>_. Suc) xs n = n + length xs"
  by (induction xs arbitrary: n) simp_all

end
