(* ===== verification/F64.thy ===== *)
theory F64
  imports Prelude Complex_Main "HOL-Library.Log_Nat"
begin

text \<open>
  Rust's \<open>f64\<close>, as far as the analysis uses it: IEEE 754 binary64 values with the operations
  rounded to nearest, ties to even.  A value is \<open>NaN\<close>, an infinity (\<open>Inf True\<close> is the negative
  one) or a finite rational \<open>Fin q\<close>.  The two signed zeros are one value here: no operation of
  the modelled code distinguishes them (they compare equal, every division is by a number
  tested to be positive or by a count).  Every result of an operation is rounded (53 bit
  significand, exponent range of binary64, overflow to infinity, gradual underflow), so sums
  are neither associative nor exact, as in the program; comparisons with \<open>NaN\<close> are false and
  \<open>f64::max\<close> ignores a \<open>NaN\<close> operand, as in Rust.

  The lemmas give what the accounting code needs: rounding is monotone and idempotent, so a
  running sum of non-negative amounts never decreases and stays above each of its parts.
\<close>

section \<open>Powers of two and rounding\<close>

definition pow2 :: "int \<Rightarrow> rat" where
  "pow2 e = (if 0 \<le> e then 2 ^ nat e else 1 / 2 ^ nat (- e))"

lemma pow2_pos [simp]: "0 < pow2 e"
  by (simp add: pow2_def)

lemma pow2_nonzero [simp]: "pow2 e \<noteq> 0"
  using pow2_pos [of e] by linarith

lemma pow2_0 [simp]: "pow2 0 = 1"
  by (simp add: pow2_def)

lemma pow2_Suc: "pow2 (e + 1) = 2 * pow2 e"
proof (cases "0 \<le> e")
  case True
  then have "nat (e + 1) = Suc (nat e)" by simp
  with True show ?thesis by (simp add: pow2_def)
next
  case False
  show ?thesis
  proof (cases "e = -1")
    case False
    with \<open>\<not> 0 \<le> e\<close> have "nat (- e) = Suc (nat (- (e + 1)))" by simp
    with False \<open>\<not> 0 \<le> e\<close> show ?thesis by (simp add: pow2_def)
  qed (simp add: pow2_def)
qed

lemma pow2_add_nat: "pow2 (e + int n) = pow2 e * 2 ^ n"
proof (induction n)
  case (Suc n)
  have "pow2 (e + int (Suc n)) = pow2 ((e + int n) + 1)" by (simp add: algebra_simps)
  with Suc show ?case by (simp only: pow2_Suc) simp
qed simp

lemma pow2_mono: "a \<le> b \<Longrightarrow> pow2 a \<le> pow2 b"
  using pow2_add_nat [of a "nat (b - a)"] pow2_pos [of a] by (simp add: less_imp_le)

lemma pow2_less_iff: "pow2 a < pow2 b \<longleftrightarrow> a < b"
proof
  show "pow2 a < pow2 b \<Longrightarrow> a < b" using pow2_mono [of b a] by linarith
  assume "a < b"
  then have "pow2 (a + 1) \<le> pow2 b" by (intro pow2_mono) simp
  then have "2 * pow2 a \<le> pow2 b" by (simp add: pow2_Suc)
  then show "pow2 a < pow2 b" using pow2_pos [of a] by linarith
qed

lemma pow2_multiple: "a \<le> b \<Longrightarrow> \<exists>m::int. pow2 b = of_int m * pow2 a"
  using pow2_add_nat [of a "nat (b - a)"]
  by (intro exI [of _ "2 ^ nat (b - a)"]) (simp add: mult.commute)

text \<open>\<open>ilog2 q\<close>: the exponent of the leading bit of \<open>|q|\<close>, from the bit lengths of the
  numerator and the denominator.\<close>

definition ilog2 :: "rat \<Rightarrow> int" where
  "ilog2 q =
     (let (a, b) = quotient_of q; k = bitlen \<bar>a\<bar> - bitlen b
      in if pow2 k \<le> \<bar>q\<bar> then k else k - 1)"

lemma bitlen_pow2_bounds:
  assumes "0 < a" shows "pow2 (bitlen a - 1) \<le> of_int a" and "of_int a < pow2 (bitlen a)"
proof -
  have b: "2 ^ nat (bitlen a - 1) \<le> a \<and> a < 2 ^ nat (bitlen a)"
    using bitlen_bounds [OF assms] .
  have p: "0 < bitlen a" using bitlen_eq_zero_iff [of a] bitlen_nonneg [of a] assms by linarith
  have "(of_int (2 ^ nat (bitlen a - 1)) :: rat) \<le> of_int a" using b of_int_le_iff by blast
  then show "pow2 (bitlen a - 1) \<le> of_int a" using p by (simp add: pow2_def)
  have "(of_int a :: rat) < of_int (2 ^ nat (bitlen a))" using b of_int_less_iff by blast
  then show "of_int a < pow2 (bitlen a)" using p by (simp add: pow2_def)
qed

lemma pow2_diff: "pow2 (a - b) = pow2 a / pow2 b"
proof (cases "b \<le> a")
  case True
  then show ?thesis using pow2_add_nat [of b "nat (a - b)"] pow2_add_nat [of 0 "nat (a - b)"]
    by (simp add: field_simps)
next
  case False
  then show ?thesis using pow2_add_nat [of a "nat (b - a)"] pow2_add_nat [of "a - b" "nat (b - a)"]
    by (simp add: field_simps)
qed

lemma ilog2_bounds:
  assumes "q \<noteq> 0"
  shows "pow2 (ilog2 q) \<le> \<bar>q\<bar>" and "\<bar>q\<bar> < pow2 (ilog2 q + 1)"
proof -
  obtain a b where ab: "quotient_of q = (a, b)" by force
  then have q: "q = of_int a / of_int b" and b: "0 < b"
    by (simp_all add: quotient_of_div quotient_of_denom_pos)
  with assms have a: "0 < \<bar>a\<bar>" by auto
  let ?k = "bitlen \<bar>a\<bar> - bitlen b"
  have q': "\<bar>q\<bar> = of_int \<bar>a\<bar> / of_int b" using q b by simp
  have up: "\<bar>q\<bar> < pow2 (?k + 1)"
  proof -
    have "of_int \<bar>a\<bar> < pow2 (bitlen \<bar>a\<bar>)" by (rule bitlen_pow2_bounds [OF a])
    also have "\<dots> = pow2 (?k + 1) * pow2 (bitlen b - 1)"
      using pow2_diff [of "bitlen \<bar>a\<bar>" "bitlen b - 1"] by (simp add: algebra_simps)
    also have "\<dots> \<le> pow2 (?k + 1) * of_int b"
      using bitlen_pow2_bounds(1) [OF b] by (simp add: mult_left_mono less_imp_le)
    finally show ?thesis unfolding q' using b by (simp add: pos_divide_less_eq)
  qed
  have lo: "pow2 (?k - 1) \<le> \<bar>q\<bar>"
  proof -
    have "pow2 (?k - 1) * of_int b \<le> pow2 (?k - 1) * pow2 (bitlen b)"
      using bitlen_pow2_bounds(2) [OF b] by (simp add: mult_left_mono less_imp_le)
    also have "\<dots> = pow2 (bitlen \<bar>a\<bar> - 1)"
      using pow2_diff [of "bitlen \<bar>a\<bar> - 1" "bitlen b"] by (simp add: algebra_simps)
    also have "\<dots> \<le> of_int \<bar>a\<bar>" by (rule bitlen_pow2_bounds [OF a])
    finally show ?thesis unfolding q' using b by (simp add: pos_le_divide_eq)
  qed
  have il: "ilog2 q = (if pow2 ?k \<le> \<bar>q\<bar> then ?k else ?k - 1)"
    by (simp add: ilog2_def ab)
  show "pow2 (ilog2 q) \<le> \<bar>q\<bar>" using lo by (simp add: il)
  show "\<bar>q\<bar> < pow2 (ilog2 q + 1)" using up by (simp add: il)
qed

lemma ilog2_unique:
  assumes "q \<noteq> 0" "pow2 e \<le> \<bar>q\<bar>" "\<bar>q\<bar> < pow2 (e + 1)" shows "ilog2 q = e"
proof -
  have "pow2 e < pow2 (ilog2 q + 1)" and "pow2 (ilog2 q) < pow2 (e + 1)"
    using assms ilog2_bounds [OF assms(1)] by linarith+
  then show ?thesis by (simp add: pow2_less_iff)
qed

lemma ilog2_minus: "ilog2 (- q) = ilog2 q"
  by (cases "q = 0") (auto intro!: ilog2_unique dest: ilog2_bounds)

lemma ilog2_mono: "0 < q \<Longrightarrow> q \<le> q' \<Longrightarrow> ilog2 q \<le> ilog2 q'"
  using ilog2_bounds [of q] ilog2_bounds [of q'] pow2_less_iff [of "ilog2 q" "ilog2 q' + 1"]
  by simp

text \<open>Round to the nearest integer, ties to even.\<close>

definition round_half_even :: "rat \<Rightarrow> int" where
  "round_half_even q =
     (let n = \<lfloor>q\<rfloor>; d = q - of_int n
      in if d < 1 / 2 then n else if d > 1 / 2 then n + 1 else if even n then n else n + 1)"

lemma rhe_cases: "round_half_even q = \<lfloor>q\<rfloor> \<or> round_half_even q = \<lfloor>q\<rfloor> + 1"
  by (simp add: round_half_even_def Let_def)

lemma rhe_int [simp]: "round_half_even (of_int m) = m"
  by (simp add: round_half_even_def)

lemma rhe_mono:
  assumes "q \<le> q'" shows "round_half_even q \<le> round_half_even q'"
proof (cases "\<lfloor>q\<rfloor> = \<lfloor>q'\<rfloor>")
  case True
  with assms show ?thesis by (auto simp: round_half_even_def Let_def)
next
  case False
  with assms have "\<lfloor>q\<rfloor> + 1 \<le> \<lfloor>q'\<rfloor>" using floor_mono [OF assms] by simp
  then show ?thesis using rhe_cases [of q] rhe_cases [of q'] by linarith
qed

lemma rhe_uminus: "round_half_even (- q) = - round_half_even q"
proof (cases "q = of_int \<lfloor>q\<rfloor>")
  case True
  then show ?thesis by (metis of_int_minus rhe_int)
next
  case False
  have fl: "of_int \<lfloor>q\<rfloor> < q" "q < of_int \<lfloor>q\<rfloor> + 1"
    using False by linarith+
  have "\<lfloor>- q\<rfloor> = - \<lfloor>q\<rfloor> - 1" using fl by (intro floor_unique) simp_all
  then show ?thesis by (auto simp: round_half_even_def Let_def)
qed

definition round_at :: "int \<Rightarrow> rat \<Rightarrow> rat" where
  "round_at e q = of_int (round_half_even (q / pow2 e)) * pow2 e"

lemma round_at_mono: "q \<le> q' \<Longrightarrow> round_at e q \<le> round_at e q'"
  by (simp add: round_at_def rhe_mono divide_right_mono less_imp_le)

lemma round_at_multiple: "round_at e (of_int m * pow2 e) = of_int m * pow2 e"
  by (simp add: round_at_def)

lemma round_at_pow2: "e \<le> e' \<Longrightarrow> round_at e (pow2 e') = pow2 e'"
  using pow2_multiple round_at_multiple by metis

lemma round_at_uminus: "round_at e (- q) = - round_at e q"
  by (simp add: round_at_def rhe_uminus)

text \<open>The exponent of the last place of \<open>q\<close>: 53 significant bits, no finer than \<open>2 ^ (-1074)\<close>.\<close>

definition last_place :: "rat \<Rightarrow> int" where
  "last_place q = max (ilog2 q - 52) (-1074)"

definition round_rat :: "rat \<Rightarrow> rat" where
  "round_rat q = (if q = 0 then 0 else round_at (last_place q) q)"

lemma round_rat_0 [simp]: "round_rat 0 = 0"
  by (simp add: round_rat_def)

lemma round_rat_uminus: "round_rat (- q) = - round_rat q"
  by (simp add: round_rat_def last_place_def ilog2_minus round_at_uminus)

lemma round_rat_pos_mono:
  assumes q: "0 < q" and le: "q \<le> q'" shows "round_rat q \<le> round_rat q'"
proof (cases "last_place q = last_place q'")
  case True
  with assms show ?thesis by (simp add: round_rat_def round_at_mono)
next
  case False
  have il: "ilog2 q \<le> ilog2 q'" by (rule ilog2_mono [OF q le])
  with False have lp: "last_place q' = ilog2 q' - 52" "ilog2 q + 1 \<le> ilog2 q'"
    "last_place q \<le> ilog2 q'"
    by (auto simp: last_place_def max_def split: if_splits)
  let ?L = "pow2 (ilog2 q')"
  have "round_at (last_place q) q \<le> round_at (last_place q) ?L"
    using ilog2_bounds(2) [of q] q pow2_mono [OF lp(2)] by (intro round_at_mono) simp
  also have "\<dots> = ?L" by (rule round_at_pow2 [OF lp(3)])
  also have "\<dots> = round_at (last_place q') ?L" using lp(1) by (simp add: round_at_pow2)
  also have "\<dots> \<le> round_at (last_place q') q'"
    using ilog2_bounds(1) [of q'] q le by (intro round_at_mono) simp
  finally show ?thesis using q le by (simp add: round_rat_def)
qed

lemma round_rat_nonneg: "0 \<le> q \<Longrightarrow> 0 \<le> round_rat q"
  using round_at_mono [of 0 q "last_place q"] round_at_multiple [of "last_place q" 0]
  by (simp add: round_rat_def)

lemma round_rat_mono:
  assumes "q \<le> q'" shows "round_rat q \<le> round_rat q'"
proof -
  consider "0 < q" | "q \<le> 0" "0 \<le> q'" | "q' < 0" by linarith
  then show ?thesis
  proof cases
    case 2
    then have "0 \<le> round_rat (- q)" "0 \<le> round_rat q'" by (simp_all add: round_rat_nonneg)
    then show ?thesis by (simp add: round_rat_uminus)
  next
    case 3
    then have "round_rat (- q') \<le> round_rat (- q)" using assms by (intro round_rat_pos_mono) auto
    then show ?thesis by (simp add: round_rat_uminus)
  qed (use assms round_rat_pos_mono in blast)
qed

lemma round_rat_pos_idem:
  assumes "0 < q" shows "round_rat (round_rat q) = round_rat q"
proof -
  define e where "e = last_place q"
  define m where "m = round_half_even (q / pow2 e)"
  have r: "round_rat q = of_int m * pow2 e"
    using assms by (simp add: round_rat_def round_at_def e_def m_def)
  have m0: "0 \<le> m" using rhe_mono [of 0 "q / pow2 e"] assms
    by (simp add: m_def less_imp_le) (metis of_int_0 rhe_int)
  have "q < pow2 (ilog2 q + 1)" using ilog2_bounds(2) [of q] assms by simp
  also have "\<dots> \<le> pow2 (e + 53)" by (intro pow2_mono) (simp add: e_def last_place_def)
  finally have "q / pow2 e \<le> of_int (2 ^ 53)"
    using pow2_add_nat [of e 53] by (simp add: divide_le_eq mult.commute less_imp_le)
  then have m53: "m \<le> 2 ^ 53" unfolding m_def by (metis rhe_int rhe_mono)
  show ?thesis
  proof (cases "m = 0")
    case False
    then have rp: "0 < round_rat q" using m0 by (simp add: r)
    have "\<exists>j. round_rat q = of_int j * pow2 (last_place (round_rat q))"
    proof (cases "last_place (round_rat q) \<le> e")
      case True
      then obtain i where "pow2 e = of_int i * pow2 (last_place (round_rat q))"
        using pow2_multiple by blast
      then have "round_rat q = of_int (m * i) * pow2 (last_place (round_rat q))"
        by (simp add: r)
      then show ?thesis by blast
    next
      case False
      have "e \<ge> -1074" by (simp add: e_def last_place_def)
      with False have lp: "last_place (round_rat q) = ilog2 (round_rat q) - 52"
        "e + 53 \<le> ilog2 (round_rat q)" by (auto simp: last_place_def max_def split: if_splits)
      have "pow2 (e + 53) \<le> round_rat q"
        using ilog2_bounds(1) [of "round_rat q"] rp pow2_mono [OF lp(2)] by simp
      moreover have "round_rat q \<le> 2 ^ 53 * pow2 e"
        using m53 of_int_le_iff [of m "2 ^ 53", where 'a = rat] unfolding r
        by (intro mult_right_mono) (simp_all add: less_imp_le)
      ultimately have eq: "round_rat q = pow2 (e + 53)"
        using pow2_add_nat [of e 53] by (simp add: mult.commute)
      then have "ilog2 (round_rat q) = e + 53"
        using pow2_less_iff by (intro ilog2_unique) (simp_all add: less_imp_le)
      with lp eq have "round_rat q = of_int (2 ^ 52) * pow2 (last_place (round_rat q))"
        using pow2_add_nat [of "e + 1" 52] by (simp add: algebra_simps)
      then show ?thesis by blast
    qed
    then show ?thesis using rp round_at_multiple
      by (metis order_less_irrefl round_rat_def)
  qed (simp add: r)
qed

lemma round_rat_idem [simp]: "round_rat (round_rat q) = round_rat q"
proof (cases "0 < q \<or> q = 0")
  case False
  then have "round_rat (round_rat (- q)) = round_rat (- q)" by (intro round_rat_pos_idem) auto
  then show ?thesis by (simp add: round_rat_uminus)
qed (auto simp: round_rat_pos_idem)

section \<open>The values and operations\<close>

datatype f64 = NaN | Inf bool | Fin rat

text \<open>Overflow is decided after rounding, so values from \<open>2 ^ 1024 - 2 ^ 970\<close> on become infinite.\<close>

definition round_f64 :: "rat \<Rightarrow> f64" where
  "round_f64 q = (let r = round_rat q in if 2 ^ 1024 \<le> \<bar>r\<bar> then Inf (q < 0) else Fin r)"

fun f64_add :: "f64 \<Rightarrow> f64 \<Rightarrow> f64" where
  "f64_add (Fin a) (Fin b) = round_f64 (a + b)"
| "f64_add (Inf s) (Fin b) = Inf s"
| "f64_add (Fin a) (Inf t) = Inf t"
| "f64_add (Inf s) (Inf t) = (if s = t then Inf s else NaN)"
| "f64_add _ _ = NaN"

fun f64_neg :: "f64 \<Rightarrow> f64" where
  "f64_neg (Fin a) = Fin (- a)"
| "f64_neg (Inf s) = Inf (\<not> s)"
| "f64_neg NaN = NaN"

fun f64_mul :: "f64 \<Rightarrow> f64 \<Rightarrow> f64" where
  "f64_mul (Fin a) (Fin b) = round_f64 (a * b)"
| "f64_mul (Inf s) (Fin b) = (if b = 0 then NaN else Inf (s \<noteq> (b < 0)))"
| "f64_mul (Fin a) (Inf t) = (if a = 0 then NaN else Inf ((a < 0) \<noteq> t))"
| "f64_mul (Inf s) (Inf t) = Inf (s \<noteq> t)"
| "f64_mul _ _ = NaN"

fun f64_div :: "f64 \<Rightarrow> f64 \<Rightarrow> f64" where
  "f64_div (Fin a) (Fin b) =
     (if b = 0 then (if a = 0 then NaN else Inf (a < 0)) else round_f64 (a / b))"
| "f64_div (Inf s) (Fin b) = Inf (s \<noteq> (b < 0))"
| "f64_div (Fin a) (Inf t) = Fin 0"
| "f64_div _ _ = NaN"

fun f64_less :: "f64 \<Rightarrow> f64 \<Rightarrow> bool" where
  "f64_less (Fin a) (Fin b) \<longleftrightarrow> a < b"
| "f64_less (Inf s) (Fin b) \<longleftrightarrow> s"
| "f64_less (Fin a) (Inf t) \<longleftrightarrow> \<not> t"
| "f64_less (Inf s) (Inf t) \<longleftrightarrow> s \<and> \<not> t"
| "f64_less _ _ \<longleftrightarrow> False"

fun f64_le :: "f64 \<Rightarrow> f64 \<Rightarrow> bool" where
  "f64_le (Fin a) (Fin b) \<longleftrightarrow> a \<le> b"
| "f64_le (Inf s) (Fin b) \<longleftrightarrow> s"
| "f64_le (Fin a) (Inf t) \<longleftrightarrow> \<not> t"
| "f64_le (Inf s) (Inf t) \<longleftrightarrow> s \<or> \<not> t"
| "f64_le _ _ \<longleftrightarrow> False"

text \<open>The arithmetic and comparison operators of the code.\<close>

instantiation f64 :: "{zero, one, plus, minus, times, inverse, ord}"
begin

definition zero_f64 :: f64 where "zero_f64 = Fin 0"

definition one_f64 :: f64 where "one_f64 = Fin 1"

definition plus_f64 :: "f64 \<Rightarrow> f64 \<Rightarrow> f64" where "plus_f64 = f64_add"

definition minus_f64 :: "f64 \<Rightarrow> f64 \<Rightarrow> f64" where "minus_f64 a b = f64_add a (f64_neg b)"

definition times_f64 :: "f64 \<Rightarrow> f64 \<Rightarrow> f64" where "times_f64 = f64_mul"

definition divide_f64 :: "f64 \<Rightarrow> f64 \<Rightarrow> f64" where "divide_f64 = f64_div"

definition inverse_f64 :: "f64 \<Rightarrow> f64" where "inverse_f64 = f64_div (Fin 1)"

definition less_f64 :: "f64 \<Rightarrow> f64 \<Rightarrow> bool" where "less_f64 = f64_less"

definition less_eq_f64 :: "f64 \<Rightarrow> f64 \<Rightarrow> bool" where "less_eq_f64 = f64_le"

instance ..

end

definition is_finite :: "f64 \<Rightarrow> bool" where
  "is_finite x \<longleftrightarrow> (case x of Fin _ \<Rightarrow> True | _ \<Rightarrow> False)"

text \<open>\<open>f64::max\<close>: a \<open>NaN\<close> operand is ignored.\<close>

definition f64_max :: "f64 \<Rightarrow> f64 \<Rightarrow> f64" where
  "f64_max a b = (if a = NaN then b else if b = NaN then a else if a < b then b else a)"

text \<open>\<open>n as f64\<close> for an unsigned integer.\<close>

definition f64_of_nat :: "nat \<Rightarrow> f64" where
  "f64_of_nat n = round_f64 (of_nat n)"

lemmas f64_ops = zero_f64_def one_f64_def plus_f64_def minus_f64_def times_f64_def divide_f64_def
  less_f64_def less_eq_f64_def

section \<open>Facts for the accounting code\<close>

lemma round_f64_0 [simp]: "round_f64 0 = Fin 0"
  by (simp add: round_f64_def)

text \<open>Integers below \<open>2 ^ 53\<close> are exact; this also evaluates closed instances.\<close>

lemma round_rat_int:
  assumes "\<bar>n\<bar> < 2 ^ 53" shows "round_rat (of_int n) = of_int n"
proof (cases "n = 0")
  case False
  let ?q = "of_int n :: rat"
  have "pow2 (ilog2 ?q) \<le> \<bar>?q\<bar>" using False by (intro ilog2_bounds) simp
  also have "\<dots> = of_int \<bar>n\<bar>" by simp
  also have "\<dots> < of_int (2 ^ 53)" using assms of_int_less_iff by blast
  also have "\<dots> = pow2 53" by (simp add: pow2_def)
  finally have "last_place ?q \<le> 0" by (simp add: pow2_less_iff last_place_def)
  then obtain m where "pow2 0 = of_int m * pow2 (last_place ?q)" using pow2_multiple by blast
  then have "?q = of_int (n * m) * pow2 (last_place ?q)" by simp
  then show ?thesis using round_at_multiple round_rat_def by metis
qed simp

lemma round_f64_int:
  assumes "\<bar>n\<bar> < 2 ^ 53" shows "round_f64 (of_int n) = Fin (of_int n)"
proof -
  have "(of_int \<bar>n\<bar> :: rat) < of_int (2 ^ 53)" using assms of_int_less_iff by blast
  moreover have "(2 :: rat) ^ 53 \<le> 2 ^ 1024" by (rule power_increasing) simp_all
  ultimately have "\<not> 2 ^ 1024 \<le> \<bar>of_int n :: rat\<bar>" by simp
  then show ?thesis by (simp add: round_f64_def round_rat_int [OF assms])
qed

lemma round_f64_numeral:
  "(numeral k :: int) < 2 ^ 53 \<Longrightarrow> round_f64 (numeral k) = Fin (numeral k)"
  using round_f64_int [of "numeral k"] by simp

lemma round_f64_one [simp]: "round_f64 1 = Fin 1"
  using round_f64_int [of 1] by simp

lemma f64_le_iff: "x \<le> y \<longleftrightarrow> x \<noteq> NaN \<and> y \<noteq> NaN \<and> \<not> y < x" for x y :: f64
  by (cases x; cases y) (auto simp: f64_ops)

lemma f64_nonneg_iff: "0 \<le> x \<longleftrightarrow> (\<exists>q. x = Fin q \<and> 0 \<le> q) \<or> x = Inf False" for x :: f64
  by (cases x) (auto simp: f64_ops)

lemma f64_pos_nonneg: "0 < x \<Longrightarrow> 0 \<le> x" for x :: f64
  by (cases x) (auto simp: f64_ops)

lemma f64_nonneg_not_NaN: "0 \<le> x \<Longrightarrow> x \<noteq> NaN" for x :: f64
  by (auto simp: f64_nonneg_iff)

lemma f64_zero_le_zero [simp]: "0 \<le> (0 :: f64)"
  by (simp add: f64_ops)

lemma f64_not_zero_less [simp]: "\<not> 0 < (0 :: f64)"
  by (simp add: f64_ops)

lemma f64_le_refl: "x \<noteq> NaN \<Longrightarrow> x \<le> x" for x :: f64
  by (cases x) (simp_all add: f64_ops)

lemma f64_le_trans: "x \<le> y \<Longrightarrow> y \<le> z \<Longrightarrow> x \<le> z" for x y z :: f64
  by (cases x; cases y; cases z) (auto simp: f64_ops)

lemma f64_less_le_trans: "x < y \<Longrightarrow> y \<le> z \<Longrightarrow> x < z" for x y z :: f64
  by (cases x; cases y; cases z) (auto simp: f64_ops)

lemma f64_max_zero_nonneg [simp]: "0 \<le> f64_max x 0"
  by (cases x) (auto simp: f64_max_def f64_ops)

lemma f64_max_nonneg: "0 \<le> x \<Longrightarrow> 0 \<le> y \<Longrightarrow> 0 \<le> f64_max x y"
  by (auto simp: f64_max_def f64_nonneg_iff)

lemma f64_max_zero_pos: "0 < f64_max x 0 \<longleftrightarrow> 0 < x"
  by (cases x) (auto simp: f64_max_def f64_ops)

lemma f64_max_zero_zero [simp]: "f64_max 0 0 = 0"
  by (simp add: f64_max_def)

lemma round_rat_sign: "0 \<le> q \<Longrightarrow> 0 \<le> round_rat q" "q < 0 \<Longrightarrow> round_rat q \<le> 0"
  using round_rat_nonneg [of q] round_rat_nonneg [of "- q"] by (simp_all add: round_rat_uminus)

lemma round_f64_mono: "a \<le> b \<Longrightarrow> round_f64 a \<le> round_f64 b"
  using round_rat_mono [of a b] round_rat_sign [of a] round_rat_sign [of b]
  by (cases "a < 0"; cases "b < 0") (auto simp: round_f64_def Let_def f64_ops)

lemma round_f64_nonneg: "0 \<le> a \<Longrightarrow> 0 \<le> round_f64 a"
  using round_f64_mono [of 0 a] by (simp add: f64_ops)

lemma f64_add_nonneg:
  fixes x y :: f64
  assumes "0 \<le> x" "0 \<le> y" shows "0 \<le> x + y"
proof (cases x; cases y)
  fix a b assume x: "x = Fin a" and y: "y = Fin b"
  with assms have "0 \<le> a + b" by (simp add: f64_ops)
  with x y show ?thesis using round_f64_nonneg by (simp add: plus_f64_def)
qed (use assms in \<open>auto simp: f64_ops\<close>)

lemma f64_add_mono:
  fixes x y z :: f64
  assumes "x \<le> y" "0 \<le> x" "0 \<le> z" shows "x + z \<le> y + z"
  using assms
proof (cases x; cases y; cases z)
  fix a b c assume "x = Fin a" "y = Fin b" "z = Fin c"
  with assms round_f64_mono [of "a + c" "b + c"] show ?thesis by (simp add: f64_ops)
next
  fix a t c assume x: "x = Fin a" and y: "y = Inf t" and z: "z = Fin c"
  with assms have "0 \<le> round_f64 (a + c)" "\<not> t"
    using f64_add_nonneg [of x z] by (simp_all add: plus_f64_def less_eq_f64_def)
  with x y z show ?thesis by (cases "round_f64 (a + c)") (auto simp: f64_ops)
qed (auto simp: f64_ops)

text \<open>A value an operation can produce: adding a non-negative amount never makes it smaller.\<close>

definition rounded :: "f64 \<Rightarrow> bool" where
  "rounded x \<longleftrightarrow> (case x of Fin q \<Rightarrow> round_f64 q = Fin q | _ \<Rightarrow> True)"

lemma rounded_round_f64 [simp]: "rounded (round_f64 q)"
proof -
  have "round_f64 (round_rat q) = Fin (round_rat q)" if "\<not> 2 ^ 1024 \<le> \<bar>round_rat q\<bar>"
    using that by (simp add: round_f64_def)
  then show ?thesis by (auto simp: rounded_def round_f64_def [of q] Let_def)
qed

lemma rounded_zero [simp]: "rounded 0"
  by (simp add: rounded_def zero_f64_def)

lemma rounded_add [simp]: "rounded (x + y)"
  by (cases x; cases y) (auto simp: plus_f64_def, auto simp: rounded_def)

lemma f64_add_increasing:
  fixes x z :: f64
  assumes "rounded x" "0 \<le> x" "0 \<le> z" shows "x \<le> x + z"
proof (cases x; cases z)
  fix a c assume x: "x = Fin a" and z: "z = Fin c"
  with assms have "0 \<le> c" "round_f64 a = Fin a"
    by (simp_all add: rounded_def less_eq_f64_def zero_f64_def)
  with round_f64_mono [of a "a + c"] have "Fin a \<le> round_f64 (a + c)" by simp
  with x z show ?thesis by (simp add: plus_f64_def)
qed (use assms in \<open>auto simp: f64_ops\<close>)

lemma f64_div_le_one:
  fixes x y :: f64
  assumes "0 \<le> x" "x \<le> y" "0 < y" "is_finite x"
  shows "x / y \<le> 1"
proof (cases x; cases y)
  fix a b assume x: "x = Fin a" and y: "y = Fin b"
  with assms have "a / b \<le> 1" "0 < b" by (auto simp: f64_ops)
  then have "round_f64 (a / b) \<le> round_f64 1" by (intro round_f64_mono)
  then show ?thesis using x y \<open>0 < b\<close> by (simp add: divide_f64_def one_f64_def)
qed (use assms in \<open>auto simp: f64_ops is_finite_def\<close>)

lemma f64_div_nonneg:
  fixes x y :: f64
  assumes "0 \<le> x" "0 < y" "is_finite x" shows "0 \<le> x / y"
proof (cases x; cases y)
  fix a b assume x: "x = Fin a" and y: "y = Fin b"
  with assms show ?thesis using round_f64_nonneg [of "a / b"] by (auto simp: f64_ops)
qed (use assms in \<open>auto simp: f64_ops is_finite_def\<close>)

lemma f64_mul_nonneg:
  fixes x y :: f64
  assumes "0 \<le> x" "0 < y" "is_finite y" shows "0 \<le> x * y"
proof (cases x; cases y)
  fix a b assume x: "x = Fin a" and y: "y = Fin b"
  with assms show ?thesis using round_f64_nonneg [of "a * b"] by (auto simp: f64_ops)
qed (use assms in \<open>auto simp: f64_ops is_finite_def\<close>)

lemma f64_add_comm: "x + y = y + x" for x y :: f64
  by (cases x; cases y) (auto simp: plus_f64_def add.commute)

end
