(* ===== verification/Evidence.thy ===== *)
theory Evidence
  imports F64
begin

text \<open>
  The evidence a candidate contract is analysed from
  (\<open>src/analysis2/crates/core/src/enrich/types.rs\<close>): the records of the bundle field by
  field, the merging of legitimacy signals of several seed relations, the projection of a
  bundle to a reporting scope, and chain-aware normalisation of addresses and transaction ids.

  \<open>u64\<close> and \<open>u32\<close> values are \<open>nat\<close>, \<open>i64\<close> values are \<open>int\<close> (bounds are written out where the
  code saturates or checks), \<open>f64\<close> is the type of theory \<open>F64\<close>; a \<open>BTreeMap\<close> is its list of
  entries in key order.  Record fields carry a prefix (\<open>tr_\<close>, \<open>sa_\<close>, \<open>vf_\<close>, ...) for the struct
  they belong to.
\<close>

section \<open>Quality\<close>

datatype evidence_status = NotRequested | Complete | Empty | Truncated | Failed

record evidence_quality =
  q_transfers :: evidence_status
  q_sales :: evidence_status
  q_holders :: evidence_status
  q_prices :: evidence_status
  q_assets :: evidence_status
  q_histories :: evidence_status
  q_gas :: evidence_status
  q_value_flows :: evidence_status
  q_excluded_non_nft :: bool
  q_identity_exclusion_reason :: "string option"
  q_failures :: "string list"
  q_truncation_reasons :: "string list"

definition default_quality :: evidence_quality where
  "default_quality =
     \<lparr>q_transfers = NotRequested, q_sales = NotRequested, q_holders = NotRequested,
      q_prices = NotRequested, q_assets = NotRequested, q_histories = NotRequested,
      q_gas = NotRequested, q_value_flows = NotRequested, q_excluded_non_nft = False,
      q_identity_exclusion_reason = None, q_failures = [], q_truncation_reasons = []\<rparr>"

record evidence_observation =
  ob_source :: string
  ob_request_key :: string
  ob_observed_at :: int
  ob_status :: evidence_status

section \<open>Events\<close>

datatype value_flow_kind = Funding | Withdrawal | Cashout | RevenueBackflow

record value_flow_edge =
  vf_tx_hash :: string
  vf_event_id :: "string option"
  vf_from :: string
  vf_to :: string
  vf_kind :: value_flow_kind
  vf_native_amount :: "f64 option"
  vf_usd_amount :: "f64 option"
  vf_timestamp :: "int option"
  vf_gas_native :: "f64 option"
  vf_fee_payer :: "string option"

record transfer_event =
  tr_tx_hash :: string
  tr_token_id :: string
  tr_from :: string
  tr_to :: string
  tr_timestamp :: "int option"
  tr_block_number :: "nat option"
  tr_is_mint :: bool
  tr_gas_native :: "f64 option"
  tr_fee_payer :: "string option"
  tr_mint_payment_native :: "f64 option"
  tr_mint_payment_usd :: "f64 option"
  tr_mint_payment_receiver :: "string option"

record sale_event =
  sa_tx_hash :: string
  sa_token_id :: string
  sa_seller :: string
  sa_buyer :: string
  sa_timestamp :: "int option"
  sa_block_number :: "nat option"
  sa_marketplace :: "string option"
  sa_native_amount :: "f64 option"
  sa_usd_amount :: "f64 option"
  sa_currency_symbol :: "string option"
  sa_currency_address :: "string option"
  sa_sale_price_raw :: "string option"
  sa_seller_proceeds_native :: "f64 option"
  sa_seller_proceeds_usd :: "f64 option"
  sa_marketplace_fee_native :: "f64 option"
  sa_marketplace_fee_usd :: "f64 option"
  sa_marketplace_fee_currency_symbol :: "string option"
  sa_marketplace_fee_currency_address :: "string option"
  sa_royalty_fee_native :: "f64 option"
  sa_royalty_fee_usd :: "f64 option"
  sa_royalty_fee_currency_symbol :: "string option"
  sa_royalty_fee_currency_address :: "string option"
  sa_royalty_recipient :: "string option"
  sa_gas_native :: "f64 option"
  sa_fee_payer :: "string option"

definition default_sale :: sale_event where
  "default_sale =
     \<lparr>sa_tx_hash = [], sa_token_id = [], sa_seller = [], sa_buyer = [], sa_timestamp = None,
      sa_block_number = None, sa_marketplace = None, sa_native_amount = None,
      sa_usd_amount = None, sa_currency_symbol = None, sa_currency_address = None,
      sa_sale_price_raw = None, sa_seller_proceeds_native = None, sa_seller_proceeds_usd = None,
      sa_marketplace_fee_native = None, sa_marketplace_fee_usd = None,
      sa_marketplace_fee_currency_symbol = None, sa_marketplace_fee_currency_address = None,
      sa_royalty_fee_native = None, sa_royalty_fee_usd = None,
      sa_royalty_fee_currency_symbol = None, sa_royalty_fee_currency_address = None,
      sa_royalty_recipient = None, sa_gas_native = None, sa_fee_payer = None\<rparr>"

record deployment_event =
  dp_tx_hash :: string
  dp_timestamp :: "int option"
  dp_gas_native :: "f64 option"
  dp_fee_payer :: "string option"

record holder_record =
  ho_token_id :: string
  ho_owner :: string
  ho_balance :: "int option"

record price_bucket =
  pb_chain :: string
  pb_day_utc :: int
  pb_symbol :: string
  pb_token_address :: "string option"
  pb_usd_per_native :: f64

section \<open>Legitimacy signals\<close>

record legit_signals =
  ls_seed_open_license :: bool
  ls_verified_migration :: bool
  ls_authorized_reissue :: bool
  ls_official_controller_continuity :: bool
  ls_official_collection_relation :: bool
  ls_seed_nft_interaction :: bool
  ls_evidence_keys :: "string list"
  ls_verification_complete :: bool

definition default_signals :: legit_signals where
  "default_signals =
     \<lparr>ls_seed_open_license = False, ls_verified_migration = False, ls_authorized_reissue = False,
      ls_official_controller_continuity = False, ls_official_collection_relation = False,
      ls_seed_nft_interaction = False, ls_evidence_keys = [], ls_verification_complete = False\<rparr>"

definition is_legit_duplicate :: "legit_signals \<Rightarrow> bool" where
  "is_legit_duplicate s \<longleftrightarrow>
     ls_seed_open_license s \<or> ls_verified_migration s \<or> ls_authorized_reissue s \<or>
     ls_official_controller_continuity s \<or> ls_official_collection_relation s \<or>
     ls_seed_nft_interaction s"

text \<open>\<open>for key in &other.evidence_keys { if !self... { self.evidence_keys.push(key.clone()) } }\<close>\<close>

definition push_new :: "'a \<Rightarrow> 'a list \<Rightarrow> 'a list" where
  "push_new k ks = (if k \<in> set ks then ks else ks @ [k])"

definition merge_or :: "legit_signals \<Rightarrow> legit_signals \<Rightarrow> legit_signals" where
  "merge_or s other =
     \<lparr>ls_seed_open_license = (ls_seed_open_license s \<or> ls_seed_open_license other),
      ls_verified_migration = (ls_verified_migration s \<or> ls_verified_migration other),
      ls_authorized_reissue = (ls_authorized_reissue s \<or> ls_authorized_reissue other),
      ls_official_controller_continuity =
        (ls_official_controller_continuity s \<or> ls_official_controller_continuity other),
      ls_official_collection_relation =
        (ls_official_collection_relation s \<or> ls_official_collection_relation other),
      ls_seed_nft_interaction = (ls_seed_nft_interaction s \<or> ls_seed_nft_interaction other),
      ls_evidence_keys = fold push_new (ls_evidence_keys other) (ls_evidence_keys s),
      ls_verification_complete = (ls_verification_complete s \<or> ls_verification_complete other)\<rparr>"

section \<open>The bundle\<close>

record evidence_bundle =
  eb_contract_id :: nat
  eb_chain :: string
  eb_address :: string
  eb_transfers :: "transfer_event list"
  eb_sales :: "sale_event list"
  eb_holders :: "holder_record list"
  eb_collection_nft_count :: "nat option"
  eb_collection_nft_count_complete :: bool
  eb_prices :: "price_bucket list"
  eb_value_flows :: "value_flow_edge list"
  eb_quality :: evidence_quality
  eb_provenance :: "evidence_observation list"
  eb_controllers :: "string list"
  eb_deployment :: "deployment_event option"
  eb_deployment_timestamp :: "int option"
  eb_legit :: legit_signals
  eb_relation_legit :: "(string \<times> legit_signals) list"

definition empty_bundle :: "nat \<Rightarrow> string \<Rightarrow> string \<Rightarrow> evidence_bundle" where
  "empty_bundle contract_id chain address =
     \<lparr>eb_contract_id = contract_id, eb_chain = chain, eb_address = address, eb_transfers = [],
      eb_sales = [], eb_holders = [], eb_collection_nft_count = None,
      eb_collection_nft_count_complete = False, eb_prices = [], eb_value_flows = [],
      eb_quality = default_quality, eb_provenance = [], eb_controllers = [],
      eb_deployment = None, eb_deployment_timestamp = None, eb_legit = default_signals,
      eb_relation_legit = []\<rparr>"

text \<open>The merging loop of \<open>finalize_legit_signals\<close>, over the relations in key order; its second
  component is \<open>any_complete\<close>.\<close>

definition merge_relations :: "legit_signals list \<Rightarrow> legit_signals \<times> bool" where
  "merge_relations rs =
     fold (\<lambda>s (merged, any_complete). (merge_or merged s, any_complete \<or> ls_verification_complete s))
       rs (default_signals, False)"

definition finalize_legit_signals :: "evidence_bundle \<Rightarrow> evidence_bundle" where
  "finalize_legit_signals b =
     (if eb_relation_legit b \<noteq> []
      then let (merged, any_complete) = merge_relations (map snd (eb_relation_legit b))
           in b\<lparr>eb_legit :=
                (if is_legit_duplicate merged \<or> any_complete
                 then merged\<lparr>ls_verification_complete := True\<rparr> else merged)\<rparr>
      else if is_legit_duplicate (eb_legit b)
      then b\<lparr>eb_legit := (eb_legit b)\<lparr>ls_verification_complete := True\<rparr>\<rparr>
      else b\<lparr>eb_legit := (eb_legit b)\<lparr>ls_verification_complete := False\<rparr>\<rparr>)"

definition strip_for_analysis_memory :: "evidence_bundle \<Rightarrow> evidence_bundle" where
  "strip_for_analysis_memory b = b\<lparr>eb_provenance := []\<rparr>"

definition filtered_for_analysis :: "evidence_bundle \<Rightarrow> string set \<Rightarrow> evidence_bundle" where
  "filtered_for_analysis b seed_keys =
     finalize_legit_signals
       (b\<lparr>eb_relation_legit := filter (\<lambda>(seed_key, _). seed_key \<in> seed_keys) (eb_relation_legit b),
          eb_legit := default_signals\<rparr>)"

section \<open>Normalisation\<close>

definition normalize_chain_address :: "string \<Rightarrow> string \<Rightarrow> string" where
  "normalize_chain_address chain address =
     (let address = trim address
      in if eq_ignore_ascii_case (trim chain) ''solana'' then address
         else to_ascii_lowercase address)"

definition normalize_chain_transaction :: "string \<Rightarrow> string \<Rightarrow> string" where
  "normalize_chain_transaction chain tx_hash =
     (if eq_ignore_ascii_case (trim chain) ''solana'' then trim tx_hash
      else to_ascii_lowercase (trim tx_hash))"

definition chain_addresses_equal :: "string \<Rightarrow> string \<Rightarrow> string \<Rightarrow> bool" where
  "chain_addresses_equal chain left right \<longleftrightarrow>
     normalize_chain_address chain left = normalize_chain_address chain right"

definition status_from_count :: "nat \<Rightarrow> bool \<Rightarrow> evidence_status" where
  "status_from_count n truncated =
     (if truncated then Truncated else if n = 0 then Empty else Complete)"

text \<open>\<open>timestamp.div_euclid(86_400) * 86_400\<close>: for a positive divisor the Euclidean quotient is
  the floor.\<close>

definition day_bucket :: "int \<Rightarrow> int" where
  "day_bucket timestamp = timestamp div 86400 * 86400"

section \<open>API keys\<close>

record api_keys =
  ak_alchemy :: "string option"
  ak_etherscan :: "string option"
  ak_helius :: "string option"
  ak_opensea :: "string option"

definition nonempty :: "string option \<Rightarrow> string option" where
  "nonempty value = opt_filter (\<lambda>s. s \<noteq> []) (map_option trim value)"

definition alchemy_key :: "api_keys \<Rightarrow> string option" where
  "alchemy_key k = nonempty (ak_alchemy k)"

definition etherscan_key :: "api_keys \<Rightarrow> string option" where
  "etherscan_key k = nonempty (ak_etherscan k)"

definition helius_key :: "api_keys \<Rightarrow> string option" where
  "helius_key k = nonempty (ak_helius k)"

definition opensea_key :: "api_keys \<Rightarrow> string option" where
  "opensea_key k = nonempty (ak_opensea k)"

section \<open>Facts\<close>

lemma normalize_chain_address_idem [simp]:
  "normalize_chain_address c (normalize_chain_address c a) = normalize_chain_address c a"
  by (simp add: normalize_chain_address_def trim_lower Let_def)

lemma normalize_chain_address_Nil [simp]: "normalize_chain_address c [] = []"
  by (simp add: normalize_chain_address_def)

lemma normalize_chain_transaction_idem [simp]:
  "normalize_chain_transaction c (normalize_chain_transaction c a) = normalize_chain_transaction c a"
  by (simp add: normalize_chain_transaction_def trim_lower)

lemma set_fold_push_new: "set (fold push_new ks acc) = set acc \<union> set ks"
  by (induction ks arbitrary: acc) (auto simp: push_new_def)

lemma distinct_fold_push_new: "distinct acc \<Longrightarrow> distinct (fold push_new ks acc)"
  by (induction ks arbitrary: acc) (auto simp: push_new_def)

lemma fold_push_new_absorb: "set ks \<subseteq> set acc \<Longrightarrow> fold push_new ks acc = acc"
  by (induction ks arbitrary: acc) (auto simp: push_new_def)

lemma fold_push_new_push:
  "fold push_new (push_new k b) a = push_new k (fold push_new b a)"
  by (auto simp: push_new_def set_fold_push_new)

lemma fold_push_new_assoc:
  "fold push_new c (fold push_new b a) = fold push_new (fold push_new c b) a"
  by (induction c arbitrary: b) (simp_all flip: fold_push_new_push)

lemma legit_merge_or [simp]:
  "is_legit_duplicate (merge_or a b) \<longleftrightarrow> is_legit_duplicate a \<or> is_legit_duplicate b"
  by (auto simp: is_legit_duplicate_def merge_or_def)

lemma complete_merge_or [simp]:
  "ls_verification_complete (merge_or a b) \<longleftrightarrow> ls_verification_complete a \<or> ls_verification_complete b"
  by (simp add: merge_or_def)

lemma keys_merge_or [simp]:
  "set (ls_evidence_keys (merge_or a b)) = set (ls_evidence_keys a) \<union> set (ls_evidence_keys b)"
  by (simp add: merge_or_def set_fold_push_new)

lemma merge_or_idem: "merge_or a a = a"
  by (simp add: merge_or_def fold_push_new_absorb)

interpretation merge_or: semigroup merge_or
  by unfold_locales (simp add: merge_or_def fold_push_new_assoc disj_assoc)

lemma default_signals_legit [simp]: "\<not> is_legit_duplicate default_signals"
  by (simp add: is_legit_duplicate_def default_signals_def)

lemma default_signals_fields [simp]:
  "ls_verification_complete default_signals = False" "ls_evidence_keys default_signals = []"
  by (simp_all add: default_signals_def)

lemma merge_relations_fold:
  "fold (\<lambda>s (merged, any_complete). (merge_or merged s, any_complete \<or> ls_verification_complete s)) rs (m, c) =
     (fold (\<lambda>s m. merge_or m s) rs m, c \<or> (\<exists>s \<in> set rs. ls_verification_complete s))"
  by (induction rs arbitrary: m c) auto

lemma merge_relations_eq:
  "merge_relations rs =
     (fold (\<lambda>s m. merge_or m s) rs default_signals, \<exists>s \<in> set rs. ls_verification_complete s)"
  by (simp add: merge_relations_def merge_relations_fold)

lemma legit_fold_merge:
  "is_legit_duplicate (fold (\<lambda>s m. merge_or m s) rs m) \<longleftrightarrow>
     is_legit_duplicate m \<or> (\<exists>s \<in> set rs. is_legit_duplicate s)"
  by (induction rs arbitrary: m) auto

lemma complete_fold_merge:
  "ls_verification_complete (fold (\<lambda>s m. merge_or m s) rs m) \<longleftrightarrow>
     ls_verification_complete m \<or> (\<exists>s \<in> set rs. ls_verification_complete s)"
  by (induction rs arbitrary: m) auto

lemma keys_fold_merge:
  "set (ls_evidence_keys (fold (\<lambda>s m. merge_or m s) rs m)) =
     set (ls_evidence_keys m) \<union> (\<Union>s \<in> set rs. set (ls_evidence_keys s))"
  by (induction rs arbitrary: m) auto

lemma finalize_legit_frame [simp]:
  "eb_relation_legit (finalize_legit_signals b) = eb_relation_legit b"
  "eb_chain (finalize_legit_signals b) = eb_chain b"
  "eb_transfers (finalize_legit_signals b) = eb_transfers b"
  "eb_sales (finalize_legit_signals b) = eb_sales b"
  "eb_holders (finalize_legit_signals b) = eb_holders b"
  "eb_contract_id (finalize_legit_signals b) = eb_contract_id b"
  by (simp_all add: finalize_legit_signals_def split: prod.splits)

text \<open>\<open>finalize_legit_signals\<close> on a bundle with seed relations: the top-level signals are legitimate
  exactly when some relation is, carry exactly the relations' evidence keys, are marked complete
  exactly when some relation is legitimate or was verified completely, and finalising again
  changes nothing.\<close>

theorem finalize_legit_signals_spec:
  fixes b :: evidence_bundle
  defines "f \<equiv> finalize_legit_signals b"
  defines "rs \<equiv> map snd (eb_relation_legit b)"
  assumes "eb_relation_legit b \<noteq> []"
  shows "(is_legit_duplicate (eb_legit f) \<longleftrightarrow> (\<exists>s \<in> set rs. is_legit_duplicate s)) \<and>
    set (ls_evidence_keys (eb_legit f)) = (\<Union>s \<in> set rs. set (ls_evidence_keys s)) \<and>
    (ls_verification_complete (eb_legit f) \<longleftrightarrow>
       (\<exists>s \<in> set rs. is_legit_duplicate s \<or> ls_verification_complete s)) \<and>
    finalize_legit_signals f = f"
proof -
  let ?m = "fold (\<lambda>s m. merge_or m s) rs default_signals"
  have legit_upd: "is_legit_duplicate (s\<lparr>ls_verification_complete := v\<rparr>) = is_legit_duplicate s"
    for s :: legit_signals and v by (simp add: is_legit_duplicate_def)
  have f: "f = b\<lparr>eb_legit := (if is_legit_duplicate ?m \<or> (\<exists>s \<in> set rs. ls_verification_complete s)
      then ?m\<lparr>ls_verification_complete := True\<rparr> else ?m)\<rparr>"
    using assms(3) by (simp add: f_def rs_def finalize_legit_signals_def merge_relations_eq)
  have "finalize_legit_signals f = f"
    using assms(3) unfolding f by (simp add: finalize_legit_signals_def merge_relations_eq rs_def)
  moreover have "is_legit_duplicate (eb_legit f) \<longleftrightarrow> (\<exists>s \<in> set rs. is_legit_duplicate s)"
    unfolding f by (simp add: legit_upd legit_fold_merge)
  moreover have "set (ls_evidence_keys (eb_legit f)) = (\<Union>s \<in> set rs. set (ls_evidence_keys s))"
    unfolding f by (simp add: keys_fold_merge)
  moreover have "ls_verification_complete (eb_legit f) \<longleftrightarrow>
      (\<exists>s \<in> set rs. is_legit_duplicate s \<or> ls_verification_complete s)"
    unfolding f by (auto simp: legit_fold_merge complete_fold_merge)
  ultimately show ?thesis by blast
qed

theorem finalize_legit_signals_spec_witness:
  "let s = default_signals\<lparr>ls_verified_migration := True, ls_evidence_keys := [''k'']\<rparr>;
       b = (empty_bundle 1 ''base'' ''0x1'')\<lparr>eb_relation_legit := [(''base:0x2'', s)]\<rparr>;
       f = finalize_legit_signals b
   in is_legit_duplicate (eb_legit f) \<and> ls_verification_complete (eb_legit f) \<and>
      set (ls_evidence_keys (eb_legit f)) = {''k''} \<and> finalize_legit_signals f = f"
proof -
  let ?s = "default_signals\<lparr>ls_verified_migration := True, ls_evidence_keys := [''k'']\<rparr>"
  let ?b = "(empty_bundle 1 ''base'' ''0x1'')\<lparr>eb_relation_legit := [(''base:0x2'', ?s)]\<rparr>"
  have h: "eb_relation_legit ?b \<noteq> []" by simp
  show ?thesis using finalize_legit_signals_spec [OF h] by (simp add: is_legit_duplicate_def)
qed

text \<open>Projecting a bundle to a reporting scope and then to another one is the projection to the
  seeds both scopes have, and projection keeps exactly the relations of the scope's seeds.\<close>

theorem filtered_for_analysis_compose:
  "filtered_for_analysis (filtered_for_analysis b S) T = filtered_for_analysis b (S \<inter> T) \<and>
   eb_relation_legit (filtered_for_analysis b S) =
     filter (\<lambda>e. fst e \<in> S) (eb_relation_legit b)"
proof -
  have upd: "(finalize_legit_signals c)\<lparr>eb_relation_legit := r, eb_legit := l\<rparr> =
      c\<lparr>eb_relation_legit := r, eb_legit := l\<rparr>" for c r l
    by (simp add: finalize_legit_signals_def split: prod.splits)
  show ?thesis
    unfolding filtered_for_analysis_def upd by (simp add: case_prod_unfold conj_commute)
qed

end
