(* ===== verification/Roles.thy ===== *)
theory Roles
  imports Evidence
begin

text \<open>
  Who is a victim (\<open>enrich/roles.rs\<close>) and when a candidate is a legitimate duplicate
  (\<open>analysis/legit.rs\<close>), both under \<open>src/analysis2/crates/core/src\<close>.  An \<open>AHashSet\<close> that is only
  asked for membership is a set; here it is the set of a list, so it evaluates.
\<close>

section \<open>Victims\<close>

definition zero_address :: string where
  "zero_address = ''0x0000000000000000000000000000000000000000''"

definition is_solana :: "string \<Rightarrow> bool" where
  "is_solana chain \<longleftrightarrow> eq_ignore_ascii_case chain ''solana''"

definition usable_address :: "string \<Rightarrow> string \<Rightarrow> string option" where
  "usable_address chain raw =
     (let address = normalize_chain_address chain raw
      in if address = [] \<or> (\<not> is_solana chain \<and> address = zero_address) then None
         else Some address)"

definition paid :: "f64 option \<Rightarrow> f64 option \<Rightarrow> bool" where
  "paid native usd \<longleftrightarrow>
     is_some_and (\<lambda>amount. amount > 0) native \<or> is_some_and (\<lambda>amount. amount > 0) usd"

record holder_snapshot =
  hs_records :: "holder_record list"
  hs_status :: evidence_status

text \<open>\<open>holder.balance.is_none_or(|balance| balance > 0)\<close>\<close>

definition holds :: "holder_record \<Rightarrow> bool" where
  "holds h \<longleftrightarrow> is_none_or (\<lambda>balance. balance > 0) (ho_balance h)"

text \<open>The bodies of the two loops and of the holder iterator: what each event adds.\<close>

definition mint_acquisition :: "string \<Rightarrow> transfer_event \<Rightarrow> (string \<times> string) option" where
  "mint_acquisition chain t =
     (if tr_is_mint t \<and> paid (tr_mint_payment_native t) (tr_mint_payment_usd t)
      then case usable_address chain (tr_to t) of
             None \<Rightarrow> None
           | Some recipient \<Rightarrow> then_some (tr_token_id t \<noteq> []) (recipient, tr_token_id t)
      else None)"

definition sale_acquisition :: "string \<Rightarrow> sale_event \<Rightarrow> (string \<times> string) option" where
  "sale_acquisition chain s =
     (if paid (sa_native_amount s) (sa_usd_amount s)
      then case usable_address chain (sa_buyer s) of
             None \<Rightarrow> None
           | Some buyer \<Rightarrow> then_some (sa_token_id s \<noteq> []) (buyer, sa_token_id s)
      else None)"

definition current_holding :: "string \<Rightarrow> holder_record \<Rightarrow> (string \<times> string) option" where
  "current_holding chain h =
     (if holds h
      then map_option (\<lambda>owner. (owner, ho_token_id h))
             (opt_filter (\<lambda>_. ho_token_id h \<noteq> []) (usable_address chain (ho_owner h)))
      else None)"

definition victim_addresses ::
  "string \<Rightarrow> transfer_event list \<Rightarrow> sale_event list \<Rightarrow> holder_snapshot \<Rightarrow> string set" where
  "victim_addresses chain transfers sales holders =
     (if hs_status holders \<notin> {Complete, Empty} then {}
      else let paid_acquisitions =
                 set (List.map_filter (mint_acquisition chain) transfers) \<union>
                 set (List.map_filter (sale_acquisition chain) sales);
               current_holdings = set (List.map_filter (current_holding chain) (hs_records holders))
           in fst ` (paid_acquisitions \<inter> current_holdings))"

lemma usable_address_SomeD:
  "usable_address chain raw = Some a \<Longrightarrow>
     a = normalize_chain_address chain raw \<and> a \<noteq> [] \<and> (is_solana chain \<or> a \<noteq> zero_address)"
  by (auto simp: usable_address_def Let_def split: if_splits)

lemma set_map_filter: "y \<in> set (List.map_filter f xs) \<longleftrightarrow> (\<exists>x \<in> set xs. f x = Some y)"
  by (force simp: List.map_filter_def)

text \<open>An address is a victim exactly when the holder snapshot is complete (or conclusively empty)
  and for some token the address is the normalised, non-zero recipient of a paid mint or buyer
  of a paid sale of it and the snapshot still lists it as a holder of the same token.\<close>

theorem victim_addresses_iff:
  "a \<in> victim_addresses chain transfers sales holders \<longleftrightarrow>
     hs_status holders \<in> {Complete, Empty} \<and>
     (\<exists>token. token \<noteq> [] \<and>
        ((\<exists>t \<in> set transfers. tr_is_mint t \<and> tr_token_id t = token \<and>
            paid (tr_mint_payment_native t) (tr_mint_payment_usd t) \<and>
            usable_address chain (tr_to t) = Some a) \<or>
         (\<exists>s \<in> set sales. sa_token_id s = token \<and> paid (sa_native_amount s) (sa_usd_amount s) \<and>
            usable_address chain (sa_buyer s) = Some a)) \<and>
        (\<exists>h \<in> set (hs_records holders). ho_token_id h = token \<and> holds h \<and>
            usable_address chain (ho_owner h) = Some a))"
proof -
  have m: "mint_acquisition chain t = Some (a, token) \<longleftrightarrow> token \<noteq> [] \<and> tr_is_mint t \<and>
      tr_token_id t = token \<and> paid (tr_mint_payment_native t) (tr_mint_payment_usd t) \<and>
      usable_address chain (tr_to t) = Some a" for t token
    by (auto simp: mint_acquisition_def split: option.splits)
  have s: "sale_acquisition chain s = Some (a, token) \<longleftrightarrow> token \<noteq> [] \<and> sa_token_id s = token \<and>
      paid (sa_native_amount s) (sa_usd_amount s) \<and> usable_address chain (sa_buyer s) = Some a"
    for s token by (auto simp: sale_acquisition_def split: option.splits)
  have h: "current_holding chain h = Some (a, token) \<longleftrightarrow> token \<noteq> [] \<and> ho_token_id h = token \<and>
      holds h \<and> usable_address chain (ho_owner h) = Some a" for h token
    by (auto simp: current_holding_def)
  have im: "a \<in> fst ` (A \<inter> B) \<longleftrightarrow> (\<exists>token. (a, token) \<in> A \<and> (a, token) \<in> B)"
    for A B :: "(string \<times> string) set" by force
  show ?thesis
    unfolding victim_addresses_def Let_def
    by (simp add: im set_map_filter m s h del: Int_iff) blast
qed

lemma usable_address_norm:
  "usable_address chain raw = Some a \<Longrightarrow>
     a \<noteq> [] \<and> normalize_chain_address chain a = a \<and> (is_solana chain \<or> a \<noteq> zero_address)"
  by (auto dest!: usable_address_SomeD)

lemma victim_holds:
  assumes "a \<in> victim_addresses chain transfers sales holders"
  obtains h where "h \<in> set (hs_records holders)" "holds h" "usable_address chain (ho_owner h) = Some a"
    "ho_token_id h \<noteq> []"
proof -
  from assms obtain p where "p \<in> set (List.map_filter (current_holding chain) (hs_records holders))"
    "fst p = a"
    by (auto simp: victim_addresses_def Let_def split: if_splits)
  then obtain h where "h \<in> set (hs_records holders)" "current_holding chain h = Some p"
    by (auto simp: set_map_filter)
  with \<open>fst p = a\<close> that show ?thesis by (auto simp: current_holding_def split: if_splits)
qed

lemma victim_usable:
  "a \<in> victim_addresses chain transfers sales holders \<Longrightarrow>
     a \<noteq> [] \<and> normalize_chain_address chain a = a \<and> (is_solana chain \<or> a \<noteq> zero_address)"
  by (elim victim_holds usable_address_norm)

section \<open>Legitimate duplicates\<close>

record legit_classification =
  lc_is_legit_duplicate :: bool
  lc_verification_complete :: bool
  lc_evidence_keys :: "string list"
  lc_reasons :: "string list"

definition push_if :: "bool \<Rightarrow> 'a \<Rightarrow> 'a list \<Rightarrow> 'a list" where
  "push_if b x xs = (if b then xs @ [x] else xs)"

definition classify :: "legit_signals \<Rightarrow> legit_classification" where
  "classify s =
     (let reasons = [];
          reasons = push_if (ls_seed_open_license s) ''seed_open_license'' reasons;
          reasons = push_if (ls_verified_migration s) ''verified_migration'' reasons;
          reasons = push_if (ls_authorized_reissue s) ''authorized_reissue'' reasons;
          reasons = push_if (ls_official_controller_continuity s)
                      ''official_controller_continuity'' reasons;
          reasons = push_if (ls_official_collection_relation s)
                      ''official_collection_relation'' reasons;
          reasons = push_if (ls_seed_nft_interaction s) ''seed_nft_interaction'' reasons
      in \<lparr>lc_is_legit_duplicate = is_legit_duplicate s,
          lc_verification_complete = ls_verification_complete s,
          lc_evidence_keys = ls_evidence_keys s,
          lc_reasons = reasons\<rparr>)"

lemma classify_fields [simp]:
  "lc_is_legit_duplicate (classify s) = is_legit_duplicate s"
  "lc_verification_complete (classify s) = ls_verification_complete s"
  "lc_evidence_keys (classify s) = ls_evidence_keys s"
  by (simp_all add: classify_def Let_def)

lemma classify_reasons: "lc_reasons (classify s) \<noteq> [] \<longleftrightarrow> lc_is_legit_duplicate (classify s)"
  by (auto simp: classify_def Let_def push_if_def is_legit_duplicate_def)

end
