(* ===== verification/Address.thy ===== *)
theory Address
  imports Prelude "HOL-Library.Word"
begin

text \<open>
  Address validation (\<open>src/analysis2/crates/core/src/seed/address.rs\<close>): chain names, EVM
  addresses and the base58 decoder that decides whether a Solana address has 32 bytes.  Bytes
  are \<open>8 word\<close>, the carry of the decoder is the \<open>u16\<close> of the code, \<open>16 word\<close>.  The decoder is
  proved to compute the byte length of the number the digits denote, without an overflow of the
  \<open>u16\<close> carry; normalisation is proved to be idempotent and to return valid addresses only.
\<close>

section \<open>Chains and EVM addresses\<close>

definition is_evm_chain :: "string \<Rightarrow> bool" where
  "is_evm_chain chain \<longleftrightarrow>
     to_ascii_lowercase (trim chain) \<in> {''ethereum'', ''base'', ''polygon'', ''matic''}"

definition strip_prefix :: "string \<Rightarrow> string \<Rightarrow> string option" where
  "strip_prefix p s = (if take (length p) s = p then Some (drop (length p) s) else None)"

definition is_ascii_hexdigit :: "char \<Rightarrow> bool" where
  "is_ascii_hexdigit c \<longleftrightarrow>
     (let n = of_char c :: nat
      in (48 \<le> n \<and> n \<le> 57) \<or> (65 \<le> n \<and> n \<le> 70) \<or> (97 \<le> n \<and> n \<le> 102))"

definition valid_evm_address :: "string \<Rightarrow> bool" where
  "valid_evm_address value =
     (let v = trim value
      in is_some_and (\<lambda>hex. length hex = 40 \<and> list_all is_ascii_hexdigit hex)
           (opt_or (strip_prefix ''0x'' v) (strip_prefix ''0X'' v)))"

section \<open>Base58\<close>

definition base58_alphabet :: string where
  "base58_alphabet = ''123456789ABCDEFGHJKLMNPQRSTUVWXYZabcdefghijkmnopqrstuvwxyz''"

text \<open>\<open>ALPHABET.iter().position(|c| *c == byte)\<close>\<close>

fun position :: "'a \<Rightarrow> 'a list \<Rightarrow> nat option" where
  "position x [] = None"
| "position x (y # ys) = (if y = x then Some 0 else map_option Suc (position x ys))"

text \<open>The inner loop \<open>for part in &mut decoded\<close>: the new bytes and the carry that is left.\<close>

fun carry_pass :: "8 word list \<Rightarrow> 16 word \<Rightarrow> 8 word list \<times> 16 word" where
  "carry_pass [] carry = ([], carry)"
| "carry_pass (part # parts) carry =
     (let value = ucast part * 58 + carry;
          (rest, out) = carry_pass parts (drop_bit 8 value)
      in (ucast value # rest, out))"

text \<open>Widening, narrowing and shifting of the carry, as numbers.  Then
  \<open>while carry > 0 { decoded.push(carry as u8); carry >>= 8; }\<close>\<close>

lemma unat_drop8: "unat (drop_bit 8 (w :: 16 word)) = unat w div 256"
  by (subst unat_drop_bit_eq) (simp add: drop_bit_eq_div)

lemma unat_low8: "unat (ucast (w :: 16 word) :: 8 word) = unat w mod 256"
  by (simp add: unsigned_ucast_eq take_bit_eq_mod)

lemma unat_byte: "unat (b :: 8 word) < 256"
  using unsigned_less [of b] by simp

lemma unat_widen: "unat (ucast (b :: 8 word) :: 16 word) = unat b"
  using unat_byte [of b] by (simp add: unsigned_ucast_eq take_bit_eq_mod)

function carry_bytes :: "16 word \<Rightarrow> 8 word list" where
  "carry_bytes carry =
     (if carry > 0 then ucast carry # carry_bytes (drop_bit 8 carry) else [])"
  by pat_completeness auto
termination
proof (relation "measure unat")
  fix carry :: "16 word" assume "carry > 0"
  then have "unat carry > 0" by (simp add: word_gt_0 unat_gt_0)
  then show "(drop_bit 8 carry, carry) \<in> measure unat"
    by (simp add: unat_drop8)
qed simp

declare carry_bytes.simps [simp del]

definition base58_push :: "8 word list \<Rightarrow> nat \<Rightarrow> 8 word list" where
  "base58_push decoded digit =
     (let (parts, carry) = carry_pass decoded (of_nat digit) in parts @ carry_bytes carry)"

text \<open>The loop over the bytes; an unknown byte ends it with \<open>None\<close>.\<close>

fun base58_loop :: "string \<Rightarrow> 8 word list \<Rightarrow> 8 word list option" where
  "base58_loop [] decoded = Some decoded"
| "base58_loop (byte # bytes) decoded =
     (case position byte base58_alphabet of
        None \<Rightarrow> None
      | Some digit \<Rightarrow> base58_loop bytes (base58_push decoded digit))"

text \<open>\<open>while decoded.last() == Some(&0) && decoded.len() > 1 { decoded.pop(); }\<close>\<close>

function pop_zeroes :: "8 word list \<Rightarrow> 8 word list" where
  "pop_zeroes d = (if d \<noteq> [] \<and> last d = 0 \<and> length d > 1 then pop_zeroes (butlast d) else d)"
  by pat_completeness auto
termination by (relation "measure length") auto

declare pop_zeroes.simps [simp del]

lemma pop_zeroes_rec: "d \<noteq> [] \<Longrightarrow> last d = 0 \<Longrightarrow> 1 < length d \<Longrightarrow> pop_zeroes d = pop_zeroes (butlast d)"
  by (simp add: pop_zeroes.simps [of d])

lemma pop_zeroes_stop: "\<not> (d \<noteq> [] \<and> last d = 0 \<and> 1 < length d) \<Longrightarrow> pop_zeroes d = d"
  by (subst pop_zeroes.simps) (simp only: if_False)

definition base58_decoded_len :: "string \<Rightarrow> nat option" where
  "base58_decoded_len value =
     (if value = [] then None
      else let leading_zeroes = length (takeWhile (\<lambda>b. b = CHR ''1'') value)
           in case base58_loop value [0] of
                None \<Rightarrow> None
              | Some decoded \<Rightarrow>
                  (let decoded = pop_zeroes decoded;
                       body_len = (if decoded = [0] then 0 else length decoded)
                   in Some (leading_zeroes + body_len)))"

definition valid_solana_address :: "string \<Rightarrow> bool" where
  "valid_solana_address value \<longleftrightarrow> base58_decoded_len (trim value) = Some 32"

definition normalize_address :: "string \<Rightarrow> string \<Rightarrow> string option" where
  "normalize_address chain address =
     (let chain = to_ascii_lowercase (trim chain); address = trim address
      in if is_evm_chain chain
         then (if valid_evm_address address then Some (to_ascii_lowercase address) else None)
         else if chain = ''solana''
         then (if valid_solana_address address then Some address else None)
         else None)"

section \<open>What the decoder computes\<close>

text \<open>Little-endian value of a byte list, value of a base58 numeral, byte length of a number.\<close>

fun le_value :: "8 word list \<Rightarrow> nat" where
  "le_value [] = 0"
| "le_value (b # bs) = unat b + 256 * le_value bs"

definition base58_value :: "string \<Rightarrow> nat" where
  "base58_value s = foldl (\<lambda>acc c. acc * 58 + the (position c base58_alphabet)) 0 s"

fun byte_length :: "nat \<Rightarrow> nat" where
  "byte_length n = (if n = 0 then 0 else Suc (byte_length (n div 256)))"

declare byte_length.simps [simp del]

lemma byte_length_0 [simp]: "byte_length 0 = 0"
  by (subst byte_length.simps) simp

lemma position_less: "position x ys = Some i \<Longrightarrow> i < length ys \<and> ys ! i = x"
  by (induction ys arbitrary: i) (auto split: if_splits)

lemma position_None: "position x ys = None \<longleftrightarrow> x \<notin> set ys"
  by (induction ys) auto

lemma position_58: "position c base58_alphabet = Some i \<Longrightarrow> i < 58"
  using position_less [of c base58_alphabet i] by (simp add: base58_alphabet_def)

lemma byte_step:
  assumes "unat carry < 58"
  shows "unat (ucast (part :: 8 word) * 58 + carry :: 16 word) = unat part * 58 + unat carry"
proof -
  have "unat part * 58 + unat carry < 65536" using assms unat_byte [of part] by linarith
  then show ?thesis by (simp add: unat_word_ariths unat_widen)
qed

lemma carry_arith:
  fixes r X p v p' a c :: nat
  assumes 1: "r + X = 58 * p + v div 256" and 2: "p' = v mod 256 + 256 * r" and 3: "v = a * 58 + c"
  shows "p' + 256 * X = 58 * (a + 256 * p) + c"
proof -
  have "p' + 256 * X = v mod 256 + 256 * (r + X)" using 2 by simp
  also have "\<dots> = v mod 256 + 256 * (v div 256) + 256 * (58 * p)" unfolding 1 by simp
  also have "\<dots> = 58 * (a + 256 * p) + c" unfolding mod_mult_div_eq 3 by simp
  finally show ?thesis .
qed

text \<open>One step of the inner loop neither wraps nor lets the carry grow past one base58 digit.\<close>

lemma carry_pass_value:
  "unat carry < 58 \<Longrightarrow> carry_pass parts carry = (parts', out) \<Longrightarrow>
     unat out < 58 \<and> length parts' = length parts \<and>
     le_value parts' + 256 ^ length parts * unat out = 58 * le_value parts + unat carry"
proof (induction parts arbitrary: carry parts' out)
  case (Cons part parts)
  let ?v = "ucast part * 58 + carry :: 16 word"
  have v: "unat ?v = unat part * 58 + unat carry" by (rule byte_step [OF Cons.prems(1)])
  have d: "unat (drop_bit 8 ?v) < 58"
    unfolding unat_drop8 v using Cons.prems(1) unat_byte [of part] by linarith
  obtain rest out' where r: "carry_pass parts (drop_bit 8 ?v) = (rest, out')" by force
  from Cons.prems(2) r have p: "parts' = ucast ?v # rest" "out = out'" by (auto simp: Let_def)
  have "le_value rest + 256 ^ length parts * unat out' = 58 * le_value parts + unat ?v div 256"
    and "unat out' < 58" "length rest = length parts"
    using Cons.IH [OF d r] unat_drop8 [of ?v] by auto
  moreover have "le_value parts' = unat ?v mod 256 + 256 * le_value rest"
    by (simp only: p le_value.simps unat_low8)
  ultimately have "le_value parts' + 256 * (256 ^ length parts * unat out') =
      58 * (unat part + 256 * le_value parts) + unat carry"
    using v by (intro carry_arith)
  with \<open>unat out' < 58\<close> \<open>length rest = length parts\<close> show ?case
    using p by (simp add: mult.assoc)
qed auto

lemma carry_bytes_value: "le_value (carry_bytes carry) = unat carry"
proof (induction carry rule: carry_bytes.induct)
  case (1 carry)
  show ?case
  proof (cases "carry > 0")
    case True
    with 1 have "le_value (carry_bytes (drop_bit 8 carry)) = unat carry div 256"
      by (simp only: unat_drop8)
    with True show ?thesis
      by (simp only: carry_bytes.simps [of carry] if_True le_value.simps unat_low8) simp
  next
    case False
    then show ?thesis by (subst carry_bytes.simps) (simp add: word_gt_0)
  qed
qed

lemma le_value_append: "le_value (xs @ ys) = le_value xs + 256 ^ length xs * le_value ys"
  by (induction xs) (auto simp: algebra_simps)

lemma base58_push_value:
  assumes "digit < 58"
  shows "le_value (base58_push decoded digit) = 58 * le_value decoded + digit"
    and "decoded \<noteq> [] \<Longrightarrow> base58_push decoded digit \<noteq> []"
proof -
  obtain parts carry where c: "carry_pass decoded (of_nat digit) = (parts, carry)" by force
  have "unat (of_nat digit :: 16 word) = digit" using assms by (simp add: unat_of_nat)
  with carry_pass_value [OF _ c] assms
  show "le_value (base58_push decoded digit) = 58 * le_value decoded + digit"
    and "decoded \<noteq> [] \<Longrightarrow> base58_push decoded digit \<noteq> []"
    by (auto simp: base58_push_def c le_value_append carry_bytes_value)
qed

lemma base58_loop_value:
  "decoded \<noteq> [] \<Longrightarrow>
   (case base58_loop s decoded of
      None \<Rightarrow> \<not> set s \<subseteq> set base58_alphabet
    | Some d \<Rightarrow> set s \<subseteq> set base58_alphabet \<and> d \<noteq> [] \<and>
        le_value d = foldl (\<lambda>acc c. acc * 58 + the (position c base58_alphabet)) (le_value decoded) s)"
proof (induction s arbitrary: decoded)
  case (Cons c s)
  show ?case
  proof (cases "position c base58_alphabet")
    case None
    then have "c \<notin> set base58_alphabet" by (rule position_None [THEN iffD1])
    with None show ?thesis by simp
  next
    case (Some digit)
    note push = base58_push_value [OF position_58 [OF Some], of decoded]
    have "c \<in> set base58_alphabet" using Some position_None by force
    with Some push Cons.IH [OF push(2) [OF Cons.prems]] show ?thesis
      by (auto split: option.splits simp: mult.commute)
  qed
qed simp

lemma pop_zeroes_value: "le_value (pop_zeroes d) = le_value d"
proof (induction d rule: pop_zeroes.induct)
  case (1 d)
  show ?case
  proof (cases "d \<noteq> [] \<and> last d = 0 \<and> length d > 1")
    case True
    then have "le_value d = le_value (butlast d @ [0])" by (metis append_butlast_last_id)
    also have "\<dots> = le_value (butlast d)" by (simp add: le_value_append)
    finally show ?thesis using 1 [OF True] True pop_zeroes_rec [of d] by simp
  next
    case False
    show ?thesis unfolding pop_zeroes_stop [OF False] ..
  qed
qed

lemma pop_zeroes_last: "d \<noteq> [] \<Longrightarrow> pop_zeroes d \<noteq> [] \<and> (last (pop_zeroes d) \<noteq> 0 \<or> pop_zeroes d = [0])"
proof (induction d rule: pop_zeroes.induct)
  case (1 d)
  show ?case
  proof (cases "d \<noteq> [] \<and> last d = 0 \<and> length d > 1")
    case True
    then have "butlast d \<noteq> []" by (cases d) auto
    note IH = "1.IH" [OF True this]
    have eq: "pop_zeroes d = pop_zeroes (butlast d)" using True by (intro pop_zeroes_rec) auto
    from IH show ?thesis unfolding eq .
  next
    case False
    with "1.prems" have "last d \<noteq> 0 \<or> length d \<le> 1" by (meson not_le)
    moreover have "length d \<le> 1 \<Longrightarrow> d = [last d]" using "1.prems" by (cases d) simp_all
    ultimately have "last d \<noteq> 0 \<or> d = [0]" by metis
    with "1.prems" show ?thesis unfolding pop_zeroes_stop [OF False] by blast
  qed
qed

lemma byte_length_le_value: "d \<noteq> [] \<Longrightarrow> last d \<noteq> 0 \<Longrightarrow> byte_length (le_value d) = length d"
proof (induction d)
  case (Cons b bs)
  have lt: "unat b < 256" by (rule unat_byte)
  then have div: "le_value (b # bs) div 256 = le_value bs" by simp
  show ?case
  proof (cases "bs = []")
    case True
    with Cons.prems have "unat b \<noteq> 0" by (simp add: unat_eq_0)
    with True lt show ?thesis by (simp add: byte_length.simps)
  next
    case False
    with Cons have IH: "byte_length (le_value bs) = length bs" by simp
    then have "le_value bs \<noteq> 0" using False by (intro notI) simp
    then have "le_value (b # bs) \<noteq> 0" by simp
    then have "byte_length (le_value (b # bs)) = Suc (byte_length (le_value (b # bs) div 256))"
      by (subst byte_length.simps) (simp only: if_False)
    with IH div show ?thesis by simp
  qed
qed simp

text \<open>C4. \<open>base58_decoded_len\<close> returns \<open>None\<close> exactly for the empty string and for strings with a
  byte outside the alphabet; otherwise it returns the number of leading \<open>1\<close>s plus the number of
  bytes of the number the digits denote in base 58, so the \<open>u16\<close> carry never overflows.\<close>

theorem base58_decoded_len_correct:
  "base58_decoded_len s =
     (if s \<noteq> [] \<and> set s \<subseteq> set base58_alphabet
      then Some (length (takeWhile (\<lambda>b. b = CHR ''1'') s) + byte_length (base58_value s))
      else None)"
proof (cases "s = [] \<or> \<not> set s \<subseteq> set base58_alphabet")
  case True
  then have "s = [] \<or> base58_loop s [0] = None"
    using base58_loop_value [of "[0]" s] by (cases "base58_loop s [0]") simp_all
  with True show ?thesis by (auto simp: base58_decoded_len_def Let_def)
next
  case False
  then obtain d where d: "base58_loop s [0] = Some d" "d \<noteq> []" "le_value d = base58_value s"
    using base58_loop_value [of "[0]" s] by (auto simp: base58_value_def split: option.splits)
  have "(if pop_zeroes d = [0] then 0 else length (pop_zeroes d)) = byte_length (base58_value s)"
  proof (cases "pop_zeroes d = [0]")
    case True
    then have "base58_value s = 0" using pop_zeroes_value [of d] d(3) by simp
    with True show ?thesis by simp
  next
    case False
    then show ?thesis
      using pop_zeroes_last [OF d(2)] pop_zeroes_value [of d] d(3)
        byte_length_le_value [of "pop_zeroes d"] by simp
  qed
  with False d(1) show ?thesis by (simp add: base58_decoded_len_def Let_def)
qed

section \<open>Normalised addresses\<close>

lemma is_evm_chain_norm: "is_evm_chain (to_ascii_lowercase (trim chain)) = is_evm_chain chain"
  by (simp add: is_evm_chain_def trim_lower)

lemma hexdigit_lower: "is_ascii_hexdigit c \<Longrightarrow> is_ascii_hexdigit (ascii_lower_char c)"
  by (auto simp: is_ascii_hexdigit_def of_char_lower Let_def)

lemma strip_prefix_0x:
  "strip_prefix [a, b] v = Some hex \<longleftrightarrow> v = a # b # hex"
  by (cases v; cases "tl v") (auto simp: strip_prefix_def)

lemma valid_evm_address_iff:
  "valid_evm_address s \<longleftrightarrow>
     (\<exists>x hex. trim s = CHR ''0'' # x # hex \<and> x \<in> {CHR ''x'', CHR ''X''} \<and> length hex = 40 \<and>
        list_all is_ascii_hexdigit hex)"
proof -
  have "opt_or (strip_prefix ''0x'' v) (strip_prefix ''0X'' v) = Some hex \<longleftrightarrow>
      (v = CHR ''0'' # CHR ''x'' # hex \<or> v = CHR ''0'' # CHR ''X'' # hex)" for v hex
    using strip_prefix_0x [of "CHR ''0''" "CHR ''x''" v]
      strip_prefix_0x [of "CHR ''0''" "CHR ''X''" v]
    by (cases "strip_prefix ''0x'' v") auto
  then show ?thesis by (auto simp: valid_evm_address_def Let_def is_some_and_iff)
qed

lemma lower_X: "char_of (120 :: nat) = CHR ''x''"
  by code_simp

lemma valid_evm_address_lower:
  assumes "valid_evm_address s" shows "valid_evm_address (to_ascii_lowercase s)"
proof -
  from assms obtain x hex where v: "trim s = CHR ''0'' # x # hex" "x \<in> {CHR ''x'', CHR ''X''}"
    "length hex = 40" "list_all is_ascii_hexdigit hex"
    by (auto simp: valid_evm_address_iff)
  have "trim (to_ascii_lowercase s) = CHR ''0'' # CHR ''x'' # map ascii_lower_char hex"
    using v(1,2) lower_X unfolding trim_lower
    by (auto simp: to_ascii_lowercase_def ascii_lower_char_def)
  moreover have "list_all is_ascii_hexdigit (map ascii_lower_char hex)"
    using v(4) by (simp add: list_all_iff hexdigit_lower)
  moreover have "length (map ascii_lower_char hex) = 40" using v(3) by simp
  ultimately show ?thesis unfolding valid_evm_address_iff by blast
qed

lemma normalize_address_stable:
  assumes "normalize_address chain a = Some b"
  shows "normalize_address chain b = Some b" "trim b = b"
    "is_evm_chain chain \<Longrightarrow> valid_evm_address b \<and> to_ascii_lowercase b = b"
    "\<not> is_evm_chain chain \<Longrightarrow> valid_solana_address b"
proof -
  have evm: "normalize_address chain b = Some b \<and> trim b = b \<and> valid_evm_address b \<and>
      to_ascii_lowercase b = b" if "is_evm_chain chain"
  proof -
    from that assms have v: "valid_evm_address (trim a)" and b: "b = to_ascii_lowercase (trim a)"
      by (auto simp: normalize_address_def Let_def is_evm_chain_norm split: if_splits)
    have "trim b = b" by (simp add: b trim_lower)
    with that v valid_evm_address_lower [OF v] show ?thesis
      by (simp add: normalize_address_def is_evm_chain_norm b)
  qed
  have other: "normalize_address chain b = Some b \<and> trim b = b \<and> valid_solana_address b"
    if "\<not> is_evm_chain chain"
    using that assms by (auto simp: normalize_address_def Let_def is_evm_chain_norm split: if_splits)
  show "normalize_address chain b = Some b" "trim b = b"
    "is_evm_chain chain \<Longrightarrow> valid_evm_address b \<and> to_ascii_lowercase b = b"
    "\<not> is_evm_chain chain \<Longrightarrow> valid_solana_address b"
    using evm other by blast+
qed

text \<open>C5. \<open>normalize_address\<close> returns an address that is already normal: trimmed, valid for the
  chain, in lower case on EVM chains, and normalising it again changes nothing.\<close>

theorem normalize_address_idempotent:
  assumes "normalize_address chain a = Some b"
  shows "normalize_address chain b = Some b \<and> trim b = b \<and>
    (is_evm_chain chain \<longrightarrow> valid_evm_address b \<and> to_ascii_lowercase b = b) \<and>
    (\<not> is_evm_chain chain \<longrightarrow> valid_solana_address b)"
  using normalize_address_stable [OF assms] by blast

theorem normalize_address_idempotent_witness:
  "normalize_address '' Ethereum'' ''0X00000000000000000000000000000000000000Ab '' =
     Some ''0x00000000000000000000000000000000000000ab'' \<and>
   normalize_address '' Ethereum'' ''0x00000000000000000000000000000000000000ab'' =
     Some ''0x00000000000000000000000000000000000000ab''"
proof -
  have h: "normalize_address '' Ethereum'' ''0X00000000000000000000000000000000000000Ab '' =
     Some ''0x00000000000000000000000000000000000000ab''" by code_simp
  show ?thesis using h normalize_address_idempotent [OF h] by blast
qed

end
