(* ===== verification/ValueFlowEdges.thy ===== *)
theory ValueFlowEdges
  imports Roles Address
begin

text \<open>
  Native value flows around the suspected operators
  (\<open>src/analysis2/crates/core/src/enrich/value_flow.rs\<close> and the \<open>FetchOutcome\<close> constructors of
  \<open>enrich/alchemy.rs\<close>): the operator seeds, the association of native transfers with the
  candidate's activity window, their classification, and the assembly of the fetched pages
  into a quality status.

  The network request for one address and direction is a parameter (\<open>fetch\<close>), as are the order
  in which the concurrent requests complete (\<open>arrive\<close>) and the clock (\<open>now\<close>).  Block numbers
  are \<open>u64\<close>: \<open>saturating_sub\<close> is subtraction on \<open>nat\<close>, \<open>saturating_add\<close> is written out.
\<close>

section \<open>Fetch outcomes\<close>

record native_transfer =
  nt_tx_hash :: string
  nt_event_id :: "string option"
  nt_from :: string
  nt_to :: string
  nt_value_native :: "f64 option"
  nt_timestamp :: "int option"
  nt_block_number :: "nat option"

record 'v fetch_outcome =
  fo_value :: 'v
  fo_status :: evidence_status
  fo_observation :: "evidence_observation option"
  fo_failure :: "string option"
  fo_truncated :: bool

definition outcome_skipped :: "int \<Rightarrow> string \<Rightarrow> 'a list fetch_outcome" where
  "outcome_skipped now request_key =
     \<lparr>fo_value = [], fo_status = NotRequested,
      fo_observation = Some \<lparr>ob_source = ''none'', ob_request_key = request_key,
        ob_observed_at = now, ob_status = NotRequested\<rparr>,
      fo_failure = None, fo_truncated = False\<rparr>"

definition outcome_failed :: "int \<Rightarrow> string \<Rightarrow> string \<Rightarrow> string \<Rightarrow> 'a list fetch_outcome" where
  "outcome_failed now source request_key detail =
     \<lparr>fo_value = [], fo_status = Failed,
      fo_observation = Some \<lparr>ob_source = source, ob_request_key = request_key,
        ob_observed_at = now, ob_status = Failed\<rparr>,
      fo_failure = Some (request_key @ '': '' @ detail), fo_truncated = False\<rparr>"

definition outcome_ok :: "int \<Rightarrow> 'v \<Rightarrow> nat \<Rightarrow> bool \<Rightarrow> string \<Rightarrow> string \<Rightarrow> 'v fetch_outcome" where
  "outcome_ok now value n truncated source request_key =
     (let status = status_from_count n truncated
      in \<lparr>fo_value = value, fo_status = status,
          fo_observation = Some \<lparr>ob_source = source, ob_request_key = request_key,
            ob_observed_at = now, ob_status = status\<rparr>,
          fo_failure = None, fo_truncated = truncated\<rparr>)"

section \<open>Operator seeds\<close>

definition value_flow_boundary_blocks :: nat where
  "value_flow_boundary_blocks = 50000"

text \<open>\<open>insert_addr\<close>, as the value it adds.\<close>

definition insert_addr :: "string \<Rightarrow> string option" where
  "insert_addr raw =
     (let addr = to_ascii_lowercase (trim raw)
      in if addr = zero_address \<or> \<not> valid_evm_address addr then None else Some addr)"

definition collect_operator_seeds :: "string list \<Rightarrow> string list" where
  "collect_operator_seeds addresses = sort_dedup (List.map_filter insert_addr addresses)"

text \<open>The \<open>insert\<close> closure of \<open>derive_operator_seeds\<close>.\<close>

definition seed_address :: "string \<Rightarrow> string \<Rightarrow> string option" where
  "seed_address chain raw = opt_filter (\<lambda>a. a \<noteq> zero_address) (normalize_address chain raw)"

definition seller_counts :: "string \<Rightarrow> sale_event list \<Rightarrow> (string \<times> nat) list" where
  "seller_counts chain sales =
     fold (\<lambda>seller. entry_update ah_insert seller 0 Suc)
       (List.map_filter (\<lambda>s. normalize_address chain (sa_seller s)) sales) []"

definition distribution_pair :: "string \<Rightarrow> transfer_event \<Rightarrow> (string \<times> string) option" where
  "distribution_pair chain t =
     (if tr_is_mint t then None
      else opt_filter (\<lambda>(from, to). from \<noteq> zero_address \<and> to \<noteq> zero_address \<and> from \<noteq> to)
             (opt_zip (normalize_address chain (tr_from t)) (normalize_address chain (tr_to t))))"

definition distribution_targets ::
  "string \<Rightarrow> transfer_event list \<Rightarrow> (string \<times> string set) list" where
  "distribution_targets chain transfers =
     fold (\<lambda>p. entry_update ah_insert (fst p) {} (insert (snd p)))
       (List.map_filter (distribution_pair chain) transfers) []"

definition derive_operator_seeds ::
  "string \<Rightarrow> string \<Rightarrow> string list \<Rightarrow> deployment_event option \<Rightarrow> transfer_event list \<Rightarrow>
   sale_event list \<Rightarrow> holder_snapshot \<Rightarrow> string list" where
  "derive_operator_seeds chain candidate controllers deployment transfers sales holders =
     (let victims = victim_addresses chain transfers sales holders;
          payer = (case Option.bind deployment dp_fee_payer of None \<Rightarrow> [] | Some p \<Rightarrow> [p]);
          busy_sellers = map fst (filter (\<lambda>(_, n). n \<ge> 3) (seller_counts chain sales));
          distributors =
            map fst (filter (\<lambda>(_, ts). card ts \<ge> 3) (distribution_targets chain transfers));
          raw = candidate # controllers @ payer @ busy_sellers @ distributors;
          all = sort_dedup (List.map_filter (seed_address chain) raw)
      in filter (\<lambda>a. a \<notin> victims) all)"

section \<open>Transfers related to the candidate's activity\<close>

text \<open>\<open>map_or(b, |m| m.min(b))\<close> and its twin over the events that carry a block number.\<close>

definition widen :: "(nat \<times> nat) option \<Rightarrow> nat option \<Rightarrow> (nat \<times> nat) option" where
  "widen w block =
     (case block of None \<Rightarrow> w
      | Some b \<Rightarrow> (case w of None \<Rightarrow> Some (b, b) | Some (lo, hi) \<Rightarrow> Some (min lo b, max hi b)))"

definition activity_block_window ::
  "transfer_event list \<Rightarrow> sale_event list \<Rightarrow> (nat \<times> nat) option" where
  "activity_block_window transfers sales =
     fold (\<lambda>b w. widen w b) (map sa_block_number sales)
       (fold (\<lambda>b w. widen w b) (map tr_block_number transfers) None)"

record nearest_state =
  ns_funding :: "(string \<times> nat) list"
  ns_withdrawal :: "(string \<times> nat) list"
  ns_incomplete :: bool

text \<open>Body of the first loop of \<open>activity_related_transfers\<close>.\<close>

definition nearest_step ::
  "string set \<Rightarrow> nat \<Rightarrow> nat \<Rightarrow> native_transfer \<Rightarrow> nearest_state \<Rightarrow> nearest_state" where
  "nearest_step operators lo hi t st =
     (let from_op = nt_from t \<in> operators; to_op = nt_to t \<in> operators
      in if \<not> from_op \<and> \<not> to_op then st
         else case nt_block_number t of
           None \<Rightarrow> st\<lparr>ns_incomplete := True\<rparr>
         | Some block \<Rightarrow>
             if block < lo \<and> lo - block \<le> value_flow_boundary_blocks \<and> \<not> from_op \<and> to_op
             then st\<lparr>ns_funding := entry_update ah_insert (nt_to t) block (\<lambda>cur. max cur block) (ns_funding st)\<rparr>
             else if block > hi \<and> block - hi \<le> value_flow_boundary_blocks \<and> from_op \<and> \<not> to_op
             then st\<lparr>ns_withdrawal := entry_update ah_insert (nt_from t) block (\<lambda>cur. min cur block) (ns_withdrawal st)\<rparr>
             else st)"

definition nearest_blocks ::
  "string set \<Rightarrow> nat \<Rightarrow> nat \<Rightarrow> native_transfer list \<Rightarrow> nearest_state" where
  "nearest_blocks operators lo hi raw =
     fold (nearest_step operators lo hi) raw
       \<lparr>ns_funding = [], ns_withdrawal = [], ns_incomplete = False\<rparr>"

definition selected_transfer ::
  "string set \<Rightarrow> nat \<Rightarrow> nat \<Rightarrow> nearest_state \<Rightarrow> native_transfer \<Rightarrow> bool" where
  "selected_transfer operators lo hi st t =
     (case nt_block_number t of
        None \<Rightarrow> False
      | Some block \<Rightarrow>
          if lo \<le> block \<and> block \<le> hi then True
          else let from_op = nt_from t \<in> operators; to_op = nt_to t \<in> operators
               in (block < lo \<and> \<not> from_op \<and> to_op \<and> map_of (ns_funding st) (nt_to t) = Some block) \<or>
                  (block > hi \<and> from_op \<and> \<not> to_op \<and> map_of (ns_withdrawal st) (nt_from t) = Some block))"

definition activity_related_transfers ::
  "native_transfer list \<Rightarrow> string set \<Rightarrow> (nat \<times> nat) option \<Rightarrow> native_transfer list \<times> bool" where
  "activity_related_transfers raw operators window =
     (case window of
        None \<Rightarrow> ([], True)
      | Some (lo, hi) \<Rightarrow>
          let st = nearest_blocks operators lo hi raw
          in (filter (selected_transfer operators lo hi st) raw, ns_incomplete st))"

section \<open>Classification\<close>

definition classify_native_edge :: "native_transfer \<Rightarrow> string set \<Rightarrow> value_flow_edge option" where
  "classify_native_edge t operators =
     (let from_op = nt_from t \<in> operators; to_op = nt_to t \<in> operators
      in if nt_tx_hash t = [] then None
         else if \<not> from_op \<and> \<not> to_op then None
         else if nt_from t = nt_to t then None
         else Some
           \<lparr>vf_tx_hash = nt_tx_hash t, vf_event_id = nt_event_id t, vf_from = nt_from t,
            vf_to = nt_to t,
            vf_kind = (if \<not> from_op then Funding else if \<not> to_op then Withdrawal
                       else RevenueBackflow),
            vf_native_amount = nt_value_native t, vf_usd_amount = None,
            vf_timestamp = nt_timestamp t, vf_gas_native = None, vf_fee_payer = None\<rparr>)"

section \<open>De-duplication keys\<close>

fun decimal_digits :: "nat \<Rightarrow> string" where
  "decimal_digits n =
     (if n < 10 then [char_of (48 + n)] else decimal_digits (n div 10) @ [char_of (48 + n mod 10)])"

declare decimal_digits.simps [simp del]

text \<open>\<open>format!("{v:.18}")\<close>: the exact value rounded to 18 decimals, ties to even.\<close>

definition format_18 :: "f64 \<Rightarrow> string" where
  "format_18 v =
     (case v of
        NaN \<Rightarrow> ''NaN''
      | Inf s \<Rightarrow> (if s then ''-inf'' else ''inf'')
      | Fin q \<Rightarrow>
          let n = nat (round_half_even (\<bar>q\<bar> * 10 ^ 18));
              frac = decimal_digits (n mod 10 ^ 18)
          in (if q < 0 then ''-'' else []) @ decimal_digits (n div 10 ^ 18) @ ''.'' @
             replicate (18 - length frac) (CHR ''0'') @ frac)"

definition debug_kind :: "value_flow_kind \<Rightarrow> string" where
  "debug_kind k =
     (case k of Funding \<Rightarrow> ''Funding'' | Withdrawal \<Rightarrow> ''Withdrawal'' | Cashout \<Rightarrow> ''Cashout''
      | RevenueBackflow \<Rightarrow> ''RevenueBackflow'')"

type_synonym edge_key = "string \<times> string option \<times> string \<times> string \<times> string \<times> string"

definition edge_key :: "value_flow_edge \<Rightarrow> edge_key" where
  "edge_key e =
     (vf_tx_hash e, vf_event_id e, vf_from e, vf_to e, debug_kind (vf_kind e),
      unwrap_or [] (map_option format_18 (vf_native_amount e)))"

text \<open>The loop that classifies and keeps the first edge of each key.\<close>

fun dedup_edges ::
  "string set \<Rightarrow> edge_key set \<Rightarrow> native_transfer list \<Rightarrow> value_flow_edge list" where
  "dedup_edges operators seen [] = []"
| "dedup_edges operators seen (t # ts) =
     (case classify_native_edge t operators of
        None \<Rightarrow> dedup_edges operators seen ts
      | Some e \<Rightarrow>
          if edge_key e \<in> seen then dedup_edges operators seen ts
          else e # dedup_edges operators (insert (edge_key e) seen) ts)"

section \<open>Assembling the pages\<close>

record page_state =
  ps_raw :: "native_transfer list"
  ps_any_ok :: bool
  ps_any_fail :: bool
  ps_page_truncated :: bool
  ps_failures :: "string list"

definition absorb_outcome ::
  "native_transfer list fetch_outcome \<Rightarrow> page_state \<Rightarrow> page_state" where
  "absorb_outcome out st =
     (case fo_status out of
        NotRequested \<Rightarrow> st
      | Failed \<Rightarrow>
          st\<lparr>ps_any_fail := True,
             ps_failures := ps_failures st @ (case fo_failure out of None \<Rightarrow> [] | Some f \<Rightarrow> [f])\<rparr>
      | _ \<Rightarrow>
          st\<lparr>ps_any_ok := True,
             ps_page_truncated := (ps_page_truncated st \<or> fo_truncated out \<or> fo_status out = Truncated),
             ps_raw := ps_raw st @ fo_value out\<rparr>)"

definition absorb_outcomes :: "native_transfer list fetch_outcome list \<Rightarrow> page_state" where
  "absorb_outcomes outs =
     fold absorb_outcome outs
       \<lparr>ps_raw = [], ps_any_ok = False, ps_any_fail = False, ps_page_truncated = False,
        ps_failures = []\<rparr>"

fun join_with :: "string \<Rightarrow> string list \<Rightarrow> string" where
  "join_with sep [] = []"
| "join_with sep [x] = x"
| "join_with sep (x # y # ys) = x @ sep @ join_with sep (y # ys)"

definition value_flow_request_key :: "bool \<Rightarrow> string" where
  "value_flow_request_key association_incomplete =
     (let notes = push_if association_incomplete
            ''candidate activity window or value-flow block number unavailable'' []
      in if notes = [] then ''alchemy_value_flows_bounded''
         else ''alchemy_value_flows_bounded ('' @ join_with ''; '' notes @ '')'')"

definition value_flow_requests :: "string list \<Rightarrow> (string \<times> string) list" where
  "value_flow_requests operators = concat (map (\<lambda>a. [(a, ''from''), (a, ''to'')]) operators)"

definition u64_max :: nat where
  "u64_max = 2 ^ 64 - 1"

definition set_status :: "evidence_status \<Rightarrow> string \<Rightarrow> 'v fetch_outcome \<Rightarrow> 'v fetch_outcome" where
  "set_status status request_key out =
     out\<lparr>fo_status := status,
         fo_observation := map_option (\<lambda>o'. o'\<lparr>ob_status := status, ob_request_key := request_key\<rparr>)
           (fo_observation out)\<rparr>"

text \<open>From the collected pages to the outcome (after the \<open>any_ok\<close> test).  The source of the
  observation is always \<open>alchemy\<close> here, so the branch that fills an empty source is dead.\<close>

definition assemble_value_flows ::
  "int \<Rightarrow> string set \<Rightarrow> (nat \<times> nat) \<Rightarrow> page_state \<Rightarrow> value_flow_edge list fetch_outcome" where
  "assemble_value_flows now operators window st =
     (let (raw, association_incomplete) =
            activity_related_transfers (ps_raw st) operators (Some window);
          edges = dedup_edges operators {} raw;
          truncated = (ps_page_truncated st \<or> ps_any_fail st \<or> association_incomplete);
          n = length edges;
          request_key = value_flow_request_key association_incomplete;
          out = outcome_ok now edges n truncated ''alchemy'' request_key;
          out = (if n = 0 \<and> \<not> ps_page_truncated st \<and> \<not> ps_any_fail st \<and> \<not> association_incomplete
                 then (set_status Empty request_key out)\<lparr>fo_truncated := False\<rparr>
                 else if truncated
                 then (set_status Truncated request_key out)\<lparr>fo_truncated := True\<rparr>
                 else out);
          out = (if ps_any_fail st \<and> ps_failures st \<noteq> []
                 then out\<lparr>fo_failure := Some (''alchemy_value_flows_bounded: partial failures: '' @
                        join_with ''; '' (take 3 (ps_failures st)))\<rparr>
                 else out)
      in out\<lparr>fo_observation := map_option (\<lambda>o'. o'\<lparr>ob_observed_at := now\<rparr>) (fo_observation out)\<rparr>)"

text \<open>The pages that are requested: both directions of every operator, over the window and its
  margins.\<close>

definition value_flow_pages ::
  "(string \<Rightarrow> string \<Rightarrow> nat \<Rightarrow> nat \<Rightarrow> nat \<Rightarrow> native_transfer list fetch_outcome) \<Rightarrow>
   nat \<times> nat \<Rightarrow> string list \<Rightarrow> native_transfer list fetch_outcome list" where
  "value_flow_pages fetch window operators =
     (let from_block = fst window - value_flow_boundary_blocks;
          to_block = min (snd window + value_flow_boundary_blocks) u64_max
      in map (\<lambda>(i, a, d). fetch a d from_block to_block i)
           (enumerated (value_flow_requests operators)))"

definition fetch_evm_value_flows ::
  "(string \<Rightarrow> string \<Rightarrow> nat \<Rightarrow> nat \<Rightarrow> nat \<Rightarrow> native_transfer list fetch_outcome) \<Rightarrow>
   (native_transfer list fetch_outcome list \<Rightarrow> native_transfer list fetch_outcome list) \<Rightarrow> int \<Rightarrow>
   string option \<Rightarrow> string list \<Rightarrow> transfer_event list \<Rightarrow> sale_event list \<Rightarrow>
   value_flow_edge list fetch_outcome" where
  "fetch_evm_value_flows fetch arrive now api_key operator_seeds transfers sales =
     (case api_key of
        None \<Rightarrow> outcome_skipped now ''alchemy_value_flows_bounded''
      | Some _ \<Rightarrow>
          let operators = collect_operator_seeds operator_seeds
          in if operators = [] then
               outcome_ok now [] 0 False ''alchemy'' ''alchemy_value_flows_bounded''
             else if transfers = [] \<and> sales = [] then
               outcome_ok now [] 0 False ''alchemy'' ''alchemy_value_flows_bounded''
             else case activity_block_window transfers sales of
               None \<Rightarrow> outcome_ok now [] 0 True ''alchemy'' (value_flow_request_key True)
             | Some window \<Rightarrow>
                 let st = absorb_outcomes (arrive (value_flow_pages fetch window operators))
                 in if \<not> ps_any_ok st then
                      outcome_failed now ''alchemy'' ''alchemy_value_flows_bounded''
                        (if ps_failures st = [] then ''all value-flow fetches failed''
                         else join_with ''; '' (ps_failures st))
                    else assemble_value_flows now (set operators) window st)"

section \<open>Facts about the seeds\<close>

lemma fold_insert_image: "fold (\<lambda>x. insert (g x)) xs A = A \<union> g ` set xs"
  by (induction xs arbitrary: A) auto

lemma seller_counts_lookup:
  "map_of (seller_counts chain sales) a =
     (let n = length (filter (\<lambda>s. normalize_address chain (sa_seller s) = Some a) sales)
      in if n = 0 then None else Some n)"
proof -
  let ?xs = "List.map_filter (\<lambda>s. normalize_address chain (sa_seller s)) sales"
  have len: "length (filter (\<lambda>x. x = a) ?xs) =
      length (filter (\<lambda>s. normalize_address chain (sa_seller s) = Some a) sales)"
    by (induction sales) (auto simp: List.map_filter_simps split: option.splits)
  have mem: "a \<in> set ?xs \<longleftrightarrow> filter (\<lambda>x. x = a) ?xs \<noteq> []" by (simp add: filter_empty_conv)
  show ?thesis
    unfolding seller_counts_def
    using hashm.lookup_fold_entry_update [of "\<lambda>x. x" "0 :: nat" "\<lambda>_. Suc" ?xs "[]" a]
    by (simp add: fold_Suc mem flip: len)
qed

lemma seller_counts_in:
  "(a, n) \<in> set (seller_counts chain sales) \<longleftrightarrow> map_of (seller_counts chain sales) a = Some n"
proof -
  have "ah_distinct (seller_counts chain sales)"
    unfolding seller_counts_def
    using hashm.invar_fold_entry_update [of "[]" "\<lambda>x. x" "\<lambda>_. 0 :: nat" "\<lambda>_. Suc"]
    by (simp add: hashm.invar_Nil)
  then show ?thesis by (metis hashm.invar_distinct map_of_eq_Some_iff)
qed

lemma busy_seller_iff:
  "a \<in> fst ` set (filter (\<lambda>(_, n). n \<ge> 3) (seller_counts chain sales)) \<longleftrightarrow>
     3 \<le> length (filter (\<lambda>s. normalize_address chain (sa_seller s) = Some a) sales)"
proof -
  have "a \<in> fst ` set (filter (\<lambda>(_, n). n \<ge> 3) (seller_counts chain sales)) \<longleftrightarrow>
      (\<exists>n \<ge> 3. (a, n) \<in> set (seller_counts chain sales))" by force
  then show ?thesis by (auto simp: seller_counts_in seller_counts_lookup Let_def)
qed

text \<open>The addresses a sender distributes NFTs to.\<close>

definition targets_of :: "string \<Rightarrow> transfer_event list \<Rightarrow> string \<Rightarrow> string set" where
  "targets_of chain transfers a =
     {b. \<exists>t \<in> set transfers. \<not> tr_is_mint t \<and> normalize_address chain (tr_from t) = Some a \<and>
        normalize_address chain (tr_to t) = Some b \<and> a \<noteq> zero_address \<and> b \<noteq> zero_address \<and> a \<noteq> b}"

lemma distribution_pair_iff:
  "distribution_pair chain t = Some (a, b) \<longleftrightarrow>
     \<not> tr_is_mint t \<and> normalize_address chain (tr_from t) = Some a \<and>
     normalize_address chain (tr_to t) = Some b \<and> a \<noteq> zero_address \<and> b \<noteq> zero_address \<and> a \<noteq> b"
  by (auto simp: distribution_pair_def opt_zip_eq_Some)

lemma distribution_targets_lookup:
  "map_of (distribution_targets chain transfers) a =
     (if targets_of chain transfers a = {} then None else Some (targets_of chain transfers a))"
proof -
  let ?ps = "List.map_filter (distribution_pair chain) transfers"
  have t: "targets_of chain transfers a = snd ` set (filter (\<lambda>p. fst p = a) ?ps)"
  proof (intro equalityI subsetI)
    fix b assume "b \<in> targets_of chain transfers a"
    then have "(a, b) \<in> set (filter (\<lambda>p. fst p = a) ?ps)"
      by (auto simp: targets_of_def set_map_filter distribution_pair_iff)
    then show "b \<in> snd ` set (filter (\<lambda>p. fst p = a) ?ps)" by force
  qed (auto simp: targets_of_def set_map_filter distribution_pair_iff)
  have "a \<in> fst ` set ?ps \<longleftrightarrow> targets_of chain transfers a \<noteq> {}"
    unfolding t by (force simp: filter_empty_conv)
  then show ?thesis
    unfolding distribution_targets_def
    using hashm.lookup_fold_entry_update [of fst "{} :: string set" "\<lambda>p. insert (snd p)" ?ps "[]" a]
    by (simp add: fold_insert_image t)
qed

lemma distributor_iff:
  "a \<in> fst ` set (filter (\<lambda>(_, ts). card ts \<ge> 3) (distribution_targets chain transfers)) \<longleftrightarrow>
     3 \<le> card (targets_of chain transfers a)"
proof -
  have "ah_distinct (distribution_targets chain transfers)"
    unfolding distribution_targets_def
    using hashm.invar_fold_entry_update [of "[]" fst "\<lambda>_. {}" "\<lambda>p. insert (snd p)"]
    by (simp add: hashm.invar_Nil)
  then have "(a, ts) \<in> set (distribution_targets chain transfers) \<longleftrightarrow>
      map_of (distribution_targets chain transfers) a = Some ts" for ts
    by (metis hashm.invar_distinct map_of_eq_Some_iff)
  moreover have "a \<in> fst ` set (filter (\<lambda>(_, ts). card ts \<ge> 3) (distribution_targets chain transfers))
      \<longleftrightarrow> (\<exists>ts. 3 \<le> card ts \<and> (a, ts) \<in> set (distribution_targets chain transfers))" by force
  ultimately show ?thesis by (auto simp: distribution_targets_lookup)
qed

lemma seed_address_norm:
  "normalize_address chain raw = Some b \<Longrightarrow> seed_address chain b = Some a \<longleftrightarrow> a = b \<and> a \<noteq> zero_address"
  by (auto simp: seed_address_def dest: normalize_address_stable)

lemma length_filter_exists: "3 \<le> length (filter P xs) \<Longrightarrow> \<exists>x \<in> set xs. P x"
  by (rule ccontr) simp

lemma derive_raw_iff:
  "(\<exists>raw \<in> set (candidate # controllers @ (case Option.bind deployment dp_fee_payer of None \<Rightarrow> [] | Some p \<Rightarrow> [p]) @
        map fst (filter (\<lambda>(_, n). n \<ge> 3) (seller_counts chain sales)) @
        map fst (filter (\<lambda>(_, ts). card ts \<ge> 3) (distribution_targets chain transfers))).
      seed_address chain raw = Some a) \<longleftrightarrow>
   a \<noteq> zero_address \<and>
     ((\<exists>raw \<in> insert candidate (set controllers \<union> set_option (Option.bind deployment dp_fee_payer)).
         normalize_address chain raw = Some a) \<or>
      3 \<le> length (filter (\<lambda>s. normalize_address chain (sa_seller s) = Some a) sales) \<or>
      3 \<le> card (targets_of chain transfers a))"
proof -
  have seed: "seed_address chain raw = Some a \<longleftrightarrow> a \<noteq> zero_address \<and> normalize_address chain raw = Some a"
    for raw by (auto simp: seed_address_def)
  have stable: "normalize_address chain raw = Some raw"
    if "3 \<le> length (filter (\<lambda>s. normalize_address chain (sa_seller s) = Some raw) sales) \<or>
        3 \<le> card (targets_of chain transfers raw)" for raw
  proof -
    from that show ?thesis
    proof
      assume "3 \<le> length (filter (\<lambda>s. normalize_address chain (sa_seller s) = Some raw) sales)"
      then obtain s :: sale_event where "normalize_address chain (sa_seller s) = Some raw"
        by (auto dest: length_filter_exists)
      then show ?thesis by (rule normalize_address_stable)
    next
      assume "3 \<le> card (targets_of chain transfers raw)"
      then have "targets_of chain transfers raw \<noteq> {}" by auto
      then show ?thesis by (auto simp: targets_of_def dest: normalize_address_stable)
    qed
  qed
  define X where "X = fst ` set (filter (\<lambda>(_, n). n \<ge> 3) (seller_counts chain sales)) \<union>
      fst ` set (filter (\<lambda>(_, ts). card ts \<ge> 3) (distribution_targets chain transfers))"
  have X: "b \<in> X \<longleftrightarrow> 3 \<le> length (filter (\<lambda>s. normalize_address chain (sa_seller s) = Some b) sales) \<or>
      3 \<le> card (targets_of chain transfers b)" for b
    unfolding X_def Un_iff busy_seller_iff distributor_iff ..
  have extra: "(\<exists>raw \<in> X. normalize_address chain raw = Some a) \<longleftrightarrow> a \<in> X"
    using stable unfolding X [symmetric] by force
  have set: "set (candidate # controllers @ (case Option.bind deployment dp_fee_payer of None \<Rightarrow> [] | Some p \<Rightarrow> [p]) @
        map fst (filter (\<lambda>(_, n). n \<ge> 3) (seller_counts chain sales)) @
        map fst (filter (\<lambda>(_, ts). card ts \<ge> 3) (distribution_targets chain transfers))) =
      insert candidate (set controllers \<union> set_option (Option.bind deployment dp_fee_payer)) \<union> X"
    unfolding X_def
    by (cases "Option.bind deployment dp_fee_payer") (simp_all add: Un_assoc del: set_bind_option)
  show ?thesis
    unfolding set bex_Un seed X [symmetric] using extra by blast
qed

lemma strict_sorted_sort_dedup: "sorted_wrt (<) (sort_dedup xs)"
  by (simp add: strict_sorted_iff)

text \<open>\<open>derive_operator_seeds\<close> returns, strictly sorted, exactly the non-zero addresses that are no
  victims and are either the normalised candidate, a controller or the deployment fee payer, or
  the seller of at least three sales, or the sender of non-mint transfers to at least three
  different other addresses.\<close>

theorem derive_operator_seeds_iff:
  "sorted_wrt (<) (derive_operator_seeds chain candidate controllers deployment transfers sales holders) \<and>
   (a \<in> set (derive_operator_seeds chain candidate controllers deployment transfers sales holders)
     \<longleftrightarrow> a \<noteq> zero_address \<and> a \<notin> victim_addresses chain transfers sales holders \<and>
       ((\<exists>raw \<in> insert candidate (set controllers \<union> set_option (Option.bind deployment dp_fee_payer)).
           normalize_address chain raw = Some a) \<or>
        3 \<le> length (filter (\<lambda>s. normalize_address chain (sa_seller s) = Some a) sales) \<or>
        3 \<le> card (targets_of chain transfers a)))"
  using derive_raw_iff [of candidate controllers deployment chain sales transfers a]
  unfolding derive_operator_seeds_def Let_def set_filter set_sort_dedup mem_Collect_eq set_map_filter
  by (auto intro: sorted_wrt_filter strict_sorted_sort_dedup)

section \<open>Facts about the association with the activity window\<close>

text \<open>A transfer into an operator at most 50,000 blocks before the window, a transfer out of one at
  most 50,000 blocks after it.\<close>

definition setup_block :: "string set \<Rightarrow> nat \<Rightarrow> native_transfer \<Rightarrow> nat \<Rightarrow> bool" where
  "setup_block ops lo t b \<longleftrightarrow> nt_block_number t = Some b \<and> b < lo \<and>
     lo - b \<le> value_flow_boundary_blocks \<and> nt_from t \<notin> ops \<and> nt_to t \<in> ops"

definition cashout_block :: "string set \<Rightarrow> nat \<Rightarrow> native_transfer \<Rightarrow> nat \<Rightarrow> bool" where
  "cashout_block ops hi t b \<longleftrightarrow> nt_block_number t = Some b \<and> hi < b \<and>
     b - hi \<le> value_flow_boundary_blocks \<and> nt_from t \<in> ops \<and> nt_to t \<notin> ops"

definition setup_entry :: "string set \<Rightarrow> nat \<Rightarrow> native_transfer \<Rightarrow> (string \<times> nat) option" where
  "setup_entry ops lo t =
     (case nt_block_number t of
        Some b \<Rightarrow> then_some (setup_block ops lo t b) (nt_to t, b) | None \<Rightarrow> None)"

definition cashout_entry :: "string set \<Rightarrow> nat \<Rightarrow> native_transfer \<Rightarrow> (string \<times> nat) option" where
  "cashout_entry ops hi t =
     (case nt_block_number t of
        Some b \<Rightarrow> then_some (cashout_block ops hi t b) (nt_from t, b) | None \<Rightarrow> None)"

definition touches_without_block :: "string set \<Rightarrow> native_transfer \<Rightarrow> bool" where
  "touches_without_block ops t \<longleftrightarrow> nt_block_number t = None \<and> (nt_from t \<in> ops \<or> nt_to t \<in> ops)"

lemma setup_entry_iff: "setup_entry ops lo t = Some (a, b) \<longleftrightarrow> setup_block ops lo t b \<and> a = nt_to t"
  by (auto simp: setup_entry_def setup_block_def split: option.splits)

lemma cashout_entry_iff: "cashout_entry ops hi t = Some (a, b) \<longleftrightarrow> cashout_block ops hi t b \<and> a = nt_from t"
  by (auto simp: cashout_entry_def cashout_block_def split: option.splits)

lemma nearest_step_eq:
  "lo \<le> hi \<Longrightarrow> nearest_step ops lo hi t st =
     \<lparr>ns_funding = (case setup_entry ops lo t of None \<Rightarrow> ns_funding st
        | Some p \<Rightarrow> entry_update ah_insert (fst p) (snd p) (\<lambda>cur. max cur (snd p)) (ns_funding st)),
      ns_withdrawal = (case cashout_entry ops hi t of None \<Rightarrow> ns_withdrawal st
        | Some p \<Rightarrow> entry_update ah_insert (fst p) (snd p) (\<lambda>cur. min cur (snd p)) (ns_withdrawal st)),
      ns_incomplete = (ns_incomplete st \<or> touches_without_block ops t)\<rparr>"
  by (cases st) (auto simp: nearest_step_def setup_entry_def cashout_entry_def setup_block_def
      cashout_block_def touches_without_block_def Let_def then_some_def split: option.splits)

lemma nearest_blocks_fold:
  "lo \<le> hi \<Longrightarrow> fold (nearest_step ops lo hi) raw st =
     \<lparr>ns_funding = fold (\<lambda>p. entry_update ah_insert (fst p) (snd p) (\<lambda>cur. max cur (snd p)))
        (List.map_filter (setup_entry ops lo) raw) (ns_funding st),
      ns_withdrawal = fold (\<lambda>p. entry_update ah_insert (fst p) (snd p) (\<lambda>cur. min cur (snd p)))
        (List.map_filter (cashout_entry ops hi) raw) (ns_withdrawal st),
      ns_incomplete = (ns_incomplete st \<or> (\<exists>t \<in> set raw. touches_without_block ops t))\<rparr>"
  by (induction raw arbitrary: st)
    (auto simp: nearest_step_eq List.map_filter_simps split: option.splits)

lemma fold_max_opt:
  "fold (\<lambda>b old. Some (max (unwrap_or b old) b)) bs (Some a) = Some (fold max bs a)" for a :: nat
  by (induction bs arbitrary: a) (auto simp: max.commute)

lemma fold_min_opt:
  "fold (\<lambda>b old. Some (min (unwrap_or b old) b)) bs (Some a) = Some (fold min bs a)" for a :: nat
  by (induction bs arbitrary: a) (auto simp: min.commute)

lemma fold_max_Some_iff:
  "fold (\<lambda>b old. Some (max (unwrap_or b old) b)) bs None = Some (m :: nat) \<longleftrightarrow>
     m \<in> set bs \<and> (\<forall>b \<in> set bs. b \<le> m)"
proof (cases bs)
  case (Cons b bs')
  then have "fold (\<lambda>b old. Some (max (unwrap_or b old) b)) bs None = Some (Max (set bs))"
    by (simp add: fold_max_opt del: list.set) (metis Max.set_eq_fold)
  then show ?thesis using Cons by (simp del: list.set) (metis Max_eq_iff List.finite_set set_empty list.distinct(1))
qed simp

lemma fold_min_Some_iff:
  "fold (\<lambda>b old. Some (min (unwrap_or b old) b)) bs None = Some (m :: nat) \<longleftrightarrow>
     m \<in> set bs \<and> (\<forall>b \<in> set bs. m \<le> b)"
proof (cases bs)
  case (Cons b bs')
  then have "fold (\<lambda>b old. Some (min (unwrap_or b old) b)) bs None = Some (Min (set bs))"
    by (simp add: fold_min_opt del: list.set) (metis Min.set_eq_fold)
  then show ?thesis using Cons by (simp del: list.set) (metis Min_eq_iff List.finite_set set_empty list.distinct(1))
qed simp

lemma fold_map_snd:
  "fold (\<lambda>p old. Some (g (unwrap_or (snd p) old) (snd p))) ps o0 =
     fold (\<lambda>b old. Some (g (unwrap_or b old) b)) (map snd ps) o0"
  by (simp add: fold_map comp_def)

lemma nearest_funding_iff:
  assumes "lo \<le> hi"
  shows "map_of (ns_funding (nearest_blocks ops lo hi raw)) a = Some b \<longleftrightarrow>
    (\<exists>t \<in> set raw. setup_block ops lo t b \<and> nt_to t = a) \<and>
    (\<forall>t \<in> set raw. \<forall>b'. setup_block ops lo t b' \<and> nt_to t = a \<longrightarrow> b' \<le> b)"
proof -
  let ?ps = "filter (\<lambda>p. fst p = a) (List.map_filter (setup_entry ops lo) raw)"
  have "b' \<in> set (map snd ?ps) \<longleftrightarrow> (a, b') \<in> set (List.map_filter (setup_entry ops lo) raw)" for b'
    by force
  then have mem: "b' \<in> set (map snd ?ps) \<longleftrightarrow> (\<exists>t \<in> set raw. setup_block ops lo t b' \<and> nt_to t = a)" for b'
    by (auto simp: set_map_filter setup_entry_iff)
  have "map_of (ns_funding (nearest_blocks ops lo hi raw)) a = Some b \<longleftrightarrow>
      b \<in> set (map snd ?ps) \<and> (\<forall>b' \<in> set (map snd ?ps). b' \<le> b)"
    unfolding nearest_blocks_def nearest_blocks_fold [OF assms] nearest_state.simps
      hashm.lookup_fold_entry_update_gen fold_map_snd map_of.simps fold_max_Some_iff ..
  then show ?thesis unfolding Ball_def mem by blast
qed

lemma nearest_withdrawal_iff:
  assumes "lo \<le> hi"
  shows "map_of (ns_withdrawal (nearest_blocks ops lo hi raw)) a = Some b \<longleftrightarrow>
    (\<exists>t \<in> set raw. cashout_block ops hi t b \<and> nt_from t = a) \<and>
    (\<forall>t \<in> set raw. \<forall>b'. cashout_block ops hi t b' \<and> nt_from t = a \<longrightarrow> b \<le> b')"
proof -
  let ?ps = "filter (\<lambda>p. fst p = a) (List.map_filter (cashout_entry ops hi) raw)"
  have "b' \<in> set (map snd ?ps) \<longleftrightarrow> (a, b') \<in> set (List.map_filter (cashout_entry ops hi) raw)" for b'
    by force
  then have mem: "b' \<in> set (map snd ?ps) \<longleftrightarrow> (\<exists>t \<in> set raw. cashout_block ops hi t b' \<and> nt_from t = a)" for b'
    by (auto simp: set_map_filter cashout_entry_iff)
  have "map_of (ns_withdrawal (nearest_blocks ops lo hi raw)) a = Some b \<longleftrightarrow>
      b \<in> set (map snd ?ps) \<and> (\<forall>b' \<in> set (map snd ?ps). b \<le> b')"
    unfolding nearest_blocks_def nearest_blocks_fold [OF assms] nearest_state.simps
      hashm.lookup_fold_entry_update_gen fold_map_snd map_of.simps fold_min_Some_iff ..
  then show ?thesis unfolding Ball_def mem by blast
qed

text \<open>C8. Against an activity window the retained transfers are, in their order, exactly those inside
  the window, the latest one into each operator within the 50,000 blocks before it and the
  earliest one out of each operator within the 50,000 blocks after it; the association is
  reported incomplete exactly when a transfer that touches an operator has no block number.\<close>

theorem activity_related_transfers_spec:
  assumes "lo \<le> hi"
  shows "activity_related_transfers raw ops (Some (lo, hi)) =
    (filter (\<lambda>t. \<exists>b. nt_block_number t = Some b \<and>
       (lo \<le> b \<and> b \<le> hi \<or>
        setup_block ops lo t b \<and>
          (\<forall>u \<in> set raw. \<forall>b'. setup_block ops lo u b' \<and> nt_to u = nt_to t \<longrightarrow> b' \<le> b) \<or>
        cashout_block ops hi t b \<and>
          (\<forall>u \<in> set raw. \<forall>b'. cashout_block ops hi u b' \<and> nt_from u = nt_from t \<longrightarrow> b \<le> b'))) raw,
     \<exists>t \<in> set raw. nt_block_number t = None \<and> (nt_from t \<in> ops \<or> nt_to t \<in> ops))"
proof -
  let ?st = "nearest_blocks ops lo hi raw"
  have sel: "selected_transfer ops lo hi ?st t \<longleftrightarrow> (\<exists>b. nt_block_number t = Some b \<and>
       (lo \<le> b \<and> b \<le> hi \<or>
        setup_block ops lo t b \<and>
          (\<forall>u \<in> set raw. \<forall>b'. setup_block ops lo u b' \<and> nt_to u = nt_to t \<longrightarrow> b' \<le> b) \<or>
        cashout_block ops hi t b \<and>
          (\<forall>u \<in> set raw. \<forall>b'. cashout_block ops hi u b' \<and> nt_from u = nt_from t \<longrightarrow> b \<le> b')))"
    if t: "t \<in> set raw" for t
  proof (cases "nt_block_number t")
    case None
    then show ?thesis by (simp add: selected_transfer_def)
  next
    case (Some b)
    have "map_of (ns_funding ?st) a = Some b \<Longrightarrow> lo - b \<le> value_flow_boundary_blocks" for a
      unfolding nearest_funding_iff [OF assms] by (auto simp: setup_block_def)
    moreover have "map_of (ns_withdrawal ?st) a = Some b \<Longrightarrow> b - hi \<le> value_flow_boundary_blocks" for a
      unfolding nearest_withdrawal_iff [OF assms] by (auto simp: cashout_block_def)
    ultimately have "selected_transfer ops lo hi ?st t \<longleftrightarrow> lo \<le> b \<and> b \<le> hi \<or>
        setup_block ops lo t b \<and> map_of (ns_funding ?st) (nt_to t) = Some b \<or>
        cashout_block ops hi t b \<and> map_of (ns_withdrawal ?st) (nt_from t) = Some b"
      using Some assms
      by (auto simp: selected_transfer_def Let_def setup_block_def cashout_block_def)
    moreover have "setup_block ops lo t b \<and> map_of (ns_funding ?st) (nt_to t) = Some b \<longleftrightarrow>
        setup_block ops lo t b \<and>
          (\<forall>u \<in> set raw. \<forall>b'. setup_block ops lo u b' \<and> nt_to u = nt_to t \<longrightarrow> b' \<le> b)"
      unfolding nearest_funding_iff [OF assms] using t by blast
    moreover have "cashout_block ops hi t b \<and> map_of (ns_withdrawal ?st) (nt_from t) = Some b \<longleftrightarrow>
        cashout_block ops hi t b \<and>
          (\<forall>u \<in> set raw. \<forall>b'. cashout_block ops hi u b' \<and> nt_from u = nt_from t \<longrightarrow> b \<le> b')"
      unfolding nearest_withdrawal_iff [OF assms] using t by blast
    ultimately show ?thesis by (simp add: Some)
  qed
  have "ns_incomplete ?st \<longleftrightarrow> (\<exists>t \<in> set raw. touches_without_block ops t)"
    by (simp add: nearest_blocks_def nearest_blocks_fold [OF assms])
  then show ?thesis
    unfolding activity_related_transfers_def touches_without_block_def
    by (simp add: Let_def) (use sel in \<open>auto intro!: filter_cong\<close>)
qed

theorem activity_related_transfers_spec_witness:
  "activity_related_transfers [] {''a''} (Some (7, 9)) = ([], False)"
  using activity_related_transfers_spec [of 7 9 "[]" "{''a''}"] by simp

section \<open>Facts about the assembly\<close>

definition page_ok :: "native_transfer list fetch_outcome \<Rightarrow> bool" where
  "page_ok out \<longleftrightarrow> fo_status out \<in> {Empty, Complete, Truncated}"

definition page_cut :: "native_transfer list fetch_outcome \<Rightarrow> bool" where
  "page_cut out \<longleftrightarrow> page_ok out \<and> (fo_truncated out \<or> fo_status out = Truncated)"

definition page_transfers :: "native_transfer list fetch_outcome list \<Rightarrow> native_transfer list" where
  "page_transfers outs = concat (map fo_value (filter page_ok outs))"

lemma fold_absorb_outcome:
  "fold absorb_outcome outs st =
     \<lparr>ps_raw = ps_raw st @ page_transfers outs,
      ps_any_ok = (ps_any_ok st \<or> (\<exists>out \<in> set outs. page_ok out)),
      ps_any_fail = (ps_any_fail st \<or> (\<exists>out \<in> set outs. fo_status out = Failed)),
      ps_page_truncated = (ps_page_truncated st \<or> (\<exists>out \<in> set outs. page_cut out)),
      ps_failures = ps_failures st @
        List.map_filter fo_failure (filter (\<lambda>out. fo_status out = Failed) outs)\<rparr>"
  by (induction outs arbitrary: st)
    (auto simp: absorb_outcome_def page_transfers_def page_ok_def page_cut_def List.map_filter_simps
      split: evidence_status.splits option.splits)

lemma absorb_outcomes_fields:
  "ps_raw (absorb_outcomes outs) = page_transfers outs"
  "ps_any_ok (absorb_outcomes outs) \<longleftrightarrow> (\<exists>out \<in> set outs. page_ok out)"
  "ps_any_fail (absorb_outcomes outs) \<longleftrightarrow> (\<exists>out \<in> set outs. fo_status out = Failed)"
  "ps_page_truncated (absorb_outcomes outs) \<longleftrightarrow> (\<exists>out \<in> set outs. page_cut out)"
  by (simp_all add: absorb_outcomes_def fold_absorb_outcome)

lemma dedup_edges_keys:
  "edge_key ` set (dedup_edges ops seen ts) =
     edge_key ` {e. \<exists>t \<in> set ts. classify_native_edge t ops = Some e} - seen"
  by (induction ts arbitrary: seen) (auto split: option.splits)

lemma dedup_edges_distinct: "distinct (map edge_key (dedup_edges ops seen ts))"
proof (induction ts arbitrary: seen)
  case (Cons t ts)
  have "edge_key e \<notin> edge_key ` set (dedup_edges ops (insert (edge_key e) seen) ts)" for e
    by (simp add: dedup_edges_keys)
  then show ?case using Cons by (auto split: option.splits)
qed simp

lemma dedup_edges_source:
  "e \<in> set (dedup_edges ops seen ts) \<Longrightarrow> \<exists>t \<in> set ts. classify_native_edge t ops = Some e"
  by (induction ts arbitrary: seen) (auto split: option.splits if_splits)

lemma all_None_iff: "(\<forall>t \<in> T. f t = None) \<longleftrightarrow> {e. \<exists>t \<in> T. f t = Some e} = {}"
  by (simp add: set_eq_iff) (metis not_None_eq)

lemma dedup_edges_Nil: "dedup_edges ops {} ts = [] \<longleftrightarrow> (\<forall>t \<in> set ts. classify_native_edge t ops = None)"
proof -
  have "dedup_edges ops {} ts = [] \<longleftrightarrow> edge_key ` set (dedup_edges ops {} ts) = {}" by simp
  then show ?thesis unfolding dedup_edges_keys all_None_iff by (simp del: Collect_empty_eq)
qed

text \<open>What the pages leave unanswered: a failed or cut page, or a transfer of an operator whose
  block is unknown.\<close>

definition evidence_gap :: "string set \<Rightarrow> native_transfer list fetch_outcome list \<Rightarrow> bool" where
  "evidence_gap ops outs \<longleftrightarrow>
     (\<exists>out \<in> set outs. fo_status out = Failed \<or> page_cut out) \<or>
     (\<exists>t \<in> set (page_transfers outs). touches_without_block ops t)"

definition related_edges ::
  "string set \<Rightarrow> nat \<times> nat \<Rightarrow> native_transfer list fetch_outcome list \<Rightarrow> value_flow_edge set" where
  "related_edges ops window outs =
     {e. \<exists>t \<in> set (fst (activity_related_transfers (page_transfers outs) ops (Some window))).
        classify_native_edge t ops = Some e}"

lemma related_incomplete:
  "lo \<le> hi \<Longrightarrow> snd (activity_related_transfers raw ops (Some (lo, hi))) \<longleftrightarrow>
     (\<exists>t \<in> set raw. touches_without_block ops t)"
  by (simp add: activity_related_transfers_def Let_def nearest_blocks_def nearest_blocks_fold)

lemma assemble_value:
  "fo_value (assemble_value_flows now ops window st) =
     dedup_edges ops {} (fst (activity_related_transfers (ps_raw st) ops (Some window)))"
  by (simp add: assemble_value_flows_def Let_def outcome_ok_def set_status_def split: prod.split)

lemma assemble_status:
  assumes "fst window \<le> snd window"
  shows "fo_status (assemble_value_flows now ops window (absorb_outcomes outs)) =
    (if evidence_gap ops outs then Truncated
     else if related_edges ops window outs = {} then Empty else Complete)"
proof -
  obtain lo hi where w: "window = (lo, hi)" by (cases window)
  define raw inc where "raw = fst (activity_related_transfers (page_transfers outs) ops (Some window))"
    and "inc = snd (activity_related_transfers (page_transfers outs) ops (Some window))"
  then have p: "activity_related_transfers (page_transfers outs) ops (Some window) = (raw, inc)" by simp
  have gap: "evidence_gap ops outs \<longleftrightarrow>
      ps_page_truncated (absorb_outcomes outs) \<or> ps_any_fail (absorb_outcomes outs) \<or> inc"
    using related_incomplete [of lo hi "page_transfers outs" ops] assms w
    by (auto simp: evidence_gap_def absorb_outcomes_fields inc_def)
  have none: "related_edges ops window outs = {} \<longleftrightarrow> dedup_edges ops {} raw = []"
    unfolding dedup_edges_Nil related_edges_def raw_def all_None_iff ..
  show ?thesis
    unfolding assemble_value_flows_def absorb_outcomes_fields(1) p gap none
    by (simp add: Let_def outcome_ok_def set_status_def status_from_count_def)
qed

lemma activity_block_window_le: "activity_block_window transfers sales = Some w \<Longrightarrow> fst w \<le> snd w"
proof -
  have step: "\<forall>w. widen w0 b = Some w \<longrightarrow> fst w \<le> snd w" if "\<forall>w. w0 = Some w \<longrightarrow> fst w \<le> snd w" for w0 b
    using that by (auto simp: widen_def split: option.splits)
  have "\<forall>w. fold (\<lambda>b w. widen w b) bs w0 = Some w \<longrightarrow> fst w \<le> snd w"
    if "\<forall>w. w0 = Some w \<longrightarrow> fst w \<le> snd w" for w0 bs
    using that
  proof (induction bs arbitrary: w0)
    case (Cons b bs)
    then show ?case using Cons.IH [OF step [OF Cons.prems]] by simp
  qed simp
  from this [OF this [of None]] show "activity_block_window transfers sales = Some w \<Longrightarrow> fst w \<le> snd w"
    by (auto simp: activity_block_window_def)
qed

text \<open>C9. The status of a value-flow query: failed when no page arrived, otherwise truncated as
  soon as a page failed or was cut, or a transfer of an operator has no block, and only without
  any such gap empty or complete according to whether an associated transfer is an edge.\<close>

theorem fetch_evm_value_flows_status:
  assumes "collect_operator_seeds seeds = operators" and "operators \<noteq> []"
    and "activity_block_window transfers sales = Some window"
    and "arrive (value_flow_pages fetch window operators) = outs"
  shows "fo_status (fetch_evm_value_flows fetch arrive now (Some key) seeds transfers sales) =
    (if \<forall>out \<in> set outs. \<not> page_ok out then Failed
     else if evidence_gap (set operators) outs then Truncated
     else if related_edges (set operators) window outs = {} then Empty
     else Complete)"
proof -
  have "\<not> (transfers = [] \<and> sales = [])" using assms(3) by (auto simp: activity_block_window_def)
  then show ?thesis
    using assms assemble_status [OF activity_block_window_le [OF assms(3)]]
    by (auto simp: fetch_evm_value_flows_def Let_def absorb_outcomes_fields outcome_failed_def)
qed

lemma option_ext: "(\<And>b. x = Some b \<longleftrightarrow> y = Some b) \<Longrightarrow> x = y"
  by (cases x; cases y) auto

lemma related_edges_set:
  assumes "fst window \<le> snd window" and "set outs = set outs'"
  shows "related_edges ops window outs = related_edges ops window outs'"
proof -
  obtain lo hi where w: "window = (lo, hi)" by (cases window)
  have raw: "set (page_transfers outs) = set (page_transfers outs')"
    using assms(2) by (simp add: page_transfers_def)
  have f: "map_of (ns_funding (nearest_blocks ops lo hi (page_transfers outs))) a =
      map_of (ns_funding (nearest_blocks ops lo hi (page_transfers outs'))) a" for a
    by (rule option_ext) (use assms w in \<open>simp add: nearest_funding_iff raw\<close>)
  have g: "map_of (ns_withdrawal (nearest_blocks ops lo hi (page_transfers outs))) a =
      map_of (ns_withdrawal (nearest_blocks ops lo hi (page_transfers outs'))) a" for a
    by (rule option_ext) (use assms w in \<open>simp add: nearest_withdrawal_iff raw\<close>)
  have "selected_transfer ops lo hi (nearest_blocks ops lo hi (page_transfers outs)) =
      selected_transfer ops lo hi (nearest_blocks ops lo hi (page_transfers outs'))"
    by (rule ext) (simp add: selected_transfer_def f g Let_def split: option.split)
  then show ?thesis
    using raw by (simp add: related_edges_def activity_related_transfers_def w Let_def)
qed

text \<open>C10. The pages are fetched concurrently, and neither the status of the query nor the set of
  the keys of its edges depends on the order in which they arrive; no two edges have one key.\<close>

theorem fetch_evm_value_flows_arrival_order:
  assumes "\<And>outs. mset (arrive outs) = mset outs"
  shows "(let run = (\<lambda>order. fetch_evm_value_flows fetch order now api_key seeds transfers sales)
    in fo_status (run arrive) = fo_status (run (\<lambda>outs. outs)) \<and>
       edge_key ` set (fo_value (run arrive)) = edge_key ` set (fo_value (run (\<lambda>outs. outs))) \<and>
       distinct (map edge_key (fo_value (run arrive))))"
proof (cases "api_key = None \<or> collect_operator_seeds seeds = [] \<or>
    activity_block_window transfers sales = None \<or> (transfers = [] \<and> sales = [])")
  case True
  then show ?thesis
    by (auto simp: fetch_evm_value_flows_def Let_def outcome_skipped_def outcome_ok_def split: option.split)
next
  case False
  then obtain window where w: "activity_block_window transfers sales = Some window" by auto
  let ?ops = "collect_operator_seeds seeds"
  let ?outs = "value_flow_pages fetch window ?ops"
  have set: "set (arrive ?outs) = set ?outs" using assms(1) by (metis set_mset_mset)
  have le: "fst window \<le> snd window" by (rule activity_block_window_le [OF w])
  have val: "fo_value (assemble_value_flows now (set ?ops) window (absorb_outcomes os)) =
      dedup_edges (set ?ops) {} (fst (activity_related_transfers (page_transfers os) (set ?ops) (Some window)))"
    for os by (simp add: assemble_value absorb_outcomes_fields)
  have keys: "edge_key ` set (fo_value (assemble_value_flows now (set ?ops) window (absorb_outcomes os))) =
      edge_key ` related_edges (set ?ops) window os" for os
    unfolding val dedup_edges_keys related_edges_def by simp
  have gap: "evidence_gap (set ?ops) (arrive ?outs) = evidence_gap (set ?ops) ?outs"
    using set by (simp add: evidence_gap_def page_transfers_def)
  obtain detail where run: "fetch_evm_value_flows fetch order now api_key seeds transfers sales =
      (if \<exists>out \<in> set (order ?outs). page_ok out
       then assemble_value_flows now (set ?ops) window (absorb_outcomes (order ?outs))
       else outcome_failed now ''alchemy'' ''alchemy_value_flows_bounded'' (detail order))" for order
  proof
    show "fetch_evm_value_flows fetch order now api_key seeds transfers sales =
      (if \<exists>out \<in> set (order ?outs). page_ok out
       then assemble_value_flows now (set ?ops) window (absorb_outcomes (order ?outs))
       else outcome_failed now ''alchemy'' ''alchemy_value_flows_bounded''
         (if ps_failures (absorb_outcomes (order ?outs)) = [] then ''all value-flow fetches failed''
          else join_with ''; '' (ps_failures (absorb_outcomes (order ?outs)))))" for order
      using False w by (auto simp: fetch_evm_value_flows_def Let_def absorb_outcomes_fields)
  qed
  show ?thesis
    unfolding Let_def run set keys [symmetric]
    by (simp add: assemble_status [OF le] gap keys related_edges_set [OF le set] outcome_failed_def)
      (simp add: val dedup_edges_distinct)
qed

definition sample_operator :: string where
  "sample_operator = ''0x'' @ replicate 40 (CHR ''a'')"

text \<open>A seller funds himself before a sale in block 5 and the page arrives complete.\<close>

definition sample_funding :: native_transfer where
  "sample_funding =
     \<lparr>nt_tx_hash = ''h'', nt_event_id = None, nt_from = ''b'', nt_to = sample_operator,
      nt_value_native = Some 1, nt_timestamp = None, nt_block_number = Some 4\<rparr>"

definition sample_fetch :: "string \<Rightarrow> string \<Rightarrow> nat \<Rightarrow> nat \<Rightarrow> nat \<Rightarrow> native_transfer list fetch_outcome" where
  "sample_fetch a d lo hi i =
     outcome_ok 0 (if d = ''to'' then [sample_funding] else []) (if d = ''to'' then 1 else 0)
       False ''alchemy'' ''external''"

lemma sample_pages:
  "value_flow_pages sample_fetch (5, 5) [sample_operator] = [sample_fetch sample_operator ''from'' 0 50005 0,
     sample_fetch sample_operator ''to'' 0 50005 1]"
  by (simp add: value_flow_pages_def value_flow_requests_def enumerated_def upt_rec
      value_flow_boundary_blocks_def u64_max_def)

lemma sample_seeds: "collect_operator_seeds [sample_operator] = [sample_operator]" by code_simp

theorem fetch_evm_value_flows_status_witness:
  "fo_status (fetch_evm_value_flows sample_fetch (\<lambda>outs. outs) 0 (Some ''k'') [sample_operator] []
     [default_sale\<lparr>sa_block_number := Some 5\<rparr>]) = Complete"
proof -
  have w: "activity_block_window [] [default_sale\<lparr>sa_block_number := Some 5\<rparr>] = Some (5, 5)"
    by (simp add: activity_block_window_def widen_def)
  let ?outs = "[sample_fetch sample_operator ''from'' 0 50005 0, sample_fetch sample_operator ''to'' 0 50005 1]"
  have ok: "\<not> (\<forall>out \<in> set ?outs. \<not> page_ok out)"
    by (simp add: page_ok_def sample_fetch_def outcome_ok_def status_from_count_def)
  have gap: "\<not> evidence_gap {sample_operator} ?outs"
    by (simp add: evidence_gap_def page_transfers_def page_cut_def page_ok_def sample_fetch_def
        outcome_ok_def status_from_count_def sample_funding_def sample_operator_def touches_without_block_def)
  have "fst (activity_related_transfers (page_transfers ?outs) {sample_operator} (Some (5, 5))) =
      [sample_funding]"
    by (simp add: page_transfers_def page_ok_def sample_fetch_def outcome_ok_def status_from_count_def
        activity_related_transfers_def nearest_blocks_def nearest_step_def selected_transfer_def
        sample_funding_def sample_operator_def value_flow_boundary_blocks_def entry_update_def Let_def)
  then have "related_edges {sample_operator} (5, 5) ?outs \<noteq> {}"
    by (simp add: related_edges_def classify_native_edge_def sample_funding_def sample_operator_def)
  then show ?thesis
    using fetch_evm_value_flows_status [OF sample_seeds _ w, of "\<lambda>outs. outs" sample_fetch ?outs 0 "''k''"]
      ok gap by (simp add: sample_pages del: list.set) simp
qed

theorem fetch_evm_value_flows_arrival_order_witness:
  "fo_status (fetch_evm_value_flows sample_fetch rev 0 (Some ''k'') [sample_operator] [] []) =
     fo_status (fetch_evm_value_flows sample_fetch (\<lambda>outs. outs) 0 (Some ''k'') [sample_operator] [] [])"
  using fetch_evm_value_flows_arrival_order [of rev sample_fetch 0 "Some ''k''" "[sample_operator]" "[]" "[]"]
  by (simp add: Let_def)

end
