(* ===== verification/MintPayment.thy ===== *)
theory MintPayment
  imports Roles
begin

text \<open>
  Payments attached to mints (\<open>src/analysis2/crates/core/src/enrich/mint_payment.rs\<close>): the buyer's
  outflows in the transaction of a mint, their allocation over the mints of a batch, repricing,
  and the restriction to payments that reach the candidate or one of its controllers.

  Amounts are \<open>f64\<close>.  \<open>extra\<close> stands for the hash map of probed payments; the count per payer and
  transaction is a hash map that is only looked up, so its insertion order is irrelevant.
\<close>

section \<open>Prices\<close>

definition chain_matches_symbol :: "string \<Rightarrow> string \<Rightarrow> bool" where
  "chain_matches_symbol chain symbol =
     (let c = to_ascii_lowercase (trim chain)
      in if c = ''ethereum'' \<or> c = ''base'' then eq_ignore_ascii_case symbol ''ETH''
         else if c = ''polygon'' \<or> c = ''matic'' then
           eq_ignore_ascii_case symbol ''MATIC'' \<or> eq_ignore_ascii_case symbol ''POL''
         else if c = ''solana'' then eq_ignore_ascii_case symbol ''SOL''
         else False)"

definition usd_for_runtime :: "price_bucket list \<Rightarrow> string \<Rightarrow> f64 \<Rightarrow> f64 option" where
  "usd_for_runtime prices chain native =
     (case List.find (\<lambda>p. eq_ignore_ascii_case (pb_chain p) chain \<and>
              chain_matches_symbol chain (pb_symbol p) \<and> 0 < pb_usd_per_native p) prices of
        None \<Rightarrow> None
      | Some rate \<Rightarrow>
          if 0 < pb_usd_per_native rate then Some (native * pb_usd_per_native rate) else None)"

definition refresh_one :: "price_bucket list \<Rightarrow> string \<Rightarrow> transfer_event \<Rightarrow> transfer_event" where
  "refresh_one prices chain t =
     (if tr_is_mint t
      then t\<lparr>tr_mint_payment_usd :=
             Option.bind (tr_mint_payment_native t) (usd_for_runtime prices chain)\<rparr>
      else t)"

definition refresh_mint_payment_usd ::
  "transfer_event list \<Rightarrow> price_bucket list \<Rightarrow> string \<Rightarrow> transfer_event list" where
  "refresh_mint_payment_usd transfers prices chain = map (refresh_one prices chain) transfers"

section \<open>Outflows of the buyer\<close>

text \<open>Body of the loop over the value-flow edges: the total and the receivers seen so far.\<close>

definition outflow_step ::
  "string \<Rightarrow> string \<Rightarrow> string \<Rightarrow> value_flow_edge \<Rightarrow> f64 \<times> string list \<Rightarrow> f64 \<times> string list" where
  "outflow_step chain tx buyer edge = (\<lambda>(total, receivers).
     (if normalize_chain_transaction chain (vf_tx_hash edge) \<noteq> tx then (total, receivers)
      else let amt = unwrap_or 0 (vf_native_amount edge)
           in if amt \<le> 0 then (total, receivers)
              else if normalize_chain_address chain (vf_from edge) = buyer
              then let receiver = normalize_chain_address chain (vf_to edge)
                   in (total + amt,
                       if receiver \<noteq> [] \<and> receiver \<noteq> buyer then push_new receiver receivers
                       else receivers)
              else (total, receivers)))"

definition payment_from_value_flows ::
  "transfer_event \<Rightarrow> value_flow_edge list \<Rightarrow> string \<Rightarrow> (f64 \<times> string) option" where
  "payment_from_value_flows mint value_flows chain =
     (let tx = normalize_chain_transaction chain (tr_tx_hash mint);
          buyer = normalize_chain_address chain (tr_to mint)
      in if tx = [] \<or> buyer = [] then None
         else let (total, receivers) = fold (outflow_step chain tx buyer) value_flows (0, [])
              in if total \<le> 0 \<or> length receivers \<noteq> 1 then None
                 else case receivers of [] \<Rightarrow> None | r # _ \<Rightarrow> Some (total, r))"

definition payment_native_from_value_flows ::
  "transfer_event \<Rightarrow> value_flow_edge list \<Rightarrow> string \<Rightarrow> f64 option" where
  "payment_native_from_value_flows mint value_flows chain =
     map_option fst (payment_from_value_flows mint value_flows chain)"

section \<open>Attaching payments\<close>

definition mint_key :: "string \<Rightarrow> transfer_event \<Rightarrow> string \<times> string" where
  "mint_key chain t =
     (normalize_chain_transaction chain (tr_tx_hash t), normalize_chain_address chain (tr_to t))"

definition mint_counts :: "string \<Rightarrow> transfer_event list \<Rightarrow> ((string \<times> string) \<times> nat) list" where
  "mint_counts chain transfers =
     fold (\<lambda>t. entry_update ah_insert (mint_key chain t) 0 Suc) (filter tr_is_mint transfers) []"

definition mint_observations ::
  "transfer_event \<Rightarrow> value_flow_edge list \<Rightarrow> string \<Rightarrow>
   (string \<times> string \<Rightarrow> (f64 \<times> string) option) \<Rightarrow> (f64 \<times> string) list" where
  "mint_observations t value_flows chain extra =
     (case payment_from_value_flows t value_flows chain of None \<Rightarrow> [] | Some p \<Rightarrow> [p]) @
     (case (opt_filter (\<lambda>v. 0 < v) (tr_mint_payment_native t), tr_mint_payment_receiver t) of
        (Some existing, Some receiver) \<Rightarrow> [(existing, receiver)] | _ \<Rightarrow> []) @
     (case extra (mint_key chain t) of
        Some (e, receiver) \<Rightarrow> (if 0 < e then [(e, receiver)] else []) | None \<Rightarrow> [])"

definition clear_payment :: "transfer_event \<Rightarrow> transfer_event" where
  "clear_payment t =
     t\<lparr>tr_mint_payment_native := None, tr_mint_payment_usd := None, tr_mint_payment_receiver := None\<rparr>"

text \<open>\<open>partial_cmp(..).unwrap_or(Equal)\<close>: greater only if the values are ordered.\<close>

definition attach_one ::
  "((string \<times> string) \<times> nat) list \<Rightarrow> value_flow_edge list \<Rightarrow> price_bucket list \<Rightarrow> string \<Rightarrow>
   (string \<times> string \<Rightarrow> (f64 \<times> string) option) \<Rightarrow> transfer_event \<Rightarrow> transfer_event" where
  "attach_one counts value_flows prices chain extra t =
     (if \<not> tr_is_mint t then t
      else let key = mint_key chain t;
               selected = max_by (\<lambda>left right. fst right < fst left)
                            (mint_observations t value_flows chain extra);
               n = max (unwrap_or 1 (map_of counts key)) 1
           in case selected of
                None \<Rightarrow> clear_payment t
              | Some (total_native, receiver) \<Rightarrow>
                  let native = total_native / f64_of_nat n
                  in t\<lparr>tr_mint_payment_native := Some native,
                       tr_mint_payment_usd := usd_for_runtime prices chain native,
                       tr_mint_payment_receiver := Some receiver\<rparr>)"

definition attach_mint_payments ::
  "transfer_event list \<Rightarrow> value_flow_edge list \<Rightarrow> price_bucket list \<Rightarrow> string \<Rightarrow>
   (string \<times> string \<Rightarrow> (f64 \<times> string) option) \<Rightarrow> transfer_event list" where
  "attach_mint_payments transfers value_flows prices chain extra =
     map (attach_one (mint_counts chain transfers) value_flows prices chain extra) transfers"

section \<open>Restriction to controlled receivers\<close>

definition controlled_receivers :: "string \<Rightarrow> string \<Rightarrow> string list \<Rightarrow> string set" where
  "controlled_receivers chain candidate controllers =
     (let candidate = normalize_chain_address chain candidate
      in set (filter (\<lambda>a. a \<noteq> []) (map (normalize_chain_address chain) controllers)) \<union>
         (if candidate \<noteq> [] then {candidate} else {}))"

definition retain_one :: "string set \<Rightarrow> string \<Rightarrow> transfer_event \<Rightarrow> transfer_event" where
  "retain_one controlled chain t =
     (if tr_is_mint t \<and>
         \<not> is_some_and (\<lambda>r. r \<in> controlled)
             (map_option (normalize_chain_address chain) (tr_mint_payment_receiver t))
      then clear_payment t else t)"

definition retain_controlled_mint_payments ::
  "transfer_event list \<Rightarrow> string \<Rightarrow> string \<Rightarrow> string list \<Rightarrow> transfer_event list" where
  "retain_controlled_mint_payments transfers chain candidate controllers =
     map (retain_one (controlled_receivers chain candidate controllers) chain) transfers"

section \<open>Facts\<close>

text \<open>The buyer's outflows of the transaction, and who received them.\<close>

definition outflows :: "string \<Rightarrow> transfer_event \<Rightarrow> value_flow_edge list \<Rightarrow> value_flow_edge list" where
  "outflows chain mint es = filter (\<lambda>e.
     normalize_chain_transaction chain (vf_tx_hash e) = normalize_chain_transaction chain (tr_tx_hash mint) \<and>
     \<not> unwrap_or 0 (vf_native_amount e) \<le> 0 \<and>
     normalize_chain_address chain (vf_from e) = normalize_chain_address chain (tr_to mint)) es"

definition outflow_receivers :: "string \<Rightarrow> transfer_event \<Rightarrow> value_flow_edge list \<Rightarrow> string set" where
  "outflow_receivers chain mint es =
     (\<lambda>e. normalize_chain_address chain (vf_to e)) ` set (outflows chain mint es) -
       {[], normalize_chain_address chain (tr_to mint)}"

definition outflow_total :: "string \<Rightarrow> transfer_event \<Rightarrow> value_flow_edge list \<Rightarrow> f64" where
  "outflow_total chain mint es =
     fold (\<lambda>e s. s + unwrap_or 0 (vf_native_amount e)) (outflows chain mint es) 0"

lemma fold_outflow_step:
  fixes mint :: transfer_event and chain :: string
  defines "tx \<equiv> normalize_chain_transaction chain (tr_tx_hash mint)"
    and "buyer \<equiv> normalize_chain_address chain (tr_to mint)"
  shows "fold (outflow_step chain tx buyer) es (s, rs) =
    (fold (\<lambda>e s. s + unwrap_or 0 (vf_native_amount e)) (outflows chain mint es) s,
     fold push_new (filter (\<lambda>r. r \<noteq> [] \<and> r \<noteq> buyer)
       (map (\<lambda>e. normalize_chain_address chain (vf_to e)) (outflows chain mint es))) rs)"
  by (induction es arbitrary: s rs) (auto simp: outflow_step_def outflows_def tx_def buyer_def Let_def)

lemma f64_add_positive:
  fixes s x :: f64
  assumes "rounded x" and "\<not> x \<le> 0" and "0 \<le> s \<or> s = NaN"
  shows "\<not> s + x \<le> 0 \<and> (0 \<le> s + x \<or> s + x = NaN)"
proof (cases "s = NaN \<or> x = NaN")
  case True
  then have "s + x = NaN" by (cases s; cases x) (auto simp: plus_f64_def)
  then show ?thesis by (simp add: f64_ops)
next
  case False
  then have "0 < x" "0 \<le> s" using assms by (cases x; auto simp: f64_ops)+
  then have "x \<le> s + x"
    using f64_add_increasing [of x s] assms(1) f64_pos_nonneg by (simp add: f64_add_comm)
  then show ?thesis
    using \<open>0 < x\<close> f64_le_trans [of x "s + x" 0] f64_le_trans [of 0 x "s + x"] f64_pos_nonneg assms(2)
    by blast
qed

lemma total_positive:
  assumes "\<forall>e \<in> set es. rounded (unwrap_or 0 (vf_native_amount e)) \<and> \<not> unwrap_or 0 (vf_native_amount e) \<le> 0"
    and "rounded s" and "0 \<le> s \<or> s = NaN" and "es \<noteq> [] \<or> \<not> s \<le> 0"
  shows "\<not> fold (\<lambda>e s. s + unwrap_or 0 (vf_native_amount e)) es s \<le> 0"
  using assms
proof (induction es arbitrary: s)
  case (Cons e es)
  let ?a = "unwrap_or 0 (vf_native_amount e)"
  have a: "rounded ?a" "\<not> ?a \<le> 0" using Cons.prems(1) by auto
  have "0 \<le> s + ?a \<or> s + ?a = NaN" "\<not> s + ?a \<le> 0"
    using f64_add_positive [OF a Cons.prems(3)] by auto
  then show ?case using Cons.IH [of "s + ?a"] Cons.prems(1) by simp
qed simp

text \<open>C11. A mint is paid exactly when the buyer's positive outflows in its transaction reach a single
  other address; the payment is their sum and its receiver that address.\<close>

theorem payment_from_value_flows_iff:
  assumes "\<forall>e \<in> set value_flows. rounded (unwrap_or 0 (vf_native_amount e))"
  shows "payment_from_value_flows mint value_flows chain = Some (amount, receiver) \<longleftrightarrow>
    normalize_chain_transaction chain (tr_tx_hash mint) \<noteq> [] \<and>
    normalize_chain_address chain (tr_to mint) \<noteq> [] \<and>
    outflow_receivers chain mint value_flows = {receiver} \<and>
    amount = outflow_total chain mint value_flows"
proof -
  have outflow: "outflows chain mint value_flows \<noteq> []"
    if "outflow_receivers chain mint value_flows = {receiver}"
    using that by (cases "outflows chain mint value_flows = []") (simp_all add: outflow_receivers_def)
  let ?buyer = "normalize_chain_address chain (tr_to mint)"
  define rs where "rs = fold push_new (filter (\<lambda>r. r \<noteq> [] \<and> r \<noteq> ?buyer)
      (map (\<lambda>e. normalize_chain_address chain (vf_to e)) (outflows chain mint value_flows))) []"
  have set: "set rs = outflow_receivers chain mint value_flows"
    by (auto simp: rs_def set_fold_push_new outflow_receivers_def)
  have "distinct rs" unfolding rs_def by (rule distinct_fold_push_new) simp
  then have single: "rs = [receiver] \<longleftrightarrow> outflow_receivers chain mint value_flows = {receiver}"
    unfolding set [symmetric] by (cases rs; cases "tl rs") auto
  have pos: "\<not> outflow_total chain mint value_flows \<le> 0"
    if "outflow_receivers chain mint value_flows = {receiver}"
    unfolding outflow_total_def
    by (rule total_positive) (use assms outflow [OF that] in \<open>auto simp: outflows_def\<close>)
  show ?thesis
    using pos single
    by (cases rs; cases "tl rs")
      (auto simp: payment_from_value_flows_def Let_def fold_outflow_step rs_def [symmetric]
        outflow_total_def [symmetric])
qed

definition sample_mint :: transfer_event where
  "sample_mint =
     \<lparr>tr_tx_hash = ''0xT'', tr_token_id = ''1'', tr_from = zero_address, tr_to = ''B'',
      tr_timestamp = None, tr_block_number = None, tr_is_mint = True, tr_gas_native = None,
      tr_fee_payer = None, tr_mint_payment_native = None, tr_mint_payment_usd = None,
      tr_mint_payment_receiver = None\<rparr>"

definition sample_outflow :: value_flow_edge where
  "sample_outflow =
     \<lparr>vf_tx_hash = ''0xt'', vf_event_id = None, vf_from = ''b'', vf_to = ''c'', vf_kind = Withdrawal,
      vf_native_amount = Some (Fin 2), vf_usd_amount = None, vf_timestamp = None,
      vf_gas_native = None, vf_fee_payer = None\<rparr>"

theorem payment_from_value_flows_iff_witness:
  "payment_from_value_flows sample_mint [sample_outflow] ''base'' = Some (Fin 2, ''c'')"
proof -
  have "rounded (unwrap_or 0 (vf_native_amount sample_outflow))"
    by (simp add: sample_outflow_def rounded_def f64_ops unwrap_or_def round_f64_numeral)
  moreover have "outflow_receivers ''base'' sample_mint [sample_outflow] = {''c''}" by code_simp
  moreover have "outflows ''base'' sample_mint [sample_outflow] = [sample_outflow]" by code_simp
  then have "outflow_total ''base'' sample_mint [sample_outflow] = Fin 2"
    by (simp add: outflow_total_def sample_outflow_def f64_ops round_f64_numeral)
  moreover have "normalize_chain_transaction ''base'' (tr_tx_hash sample_mint) \<noteq> []" by code_simp
  moreover have "normalize_chain_address ''base'' (tr_to sample_mint) \<noteq> []" by code_simp
  ultimately show ?thesis
    using payment_from_value_flows_iff [of "[sample_outflow]" sample_mint "''base''" "Fin 2" "''c''"] by simp
qed

lemma retain_one_mint [simp]: "tr_is_mint (retain_one R chain t) = tr_is_mint t"
  by (simp add: retain_one_def clear_payment_def)

lemma retain_idem: "retain_one R chain (retain_one R chain t) = retain_one R chain t"
  by (simp add: retain_one_def clear_payment_def)

lemma retain_refresh:
  "retain_one R chain (refresh_one prices chain t) = refresh_one prices chain (retain_one R chain t)"
  by (simp add: retain_one_def refresh_one_def clear_payment_def)

lemma retained_or_cleared:
  "tr_is_mint t \<Longrightarrow>
     (tr_mint_payment_receiver (retain_one R chain t) = None \<and>
      tr_mint_payment_native (retain_one R chain t) = None \<and>
      tr_mint_payment_usd (retain_one R chain t) = None) \<or>
     (retain_one R chain t = t \<and>
      (\<exists>r. tr_mint_payment_receiver t = Some r \<and> normalize_chain_address chain r \<in> R))"
  by (auto simp: retain_one_def clear_payment_def is_some_and_def split: option.splits)

text \<open>Restricting the mints to payments that reach a controlled receiver commutes with repricing
  and is idempotent; it never touches a transfer that is no mint, nor a mint whose payment
  reaches the candidate or a controller.\<close>

theorem retain_controlled_mint_payments_laws:
  "(let retain = (\<lambda>ts. retain_controlled_mint_payments ts chain candidate controllers);
        refresh = (\<lambda>ts. refresh_mint_payment_usd ts prices chain)
    in retain (refresh ts) = refresh (retain ts) \<and> retain (retain ts) = retain ts \<and>
       filter (\<lambda>t. \<not> tr_is_mint t) (retain ts) = filter (\<lambda>t. \<not> tr_is_mint t) ts \<and>
       (\<forall>t \<in> set (retain ts). tr_is_mint t \<longrightarrow>
          (tr_mint_payment_receiver t = None \<and> tr_mint_payment_native t = None \<and>
           tr_mint_payment_usd t = None) \<or>
          (t \<in> set ts \<and> (\<exists>r. tr_mint_payment_receiver t = Some r \<and>
             normalize_chain_address chain r \<in> controlled_receivers chain candidate controllers))))"
proof -
  let ?R = "controlled_receivers chain candidate controllers"
  have same: "retain_one ?R chain t = t" if "\<not> tr_is_mint t" for t
    using that by (simp add: retain_one_def)
  have "filter (\<lambda>t. \<not> tr_is_mint t) (map (retain_one ?R chain) ts) = filter (\<lambda>t. \<not> tr_is_mint t) ts"
    by (induction ts) (simp_all add: retain_one_mint same)
  moreover have "(tr_mint_payment_receiver u = None \<and> tr_mint_payment_native u = None \<and>
        tr_mint_payment_usd u = None) \<or>
      (u \<in> set ts \<and> (\<exists>r. tr_mint_payment_receiver u = Some r \<and> normalize_chain_address chain r \<in> ?R))"
    if u: "u \<in> set (map (retain_one ?R chain) ts)" "tr_is_mint u" for u
  proof -
    obtain t where "t \<in> set ts" "u = retain_one ?R chain t" using u(1) by auto
    with u(2) retained_or_cleared [of t ?R chain] show ?thesis by auto
  qed
  ultimately show ?thesis
    by (simp add: retain_controlled_mint_payments_def refresh_mint_payment_usd_def Let_def
        retain_refresh retain_idem)
qed

theorem retain_controlled_mint_payments_laws_witness:
  "tr_mint_payment_receiver (sample_mint\<lparr>tr_mint_payment_receiver := Some ''c''\<rparr>) = Some ''c'' \<and>
   set (retain_controlled_mint_payments [sample_mint\<lparr>tr_mint_payment_receiver := Some ''c''\<rparr>]
     ''base'' ''C'' []) = {sample_mint\<lparr>tr_mint_payment_receiver := Some ''c''\<rparr>}"
proof -
  let ?t = "sample_mint\<lparr>tr_mint_payment_receiver := Some ''c''\<rparr>"
  have "retain_controlled_mint_payments [?t] ''base'' ''C'' [] = [?t]" by code_simp
  then show ?thesis
    using retain_controlled_mint_payments_laws [of "''base''" "''C''" "[]" "[]" "[?t]"]
    by (simp add: Let_def sample_mint_def)
qed

lemma max_length_one: "xs \<noteq> [] \<Longrightarrow> max (length xs) 1 = length xs"
  by (cases xs) simp_all

lemma mint_counts_lookup:
  assumes "t \<in> set transfers" and "tr_is_mint t"
  shows "map_of (mint_counts chain transfers) (mint_key chain t) =
    Some (length (filter (\<lambda>u. tr_is_mint u \<and> mint_key chain u = mint_key chain t) transfers))"
proof -
  let ?ms = "filter tr_is_mint transfers"
  have "mint_key chain t \<in> mint_key chain ` set ?ms" using assms by simp
  then show ?thesis
    unfolding mint_counts_def
    using hashm.lookup_fold_entry_update [of "mint_key chain" "0 :: nat" "\<lambda>_. Suc" ?ms "[]" "mint_key chain t"]
    by (simp add: fold_Suc conj_commute)
qed

text \<open>A mint without an earlier or a probed payment receives the payment of its transaction
  divided by the number of mints its buyer made in that transaction, priced at the current rate;
  without a payment it is left unpaid.\<close>

theorem attach_mint_payments_share:
  assumes "i < length transfers" and "tr_is_mint (transfers ! i)"
    and "tr_mint_payment_native (transfers ! i) = None"
    and "extra (mint_key chain (transfers ! i)) = None"
  shows "(let t = transfers ! i; t' = attach_mint_payments transfers value_flows prices chain extra ! i;
      n = length (filter (\<lambda>u. tr_is_mint u \<and> mint_key chain u = mint_key chain t) transfers);
      share = map_option (\<lambda>p. (fst p / f64_of_nat n, snd p)) (payment_from_value_flows t value_flows chain)
    in tr_mint_payment_native t' = map_option fst share \<and>
       tr_mint_payment_receiver t' = map_option snd share \<and>
       tr_mint_payment_usd t' = Option.bind (map_option fst share) (usd_for_runtime prices chain))"
proof -
  let ?t = "transfers ! i"
  have count: "map_of (mint_counts chain transfers) (mint_key chain ?t) =
      Some (length (filter (\<lambda>u. tr_is_mint u \<and> mint_key chain u = mint_key chain ?t) transfers))"
    using assms(1,2) by (intro mint_counts_lookup) simp_all
  have "filter (\<lambda>u. tr_is_mint u \<and> mint_key chain u = mint_key chain ?t) transfers \<noteq> []"
    using assms(1,2) nth_mem [OF assms(1)] by (metis (mono_tags, lifting) filter_empty_conv)
  then have max: "max (length (filter (\<lambda>u. tr_is_mint u \<and> mint_key chain u = mint_key chain ?t) transfers)) 1 =
      length (filter (\<lambda>u. tr_is_mint u \<and> mint_key chain u = mint_key chain ?t) transfers)"
    by (rule max_length_one)
  have obs: "mint_observations ?t value_flows chain extra =
      (case payment_from_value_flows ?t value_flows chain of None \<Rightarrow> [] | Some p \<Rightarrow> [p])"
    using assms(3,4) by (simp add: mint_observations_def opt_filter_def)
  show ?thesis
    using assms(1,2)
    by (cases "payment_from_value_flows ?t value_flows chain")
      (auto simp: attach_mint_payments_def attach_one_def Let_def obs max_by_def count max [simplified]
        unwrap_or_def clear_payment_def)
qed

theorem attach_mint_payments_share_witness:
  "tr_mint_payment_receiver (attach_mint_payments [sample_mint] [] [] ''base'' (\<lambda>_. None) ! 0) =
     map_option snd (payment_from_value_flows sample_mint [] ''base'')"
  using attach_mint_payments_share [of 0 "[sample_mint]" "\<lambda>_. None" "''base''" "[]" "[]"]
  by (simp add: Let_def sample_mint_def option.map_comp comp_def)

end
