(* ===== verification/AddressGraph.thy ===== *)
theory AddressGraph
  imports Evidence
begin

text \<open>
  The compact address graph (\<open>AddressGraph\<close> of
  \<open>src/analysis2/crates/core/src/analysis/graph.rs\<close>): vertices are the indices of the sorted
  addresses, and the successors of \<open>v\<close> are \<open>edges[offsets[v] .. offsets[v + 1]]\<close>.  The facts
  show that \<open>build\<close> yields a well-formed graph whose slices are exactly the given pairs.

  The addresses are the keys of a hash map, sorted: the set of endpoints, sorted.  The lookups
  \<open>by_address[from]\<close> cannot miss (\<open>vertex_of_nth\<close>), nor can the counting writes be out of range.
\<close>

record address_graph =
  ag_addresses :: "string list"
  ag_offsets :: "nat list"
  ag_edges :: "nat list"

section \<open>Construction\<close>

text \<open>\<open>by_address[a]\<close>: the position of an address in the sorted list.\<close>

definition vertex_of :: "string list \<Rightarrow> string \<Rightarrow> nat" where
  "vertex_of addresses a = length (takeWhile (\<lambda>b. b \<noteq> a) addresses)"

definition count_sources :: "(nat \<times> nat) list \<Rightarrow> nat list \<Rightarrow> nat list" where
  "count_sources edge_pairs offsets =
     fold (\<lambda>(from, _) os. os[from + 1 := os ! (from + 1) + 1]) edge_pairs offsets"

definition prefix_sums :: "nat \<Rightarrow> nat list \<Rightarrow> nat list" where
  "prefix_sums n offsets =
     fold (\<lambda>vertex os. os[vertex + 1 := os ! (vertex + 1) + os ! vertex]) [0..<n] offsets"

definition build_graph :: "(string \<times> string) list \<Rightarrow> address_graph" where
  "build_graph pairs =
     (let addresses = sort_dedup (concat (map (\<lambda>(from, to). [from, to]) pairs));
          edge_pairs = sort_dedup (map (\<lambda>(from, to).
            (vertex_of addresses from, vertex_of addresses to)) pairs);
          offsets = prefix_sums (length addresses)
            (count_sources edge_pairs (replicate (length addresses + 1) 0))
      in \<lparr>ag_addresses = addresses, ag_offsets = offsets, ag_edges = map snd edge_pairs\<rparr>)"

definition transfer_pair :: "transfer_event \<Rightarrow> (string \<times> string) option" where
  "transfer_pair t =
     (if tr_from t = [] \<or> tr_to t = [] \<or> tr_from t = tr_to t then None
      else Some (tr_from t, tr_to t))"

definition sale_pair :: "sale_event \<Rightarrow> (string \<times> string) option" where
  "sale_pair s =
     (if sa_seller s = [] \<or> sa_buyer s = [] \<or> sa_seller s = sa_buyer s then None
      else Some (sa_seller s, sa_buyer s))"

definition graph_from_transfers :: "transfer_event list \<Rightarrow> address_graph" where
  "graph_from_transfers transfers = build_graph (List.map_filter transfer_pair transfers)"

definition graph_from_sales :: "sale_event list \<Rightarrow> address_graph" where
  "graph_from_sales sales = build_graph (List.map_filter sale_pair sales)"

definition graph_from_sales_filtered ::
  "sale_event list \<Rightarrow> (sale_event \<Rightarrow> bool) \<Rightarrow> address_graph" where
  "graph_from_sales_filtered sales included =
     build_graph (List.map_filter sale_pair (filter included sales))"

definition address_index :: "address_graph \<Rightarrow> (string \<times> nat) list" where
  "address_index g = map (\<lambda>(i, a). (a, i)) (enumerated (ag_addresses g))"

section \<open>Well-formed graphs\<close>

definition vertex_count :: "address_graph \<Rightarrow> nat" where
  "vertex_count g = length (ag_addresses g)"

text \<open>The successors of a vertex: its slice of the edge array.\<close>

definition succs :: "address_graph \<Rightarrow> nat \<Rightarrow> nat list" where
  "succs g v = map (\<lambda>e. ag_edges g ! e) [ag_offsets g ! v..<ag_offsets g ! (v + 1)]"

definition graph_ok :: "address_graph \<Rightarrow> bool" where
  "graph_ok g \<longleftrightarrow>
     length (ag_offsets g) = vertex_count g + 1 \<and>
     (\<forall>v < vertex_count g. ag_offsets g ! v \<le> ag_offsets g ! (v + 1) \<and>
        ag_offsets g ! (v + 1) \<le> length (ag_edges g)) \<and>
     (\<forall>w \<in> set (ag_edges g). w < vertex_count g)"

section \<open>Facts\<close>

lemma vertex_of_lt: "a \<in> set xs \<Longrightarrow> vertex_of xs a < length xs"
  unfolding vertex_of_def by (induction xs) auto

lemma nth_vertex_of: "a \<in> set xs \<Longrightarrow> xs ! vertex_of xs a = a"
  unfolding vertex_of_def by (induction xs) auto

lemma vertex_of_nth: "distinct xs \<Longrightarrow> i < length xs \<Longrightarrow> vertex_of xs (xs ! i) = i"
  by (metis nth_vertex_of vertex_of_lt nth_eq_iff_index_eq nth_mem)

lemma length_count_sources [simp]: "length (count_sources ps os) = length os"
  unfolding count_sources_def by (induction ps arbitrary: os) auto

lemma nth_count_sources:
  "\<forall>p \<in> set ps. fst p + 1 < length os \<Longrightarrow> i < length os \<Longrightarrow>
   count_sources ps os ! i = os ! i + length (filter (\<lambda>p. fst p + 1 = i) ps)"
  unfolding count_sources_def
  by (induction ps arbitrary: os) (auto simp: nth_list_update)

lemma length_prefix_sums [simp]: "length (prefix_sums n os) = length os"
  unfolding prefix_sums_def by (induction n) auto

lemma nth_prefix_sums:
  "n < length os \<Longrightarrow> i < length os \<Longrightarrow>
   prefix_sums n os ! i = (if i \<le> n then sum ((!) os) {0..i} else os ! i)"
proof (induction n arbitrary: i)
  case 0
  then show ?case by (simp add: prefix_sums_def)
next
  case (Suc n)
  have "prefix_sums (Suc n) os = (prefix_sums n os)
      [n + 1 := prefix_sums n os ! (n + 1) + prefix_sums n os ! n]"
    by (simp add: prefix_sums_def)
  then show ?case using Suc by (auto simp: nth_list_update le_Suc_eq)
qed

lemma sum_source_counts:
  "(\<Sum>j \<in> {0..i}. length (filter (\<lambda>p. fst p + 1 = j) ps)) = length (filter (\<lambda>p. fst p < i) ps)"
  for ps :: "(nat \<times> nat) list"
proof (induction i)
  case 0
  then show ?case by simp
next
  case (Suc i)
  have "length (filter (\<lambda>p. fst p < Suc i) ps) =
      length (filter (\<lambda>p. fst p < i) ps) + length (filter (\<lambda>p. fst p = i) ps)"
    by (induction ps) auto
  with Suc show ?case by simp
qed

lemma offsets_eq:
  assumes "\<forall>p \<in> set ps. fst p < n" and "i \<le> n"
  shows "prefix_sums n (count_sources ps (replicate (n + 1) 0)) ! i =
    length (filter (\<lambda>p. fst p < i) ps)"
proof -
  have "sum ((!) (count_sources ps (replicate (n + 1) 0))) {0..i} =
      (\<Sum>j \<in> {0..i}. length (filter (\<lambda>p. fst p + 1 = j) ps))"
    using assms by (intro sum.cong) (simp_all add: nth_count_sources del: replicate_Suc)
  then show ?thesis using assms sum_source_counts [of ps i] by (simp add: nth_prefix_sums)
qed

text \<open>In a sorted list the pairs with a small first component are a prefix.\<close>

lemma filter_fst_less_take:
  "sorted ps \<Longrightarrow> filter (\<lambda>p. fst p < i) ps = take (length (filter (\<lambda>p. fst p < i) ps)) ps"
  for ps :: "(nat \<times> nat) list"
proof (induction ps)
  case (Cons p ps)
  show ?case
  proof (cases "fst p < i")
    case False
    then have "filter (\<lambda>p. fst p < i) ps = []"
      using Cons.prems by (fastforce simp: filter_empty_conv less_eq_prod_def)
    then show ?thesis using False by simp
  qed (use Cons in simp)
qed simp

lemma slice_eq:
  fixes ps :: "(nat \<times> nat) list"
  assumes "sorted ps"
  shows "map (\<lambda>e. map snd ps ! e)
    [length (filter (\<lambda>p. fst p < v) ps)..<length (filter (\<lambda>p. fst p < v + 1) ps)] =
    map snd (filter (\<lambda>p. fst p = v) ps)"
proof -
  let ?a = "length (filter (\<lambda>p. fst p < v) ps)" and ?b = "length (filter (\<lambda>p. fst p < v + 1) ps)"
  have "filter (\<lambda>p. fst p < v + 1) ps = take ?b ps" by (rule filter_fst_less_take [OF assms])
  moreover have "filter (\<lambda>p. fst p < v) ps = take ?a ps" by (rule filter_fst_less_take [OF assms])
  moreover have "filter (\<lambda>p. fst p < v + 1) ps = filter (\<lambda>p. fst p < v) ps @ filter (\<lambda>p. fst p = v) ps"
    using assms
  proof (induction ps)
    case (Cons p ps)
    have "fst p < v \<or> filter (\<lambda>p. fst p < v) ps = []"
      using Cons.prems by (fastforce simp: filter_empty_conv less_eq_prod_def)
    with Cons show ?case by auto
  qed simp
  ultimately have "filter (\<lambda>p. fst p = v) ps = drop ?a (take ?b ps)"
    by (metis append_eq_conv_conj)
  moreover have "map (\<lambda>e. map snd ps ! e) [?a..<?b] = drop ?a (take ?b (map snd ps))"
    by (rule nth_equalityI) (auto simp: length_filter_le)
  ultimately show ?thesis by (simp add: take_map drop_map)
qed

text \<open>The graph of a list of pairs.\<close>

lemma build_addresses: "set (ag_addresses (build_graph pairs)) = fst ` set pairs \<union> snd ` set pairs"
  by (force simp: build_graph_def Let_def)

lemma build_sorted: "sorted_wrt (<) (ag_addresses (build_graph pairs))"
  by (simp add: build_graph_def Let_def strict_sorted_iff)

definition build_edge_pairs :: "(string \<times> string) list \<Rightarrow> (nat \<times> nat) list" where
  "build_edge_pairs pairs = sort_dedup (map (\<lambda>(from, to).
     (vertex_of (ag_addresses (build_graph pairs)) from, vertex_of (ag_addresses (build_graph pairs)) to)) pairs)"

lemma build_edge_pairs_iff:
  "(i, j) \<in> set (build_edge_pairs pairs) \<longleftrightarrow>
     i < vertex_count (build_graph pairs) \<and> j < vertex_count (build_graph pairs) \<and>
     (ag_addresses (build_graph pairs) ! i, ag_addresses (build_graph pairs) ! j) \<in> set pairs"
proof -
  let ?as = "ag_addresses (build_graph pairs)"
  have "a \<in> set ?as \<and> b \<in> set ?as" if "(a, b) \<in> set pairs" for a b
    using that by (force simp: build_addresses)
  moreover have "distinct ?as" using build_sorted strict_sorted_iff by blast
  ultimately show ?thesis
    by (auto simp: build_edge_pairs_def vertex_count_def vertex_of_lt nth_vertex_of vertex_of_nth
        intro!: rev_image_eqI)
qed

lemma build_offsets:
  "i \<le> vertex_count (build_graph pairs) \<Longrightarrow>
   ag_offsets (build_graph pairs) ! i = length (filter (\<lambda>p. fst p < i) (build_edge_pairs pairs))"
proof -
  assume i: "i \<le> vertex_count (build_graph pairs)"
  have "ag_offsets (build_graph pairs) = prefix_sums (vertex_count (build_graph pairs))
      (count_sources (build_edge_pairs pairs) (replicate (vertex_count (build_graph pairs) + 1) 0))"
    by (simp add: build_graph_def Let_def vertex_count_def build_edge_pairs_def)
  moreover have "\<forall>p \<in> set (build_edge_pairs pairs). fst p < vertex_count (build_graph pairs)"
    using build_edge_pairs_iff by force
  ultimately show ?thesis using i offsets_eq by simp
qed

lemma build_edges: "ag_edges (build_graph pairs) = map snd (build_edge_pairs pairs)"
  by (simp add: build_graph_def Let_def build_edge_pairs_def)

lemma build_graph_ok: "graph_ok (build_graph pairs)"
proof -
  let ?g = "build_graph pairs" and ?E = "build_edge_pairs pairs"
  have "length (ag_offsets ?g) = vertex_count ?g + 1"
    by (simp add: build_graph_def Let_def vertex_count_def)
  moreover have "ag_offsets ?g ! v \<le> ag_offsets ?g ! (v + 1) \<and> ag_offsets ?g ! (v + 1) \<le> length (ag_edges ?g)"
    if "v < vertex_count ?g" for v
  proof -
    have "length (filter (\<lambda>p. fst p < v) (x :: (nat \<times> nat) list)) \<le>
        length (filter (\<lambda>p. fst p < v + 1) x)" for x by (induction x) auto
    then show ?thesis using that by (simp add: build_offsets build_edges)
  qed
  moreover have "\<forall>w \<in> set (ag_edges ?g). w < vertex_count ?g"
    using build_edge_pairs_iff by (force simp: build_edges)
  ultimately show ?thesis by (simp add: graph_ok_def)
qed

lemma succs_build:
  assumes "v < vertex_count (build_graph pairs)"
  shows "succs (build_graph pairs) v = map snd (filter (\<lambda>p. fst p = v) (build_edge_pairs pairs))"
  using assms slice_eq [of "build_edge_pairs pairs" v]
  by (simp add: succs_def build_offsets build_edges) (simp add: build_edge_pairs_def)

text \<open>The graph built from a list of pairs: its addresses are the endpoints in strictly
  increasing order, its offsets and edges are well formed, and the slice of a vertex is the
  strictly increasing list of exactly the vertices its address is paired with.\<close>

theorem build_graph_spec:
  "set (ag_addresses (build_graph pairs)) = fst ` set pairs \<union> snd ` set pairs \<and>
   sorted_wrt (<) (ag_addresses (build_graph pairs)) \<and> graph_ok (build_graph pairs) \<and>
   (\<forall>v < vertex_count (build_graph pairs).
      sorted_wrt (<) (succs (build_graph pairs) v) \<and>
      set (succs (build_graph pairs) v) = {w. w < vertex_count (build_graph pairs) \<and>
        (ag_addresses (build_graph pairs) ! v, ag_addresses (build_graph pairs) ! w) \<in> set pairs})"
proof -
  have "sorted_wrt (<) (map snd (filter (\<lambda>p. fst p = v) ps))"
    if "sorted_wrt (<) ps" for v and ps :: "(nat \<times> nat) list"
    using that by (induction ps) (auto simp: less_prod_def)
  moreover have "sorted_wrt (<) (build_edge_pairs pairs)"
    by (simp add: build_edge_pairs_def strict_sorted_iff)
  moreover have "w \<in> snd ` {p \<in> set (build_edge_pairs pairs). fst p = v} \<longleftrightarrow>
      (v, w) \<in> set (build_edge_pairs pairs)" for v w by force
  ultimately show ?thesis
    by (auto simp: build_addresses build_sorted build_graph_ok succs_build build_edge_pairs_iff)
qed

theorem build_graph_spec_witness:
  "succs (build_graph [(''b'', ''a''), (''a'', ''b''), (''b'', ''c'')]) 1 = [0, 2] \<and>
   sorted_wrt (<) (succs (build_graph [(''b'', ''a''), (''a'', ''b''), (''b'', ''c'')]) 1)"
proof -
  let ?g = "build_graph [(''b'', ''a''), (''a'', ''b''), (''b'', ''c'')]"
  have "vertex_count ?g = 3" "succs ?g 1 = [0, 2]" by code_simp+
  then show ?thesis
    using build_graph_spec [of "[(''b'', ''a''), (''a'', ''b''), (''b'', ''c'')]"] by simp
qed

end
