(* ===== verification/SccInvariant.thy ===== *)
theory SccInvariant
  imports Main
begin

text \<open>
  The invariant of Tarjan's algorithm, on mathematical objects: \<open>E\<close> is the edge relation,
  \<open>ix v\<close> the discovery index of a visited vertex, \<open>k\<close> the next index, \<open>low v\<close> the lowlink, \<open>S\<close>
  the vertex stack and \<open>G\<close> the vertices of the active frames (both with the top first) and
  \<open>D v\<close> the successors of \<open>v\<close> that have been looked at.  The theory \<open>Tarjan\<close> relates the arrays
  of the implementation to these objects; each lemma \<open>scc_*\<close> below is one step of its loop.
\<close>

type_synonym vertex = nat

section \<open>The invariant\<close>

definition ixv :: "(vertex \<Rightarrow> nat option) \<Rightarrow> vertex \<Rightarrow> nat" where
  "ixv ix v = the (ix v)"

definition stack_inv :: "(vertex \<Rightarrow> nat option) \<Rightarrow> nat \<Rightarrow> vertex list \<Rightarrow> vertex list \<Rightarrow> bool" where
  "stack_inv ix k S G \<longleftrightarrow>
     (\<forall>v i. ix v = Some i \<longrightarrow> i < k) \<and> inj_on ix {v. ix v \<noteq> None} \<and>
     (\<forall>v \<in> set S. ix v \<noteq> None) \<and> set G \<subseteq> set S \<and>
     sorted_wrt (\<lambda>u v. ixv ix v < ixv ix u) S \<and> sorted_wrt (\<lambda>u v. ixv ix v < ixv ix u) G"

definition scan_inv ::
  "(vertex \<times> vertex) set \<Rightarrow> (vertex \<Rightarrow> nat option) \<Rightarrow> vertex list \<Rightarrow> vertex list \<Rightarrow> (vertex \<Rightarrow> vertex set) \<Rightarrow> bool" where
  "scan_inv E ix S G D \<longleftrightarrow>
     (\<forall>v. D v \<subseteq> E `` {v}) \<and> (\<forall>v. ix v = None \<longrightarrow> D v = {}) \<and>
     (\<forall>v. ix v \<noteq> None \<and> v \<notin> set G \<longrightarrow> D v = E `` {v}) \<and>
     (\<forall>v. \<forall>w \<in> D v. ix w \<noteq> None) \<and>
     (\<forall>v w. ix v \<noteq> None \<and> v \<notin> set S \<and> (v, w) \<in> E \<longrightarrow> ix w \<noteq> None \<and> w \<notin> set S)"

definition reach_inv ::
  "(vertex \<times> vertex) set \<Rightarrow> (vertex \<Rightarrow> nat option) \<Rightarrow> vertex list \<Rightarrow> vertex list \<Rightarrow> bool" where
  "reach_inv E ix S G \<longleftrightarrow>
     successively (\<lambda>u v. (v, u) \<in> E) G \<and>
     (\<forall>v \<in> set S. \<exists>f \<in> set G. ixv ix f \<le> ixv ix v \<and> (v, f) \<in> E\<^sup>*) \<and>
     (\<forall>f \<in> set G. \<forall>v. ix v \<noteq> None \<and> ixv ix f \<le> ixv ix v \<longrightarrow> (f, v) \<in> E\<^sup>*)"

text \<open>The active vertex in whose segment of the stack a vertex lies.\<close>

definition owner :: "(vertex \<Rightarrow> nat option) \<Rightarrow> vertex list \<Rightarrow> vertex \<Rightarrow> vertex \<Rightarrow> bool" where
  "owner ix G u f \<longleftrightarrow>
     f \<in> set G \<and> ixv ix f \<le> ixv ix u \<and> (\<forall>g \<in> set G. ixv ix g \<le> ixv ix u \<longrightarrow> ixv ix g \<le> ixv ix f)"

definition low_inv ::
  "(vertex \<times> vertex) set \<Rightarrow> (vertex \<Rightarrow> nat option) \<Rightarrow> (vertex \<Rightarrow> nat) \<Rightarrow> vertex list \<Rightarrow> vertex list \<Rightarrow>
   (vertex \<Rightarrow> vertex set) \<Rightarrow> bool" where
  "low_inv E ix low S G D \<longleftrightarrow>
     (\<forall>f \<in> set G. low f \<le> ixv ix f \<and> (\<exists>w \<in> set S. ixv ix w = low f \<and> (f, w) \<in> E\<^sup>*)) \<and>
     (\<forall>u \<in> set S. \<forall>w \<in> D u \<inter> set S. \<forall>f. owner ix G u f \<longrightarrow> low f \<le> ixv ix w)"

text \<open>A strongly connected component, and the components found so far.\<close>

definition is_scc :: "(vertex \<times> vertex) set \<Rightarrow> vertex set \<Rightarrow> bool" where
  "is_scc E c \<longleftrightarrow> c \<noteq> {} \<and> (\<forall>u \<in> c. c = {v. (u, v) \<in> E\<^sup>* \<and> (v, u) \<in> E\<^sup>*})"

definition comps_inv ::
  "(vertex \<times> vertex) set \<Rightarrow> (vertex \<Rightarrow> nat option) \<Rightarrow> vertex list \<Rightarrow> vertex list list \<Rightarrow> bool" where
  "comps_inv E ix S cs \<longleftrightarrow>
     set (concat cs) = {v. ix v \<noteq> None} - set S \<and> distinct (concat cs) \<and>
     (\<forall>c \<in> set cs. sorted c \<and> is_scc E (set c))"

definition scc_inv ::
  "(vertex \<times> vertex) set \<Rightarrow> (vertex \<Rightarrow> nat option) \<Rightarrow> nat \<Rightarrow> (vertex \<Rightarrow> nat) \<Rightarrow> vertex list \<Rightarrow> vertex list \<Rightarrow>
   (vertex \<Rightarrow> vertex set) \<Rightarrow> vertex list list \<Rightarrow> bool" where
  "scc_inv E ix k low S G D cs \<longleftrightarrow>
     stack_inv ix k S G \<and> scan_inv E ix S G D \<and> reach_inv E ix S G \<and> low_inv E ix low S G D \<and>
     comps_inv E ix S cs"

lemmas scc_inv_defs = stack_inv_def scan_inv_def reach_inv_def low_inv_def comps_inv_def

section \<open>Consequences\<close>

lemma inv_top:
  assumes "stack_inv ix k S (v # G)" and "f \<in> set G"
  shows "ixv ix f < ixv ix v" and "f \<noteq> v"
  using assms by (auto simp: stack_inv_def)

lemma inv_distinct: "stack_inv ix k S G \<Longrightarrow> distinct S"
proof -
  assume "stack_inv ix k S G"
  then have "sorted_wrt (\<lambda>u v. ixv ix v < ixv ix u) S" by (simp add: stack_inv_def)
  then show ?thesis by (induction S) auto
qed

text \<open>Without active frames the stack is empty.\<close>

lemma inv_no_frames: "reach_inv E ix S [] \<Longrightarrow> S = []"
  by (cases S) (auto simp: reach_inv_def)

section \<open>Steps\<close>

lemma ixv_upd [simp]: "ixv (ix(w := Some k)) v = (if v = w then k else ixv ix v)"
  by (simp add: ixv_def)

lemma inj_discover:
  assumes "inj_on ix {v. ix v \<noteq> None}" and "\<forall>v i. ix v = Some i \<longrightarrow> i < (k :: nat)"
  shows "inj_on (ix(w := Some k)) {v. (ix(w := Some k)) v \<noteq> None}"
proof (rule inj_onI)
  fix u v assume *: "u \<in> {v. (ix(w := Some k)) v \<noteq> None}" "(ix(w := Some k)) u = (ix(w := Some k)) v"
  have new: "ix x \<noteq> Some k" for x using assms(2) by blast
  have "u = w \<longleftrightarrow> v = w" using * new by (metis fun_upd_apply)
  then show "u = v"
    using * inj_onD [OF assms(1), of u v] by (cases "u = w") auto
qed

text \<open>The first frame of a search.\<close>

lemma scc_start:
  assumes inv: "scc_inv E ix k low [] [] D cs" and w: "ix w = None"
  shows "scc_inv E (ix(w := Some k)) (Suc k) (low(w := k)) [w] [w] D cs"
proof -
  have lt: "\<forall>v i. ix v = Some i \<longrightarrow> i < k" and inj: "inj_on ix {v. ix v \<noteq> None}"
    using inv unfolding scc_inv_def stack_inv_def by blast+
  have scan: "D w = {}" "\<forall>v. D v \<subseteq> E `` {v}" "\<forall>v. ix v = None \<longrightarrow> D v = {}"
    "\<forall>v. ix v \<noteq> None \<longrightarrow> D v = E `` {v}" "\<forall>v. \<forall>x \<in> D v. ix x \<noteq> None"
    "\<forall>v x. ix v \<noteq> None \<and> (v, x) \<in> E \<longrightarrow> ix x \<noteq> None"
    using inv w unfolding scc_inv_def scan_inv_def list.set by blast+
  have "stack_inv (ix(w := Some k)) (Suc k) [w] [w]"
    using lt inj_discover [OF inj lt] unfolding stack_inv_def by (simp add: less_Suc_eq)
  moreover have "scan_inv E (ix(w := Some k)) [w] [w] D"
    unfolding scan_inv_def
  proof (intro conjI allI ballI impI)
    fix v x assume v: "(ix(w := Some k)) v \<noteq> None \<and> v \<notin> set [w] \<and> (v, x) \<in> E"
    then have "ix v \<noteq> None" "(v, x) \<in> E" by (auto split: if_splits)
    then have "ix x \<noteq> None" using scan(6) by blast
    then show "(ix(w := Some k)) x \<noteq> None" "x \<notin> set [w]" using w by auto
  next
    fix v show "D v \<subseteq> E `` {v}" using scan(2) by blast
    show "D v = {}" if "(ix(w := Some k)) v = None" using that scan(3) by (simp split: if_splits)
    show "D v = E `` {v}" if "(ix(w := Some k)) v \<noteq> None \<and> v \<notin> set [w]" using that scan(4) by auto
    show "(ix(w := Some k)) x \<noteq> None" if "x \<in> D v" for x using that scan(5) by simp
  qed
  moreover have "reach_inv E (ix(w := Some k)) [w] [w]"
  proof -
    have only: "v = w" if v: "(ix(w := Some k)) v \<noteq> None" "k \<le> ixv (ix(w := Some k)) v" for v
    proof (rule ccontr)
      assume "v \<noteq> w"
      then obtain i where i: "ix v = Some i" "k \<le> i" using v by (auto simp: ixv_def)
      then have "i < k" using lt by blast
      then show False using i(2) by simp
    qed
    show ?thesis unfolding reach_inv_def
    proof (intro conjI ballI allI impI)
      fix f x assume f: "f \<in> set [w]" and x: "(ix(w := Some k)) x \<noteq> None \<and> ixv (ix(w := Some k)) f \<le> ixv (ix(w := Some k)) x"
      have fw: "f = w" using f by simp
      have "x = w" by (rule only) (use x fw in simp_all)
      then show "(f, x) \<in> E\<^sup>*" using fw by simp
    qed simp_all
  qed
  moreover have "low_inv E (ix(w := Some k)) (low(w := k)) [w] [w] D"
    using scan(1) by (auto simp: low_inv_def owner_def)
  moreover have "comps_inv E (ix(w := Some k)) [w] cs"
    using inv w by (auto simp: scc_inv_def comps_inv_def)
  ultimately show ?thesis by (simp add: scc_inv_def)
qed

text \<open>A frame finds an unvisited successor: it is discovered and becomes the top frame.\<close>

lemma scc_discover:
  assumes inv: "scc_inv E ix k low S (v # G) D cs" and w: "ix w = None" and vw: "(v, w) \<in> E"
  shows "scc_inv E (ix(w := Some k)) (Suc k) (low(w := k)) (w # S) (w # v # G) (D(v := insert w (D v))) cs"
proof -
  let ?ix = "ix(w := Some k)" and ?D = "D(v := insert w (D v))"
  have lt: "\<forall>v i. ix v = Some i \<longrightarrow> i < k" and inj: "inj_on ix {v. ix v \<noteq> None}"
    and S: "\<forall>v \<in> set S. ix v \<noteq> None" and GS: "set (v # G) \<subseteq> set S"
    and sortS: "sorted_wrt (\<lambda>u v. ixv ix v < ixv ix u) S"
    and sortG: "sorted_wrt (\<lambda>u v. ixv ix v < ixv ix u) (v # G)"
    using inv unfolding scc_inv_def stack_inv_def by blast+
  have wS: "w \<notin> set S" using S w by blast
  then have wv: "w \<noteq> v" and wG: "w \<notin> set (v # G)" using GS by auto
  have below: "ixv ix u < k" if "u \<in> set S" for u using that S lt by (fastforce simp: ixv_def)
  have sorted': "sorted_wrt (\<lambda>u v. ixv ?ix v < ixv ?ix u) (w # xs)"
    if "sorted_wrt (\<lambda>u v. ixv ix v < ixv ix u) xs" "set xs \<subseteq> set S" for xs
    using that below wS by (auto elim!: sorted_wrt_mono_rel [rotated])
  have "stack_inv ?ix (Suc k) (w # S) (w # v # G)"
    using lt inj_discover [OF inj lt] sorted' [OF sortS] sorted' [OF sortG GS] S GS
    unfolding stack_inv_def by (auto simp: less_Suc_eq)
  moreover have "scan_inv E ?ix (w # S) (w # v # G) ?D"
  proof -
    have scan: "\<And>u. D u \<subseteq> E `` {u}" "\<And>u. ix u = None \<Longrightarrow> D u = {}"
      "\<And>u. ix u \<noteq> None \<Longrightarrow> u \<notin> set (v # G) \<Longrightarrow> D u = E `` {u}" "\<And>u x. x \<in> D u \<Longrightarrow> ix x \<noteq> None"
      "\<And>u x. ix u \<noteq> None \<Longrightarrow> u \<notin> set S \<Longrightarrow> (u, x) \<in> E \<Longrightarrow> ix x \<noteq> None \<and> x \<notin> set S"
      using inv unfolding scc_inv_def scan_inv_def by blast+
    show ?thesis unfolding scan_inv_def
    proof (intro conjI allI ballI impI)
      fix u x assume "?ix u \<noteq> None \<and> u \<notin> set (w # S) \<and> (u, x) \<in> E"
      then have "ix x \<noteq> None \<and> x \<notin> set S" using scan(5) [of u x] by auto
      then show "?ix x \<noteq> None" "x \<notin> set (w # S)" using w by auto
    next
      fix u show "?D u \<subseteq> E `` {u}" using scan(1) vw by simp
      show "?D u = {}" if "?ix u = None" using that scan(2) S GS by (auto split: if_splits)
      show "?D u = E `` {u}" if "?ix u \<noteq> None \<and> u \<notin> set (w # v # G)" using that scan(3) [of u] by auto
      show "?ix x \<noteq> None" if "x \<in> ?D u" for x using that scan(4) by (auto split: if_splits)
    qed
  qed
  moreover have "reach_inv E ?ix (w # S) (w # v # G)"
    unfolding reach_inv_def
  proof (intro conjI ballI allI impI)
    show "successively (\<lambda>u v. (v, u) \<in> E) (w # v # G)"
      using inv vw by (simp add: scc_inv_def reach_inv_def)
  next
    fix u assume "u \<in> set (w # S)"
    then consider "u = w" | "u \<in> set S" by auto
    then show "\<exists>f \<in> set (w # v # G). ixv ?ix f \<le> ixv ?ix u \<and> (u, f) \<in> E\<^sup>*"
    proof cases
      case 2
      then obtain f where "f \<in> set (v # G)" "ixv ix f \<le> ixv ix u" "(u, f) \<in> E\<^sup>*"
        using inv unfolding scc_inv_def reach_inv_def by blast
      then show ?thesis using wG wS 2 by (intro bexI [of _ f]) auto
    qed auto
  next
    fix f x assume f: "f \<in> set (w # v # G)" and x: "?ix x \<noteq> None \<and> ixv ?ix f \<le> ixv ?ix x"
    have r8: "(f, y) \<in> E\<^sup>*" if "f \<noteq> w" "ix y \<noteq> None" "ixv ix f \<le> ixv ix y" for y
      using that f inv unfolding scc_inv_def reach_inv_def by auto
    have le: "f \<noteq> w \<Longrightarrow> ixv ix f \<le> ixv ix v" using f sortG by auto
    show "(f, x) \<in> E\<^sup>*"
    proof (cases "x = w")
      case True
      have "f \<noteq> w \<Longrightarrow> (f, v) \<in> E\<^sup>*" using r8 [of v] le S GS by auto
      then show ?thesis using True vw by (cases "f = w") (auto intro: rtrancl_into_rtrancl)
    next
      case False
      then have "ix x \<noteq> None" using x by simp
      then have "ixv ix x < k" using lt by (auto simp: ixv_def)
      then have "f \<noteq> w" using x False by auto
      then show ?thesis using r8 [of x] x False by simp
    qed
  qed
  moreover have "low_inv E ?ix (low(w := k)) (w # S) (w # v # G) ?D"
    unfolding low_inv_def
  proof (intro conjI ballI allI impI)
    fix f assume f: "f \<in> set (w # v # G)"
    have old: "low f \<le> ixv ix f \<and> (\<exists>x \<in> set S. ixv ix x = low f \<and> (f, x) \<in> E\<^sup>*)" if "f \<noteq> w"
      using that f inv unfolding scc_inv_def low_inv_def by auto
    then show "(low(w := k)) f \<le> ixv ?ix f" by simp
    show "\<exists>x \<in> set (w # S). ixv ?ix x = (low(w := k)) f \<and> (f, x) \<in> E\<^sup>*"
    proof (cases "f = w")
      case False
      then obtain x where "x \<in> set S" "ixv ix x = low f" "(f, x) \<in> E\<^sup>*" using old by blast
      then show ?thesis using False wS by (intro bexI [of _ x]) auto
    qed auto
  next
    fix u x f assume u: "u \<in> set (w # S)" and x: "x \<in> ?D u \<inter> set (w # S)" and f: "owner ?ix (w # v # G) u f"
    have "D w = {}" using inv w unfolding scc_inv_def scan_inv_def by blast
    then have uS: "u \<in> set S" "u \<noteq> w" using u x wv wS by auto
    then have fw: "f \<noteq> w" using f below by (fastforce simp: owner_def)
    have own: "owner ix (v # G) u f"
      unfolding owner_def
    proof (intro conjI ballI impI)
      fix g assume g: "g \<in> set (v # G)" "ixv ix g \<le> ixv ix u"
      then have "g \<noteq> w" using wG by blast
      with f g uS(2) fw have "ixv ?ix g \<le> ixv ?ix f" unfolding owner_def by (metis ixv_upd list.set_intros(2))
      then show "ixv ix g \<le> ixv ix f" using \<open>g \<noteq> w\<close> fw by simp
    qed (use f fw uS in \<open>auto simp: owner_def\<close>)
    have fS: "f \<in> set S" using own GS by (auto simp: owner_def)
    have lowf: "low f \<le> ixv ix f" using own inv unfolding scc_inv_def low_inv_def owner_def by blast
    show "(low(w := k)) f \<le> ixv ?ix x"
    proof (cases "x = w")
      case True
      then show ?thesis using fw lowf below [OF fS] by simp
    next
      case False
      then have "x \<in> D u \<inter> set S" using x by (auto split: if_splits)
      then have "low f \<le> ixv ix x" using own uS(1) inv unfolding scc_inv_def low_inv_def by blast
      then show ?thesis using fw False by simp
    qed
  qed
  moreover have "comps_inv E ?ix (w # S) cs"
    using inv w wS by (auto simp: scc_inv_def comps_inv_def)
  ultimately show ?thesis by (simp add: scc_inv_def)
qed

text \<open>The segment of the top frame: its owner is the top frame itself.\<close>

lemma owner_top:
  assumes "stack_inv ix k S (v # G)" and "ixv ix v \<le> ixv ix u"
  shows "owner ix (v # G) u f \<longleftrightarrow> f = v"
proof
  assume own: "owner ix (v # G) u f"
  then have "ixv ix v \<le> ixv ix f" "f \<in> set (v # G)" using assms(2) by (auto simp: owner_def)
  then show "f = v" using inv_top(1) [OF assms(1)] by fastforce
next
  assume "f = v"
  then show "owner ix (v # G) u f"
    using assms inv_top(1) [OF assms(1)] by (auto simp: owner_def less_imp_le)
qed

text \<open>A frame finds a visited successor; its index counts if it is on the stack.\<close>

lemma scc_edge:
  assumes inv: "scc_inv E ix k low S (v # G) D cs" and w: "ix w \<noteq> None" and vw: "(v, w) \<in> E"
    and low': "low' = (if w \<in> set S then low(v := min (low v) (ixv ix w)) else low)"
  shows "scc_inv E ix k low' S (v # G) (D(v := insert w (D v))) cs"
proof -
  let ?D = "D(v := insert w (D v))"
  have stack: "stack_inv ix k S (v # G)" using inv by (simp add: scc_inv_def)
  then have vS: "v \<in> set S" "ix v \<noteq> None" by (auto simp: stack_inv_def)
  have scan: "\<And>u. D u \<subseteq> E `` {u}" "\<And>u. ix u = None \<Longrightarrow> D u = {}"
    "\<And>u. ix u \<noteq> None \<Longrightarrow> u \<notin> set (v # G) \<Longrightarrow> D u = E `` {u}" "\<And>u x. x \<in> D u \<Longrightarrow> ix x \<noteq> None"
    "\<And>u x. ix u \<noteq> None \<Longrightarrow> u \<notin> set S \<Longrightarrow> (u, x) \<in> E \<Longrightarrow> ix x \<noteq> None \<and> x \<notin> set S"
    using inv unfolding scc_inv_def scan_inv_def by blast+
  have "scan_inv E ix S (v # G) ?D"
    unfolding scan_inv_def
  proof (intro conjI allI ballI impI)
    fix u show "?D u \<subseteq> E `` {u}" using scan(1) vw by simp
    show "?D u = {}" if "ix u = None" using that scan(2) vS by auto
    show "?D u = E `` {u}" if "ix u \<noteq> None \<and> u \<notin> set (v # G)" using that scan(3) [of u] by auto
    show "ix x \<noteq> None" if "x \<in> ?D u" for x using that scan(4) w by (cases "u = v") auto
    fix x assume "ix u \<noteq> None \<and> u \<notin> set S \<and> (u, x) \<in> E"
    then show "ix x \<noteq> None" "x \<notin> set S" using scan(5) by blast+
  qed
  moreover have "low_inv E ix low' S (v # G) ?D"
    unfolding low_inv_def
  proof (intro conjI ballI allI impI)
    fix f assume f: "f \<in> set (v # G)"
    have old: "low f \<le> ixv ix f" "\<exists>x \<in> set S. ixv ix x = low f \<and> (f, x) \<in> E\<^sup>*"
      using f inv unfolding scc_inv_def low_inv_def by blast+
    then show "low' f \<le> ixv ix f" by (auto simp: low')
    show "\<exists>x \<in> set S. ixv ix x = low' f \<and> (f, x) \<in> E\<^sup>*"
      using old(2) vw by (cases "w \<in> set S \<and> f = v \<and> ixv ix w < low v") (auto simp: low' min_def)
  next
    fix u x f assume u: "u \<in> set S" and x: "x \<in> ?D u \<inter> set S" and f: "owner ix (v # G) u f"
    have le: "low' g \<le> low g" for g by (simp add: low')
    show "low' f \<le> ixv ix x"
    proof (cases "x \<in> D u")
      case True
      then have "low f \<le> ixv ix x" using u x f inv unfolding scc_inv_def low_inv_def by blast
      then show ?thesis using le order_trans by blast
    next
      case False
      then have "u = v" "x = w" using x by (auto split: if_splits)
      moreover have "f = v" using owner_top [OF stack] f \<open>u = v\<close> by blast
      ultimately show ?thesis using x by (auto simp: low')
    qed
  qed
  ultimately show ?thesis using inv by (simp add: scc_inv_def)
qed

text \<open>The lowlink of the only active frame is its own index.\<close>

lemma scc_last_frame:
  assumes inv: "scc_inv E ix k low S [v] D cs" shows "low v = ixv ix v"
proof -
  obtain w where w: "w \<in> set S" "ixv ix w = low v" and le: "low v \<le> ixv ix v"
    using inv unfolding scc_inv_def low_inv_def by (metis list.set_intros(1))
  then have "ixv ix v \<le> ixv ix w" using inv unfolding scc_inv_def reach_inv_def by auto
  then show ?thesis using w le by simp
qed

text \<open>A finished frame that is no root hands its lowlink to its parent.\<close>

lemma scc_pop:
  assumes inv: "scc_inv E ix k low S (v # p # G) D cs" and full: "D v = E `` {v}"
    and root: "low v \<noteq> ixv ix v"
  shows "scc_inv E ix k (low(p := min (low p) (low v))) S (p # G) D cs"
proof -
  let ?low = "low(p := min (low p) (low v))"
  have stack: "stack_inv ix k S (v # p # G)" using inv by (simp add: scc_inv_def)
  have "stack_inv ix k S (p # G)" using stack by (auto simp: stack_inv_def)
  moreover have "scan_inv E ix S (p # G) D"
    using inv full unfolding scc_inv_def scan_inv_def by (metis (full_types) set_ConsD)
  moreover have "reach_inv E ix S (p # G)"
    unfolding reach_inv_def
  proof (intro conjI ballI)
    show "successively (\<lambda>u v. (v, u) \<in> E) (p # G)" using inv by (simp add: scc_inv_def reach_inv_def)
    show "\<forall>x. ix x \<noteq> None \<and> ixv ix f \<le> ixv ix x \<longrightarrow> (f, x) \<in> E\<^sup>*" if "f \<in> set (p # G)" for f
      using that inv unfolding scc_inv_def reach_inv_def by auto
    have r7: "\<exists>f \<in> set (v # p # G). ixv ix f \<le> ixv ix u \<and> (u, f) \<in> E\<^sup>*" if "u \<in> set S" for u
      using that inv unfolding scc_inv_def reach_inv_def by blast
    obtain w where w: "w \<in> set S" "ixv ix w = low v" "(v, w) \<in> E\<^sup>*" and "low v \<le> ixv ix v"
      using inv unfolding scc_inv_def low_inv_def by (metis list.set_intros(1))
    then have "ixv ix w < ixv ix v" using root by simp
    then obtain g where g: "g \<in> set (p # G)" "ixv ix g \<le> ixv ix w" "(w, g) \<in> E\<^sup>*"
      using r7 [OF w(1)] by auto
    fix u assume "u \<in> set S"
    then obtain f where f: "f \<in> set (v # p # G)" "ixv ix f \<le> ixv ix u" "(u, f) \<in> E\<^sup>*" using r7 by blast
    show "\<exists>f \<in> set (p # G). ixv ix f \<le> ixv ix u \<and> (u, f) \<in> E\<^sup>*"
    proof (cases "f = v")
      case True
      then have "(u, g) \<in> E\<^sup>*" "ixv ix g \<le> ixv ix u"
        using f g w(3) \<open>ixv ix w < ixv ix v\<close> by (auto intro: rtrancl_trans)
      then show ?thesis using g(1) by blast
    qed (use f in auto)
  qed
  moreover have "low_inv E ix ?low S (p # G) D"
    unfolding low_inv_def
  proof (intro conjI ballI allI impI)
    fix f assume f: "f \<in> set (p # G)"
    have old: "low g \<le> ixv ix g" "\<exists>x \<in> set S. ixv ix x = low g \<and> (g, x) \<in> E\<^sup>*"
      if "g \<in> set (v # p # G)" for g
      using that inv unfolding scc_inv_def low_inv_def by blast+
    show "?low f \<le> ixv ix f" using old(1) [of f] f by auto
    have pv: "(p, v) \<in> E" using inv by (simp add: scc_inv_def reach_inv_def)
    show "\<exists>x \<in> set S. ixv ix x = ?low f \<and> (f, x) \<in> E\<^sup>*"
    proof (cases "f = p \<and> low v < low p")
      case True
      obtain x where "x \<in> set S" "ixv ix x = low v" "(v, x) \<in> E\<^sup>*" using old(2) [of v] by auto
      then show ?thesis using True pv by (intro bexI [of _ x]) (auto intro: converse_rtrancl_into_rtrancl)
    next
      case False
      then have "?low f = low f" by auto
      then show ?thesis using old(2) [of f] f by auto
    qed
  next
    fix u x f assume u: "u \<in> set S" and x: "x \<in> D u \<inter> set S" and f: "owner ix (p # G) u f"
    have l10: "low g \<le> ixv ix x" if "owner ix (v # p # G) u g" for g
      using that u x inv unfolding scc_inv_def low_inv_def by blast
    show "?low f \<le> ixv ix x"
    proof (cases "ixv ix v \<le> ixv ix u")
      case True
      then have "low v \<le> ixv ix x" using l10 owner_top [OF stack] by blast
      moreover have "ixv ix p \<le> ixv ix u" using True inv_top(1) [OF stack, of p] by simp
      then have "f = p" using owner_top [OF \<open>stack_inv ix k S (p # G)\<close>] f by blast
      ultimately show ?thesis by simp
    next
      case False
      then have "owner ix (v # p # G) u f" using f by (auto simp: owner_def)
      then show ?thesis using l10 by fastforce
    qed
  qed
  ultimately show ?thesis using inv by (simp add: scc_inv_def)
qed

text \<open>A finished root closes a component: the part of the stack down to it.\<close>

definition at_root ::
  "(vertex \<times> vertex) set \<Rightarrow> (vertex \<Rightarrow> nat option) \<Rightarrow> nat \<Rightarrow> (vertex \<Rightarrow> nat) \<Rightarrow> vertex list \<Rightarrow> vertex \<Rightarrow>
   vertex list \<Rightarrow> (vertex \<Rightarrow> vertex set) \<Rightarrow> vertex list list \<Rightarrow> vertex list \<Rightarrow> vertex list \<Rightarrow> bool" where
  "at_root E ix k low S v G D cs seg S' \<longleftrightarrow>
     scc_inv E ix k low S (v # G) D cs \<and> D v = E `` {v} \<and> low v = ixv ix v \<and> S = seg @ v # S'"

lemma at_rootD:
  assumes "at_root E ix k low S v G D cs seg S'"
  shows "scc_inv E ix k low S (v # G) D cs" and "D v = E `` {v}" and "low v = ixv ix v"
    and "S = seg @ v # S'"
  using assms by (auto simp: at_root_def)

lemma comp_stack:
  assumes at: "at_root E ix k low S v G D cs seg S'"
  shows "stack_inv ix k S (v # G)"
  using at_rootD(1) [OF at] by (simp add: scc_inv_def)

lemma comp_segment:
  assumes at: "at_root E ix k low S v G D cs seg S'"
  shows "u \<in> set S \<Longrightarrow> u \<in> set (seg @ [v]) \<longleftrightarrow> ixv ix v \<le> ixv ix u"
  using comp_stack [OF at] unfolding at_rootD(4) [OF at] stack_inv_def sorted_wrt_append by (force simp: not_le)

lemma comp_rest:
  assumes at: "at_root E ix k low S v G D cs seg S'"
  shows "u \<in> set S' \<Longrightarrow> ixv ix u < ixv ix v"
  using comp_stack [OF at] unfolding at_rootD(4) [OF at] stack_inv_def sorted_wrt_append by auto

lemma comp_frames:
  assumes at: "at_root E ix k low S v G D cs seg S'"
  shows "set G \<subseteq> set S'"
proof
  note S = at_rootD(4) [OF at] and stack = comp_stack [OF at]
  fix f assume f: "f \<in> set G"
  then have "f \<in> set S" "ixv ix f < ixv ix v"
    using stack inv_top(1) [OF stack] by (auto simp: stack_inv_def)
  then have "f \<notin> set (seg @ [v])" using comp_segment [OF at] by simp
  then show "f \<in> set S'" using \<open>f \<in> set S\<close> by (auto simp: S)
qed

lemma comp_disjoint:
  assumes at: "at_root E ix k low S v G D cs seg S'"
  shows "set (seg @ [v]) \<inter> set S' = {}"
  using comp_segment [OF at] comp_rest [OF at] by (force simp: at_rootD(4) [OF at])

text \<open>Finished vertices: the earlier components and the new one are closed under edges.\<close>

lemma comp_closed:
  assumes at: "at_root E ix k low S v G D cs seg S'"
    and u: "ix u \<noteq> None" "u \<notin> set S'" and e: "(u, w) \<in> E"
  shows "ix w \<noteq> None \<and> w \<notin> set S'"
proof -
  note inv = at_rootD(1) [OF at] and full = at_rootD(2) [OF at] and root = at_rootD(3) [OF at]
    and S = at_rootD(4) [OF at] and stack = comp_stack [OF at]
  show ?thesis
  proof (cases "u \<in> set S")
    case False
    then have "ix w \<noteq> None \<and> w \<notin> set S" using inv u(1) e unfolding scc_inv_def scan_inv_def by blast
    then show ?thesis by (auto simp: S)
  next
    case True
    then have le: "ixv ix v \<le> ixv ix u" using u(2) comp_segment [OF at] by (auto simp: S)
    have "D u = E `` {u}"
    proof (cases "u = v")
      case False
      then have "u \<notin> set (v # G)" using inv_top(1) [OF stack, of u] le by auto
      then show ?thesis using inv u(1) unfolding scc_inv_def scan_inv_def by blast
    qed (simp add: full)
    then have wD: "w \<in> D u" using e by simp
    then have "ix w \<noteq> None" using inv unfolding scc_inv_def scan_inv_def by blast
    moreover have "w \<notin> set S'"
    proof
      assume w: "w \<in> set S'"
      have "owner ix (v # G) u v" using owner_top [OF stack le] by simp
      moreover have "w \<in> D u \<inter> set S" using wD w by (simp add: S)
      ultimately have "low v \<le> ixv ix w" using inv True unfolding scc_inv_def low_inv_def by blast
      then show False using root comp_rest [OF at w] by simp
    qed
    ultimately show ?thesis by blast
  qed
qed

lemma comp_reach:
  assumes at: "at_root E ix k low S v G D cs seg S'"
    and u': "u \<in> set (seg @ [v])" shows "(v, u) \<in> E\<^sup>*" and "(u, v) \<in> E\<^sup>*"
proof -
  note inv = at_rootD(1) [OF at] and full = at_rootD(2) [OF at] and root = at_rootD(3) [OF at]
    and S = at_rootD(4) [OF at] and stack = comp_stack [OF at]
  have u: "u \<in> set S" "ixv ix v \<le> ixv ix u" "ix u \<noteq> None"
    using u' comp_segment [OF at, of u] stack by (auto simp: S stack_inv_def)
  have r8: "(f, x) \<in> E\<^sup>*" if "f \<in> set (v # G)" "ix x \<noteq> None" "ixv ix f \<le> ixv ix x" for f x
    using that inv unfolding scc_inv_def reach_inv_def by blast
  then show "(v, u) \<in> E\<^sup>*" using u by simp
  obtain f where f: "f \<in> set (v # G)" "(u, f) \<in> E\<^sup>*"
    using inv u(1) unfolding scc_inv_def reach_inv_def by blast
  have "ix v \<noteq> None" "ixv ix f \<le> ixv ix v"
    using stack f(1) inv_top(1) [OF stack] by (auto simp: stack_inv_def S less_imp_le)
  then have "(f, v) \<in> E\<^sup>*" using r8 f(1) by blast
  with f(2) show "(u, v) \<in> E\<^sup>*" by (rule rtrancl_trans)
qed

lemma comp_scc:
  assumes at: "at_root E ix k low S v G D cs seg S'"
  shows "is_scc E (set (seg @ [v]))"
proof -
  note inv = at_rootD(1) [OF at] and full = at_rootD(2) [OF at] and root = at_rootD(3) [OF at]
    and S = at_rootD(4) [OF at] and stack = comp_stack [OF at]
  have closed: "ix x \<noteq> None \<and> x \<notin> set S'" if "(u, x) \<in> E\<^sup>*" "ix u \<noteq> None" "u \<notin> set S'" for u x
    using that
  proof (induction rule: rtrancl_induct)
    case (step y z)
    then show ?case using comp_closed [OF at, of y z] by blast
  qed blast
  have closed0: "x \<notin> set S" if "(u, x) \<in> E\<^sup>*" "ix u \<noteq> None" "u \<notin> set S" for u x
  proof -
    have "ix x \<noteq> None \<and> x \<notin> set S"
      using that inv unfolding scc_inv_def scan_inv_def
      by (induction rule: rtrancl_induct) blast+
    then show ?thesis ..
  qed
  have vis: "ix v \<noteq> None" "v \<in> set S" "v \<notin> set S'"
    using stack comp_disjoint [OF at] by (auto simp: stack_inv_def S)
  have "x \<in> set (seg @ [v]) \<longleftrightarrow> (u, x) \<in> E\<^sup>* \<and> (x, u) \<in> E\<^sup>*" if u: "u \<in> set (seg @ [v])" for u x
  proof
    assume "x \<in> set (seg @ [v])"
    then show "(u, x) \<in> E\<^sup>* \<and> (x, u) \<in> E\<^sup>*" using u comp_reach [OF at] by (meson rtrancl_trans)
  next
    assume ux: "(u, x) \<in> E\<^sup>* \<and> (x, u) \<in> E\<^sup>*"
    then have "(v, x) \<in> E\<^sup>*" "(x, v) \<in> E\<^sup>*" using u comp_reach [OF at] by (meson rtrancl_trans)+
    then have "ix x \<noteq> None \<and> x \<notin> set S'" "x \<in> set S"
      using closed vis closed0 by blast+
    then show "x \<in> set (seg @ [v])" by (auto simp: S)
  qed
  then show ?thesis by (auto simp: is_scc_def)
qed

lemma scc_component:
  assumes at: "at_root E ix k low S v G D cs seg S'"
  shows "scc_inv E ix k low S' G D (cs @ [sort (seg @ [v])])"
proof -
  note inv = at_rootD(1) [OF at] and full = at_rootD(2) [OF at] and root = at_rootD(3) [OF at]
    and S = at_rootD(4) [OF at] and stack = comp_stack [OF at]
  have "stack_inv ix k S' G"
    using stack comp_frames [OF at] unfolding stack_inv_def S by (auto simp: sorted_wrt_append)
  moreover have "scan_inv E ix S' G D"
    unfolding scan_inv_def
  proof (intro conjI allI ballI impI)
    fix u w assume "ix u \<noteq> None \<and> u \<notin> set S' \<and> (u, w) \<in> E"
    then show "ix w \<noteq> None" "w \<notin> set S'" using comp_closed [OF at] by blast+
  next
    fix u show "D u \<subseteq> E `` {u}" "ix u = None \<Longrightarrow> D u = {}" "\<And>x. x \<in> D u \<Longrightarrow> ix x \<noteq> None"
      using inv unfolding scc_inv_def scan_inv_def by blast+
    assume "ix u \<noteq> None \<and> u \<notin> set G"
    moreover have "D u = E `` {u}" if "ix u \<noteq> None" "u \<notin> set (v # G)"
      using that inv unfolding scc_inv_def scan_inv_def by blast
    ultimately show "D u = E `` {u}" using full by (cases "u = v") auto
  qed
  moreover have "reach_inv E ix S' G"
    unfolding reach_inv_def
  proof (intro conjI ballI)
    show "successively (\<lambda>u v. (v, u) \<in> E) G"
      using inv by (cases G) (simp_all add: scc_inv_def reach_inv_def)
    show "\<forall>x. ix x \<noteq> None \<and> ixv ix f \<le> ixv ix x \<longrightarrow> (f, x) \<in> E\<^sup>*" if "f \<in> set G" for f
      using that inv unfolding scc_inv_def reach_inv_def by auto
    fix u assume u: "u \<in> set S'"
    then obtain f where f: "f \<in> set (v # G)" "ixv ix f \<le> ixv ix u" "(u, f) \<in> E\<^sup>*"
      using inv unfolding scc_inv_def reach_inv_def S by (metis in_set_conv_decomp append_Cons append_assoc)
    then have "f \<noteq> v" using comp_rest [OF at u] by auto
    then show "\<exists>f \<in> set G. ixv ix f \<le> ixv ix u \<and> (u, f) \<in> E\<^sup>*" using f by auto
  qed
  moreover have "low_inv E ix low S' G D"
    unfolding low_inv_def
  proof (intro conjI ballI allI impI)
    fix f assume f: "f \<in> set G"
    then obtain x where le: "low f \<le> ixv ix f" and x: "x \<in> set S" "ixv ix x = low f" "(f, x) \<in> E\<^sup>*"
      using inv unfolding scc_inv_def low_inv_def by (metis list.set_intros(2))
    show "low f \<le> ixv ix f" by (rule le)
    have "ixv ix x < ixv ix v" using x(2) le inv_top(1) [OF stack f] by simp
    then have "x \<notin> set (seg @ [v])" using comp_segment [OF at x(1)] by simp
    then have "x \<in> set S'" using x(1) unfolding S by auto
    then show "\<exists>x \<in> set S'. ixv ix x = low f \<and> (f, x) \<in> E\<^sup>*" using x by blast
  next
    fix u x f assume u: "u \<in> set S'" and x: "x \<in> D u \<inter> set S'" and f: "owner ix G u f"
    have "owner ix (v # G) u f" using f comp_rest [OF at u] by (auto simp: owner_def)
    moreover have "u \<in> set S" "x \<in> D u \<inter> set S" using u x by (auto simp: S)
    ultimately show "low f \<le> ixv ix x" using inv unfolding scc_inv_def low_inv_def by blast
  qed
  moreover have "comps_inv E ix S' (cs @ [sort (seg @ [v])])"
  proof -
    have cs: "set (concat cs) = {v. ix v \<noteq> None} - set S" "distinct (concat cs)"
      "\<forall>c \<in> set cs. sorted c \<and> is_scc E (set c)"
      using inv unfolding scc_inv_def comps_inv_def by blast+
    have "set S \<subseteq> {v. ix v \<noteq> None}" using stack by (auto simp: stack_inv_def)
    then have "set (concat (cs @ [sort (seg @ [v])])) = {v. ix v \<noteq> None} - set S'"
      using cs(1) comp_disjoint [OF at] by (auto simp: S)
    moreover have "distinct (seg @ [v])" using inv_distinct [OF stack] by (simp add: S)
    moreover have "set (concat cs) \<inter> set (seg @ [v]) = {}" using cs(1) by (auto simp: S)
    ultimately show ?thesis
      using cs(2,3) comp_scc [OF at] unfolding comps_inv_def by (simp add: ball_Un)
  qed
  ultimately show ?thesis by (simp add: scc_inv_def)
qed

end
