(* ===== verification/Tarjan.thy ===== *)
theory Tarjan
  imports AddressGraph SccInvariant
begin

text \<open>
  Tarjan's algorithm with explicit frames (\<open>Tarjan\<close> and \<open>strongly_connected_components\<close> of
  \<open>src/analysis2/crates/core/src/analysis/graph.rs\<close>).  Every array access and every \<open>expect\<close> can
  panic (\<open>None\<close>), and the \<open>while\<close> loop is a partial function, so that a result \<open>Some\<close> means
  that the code neither panics nor loops.  The two vectors used as stacks (\<open>stack\<close>, \<open>frames\<close>)
  are lists with their top first.
\<close>

record tarjan =
  tj_next_index :: nat
  tj_indices :: "nat option list"
  tj_lowlink :: "nat list"
  tj_stack :: "nat list"
  tj_on_stack :: "bool list"
  tj_components :: "nat list list"

record dfs_frame =
  fr_vertex :: nat
  fr_next_edge :: nat
  fr_parent :: "nat option"

section \<open>The algorithm\<close>

definition tarjan_new :: "address_graph \<Rightarrow> tarjan" where
  "tarjan_new g =
     (let n = length (ag_addresses g)
      in \<lparr>tj_next_index = 0, tj_indices = replicate n None, tj_lowlink = replicate n 0,
          tj_stack = [], tj_on_stack = replicate n False, tj_components = []\<rparr>)"

definition discover :: "nat \<Rightarrow> tarjan \<Rightarrow> tarjan option" where
  "discover vertex st =
     (let index = tj_next_index st
      in do {
        indices \<leftarrow> upd (tj_indices st) vertex (Some index);
        lowlink \<leftarrow> upd (tj_lowlink st) vertex index;
        on_stack \<leftarrow> upd (tj_on_stack st) vertex True;
        Some (st\<lparr>tj_next_index := index + 1, tj_indices := indices, tj_lowlink := lowlink,
                 tj_stack := vertex # tj_stack st, tj_on_stack := on_stack\<rparr>)
      })"

text \<open>The frame has an edge left: the first branch of the loop body.\<close>

definition advance ::
  "address_graph \<Rightarrow> dfs_frame \<Rightarrow> dfs_frame list \<Rightarrow> tarjan \<Rightarrow> (tarjan \<times> dfs_frame list) option" where
  "advance g frame rest st = do {
     next \<leftarrow> idx (ag_edges g) (fr_next_edge frame);
     let vertex = fr_vertex frame;
     let frame = frame\<lparr>fr_next_edge := fr_next_edge frame + 1\<rparr>;
     index \<leftarrow> idx (tj_indices st) next;
     case index of
       None \<Rightarrow> do {
         st \<leftarrow> discover next st;
         first \<leftarrow> idx (ag_offsets g) next;
         Some (st, \<lparr>fr_vertex = next, fr_next_edge = first, fr_parent = Some vertex\<rparr> # frame # rest)
       }
     | Some i \<Rightarrow> do {
         on \<leftarrow> idx (tj_on_stack st) next;
         if on then do {
           low \<leftarrow> idx (tj_lowlink st) vertex;
           lowlink \<leftarrow> upd (tj_lowlink st) vertex (min low i);
           Some (st\<lparr>tj_lowlink := lowlink\<rparr>, frame # rest)
         }
         else Some (st, frame # rest)
       }
   }"

text \<open>The inner loop that pops a component off the stack.\<close>

fun pop_component ::
  "nat \<Rightarrow> nat list \<Rightarrow> bool list \<Rightarrow> nat list \<Rightarrow> (nat list \<times> bool list \<times> nat list) option" where
  "pop_component target [] on_stack component = None"
| "pop_component target (member # stack) on_stack component = do {
     on_stack \<leftarrow> upd on_stack member False;
     if member = target then Some (stack, on_stack, component @ [member])
     else pop_component target stack on_stack (component @ [member])
   }"

definition complete_frame :: "dfs_frame \<Rightarrow> tarjan \<Rightarrow> tarjan option" where
  "complete_frame completed st = do {
     lowlink \<leftarrow>
       (case fr_parent completed of
          None \<Rightarrow> Some (tj_lowlink st)
        | Some parent \<Rightarrow> do {
            a \<leftarrow> idx (tj_lowlink st) parent;
            b \<leftarrow> idx (tj_lowlink st) (fr_vertex completed);
            upd (tj_lowlink st) parent (min a b)
          });
     index \<leftarrow> Option.bind (idx (tj_indices st) (fr_vertex completed)) id;
     low \<leftarrow> idx lowlink (fr_vertex completed);
     if low = index then do {
       (stack, on_stack, component) \<leftarrow> pop_component (fr_vertex completed) (tj_stack st) (tj_on_stack st) [];
       Some (st\<lparr>tj_lowlink := lowlink, tj_stack := stack, tj_on_stack := on_stack,
                tj_components := tj_components st @ [sort component]\<rparr>)
     }
     else Some (st\<lparr>tj_lowlink := lowlink\<rparr>)
   }"

definition tarjan_step ::
  "address_graph \<Rightarrow> dfs_frame \<Rightarrow> dfs_frame list \<Rightarrow> tarjan \<Rightarrow> (tarjan \<times> dfs_frame list) option" where
  "tarjan_step g frame rest st = do {
     limit \<leftarrow> idx (ag_offsets g) (fr_vertex frame + 1);
     if fr_next_edge frame < limit then advance g frame rest st
     else do { st \<leftarrow> complete_frame frame st; Some (st, rest) }
   }"

partial_function (option) visit_loop ::
  "address_graph \<Rightarrow> tarjan \<Rightarrow> dfs_frame list \<Rightarrow> tarjan option" where
  "visit_loop g st frames =
     (case frames of
        [] \<Rightarrow> Some st
      | frame # rest \<Rightarrow>
          Option.bind (tarjan_step g frame rest st) (\<lambda>p. visit_loop g (fst p) (snd p)))"

declare visit_loop.simps [code]

definition visit_iterative :: "address_graph \<Rightarrow> nat \<Rightarrow> tarjan \<Rightarrow> tarjan option" where
  "visit_iterative g start st = do {
     st \<leftarrow> discover start st;
     first \<leftarrow> idx (ag_offsets g) start;
     visit_loop g st [\<lparr>fr_vertex = start, fr_next_edge = first, fr_parent = None\<rparr>]
   }"

fun visit_all :: "address_graph \<Rightarrow> nat list \<Rightarrow> tarjan \<Rightarrow> tarjan option" where
  "visit_all g [] st = Some st"
| "visit_all g (vertex # vertices) st = do {
     index \<leftarrow> idx (tj_indices st) vertex;
     st \<leftarrow> (if index = None then visit_iterative g vertex st else Some st);
     visit_all g vertices st
   }"

definition strongly_connected_components :: "address_graph \<Rightarrow> nat list list option" where
  "strongly_connected_components g =
     map_option tj_components (visit_all g [0..<length (ag_addresses g)] (tarjan_new g))"

section \<open>The state as mathematical objects\<close>

definition graph_rel :: "address_graph \<Rightarrow> (nat \<times> nat) set" where
  "graph_rel g = {(u, v). u < vertex_count g \<and> v \<in> set (succs g u)}"

definition index_of :: "tarjan \<Rightarrow> nat \<Rightarrow> nat option" where
  "index_of st v = (if v < length (tj_indices st) then tj_indices st ! v else None)"

definition low_of :: "tarjan \<Rightarrow> nat \<Rightarrow> nat" where
  "low_of st v = tj_lowlink st ! v"

definition next_of :: "address_graph \<Rightarrow> dfs_frame list \<Rightarrow> nat \<Rightarrow> nat" where
  "next_of g frames v =
     (case map_of (map (\<lambda>f. (fr_vertex f, fr_next_edge f)) frames) v of
        Some e \<Rightarrow> e | None \<Rightarrow> ag_offsets g ! (v + 1))"

definition looked_at :: "address_graph \<Rightarrow> tarjan \<Rightarrow> dfs_frame list \<Rightarrow> nat \<Rightarrow> nat set" where
  "looked_at g st frames v =
     (if index_of st v = None then {}
      else (\<lambda>e. ag_edges g ! e) ` {ag_offsets g ! v..<next_of g frames v})"

fun parents_ok :: "dfs_frame list \<Rightarrow> bool" where
  "parents_ok [] \<longleftrightarrow> True"
| "parents_ok [f] \<longleftrightarrow> fr_parent f = None"
| "parents_ok (f # f' # fs) \<longleftrightarrow> fr_parent f = Some (fr_vertex f') \<and> parents_ok (f' # fs)"

definition arrays_ok :: "address_graph \<Rightarrow> tarjan \<Rightarrow> bool" where
  "arrays_ok g st \<longleftrightarrow>
     length (tj_indices st) = vertex_count g \<and> length (tj_lowlink st) = vertex_count g \<and>
     length (tj_on_stack st) = vertex_count g \<and>
     (\<forall>v < vertex_count g. tj_on_stack st ! v \<longleftrightarrow> v \<in> set (tj_stack st))"

definition frames_ok :: "address_graph \<Rightarrow> dfs_frame list \<Rightarrow> bool" where
  "frames_ok g frames \<longleftrightarrow> parents_ok frames \<and>
     (\<forall>f \<in> set frames. fr_vertex f < vertex_count g \<and> ag_offsets g ! fr_vertex f \<le> fr_next_edge f \<and>
        fr_next_edge f \<le> ag_offsets g ! (fr_vertex f + 1))"

definition tarjan_ok :: "address_graph \<Rightarrow> tarjan \<Rightarrow> dfs_frame list \<Rightarrow> bool" where
  "tarjan_ok g st frames \<longleftrightarrow> arrays_ok g st \<and> frames_ok g frames \<and>
     scc_inv (graph_rel g) (index_of st) (tj_next_index st) (low_of st) (tj_stack st)
       (map fr_vertex frames) (looked_at g st frames) (tj_components st)"

text \<open>What remains to be done: the edges of the unvisited vertices and of the frames.\<close>

definition out_degree :: "address_graph \<Rightarrow> nat \<Rightarrow> nat" where
  "out_degree g v = ag_offsets g ! (v + 1) - ag_offsets g ! v"

definition remaining :: "address_graph \<Rightarrow> tarjan \<Rightarrow> dfs_frame list \<Rightarrow> nat" where
  "remaining g st frames =
     (\<Sum>v \<in> {v. v < vertex_count g \<and> index_of st v = None}. out_degree g v + 1) +
     (\<Sum>f \<leftarrow> frames. ag_offsets g ! (fr_vertex f + 1) - fr_next_edge f + 1)"

section \<open>Facts\<close>

lemma graph_okD:
  assumes "graph_ok g" and "v < vertex_count g"
  shows "v < length (ag_offsets g)" and "v + 1 < length (ag_offsets g)"
    and "ag_offsets g ! v \<le> ag_offsets g ! (v + 1)" and "ag_offsets g ! (v + 1) \<le> length (ag_edges g)"
  using assms by (auto simp: graph_ok_def)

lemma graph_ok_edge:
  assumes "graph_ok g" and "v < vertex_count g" and "ag_offsets g ! v \<le> e" and "e < ag_offsets g ! (v + 1)"
  shows "e < length (ag_edges g)" and "ag_edges g ! e < vertex_count g" and "(v, ag_edges g ! e) \<in> graph_rel g"
proof -
  show e: "e < length (ag_edges g)" using graph_okD(4) [OF assms(1,2)] assms(4) by simp
  then show "ag_edges g ! e < vertex_count g" using assms(1) by (auto simp: graph_ok_def)
  show "(v, ag_edges g ! e) \<in> graph_rel g" using assms by (auto simp: graph_rel_def succs_def)
qed

lemma index_of_discover:
  "w < length (tj_indices st) \<Longrightarrow> tj_indices st' = (tj_indices st)[w := Some k] \<Longrightarrow>
   index_of st' = (index_of st)(w := Some k)"
  by (rule ext) (simp add: index_of_def nth_list_update)

lemma low_of_upd:
  "w < length (tj_lowlink st) \<Longrightarrow> tj_lowlink st' = (tj_lowlink st)[w := k] \<Longrightarrow>
   low_of st' = (low_of st)(w := k)"
  by (rule ext) (simp add: low_of_def nth_list_update)

lemma next_of_Cons: "next_of g (f # fs) v = (if v = fr_vertex f then fr_next_edge f else next_of g fs v)"
  by (simp add: next_of_def)

lemma next_of_fresh: "v \<notin> set (map fr_vertex fs) \<Longrightarrow> next_of g fs v = ag_offsets g ! (v + 1)"
  by (induction fs) (auto simp: next_of_def)

lemma looked_at_advance:
  assumes "index_of st (fr_vertex f) \<noteq> None" and "ag_offsets g ! fr_vertex f \<le> fr_next_edge f"
  shows "looked_at g st (f\<lparr>fr_next_edge := fr_next_edge f + 1\<rparr> # fs) =
    (looked_at g st (f # fs))(fr_vertex f := insert (ag_edges g ! fr_next_edge f) (looked_at g st (f # fs) (fr_vertex f)))"
proof -
  have "{ag_offsets g ! fr_vertex f..<Suc (fr_next_edge f)} =
      insert (fr_next_edge f) {ag_offsets g ! fr_vertex f..<fr_next_edge f}" using assms(2) by auto
  then show ?thesis using assms by (auto simp: looked_at_def next_of_Cons fun_eq_iff)
qed

lemma looked_at_push:
  assumes "index_of st w = None" and "index_of st' = (index_of st)(w := Some k)"
    and "fr_vertex f = w" and "fr_next_edge f = ag_offsets g ! w"
  shows "looked_at g st' (f # fs) = looked_at g st fs"
  using assms by (auto simp: looked_at_def next_of_Cons fun_eq_iff)

lemma looked_at_pop:
  assumes "fr_next_edge f = ag_offsets g ! (fr_vertex f + 1)" and "fr_vertex f \<notin> set (map fr_vertex fs)"
  shows "looked_at g st (f # fs) = looked_at g st fs"
  using assms next_of_fresh [OF assms(2), of g] by (auto simp: looked_at_def next_of_Cons fun_eq_iff)

lemma looked_at_full:
  assumes "fr_vertex f < vertex_count g" and "index_of st (fr_vertex f) \<noteq> None"
    and "fr_next_edge f = ag_offsets g ! (fr_vertex f + 1)"
  shows "looked_at g st (f # fs) (fr_vertex f) = graph_rel g `` {fr_vertex f}"
  using assms by (auto simp: looked_at_def next_of_Cons graph_rel_def succs_def)

lemma looked_at_cong:
  "index_of st' = index_of st \<Longrightarrow> looked_at g st' = looked_at g st"
  by (simp add: looked_at_def fun_eq_iff)

text \<open>Popping a component empties the stack down to its root.\<close>

lemma pop_component_eq:
  assumes "target \<notin> set seg" and "distinct (seg @ target # stack)"
    and "\<forall>v \<in> set (seg @ [target]). v < length ons"
  shows "\<exists>ons'. pop_component target (seg @ target # stack) ons acc = Some (stack, ons', acc @ seg @ [target]) \<and>
    length ons' = length ons \<and>
    (\<forall>v < length ons. ons' ! v = (if v \<in> set (seg @ [target]) then False else ons ! v))"
  using assms
proof (induction seg arbitrary: ons acc)
  case (Cons m seg)
  have "\<exists>ons'. pop_component target (seg @ target # stack) (ons[m := False]) (acc @ [m]) =
      Some (stack, ons', (acc @ [m]) @ seg @ [target]) \<and> length ons' = length (ons[m := False]) \<and>
      (\<forall>v < length (ons[m := False]). ons' ! v =
        (if v \<in> set (seg @ [target]) then False else ons[m := False] ! v))"
    using Cons.prems by (intro Cons.IH) auto
  then show ?case using Cons.prems by (auto simp: nth_list_update)
qed (auto simp: nth_list_update)

lemma tarjan_okD:
  assumes "tarjan_ok g st (f # fs)"
  shows "fr_vertex f < vertex_count g" and "ag_offsets g ! fr_vertex f \<le> fr_next_edge f"
    and "fr_next_edge f \<le> ag_offsets g ! (fr_vertex f + 1)" and "index_of st (fr_vertex f) \<noteq> None"
    and "fr_vertex f \<notin> set (map fr_vertex fs)" and "length (tj_indices st) = vertex_count g"
    and "length (tj_lowlink st) = vertex_count g" and "length (tj_on_stack st) = vertex_count g"
proof -
  have "stack_inv (index_of st) (tj_next_index st) (tj_stack st) (map fr_vertex (f # fs))"
    using assms by (simp add: tarjan_ok_def scc_inv_def)
  then show "index_of st (fr_vertex f) \<noteq> None" "fr_vertex f \<notin> set (map fr_vertex fs)"
    using inv_top(2) by (auto simp: stack_inv_def)
qed (use assms in \<open>auto simp: tarjan_ok_def frames_ok_def arrays_ok_def\<close>)

lemma discover_eq:
  assumes "arrays_ok g st" and "w < vertex_count g" and "w \<notin> set (tj_stack st)"
  obtains st' where "discover w st = Some st'" and "arrays_ok g st'"
    and "index_of st' = (index_of st)(w := Some (tj_next_index st))"
    and "low_of st' = (low_of st)(w := tj_next_index st)"
    and "tj_next_index st' = Suc (tj_next_index st)" and "tj_stack st' = w # tj_stack st"
    and "tj_components st' = tj_components st"
proof
  let ?st = "st\<lparr>tj_next_index := tj_next_index st + 1, tj_indices := (tj_indices st)[w := Some (tj_next_index st)],
    tj_lowlink := (tj_lowlink st)[w := tj_next_index st], tj_stack := w # tj_stack st,
    tj_on_stack := (tj_on_stack st)[w := True]\<rparr>"
  show "discover w st = Some ?st" using assms by (simp add: discover_def arrays_ok_def Let_def)
  show "arrays_ok g ?st" using assms by (auto simp: arrays_ok_def nth_list_update)
  show "index_of ?st = (index_of st)(w := Some (tj_next_index st))"
    using assms by (intro index_of_discover) (auto simp: arrays_ok_def)
  show "low_of ?st = (low_of st)(w := tj_next_index st)"
    using assms by (intro low_of_upd) (auto simp: arrays_ok_def)
qed simp_all

lemma frames_ok_advance:
  "frames_ok g (f # fs) \<Longrightarrow> fr_next_edge f < ag_offsets g ! (fr_vertex f + 1) \<Longrightarrow>
   frames_ok g (f\<lparr>fr_next_edge := fr_next_edge f + 1\<rparr> # fs)"
  by (cases fs) (auto simp: frames_ok_def)

lemma frames_ok_tl: "frames_ok g (f # fs) \<Longrightarrow> frames_ok g fs"
  by (cases fs) (auto simp: frames_ok_def)

definition grows :: "tarjan \<Rightarrow> tarjan \<Rightarrow> bool" where
  "grows st st' \<longleftrightarrow> (\<forall>v. index_of st v \<noteq> None \<longrightarrow> index_of st' v \<noteq> None)"

lemma remaining_discover:
  assumes "w < vertex_count g" and "index_of st w = None" and "index_of st' = (index_of st)(w := Some k)"
  shows "(\<Sum>v \<in> {v. v < vertex_count g \<and> index_of st v = None}. out_degree g v + 1) =
    (\<Sum>v \<in> {v. v < vertex_count g \<and> index_of st' v = None}. out_degree g v + 1) + out_degree g w + 1"
proof -
  have "{v. v < vertex_count g \<and> index_of st v = None} =
      insert w {v. v < vertex_count g \<and> index_of st' v = None}" using assms by auto
  then show ?thesis using assms(3) by simp
qed

text \<open>The three outcomes of looking at an edge.\<close>

lemma advance_ok:
  assumes ok: "tarjan_ok g st (f # fs)" and g: "graph_ok g"
    and e: "fr_next_edge f < ag_offsets g ! (fr_vertex f + 1)"
  shows "\<exists>st' fs'. advance g f fs st = Some (st', fs') \<and> tarjan_ok g st' fs' \<and> grows st st' \<and>
    remaining g st' fs' < remaining g st (f # fs)"
proof -
  let ?v = "fr_vertex f" and ?w = "ag_edges g ! fr_next_edge f"
  let ?f = "f\<lparr>fr_next_edge := fr_next_edge f + 1\<rparr>"
  note f = tarjan_okD [OF ok]
  note edge = graph_ok_edge [OF g f(1,2) e]
  have arrays: "arrays_ok g st" and frames: "frames_ok g (f # fs)"
    and inv: "scc_inv (graph_rel g) (index_of st) (tj_next_index st) (low_of st) (tj_stack st)
       (?v # map fr_vertex fs) (looked_at g st (f # fs)) (tj_components st)"
    using ok by (simp_all add: tarjan_ok_def)
  note look = looked_at_advance [OF f(4,2), of fs, simplified]
  have idxw: "idx (tj_indices st) ?w = Some (index_of st ?w)" using edge f by (simp add: index_of_def)
  have less: "ag_offsets g ! (?v + 1) - (fr_next_edge f + 1) < ag_offsets g ! (?v + 1) - fr_next_edge f"
    using e by simp
  show ?thesis
  proof (cases "index_of st ?w")
    case None
    have "\<forall>u \<in> set (tj_stack st). index_of st u \<noteq> None" using inv by (simp add: scc_inv_def stack_inv_def)
    then have wS: "?w \<notin> set (tj_stack st)" using None by blast
    obtain st' where st': "discover ?w st = Some st'" "arrays_ok g st'"
      "index_of st' = (index_of st)(?w := Some (tj_next_index st))"
      "low_of st' = (low_of st)(?w := tj_next_index st)" "tj_next_index st' = Suc (tj_next_index st)"
      "tj_stack st' = ?w # tj_stack st" "tj_components st' = tj_components st"
      by (rule discover_eq [OF arrays edge(2) wS])
    let ?n = "\<lparr>fr_vertex = ?w, fr_next_edge = ag_offsets g ! ?w, fr_parent = Some ?v\<rparr>"
    have "advance g f fs st = Some (st', ?n # ?f # fs)"
      using edge idxw None st'(1) graph_okD(1) [OF g edge(2)] by (simp add: advance_def Let_def)
    moreover have "looked_at g st' (?n # ?f # fs) = looked_at g st (?f # fs)"
      using None st'(3) by (rule looked_at_push) simp_all
    then have "tarjan_ok g st' (?n # ?f # fs)"
      using st' frames_ok_advance [OF frames e] graph_okD(3) [OF g edge(2)] edge(2)
        scc_discover [OF inv None edge(3)]
      by (simp add: tarjan_ok_def frames_ok_def look)
    moreover have "grows st st'" using st'(3) by (simp add: grows_def)
    moreover have "remaining g st' (?n # ?f # fs) < remaining g st (f # fs)"
      using remaining_discover [OF edge(2) None st'(3)] less by (simp add: remaining_def out_degree_def)
    ultimately show ?thesis by blast
  next
    case (Some i)
    have on: "idx (tj_on_stack st) ?w = Some (?w \<in> set (tj_stack st))"
      using edge(2) arrays f(8) by (simp add: arrays_ok_def)
    define st' where "st' = (if ?w \<in> set (tj_stack st)
      then st\<lparr>tj_lowlink := (tj_lowlink st)[?v := min (tj_lowlink st ! ?v) i]\<rparr> else st)"
    have "advance g f fs st = Some (st', ?f # fs)"
      using edge idxw Some on f(1,7) by (simp add: advance_def Let_def st'_def)
    moreover have index: "index_of st' = index_of st" by (simp add: st'_def index_of_def fun_eq_iff)
    have low: "low_of st' = (if ?w \<in> set (tj_stack st)
        then (low_of st)(?v := min (low_of st ?v) (ixv (index_of st) ?w)) else low_of st)"
      using f(1,7) Some by (auto simp: st'_def ixv_def low_of_def fun_eq_iff nth_list_update)
    have "arrays_ok g st'" "tj_next_index st' = tj_next_index st" "tj_stack st' = tj_stack st"
      "tj_components st' = tj_components st"
      using arrays by (simp_all add: st'_def arrays_ok_def)
    then have "tarjan_ok g st' (?f # fs)"
      using scc_edge [OF inv _ edge(3) low] Some frames_ok_advance [OF frames e]
      by (simp add: tarjan_ok_def look index looked_at_cong [OF index])
    moreover have "grows st st'" by (simp add: grows_def index)
    moreover have "remaining g st' (?f # fs) < remaining g st (f # fs)"
      using less by (simp add: remaining_def index)
    ultimately show ?thesis by blast
  qed
qed

text \<open>The two outcomes of a completed frame.\<close>

lemma complete_component:
  assumes ok: "tarjan_ok g st (f # fs)" and g: "graph_ok g"
    and e: "fr_next_edge f = ag_offsets g ! (fr_vertex f + 1)"
    and low: "low_of st (fr_vertex f) = ixv (index_of st) (fr_vertex f)"
    and lowlink: "(case fr_parent f of None \<Rightarrow> Some (tj_lowlink st)
      | Some p \<Rightarrow> Option.bind (idx (tj_lowlink st) p) (\<lambda>a. Option.bind (idx (tj_lowlink st) (fr_vertex f))
          (\<lambda>b. upd (tj_lowlink st) p (min a b)))) = Some (tj_lowlink st)"
  shows "\<exists>st'. complete_frame f st = Some st' \<and> tarjan_ok g st' fs \<and> index_of st' = index_of st"
proof -
  let ?v = "fr_vertex f" and ?S = "tj_stack st"
  note f = tarjan_okD [OF ok]
  have arrays: "arrays_ok g st" and frames: "frames_ok g (f # fs)"
    and inv: "scc_inv (graph_rel g) (index_of st) (tj_next_index st) (low_of st) ?S
       (?v # map fr_vertex fs) (looked_at g st (f # fs)) (tj_components st)"
    using ok by (simp_all add: tarjan_ok_def)
  have stack: "stack_inv (index_of st) (tj_next_index st) ?S (?v # map fr_vertex fs)"
    using inv by (simp add: scc_inv_def)
  then obtain seg S' where S: "?S = seg @ ?v # S'" and seg: "?v \<notin> set seg"
    using split_list_first [of ?v ?S] by (auto simp: stack_inv_def)
  have dist: "distinct (seg @ ?v # S')" using inv_distinct [OF stack] by (simp add: S)
  have "u < vertex_count g" if "u \<in> set ?S" for u
  proof -
    have "index_of st u \<noteq> None" using stack that by (simp add: stack_inv_def)
    then show ?thesis using f(6) by (auto simp: index_of_def split: if_splits)
  qed
  then have "\<forall>u \<in> set (seg @ [?v]). u < length (tj_on_stack st)" using f(8) by (auto simp: S)
  then obtain ons where ons: "pop_component ?v ?S (tj_on_stack st) [] = Some (S', ons, seg @ [?v])"
    "length ons = vertex_count g"
    "\<forall>u < vertex_count g. ons ! u = (if u \<in> set (seg @ [?v]) then False else tj_on_stack st ! u)"
    using pop_component_eq [OF seg dist, of "tj_on_stack st" "[]"] f(8) by (auto simp: S)
  let ?st = "st\<lparr>tj_lowlink := tj_lowlink st, tj_stack := S', tj_on_stack := ons,
    tj_components := tj_components st @ [sort (seg @ [?v])]\<rparr>"
  obtain i where i: "index_of st ?v = Some i" using f(4) by blast
  then have idxv: "idx (tj_indices st) ?v = Some (Some i)" using f(1,6) by (simp add: index_of_def)
  have "idx (tj_lowlink st) ?v = Some i" using low i f(1,7) by (simp add: low_of_def ixv_def)
  then have "complete_frame f st = Some ?st"
    using lowlink idxv ons(1) by (simp add: complete_frame_def)
  moreover have "at_root (graph_rel g) (index_of st) (tj_next_index st) (low_of st) ?S ?v
      (map fr_vertex fs) (looked_at g st (f # fs)) (tj_components st) seg S'"
    using inv looked_at_full [OF f(1,4) e] low S by (simp add: at_root_def)
  from scc_component [OF this] have "scc_inv (graph_rel g) (index_of st) (tj_next_index st) (low_of st) S'
      (map fr_vertex fs) (looked_at g st fs) (tj_components st @ [sort (seg @ [?v])])"
    by (simp add: looked_at_pop [OF e f(5)])
  moreover have same: "index_of ?st = index_of st" "low_of ?st = low_of st"
    by (simp_all add: index_of_def low_of_def fun_eq_iff)
  moreover have "arrays_ok g ?st"
    using arrays ons(2,3) dist by (auto simp: arrays_ok_def S)
  ultimately show ?thesis
    using frames_ok_tl [OF frames] looked_at_cong [OF same(1)]
    by (intro exI [of _ ?st]) (simp add: tarjan_ok_def)
qed

lemma complete_frame_ok:
  assumes ok: "tarjan_ok g st (f # fs)" and g: "graph_ok g"
    and e: "fr_next_edge f = ag_offsets g ! (fr_vertex f + 1)"
  shows "\<exists>st'. complete_frame f st = Some st' \<and> tarjan_ok g st' fs \<and> index_of st' = index_of st"
proof -
  let ?v = "fr_vertex f"
  note f = tarjan_okD [OF ok]
  have arrays: "arrays_ok g st" and frames: "frames_ok g (f # fs)"
    and inv: "scc_inv (graph_rel g) (index_of st) (tj_next_index st) (low_of st) (tj_stack st)
       (?v # map fr_vertex fs) (looked_at g st (f # fs)) (tj_components st)"
    using ok by (simp_all add: tarjan_ok_def)
  show ?thesis
  proof (cases fs)
    case Nil
    then have "low_of st ?v = ixv (index_of st) ?v" using inv scc_last_frame by simp
    moreover have "fr_parent f = None" using frames Nil by (simp add: frames_ok_def)
    ultimately show ?thesis by (intro complete_component [OF ok g e]) simp_all
  next
    case (Cons q qs)
    let ?p = "fr_vertex q"
    have par: "fr_parent f = Some ?p" and p: "?p < vertex_count g" and vp: "?v \<noteq> ?p"
      using frames Cons f(5) by (auto simp: frames_ok_def)
    let ?l = "(tj_lowlink st)[?p := min (tj_lowlink st ! ?p) (tj_lowlink st ! ?v)]"
    show ?thesis
    proof (cases "low_of st ?v = ixv (index_of st) ?v")
      case True
      have "low_of st ?p \<le> ixv (index_of st) ?p" "ixv (index_of st) ?p < ixv (index_of st) ?v"
        using inv Cons by (auto simp: scc_inv_def low_inv_def stack_inv_def)
      then have "min (tj_lowlink st ! ?p) (tj_lowlink st ! ?v) = tj_lowlink st ! ?p"
        using True by (simp add: low_of_def)
      then show ?thesis
        using f(1,7) p by (intro complete_component [OF ok g e True]) (simp add: par)
    next
      case False
      obtain i where i: "index_of st ?v = Some i" using f(4) by blast
      then have idxv: "idx (tj_indices st) ?v = Some (Some i)" using f(1,6) by (simp add: index_of_def)
      let ?st = "st\<lparr>tj_lowlink := ?l\<rparr>"
      have "tj_lowlink st ! ?v \<noteq> i" using False i by (simp add: low_of_def ixv_def)
      then have "complete_frame f st = Some ?st"
        using par f(1,7) p vp idxv by (simp add: complete_frame_def)
      moreover have same: "index_of ?st = index_of st" by (simp add: index_of_def fun_eq_iff)
      moreover have "low_of ?st = (low_of st)(?p := min (low_of st ?p) (low_of st ?v))"
        using p f(7) by (auto simp: low_of_def fun_eq_iff nth_list_update)
      moreover have "scc_inv (graph_rel g) (index_of st) (tj_next_index st)
          ((low_of st)(?p := min (low_of st ?p) (low_of st ?v))) (tj_stack st) (map fr_vertex fs)
          (looked_at g st fs) (tj_components st)"
        using scc_pop [of _ _ _ _ _ ?v ?p "map fr_vertex qs"] inv False looked_at_full [OF f(1,4) e, of fs]
        by (simp add: Cons looked_at_pop [OF e f(5), unfolded Cons])
      ultimately show ?thesis
        using arrays frames_ok_tl [OF frames] looked_at_cong [OF same]
        by (intro exI [of _ ?st]) (simp add: tarjan_ok_def arrays_ok_def)
    qed
  qed
qed

lemma tarjan_step_ok:
  assumes ok: "tarjan_ok g st (f # fs)" and g: "graph_ok g"
  shows "\<exists>st' fs'. tarjan_step g f fs st = Some (st', fs') \<and> tarjan_ok g st' fs' \<and> grows st st' \<and>
    remaining g st' fs' < remaining g st (f # fs)"
proof -
  note f = tarjan_okD [OF ok]
  show ?thesis
  proof (cases "fr_next_edge f < ag_offsets g ! (fr_vertex f + 1)")
    case True
    then show ?thesis
      using advance_ok [OF ok g True] graph_okD(2) [OF g f(1)] by (simp add: tarjan_step_def)
  next
    case False
    then have e: "fr_next_edge f = ag_offsets g ! (fr_vertex f + 1)" using f(3) by simp
    obtain st' where st': "complete_frame f st = Some st'" "tarjan_ok g st' fs" "index_of st' = index_of st"
      using complete_frame_ok [OF ok g e] by blast
    then have "tarjan_step g f fs st = Some (st', fs)"
      using e graph_okD(2) [OF g f(1)] by (simp add: tarjan_step_def)
    moreover have "remaining g st' fs < remaining g st (f # fs)" using st'(3) by (simp add: remaining_def)
    moreover have "grows st st'" using st'(3) by (simp add: grows_def)
    ultimately show ?thesis using st'(2) by blast
  qed
qed

lemma visit_loop_ok:
  "tarjan_ok g st frames \<Longrightarrow> graph_ok g \<Longrightarrow>
   \<exists>st'. visit_loop g st frames = Some st' \<and> tarjan_ok g st' [] \<and> grows st st'"
proof (induction "remaining g st frames" arbitrary: st frames rule: less_induct)
  case less
  show ?case
  proof (cases frames)
    case Nil
    then show ?thesis using less.prems by (subst visit_loop.simps) (simp add: grows_def)
  next
    case (Cons f fs)
    obtain st1 fs1 where step: "tarjan_step g f fs st = Some (st1, fs1)" "tarjan_ok g st1 fs1" "grows st st1"
      "remaining g st1 fs1 < remaining g st frames"
      using tarjan_step_ok [of g st f fs] less.prems unfolding Cons by blast
    obtain st' where "visit_loop g st1 fs1 = Some st'" "tarjan_ok g st' []" "grows st1 st'"
      using less.hyps [OF step(4,2) less.prems(2)] by blast
    then show ?thesis using step by (subst visit_loop.simps) (auto simp: Cons grows_def)
  qed
qed

section \<open>The whole search\<close>

lemma tarjan_new_ok: "tarjan_ok g (tarjan_new g) []"
proof -
  have "index_of (tarjan_new g) = (\<lambda>_. None)"
    by (auto simp: index_of_def tarjan_new_def Let_def fun_eq_iff)
  moreover from this have "looked_at g (tarjan_new g) [] = (\<lambda>_. {})" by (simp add: looked_at_def fun_eq_iff)
  ultimately show ?thesis
    by (simp add: tarjan_ok_def arrays_ok_def frames_ok_def scc_inv_def scc_inv_defs)
      (simp add: tarjan_new_def Let_def vertex_count_def)
qed

lemma visit_iterative_ok:
  assumes ok: "tarjan_ok g st []" and g: "graph_ok g" and v: "v < vertex_count g" and new: "index_of st v = None"
  shows "\<exists>st'. visit_iterative g v st = Some st' \<and> tarjan_ok g st' [] \<and> grows st st' \<and> index_of st' v \<noteq> None"
proof -
  have arrays: "arrays_ok g st" and inv: "scc_inv (graph_rel g) (index_of st) (tj_next_index st) (low_of st)
      (tj_stack st) [] (looked_at g st []) (tj_components st)"
    using ok by (simp_all add: tarjan_ok_def)
  have S: "tj_stack st = []" using inv inv_no_frames by (auto simp: scc_inv_def)
  obtain st1 where st1: "discover v st = Some st1" "arrays_ok g st1"
    "index_of st1 = (index_of st)(v := Some (tj_next_index st))"
    "low_of st1 = (low_of st)(v := tj_next_index st)" "tj_next_index st1 = Suc (tj_next_index st)"
    "tj_stack st1 = v # tj_stack st" "tj_components st1 = tj_components st"
    by (rule discover_eq [OF arrays v]) (simp_all add: S)
  let ?f = "\<lparr>fr_vertex = v, fr_next_edge = ag_offsets g ! v, fr_parent = None\<rparr>"
  have "looked_at g st1 [?f] = looked_at g st []" using new st1(3) by (rule looked_at_push) simp_all
  then have "tarjan_ok g st1 [?f]"
    using st1 scc_start [of "graph_rel g" "index_of st"] inv new v graph_okD(3) [OF g v]
    by (simp add: tarjan_ok_def frames_ok_def S)
  then obtain st' where "visit_loop g st1 [?f] = Some st'" "tarjan_ok g st' []" "grows st1 st'"
    using visit_loop_ok g by blast
  then show ?thesis
    using st1(1,3) graph_okD(1) [OF g v] by (auto simp: visit_iterative_def grows_def)
qed

lemma visit_all_ok:
  assumes "tarjan_ok g st []" and "graph_ok g" and "\<forall>v \<in> set vs. v < vertex_count g"
  shows "\<exists>st'. visit_all g vs st = Some st' \<and> tarjan_ok g st' [] \<and> grows st st' \<and>
    (\<forall>v \<in> set vs. index_of st' v \<noteq> None)"
  using assms
proof (induction vs arbitrary: st)
  case (Cons v vs)
  have idx: "idx (tj_indices st) v = Some (index_of st v)"
    using Cons.prems by (simp add: tarjan_ok_def arrays_ok_def index_of_def)
  obtain st1 where st1: "(if index_of st v = None then visit_iterative g v st else Some st) = Some st1"
    "tarjan_ok g st1 []" "grows st st1" "index_of st1 v \<noteq> None"
    using visit_iterative_ok [of g st v] Cons.prems by (cases "index_of st v = None") (auto simp: grows_def)
  obtain st' where "visit_all g vs st1 = Some st'" "tarjan_ok g st' []" "grows st1 st'"
    "\<forall>v \<in> set vs. index_of st' v \<noteq> None"
    using Cons.IH [OF st1(2) Cons.prems(2)] Cons.prems(3) by auto
  then show ?case using idx st1 by (auto simp: grows_def)
qed (simp add: grows_def)

lemma scc_result:
  assumes "graph_ok g"
  obtains cs where "strongly_connected_components g = Some cs" and "distinct (concat cs)"
    and "set (concat cs) = {..<vertex_count g}" and "\<forall>c \<in> set cs. sorted c \<and> is_scc (graph_rel g) (set c)"
proof -
  obtain st where st: "visit_all g [0..<length (ag_addresses g)] (tarjan_new g) = Some st" "tarjan_ok g st []"
    "\<forall>v \<in> set [0..<length (ag_addresses g)]. index_of st v \<noteq> None"
    using visit_all_ok [OF tarjan_new_ok assms, of "[0..<length (ag_addresses g)]"]
    by (auto simp: vertex_count_def)
  have inv: "reach_inv (graph_rel g) (index_of st) (tj_stack st) []"
    "comps_inv (graph_rel g) (index_of st) (tj_stack st) (tj_components st)"
    using st(2) by (simp_all add: tarjan_ok_def scc_inv_def)
  have "index_of st v \<noteq> None \<longleftrightarrow> v < vertex_count g" for v
    using st(2,3) by (auto simp: tarjan_ok_def arrays_ok_def index_of_def vertex_count_def)
  then have "set (concat (tj_components st)) = {..<vertex_count g}"
    using inv(2) inv_no_frames [OF inv(1)] unfolding comps_inv_def by auto
  moreover have "strongly_connected_components g = Some (tj_components st)"
    using st(1) by (simp add: strongly_connected_components_def)
  ultimately show ?thesis using that inv(2) by (auto simp: comps_inv_def)
qed

text \<open>C1. On every well-formed graph the search returns (no index is out of range, no \<open>expect\<close> fails
  and the loop ends), and its result is the partition of the vertices into the strongly
  connected components, each listed in increasing order.\<close>

theorem strongly_connected_components_correct:
  assumes "graph_ok g"
  shows "\<exists>cs. strongly_connected_components g = Some cs \<and> distinct (concat cs) \<and>
    set (concat cs) = {..<vertex_count g} \<and>
    (\<forall>c \<in> set cs. sorted c \<and> is_scc (graph_rel g) (set c))"
  using scc_result [OF assms] by metis

lemma sample_graph_ok: "graph_ok (build_graph [(''a'', ''b''), (''b'', ''a''), (''b'', ''c'')])"
  by (rule build_graph_ok)

theorem strongly_connected_components_correct_witness:
  "\<exists>cs. strongly_connected_components (build_graph [(''a'', ''b''), (''b'', ''a''), (''b'', ''c'')]) = Some cs \<and>
     set (concat cs) = {..<vertex_count (build_graph [(''a'', ''b''), (''b'', ''a''), (''b'', ''c'')])}"
  using strongly_connected_components_correct [OF sample_graph_ok] by blast

section \<open>Components of addresses\<close>

lemma graph_rel_build:
  "(i, j) \<in> graph_rel (build_graph pairs) \<longleftrightarrow>
     i < vertex_count (build_graph pairs) \<and> j < vertex_count (build_graph pairs) \<and>
     (ag_addresses (build_graph pairs) ! i, ag_addresses (build_graph pairs) ! j) \<in> set pairs"
proof -
  have "j \<in> snd ` {p \<in> set (build_edge_pairs pairs). fst p = i} \<longleftrightarrow> (i, j) \<in> set (build_edge_pairs pairs)"
    by force
  then have "(i, j) \<in> graph_rel (build_graph pairs) \<longleftrightarrow>
      i < vertex_count (build_graph pairs) \<and> (i, j) \<in> set (build_edge_pairs pairs)"
    by (cases "i < vertex_count (build_graph pairs)") (simp_all add: graph_rel_def succs_build)
  then show ?thesis unfolding build_edge_pairs_iff by blast
qed

lemma graph_rel_build_rtrancl:
  assumes "i < vertex_count (build_graph pairs)" and "j < vertex_count (build_graph pairs)"
  shows "(i, j) \<in> (graph_rel (build_graph pairs))\<^sup>* \<longleftrightarrow>
    (ag_addresses (build_graph pairs) ! i, ag_addresses (build_graph pairs) ! j) \<in> (set pairs)\<^sup>*"
    (is "_ \<longleftrightarrow> (?as ! i, ?as ! j) \<in> _")
proof
  assume "(i, j) \<in> (graph_rel (build_graph pairs))\<^sup>*"
  then show "(?as ! i, ?as ! j) \<in> (set pairs)\<^sup>*"
    by (induction rule: rtrancl_induct) (auto simp: graph_rel_build intro: rtrancl_into_rtrancl)
next
  have dist: "distinct ?as" using build_sorted strict_sorted_iff by blast
  have "\<exists>k < vertex_count (build_graph pairs). b = ?as ! k \<and> (i, k) \<in> (graph_rel (build_graph pairs))\<^sup>*"
    if "(?as ! i, b) \<in> (set pairs)\<^sup>*" for b
    using that
  proof (induction rule: rtrancl_induct)
    case base
    then show ?case using assms(1) by blast
  next
    case (step b c)
    then obtain k where k: "k < vertex_count (build_graph pairs)" "b = ?as ! k"
      "(i, k) \<in> (graph_rel (build_graph pairs))\<^sup>*" by blast
    have "c \<in> set ?as" using step.hyps(2) by (force simp: build_addresses)
    then obtain l where l: "l < vertex_count (build_graph pairs)" "c = ?as ! l"
      by (auto simp: in_set_conv_nth vertex_count_def)
    then have "(k, l) \<in> graph_rel (build_graph pairs)" using k step.hyps(2) by (simp add: graph_rel_build)
    then show ?case using k l by (blast intro: rtrancl_into_rtrancl)
  qed
  moreover assume "(?as ! i, ?as ! j) \<in> (set pairs)\<^sup>*"
  ultimately obtain k where "k < vertex_count (build_graph pairs)" "?as ! j = ?as ! k"
    "(i, k) \<in> (graph_rel (build_graph pairs))\<^sup>*" by blast
  then show "(i, j) \<in> (graph_rel (build_graph pairs))\<^sup>*"
    using assms(2) dist nth_eq_iff_index_eq [of ?as j k] by (simp add: vertex_count_def)
qed

lemma same_component:
  assumes "strongly_connected_components g = Some cs" and "graph_ok g" and "i < vertex_count g"
  shows "(\<exists>c \<in> set cs. i \<in> set c \<and> j \<in> set c) \<longleftrightarrow>
    (i, j) \<in> (graph_rel g)\<^sup>* \<and> (j, i) \<in> (graph_rel g)\<^sup>*"
proof -
  have cs: "set (concat cs) = {..<vertex_count g}" "\<forall>c \<in> set cs. is_scc (graph_rel g) (set c)"
    using scc_result [OF assms(2)] assms(1) by (metis option.inject)+
  have "i \<in> set (concat cs)" unfolding cs(1) using assms(3) by simp
  then obtain c where "c \<in> set cs" "i \<in> set c" by auto
  then show ?thesis using cs(2) unfolding is_scc_def by blast
qed

text \<open>For the graph of a list of pairs, two addresses are in one component exactly when each
  can be reached from the other along the pairs.\<close>

theorem components_mutual_reachability:
  assumes "strongly_connected_components (build_graph pairs) = Some cs"
    and "i < vertex_count (build_graph pairs)" and "j < vertex_count (build_graph pairs)"
    and "a = ag_addresses (build_graph pairs) ! i" and "b = ag_addresses (build_graph pairs) ! j"
  shows "(\<exists>c \<in> set cs. i \<in> set c \<and> j \<in> set c) \<longleftrightarrow> (a, b) \<in> (set pairs)\<^sup>* \<and> (b, a) \<in> (set pairs)\<^sup>*"
  using same_component [OF assms(1) build_graph_ok assms(2), of j] assms(2-5)
  by (simp add: graph_rel_build_rtrancl)

theorem components_mutual_reachability_witness:
  "\<exists>cs. strongly_connected_components (build_graph [(''a'', ''b'')]) = Some cs \<and>
     ((\<exists>c \<in> set cs. 0 \<in> set c \<and> 1 \<in> set c) \<longleftrightarrow>
       (''a'', ''b'') \<in> (set [(''a'', ''b'')])\<^sup>* \<and> (''b'', ''a'') \<in> (set [(''a'', ''b'')])\<^sup>*)"
proof -
  have "ag_addresses (build_graph [(''a'', ''b'')]) = [''a'', ''b'']" by code_simp
  then have g: "0 < vertex_count (build_graph [(''a'', ''b'')])" "1 < vertex_count (build_graph [(''a'', ''b'')])"
    "''a'' = ag_addresses (build_graph [(''a'', ''b'')]) ! 0" "''b'' = ag_addresses (build_graph [(''a'', ''b'')]) ! 1"
    by (simp_all add: vertex_count_def)
  obtain cs where "strongly_connected_components (build_graph [(''a'', ''b'')]) = Some cs"
    by (rule scc_result [OF build_graph_ok])
  then show ?thesis using components_mutual_reachability [OF _ g] by blast
qed

end
