(* ===== verification/Attribution.thy ===== *)
theory Attribution
  imports Roles Tarjan
begin

text \<open>
  Roles of addresses with weighted evidence
  (\<open>src/analysis2/crates/core/src/analysis/attribution.rs\<close>).  \<open>attribute_addresses\<close> is composed of
  the steps of the source: the suspected operators, the set of all addresses and their roles,
  the evidence rows, the sale cycles around a suspected operator, and the records.

  The evidence rows are only appended to, so each loop is given by the list of rows it pushes;
  \<open>push_evidence\<close> files a row under its normalised address.  Rows for the high-volume sellers are
  pushed in the order of a hash map, one per address; the model takes insertion order.  A result
  \<open>None\<close> is a panic: of the component search, or of a read outside the offsets of an ill-formed graph.
\<close>

section \<open>Data\<close>

datatype address_role = SuspectedOperator | LikelyVictim

datatype address_evidence_kind =
  ControllerOrAuthority | DeploymentFeePayer | CurrentHolder | EventSender | EventRecipient |
  MintRecipient | PaidAcquisition | SubsequentPropagation | MaliciousSaleCycle | HighVolumeSeller |
  StarDistributor | WithdrawalRecipient | CashoutParticipant

text \<open>The derived \<open>Ord\<close>: declaration order.\<close>

fun kind_rank :: "address_evidence_kind \<Rightarrow> nat" where
  "kind_rank ControllerOrAuthority = 0"
| "kind_rank DeploymentFeePayer = 1"
| "kind_rank CurrentHolder = 2"
| "kind_rank EventSender = 3"
| "kind_rank EventRecipient = 4"
| "kind_rank MintRecipient = 5"
| "kind_rank PaidAcquisition = 6"
| "kind_rank SubsequentPropagation = 7"
| "kind_rank MaliciousSaleCycle = 8"
| "kind_rank HighVolumeSeller = 9"
| "kind_rank StarDistributor = 10"
| "kind_rank WithdrawalRecipient = 11"
| "kind_rank CashoutParticipant = 12"

lemma kind_rank_inj: "kind_rank a = kind_rank b \<longleftrightarrow> a = b"
  by (cases a; cases b) simp_all

instantiation address_evidence_kind :: linorder
begin

definition less_eq_address_evidence_kind :: "address_evidence_kind \<Rightarrow> address_evidence_kind \<Rightarrow> bool" where
  "less_eq_address_evidence_kind a b \<longleftrightarrow> kind_rank a \<le> kind_rank b"

definition less_address_evidence_kind :: "address_evidence_kind \<Rightarrow> address_evidence_kind \<Rightarrow> bool" where
  "less_address_evidence_kind a b \<longleftrightarrow> kind_rank a < kind_rank b"

instance
  by standard (auto simp: less_eq_address_evidence_kind_def less_address_evidence_kind_def
      simp flip: kind_rank_inj)

end

record address_evidence =
  ae_evidence_type :: address_evidence_kind
  ae_token_id :: "string option"
  ae_transaction :: "string option"
  ae_weight :: f64
  ae_confidence :: f64

record address_attribution =
  at_role :: address_role
  at_evidence :: "address_evidence list"

record attribution_result =
  ar_roles :: "(string \<times> address_role) list"
  ar_records :: "(string \<times> address_attribution) list"

definition norm_addr :: "string \<Rightarrow> string \<Rightarrow> string" where
  "norm_addr chain address =
     (let normalized = normalize_chain_address chain address
      in if \<not> is_solana chain \<and> normalized = zero_address then [] else normalized)"

section \<open>Suspected operators\<close>

definition nonempty_norms :: "string \<Rightarrow> string list \<Rightarrow> string list" where
  "nonempty_norms chain addresses = filter (\<lambda>a. a \<noteq> []) (map (norm_addr chain) addresses)"

definition controller_set :: "evidence_bundle \<Rightarrow> string set" where
  "controller_set ev = set (nonempty_norms (eb_chain ev) (eb_controllers ev))"

definition holder_set :: "evidence_bundle \<Rightarrow> string set" where
  "holder_set ev = set (nonempty_norms (eb_chain ev)
     (map ho_owner (filter (\<lambda>h. holds h \<and> ho_token_id h \<noteq> []) (eb_holders ev))))"

definition deployment_fee_payer :: "evidence_bundle \<Rightarrow> string option" where
  "deployment_fee_payer ev =
     opt_filter (\<lambda>a. a \<noteq> []) (map_option (norm_addr (eb_chain ev))
       (Option.bind (eb_deployment ev) dp_fee_payer))"

definition positive_amount :: "f64 option \<Rightarrow> f64 option \<Rightarrow> bool" where
  "positive_amount native usd \<longleftrightarrow> unwrap_or 0 native > 0 \<or> unwrap_or 0 usd > 0"

definition paid_buyers :: "evidence_bundle \<Rightarrow> string set" where
  "paid_buyers ev =
     set (nonempty_norms (eb_chain ev) (map sa_buyer (filter (\<lambda>s.
       positive_amount (sa_native_amount s) (sa_usd_amount s) \<and> sa_token_id s \<noteq> []) (eb_sales ev)))) \<union>
     set (nonempty_norms (eb_chain ev) (map tr_to (filter (\<lambda>t. tr_is_mint t \<and>
       positive_amount (tr_mint_payment_native t) (tr_mint_payment_usd t) \<and> tr_token_id t \<noteq> [])
         (eb_transfers ev))))"

definition attributed_seller_counts :: "evidence_bundle \<Rightarrow> (string \<times> nat) list" where
  "attributed_seller_counts ev =
     fold (\<lambda>seller. entry_update ah_insert seller 0 Suc)
       (nonempty_norms (eb_chain ev) (map sa_seller (eb_sales ev))) []"

definition high_volume_sellers :: "evidence_bundle \<Rightarrow> string list" where
  "high_volume_sellers ev = map fst (filter (\<lambda>(_, n). n \<ge> 3) (attributed_seller_counts ev))"

text \<open>\<open>offsets[vertex + 1].saturating_sub(offsets[vertex])\<close> for every vertex; a read outside of the
  offsets panics.  The two loops of the source read the same vertices.\<close>

definition distinct_targets :: "address_graph \<Rightarrow> nat \<Rightarrow> nat option" where
  "distinct_targets g vertex =
     do { stop \<leftarrow> idx (ag_offsets g) (vertex + 1); start \<leftarrow> idx (ag_offsets g) vertex; Some (stop - start) }"

definition star_distributors :: "address_graph \<Rightarrow> string list option" where
  "star_distributors g =
     map_option (\<lambda>degrees. map snd (filter (\<lambda>(degree, _). degree \<ge> 3) (zip degrees (ag_addresses g))))
       (those (map (distinct_targets g) [0..<length (ag_addresses g)]))"

definition operator_evidence :: "evidence_bundle \<Rightarrow> string list \<Rightarrow> string set" where
  "operator_evidence ev distributors =
     controller_set ev \<union> set_option (deployment_fee_payer ev) \<union>
     {to \<in> set (map (\<lambda>t. norm_addr (eb_chain ev) (tr_to t)) (filter tr_is_mint (eb_transfers ev))).
        to \<in> controller_set ev} \<union>
     set (high_volume_sellers ev) \<union>
     set (nonempty_norms (eb_chain ev) distributors) \<union>
     set (nonempty_norms (eb_chain ev)
       (map vf_to (filter (\<lambda>e. vf_kind e = Withdrawal) (eb_value_flows ev))))"

section \<open>All addresses and their roles\<close>

definition event_addresses :: "evidence_bundle \<Rightarrow> string list" where
  "event_addresses ev = nonempty_norms (eb_chain ev)
     (concat (map (\<lambda>s. [sa_seller s, sa_buyer s]) (eb_sales ev)) @
      concat (map (\<lambda>t. [tr_from t, tr_to t]) (eb_transfers ev)) @
      concat (map (\<lambda>e. [vf_from e, vf_to e]) (eb_value_flows ev)))"

definition all_addresses :: "evidence_bundle \<Rightarrow> string list" where
  "all_addresses ev =
     sorted_list_of_set (controller_set ev \<union> set_option (deployment_fee_payer ev) \<union> holder_set ev \<union>
       paid_buyers ev \<union> set (event_addresses ev))"

definition bundle_victims :: "evidence_bundle \<Rightarrow> string set" where
  "bundle_victims ev =
     victim_addresses (eb_chain ev) (eb_transfers ev) (eb_sales ev)
       \<lparr>hs_records = eb_holders ev, hs_status = q_holders (eb_quality ev)\<rparr>"

definition role_of :: "string set \<Rightarrow> string \<Rightarrow> address_role" where
  "role_of victims address = (if address \<in> victims then LikelyVictim else SuspectedOperator)"

definition attribution_roles :: "evidence_bundle \<Rightarrow> (string \<times> address_role) list" where
  "attribution_roles ev =
     (let victims = bundle_victims ev
      in map (\<lambda>a. (a, role_of victims a)) (filter (\<lambda>a. a \<noteq> []) (all_addresses ev)))"

text \<open>The addresses a client of the attribution reads for a role.\<close>

definition addresses_with_role :: "address_role \<Rightarrow> (string \<times> address_role) list \<Rightarrow> string set" where
  "addresses_with_role role roles = set (map fst (filter (\<lambda>(_, r). r = role) roles))"

section \<open>Evidence rows\<close>

type_synonym evidence_rows = "(string \<times> address_evidence list) list"

definition push_evidence ::
  "string \<Rightarrow> string \<times> address_evidence \<Rightarrow> evidence_rows \<Rightarrow> evidence_rows" where
  "push_evidence chain p rows =
     (let address = norm_addr chain (fst p)
      in if address = [] then rows
         else entry_update bt_insert address [] (\<lambda>es. es @ [snd p]) rows)"

definition row ::
  "address_evidence_kind \<Rightarrow> string option \<Rightarrow> string option \<Rightarrow> rat \<Rightarrow> rat \<Rightarrow> address_evidence" where
  "row kind token_id transaction weight confidence =
     \<lparr>ae_evidence_type = kind, ae_token_id = token_id, ae_transaction = transaction,
      ae_weight = round_f64 weight, ae_confidence = round_f64 confidence\<rparr>"

definition static_pushes :: "evidence_bundle \<Rightarrow> string list \<Rightarrow> (string \<times> address_evidence) list" where
  "static_pushes ev distributors =
     map (\<lambda>c. (c, row ControllerOrAuthority None None 1 1)) (eb_controllers ev) @
     (case eb_deployment ev of
        None \<Rightarrow> []
      | Some d \<Rightarrow>
          (case dp_fee_payer d of
             None \<Rightarrow> []
           | Some payer \<Rightarrow> [(payer, row DeploymentFeePayer None (Some (dp_tx_hash d)) 1 1)])) @
     map (\<lambda>h. (ho_owner h, row CurrentHolder (Some (ho_token_id h)) None (1 / 2) (3 / 4)))
       (filter holds (eb_holders ev)) @
     map (\<lambda>a. (a, row HighVolumeSeller None None (3 / 4) (85 / 100))) (high_volume_sellers ev) @
     map (\<lambda>a. (a, row StarDistributor None None (8 / 10) (9 / 10))) distributors"

definition flow_pushes :: "value_flow_edge \<Rightarrow> (string \<times> address_evidence) list" where
  "flow_pushes e =
     (case vf_kind e of
        Withdrawal \<Rightarrow>
          [(vf_to e, row WithdrawalRecipient None (Some (vf_tx_hash e)) (85 / 100) (95 / 100))]
      | Cashout \<Rightarrow> [(vf_to e, row CashoutParticipant None (Some (vf_tx_hash e)) (65 / 100) (8 / 10))]
      | _ \<Rightarrow> [])"

definition transfer_pushes :: "transfer_event \<Rightarrow> (string \<times> address_evidence) list" where
  "transfer_pushes t =
     (let token = Some (tr_token_id t); tx = Some (tr_tx_hash t)
      in [(tr_from t, row EventSender token tx (1 / 10) (1 / 4)),
          (tr_to t, row EventRecipient token tx (1 / 10) (1 / 4)),
          (if tr_is_mint t then (tr_to t, row MintRecipient token tx (6 / 10) (7 / 10))
           else (tr_from t, row SubsequentPropagation token tx (7 / 10) (8 / 10)))])"

definition sale_pushes :: "sale_event \<Rightarrow> (string \<times> address_evidence) list" where
  "sale_pushes s =
     (let token = Some (sa_token_id s); tx = Some (sa_tx_hash s)
      in [(sa_seller s, row EventSender token tx (1 / 10) (1 / 4)),
          (sa_buyer s, row EventRecipient token tx (1 / 10) (1 / 4))] @
         (if positive_amount (sa_native_amount s) (sa_usd_amount s)
          then [(sa_buyer s, row PaidAcquisition token tx (8 / 10) (9 / 10))] else []) @
         [(sa_seller s, row SubsequentPropagation token tx (7 / 10) (8 / 10))])"

section \<open>Sale cycles\<close>

definition component_addresses :: "string \<Rightarrow> address_graph \<Rightarrow> nat list \<Rightarrow> string list" where
  "component_addresses chain g component = map (\<lambda>v. norm_addr chain (ag_addresses g ! v)) component"

definition malicious_component :: "string \<Rightarrow> string set \<Rightarrow> address_graph \<Rightarrow> nat list \<Rightarrow> bool" where
  "malicious_component chain operators g component \<longleftrightarrow>
     length component \<ge> 2 \<and> (\<exists>a \<in> set (component_addresses chain g component). a \<in> operators)"

definition malicious_cycle_by_address ::
  "string \<Rightarrow> string set \<Rightarrow> address_graph \<Rightarrow> nat list list \<Rightarrow> (string \<times> nat) list" where
  "malicious_cycle_by_address chain operators g components =
     fold (\<lambda>(component_id, component) m.
         if malicious_component chain operators g component
         then fold (\<lambda>a. ah_insert a component_id) (component_addresses chain g component) m else m)
       (enumerated components) []"

definition same_cycle :: "string \<Rightarrow> (string \<times> nat) list \<Rightarrow> sale_event \<Rightarrow> bool" where
  "same_cycle chain cycles s =
     is_some_and (\<lambda>(left, right). left = right)
       (opt_zip (map_of cycles (norm_addr chain (sa_seller s))) (map_of cycles (norm_addr chain (sa_buyer s))))"

definition cycle_pushes :: "string \<Rightarrow> (string \<times> nat) list \<Rightarrow> sale_event \<Rightarrow> (string \<times> address_evidence) list" where
  "cycle_pushes chain cycles s =
     (if same_cycle chain cycles s
      then map (\<lambda>a. (a, row MaliciousSaleCycle (Some (sa_token_id s)) (Some (sa_tx_hash s)) (9 / 10) (95 / 100)))
             [norm_addr chain (sa_seller s), norm_addr chain (sa_buyer s)]
      else [])"

section \<open>Records\<close>

definition row_key :: "address_evidence \<Rightarrow> address_evidence_kind \<times> string option \<times> string option" where
  "row_key e = (ae_evidence_type e, ae_token_id e, ae_transaction e)"

text \<open>\<open>dedup_by\<close> drops a row whose key is that of the row kept before it.\<close>

fun dedup_rows :: "address_evidence list \<Rightarrow> address_evidence list" where
  "dedup_rows [] = []"
| "dedup_rows [e] = [e]"
| "dedup_rows (e # e' # es) =
     (if row_key e' = row_key e then dedup_rows (e # es) else e # dedup_rows (e' # es))"

definition all_pushes ::
  "evidence_bundle \<Rightarrow> string list \<Rightarrow> (string \<times> nat) list \<Rightarrow> (string \<times> address_evidence) list" where
  "all_pushes ev distributors cycles =
     static_pushes ev distributors @ concat (map flow_pushes (eb_value_flows ev)) @
     concat (map transfer_pushes (eb_transfers ev)) @ concat (map sale_pushes (eb_sales ev)) @
     concat (map (cycle_pushes (eb_chain ev) cycles) (eb_sales ev))"

definition attribution_record :: "evidence_rows \<Rightarrow> string \<times> address_role \<Rightarrow> string \<times> address_attribution" where
  "attribution_record rows = (\<lambda>(address, role).
     (address, \<lparr>at_role = role,
       at_evidence = dedup_rows (sort_key row_key (unwrap_or [] (map_of rows address)))\<rparr>))"

definition attribute_addresses :: "evidence_bundle \<Rightarrow> address_graph \<Rightarrow> attribution_result option" where
  "attribute_addresses ev transfer_graph =
     (let roles = attribution_roles ev;
          sale_graph = graph_from_sales (eb_sales ev)
      in do {
        distributors \<leftarrow> star_distributors transfer_graph;
        sale_components \<leftarrow> strongly_connected_components sale_graph;
        let cycles = malicious_cycle_by_address (eb_chain ev) (operator_evidence ev distributors)
              sale_graph sale_components;
        let rows = fold (push_evidence (eb_chain ev)) (all_pushes ev distributors cycles)
              (map (\<lambda>(a, _). (a, [])) roles);
        Some \<lparr>ar_roles = roles, ar_records = map (attribution_record rows) roles\<rparr>
      })"

section \<open>Facts about the roles\<close>

lemma usable_norm_addr: "usable_address chain raw = Some a \<longleftrightarrow> norm_addr chain raw = a \<and> a \<noteq> []"
  by (auto simp: usable_address_def norm_addr_def Let_def)

lemma set_nonempty_norms: "a \<in> set (nonempty_norms chain xs) \<longleftrightarrow> a \<noteq> [] \<and> (\<exists>x \<in> set xs. norm_addr chain x = a)"
  by (auto simp: nonempty_norms_def)

lemma victims_are_holders: "bundle_victims ev \<subseteq> holder_set ev"
proof
  fix a assume "a \<in> bundle_victims ev"
  then obtain h where "h \<in> set (eb_holders ev)" "holds h" "ho_token_id h \<noteq> []"
    "usable_address (eb_chain ev) (ho_owner h) = Some a"
    unfolding bundle_victims_def by (rule victim_holds) simp_all
  then show "a \<in> holder_set ev"
    by (auto simp: holder_set_def set_nonempty_norms usable_norm_addr)
qed

lemma set_all_addresses:
  "set (all_addresses ev) = controller_set ev \<union> set_option (deployment_fee_payer ev) \<union> holder_set ev \<union>
     paid_buyers ev \<union> set (event_addresses ev)"
  by (simp add: all_addresses_def controller_set_def holder_set_def paid_buyers_def)

lemma all_addresses_nonempty: "[] \<notin> set (all_addresses ev)"
  by (auto simp: set_all_addresses controller_set_def holder_set_def paid_buyers_def event_addresses_def
      set_nonempty_norms deployment_fee_payer_def opt_filter_def split: option.splits if_splits)

lemma filter_all_addresses: "filter (\<lambda>a. a \<noteq> []) (all_addresses ev) = all_addresses ev"
  using all_addresses_nonempty by (metis (mono_tags, lifting) filter_True)

lemma attribution_roles_keys: "map fst (attribution_roles ev) = all_addresses ev"
  by (simp add: attribution_roles_def filter_all_addresses comp_def)

lemma attribution_roles_lookup:
  "map_of (attribution_roles ev) a =
     (if a \<in> set (all_addresses ev) then Some (role_of (bundle_victims ev) a) else None)"
  by (simp add: attribution_roles_def filter_all_addresses map_of_map_restrict restrict_map_def)

lemma norm_addr_not_zero: "\<not> is_solana chain \<Longrightarrow> norm_addr chain raw \<noteq> zero_address"
  by (auto simp: norm_addr_def Let_def zero_address_def)

definition attribution_cycles :: "evidence_bundle \<Rightarrow> string list \<Rightarrow> (string \<times> nat) list" where
  "attribution_cycles ev distributors =
     (case strongly_connected_components (graph_from_sales (eb_sales ev)) of
        None \<Rightarrow> []
      | Some cs \<Rightarrow> malicious_cycle_by_address (eb_chain ev) (operator_evidence ev distributors)
          (graph_from_sales (eb_sales ev)) cs)"

lemma star_distributors_ok:
  assumes "graph_ok g"
  shows "\<exists>distributors. star_distributors g = Some distributors"
proof -
  have "\<exists>degree. distinct_targets g v = Some degree" if "v < length (ag_addresses g)" for v
    using assms that by (simp add: distinct_targets_def graph_ok_def vertex_count_def idx_def)
  then have "\<exists>degrees. those (map (distinct_targets g) vs) = Some degrees" if "\<forall>v \<in> set vs. v < length (ag_addresses g)" for vs
    using that by (induction vs) (simp, fastforce)
  then show ?thesis by (auto simp: star_distributors_def)
qed

lemma star_distributors_transfers: "\<exists>distributors. star_distributors (graph_from_transfers ts) = Some distributors"
  unfolding graph_from_transfers_def by (rule star_distributors_ok [OF build_graph_ok])

lemma attribute_addresses_eq:
  "attribute_addresses ev tg = map_option (\<lambda>distributors.
     \<lparr>ar_roles = attribution_roles ev,
      ar_records = map (attribution_record
        (fold (push_evidence (eb_chain ev)) (all_pushes ev distributors (attribution_cycles ev distributors))
          (map (\<lambda>(a, _). (a, [])) (attribution_roles ev)))) (attribution_roles ev)\<rparr>) (star_distributors tg)"
proof -
  obtain cs where "strongly_connected_components (graph_from_sales (eb_sales ev)) = Some cs"
    unfolding graph_from_sales_def by (rule scc_result [OF build_graph_ok])
  then show ?thesis by (cases "star_distributors tg") (simp_all add: attribute_addresses_def Let_def attribution_cycles_def)
qed

text \<open>C2. For a well-formed transfer graph the attribution returns; it has one record per address of the evidence, in
  increasing order, with the role of the address; an address is a likely victim exactly when
  it is one of the victims of the bundle (no victim is lost), every other address is a
  suspected operator.\<close>

theorem attribute_addresses_roles:
  assumes "graph_ok tg"
  shows "\<exists>r. attribute_addresses ev tg = Some r \<and>
     sorted_wrt (<) (map fst (ar_roles r)) \<and> set (map fst (ar_roles r)) = set (all_addresses ev) \<and>
     map (\<lambda>(a, rec). (a, at_role rec)) (ar_records r) = ar_roles r \<and>
     (\<forall>a. map_of (ar_roles r) a = Some LikelyVictim \<longleftrightarrow> a \<in> bundle_victims ev) \<and>
     (\<forall>a. map_of (ar_roles r) a = Some SuspectedOperator \<longleftrightarrow>
        a \<in> set (all_addresses ev) \<and> a \<notin> bundle_victims ev)"
proof -
  have "finite (controller_set ev \<union> set_option (deployment_fee_payer ev) \<union> holder_set ev \<union> paid_buyers ev \<union>
      set (event_addresses ev))"
    by (simp add: controller_set_def holder_set_def paid_buyers_def)
  then have "sorted_wrt (<) (all_addresses ev)" by (simp add: all_addresses_def)
  moreover have "bundle_victims ev \<subseteq> set (all_addresses ev)"
    using victims_are_holders by (auto simp: set_all_addresses)
  ultimately show ?thesis
    using star_distributors_ok [OF assms]
    by (auto simp: attribute_addresses_eq attribution_roles_keys attribution_roles_lookup role_of_def
        attribution_record_def comp_def case_prod_unfold simp flip: attribution_roles_keys)
qed

text \<open>A controller sells a token, which the buyer still holds.\<close>

definition sold_bundle :: evidence_bundle where
  "sold_bundle = (empty_bundle 1 ''base'' ''0xc'')\<lparr>eb_controllers := [''0xA''],
     eb_sales := [default_sale\<lparr>sa_seller := ''0xa'', sa_buyer := ''0xb'', sa_token_id := ''7'', sa_usd_amount := Some 1\<rparr>],
     eb_holders := [\<lparr>ho_token_id = ''7'', ho_owner = ''0xb'', ho_balance = None\<rparr>],
     eb_quality := default_quality\<lparr>q_holders := Complete\<rparr>\<rparr>"

theorem attribute_addresses_roles_witness:
  "\<exists>r. attribute_addresses sold_bundle (graph_from_transfers []) = Some r \<and>
     ar_roles r = [(''0xa'', SuspectedOperator), (''0xb'', LikelyVictim)]"
proof -
  have ok: "graph_ok (graph_from_transfers [])"
    unfolding graph_from_transfers_def by (rule build_graph_ok)
  have all: "all_addresses sold_bundle = [''0xa'', ''0xb'']" and victims: "bundle_victims sold_bundle = {''0xb''}" by code_simp+
  obtain r where r: "attribute_addresses sold_bundle (graph_from_transfers []) = Some r"
    "sorted_wrt (<) (map fst (ar_roles r))" "set (map fst (ar_roles r)) = set [''0xa'', ''0xb'']"
    "\<forall>a. map_of (ar_roles r) a = Some LikelyVictim \<longleftrightarrow> a \<in> {''0xb''}"
    "\<forall>a. map_of (ar_roles r) a = Some SuspectedOperator \<longleftrightarrow> a \<in> set [''0xa'', ''0xb''] \<and> a \<notin> {''0xb''}"
    using attribute_addresses_roles [OF ok, of sold_bundle] unfolding all victims by (elim exE conjE) (rule that)
  have "sorted_wrt (<) [''0xa'', ''0xb'']" by code_simp
  then have keys: "map fst (ar_roles r) = [''0xa'', ''0xb'']" using r(2,3) strict_sorted_equal by blast
  then obtain x y where roles: "ar_roles r = [(''0xa'', x), (''0xb'', y)]" by (auto simp: map_eq_Cons_conv)
  then have "x = SuspectedOperator" "y = LikelyVictim" using r(5) [rule_format, of "''0xa''"] r(4) [rule_format, of "''0xb''"] by simp_all
  with roles r(1) show ?thesis by simp
qed

section \<open>Facts about the records\<close>

lemma dedup_rows_keys: "row_key ` set (dedup_rows es) = row_key ` set es"
  by (induction es rule: dedup_rows.induct) auto

lemma dedup_rows_subset: "set (dedup_rows es) \<subseteq> set es"
  by (induction es rule: dedup_rows.induct) auto

lemma dedup_rows_sorted: "sorted (map row_key es) \<Longrightarrow> sorted_wrt (<) (map row_key (dedup_rows es))"
proof (induction es rule: dedup_rows.induct)
  case (3 e e' es)
  show ?case
  proof (cases "row_key e' = row_key e")
    case True
    then show ?thesis using 3 by auto
  next
    case False
    have "row_key e < k" if "k \<in> row_key ` set (dedup_rows (e' # es))" for k
      using that "3.prems" False unfolding dedup_rows_keys by fastforce
    then show ?thesis using 3 False by auto
  qed
qed simp_all

lemma fold_snoc: "fold (\<lambda>p es. es @ [g p]) ps acc = acc @ map g ps"
  by (induction ps arbitrary: acc) auto

lemma push_evidence_filter:
  "fold (push_evidence chain) ps rows =
     fold (\<lambda>p. entry_update bt_insert (norm_addr chain (fst p)) [] (\<lambda>es. es @ [snd p]))
       (filter (\<lambda>p. norm_addr chain (fst p) \<noteq> []) ps) rows"
  by (induction ps arbitrary: rows) (auto simp: push_evidence_def Let_def)

lemma map_of_const: "(a, b) \<in> set xs \<Longrightarrow> map_of (map (\<lambda>(a, _). (a, c)) xs) a = Some c"
  by (induction xs) auto

text \<open>The rows filed under an address are the pushed ones, in order.\<close>

lemma rows_lookup:
  assumes "a \<noteq> []" and "map_of rows a = Some []"
  shows "map_of (fold (push_evidence chain) ps rows) a =
    Some (map snd (filter (\<lambda>p. norm_addr chain (fst p) = a) ps))"
proof -
  have "filter (\<lambda>p. norm_addr chain (fst p) = a) (filter (\<lambda>p. norm_addr chain (fst p) \<noteq> []) ps) =
      filter (\<lambda>p. norm_addr chain (fst p) = a) ps"
    using assms(1) by (simp add: filter_filter) (metis (mono_tags, lifting))
  then show ?thesis
    unfolding push_evidence_filter
    using btree.lookup_fold_entry_update [of "\<lambda>p. norm_addr chain (fst p)" "[]" "\<lambda>p es. es @ [snd p]"
        "filter (\<lambda>p. norm_addr chain (fst p) \<noteq> []) ps" rows a] assms
    by (auto simp: fold_snoc filter_empty_conv)
qed

text \<open>C3. The record of an address lists its evidence strictly increasing in kind, token and
  transaction, hence each combination once, and exactly the combinations that were pushed for
  the address.\<close>

theorem attribute_addresses_evidence:
  assumes "attribute_addresses ev tg = Some r" and "map_of (ar_records r) a = Some rec"
  shows "\<exists>distributors. star_distributors tg = Some distributors \<and> sorted_wrt (<) (map row_key (at_evidence rec)) \<and>
    row_key ` set (at_evidence rec) =
      row_key ` snd ` {p \<in> set (all_pushes ev distributors (attribution_cycles ev distributors)). norm_addr (eb_chain ev) (fst p) = a}"
proof -
  obtain distributors where star: "star_distributors tg = Some distributors"
    using assms(1) by (auto simp: attribute_addresses_eq)
  let ?rows = "fold (push_evidence (eb_chain ev)) (all_pushes ev distributors (attribution_cycles ev distributors))
    (map (\<lambda>(a, _). (a, [])) (attribution_roles ev))"
  have r: "ar_records r = map (attribution_record ?rows) (attribution_roles ev)"
    using assms(1) star by (auto simp: attribute_addresses_eq)
  obtain role where role: "(a, role) \<in> set (attribution_roles ev)"
    and rec: "at_evidence rec = dedup_rows (sort_key row_key (unwrap_or [] (map_of ?rows a)))"
    using map_of_SomeD [OF assms(2)] unfolding r by (auto simp: attribution_record_def)
  have a: "a \<in> set (all_addresses ev)"
    using role unfolding attribution_roles_keys [symmetric] by force
  have "map_of (map (\<lambda>(a, _). (a, [] :: address_evidence list)) (attribution_roles ev)) a = Some []"
    using role by (rule map_of_const)
  moreover have "a \<noteq> []" using a all_addresses_nonempty by blast
  ultimately have rows: "map_of ?rows a =
      Some (map snd (filter (\<lambda>p. norm_addr (eb_chain ev) (fst p) = a)
        (all_pushes ev distributors (attribution_cycles ev distributors))))"
    by (intro rows_lookup)
  show ?thesis
    using star unfolding rec rows dedup_rows_keys by (simp add: dedup_rows_sorted)
qed

text \<open>A bundle with a single controller.\<close>

definition sample_bundle :: evidence_bundle where
  "sample_bundle = (empty_bundle 1 ''base'' ''0xc'')\<lparr>eb_controllers := [''0xA'']\<rparr>"

theorem attribute_addresses_evidence_witness:
  "\<exists>r rec. attribute_addresses sample_bundle (graph_from_transfers []) = Some r \<and>
     map_of (ar_records r) ''0xa'' = Some rec \<and> sorted_wrt (<) (map row_key (at_evidence rec))"
proof -
  have "all_addresses sample_bundle = [''0xa'']" by code_simp
  then have roles: "attribution_roles sample_bundle = [(''0xa'', role_of (bundle_victims sample_bundle) ''0xa'')]"
    by (simp add: attribution_roles_def)
  obtain r rec where r: "attribute_addresses sample_bundle (graph_from_transfers []) = Some r"
    "map_of (ar_records r) ''0xa'' = Some rec"
    using star_distributors_transfers [of "[]"] by (auto simp: attribute_addresses_eq roles attribution_record_def)
  then show ?thesis using attribute_addresses_evidence [OF r] by blast
qed

section \<open>Facts about the sale cycles\<close>

lemma fold_ah_insert: "map_of (fold (\<lambda>a. ah_insert a i) xs m) a = (if a \<in> set xs then Some i else map_of m a)"
  by (induction xs arbitrary: m) (auto simp: hashm.lookup_ins)

definition in_malicious :: "string \<Rightarrow> string set \<Rightarrow> address_graph \<Rightarrow> string \<Rightarrow> nat list \<Rightarrow> bool" where
  "in_malicious chain ops g a c \<longleftrightarrow>
     malicious_component chain ops g c \<and> a \<in> set (component_addresses chain g c)"

lemma fold_cycles:
  "map_of (fold (\<lambda>(component_id, component) m.
         if malicious_component chain ops g component
         then fold (\<lambda>a. ah_insert a component_id) (component_addresses chain g component) m else m) ps m) a =
   (case filter (\<lambda>p. in_malicious chain ops g a (snd p)) ps of
      [] \<Rightarrow> map_of m a | xs \<Rightarrow> Some (fst (last xs)))"
  by (induction ps arbitrary: m rule: rev_induct)
    (auto simp: fold_ah_insert in_malicious_def split: list.splits)

lemma distinct_concat_nth:
  "distinct (concat cs) \<Longrightarrow> i < length cs \<Longrightarrow> j < length cs \<Longrightarrow> x \<in> set (cs ! i) \<Longrightarrow> x \<in> set (cs ! j) \<Longrightarrow> i = j"
proof (induction cs arbitrary: i j)
  case (Cons c cs)
  have "x \<notin> set c \<or> x \<notin> set (concat cs)" using Cons.prems(1) by auto
  then show ?case using Cons by (cases i; cases j) (auto simp: nth_mem)
qed simp

lemma cycles_lookup:
  assumes unique: "\<And>i j. i < length cs \<Longrightarrow> j < length cs \<Longrightarrow> a \<in> set (component_addresses chain g (cs ! i)) \<Longrightarrow>
      a \<in> set (component_addresses chain g (cs ! j)) \<Longrightarrow> i = j"
  shows "map_of (malicious_cycle_by_address chain ops g cs) a = Some i \<longleftrightarrow>
    i < length cs \<and> in_malicious chain ops g a (cs ! i)"
proof -
  let ?fs = "filter (\<lambda>p. in_malicious chain ops g a (snd p)) (enumerated cs)"
  have mem: "p \<in> set ?fs \<longleftrightarrow> fst p < length cs \<and> snd p = cs ! fst p \<and> in_malicious chain ops g a (snd p)" for p
    by (cases p) (auto simp: in_set_enumerated)
  have lookup: "map_of (malicious_cycle_by_address chain ops g cs) a =
      (case ?fs of [] \<Rightarrow> None | xs \<Rightarrow> Some (fst (last xs)))"
    unfolding malicious_cycle_by_address_def fold_cycles map_of.simps ..
  have at: "fst p < length cs" "a \<in> set (component_addresses chain g (cs ! fst p))" if "p \<in> set ?fs" for p
    using iffD1 [OF mem that] by (auto simp: in_malicious_def)
  have same: "fst p = fst q" if "p \<in> set ?fs" "q \<in> set ?fs" for p q
    using unique at that by blast
  show ?thesis
  proof (cases "?fs = []")
    case True
    then show ?thesis using lookup mem [of "(i, cs ! i)"] by simp
  next
    case False
    then have last: "last ?fs \<in> set ?fs" by (rule last_in_set)
    have "map_of (malicious_cycle_by_address chain ops g cs) a = Some (fst (last ?fs))"
      using False lookup by (cases ?fs) simp_all
    moreover have "i = fst (last ?fs)" if "i < length cs \<and> in_malicious chain ops g a (cs ! i)"
      using same [OF _ last, of "(i, cs ! i)"] that unfolding mem by simp
    moreover have "fst (last ?fs) < length cs \<and> in_malicious chain ops g a (cs ! fst (last ?fs))"
      using last unfolding mem by metis
    ultimately show ?thesis by auto
  qed
qed

text \<open>The directed sales between different, non-empty addresses.\<close>

definition sale_rel :: "sale_event list \<Rightarrow> (string \<times> string) set" where
  "sale_rel sales = {(sa_seller s, sa_buyer s) | s. s \<in> set sales \<and> sa_seller s \<noteq> [] \<and> sa_buyer s \<noteq> [] \<and>
     sa_seller s \<noteq> sa_buyer s}"

lemma sale_rel_pairs: "set (List.map_filter sale_pair sales) = sale_rel sales"
  by (auto simp: set_map_filter sale_pair_def sale_rel_def split: if_splits)

text \<open>With normalised addresses the components name addresses: the component of a vertex.\<close>

lemma sale_component_of:
  fixes sales :: "sale_event list" and chain :: string
  defines "g \<equiv> graph_from_sales sales"
  assumes scc: "strongly_connected_components g = Some cs"
    and norm: "\<And>a. a \<in> set (ag_addresses g) \<Longrightarrow> norm_addr chain a = a"
    and a: "a \<in> set (ag_addresses g)"
  obtains i where "i < length cs" and "a \<in> set (component_addresses chain g (cs ! i))"
    and "\<forall>j < length cs. a \<in> set (component_addresses chain g (cs ! j)) \<longrightarrow> j = i"
    and "set (component_addresses chain g (cs ! i)) =
      {b. (a, b) \<in> (sale_rel sales)\<^sup>* \<and> (b, a) \<in> (sale_rel sales)\<^sup>*}"
    and "distinct (component_addresses chain g (cs ! i))"
proof -
  have g: "g = build_graph (List.map_filter sale_pair sales)" by (simp add: g_def graph_from_sales_def)
  have ok: "graph_ok g" unfolding g by (rule build_graph_ok)
  obtain cs' where "strongly_connected_components g = Some cs'" and "distinct (concat cs')"
    and "set (concat cs') = {..<vertex_count g}" and "\<forall>c \<in> set cs'. sorted c \<and> is_scc (graph_rel g) (set c)"
    by (rule scc_result [OF ok])
  then have cs: "distinct (concat cs)" "set (concat cs) = {..<vertex_count g}"
    "\<forall>c \<in> set cs. is_scc (graph_rel g) (set c)" using scc by auto
  have dist: "distinct (ag_addresses g)" using build_sorted strict_sorted_iff unfolding g by blast
  obtain v where v: "v < vertex_count g" "ag_addresses g ! v = a"
    using a by (auto simp: in_set_conv_nth vertex_count_def)
  have bound: "w < vertex_count g" if "c \<in> set cs" "w \<in> set c" for c w
    using that cs(2) by auto
  have addr: "set (component_addresses chain g c) = (\<lambda>w. ag_addresses g ! w) ` set c" if "c \<in> set cs" for c
    using bound [OF that] norm by (auto simp: component_addresses_def vertex_count_def image_iff)
  have inj: "w = w'" if "w < vertex_count g" "w' < vertex_count g" "ag_addresses g ! w = ag_addresses g ! w'" for w w'
    using that dist by (simp add: nth_eq_iff_index_eq vertex_count_def)
  have mem: "a \<in> set (component_addresses chain g (cs ! j)) \<longleftrightarrow> v \<in> set (cs ! j)" if "j < length cs" for j
    unfolding addr [OF nth_mem [OF that]] using v inj bound [OF nth_mem [OF that]] by auto
  have "v \<in> set (concat cs)" unfolding cs(2) using v by simp
  then obtain i where i: "i < length cs" "v \<in> set (cs ! i)" by (metis UN_E in_set_conv_nth set_concat)
  have comp: "set (cs ! i) = {w. (v, w) \<in> (graph_rel g)\<^sup>* \<and> (w, v) \<in> (graph_rel g)\<^sup>*}"
    using cs(3) i nth_mem unfolding is_scc_def by blast
  have "set (component_addresses chain g (cs ! i)) = {b. (a, b) \<in> (sale_rel sales)\<^sup>* \<and> (b, a) \<in> (sale_rel sales)\<^sup>*}"
  proof -
    have reach: "(w, w') \<in> (graph_rel g)\<^sup>* \<longleftrightarrow> (ag_addresses g ! w, ag_addresses g ! w') \<in> (sale_rel sales)\<^sup>*"
      if "w < vertex_count g" "w' < vertex_count g" for w w'
      using graph_rel_build_rtrancl [of w "List.map_filter sale_pair sales" w'] that unfolding g [symmetric] sale_rel_pairs .
    have "b \<in> set (ag_addresses g)" if "(a, b) \<in> (sale_rel sales)\<^sup>*" for b
      using that a by (induction rule: rtrancl_induct)
        (force simp: g build_addresses sale_rel_pairs)+
    then have vertex: "\<exists>w < vertex_count g. b = ag_addresses g ! w" if "(a, b) \<in> (sale_rel sales)\<^sup>*" for b
      using that by (metis in_set_conv_nth vertex_count_def)
    show ?thesis unfolding addr [OF nth_mem [OF i(1)]]
    proof (intro set_eqI iffI)
      fix b assume "b \<in> (\<lambda>w. ag_addresses g ! w) ` set (cs ! i)"
      then obtain w where w: "w \<in> set (cs ! i)" "b = ag_addresses g ! w" by blast
      then have "(v, w) \<in> (graph_rel g)\<^sup>*" "(w, v) \<in> (graph_rel g)\<^sup>*" "w < vertex_count g"
        using comp bound [OF nth_mem [OF i(1)]] by auto
      then show "b \<in> {b. (a, b) \<in> (sale_rel sales)\<^sup>* \<and> (b, a) \<in> (sale_rel sales)\<^sup>*}"
        using reach v w(2) by simp
    next
      fix b assume b: "b \<in> {b. (a, b) \<in> (sale_rel sales)\<^sup>* \<and> (b, a) \<in> (sale_rel sales)\<^sup>*}"
      then obtain w where "w < vertex_count g" "b = ag_addresses g ! w" using vertex by blast
      then show "b \<in> (\<lambda>w. ag_addresses g ! w) ` set (cs ! i)" using b reach v comp by auto
    qed
  qed
  moreover have "distinct (component_addresses chain g (cs ! i))"
  proof -
    have "distinct (cs ! i)" using cs(1) i(1) by (simp add: distinct_concat_iff)
    moreover have "inj_on (\<lambda>w. norm_addr chain (ag_addresses g ! w)) (set (cs ! i))"
      using bound [OF nth_mem [OF i(1)]] inj norm by (intro inj_onI) (simp add: vertex_count_def)
    ultimately show ?thesis by (simp add: component_addresses_def distinct_map)
  qed
  moreover have "j = i" if "j < length cs" "a \<in> set (component_addresses chain g (cs ! j))" for j
    using that mem distinct_concat_nth [OF cs(1)] i by blast
  ultimately show ?thesis using that i mem by blast
qed

text \<open>For normalised sale addresses, a sale between two different addresses counts as part of a
  malicious cycle exactly when the buyer reaches the seller back through sales and their cycle
  contains a suspected operator.\<close>

theorem same_cycle_iff:
  assumes "strongly_connected_components (graph_from_sales sales) = Some cs"
    and "\<forall>s \<in> set sales. norm_addr chain (sa_seller s) = sa_seller s \<and> norm_addr chain (sa_buyer s) = sa_buyer s"
    and "s \<in> set sales" and "sa_seller s \<noteq> []" and "sa_buyer s \<noteq> []" and "sa_seller s \<noteq> sa_buyer s"
  shows "same_cycle chain (malicious_cycle_by_address chain ops (graph_from_sales sales) cs) s \<longleftrightarrow>
    (sa_buyer s, sa_seller s) \<in> (sale_rel sales)\<^sup>* \<and>
    (\<exists>a \<in> ops. (sa_seller s, a) \<in> (sale_rel sales)\<^sup>* \<and> (a, sa_seller s) \<in> (sale_rel sales)\<^sup>*)"
proof -
  let ?g = "graph_from_sales sales" and ?R = "(sale_rel sales)\<^sup>*"
  let ?A = "\<lambda>i. set (component_addresses chain ?g (cs ! i))"
  let ?cycles = "malicious_cycle_by_address chain ops ?g cs"
  have addrs: "set (ag_addresses ?g) = fst ` sale_rel sales \<union> snd ` sale_rel sales"
    by (simp add: graph_from_sales_def build_addresses sale_rel_pairs)
  then have norm: "norm_addr chain a = a" if "a \<in> set (ag_addresses ?g)" for a
    using that assms(2) by (auto simp: sale_rel_def)
  have edge: "(sa_seller s, sa_buyer s) \<in> sale_rel sales" using assms(3-6) by (auto simp: sale_rel_def)
  have member: "sa_seller s \<in> set (ag_addresses ?g)" "sa_buyer s \<in> set (ag_addresses ?g)"
    using edge unfolding addrs by force+
  obtain i where i: "i < length cs" "sa_seller s \<in> ?A i"
      "\<forall>k < length cs. sa_seller s \<in> ?A k \<longrightarrow> k = i"
      "?A i = {b. (sa_seller s, b) \<in> ?R \<and> (b, sa_seller s) \<in> ?R}"
      "distinct (component_addresses chain ?g (cs ! i))"
    by (rule sale_component_of [OF assms(1) norm member(1)])
  obtain j where j: "j < length cs" "sa_buyer s \<in> ?A j" "\<forall>k < length cs. sa_buyer s \<in> ?A k \<longrightarrow> k = j"
    by (rule sale_component_of [OF assms(1) norm member(2)])
  have si: "map_of ?cycles (sa_seller s) = Some k \<longleftrightarrow> k < length cs \<and> in_malicious chain ops ?g (sa_seller s) (cs ! k)" for k
    using i(3) by (intro cycles_lookup) metis
  have bj: "map_of ?cycles (sa_buyer s) = Some k \<longleftrightarrow> k < length cs \<and> in_malicious chain ops ?g (sa_buyer s) (cs ! k)" for k
    using j(3) by (intro cycles_lookup) metis
  have "same_cycle chain ?cycles s \<longleftrightarrow>
      (\<exists>k. map_of ?cycles (sa_seller s) = Some k \<and> map_of ?cycles (sa_buyer s) = Some k)"
    using assms(2,3) by (auto simp: same_cycle_def is_some_and_iff opt_zip_eq_Some)
  also have "\<dots> \<longleftrightarrow> sa_buyer s \<in> ?A i \<and> malicious_component chain ops ?g (cs ! i)"
    unfolding si bj in_malicious_def using i(1-3) by blast
  also have "\<dots> \<longleftrightarrow> (sa_buyer s, sa_seller s) \<in> ?R \<and>
      (\<exists>a \<in> ops. (sa_seller s, a) \<in> ?R \<and> (a, sa_seller s) \<in> ?R)"
  proof -
    have buyer: "sa_buyer s \<in> ?A i \<longleftrightarrow> (sa_buyer s, sa_seller s) \<in> ?R" unfolding i(4) using edge by blast
    have "2 \<le> length (cs ! i)" if "sa_buyer s \<in> ?A i"
    proof -
      have "card {sa_seller s, sa_buyer s} \<le> card (?A i)" using that i(2) by (intro card_mono) auto
      also have "\<dots> = length (cs ! i)" using distinct_card [OF i(5)] by (simp add: component_addresses_def)
      finally show ?thesis using assms(6) by simp
    qed
    then show ?thesis unfolding malicious_component_def buyer [symmetric] unfolding i(4) by blast
  qed
  finally show ?thesis .
qed

text \<open>Two addresses that sell to each other.\<close>

definition sample_sales :: "sale_event list" where
  "sample_sales = [default_sale\<lparr>sa_seller := ''a'', sa_buyer := ''b''\<rparr>,
     default_sale\<lparr>sa_seller := ''b'', sa_buyer := ''a''\<rparr>]"

theorem same_cycle_iff_witness:
  "\<exists>cs. strongly_connected_components (graph_from_sales sample_sales) = Some cs \<and>
     same_cycle ''base'' (malicious_cycle_by_address ''base'' {''b''} (graph_from_sales sample_sales) cs)
       (sample_sales ! 0)"
proof -
  obtain cs where cs: "strongly_connected_components (graph_from_sales sample_sales) = Some cs"
    unfolding graph_from_sales_def by (rule scc_result [OF build_graph_ok])
  have norm: "norm_addr ''base'' ''a'' = ''a''" "norm_addr ''base'' ''b'' = ''b''" by code_simp+
  have rel: "(''a'', ''b'') \<in> sale_rel sample_sales" "(''b'', ''a'') \<in> sale_rel sample_sales"
    unfolding sale_rel_def sample_sales_def by force+
  show ?thesis
    using same_cycle_iff [OF cs, of "''base''" "sample_sales ! 0" "{''b''}"] rel norm
    by (auto simp: cs) (auto simp: sample_sales_def)
qed

end
