(* ===== verification/Lifecycle.thy ===== *)
theory Lifecycle
  imports Attribution
begin

text \<open>
  Timelines and value-flow aggregates
  (\<open>src/analysis2/crates/core/src/analysis/lifecycle.rs\<close>).

  Timestamps are \<open>i64\<close>; \<open>checked_sub\<close> fails outside the range, the two plain subtractions of the
  holding time wrap (the release profile has no overflow checks), written out as \<open>i64_wrap\<close>.
  Counters are \<open>u64\<close> that count list elements and cannot overflow.
\<close>

section \<open>Timelines\<close>

record lifecycle_facts =
  lf_deployment_timestamp :: "int option"
  lf_first_activity_timestamp :: "int option"
  lf_first_mint_timestamp :: "int option"
  lf_first_transfer_timestamp :: "int option"
  lf_first_sale_timestamp :: "int option"
  lf_first_victim_timestamp :: "int option"
  lf_deployment_to_first_transfer_seconds :: "int option"
  lf_deployment_to_first_sale_seconds :: "int option"
  lf_deployment_to_first_victim_seconds :: "int option"
  lf_first_activity_to_first_victim_seconds :: "int option"
  lf_first_victim_holding_seconds :: "int option"

definition minimum_time :: "int option \<Rightarrow> int option \<Rightarrow> int option" where
  "minimum_time left right =
     (case (left, right) of
        (Some l, Some r) \<Rightarrow> Some (min l r)
      | (Some v, None) \<Rightarrow> Some v
      | (None, Some v) \<Rightarrow> Some v
      | (None, None) \<Rightarrow> None)"

definition i64_checked_sub :: "int \<Rightarrow> int \<Rightarrow> int option" where
  "i64_checked_sub a b = then_some (- (2 ^ 63) \<le> a - b \<and> a - b < 2 ^ 63) (a - b)"

definition i64_wrap :: "int \<Rightarrow> int" where
  "i64_wrap n = (n + 2 ^ 63) mod 2 ^ 64 - 2 ^ 63"

definition elapsed :: "int option \<Rightarrow> int option \<Rightarrow> int option" where
  "elapsed start end' =
     opt_filter (\<lambda>d. d \<ge> 0)
       (Option.bind (opt_zip start end') (\<lambda>(start, end'). i64_checked_sub end' start))"

definition current_victim_tokens ::
  "evidence_bundle \<Rightarrow> (string \<times> address_role) list \<Rightarrow> (string \<times> string) set" where
  "current_victim_tokens ev roles =
     set (List.map_filter (\<lambda>h.
       let owner = normalize_chain_address (eb_chain ev) (ho_owner h)
       in then_some (is_some_and (\<lambda>role. role = LikelyVictim) (map_of roles owner)) (owner, ho_token_id h))
       (filter holds (eb_holders ev)))"

text \<open>The running minima of the two loops.\<close>

record first_times =
  ft_activity :: "int option"
  ft_mint :: "int option"
  ft_transfer :: "int option"
  ft_sale :: "int option"
  ft_victim :: "int option"

definition victim_mint :: "string \<Rightarrow> (string \<times> string) set \<Rightarrow> transfer_event \<Rightarrow> bool" where
  "victim_mint chain tokens t \<longleftrightarrow>
     positive_amount (tr_mint_payment_native t) (tr_mint_payment_usd t) \<and>
     (normalize_chain_address chain (tr_to t), tr_token_id t) \<in> tokens"

definition victim_purchase :: "string \<Rightarrow> (string \<times> string) set \<Rightarrow> sale_event \<Rightarrow> bool" where
  "victim_purchase chain tokens s \<longleftrightarrow>
     positive_amount (sa_native_amount s) (sa_usd_amount s) \<and>
     (normalize_chain_address chain (sa_buyer s), sa_token_id s) \<in> tokens"

definition time_transfer ::
  "string \<Rightarrow> (string \<times> string) set \<Rightarrow> transfer_event \<Rightarrow> first_times \<Rightarrow> first_times" where
  "time_transfer chain tokens t ft =
     (let ft = ft\<lparr>ft_activity := minimum_time (ft_activity ft) (tr_timestamp t)\<rparr>
      in if tr_is_mint t
         then let ft = ft\<lparr>ft_mint := minimum_time (ft_mint ft) (tr_timestamp t)\<rparr>
              in if victim_mint chain tokens t
                 then ft\<lparr>ft_victim := minimum_time (ft_victim ft) (tr_timestamp t)\<rparr> else ft
         else ft\<lparr>ft_transfer := minimum_time (ft_transfer ft) (tr_timestamp t)\<rparr>)"

definition time_sale ::
  "string \<Rightarrow> (string \<times> string) set \<Rightarrow> sale_event \<Rightarrow> first_times \<Rightarrow> first_times" where
  "time_sale chain tokens s ft =
     (let ft = ft\<lparr>ft_activity := minimum_time (ft_activity ft) (sa_timestamp s),
                  ft_sale := minimum_time (ft_sale ft) (sa_timestamp s)\<rparr>
      in if victim_purchase chain tokens s
         then ft\<lparr>ft_victim := minimum_time (ft_victim ft) (sa_timestamp s)\<rparr> else ft)"

definition first_times_of :: "evidence_bundle \<Rightarrow> (string \<times> string) set \<Rightarrow> first_times" where
  "first_times_of ev tokens =
     fold (time_sale (eb_chain ev) tokens) (eb_sales ev)
       (fold (time_transfer (eb_chain ev) tokens) (eb_transfers ev)
         \<lparr>ft_activity = None, ft_mint = None, ft_transfer = None, ft_sale = None, ft_victim = None\<rparr>)"

text \<open>The acquisition at a time: a sale if there is one (paid or not), otherwise a paid mint.\<close>

definition acquisition_at ::
  "evidence_bundle \<Rightarrow> (string \<times> string) set \<Rightarrow> int \<Rightarrow> (string \<times> string) option" where
  "acquisition_at ev tokens acquired_at =
     (let chain = eb_chain ev;
          buyer = (\<lambda>s. (normalize_chain_address chain (sa_buyer s), sa_token_id s));
          recipient = (\<lambda>t. (normalize_chain_address chain (tr_to t), tr_token_id t))
      in opt_or
           (map_option buyer (List.find (\<lambda>s. buyer s \<in> tokens)
              (filter (\<lambda>s. sa_timestamp s = Some acquired_at) (eb_sales ev))))
           (map_option recipient (List.find (\<lambda>t.
              positive_amount (tr_mint_payment_native t) (tr_mint_payment_usd t) \<and> recipient t \<in> tokens)
              (filter (\<lambda>t. tr_is_mint t \<and> tr_timestamp t = Some acquired_at) (eb_transfers ev)))))"

definition disposed_at :: "evidence_bundle \<Rightarrow> string \<Rightarrow> string \<Rightarrow> int \<Rightarrow> int option" where
  "disposed_at ev buyer token acquired_at =
     list_min
       (List.map_filter tr_timestamp (filter (\<lambda>t. tr_token_id t = token \<and>
          is_some_and (\<lambda>time. time > acquired_at) (tr_timestamp t) \<and>
          normalize_chain_address (eb_chain ev) (tr_from t) = buyer) (eb_transfers ev)) @
        List.map_filter sa_timestamp (filter (\<lambda>s. sa_token_id s = token \<and>
          is_some_and (\<lambda>time. time > acquired_at) (sa_timestamp s) \<and>
          normalize_chain_address (eb_chain ev) (sa_seller s) = buyer) (eb_sales ev)))"

definition still_holds :: "evidence_bundle \<Rightarrow> string \<Rightarrow> string \<Rightarrow> bool" where
  "still_holds ev buyer token \<longleftrightarrow>
     (\<exists>h \<in> set (eb_holders ev). ho_token_id h = token \<and>
        normalize_chain_address (eb_chain ev) (ho_owner h) = buyer \<and> unwrap_or 1 (ho_balance h) > 0)"

definition holding_seconds ::
  "evidence_bundle \<Rightarrow> (string \<times> string) set \<Rightarrow> int \<Rightarrow> int \<Rightarrow> int option" where
  "holding_seconds ev tokens analysis_timestamp acquired_at =
     (case acquisition_at ev tokens acquired_at of
        None \<Rightarrow> None
      | Some (buyer, token) \<Rightarrow>
          opt_filter (\<lambda>seconds. seconds \<ge> 0)
            (opt_or (map_option (\<lambda>disposed. i64_wrap (disposed - acquired_at))
                       (disposed_at ev buyer token acquired_at))
                    (then_some (still_holds ev buyer token) (i64_wrap (analysis_timestamp - acquired_at)))))"

definition build_lifecycle ::
  "evidence_bundle \<Rightarrow> (string \<times> address_role) list \<Rightarrow> int \<Rightarrow> lifecycle_facts" where
  "build_lifecycle ev roles analysis_timestamp =
     (let deployment = eb_deployment_timestamp ev;
          tokens = current_victim_tokens ev roles;
          ft = first_times_of ev tokens
      in \<lparr>lf_deployment_timestamp = deployment,
          lf_first_activity_timestamp = ft_activity ft,
          lf_first_mint_timestamp = ft_mint ft,
          lf_first_transfer_timestamp = ft_transfer ft,
          lf_first_sale_timestamp = ft_sale ft,
          lf_first_victim_timestamp = ft_victim ft,
          lf_deployment_to_first_transfer_seconds = elapsed deployment (ft_transfer ft),
          lf_deployment_to_first_sale_seconds = elapsed deployment (ft_sale ft),
          lf_deployment_to_first_victim_seconds = elapsed deployment (ft_victim ft),
          lf_first_activity_to_first_victim_seconds = elapsed (ft_activity ft) (ft_victim ft),
          lf_first_victim_holding_seconds =
            Option.bind (ft_victim ft) (holding_seconds ev tokens analysis_timestamp)\<rparr>)"

section \<open>Value flow\<close>

record value_flow_facts =
  vff_mint_edge_count :: nat
  vff_transfer_edge_count :: nat
  vff_sale_edge_count :: nat
  vff_nft_count :: nat
  vff_address_count :: nat
  vff_gross_revenue_native :: f64
  vff_gross_revenue_usd :: f64
  vff_operator_revenue_native :: f64
  vff_operator_revenue_usd :: f64
  vff_marketplace_fee_usd :: f64
  vff_royalty_fee_usd :: f64
  vff_operator_royalty_usd :: f64
  vff_malicious_address_count :: nat
  vff_victim_address_count :: nat
  vff_currently_holding_victim_address_count :: nat
  vff_max_value_receiver :: "string option"
  vff_max_value_receiver_usd :: f64
  vff_max_value_receiver_share :: "f64 option"

definition default_value_flow_facts :: value_flow_facts where
  "default_value_flow_facts =
     \<lparr>vff_mint_edge_count = 0, vff_transfer_edge_count = 0, vff_sale_edge_count = 0, vff_nft_count = 0,
      vff_address_count = 0, vff_gross_revenue_native = 0, vff_gross_revenue_usd = 0,
      vff_operator_revenue_native = 0, vff_operator_revenue_usd = 0, vff_marketplace_fee_usd = 0,
      vff_royalty_fee_usd = 0, vff_operator_royalty_usd = 0, vff_malicious_address_count = 0,
      vff_victim_address_count = 0, vff_currently_holding_victim_address_count = 0,
      vff_max_value_receiver = None, vff_max_value_receiver_usd = 0, vff_max_value_receiver_share = None\<rparr>"

text \<open>The local variables of \<open>build_value_flow\<close>.\<close>

record flow_state =
  fs_facts :: value_flow_facts
  fs_nfts :: "string set"
  fs_addresses :: "string set"
  fs_receiver_usd :: "(string \<times> f64) list"
  fs_total_usd :: f64

definition note_nft :: "string \<Rightarrow> flow_state \<Rightarrow> flow_state" where
  "note_nft token st = (if token = [] then st else st\<lparr>fs_nfts := insert token (fs_nfts st)\<rparr>)"

definition note_address :: "string \<Rightarrow> string \<Rightarrow> flow_state \<Rightarrow> flow_state" where
  "note_address chain raw st =
     st\<lparr>fs_addresses := set_option (usable_address chain raw) \<union> fs_addresses st\<rparr>"

definition flow_transfer :: "string \<Rightarrow> transfer_event \<Rightarrow> flow_state \<Rightarrow> flow_state" where
  "flow_transfer chain t st =
     (let st = note_address chain (tr_to t) (note_address chain (tr_from t) (note_nft (tr_token_id t) st));
          facts = fs_facts st
      in st\<lparr>fs_facts := if tr_is_mint t
              then facts\<lparr>vff_mint_edge_count := vff_mint_edge_count facts + 1\<rparr>
              else facts\<lparr>vff_transfer_edge_count := vff_transfer_edge_count facts + 1\<rparr>\<rparr>)"

definition amount :: "f64 option \<Rightarrow> f64" where
  "amount v = f64_max (unwrap_or 0 v) 0"

definition gross_sale :: "sale_event \<Rightarrow> value_flow_facts \<Rightarrow> value_flow_facts" where
  "gross_sale s facts =
     facts\<lparr>vff_sale_edge_count := vff_sale_edge_count facts + 1,
           vff_gross_revenue_native := vff_gross_revenue_native facts + amount (sa_native_amount s),
           vff_gross_revenue_usd := vff_gross_revenue_usd facts + amount (sa_usd_amount s),
           vff_marketplace_fee_usd := vff_marketplace_fee_usd facts + amount (sa_marketplace_fee_usd s),
           vff_royalty_fee_usd := vff_royalty_fee_usd facts + amount (sa_royalty_fee_usd s)\<rparr>"

definition credit_receiver :: "string \<Rightarrow> f64 \<Rightarrow> flow_state \<Rightarrow> flow_state" where
  "credit_receiver receiver usd st =
     st\<lparr>fs_receiver_usd := entry_update bt_insert receiver 0 (\<lambda>v. v + usd) (fs_receiver_usd st),
        fs_total_usd := fs_total_usd st + usd\<rparr>"

definition seller_proceeds :: "string set \<Rightarrow> string \<Rightarrow> sale_event \<Rightarrow> flow_state \<Rightarrow> flow_state" where
  "seller_proceeds malicious chain s st =
     (let seller = normalize_chain_address chain (sa_seller s)
      in if seller \<notin> malicious then st
         else let st = (case opt_filter (\<lambda>v. v \<ge> 0) (sa_seller_proceeds_native s) of
                None \<Rightarrow> st
              | Some net \<Rightarrow> st\<lparr>fs_facts := (fs_facts st)\<lparr>vff_operator_revenue_native :=
                    vff_operator_revenue_native (fs_facts st) + net\<rparr>\<rparr>)
              in case opt_filter (\<lambda>v. v \<ge> 0) (sa_seller_proceeds_usd s) of
                   None \<Rightarrow> st
                 | Some net \<Rightarrow> credit_receiver seller net
                     (st\<lparr>fs_facts := (fs_facts st)\<lparr>vff_operator_revenue_usd :=
                       vff_operator_revenue_usd (fs_facts st) + net\<rparr>\<rparr>))"

definition royalty_proceeds :: "string set \<Rightarrow> string \<Rightarrow> sale_event \<Rightarrow> flow_state \<Rightarrow> flow_state" where
  "royalty_proceeds malicious chain s st =
     (case opt_filter (\<lambda>a. a \<in> malicious)
             (map_option (normalize_chain_address chain) (sa_royalty_recipient s)) of
        None \<Rightarrow> st
      | Some recipient \<Rightarrow>
          let royalty_usd = amount (sa_royalty_fee_usd s); facts = fs_facts st
          in credit_receiver recipient royalty_usd
               (st\<lparr>fs_facts := facts\<lparr>
                  vff_operator_revenue_native := vff_operator_revenue_native facts + amount (sa_royalty_fee_native s),
                  vff_operator_revenue_usd := vff_operator_revenue_usd facts + royalty_usd,
                  vff_operator_royalty_usd := vff_operator_royalty_usd facts + royalty_usd\<rparr>\<rparr>))"

definition flow_sale :: "string set \<Rightarrow> string \<Rightarrow> sale_event \<Rightarrow> flow_state \<Rightarrow> flow_state" where
  "flow_sale malicious chain s st =
     (let st = note_address chain (sa_buyer s) (note_address chain (sa_seller s) (note_nft (sa_token_id s) st));
          st = st\<lparr>fs_facts := gross_sale s (fs_facts st)\<rparr>
      in royalty_proceeds malicious chain s (seller_proceeds malicious chain s st))"

definition flow_holder :: "string \<Rightarrow> holder_record \<Rightarrow> flow_state \<Rightarrow> flow_state" where
  "flow_holder chain h st = note_address chain (ho_owner h) (note_nft (ho_token_id h) st)"

text \<open>\<open>partial_cmp\<close>, ties broken towards the smaller address.\<close>

definition receiver_greater :: "string \<times> f64 \<Rightarrow> string \<times> f64 \<Rightarrow> bool" where
  "receiver_greater left right \<longleftrightarrow>
     snd right < snd left \<or> (\<not> snd left < snd right \<and> \<not> snd right < snd left \<and> fst left < fst right)"

definition finish_value_flow :: "flow_state \<Rightarrow> value_flow_facts" where
  "finish_value_flow st =
     (let facts = (fs_facts st)\<lparr>vff_nft_count := card (fs_nfts st), vff_address_count := card (fs_addresses st)\<rparr>
      in case max_by receiver_greater (fs_receiver_usd st) of
           None \<Rightarrow> facts
         | Some (receiver, usd) \<Rightarrow>
             facts\<lparr>vff_max_value_receiver := Some receiver, vff_max_value_receiver_usd := usd,
                   vff_max_value_receiver_share := then_some (fs_total_usd st > 0) (usd / fs_total_usd st)\<rparr>)"

definition initial_flow :: "evidence_bundle \<Rightarrow> (string \<times> address_role) list \<Rightarrow> flow_state" where
  "initial_flow ev roles =
     (let victims = addresses_with_role LikelyVictim roles
      in \<lparr>fs_facts = default_value_flow_facts
            \<lparr>vff_malicious_address_count := card (addresses_with_role SuspectedOperator roles),
             vff_victim_address_count := card victims,
             vff_currently_holding_victim_address_count := card (set (filter (\<lambda>a. a \<in> victims)
               (map (\<lambda>h. normalize_chain_address (eb_chain ev) (ho_owner h)) (filter holds (eb_holders ev)))))\<rparr>,
          fs_nfts = {}, fs_addresses = {}, fs_receiver_usd = [], fs_total_usd = 0\<rparr>)"

definition build_value_flow ::
  "evidence_bundle \<Rightarrow> (string \<times> address_role) list \<Rightarrow> value_flow_facts" where
  "build_value_flow ev roles =
     (let malicious = addresses_with_role SuspectedOperator roles;
          st = fold (flow_transfer (eb_chain ev)) (eb_transfers ev) (initial_flow ev roles);
          st = fold (flow_sale malicious (eb_chain ev)) (eb_sales ev) st;
          st = fold (flow_holder (eb_chain ev)) (filter holds (eb_holders ev)) st
      in finish_value_flow st)"

section \<open>Facts about the timelines\<close>

lemma minimum_time_simps [simp]:
  "minimum_time None x = x" "minimum_time x None = x" "minimum_time (Some a) (Some b) = Some (min a b)"
  by (auto simp: minimum_time_def split: option.splits)

lemma fold_minimum_time:
  "fold (\<lambda>x acc. minimum_time acc (f x)) xs (list_min ys) = list_min (ys @ List.map_filter f xs)"
proof (induction xs arbitrary: ys)
  case (Cons x xs)
  have "minimum_time (list_min ys) (f x) = list_min (ys @ (case f x of None \<Rightarrow> [] | Some v \<Rightarrow> [v]))"
    by (cases ys) (auto simp: list_min_def min.commute split: option.split)
  then show ?case using Cons [of "ys @ (case f x of None \<Rightarrow> [] | Some v \<Rightarrow> [v])"]
    by (auto simp: List.map_filter_simps split: option.splits)
qed (simp add: List.map_filter_simps)

lemma fold_time_transfer:
  "fold (time_transfer chain tokens) ts ft =
     \<lparr>ft_activity = fold (\<lambda>t acc. minimum_time acc (tr_timestamp t)) ts (ft_activity ft),
      ft_mint = fold (\<lambda>t acc. minimum_time acc (tr_timestamp t)) (filter tr_is_mint ts) (ft_mint ft),
      ft_transfer = fold (\<lambda>t acc. minimum_time acc (tr_timestamp t)) (filter (\<lambda>t. \<not> tr_is_mint t) ts) (ft_transfer ft),
      ft_sale = ft_sale ft,
      ft_victim = fold (\<lambda>t acc. minimum_time acc (tr_timestamp t))
        (filter (\<lambda>t. tr_is_mint t \<and> victim_mint chain tokens t) ts) (ft_victim ft)\<rparr>"
  by (induction ts arbitrary: ft) (auto simp: time_transfer_def Let_def)

lemma fold_time_sale:
  "fold (time_sale chain tokens) ss ft =
     \<lparr>ft_activity = fold (\<lambda>s acc. minimum_time acc (sa_timestamp s)) ss (ft_activity ft),
      ft_mint = ft_mint ft, ft_transfer = ft_transfer ft,
      ft_sale = fold (\<lambda>s acc. minimum_time acc (sa_timestamp s)) ss (ft_sale ft),
      ft_victim = fold (\<lambda>s acc. minimum_time acc (sa_timestamp s)) (filter (victim_purchase chain tokens) ss) (ft_victim ft)\<rparr>"
  by (induction ss arbitrary: ft) (auto simp: time_sale_def Let_def)

lemma first_times_eq:
  "first_times_of ev tokens =
     \<lparr>ft_activity = list_min (List.map_filter tr_timestamp (eb_transfers ev) @ List.map_filter sa_timestamp (eb_sales ev)),
      ft_mint = list_min (List.map_filter tr_timestamp (filter tr_is_mint (eb_transfers ev))),
      ft_transfer = list_min (List.map_filter tr_timestamp (filter (\<lambda>t. \<not> tr_is_mint t) (eb_transfers ev))),
      ft_sale = list_min (List.map_filter sa_timestamp (eb_sales ev)),
      ft_victim = list_min
        (List.map_filter tr_timestamp (filter (\<lambda>t. tr_is_mint t \<and> victim_mint (eb_chain ev) tokens t) (eb_transfers ev)) @
         List.map_filter sa_timestamp (filter (victim_purchase (eb_chain ev) tokens) (eb_sales ev)))\<rparr>"
proof -
  have None: "None = list_min ([] :: int list)" by (simp add: list_min_def)
  show ?thesis
    unfolding first_times_of_def fold_time_sale fold_time_transfer first_times.simps
    by (simp only: None fold_minimum_time append_Nil)
qed

text \<open>The first times of a candidate are the minima of the timestamps of the events they are
  about; the first victim is the earliest paid mint or purchase of a token that a likely victim
  still holds.\<close>

theorem build_lifecycle_minima:
  "(let lf = build_lifecycle ev roles now; tokens = current_victim_tokens ev roles;
        transfers = eb_transfers ev; sales = eb_sales ev
    in lf_first_activity_timestamp lf =
         list_min (List.map_filter tr_timestamp transfers @ List.map_filter sa_timestamp sales) \<and>
       lf_first_mint_timestamp lf = list_min (List.map_filter tr_timestamp (filter tr_is_mint transfers)) \<and>
       lf_first_transfer_timestamp lf =
         list_min (List.map_filter tr_timestamp (filter (\<lambda>t. \<not> tr_is_mint t) transfers)) \<and>
       lf_first_sale_timestamp lf = list_min (List.map_filter sa_timestamp sales) \<and>
       lf_first_victim_timestamp lf = list_min
         (List.map_filter tr_timestamp (filter (\<lambda>t. tr_is_mint t \<and> victim_mint (eb_chain ev) tokens t) transfers) @
          List.map_filter sa_timestamp (filter (victim_purchase (eb_chain ev) tokens) sales)))"
  by (simp add: build_lifecycle_def Let_def first_times_eq)

lemma elapsed_eq_Some:
  "elapsed start end' = Some d \<longleftrightarrow>
     (\<exists>s e. start = Some s \<and> end' = Some e \<and> d = e - s \<and> 0 \<le> d \<and> d < 2 ^ 63)"
  by (cases start; cases end') (auto simp: elapsed_def opt_filter_def i64_checked_sub_def then_some_def)

text \<open>A first victim implies a first activity that is not later, and unless their distance
  exceeds the range of \<open>i64\<close> it is reported; every reported duration is non-negative.\<close>

theorem build_lifecycle_durations:
  assumes "lf = build_lifecycle ev roles now"
  shows "(\<forall>v. lf_first_victim_timestamp lf = Some v \<longrightarrow>
      (\<exists>a. lf_first_activity_timestamp lf = Some a \<and> a \<le> v \<and>
        (v - a < 2 ^ 63 \<longrightarrow> lf_first_activity_to_first_victim_seconds lf = Some (v - a)))) \<and>
    (\<forall>d \<in> set_option (lf_first_victim_holding_seconds lf) \<union>
        set_option (lf_deployment_to_first_transfer_seconds lf) \<union>
        set_option (lf_deployment_to_first_sale_seconds lf) \<union>
        set_option (lf_deployment_to_first_victim_seconds lf) \<union>
        set_option (lf_first_activity_to_first_victim_seconds lf). 0 \<le> d)"
proof -
  let ?ft = "first_times_of ev (current_victim_tokens ev roles)"
  have lf: "lf_first_victim_timestamp lf = ft_victim ?ft" "lf_first_activity_timestamp lf = ft_activity ?ft"
    "lf_first_activity_to_first_victim_seconds lf = elapsed (ft_activity ?ft) (ft_victim ?ft)"
    using assms by (simp_all add: build_lifecycle_def Let_def)
  have "\<exists>a. ft_activity ?ft = Some a \<and> a \<le> v" if v: "ft_victim ?ft = Some v" for v
  proof -
    let ?all = "List.map_filter tr_timestamp (eb_transfers ev) @ List.map_filter sa_timestamp (eb_sales ev)"
    have mem: "v \<in> set ?all"
      using v unfolding first_times_eq by (auto dest!: list_min_SomeD simp: set_map_filter)
    then have "list_min ?all \<noteq> None" unfolding list_min_None by (metis empty_iff list.set(1))
    then obtain a where a: "list_min ?all = Some a" by blast
    then show ?thesis using list_min_SomeD [OF a] mem unfolding first_times_eq by simp
  qed
  moreover have "\<forall>d \<in> set_option (lf_first_victim_holding_seconds lf). 0 \<le> d"
    using assms by (auto simp: build_lifecycle_def Let_def holding_seconds_def opt_filter_def
        elim!: bind_eq_Some_conv [THEN iffD1, elim_format] split: option.splits prod.splits if_splits)
  ultimately show ?thesis
    unfolding lf using assms by (auto simp: build_lifecycle_def Let_def elapsed_eq_Some)
qed

theorem build_lifecycle_durations_witness:
  "\<exists>a. lf_first_activity_timestamp (build_lifecycle (sample_bundle
     \<lparr>eb_sales := [default_sale\<lparr>sa_buyer := ''v'', sa_token_id := ''1'', sa_timestamp := Some 9, sa_usd_amount := Some 1\<rparr>],
      eb_holders := [\<lparr>ho_token_id = ''1'', ho_owner = ''v'', ho_balance = None\<rparr>]\<rparr>) [(''v'', LikelyVictim)] 0) = Some a \<and> a \<le> 9"
proof -
  let ?ev = "sample_bundle
     \<lparr>eb_sales := [default_sale\<lparr>sa_buyer := ''v'', sa_token_id := ''1'', sa_timestamp := Some 9, sa_usd_amount := Some 1\<rparr>],
      eb_holders := [\<lparr>ho_token_id = ''1'', ho_owner = ''v'', ho_balance = None\<rparr>]\<rparr>"
  have norm: "normalize_chain_address ''base'' ''v'' = ''v''" by code_simp
  have "lf_first_victim_timestamp (build_lifecycle ?ev [(''v'', LikelyVictim)] 0) = Some 9"
    by (simp add: build_lifecycle_def Let_def first_times_eq sample_bundle_def empty_bundle_def default_sale_def
        victim_purchase_def positive_amount_def current_victim_tokens_def holds_def norm List.map_filter_simps
        list_min_def one_f64_def zero_f64_def less_f64_def)
  then show ?thesis using build_lifecycle_durations [of "build_lifecycle ?ev [(''v'', LikelyVictim)] 0"] by blast
qed

section \<open>Facts about the value flow\<close>

definition receivers_inv :: "flow_state \<Rightarrow> bool" where
  "receivers_inv st \<longleftrightarrow> rounded (fs_total_usd st) \<and> 0 \<le> fs_total_usd st \<and>
     (\<forall>(k, v) \<in> set (fs_receiver_usd st). 0 \<le> v \<and> v \<le> fs_total_usd st)"

lemma set_bt_insert: "set (bt_insert k v m) \<subseteq> insert (k, v) (set m)"
  by (induction k v m rule: bt_insert.induct) auto

lemma receivers_inv_credit:
  assumes inv: "receivers_inv st" and usd: "0 \<le> usd" shows "receivers_inv (credit_receiver r usd st)"
proof -
  let ?t = "fs_total_usd st" and ?old = "unwrap_or 0 (map_of (fs_receiver_usd st) r)"
  have t: "rounded ?t" "0 \<le> ?t" and e: "\<And>k v. (k, v) \<in> set (fs_receiver_usd st) \<Longrightarrow> 0 \<le> v \<and> v \<le> ?t"
    using inv by (auto simp: receivers_inv_def)
  have old: "0 \<le> ?old" "?old \<le> ?t"
  proof -
    have "0 \<le> ?old \<and> ?old \<le> ?t"
    proof (cases "map_of (fs_receiver_usd st) r")
      case None
      then show ?thesis using t(2) by simp
    next
      case (Some v)
      then show ?thesis using e [OF map_of_SomeD [OF Some]] by simp
    qed
    then show "0 \<le> ?old" "?old \<le> ?t" by simp_all
  qed
  have up: "?t \<le> ?t + usd" by (rule f64_add_increasing [OF t usd])
  have "0 \<le> v \<and> v \<le> ?t + usd" if "(k, v) \<in> set (bt_insert r (?old + usd) (fs_receiver_usd st))" for k v
  proof -
    have "(k, v) = (r, ?old + usd) \<or> (k, v) \<in> set (fs_receiver_usd st)"
      using subsetD [OF set_bt_insert that] by simp
    then show ?thesis
    proof
      assume "(k, v) = (r, ?old + usd)"
      then show ?thesis using f64_add_mono [OF old(2,1) usd] f64_add_nonneg [OF old(1) usd] by simp
    next
      assume "(k, v) \<in> set (fs_receiver_usd st)"
      then show ?thesis using e up f64_le_trans by blast
    qed
  qed
  moreover have "0 \<le> ?t + usd" using t(2) usd by (rule f64_add_nonneg)
  ultimately show ?thesis by (auto simp: receivers_inv_def credit_receiver_def entry_update_def)
qed

lemma receivers_inv_cong [simp]:
  "receivers_inv (st\<lparr>fs_facts := f\<rparr>) = receivers_inv st" "receivers_inv (note_nft t st) = receivers_inv st"
  "receivers_inv (note_address c a st) = receivers_inv st"
  by (simp_all add: receivers_inv_def note_nft_def note_address_def)

lemma amount_nonneg [simp]: "0 \<le> amount v"
  by (simp add: amount_def)

lemma receivers_inv_sale: "receivers_inv st \<Longrightarrow> receivers_inv (flow_sale malicious chain s st)"
  by (auto simp: flow_sale_def seller_proceeds_def royalty_proceeds_def Let_def opt_filter_def
      intro!: receivers_inv_credit split: option.splits)

lemma receivers_inv_final:
  "receivers_inv (fold (flow_holder chain) hs (fold (flow_sale malicious chain) ss
     (fold (flow_transfer chain) ts (initial_flow ev roles))))"
proof -
  have "receivers_inv st \<Longrightarrow> receivers_inv (fold (flow_transfer chain) ts st)" for st
    by (induction ts arbitrary: st) (auto simp: flow_transfer_def Let_def)
  moreover have "receivers_inv st \<Longrightarrow> receivers_inv (fold (flow_sale malicious chain) ss st)" for st
    by (induction ss arbitrary: st) (auto intro: receivers_inv_sale)
  moreover have "receivers_inv st \<Longrightarrow> receivers_inv (fold (flow_holder chain) hs st)" for st
    by (induction hs arbitrary: st) (auto simp: flow_holder_def)
  moreover have "receivers_inv (initial_flow ev roles)"
    by (simp add: receivers_inv_def initial_flow_def Let_def)
  ultimately show ?thesis by blast
qed

text \<open>The fields a loop does not write.\<close>

lemma credit_receiver_facts [simp]: "fs_facts (credit_receiver a usd st) = fs_facts st"
  by (simp add: credit_receiver_def)

lemma note_facts [simp]: "fs_facts (note_nft t st) = fs_facts st" "fs_facts (note_address c a st) = fs_facts st"
  by (simp_all add: note_nft_def note_address_def)

definition static_fields :: "value_flow_facts \<Rightarrow> nat \<times> nat \<times> nat \<times> string option \<times> f64 \<times> f64 option" where
  "static_fields f = (vff_malicious_address_count f, vff_victim_address_count f,
     vff_currently_holding_victim_address_count f, vff_max_value_receiver f, vff_max_value_receiver_usd f,
     vff_max_value_receiver_share f)"

lemma flow_sale_facts:
  "static_fields (fs_facts (flow_sale malicious chain s st)) = static_fields (fs_facts st)"
  "vff_mint_edge_count (fs_facts (flow_sale malicious chain s st)) = vff_mint_edge_count (fs_facts st)"
  "vff_transfer_edge_count (fs_facts (flow_sale malicious chain s st)) = vff_transfer_edge_count (fs_facts st)"
  "vff_sale_edge_count (fs_facts (flow_sale malicious chain s st)) = vff_sale_edge_count (fs_facts st) + 1"
  by (simp_all add: flow_sale_def seller_proceeds_def royalty_proceeds_def gross_sale_def static_fields_def Let_def
      split: option.split)

lemma flow_transfer_facts:
  "static_fields (fs_facts (flow_transfer chain t st)) = static_fields (fs_facts st)"
  "vff_mint_edge_count (fs_facts (flow_transfer chain t st)) =
     vff_mint_edge_count (fs_facts st) + (if tr_is_mint t then 1 else 0)"
  "vff_transfer_edge_count (fs_facts (flow_transfer chain t st)) =
     vff_transfer_edge_count (fs_facts st) + (if tr_is_mint t then 0 else 1)"
  "vff_sale_edge_count (fs_facts (flow_transfer chain t st)) = vff_sale_edge_count (fs_facts st)"
  by (simp_all add: flow_transfer_def static_fields_def Let_def)

lemma flow_holder_facts: "fs_facts (fold (flow_holder chain) hs st) = fs_facts st"
  by (induction hs arbitrary: st) (simp_all add: flow_holder_def)

lemma flow_sales_facts:
  "static_fields (fs_facts (fold (flow_sale malicious chain) ss st)) = static_fields (fs_facts st)"
  "vff_mint_edge_count (fs_facts (fold (flow_sale malicious chain) ss st)) = vff_mint_edge_count (fs_facts st)"
  "vff_transfer_edge_count (fs_facts (fold (flow_sale malicious chain) ss st)) = vff_transfer_edge_count (fs_facts st)"
  "vff_sale_edge_count (fs_facts (fold (flow_sale malicious chain) ss st)) = vff_sale_edge_count (fs_facts st) + length ss"
  by (induction ss arbitrary: st) (simp_all add: flow_sale_facts)

lemma flow_transfers_facts:
  "static_fields (fs_facts (fold (flow_transfer chain) ts st)) = static_fields (fs_facts st)"
  "vff_mint_edge_count (fs_facts (fold (flow_transfer chain) ts st)) =
     vff_mint_edge_count (fs_facts st) + length (filter tr_is_mint ts)"
  "vff_transfer_edge_count (fs_facts (fold (flow_transfer chain) ts st)) =
     vff_transfer_edge_count (fs_facts st) + length (filter (\<lambda>t. \<not> tr_is_mint t) ts)"
  "vff_sale_edge_count (fs_facts (fold (flow_transfer chain) ts st)) = vff_sale_edge_count (fs_facts st)"
  by (induction ts arbitrary: st) (simp_all add: flow_transfer_facts)

lemmas flow_facts = flow_holder_facts flow_sales_facts flow_transfers_facts

text \<open>The share of the largest receiver of net proceeds is a fraction between 0 and 1 (for a
  finite amount), although the receiver's sum and the total are rounded separately: the amount
  never exceeds the total.\<close>

theorem build_value_flow_share:
  assumes "vff_max_value_receiver_share (build_value_flow ev roles) = Some q"
    and "is_finite (vff_max_value_receiver_usd (build_value_flow ev roles))"
  shows "0 \<le> q \<and> q \<le> 1"
proof -
  define st where "st = fold (flow_holder (eb_chain ev)) (filter holds (eb_holders ev))
    (fold (flow_sale (addresses_with_role SuspectedOperator roles) (eb_chain ev)) (eb_sales ev)
      (fold (flow_transfer (eb_chain ev)) (eb_transfers ev) (initial_flow ev roles)))"
  have inv: "receivers_inv st" unfolding st_def by (rule receivers_inv_final)
  have facts: "build_value_flow ev roles = finish_value_flow st"
    by (simp add: build_value_flow_def st_def Let_def)
  have init: "vff_max_value_receiver_share (fs_facts st) = None"
  proof -
    have "static_fields (fs_facts st) = static_fields (fs_facts (initial_flow ev roles))"
      by (simp add: st_def flow_facts)
    then show ?thesis by (simp add: static_fields_def initial_flow_def Let_def default_value_flow_facts_def)
  qed
  obtain receiver usd where m: "max_by receiver_greater (fs_receiver_usd st) = Some (receiver, usd)"
    and q: "0 < fs_total_usd st" "q = usd / fs_total_usd st"
    and usd: "vff_max_value_receiver_usd (build_value_flow ev roles) = usd"
    using assms(1) init unfolding facts finish_value_flow_def Let_def by (auto split: option.splits)
  have "0 \<le> usd \<and> usd \<le> fs_total_usd st" using max_by_in [OF m] inv by (auto simp: receivers_inv_def)
  then show ?thesis using q usd assms(2) f64_div_le_one f64_div_nonneg by blast
qed

theorem build_value_flow_share_witness:
  "\<exists>q. vff_max_value_receiver_share (build_value_flow (sample_bundle\<lparr>eb_sales :=
      [default_sale\<lparr>sa_seller := ''o'', sa_seller_proceeds_usd := Some 1\<rparr>]\<rparr>) [(''o'', SuspectedOperator)]) = Some q \<and>
     0 \<le> q \<and> q \<le> 1"
proof -
  let ?ev = "sample_bundle\<lparr>eb_sales := [default_sale\<lparr>sa_seller := ''o'', sa_seller_proceeds_usd := Some 1\<rparr>]\<rparr>"
  have norm: "normalize_chain_address ''base'' ''o'' = ''o''" by code_simp
  have "(0 :: f64) + 1 = 1" by (simp add: f64_ops)
  then have "vff_max_value_receiver_share (build_value_flow ?ev [(''o'', SuspectedOperator)]) = Some (1 / 1) \<and>
      vff_max_value_receiver_usd (build_value_flow ?ev [(''o'', SuspectedOperator)]) = 1"
    by (simp add: build_value_flow_def Let_def sample_bundle_def empty_bundle_def default_sale_def flow_sale_def
        seller_proceeds_def royalty_proceeds_def addresses_with_role_def norm opt_filter_def credit_receiver_def
        entry_update_def finish_value_flow_def max_by_def initial_flow_def note_nft_def note_address_def gross_sale_def
        f64_le_refl) (simp add: f64_ops)
  then show ?thesis
    using build_value_flow_share [of ?ev "[(''o'', SuspectedOperator)]"] by (simp add: one_f64_def is_finite_def)
qed

lemma note_nfts:
  "fs_nfts (note_nft t st) = (if t = [] then {} else {t}) \<union> fs_nfts st" "fs_nfts (note_address c a st) = fs_nfts st"
  "fs_addresses (note_address c a st) = set_option (usable_address c a) \<union> fs_addresses st"
  "fs_addresses (note_nft t st) = fs_addresses st"
  by (simp_all add: note_nft_def note_address_def)

lemma flow_sale_sets:
  "fs_nfts (flow_sale m c s st) = (if sa_token_id s = [] then {} else {sa_token_id s}) \<union> fs_nfts st"
  "fs_addresses (flow_sale m c s st) =
     set_option (usable_address c (sa_buyer s)) \<union> set_option (usable_address c (sa_seller s)) \<union> fs_addresses st"
  by (auto simp: flow_sale_def seller_proceeds_def royalty_proceeds_def credit_receiver_def note_nfts Let_def
      split: option.split)

lemma flow_transfer_sets:
  "fs_nfts (flow_transfer c t st) = (if tr_token_id t = [] then {} else {tr_token_id t}) \<union> fs_nfts st"
  "fs_addresses (flow_transfer c t st) =
     set_option (usable_address c (tr_to t)) \<union> set_option (usable_address c (tr_from t)) \<union> fs_addresses st"
  by (auto simp: flow_transfer_def note_nfts Let_def)

lemma flow_nfts:
  "fs_nfts (fold (flow_transfer c) ts st) = tr_token_id ` set ts - {[]} \<union> fs_nfts st"
  "fs_nfts (fold (flow_sale m c) ss st) = sa_token_id ` set ss - {[]} \<union> fs_nfts st"
  "fs_nfts (fold (flow_holder c) hs st) = ho_token_id ` set hs - {[]} \<union> fs_nfts st"
proof -
  show "fs_nfts (fold (flow_transfer c) ts st) = tr_token_id ` set ts - {[]} \<union> fs_nfts st"
    by (induction ts arbitrary: st) (auto simp: flow_transfer_sets)
  show "fs_nfts (fold (flow_sale m c) ss st) = sa_token_id ` set ss - {[]} \<union> fs_nfts st"
    by (induction ss arbitrary: st) (auto simp: flow_sale_sets)
  show "fs_nfts (fold (flow_holder c) hs st) = ho_token_id ` set hs - {[]} \<union> fs_nfts st"
    by (induction hs arbitrary: st) (auto simp: flow_holder_def note_nfts)
qed

lemma flow_addresses:
  "fs_addresses (fold (flow_transfer c) ts st) =
     {a. \<exists>raw \<in> tr_from ` set ts \<union> tr_to ` set ts. usable_address c raw = Some a} \<union> fs_addresses st"
  "fs_addresses (fold (flow_sale m c) ss st) =
     {a. \<exists>raw \<in> sa_seller ` set ss \<union> sa_buyer ` set ss. usable_address c raw = Some a} \<union> fs_addresses st"
  "fs_addresses (fold (flow_holder c) hs st) =
     {a. \<exists>raw \<in> ho_owner ` set hs. usable_address c raw = Some a} \<union> fs_addresses st"
proof -
  show "fs_addresses (fold (flow_transfer c) ts st) =
     {a. \<exists>raw \<in> tr_from ` set ts \<union> tr_to ` set ts. usable_address c raw = Some a} \<union> fs_addresses st"
    by (induction ts arbitrary: st) (auto simp: flow_transfer_sets)
  show "fs_addresses (fold (flow_sale m c) ss st) =
     {a. \<exists>raw \<in> sa_seller ` set ss \<union> sa_buyer ` set ss. usable_address c raw = Some a} \<union> fs_addresses st"
    by (induction ss arbitrary: st) (auto simp: flow_sale_sets)
  show "fs_addresses (fold (flow_holder c) hs st) =
     {a. \<exists>raw \<in> ho_owner ` set hs. usable_address c raw = Some a} \<union> fs_addresses st"
    by (induction hs arbitrary: st) (auto simp: flow_holder_def note_nfts)
qed

lemma finish_counts [simp]:
  "vff_nft_count (finish_value_flow st) = card (fs_nfts st)"
  "vff_address_count (finish_value_flow st) = card (fs_addresses st)"
  "vff_mint_edge_count (finish_value_flow st) = vff_mint_edge_count (fs_facts st)"
  "vff_transfer_edge_count (finish_value_flow st) = vff_transfer_edge_count (fs_facts st)"
  "vff_sale_edge_count (finish_value_flow st) = vff_sale_edge_count (fs_facts st)"
  "vff_malicious_address_count (finish_value_flow st) = vff_malicious_address_count (fs_facts st)"
  "vff_victim_address_count (finish_value_flow st) = vff_victim_address_count (fs_facts st)"
  "vff_currently_holding_victim_address_count (finish_value_flow st) =
     vff_currently_holding_victim_address_count (fs_facts st)"
  by (simp_all add: finish_value_flow_def Let_def split: option.split)

lemma roles_partition:
  assumes "distinct (map fst roles)"
  shows "card (addresses_with_role SuspectedOperator roles) + card (addresses_with_role LikelyVictim roles) = length roles"
proof -
  have "card (addresses_with_role role roles) = length (filter (\<lambda>(_, r). r = role) roles)" for role
    unfolding addresses_with_role_def using assms
    by (subst distinct_card) (auto simp: distinct_map intro: inj_on_subset)
  moreover have "length (filter (\<lambda>(_, r). r = SuspectedOperator) roles) + length (filter (\<lambda>(_, r). r = LikelyVictim) roles) =
      length roles" by (induction roles) (auto, metis address_role.exhaust)
  ultimately show ?thesis by simp
qed

text \<open>The counters of the value flow: mint and transfer edges partition the transfers, every
  address of the roles is malicious or a victim, at most the victims are holding victims, and
  the NFTs and addresses counted are those of transfers, sales and current holders.\<close>

theorem build_value_flow_counts:
  assumes "distinct (map fst roles)"
  shows "(let f = build_value_flow ev roles; hs = filter holds (eb_holders ev) in
    vff_mint_edge_count f + vff_transfer_edge_count f = length (eb_transfers ev) \<and>
    vff_sale_edge_count f = length (eb_sales ev) \<and>
    vff_malicious_address_count f + vff_victim_address_count f = length roles \<and>
    vff_currently_holding_victim_address_count f \<le> vff_victim_address_count f \<and>
    vff_nft_count f = card (tr_token_id ` set (eb_transfers ev) \<union> sa_token_id ` set (eb_sales ev) \<union>
      ho_token_id ` set hs - {[]}) \<and>
    vff_address_count f = card {a. \<exists>raw \<in> tr_from ` set (eb_transfers ev) \<union> tr_to ` set (eb_transfers ev) \<union>
      sa_seller ` set (eb_sales ev) \<union> sa_buyer ` set (eb_sales ev) \<union> ho_owner ` set hs.
        usable_address (eb_chain ev) raw = Some a})"
proof -
  define st where "st = fold (flow_holder (eb_chain ev)) (filter holds (eb_holders ev))
    (fold (flow_sale (addresses_with_role SuspectedOperator roles) (eb_chain ev)) (eb_sales ev)
      (fold (flow_transfer (eb_chain ev)) (eb_transfers ev) (initial_flow ev roles)))"
  have facts: "build_value_flow ev roles = finish_value_flow st"
    by (simp add: build_value_flow_def st_def Let_def)
  have "static_fields (fs_facts st) = static_fields (fs_facts (initial_flow ev roles))"
    by (simp add: st_def flow_facts)
  moreover have "card (set (filter (\<lambda>a. a \<in> A) xs)) \<le> card A" if "finite A" for A :: "string set" and xs
    using that by (intro card_mono) auto
  moreover have "fs_nfts st = tr_token_id ` set (eb_transfers ev) \<union> sa_token_id ` set (eb_sales ev) \<union>
      ho_token_id ` set (filter holds (eb_holders ev)) - {[]}"
    by (auto simp: st_def flow_nfts initial_flow_def Let_def)
  moreover have "fs_addresses st = {a. \<exists>raw \<in> tr_from ` set (eb_transfers ev) \<union> tr_to ` set (eb_transfers ev) \<union>
      sa_seller ` set (eb_sales ev) \<union> sa_buyer ` set (eb_sales ev) \<union> ho_owner ` set (filter holds (eb_holders ev)).
        usable_address (eb_chain ev) raw = Some a}"
    unfolding st_def flow_addresses by (auto simp: initial_flow_def Let_def)
  moreover have "vff_mint_edge_count (fs_facts st) = length (filter tr_is_mint (eb_transfers ev))"
    "vff_transfer_edge_count (fs_facts st) = length (filter (\<lambda>t. \<not> tr_is_mint t) (eb_transfers ev))"
    "vff_sale_edge_count (fs_facts st) = length (eb_sales ev)"
    by (simp_all add: st_def flow_facts initial_flow_def Let_def default_value_flow_facts_def)
  ultimately show ?thesis
    using roles_partition [OF assms] sum_length_filter_compl [of tr_is_mint "eb_transfers ev"]
    by (simp add: facts Let_def static_fields_def initial_flow_def addresses_with_role_def del: set_filter)
qed

theorem build_value_flow_counts_witness:
  "vff_malicious_address_count (build_value_flow sample_bundle [(''o'', SuspectedOperator), (''v'', LikelyVictim)]) +
   vff_victim_address_count (build_value_flow sample_bundle [(''o'', SuspectedOperator), (''v'', LikelyVictim)]) = 2"
  using build_value_flow_counts [of "[(''o'', SuspectedOperator), (''v'', LikelyVictim)]" sample_bundle]
  by (simp add: Let_def)

end
