(* ===== verification/Economics.thy ===== *)
theory Economics
  imports ValueFlowEdges Lifecycle
begin

text \<open>
  Attacker economics (\<open>src/analysis2/crates/core/src/analysis/economics.rs\<close>): sale and mint
  amounts, operator output, paid exposure of honest buyers, gas by stage and the output/input
  ratio.  \<open>compute_economics\<close> is composed of the bodies of its three loops, each split where the
  source has a comment or a separate \<open>if\<close>.

  Amounts are \<open>f64\<close>, so the order of additions matters: where the source iterates over the hash
  map of gas by transaction, the model takes the entries in the order of a parameter \<open>order\<close>.
  The parameters \<open>analysis_timestamp\<close> and \<open>lifecycle\<close> of the source are unused there.
\<close>

section \<open>Data\<close>

record value_flow_contribution =
  vfc_tx_hash :: string
  vfc_event_id :: "string option"
  vfc_from :: string
  vfc_to :: string
  vfc_kind :: value_flow_kind
  vfc_usd :: "f64 option"

datatype gas_stage = Setup | Lure | Exit

fun stage_rank :: "gas_stage \<Rightarrow> nat" where
  "stage_rank Setup = 1"
| "stage_rank Lure = 2"
| "stage_rank Exit = 3"

lemma stage_rank_inj: "stage_rank a = stage_rank b \<longleftrightarrow> a = b"
  by (cases a; cases b) simp_all

instantiation gas_stage :: linorder
begin

definition less_eq_gas_stage :: "gas_stage \<Rightarrow> gas_stage \<Rightarrow> bool" where
  "less_eq_gas_stage a b \<longleftrightarrow> stage_rank a \<le> stage_rank b"

definition less_gas_stage :: "gas_stage \<Rightarrow> gas_stage \<Rightarrow> bool" where
  "less_gas_stage a b \<longleftrightarrow> stage_rank a < stage_rank b"

instance
  by standard (auto simp: less_eq_gas_stage_def less_gas_stage_def simp flip: stage_rank_inj)

end

record gas_contribution =
  gc_tx_hash :: string
  gc_stage :: gas_stage
  gc_usd :: f64

datatype economic_contribution_kind =
  GrossSale | MarketplaceFee | RoyaltyFee | OperatorSaleProceeds | OperatorRoyalty |
  HonestSecondaryExposure | OperatorMintPayment | HonestMintExposure

record economic_contribution =
  ect_tx_hash :: string
  ect_token_id :: string
  ect_from :: string
  ect_to :: string
  ect_kind :: economic_contribution_kind
  ect_usd :: f64

record economic_facts =
  ef_gross_revenue_native :: f64
  ef_gross_revenue_usd :: f64
  ef_setup_gas_native :: f64
  ef_setup_gas_usd :: f64
  ef_lure_gas_native :: f64
  ef_lure_gas_usd :: f64
  ef_exit_gas_native :: f64
  ef_exit_gas_usd :: f64
  ef_total_gas_native :: f64
  ef_total_gas_usd :: f64
  ef_operator_output_native :: f64
  ef_operator_output_usd :: f64
  ef_marketplace_fee_native :: f64
  ef_marketplace_fee_usd :: f64
  ef_royalty_fee_native :: f64
  ef_royalty_fee_usd :: f64
  ef_operator_royalty_usd :: f64
  ef_output_input_ratio :: "f64 option"
  ef_output_input_ratio_is_usd :: bool
  ef_attacker_input_usd :: "f64 option"
  ef_secondary_sale_loss_native :: f64
  ef_secondary_sale_loss_usd :: f64
  ef_paid_mint_loss_native :: f64
  ef_paid_mint_loss_usd :: f64
  ef_honest_loss_native :: f64
  ef_honest_loss_usd :: f64
  ef_stuck_nft_count :: nat
  ef_funding_native :: f64
  ef_funding_usd :: f64
  ef_revenue_backflow_native :: f64
  ef_revenue_backflow_usd :: f64
  ef_withdrawal_native :: f64
  ef_withdrawal_usd :: f64
  ef_priced_value_flow_count :: nat
  ef_unpriced_value_flow_count :: nat
  ef_sale_count :: nat
  ef_priced_sale_count :: nat
  ef_unpriced_sale_count :: nat
  ef_amountless_sale_count :: nat
  ef_assumed_stablecoin_peg_sale_count :: nat
  ef_operator_sale_count :: nat
  ef_priced_operator_sale_proceeds_count :: nat
  ef_unpriced_operator_sale_proceeds_count :: nat
  ef_unknown_operator_sale_proceeds_count :: nat
  ef_unknown_royalty_recipient_count :: nat
  ef_paid_mint_payment_count :: nat
  ef_operator_paid_mint_payment_count :: nat
  ef_priced_operator_paid_mint_payment_count :: nat
  ef_unpriced_operator_paid_mint_payment_count :: nat
  ef_unknown_paid_mint_receiver_count :: nat
  ef_honest_paid_mint_loss_count :: nat
  ef_priced_honest_paid_mint_loss_count :: nat
  ef_unpriced_honest_paid_mint_loss_count :: nat
  ef_gas_cost_observed :: bool
  ef_gas_cost_priced :: bool
  ef_value_flow_contributions :: "value_flow_contribution list"
  ef_gas_contributions :: "gas_contribution list"
  ef_economic_contributions :: "economic_contribution list"

definition default_economic_facts :: economic_facts where
  "default_economic_facts =
     \<lparr>ef_gross_revenue_native = 0, ef_gross_revenue_usd = 0, ef_setup_gas_native = 0,
      ef_setup_gas_usd = 0, ef_lure_gas_native = 0, ef_lure_gas_usd = 0, ef_exit_gas_native = 0,
      ef_exit_gas_usd = 0, ef_total_gas_native = 0, ef_total_gas_usd = 0,
      ef_operator_output_native = 0, ef_operator_output_usd = 0, ef_marketplace_fee_native = 0,
      ef_marketplace_fee_usd = 0, ef_royalty_fee_native = 0, ef_royalty_fee_usd = 0,
      ef_operator_royalty_usd = 0, ef_output_input_ratio = None,
      ef_output_input_ratio_is_usd = False, ef_attacker_input_usd = None,
      ef_secondary_sale_loss_native = 0, ef_secondary_sale_loss_usd = 0,
      ef_paid_mint_loss_native = 0, ef_paid_mint_loss_usd = 0, ef_honest_loss_native = 0,
      ef_honest_loss_usd = 0, ef_stuck_nft_count = 0, ef_funding_native = 0, ef_funding_usd = 0,
      ef_revenue_backflow_native = 0, ef_revenue_backflow_usd = 0, ef_withdrawal_native = 0,
      ef_withdrawal_usd = 0, ef_priced_value_flow_count = 0, ef_unpriced_value_flow_count = 0,
      ef_sale_count = 0, ef_priced_sale_count = 0, ef_unpriced_sale_count = 0,
      ef_amountless_sale_count = 0, ef_assumed_stablecoin_peg_sale_count = 0,
      ef_operator_sale_count = 0, ef_priced_operator_sale_proceeds_count = 0,
      ef_unpriced_operator_sale_proceeds_count = 0, ef_unknown_operator_sale_proceeds_count = 0,
      ef_unknown_royalty_recipient_count = 0, ef_paid_mint_payment_count = 0,
      ef_operator_paid_mint_payment_count = 0, ef_priced_operator_paid_mint_payment_count = 0,
      ef_unpriced_operator_paid_mint_payment_count = 0, ef_unknown_paid_mint_receiver_count = 0,
      ef_honest_paid_mint_loss_count = 0, ef_priced_honest_paid_mint_loss_count = 0,
      ef_unpriced_honest_paid_mint_loss_count = 0, ef_gas_cost_observed = False,
      ef_gas_cost_priced = False, ef_value_flow_contributions = [], ef_gas_contributions = [],
      ef_economic_contributions = []\<rparr>"

record economics_quality =
  eq_gas :: evidence_status
  eq_value_flows :: evidence_status
  eq_notes :: "string list"

definition usable_status :: "evidence_status \<Rightarrow> bool" where
  "usable_status status \<longleftrightarrow> status \<in> {Complete, Truncated}"

definition value_flows_usable :: "evidence_status \<Rightarrow> bool" where
  "value_flows_usable = usable_status"

definition gas_usable :: "evidence_status \<Rightarrow> bool" where
  "gas_usable = usable_status"

section \<open>Prices\<close>

definition native_symbol :: "string \<Rightarrow> string \<Rightarrow> bool" where
  "native_symbol chain symbol =
     (let c = to_ascii_lowercase chain
      in if c = ''ethereum'' \<or> c = ''base'' then eq_ignore_ascii_case symbol ''ETH''
         else if c = ''polygon'' \<or> c = ''matic'' then
           eq_ignore_ascii_case symbol ''MATIC'' \<or> eq_ignore_ascii_case symbol ''POL''
         else if c = ''solana'' then eq_ignore_ascii_case symbol ''SOL''
         else False)"

definition spot_rate :: "string \<Rightarrow> price_bucket list \<Rightarrow> f64 option" where
  "spot_rate chain prices =
     opt_filter (\<lambda>v. is_finite v \<and> 0 < v)
       (map_option pb_usd_per_native
         (List.find (\<lambda>p. eq_ignore_ascii_case (pb_chain p) chain \<and> native_symbol chain (pb_symbol p) \<and>
            0 < pb_usd_per_native p) prices))"

definition is_usd_stablecoin :: "string \<Rightarrow> bool" where
  "is_usd_stablecoin symbol \<longleftrightarrow> to_ascii_uppercase (trim symbol) \<in>
     {''USDC'', ''USDC.E'', ''USDT'', ''USDT.E'', ''DAI'', ''USDS'', ''PYUSD'', ''FDUSD'', ''TUSD'',
      ''USDG'', ''USDE'', ''GUSD'', ''LUSD'', ''FRAX'', ''CRVUSD''}"

section \<open>State of the computation\<close>

text \<open>What the loops read, and the local variables they write.\<close>

record econ_context =
  ec_ev :: evidence_bundle
  ec_operators :: "string set"
  ec_honest_buyers :: "string set"
  ec_honest_holders :: "(string \<times> string) set"

record econ_state =
  es_facts :: economic_facts
  es_stuck :: "string set"
  es_gas_by_tx :: "(string \<times> gas_stage \<times> f64) list"
  es_gas_native_by_tx :: "(string \<times> f64) list"

definition econ_context_of :: "evidence_bundle \<Rightarrow> (string \<times> address_role) list \<Rightarrow> econ_context" where
  "econ_context_of ev roles =
     (let honest_buyers = addresses_with_role LikelyVictim roles
      in \<lparr>ec_ev = ev, ec_operators = addresses_with_role SuspectedOperator roles,
          ec_honest_buyers = honest_buyers,
          ec_honest_holders = set (List.map_filter (\<lambda>h.
            let owner = normalize_chain_address (eb_chain ev) (ho_owner h)
            in then_some (owner \<in> honest_buyers) (ho_token_id h, owner)) (filter holds (eb_holders ev)))\<rparr>)"

definition norm_in :: "econ_context \<Rightarrow> string \<Rightarrow> string" where
  "norm_in ctx address = normalize_chain_address (eb_chain (ec_ev ctx)) address"

definition contribute ::
  "string \<Rightarrow> string \<Rightarrow> string \<Rightarrow> string \<Rightarrow> economic_contribution_kind \<Rightarrow> f64 \<Rightarrow> economic_facts \<Rightarrow> economic_facts" where
  "contribute tx token from to kind usd f =
     f\<lparr>ef_economic_contributions := ef_economic_contributions f @
        [\<lparr>ect_tx_hash = tx, ect_token_id = token, ect_from = from, ect_to = to, ect_kind = kind, ect_usd = usd\<rparr>]\<rparr>"

text \<open>The stage and the gas of a transaction only grow: \<open>entry.max(stage)\<close>, \<open>entry.max(gas)\<close>.\<close>

definition raise_gas :: "string \<Rightarrow> gas_stage \<Rightarrow> f64 \<Rightarrow> econ_state \<Rightarrow> econ_state" where
  "raise_gas tx stage gas st =
     st\<lparr>es_gas_by_tx := entry_update ah_insert tx (stage, 0)
          (\<lambda>(s, g). (max s stage, f64_max g gas)) (es_gas_by_tx st)\<rparr>"

definition note_native_gas :: "string \<Rightarrow> f64 \<Rightarrow> econ_state \<Rightarrow> econ_state" where
  "note_native_gas tx gas st =
     st\<lparr>es_gas_native_by_tx := entry_update ah_insert tx 0 (\<lambda>g. f64_max g gas) (es_gas_native_by_tx st)\<rparr>"

text \<open>Gas that an operator paid: both values are present and the payer is an operator.\<close>

definition operator_gas :: "econ_context \<Rightarrow> f64 option \<Rightarrow> string option \<Rightarrow> f64 option" where
  "operator_gas ctx gas payer =
     (if \<not> gas_usable (q_gas (eb_quality (ec_ev ctx))) then None
      else case (opt_filter (\<lambda>v. 0 < v) gas, payer) of
             (Some g, Some p) \<Rightarrow> then_some (norm_in ctx p \<in> ec_operators ctx) g
           | _ \<Rightarrow> None)"

definition deployment_gas :: "econ_context \<Rightarrow> econ_state \<Rightarrow> econ_state" where
  "deployment_gas ctx st =
     (case eb_deployment (ec_ev ctx) of
        None \<Rightarrow> st
      | Some d \<Rightarrow>
          (case operator_gas ctx (dp_gas_native d) (dp_fee_payer d) of
             None \<Rightarrow> st
           | Some gas \<Rightarrow>
               st\<lparr>es_gas_native_by_tx := ah_insert (dp_tx_hash d) gas (es_gas_native_by_tx st),
                  es_gas_by_tx := ah_insert (dp_tx_hash d) (Setup, gas) (es_gas_by_tx st)\<rparr>))"

section \<open>Sales\<close>

definition quoted_price :: "econ_context \<Rightarrow> sale_event \<Rightarrow> price_bucket \<Rightarrow> bool" where
  "quoted_price ctx s p \<longleftrightarrow>
     (is_some_and (\<lambda>address. is_some_and (\<lambda>priced. norm_in ctx address = norm_in ctx priced)
          (pb_token_address p)) (sa_currency_address s) \<or>
      is_some_and (\<lambda>symbol. eq_ignore_ascii_case (pb_symbol p) symbol) (sa_currency_symbol s)) \<and>
     is_finite (pb_usd_per_native p) \<and> 0 < pb_usd_per_native p"

definition count_sale :: "econ_context \<Rightarrow> sale_event \<Rightarrow> economic_facts \<Rightarrow> economic_facts" where
  "count_sale ctx s f =
     (let f = f\<lparr>ef_sale_count := ef_sale_count f + 1\<rparr>
      in if is_some_and (\<lambda>v. 0 \<le> v) (sa_usd_amount s)
         then let f = f\<lparr>ef_priced_sale_count := ef_priced_sale_count f + 1\<rparr>
              in if is_some_and is_usd_stablecoin (sa_currency_symbol s) \<and>
                    \<not> (\<exists>p \<in> set (eb_prices (ec_ev ctx)). quoted_price ctx s p)
                 then f\<lparr>ef_assumed_stablecoin_peg_sale_count := ef_assumed_stablecoin_peg_sale_count f + 1\<rparr>
                 else f
         else if 0 < amount (sa_native_amount s)
         then f\<lparr>ef_unpriced_sale_count := ef_unpriced_sale_count f + 1\<rparr>
         else f\<lparr>ef_amountless_sale_count := ef_amountless_sale_count f + 1\<rparr>)"

definition sale_volumes :: "econ_context \<Rightarrow> sale_event \<Rightarrow> economic_facts \<Rightarrow> economic_facts" where
  "sale_volumes ctx s f =
     (let usd = amount (sa_usd_amount s);
          seller = norm_in ctx (sa_seller s); buyer = norm_in ctx (sa_buyer s);
          f = f\<lparr>ef_gross_revenue_native := ef_gross_revenue_native f + amount (sa_native_amount s),
                ef_gross_revenue_usd := ef_gross_revenue_usd f + usd,
                ef_marketplace_fee_native := ef_marketplace_fee_native f + amount (sa_marketplace_fee_native s),
                ef_marketplace_fee_usd := ef_marketplace_fee_usd f + amount (sa_marketplace_fee_usd s),
                ef_royalty_fee_native := ef_royalty_fee_native f + amount (sa_royalty_fee_native s),
                ef_royalty_fee_usd := ef_royalty_fee_usd f + amount (sa_royalty_fee_usd s)\<rparr>;
          f = (if 0 < usd then contribute (sa_tx_hash s) (sa_token_id s) buyer seller GrossSale usd f else f);
          f = (case opt_filter (\<lambda>v. 0 < v) (sa_marketplace_fee_usd s) of
                 None \<Rightarrow> f
               | Some fee \<Rightarrow> contribute (sa_tx_hash s) (sa_token_id s) buyer
                   (unwrap_or ''marketplace:unknown'' (map_option (\<lambda>m. ''marketplace:'' @ m) (sa_marketplace s)))
                   MarketplaceFee fee f)
      in case opt_filter (\<lambda>v. 0 < v) (sa_royalty_fee_usd s) of
           None \<Rightarrow> f
         | Some fee \<Rightarrow> contribute (sa_tx_hash s) (sa_token_id s) buyer
             (unwrap_or [] (map_option (norm_in ctx) (sa_royalty_recipient s))) RoyaltyFee fee f)"

definition operator_sale :: "econ_context \<Rightarrow> sale_event \<Rightarrow> economic_facts \<Rightarrow> economic_facts" where
  "operator_sale ctx s f =
     (let seller = norm_in ctx (sa_seller s); buyer = norm_in ctx (sa_buyer s)
      in if seller \<notin> ec_operators ctx then f
         else let f = f\<lparr>ef_operator_sale_count := ef_operator_sale_count f + 1\<rparr>
              in case opt_filter (\<lambda>v. 0 \<le> v) (sa_seller_proceeds_native s) of
                   None \<Rightarrow> f\<lparr>ef_unknown_operator_sale_proceeds_count := ef_unknown_operator_sale_proceeds_count f + 1\<rparr>
                 | Some native \<Rightarrow>
                     let f = f\<lparr>ef_operator_output_native := ef_operator_output_native f + native\<rparr>
                     in case opt_filter (\<lambda>v. 0 \<le> v) (sa_seller_proceeds_usd s) of
                          None \<Rightarrow> f\<lparr>ef_unpriced_operator_sale_proceeds_count :=
                                      ef_unpriced_operator_sale_proceeds_count f + 1\<rparr>
                        | Some usd \<Rightarrow>
                            let f = f\<lparr>ef_operator_output_usd := ef_operator_output_usd f + usd,
                                      ef_priced_operator_sale_proceeds_count :=
                                        ef_priced_operator_sale_proceeds_count f + 1\<rparr>
                            in if 0 < usd
                               then contribute (sa_tx_hash s) (sa_token_id s) buyer seller OperatorSaleProceeds usd f
                               else f)"

definition operator_royalty :: "econ_context \<Rightarrow> sale_event \<Rightarrow> economic_facts \<Rightarrow> economic_facts" where
  "operator_royalty ctx s f =
     (case opt_filter (\<lambda>v. 0 < v) (sa_royalty_fee_native s) of
        None \<Rightarrow> f
      | Some native \<Rightarrow>
          (case opt_filter (\<lambda>a. a \<noteq> []) (map_option (norm_in ctx) (sa_royalty_recipient s)) of
             None \<Rightarrow> f\<lparr>ef_unknown_royalty_recipient_count := ef_unknown_royalty_recipient_count f + 1\<rparr>
           | Some recipient \<Rightarrow>
               if recipient \<notin> ec_operators ctx then f
               else let f = f\<lparr>ef_operator_output_native := ef_operator_output_native f + native\<rparr>
                    in case opt_filter (\<lambda>v. 0 < v) (sa_royalty_fee_usd s) of
                         None \<Rightarrow> f
                       | Some usd \<Rightarrow>
                           contribute (sa_tx_hash s) (sa_token_id s) (norm_in ctx (sa_buyer s)) recipient
                             OperatorRoyalty usd
                             (f\<lparr>ef_operator_output_usd := ef_operator_output_usd f + usd,
                                ef_operator_royalty_usd := ef_operator_royalty_usd f + usd\<rparr>)))"

definition secondary_exposure :: "econ_context \<Rightarrow> sale_event \<Rightarrow> econ_state \<Rightarrow> econ_state" where
  "secondary_exposure ctx s st =
     (let native = amount (sa_native_amount s); usd = amount (sa_usd_amount s);
          seller = norm_in ctx (sa_seller s); buyer = norm_in ctx (sa_buyer s)
      in if buyer \<in> ec_honest_buyers ctx \<and> (sa_token_id s, buyer) \<in> ec_honest_holders ctx \<and>
            (0 < native \<or> 0 < usd)
         then let f = es_facts st;
                  f = f\<lparr>ef_secondary_sale_loss_native := ef_secondary_sale_loss_native f + native,
                        ef_secondary_sale_loss_usd := ef_secondary_sale_loss_usd f + usd,
                        ef_honest_loss_native := ef_honest_loss_native f + native,
                        ef_honest_loss_usd := ef_honest_loss_usd f + usd\<rparr>;
                  f = (if 0 < usd
                       then contribute (sa_tx_hash s) (sa_token_id s) buyer seller HonestSecondaryExposure usd f
                       else f)
              in st\<lparr>es_facts := f, es_stuck := insert (sa_token_id s) (es_stuck st)\<rparr>
         else st)"

definition sale_gas :: "econ_context \<Rightarrow> sale_event \<Rightarrow> econ_state \<Rightarrow> econ_state" where
  "sale_gas ctx s st =
     (case operator_gas ctx (sa_gas_native s) (sa_fee_payer s) of
        None \<Rightarrow> st
      | Some gas \<Rightarrow> raise_gas (sa_tx_hash s) Lure gas (note_native_gas (sa_tx_hash s) gas st))"

definition econ_sale :: "econ_context \<Rightarrow> sale_event \<Rightarrow> econ_state \<Rightarrow> econ_state" where
  "econ_sale ctx s st =
     (let st = st\<lparr>es_facts := operator_royalty ctx s (operator_sale ctx s (sale_volumes ctx s
            (count_sale ctx s (es_facts st))))\<rparr>
      in sale_gas ctx s (secondary_exposure ctx s st))"

section \<open>Transfers\<close>

definition receiver_is_operator :: "econ_context \<Rightarrow> transfer_event \<Rightarrow> bool" where
  "receiver_is_operator ctx t =
     is_some_and (\<lambda>raw. let receiver = norm_in ctx raw
         in receiver \<in> ec_operators ctx \<or> receiver = norm_in ctx (eb_address (ec_ev ctx)) \<or>
            (\<exists>c \<in> set (eb_controllers (ec_ev ctx)). receiver = norm_in ctx c)) (tr_mint_payment_receiver t)"

definition mint_receiver :: "econ_context \<Rightarrow> transfer_event \<Rightarrow> string" where
  "mint_receiver ctx t = unwrap_or [] (map_option (norm_in ctx) (tr_mint_payment_receiver t))"

definition operator_mint :: "econ_context \<Rightarrow> transfer_event \<Rightarrow> economic_facts \<Rightarrow> economic_facts" where
  "operator_mint ctx t f =
     (let native = amount (tr_mint_payment_native t); usd = amount (tr_mint_payment_usd t);
          recipient = norm_in ctx (tr_to t);
          f = f\<lparr>ef_paid_mint_payment_count := ef_paid_mint_payment_count f + 1\<rparr>
      in if tr_mint_payment_receiver t = None
         then f\<lparr>ef_unknown_paid_mint_receiver_count := ef_unknown_paid_mint_receiver_count f + 1\<rparr>
         else if receiver_is_operator ctx t
         then let f = f\<lparr>ef_operator_paid_mint_payment_count := ef_operator_paid_mint_payment_count f + 1,
                        ef_operator_output_native := ef_operator_output_native f + native\<rparr>
              in if tr_mint_payment_usd t \<noteq> None
                 then let f = f\<lparr>ef_priced_operator_paid_mint_payment_count :=
                                  ef_priced_operator_paid_mint_payment_count f + 1,
                                ef_operator_output_usd := ef_operator_output_usd f + usd\<rparr>
                      in if 0 < usd
                         then contribute (tr_tx_hash t) (tr_token_id t) recipient (mint_receiver ctx t)
                                OperatorMintPayment usd f
                         else f
                 else f\<lparr>ef_unpriced_operator_paid_mint_payment_count :=
                          ef_unpriced_operator_paid_mint_payment_count f + 1\<rparr>
         else f)"

definition mint_exposure :: "econ_context \<Rightarrow> transfer_event \<Rightarrow> econ_state \<Rightarrow> econ_state" where
  "mint_exposure ctx t st =
     (let native = amount (tr_mint_payment_native t); usd = amount (tr_mint_payment_usd t);
          recipient = norm_in ctx (tr_to t)
      in if recipient \<in> ec_honest_buyers ctx \<and> (tr_token_id t, recipient) \<in> ec_honest_holders ctx
         then let f = es_facts st;
                  f = f\<lparr>ef_honest_paid_mint_loss_count := ef_honest_paid_mint_loss_count f + 1\<rparr>;
                  f = (if tr_mint_payment_usd t \<noteq> None
                       then f\<lparr>ef_priced_honest_paid_mint_loss_count := ef_priced_honest_paid_mint_loss_count f + 1\<rparr>
                       else f\<lparr>ef_unpriced_honest_paid_mint_loss_count :=
                                ef_unpriced_honest_paid_mint_loss_count f + 1\<rparr>);
                  f = f\<lparr>ef_paid_mint_loss_native := ef_paid_mint_loss_native f + native,
                        ef_paid_mint_loss_usd := ef_paid_mint_loss_usd f + usd,
                        ef_honest_loss_native := ef_honest_loss_native f + native,
                        ef_honest_loss_usd := ef_honest_loss_usd f + usd\<rparr>;
                  f = (if 0 < usd
                       then contribute (tr_tx_hash t) (tr_token_id t) recipient (mint_receiver ctx t)
                              HonestMintExposure usd f
                       else f)
              in st\<lparr>es_facts := f, es_stuck := insert (tr_token_id t) (es_stuck st)\<rparr>
         else st)"

definition transfer_gas :: "econ_context \<Rightarrow> transfer_event \<Rightarrow> econ_state \<Rightarrow> econ_state" where
  "transfer_gas ctx t st =
     (let payer = unwrap_or (if tr_is_mint t then tr_to t else tr_from t) (tr_fee_payer t)
      in case operator_gas ctx (tr_gas_native t) (Some payer) of
           None \<Rightarrow> st
         | Some gas \<Rightarrow> raise_gas (tr_tx_hash t) Lure gas (note_native_gas (tr_tx_hash t) gas st))"

definition econ_transfer :: "econ_context \<Rightarrow> transfer_event \<Rightarrow> econ_state \<Rightarrow> econ_state" where
  "econ_transfer ctx t st =
     (let st = (if tr_is_mint t \<and> (0 < amount (tr_mint_payment_native t) \<or> 0 < amount (tr_mint_payment_usd t))
                then mint_exposure ctx t (st\<lparr>es_facts := operator_mint ctx t (es_facts st)\<rparr>)
                else st)
      in transfer_gas ctx t st)"

section \<open>Value flows\<close>

definition flow_native :: "value_flow_edge \<Rightarrow> f64" where
  "flow_native e = unwrap_or 0 (opt_filter (\<lambda>v. is_finite v \<and> 0 < v) (vf_native_amount e))"

definition flow_priced_usd :: "value_flow_edge \<Rightarrow> f64 option" where
  "flow_priced_usd e = opt_filter (\<lambda>v. is_finite v \<and> 0 \<le> v) (vf_usd_amount e)"

definition count_flow :: "econ_context \<Rightarrow> value_flow_edge \<Rightarrow> economic_facts \<Rightarrow> economic_facts" where
  "count_flow ctx e f =
     (let native = flow_native e; priced = flow_priced_usd e;
          f = (if priced \<noteq> None then f\<lparr>ef_priced_value_flow_count := ef_priced_value_flow_count f + 1\<rparr>
               else if 0 < native then f\<lparr>ef_unpriced_value_flow_count := ef_unpriced_value_flow_count f + 1\<rparr>
               else f)
      in if priced \<noteq> None \<or> 0 < native
         then f\<lparr>ef_value_flow_contributions := ef_value_flow_contributions f @
                 [\<lparr>vfc_tx_hash = vf_tx_hash e, vfc_event_id = vf_event_id e, vfc_from = norm_in ctx (vf_from e),
                   vfc_to = norm_in ctx (vf_to e), vfc_kind = vf_kind e, vfc_usd = priced\<rparr>]\<rparr>
         else f)"

definition flow_stage :: "value_flow_kind \<Rightarrow> gas_stage" where
  "flow_stage k =
     (case k of Funding \<Rightarrow> Setup | RevenueBackflow \<Rightarrow> Lure | Withdrawal \<Rightarrow> Exit | Cashout \<Rightarrow> Exit)"

definition flow_gas :: "econ_context \<Rightarrow> value_flow_edge \<Rightarrow> econ_state \<Rightarrow> econ_state" where
  "flow_gas ctx e st =
     (case operator_gas ctx (vf_gas_native e) (vf_fee_payer e) of
        None \<Rightarrow> st
      | Some gas \<Rightarrow> raise_gas (vf_tx_hash e) (flow_stage (vf_kind e)) gas st)"

text \<open>A funding edge resets the stage of a transaction whose gas is known.\<close>

definition reset_setup :: "string \<Rightarrow> f64 \<Rightarrow> econ_state \<Rightarrow> econ_state" where
  "reset_setup tx gas st =
     st\<lparr>es_gas_by_tx := entry_update ah_insert tx (Setup, 0) (\<lambda>(s, g). (Setup, f64_max g gas)) (es_gas_by_tx st)\<rparr>"

definition flow_kind :: "value_flow_edge \<Rightarrow> econ_state \<Rightarrow> econ_state" where
  "flow_kind e st =
     (let native = flow_native e; usd = unwrap_or 0 (flow_priced_usd e); f = es_facts st;
          gas = map_of (es_gas_native_by_tx st) (vf_tx_hash e)
      in case vf_kind e of
           Funding \<Rightarrow>
             let st = st\<lparr>es_facts := f\<lparr>ef_funding_native := ef_funding_native f + native,
                                       ef_funding_usd := ef_funding_usd f + usd\<rparr>\<rparr>
             in (case gas of None \<Rightarrow> st | Some g \<Rightarrow> reset_setup (vf_tx_hash e) g st)
         | RevenueBackflow \<Rightarrow>
             st\<lparr>es_facts := f\<lparr>ef_revenue_backflow_native := ef_revenue_backflow_native f + native,
                              ef_revenue_backflow_usd := ef_revenue_backflow_usd f + usd\<rparr>\<rparr>
         | _ \<Rightarrow>
             let st = st\<lparr>es_facts := f\<lparr>ef_withdrawal_native := ef_withdrawal_native f + native,
                                       ef_withdrawal_usd := ef_withdrawal_usd f + usd\<rparr>\<rparr>
             in (case gas of None \<Rightarrow> st | Some g \<Rightarrow> raise_gas (vf_tx_hash e) Exit g st))"

definition econ_flow :: "econ_context \<Rightarrow> value_flow_edge \<Rightarrow> econ_state \<Rightarrow> econ_state" where
  "econ_flow ctx e st = flow_kind e (flow_gas ctx e (st\<lparr>es_facts := count_flow ctx e (es_facts st)\<rparr>))"

section \<open>Totals\<close>

definition add_stage_gas :: "string \<times> gas_stage \<times> f64 \<Rightarrow> economic_facts \<Rightarrow> economic_facts" where
  "add_stage_gas = (\<lambda>(_, stage, gas) f.
     (let f = (case stage of
          Setup \<Rightarrow> f\<lparr>ef_setup_gas_native := ef_setup_gas_native f + gas\<rparr>
        | Lure \<Rightarrow> f\<lparr>ef_lure_gas_native := ef_lure_gas_native f + gas\<rparr>
        | Exit \<Rightarrow> f\<lparr>ef_exit_gas_native := ef_exit_gas_native f + gas\<rparr>)
      in f\<lparr>ef_total_gas_native := ef_total_gas_native f + gas\<rparr>))"

definition price_gas :: "f64 \<Rightarrow> (string \<times> gas_stage \<times> f64) list \<Rightarrow> economic_facts \<Rightarrow> economic_facts" where
  "price_gas rate gas_by_tx f =
     f\<lparr>ef_setup_gas_usd := ef_setup_gas_native f * rate,
       ef_lure_gas_usd := ef_lure_gas_native f * rate,
       ef_exit_gas_usd := ef_exit_gas_native f * rate,
       ef_total_gas_usd := ef_total_gas_native f * rate,
       ef_gas_contributions := map (\<lambda>(tx, stage, native).
         \<lparr>gc_tx_hash = tx, gc_stage = stage, gc_usd = native * rate\<rparr>) gas_by_tx\<rparr>"

definition operator_output_complete :: "economic_facts \<Rightarrow> bool" where
  "operator_output_complete f \<longleftrightarrow>
     ef_unknown_operator_sale_proceeds_count f = 0 \<and> ef_unpriced_operator_sale_proceeds_count f = 0 \<and>
     ef_unknown_royalty_recipient_count f = 0 \<and> ef_unknown_paid_mint_receiver_count f = 0 \<and>
     ef_unpriced_operator_paid_mint_payment_count f = 0"

definition finish_ratio :: "f64 option \<Rightarrow> economic_facts \<Rightarrow> economic_facts" where
  "finish_ratio rate f =
     (let gas_usd = opt_filter (\<lambda>_. rate \<noteq> None) (then_some (0 < ef_total_gas_native f) (ef_total_gas_usd f));
          ratio = map_option (\<lambda>input. ef_operator_output_usd f / input)
                    (opt_filter (\<lambda>input. 0 < input) (if operator_output_complete f then gas_usd else None))
      in f\<lparr>ef_gas_cost_observed := 0 < ef_total_gas_native f, ef_gas_cost_priced := gas_usd \<noteq> None,
           ef_attacker_input_usd := gas_usd, ef_output_input_ratio := ratio,
           ef_output_input_ratio_is_usd := ratio \<noteq> None\<rparr>)"

definition count_note :: "nat \<Rightarrow> string \<Rightarrow> string list" where
  "count_note n note = (if n > 0 then [decimal_digits n @ note] else [])"

definition initial_notes :: "evidence_bundle \<Rightarrow> string list" where
  "initial_notes ev =
     (if q_gas (eb_quality ev) \<in> {NotRequested, Failed}
      then [''gas evidence incomplete; Setup/Lure/Exit USD costs are unavailable''] else []) @
     (if q_value_flows (eb_quality ev) \<in> {NotRequested, Failed}
      then [''value_flows evidence incomplete; funding/withdrawal aggregates unavailable''] else [])"

definition final_notes :: "economic_facts \<Rightarrow> string list" where
  "final_notes f =
     count_note (ef_unpriced_sale_count f)
       '' sale(s) excluded from USD totals because payment-token pricing was unavailable'' @
     count_note (ef_amountless_sale_count f)
       '' sale(s) excluded from USD totals because no usable payment amount was available'' @
     count_note (ef_assumed_stablecoin_peg_sale_count f)
       '' sale(s) used a 1 USD stablecoin peg because a run-time quote was unavailable'' @
     count_note (ef_unpriced_honest_paid_mint_loss_count f)
       '' honest-buyer paid mint exposure event(s) excluded from USD totals because pricing was unavailable'' @
     count_note (ef_unpriced_value_flow_count f)
       '' value-flow edge(s) excluded from USD totals because run-time native pricing was unavailable'' @
     count_note (ef_unknown_operator_sale_proceeds_count f)
       '' operator sale(s) excluded from output because seller net proceeds were unavailable'' @
     count_note (ef_unknown_paid_mint_receiver_count f)
       '' paid mint payment(s) excluded from output because the receiver was unavailable''"

definition econ_loops :: "econ_context \<Rightarrow> econ_state" where
  "econ_loops ctx =
     (let ev = ec_ev ctx;
          st = deployment_gas ctx \<lparr>es_facts = default_economic_facts, es_stuck = {}, es_gas_by_tx = [],
                 es_gas_native_by_tx = []\<rparr>;
          st = fold (econ_sale ctx) (eb_sales ev) st;
          st = fold (econ_transfer ctx) (eb_transfers ev) st
      in if value_flows_usable (q_value_flows (eb_quality ev))
         then fold (econ_flow ctx) (eb_value_flows ev) st else st)"

definition sum_gas :: "(string \<times> gas_stage \<times> f64) list \<Rightarrow> econ_state \<Rightarrow> economic_facts" where
  "sum_gas gas_by_tx st =
     (fold add_stage_gas gas_by_tx (es_facts st))\<lparr>ef_stuck_nft_count := card (es_stuck st)\<rparr>"

definition price_stages ::
  "f64 option \<Rightarrow> (string \<times> gas_stage \<times> f64) list \<Rightarrow> economic_facts \<Rightarrow> economic_facts" where
  "price_stages rate gas_by_tx f = (case rate of None \<Rightarrow> f | Some r \<Rightarrow> price_gas r gas_by_tx f)"

type_synonym gas_order = "(string \<times> gas_stage \<times> f64) list \<Rightarrow> (string \<times> gas_stage \<times> f64) list"

definition compute_economics ::
  "gas_order \<Rightarrow> evidence_bundle \<Rightarrow> (string \<times> address_role) list \<Rightarrow> economic_facts \<times> economics_quality" where
  "compute_economics order ev roles =
     (let st = econ_loops (econ_context_of ev roles);
          gas_by_tx = order (es_gas_by_tx st);
          rate = spot_rate (eb_chain ev) (eb_prices ev);
          f = finish_ratio rate (price_stages rate gas_by_tx (sum_gas gas_by_tx st))
      in (f, \<lparr>eq_gas = q_gas (eb_quality ev), eq_value_flows = q_value_flows (eb_quality ev),
              eq_notes = initial_notes ev @ final_notes f\<rparr>))"

section \<open>Facts about the counters\<close>

definition counts_ok :: "economic_facts \<Rightarrow> bool" where
  "counts_ok f \<longleftrightarrow>
     ef_sale_count f = ef_priced_sale_count f + ef_unpriced_sale_count f + ef_amountless_sale_count f \<and>
     ef_assumed_stablecoin_peg_sale_count f \<le> ef_priced_sale_count f \<and>
     ef_operator_sale_count f = ef_priced_operator_sale_proceeds_count f +
       ef_unpriced_operator_sale_proceeds_count f + ef_unknown_operator_sale_proceeds_count f \<and>
     ef_operator_sale_count f \<le> ef_sale_count f \<and>
     ef_operator_paid_mint_payment_count f = ef_priced_operator_paid_mint_payment_count f +
       ef_unpriced_operator_paid_mint_payment_count f \<and>
     ef_operator_paid_mint_payment_count f + ef_unknown_paid_mint_receiver_count f \<le> ef_paid_mint_payment_count f \<and>
     ef_honest_paid_mint_loss_count f = ef_priced_honest_paid_mint_loss_count f +
       ef_unpriced_honest_paid_mint_loss_count f"

text \<open>Per sale the sale counter and at most one operator counter advance; the three stages after
  \<open>count_sale\<close> leave the sale counters alone.\<close>

lemma counts_sale:
  assumes "counts_ok f"
  shows "counts_ok (operator_royalty ctx s (operator_sale ctx s (sale_volumes ctx s (count_sale ctx s f))))"
proof -
  define f1 where "f1 = count_sale ctx s f"
  have "counts_ok f1 \<and> ef_operator_sale_count f1 < ef_sale_count f1"
    using assms by (auto simp: f1_def counts_ok_def count_sale_def Let_def)
  moreover define f2 where "f2 = sale_volumes ctx s f1"
  ultimately have "counts_ok f2 \<and> ef_operator_sale_count f2 < ef_sale_count f2"
    by (simp add: counts_ok_def sale_volumes_def contribute_def Let_def split: option.split)
  moreover define f3 where "f3 = operator_sale ctx s f2"
  ultimately have "counts_ok f3"
    by (simp add: counts_ok_def operator_sale_def contribute_def Let_def split: option.split)
  then show ?thesis
    unfolding f1_def [symmetric] f2_def [symmetric] f3_def [symmetric]
    by (simp add: counts_ok_def operator_royalty_def contribute_def Let_def split: option.split)
qed

lemma raise_gas_facts [simp]:
  "es_facts (raise_gas tx stage gas st) = es_facts st" "es_facts (note_native_gas tx gas st) = es_facts st"
  "es_facts (reset_setup tx gas st) = es_facts st"
  "es_stuck (raise_gas tx stage gas st) = es_stuck st" "es_stuck (note_native_gas tx gas st) = es_stuck st"
  "es_stuck (reset_setup tx gas st) = es_stuck st"
  by (simp_all add: raise_gas_def note_native_gas_def reset_setup_def)

lemma gas_facts [simp]:
  "es_facts (sale_gas ctx s st) = es_facts st" "es_facts (transfer_gas ctx t st) = es_facts st"
  "es_facts (flow_gas ctx e st) = es_facts st" "es_facts (deployment_gas ctx st) = es_facts st"
  "es_stuck (sale_gas ctx s st) = es_stuck st" "es_stuck (transfer_gas ctx t st) = es_stuck st"
  "es_stuck (flow_gas ctx e st) = es_stuck st" "es_stuck (deployment_gas ctx st) = es_stuck st"
  by (simp_all add: sale_gas_def transfer_gas_def flow_gas_def deployment_gas_def Let_def split: option.split)

lemma counts_secondary: "counts_ok (es_facts st) \<Longrightarrow> counts_ok (es_facts (secondary_exposure ctx s st))"
  by (simp add: counts_ok_def secondary_exposure_def contribute_def Let_def)

lemma counts_econ_sale:
  "counts_ok (es_facts st) \<Longrightarrow> counts_ok (es_facts (econ_sale ctx s st))"
  unfolding econ_sale_def Let_def gas_facts
  by (rule counts_secondary) (simp add: counts_sale)

lemma counts_operator_mint: "counts_ok f \<Longrightarrow> counts_ok (operator_mint ctx t f)"
  by (simp add: counts_ok_def operator_mint_def contribute_def Let_def)

lemma counts_mint_exposure: "counts_ok (es_facts st) \<Longrightarrow> counts_ok (es_facts (mint_exposure ctx t st))"
  by (simp add: counts_ok_def mint_exposure_def contribute_def Let_def)

lemma counts_econ_transfer:
  "counts_ok (es_facts st) \<Longrightarrow> counts_ok (es_facts (econ_transfer ctx t st))"
  by (simp add: econ_transfer_def counts_mint_exposure counts_operator_mint)

text \<open>Fields the counters do not depend on.\<close>

lemma counts_ok_updates [simp]:
  "counts_ok (f\<lparr>ef_funding_native := a, ef_funding_usd := b\<rparr>) = counts_ok f"
  "counts_ok (f\<lparr>ef_revenue_backflow_native := a, ef_revenue_backflow_usd := b\<rparr>) = counts_ok f"
  "counts_ok (f\<lparr>ef_withdrawal_native := a, ef_withdrawal_usd := b\<rparr>) = counts_ok f"
  "counts_ok (f\<lparr>ef_priced_value_flow_count := n\<rparr>) = counts_ok f"
  "counts_ok (f\<lparr>ef_unpriced_value_flow_count := n\<rparr>) = counts_ok f"
  "counts_ok (f\<lparr>ef_value_flow_contributions := cs\<rparr>) = counts_ok f"
  "counts_ok (f\<lparr>ef_setup_gas_native := a\<rparr>) = counts_ok f" "counts_ok (f\<lparr>ef_lure_gas_native := a\<rparr>) = counts_ok f"
  "counts_ok (f\<lparr>ef_exit_gas_native := a\<rparr>) = counts_ok f" "counts_ok (f\<lparr>ef_total_gas_native := a\<rparr>) = counts_ok f"
  "counts_ok (f\<lparr>ef_stuck_nft_count := n\<rparr>) = counts_ok f" "counts_ok (price_gas rate g f) = counts_ok f"
  "counts_ok (finish_ratio r f) = counts_ok f"
  by (simp_all add: counts_ok_def price_gas_def finish_ratio_def Let_def)

lemma counts_econ_flow: "counts_ok (es_facts st) \<Longrightarrow> counts_ok (es_facts (econ_flow ctx e st))"
proof -
  assume "counts_ok (es_facts st)"
  then have "counts_ok (count_flow ctx e (es_facts st))" by (simp add: count_flow_def Let_def)
  moreover have "counts_ok (es_facts (flow_kind e st')) = counts_ok (es_facts st')" for st'
    by (cases "vf_kind e"; cases "map_of (es_gas_native_by_tx st') (vf_tx_hash e)")
      (simp_all add: flow_kind_def Let_def)
  ultimately show ?thesis by (simp add: econ_flow_def)
qed

text \<open>Folding a step that keeps a property of the state.\<close>

lemma fold_invariant_state:
  "P st \<Longrightarrow> (\<And>x st. x \<in> set xs \<Longrightarrow> P st \<Longrightarrow> P (f x st)) \<Longrightarrow> P (fold f xs st)"
  by (induction xs arbitrary: st) auto

lemma econ_loops_invariant:
  assumes "P (deployment_gas ctx \<lparr>es_facts = default_economic_facts, es_stuck = {}, es_gas_by_tx = [], es_gas_native_by_tx = []\<rparr>)"
    and "\<And>s st. P st \<Longrightarrow> P (econ_sale ctx s st)" and "\<And>t st. P st \<Longrightarrow> P (econ_transfer ctx t st)"
    and "\<And>e st. P st \<Longrightarrow> P (econ_flow ctx e st)"
  shows "P (econ_loops ctx)"
proof -
  note fold = fold_invariant_state [where P = P]
  have "P (fold (econ_sale ctx) ss st)" "P (fold (econ_transfer ctx) ts st)" "P (fold (econ_flow ctx) es st)"
    if "P st" for ss ts es st
    by (rule fold [OF that], erule assms(2), rule fold [OF that], erule assms(3), rule fold [OF that], erule assms(4))
  then show ?thesis unfolding econ_loops_def Let_def using assms(1) by simp
qed

lemma counts_loops: "counts_ok (es_facts (econ_loops ctx))"
  by (rule econ_loops_invariant)
    (simp_all add: counts_econ_sale counts_econ_transfer counts_econ_flow, simp add: counts_ok_def default_economic_facts_def)

text \<open>The totals at the end: a projection the gas loop does not touch.\<close>

lemma fold_keep: "(\<And>x f. h (step x f) = h f) \<Longrightarrow> h (fold step xs f) = h f"
  by (induction xs arbitrary: f) simp_all

lemma counts_stage_gas: "counts_ok (fold add_stage_gas xs f) = counts_ok f"
  by (rule fold_keep) (simp add: add_stage_gas_def Let_def split: prod.split gas_stage.split)

lemma compute_counts: "counts_ok (fst (compute_economics order ev roles))"
  by (simp add: compute_economics_def Let_def price_stages_def sum_gas_def counts_stage_gas counts_loops
      split: option.split)

lemma sale_count_loops: "ef_sale_count (es_facts (econ_loops ctx)) = length (eb_sales (ec_ev ctx))"
proof -
  have sale: "ef_sale_count (es_facts (econ_sale ctx s st)) = ef_sale_count (es_facts st) + 1" for s st
  proof -
    have "ef_sale_count (count_sale ctx s f) = ef_sale_count f + 1" for f by (simp add: count_sale_def Let_def)
    moreover have "ef_sale_count (sale_volumes ctx s f) = ef_sale_count f" for f
      by (simp add: sale_volumes_def contribute_def Let_def split: option.split)
    moreover have "ef_sale_count (operator_sale ctx s f) = ef_sale_count f" for f
      by (simp add: operator_sale_def contribute_def Let_def split: option.split)
    moreover have "ef_sale_count (operator_royalty ctx s f) = ef_sale_count f" for f
      by (simp add: operator_royalty_def contribute_def Let_def split: option.split)
    moreover have "ef_sale_count (es_facts (secondary_exposure ctx s st)) = ef_sale_count (es_facts st)" for st
      by (simp add: secondary_exposure_def contribute_def Let_def)
    ultimately show ?thesis by (simp add: econ_sale_def Let_def)
  qed
  have sales: "ef_sale_count (es_facts (fold (econ_sale ctx) ss st)) = ef_sale_count (es_facts st) + length ss" for ss st
    by (induction ss arbitrary: st) (simp_all add: sale)
  have "ef_sale_count (es_facts (econ_transfer ctx t st)) = ef_sale_count (es_facts st)" for t st
    by (simp add: econ_transfer_def mint_exposure_def operator_mint_def contribute_def Let_def)
  moreover have "ef_sale_count (es_facts (econ_flow ctx e st)) = ef_sale_count (es_facts st)" for e st
    by (cases "vf_kind e"; cases "map_of (es_gas_native_by_tx (flow_gas ctx e (st\<lparr>es_facts := count_flow ctx e (es_facts st)\<rparr>))) (vf_tx_hash e)")
      (simp_all add: econ_flow_def flow_kind_def count_flow_def Let_def)
  ultimately show ?thesis
    by (simp add: econ_loops_def Let_def sales fold_keep [where h = "\<lambda>st. ef_sale_count (es_facts st)"]
        default_economic_facts_def)
qed

text \<open>C7. The counters of the economics: every sale is priced, unpriced or without an amount;
  every operator sale has priced, unpriced or unknown proceeds; every mint payment to an operator
  and every exposed mint is priced or unpriced; and the pegged sales are priced ones.\<close>

theorem compute_economics_counts:
  "(let f = fst (compute_economics order ev roles) in
     ef_sale_count f = length (eb_sales ev) \<and>
     ef_sale_count f = ef_priced_sale_count f + ef_unpriced_sale_count f + ef_amountless_sale_count f \<and>
     ef_assumed_stablecoin_peg_sale_count f \<le> ef_priced_sale_count f \<and>
     ef_operator_sale_count f = ef_priced_operator_sale_proceeds_count f +
       ef_unpriced_operator_sale_proceeds_count f + ef_unknown_operator_sale_proceeds_count f \<and>
     ef_operator_sale_count f \<le> ef_sale_count f \<and>
     ef_operator_paid_mint_payment_count f = ef_priced_operator_paid_mint_payment_count f +
       ef_unpriced_operator_paid_mint_payment_count f \<and>
     ef_operator_paid_mint_payment_count f + ef_unknown_paid_mint_receiver_count f \<le> ef_paid_mint_payment_count f \<and>
     ef_honest_paid_mint_loss_count f = ef_priced_honest_paid_mint_loss_count f +
       ef_unpriced_honest_paid_mint_loss_count f)"
proof -
  have "ef_sale_count (fold add_stage_gas xs f) = ef_sale_count f" for xs f
    by (rule fold_keep) (simp add: add_stage_gas_def Let_def split: prod.split gas_stage.split)
  then have "ef_sale_count (fst (compute_economics order ev roles)) = length (eb_sales ev)"
    by (simp add: compute_economics_def Let_def finish_ratio_def price_stages_def price_gas_def sum_gas_def
        sale_count_loops econ_context_of_def split: option.split)
  then show ?thesis using compute_counts [of order ev roles] unfolding counts_ok_def Let_def by blast
qed

section \<open>Facts about the ratio\<close>

lemma finish_ratio_fields:
  "ef_operator_output_usd (finish_ratio rate f) = ef_operator_output_usd f"
  "ef_total_gas_native (finish_ratio rate f) = ef_total_gas_native f"
  "operator_output_complete (finish_ratio rate f) = operator_output_complete f"
  by (simp_all add: finish_ratio_def operator_output_complete_def Let_def)

text \<open>The output/input ratio is defined exactly when the operator output is complete, the chain
  has a spot rate, and gas was observed whose price is positive; it is then the operator output
  over that price, both in USD.\<close>

theorem compute_economics_ratio:
  "(let f = fst (compute_economics order ev roles) in
     ef_output_input_ratio f = Some q \<longleftrightarrow>
       operator_output_complete f \<and>
       (\<exists>rate. spot_rate (eb_chain ev) (eb_prices ev) = Some rate \<and> 0 < ef_total_gas_native f \<and>
          0 < ef_total_gas_native f * rate \<and>
          q = ef_operator_output_usd f / (ef_total_gas_native f * rate)))"
proof -
  define f0 where "f0 = price_stages (spot_rate (eb_chain ev) (eb_prices ev))
    (order (es_gas_by_tx (econ_loops (econ_context_of ev roles))))
    (sum_gas (order (es_gas_by_tx (econ_loops (econ_context_of ev roles)))) (econ_loops (econ_context_of ev roles)))"
  have f0: "fst (compute_economics order ev roles) = finish_ratio (spot_rate (eb_chain ev) (eb_prices ev)) f0"
    by (simp add: compute_economics_def Let_def f0_def)
  have usd: "ef_total_gas_usd f0 = ef_total_gas_native f0 * rate"
    if "spot_rate (eb_chain ev) (eb_prices ev) = Some rate" for rate
    by (simp add: f0_def price_stages_def that price_gas_def)
  show ?thesis
    unfolding f0 Let_def finish_ratio_fields
    by (cases "spot_rate (eb_chain ev) (eb_prices ev)")
      (auto simp: finish_ratio_def Let_def opt_filter_def then_some_def usd)
qed

section \<open>Facts about the gas\<close>

definition gas_inv :: "econ_state \<Rightarrow> bool" where
  "gas_inv st \<longleftrightarrow> ah_distinct (es_gas_by_tx st) \<and>
     (\<forall>p \<in> set (es_gas_by_tx st). 0 < snd (snd p)) \<and> (\<forall>p \<in> set (es_gas_native_by_tx st). 0 < snd p)"

lemma entries_ah_insert: "\<forall>p \<in> set m. Q (snd p) \<Longrightarrow> Q v \<Longrightarrow> \<forall>p \<in> set (ah_insert k v m). Q (snd p)"
  by (induction k v m rule: ah_insert.induct) auto

lemma f64_max_pos: "0 < y \<Longrightarrow> 0 < f64_max x y" for x y :: f64
  by (cases x; cases y) (auto simp: f64_max_def f64_ops)

lemma gas_inv_entry:
  assumes "gas_inv st" and "\<And>p. 0 < snd (u p)"
  shows "gas_inv (st\<lparr>es_gas_by_tx := entry_update ah_insert tx d u (es_gas_by_tx st)\<rparr>)"
proof -
  have "\<forall>p \<in> set (entry_update ah_insert tx d u (es_gas_by_tx st)). 0 < snd (snd p)"
    unfolding entry_update_def
    by (rule entries_ah_insert) (use assms in \<open>simp_all add: gas_inv_def\<close>)
  then show ?thesis using assms(1) by (simp add: gas_inv_def entry_update_def ah_distinct_insert)
qed

lemma gas_inv_raise: "gas_inv st \<Longrightarrow> 0 < gas \<Longrightarrow> gas_inv (raise_gas tx stage gas st)"
  unfolding raise_gas_def by (rule gas_inv_entry) (auto simp: f64_max_pos split: prod.split)

lemma gas_inv_reset: "gas_inv st \<Longrightarrow> 0 < gas \<Longrightarrow> gas_inv (reset_setup tx gas st)"
  unfolding reset_setup_def by (rule gas_inv_entry) (auto simp: f64_max_pos split: prod.split)

lemma gas_inv_native: "gas_inv st \<Longrightarrow> 0 < gas \<Longrightarrow> gas_inv (note_native_gas tx gas st)"
proof -
  assume st: "gas_inv st" and gas: "0 < gas"
  have "\<forall>p \<in> set (entry_update ah_insert tx 0 (\<lambda>g. f64_max g gas) (es_gas_native_by_tx st)). 0 < snd p"
    unfolding entry_update_def
    by (rule entries_ah_insert) (use st gas f64_max_pos in \<open>simp_all add: gas_inv_def\<close>)
  then show ?thesis using st by (simp add: gas_inv_def note_native_gas_def)
qed

lemma gas_inv_facts [simp]: "gas_inv (st\<lparr>es_facts := f\<rparr>) = gas_inv st" "gas_inv (st\<lparr>es_facts := f, es_stuck := S\<rparr>) = gas_inv st"
  by (simp_all add: gas_inv_def)

lemma operator_gas_pos: "operator_gas ctx gas payer = Some g \<Longrightarrow> 0 < g"
  by (auto simp: operator_gas_def opt_filter_def split: if_splits option.splits)

lemma gas_inv_flow_kind: "gas_inv st \<Longrightarrow> gas_inv (flow_kind e st)"
proof -
  assume inv: "gas_inv st"
  have "0 < g" if "map_of (es_gas_native_by_tx st) tx = Some g" for tx g
    using inv map_of_SomeD [OF that] by (auto simp: gas_inv_def)
  then show ?thesis
    using inv by (cases "vf_kind e"; cases "map_of (es_gas_native_by_tx st) (vf_tx_hash e)")
      (auto simp: flow_kind_def Let_def intro!: gas_inv_raise gas_inv_reset)
qed

lemma gas_inv_loops: "gas_inv (econ_loops ctx)"
proof (rule econ_loops_invariant)
  show "gas_inv (deployment_gas ctx \<lparr>es_facts = default_economic_facts, es_stuck = {}, es_gas_by_tx = [], es_gas_native_by_tx = []\<rparr>)"
    by (simp add: deployment_gas_def gas_inv_def ah_distinct_def operator_gas_pos split: option.split)
  fix st assume inv: "gas_inv st"
  show "gas_inv (econ_sale ctx s st)" for s
    using inv by (auto simp: econ_sale_def secondary_exposure_def sale_gas_def Let_def dest: operator_gas_pos
        intro!: gas_inv_raise gas_inv_native split: option.split)
  show "gas_inv (econ_transfer ctx t st)" for t
    using inv by (auto simp: econ_transfer_def mint_exposure_def transfer_gas_def Let_def dest: operator_gas_pos
        intro!: gas_inv_raise gas_inv_native split: option.split)
  show "gas_inv (econ_flow ctx e st)" for e
    using inv by (auto simp: econ_flow_def flow_gas_def dest: operator_gas_pos
        intro!: gas_inv_flow_kind gas_inv_raise split: option.split)
qed

text \<open>The payments of gas by operators, in the order of the loops: transaction and amount.\<close>

definition deployment_payments :: "econ_context \<Rightarrow> (string \<times> f64) list" where
  "deployment_payments ctx =
     (case eb_deployment (ec_ev ctx) of
        None \<Rightarrow> []
      | Some d \<Rightarrow> map (Pair (dp_tx_hash d)) (case operator_gas ctx (dp_gas_native d) (dp_fee_payer d) of None \<Rightarrow> [] | Some g \<Rightarrow> [g]))"

definition sale_payment :: "econ_context \<Rightarrow> sale_event \<Rightarrow> (string \<times> f64) option" where
  "sale_payment ctx s = map_option (Pair (sa_tx_hash s)) (operator_gas ctx (sa_gas_native s) (sa_fee_payer s))"

definition transfer_payment :: "econ_context \<Rightarrow> transfer_event \<Rightarrow> (string \<times> f64) option" where
  "transfer_payment ctx t = map_option (Pair (tr_tx_hash t))
     (operator_gas ctx (tr_gas_native t) (Some (unwrap_or (if tr_is_mint t then tr_to t else tr_from t) (tr_fee_payer t))))"

definition flow_payment :: "econ_context \<Rightarrow> value_flow_edge \<Rightarrow> (string \<times> f64) option" where
  "flow_payment ctx e = map_option (Pair (vf_tx_hash e)) (operator_gas ctx (vf_gas_native e) (vf_fee_payer e))"

definition gas_payments :: "econ_context \<Rightarrow> (string \<times> f64) list" where
  "gas_payments ctx =
     deployment_payments ctx @ List.map_filter (sale_payment ctx) (eb_sales (ec_ev ctx)) @
     List.map_filter (transfer_payment ctx) (eb_transfers (ec_ev ctx)) @
     (if value_flows_usable (q_value_flows (eb_quality (ec_ev ctx)))
      then List.map_filter (flow_payment ctx) (eb_value_flows (ec_ev ctx)) else [])"

text \<open>After the payments \<open>P\<close>: each transaction is charged its largest payment.\<close>

definition charged :: "(string \<times> f64) set \<Rightarrow> econ_state \<Rightarrow> bool" where
  "charged P st \<longleftrightarrow>
     (\<forall>(tx, g) \<in> P. 0 < g \<and> (\<exists>stage g'. map_of (es_gas_by_tx st) tx = Some (stage, g') \<and> g \<le> g')) \<and>
     (\<forall>tx stage g. map_of (es_gas_by_tx st) tx = Some (stage, g) \<longrightarrow> (tx, g) \<in> P) \<and>
     (\<forall>tx g. map_of (es_gas_native_by_tx st) tx = Some g \<longrightarrow> (tx, g) \<in> P)"

lemma charged_below: "charged P st \<Longrightarrow> (tx, g) \<in> P \<Longrightarrow> \<exists>stage g'. map_of (es_gas_by_tx st) tx = Some (stage, g') \<and> g \<le> g'"
  unfolding charged_def by (drule conjunct1) (drule bspec, assumption, simp)

lemma f64_max_cases:
  fixes x y :: f64
  assumes "0 \<le> x" "0 < y"
  shows "x \<le> f64_max x y" "y \<le> f64_max x y" "f64_max x y = x \<and> y \<le> x \<or> f64_max x y = y"
  using assms by (cases x; cases y; auto simp: f64_max_def f64_ops)+

lemma f64_pos_le_self: "0 < x \<Longrightarrow> x \<le> x" for x :: f64
  by (cases x) (auto simp: f64_ops)

lemma charged_entry:
  assumes st: "charged P st" and gas: "0 < gas" and d: "snd d = 0" and u: "\<And>p. snd (u p) = f64_max (snd p) gas"
  shows "charged (insert (tx, gas) P) (st\<lparr>es_gas_by_tx := entry_update ah_insert tx d u (es_gas_by_tx st)\<rparr>)"
proof -
  let ?old = "unwrap_or d (map_of (es_gas_by_tx st) tx)"
  have old: "0 \<le> snd ?old" "map_of (es_gas_by_tx st) tx = Some (s, g) \<Longrightarrow> (tx, g) \<in> P \<and> 0 < g" for s g
    using st d by (cases "map_of (es_gas_by_tx st) tx"; force simp: charged_def f64_pos_nonneg)+
  have new: "map_of (entry_update ah_insert tx d u (es_gas_by_tx st)) k = (if k = tx then Some (u ?old) else map_of (es_gas_by_tx st) k)" for k
    by (simp add: entry_update_def hashm.lookup_ins)
  have amount: "snd (u ?old) = f64_max (snd ?old) gas" by (rule u)
  note max = f64_max_cases [OF old(1) gas]
  have from_P: "(tx, snd (u ?old)) \<in> insert (tx, gas) P"
  proof (cases "map_of (es_gas_by_tx st) tx")
    case None
    then have "f64_max (snd ?old) gas = gas" using max(3) gas d by (auto simp: f64_le_iff)
    then show ?thesis using amount by simp
  next
    case (Some p)
    then show ?thesis using max(3) amount old(2) by (cases p) auto
  qed
  have above: "g \<le> snd (u ?old)" if member: "(tx, g) \<in> P" for g
  proof -
    obtain s g' where "map_of (es_gas_by_tx st) tx = Some (s, g')" "g \<le> g'" using charged_below [OF st member] by blast
    then show ?thesis using max(1) amount f64_le_trans [of g g'] by simp
  qed
  show ?thesis
    unfolding charged_def
  proof (intro conjI allI impI ballI)
    fix p assume p: "p \<in> insert (tx, gas) P"
    obtain k g where kg: "p = (k, g)" by fastforce
    have "\<exists>stage g'. map_of (entry_update ah_insert tx d u (es_gas_by_tx st)) k = Some (stage, g') \<and> g \<le> g'"
    proof (cases "k = tx")
      case True
      have "g \<le> snd (u ?old)" using p above max(2) amount by (auto simp: kg True)
      then show ?thesis using new True by (intro exI [of _ "fst (u ?old)"] exI [of _ "snd (u ?old)"]) simp
    next
      case False
      then show ?thesis using p st new by (auto simp: kg charged_def)
    qed
    moreover have "0 < g" using p gas st by (auto simp: kg charged_def)
    ultimately show "case p of (tx', g) \<Rightarrow> 0 < g \<and> (\<exists>stage g'. map_of (es_gas_by_tx
        (st\<lparr>es_gas_by_tx := entry_update ah_insert tx d u (es_gas_by_tx st)\<rparr>)) tx' = Some (stage, g') \<and> g \<le> g')"
      by (simp add: kg)
  next
    fix k stage g
    assume "map_of (es_gas_by_tx (st\<lparr>es_gas_by_tx := entry_update ah_insert tx d u (es_gas_by_tx st)\<rparr>)) k = Some (stage, g)"
    then show "(k, g) \<in> insert (tx, gas) P"
      using from_P st new by (cases "k = tx") (auto simp: charged_def)
  next
    fix k g
    assume "map_of (es_gas_native_by_tx (st\<lparr>es_gas_by_tx := entry_update ah_insert tx d u (es_gas_by_tx st)\<rparr>)) k = Some g"
    then show "(k, g) \<in> insert (tx, gas) P" using st by (simp add: charged_def)
  qed
qed

lemma charged_raise: "charged P st \<Longrightarrow> 0 < gas \<Longrightarrow> charged (insert (tx, gas) P) (raise_gas tx stage gas st)"
  unfolding raise_gas_def by (rule charged_entry) (auto split: prod.split)

lemma charged_reset: "charged P st \<Longrightarrow> 0 < gas \<Longrightarrow> charged (insert (tx, gas) P) (reset_setup tx gas st)"
  unfolding reset_setup_def by (rule charged_entry) (auto split: prod.split)

lemma charged_facts [simp]: "charged P (st\<lparr>es_facts := f\<rparr>) = charged P st" "charged P (st\<lparr>es_facts := f, es_stuck := S\<rparr>) = charged P st"
  by (simp_all add: charged_def)

text \<open>The native gas of a transaction is noted just before it is charged.\<close>

lemma charged_native:
  assumes st: "charged P st" and gas: "0 < gas"
  shows "charged (insert (tx, gas) P) (raise_gas tx stage gas (note_native_gas tx gas st))"
proof -
  let ?old = "unwrap_or 0 (map_of (es_gas_native_by_tx st) tx)"
  have old: "map_of (es_gas_native_by_tx st) tx = Some g \<Longrightarrow> (tx, g) \<in> P \<and> 0 < g" for g
    using st by (force simp: charged_def)
  then have "0 \<le> ?old" by (cases "map_of (es_gas_native_by_tx st) tx") (simp_all add: f64_pos_nonneg)
  note max = f64_max_cases [OF this gas]
  have member: "(tx, f64_max ?old gas) \<in> insert (tx, gas) P"
  proof (cases "map_of (es_gas_native_by_tx st) tx")
    case None
    then show ?thesis using max(3) gas by (auto simp: f64_le_iff)
  next
    case (Some g)
    then show ?thesis using max(3) old by auto
  qed
  have native: "es_gas_native_by_tx (raise_gas tx stage gas (note_native_gas tx gas st)) = ah_insert tx (f64_max ?old gas) (es_gas_native_by_tx st)"
    by (simp add: raise_gas_def note_native_gas_def entry_update_def)
  have same: "es_gas_by_tx (raise_gas tx stage gas (note_native_gas tx gas st)) = es_gas_by_tx (raise_gas tx stage gas st)"
    by (simp add: raise_gas_def note_native_gas_def)
  show ?thesis
    using charged_raise [OF st gas, of tx stage] member unfolding charged_def native same
    by (auto simp: hashm.lookup_ins raise_gas_def split: if_splits)
qed

lemma charged_sale: "charged P st \<Longrightarrow> charged (P \<union> set_option (sale_payment ctx s)) (econ_sale ctx s st)"
  by (auto simp: econ_sale_def secondary_exposure_def sale_gas_def sale_payment_def Let_def dest: operator_gas_pos
      intro!: charged_native split: option.split)

lemma charged_transfer: "charged P st \<Longrightarrow> charged (P \<union> set_option (transfer_payment ctx t)) (econ_transfer ctx t st)"
  by (auto simp: econ_transfer_def mint_exposure_def transfer_gas_def transfer_payment_def Let_def dest: operator_gas_pos
      intro!: charged_native split: option.split)

lemma charged_flow_kind:
  assumes st: "charged P st"
  shows "charged P (flow_kind e st)"
proof -
  have known: "insert (tx, g) P = P" "0 < g" if "map_of (es_gas_native_by_tx st) tx = Some g" for tx g
    using st that by (force simp: charged_def)+
  have kept: "charged P (raise_gas tx stage g st)" "charged P (reset_setup tx g st)"
    if "map_of (es_gas_native_by_tx st) tx = Some g" for tx g stage
    using charged_raise [OF st known(2) [OF that], of tx stage] charged_reset [OF st known(2) [OF that], of tx]
    by (simp_all add: known(1) [OF that])
  have "raise_gas tx stage g (st\<lparr>es_facts := f\<rparr>) = (raise_gas tx stage g st)\<lparr>es_facts := f\<rparr>"
    "reset_setup tx g (st\<lparr>es_facts := f\<rparr>) = (reset_setup tx g st)\<lparr>es_facts := f\<rparr>" for tx stage g f
    by (simp_all add: raise_gas_def reset_setup_def)
  then show ?thesis
    using st kept by (cases "vf_kind e"; cases "map_of (es_gas_native_by_tx st) (vf_tx_hash e)") (auto simp: flow_kind_def Let_def)
qed

lemma charged_flow: "charged P st \<Longrightarrow> charged (P \<union> set_option (flow_payment ctx e)) (econ_flow ctx e st)"
  unfolding econ_flow_def
  by (rule charged_flow_kind) (auto simp: flow_gas_def flow_payment_def dest: operator_gas_pos intro!: charged_raise split: option.split)

lemma charged_fold:
  assumes "\<And>P x st. charged P st \<Longrightarrow> charged (P \<union> set_option (pay x)) (step x st)" "charged P st"
  shows "charged (P \<union> set (List.map_filter pay xs)) (fold step xs st)"
  using assms(2)
proof (induction xs arbitrary: P st)
  case (Cons x xs)
  have "P \<union> set (List.map_filter pay (x # xs)) = (P \<union> set_option (pay x)) \<union> set (List.map_filter pay xs)"
    by (auto simp: List.map_filter_simps split: option.splits)
  then show ?case using Cons.IH [OF assms(1) [OF Cons.prems, of x]] by simp
qed (simp add: List.map_filter_simps)

lemma charged_loops: "charged (set (gas_payments ctx)) (econ_loops ctx)"
proof -
  have "charged (set (deployment_payments ctx))
      (deployment_gas ctx \<lparr>es_facts = default_economic_facts, es_stuck = {}, es_gas_by_tx = [], es_gas_native_by_tx = []\<rparr>)"
    by (auto simp: charged_def deployment_gas_def deployment_payments_def dest!: operator_gas_pos intro: f64_pos_le_self split: option.splits)
  note sales = charged_fold [where pay = "sale_payment ctx" and xs = "eb_sales (ec_ev ctx)", OF charged_sale this]
  note transfers = charged_fold [where pay = "transfer_payment ctx" and xs = "eb_transfers (ec_ev ctx)", OF charged_transfer sales]
  note flows = charged_fold [where pay = "flow_payment ctx" and xs = "eb_value_flows (ec_ev ctx)", OF charged_flow transfers]
  show ?thesis
    using transfers flows unfolding econ_loops_def Let_def gas_payments_def by (simp add: Un_assoc)
qed

text \<open>The loops leave the gas totals at 0; they are filled at the end.\<close>

definition no_gas_totals :: "economic_facts \<Rightarrow> bool" where
  "no_gas_totals f \<longleftrightarrow> ef_gas_contributions f = [] \<and> ef_setup_gas_native f = 0 \<and> ef_lure_gas_native f = 0 \<and>
     ef_exit_gas_native f = 0 \<and> ef_total_gas_native f = 0"

lemma econ_loops_no_gas: "no_gas_totals (es_facts (econ_loops ctx))"
proof (rule econ_loops_invariant)
  fix st :: econ_state assume st: "no_gas_totals (es_facts st)"
  have "no_gas_totals (count_sale ctx s f) = no_gas_totals f"
    "no_gas_totals (sale_volumes ctx s f) = no_gas_totals f"
    "no_gas_totals (operator_sale ctx s f) = no_gas_totals f"
    "no_gas_totals (operator_royalty ctx s f) = no_gas_totals f" for s f
    by (simp_all add: count_sale_def sale_volumes_def operator_sale_def operator_royalty_def contribute_def Let_def
        no_gas_totals_def split: option.split)
  then show "no_gas_totals (es_facts (econ_sale ctx s st))" for s
    using st by (simp add: econ_sale_def secondary_exposure_def contribute_def Let_def no_gas_totals_def)
  show "no_gas_totals (es_facts (econ_transfer ctx t st))" for t
    using st by (simp add: econ_transfer_def mint_exposure_def operator_mint_def contribute_def Let_def no_gas_totals_def)
  have "no_gas_totals (es_facts (flow_kind e st')) = no_gas_totals (es_facts st')" for e st'
    by (cases "vf_kind e"; cases "map_of (es_gas_native_by_tx st') (vf_tx_hash e)") (simp_all add: flow_kind_def Let_def no_gas_totals_def)
  then show "no_gas_totals (es_facts (econ_flow ctx e st))" for e
    using st by (simp add: econ_flow_def count_flow_def Let_def no_gas_totals_def)
qed (simp add: default_economic_facts_def no_gas_totals_def)

definition stage_total :: "gas_stage option \<Rightarrow> (string \<times> gas_stage \<times> f64) list \<Rightarrow> f64" where
  "stage_total stage entries = fold (\<lambda>(_, s, g) v. if stage = None \<or> stage = Some s then v + g else v) entries 0"

lemma fold_stage_gas:
  "ef_setup_gas_native (fold add_stage_gas gas f) =
     fold (\<lambda>(_, s, g) v. if s = Setup then v + g else v) gas (ef_setup_gas_native f)"
  "ef_lure_gas_native (fold add_stage_gas gas f) =
     fold (\<lambda>(_, s, g) v. if s = Lure then v + g else v) gas (ef_lure_gas_native f)"
  "ef_exit_gas_native (fold add_stage_gas gas f) =
     fold (\<lambda>(_, s, g) v. if s = Exit then v + g else v) gas (ef_exit_gas_native f)"
  "ef_total_gas_native (fold add_stage_gas gas f) = fold (\<lambda>(_, _, g) v. v + g) gas (ef_total_gas_native f)"
  "ef_gas_contributions (fold add_stage_gas gas f) = ef_gas_contributions f"
  by (induction gas arbitrary: f) (auto simp: add_stage_gas_def Let_def split: gas_stage.split)

lemma compute_gas:
  fixes order ev roles
  defines "f \<equiv> fst (compute_economics order ev roles)" and "gas \<equiv> order (es_gas_by_tx (econ_loops (econ_context_of ev roles)))"
  shows "ef_setup_gas_native f = stage_total (Some Setup) gas" "ef_lure_gas_native f = stage_total (Some Lure) gas"
    "ef_exit_gas_native f = stage_total (Some Exit) gas" "ef_total_gas_native f = stage_total None gas"
    "ef_gas_contributions f = (case spot_rate (eb_chain ev) (eb_prices ev) of None \<Rightarrow> []
       | Some rate \<Rightarrow> map (\<lambda>(tx, stage, g). \<lparr>gc_tx_hash = tx, gc_stage = stage, gc_usd = g * rate\<rparr>) gas)"
  using econ_loops_no_gas [of "econ_context_of ev roles"]
  by (simp_all add: f_def gas_def compute_economics_def Let_def finish_ratio_def price_stages_def price_gas_def sum_gas_def
      fold_stage_gas no_gas_totals_def stage_total_def eq_commute [of _ Setup] eq_commute [of _ Lure] eq_commute [of _ Exit]
      split: option.split)

text \<open>C6. Whatever the order in which the hash map is traversed, the gas of a transaction is charged once, to
  one stage: the entries \<open>gas\<close> name each transaction for which an operator paid gas once, with the largest
  amount that one of its events reports, however many events it has; the native totals of the stages and the
  overall total are the sums of these amounts, and with a spot rate each entry is one priced contribution.\<close>

theorem compute_economics_gas_once:
  assumes "\<And>xs. mset (order xs) = mset xs"
  shows "(let f = fst (compute_economics order ev roles); payments = set (gas_payments (econ_context_of ev roles))
    in \<exists>gas. distinct (map fst gas) \<and> fst ` set gas = fst ` payments \<and>
       (\<forall>(tx, stage, g) \<in> set gas. 0 < g \<and> (tx, g) \<in> payments \<and> (\<forall>(tx', g') \<in> payments. tx' = tx \<longrightarrow> g' \<le> g)) \<and>
       ef_setup_gas_native f = stage_total (Some Setup) gas \<and> ef_lure_gas_native f = stage_total (Some Lure) gas \<and>
       ef_exit_gas_native f = stage_total (Some Exit) gas \<and> ef_total_gas_native f = stage_total None gas \<and>
       ef_gas_contributions f = (case spot_rate (eb_chain ev) (eb_prices ev) of None \<Rightarrow> []
         | Some rate \<Rightarrow> map (\<lambda>(tx, stage, g). \<lparr>gc_tx_hash = tx, gc_stage = stage, gc_usd = g * rate\<rparr>) gas))"
proof -
  let ?ctx = "econ_context_of ev roles"
  let ?entries = "es_gas_by_tx (econ_loops ?ctx)" and ?P = "set (gas_payments (econ_context_of ev roles))"
  have dist: "distinct (map fst ?entries)"
    using gas_inv_loops [of ?ctx] unfolding gas_inv_def ah_distinct_def by blast
  have set_eq: "set (order ?entries) = set ?entries" using assms by (metis set_mset_mset)
  have dist': "distinct (map fst (order ?entries))"
    using dist mset_eq_imp_distinct_iff [of "map fst (order ?entries)" "map fst ?entries"] assms [of ?entries] by simp
  have charged: "charged ?P (econ_loops ?ctx)" by (rule charged_loops)
  have entry: "0 < g \<and> (tx, g) \<in> ?P \<and> (\<forall>(tx', g') \<in> ?P. tx' = tx \<longrightarrow> g' \<le> g)" if "(tx, stage, g) \<in> set ?entries" for tx stage g
  proof -
    have "map_of ?entries tx = Some (stage, g)" using that dist by simp
    then show ?thesis using charged unfolding charged_def by fastforce
  qed
  have keys: "fst ` set ?entries = fst ` ?P"
  proof (intro set_eqI iffI)
    fix tx assume "tx \<in> fst ` set ?entries"
    then obtain stage g where "(tx, stage, g) \<in> set ?entries" by force
    then show "tx \<in> fst ` ?P" using entry by force
  next
    fix tx assume "tx \<in> fst ` ?P"
    then obtain g where "(tx, g) \<in> ?P" by force
    then obtain p where "map_of ?entries tx = Some p" using charged unfolding charged_def by fastforce
    then show "tx \<in> fst ` set ?entries" using map_of_SomeD by force
  qed
  have "\<forall>(tx, stage, g) \<in> set (order ?entries). 0 < g \<and> (tx, g) \<in> ?P \<and> (\<forall>(tx', g') \<in> ?P. tx' = tx \<longrightarrow> g' \<le> g)"
    using entry unfolding set_eq by blast
  moreover have "fst ` set (order ?entries) = fst ` ?P" unfolding set_eq by (rule keys)
  ultimately show ?thesis
    unfolding Let_def using dist' compute_gas [of order ev roles] by blast
qed

text \<open>Two sales in one transaction, both reporting the gas that the operator paid.\<close>

definition gas_bundle :: evidence_bundle where
  "gas_bundle = sample_bundle\<lparr>eb_sales := [default_sale\<lparr>sa_tx_hash := ''t'', sa_gas_native := Some (Fin 2), sa_fee_payer := Some ''o''\<rparr>,
       default_sale\<lparr>sa_tx_hash := ''t'', sa_gas_native := Some (Fin 3), sa_fee_payer := Some ''o''\<rparr>],
     eb_quality := default_quality\<lparr>q_gas := Complete\<rparr>\<rparr>"

theorem compute_economics_gas_once_witness:
  "ef_total_gas_native (fst (compute_economics rev gas_bundle [(''o'', SuspectedOperator)])) = Fin 3"
proof -
  have payments: "set (gas_payments (econ_context_of gas_bundle [(''o'', SuspectedOperator)])) = {(''t'', Fin 2), (''t'', Fin 3)}"
    by code_simp
  obtain gas where gas: "distinct (map fst gas)" "fst ` set gas = fst ` {(''t'', Fin 2), (''t'', Fin 3)}"
    "\<forall>(tx, stage, g) \<in> set gas. 0 < g \<and> (tx, g) \<in> {(''t'', Fin 2), (''t'', Fin 3)} \<and> (\<forall>(tx', g') \<in> {(''t'', Fin 2), (''t'', Fin 3)}. tx' = tx \<longrightarrow> g' \<le> g)"
    "ef_total_gas_native (fst (compute_economics rev gas_bundle [(''o'', SuspectedOperator)])) = stage_total None gas"
    using compute_economics_gas_once [of rev gas_bundle "[(''o'', SuspectedOperator)]", OF mset_rev] unfolding Let_def payments
    by (elim exE conjE) (rule that)
  then have "length gas = 1" using distinct_card [OF gas(1)] by simp
  then obtain stage g where "gas = [(''t'', stage, g)]" using gas(2) by (cases gas) auto
  moreover from this have "g = Fin 3" using gas(3) by (auto simp: f64_ops)
  moreover have "0 + Fin 3 = Fin 3" by code_simp
  ultimately show ?thesis using gas(4) by (simp add: stage_total_def)
qed

section \<open>Facts about the exposure\<close>

text \<open>Two partial sums and the joint sum of their summands.\<close>

definition loss3 :: "f64 \<Rightarrow> f64 \<Rightarrow> f64 \<Rightarrow> bool" where
  "loss3 a b h \<longleftrightarrow> rounded h \<and> 0 \<le> a \<and> 0 \<le> b \<and> 0 \<le> h \<and> a \<le> h \<and> b \<le> h"

lemma loss3_add:
  assumes "loss3 a b h" and "0 \<le> x" shows "loss3 (a + x) b (h + x)" and "loss3 a (b + x) (h + x)"
proof -
  have "h \<le> h + x" using assms by (intro f64_add_increasing) (auto simp: loss3_def)
  then have "a \<le> h + x" "b \<le> h + x" using assms(1) f64_le_trans by (auto simp: loss3_def)
  then show "loss3 (a + x) b (h + x)" "loss3 a (b + x) (h + x)"
    using assms by (auto simp: loss3_def f64_add_mono f64_add_nonneg)
qed

definition loss_inv :: "economic_facts \<Rightarrow> bool" where
  "loss_inv f \<longleftrightarrow>
     loss3 (ef_secondary_sale_loss_native f) (ef_paid_mint_loss_native f) (ef_honest_loss_native f) \<and>
     loss3 (ef_secondary_sale_loss_usd f) (ef_paid_mint_loss_usd f) (ef_honest_loss_usd f)"

lemma loss_inv_sale_parts [simp]:
  "loss_inv (contribute tx token a b k usd f) = loss_inv f"
  "loss_inv (count_sale ctx s f) = loss_inv f" "loss_inv (sale_volumes ctx s f) = loss_inv f"
  "loss_inv (operator_sale ctx s f) = loss_inv f" "loss_inv (operator_royalty ctx s f) = loss_inv f"
  "loss_inv (operator_mint ctx t f) = loss_inv f" "loss_inv (count_flow ctx e f) = loss_inv f"
  by (simp_all add: loss_inv_def count_sale_def sale_volumes_def operator_sale_def operator_royalty_def
      operator_mint_def count_flow_def contribute_def Let_def split: option.split)

lemma loss_inv_loops: "loss_inv (es_facts (econ_loops ctx))"
proof (rule econ_loops_invariant)
  fix st :: econ_state assume st: "loss_inv (es_facts st)"
  have "loss_inv (es_facts st') \<Longrightarrow> loss_inv (es_facts (secondary_exposure ctx s st'))" for s st'
    by (auto simp: secondary_exposure_def Let_def loss_inv_def contribute_def loss3_add)
  then show "loss_inv (es_facts (econ_sale ctx s st))" for s using st by (simp add: econ_sale_def Let_def)
  have "loss_inv (es_facts st') \<Longrightarrow> loss_inv (es_facts (mint_exposure ctx t st'))" for t st'
    by (auto simp: mint_exposure_def Let_def loss_inv_def contribute_def loss3_add)
  then show "loss_inv (es_facts (econ_transfer ctx t st))" for t using st by (simp add: econ_transfer_def Let_def)
  have "loss_inv (es_facts (flow_kind e st')) = loss_inv (es_facts st')" for e st'
    by (cases "vf_kind e"; cases "map_of (es_gas_native_by_tx st') (vf_tx_hash e)")
      (simp_all add: flow_kind_def Let_def loss_inv_def)
  then show "loss_inv (es_facts (econ_flow ctx e st))" for e using st by (simp add: econ_flow_def)
qed (simp add: default_economic_facts_def loss_inv_def loss3_def)

text \<open>The tokens with an exposed purchase or mint of an honest holder.\<close>

definition exposed_sale :: "econ_context \<Rightarrow> sale_event \<Rightarrow> bool" where
  "exposed_sale ctx s \<longleftrightarrow> norm_in ctx (sa_buyer s) \<in> ec_honest_buyers ctx \<and>
     (sa_token_id s, norm_in ctx (sa_buyer s)) \<in> ec_honest_holders ctx \<and>
     (0 < amount (sa_native_amount s) \<or> 0 < amount (sa_usd_amount s))"

definition exposed_mint :: "econ_context \<Rightarrow> transfer_event \<Rightarrow> bool" where
  "exposed_mint ctx t \<longleftrightarrow> tr_is_mint t \<and>
     (0 < amount (tr_mint_payment_native t) \<or> 0 < amount (tr_mint_payment_usd t)) \<and>
     norm_in ctx (tr_to t) \<in> ec_honest_buyers ctx \<and> (tr_token_id t, norm_in ctx (tr_to t)) \<in> ec_honest_holders ctx"

lemma stuck_loops:
  "es_stuck (econ_loops ctx) = sa_token_id ` {s \<in> set (eb_sales (ec_ev ctx)). exposed_sale ctx s} \<union>
     tr_token_id ` {t \<in> set (eb_transfers (ec_ev ctx)). exposed_mint ctx t}"
proof -
  have sale: "es_stuck (econ_sale ctx s st) = (if exposed_sale ctx s then {sa_token_id s} else {}) \<union> es_stuck st" for s st
    by (cases "exposed_sale ctx s") (auto simp: econ_sale_def secondary_exposure_def exposed_sale_def Let_def)
  have sales: "es_stuck (fold (econ_sale ctx) ss st) = sa_token_id ` {s \<in> set ss. exposed_sale ctx s} \<union> es_stuck st" for ss st
    by (induction ss arbitrary: st) (auto simp: sale)
  have transfer: "es_stuck (econ_transfer ctx t st) = (if exposed_mint ctx t then {tr_token_id t} else {}) \<union> es_stuck st" for t st
    by (cases "exposed_mint ctx t") (auto simp: econ_transfer_def mint_exposure_def exposed_mint_def Let_def)
  have transfers: "es_stuck (fold (econ_transfer ctx) ts st) = tr_token_id ` {t \<in> set ts. exposed_mint ctx t} \<union> es_stuck st" for ts st
    by (induction ts arbitrary: st) (auto simp: transfer)
  have "es_stuck (flow_kind e st) = es_stuck st" for e st
    by (cases "vf_kind e"; cases "map_of (es_gas_native_by_tx st) (vf_tx_hash e)") (simp_all add: flow_kind_def Let_def)
  then have "es_stuck (econ_flow ctx e st) = es_stuck st" for e st by (simp add: econ_flow_def)
  then have "es_stuck (fold (econ_flow ctx) es st) = es_stuck st" for es st by (rule fold_keep)
  then show ?thesis by (auto simp: econ_loops_def Let_def sales transfers)
qed

text \<open>The honest exposure bounds the exposure through sales and the one through mints, in native
  units and in USD, although each sum is rounded on its own; all are non-negative, and the stuck
  NFTs are the distinct tokens of an exposed purchase or mint.\<close>

theorem compute_economics_exposure:
  "(let f = fst (compute_economics order ev roles); ctx = econ_context_of ev roles in
     0 \<le> ef_secondary_sale_loss_native f \<and> ef_secondary_sale_loss_native f \<le> ef_honest_loss_native f \<and>
     0 \<le> ef_paid_mint_loss_native f \<and> ef_paid_mint_loss_native f \<le> ef_honest_loss_native f \<and>
     0 \<le> ef_secondary_sale_loss_usd f \<and> ef_secondary_sale_loss_usd f \<le> ef_honest_loss_usd f \<and>
     0 \<le> ef_paid_mint_loss_usd f \<and> ef_paid_mint_loss_usd f \<le> ef_honest_loss_usd f \<and>
     ef_stuck_nft_count f = card (sa_token_id ` {s \<in> set (eb_sales ev). exposed_sale ctx s} \<union>
       tr_token_id ` {t \<in> set (eb_transfers ev). exposed_mint ctx t}))"
proof -
  let ?ctx = "econ_context_of ev roles"
  let ?f = "fst (compute_economics order ev roles)"
  have ctx: "ec_ev ?ctx = ev" by (simp add: econ_context_of_def Let_def)
  have "loss_inv (fold add_stage_gas xs f) = loss_inv f" for xs f
    by (rule fold_keep) (simp add: add_stage_gas_def loss_inv_def Let_def split: prod.split gas_stage.split)
  then have "loss_inv (sum_gas xs st) = loss_inv (es_facts st)" for xs st
    by (simp add: sum_gas_def) (simp add: loss_inv_def)
  then have "loss_inv ?f"
    using loss_inv_loops [of ?ctx]
    by (simp add: compute_economics_def Let_def) (simp add: loss_inv_def finish_ratio_def price_stages_def price_gas_def Let_def split: option.split)
  moreover have "ef_stuck_nft_count ?f = card (es_stuck (econ_loops ?ctx))"
    by (simp add: compute_economics_def Let_def finish_ratio_def price_stages_def price_gas_def sum_gas_def split: option.split)
  ultimately show ?thesis unfolding stuck_loops ctx by (simp add: loss_inv_def loss3_def Let_def)
qed

text \<open>A transaction that both funds and pays out an operator: its stage is that of the edge listed
  last, since a funding edge overwrites the stage while every other edge can only raise it.\<close>

lemma gas_stage_depends_on_edge_order:
  assumes "map_of (es_gas_native_by_tx st) tx = Some gas"
    and "vf_tx_hash fund = tx" "vf_kind fund = Funding" and "vf_tx_hash out = tx" "vf_kind out = Withdrawal"
  shows "map_option fst (map_of (es_gas_by_tx (flow_kind fund (flow_kind out st))) tx) = Some Setup \<and>
    map_option fst (map_of (es_gas_by_tx (flow_kind out (flow_kind fund st))) tx) = Some Exit"
  using assms
  by (simp add: flow_kind_def Let_def reset_setup_def raise_gas_def hashm.lookup_entry_update case_prod_unfold)
    (simp add: max_def less_eq_gas_stage_def)

end
