(* ===== verification/BehaviorData.thy ===== *)
theory BehaviorData
  imports Attribution
begin

text \<open>
  The behaviours the detectors report (\<open>src/analysis2/crates/core/src/analysis/behavior.rs\<close>): the
  kinds, the instances, and how an instance is accumulated from the transfers and sales it is
  made of; the Gini index of a wash cycle's participants.  \<open>PaperConfig\<close> is of
  \<open>src/analysis2/crates/core/src/analysis/mod.rs\<close>.

  A propagation event is an index into the transfers or the sales of the bundle; the indices come
  from \<open>enumerate\<close>, so they are in range (\<open>event_ok\<close>).
\<close>

section \<open>Data\<close>

record paper_config =
  pc_min_cycle_size :: nat
  pc_layered_path_addresses :: nat
  pc_fan_out :: nat
  pc_top_concentration_fraction :: f64
  pc_analysis_timestamp :: int

datatype behavior_kind =
  WashTrading | PumpAndExit | SybilDistribution | FraudRevenue | Poisoning | LayeredTransfer |
  InventoryConcentration

text \<open>The derived \<open>Ord\<close>: declaration order.\<close>

fun behavior_rank :: "behavior_kind \<Rightarrow> nat" where
  "behavior_rank WashTrading = 0"
| "behavior_rank PumpAndExit = 1"
| "behavior_rank SybilDistribution = 2"
| "behavior_rank FraudRevenue = 3"
| "behavior_rank Poisoning = 4"
| "behavior_rank LayeredTransfer = 5"
| "behavior_rank InventoryConcentration = 6"

lemma behavior_rank_inj: "behavior_rank a = behavior_rank b \<longleftrightarrow> a = b"
  by (cases a; cases b) simp_all

instantiation behavior_kind :: linorder
begin

definition less_eq_behavior_kind :: "behavior_kind \<Rightarrow> behavior_kind \<Rightarrow> bool" where
  "less_eq_behavior_kind a b \<longleftrightarrow> behavior_rank a \<le> behavior_rank b"

definition less_behavior_kind :: "behavior_kind \<Rightarrow> behavior_kind \<Rightarrow> bool" where
  "less_behavior_kind a b \<longleftrightarrow> behavior_rank a < behavior_rank b"

instance
  by standard (auto simp: less_eq_behavior_kind_def less_behavior_kind_def simp flip: behavior_rank_inj)

end

record behavior_facts =
  bf_wash_cycles :: nat
  bf_pump_and_exit :: nat
  bf_sybil_distribution :: nat
  bf_fraud_revenue :: nat
  bf_poisoning :: nat
  bf_layered_transfer :: nat
  bf_inventory_concentration :: nat

definition default_behavior_facts :: behavior_facts where
  "default_behavior_facts =
     \<lparr>bf_wash_cycles = 0, bf_pump_and_exit = 0, bf_sybil_distribution = 0, bf_fraud_revenue = 0,
      bf_poisoning = 0, bf_layered_transfer = 0, bf_inventory_concentration = 0\<rparr>"

record linked_loss_event =
  le_tx_hash :: string
  le_buyer :: string
  le_token_id :: string
  le_usd_amount :: f64

record behavior_instance =
  bi_kind :: behavior_kind
  bi_addresses :: "string list"
  bi_nfts :: "string list"
  bi_transactions :: "string list"
  bi_linked_buyers :: "string list"
  bi_edge_count :: nat
  bi_start_timestamp :: "int option"
  bi_end_timestamp :: "int option"
  bi_start_block :: "nat option"
  bi_end_block :: "nat option"
  bi_native_value :: f64
  bi_usd_value :: f64
  bi_linked_loss_native :: f64
  bi_linked_loss_usd :: f64
  bi_linked_loss_events :: "linked_loss_event list"
  bi_gini_nft_count :: "f64 option"
  bi_gini_token_transaction_count :: "f64 option"
  bi_fan_out :: "nat option"
  bi_path_length :: "nat option"
  bi_low_value_hops :: "nat option"
  bi_source_address_count :: "nat option"
  bi_nft_share :: "f64 option"
  bi_value_share :: "f64 option"
  bi_exit_delay_seconds :: "int option"
  bi_exit_to_internal_price_ratio :: "f64 option"
  bi_exit_to_cycle_nft_ratio :: "f64 option"

definition default_instance :: behavior_instance where
  "default_instance =
     \<lparr>bi_kind = WashTrading, bi_addresses = [], bi_nfts = [], bi_transactions = [],
      bi_linked_buyers = [], bi_edge_count = 0, bi_start_timestamp = None, bi_end_timestamp = None,
      bi_start_block = None, bi_end_block = None, bi_native_value = 0, bi_usd_value = 0,
      bi_linked_loss_native = 0, bi_linked_loss_usd = 0, bi_linked_loss_events = [],
      bi_gini_nft_count = None, bi_gini_token_transaction_count = None, bi_fan_out = None,
      bi_path_length = None, bi_low_value_hops = None, bi_source_address_count = None,
      bi_nft_share = None, bi_value_share = None, bi_exit_delay_seconds = None,
      bi_exit_to_internal_price_ratio = None, bi_exit_to_cycle_nft_ratio = None\<rparr>"

datatype prop_event = PropTransfer nat | PropSale nat

definition event_ok :: "evidence_bundle \<Rightarrow> prop_event \<Rightarrow> bool" where
  "event_ok ev e = (case e of PropTransfer i \<Rightarrow> i < length (eb_transfers ev) | PropSale i \<Rightarrow> i < length (eb_sales ev))"

section \<open>Accumulating an instance\<close>

definition min_option :: "'a::linorder option \<Rightarrow> 'a option \<Rightarrow> 'a option" where
  "min_option left right =
     (case (left, right) of
        (Some l, Some r) \<Rightarrow> Some (min l r)
      | (Some l, None) \<Rightarrow> Some l
      | (None, r) \<Rightarrow> r)"

definition max_option :: "'a::linorder option \<Rightarrow> 'a option \<Rightarrow> 'a option" where
  "max_option left right =
     (case (left, right) of
        (Some l, Some r) \<Rightarrow> Some (max l r)
      | (Some l, None) \<Rightarrow> Some l
      | (None, r) \<Rightarrow> r)"

definition absorb_transfer :: "transfer_event \<Rightarrow> behavior_instance \<Rightarrow> behavior_instance" where
  "absorb_transfer t i =
     i\<lparr>bi_edge_count := bi_edge_count i + 1,
       bi_addresses := bi_addresses i @ [tr_from t, tr_to t],
       bi_transactions := bi_transactions i @ [tr_tx_hash t],
       bi_nfts := bi_nfts i @ [tr_token_id t],
       bi_start_timestamp := min_option (bi_start_timestamp i) (tr_timestamp t),
       bi_end_timestamp := max_option (bi_end_timestamp i) (tr_timestamp t),
       bi_start_block := min_option (bi_start_block i) (tr_block_number t),
       bi_end_block := max_option (bi_end_block i) (tr_block_number t)\<rparr>"

definition absorb_sale :: "sale_event \<Rightarrow> behavior_instance \<Rightarrow> behavior_instance" where
  "absorb_sale s i =
     i\<lparr>bi_edge_count := bi_edge_count i + 1,
       bi_addresses := bi_addresses i @ [sa_seller s, sa_buyer s],
       bi_transactions := bi_transactions i @ [sa_tx_hash s],
       bi_nfts := bi_nfts i @ [sa_token_id s],
       bi_start_timestamp := min_option (bi_start_timestamp i) (sa_timestamp s),
       bi_end_timestamp := max_option (bi_end_timestamp i) (sa_timestamp s),
       bi_start_block := min_option (bi_start_block i) (sa_block_number s),
       bi_end_block := max_option (bi_end_block i) (sa_block_number s),
       bi_native_value := bi_native_value i + f64_max (unwrap_or 0 (sa_native_amount s)) 0,
       bi_usd_value := bi_usd_value i + f64_max (unwrap_or 0 (sa_usd_amount s)) 0\<rparr>"

definition finalize_instance :: "behavior_instance \<Rightarrow> behavior_instance" where
  "finalize_instance i =
     i\<lparr>bi_addresses := sort_dedup (bi_addresses i),
       bi_transactions := sort_dedup (bi_transactions i),
       bi_nfts := sort_dedup (bi_nfts i)\<rparr>"

definition instance_from_sales :: "behavior_kind \<Rightarrow> sale_event list \<Rightarrow> behavior_instance" where
  "instance_from_sales kind sales =
     finalize_instance (fold absorb_sale sales (default_instance\<lparr>bi_kind := kind\<rparr>))"

definition absorb_event :: "evidence_bundle \<Rightarrow> prop_event \<Rightarrow> behavior_instance \<Rightarrow> behavior_instance" where
  "absorb_event ev e =
     (case e of
        PropTransfer i \<Rightarrow> absorb_transfer (eb_transfers ev ! i)
      | PropSale i \<Rightarrow> absorb_sale (eb_sales ev ! i))"

definition instance_from_prop_events ::
  "behavior_kind \<Rightarrow> evidence_bundle \<Rightarrow> prop_event list \<Rightarrow> behavior_instance" where
  "instance_from_prop_events kind ev events =
     finalize_instance (fold (absorb_event ev) events (default_instance\<lparr>bi_kind := kind\<rparr>))"

section \<open>The participants of a wash cycle\<close>

text \<open>
  The token sets and event counts of the participants.  The maps start with an entry for every
  address; the code reads them for the addresses only.
\<close>

definition sale_parties :: "sale_event list \<Rightarrow> (string \<times> sale_event) list" where
  "sale_parties sales = concat (map (\<lambda>s. [(sa_seller s, s), (sa_buyer s, s)]) sales)"

definition participant_distributions :: "string list \<Rightarrow> sale_event list \<Rightarrow> nat list \<times> nat list" where
  "participant_distributions addresses sales =
     (let nfts = fold (\<lambda>(a, s). entry_update bt_insert a {} (insert (sa_token_id s)))
            (sale_parties sales) (fold (\<lambda>a. bt_insert a {}) addresses []);
          transactions = fold (\<lambda>(a, s). entry_update bt_insert a 0 Suc)
            (sale_parties sales) (fold (\<lambda>a. bt_insert a 0) addresses [])
      in (map (\<lambda>a. unwrap_or 0 (map_option card (map_of nfts a))) addresses,
          map (\<lambda>a. unwrap_or 0 (map_of transactions a)) addresses))"

text \<open>The \<open>u128\<close> sums are exact for every vector of \<open>u64\<close> values shorter than \<open>2 ^ 32\<close>.\<close>

definition gini_weighted :: "nat list \<Rightarrow> nat" where
  "gini_weighted ascending = sum_list (map (\<lambda>(index, v). (index + 1) * v) (enumerated ascending))"

definition gini :: "nat list \<Rightarrow> f64 option" where
  "gini values =
     (if values = [] then None
      else let sum = sum_list values
        in if sum = 0 then None
           else let ascending = sort values;
                    weighted = gini_weighted ascending;
                    n = f64_of_nat (length ascending)
             in Some ((Fin 2 * f64_of_nat weighted) / (n * f64_of_nat sum) - (n + 1) / n))"

section \<open>What an instance says about its events\<close>

definition event_from :: "evidence_bundle \<Rightarrow> prop_event \<Rightarrow> string" where
  "event_from ev e =
     (case e of PropTransfer i \<Rightarrow> tr_from (eb_transfers ev ! i) | PropSale i \<Rightarrow> sa_seller (eb_sales ev ! i))"

definition prop_event_to :: "evidence_bundle \<Rightarrow> prop_event \<Rightarrow> string" where
  "prop_event_to ev e =
     (case e of PropTransfer i \<Rightarrow> tr_to (eb_transfers ev ! i) | PropSale i \<Rightarrow> sa_buyer (eb_sales ev ! i))"

definition prop_event_transaction :: "evidence_bundle \<Rightarrow> prop_event \<Rightarrow> string" where
  "prop_event_transaction ev e =
     (case e of PropTransfer i \<Rightarrow> tr_tx_hash (eb_transfers ev ! i) | PropSale i \<Rightarrow> sa_tx_hash (eb_sales ev ! i))"

definition event_token :: "evidence_bundle \<Rightarrow> prop_event \<Rightarrow> string" where
  "event_token ev e =
     (case e of PropTransfer i \<Rightarrow> tr_token_id (eb_transfers ev ! i) | PropSale i \<Rightarrow> sa_token_id (eb_sales ev ! i))"

definition event_time :: "evidence_bundle \<Rightarrow> prop_event \<Rightarrow> int option" where
  "event_time ev e =
     (case e of PropTransfer i \<Rightarrow> tr_timestamp (eb_transfers ev ! i) | PropSale i \<Rightarrow> sa_timestamp (eb_sales ev ! i))"

definition event_usd :: "evidence_bundle \<Rightarrow> prop_event \<Rightarrow> f64 option" where
  "event_usd ev e =
     (case e of
        PropTransfer i \<Rightarrow> None
      | PropSale i \<Rightarrow> Some (f64_max (unwrap_or 0 (sa_usd_amount (eb_sales ev ! i))) 0))"

lemmas event_defs = event_from_def prop_event_to_def prop_event_transaction_def event_token_def
  event_time_def event_usd_def absorb_event_def absorb_transfer_def absorb_sale_def

lemma list_min_Cons: "list_min (x # xs) = min_option (Some x) (list_min xs)"
proof (cases xs)
  case (Cons y ys)
  have "fold min (y # ys) x = min x (fold min ys y)"
    unfolding fold_min_Min using Min.insert [of "set (y # ys)" x] by simp
  with Cons show ?thesis by (simp add: list_min_def min_option_def)
qed (simp add: list_min_def min_option_def)

lemma min_option_assoc: "min_option (min_option a b) c = min_option a (min_option b c)"
  by (auto simp: min_option_def min.assoc split: option.splits)

lemma min_option_None [simp]: "min_option a None = a" "min_option None a = a"
  by (auto simp: min_option_def split: option.splits)

lemma fold_min_option:
  "fold (\<lambda>e acc. min_option acc (f e)) es acc = min_option acc (list_min (List.map_filter f es))"
proof (induction es arbitrary: acc)
  case Nil
  show ?case by (simp add: list_min_def)
next
  case (Cons e es)
  then show ?case
    by (cases "f e") (simp_all add: map_filter_simps list_min_Cons min_option_assoc)
qed

text \<open>A field that each event updates by itself is folded alone.\<close>

lemma fold_project:
  "(\<And>e s. p (f e s) = g e (p s)) \<Longrightarrow> p (fold f es s) = fold g es (p s)"
  by (induction es arbitrary: s) simp_all

lemma absorb_event_kind: "bi_kind (fold (absorb_event ev) es i) = bi_kind i"
  by (induction es arbitrary: i) (auto simp: event_defs split: prop_event.splits)

lemma absorb_event_count: "bi_edge_count (fold (absorb_event ev) es i) = bi_edge_count i + length es"
  by (induction es arbitrary: i) (auto simp: event_defs split: prop_event.splits)

lemma absorb_event_addresses:
  "bi_addresses (fold (absorb_event ev) es i) =
     bi_addresses i @ concat (map (\<lambda>e. [event_from ev e, prop_event_to ev e]) es)"
  by (induction es arbitrary: i) (auto simp: event_defs split: prop_event.splits)

lemma absorb_event_transactions:
  "bi_transactions (fold (absorb_event ev) es i) = bi_transactions i @ map (prop_event_transaction ev) es"
  by (induction es arbitrary: i) (auto simp: event_defs split: prop_event.splits)

lemma absorb_event_nfts:
  "bi_nfts (fold (absorb_event ev) es i) = bi_nfts i @ map (event_token ev) es"
  by (induction es arbitrary: i) (auto simp: event_defs split: prop_event.splits)

lemma absorb_event_start:
  "bi_start_timestamp (fold (absorb_event ev) es i) =
     min_option (bi_start_timestamp i) (list_min (List.map_filter (event_time ev) es))"
  unfolding fold_min_option [symmetric]
  by (rule fold_project) (auto simp: event_defs split: prop_event.splits)

lemma absorb_event_usd:
  "bi_usd_value (fold (absorb_event ev) es i) =
     fold (\<lambda>a v. v + a) (List.map_filter (event_usd ev) es) (bi_usd_value i)"
  by (induction es arbitrary: i) (auto simp: event_defs map_filter_simps split: prop_event.splits)

text \<open>An instance made of propagation events counts them, names exactly their endpoints,
  transactions and tokens, each once and in order, starts at their earliest known time, and values
  them at the sum of the sales' non-negative dollar amounts.\<close>

theorem instance_from_prop_events_spec:
  "let i = instance_from_prop_events kind ev events in
   bi_kind i = kind \<and> bi_edge_count i = length events \<and>
   bi_addresses i = sorted_list_of_set (event_from ev ` set events \<union> prop_event_to ev ` set events) \<and>
   bi_transactions i = sorted_list_of_set (prop_event_transaction ev ` set events) \<and>
   bi_nfts i = sorted_list_of_set (event_token ev ` set events) \<and>
   bi_start_timestamp i = list_min (List.map_filter (event_time ev) events) \<and>
   bi_usd_value i = fold (\<lambda>a v. v + a) (List.map_filter (event_usd ev) events) 0"
proof -
  have "set (concat (map (\<lambda>e. [event_from ev e, prop_event_to ev e]) events)) =
      event_from ev ` set events \<union> prop_event_to ev ` set events" by auto
  then show ?thesis
    by (simp add: instance_from_prop_events_def finalize_instance_def default_instance_def Let_def
        absorb_event_kind absorb_event_count absorb_event_addresses absorb_event_transactions
        absorb_event_nfts absorb_event_start absorb_event_usd sort_dedup_eq)
qed

section \<open>The Gini index\<close>

lemma gini_weighted_Nil [simp]: "gini_weighted [] = 0"
  by (simp add: gini_weighted_def enumerated_def)

lemma sum_list_enumerated_snoc:
  "gini_weighted (xs @ [x]) = gini_weighted xs + (length xs + 1) * x"
  by (simp add: gini_weighted_def enumerated_def)

lemma gini_weighted_lower: "sorted xs \<Longrightarrow> (length xs + 1) * sum_list xs \<le> 2 * gini_weighted xs"
proof (induction xs rule: rev_induct)
  case (snoc x xs)
  have le: "\<forall>y \<in> set xs. y \<le> x" and "sorted xs" using snoc.prems by (simp_all add: sorted_append)
  have "sum_list xs \<le> length xs * x" using le by (induction xs) auto
  with snoc.IH [OF \<open>sorted xs\<close>] show ?case
    by (simp add: sum_list_enumerated_snoc algebra_simps)
qed simp

lemma gini_weighted_upper: "gini_weighted xs \<le> length xs * sum_list xs"
proof (induction xs rule: rev_induct)
  case (snoc x xs)
  then show ?case by (simp add: sum_list_enumerated_snoc algebra_simps)
qed simp

lemma gini_weighted_replicate: "2 * gini_weighted (replicate n x) = (n + 1) * (n * x)"
proof (induction n)
  case (Suc n)
  then show ?case
    by (simp add: replicate_append_same [symmetric] sum_list_enumerated_snoc algebra_simps del: replicate_Suc)
      (simp add: replicate_append_same [symmetric] sum_list_enumerated_snoc algebra_simps)
qed simp

lemma round_f64_between:
  assumes "round_f64 a = Fin a" "round_f64 b = Fin b" "a \<le> q" "q \<le> b"
  obtains r where "round_f64 q = Fin r" "a \<le> r" "r \<le> b"
proof -
  have "Fin a \<le> round_f64 q" "round_f64 q \<le> Fin b"
    using round_f64_mono [of a q] round_f64_mono [of q b] assms by simp_all
  then show thesis using that by (cases "round_f64 q") (auto simp: f64_ops)
qed

lemma f64_of_nat_exact: "m < 2 ^ 53 \<Longrightarrow> f64_of_nat m = Fin (of_nat m)"
  using round_f64_int [of "int m"] by (simp add: f64_of_nat_def)

lemma gini_exact:
  assumes "values \<noteq> []" "0 < sum_list values" "2 * length values * sum_list values < 2 ^ 53"
  shows "gini values = Some (round_f64 (of_nat (2 * gini_weighted (sort values)) /
       of_nat (length values * sum_list values)) -
     round_f64 (of_nat (length values + 1) / of_nat (length values)))"
proof -
  let ?n = "length values" and ?s = "sum_list values" and ?w = "gini_weighted (sort values)"
  have sum: "sum_list (sort values) = ?s" by (metis mset_sort sum_mset_sum_list)
  have w: "2 * ?w < 2 ^ 53" using gini_weighted_upper [of "sort values"] sum assms(3)
    by (simp add: mult.commute [of "sum_list values"])
  have "?n * 1 \<le> ?n * ?s" "1 \<le> ?n" "?s * 1 \<le> ?n * ?s"
    using assms(1,2) by (auto simp: Suc_le_eq intro: mult_le_mono)
  then have ns: "?n * ?s < 2 ^ 53" "?n + 1 < 2 ^ 53" "?s < 2 ^ 53" "?n < 2 ^ 53"
    using assms(3) by linarith+
  have exact: "round_f64 (of_nat m) = Fin (of_nat m)" if "m < 2 ^ 53" for m
    using f64_of_nat_exact [OF that] by (simp add: f64_of_nat_def)
  have "Fin 2 * f64_of_nat ?w = Fin (of_nat (2 * ?w))"
    using exact [OF w] w by (simp add: f64_of_nat_exact times_f64_def)
  moreover have "f64_of_nat ?n * f64_of_nat ?s = Fin (of_nat (?n * ?s))"
    using exact [OF ns(1)] ns by (simp add: f64_of_nat_exact times_f64_def)
  moreover have "f64_of_nat ?n + 1 = Fin (of_nat (?n + 1))"
    using exact [OF ns(2)] ns by (simp add: f64_of_nat_exact plus_f64_def one_f64_def add.commute)
  ultimately show ?thesis
    using assms(1,2) ns by (simp add: gini_def Let_def divide_f64_def f64_of_nat_exact del: sum_list_eq_0_iff)
qed

lemma gini_None_iff: "gini values = None \<longleftrightarrow> sum_list values = 0"
  by (auto simp: gini_def Let_def)

lemma sum_list_sort: "sum_list (sort xs) = sum_list xs" for xs :: "nat list"
  by (metis mset_sort sum_mset_sum_list)

lemma gini_range:
  assumes "2 * length values * sum_list values < 2 ^ 53" and "gini values = Some g"
  shows "0 \<le> g \<and> g \<le> 1"
proof -
  let ?n = "length values" and ?s = "sum_list values" and ?w = "gini_weighted (sort values)"
  let ?p = "of_nat (2 * ?w) / of_nat (?n * ?s) :: rat" and ?q = "of_nat (?n + 1) / of_nat ?n :: rat"
  note sum = sum_list_sort [of "values"]
  have "values \<noteq> []" using assms(2) by (auto simp: gini_def)
  moreover have "?s \<noteq> 0" using assms(2) by (metis gini_None_iff option.discI)
  ultimately have pos: "0 < ?n" "0 < ?s" "values \<noteq> []" by (metis length_greater_0_conv neq0_conv)+
  have "(?n + 1) * ?s \<le> 2 * ?w" "2 * ?w \<le> 2 * (?n * ?s)"
    using gini_weighted_lower [of "sort values"] gini_weighted_upper [of "sort values"] sum by simp_all
  then have "(of_nat ((?n + 1) * ?s) :: rat) \<le> of_nat (2 * ?w)" "(of_nat (2 * ?w) :: rat) \<le> of_nat (2 * (?n * ?s))"
    by (simp_all only: of_nat_le_iff)
  note ineqs = this
  have "?q = of_nat ((?n + 1) * ?s) / of_nat (?n * ?s)"
    unfolding of_nat_mult by (rule mult_divide_mult_cancel_right [symmetric]) (use pos(2) in \<open>simp del: sum_list_eq_0_iff\<close>)
  also have "\<dots> \<le> ?p" by (rule divide_right_mono) (use ineqs in simp_all)
  finally have "?q \<le> ?p" .
  moreover have "?p \<le> of_nat (2 * (?n * ?s)) / of_nat (?n * ?s)"
    by (rule divide_right_mono) (use ineqs in simp_all)
  then have "?p \<le> 2" using pos by (simp del: sum_list_eq_0_iff)
  moreover have "1 \<le> ?q" using pos by (simp add: field_simps)
  moreover obtain r where r: "round_f64 ?q = Fin r" "1 \<le> r" "r \<le> 2"
    by (rule round_f64_between [of 1 2 ?q]) (use \<open>?q \<le> ?p\<close> \<open>?p \<le> 2\<close> \<open>1 \<le> ?q\<close> in \<open>simp_all add: round_f64_numeral\<close>)
  moreover obtain u where u: "round_f64 ?p = Fin u" "1 \<le> u" "u \<le> 2"
    by (rule round_f64_between [of 1 2 ?p]) (use \<open>?q \<le> ?p\<close> \<open>?p \<le> 2\<close> \<open>1 \<le> ?q\<close> in \<open>simp_all add: round_f64_numeral\<close>)
  ultimately have "r \<le> u" using round_f64_mono [of ?q ?p] by (simp add: less_eq_f64_def)
  then obtain d where "round_f64 (u - r) = Fin d" "0 \<le> d" "d \<le> 1"
    using round_f64_between [of 0 1 "u - r"] r u by auto
  moreover have "g = round_f64 (u - r)"
    using gini_exact [OF pos(3,2) assms(1)] assms(2) u r by (simp add: minus_f64_def)
  ultimately show ?thesis by (simp add: f64_ops)
qed

lemma gini_equal:
  assumes "2 * length values * sum_list values < 2 ^ 53" and v: "values = replicate (n + 1) (x + 1)"
  shows "gini values = Some 0"
proof -
  let ?n = "length values" and ?s = "sum_list values" and ?w = "gini_weighted (sort values)"
  let ?p = "of_nat (2 * ?w) / of_nat (?n * ?s) :: rat" and ?q = "of_nat (?n + 1) / of_nat ?n :: rat"
  have s: "?n = n + 1" "?s = (n + 1) * (x + 1)" using v by (simp_all add: sum_list_replicate)
  have "sort values = values" unfolding v by (rule sorted_sort_id) simp
  then have w: "2 * ?w = (n + 2) * ((n + 1) * (x + 1))"
    using gini_weighted_replicate [of "n + 1" "x + 1"] v by (metis add.assoc one_add_one)
  have "?p = of_nat ((n + 2) * ((n + 1) * (x + 1))) / of_nat ((n + 1) * ((n + 1) * (x + 1)))"
    unfolding w s ..
  also have "\<dots> = of_nat (n + 2) / of_nat (n + 1)"
    unfolding of_nat_mult by (rule mult_divide_mult_cancel_right) (simp del: of_nat_Suc)
  finally have "?p = ?q" by (simp add: s)
  moreover have "values \<noteq> []" "0 < ?s" using s by auto
  moreover have "round_f64 ?q - round_f64 ?q = 0"
  proof -
    have "1 \<le> ?q" "?q \<le> 2" by (simp_all add: s field_simps)
    then obtain r where "round_f64 ?q = Fin r"
      using round_f64_between [of 1 2 ?q] by (auto simp: round_f64_numeral)
    then show ?thesis by (simp add: minus_f64_def zero_f64_def)
  qed
  ultimately show ?thesis using gini_exact [OF _ _ assms(1)] by simp
qed

text \<open>The Gini index is defined exactly when some participant has a positive count, and, as
  long as the counts are exact in double precision, it lies between 0 and 1 and is 0 when all
  counts are equal.\<close>

theorem gini_bounds:
  assumes "2 * length values * sum_list values < 2 ^ 53"
  shows "(gini values = None \<longleftrightarrow> sum_list values = 0) \<and>
    (\<forall>g. gini values = Some g \<longrightarrow> 0 \<le> g \<and> g \<le> 1) \<and>
    (\<forall>x n. values = replicate (n + 1) (x + 1) \<longrightarrow> gini values = Some 0)"
  using gini_None_iff gini_range [OF assms] gini_equal [OF assms] by blast

theorem gini_bounds_witness:
  "gini [3, 1, 0] \<noteq> None \<and> (\<exists>g. gini [3, 1, 0] = Some g \<and> 0 \<le> g \<and> g \<le> 1) \<and> gini [2, 2] = Some 0"
proof -
  have "replicate (1 + 1) (1 + 1) = [2, 2 :: nat]" by (simp add: numeral_2_eq_2)
  moreover have "\<forall>x n. [2, 2 :: nat] = replicate (n + 1) (x + 1) \<longrightarrow> gini [2, 2] = Some 0"
    using gini_bounds [of "[2, 2]"] by (intro allI) (simp only: list.size sum_list_simps, auto)
  ultimately have "gini [2, 2] = Some 0" by metis
  then show ?thesis using gini_bounds [of "[3, 1, 0]"] by auto
qed

end
