(* ===== verification/LayeredTransfer.thy ===== *)
theory LayeredTransfer
  imports BehaviorData
begin

text \<open>
  Layered transfers (\<open>layered_paths\<close> of \<open>src/analysis2/crates/core/src/analysis/behavior.rs\<close>): for
  every token and every suspected start address the code searches, with backtracking, a simple
  path of the token over a required number of addresses along events that follow each other in
  time.  The search is \<open>search\<close>; \<open>layered_path\<close> says declaratively what a path is, and the facts
  show that the search finds one whenever there is one.
\<close>

section \<open>Order of events\<close>

definition event_block :: "evidence_bundle \<Rightarrow> prop_event \<Rightarrow> nat option" where
  "event_block ev e =
     (case e of PropTransfer i \<Rightarrow> tr_block_number (eb_transfers ev ! i) | PropSale i \<Rightarrow> sa_block_number (eb_sales ev ! i))"

definition event_index :: "prop_event \<Rightarrow> nat" where
  "event_index e = (case e of PropTransfer i \<Rightarrow> i | PropSale i \<Rightarrow> i)"

definition prop_event_order :: "evidence_bundle \<Rightarrow> prop_event \<Rightarrow> nat option \<times> int option \<times> nat" where
  "prop_event_order ev e = (event_block ev e, event_time ev e, event_index e)"

definition prop_event_precedes :: "evidence_bundle \<Rightarrow> prop_event \<Rightarrow> prop_event \<Rightarrow> bool" where
  "prop_event_precedes ev previous e =
     (case (event_block ev previous, event_block ev e) of
        (Some p, Some n) \<Rightarrow> p < n
      | _ \<Rightarrow> is_some_and (\<lambda>(p, n). p < n) (opt_zip (event_time ev previous) (event_time ev e)))"

section \<open>The search\<close>

type_synonym outgoing_map = "((string \<times> string) \<times> prop_event list) list"

definition path_events :: "evidence_bundle \<Rightarrow> prop_event list" where
  "path_events ev =
     map (\<lambda>(i, _). PropTransfer i) (filter (\<lambda>(_, t).
       \<not> (tr_token_id t = [] \<or> tr_from t = [] \<or> tr_to t = [])) (enumerated (eb_transfers ev))) @
     map (\<lambda>(i, _). PropSale i) (filter (\<lambda>(_, s).
       \<not> (sa_token_id s = [] \<or> sa_seller s = [] \<or> sa_buyer s = [])) (enumerated (eb_sales ev)))"

definition outgoing_events :: "evidence_bundle \<Rightarrow> outgoing_map" where
  "outgoing_events ev =
     map (\<lambda>(k, es). (k, sort_key (prop_event_order ev) es))
       (fold (\<lambda>e. entry_update ah_insert (event_token ev e, event_from ev e) [] (\<lambda>es. es @ [e]))
         (path_events ev) [])"

text \<open>
  \<open>addresses\<close> and \<open>selected\<close> are the two stacks of the source; pushing before the recursive call
  and popping after a failed one is passing the longer stacks to the call.
\<close>

function search ::
  "evidence_bundle \<Rightarrow> outgoing_map \<Rightarrow> string \<Rightarrow> string list \<Rightarrow> prop_event list \<Rightarrow> nat \<Rightarrow> prop_event list option" where
  "search ev outgoing token_id addresses selected minimum_addresses =
     (if length addresses \<ge> minimum_addresses then Some selected
      else if addresses = [] then None
      else (case map_of outgoing (token_id, last addresses) of
          None \<Rightarrow> None
        | Some events \<Rightarrow> first_some (\<lambda>event.
            if selected \<noteq> [] \<and> \<not> prop_event_precedes ev (last selected) event then None
            else let next = prop_event_to ev event
              in if next = [] \<or> next \<in> set addresses then None
                 else search ev outgoing token_id (addresses @ [next]) (selected @ [event]) minimum_addresses) events))"
  by pat_completeness auto
termination
  by (relation "measure (\<lambda>(_, _, _, addresses, _, minimum). minimum - length addresses)") auto

declare search.simps [simp del]

definition layered_event_path_from ::
  "evidence_bundle \<Rightarrow> outgoing_map \<Rightarrow> string \<Rightarrow> string \<Rightarrow> nat \<Rightarrow> prop_event list option" where
  "layered_event_path_from ev outgoing token_id start minimum_addresses =
     (if minimum_addresses = 0 then Some []
      else search ev outgoing token_id [start] [] minimum_addresses)"

definition layered_path_addresses :: "evidence_bundle \<Rightarrow> string \<Rightarrow> prop_event list \<Rightarrow> string list" where
  "layered_path_addresses ev start events = start # map (prop_event_to ev) events"

section \<open>The instances\<close>

definition low_value :: "evidence_bundle \<Rightarrow> prop_event \<Rightarrow> bool" where
  "low_value ev e =
     (case e of
        PropTransfer _ \<Rightarrow> True
      | PropSale i \<Rightarrow> is_some_and (\<lambda>v. 0 \<le> v \<and> v \<le> 1) (sa_usd_amount (eb_sales ev ! i)))"

definition layered_instance :: "evidence_bundle \<Rightarrow> string \<Rightarrow> prop_event list \<Rightarrow> behavior_instance" where
  "layered_instance ev start selected =
     (let addresses = layered_path_addresses ev start selected
      in (instance_from_prop_events LayeredTransfer ev selected)
           \<lparr>bi_path_length := Some (length addresses),
            bi_addresses := addresses,
            bi_low_value_hops := Some (length (filter (low_value ev) selected))\<rparr>)"

definition layered_starts :: "evidence_bundle \<Rightarrow> string set \<Rightarrow> (string \<times> string) list" where
  "layered_starts ev malicious =
     sorted_list_of_set (set (filter (\<lambda>(_, from). normalize_chain_address (eb_chain ev) from \<in> malicious)
       (map fst (outgoing_events ev))))"

type_synonym path_key = "string \<times> string list \<times> string list"

definition layered_step ::
  "evidence_bundle \<Rightarrow> nat \<Rightarrow> string \<times> string \<Rightarrow> path_key set \<times> behavior_instance list \<Rightarrow>
   path_key set \<times> behavior_instance list" where
  "layered_step ev minimum_addresses start st =
     (case layered_event_path_from ev (outgoing_events ev) (fst start) (snd start) minimum_addresses of
        None \<Rightarrow> st
      | Some selected \<Rightarrow>
          let key = (fst start, layered_path_addresses ev (snd start) selected,
                map (prop_event_transaction ev) selected)
          in if key \<in> fst st then st
             else (insert key (fst st), snd st @ [layered_instance ev (snd start) selected]))"

definition layered_paths :: "evidence_bundle \<Rightarrow> string set \<Rightarrow> nat \<Rightarrow> behavior_instance list" where
  "layered_paths ev malicious minimum_addresses =
     snd (fold (layered_step ev minimum_addresses) (layered_starts ev malicious) ({}, []))"

section \<open>What a path is\<close>

text \<open>An event that moves a token between two addresses.\<close>

definition path_event :: "evidence_bundle \<Rightarrow> string \<Rightarrow> prop_event \<Rightarrow> bool" where
  "path_event ev token_id e \<longleftrightarrow>
     event_ok ev e \<and> event_token ev e = token_id \<and> token_id \<noteq> [] \<and>
     event_from ev e \<noteq> [] \<and> prop_event_to ev e \<noteq> []"

text \<open>A simple path of a token: every event starts where the path is, leads to a new address, and
  happens after the event before it.\<close>

definition layered_path :: "evidence_bundle \<Rightarrow> string \<Rightarrow> string \<Rightarrow> prop_event list \<Rightarrow> bool" where
  "layered_path ev token_id start p \<longleftrightarrow>
     (\<forall>e \<in> set p. path_event ev token_id e) \<and>
     map (event_from ev) p = butlast (layered_path_addresses ev start p) \<and>
     distinct (layered_path_addresses ev start p) \<and>
     successively (prop_event_precedes ev) p"

section \<open>Facts\<close>

lemma set_path_events: "e \<in> set (path_events ev) \<longleftrightarrow> path_event ev (event_token ev e) e"
  by (cases e)
    (auto simp: path_events_def path_event_def event_ok_def event_token_def event_from_def
      prop_event_to_def in_set_enumerated image_iff)

lemma lookup_outgoing_events:
  "map_of (outgoing_events ev) (token_id, a) =
     (let es = filter (\<lambda>e. event_token ev e = token_id \<and> event_from ev e = a) (path_events ev)
      in if es = [] then None else Some (sort_key (prop_event_order ev) es))"
proof -
  let ?key = "\<lambda>e. (event_token ev e, event_from ev e)"
  let ?m = "fold (\<lambda>e. entry_update ah_insert (?key e) [] (\<lambda>es. es @ [e])) (path_events ev) []"
  have "fold (\<lambda>e es. es @ [e]) es acc = acc @ es" for es and acc :: "prop_event list"
    by (induction es arbitrary: acc) simp_all
  then have "map_of ?m (token_id, a) =
      (if (token_id, a) \<in> ?key ` set (path_events ev)
       then Some (filter (\<lambda>e. ?key e = (token_id, a)) (path_events ev)) else None)"
    by (simp add: hashm.lookup_fold_entry_update)
  moreover have "map_of (outgoing_events ev) (token_id, a) =
      map_option (sort_key (prop_event_order ev)) (map_of ?m (token_id, a))"
    by (simp add: outgoing_events_def map_of_map)
  ultimately show ?thesis by (auto simp: Let_def filter_empty_conv)
qed

lemma outgoing_candidates:
  "(\<exists>events. map_of (outgoing_events ev) (token_id, a) = Some events \<and> e \<in> set events) \<longleftrightarrow>
   path_event ev token_id e \<and> event_from ev e = a"
  by (auto simp: lookup_outgoing_events Let_def set_path_events filter_empty_conv path_event_def)

text \<open>The continuations of a path that has reached the last of \<open>addresses\<close> by the events \<open>selected\<close>.\<close>

fun extends :: "evidence_bundle \<Rightarrow> string \<Rightarrow> string list \<Rightarrow> prop_event list \<Rightarrow> prop_event list \<Rightarrow> bool" where
  "extends ev token_id addresses selected [] \<longleftrightarrow> True"
| "extends ev token_id addresses selected (e # es) \<longleftrightarrow>
     path_event ev token_id e \<and> event_from ev e = last addresses \<and>
     (selected \<noteq> [] \<longrightarrow> prop_event_precedes ev (last selected) e) \<and>
     prop_event_to ev e \<notin> set addresses \<and>
     extends ev token_id (addresses @ [prop_event_to ev e]) (selected @ [e]) es"

lemma search_result:
  assumes "addresses \<noteq> []"
  shows "case search ev (outgoing_events ev) token_id addresses selected minimum of
      Some p \<Rightarrow> \<exists>es. p = selected @ es \<and> extends ev token_id addresses selected es \<and>
        length es = minimum - length addresses
    | None \<Rightarrow> \<not> (\<exists>es. extends ev token_id addresses selected es \<and> length es = minimum - length addresses)"
  using assms
proof (induction "minimum - length addresses" arbitrary: addresses selected)
  case 0
  then show ?case by (simp add: search.simps)
next
  case (Suc n)
  let ?step = "\<lambda>event. if selected \<noteq> [] \<and> \<not> prop_event_precedes ev (last selected) event then None
      else let next = prop_event_to ev event
        in if next = [] \<or> next \<in> set addresses then None
           else search ev (outgoing_events ev) token_id (addresses @ [next]) (selected @ [event]) minimum"
  let ?ok = "\<lambda>e. path_event ev token_id e \<and> event_from ev e = last addresses"
  have lt: "length addresses < minimum" "n = minimum - length (addresses @ [x])" for x
    using Suc.hyps(2) by simp_all
  note IH = Suc.hyps(1) [OF lt(2), simplified lt(2) [symmetric], simplified]
  have unfold: "search ev (outgoing_events ev) token_id addresses selected minimum =
      (case map_of (outgoing_events ev) (token_id, last addresses) of
         None \<Rightarrow> None | Some events \<Rightarrow> first_some ?step events)"
    using lt(1) Suc.prems by (subst search.simps) simp
  have sound: "\<exists>es. p = selected @ es \<and> extends ev token_id addresses selected es \<and> length es = Suc n"
    if e: "?ok e" and t: "?step e = Some p" for e p
  proof -
    from t have s: "search ev (outgoing_events ev) token_id (addresses @ [prop_event_to ev e]) (selected @ [e]) minimum = Some p"
      and c: "selected \<noteq> [] \<longrightarrow> prop_event_precedes ev (last selected) e" "prop_event_to ev e \<notin> set addresses"
      by (auto simp: Let_def split: if_splits)
    from IH [of "prop_event_to ev e" "selected @ [e]"] s obtain es where
      "p = selected @ e # es" "extends ev token_id (addresses @ [prop_event_to ev e]) (selected @ [e]) es" "length es = n"
      by auto
    with c e show ?thesis by (intro exI [of _ "e # es"]) simp
  qed
  have complete: "?ok e \<and> ?step e \<noteq> None"
    if "extends ev token_id addresses selected (e # es)" "length es = n" for e es
    using that IH [of "prop_event_to ev e" "selected @ [e]"]
    by (auto simp: Let_def path_event_def split: option.splits)
  show ?case
  proof (cases "search ev (outgoing_events ev) token_id addresses selected minimum")
    case None
    have "?step e = None" if "?ok e" for e
      using None that outgoing_candidates [of ev token_id "last addresses" e]
      by (auto simp: unfold first_some_None split: option.splits)
    with complete have "\<not> (extends ev token_id addresses selected es \<and> length es = Suc n)" for es
      by (cases es) auto
    with None Suc.hyps(2) show ?thesis by simp
  next
    case (Some p)
    then obtain e where "?ok e" "?step e = Some p"
      using outgoing_candidates [of ev token_id "last addresses"]
      by (auto simp: unfold split: option.splits dest!: first_some_SomeD)
    with sound Some Suc.hyps(2) show ?thesis by simp
  qed
qed

lemma extends_iff:
  "addresses \<noteq> [] \<Longrightarrow> extends ev token_id addresses selected es \<longleftrightarrow>
     (\<forall>e \<in> set es. path_event ev token_id e) \<and>
     map (event_from ev) es = butlast (last addresses # map (prop_event_to ev) es) \<and>
     distinct (map (prop_event_to ev) es) \<and> set addresses \<inter> prop_event_to ev ` set es = {} \<and>
     successively (prop_event_precedes ev) ((if selected = [] then [] else [last selected]) @ es)"
proof (induction es arbitrary: addresses selected)
  case (Cons e es)
  have ne: "addresses @ [prop_event_to ev e] \<noteq> []" by simp
  show ?case unfolding extends.simps Cons.IH [OF ne] using Cons.prems by (cases es) auto
qed simp

lemma extends_layered_path:
  "extends ev token_id [start] [] p \<longleftrightarrow> layered_path ev token_id start p"
  by (auto simp: extends_iff layered_path_def layered_path_addresses_def)

lemma layered_path_from_iff:
  assumes "0 < minimum"
  shows "case layered_event_path_from ev (outgoing_events ev) token_id a minimum of
      Some p \<Rightarrow> layered_path ev token_id a p \<and> length (layered_path_addresses ev a p) = minimum
    | None \<Rightarrow> \<not> (\<exists>p. layered_path ev token_id a p \<and> length (layered_path_addresses ev a p) = minimum)"
  using assms search_result [of "[a]" ev token_id "[]" minimum]
  by (auto simp: layered_event_path_from_def extends_layered_path layered_path_addresses_def
      split: option.splits)

text \<open>C12. The search for a layered path is sound and complete: for a required number of addresses
  it returns a simple path of the token from the start address over exactly that many addresses,
  along events that follow each other, and it returns nothing only if there is no such path.\<close>

theorem layered_event_path_from_correct:
  assumes "0 < minimum"
  shows "case layered_event_path_from ev (outgoing_events ev) token_id start minimum of
      Some p \<Rightarrow> layered_path ev token_id start p \<and> length (layered_path_addresses ev start p) = minimum
    | None \<Rightarrow> \<not> (\<exists>p. layered_path ev token_id start p \<and> length (layered_path_addresses ev start p) = minimum)"
  using layered_path_from_iff [OF assms] .

text \<open>A token that moves twice.\<close>

definition hop :: "string \<Rightarrow> string \<Rightarrow> nat \<Rightarrow> transfer_event" where
  "hop from to block =
     \<lparr>tr_tx_hash = ''x'', tr_token_id = ''t'', tr_from = from, tr_to = to, tr_timestamp = None,
      tr_block_number = Some block, tr_is_mint = False, tr_gas_native = None, tr_fee_payer = None,
      tr_mint_payment_native = None, tr_mint_payment_usd = None, tr_mint_payment_receiver = None\<rparr>"

definition hop_bundle :: evidence_bundle where
  "hop_bundle = sample_bundle\<lparr>eb_transfers := [hop ''b'' ''c'' 2, hop ''a'' ''b'' 1]\<rparr>"

theorem layered_event_path_from_correct_witness:
  "layered_event_path_from hop_bundle (outgoing_events hop_bundle) ''t'' ''a'' 3 = Some [PropTransfer 1, PropTransfer 0] \<and>
   layered_path hop_bundle ''t'' ''a'' [PropTransfer 1, PropTransfer 0]"
proof -
  have "layered_event_path_from hop_bundle (outgoing_events hop_bundle) ''t'' ''a'' 3 = Some [PropTransfer 1, PropTransfer 0]"
    by code_simp
  then show ?thesis using layered_event_path_from_correct [of 3 hop_bundle "''t''" "''a''"] by simp
qed

section \<open>One instance per start\<close>

definition start_instance ::
  "evidence_bundle \<Rightarrow> nat \<Rightarrow> string \<times> string \<Rightarrow> behavior_instance option" where
  "start_instance ev minimum start =
     map_option (layered_instance ev (snd start))
       (layered_event_path_from ev (outgoing_events ev) (fst start) (snd start) minimum)"

text \<open>A path key determines its token and its start, so no start is dropped as already seen.\<close>

lemma layered_fold:
  assumes "distinct starts" "\<And>k. k \<in> fst st \<Longrightarrow> (fst k, hd (fst (snd k))) \<notin> set starts"
  shows "snd (fold (layered_step ev minimum) starts st) =
    snd st @ List.map_filter (start_instance ev minimum) starts"
  using assms
proof (induction starts arbitrary: st)
  case Nil
  show ?case by simp
next
  case (Cons a starts)
  show ?case
  proof (cases "layered_event_path_from ev (outgoing_events ev) (fst a) (snd a) minimum")
    case None
    then have "layered_step ev minimum a st = st" "start_instance ev minimum a = None"
      by (simp_all add: layered_step_def start_instance_def)
    with Cons show ?thesis by (simp add: map_filter_simps)
  next
    case (Some p)
    let ?key = "(fst a, layered_path_addresses ev (snd a) p, map (prop_event_transaction ev) p)"
    have "(fst ?key, hd (fst (snd ?key))) = a" by (simp add: layered_path_addresses_def)
    then have "?key \<notin> fst st" using Cons.prems(2) [of ?key] by auto
    then have step: "layered_step ev minimum a st = (insert ?key (fst st), snd st @ [layered_instance ev (snd a) p])"
      and inst: "start_instance ev minimum a = Some (layered_instance ev (snd a) p)"
      using Some by (simp_all add: layered_step_def start_instance_def Let_def)
    have "snd (fold (layered_step ev minimum) starts (layered_step ev minimum a st)) =
        snd (layered_step ev minimum a st) @ List.map_filter (start_instance ev minimum) starts"
    proof (rule Cons.IH)
      fix k assume "k \<in> fst (layered_step ev minimum a st)"
      with step consider "k = ?key" | "k \<in> fst st" by auto
      then show "(fst k, hd (fst (snd k))) \<notin> set starts"
        using Cons.prems by cases (auto simp: layered_path_addresses_def)
    qed (use Cons.prems in simp)
    with step inst show ?thesis by (simp add: map_filter_simps)
  qed
qed

lemma layered_paths_eq:
  "layered_paths ev malicious minimum = List.map_filter (start_instance ev minimum) (layered_starts ev malicious)"
proof -
  have "distinct (layered_starts ev malicious)" by (simp add: layered_starts_def)
  from layered_fold [OF this, of "({}, [])" ev minimum] show ?thesis by (simp add: layered_paths_def)
qed

lemma set_layered_starts:
  "(token_id, a) \<in> set (layered_starts ev malicious) \<longleftrightarrow>
     normalize_chain_address (eb_chain ev) a \<in> malicious \<and>
     (\<exists>e. path_event ev token_id e \<and> event_from ev e = a)"
proof -
  have "(token_id, a) \<in> fst ` set (outgoing_events ev) \<longleftrightarrow> map_of (outgoing_events ev) (token_id, a) \<noteq> None"
    by (simp add: map_of_eq_None_iff)
  also have "\<dots> \<longleftrightarrow> (\<exists>e. path_event ev token_id e \<and> event_from ev e = a)"
    by (auto simp: lookup_outgoing_events Let_def filter_empty_conv set_path_events path_event_def)
  finally show ?thesis by (auto simp: layered_starts_def)
qed

lemma length_map_filter: "length (List.map_filter f xs) = length (filter (\<lambda>x. f x \<noteq> None) xs)"
  by (simp add: map_filter_def comp_def)

lemma layered_path_first:
  assumes "layered_path ev token_id a p" "2 \<le> length (layered_path_addresses ev a p)"
  shows "\<exists>e. path_event ev token_id e \<and> event_from ev e = a"
proof -
  from assms(2) obtain e es where "p = e # es" by (cases p) (auto simp: layered_path_addresses_def)
  with assms(1) show ?thesis by (auto simp: layered_path_def layered_path_addresses_def)
qed

lemma layered_instance_facts:
  assumes "0 < minimum" and "i \<in> set (layered_paths ev malicious minimum)"
  shows "bi_kind i = LayeredTransfer \<and> bi_path_length i = Some minimum \<and>
    length (bi_addresses i) = minimum \<and> distinct (bi_addresses i) \<and>
    normalize_chain_address (eb_chain ev) (hd (bi_addresses i)) \<in> malicious"
proof -
  from assms(2) obtain token_id a where start: "(token_id, a) \<in> set (layered_starts ev malicious)"
    and "start_instance ev minimum (token_id, a) = Some i"
    by (auto simp: layered_paths_eq map_filter_def)
  then obtain p where i: "i = layered_instance ev a p"
    and p: "layered_event_path_from ev (outgoing_events ev) token_id a minimum = Some p"
    by (auto simp: start_instance_def)
  have "bi_kind (instance_from_prop_events LayeredTransfer ev p) = LayeredTransfer"
    by (simp add: instance_from_prop_events_def finalize_instance_def absorb_event_kind)
  moreover from layered_path_from_iff [OF assms(1), of ev token_id a] p
  have "layered_path ev token_id a p" "length (layered_path_addresses ev a p) = minimum" by simp_all
  ultimately show ?thesis
    using start
    by (auto simp: i layered_instance_def Let_def layered_path_def set_layered_starts)
      (simp add: layered_path_addresses_def)
qed

text \<open>The layered transfers of a candidate: there is one instance for every token and every
  suspected address from which a long enough layered path starts, and every instance names a path
  of the required number of different addresses that begins at a suspected one.\<close>

theorem layered_paths_spec:
  assumes "2 \<le> minimum"
  shows "length (layered_paths ev malicious minimum) =
      card {(token_id, a). normalize_chain_address (eb_chain ev) a \<in> malicious \<and>
        (\<exists>p. layered_path ev token_id a p \<and> length (layered_path_addresses ev a p) = minimum)} \<and>
    (\<forall>i \<in> set (layered_paths ev malicious minimum).
        bi_kind i = LayeredTransfer \<and> bi_path_length i = Some minimum \<and>
        length (bi_addresses i) = minimum \<and> distinct (bi_addresses i) \<and>
        normalize_chain_address (eb_chain ev) (hd (bi_addresses i)) \<in> malicious)"
proof -
  let ?path = "\<lambda>token_id a. \<exists>p. layered_path ev token_id a p \<and> length (layered_path_addresses ev a p) = minimum"
  have pos: "0 < minimum" using assms by simp
  have some: "start_instance ev minimum (token_id, a) \<noteq> None \<longleftrightarrow> ?path token_id a" for token_id a
    using layered_path_from_iff [OF pos, of ev token_id a] by (auto simp: start_instance_def split: option.splits)
  have first: "\<exists>e. path_event ev token_id e \<and> event_from ev e = a" if "?path token_id a" for token_id a
    using that layered_path_first assms by blast
  have "length (layered_paths ev malicious minimum) =
      card (set (filter (\<lambda>s. start_instance ev minimum s \<noteq> None) (layered_starts ev malicious)))"
    unfolding layered_paths_eq length_map_filter
    by (rule distinct_card [symmetric]) (simp add: layered_starts_def)
  also have "set (filter (\<lambda>s. start_instance ev minimum s \<noteq> None) (layered_starts ev malicious)) =
      {(token_id, a). normalize_chain_address (eb_chain ev) a \<in> malicious \<and> ?path token_id a}"
    unfolding set_filter using first some
    by (intro set_eqI) (simp only: mem_Collect_eq split_paired_all case_prod_conv set_layered_starts, blast)
  finally show ?thesis using layered_instance_facts [OF pos] by blast
qed

theorem layered_paths_spec_witness:
  "length (layered_paths hop_bundle {''a''} 3) = 1 \<and>
   card {(token_id, a). normalize_chain_address (eb_chain hop_bundle) a \<in> {''a''} \<and>
     (\<exists>p. layered_path hop_bundle token_id a p \<and> length (layered_path_addresses hop_bundle a p) = 3)} = 1"
proof -
  have "length (layered_paths hop_bundle {''a''} 3) = 1" by code_simp
  then show ?thesis using layered_paths_spec [of 3 hop_bundle "{''a''}"] by simp
qed

end
