(* ===== verification/WashCycles.thy ===== *)
theory WashCycles
  imports BehaviorData
begin

text \<open>
  Wash cycles and pump-and-exit (\<open>src/analysis2/crates/core/src/analysis/behavior.rs\<close>): the sale
  components around a suspected operator, the sales inside each cycle and the sales by which a
  cycle exits to victims afterwards, and the instances made of them.  The two loops over the
  sales write into the vector of cycles through the cycle of the seller (\<open>bucket_fold\<close>).
\<close>

section \<open>Values of a cycle\<close>

record cycle_values =
  cv_end :: "int option"
  cv_internal_event_count :: nat
  cv_internal_native_sum :: f64
  cv_internal_native_count :: nat
  cv_internal_usd_sum :: f64
  cv_internal_usd_count :: nat
  cv_exit_event_count :: nat
  cv_exit_native_sum :: f64
  cv_exit_native_count :: nat
  cv_exit_usd_sum :: f64
  cv_exit_usd_count :: nat
  cv_internal_events :: "nat list"
  cv_exit_events :: "nat list"

definition default_cycle_values :: cycle_values where
  "default_cycle_values =
     \<lparr>cv_end = None, cv_internal_event_count = 0, cv_internal_native_sum = 0,
      cv_internal_native_count = 0, cv_internal_usd_sum = 0, cv_internal_usd_count = 0,
      cv_exit_event_count = 0, cv_exit_native_sum = 0, cv_exit_native_count = 0,
      cv_exit_usd_sum = 0, cv_exit_usd_count = 0, cv_internal_events = [], cv_exit_events = []\<rparr>"

datatype value_side = SideInternal | SideExit

definition add_event :: "value_side \<Rightarrow> cycle_values \<Rightarrow> cycle_values" where
  "add_event side v =
     (case side of
        SideInternal \<Rightarrow> v\<lparr>cv_internal_event_count := cv_internal_event_count v + 1\<rparr>
      | SideExit \<Rightarrow> v\<lparr>cv_exit_event_count := cv_exit_event_count v + 1\<rparr>)"

definition add_native :: "f64 option \<Rightarrow> value_side \<Rightarrow> cycle_values \<Rightarrow> cycle_values" where
  "add_native amount side v =
     (case opt_filter (\<lambda>x. 0 \<le> x) amount of
        None \<Rightarrow> v
      | Some native \<Rightarrow>
          (case side of
             SideInternal \<Rightarrow> v\<lparr>cv_internal_native_sum := cv_internal_native_sum v + native,
               cv_internal_native_count := cv_internal_native_count v + 1\<rparr>
           | SideExit \<Rightarrow> v\<lparr>cv_exit_native_sum := cv_exit_native_sum v + native,
               cv_exit_native_count := cv_exit_native_count v + 1\<rparr>))"

definition add_usd :: "f64 option \<Rightarrow> value_side \<Rightarrow> cycle_values \<Rightarrow> cycle_values" where
  "add_usd amount side v =
     (case opt_filter (\<lambda>x. 0 \<le> x) amount of
        None \<Rightarrow> v
      | Some usd \<Rightarrow>
          (case side of
             SideInternal \<Rightarrow> v\<lparr>cv_internal_usd_sum := cv_internal_usd_sum v + usd,
               cv_internal_usd_count := cv_internal_usd_count v + 1\<rparr>
           | SideExit \<Rightarrow> v\<lparr>cv_exit_usd_sum := cv_exit_usd_sum v + usd,
               cv_exit_usd_count := cv_exit_usd_count v + 1\<rparr>))"

definition add_value :: "sale_event \<Rightarrow> value_side \<Rightarrow> cycle_values \<Rightarrow> cycle_values" where
  "add_value s side v = add_usd (sa_usd_amount s) side (add_native (sa_native_amount s) side (add_event side v))"

definition exit_price_exceeds_internal :: "cycle_values \<Rightarrow> bool" where
  "exit_price_exceeds_internal v \<longleftrightarrow>
     cv_internal_event_count v > 0 \<and> cv_exit_event_count v > 0 \<and>
     cv_internal_usd_count v = cv_internal_event_count v \<and> cv_exit_usd_count v = cv_exit_event_count v \<and>
     cv_exit_usd_sum v / f64_of_nat (cv_exit_usd_count v) >
       cv_internal_usd_sum v / f64_of_nat (cv_internal_usd_count v)"

definition comparable_average_ratio :: "cycle_values \<Rightarrow> f64 option" where
  "comparable_average_ratio v =
     (if cv_internal_event_count v = 0 \<or> cv_exit_event_count v = 0 \<or>
         cv_internal_usd_count v \<noteq> cv_internal_event_count v \<or> cv_exit_usd_count v \<noteq> cv_exit_event_count v
      then None
      else let internal = cv_internal_usd_sum v / f64_of_nat (cv_internal_usd_count v)
        in then_some (internal > 0) (cv_exit_usd_sum v / f64_of_nat (cv_exit_usd_count v) / internal))"

section \<open>Cycles and their sales\<close>

definition vertex_address :: "string \<Rightarrow> address_graph \<Rightarrow> nat \<Rightarrow> string" where
  "vertex_address chain g v = normalize_chain_address chain (ag_addresses g ! v)"

definition wash_components ::
  "string \<Rightarrow> string set \<Rightarrow> paper_config \<Rightarrow> address_graph \<Rightarrow> nat list list \<Rightarrow> nat list list" where
  "wash_components chain malicious cfg sale_graph sale_components =
     filter (\<lambda>c. length c \<ge> pc_min_cycle_size cfg \<and>
         (\<exists>v \<in> set c. vertex_address chain sale_graph v \<in> malicious)) sale_components"

definition wash_by_address :: "string \<Rightarrow> address_graph \<Rightarrow> nat list list \<Rightarrow> (string \<times> nat) list" where
  "wash_by_address chain sale_graph components =
     fold (\<lambda>(wash_id, c). fold (\<lambda>v. ah_insert (vertex_address chain sale_graph v) wash_id) c)
       (enumerated components) []"

definition cycle_of_seller :: "string \<Rightarrow> (string \<times> nat) list \<Rightarrow> nat \<times> sale_event \<Rightarrow> nat option" where
  "cycle_of_seller chain wash e = map_of wash (normalize_chain_address chain (sa_seller (snd e)))"

definition cycle_of_buyer :: "string \<Rightarrow> (string \<times> nat) list \<Rightarrow> nat \<times> sale_event \<Rightarrow> nat option" where
  "cycle_of_buyer chain wash e = map_of wash (normalize_chain_address chain (sa_buyer (snd e)))"

definition cycle_of_sale :: "string \<Rightarrow> (string \<times> nat) list \<Rightarrow> nat \<times> sale_event \<Rightarrow> nat option" where
  "cycle_of_sale chain wash e =
     (case (cycle_of_seller chain wash e, cycle_of_buyer chain wash e) of
        (Some left, Some right) \<Rightarrow> if left = right then Some left else None
      | _ \<Rightarrow> None)"

definition internal_sale :: "nat \<times> sale_event \<Rightarrow> cycle_values \<Rightarrow> cycle_values" where
  "internal_sale e v =
     (let v' = add_value (snd e) SideInternal (v\<lparr>cv_end := max_option (cv_end v) (sa_timestamp (snd e))\<rparr>)
      in v'\<lparr>cv_internal_events := cv_internal_events v' @ [fst e]\<rparr>)"

definition exits_to_victim ::
  "string \<Rightarrow> string set \<Rightarrow> (string \<times> nat) list \<Rightarrow> int option \<Rightarrow> nat \<times> sale_event \<Rightarrow> bool" where
  "exits_to_victim chain honest wash cycle_end e \<longleftrightarrow>
     normalize_chain_address chain (sa_buyer (snd e)) \<in> honest \<and>
     cycle_of_buyer chain wash e \<noteq> cycle_of_seller chain wash e \<and>
     is_some_and (\<lambda>(end, exit). exit > end) (opt_zip cycle_end (sa_timestamp (snd e)))"

definition exit_sale ::
  "string \<Rightarrow> string set \<Rightarrow> (string \<times> nat) list \<Rightarrow> nat \<times> sale_event \<Rightarrow> cycle_values \<Rightarrow> cycle_values" where
  "exit_sale chain honest wash e v =
     (if exits_to_victim chain honest wash (cv_end v) e
      then (let v' = add_value (snd e) SideExit v
            in v'\<lparr>cv_exit_events := cv_exit_events v' @ [fst e]\<rparr>)
      else v)"

definition cycle_values_of ::
  "evidence_bundle \<Rightarrow> string set \<Rightarrow> (string \<times> nat) list \<Rightarrow> nat \<Rightarrow> cycle_values list" where
  "cycle_values_of ev honest wash cycles =
     (let chain = eb_chain ev; sales = enumerated (eb_sales ev);
          internal = bucket_fold (cycle_of_sale chain wash) internal_sale sales
            (replicate cycles default_cycle_values)
      in bucket_fold (cycle_of_seller chain wash) (exit_sale chain honest wash) sales internal)"

section \<open>Instances\<close>

definition cycle_instance :: "sale_event list \<Rightarrow> address_graph \<Rightarrow> nat list \<Rightarrow> cycle_values \<Rightarrow> behavior_instance" where
  "cycle_instance sales g c v =
     (let selected = map ((!) sales) (cv_internal_events v);
          addresses = sort (map ((!) (ag_addresses g)) c);
          distributions = participant_distributions addresses selected
      in (instance_from_sales WashTrading selected)
           \<lparr>bi_addresses := addresses,
            bi_gini_nft_count := gini (fst distributions),
            bi_gini_token_transaction_count := gini (snd distributions)\<rparr>)"

definition cycle_instances ::
  "sale_event list \<Rightarrow> address_graph \<Rightarrow> nat list list \<Rightarrow> cycle_values list \<Rightarrow> behavior_instance list" where
  "cycle_instances sales g components vs = map (\<lambda>(c, v). cycle_instance sales g c v) (zip components vs)"

definition i64_saturating_sub :: "int \<Rightarrow> int \<Rightarrow> int" where
  "i64_saturating_sub a b = max (- (2 ^ 63)) (min (2 ^ 63 - 1) (a - b))"

definition loss_event :: "sale_event \<Rightarrow> linked_loss_event option" where
  "loss_event s =
     map_option (\<lambda>usd. \<lparr>le_tx_hash = sa_tx_hash s, le_buyer = sa_buyer s, le_token_id = sa_token_id s,
         le_usd_amount = usd\<rparr>) (opt_filter (\<lambda>x. x > 0) (sa_usd_amount s))"

definition pump_instance :: "sale_event list \<Rightarrow> address_graph \<Rightarrow> nat list \<Rightarrow> cycle_values \<Rightarrow> behavior_instance" where
  "pump_instance sales g c v =
     (let selected = map ((!) sales) (cv_exit_events v);
          i = instance_from_sales PumpAndExit selected;
          cycle_nfts = sort_dedup (map (\<lambda>index. sa_token_id (sales ! index)) (cv_internal_events v))
      in i\<lparr>bi_addresses := sort_dedup (bi_addresses i @ map ((!) (ag_addresses g)) c),
           bi_linked_buyers := sort_dedup (map sa_buyer selected),
           bi_linked_loss_native := cv_exit_native_sum v,
           bi_linked_loss_usd := cv_exit_usd_sum v,
           bi_linked_loss_events := List.map_filter loss_event selected,
           bi_exit_to_internal_price_ratio := comparable_average_ratio v,
           bi_exit_to_cycle_nft_ratio := then_some (cycle_nfts \<noteq> [])
             (f64_of_nat (length (bi_nfts i)) / f64_of_nat (length cycle_nfts)),
           bi_exit_delay_seconds := map_option (\<lambda>(cycle_end, exit_start). i64_saturating_sub exit_start cycle_end)
             (opt_zip (cv_end v) (bi_start_timestamp i))\<rparr>)"

definition pump_instances ::
  "sale_event list \<Rightarrow> address_graph \<Rightarrow> nat list list \<Rightarrow> cycle_values list \<Rightarrow> behavior_instance list" where
  "pump_instances sales g components vs =
     map (\<lambda>(cycle, v). pump_instance sales g (components ! cycle) v)
       (filter (\<lambda>(_, v). exit_price_exceeds_internal v) (enumerated vs))"

section \<open>The sales of a cycle\<close>

lemmas add_value_defs = add_value_def add_event_def add_native_def add_usd_def

lemma add_value_frame [simp]:
  "cv_end (add_value s side v) = cv_end v"
  "cv_internal_events (add_value s side v) = cv_internal_events v"
  "cv_exit_events (add_value s side v) = cv_exit_events v"
  "cv_internal_event_count (add_value s SideExit v) = cv_internal_event_count v"
  "cv_exit_event_count (add_value s SideInternal v) = cv_exit_event_count v"
  "cv_internal_event_count (add_value s SideInternal v) = cv_internal_event_count v + 1"
  "cv_exit_event_count (add_value s SideExit v) = cv_exit_event_count v + 1"
  by (cases side; auto simp: add_value_defs split: option.splits value_side.splits)+

lemma fold_internal_sale:
  "cv_internal_events (fold internal_sale es v) = cv_internal_events v @ map fst es"
  "cv_internal_event_count (fold internal_sale es v) = cv_internal_event_count v + length es"
  "cv_exit_events (fold internal_sale es v) = cv_exit_events v"
  "cv_exit_event_count (fold internal_sale es v) = cv_exit_event_count v"
  "cv_end (fold internal_sale es v) = fold (\<lambda>e acc. max_option acc (sa_timestamp (snd e))) es (cv_end v)"
  by (induction es arbitrary: v) (auto simp: internal_sale_def Let_def)

lemma fold_exit_sale:
  "cv_end (fold (exit_sale chain honest wash) es v) = cv_end v"
  "cv_internal_events (fold (exit_sale chain honest wash) es v) = cv_internal_events v"
  "cv_internal_event_count (fold (exit_sale chain honest wash) es v) = cv_internal_event_count v"
  "cv_exit_events (fold (exit_sale chain honest wash) es v) =
     cv_exit_events v @ map fst (filter (exits_to_victim chain honest wash (cv_end v)) es)"
  "cv_exit_event_count (fold (exit_sale chain honest wash) es v) =
     cv_exit_event_count v + length (filter (exits_to_victim chain honest wash (cv_end v)) es)"
  by (induction es arbitrary: v) (auto simp: exit_sale_def Let_def)

lemma map_fst_filter_enumerated:
  "map fst (filter P (enumerated xs)) = filter (\<lambda>i. P (i, xs ! i)) [0..<length xs]"
proof -
  have "enumerated xs = map (\<lambda>i. (i, xs ! i)) [0..<length xs]"
    by (rule nth_equalityI) simp_all
  then show ?thesis by (simp add: filter_map comp_def)
qed

lemma cycle_of_sale_iff:
  "cycle_of_sale chain wash e = Some k \<longleftrightarrow>
     cycle_of_seller chain wash e = Some k \<and> cycle_of_buyer chain wash e = Some k"
  by (auto simp: cycle_of_sale_def split: option.splits if_splits)

lemma max_option_upper:
  "acc = Some t \<or> x = Some t \<Longrightarrow> \<exists>u. max_option acc x = Some u \<and> t \<le> u" for t :: "'a::linorder"
  by (auto simp: max_option_def split: option.splits)

lemma max_option_SomeD: "max_option acc x = Some u \<Longrightarrow> acc = Some u \<or> x = Some u" for u :: "'a::linorder"
  by (auto simp: max_option_def max_def split: option.splits if_splits)

lemma fold_max_option_upper:
  "acc = Some t \<or> (\<exists>e \<in> set es. f e = Some t) \<Longrightarrow>
   \<exists>u. fold (\<lambda>e acc. max_option acc (f e)) es acc = Some u \<and> t \<le> u" for t :: "'a::linorder"
proof (induction es arbitrary: acc t)
  case (Cons e es)
  have "\<exists>t'. t \<le> t' \<and> (max_option acc (f e) = Some t' \<or> (\<exists>e \<in> set es. f e = Some t'))"
    using Cons.prems max_option_upper [of acc t "f e"] by auto
  then obtain t' where "t \<le> t'" "max_option acc (f e) = Some t' \<or> (\<exists>e \<in> set es. f e = Some t')" by blast
  with Cons.IH [of "max_option acc (f e)" t'] show ?case by (auto intro: order_trans)
qed auto

lemma fold_max_option_SomeD:
  "fold (\<lambda>e acc. max_option acc (f e)) es acc = Some u \<Longrightarrow>
   acc = Some u \<or> (\<exists>e \<in> set es. f e = Some u)" for u :: "'a::linorder"
proof (induction es arbitrary: acc)
  case (Cons e es)
  from Cons.IH [of "max_option acc (f e)"] Cons.prems max_option_SomeD [of acc "f e" u] show ?case by auto
qed simp

definition in_cycle :: "evidence_bundle \<Rightarrow> (string \<times> nat) list \<Rightarrow> nat \<Rightarrow> string \<Rightarrow> bool" where
  "in_cycle ev wash k a \<longleftrightarrow> map_of wash (normalize_chain_address (eb_chain ev) a) = Some k"

definition internal_index :: "evidence_bundle \<Rightarrow> (string \<times> nat) list \<Rightarrow> nat \<Rightarrow> nat \<Rightarrow> bool" where
  "internal_index ev wash k i \<longleftrightarrow>
     in_cycle ev wash k (sa_seller (eb_sales ev ! i)) \<and> in_cycle ev wash k (sa_buyer (eb_sales ev ! i))"

definition exit_index :: "evidence_bundle \<Rightarrow> string set \<Rightarrow> (string \<times> nat) list \<Rightarrow> int option \<Rightarrow> nat \<Rightarrow> nat \<Rightarrow> bool" where
  "exit_index ev honest wash cycle_end k i \<longleftrightarrow>
     in_cycle ev wash k (sa_seller (eb_sales ev ! i)) \<and> \<not> in_cycle ev wash k (sa_buyer (eb_sales ev ! i)) \<and>
     normalize_chain_address (eb_chain ev) (sa_buyer (eb_sales ev ! i)) \<in> honest \<and>
     (\<exists>t u. cycle_end = Some u \<and> sa_timestamp (eb_sales ev ! i) = Some t \<and> u < t)"

lemma cycle_values_nth:
  assumes "k < cycles"
  shows "cycle_values_of ev honest wash cycles ! k =
    fold (exit_sale (eb_chain ev) honest wash)
      (filter (\<lambda>e. cycle_of_seller (eb_chain ev) wash e = Some k) (enumerated (eb_sales ev)))
      (fold internal_sale (filter (\<lambda>e. cycle_of_sale (eb_chain ev) wash e = Some k) (enumerated (eb_sales ev)))
        default_cycle_values)"
  using assms by (simp add: cycle_values_of_def Let_def nth_bucket_fold)

lemma exit_index_iff:
  "cycle_of_seller (eb_chain ev) wash (i, eb_sales ev ! i) = Some k \<and>
   exits_to_victim (eb_chain ev) honest wash cycle_end (i, eb_sales ev ! i) \<longleftrightarrow>
   exit_index ev honest wash cycle_end k i"
  by (auto simp: exits_to_victim_def exit_index_def cycle_of_seller_def cycle_of_buyer_def in_cycle_def
      is_some_and_iff opt_zip_eq_Some)

lemma cycle_values_facts:
  assumes "k < cycles"
    and v_def: "v = cycle_values_of ev honest wash cycles ! k"
  shows "cv_internal_events v = filter (internal_index ev wash k) [0..<length (eb_sales ev)]"
    and "cv_exit_events v = filter (exit_index ev honest wash (cv_end v) k) [0..<length (eb_sales ev)]"
    and "cv_internal_event_count v = length (cv_internal_events v)"
    and "cv_exit_event_count v = length (cv_exit_events v)"
    and "cv_end v = fold (\<lambda>i acc. max_option acc (sa_timestamp (eb_sales ev ! i))) (cv_internal_events v) None"
proof -
  let ?chain = "eb_chain ev" and ?sales = "enumerated (eb_sales ev)"
  let ?es = "filter (\<lambda>e. cycle_of_sale ?chain wash e = Some k) ?sales"
  have v: "v = fold (exit_sale ?chain honest wash) (filter (\<lambda>e. cycle_of_seller ?chain wash e = Some k) ?sales)
      (fold internal_sale ?es default_cycle_values)"
    using assms(1) by (simp add: v_def cycle_values_nth)
  have "cv_internal_events v = map fst ?es"
    by (simp add: v fold_exit_sale fold_internal_sale default_cycle_values_def)
  also have "\<dots> = filter (internal_index ev wash k) [0..<length (eb_sales ev)]"
    unfolding map_fst_filter_enumerated
    by (simp add: cycle_of_sale_iff internal_index_def [abs_def] in_cycle_def cycle_of_seller_def cycle_of_buyer_def)
  finally show events: "cv_internal_events v = filter (internal_index ev wash k) [0..<length (eb_sales ev)]" .
  have "cv_exit_events v = map fst (filter (\<lambda>e. cycle_of_seller ?chain wash e = Some k \<and>
      exits_to_victim ?chain honest wash (cv_end v) e) ?sales)"
    by (simp add: v fold_exit_sale fold_internal_sale default_cycle_values_def conj_commute)
  then show "cv_exit_events v = filter (exit_index ev honest wash (cv_end v) k) [0..<length (eb_sales ev)]"
    unfolding map_fst_filter_enumerated exit_index_iff .
  show "cv_internal_event_count v = length (cv_internal_events v)"
    "cv_exit_event_count v = length (cv_exit_events v)"
    by (simp_all add: v fold_exit_sale fold_internal_sale default_cycle_values_def)
  have "cv_end v = fold (\<lambda>e acc. max_option acc (sa_timestamp (snd e))) ?es None"
    by (simp add: v fold_exit_sale fold_internal_sale default_cycle_values_def)
  also have "\<dots> = fold (\<lambda>i acc. max_option acc (sa_timestamp (eb_sales ev ! i))) (map fst ?es) None"
    unfolding fold_map by (rule fold_cong) (auto simp: in_set_enumerated fun_eq_iff)
  finally show "cv_end v = fold (\<lambda>i acc. max_option acc (sa_timestamp (eb_sales ev ! i))) (cv_internal_events v) None"
    by (simp add: v fold_exit_sale fold_internal_sale default_cycle_values_def)
qed

text \<open>The sales of a cycle: inside are exactly the sales between two of its addresses; the
  exits are exactly the later sales from one of its addresses to a victim outside, where later
  means after the last dated sale inside; the event counters count them.\<close>

theorem cycle_values_of_spec:
  assumes "k < cycles" and v: "v = cycle_values_of ev honest wash cycles ! k"
  shows "cv_internal_events v = filter (internal_index ev wash k) [0..<length (eb_sales ev)] \<and>
    cv_exit_events v = filter (exit_index ev honest wash (cv_end v) k) [0..<length (eb_sales ev)] \<and>
    cv_internal_event_count v = length (cv_internal_events v) \<and>
    cv_exit_event_count v = length (cv_exit_events v) \<and>
    (\<forall>u. cv_end v = Some u \<longrightarrow> (\<exists>i \<in> set (cv_internal_events v). sa_timestamp (eb_sales ev ! i) = Some u)) \<and>
    (\<forall>i \<in> set (cv_internal_events v). \<forall>t. sa_timestamp (eb_sales ev ! i) = Some t \<longrightarrow>
       (\<exists>u. cv_end v = Some u \<and> t \<le> u))"
proof -
  note facts = cycle_values_facts [OF assms]
  have "\<exists>i \<in> set (cv_internal_events v). sa_timestamp (eb_sales ev ! i) = Some u" if "cv_end v = Some u" for u
    using fold_max_option_SomeD [of "\<lambda>i. sa_timestamp (eb_sales ev ! i)" "cv_internal_events v" None u] that facts(5)
    by auto
  moreover have "\<exists>u. cv_end v = Some u \<and> t \<le> u"
    if "i \<in> set (cv_internal_events v)" "sa_timestamp (eb_sales ev ! i) = Some t" for i t
    unfolding facts(5) by (rule fold_max_option_upper) (use that in auto)
  ultimately show ?thesis using facts(1-4) by blast
qed

definition wash_sale :: "string \<Rightarrow> string \<Rightarrow> int \<Rightarrow> rat \<Rightarrow> sale_event" where
  "wash_sale seller buyer time usd =
     default_sale\<lparr>sa_seller := seller, sa_buyer := buyer, sa_timestamp := Some time, sa_usd_amount := Some (Fin usd)\<rparr>"

text \<open>Two addresses trade with each other and then sell to a victim at a higher price.\<close>

definition wash_bundle :: evidence_bundle where
  "wash_bundle = sample_bundle\<lparr>eb_sales :=
     [wash_sale ''a'' ''b'' 1 0, wash_sale ''b'' ''a'' 2 0, wash_sale ''a'' ''v'' 9 1]\<rparr>"

lemma wash_bundle_values:
  "cycle_values_of wash_bundle {''v''} [(''a'', 0), (''b'', 0)] 1 ! 0 =
     default_cycle_values\<lparr>cv_end := Some 2, cv_internal_event_count := 2, cv_internal_usd_count := 2,
       cv_exit_event_count := 1, cv_exit_usd_sum := Fin 1, cv_exit_usd_count := 1,
       cv_internal_events := [0, 1], cv_exit_events := [2]\<rparr>"
proof -
  let ?wash = "[(''a'', 0), (''b'', 0 :: nat)]" and ?ev = "wash_bundle"
  have chain: "eb_chain ?ev = ''base''"
    and sales: "enumerated (eb_sales ?ev) =
      [(0, wash_sale ''a'' ''b'' 1 0), (1, wash_sale ''b'' ''a'' 2 0), (2, wash_sale ''a'' ''v'' 9 1)]"
    by (simp_all add: wash_bundle_def sample_bundle_def empty_bundle_def enumerated_def upt_rec numeral_eq_Suc)
  have norm: "normalize_chain_address ''base'' ''a'' = ''a''" "normalize_chain_address ''base'' ''b'' = ''b''"
    "normalize_chain_address ''base'' ''v'' = ''v''" by code_simp+
  show ?thesis
    by (simp add: cycle_values_nth chain sales norm cycle_of_sale_def cycle_of_seller_def cycle_of_buyer_def
        wash_sale_def default_sale_def internal_sale_def exit_sale_def exits_to_victim_def add_value_defs
        default_cycle_values_def max_option_def f64_ops Let_def)
qed

theorem cycle_values_of_spec_witness:
  "cv_internal_events (cycle_values_of wash_bundle {''v''} [(''a'', 0), (''b'', 0)] 1 ! 0) = [0, 1] \<and>
   (\<exists>u. cv_end (cycle_values_of wash_bundle {''v''} [(''a'', 0), (''b'', 0)] 1 ! 0) = Some u \<and> 1 \<le> u)"
proof -
  have "sa_timestamp (eb_sales wash_bundle ! 0) = Some 1" by (simp add: wash_bundle_def wash_sale_def)
  then show ?thesis
    using cycle_values_of_spec [of 0 1 _ wash_bundle "{''v''}" "[(''a'', 0), (''b'', 0)]"]
    unfolding wash_bundle_values by simp
qed

section \<open>Pump and exit\<close>

lemma absorb_sale_start:
  "bi_start_timestamp (fold absorb_sale ss i) =
     min_option (bi_start_timestamp i) (list_min (List.map_filter sa_timestamp ss))"
  unfolding fold_min_option [symmetric] by (rule fold_project) (simp add: absorb_sale_def)

lemma f64_ratio_ge_one: "1 \<le> x / y" if "0 < y" "y < x" for x y :: f64
proof (cases x; cases y)
  fix a b assume x: "x = Fin a" and y: "y = Fin b"
  with that have "1 \<le> a / b" "0 < b" by (auto simp: f64_ops)
  with round_f64_mono [of 1 "a / b"] x y show ?thesis by (simp add: divide_f64_def one_f64_def)
qed (use that in \<open>auto simp: f64_ops\<close>)

lemma comparable_average_ratio_ge_one:
  "exit_price_exceeds_internal v \<Longrightarrow> comparable_average_ratio v = Some r \<Longrightarrow> 1 \<le> r"
  by (auto simp: comparable_average_ratio_def exit_price_exceeds_internal_def Let_def split: if_splits
      intro: f64_ratio_ge_one)

text \<open>C13. A pump-and-exit instance of a cycle: its exits follow the cycle by a positive delay, it
  names at least one buyer, every named buyer is a victim outside the cycle, its exit price is at
  least the internal price when the two are comparable, and its exposure is that of the exits.\<close>

theorem pump_instance_spec:
  assumes "k < cycles" and v: "v = cycle_values_of ev honest wash cycles ! k"
    and exceeds: "exit_price_exceeds_internal v"
    and i: "i = pump_instance (eb_sales ev) g c v"
  shows "bi_kind i = PumpAndExit \<and>
    (\<exists>d. bi_exit_delay_seconds i = Some d \<and> 0 < d) \<and>
    bi_linked_buyers i \<noteq> [] \<and>
    (\<forall>b \<in> set (bi_linked_buyers i). normalize_chain_address (eb_chain ev) b \<in> honest \<and> \<not> in_cycle ev wash k b) \<and>
    (\<forall>r. bi_exit_to_internal_price_ratio i = Some r \<longrightarrow> 1 \<le> r) \<and>
    bi_exit_to_cycle_nft_ratio i \<noteq> None \<and> bi_linked_loss_usd i = cv_exit_usd_sum v"
proof -
  note facts = cycle_values_facts [OF assms(1) v]
  let ?selected = "map ((!) (eb_sales ev)) (cv_exit_events v)"
  have ne: "cv_internal_events v \<noteq> []" "cv_exit_events v \<noteq> []"
    using exceeds facts(3,4) by (auto simp: exit_price_exceeds_internal_def)
  have exit: "exit_index ev honest wash (cv_end v) k j" if "j \<in> set (cv_exit_events v)" for j
    using that by (subst (asm) facts(2)) simp
  with ne(2) obtain u where u: "cv_end v = Some u" by (cases "cv_exit_events v") (auto simp: exit_index_def)
  have times: "\<forall>j \<in> set (cv_exit_events v). \<exists>t. sa_timestamp (eb_sales ev ! j) = Some t \<and> u < t"
    using exit u by (auto simp: exit_index_def)
  then have "List.map_filter sa_timestamp ?selected \<noteq> []"
    using ne(2) by (cases "cv_exit_events v") (auto simp: map_filter_simps)
  then obtain t where t: "list_min (List.map_filter sa_timestamp ?selected) = Some t"
    by (metis list_min_None not_Some_eq)
  have "t \<in> set (List.map_filter sa_timestamp ?selected)" using list_min_SomeD [OF t] by simp
  then have "u < t" using times by (auto simp: map_filter_def)
  moreover have "bi_start_timestamp (instance_from_sales PumpAndExit ?selected) = Some t"
    by (simp add: instance_from_sales_def finalize_instance_def absorb_sale_start default_instance_def t)
  ultimately have delay: "\<exists>d. bi_exit_delay_seconds i = Some d \<and> 0 < d"
    by (simp add: i pump_instance_def Let_def u i64_saturating_sub_def)
  have kind: "bi_kind (fold absorb_sale ss x) = bi_kind x" for ss x
    by (induction ss arbitrary: x) (simp_all add: absorb_sale_def)
  have "bi_linked_buyers i = sort_dedup (map sa_buyer ?selected)" by (simp add: i pump_instance_def Let_def)
  moreover from this have "set (bi_linked_buyers i) = (\<lambda>j. sa_buyer (eb_sales ev ! j)) ` set (cv_exit_events v)"
    by auto
  ultimately have "bi_linked_buyers i \<noteq> []"
    "\<forall>b \<in> set (bi_linked_buyers i). normalize_chain_address (eb_chain ev) b \<in> honest \<and> \<not> in_cycle ev wash k b"
    using ne(2) exit by (force, auto simp: exit_index_def)
  moreover have "sort_dedup (map f (cv_internal_events v)) \<noteq> []" for f :: "nat \<Rightarrow> string"
    using ne(1) by (metis list.map_disc_iff set_empty set_sort_dedup)
  ultimately show ?thesis
    using delay comparable_average_ratio_ge_one [OF exceeds] kind
    by (simp add: i pump_instance_def instance_from_sales_def finalize_instance_def Let_def)
qed

theorem pump_instance_spec_witness:
  "exit_price_exceeds_internal (cycle_values_of wash_bundle {''v''} [(''a'', 0), (''b'', 0)] 1 ! 0) \<and>
   (\<exists>d. bi_exit_delay_seconds (pump_instance (eb_sales wash_bundle) (graph_from_sales (eb_sales wash_bundle)) [0, 1]
      (cycle_values_of wash_bundle {''v''} [(''a'', 0), (''b'', 0)] 1 ! 0)) = Some d \<and> 0 < d)"
proof -
  let ?v = "cycle_values_of wash_bundle {''v''} [(''a'', 0), (''b'', 0)] 1 ! 0"
  have "exit_price_exceeds_internal ?v"
    unfolding wash_bundle_values
    by (simp add: exit_price_exceeds_internal_def default_cycle_values_def f64_of_nat_def
        f64_ops round_f64_numeral)
  then show ?thesis
    using pump_instance_spec [OF zero_less_one refl _ refl, of wash_bundle "{''v''}" "[(''a'', 0), (''b'', 0)]"] by blast
qed

end
