(* ===== verification/StarInventory.thy ===== *)
theory StarInventory
  imports WashCycles
begin

text \<open>
  Star centres and inventory concentration (\<open>star_behaviors\<close>, \<open>inventory_instances\<close> and the indegree
  loop of \<open>detect_behaviors\<close> in \<open>src/analysis2/crates/core/src/analysis/behavior.rs\<close>).  The three
  vectors the star detector keeps per component are one vector of records here; \<open>BTreeSet\<close>s of
  component ids are sets.  A component with a vertex, or an edge with a target, outside the graph panics
  (\<open>None\<close>); once the components of the vertices are known, all further reads are in range
  (\<open>component_by_vertex_ok\<close>).
\<close>

section \<open>Stars\<close>

record star_component =
  st_targets :: "nat set"
  st_valuable :: bool
  st_events :: "prop_event list"

text \<open>A loop over \<open>xs\<close> whose body can panic.\<close>

fun try_fold :: "('a \<Rightarrow> 's \<Rightarrow> 's option) \<Rightarrow> 'a list \<Rightarrow> 's \<Rightarrow> 's option" where
  "try_fold f [] s = Some s"
| "try_fold f (x # xs) s = Option.bind (f x s) (try_fold f xs)"

definition component_by_vertex :: "nat \<Rightarrow> nat list list \<Rightarrow> nat list option" where
  "component_by_vertex n components =
     try_fold (\<lambda>(component_id, c). try_fold (\<lambda>v m. upd m v component_id) c) (enumerated components) (replicate n 0)"

text \<open>The components of the two ends of an event, when both are vertices and they differ.\<close>

definition star_edge :: "address_graph \<Rightarrow> nat list \<Rightarrow> string \<Rightarrow> string \<Rightarrow> (nat \<times> nat) option" where
  "star_edge g component_of from to =
     (case (map_of (address_index g) from, map_of (address_index g) to) of
        (Some f, Some t) \<Rightarrow>
          if component_of ! f = component_of ! t then None else Some (component_of ! f, component_of ! t)
      | _ \<Rightarrow> None)"

definition star_transfer_edge :: "address_graph \<Rightarrow> nat list \<Rightarrow> nat \<times> transfer_event \<Rightarrow> (nat \<times> nat) option" where
  "star_transfer_edge g component_of e = star_edge g component_of (tr_from (snd e)) (tr_to (snd e))"

definition star_sale_edge :: "address_graph \<Rightarrow> nat list \<Rightarrow> nat \<times> sale_event \<Rightarrow> (nat \<times> nat) option" where
  "star_sale_edge g component_of e = star_edge g component_of (sa_seller (snd e)) (sa_buyer (snd e))"

definition star_transfer ::
  "address_graph \<Rightarrow> nat list \<Rightarrow> nat \<times> transfer_event \<Rightarrow> star_component \<Rightarrow> star_component" where
  "star_transfer g component_of e c =
     c\<lparr>st_targets := st_targets c \<union> snd ` set_option (star_transfer_edge g component_of e),
       st_events := st_events c @ [PropTransfer (fst e)]\<rparr>"

definition star_sale ::
  "address_graph \<Rightarrow> nat list \<Rightarrow> nat \<times> sale_event \<Rightarrow> star_component \<Rightarrow> star_component" where
  "star_sale g component_of e c =
     c\<lparr>st_targets := st_targets c \<union> snd ` set_option (star_sale_edge g component_of e),
       st_events := st_events c @ [PropSale (fst e)],
       st_valuable := st_valuable c \<or> positive_amount (sa_native_amount (snd e)) (sa_usd_amount (snd e))\<rparr>"

definition star_components :: "evidence_bundle \<Rightarrow> address_graph \<Rightarrow> nat list list \<Rightarrow> nat list \<Rightarrow> star_component list" where
  "star_components ev g components component_of =
     (let after_transfers = bucket_fold (\<lambda>e. map_option fst (star_transfer_edge g component_of e))
            (star_transfer g component_of) (enumerated (eb_transfers ev))
            (replicate (length components) \<lparr>st_targets = {}, st_valuable = False, st_events = []\<rparr>)
      in bucket_fold (\<lambda>e. map_option fst (star_sale_edge g component_of e))
           (star_sale g component_of) (enumerated (eb_sales ev)) after_transfers)"

definition star_kind :: "star_component list \<Rightarrow> nat \<Rightarrow> behavior_kind" where
  "star_kind stars k =
     (if \<exists>target \<in> st_targets (stars ! k). st_targets (stars ! target) \<noteq> {} then SybilDistribution
      else if st_valuable (stars ! k) then FraudRevenue
      else Poisoning)"

record linked_state =
  lk_buyers :: "string set"
  lk_loss_native :: f64
  lk_loss_usd :: f64
  lk_events :: "linked_loss_event list"

definition linked_step ::
  "evidence_bundle \<Rightarrow> string set \<Rightarrow> string set \<Rightarrow> prop_event \<Rightarrow> linked_state \<Rightarrow> linked_state" where
  "linked_step ev malicious honest e st =
     (case e of
        PropTransfer _ \<Rightarrow> st
      | PropSale index \<Rightarrow>
          let s = eb_sales ev ! index; buyer = normalize_chain_address (eb_chain ev) (sa_buyer s)
          in if buyer = [] \<or> buyer \<in> malicious \<or> buyer \<notin> honest then st
             else st\<lparr>lk_buyers := insert buyer (lk_buyers st),
               lk_loss_native := (case opt_filter (\<lambda>v. v > 0) (sa_native_amount s) of
                   None \<Rightarrow> lk_loss_native st | Some native \<Rightarrow> lk_loss_native st + native),
               lk_loss_usd := (case opt_filter (\<lambda>v. v > 0) (sa_usd_amount s) of
                   None \<Rightarrow> lk_loss_usd st | Some usd \<Rightarrow> lk_loss_usd st + usd),
               lk_events := lk_events st @ (case loss_event s of None \<Rightarrow> [] | Some l \<Rightarrow> [l])\<rparr>)"

definition linked_losses :: "evidence_bundle \<Rightarrow> string set \<Rightarrow> string set \<Rightarrow> prop_event list \<Rightarrow> linked_state" where
  "linked_losses ev malicious honest events =
     fold (linked_step ev malicious honest) events
       \<lparr>lk_buyers = {}, lk_loss_native = 0, lk_loss_usd = 0, lk_events = []\<rparr>"

definition star_instance ::
  "evidence_bundle \<Rightarrow> string set \<Rightarrow> string set \<Rightarrow> star_component list \<Rightarrow> nat \<Rightarrow> behavior_instance" where
  "star_instance ev malicious honest stars k =
     (let linked = linked_losses ev malicious honest (st_events (stars ! k))
      in (instance_from_prop_events (star_kind stars k) ev (st_events (stars ! k)))
           \<lparr>bi_fan_out := Some (card (st_targets (stars ! k))),
            bi_linked_loss_events := lk_events linked,
            bi_linked_buyers := sorted_list_of_set (lk_buyers linked),
            bi_linked_loss_native := lk_loss_native linked,
            bi_linked_loss_usd := lk_loss_usd linked\<rparr>)"

record star_analysis =
  sn_sybil :: nat
  sn_fraud :: nat
  sn_poisoning :: nat
  sn_instances :: "behavior_instance list"

definition empty_stars :: star_analysis where
  "empty_stars = \<lparr>sn_sybil = 0, sn_fraud = 0, sn_poisoning = 0, sn_instances = []\<rparr>"

definition count_star :: "behavior_kind \<Rightarrow> star_analysis \<Rightarrow> star_analysis" where
  "count_star kind st =
     (case kind of
        SybilDistribution \<Rightarrow> st\<lparr>sn_sybil := sn_sybil st + 1\<rparr>
      | FraudRevenue \<Rightarrow> st\<lparr>sn_fraud := sn_fraud st + 1\<rparr>
      | Poisoning \<Rightarrow> st\<lparr>sn_poisoning := sn_poisoning st + 1\<rparr>
      | _ \<Rightarrow> st)"

definition star_center :: "string \<Rightarrow> address_graph \<Rightarrow> string set \<Rightarrow> nat list \<Rightarrow> bool" where
  "star_center chain g malicious component \<longleftrightarrow> (\<exists>v \<in> set component. vertex_address chain g v \<in> malicious)"

definition star_behaviors ::
  "evidence_bundle \<Rightarrow> address_graph \<Rightarrow> nat list list \<Rightarrow> (string \<times> address_role) list \<Rightarrow> string set \<Rightarrow> nat \<Rightarrow>
   star_analysis option" where
  "star_behaviors ev g components roles malicious fan_out =
     (if components = [] \<or> ag_addresses g = [] then Some empty_stars
      else do {
        component_of \<leftarrow> component_by_vertex (length (ag_addresses g)) components;
        let honest = addresses_with_role LikelyVictim roles;
        let stars = star_components ev g components component_of;
        Some (fold (\<lambda>k st.
             if \<not> star_center (eb_chain ev) g malicious (components ! k) \<or> card (st_targets (stars ! k)) < fan_out
             then st
             else (count_star (star_kind stars k) st)
               \<lparr>sn_instances := sn_instances st @ [star_instance ev malicious honest stars k]\<rparr>)
           [0..<length components] empty_stars)
      })"

section \<open>Inventory concentration\<close>

definition indegree :: "address_graph \<Rightarrow> nat list option" where
  "indegree g =
     try_fold (\<lambda>target d. Option.bind (idx d target) (\<lambda>n. upd d target (n + 1))) (ag_edges g)
       (replicate (length (ag_addresses g)) 0)"

text \<open>There is one degree per address, so the read of the address is in range (\<open>indegree_ok\<close>).\<close>

definition inventory_vertices :: "string \<Rightarrow> address_graph \<Rightarrow> string set \<Rightarrow> nat list \<Rightarrow> nat list" where
  "inventory_vertices chain g malicious degrees =
     map fst (filter (\<lambda>(v, degree). vertex_address chain g v \<in> malicious \<and> degree \<ge> 3) (enumerated degrees))"

definition inbound_events :: "evidence_bundle \<Rightarrow> address_graph \<Rightarrow> nat list \<Rightarrow> prop_event list list" where
  "inbound_events ev g vertices =
     (let slots = map (\<lambda>(slot, v). (ag_addresses g ! v, slot)) (enumerated vertices);
          transfers = bucket_fold (\<lambda>e. map_of slots (tr_to (snd e))) (\<lambda>e events. events @ [PropTransfer (fst e)])
            (enumerated (eb_transfers ev)) (replicate (length vertices) [])
      in bucket_fold (\<lambda>e. map_of slots (sa_buyer (snd e))) (\<lambda>e events. events @ [PropSale (fst e)])
           (enumerated (eb_sales ev)) transfers)"

definition sale_usd :: "sale_event \<Rightarrow> f64" where
  "sale_usd s = f64_max (unwrap_or 0 (sa_usd_amount s)) 0"

definition inventory_total :: "evidence_bundle \<Rightarrow> f64" where
  "inventory_total ev = fold (\<lambda>s v. v + sale_usd s) (eb_sales ev) 0"

definition inventory_nfts :: "evidence_bundle \<Rightarrow> string set" where
  "inventory_nfts ev = set (map tr_token_id (eb_transfers ev)) \<union> set (map sa_token_id (eb_sales ev))"

definition inventory_instance :: "evidence_bundle \<Rightarrow> prop_event list \<Rightarrow> behavior_instance" where
  "inventory_instance ev selected =
     (let i = instance_from_prop_events InventoryConcentration ev selected;
          all_sales_priced = (\<forall>s \<in> set (eb_sales ev). sa_usd_amount s \<noteq> None)
      in i\<lparr>bi_source_address_count := Some (card (set (map (event_from ev) selected))),
           bi_nft_share := then_some (inventory_nfts ev \<noteq> {})
             (f64_of_nat (length (bi_nfts i)) / f64_of_nat (card (inventory_nfts ev))),
           bi_value_share := then_some (all_sales_priced \<and> inventory_total ev > 0)
             (bi_usd_value i / inventory_total ev)\<rparr>)"

definition inventory_instances :: "evidence_bundle \<Rightarrow> address_graph \<Rightarrow> nat list \<Rightarrow> behavior_instance list" where
  "inventory_instances ev g vertices = map (inventory_instance ev) (inbound_events ev g vertices)"

section \<open>Facts about the stars\<close>

lemma fold_star_transfer:
  "st_targets (fold (star_transfer g co) es c) = st_targets c \<union> (\<Union>e \<in> set es. snd ` set_option (star_transfer_edge g co e))"
  "st_events (fold (star_transfer g co) es c) = st_events c @ map (\<lambda>e. PropTransfer (fst e)) es"
  by (induction es arbitrary: c) (auto simp: star_transfer_def)

lemma fold_star_sale:
  "st_targets (fold (star_sale g co) es c) = st_targets c \<union> (\<Union>e \<in> set es. snd ` set_option (star_sale_edge g co e))"
  "st_events (fold (star_sale g co) es c) = st_events c @ map (\<lambda>e. PropSale (fst e)) es"
  by (induction es arbitrary: c) (auto simp: star_sale_def)

text \<open>The search for the component of each vertex returns exactly when all vertices are in the graph.\<close>

lemma try_fold_upd:
  "try_fold (\<lambda>v m. upd m v k) vs m =
     (if \<forall>v \<in> set vs. v < length m then Some (fold (\<lambda>v m. m[v := k]) vs m) else None)"
  by (induction vs arbitrary: m) (auto simp: upd_def)

lemma fold_upd_entries:
  "length (fold (\<lambda>v m. m[v := k]) vs m) = length m"
  "set (fold (\<lambda>v m. m[v := k]) vs m) \<subseteq> insert k (set m)"
proof -
  show "length (fold (\<lambda>v m. m[v := k]) vs m) = length m" by (induction vs arbitrary: m) simp_all
  show "set (fold (\<lambda>v m. m[v := k]) vs m) \<subseteq> insert k (set m)"
  proof (induction vs arbitrary: m)
    case (Cons v vs)
    have "set (m[v := k]) \<subseteq> insert k (set m)" by (rule set_update_subset_insert)
    then show ?case using Cons.IH [of "m[v := k]"] by auto
  qed auto
qed

lemma component_by_vertex_fold:
  assumes "\<forall>e \<in> set es. fst e < n" "set m \<subseteq> {..<n}"
  shows "(case try_fold (\<lambda>(k, c). try_fold (\<lambda>v m. upd m v k) c) es m of
      None \<Rightarrow> \<exists>e \<in> set es. \<exists>v \<in> set (snd e). length m \<le> v
    | Some m' \<Rightarrow> (\<forall>e \<in> set es. \<forall>v \<in> set (snd e). v < length m) \<and> length m' = length m \<and> set m' \<subseteq> {..<n})"
  using assms
proof (induction es arbitrary: m)
  case (Cons e es)
  obtain k c where e: "e = (k, c)" by fastforce
  show ?case
  proof (cases "\<forall>v \<in> set c. v < length m")
    case True
    let ?m = "fold (\<lambda>v m. m[v := k]) c m"
    have "set ?m \<subseteq> {..<n}" using fold_upd_entries(2) [of k c m] Cons.prems by (auto simp: e)
    then show ?thesis using Cons.IH [of ?m] Cons.prems True
      by (auto simp: e try_fold_upd fold_upd_entries(1) split: option.splits)
  next
    case False
    then show ?thesis by (auto simp: e try_fold_upd not_less)
  qed
qed simp

lemma component_by_vertex_ok:
  assumes "components \<noteq> []"
  shows "(\<exists>m. component_by_vertex n components = Some m) \<longleftrightarrow> (\<forall>c \<in> set components. \<forall>v \<in> set c. v < n)"
    and "component_by_vertex n components = Some m \<Longrightarrow> length m = n \<and> set m \<subseteq> {..<length components}"
proof -
  have mem: "snd ` set (enumerated components) = set components" by (metis list.set_map map_snd_enumerated)
  have "\<forall>e \<in> set (enumerated components). fst e < length components" by (auto simp: in_set_enumerated)
  moreover have "set (replicate n 0) \<subseteq> {..<length components}" using assms by auto
  ultimately have all: "case component_by_vertex n components of
      None \<Rightarrow> \<exists>e \<in> set (enumerated components). \<exists>v \<in> set (snd e). n \<le> v
    | Some m \<Rightarrow> (\<forall>e \<in> set (enumerated components). \<forall>v \<in> set (snd e). v < n) \<and> length m = n \<and> set m \<subseteq> {..<length components}"
    using component_by_vertex_fold [of "enumerated components" "length components" "replicate n 0"]
    unfolding component_by_vertex_def length_replicate by blast
  show "(\<exists>m. component_by_vertex n components = Some m) \<longleftrightarrow> (\<forall>c \<in> set components. \<forall>v \<in> set c. v < n)"
    unfolding mem [symmetric] using all by (cases "component_by_vertex n components") (auto simp: not_less)
  show "component_by_vertex n components = Some m \<Longrightarrow> length m = n \<and> set m \<subseteq> {..<length components}"
    using all by simp
qed

lemma length_star_components [simp]: "length (star_components ev g components co) = length components"
  by (simp add: star_components_def Let_def)

lemma edge_from_to: "map_option fst p = Some k \<and> t \<in> snd ` set_option p \<longleftrightarrow> p = Some (k, t)"
  by (cases p) auto

lemma bucket_targets:
  "(\<Union>e \<in> set (filter (\<lambda>e. map_option fst (E (snd e)) = Some k) (enumerated xs)). snd ` set_option (E (snd e))) =
   {t. \<exists>x \<in> set xs. E x = Some (k, t)}"
proof -
  have "snd ` set (enumerated xs) = set xs" by (metis list.set_map map_snd_enumerated)
  then have "(\<exists>e \<in> set (enumerated xs). E (snd e) = Some (k, t)) \<longleftrightarrow> (\<exists>x \<in> set xs. E x = Some (k, t))" for t
    by (metis (no_types, lifting) image_iff)
  then show ?thesis
    by (intro set_eqI) (simp only: UN_iff set_filter mem_Collect_eq Bex_def conj_assoc edge_from_to)
qed

text \<open>The targets of a component: the other components an event of its addresses leads to.\<close>

lemma star_targets:
  assumes "k < length components"
  shows "st_targets (star_components ev g components co ! k) =
    {target. (\<exists>t \<in> set (eb_transfers ev). star_edge g co (tr_from t) (tr_to t) = Some (k, target)) \<or>
      (\<exists>s \<in> set (eb_sales ev). star_edge g co (sa_seller s) (sa_buyer s) = Some (k, target))}"
  using assms
    bucket_targets [where k = k and xs = "eb_transfers ev" and
      E = "\<lambda>t. star_edge g co (tr_from t) (tr_to t)"]
    bucket_targets [where k = k and xs = "eb_sales ev" and
      E = "\<lambda>s. star_edge g co (sa_seller s) (sa_buyer s)"]
  by (simp add: star_components_def Let_def nth_bucket_fold fold_star_transfer fold_star_sale
      star_transfer_edge_def star_sale_edge_def Collect_disj_eq)

lemma linked_losses_facts:
  fixes ev malicious honest
  defines "run \<equiv> \<lambda>es. fold (linked_step ev malicious honest) es"
  assumes "lk_buyers st \<subseteq> honest - malicious" "finite (lk_buyers st)"
    "lk_loss_usd st = fold (\<lambda>l v. v + le_usd_amount l) (lk_events st) 0"
  shows "lk_buyers (run es st) \<subseteq> honest - malicious" "finite (lk_buyers (run es st))"
    "lk_loss_usd (run es st) = fold (\<lambda>l v. v + le_usd_amount l) (lk_events (run es st)) 0"
proof -
  let ?I = "\<lambda>st. lk_buyers st \<subseteq> honest - malicious \<and> finite (lk_buyers st) \<and>
    lk_loss_usd st = fold (\<lambda>l v. v + le_usd_amount l) (lk_events st) 0"
  have "?I (linked_step ev malicious honest e st)" if "?I st" for e st
    using that by (auto simp: linked_step_def loss_event_def Let_def split: prop_event.splits option.splits)
  then have "?I st \<Longrightarrow> ?I (run es st)" for st
    unfolding run_def by (induction es arbitrary: st) simp_all
  then show "lk_buyers (run es st) \<subseteq> honest - malicious" "finite (lk_buyers (run es st))"
    "lk_loss_usd (run es st) = fold (\<lambda>l v. v + le_usd_amount l) (lk_events (run es st)) 0"
    using assms(2-) by blast+
qed

definition star_loop_inv :: "string set \<Rightarrow> string set \<Rightarrow> nat \<Rightarrow> star_analysis \<Rightarrow> bool" where
  "star_loop_inv malicious honest fan_out st \<longleftrightarrow>
     sn_sybil st = length (filter (\<lambda>i. bi_kind i = SybilDistribution) (sn_instances st)) \<and>
     sn_fraud st = length (filter (\<lambda>i. bi_kind i = FraudRevenue) (sn_instances st)) \<and>
     sn_poisoning st = length (filter (\<lambda>i. bi_kind i = Poisoning) (sn_instances st)) \<and>
     (\<forall>i \<in> set (sn_instances st).
        bi_kind i \<in> {SybilDistribution, FraudRevenue, Poisoning} \<and>
        (\<exists>n. bi_fan_out i = Some n \<and> fan_out \<le> n) \<and>
        sorted (bi_linked_buyers i) \<and> set (bi_linked_buyers i) \<subseteq> honest - malicious \<and>
        bi_linked_loss_usd i = fold (\<lambda>l v. v + le_usd_amount l) (bi_linked_loss_events i) 0)"

lemma star_kind_cases: "star_kind stars k \<in> {SybilDistribution, FraudRevenue, Poisoning}"
  by (simp add: star_kind_def)

lemma star_instance_facts:
  fixes ev malicious honest stars k
  defines "i \<equiv> star_instance ev malicious honest stars k"
  shows "bi_kind i = star_kind stars k" "bi_fan_out i = Some (card (st_targets (stars ! k)))"
    "sorted (bi_linked_buyers i)" "set (bi_linked_buyers i) \<subseteq> honest - malicious"
    "bi_linked_loss_usd i = fold (\<lambda>l v. v + le_usd_amount l) (bi_linked_loss_events i) 0"
  using linked_losses_facts [of "\<lparr>lk_buyers = {}, lk_loss_native = 0, lk_loss_usd = 0, lk_events = []\<rparr>"
      honest malicious ev "st_events (stars ! k)"]
  by (simp_all add: i_def star_instance_def Let_def instance_from_prop_events_def finalize_instance_def
      absorb_event_kind linked_losses_def)

lemma star_loop_inv_step:
  assumes "star_loop_inv malicious honest fan_out st" "\<not> card (st_targets (stars ! k)) < fan_out"
  shows "star_loop_inv malicious honest fan_out ((count_star (star_kind stars k) st)
    \<lparr>sn_instances := sn_instances st @ [star_instance ev malicious honest stars k]\<rparr>)"
  using assms star_kind_cases [of stars k] star_instance_facts [where ev = ev and stars = stars and k = k]
  by (auto simp: star_loop_inv_def count_star_def)

lemma star_behaviors_inv:
  assumes "star_behaviors ev g components roles malicious fan_out = Some st"
  shows "star_loop_inv malicious (addresses_with_role LikelyVictim roles) fan_out st"
proof -
  let ?honest = "addresses_with_role LikelyVictim roles"
  have empty: "star_loop_inv malicious ?honest fan_out empty_stars"
    by (simp add: star_loop_inv_def empty_stars_def)
  have "star_loop_inv malicious ?honest fan_out (fold (\<lambda>k st.
      if \<not> c k \<or> card (st_targets (stars ! k)) < fan_out then st
      else (count_star (star_kind stars k) st)
        \<lparr>sn_instances := sn_instances st @ [star_instance ev malicious ?honest stars k]\<rparr>) ks st)"
    if "star_loop_inv malicious ?honest fan_out st" for st stars ks c
    using that by (induction ks arbitrary: st) (simp_all add: star_loop_inv_step)
  with empty show ?thesis using assms
    by (auto simp: star_behaviors_def Let_def split: if_splits Option.bind_splits)
qed

lemma star_behaviors_returns:
  assumes "\<forall>c \<in> set components. \<forall>v \<in> set c. v < vertex_count g"
  shows "\<exists>st. star_behaviors ev g components roles malicious fan_out = Some st"
  using component_by_vertex_ok(1) [of components "length (ag_addresses g)"] assms
  by (auto simp: star_behaviors_def Let_def vertex_count_def)

text \<open>The star detector: its three counters count its instances by kind; every instance has at
  least the required fan-out, its linked buyers are victims that are not suspected operators, in
  order, and its linked exposure is the sum of its linked exposure events.\<close>

theorem star_behaviors_spec:
  assumes "star_behaviors ev g components roles malicious fan_out = Some st"
  shows "sn_sybil st = length (filter (\<lambda>i. bi_kind i = SybilDistribution) (sn_instances st)) \<and>
    sn_fraud st = length (filter (\<lambda>i. bi_kind i = FraudRevenue) (sn_instances st)) \<and>
    sn_poisoning st = length (filter (\<lambda>i. bi_kind i = Poisoning) (sn_instances st)) \<and>
    (\<forall>i \<in> set (sn_instances st).
      bi_kind i \<in> {SybilDistribution, FraudRevenue, Poisoning} \<and>
      (\<exists>n. bi_fan_out i = Some n \<and> fan_out \<le> n) \<and> sorted (bi_linked_buyers i) \<and>
      set (bi_linked_buyers i) \<subseteq> addresses_with_role LikelyVictim roles - malicious \<and>
      bi_linked_loss_usd i = fold (\<lambda>l v. v + le_usd_amount l) (bi_linked_loss_events i) 0)"
  using star_behaviors_inv [OF assms] unfolding star_loop_inv_def by blast

text \<open>An operator that sends three tokens to three addresses.\<close>

definition star_bundle :: evidence_bundle where
  "star_bundle = sample_bundle\<lparr>eb_sales :=
     [wash_sale ''o'' ''a'' 1 1, wash_sale ''o'' ''b'' 2 1, wash_sale ''o'' ''c'' 3 1]\<rparr>"

theorem star_behaviors_spec_witness:
  "\<exists>st. star_behaviors star_bundle (graph_from_sales (eb_sales star_bundle)) [[0], [1], [2], [3]] [] {''o''} 3 = Some st \<and>
     sn_fraud st = length (filter (\<lambda>i. bi_kind i = FraudRevenue) (sn_instances st))"
proof -
  have "vertex_count (graph_from_sales (eb_sales star_bundle)) = 4" by code_simp
  then obtain st where "star_behaviors star_bundle (graph_from_sales (eb_sales star_bundle)) [[0], [1], [2], [3]] [] {''o''} 3 = Some st"
    using star_behaviors_returns [of "[[0], [1], [2], [3]]" "graph_from_sales (eb_sales star_bundle)"] by fastforce
  then show ?thesis using star_behaviors_spec by blast
qed

section \<open>Facts about the inventory\<close>

lemma try_fold_count:
  assumes "\<forall>v \<in> set es. v < length d"
  shows "\<exists>d'. try_fold (\<lambda>target d. Option.bind (idx d target) (\<lambda>n. upd d target (n + 1))) es d = Some d' \<and> length d' = length d \<and>
    (\<forall>v < length d. d' ! v = d ! v + count_list es v)"
  using assms
proof (induction es arbitrary: d)
  case (Cons v es)
  then obtain d' where "try_fold (\<lambda>target d. Option.bind (idx d target) (\<lambda>n. upd d target (n + 1))) es (d[v := d ! v + 1]) = Some d'"
    "length d' = length d" "\<forall>w < length d. d' ! w = d[v := d ! v + 1] ! w + count_list es w"
    using Cons.IH [of "d[v := d ! v + 1]"] by auto
  with Cons.prems show ?case by (auto simp: idx_def upd_def nth_list_update)
qed simp

lemma indegree_ok:
  assumes "graph_ok g"
  shows "\<exists>degrees. indegree g = Some degrees \<and> length degrees = length (ag_addresses g) \<and>
    (\<forall>v < vertex_count g. degrees ! v = count_list (ag_edges g) v)"
  using try_fold_count [of "ag_edges g" "replicate (length (ag_addresses g)) 0"] assms
  by (simp add: indegree_def graph_ok_def vertex_count_def)

lemma fold_add_filter_le:
  fixes x y :: f64
  assumes "rounded x" "rounded y" "0 \<le> x" "x \<le> y" "\<forall>a \<in> set xs. 0 \<le> f a"
  shows "fold (\<lambda>a v. v + f a) (filter P xs) x \<le> fold (\<lambda>a v. v + f a) xs y \<and>
    0 \<le> fold (\<lambda>a v. v + f a) (filter P xs) x"
  using assms
proof (induction xs arbitrary: x y)
  case (Cons a xs)
  have "0 \<le> y" using Cons.prems(3,4) by (rule f64_le_trans)
  show ?case
  proof (cases "P a")
    case True
    have "x + f a \<le> y + f a" "0 \<le> x + f a" using Cons.prems by (auto intro: f64_add_mono f64_add_nonneg)
    with True Cons.IH [of "x + f a" "y + f a"] Cons.prems show ?thesis by simp
  next
    case False
    have "y \<le> y + f a" using Cons.prems \<open>0 \<le> y\<close> by (intro f64_add_increasing) auto
    with Cons.prems(4) have "x \<le> y + f a" by (rule f64_le_trans)
    with False Cons.IH [of x "y + f a"] Cons.prems show ?thesis by simp
  qed
qed simp

lemma nth_inbound_events:
  assumes "slot < length vertices"
  shows "\<exists>P Q. inbound_events ev g vertices ! slot =
    map PropTransfer (filter P [0..<length (eb_transfers ev)]) @ map PropSale (filter Q [0..<length (eb_sales ev)])"
proof -
  let ?slots = "map (\<lambda>(slot, v). (ag_addresses g ! v, slot)) (enumerated vertices)"
  have *: "map (\<lambda>e. F (fst e)) (filter P (enumerated xs)) = map F (filter (\<lambda>i. P (i, xs ! i)) [0..<length xs])"
    for F :: "nat \<Rightarrow> prop_event" and P and xs :: "'z list"
    using arg_cong [OF map_fst_filter_enumerated [of P xs], of "map F"] by (simp add: comp_def)
  show ?thesis
    using assms
    by (intro exI [of _ "\<lambda>i. map_of ?slots (tr_to (eb_transfers ev ! i)) = Some slot"]
        exI [of _ "\<lambda>i. map_of ?slots (sa_buyer (eb_sales ev ! i)) = Some slot"])
      (simp add: inbound_events_def Let_def nth_bucket_fold fold_snoc *)
qed

lemma inventory_instance_bounds:
  assumes events: "events = map PropTransfer (filter P [0..<length (eb_transfers ev)]) @
      map PropSale (filter Q [0..<length (eb_sales ev)])"
    and small: "length (eb_transfers ev) + length (eb_sales ev) < 2 ^ 53"
    and i: "i = inventory_instance ev events"
  shows "bi_nft_share i = Some x \<Longrightarrow> 0 \<le> x \<and> x \<le> 1"
    and "bi_value_share i = Some y \<Longrightarrow> is_finite (inventory_total ev) \<Longrightarrow> 0 \<le> y \<and> y \<le> 1"
proof -
  let ?j = "instance_from_prop_events InventoryConcentration ev events"
  have nfts: "set (bi_nfts ?j) \<subseteq> inventory_nfts ev" "distinct (bi_nfts ?j)"
    by (auto simp: instance_from_prop_events_def finalize_instance_def absorb_event_nfts default_instance_def
        events inventory_nfts_def event_token_def)
  have fin: "finite (inventory_nfts ev)" by (simp add: inventory_nfts_def)
  have le: "length (bi_nfts ?j) \<le> card (inventory_nfts ev)"
    using card_mono [OF fin nfts(1)] distinct_card [OF nfts(2)] by simp
  have "card (inventory_nfts ev) \<le> length (eb_transfers ev) + length (eb_sales ev)"
    unfolding inventory_nfts_def by (metis card_Un_le card_length add_mono length_map order_trans)
  with small have m: "card (inventory_nfts ev) < 2 ^ 53" by simp
  show "0 \<le> x \<and> x \<le> 1" if x: "bi_nft_share i = Some x"
  proof -
    from x have "0 < card (inventory_nfts ev)"
      and "x = f64_of_nat (length (bi_nfts ?j)) / f64_of_nat (card (inventory_nfts ev))"
      using fin by (auto simp: i inventory_instance_def Let_def card_gt_0_iff)
    moreover have "f64_of_nat (length (bi_nfts ?j)) = Fin (of_nat (length (bi_nfts ?j)))"
      using le m by (intro f64_of_nat_exact) linarith
    ultimately show ?thesis
      using le m f64_of_nat_exact [OF m]
        f64_div_le_one [of "Fin (of_nat (length (bi_nfts ?j)))" "Fin (of_nat (card (inventory_nfts ev)))"]
        f64_div_nonneg [of "Fin (of_nat (length (bi_nfts ?j)))" "Fin (of_nat (card (inventory_nfts ev)))"]
      by (simp add: less_eq_f64_def less_f64_def zero_f64_def is_finite_def)
  qed
  let ?usd = "\<lambda>index. sale_usd (eb_sales ev ! index)"
  have "List.map_filter (event_usd ev) events = map ?usd (filter Q [0..<length (eb_sales ev)])"
    by (simp add: events map_filter_def event_usd_def sale_usd_def comp_def filter_map)
  then have usd: "bi_usd_value ?j = fold (\<lambda>index v. v + ?usd index) (filter Q [0..<length (eb_sales ev)]) 0"
    by (simp add: instance_from_prop_events_def finalize_instance_def absorb_event_usd default_instance_def
        fold_map comp_def)
  have "inventory_total ev = fold (\<lambda>s v. v + sale_usd s) (map ((!) (eb_sales ev)) [0..<length (eb_sales ev)]) 0"
    by (simp add: inventory_total_def map_nth)
  then have total: "inventory_total ev = fold (\<lambda>index v. v + ?usd index) [0..<length (eb_sales ev)] 0"
    by (simp add: fold_map comp_def)
  have bound: "bi_usd_value ?j \<le> inventory_total ev" "0 \<le> bi_usd_value ?j"
    unfolding usd total using fold_add_filter_le [of 0 0 "[0..<length (eb_sales ev)]" ?usd Q]
    by (simp_all add: sale_usd_def)
  show "0 \<le> y \<and> y \<le> 1" if y: "bi_value_share i = Some y" "is_finite (inventory_total ev)"
  proof -
    from y have "0 < inventory_total ev" "y = bi_usd_value ?j / inventory_total ev"
      by (auto simp: i inventory_instance_def Let_def)
    moreover have "is_finite (bi_usd_value ?j)"
      using bound y(2) by (cases "bi_usd_value ?j"; cases "inventory_total ev") (auto simp: is_finite_def f64_ops)
    ultimately show ?thesis using bound f64_div_le_one f64_div_nonneg by blast
  qed
qed

text \<open>Inventory concentration: the share of the tokens a concentrator received and, as long as
  the total value does not overflow, its share of the value lie between 0 and 1.\<close>

theorem inventory_instances_shares:
  assumes "i \<in> set (inventory_instances ev g vertices)"
    and "length (eb_transfers ev) + length (eb_sales ev) < 2 ^ 53"
  shows "(\<forall>x. bi_nft_share i = Some x \<longrightarrow> 0 \<le> x \<and> x \<le> 1) \<and>
    (\<forall>y. bi_value_share i = Some y \<and> is_finite (inventory_total ev) \<longrightarrow> 0 \<le> y \<and> y \<le> 1)"
proof -
  have "length (inbound_events ev g vertices) = length vertices"
    by (simp add: inbound_events_def Let_def)
  with assms(1) obtain slot where "slot < length vertices"
    and i: "i = inventory_instance ev (inbound_events ev g vertices ! slot)"
    by (auto simp: inventory_instances_def in_set_conv_nth)
  then obtain P Q where "inbound_events ev g vertices ! slot =
      map PropTransfer (filter P [0..<length (eb_transfers ev)]) @ map PropSale (filter Q [0..<length (eb_sales ev)])"
    using nth_inbound_events by blast
  from inventory_instance_bounds [OF this assms(2) i] show ?thesis by blast
qed

theorem inventory_instances_shares_witness:
  "\<exists>i \<in> set (inventory_instances star_bundle (graph_from_transfers []) [0]). \<exists>x. bi_nft_share i = Some x \<and> 0 \<le> x \<and> x \<le> 1"
proof -
  let ?is = "inventory_instances star_bundle (graph_from_transfers []) [0]"
  have "length ?is = 1" by (simp add: inventory_instances_def inbound_events_def Let_def)
  then obtain i where i: "i \<in> set ?is" by (cases ?is) auto
  have "inventory_nfts star_bundle \<noteq> {}" by (simp add: inventory_nfts_def star_bundle_def)
  with i obtain x where "bi_nft_share i = Some x"
    by (auto simp: inventory_instances_def inventory_instance_def Let_def)
  moreover have "length (eb_transfers star_bundle) + length (eb_sales star_bundle) < 2 ^ 53"
    by (simp add: star_bundle_def sample_bundle_def empty_bundle_def)
  ultimately show ?thesis using inventory_instances_shares [OF i] i by blast
qed

end
