(* ===== verification/Behaviors.thy ===== *)
theory Behaviors
  imports LayeredTransfer StarInventory
begin

text \<open>
  All detectors together (\<open>detect_behaviors\<close> of \<open>src/analysis2/crates/core/src/analysis/behavior.rs\<close>):
  the counters, and the instances of every kind in one sorted list.  \<open>None\<close> is a panic: of the component
  search, or of an access outside of an ill-formed graph.
\<close>

record behavior_analysis =
  ba_facts :: behavior_facts
  ba_instances :: "behavior_instance list"

definition instance_key ::
  "behavior_instance \<Rightarrow> behavior_kind \<times> int option \<times> nat option \<times> string list \<times> string list" where
  "instance_key i =
     (bi_kind i, bi_start_timestamp i, bi_start_block i, bi_addresses i, bi_transactions i)"

definition detect_behaviors ::
  "evidence_bundle \<Rightarrow> address_graph \<Rightarrow> nat list list \<Rightarrow> (string \<times> address_role) list \<Rightarrow> paper_config \<Rightarrow>
   behavior_analysis option" where
  "detect_behaviors ev transfer_graph transfer_sccs roles cfg =
     (let malicious = addresses_with_role SuspectedOperator roles;
          honest = addresses_with_role LikelyVictim roles;
          sale_graph = graph_from_sales (eb_sales ev)
      in do {
        sale_components \<leftarrow> strongly_connected_components sale_graph;
        let components = wash_components (eb_chain ev) malicious cfg sale_graph sale_components;
        let wash = wash_by_address (eb_chain ev) sale_graph components;
        let vs = cycle_values_of ev honest wash (length components);
        star \<leftarrow> star_behaviors ev transfer_graph transfer_sccs roles malicious (pc_fan_out cfg);
        let layered = layered_paths ev malicious (pc_layered_path_addresses cfg);
        degrees \<leftarrow> indegree transfer_graph;
        let vertices = inventory_vertices (eb_chain ev) transfer_graph malicious degrees;
        Some \<lparr>ba_facts = \<lparr>bf_wash_cycles = length components,
                bf_pump_and_exit = length (filter exit_price_exceeds_internal vs),
                bf_sybil_distribution = sn_sybil star, bf_fraud_revenue = sn_fraud star,
                bf_poisoning = sn_poisoning star, bf_layered_transfer = length layered,
                bf_inventory_concentration = length vertices\<rparr>,
              ba_instances = sort_key instance_key
                (cycle_instances (eb_sales ev) sale_graph components vs @
                 pump_instances (eb_sales ev) sale_graph components vs @
                 sn_instances star @ layered @ inventory_instances ev transfer_graph vertices)\<rparr>
      })"

section \<open>The kinds of the instances\<close>

lemma absorb_sale_kind: "bi_kind (fold absorb_sale ss i) = bi_kind i"
  by (induction ss arbitrary: i) (simp_all add: absorb_sale_def)

lemma cycle_instances_kind: "\<forall>i \<in> set (cycle_instances sales g cs vs). bi_kind i = WashTrading"
  by (auto simp: cycle_instances_def cycle_instance_def Let_def instance_from_sales_def finalize_instance_def
      absorb_sale_kind)

lemma pump_instances_kind: "\<forall>i \<in> set (pump_instances sales g cs vs). bi_kind i = PumpAndExit"
  by (auto simp: pump_instances_def pump_instance_def Let_def instance_from_sales_def finalize_instance_def
      absorb_sale_kind)

lemma layered_paths_kind: "\<forall>i \<in> set (layered_paths ev malicious n). bi_kind i = LayeredTransfer"
  by (auto simp: layered_paths_eq map_filter_def start_instance_def layered_instance_def Let_def
      instance_from_prop_events_def finalize_instance_def absorb_event_kind)

lemma inventory_instances_kind: "\<forall>i \<in> set (inventory_instances ev g vs). bi_kind i = InventoryConcentration"
  by (auto simp: inventory_instances_def inventory_instance_def Let_def
      instance_from_prop_events_def finalize_instance_def absorb_event_kind)

lemma star_instances_kind:
  "star_behaviors ev g cs roles malicious n = Some st \<Longrightarrow> \<forall>i \<in> set (sn_instances st). bi_kind i \<noteq> WashTrading"
  using star_behaviors_inv [of ev g cs roles malicious n st] unfolding star_loop_inv_def by fastforce

lemma length_cycle_values_of [simp]: "length (cycle_values_of ev honest wash n) = n"
  by (simp add: cycle_values_of_def Let_def)

lemma length_cycle_instances: "length cs = length vs \<Longrightarrow> length (cycle_instances sales g cs vs) = length cs"
  by (simp add: cycle_instances_def)

lemma length_pump_instances:
  "length (pump_instances sales g cs vs) = length (filter exit_price_exceeds_internal vs)"
proof -
  have "filter exit_price_exceeds_internal vs = map snd (filter (exit_price_exceeds_internal \<circ> snd) (enumerated vs))"
    by (metis filter_map map_snd_enumerated)
  then show ?thesis by (simp add: pump_instances_def comp_def case_prod_unfold)
qed

lemma length_inventory_instances: "length (inventory_instances ev g vs) = length vs"
  by (simp add: inventory_instances_def inbound_events_def Let_def)

section \<open>The counters count the instances\<close>

definition kind_count :: "behavior_kind \<Rightarrow> behavior_instance list \<Rightarrow> nat" where
  "kind_count kind is = length (filter (\<lambda>i. bi_kind i = kind) is)"

lemma kind_count_append: "kind_count kind (xs @ ys) = kind_count kind xs + kind_count kind ys"
  by (simp add: kind_count_def)

lemma kind_count_sort: "kind_count kind (sort_key f is) = kind_count kind is"
  unfolding kind_count_def by (metis mset_filter mset_sort size_mset)

lemma kind_count_uniform:
  "\<forall>i \<in> set is. bi_kind i = k \<Longrightarrow> kind_count kind is = (if kind = k then length is else 0)"
  unfolding kind_count_def by (induction "is") auto

lemma star_kind_counts:
  assumes "star_behaviors ev g components roles malicious fan_out = Some st"
  shows "kind_count SybilDistribution (sn_instances st) = sn_sybil st"
    "kind_count FraudRevenue (sn_instances st) = sn_fraud st"
    "kind_count Poisoning (sn_instances st) = sn_poisoning st"
    "kind \<notin> {SybilDistribution, FraudRevenue, Poisoning} \<Longrightarrow> kind_count kind (sn_instances st) = 0"
  using star_behaviors_inv [OF assms] unfolding star_loop_inv_def kind_count_def by (auto simp: filter_empty_conv)

lemma detect_behaviors_returns:
  assumes "graph_ok transfer_graph" "\<forall>c \<in> set transfer_sccs. \<forall>v \<in> set c. v < vertex_count transfer_graph"
  shows "\<exists>r. detect_behaviors ev transfer_graph transfer_sccs roles cfg = Some r"
proof -
  obtain sccs where "strongly_connected_components (graph_from_sales (eb_sales ev)) = Some sccs"
    unfolding graph_from_sales_def by (rule scc_result [OF build_graph_ok])
  moreover obtain star where "star_behaviors ev transfer_graph transfer_sccs roles (addresses_with_role SuspectedOperator roles) (pc_fan_out cfg) = Some star"
    using star_behaviors_returns [OF assms(2)] by blast
  moreover obtain degrees where "indegree transfer_graph = Some degrees" using indegree_ok [OF assms(1)] by blast
  ultimately show ?thesis by (simp add: detect_behaviors_def Let_def)
qed

text \<open>C14. For a well-formed transfer graph and components of its vertices the detectors return; each counter of the facts is the number of reported
  instances of its kind, and the instances are sorted by kind, start time, start block, addresses
  and transactions.\<close>

theorem detect_behaviors_counts:
  assumes "graph_ok transfer_graph" "\<forall>c \<in> set transfer_sccs. \<forall>v \<in> set c. v < vertex_count transfer_graph"
  shows "\<exists>r. detect_behaviors ev transfer_graph transfer_sccs roles cfg = Some r \<and>
     bf_wash_cycles (ba_facts r) = kind_count WashTrading (ba_instances r) \<and>
     bf_pump_and_exit (ba_facts r) = kind_count PumpAndExit (ba_instances r) \<and>
     bf_sybil_distribution (ba_facts r) = kind_count SybilDistribution (ba_instances r) \<and>
     bf_fraud_revenue (ba_facts r) = kind_count FraudRevenue (ba_instances r) \<and>
     bf_poisoning (ba_facts r) = kind_count Poisoning (ba_instances r) \<and>
     bf_layered_transfer (ba_facts r) = kind_count LayeredTransfer (ba_instances r) \<and>
     bf_inventory_concentration (ba_facts r) = kind_count InventoryConcentration (ba_instances r) \<and>
     sorted (map instance_key (ba_instances r))"
proof -
  obtain r where r: "detect_behaviors ev transfer_graph transfer_sccs roles cfg = Some r"
    using detect_behaviors_returns [OF assms] by blast
  then obtain sccs star degrees where parts: "strongly_connected_components (graph_from_sales (eb_sales ev)) = Some sccs"
    "star_behaviors ev transfer_graph transfer_sccs roles (addresses_with_role SuspectedOperator roles) (pc_fan_out cfg) = Some star"
    "indegree transfer_graph = Some degrees"
    by (auto simp: detect_behaviors_def Let_def split: Option.bind_splits)
  then show ?thesis
    by (simp add: detect_behaviors_def Let_def kind_count_sort kind_count_append star_kind_counts [OF parts(2)]
        kind_count_uniform [OF cycle_instances_kind] kind_count_uniform [OF pump_instances_kind]
        kind_count_uniform [OF layered_paths_kind] kind_count_uniform [OF inventory_instances_kind]
        length_cycle_instances length_pump_instances length_inventory_instances)
qed

section \<open>Wash cycles are cycles\<close>

text \<open>C15. Every reported wash cycle is a cycle of sales: it has at least the configured number of
  different addresses, one of them a suspected operator, and from each of them every other one
  is reached by a chain of sales.\<close>

theorem wash_instances_are_cycles:
  assumes "detect_behaviors ev transfer_graph transfer_sccs roles cfg = Some r"
    and "i \<in> set (ba_instances r)" and "bi_kind i = WashTrading"
  shows "pc_min_cycle_size cfg \<le> card (set (bi_addresses i)) \<and> distinct (bi_addresses i) \<and>
    (\<exists>a \<in> set (bi_addresses i). normalize_chain_address (eb_chain ev) a \<in> addresses_with_role SuspectedOperator roles) \<and>
    (\<forall>a \<in> set (bi_addresses i). \<forall>b \<in> set (bi_addresses i). (a, b) \<in> (set (List.map_filter sale_pair (eb_sales ev)))\<^sup>*)"
proof -
  let ?pairs = "List.map_filter sale_pair (eb_sales ev)" and ?m = "addresses_with_role SuspectedOperator roles"
  let ?g = "build_graph ?pairs"
  obtain sccs where sccs: "strongly_connected_components ?g = Some sccs" "distinct (concat sccs)"
    "set (concat sccs) = {..<vertex_count ?g}" "\<forall>c \<in> set sccs. sorted c \<and> is_scc (graph_rel ?g) (set c)"
    by (rule scc_result [OF build_graph_ok])
  let ?cs = "wash_components (eb_chain ev) ?m cfg ?g sccs"
  have "i \<in> set (cycle_instances (eb_sales ev) ?g ?cs
      (cycle_values_of ev (addresses_with_role LikelyVictim roles) (wash_by_address (eb_chain ev) ?g ?cs) (length ?cs)))"
    using assms sccs(1) pump_instances_kind layered_paths_kind inventory_instances_kind star_instances_kind
    by (auto simp: detect_behaviors_def Let_def graph_from_sales_def split: Option.bind_splits)
  then obtain c v where "c \<in> set ?cs" and i: "i = cycle_instance (eb_sales ev) ?g c v"
    by (auto simp: cycle_instances_def dest: set_zip_leftD)
  then have c: "c \<in> set sccs" "pc_min_cycle_size cfg \<le> length c"
    and op: "\<exists>v \<in> set c. vertex_address (eb_chain ev) ?g v \<in> ?m"
    by (auto simp: wash_components_def)
  have "distinct c" using c(1) sccs(2) by (auto simp: distinct_concat_iff)
  have lt: "\<forall>v \<in> set c. v < vertex_count ?g" using c(1) sccs(3) by fastforce
  have dist: "distinct (ag_addresses ?g)" using build_sorted strict_sorted_iff by blast
  have addresses: "bi_addresses i = sort (map ((!) (ag_addresses ?g)) c)"
    by (simp add: i cycle_instance_def Let_def)
  have "inj_on ((!) (ag_addresses ?g)) (set c)"
    using dist lt by (auto simp: inj_on_def nth_eq_iff_index_eq vertex_count_def)
  with \<open>distinct c\<close> have d: "distinct (bi_addresses i)" by (simp add: addresses distinct_map)
  then have "card (set (bi_addresses i)) = length c" using distinct_card [OF d] by (simp add: addresses)
  moreover have "(ag_addresses ?g ! v, ag_addresses ?g ! w) \<in> (set ?pairs)\<^sup>*" if "v \<in> set c" "w \<in> set c" for v w
    using that lt sccs(4) c(1) graph_rel_build_rtrancl [of v ?pairs w] unfolding is_scc_def by blast
  ultimately show ?thesis
    using c(2) d op by (auto simp: addresses vertex_address_def)
qed

definition wash_roles :: "(string \<times> address_role) list" where
  "wash_roles = [(''a'', SuspectedOperator), (''b'', SuspectedOperator), (''v'', LikelyVictim)]"

definition wash_config :: paper_config where
  "wash_config = \<lparr>pc_min_cycle_size = 2, pc_layered_path_addresses = 3, pc_fan_out = 3,
     pc_top_concentration_fraction = 0, pc_analysis_timestamp = 0\<rparr>"

theorem detect_behaviors_counts_witness:
  "\<exists>r. detect_behaviors wash_bundle (graph_from_sales (eb_sales wash_bundle)) [[2], [0, 1]] wash_roles wash_config = Some r \<and>
     bf_wash_cycles (ba_facts r) = kind_count WashTrading (ba_instances r) \<and> sorted (map instance_key (ba_instances r))"
proof -
  have ok: "graph_ok (graph_from_sales (eb_sales wash_bundle))"
    unfolding graph_from_sales_def by (rule build_graph_ok)
  have "vertex_count (graph_from_sales (eb_sales wash_bundle)) = 3" by code_simp
  then have "\<forall>c \<in> set [[2], [0, 1]]. \<forall>v \<in> set c. v < vertex_count (graph_from_sales (eb_sales wash_bundle))" by simp
  from detect_behaviors_counts [OF ok this, of wash_bundle wash_roles wash_config] show ?thesis by blast
qed

theorem wash_instances_are_cycles_witness:
  "\<exists>r. detect_behaviors wash_bundle (graph_from_transfers []) [] wash_roles wash_config = Some r \<and>
     (\<exists>i \<in> set (ba_instances r). bi_kind i = WashTrading \<and> 2 \<le> card (set (bi_addresses i)))"
proof -
  let ?g = "graph_from_sales (eb_sales wash_bundle)" and ?m = "addresses_with_role SuspectedOperator wash_roles"
  have scc: "strongly_connected_components ?g = Some [[2], [0, Suc 0]]" by code_simp
  have wash: "wash_components (eb_chain wash_bundle) ?m wash_config ?g [[2], [0, Suc 0]] = [[0, Suc 0]]"
    by code_simp
  obtain r where r: "detect_behaviors wash_bundle (graph_from_transfers []) [] wash_roles wash_config = Some r"
    "set (cycle_instances (eb_sales wash_bundle) ?g [[0, Suc 0]] (cycle_values_of wash_bundle
       (addresses_with_role LikelyVictim wash_roles) (wash_by_address (eb_chain wash_bundle) ?g [[0, Suc 0]]) (Suc 0)))
     \<subseteq> set (ba_instances r)"
    using detect_behaviors_returns [of "graph_from_transfers []" "[]" wash_bundle wash_roles wash_config]
    by (auto simp: detect_behaviors_def Let_def scc wash graph_from_transfers_def build_graph_ok split: Option.bind_splits)
  have "length (cycle_instances (eb_sales wash_bundle) ?g [[0, Suc 0]] (cycle_values_of wash_bundle
       (addresses_with_role LikelyVictim wash_roles) (wash_by_address (eb_chain wash_bundle) ?g [[0, Suc 0]]) (Suc 0))) = 1"
    by (simp add: length_cycle_instances)
  then obtain i where "i \<in> set (cycle_instances (eb_sales wash_bundle) ?g [[0, Suc 0]] (cycle_values_of wash_bundle
       (addresses_with_role LikelyVictim wash_roles) (wash_by_address (eb_chain wash_bundle) ?g [[0, Suc 0]]) (Suc 0)))"
    by (metis length_greater_0_conv nth_mem zero_less_one)
  then have i: "i \<in> set (ba_instances r)" "bi_kind i = WashTrading" using r(2) cycle_instances_kind by blast+
  have "2 \<le> card (set (bi_addresses i))"
    using wash_instances_are_cycles [OF r(1) i] by (simp add: wash_config_def)
  with r(1) i show ?thesis by blast
qed

end
