(* ===== verification/StringPool.thy ===== *)
theory StringPool
  imports Prelude
begin

text \<open>
  The interned string pool (\<open>src/analysis2/crates/core/src/entity/string_pool.rs\<close>).  Strings live in
  a vector; a hash map holds the first id of a hash and a side table the ids of genuine
  collisions.  The hash function is \<open>ahash\<close>'s: a parameter \<open>hash\<close> of the model of which nothing is
  assumed.  The facts show that the pool refines interning into a list of different strings,
  whatever the hash function, and the locale \<open>interner\<close> is what the store relies on.

  Ids are \<open>u32\<close>; \<open>intern\<close> panics (\<open>None\<close>) when the next id does not fit.  Reads of \<open>strings\<close> go
  through \<open>idx\<close>; that a stored id is in range is part of \<open>pool_ok\<close>.
\<close>

section \<open>The pool\<close>

record string_pool =
  sp_strings :: "string list"
  sp_by_hash :: "(nat \<times> nat) list"
  sp_collisions :: "(nat \<times> nat list) list"

definition pool_new :: string_pool where
  "pool_new = \<lparr>sp_strings = [], sp_by_hash = [], sp_collisions = []\<rparr>"

definition pool_len :: "string_pool \<Rightarrow> nat" where
  "pool_len p = length (sp_strings p)"

definition pool_is_empty :: "string_pool \<Rightarrow> bool" where
  "pool_is_empty p \<longleftrightarrow> sp_strings p = []"

definition pool_get :: "string_pool \<Rightarrow> nat \<Rightarrow> string option" where
  "pool_get p i = idx (sp_strings p) i"

definition u32_try_from :: "nat \<Rightarrow> nat option" where
  "u32_try_from n = (if n < 2 ^ 32 then Some n else None)"

definition lookup :: "(string \<Rightarrow> nat) \<Rightarrow> string_pool \<Rightarrow> string \<Rightarrow> nat option" where
  "lookup hash p s =
     do {
       first \<leftarrow> map_of (sp_by_hash p) (hash s);
       if idx (sp_strings p) first = Some s then Some first
       else do {
         ids \<leftarrow> map_of (sp_collisions p) (hash s);
         find (\<lambda>i. idx (sp_strings p) i = Some s) ids
       }
     }"

definition push_collision :: "(string \<Rightarrow> nat) \<Rightarrow> string \<Rightarrow> string_pool \<Rightarrow> (nat \<times> string_pool) option" where
  "push_collision hash s p =
     map_option (\<lambda>i. (i, p\<lparr>sp_strings := sp_strings p @ [s],
         sp_collisions := entry_update ah_insert (hash s) [] (\<lambda>ids. ids @ [i]) (sp_collisions p)\<rparr>))
       (u32_try_from (length (sp_strings p)))"

definition push_first :: "(string \<Rightarrow> nat) \<Rightarrow> string \<Rightarrow> string_pool \<Rightarrow> (nat \<times> string_pool) option" where
  "push_first hash s p =
     map_option (\<lambda>i. (i, p\<lparr>sp_strings := sp_strings p @ [s],
         sp_by_hash := ah_insert (hash s) i (sp_by_hash p)\<rparr>))
       (u32_try_from (length (sp_strings p)))"

definition intern :: "(string \<Rightarrow> nat) \<Rightarrow> string \<Rightarrow> string_pool \<Rightarrow> (nat \<times> string_pool) option" where
  "intern hash s p =
     (case map_of (sp_by_hash p) (hash s) of
        Some first \<Rightarrow>
          if idx (sp_strings p) first = Some s then Some (first, p)
          else (case find (\<lambda>i. idx (sp_strings p) i = Some s)
                  (unwrap_or [] (map_of (sp_collisions p) (hash s))) of
              Some i \<Rightarrow> Some (i, p)
            | None \<Rightarrow> push_collision hash s p)
      | None \<Rightarrow> push_first hash s p)"

definition intern_nonempty ::
  "(string \<Rightarrow> nat) \<Rightarrow> string \<Rightarrow> string_pool \<Rightarrow> (nat option \<times> string_pool) option" where
  "intern_nonempty hash s p =
     (if trim s = [] then Some (None, p)
      else map_option (\<lambda>(i, p'). (Some i, p')) (intern hash s p))"

definition intern_nonblank ::
  "(string \<Rightarrow> nat) \<Rightarrow> string \<Rightarrow> string_pool \<Rightarrow> (nat option \<times> string_pool) option" where
  "intern_nonblank hash s p =
     (let trimmed = trim s
      in if trimmed = [] then Some (None, p)
         else map_option (\<lambda>(i, p'). (Some i, p')) (intern hash trimmed p))"

section \<open>The abstract pool: a list of different strings\<close>

definition index_in :: "'a list \<Rightarrow> 'a \<Rightarrow> nat option" where
  "index_in xs x = (if x \<in> set xs then Some (length (takeWhile (\<lambda>y. y \<noteq> x) xs)) else None)"

lemma takeWhile_index: "x \<in> set xs \<Longrightarrow> length (takeWhile (\<lambda>y. y \<noteq> x) xs) < length xs \<and>
    xs ! length (takeWhile (\<lambda>y. y \<noteq> x) xs) = x"
  by (induction xs) auto

lemma index_in_SomeD: "index_in xs x = Some i \<Longrightarrow> i < length xs \<and> xs ! i = x"
  using takeWhile_index by (fastforce simp: index_in_def split: if_splits)

lemma index_in_None: "index_in xs x = None \<longleftrightarrow> x \<notin> set xs"
  by (simp add: index_in_def)

lemma index_in_nth: "distinct xs \<Longrightarrow> i < length xs \<Longrightarrow> index_in xs (xs ! i) = Some i"
  by (metis index_in_None index_in_SomeD nth_eq_iff_index_eq nth_mem not_None_eq)

lemma index_in_append: "x \<in> set xs \<Longrightarrow> index_in (xs @ ys) x = index_in xs x"
  by (auto simp: index_in_def takeWhile_append)

lemma index_in_snoc: "x \<notin> set xs \<Longrightarrow> index_in (xs @ [x]) x = Some (length xs)"
  by (simp add: index_in_def takeWhile_append)

text \<open>Interning into a list: the old position, or the string at the end.\<close>

definition list_intern :: "'a \<Rightarrow> 'a list \<Rightarrow> nat \<times> 'a list" where
  "list_intern s xs = (case index_in xs s of Some i \<Rightarrow> (i, xs) | None \<Rightarrow> (length xs, xs @ [s]))"

lemma list_intern_cases:
  assumes "list_intern s xs = (i, ys)"
  obtains "s \<in> set xs" "ys = xs" "index_in xs s = Some i" | "s \<notin> set xs" "ys = xs @ [s]" "i = length xs"
  using assms by (auto simp: list_intern_def index_in_def split: if_splits)

text \<open>The interface of an interner: its strings are different, \<open>lookup\<close> finds positions, and
  \<open>intern\<close> is \<open>list_intern\<close> as long as the ids suffice.\<close>

locale interner =
  fixes intern_op :: "string \<Rightarrow> 'p \<Rightarrow> (nat \<times> 'p) option"
    and lookup_op :: "'p \<Rightarrow> string \<Rightarrow> nat option"
    and strings :: "'p \<Rightarrow> string list"
    and invar :: "'p \<Rightarrow> bool"
  assumes strings_distinct: "invar p \<Longrightarrow> distinct (strings p)"
    and lookup_position: "invar p \<Longrightarrow> lookup_op p s = index_in (strings p) s"
    and intern_full: "invar p \<Longrightarrow> intern_op s p = None \<longleftrightarrow> s \<notin> set (strings p) \<and> 2 ^ 32 \<le> length (strings p)"
    and intern_list: "invar p \<Longrightarrow> intern_op s p = Some (i, p') \<Longrightarrow>
      list_intern s (strings p) = (i, strings p') \<and> invar p'"
begin

lemma intern_position:
  assumes "invar p" "intern_op s p = Some (i, p')"
  shows "i < length (strings p')" "strings p' ! i = s" "lookup_op p' s = Some i"
proof -
  have l: "list_intern s (strings p) = (i, strings p')" "invar p'" using intern_list [OF assms] by simp_all
  then have "index_in (strings p') s = Some i"
    by (auto elim!: list_intern_cases simp: index_in_snoc)
  then show "i < length (strings p')" "strings p' ! i = s" "lookup_op p' s = Some i"
    using index_in_SomeD lookup_position [OF l(2)] by fastforce+
qed

lemma intern_prefix:
  assumes "invar p" "intern_op s p = Some (i, p')"
  shows "\<exists>zs. strings p' = strings p @ zs"
  using intern_list [OF assms] by (auto elim!: list_intern_cases)

lemma intern_keeps_lookup:
  assumes "invar p" "intern_op s p = Some (i, p')" "lookup_op p t = Some j"
  shows "lookup_op p' t = Some j"
proof -
  from assms(1,3) have "index_in (strings p) t = Some j" using lookup_position by simp
  moreover from this have "t \<in> set (strings p)" by (metis index_in_None option.discI)
  ultimately show ?thesis
    using intern_prefix [OF assms(1,2)] intern_list [OF assms(1,2)] lookup_position index_in_append by metis
qed

lemma lookup_inj: "invar p \<Longrightarrow> lookup_op p s = Some i \<Longrightarrow> lookup_op p t = Some i \<Longrightarrow> s = t"
  by (metis index_in_SomeD lookup_position)

end

section \<open>The pool is an interner\<close>

text \<open>Every id recorded for a hash names a string with that hash, every string is recorded, and a
  hash has collisions only if it has a first id.\<close>

definition ids_ok :: "(string \<Rightarrow> nat) \<Rightarrow> string list \<Rightarrow> nat \<Rightarrow> nat set \<Rightarrow> bool" where
  "ids_ok hash xs h ids \<longleftrightarrow> (\<forall>i \<in> ids. i < length xs \<and> hash (xs ! i) = h)"

definition recorded :: "string_pool \<Rightarrow> nat \<Rightarrow> nat set" where
  "recorded p h = set_option (map_of (sp_by_hash p) h) \<union> set (unwrap_or [] (map_of (sp_collisions p) h))"

definition pool_ok :: "(string \<Rightarrow> nat) \<Rightarrow> string_pool \<Rightarrow> bool" where
  "pool_ok hash p \<longleftrightarrow>
     distinct (sp_strings p) \<and>
     (\<forall>h. ids_ok hash (sp_strings p) h (recorded p h)) \<and>
     (\<forall>i < length (sp_strings p). i \<in> recorded p (hash (sp_strings p ! i))) \<and>
     (\<forall>h. map_of (sp_by_hash p) h = None \<longrightarrow> map_of (sp_collisions p) h = None)"

lemma pool_ok_new: "pool_ok hash pool_new"
  by (simp add: pool_ok_def pool_new_def recorded_def ids_ok_def)

lemma find_idx:
  assumes "distinct xs" "ids_ok hash xs h (set ids)"
  shows "find (\<lambda>i. idx xs i = Some s) ids = (case index_in xs s of Some i \<Rightarrow> if i \<in> set ids then Some i else None | None \<Rightarrow> None)"
  using assms(2)
proof (induction ids)
  case (Cons j ids)
  then have j: "j < length xs" and ids: "ids_ok hash xs h (set ids)" by (simp_all add: ids_ok_def)
  show ?case
  proof (cases "xs ! j = s")
    case True
    then have "index_in xs s = Some j" using index_in_nth [OF assms(1) j] by simp
    with True j show ?thesis by (simp add: idx_eq_Some)
  next
    case False
    then have "index_in xs s \<noteq> Some j" using index_in_SomeD by fastforce
    with False j Cons.IH [OF ids] show ?thesis by (cases "index_in xs s") (auto simp: idx_eq_Some)
  qed
qed (simp split: option.split)

text \<open>The search through the first id and the collisions, for a well-formed pool.\<close>

lemma pool_search:
  assumes "pool_ok hash p"
  shows "(case map_of (sp_by_hash p) (hash s) of
      None \<Rightarrow> s \<notin> set (sp_strings p)
    | Some first \<Rightarrow> (if idx (sp_strings p) first = Some s then Some first
        else find (\<lambda>i. idx (sp_strings p) i = Some s) (unwrap_or [] (map_of (sp_collisions p) (hash s)))) =
        index_in (sp_strings p) s)"
proof -
  let ?xs = "sp_strings p" and ?ids = "unwrap_or [] (map_of (sp_collisions p) (hash s))"
  have dist: "distinct ?xs" and ok: "ids_ok hash ?xs (hash s) (recorded p (hash s))"
    and all: "\<forall>i < length ?xs. i \<in> recorded p (hash (?xs ! i))"
    and none: "map_of (sp_by_hash p) (hash s) = None \<Longrightarrow> map_of (sp_collisions p) (hash s) = None"
    using assms by (simp_all add: pool_ok_def)
  have rec: "i \<in> recorded p (hash s)" if "index_in ?xs s = Some i" for i
    using that all index_in_SomeD by metis
  have "ids_ok hash ?xs (hash s) (set ?ids)" using ok by (simp add: ids_ok_def recorded_def)
  note f = find_idx [OF dist this, of s]
  show ?thesis
  proof (cases "map_of (sp_by_hash p) (hash s)")
    case None
    with none rec have "index_in ?xs s = None" by (cases "index_in ?xs s") (auto simp: recorded_def)
    with None show ?thesis by (simp add: index_in_None)
  next
    case (Some first)
    then have "first < length ?xs" using ok by (simp add: ids_ok_def recorded_def)
    with Some f rec show ?thesis
      using index_in_nth [OF dist \<open>first < length ?xs\<close>]
      by (cases "index_in ?xs s") (auto simp: idx_eq_Some recorded_def dest: index_in_SomeD)
  qed
qed

lemma lookup_index: "pool_ok hash p \<Longrightarrow> lookup hash p s = index_in (sp_strings p) s"
  using pool_search [of hash p s]
  by (auto simp: lookup_def unwrap_or_def index_in_def split: option.splits if_splits cong: if_cong)

lemma recorded_push:
  assumes "pool_ok hash p" "s \<notin> set (sp_strings p)"
    and "sp_strings p' = sp_strings p @ [s]"
    and "\<And>h. recorded p' h = recorded p h \<union> (if h = hash s then {length (sp_strings p)} else {})"
    and "\<And>h. map_of (sp_by_hash p') h = None \<Longrightarrow> map_of (sp_collisions p') h = None"
  shows "pool_ok hash p'"
  using assms by (auto simp: pool_ok_def ids_ok_def nth_append less_Suc_eq)

lemma pool_ok_push_first:
  assumes "pool_ok hash p" "map_of (sp_by_hash p) (hash s) = None" "push_first hash s p = Some (i, p')"
  shows "pool_ok hash p' \<and> sp_strings p' = sp_strings p @ [s] \<and> i = length (sp_strings p)"
proof -
  have s: "s \<notin> set (sp_strings p)" using pool_search [OF assms(1), of s] assms(2) by simp
  have none: "map_of (sp_collisions p) (hash s) = None" using assms(1,2) by (simp add: pool_ok_def)
  have p': "p' = p\<lparr>sp_strings := sp_strings p @ [s], sp_by_hash := ah_insert (hash s) i (sp_by_hash p)\<rparr>"
    and i: "i = length (sp_strings p)"
    using assms(3) by (auto simp: push_first_def u32_try_from_def split: if_splits)
  have "pool_ok hash p'"
    by (rule recorded_push [OF assms(1) s])
      (use assms(1,2) none in \<open>auto simp: p' i recorded_def hashm.lookup_ins pool_ok_def split: if_splits\<close>)
  then show ?thesis by (simp add: p' i)
qed

lemma pool_ok_push_collision:
  assumes "pool_ok hash p" "map_of (sp_by_hash p) (hash s) \<noteq> None" "s \<notin> set (sp_strings p)"
    "push_collision hash s p = Some (i, p')"
  shows "pool_ok hash p' \<and> sp_strings p' = sp_strings p @ [s] \<and> i = length (sp_strings p)"
proof -
  have p': "p' = p\<lparr>sp_strings := sp_strings p @ [s],
      sp_collisions := entry_update ah_insert (hash s) [] (\<lambda>ids. ids @ [i]) (sp_collisions p)\<rparr>"
    and i: "i = length (sp_strings p)"
    using assms(4) by (auto simp: push_collision_def u32_try_from_def split: if_splits)
  have "pool_ok hash p'"
    by (rule recorded_push [OF assms(1,3)])
      (use assms(1,2) in \<open>auto simp: p' i recorded_def hashm.lookup_entry_update pool_ok_def\<close>)
  then show ?thesis by (simp add: p' i)
qed

lemma intern_refines:
  assumes "pool_ok hash p" "intern hash s p = Some (i, p')"
  shows "list_intern s (sp_strings p) = (i, sp_strings p') \<and> pool_ok hash p'"
proof (cases "map_of (sp_by_hash p) (hash s)")
  case None
  with assms(2) have "push_first hash s p = Some (i, p')" by (simp add: intern_def)
  from pool_ok_push_first [OF assms(1) None this] None pool_search [OF assms(1), of s]
  have "pool_ok hash p' \<and> sp_strings p' = sp_strings p @ [s] \<and> i = length (sp_strings p)" "index_in (sp_strings p) s = None"
    by (simp_all add: index_in_None)
  then show ?thesis by (simp add: list_intern_def)
next
  case (Some first)
  let ?search = "if idx (sp_strings p) first = Some s then Some first
    else find (\<lambda>i. idx (sp_strings p) i = Some s) (unwrap_or [] (map_of (sp_collisions p) (hash s)))"
  have search: "?search = index_in (sp_strings p) s" using pool_search [OF assms(1), of s] Some by simp
  have intern: "intern hash s p = (case ?search of Some i \<Rightarrow> Some (i, p) | None \<Rightarrow> push_collision hash s p)"
    by (simp add: intern_def Some)
  show ?thesis
  proof (cases "index_in (sp_strings p) s")
    case None
    then have "push_collision hash s p = Some (i, p')" using assms(2) unfolding intern search by simp
    from pool_ok_push_collision [OF assms(1) _ _ this] Some None show ?thesis
      by (simp add: list_intern_def index_in_def split: if_splits)
  next
    case (Some j)
    then show ?thesis using assms unfolding intern search by (simp add: list_intern_def)
  qed
qed

lemma intern_None_iff:
  assumes "pool_ok hash p"
  shows "intern hash s p = None \<longleftrightarrow> s \<notin> set (sp_strings p) \<and> 2 ^ 32 \<le> length (sp_strings p)"
proof (cases "map_of (sp_by_hash p) (hash s)")
  case None
  then show ?thesis using pool_search [OF assms, of s]
    by (simp add: intern_def push_first_def u32_try_from_def not_less)
next
  case (Some first)
  then show ?thesis using pool_search [OF assms, of s]
    by (cases "index_in (sp_strings p) s")
      (auto simp: intern_def push_collision_def u32_try_from_def not_less index_in_def split: if_splits)
qed

interpretation pool: interner "intern hash" "lookup hash" sp_strings "pool_ok hash" for hash
proof unfold_locales
  fix p s i p'
  show "pool_ok hash p \<Longrightarrow> distinct (sp_strings p)" by (simp add: pool_ok_def)
  show "pool_ok hash p \<Longrightarrow> lookup hash p s = index_in (sp_strings p) s" by (rule lookup_index)
  show "pool_ok hash p \<Longrightarrow> intern hash s p = None \<longleftrightarrow> s \<notin> set (sp_strings p) \<and> 2 ^ 32 \<le> length (sp_strings p)"
    by (rule intern_None_iff)
  show "pool_ok hash p \<Longrightarrow> intern hash s p = Some (i, p') \<Longrightarrow>
      list_intern s (sp_strings p) = (i, sp_strings p') \<and> pool_ok hash p'" by (rule intern_refines)
qed

text \<open>C16. The string pool refines interning into a list of different strings, for every hash
  function and whatever collisions it has: a string already there keeps its position, a new one
  is appended, lookups find exactly the interned strings, earlier ids keep their strings, and
  interning fails only for a new string when all \<open>2 ^ 32\<close> ids are used.\<close>

theorem string_pool_refines:
  assumes "pool_ok hash p"
  shows "lookup hash p s = index_in (sp_strings p) s \<and>
    (intern hash s p = None \<longleftrightarrow> s \<notin> set (sp_strings p) \<and> 2 ^ 32 \<le> length (sp_strings p)) \<and>
    (\<forall>i p'. intern hash s p = Some (i, p') \<longrightarrow>
       pool_ok hash p' \<and> list_intern s (sp_strings p) = (i, sp_strings p') \<and>
       pool_get p' i = Some s \<and> lookup hash p' s = Some i \<and>
       (\<forall>t j. lookup hash p t = Some j \<longrightarrow> lookup hash p' t = Some j))"
proof -
  have "pool_ok hash p' \<and> list_intern s (sp_strings p) = (i, sp_strings p') \<and> pool_get p' i = Some s \<and>
      lookup hash p' s = Some i \<and> (\<forall>t j. lookup hash p t = Some j \<longrightarrow> lookup hash p' t = Some j)"
    if "intern hash s p = Some (i, p')" for i p'
    using pool.intern_list [OF assms that] pool.intern_position [OF assms that] pool.intern_keeps_lookup [OF assms that]
    by (simp add: pool_get_def idx_eq_Some)
  then show ?thesis using pool.lookup_position [OF assms] pool.intern_full [OF assms] by blast
qed

text \<open>Two strings with the same hash.\<close>

theorem string_pool_refines_witness:
  "\<exists>i p. intern (\<lambda>_. 0) ''b'' \<lparr>sp_strings = [''a''], sp_by_hash = [(0, 0)], sp_collisions = []\<rparr> = Some (i, p) \<and>
     lookup (\<lambda>_. 0) p ''b'' = Some i \<and> lookup (\<lambda>_. 0) p ''a'' = Some 0"
proof -
  let ?p = "\<lparr>sp_strings = [''a''], sp_by_hash = [(0, 0)], sp_collisions = []\<rparr>"
  have ok: "pool_ok (\<lambda>_. 0) ?p" by (auto simp: pool_ok_def ids_ok_def recorded_def)
  obtain i p where ip: "intern (\<lambda>_. 0) ''b'' ?p = Some (i, p)"
    using intern_None_iff [OF ok, of "''b''"] by (cases "intern (\<lambda>_. 0) ''b'' ?p") auto
  moreover have "lookup (\<lambda>_. 0) ?p ''a'' = Some 0" by code_simp
  ultimately show ?thesis using string_pool_refines [OF ok, of "''b''"] by blast
qed

end
