(* ===== verification/Search.thy ===== *)
theory Search
  imports Prelude
begin

text \<open>
  The standard library's \<open>Ordering\<close> and \<open>binary_search_by\<close>: the bisection loop over a slice of
  length \<open>n\<close>, given the comparison of the element at an index with the target.  \<open>Inl i\<close> is
  \<open>Ok(i)\<close>, \<open>Inr i\<close> is \<open>Err(i)\<close>.  The facts used elsewhere are \<open>binary_search_found\<close> and
  \<open>binary_search_missing\<close>, which hold of every implementation of its contract.
\<close>

datatype ordering = OrdLess | OrdEqual | OrdGreater

definition cmp :: "'a::linorder \<Rightarrow> 'a \<Rightarrow> ordering" where
  "cmp a b = (if a < b then OrdLess else if a = b then OrdEqual else OrdGreater)"

fun ord_rank :: "ordering \<Rightarrow> nat" where
  "ord_rank OrdLess = 0"
| "ord_rank OrdEqual = 1"
| "ord_rank OrdGreater = 2"

fun ord_then :: "ordering \<Rightarrow> ordering \<Rightarrow> ordering" where
  "ord_then OrdEqual b = b"
| "ord_then a b = a"

function bisect :: "(nat \<Rightarrow> ordering) \<Rightarrow> nat \<Rightarrow> nat \<Rightarrow> nat" where
  "bisect f base len =
     (if len \<le> 1 then base
      else let half = len div 2; mid = base + half
        in bisect f (if f mid = OrdGreater then base else mid) (len - half))"
  by pat_completeness auto
termination by (relation "measure (\<lambda>(_, _, len). len)") auto

declare bisect.simps [simp del]

definition binary_search_by :: "(nat \<Rightarrow> ordering) \<Rightarrow> nat \<Rightarrow> nat + nat" where
  "binary_search_by f n =
     (if n = 0 then Inr 0
      else let base = bisect f 0 n
        in (case f base of
              OrdEqual \<Rightarrow> Inl base
            | OrdLess \<Rightarrow> Inr (base + 1)
            | OrdGreater \<Rightarrow> Inr base))"

section \<open>The contract\<close>

definition compare_sorted :: "(nat \<Rightarrow> ordering) \<Rightarrow> nat \<Rightarrow> bool" where
  "compare_sorted f n \<longleftrightarrow> (\<forall>i j. i \<le> j \<longrightarrow> j < n \<longrightarrow> ord_rank (f i) \<le> ord_rank (f j))"

lemma ord_rank_iff:
  "ord_rank x = 0 \<longleftrightarrow> x = OrdLess" "ord_rank x = 2 \<longleftrightarrow> x = OrdGreater" "ord_rank x \<le> 2"
  "ord_rank x \<le> 1 \<longleftrightarrow> x \<noteq> OrdGreater"
  by (cases x; simp)+

lemma compare_sortedD: "compare_sorted f n \<Longrightarrow> i \<le> j \<Longrightarrow> j < n \<Longrightarrow> ord_rank (f i) \<le> ord_rank (f j)"
  by (simp add: compare_sorted_def)

text \<open>The loop ends at the last index that is not greater, if there is one.\<close>

lemma bisect_range:
  assumes "0 < len" "base + len \<le> n" "compare_sorted f n"
    and "base = 0 \<or> f base \<noteq> OrdGreater" and "\<forall>j. base + len \<le> j \<and> j < n \<longrightarrow> f j = OrdGreater"
  shows "bisect f base len < n \<and> (bisect f base len = 0 \<or> f (bisect f base len) \<noteq> OrdGreater) \<and>
    (\<forall>j. bisect f base len < j \<and> j < n \<longrightarrow> f j = OrdGreater)"
  using assms
proof (induction f base len rule: bisect.induct)
  case (1 f base len)
  show ?case
  proof (cases "len \<le> 1")
    case True
    then have "bisect f base len = base" by (subst bisect.simps) simp
    with 1 True show ?thesis by (auto simp: Suc_le_eq)
  next
    case False
    let ?half = "len div 2"
    let ?base = "if f (base + ?half) = OrdGreater then base else base + ?half"
    have mid: "base + ?half < n" using 1 False by linarith
    have step: "bisect f base len = bisect f ?base (len - ?half)"
      using False by (subst bisect.simps) (simp add: Let_def)
    have above: "\<forall>j. ?base + (len - ?half) \<le> j \<and> j < n \<longrightarrow> f j = OrdGreater"
    proof (intro allI impI)
      fix j assume j: "?base + (len - ?half) \<le> j \<and> j < n"
      show "f j = OrdGreater"
      proof (cases "f (base + ?half) = OrdGreater")
        case True
        have "base + ?half \<le> base + (len - ?half)" by linarith
        with True j have "base + ?half \<le> j" by simp
        then have "ord_rank (f (base + ?half)) \<le> ord_rank (f j)" using j compare_sortedD [OF 1(4)] by blast
        with True show ?thesis using ord_rank_iff(2,3) [of "f j"] by simp
      next
        case False
        with j 1(6) show ?thesis by simp
      qed
    qed
    have start: "?base = 0 \<or> f ?base \<noteq> OrdGreater" using 1(5) by simp
    have le: "?base + (len - ?half) \<le> n" "0 < len - ?half" using 1(3) False by auto
    show ?thesis unfolding step by (rule 1(1) [OF False refl refl le(2,1) 1(4) start above])
  qed
qed

lemma bisect_whole:
  assumes "0 < n" "compare_sorted f n"
  shows "bisect f 0 n < n" "bisect f 0 n = 0 \<or> f (bisect f 0 n) \<noteq> OrdGreater"
    "\<forall>j. bisect f 0 n < j \<and> j < n \<longrightarrow> f j = OrdGreater"
proof -
  have "\<forall>j. 0 + n \<le> j \<and> j < n \<longrightarrow> f j = OrdGreater" by auto
  from bisect_range [OF assms(1) _ assms(2) _ this] show "bisect f 0 n < n"
    "bisect f 0 n = 0 \<or> f (bisect f 0 n) \<noteq> OrdGreater" "\<forall>j. bisect f 0 n < j \<and> j < n \<longrightarrow> f j = OrdGreater"
    by simp_all
qed

lemma binary_search_found:
  assumes "binary_search_by f n = Inl i" "compare_sorted f n"
  shows "i < n \<and> f i = OrdEqual"
  using assms bisect_whole(1) [of n f]
  by (auto simp: binary_search_by_def Let_def split: if_splits ordering.splits)

lemma binary_search_missing:
  assumes "binary_search_by f n = Inr i" "compare_sorted f n"
  shows "i \<le> n \<and> (\<forall>j < i. f j = OrdLess) \<and> (\<forall>j. i \<le> j \<and> j < n \<longrightarrow> f j = OrdGreater)"
proof (cases "n = 0")
  case True
  then show ?thesis using assms by (simp add: binary_search_by_def)
next
  case False
  let ?b = "bisect f 0 n"
  have b: "?b < n" "?b = 0 \<or> f ?b \<noteq> OrdGreater" "\<forall>j. ?b < j \<and> j < n \<longrightarrow> f j = OrdGreater"
    using bisect_whole [of n f] assms(2) False by auto
  from assms(1) False consider "f ?b = OrdLess" "i = ?b + 1" | "f ?b = OrdGreater" "i = ?b"
    by (auto simp: binary_search_by_def Let_def split: ordering.splits)
  then show ?thesis
  proof cases
    case 1
    have "f j = OrdLess" if "j < i" for j
    proof -
      have "ord_rank (f j) \<le> ord_rank (f ?b)" using that 1 b(1) by (intro compare_sortedD [OF assms(2)]) auto
      then show ?thesis using 1 ord_rank_iff(1) [of "f j"] by simp
    qed
    then show ?thesis using 1 b by auto
  next
    case 2
    then show ?thesis using b by (auto simp: le_less)
  qed
qed

section \<open>Searching a strictly increasing list\<close>

definition binary_search :: "'a::linorder list \<Rightarrow> 'a \<Rightarrow> nat + nat" where
  "binary_search xs x = binary_search_by (\<lambda>i. cmp (xs ! i) x) (length xs)"

lemma compare_sorted_cmp: "sorted xs \<Longrightarrow> compare_sorted (\<lambda>i. cmp (xs ! i) x) (length xs)"
  unfolding compare_sorted_def
proof (intro allI impI)
  fix i j assume "sorted xs" "i \<le> j" "j < length xs"
  then have "xs ! i \<le> xs ! j" by (rule sorted_nth_mono)
  then show "ord_rank (cmp (xs ! i) x) \<le> ord_rank (cmp (xs ! j) x)" by (auto simp: cmp_def)
qed

lemma binary_search_iff:
  assumes "sorted_wrt (<) xs"
  shows "binary_search xs x = Inl i \<longleftrightarrow> i < length xs \<and> xs ! i = x"
    and "(\<exists>i. binary_search xs x = Inr i) \<longleftrightarrow> x \<notin> set xs"
proof -
  have s: "sorted xs" "distinct xs" using assms by (simp_all add: strict_sorted_iff)
  note cs = compare_sorted_cmp [OF s(1), of x]
  have found: "i < length xs \<and> xs ! i = x" if "binary_search xs x = Inl i" for i
    using binary_search_found [OF _ cs, of i] that by (auto simp: binary_search_def cmp_def split: if_splits)
  have missing: "x \<notin> set xs" if m: "binary_search xs x = Inr i" for i
  proof
    assume "x \<in> set xs"
    then obtain j where j: "j < length xs" "cmp (xs ! j) x = OrdEqual" by (auto simp: in_set_conv_nth cmp_def)
    have b: "\<forall>j < i. cmp (xs ! j) x = OrdLess" "\<forall>j. i \<le> j \<and> j < length xs \<longrightarrow> cmp (xs ! j) x = OrdGreater"
      using binary_search_missing [OF m [unfolded binary_search_def] cs] by blast+
    show False
    proof (cases "j < i")
      case True
      with b(1) j(2) show False by (metis ordering.distinct(1))
    next
      case False
      with b(2) j show False by (metis not_less ordering.distinct(5))
    qed
  qed
  show "binary_search xs x = Inl i \<longleftrightarrow> i < length xs \<and> xs ! i = x"
  proof
    assume i: "i < length xs \<and> xs ! i = x"
    then have "x \<in> set xs" by auto
    with missing obtain k where k: "binary_search xs x = Inl k" by (cases "binary_search xs x") auto
    from found [OF k] i s(2) have "k = i" using nth_eq_iff_index_eq by fastforce
    with k show "binary_search xs x = Inl i" by simp
  qed (use found in simp)
  show "(\<exists>i. binary_search xs x = Inr i) \<longleftrightarrow> x \<notin> set xs"
  proof
    assume "x \<notin> set xs"
    then show "\<exists>i. binary_search xs x = Inr i" using found by (cases "binary_search xs x") auto
  qed (use missing in blast)
qed

end
