(* ===== verification/Csr.thy ===== *)
theory Csr
  imports Search
begin

text \<open>
  Compact posting indexes (\<open>src/analysis2/crates/core/src/entity/csr.rs\<close>): \<open>CsrIndex\<close> over sorted
  (key, value) pairs, and \<open>UriChainIndex\<close> over sorted (uri, chain, nft) triples with per-chain runs.
  Both group their input by key; the locale \<open>posting_index\<close> is the contract their clients use.

  All numbers are \<open>u32\<close>/\<open>u16\<close> values as \<open>nat\<close>; \<open>len() as u32\<close> wraps (\<open>u32\<close>), so the facts ask for
  fewer than \<open>2 ^ 32\<close> entries.
\<close>

definition u32 :: "nat \<Rightarrow> nat" where
  "u32 n = n mod 2 ^ 32"

text \<open>\<open>slice.get(start..end)\<close>\<close>

definition slice :: "'a list \<Rightarrow> nat \<Rightarrow> nat \<Rightarrow> 'a list option" where
  "slice xs start end = (if start \<le> end \<and> end \<le> length xs then Some (take (end - start) (drop start xs)) else None)"

section \<open>CsrIndex\<close>

record csr_index =
  cx_keys :: "nat list"
  cx_offsets :: "nat list"
  cx_values :: "nat list"

definition csr_new :: csr_index where
  "csr_new = \<lparr>cx_keys = [], cx_offsets = [], cx_values = []\<rparr>"

definition csr_is_empty :: "csr_index \<Rightarrow> bool" where
  "csr_is_empty c \<longleftrightarrow> cx_keys c = []"

definition csr_key_count :: "csr_index \<Rightarrow> nat" where
  "csr_key_count c = length (cx_keys c)"

definition row_for :: "nat list \<Rightarrow> nat list \<Rightarrow> 'a list \<Rightarrow> nat \<Rightarrow> 'a list option" where
  "row_for keys offsets xs key =
     do {
       index \<leftarrow> (case binary_search keys key of Inl i \<Rightarrow> Some i | Inr _ \<Rightarrow> None);
       start \<leftarrow> idx offsets index;
       end \<leftarrow> idx offsets (index + 1);
       slice xs start end
     }"

definition csr_values_for :: "csr_index \<Rightarrow> nat \<Rightarrow> nat list option" where
  "csr_values_for c key = row_for (cx_keys c) (cx_offsets c) (cx_values c) key"

definition csr_clear :: "csr_index \<Rightarrow> csr_index" where
  "csr_clear c = c\<lparr>cx_keys := [], cx_offsets := [], cx_values := []\<rparr>"

text \<open>The outer loop: one group of equal keys per round.\<close>

function csr_loop :: "(nat \<times> nat) list \<Rightarrow> csr_index \<Rightarrow> csr_index" where
  "csr_loop [] c = c"
| "csr_loop ((key, v) # ps) c =
     (let xs = cx_values c @ v # map snd (takeWhile (\<lambda>p. fst p = key) ps)
      in csr_loop (dropWhile (\<lambda>p. fst p = key) ps)
           (c\<lparr>cx_keys := cx_keys c @ [key], cx_values := xs, cx_offsets := cx_offsets c @ [u32 (length xs)]\<rparr>))"
  by pat_completeness auto
termination
  by (relation "measure (\<lambda>(ps, _). length ps)") (auto simp: length_dropWhile_le le_imp_less_Suc)

definition from_sorted_pairs :: "(nat \<times> nat) list \<Rightarrow> csr_index" where
  "from_sorted_pairs pairs =
     (if pairs = [] then \<lparr>cx_keys = [], cx_offsets = [0], cx_values = []\<rparr>
      else csr_loop pairs \<lparr>cx_keys = [], cx_offsets = [0], cx_values = []\<rparr>)"

section \<open>UriChainIndex\<close>

record uri_chain_run =
  ur_chain_id :: nat
  ur_start :: nat
  ur_end :: nat

record uri_chain_index =
  ui_keys :: "nat list"
  ui_value_offsets :: "nat list"
  ui_values :: "nat list"
  ui_run_offsets :: "nat list"
  ui_runs :: "uri_chain_run list"

definition uri_new :: uri_chain_index where
  "uri_new = \<lparr>ui_keys = [], ui_value_offsets = [], ui_values = [], ui_run_offsets = [], ui_runs = []\<rparr>"

definition uri_is_empty :: "uri_chain_index \<Rightarrow> bool" where
  "uri_is_empty u \<longleftrightarrow> ui_keys u = []"

definition uri_key_count :: "uri_chain_index \<Rightarrow> nat" where
  "uri_key_count u = length (ui_keys u)"

definition uri_clear :: "uri_chain_index \<Rightarrow> uri_chain_index" where
  "uri_clear u = u\<lparr>ui_keys := [], ui_value_offsets := [], ui_values := [], ui_run_offsets := [], ui_runs := []\<rparr>"

definition uri_values_for :: "uri_chain_index \<Rightarrow> nat \<Rightarrow> nat list option" where
  "uri_values_for u key = row_for (ui_keys u) (ui_value_offsets u) (ui_values u) key"

definition runs_for :: "uri_chain_index \<Rightarrow> nat \<Rightarrow> uri_chain_run list option" where
  "runs_for u key = row_for (ui_keys u) (ui_run_offsets u) (ui_runs u) key"

text \<open>\<open>self.values[start..end]\<close> panics out of range: the result is then \<open>None\<close>.\<close>

fun fill_runs :: "nat list \<Rightarrow> uri_chain_run list \<Rightarrow> nat list list \<Rightarrow> nat list list option" where
  "fill_runs xs [] by_chain = Some by_chain"
| "fill_runs xs (run # runs) by_chain =
     (if ur_chain_id run \<ge> length by_chain then fill_runs xs runs by_chain
      else do {
        part \<leftarrow> slice xs (ur_start run) (ur_end run);
        fill_runs xs runs (by_chain[ur_chain_id run := by_chain ! ur_chain_id run @ part])
      })"

definition fill_by_chain :: "uri_chain_index \<Rightarrow> nat \<Rightarrow> nat list list \<Rightarrow> (bool \<times> nat list list) option" where
  "fill_by_chain u key by_chain =
     (let cleared = map (\<lambda>_. []) by_chain
      in case runs_for u key of
           None \<Rightarrow> Some (False, cleared)
         | Some runs \<Rightarrow> map_option (Pair True) (fill_runs (ui_values u) runs cleared))"

type_synonym triple = "nat \<times> nat \<times> nat"

text \<open>The loop over the chain runs of one uri.\<close>

function run_loop :: "triple list \<Rightarrow> nat list \<times> uri_chain_run list \<Rightarrow> nat list \<times> uri_chain_run list" where
  "run_loop [] st = st"
| "run_loop ((uri, chain, nft) # ts) st =
     (let xs = fst st @ nft # map (snd \<circ> snd) (takeWhile (\<lambda>t. fst (snd t) = chain) ts)
      in run_loop (dropWhile (\<lambda>t. fst (snd t) = chain) ts)
           (xs, snd st @ [\<lparr>ur_chain_id = chain, ur_start = u32 (length (fst st)), ur_end = u32 (length xs)\<rparr>]))"
  by pat_completeness auto
termination
  by (relation "measure (\<lambda>(ts, _). length ts)") (auto simp: length_dropWhile_le le_imp_less_Suc)

function uri_loop :: "triple list \<Rightarrow> uri_chain_index \<Rightarrow> uri_chain_index" where
  "uri_loop [] u = u"
| "uri_loop (t # ts) u =
     (let st = run_loop (t # takeWhile (\<lambda>x. fst x = fst t) ts) (ui_values u, ui_runs u)
      in uri_loop (dropWhile (\<lambda>x. fst x = fst t) ts)
           (u\<lparr>ui_keys := ui_keys u @ [fst t], ui_values := fst st, ui_runs := snd st,
              ui_value_offsets := ui_value_offsets u @ [u32 (length (fst st))],
              ui_run_offsets := ui_run_offsets u @ [u32 (length (snd st))]\<rparr>))"
  by pat_completeness auto
termination
  by (relation "measure (\<lambda>(ts, _). length ts)") (auto simp: length_dropWhile_le le_imp_less_Suc)

definition from_sorted_triples :: "triple list \<Rightarrow> uri_chain_index" where
  "from_sorted_triples triples =
     (let empty = \<lparr>ui_keys = [], ui_value_offsets = [0], ui_values = [], ui_run_offsets = [0], ui_runs = []\<rparr>
      in if triples = [] then empty else uri_loop triples empty)"

section \<open>Grouping by key\<close>

function groups :: "('e \<Rightarrow> nat) \<Rightarrow> 'e list \<Rightarrow> (nat \<times> 'e list) list" where
  "groups key [] = []"
| "groups key (e # es) =
     (key e, e # takeWhile (\<lambda>x. key x = key e) es) # groups key (dropWhile (\<lambda>x. key x = key e) es)"
  by pat_completeness auto
termination
  by (relation "measure (\<lambda>(_, es). length es)") (auto simp: length_dropWhile_le le_imp_less_Suc)

lemma groups_concat: "concat (map snd (groups key es)) = es"
  by (induction key es rule: groups.induct) simp_all

lemma dropWhile_keeps: "x \<in> set es \<Longrightarrow> \<not> P x \<Longrightarrow> x \<in> set (dropWhile P es)"
  by (induction es) auto

lemma sorted_map_dropWhile: "sorted (map key es) \<Longrightarrow> sorted (map key (dropWhile P es))"
  by (induction es) auto

lemma groups_keys: "set (map fst (groups key es)) = key ` set es"
proof (induction key es rule: groups.induct)
  case (2 key e es)
  have "key ` set es \<subseteq> {key e} \<union> key ` set (dropWhile (\<lambda>x. key x = key e) es)"
    using dropWhile_keeps [of _ es "\<lambda>x. key x = key e"] by auto
  with 2 show ?case by (auto dest: set_dropWhileD)
qed simp

lemma dropWhile_greater:
  assumes "sorted (map key (e # es))" "x \<in> set (dropWhile (\<lambda>x. key x = key e) es)"
  shows "key e < key x"
  using assms
proof (induction es)
  case (Cons a es)
  then show ?case by (cases "key a = key e") (auto simp: less_le_trans)
qed simp

lemma groups_sorted: "sorted (map key es) \<Longrightarrow> sorted_wrt (<) (map fst (groups key es))"
proof (induction key es rule: groups.induct)
  case (2 key e es)
  have "sorted (map key (dropWhile (\<lambda>x. key x = key e) es))"
    using "2.prems" by (simp add: sorted_map_dropWhile)
  moreover have "\<forall>k \<in> set (map fst (groups key (dropWhile (\<lambda>x. key x = key e) es))). key e < k"
    unfolding groups_keys using dropWhile_greater [OF "2.prems"] by blast
  ultimately show ?case using "2.IH" by simp
qed simp

lemma groups_filter:
  assumes "sorted (map key es)" "(k, g) \<in> set (groups key es)"
  shows "g = filter (\<lambda>x. key x = k) es"
  using assms
proof (induction key es rule: groups.induct)
  case (2 key e es)
  let ?rest = "dropWhile (\<lambda>x. key x = key e) es"
  have split: "es = takeWhile (\<lambda>x. key x = key e) es @ ?rest" by simp
  have gt: "\<forall>x \<in> set ?rest. key e < key x" using dropWhile_greater [OF "2.prems"(1)] by blast
  have rest: "sorted (map key ?rest)"
    using "2.prems"(1) by (simp add: sorted_map_dropWhile)
  from "2.prems"(2) consider "k = key e" "g = e # takeWhile (\<lambda>x. key x = key e) es" | "(k, g) \<in> set (groups key ?rest)"
    by auto
  then show ?case
  proof cases
    case 1
    have "filter (\<lambda>x. key x = key e) (takeWhile (\<lambda>x. key x = key e) es) = takeWhile (\<lambda>x. key x = key e) es"
      by (rule filter_True) (auto dest: set_takeWhileD)
    moreover have "filter (\<lambda>x. key x = key e) ?rest = []" using gt by (auto simp: filter_empty_conv)
    ultimately have "filter (\<lambda>x. key x = key e) es = takeWhile (\<lambda>x. key x = key e) es"
      by (metis append_Nil2 filter_append split)
    with 1 show ?thesis by simp
  next
    case 2
    then have "k \<in> key ` set ?rest" using groups_keys [of key ?rest] by force
    then have "key e < k" using gt by auto
    then have "filter (\<lambda>x. key x = k) (takeWhile (\<lambda>x. key x = key e) es) = []"
      by (auto simp: filter_empty_conv dest: set_takeWhileD)
    then have "filter (\<lambda>x. key x = k) es = filter (\<lambda>x. key x = k) ?rest"
      by (metis append_Nil filter_append split)
    with \<open>key e < k\<close> have "filter (\<lambda>x. key x = k) (e # es) = filter (\<lambda>x. key x = k) ?rest" by simp
    with "2.IH" [OF rest 2] show ?thesis by simp
  qed
qed simp

section \<open>Rows and offsets\<close>

text \<open>The ends of consecutive rows, starting at \<open>n\<close>.\<close>

fun ends :: "nat \<Rightarrow> 'a list list \<Rightarrow> nat list" where
  "ends n [] = []"
| "ends n (r # rs) = (n + length r) # ends (n + length r) rs"

lemma length_ends [simp]: "length (ends n rs) = length rs"
  by (induction n rs rule: ends.induct) simp_all

lemma nth_ends: "i \<le> length rs \<Longrightarrow> (n # ends n rs) ! i = n + length (concat (take i rs))"
proof (induction n rs arbitrary: i rule: ends.induct)
  case (2 n r rs)
  show ?case
  proof (cases i)
    case (Suc j)
    with 2 show ?thesis by simp
  qed simp
qed simp

lemma slice_append: "length pre = n \<Longrightarrow> slice (pre @ r @ post) n (n + length r) = Some r"
  by (simp add: slice_def)

lemma slice_row:
  assumes "i < length rs"
  shows "slice (concat rs) (length (concat (take i rs))) (length (concat (take (Suc i) rs))) = Some (rs ! i)"
proof -
  have "concat rs = concat (take i rs) @ rs ! i @ concat (drop (Suc i) rs)"
    using id_take_nth_drop [OF assms] by (metis concat.simps(2) concat_append)
  then show ?thesis
    using slice_append [of "concat (take i rs)" _ "rs ! i"] assms by (simp add: take_Suc_conv_app_nth)
qed

lemma ends_snoc: "ends n (rs @ [r]) = ends n rs @ [n + length (concat rs) + length r]"
  by (induction n rs rule: ends.induct) simp_all

text \<open>The row between two offsets.\<close>

definition row_at :: "nat list \<Rightarrow> 'a list \<Rightarrow> nat \<Rightarrow> 'a list option" where
  "row_at offsets xs i = do { start \<leftarrow> idx offsets i; end \<leftarrow> idx offsets (i + 1); slice xs start end }"

lemma row_at_rows: "row_at (0 # ends 0 rs) (concat rs) i = idx rs i"
proof (cases "i < length rs")
  case True
  then have "idx (0 # ends 0 rs) i = Some (length (concat (take i rs)))"
    "idx (0 # ends 0 rs) (i + 1) = Some (length (concat (take (Suc i) rs)))"
    using nth_ends [of i rs 0] nth_ends [of "Suc i" rs 0] by (simp_all add: idx_eq_Some)
  then show ?thesis using slice_row [OF True] True by (simp add: row_at_def)
next
  case False
  then have "idx (0 # ends 0 rs) (i + 1) = None" "idx rs i = None" by (simp_all add: idx_def)
  then show ?thesis by (cases "idx (0 # ends 0 rs) i") (simp_all add: row_at_def)
qed

lemma row_for_rows:
  assumes "sorted_wrt (<) keys" "length keys = length rs"
  shows "row_for keys (0 # ends 0 rs) (concat rs) key = map_of (zip keys rs) key"
proof (cases "key \<in> set keys")
  case True
  then obtain i where i: "i < length keys" "keys ! i = key" by (auto simp: in_set_conv_nth)
  then have found: "binary_search keys key = Inl i" using binary_search_iff(1) [OF assms(1)] by simp
  have "distinct keys" using assms(1) by (simp add: strict_sorted_iff)
  then have "map_of (zip keys rs) key = Some (rs ! i)" using map_of_zip_nth [OF assms(2)] i assms(2) by force
  moreover have "idx (0 # ends 0 rs) i = Some (length (concat (take i rs)))"
    "idx (0 # ends 0 rs) (Suc i) = Some (length (concat (take (Suc i) rs)))"
    using i(1) assms(2) nth_ends [of i rs 0] nth_ends [of "Suc i" rs 0] by (simp_all add: idx_eq_Some)
  ultimately show ?thesis using slice_row [of i rs] i(1) assms(2) by (simp add: row_for_def found)
next
  case False
  then obtain i where "binary_search keys key = Inr i" using binary_search_iff(2) [OF assms(1)] by blast
  moreover have "map_of (zip keys rs) key = None" using False by (auto simp: map_of_eq_None_iff dest: set_zip_leftD)
  ultimately show ?thesis by (simp add: row_for_def)
qed

text \<open>The rows of an input: per key the values of its entries, in order.\<close>

definition rows :: "('e \<Rightarrow> nat) \<Rightarrow> ('e \<Rightarrow> nat) \<Rightarrow> 'e list \<Rightarrow> nat list list" where
  "rows key val es = map (map val \<circ> snd) (groups key es)"

lemma concat_rows: "concat (rows key val es) = map val es"
proof -
  have "concat (rows key val es) = map val (concat (map snd (groups key es)))"
    by (simp add: rows_def map_concat comp_def)
  then show ?thesis by (simp add: groups_concat)
qed

lemma map_of_rows:
  assumes "sorted (map key es)"
  shows "map_of (zip (map fst (groups key es)) (rows key val es)) k =
    (if k \<in> key ` set es then Some (map val (filter (\<lambda>e. key e = k) es)) else None)"
proof -
  have zip: "zip (map fst (groups key es)) (rows key val es) = map (\<lambda>(k, g). (k, map val g)) (groups key es)"
    unfolding rows_def zip_map_map by (simp add: zip_same_conv_map case_prod_unfold)
  have dist: "distinct (map fst (groups key es))" using groups_sorted [OF assms] by (simp add: strict_sorted_iff)
  show ?thesis
  proof (cases "k \<in> key ` set es")
    case True
    then obtain g where g: "(k, g) \<in> set (groups key es)" using groups_keys [of key es] by force
    then have "map_of (groups key es) k = Some g" using dist by simp
    with g True groups_filter [OF assms g] show ?thesis by (simp add: zip map_of_map)
  next
    case False
    then have "map_of (groups key es) k = None" using groups_keys [of key es] by (simp add: map_of_eq_None_iff)
    with False show ?thesis by (simp add: zip map_of_map)
  qed
qed

text \<open>The contract of a posting index built from sorted entries.\<close>

locale posting_index =
  fixes build :: "'e list \<Rightarrow> 'i"
    and values_of :: "'i \<Rightarrow> nat \<Rightarrow> nat list option"
    and key :: "'e \<Rightarrow> nat"
    and val :: "'e \<Rightarrow> nat"
  assumes build_values: "sorted (map key es) \<Longrightarrow> length es < 2 ^ 32 \<Longrightarrow>
      values_of (build es) k = (if k \<in> key ` set es then Some (map val (filter (\<lambda>e. key e = k) es)) else None)"
begin

lemma members: "sorted (map key es) \<Longrightarrow> length es < 2 ^ 32 \<Longrightarrow>
    set (unwrap_or [] (values_of (build es) k)) = val ` {e \<in> set es. key e = k}"
  by (auto simp: build_values)

lemma values_list: "sorted (map key es) \<Longrightarrow> length es < 2 ^ 32 \<Longrightarrow>
    unwrap_or [] (values_of (build es) k) = map val (filter (\<lambda>e. key e = k) es)"
  by (auto simp: build_values filter_empty_conv)

lemma total_length:
  "sorted (map key es) \<Longrightarrow> length es < 2 ^ 32 \<Longrightarrow>
   length (unwrap_or [] (values_of (build es) k)) = length (filter (\<lambda>e. key e = k) es)"
  by (auto simp: build_values filter_empty_conv)

end

section \<open>The two indexes\<close>

lemma u32_small: "n < 2 ^ 32 \<Longrightarrow> u32 n = n"
  by (simp add: u32_def)

lemma csr_loop_eq:
  "length (cx_values c) + length ps < 2 ^ 32 \<Longrightarrow>
   csr_loop ps c = c\<lparr>cx_keys := cx_keys c @ map fst (groups fst ps), cx_values := cx_values c @ map snd ps,
     cx_offsets := cx_offsets c @ ends (length (cx_values c)) (rows fst snd ps)\<rparr>"
proof (induction ps c rule: csr_loop.induct)
  case (2 key v ps c)
  let ?take = "takeWhile (\<lambda>p. fst p = key) ps" and ?drop = "dropWhile (\<lambda>p. fst p = key) ps"
  have len: "length ?take + length ?drop = length ps" by (metis length_append takeWhile_dropWhile_id)
  have map: "map snd ?take @ map snd ?drop = map snd ps" by (metis map_append takeWhile_dropWhile_id)
  have small: "u32 (length (cx_values c @ v # map snd ?take)) = length (cx_values c @ v # map snd ?take)"
    using "2.prems" len by (intro u32_small) simp
  show ?case
    unfolding csr_loop.simps Let_def small using "2.IH" [OF refl] "2.prems" len map
    by (simp add: rows_def small [simplified] add.assoc)
qed (simp add: rows_def)

lemma csr_values_spec:
  assumes "sorted (map fst ps)" "length ps < 2 ^ 32"
  shows "csr_values_for (from_sorted_pairs ps) k =
    (if k \<in> fst ` set ps then Some (map snd (filter (\<lambda>p. fst p = k) ps)) else None)"
proof -
  let ?e = "\<lparr>cx_keys = [], cx_offsets = [0], cx_values = []\<rparr>"
  have "from_sorted_pairs ps = csr_loop ps ?e" by (simp add: from_sorted_pairs_def)
  also have "\<dots> = \<lparr>cx_keys = map fst (groups fst ps), cx_offsets = 0 # ends 0 (rows fst snd ps), cx_values = map snd ps\<rparr>"
    using csr_loop_eq [of ?e ps] assms(2) by simp
  finally show ?thesis
    using row_for_rows [OF groups_sorted [OF assms(1)], of "rows fst snd ps" k] map_of_rows [OF assms(1), of snd k]
    by (simp add: csr_values_for_def concat_rows) (simp add: rows_def)
qed

interpretation csr: posting_index from_sorted_pairs csr_values_for fst snd
  by unfold_locales (rule csr_values_spec)

text \<open>The runs of one uri, and the runs of all uris, from a starting position.\<close>

fun runs_from :: "nat \<Rightarrow> (nat \<times> triple list) list \<Rightarrow> uri_chain_run list" where
  "runs_from n [] = []"
| "runs_from n ((chain, g) # gs) =
     \<lparr>ur_chain_id = chain, ur_start = n, ur_end = n + length g\<rparr> # runs_from (n + length g) gs"

fun uri_run_rows :: "nat \<Rightarrow> (nat \<times> triple list) list \<Rightarrow> uri_chain_run list list" where
  "uri_run_rows n [] = []"
| "uri_run_rows n ((uri, g) # gs) = runs_from n (groups (fst \<circ> snd) g) # uri_run_rows (n + length g) gs"

lemma length_runs_from [simp]: "length (runs_from n gs) = length gs"
  by (induction n gs rule: runs_from.induct) simp_all

lemma length_uri_run_rows [simp]: "length (uri_run_rows n gs) = length gs"
  by (induction n gs rule: uri_run_rows.induct) simp_all

lemma length_groups: "length (groups key es) \<le> length es"
proof (induction key es rule: groups.induct)
  case (2 key e es)
  then show ?case using length_dropWhile_le [of "\<lambda>x. key x = key e" es] by simp
qed simp

lemma run_loop_eq:
  "length (fst st) + length ts < 2 ^ 32 \<Longrightarrow>
   run_loop ts st = (fst st @ map (snd \<circ> snd) ts, snd st @ runs_from (length (fst st)) (groups (fst \<circ> snd) ts))"
proof (induction ts st rule: run_loop.induct)
  case (2 uri chain nft ts st)
  let ?P = "\<lambda>t. fst (snd t) = chain"
  have len: "length (takeWhile ?P ts) + length (dropWhile ?P ts) = length ts"
    by (metis length_append takeWhile_dropWhile_id)
  have map: "map (snd \<circ> snd) (takeWhile ?P ts) @ map (snd \<circ> snd) (dropWhile ?P ts) = map (snd \<circ> snd) ts"
    by (metis map_append takeWhile_dropWhile_id)
  have small: "u32 (length (fst st)) = length (fst st)"
    "u32 (length (fst st @ nft # map (snd \<circ> snd) (takeWhile ?P ts))) = length (fst st @ nft # map (snd \<circ> snd) (takeWhile ?P ts))"
    using "2.prems" len by (auto intro!: u32_small)
  show ?case
    unfolding run_loop.simps Let_def small using "2.IH" [OF refl] "2.prems" len map
    by (simp add: small [simplified] add.assoc comp_def)
qed simp

lemma uri_loop_eq:
  "length (ui_values u) + length ts < 2 ^ 32 \<Longrightarrow> length (ui_runs u) + length ts < 2 ^ 32 \<Longrightarrow>
   uri_loop ts u = u\<lparr>ui_keys := ui_keys u @ map fst (groups fst ts), ui_values := ui_values u @ map (snd \<circ> snd) ts,
     ui_runs := ui_runs u @ concat (uri_run_rows (length (ui_values u)) (groups fst ts)),
     ui_value_offsets := ui_value_offsets u @ ends (length (ui_values u)) (rows fst (snd \<circ> snd) ts),
     ui_run_offsets := ui_run_offsets u @
       ends (length (ui_runs u)) (uri_run_rows (length (ui_values u)) (groups fst ts))\<rparr>"
proof (induction ts u rule: uri_loop.induct)
  case (2 t ts u)
  let ?P = "\<lambda>x. fst x = fst t"
  let ?g = "t # takeWhile ?P ts" and ?n = "length (ui_values u)"
  let ?st = "(ui_values u @ map (snd \<circ> snd) ?g, ui_runs u @ runs_from ?n (groups (fst \<circ> snd) ?g))"
  have len: "length (takeWhile ?P ts) + length (dropWhile ?P ts) = length ts"
    by (metis length_append takeWhile_dropWhile_id)
  have map: "map (snd \<circ> snd) (takeWhile ?P ts) @ map (snd \<circ> snd) (dropWhile ?P ts) = map (snd \<circ> snd) ts"
    by (metis map_append takeWhile_dropWhile_id)
  have run: "run_loop ?g (ui_values u, ui_runs u) = ?st"
    using run_loop_eq [of "(ui_values u, ui_runs u)" ?g] "2.prems"(1) len by simp
  have gl: "length (groups (fst \<circ> snd) ?g) \<le> length ?g" by (rule length_groups)
  have small: "u32 (length (fst ?st)) = length (fst ?st)" "u32 (length (snd ?st)) = length (snd ?st)"
    using "2.prems" len gl by (auto intro!: u32_small)
  have IH: "uri_loop (dropWhile ?P ts) u' = u'\<lparr>ui_keys := ui_keys u' @ map fst (groups fst (dropWhile ?P ts)),
     ui_values := ui_values u' @ map (snd \<circ> snd) (dropWhile ?P ts),
     ui_runs := ui_runs u' @ concat (uri_run_rows (length (ui_values u')) (groups fst (dropWhile ?P ts))),
     ui_value_offsets := ui_value_offsets u' @ ends (length (ui_values u')) (rows fst (snd \<circ> snd) (dropWhile ?P ts)),
     ui_run_offsets := ui_run_offsets u' @
       ends (length (ui_runs u')) (uri_run_rows (length (ui_values u')) (groups fst (dropWhile ?P ts)))\<rparr>"
    if u': "u' = u\<lparr>ui_keys := ui_keys u @ [fst t], ui_values := fst ?st, ui_runs := snd ?st,
        ui_value_offsets := ui_value_offsets u @ [u32 (length (fst ?st))],
        ui_run_offsets := ui_run_offsets u @ [u32 (length (snd ?st))]\<rparr>" for u'
    unfolding u' by (rule "2.IH" [OF refl, unfolded run]) (use "2.prems" len gl in simp_all)
  show ?case
    unfolding uri_loop.simps Let_def run
    unfolding IH [OF refl]
    unfolding small
    by (rule uri_chain_index.equality) (simp_all add: rows_def add.assoc comp_def map [unfolded comp_def, symmetric])
qed (simp add: rows_def)

lemma uri_index_eq:
  assumes "length ts < 2 ^ 32"
  shows "from_sorted_triples ts = \<lparr>ui_keys = map fst (groups fst ts),
    ui_value_offsets = 0 # ends 0 (rows fst (snd \<circ> snd) ts), ui_values = map (snd \<circ> snd) ts,
    ui_run_offsets = 0 # ends 0 (uri_run_rows 0 (groups fst ts)), ui_runs = concat (uri_run_rows 0 (groups fst ts))\<rparr>"
proof -
  let ?e = "\<lparr>ui_keys = [], ui_value_offsets = [0], ui_values = [], ui_run_offsets = [0], ui_runs = []\<rparr>"
  have "from_sorted_triples ts = uri_loop ts ?e" by (simp add: from_sorted_triples_def Let_def)
  then show ?thesis using uri_loop_eq [of ?e ts] assms by simp
qed

lemma uri_values_spec:
  assumes "sorted (map fst ts)" "length ts < 2 ^ 32"
  shows "uri_values_for (from_sorted_triples ts) k =
    (if k \<in> fst ` set ts then Some (map (snd \<circ> snd) (filter (\<lambda>t. fst t = k) ts)) else None)"
  using row_for_rows [OF groups_sorted [OF assms(1)], of "rows fst (snd \<circ> snd) ts" k]
    map_of_rows [OF assms(1), of "snd \<circ> snd" k]
  by (simp add: uri_index_eq [OF assms(2)] uri_values_for_def concat_rows) (simp add: rows_def)

interpretation uri: posting_index from_sorted_triples uri_values_for fst "snd \<circ> snd"
  by unfold_locales (rule uri_values_spec)

text \<open>C17. The posting indexes answer exactly: built from fewer than \<open>2 ^ 32\<close> entries sorted by key,
  the values of a key are those of its entries, in order, and a key without entries has none; the
  same holds of the contract index and of the uri index over all chains.\<close>

theorem posting_indexes_exact:
  assumes "sorted (map fst pairs)" "length pairs < 2 ^ 32" "sorted (map fst triples)" "length triples < 2 ^ 32"
  shows "csr_values_for (from_sorted_pairs pairs) k =
      (if k \<in> fst ` set pairs then Some (map snd (filter (\<lambda>p. fst p = k) pairs)) else None) \<and>
    uri_values_for (from_sorted_triples triples) k =
      (if k \<in> fst ` set triples then Some (map (snd \<circ> snd) (filter (\<lambda>t. fst t = k) triples)) else None)"
  using csr.build_values [OF assms(1,2)] uri.build_values [OF assms(3,4)] by simp

theorem posting_indexes_exact_witness:
  "csr_values_for (from_sorted_pairs [(1, 7), (1, 9), (4, 8)]) 1 = Some [7, 9] \<and>
   uri_values_for (from_sorted_triples [(3, 0, 5), (3, 1, 6)]) 3 = Some [5, 6]"
  using posting_indexes_exact [of "[(1, 7), (1, 9), (4, 8)]" "[(3, 0, 5), (3, 1, 6)]" 1]
    posting_indexes_exact [of "[(1, 7), (1, 9), (4, 8)]" "[(3, 0, 5), (3, 1, 6)]" 3] by simp

section \<open>Chain runs\<close>

text \<open>Filling the buckets from the runs of a list of chain groups laid out from position \<open>n\<close>.\<close>

lemma fill_runs_from:
  assumes "length pre = n"
  shows "fill_runs (pre @ concat (map (map (snd \<circ> snd) \<circ> snd) gs) @ post) (runs_from n gs) bc =
    Some (map (\<lambda>c. bc ! c @ concat (map (map (snd \<circ> snd) \<circ> snd) (filter (\<lambda>g. fst g = c) gs))) [0..<length bc])"
  using assms
proof (induction n gs arbitrary: pre bc rule: runs_from.induct)
  case (1 n)
  then show ?case by (simp add: map_nth)
next
  case (2 n chain g gs)
  let ?nft = "map (snd \<circ> snd)"
  let ?xs = "pre @ concat (map (?nft \<circ> snd) ((chain, g) # gs)) @ post"
  have xs: "?xs = (pre @ ?nft g) @ concat (map (?nft \<circ> snd) gs) @ post" by simp
  have part: "slice ?xs n (n + length g) = Some (?nft g)"
    using slice_append [of pre n "?nft g" "concat (map (?nft \<circ> snd) gs) @ post"] "2.prems" by simp
  have IH: "fill_runs ?xs (runs_from (n + length g) gs) bc' =
      Some (map (\<lambda>c. bc' ! c @ concat (map (?nft \<circ> snd) (filter (\<lambda>g. fst g = c) gs))) [0..<length bc'])" for bc'
    unfolding xs by (rule "2.IH") (simp add: "2.prems")
  let ?bc = "if length bc \<le> chain then bc else bc[chain := bc ! chain @ ?nft g]"
  have step: "fill_runs ?xs (runs_from n ((chain, g) # gs)) bc = fill_runs ?xs (runs_from (n + length g) gs) ?bc"
    by (simp only: runs_from.simps fill_runs.simps uri_chain_run.simps part bind.simps if_distrib) simp
  show ?case unfolding step IH by (intro arg_cong [where f = Some] map_cong) (auto simp: nth_list_update comp_def)
qed

lemma uri_run_rows_groups:
  assumes "length (concat (map snd (take i gs))) = m" "i < length gs"
  shows "uri_run_rows n gs ! i = runs_from (n + m) (groups (fst \<circ> snd) (snd (gs ! i)))"
  using assms
proof (induction n gs arbitrary: i m rule: uri_run_rows.induct)
  case (2 n uri g gs)
  show ?case
  proof (cases i)
    case (Suc j)
    with "2.prems" show ?thesis
      using "2.IH" [of j "length (concat (map snd (take j gs)))"] by (simp add: add.assoc comp_def)
  qed (use "2.prems" in \<open>simp add: comp_def\<close>)
qed simp

lemma filter_key_unique:
  "distinct (map fst xs) \<Longrightarrow> (c, g) \<in> set xs \<Longrightarrow> filter (\<lambda>p. fst p = c) xs = [(c, g)]"
proof (induction xs)
  case (Cons x xs)
  then show ?case by (cases "x = (c, g)") (auto simp: filter_empty_conv image_iff)
qed simp

lemma groups_sorted_filter:
  assumes "sorted (map key es)"
  shows "concat (map snd (filter (\<lambda>g. fst g = c) (groups key es))) = filter (\<lambda>e. key e = c) es"
proof -
  have dist: "distinct (map fst (groups key es))" using groups_sorted [OF assms] by (simp add: strict_sorted_iff)
  show ?thesis
  proof (cases "c \<in> key ` set es")
    case True
    then obtain g where g: "(c, g) \<in> set (groups key es)" using groups_keys [of key es] by force
    then have "filter (\<lambda>g. fst g = c) (groups key es) = [(c, g)]"
      by (rule filter_key_unique [OF dist])
    then show ?thesis using groups_filter [OF assms g] by simp
  next
    case False
    then have "filter (\<lambda>g. fst g = c) (groups key es) = []" "filter (\<lambda>e. key e = c) es = []"
      using groups_keys [of key es] by (auto simp: filter_empty_conv)
    then show ?thesis by simp
  qed
qed

lemma sorted_second:
  fixes ts :: "triple list"
  assumes "sorted ts" shows "sorted (map (fst \<circ> snd) (filter (\<lambda>t. fst t = k) ts))"
  using assms by (induction ts) (auto simp: less_eq_prod_def)

lemma runs_for_spec:
  assumes "sorted (map fst ts)" "length ts < 2 ^ 32"
  shows "runs_for (from_sorted_triples ts) k = map_of (zip (map fst (groups fst ts)) (uri_run_rows 0 (groups fst ts))) k"
  using row_for_rows [OF groups_sorted [OF assms(1)], of "uri_run_rows 0 (groups fst ts)" k]
  by (simp add: uri_index_eq [OF assms(2)] runs_for_def)

text \<open>Grouping by chain: filling the buckets of a uri succeeds, tells whether the uri occurs,
  and puts into the bucket of every chain exactly the NFTs of the uri on that chain, in order; old
  contents are gone, and chains beyond the buckets are skipped.\<close>

lemma csr_fill:
  assumes "sorted triples" "length triples < 2 ^ 32"
  shows "fill_by_chain (from_sorted_triples triples) k by_chain =
    Some (k \<in> fst ` set triples,
      map (\<lambda>c. map (snd \<circ> snd) (filter (\<lambda>t. fst t = k \<and> fst (snd t) = c) triples)) [0..<length by_chain])"
proof -
  let ?gs = "groups fst triples" and ?nft = "map (snd \<circ> snd)"
  have fsts: "sorted (map fst triples)"
    using assms(1) by (auto simp: sorted_map less_eq_prod_def elim!: sorted_wrt_mono_rel [rotated])
  note runs = runs_for_spec [OF fsts assms(2), of k]
  show ?thesis
  proof (cases "k \<in> fst ` set triples")
    case False
    then have "map_of (zip (map fst ?gs) (uri_run_rows 0 ?gs)) k = None"
      using groups_keys [of fst triples] by (auto simp: map_of_eq_None_iff dest!: set_zip_leftD)
    with runs have "runs_for (from_sorted_triples triples) k = None" by simp
    moreover have "filter (\<lambda>t. fst t = k \<and> fst (snd t) = c) triples = []" for c
      using False by (auto simp: filter_empty_conv)
    ultimately show ?thesis using False by (simp add: fill_by_chain_def Let_def map_replicate_const)
  next
    case True
    then obtain i where i: "i < length ?gs" "fst (?gs ! i) = k"
      using groups_keys [of fst triples] by (metis (no_types, lifting) in_set_conv_nth length_map nth_map)
    let ?g = "snd (?gs ! i)" and ?pre = "concat (map snd (take i ?gs))" and ?post = "concat (map snd (drop (Suc i) ?gs))"
    have "(k, ?g) \<in> set ?gs" using i by (metis nth_mem prod.collapse)
    then have g: "?g = filter (\<lambda>t. fst t = k) triples" by (rule groups_filter [OF fsts])
    have "triples = concat (map snd ?gs)" by (simp add: groups_concat)
    also have "\<dots> = ?pre @ ?g @ ?post" by (subst id_take_nth_drop [OF i(1)]) simp
    finally have split: "?nft triples = ?nft ?pre @ ?nft ?g @ ?nft ?post" by (metis map_append)
    have "distinct (map fst ?gs)" using groups_sorted [OF fsts] by (simp add: strict_sorted_iff)
    then have row: "map_of (zip (map fst ?gs) (uri_run_rows 0 ?gs)) k = Some (runs_from (length ?pre) (groups (fst \<circ> snd) ?g))"
      using map_of_zip_nth [of "map fst ?gs" "uri_run_rows 0 ?gs" i] i uri_run_rows_groups [OF refl i(1), of 0] by simp
    have "sorted (map (fst \<circ> snd) ?g)"
      unfolding g using assms(1) by (rule sorted_second)
    note chains = groups_sorted_filter [OF this]
    have "concat (map (?nft \<circ> snd) (groups (fst \<circ> snd) ?g)) = ?nft ?g"
      using groups_concat [of "fst \<circ> snd" ?g] by (metis map_concat map_map)
    then have fill: "fill_runs (?nft triples) (runs_from (length ?pre) (groups (fst \<circ> snd) ?g)) bc =
        Some (map (\<lambda>c. bc ! c @ concat (map (?nft \<circ> snd) (filter (\<lambda>g. fst g = c) (groups (fst \<circ> snd) ?g)))) [0..<length bc])" for bc
      using fill_runs_from [of "?nft ?pre" "length ?pre" "groups (fst \<circ> snd) ?g" "?nft ?post" bc] split by simp
    have "concat (map (?nft \<circ> snd) (filter (\<lambda>g. fst g = c) (groups (fst \<circ> snd) ?g))) =
        ?nft (filter (\<lambda>t. fst t = k \<and> fst (snd t) = c) triples)" for c
    proof -
      have "concat (map (?nft \<circ> snd) gs) = ?nft (concat (map snd gs))" for gs :: "(nat \<times> triple list) list"
        by (simp add: map_concat comp_def)
      then show ?thesis using chains [of c] by (simp add: g conj_commute)
    qed
    with True runs row fill show ?thesis
      by (simp add: fill_by_chain_def Let_def uri_index_eq [OF assms(2)] cong: map_cong)
  qed
qed

end
