(* ===== verification/EntityIds.thy ===== *)
theory EntityIds
  imports Search
begin

text \<open>
  Entity shapes and token ids (\<open>src/analysis2/crates/core/src/entity/ids.rs\<close>) and the error type of
  the pipeline (\<open>src/analysis2/crates/core/src/error.rs\<close>).

  \<open>BigUint::parse_bytes(.., 10)\<close> and \<open>BigUint::to_string\<close> belong to the crate \<open>num_bigint\<close>: they are
  the parameters \<open>parse\<close> and \<open>show\<close>.  What the facts ask of them is in \<open>parses_digits\<close> (a string of
  decimal digits is read as its value) and \<open>shows_decimal\<close> (a number is printed in decimal without
  leading zeroes).

  A result is a sum; its left side is a panic or an error of the pipeline.
\<close>

section \<open>Errors\<close>

datatype analysis2_error = Invalid string | IoError string | ParquetError string | HttpError string | Cancelled

datatype failure = Panic | Error analysis2_error

type_synonym 'a result = "failure + 'a"

definition res_bind :: "'a result \<Rightarrow> ('a \<Rightarrow> 'b result) \<Rightarrow> 'b result" where
  "res_bind r f = (case r of Inl e \<Rightarrow> Inl e | Inr x \<Rightarrow> f x)"

definition invalid :: "string \<Rightarrow> 'a result" where
  "invalid message = Inl (Error (Invalid message))"

definition or_panic :: "'a option \<Rightarrow> 'a result" where
  "or_panic r = (case r of None \<Rightarrow> Inl Panic | Some x \<Rightarrow> Inr x)"

lemma res_bind_simps [simp]: "res_bind (Inl e) f = Inl e" "res_bind (Inr x) f = f x"
  by (simp_all add: res_bind_def)

lemma res_bind_eq_Inr: "res_bind r f = Inr y \<longleftrightarrow> (\<exists>x. r = Inr x \<and> f x = Inr y)"
  by (cases r) simp_all

lemma res_bind_eq_Inl: "res_bind r f = Inl e \<longleftrightarrow> r = Inl e \<or> (\<exists>x. r = Inr x \<and> f x = Inl e)"
  by (cases r) simp_all

lemma or_panic_eq_Inr [simp]: "or_panic r = Inr x \<longleftrightarrow> r = Some x"
  by (auto simp: or_panic_def split: option.splits)

lemma or_panic_eq_Inl [simp]: "or_panic r = Inl e \<longleftrightarrow> r = None \<and> e = Panic"
  by (auto simp: or_panic_def split: option.splits)

section \<open>Entities\<close>

record source_order =
  so_file_ordinal :: nat
  so_file_row_number :: nat

record chain_totals =
  to_contracts :: nat
  to_nfts :: nat

record metadata_record =
  mr_token_id :: string
  mr_canonical_json :: string
  mr_source_order :: source_order

record contract =
  ct_id :: nat
  ct_chain_id :: nat
  ct_address :: string
  ct_nft_count :: nat
  ct_name_id :: "nat option"
  ct_metadata_by_token :: "metadata_record list"

record nft =
  nf_contract_id :: nat
  nf_token_id_id :: nat
  nf_name_id :: "nat option"
  nf_token_uri_id :: "nat option"
  nf_image_uri_id :: "nat option"

text \<open>The derived \<open>Ord\<close> of the source order.\<close>

definition order_key :: "source_order \<Rightarrow> nat \<times> nat" where
  "order_key so = (so_file_ordinal so, so_file_row_number so)"

section \<open>Token ids\<close>

definition ascii_digit :: "char \<Rightarrow> bool" where
  "ascii_digit c \<longleftrightarrow> 48 \<le> (of_char c :: nat) \<and> (of_char c :: nat) \<le> 57"

definition normalized_evm_token :: "(string \<Rightarrow> nat option) \<Rightarrow> (nat \<Rightarrow> string) \<Rightarrow> string \<Rightarrow> string" where
  "normalized_evm_token parse show token =
     (case parse (trim token) of Some n \<Rightarrow> show n | None \<Rightarrow> token)"

definition normalized_evm_token_slice :: "string \<Rightarrow> string" where
  "normalized_evm_token_slice token =
     (let trimmed = trim token
      in if trimmed = [] \<or> \<not> (\<forall>c \<in> set trimmed. ascii_digit c) then token
         else let without_zeroes = dropWhile (\<lambda>c. c = CHR ''0'') trimmed
           in if without_zeroes = [] then drop (length trimmed - 1) trimmed else without_zeroes)"

definition compare_token_ids :: "(string \<Rightarrow> nat option) \<Rightarrow> string \<Rightarrow> string \<Rightarrow> bool \<Rightarrow> ordering" where
  "compare_token_ids parse left right is_evm =
     (if is_evm
      then (case (parse (trim left), parse (trim right)) of
              (Some a, Some b) \<Rightarrow> cmp a b
            | (Some _, None) \<Rightarrow> OrdLess
            | (None, Some _) \<Rightarrow> OrdGreater
            | (None, None) \<Rightarrow> cmp left right)
      else cmp left right)"

definition compare_token_ids_desc :: "(string \<Rightarrow> nat option) \<Rightarrow> string \<Rightarrow> string \<Rightarrow> bool \<Rightarrow> ordering" where
  "compare_token_ids_desc parse left right is_evm = compare_token_ids parse right left is_evm"

section \<open>Decimal strings\<close>

definition digit_value :: "char \<Rightarrow> nat" where
  "digit_value c = of_char c - 48"

definition decimal_value :: "string \<Rightarrow> nat" where
  "decimal_value s = foldl (\<lambda>n c. 10 * n + digit_value c) 0 s"

definition parses_digits :: "(string \<Rightarrow> nat option) \<Rightarrow> bool" where
  "parses_digits parse \<longleftrightarrow>
     (\<forall>s. s \<noteq> [] \<longrightarrow> (\<forall>c \<in> set s. ascii_digit c) \<longrightarrow> parse s = Some (decimal_value s))"

definition canonical_decimal :: "string \<Rightarrow> bool" where
  "canonical_decimal s \<longleftrightarrow> s \<noteq> [] \<and> (\<forall>c \<in> set s. ascii_digit c) \<and> (hd s = CHR ''0'' \<longrightarrow> s = ''0'')"

definition shows_decimal :: "(nat \<Rightarrow> string) \<Rightarrow> bool" where
  "shows_decimal show \<longleftrightarrow> (\<forall>n. canonical_decimal (show n) \<and> decimal_value (show n) = n)"

lemma digit_value_less: "ascii_digit c \<Longrightarrow> digit_value c < 10"
  unfolding ascii_digit_def digit_value_def by linarith

lemma digit_value_inj: "ascii_digit c \<Longrightarrow> ascii_digit d \<Longrightarrow> digit_value c = digit_value d \<Longrightarrow> c = d"
  unfolding ascii_digit_def digit_value_def
  by (metis eq_diff_iff of_char_eq_iff)

lemma ascii_digit_zero: "ascii_digit CHR ''0''" "digit_value CHR ''0'' = 0"
  by (simp_all add: ascii_digit_def digit_value_def)

lemma digit_value_0: "ascii_digit c \<Longrightarrow> digit_value c = 0 \<longleftrightarrow> c = CHR ''0''"
  using digit_value_inj [of c "CHR ''0''"] ascii_digit_zero by auto

lemma decimal_value_snoc: "decimal_value (s @ [c]) = 10 * decimal_value s + digit_value c"
  by (simp add: decimal_value_def)

lemma decimal_value_Nil [simp]: "decimal_value [] = 0"
  by (simp add: decimal_value_def)

lemma decimal_value_pos:
  assumes "s \<noteq> []" "\<forall>c \<in> set s. ascii_digit c" "hd s \<noteq> CHR ''0''"
  shows "0 < decimal_value s"
  using assms
proof (induction s rule: rev_induct)
  case (snoc c s)
  show ?case
  proof (cases "s = []")
    case True
    with snoc digit_value_0 [of c] show ?thesis by (simp add: decimal_value_def)
  next
    case False
    with snoc show ?thesis by (simp add: decimal_value_snoc)
  qed
qed simp

lemma decimal_value_inj:
  assumes "\<forall>c \<in> set s. ascii_digit c" "\<forall>c \<in> set t. ascii_digit c"
    and "s \<noteq> [] \<Longrightarrow> hd s \<noteq> CHR ''0''" "t \<noteq> [] \<Longrightarrow> hd t \<noteq> CHR ''0''"
    and "decimal_value s = decimal_value t"
  shows "s = t"
  using assms
proof (induction s arbitrary: t rule: rev_induct)
  case Nil
  then show ?case using decimal_value_pos [of t] by fastforce
next
  case (snoc c s)
  have "0 < decimal_value (s @ [c])" by (rule decimal_value_pos) (use snoc.prems in auto)
  then have "t \<noteq> []" using snoc.prems(5) by auto
  then obtain d u where t: "t = u @ [d]" by (metis rev_exhaust)
  have less: "digit_value c < 10" "digit_value d < 10" using snoc.prems(1,2) t by (auto intro: digit_value_less)
  have eq: "10 * decimal_value s + digit_value c = 10 * decimal_value u + digit_value d"
    using snoc.prems(5) by (simp add: t decimal_value_snoc)
  then have prefix: "decimal_value s = decimal_value u" using less by linarith
  moreover have "digit_value c = digit_value d" using eq prefix by simp
  moreover have "hd s \<noteq> CHR ''0''" if "s \<noteq> []" using snoc.prems(3) that by simp
  moreover have "hd u \<noteq> CHR ''0''" if "u \<noteq> []" using snoc.prems(4) that by (simp add: t)
  ultimately show ?case
    using snoc.IH [of u] snoc.prems(1,2) digit_value_inj [of c d] by (simp add: t)
qed

lemma decimal_value_leading_zeroes:
  "decimal_value (dropWhile (\<lambda>c. c = CHR ''0'') s) = decimal_value s"
proof -
  have "foldl (\<lambda>n c. 10 * n + digit_value c) 0 (CHR ''0'' # t) = foldl (\<lambda>n c. 10 * n + digit_value c) 0 t" for t
    by (simp add: digit_value_def)
  then show ?thesis by (induction s) (auto simp: decimal_value_def)
qed

lemma canonical_decimal_unique:
  assumes "canonical_decimal s" "canonical_decimal t" "decimal_value s = decimal_value t"
  shows "s = t"
proof -
  have zero: "s = ''0''" if "canonical_decimal s" "decimal_value s = 0" for s
    using that decimal_value_pos [of s] by (fastforce simp: canonical_decimal_def)
  show ?thesis
  proof (cases "decimal_value s = 0")
    case True
    with zero assms show ?thesis by metis
  next
    case False
    then have "hd s \<noteq> CHR ''0''" "hd t \<noteq> CHR ''0''"
      using assms by (auto simp: canonical_decimal_def decimal_value_def digit_value_def)
    with assms show ?thesis by (intro decimal_value_inj) (auto simp: canonical_decimal_def)
  qed
qed

lemma slice_canonical:
  assumes "trim token \<noteq> []" "\<forall>c \<in> set (trim token). ascii_digit c"
  shows "canonical_decimal (normalized_evm_token_slice token) \<and>
    decimal_value (normalized_evm_token_slice token) = decimal_value (trim token)"
proof (cases "dropWhile (\<lambda>c. c = CHR ''0'') (trim token) = []")
  case True
  then have all: "\<forall>c \<in> set (trim token). c = CHR ''0''" by (simp add: dropWhile_eq_Nil_conv)
  obtain c u where u: "trim token = u @ [c]" using assms(1) by (metis rev_exhaust)
  then have "normalized_evm_token_slice token = ''0''"
    using True assms all by (simp add: normalized_evm_token_slice_def Let_def)
  moreover have "decimal_value (trim token) = 0"
    using decimal_value_leading_zeroes [of "trim token"] True by simp
  ultimately show ?thesis by (simp add: canonical_decimal_def ascii_digit_def decimal_value_def digit_value_def)
next
  case False
  then have "normalized_evm_token_slice token = dropWhile (\<lambda>c. c = CHR ''0'') (trim token)"
    using assms by (simp add: normalized_evm_token_slice_def Let_def del: dropWhile_eq_Nil_conv)
  moreover have "hd (dropWhile (\<lambda>c. c = CHR ''0'') (trim token)) \<noteq> CHR ''0''" using hd_dropWhile [OF False] .
  ultimately show ?thesis
    using False assms decimal_value_leading_zeroes [of "trim token"]
    by (auto simp: canonical_decimal_def dest: set_dropWhileD)
qed

text \<open>The two normalisations of a decimal token id agree: the allocation-free slice is the
  string that reading the digits as a number and printing it gives, and it denotes the same
  number; a token that is not a string of digits is left as it is by the slice.\<close>

theorem normalized_evm_token_agree:
  assumes "parses_digits parse" "shows_decimal show"
  shows "if trim token \<noteq> [] \<and> (\<forall>c \<in> set (trim token). ascii_digit c)
    then normalized_evm_token_slice token = normalized_evm_token parse show token \<and>
      decimal_value (normalized_evm_token_slice token) = decimal_value (trim token)
    else normalized_evm_token_slice token = token"
proof (cases "trim token \<noteq> [] \<and> (\<forall>c \<in> set (trim token). ascii_digit c)")
  case True
  then have "normalized_evm_token parse show token = show (decimal_value (trim token))"
    using assms(1) by (simp add: normalized_evm_token_def parses_digits_def)
  moreover have "canonical_decimal (show n) \<and> decimal_value (show n) = n" for n
    using assms(2) by (simp add: shows_decimal_def)
  ultimately show ?thesis
    using slice_canonical [of token] True canonical_decimal_unique by simp
next
  case False
  then show ?thesis by (auto simp: normalized_evm_token_slice_def Let_def)
qed

text \<open>Reading and printing in decimal, as an instance of the two laws.\<close>

definition read_digits :: "string \<Rightarrow> nat option" where
  "read_digits s = (if s \<noteq> [] \<and> (\<forall>c \<in> set s. ascii_digit c) then Some (decimal_value s) else None)"

fun print_decimal :: "nat \<Rightarrow> string" where
  "print_decimal n =
     (if n < 10 then [char_of (n + 48)] else print_decimal (n div 10) @ [char_of (n mod 10 + 48)])"

declare print_decimal.simps [simp del]

lemma digit_char: "d < 10 \<Longrightarrow> ascii_digit (char_of (d + 48)) \<and> digit_value (char_of (d + 48)) = d"
proof -
  have "\<forall>d \<in> {0..<10}. ascii_digit (char_of (d + 48 :: nat)) \<and> digit_value (char_of (d + 48 :: nat)) = d" by code_simp
  then show "d < 10 \<Longrightarrow> ascii_digit (char_of (d + 48)) \<and> digit_value (char_of (d + 48)) = d" by simp
qed

lemma print_decimal_ok:
  "(\<forall>c \<in> set (print_decimal n). ascii_digit c) \<and> print_decimal n \<noteq> [] \<and> decimal_value (print_decimal n) = n \<and>
   (0 < n \<longrightarrow> hd (print_decimal n) \<noteq> CHR ''0'')"
proof (induction n rule: print_decimal.induct)
  case (1 n)
  show ?case
  proof (cases "n < 10")
    case True
    then have p: "print_decimal n = [char_of (n + 48)]" by (subst print_decimal.simps) simp
    then show ?thesis
      using digit_char [OF True] digit_value_0 [of "char_of (n + 48)"] by (auto simp: decimal_value_def)
  next
    case False
    then have p: "print_decimal n = print_decimal (n div 10) @ [char_of (n mod 10 + 48)]"
      by (subst print_decimal.simps) simp
    have "0 < n div 10" using False by simp
    then show ?thesis
      using 1 [OF False] digit_char [of "n mod 10"] by (simp add: p decimal_value_snoc)
  qed
qed

lemma shows_decimal_print: "shows_decimal print_decimal"
proof -
  have "print_decimal 0 = ''0''" by code_simp
  then have "canonical_decimal (print_decimal n)" for n
    using print_decimal_ok [of n] by (cases "n = 0") (auto simp: canonical_decimal_def)
  then show ?thesis using print_decimal_ok by (simp add: shows_decimal_def)
qed

theorem normalized_evm_token_agree_witness:
  "normalized_evm_token_slice '' 010'' = normalized_evm_token read_digits print_decimal '' 010'' \<and>
   decimal_value (normalized_evm_token_slice '' 010'') = decimal_value ''010''"
proof -
  have "parses_digits read_digits" by (simp add: parses_digits_def read_digits_def)
  moreover have "trim '' 010'' = ''010''" by code_simp
  moreover have "\<forall>c \<in> set ''010''. ascii_digit c" by (simp add: ascii_digit_def)
  moreover have "''010'' \<noteq> []" by simp
  ultimately show ?thesis
    using normalized_evm_token_agree [OF _ shows_decimal_print, of read_digits "'' 010''"] by metis
qed

section \<open>The order of token ids\<close>

text \<open>The comparison is that of a key: numbers first, in their order, then the other strings.\<close>

definition token_key :: "(string \<Rightarrow> nat option) \<Rightarrow> bool \<Rightarrow> string \<Rightarrow> nat \<times> nat \<times> string" where
  "token_key parse is_evm token =
     (if is_evm then (case parse (trim token) of Some n \<Rightarrow> (0, n, []) | None \<Rightarrow> (1, 0, token)) else (0, 0, token))"

lemma compare_token_ids_key:
  "compare_token_ids parse left right is_evm = cmp (token_key parse is_evm left) (token_key parse is_evm right)"
  by (auto simp: compare_token_ids_def token_key_def cmp_def less_prod_def split: option.splits)

lemma compare_token_ids_desc_key:
  "compare_token_ids_desc parse left right is_evm = cmp (token_key parse is_evm right) (token_key parse is_evm left)"
  by (simp add: compare_token_ids_desc_def compare_token_ids_key)

end
