(* ===== verification/Store.thy ===== *)
theory Store
  imports StringPool Csr EntityIds
begin

text \<open>
  The resident store (\<open>src/analysis2/crates/core/src/entity/store.rs\<close>): chains, contracts, NFTs, the
  string pool, the posting indexes and the metadata anchors.

  Ids are \<open>u16\<close>/\<open>u32\<close> values as \<open>nat\<close> with the capacity checks of the code; the \<open>u64\<close> counters are
  \<open>nat\<close>.  Hash maps are association lists (\<open>ah_insert\<close>), never iterated where the order could be
  seen.  Out-of-range indexing and a full string pool are \<open>Panic\<close>.  A failed operation returns no
  store: every caller passes the error on and drops the store.  \<open>MetadataIndex\<close> is a type variable and
  its default value the parameter \<open>no_index\<close>: the store only keeps and replaces it.  The name
  indexes are kept and cleared here and filled by the name query.  \<open>shrink_to_fit\<close> and \<open>reserve\<close> only
  change capacities.
\<close>

section \<open>State\<close>

record 'm resident_store =
  rs_chains :: "string list"
  rs_chain_ids :: "(string \<times> nat) list"
  rs_contracts :: "contract list"
  rs_contract_index :: "((nat \<times> nat) \<times> nat) list"
  rs_nfts :: "nft list"
  rs_nft_index :: "((nat \<times> nat) \<times> nat) list"
  rs_strings :: string_pool
  rs_contract_nft_csr :: csr_index
  rs_token_uri_csr :: uri_chain_index
  rs_image_uri_csr :: uri_chain_index
  rs_name_contract_csr :: csr_index
  rs_name_nft_csr :: csr_index
  rs_name_keys_by_len :: "nat list"
  rs_name_key_char_lens :: "nat list"
  rs_name_sorted_char_offsets :: "nat list"
  rs_name_sorted_chars :: "nat list"
  rs_name_key_positions :: "(nat \<times> nat) list"
  rs_name_occurrence_token_offsets :: "nat list"
  rs_name_occurrence_tokens :: "nat list"
  rs_name_occurrence_postings :: csr_index
  rs_metadata_index :: 'm
  rs_totals :: "(nat \<times> chain_totals) list"
  rs_rows_loaded :: nat
  rs_metadata_anchor_limit :: "nat option"
  rs_evm_chains :: "string list"

record identity_row =
  ir_chain :: string
  ir_contract_address :: string
  ir_token_id :: string
  ir_name_norm :: string
  ir_token_uri_norm :: string
  ir_image_uri_norm :: string
  ir_source_order :: source_order

definition zero_totals :: chain_totals where
  "zero_totals = \<lparr>to_contracts = 0, to_nfts = 0\<rparr>"

definition with_options :: "'m \<Rightarrow> nat option \<Rightarrow> string list \<Rightarrow> 'm resident_store" where
  "with_options no_index limit evm_chains =
     \<lparr>rs_chains = [], rs_chain_ids = [], rs_contracts = [], rs_contract_index = [], rs_nfts = [],
      rs_nft_index = [], rs_strings = pool_new, rs_contract_nft_csr = csr_new,
      rs_token_uri_csr = uri_new, rs_image_uri_csr = uri_new, rs_name_contract_csr = csr_new,
      rs_name_nft_csr = csr_new, rs_name_keys_by_len = [], rs_name_key_char_lens = [],
      rs_name_sorted_char_offsets = [0], rs_name_sorted_chars = [], rs_name_key_positions = [],
      rs_name_occurrence_token_offsets = [0], rs_name_occurrence_tokens = [],
      rs_name_occurrence_postings = csr_new, rs_metadata_index = no_index, rs_totals = [],
      rs_rows_loaded = 0, rs_metadata_anchor_limit = limit, rs_evm_chains = evm_chains\<rparr>"

definition store_new :: "'m \<Rightarrow> 'm resident_store" where
  "store_new no_index = with_options no_index None []"

section \<open>Reads\<close>

definition chain_name :: "'m resident_store \<Rightarrow> nat \<Rightarrow> string option" where
  "chain_name st i = idx (rs_chains st) i"

definition string_id :: "(string \<Rightarrow> nat) \<Rightarrow> 'm resident_store \<Rightarrow> string \<Rightarrow> nat option" where
  "string_id hash st s = lookup hash (rs_strings st) s"

definition store_is_empty :: "'m resident_store \<Rightarrow> bool" where
  "store_is_empty st \<longleftrightarrow> rs_contracts st = [] \<and> rs_nfts st = [] \<and> pool_is_empty (rs_strings st)"

definition store_is_evm_chain :: "'m resident_store \<Rightarrow> string \<Rightarrow> bool" where
  "store_is_evm_chain st chain \<longleftrightarrow> chain \<in> set (rs_evm_chains st)"

definition contract_id :: "(string \<Rightarrow> nat) \<Rightarrow> 'm resident_store \<Rightarrow> string \<Rightarrow> string \<Rightarrow> nat option" where
  "contract_id hash st chain address =
     do {
       chain_id \<leftarrow> map_of (rs_chain_ids st) chain;
       address_id \<leftarrow> lookup hash (rs_strings st) address;
       map_of (rs_contract_index st) (chain_id, address_id)
     }"

definition nft_id :: "(string \<Rightarrow> nat) \<Rightarrow> 'm resident_store \<Rightarrow> nat \<Rightarrow> string \<Rightarrow> nat option" where
  "nft_id hash st contract token =
     do {
       token_sid \<leftarrow> lookup hash (rs_strings st) token;
       map_of (rs_nft_index st) (contract, token_sid)
     }"

definition nfts_for_contract :: "'m resident_store \<Rightarrow> nat \<Rightarrow> nat list" where
  "nfts_for_contract st contract = unwrap_or [] (csr_values_for (rs_contract_nft_csr st) contract)"

definition snapshot_nft_count :: "'m resident_store \<Rightarrow> nat" where
  "snapshot_nft_count st = sum_list (map (to_nfts \<circ> snd) (rs_totals st))"

definition snapshot_contract_count :: "'m resident_store \<Rightarrow> nat" where
  "snapshot_contract_count st = sum_list (map (to_contracts \<circ> snd) (rs_totals st))"

section \<open>Interning into the store\<close>

definition intern_string ::
  "(string \<Rightarrow> nat) \<Rightarrow> string \<Rightarrow> 'm resident_store \<Rightarrow> (nat \<times> 'm resident_store) result" where
  "intern_string hash s st =
     res_bind (or_panic (intern hash s (rs_strings st))) (\<lambda>(i, p). Inr (i, st\<lparr>rs_strings := p\<rparr>))"

definition intern_nonempty_string ::
  "(string \<Rightarrow> nat) \<Rightarrow> string \<Rightarrow> 'm resident_store \<Rightarrow> (nat option \<times> 'm resident_store) result" where
  "intern_nonempty_string hash s st =
     res_bind (or_panic (intern_nonempty hash s (rs_strings st))) (\<lambda>(i, p). Inr (i, st\<lparr>rs_strings := p\<rparr>))"

definition intern_nonblank_string ::
  "(string \<Rightarrow> nat) \<Rightarrow> string \<Rightarrow> 'm resident_store \<Rightarrow> (nat option \<times> 'm resident_store) result" where
  "intern_nonblank_string hash s st =
     res_bind (or_panic (intern_nonblank hash s (rs_strings st))) (\<lambda>(i, p). Inr (i, st\<lparr>rs_strings := p\<rparr>))"

definition ensure_chain :: "string \<Rightarrow> 'm resident_store \<Rightarrow> (nat \<times> 'm resident_store) result" where
  "ensure_chain chain st =
     (case map_of (rs_chain_ids st) chain of
        Some i \<Rightarrow> Inr (i, st)
      | None \<Rightarrow>
          let i = length (rs_chains st)
          in if i < 2 ^ 16
             then Inr (i, st\<lparr>rs_chains := rs_chains st @ [chain],
                             rs_chain_ids := ah_insert chain i (rs_chain_ids st),
                             rs_totals := ah_insert i zero_totals (rs_totals st)\<rparr>)
             else invalid ''too many chains for ChainId'')"

definition count_contract :: "nat \<Rightarrow> (nat \<times> chain_totals) list \<Rightarrow> (nat \<times> chain_totals) list" where
  "count_contract chain_id = entry_update ah_insert chain_id zero_totals (\<lambda>t. t\<lparr>to_contracts := to_contracts t + 1\<rparr>)"

definition count_nft :: "nat \<Rightarrow> (nat \<times> chain_totals) list \<Rightarrow> (nat \<times> chain_totals) list" where
  "count_nft chain_id = entry_update ah_insert chain_id zero_totals (\<lambda>t. t\<lparr>to_nfts := to_nfts t + 1\<rparr>)"

text \<open>The contract of a chain and an interned address, created if needed.\<close>

definition contract_for ::
  "nat \<Rightarrow> nat \<Rightarrow> string \<Rightarrow> 'm resident_store \<Rightarrow> (nat \<times> 'm resident_store) result" where
  "contract_for chain_id address_id address st =
     (case map_of (rs_contract_index st) (chain_id, address_id) of
        Some i \<Rightarrow> Inr (i, st)
      | None \<Rightarrow>
          let i = length (rs_contracts st)
          in if i < 2 ^ 32
             then Inr (i, st\<lparr>rs_contracts := rs_contracts st @
                                 [\<lparr>ct_id = i, ct_chain_id = chain_id, ct_address = address, ct_nft_count = 0,
                                   ct_name_id = None, ct_metadata_by_token = []\<rparr>],
                             rs_contract_index := ah_insert (chain_id, address_id) i (rs_contract_index st),
                             rs_totals := count_contract chain_id (rs_totals st)\<rparr>)
             else invalid ''too many contracts for ContractId'')"

text \<open>Appending an NFT, with its counters.\<close>

definition bump_nft_count :: "nat \<Rightarrow> contract list \<Rightarrow> contract list result" where
  "bump_nft_count i contracts =
     res_bind (or_panic (idx contracts i))
       (\<lambda>c. or_panic (upd contracts i (c\<lparr>ct_nft_count := ct_nft_count c + 1\<rparr>)))"

definition push_nft :: "nft \<Rightarrow> nat \<Rightarrow> 'm resident_store \<Rightarrow> 'm resident_store result" where
  "push_nft nft chain_id st =
     (let i = length (rs_nfts st)
      in if i < 2 ^ 32
         then res_bind (bump_nft_count (nf_contract_id nft) (rs_contracts st)) (\<lambda>contracts.
           Inr (st\<lparr>rs_nfts := rs_nfts st @ [nft],
                   rs_nft_index := ah_insert (nf_contract_id nft, nf_token_id_id nft) i (rs_nft_index st),
                   rs_contracts := contracts,
                   rs_totals := count_nft chain_id (rs_totals st),
                   rs_rows_loaded := rs_rows_loaded st + 1\<rparr>))
         else invalid ''too many NFTs for NftId'')"

section \<open>Identity rows\<close>

definition merge_uri_value ::
  "(string \<Rightarrow> nat) \<Rightarrow> nat option \<Rightarrow> string \<Rightarrow> string \<Rightarrow> string \<Rightarrow> string \<Rightarrow> 'm resident_store \<Rightarrow>
   (nat option \<times> 'm resident_store) result" where
  "merge_uri_value hash existing incoming field chain token st =
     (if trim incoming = [] then Inr (existing, st)
      else (case existing of
          Some i \<Rightarrow>
            res_bind (or_panic (pool_get (rs_strings st) i)) (\<lambda>s.
              if s \<noteq> incoming
              then invalid (''snapshot conflict for ('' @ chain @ '', token '' @ token @ ''): distinct '' @ field @ '' values'')
              else Inr (existing, st))
        | None \<Rightarrow> intern_nonempty_string hash incoming st))"

definition merge_duplicate_nft ::
  "(string \<Rightarrow> nat) \<Rightarrow> nat \<Rightarrow> string \<Rightarrow> string \<Rightarrow> string \<Rightarrow> string \<Rightarrow> 'm resident_store \<Rightarrow> 'm resident_store result" where
  "merge_duplicate_nft hash i name_norm token_uri_norm image_uri_norm chain st =
     res_bind (or_panic (idx (rs_nfts st) i)) (\<lambda>existing.
     res_bind (or_panic (pool_get (rs_strings st) (nf_token_id_id existing))) (\<lambda>token.
     res_bind (if nf_name_id existing = None then intern_nonblank_string hash name_norm st
               else Inr (nf_name_id existing, st)) (\<lambda>(name_id, st).
     res_bind (merge_uri_value hash (nf_token_uri_id existing) token_uri_norm ''token_uri_norm'' chain token st)
       (\<lambda>(token_uri_id, st).
     res_bind (merge_uri_value hash (nf_image_uri_id existing) image_uri_norm ''image_uri_norm'' chain token st)
       (\<lambda>(image_uri_id, st).
     res_bind (or_panic (upd (rs_nfts st) i
         (existing\<lparr>nf_name_id := name_id, nf_token_uri_id := token_uri_id, nf_image_uri_id := image_uri_id\<rparr>)))
       (\<lambda>nfts. Inr (st\<lparr>rs_nfts := nfts\<rparr>)))))))"

text \<open>The NFT of a contract and an interned token id, merged or appended.\<close>

definition place_nft ::
  "(string \<Rightarrow> nat) \<Rightarrow> string \<Rightarrow> nat \<Rightarrow> nat \<Rightarrow> nat \<Rightarrow> string \<Rightarrow> string \<Rightarrow> string \<Rightarrow>
   'm resident_store \<Rightarrow> 'm resident_store result" where
  "place_nft hash chain chain_id contract token_sid name_norm token_uri_norm image_uri_norm st =
     (case map_of (rs_nft_index st) (contract, token_sid) of
        Some i \<Rightarrow> merge_duplicate_nft hash i name_norm token_uri_norm image_uri_norm chain st
      | None \<Rightarrow>
          res_bind (intern_nonblank_string hash name_norm st) (\<lambda>(name_id, st).
          res_bind (intern_nonempty_string hash token_uri_norm st) (\<lambda>(token_uri_id, st).
          res_bind (intern_nonempty_string hash image_uri_norm st) (\<lambda>(image_uri_id, st).
          push_nft \<lparr>nf_contract_id = contract, nf_token_id_id = token_sid, nf_name_id = name_id,
                     nf_token_uri_id = token_uri_id, nf_image_uri_id = image_uri_id\<rparr> chain_id st))))"

definition ingest_identity_strs ::
  "(string \<Rightarrow> nat) \<Rightarrow> string \<Rightarrow> string \<Rightarrow> string \<Rightarrow> string \<Rightarrow> string \<Rightarrow> string \<Rightarrow> source_order \<Rightarrow>
   'm resident_store \<Rightarrow> 'm resident_store result" where
  "ingest_identity_strs hash chain address token name_norm token_uri_norm image_uri_norm source_order st =
     (if chain = [] \<or> address = [] \<or> token = [] then Inr st
      else
        res_bind (ensure_chain chain st) (\<lambda>(chain_id, st).
        res_bind (intern_string hash address st) (\<lambda>(address_id, st).
        res_bind (or_panic (pool_get (rs_strings st) address_id)) (\<lambda>address_text.
        res_bind (contract_for chain_id address_id address_text st) (\<lambda>(contract, st).
        res_bind (intern_string hash token st) (\<lambda>(token_sid, st).
        place_nft hash chain chain_id contract token_sid name_norm token_uri_norm image_uri_norm st))))))"

definition ingest_identity_row ::
  "(string \<Rightarrow> nat) \<Rightarrow> identity_row \<Rightarrow> 'm resident_store \<Rightarrow> 'm resident_store result" where
  "ingest_identity_row hash row st =
     ingest_identity_strs hash (ir_chain row) (ir_contract_address row) (ir_token_id row) (ir_name_norm row)
       (ir_token_uri_norm row) (ir_image_uri_norm row) (ir_source_order row) st"

section \<open>Posting indexes of the store\<close>

definition contract_nft_pairs :: "nft list \<Rightarrow> (nat \<times> nat) list" where
  "contract_nft_pairs nfts = map (\<lambda>(i, nft). (nf_contract_id nft, u32 i)) (enumerated nfts)"

definition build_contract_nft_csr :: "nft list \<Rightarrow> csr_index" where
  "build_contract_nft_csr nfts = from_sorted_pairs (sort (contract_nft_pairs nfts))"

definition uri_triple :: "contract list \<Rightarrow> bool \<Rightarrow> nat \<times> nft \<Rightarrow> triple option" where
  "uri_triple contracts token_dimension entry =
     (case entry of (i, nft) \<Rightarrow>
       do {
         uri \<leftarrow> (if token_dimension then nf_token_uri_id nft else nf_image_uri_id nft);
         contract \<leftarrow> idx contracts (nf_contract_id nft);
         Some (uri, ct_chain_id contract, u32 i)
       })"

definition build_uri_chain_index :: "nft list \<Rightarrow> contract list \<Rightarrow> bool \<Rightarrow> uri_chain_index" where
  "build_uri_chain_index nfts contracts token_dimension =
     from_sorted_triples (sort (List.map_filter (uri_triple contracts token_dimension) (enumerated nfts)))"

definition rebuild_uri_csr :: "'m resident_store \<Rightarrow> 'm resident_store" where
  "rebuild_uri_csr st =
     st\<lparr>rs_contract_nft_csr := build_contract_nft_csr (rs_nfts st),
        rs_token_uri_csr := build_uri_chain_index (rs_nfts st) (rs_contracts st) True,
        rs_image_uri_csr := build_uri_chain_index (rs_nfts st) (rs_contracts st) False\<rparr>"

definition rebuild_contract_nft_csr :: "'m resident_store \<Rightarrow> 'm resident_store" where
  "rebuild_contract_nft_csr st = st\<lparr>rs_contract_nft_csr := build_contract_nft_csr (rs_nfts st)\<rparr>"

section \<open>Removing the NFTs of seed contracts\<close>

definition drop_nft_index :: "'m resident_store \<Rightarrow> 'm resident_store" where
  "drop_nft_index st = st\<lparr>rs_nft_index := []\<rparr>"

fun reindex_nfts :: "(nat \<times> nft) list \<Rightarrow> 'm resident_store \<Rightarrow> 'm resident_store result" where
  "reindex_nfts [] st = Inr st"
| "reindex_nfts ((index, nft) # entries) st =
     res_bind (or_panic (idx (rs_contracts st) (nf_contract_id nft))) (\<lambda>contract.
     res_bind (bump_nft_count (nf_contract_id nft) (rs_contracts st)) (\<lambda>contracts.
     reindex_nfts entries
       (st\<lparr>rs_nft_index := ah_insert (nf_contract_id nft, nf_token_id_id nft) (u32 index) (rs_nft_index st),
           rs_contracts := contracts,
           rs_totals := count_nft (ct_chain_id contract) (rs_totals st)\<rparr>)))"

definition reset_nft_counts :: "'m resident_store \<Rightarrow> 'm resident_store" where
  "reset_nft_counts st =
     st\<lparr>rs_nft_index := [],
        rs_contracts := map (\<lambda>c. c\<lparr>ct_nft_count := 0\<rparr>) (rs_contracts st),
        rs_totals := map (\<lambda>(k, t). (k, t\<lparr>to_nfts := 0\<rparr>)) (rs_totals st)\<rparr>"

definition rebuild_nft_identity_after_filter :: "'m resident_store \<Rightarrow> 'm resident_store result" where
  "rebuild_nft_identity_after_filter st =
     res_bind (reindex_nfts (enumerated (rs_nfts st)) (reset_nft_counts st)) (\<lambda>st.
       Inr (rebuild_contract_nft_csr (st\<lparr>rs_rows_loaded := length (rs_nfts st)\<rparr>)))"

definition remove_seed_contract_nfts ::
  "(string \<Rightarrow> nat) \<Rightarrow> (string \<times> string) list \<Rightarrow> 'm resident_store \<Rightarrow> 'm resident_store result" where
  "remove_seed_contract_nfts hash seeds st =
     (let removed = List.map_filter (\<lambda>(chain, address). contract_id hash st chain address) seeds
      in if removed = [] then Inr st
         else rebuild_nft_identity_after_filter
           (st\<lparr>rs_nfts := filter (\<lambda>nft. nf_contract_id nft \<notin> set removed) (rs_nfts st)\<rparr>))"

section \<open>Releasing parts of the store\<close>

definition drop_uri_indexes :: "'m resident_store \<Rightarrow> 'm resident_store" where
  "drop_uri_indexes st =
     st\<lparr>rs_token_uri_csr := uri_clear (rs_token_uri_csr st), rs_image_uri_csr := uri_clear (rs_image_uri_csr st)\<rparr>"

definition drop_name_indexes :: "'m resident_store \<Rightarrow> 'm resident_store" where
  "drop_name_indexes st =
     st\<lparr>rs_name_contract_csr := csr_clear (rs_name_contract_csr st),
        rs_name_nft_csr := csr_clear (rs_name_nft_csr st),
        rs_name_keys_by_len := [], rs_name_key_char_lens := [], rs_name_sorted_char_offsets := [],
        rs_name_sorted_chars := [], rs_name_key_positions := [], rs_name_occurrence_token_offsets := [],
        rs_name_occurrence_tokens := [],
        rs_name_occurrence_postings := csr_clear (rs_name_occurrence_postings st)\<rparr>"

definition clear_metadata_anchors :: "'m resident_store \<Rightarrow> 'm resident_store" where
  "clear_metadata_anchors st =
     st\<lparr>rs_contracts := map (\<lambda>c. c\<lparr>ct_metadata_by_token := []\<rparr>) (rs_contracts st)\<rparr>"

definition drop_metadata_index :: "'m \<Rightarrow> 'm resident_store \<Rightarrow> 'm resident_store" where
  "drop_metadata_index no_index st = clear_metadata_anchors (st\<lparr>rs_metadata_index := no_index\<rparr>)"

definition shrink_identity_for_analysis :: "'m \<Rightarrow> 'm resident_store \<Rightarrow> 'm resident_store" where
  "shrink_identity_for_analysis no_index st =
     (let st = drop_metadata_index no_index (drop_name_indexes (drop_uri_indexes st));
          st = drop_nft_index (st\<lparr>rs_nfts := []\<rparr>)
      in st\<lparr>rs_contract_nft_csr := csr_new, rs_strings := pool_new, rs_contract_index := [],
            rs_contracts := map (\<lambda>c. c\<lparr>ct_name_id := None, ct_metadata_by_token := []\<rparr>) (rs_contracts st)\<rparr>)"

fun restore_totals :: "(string \<times> nat \<times> nat) list \<Rightarrow> 'm resident_store \<Rightarrow> 'm resident_store result" where
  "restore_totals [] st = Inr st"
| "restore_totals ((chain, contracts, nfts) # totals) st =
     res_bind (ensure_chain chain st) (\<lambda>(chain_id, st).
       restore_totals totals
         (st\<lparr>rs_totals := ah_insert chain_id \<lparr>to_contracts = contracts, to_nfts = nfts\<rparr> (rs_totals st)\<rparr>))"

definition restore_snapshot_totals ::
  "nat \<Rightarrow> (string \<times> nat \<times> nat) list \<Rightarrow> 'm resident_store \<Rightarrow> 'm resident_store result" where
  "restore_snapshot_totals rows_loaded totals st =
     res_bind (restore_totals totals (st\<lparr>rs_totals := []\<rparr>)) (\<lambda>st. Inr (st\<lparr>rs_rows_loaded := rows_loaded\<rparr>))"

end
