(* ===== verification/StoreInvariant.thy ===== *)
theory StoreInvariant
  imports Store "HOL-Library.Sublist"
begin

text \<open>
  The invariant of the resident store, and that the steps of an ingestion keep it.

  \<open>outcome P E r\<close> states what a result promises: \<open>P\<close> of its value or \<open>E\<close> of its failure.  \<open>store_ok\<close>
  says that the three indexes find exactly the positions of chains, contracts and NFTs, that ids
  are in range, and that the counters count; \<open>extends\<close> relates a store to one that has more chains,
  contracts and strings and the same NFTs.
\<close>

section \<open>Outcomes\<close>

definition outcome :: "('a \<Rightarrow> bool) \<Rightarrow> (failure \<Rightarrow> bool) \<Rightarrow> 'a result \<Rightarrow> bool" where
  "outcome P E r \<longleftrightarrow> (case r of Inr x \<Rightarrow> P x | Inl e \<Rightarrow> E e)"

lemma outcome_simps [simp]: "outcome P E (Inr x) \<longleftrightarrow> P x" "outcome P E (Inl e) \<longleftrightarrow> E e"
  "outcome P E (invalid m) \<longleftrightarrow> E (Error (Invalid m))"
  by (simp_all add: outcome_def invalid_def)

lemma outcome_bind:
  "outcome P E r \<Longrightarrow> (\<And>x. P x \<Longrightarrow> outcome Q E (f x)) \<Longrightarrow> outcome Q E (res_bind r f)"
  by (cases r) simp_all

lemma outcome_weaken:
  "outcome P E r \<Longrightarrow> (\<And>x. P x \<Longrightarrow> Q x) \<Longrightarrow> (\<And>e. E e \<Longrightarrow> F e) \<Longrightarrow> outcome Q F r"
  by (cases r) simp_all

lemma outcome_or_panic: "outcome P E (or_panic r) \<longleftrightarrow> (case r of Some x \<Rightarrow> P x | None \<Rightarrow> E Panic)"
  by (simp add: or_panic_def split: option.split)

section \<open>The invariant\<close>

definition contract_names :: "contract list \<Rightarrow> (nat \<times> string) list" where
  "contract_names contracts = map (\<lambda>c. (ct_chain_id c, ct_address c)) contracts"

definition nft_keys :: "nft list \<Rightarrow> (nat \<times> nat) list" where
  "nft_keys nfts = map (\<lambda>n. (nf_contract_id n, nf_token_id_id n)) nfts"

definition chains_ok :: "string list \<Rightarrow> (string \<times> nat) list \<Rightarrow> bool" where
  "chains_ok cs ids \<longleftrightarrow> distinct cs \<and> map_of ids = index_in cs"

definition contracts_ok :: "nat \<Rightarrow> string list \<Rightarrow> (nat \<times> string) list \<Rightarrow> ((nat \<times> nat) \<times> nat) list \<Rightarrow> bool" where
  "contracts_ok nchains strings names ix \<longleftrightarrow>
     distinct names \<and> (\<forall>(chain, address) \<in> set names. chain < nchains \<and> address \<in> set strings) \<and>
     (\<forall>chain a. map_of ix (chain, a) = (if a < length strings then index_in names (chain, strings ! a) else None))"

definition ids_below :: "nat \<Rightarrow> nft \<Rightarrow> bool" where
  "ids_below n nft \<longleftrightarrow> nf_token_id_id nft < n \<and> is_none_or (\<lambda>i. i < n) (nf_name_id nft) \<and>
     is_none_or (\<lambda>i. i < n) (nf_token_uri_id nft) \<and> is_none_or (\<lambda>i. i < n) (nf_image_uri_id nft)"

definition nfts_ok :: "nat \<Rightarrow> nat \<Rightarrow> nft list \<Rightarrow> ((nat \<times> nat) \<times> nat) list \<Rightarrow> bool" where
  "nfts_ok ncontracts nstrings nfts ix \<longleftrightarrow>
     distinct (nft_keys nfts) \<and> map_of ix = index_in (nft_keys nfts) \<and>
     (\<forall>nft \<in> set nfts. nf_contract_id nft < ncontracts \<and> ids_below nstrings nft)"

definition contract_nfts :: "nat \<Rightarrow> nft list \<Rightarrow> nat" where
  "contract_nfts i nfts = length (filter (\<lambda>nft. nf_contract_id nft = i) nfts)"

definition nft_chain :: "contract list \<Rightarrow> nft \<Rightarrow> nat" where
  "nft_chain contracts nft = ct_chain_id (contracts ! nf_contract_id nft)"

definition chain_counts :: "contract list \<Rightarrow> nft list \<Rightarrow> nat \<Rightarrow> chain_totals" where
  "chain_counts contracts nfts chain =
     \<lparr>to_contracts = length (filter (\<lambda>c. ct_chain_id c = chain) contracts),
      to_nfts = length (filter (\<lambda>nft. nft_chain contracts nft = chain) nfts)\<rparr>"

definition counts_ok :: "contract list \<Rightarrow> nft list \<Rightarrow> (nat \<times> chain_totals) list \<Rightarrow> nat \<Rightarrow> bool" where
  "counts_ok contracts nfts totals loaded \<longleftrightarrow>
     loaded = length nfts \<and> ah_distinct totals \<and>
     (\<forall>i < length contracts. ct_id (contracts ! i) = i \<and> ct_nft_count (contracts ! i) = contract_nfts i nfts) \<and>
     (\<forall>chain. unwrap_or zero_totals (map_of totals chain) = chain_counts contracts nfts chain)"

definition store_ok :: "(string \<Rightarrow> nat) \<Rightarrow> 'm resident_store \<Rightarrow> bool" where
  "store_ok hash st \<longleftrightarrow>
     pool_ok hash (rs_strings st) \<and> chains_ok (rs_chains st) (rs_chain_ids st) \<and>
     contracts_ok (length (rs_chains st)) (sp_strings (rs_strings st)) (contract_names (rs_contracts st)) (rs_contract_index st) \<and>
     nfts_ok (length (rs_contracts st)) (length (sp_strings (rs_strings st))) (rs_nfts st) (rs_nft_index st) \<and>
     counts_ok (rs_contracts st) (rs_nfts st) (rs_totals st) (rs_rows_loaded st)"

text \<open>The pool has no id left.\<close>

definition pool_full :: "'m resident_store \<Rightarrow> failure \<Rightarrow> bool" where
  "pool_full st e \<longleftrightarrow> e = Panic \<and> 2 ^ 32 \<le> length (sp_strings (rs_strings st))"

definition extends :: "'m resident_store \<Rightarrow> 'm resident_store \<Rightarrow> bool" where
  "extends st st' \<longleftrightarrow>
     prefix (rs_chains st) (rs_chains st') \<and> prefix (sp_strings (rs_strings st)) (sp_strings (rs_strings st')) \<and>
     prefix (contract_names (rs_contracts st)) (contract_names (rs_contracts st')) \<and>
     rs_nfts st' = rs_nfts st \<and> rs_nft_index st' = rs_nft_index st"

lemma extends_refl [simp]: "extends st st"
  by (simp add: extends_def)

lemma extends_trans: "extends st st' \<Longrightarrow> extends st' st'' \<Longrightarrow> extends st st''"
  by (auto simp: extends_def intro: prefix_order.trans)

lemma length_contract_names [simp]: "length (contract_names cs) = length cs"
  by (simp add: contract_names_def)

lemma prefix_nth: "prefix xs ys \<Longrightarrow> i < length xs \<Longrightarrow> i < length ys \<and> ys ! i = xs ! i"
  by (auto simp: prefix_def nth_append)

lemma ids_below_mono: "ids_below n nft \<Longrightarrow> n \<le> m \<Longrightarrow> ids_below m nft"
  by (auto simp: ids_below_def is_none_or_def split: option.splits)

lemma sp_strings_new [simp]: "sp_strings pool_new = []"
  by (simp add: pool_new_def)

lemma store_ok_new: "store_ok hash (with_options no_index limit evm_chains)"
  by (auto simp: store_ok_def with_options_def pool_ok_new chains_ok_def contracts_ok_def nfts_ok_def counts_ok_def
      contract_names_def nft_keys_def index_in_def chain_counts_def zero_totals_def ah_distinct_def)

section \<open>The steps keep the invariant\<close>

lemma contracts_ok_strings:
  assumes "contracts_ok n strings names ix" "list_intern s strings = (i, strings')"
  shows "contracts_ok n strings' names ix"
  using assms(2)
proof (cases rule: list_intern_cases)
  case 2
  then have "index_in names (chain, s) = None" for chain
    using assms(1) by (auto simp: index_in_None contracts_ok_def)
  with assms(1) show ?thesis by (auto simp: contracts_ok_def 2 nth_append)
qed (use assms(1) in simp)

lemma nfts_ok_mono: "nfts_ok n m nfts ix \<Longrightarrow> n \<le> n' \<Longrightarrow> m \<le> m' \<Longrightarrow> nfts_ok n' m' nfts ix"
  by (fastforce simp: nfts_ok_def intro: ids_below_mono)

lemma intern_strings:
  assumes "pool_ok hash p" "intern hash s p = Some (i, p')"
  shows "prefix (sp_strings p) (sp_strings p')" "length (sp_strings p') \<le> Suc (length (sp_strings p))"
    "i < length (sp_strings p')" "sp_strings p' ! i = s" "pool_ok hash p'"
    "list_intern s (sp_strings p) = (i, sp_strings p')"
proof -
  note l = pool.intern_list [OF assms]
  then show "pool_ok hash p'" "list_intern s (sp_strings p) = (i, sp_strings p')" by simp_all
  from l show "prefix (sp_strings p) (sp_strings p')" "length (sp_strings p') \<le> Suc (length (sp_strings p))"
    by (auto elim!: list_intern_cases)
  show "i < length (sp_strings p')" "sp_strings p' ! i = s" using pool.intern_position [OF assms] by simp_all
qed

text \<open>What interning changes.\<close>

definition interned :: "'m resident_store \<Rightarrow> 'm resident_store \<Rightarrow> bool" where
  "interned st st' \<longleftrightarrow> (\<exists>p. st' = st\<lparr>rs_strings := p\<rparr>) \<and> extends st st' \<and>
     length (sp_strings (rs_strings st')) \<le> Suc (length (sp_strings (rs_strings st)))"

lemma interned_same:
  "interned st st' \<Longrightarrow> rs_chains st' = rs_chains st \<and> rs_contracts st' = rs_contracts st \<and>
     rs_nfts st' = rs_nfts st \<and> rs_nft_index st' = rs_nft_index st"
  by (auto simp: interned_def)

lemma interned_refl [simp]: "interned st st"
  by (auto simp: interned_def intro: exI [of _ "rs_strings st"])

lemma intern_string_ok:
  assumes "store_ok hash st"
  shows "outcome (\<lambda>(i, st'). store_ok hash st' \<and> interned st st' \<and>
      i < length (sp_strings (rs_strings st')) \<and> sp_strings (rs_strings st') ! i = s)
    (pool_full st) (intern_string hash s st)"
proof (cases "intern hash s (rs_strings st)")
  case None
  then show ?thesis using intern_None_iff [of hash "rs_strings st" s] assms
    by (simp add: intern_string_def or_panic_def store_ok_def pool_full_def)
next
  case (Some r)
  obtain i p where r: "r = (i, p)" by force
  note pool = intern_strings [OF _ Some [unfolded r]]
  have pok: "pool_ok hash (rs_strings st)" using assms by (simp add: store_ok_def)
  have "store_ok hash (st\<lparr>rs_strings := p\<rparr>)"
    using assms pool [OF pok] contracts_ok_strings [OF _ pool(6) [OF pok]] nfts_ok_mono prefix_length_le [OF pool(1) [OF pok]]
    by (auto simp: store_ok_def)
  then show ?thesis
    using pool [OF pok] by (auto simp: intern_string_def or_panic_def Some r interned_def extends_def)
qed

text \<open>The option-valued internings: the value of a blank string is \<open>None\<close>.\<close>

definition nonempty_text :: "string \<Rightarrow> string option" where
  "nonempty_text s = (if trim s = [] then None else Some s)"

definition nonblank_text :: "string \<Rightarrow> string option" where
  "nonblank_text s = (if trim s = [] then None else Some (trim s))"

definition texts :: "'m resident_store \<Rightarrow> nat option \<Rightarrow> string option" where
  "texts st = map_option ((!) (sp_strings (rs_strings st)))"

definition known :: "'m resident_store \<Rightarrow> nat option \<Rightarrow> bool" where
  "known st i \<longleftrightarrow> is_none_or (\<lambda>i. i < length (sp_strings (rs_strings st))) i"

lemma known_extends: "extends st st' \<Longrightarrow> known st i \<Longrightarrow> known st' i \<and> texts st' i = texts st i"
  by (cases i) (auto simp: known_def texts_def extends_def dest: prefix_nth)

lemma intern_some:
  assumes "store_ok hash st"
  shows "outcome (\<lambda>(i, st'). store_ok hash st' \<and> interned st st' \<and> known st' i \<and> texts st' i = Some s)
    (pool_full st) (res_bind (intern_string hash s st) (\<lambda>(i, st'). Inr (Some i, st')))"
  by (rule outcome_bind [OF intern_string_ok [OF assms, of s]]) (auto simp: known_def texts_def)

lemma intern_nonempty_string_ok:
  assumes "store_ok hash st"
  shows "outcome (\<lambda>(i, st'). store_ok hash st' \<and> interned st st' \<and> known st' i \<and> texts st' i = nonempty_text s)
    (pool_full st) (intern_nonempty_string hash s st)"
proof -
  have "intern_nonempty_string hash s st =
      (if trim s = [] then Inr (None, st) else res_bind (intern_string hash s st) (\<lambda>(i, st'). Inr (Some i, st')))"
    by (cases "intern hash s (rs_strings st)")
      (auto simp: intern_nonempty_string_def intern_nonempty_def intern_string_def or_panic_def)
  then show ?thesis
    using assms intern_some [OF assms, of s] by (simp add: nonempty_text_def) (simp add: known_def texts_def)
qed

lemma intern_nonblank_string_ok:
  assumes "store_ok hash st"
  shows "outcome (\<lambda>(i, st'). store_ok hash st' \<and> interned st st' \<and> known st' i \<and> texts st' i = nonblank_text s)
    (pool_full st) (intern_nonblank_string hash s st)"
proof -
  have "intern_nonblank_string hash s st =
      (if trim s = [] then Inr (None, st) else res_bind (intern_string hash (trim s) st) (\<lambda>(i, st'). Inr (Some i, st')))"
    by (cases "intern hash (trim s) (rs_strings st)")
      (auto simp: intern_nonblank_string_def intern_nonblank_def intern_string_def or_panic_def)
  then show ?thesis
    using assms intern_some [OF assms, of "trim s"] by (simp add: nonblank_text_def) (simp add: known_def texts_def)
qed

section \<open>Chains and contracts\<close>

lemma index_in_snoc_upd: "x \<notin> set xs \<Longrightarrow> index_in (xs @ [x]) = (index_in xs)(x \<mapsto> length xs)"
  by (rule ext) (auto simp: index_in_def takeWhile_append)

lemma nft_chain_less:
  assumes "contracts_ok n strings (contract_names contracts) ix" "nf_contract_id nft < length contracts"
  shows "nft_chain contracts nft < n"
proof -
  have "(ct_chain_id c, ct_address c) \<in> set (contract_names contracts)" if "c \<in> set contracts" for c
    using that by (simp add: contract_names_def)
  then have "ct_chain_id c < n" if "c \<in> set contracts" for c
    using that assms(1) by (fastforce simp: contracts_ok_def)
  then show ?thesis using assms(2) by (simp add: nft_chain_def)
qed

lemma chain_counts_new:
  assumes "contracts_ok n strings (contract_names contracts) ix" "nfts_ok (length contracts) m nfts nix"
  shows "chain_counts contracts nfts n = zero_totals"
proof -
  have "ct_chain_id c \<noteq> n" if "c \<in> set contracts" for c
    using that assms(1) by (fastforce simp: contracts_ok_def contract_names_def)
  moreover have "nft_chain contracts nft \<noteq> n" if "nft \<in> set nfts" for nft
    using that assms(2) nft_chain_less [OF assms(1), of nft] by (auto simp: nfts_ok_def)
  ultimately show ?thesis by (simp add: chain_counts_def zero_totals_def filter_empty_conv)
qed

lemma ensure_chain_ok:
  assumes "store_ok hash st"
  shows "outcome (\<lambda>(i, st'). store_ok hash st' \<and> extends st st' \<and> rs_strings st' = rs_strings st \<and>
      rs_contracts st' = rs_contracts st \<and> i < length (rs_chains st') \<and> rs_chains st' ! i = chain)
    (\<lambda>e. e = Error (Invalid ''too many chains for ChainId'') \<and> 2 ^ 16 \<le> length (rs_chains st)) (ensure_chain chain st)"
proof (cases "map_of (rs_chain_ids st) chain")
  case (Some i)
  then have "index_in (rs_chains st) chain = Some i" using assms by (simp add: store_ok_def chains_ok_def)
  then show ?thesis using assms Some index_in_SomeD by (fastforce simp: ensure_chain_def)
next
  case None
  let ?n = "length (rs_chains st)"
  have new: "chain \<notin> set (rs_chains st)"
    using assms None by (simp add: store_ok_def chains_ok_def index_in_None)
  have c: "contracts_ok ?n (sp_strings (rs_strings st)) (contract_names (rs_contracts st)) (rs_contract_index st)"
    and nf: "nfts_ok (length (rs_contracts st)) (length (sp_strings (rs_strings st))) (rs_nfts st) (rs_nft_index st)"
    and counts: "counts_ok (rs_contracts st) (rs_nfts st) (rs_totals st) (rs_rows_loaded st)"
    using assms by (simp_all add: store_ok_def)
  have "counts_ok (rs_contracts st) (rs_nfts st) (ah_insert ?n zero_totals (rs_totals st)) (rs_rows_loaded st)"
    using counts chain_counts_new [OF c nf] by (auto simp: counts_ok_def hashm.lookup_ins ah_distinct_insert)
  moreover have "contracts_ok (Suc ?n) (sp_strings (rs_strings st)) (contract_names (rs_contracts st)) (rs_contract_index st)"
    using c by (fastforce simp: contracts_ok_def)
  moreover have "chains_ok (rs_chains st @ [chain]) (ah_insert chain ?n (rs_chain_ids st))"
    using assms new by (simp add: store_ok_def chains_ok_def index_in_snoc_upd hashm.lookup_ins)
  ultimately show ?thesis
    using assms by (auto simp: ensure_chain_def None Let_def store_ok_def extends_def nth_append)
qed

lemma contracts_ok_snoc:
  assumes ok: "contracts_ok n strings names ix" and dist: "distinct strings"
    and a: "chain < n" "a < length strings" "(chain, strings ! a) \<notin> set names"
  shows "contracts_ok n strings (names @ [(chain, strings ! a)]) (ah_insert (chain, a) (length names) ix)"
proof -
  have old: "map_of ix (c, b) = (if b < length strings then index_in names (c, strings ! b) else None)" for c b
    using ok unfolding contracts_ok_def by blast
  have "map_of (ah_insert (chain, a) (length names) ix) (c, b) =
      (if b < length strings then index_in (names @ [(chain, strings ! a)]) (c, strings ! b) else None)" for c b
    using a old [of c b] nth_eq_iff_index_eq [OF dist a(2), of b]
    by (auto simp: hashm.lookup_ins index_in_snoc_upd [OF a(3)])
  with ok a show ?thesis by (auto simp: contracts_ok_def)
qed

lemma counts_ok_new_contract:
  assumes counts: "counts_ok contracts nfts totals loaded" and nf: "nfts_ok (length contracts) m nfts nix"
    and new: "ct_id c = length contracts" "ct_nft_count c = 0"
  shows "counts_ok (contracts @ [c]) nfts (count_contract (ct_chain_id c) totals) loaded"
proof -
  have in_range: "nf_contract_id nft < length contracts" if "nft \<in> set nfts" for nft
    using nf that by (simp add: nfts_ok_def)
  have "contract_nfts (length contracts) nfts = 0"
    using in_range by (fastforce simp: contract_nfts_def filter_empty_conv)
  moreover have "filter (\<lambda>nft. nft_chain (contracts @ [c]) nft = k) nfts = filter (\<lambda>nft. nft_chain contracts nft = k) nfts" for k
    using in_range by (intro filter_cong) (auto simp: nft_chain_def nth_append)
  moreover have "ah_distinct (count_contract (ct_chain_id c) totals)"
    using counts by (simp add: counts_ok_def count_contract_def hashm.invar_entry_update)
  ultimately show ?thesis
    using counts new
    by (auto simp: counts_ok_def count_contract_def hashm.lookup_entry_update chain_counts_def nth_append less_Suc_eq)
qed

lemma contract_for_ok:
  assumes st: "store_ok hash st" and ids: "chain_id < length (rs_chains st)" "a < length (sp_strings (rs_strings st))"
  shows "outcome (\<lambda>(i, st'). store_ok hash st' \<and> extends st st' \<and> rs_strings st' = rs_strings st \<and>
      rs_chains st' = rs_chains st \<and> i < length (rs_contracts st') \<and>
      contract_names (rs_contracts st') ! i = (chain_id, sp_strings (rs_strings st) ! a))
    (\<lambda>e. e = Error (Invalid ''too many contracts for ContractId'') \<and> 2 ^ 32 \<le> length (rs_contracts st))
    (contract_for chain_id a (sp_strings (rs_strings st) ! a) st)"
proof -
  let ?strings = "sp_strings (rs_strings st)" and ?names = "contract_names (rs_contracts st)"
  have c: "contracts_ok (length (rs_chains st)) ?strings ?names (rs_contract_index st)"
    and nf: "nfts_ok (length (rs_contracts st)) (length ?strings) (rs_nfts st) (rs_nft_index st)"
    and counts: "counts_ok (rs_contracts st) (rs_nfts st) (rs_totals st) (rs_rows_loaded st)"
    and dist: "distinct ?strings"
    using st pool.strings_distinct by (auto simp: store_ok_def)
  have look: "map_of (rs_contract_index st) (chain_id, a) = index_in ?names (chain_id, ?strings ! a)"
    using c ids(2) by (simp add: contracts_ok_def)
  show ?thesis
  proof (cases "index_in ?names (chain_id, ?strings ! a)")
    case (Some i)
    then show ?thesis using st look index_in_SomeD [OF Some] by (simp add: contract_for_def)
  next
    case None
    note ok = contracts_ok_snoc [OF c dist ids None [unfolded index_in_None]]
    let ?c = "\<lparr>ct_id = length (rs_contracts st), ct_chain_id = chain_id, ct_address = ?strings ! a, ct_nft_count = 0,
       ct_name_id = None, ct_metadata_by_token = []\<rparr>"
    have names: "contract_names (rs_contracts st @ [?c]) = ?names @ [(chain_id, ?strings ! a)]"
      by (simp add: contract_names_def)
    have "counts_ok (rs_contracts st @ [?c]) (rs_nfts st) (count_contract chain_id (rs_totals st)) (rs_rows_loaded st)"
      using counts_ok_new_contract [OF counts nf, of ?c] by simp
    then show ?thesis
      using st look None ok names nfts_ok_mono [OF nf, of "Suc (length (rs_contracts st))"]
      by (auto simp: contract_for_def Let_def store_ok_def extends_def nth_append)
  qed
qed

section \<open>NFTs\<close>

lemma nft_keys_append [simp]: "nft_keys (xs @ ys) = nft_keys xs @ nft_keys ys"
  by (simp add: nft_keys_def)

lemma length_nft_keys [simp]: "length (nft_keys xs) = length xs"
  by (simp add: nft_keys_def)

lemma nfts_ok_snoc:
  assumes "nfts_ok n m nfts ix" "nf_contract_id nft < n" "ids_below m nft"
    and "(nf_contract_id nft, nf_token_id_id nft) \<notin> set (nft_keys nfts)"
  shows "nfts_ok n m (nfts @ [nft]) (ah_insert (nf_contract_id nft, nf_token_id_id nft) (length nfts) ix)"
proof -
  have "nft_keys [nft] = [(nf_contract_id nft, nf_token_id_id nft)]" by (simp add: nft_keys_def)
  with assms show ?thesis by (auto simp: nfts_ok_def hashm.lookup_ins index_in_snoc_upd)
qed

lemma contract_names_update:
  "i < length contracts \<Longrightarrow> ct_chain_id c = ct_chain_id (contracts ! i) \<Longrightarrow> ct_address c = ct_address (contracts ! i) \<Longrightarrow>
   contract_names (contracts[i := c]) = contract_names contracts"
  by (simp add: contract_names_def map_update list_update_same_conv)

lemma nft_chain_names:
  "nf_contract_id nft < length contracts \<Longrightarrow> nft_chain contracts nft = fst (contract_names contracts ! nf_contract_id nft)"
  by (simp add: nft_chain_def contract_names_def)

lemma chain_counts_names:
  assumes "contract_names contracts = contract_names contracts'" "\<forall>nft \<in> set nfts. nf_contract_id nft < length contracts"
  shows "chain_counts contracts nfts = chain_counts contracts' nfts"
proof
  fix k
  have len: "length contracts = length contracts'" using assms(1) by (metis length_contract_names)
  have "length (filter (\<lambda>c. ct_chain_id c = k) cs) = length (filter (\<lambda>c. fst c = k) (contract_names cs))" for cs
    by (simp add: contract_names_def filter_map comp_def)
  moreover have "filter (\<lambda>nft. nft_chain contracts nft = k) nfts = filter (\<lambda>nft. nft_chain contracts' nft = k) nfts"
    using assms len by (intro filter_cong) (simp_all add: nft_chain_names)
  ultimately show "chain_counts contracts nfts k = chain_counts contracts' nfts k"
    using assms(1) by (simp add: chain_counts_def)
qed

lemma counts_ok_new_nft:
  assumes counts: "counts_ok contracts nfts totals loaded" and range: "\<forall>nft \<in> set nfts. nf_contract_id nft < length contracts"
    and i: "nf_contract_id nft = i" "i < length contracts"
    and contracts': "contracts' = contracts[i := (contracts ! i)\<lparr>ct_nft_count := ct_nft_count (contracts ! i) + 1\<rparr>]"
  shows "counts_ok contracts' (nfts @ [nft]) (count_nft (ct_chain_id (contracts ! i)) totals) (loaded + 1)"
proof -
  have names: "contract_names contracts = contract_names contracts'"
    by (simp add: contracts' contract_names_update i(2))
  have "ct_nft_count (contracts' ! j) = contract_nfts j (nfts @ [nft]) \<and> ct_id (contracts' ! j) = j" if "j < length contracts" for j
    using counts that i by (cases "j = i") (auto simp: counts_ok_def contracts' contract_nfts_def)
  moreover have "chain_counts contracts' (nfts @ [nft]) k = (let t = chain_counts contracts nfts k in
      if k = ct_chain_id (contracts ! i) then t\<lparr>to_nfts := to_nfts t + 1\<rparr> else t)" for k
  proof -
    have "chain_counts contracts' (nfts @ [nft]) k = chain_counts contracts (nfts @ [nft]) k"
      using chain_counts_names [OF names, of "nfts @ [nft]"] range i by simp
    then show ?thesis by (simp add: chain_counts_def Let_def nft_chain_def i)
  qed
  ultimately show ?thesis
    using counts
    by (auto simp: counts_ok_def count_nft_def hashm.lookup_entry_update hashm.invar_entry_update Let_def contracts')
qed

lemma push_nft_ok:
  assumes st: "store_ok hash st" and nft: "nf_contract_id nft < length (rs_contracts st)"
      "ids_below (length (sp_strings (rs_strings st))) nft"
      "(nf_contract_id nft, nf_token_id_id nft) \<notin> set (nft_keys (rs_nfts st))"
      "ct_chain_id (rs_contracts st ! nf_contract_id nft) = chain_id"
  shows "outcome (\<lambda>st'. store_ok hash st' \<and> rs_nfts st' = rs_nfts st @ [nft] \<and> rs_chains st' = rs_chains st \<and>
      rs_strings st' = rs_strings st \<and> contract_names (rs_contracts st') = contract_names (rs_contracts st))
    (\<lambda>e. e = Error (Invalid ''too many NFTs for NftId'') \<and> 2 ^ 32 \<le> length (rs_nfts st)) (push_nft nft chain_id st)"
proof -
  let ?i = "nf_contract_id nft"
  let ?contracts = "(rs_contracts st)[?i := (rs_contracts st ! ?i)\<lparr>ct_nft_count := ct_nft_count (rs_contracts st ! ?i) + 1\<rparr>]"
  have nf: "nfts_ok (length (rs_contracts st)) (length (sp_strings (rs_strings st))) (rs_nfts st) (rs_nft_index st)"
    and counts: "counts_ok (rs_contracts st) (rs_nfts st) (rs_totals st) (rs_rows_loaded st)"
    using st by (simp_all add: store_ok_def)
  have range: "\<forall>nft \<in> set (rs_nfts st). nf_contract_id nft < length (rs_contracts st)" using nf by (simp add: nfts_ok_def)
  have "bump_nft_count ?i (rs_contracts st) = Inr ?contracts" using nft(1) by (simp add: bump_nft_count_def or_panic_def)
  then show ?thesis
    using st nfts_ok_snoc [OF nf nft(1,2,3)] counts_ok_new_nft [OF counts range refl nft(1) refl] nft(4)
    by (simp add: push_nft_def Let_def store_ok_def contract_names_update nft(1))
qed

text \<open>Replacing an NFT by one with the same identity.\<close>

lemma store_ok_replace:
  assumes st: "store_ok hash st" and i: "i < length (rs_nfts st)"
    and nft: "nf_contract_id nft = nf_contract_id (rs_nfts st ! i)" "nf_token_id_id nft = nf_token_id_id (rs_nfts st ! i)"
      "ids_below (length (sp_strings (rs_strings st))) nft"
  shows "store_ok hash (st\<lparr>rs_nfts := (rs_nfts st)[i := nft]\<rparr>)"
proof -
  have keys: "nft_keys ((rs_nfts st)[i := nft]) = nft_keys (rs_nfts st)"
    using i nft by (simp add: nft_keys_def map_update list_update_same_conv)
  have ids: "map nf_contract_id ((rs_nfts st)[i := nft]) = map nf_contract_id (rs_nfts st)"
    using i nft by (simp add: map_update list_update_same_conv)
  have filters: "length (filter (P \<circ> nf_contract_id) ((rs_nfts st)[i := nft])) = length (filter (P \<circ> nf_contract_id) (rs_nfts st))" for P
    using ids by (metis filter_map length_map)
  have "contract_nfts j ((rs_nfts st)[i := nft]) = contract_nfts j (rs_nfts st)" for j
    using filters [of "\<lambda>k. k = j"] by (simp add: contract_nfts_def comp_def)
  moreover have "chain_counts (rs_contracts st) ((rs_nfts st)[i := nft]) k = chain_counts (rs_contracts st) (rs_nfts st) k" for k
    using filters [of "\<lambda>j. ct_chain_id (rs_contracts st ! j) = k"] by (simp add: chain_counts_def nft_chain_def comp_def)
  ultimately have "counts_ok (rs_contracts st) ((rs_nfts st)[i := nft]) (rs_totals st) (rs_rows_loaded st)"
    using st by (simp add: store_ok_def counts_ok_def)
  moreover have "nfts_ok (length (rs_contracts st)) (length (sp_strings (rs_strings st))) ((rs_nfts st)[i := nft]) (rs_nft_index st)"
    using st nft i by (auto simp: store_ok_def nfts_ok_def keys dest!: set_update_subset_insert [THEN subsetD])
  ultimately show ?thesis using st by (simp add: store_ok_def)
qed

end
