(* ===== verification/StoreRows.thy ===== *)
theory StoreRows
  imports StoreInvariant
begin

text \<open>
  The resident store refines a list of rows: per NFT its chain, contract address and token id, with
  its name, token uri and image uri as texts.  Ingesting an identity row appends it, or merges it
  into the row with its key: missing values are filled in, and two different uris are a conflict.
\<close>

section \<open>Rows\<close>

type_synonym row_key = "string \<times> string \<times> string"

type_synonym row_values = "string option \<times> string option \<times> string option"

type_synonym row = "row_key \<times> row_values"

definition agree :: "'a option \<Rightarrow> 'a option \<Rightarrow> bool" where
  "agree a b \<longleftrightarrow> a = None \<or> b = None \<or> a = b"

fun compatible :: "row_values \<Rightarrow> row_values \<Rightarrow> bool" where
  "compatible (name, uri, img) (name', uri', img') \<longleftrightarrow> agree uri uri' \<and> agree img img'"

fun merge_values :: "row_values \<Rightarrow> row_values \<Rightarrow> row_values" where
  "merge_values (name, uri, img) (name', uri', img') = (opt_or name name', opt_or uri uri', opt_or img img')"

fun merge_row :: "row \<Rightarrow> row list \<Rightarrow> row list option" where
  "merge_row (k, v) rs =
     (case map_of rs k of
        None \<Rightarrow> Some (rs @ [(k, v)])
      | Some old \<Rightarrow>
          if compatible old v then Some (map (\<lambda>(k', w). (k', if k' = k then merge_values w v else w)) rs) else None)"

lemma update_at_key:
  assumes "distinct (map fst rs)" "i < length rs" "fst (rs ! i) = k"
  shows "map (\<lambda>(k', w). (k', if k' = k then f w else w)) rs = rs[i := (k, f (snd (rs ! i)))]"
proof (rule nth_equalityI)
  fix j assume "j < length (map (\<lambda>(k', w). (k', if k' = k then f w else w)) rs)"
  then have j: "j < length rs" by simp
  have "fst (rs ! j) = k \<longleftrightarrow> j = i"
    using nth_eq_iff_index_eq [OF assms(1), of j i] j assms(2,3) by simp
  with j assms(2,3) show "map (\<lambda>(k', w). (k', if k' = k then f w else w)) rs ! j = rs[i := (k, f (snd (rs ! i)))] ! j"
    by (auto simp: nth_list_update case_prod_unfold prod_eq_iff)
qed simp

lemma merge_row_index:
  assumes "distinct (map fst rs)"
  shows "merge_row (k, v) rs =
    (case index_in (map fst rs) k of
       None \<Rightarrow> Some (rs @ [(k, v)])
     | Some i \<Rightarrow>
         if compatible (snd (rs ! i)) v then Some (rs[i := (k, merge_values (snd (rs ! i)) v)]) else None)"
proof (cases "index_in (map fst rs) k")
  case None
  then have "map_of rs k = None" by (simp add: index_in_None map_of_eq_None_iff)
  with None show ?thesis by simp
next
  case (Some i)
  then have i: "i < length rs" "fst (rs ! i) = k" using index_in_SomeD by fastforce+
  then have "map_of rs k = Some (snd (rs ! i))"
    using assms by (metis map_of_is_SomeI nth_mem prod.collapse)
  with Some show ?thesis using update_at_key [OF assms i, of "\<lambda>w. merge_values w v"] by simp
qed

section \<open>The rows of a store\<close>

definition key_text :: "'m resident_store \<Rightarrow> nat \<times> nat \<Rightarrow> row_key" where
  "key_text st key =
     (case contract_names (rs_contracts st) ! fst key of (chain, address) \<Rightarrow>
        (rs_chains st ! chain, address, sp_strings (rs_strings st) ! snd key))"

definition nft_row :: "'m resident_store \<Rightarrow> nft \<Rightarrow> row" where
  "nft_row st nft =
     (key_text st (nf_contract_id nft, nf_token_id_id nft),
      (texts st (nf_name_id nft), texts st (nf_token_uri_id nft), texts st (nf_image_uri_id nft)))"

definition store_rows :: "'m resident_store \<Rightarrow> row list" where
  "store_rows st = map (nft_row st) (rs_nfts st)"

definition valid_key :: "'m resident_store \<Rightarrow> nat \<times> nat \<Rightarrow> bool" where
  "valid_key st key \<longleftrightarrow> fst key < length (rs_contracts st) \<and> snd key < length (sp_strings (rs_strings st))"

lemma store_okD:
  assumes "store_ok hash st"
  shows "distinct (rs_chains st)" "distinct (contract_names (rs_contracts st))" "distinct (sp_strings (rs_strings st))"
    "c < length (rs_contracts st) \<Longrightarrow> fst (contract_names (rs_contracts st) ! c) < length (rs_chains st)"
    "nft \<in> set (rs_nfts st) \<Longrightarrow> nf_contract_id nft < length (rs_contracts st)"
    "nft \<in> set (rs_nfts st) \<Longrightarrow> ids_below (length (sp_strings (rs_strings st))) nft"
    "map_of (rs_nft_index st) = index_in (nft_keys (rs_nfts st))" "distinct (nft_keys (rs_nfts st))"
proof -
  show "fst (contract_names (rs_contracts st) ! c) < length (rs_chains st)" if "c < length (rs_contracts st)"
  proof -
    have "\<forall>x \<in> set (contract_names (rs_contracts st)). fst x < length (rs_chains st)"
      using assms by (auto simp: store_ok_def contracts_ok_def)
    then show ?thesis using that by simp
  qed
qed (use assms pool.strings_distinct in \<open>auto simp: store_ok_def chains_ok_def contracts_ok_def nfts_ok_def\<close>)

lemma key_text_inj:
  assumes "store_ok hash st" "valid_key st k" "valid_key st k'" "key_text st k = key_text st k'"
  shows "k = k'"
proof -
  let ?names = "contract_names (rs_contracts st)"
  have r: "fst k < length ?names" "fst k' < length ?names" using assms(2,3) by (simp_all add: valid_key_def)
  have chain: "rs_chains st ! fst (?names ! fst k) = rs_chains st ! fst (?names ! fst k')"
    and address: "snd (?names ! fst k) = snd (?names ! fst k')"
    and token: "sp_strings (rs_strings st) ! snd k = sp_strings (rs_strings st) ! snd k'"
    using assms(4) by (simp_all add: key_text_def case_prod_unfold)
  have "fst (?names ! fst k) = fst (?names ! fst k')"
    using chain store_okD(1,4) [OF assms(1)] r by (simp add: nth_eq_iff_index_eq)
  with address have "?names ! fst k = ?names ! fst k'" by (simp add: prod_eq_iff)
  then have "fst k = fst k'" using store_okD(2) [OF assms(1)] r by (simp add: nth_eq_iff_index_eq)
  moreover have "snd k = snd k'"
    using token store_okD(3) [OF assms(1)] assms(2,3) by (simp add: valid_key_def nth_eq_iff_index_eq)
  ultimately show ?thesis by (simp add: prod_eq_iff)
qed

lemma store_rows_keys: "map fst (store_rows st) = map (key_text st) (nft_keys (rs_nfts st))"
  by (simp add: store_rows_def nft_row_def nft_keys_def)

lemma nft_keys_valid: "store_ok hash st \<Longrightarrow> k \<in> set (nft_keys (rs_nfts st)) \<Longrightarrow> valid_key st k"
  using store_okD(5,6) by (fastforce simp: nft_keys_def valid_key_def ids_below_def)

lemma distinct_store_rows:
  assumes "store_ok hash st"
  shows "distinct (map fst (store_rows st))"
proof -
  have "inj_on (key_text st) (set (nft_keys (rs_nfts st)))"
    using key_text_inj [OF assms] nft_keys_valid [OF assms] by (intro inj_onI) blast
  then show ?thesis using store_okD(8) [OF assms] by (simp add: store_rows_keys distinct_map)
qed

lemma index_in_map:
  "inj_on f (insert x (set xs)) \<Longrightarrow> index_in (map f xs) (f x) = index_in xs x"
proof -
  assume inj: "inj_on f (insert x (set xs))"
  then have "f x \<in> f ` set xs \<longleftrightarrow> x \<in> set xs" by (auto simp: inj_on_def)
  moreover have "takeWhile (\<lambda>y. f y \<noteq> f x) xs = takeWhile (\<lambda>y. y \<noteq> x) xs"
    using inj by (intro takeWhile_cong) (auto simp: inj_on_def)
  ultimately show ?thesis by (simp add: index_in_def takeWhile_map comp_def)
qed

text \<open>The NFT index finds the position of the row with the key's text.\<close>

lemma nft_index_rows:
  assumes "store_ok hash st" "valid_key st k"
  shows "map_of (rs_nft_index st) k = index_in (map fst (store_rows st)) (key_text st k)"
proof -
  have "inj_on (key_text st) (insert k (set (nft_keys (rs_nfts st))))"
    using key_text_inj [OF assms(1)] nft_keys_valid [OF assms(1)] assms(2) by (intro inj_onI) blast
  from index_in_map [OF this] show ?thesis
    using store_okD(7) [OF assms(1)] by (simp add: store_rows_keys)
qed

lemma key_text_extends:
  assumes "store_ok hash st" "extends st st'" "valid_key st k"
  shows "key_text st' k = key_text st k" "valid_key st' k"
proof -
  have names: "contract_names (rs_contracts st') ! fst k = contract_names (rs_contracts st) ! fst k"
    "fst k < length (rs_contracts st')"
    using assms(2,3) prefix_nth [of "contract_names (rs_contracts st)" "contract_names (rs_contracts st')" "fst k"]
    by (simp_all add: extends_def valid_key_def)
  have "rs_chains st' ! fst (contract_names (rs_contracts st) ! fst k) = rs_chains st ! fst (contract_names (rs_contracts st) ! fst k)"
    using assms(2,3) store_okD(4) [OF assms(1)] by (simp add: extends_def valid_key_def prefix_nth)
  moreover have "sp_strings (rs_strings st') ! snd k = sp_strings (rs_strings st) ! snd k"
    "snd k < length (sp_strings (rs_strings st'))"
    using assms(2,3) by (auto simp: extends_def valid_key_def dest: prefix_nth)
  ultimately show "key_text st' k = key_text st k" "valid_key st' k"
    using names by (simp_all add: key_text_def case_prod_unfold valid_key_def)
qed

lemma known_ids:
  assumes "ids_below (length (sp_strings (rs_strings st))) nft"
  shows "known st (nf_name_id nft)" "known st (nf_token_uri_id nft)" "known st (nf_image_uri_id nft)"
  using assms by (simp_all add: ids_below_def known_def)

lemma nft_row_extends:
  assumes "store_ok hash st" "extends st st'" "nf_contract_id nft < length (rs_contracts st)"
    "ids_below (length (sp_strings (rs_strings st))) nft"
  shows "nft_row st' nft = nft_row st nft"
  using key_text_extends(1) [OF assms(1,2), of "(nf_contract_id nft, nf_token_id_id nft)"]
    known_extends [OF assms(2) known_ids(1) [OF assms(4)]] known_extends [OF assms(2) known_ids(2) [OF assms(4)]]
    known_extends [OF assms(2) known_ids(3) [OF assms(4)]] assms(3,4)
  by (simp add: nft_row_def valid_key_def ids_below_def)

lemma store_rows_extends: "store_ok hash st \<Longrightarrow> extends st st' \<Longrightarrow> store_rows st' = store_rows st"
proof -
  assume st: "store_ok hash st" "extends st st'"
  have "nft_row st' nft = nft_row st nft" if "nft \<in> set (rs_nfts st)" for nft
    using nft_row_extends [OF st] store_okD(5,6) [OF st(1) that] by simp
  moreover have "rs_nfts st' = rs_nfts st" using st(2) by (simp add: extends_def)
  ultimately show ?thesis by (simp add: store_rows_def)
qed

section \<open>Ingestion\<close>

definition uri_conflict :: "string \<Rightarrow> string \<Rightarrow> failure \<Rightarrow> bool" where
  "uri_conflict chain token e \<longleftrightarrow> (\<exists>field \<in> {''token_uri_norm'', ''image_uri_norm''}.
     e = Error (Invalid (''snapshot conflict for ('' @ chain @ '', token '' @ token @ ''): distinct '' @ field @ '' values'')))"

lemma outcome_bind_weaken:
  "outcome P E r \<Longrightarrow> (\<And>e. E e \<Longrightarrow> F e) \<Longrightarrow> (\<And>x. P x \<Longrightarrow> outcome Q F (f x)) \<Longrightarrow> outcome Q F (res_bind r f)"
  by (cases r) simp_all

lemma interned_extends: "interned st st' \<Longrightarrow> extends st st'"
  by (simp add: interned_def)

lemma interned_length: "interned st st' \<Longrightarrow> length (sp_strings (rs_strings st')) \<le> Suc (length (sp_strings (rs_strings st)))"
  by (simp add: interned_def)

lemma merge_uri_value_ok:
  assumes st: "store_ok hash st" and known: "known st existing" and field: "field \<in> {''token_uri_norm'', ''image_uri_norm''}"
  shows "outcome (\<lambda>(i, st'). store_ok hash st' \<and> interned st st' \<and> known st' i \<and>
        texts st' i = opt_or (texts st existing) (nonempty_text incoming) \<and> agree (texts st existing) (nonempty_text incoming))
      (\<lambda>e. pool_full st e \<or> \<not> agree (texts st existing) (nonempty_text incoming) \<and> uri_conflict chain token e)
      (merge_uri_value hash existing incoming field chain token st)"
proof (cases "trim incoming = []")
  case True
  then show ?thesis
    using st known by (cases "texts st existing") (simp_all add: merge_uri_value_def nonempty_text_def agree_def)
next
  case blank: False
  show ?thesis
  proof (cases existing)
    case None
    with intern_nonempty_string_ok [OF st, of incoming] blank show ?thesis
      by (auto simp: merge_uri_value_def texts_def agree_def elim!: outcome_weaken)
  next
    case (Some i)
    then have i: "i < length (sp_strings (rs_strings st))" using known by (simp add: known_def)
    then have "pool_get (rs_strings st) i = Some (sp_strings (rs_strings st) ! i)" by (simp add: pool_get_def)
    with Some blank st known field show ?thesis
      by (auto simp: merge_uri_value_def or_panic_def texts_def nonempty_text_def agree_def uri_conflict_def)
  qed
qed

lemma merged_name_ok:
  assumes st: "store_ok hash st" and known: "known st existing"
  shows "outcome (\<lambda>(i, st'). store_ok hash st' \<and> interned st st' \<and> known st' i \<and>
        texts st' i = opt_or (texts st existing) (nonblank_text incoming)) (pool_full st)
      (if existing = None then intern_nonblank_string hash incoming st else Inr (existing, st))"
  using intern_nonblank_string_ok [OF st, of incoming] st known
  by (cases existing) (auto simp: texts_def)

lemma store_rows_replace:
  assumes "i < length (rs_nfts st)" "nf_contract_id nft = nf_contract_id (rs_nfts st ! i)"
    "nf_token_id_id nft = nf_token_id_id (rs_nfts st ! i)"
  shows "store_rows (st\<lparr>rs_nfts := (rs_nfts st)[i := nft]\<rparr>) =
    (store_rows st)[i := (fst (store_rows st ! i), (texts st (nf_name_id nft), texts st (nf_token_uri_id nft), texts st (nf_image_uri_id nft)))]"
proof -
  have "nft_row (st\<lparr>rs_nfts := nfts\<rparr>) = nft_row st" for nfts
    by (rule ext) (simp add: nft_row_def key_text_def texts_def)
  then show ?thesis using assms by (simp add: store_rows_def map_update nft_row_def)
qed

text \<open>A well-formed store that has grown by at most \<open>k\<close> strings.\<close>

definition grown :: "(string \<Rightarrow> nat) \<Rightarrow> nat \<Rightarrow> 'm resident_store \<Rightarrow> 'm resident_store \<Rightarrow> bool" where
  "grown hash k st st' \<longleftrightarrow> store_ok hash st' \<and> extends st st' \<and>
     length (sp_strings (rs_strings st')) \<le> length (sp_strings (rs_strings st)) + k"

definition exhausted :: "nat \<Rightarrow> 'm resident_store \<Rightarrow> failure \<Rightarrow> bool" where
  "exhausted k st e \<longleftrightarrow> e = Panic \<and> 2 ^ 32 \<le> length (sp_strings (rs_strings st)) + k"

lemma grown_full: "grown hash j st st1 \<Longrightarrow> pool_full st1 e \<Longrightarrow> j \<le> k \<Longrightarrow> exhausted k st e"
  unfolding grown_def pool_full_def exhausted_def by linarith

lemma grown_ok: "grown hash k st st' \<Longrightarrow> store_ok hash st'"
  by (simp add: grown_def)

lemma grown_interned:
  "grown hash k st st1 \<Longrightarrow> store_ok hash st2 \<Longrightarrow> interned st1 st2 \<Longrightarrow> grown hash (Suc k) st st2"
  by (auto simp: grown_def interned_def intro: extends_trans)

lemma grown_known: "grown hash k st st1 \<Longrightarrow> known st i \<Longrightarrow> known st1 i \<and> texts st1 i = texts st i"
  unfolding grown_def by (blast dest: known_extends)

lemma grown_nfts: "grown hash k st st1 \<Longrightarrow> rs_nfts st1 = rs_nfts st"
  by (simp add: grown_def extends_def)

lemma interned_known: "interned st1 st2 \<Longrightarrow> known st1 i \<Longrightarrow> known st2 i \<and> texts st2 i = texts st1 i"
  unfolding interned_def by (blast dest: known_extends)

text \<open>Writing merged ids into an NFT.\<close>

lemma write_nft_ok:
  assumes st: "store_ok hash st" and i: "i < length (rs_nfts st)" and st1: "grown hash k st st1"
    and ids: "known st1 name" "known st1 uri" "known st1 img"
  shows "outcome (\<lambda>st'. store_ok hash st' \<and> store_rows st' =
        (store_rows st)[i := (fst (store_rows st ! i), (texts st1 name, texts st1 uri, texts st1 img))]) E
      (res_bind (or_panic (upd (rs_nfts st1) i
         ((rs_nfts st ! i)\<lparr>nf_name_id := name, nf_token_uri_id := uri, nf_image_uri_id := img\<rparr>)))
       (\<lambda>nfts. Inr (st1\<lparr>rs_nfts := nfts\<rparr>)))"
proof -
  let ?nft = "(rs_nfts st ! i)\<lparr>nf_name_id := name, nf_token_uri_id := uri, nf_image_uri_id := img\<rparr>"
  have nfts: "rs_nfts st1 = rs_nfts st" by (rule grown_nfts [OF st1])
  have ok: "store_ok hash st1" by (rule grown_ok [OF st1])
  have "ids_below (length (sp_strings (rs_strings st1))) (rs_nfts st ! i)"
    using store_okD(6) [OF ok] i nfts by simp
  then have "ids_below (length (sp_strings (rs_strings st1))) ?nft" using ids by (simp add: ids_below_def known_def)
  then have "store_ok hash (st1\<lparr>rs_nfts := (rs_nfts st1)[i := ?nft]\<rparr>)"
    by (intro store_ok_replace [OF ok]) (simp_all add: nfts i)
  moreover have "store_rows (st1\<lparr>rs_nfts := (rs_nfts st1)[i := ?nft]\<rparr>) =
      (store_rows st1)[i := (fst (store_rows st1 ! i), (texts st1 name, texts st1 uri, texts st1 img))]"
    by (rule store_rows_replace [of i st1 ?nft, simplified]) (simp_all add: nfts i)
  moreover have "store_rows st1 = store_rows st" using st1 store_rows_extends [OF st] unfolding grown_def by blast
  ultimately show ?thesis using i nfts by (simp add: or_panic_def)
qed

lemma merge_duplicate_nft_ok:
  fixes v :: row_values
  assumes st: "store_ok hash st" and i: "i < length (rs_nfts st)"
    and v: "v = (nonblank_text name_norm, nonempty_text token_uri_norm, nonempty_text image_uri_norm)"
    and old: "old = snd (store_rows st ! i)" and token: "token = snd (snd (fst (store_rows st ! i)))"
  shows "outcome (\<lambda>st'. store_ok hash st' \<and> compatible old v \<and>
        store_rows st' = (store_rows st)[i := (fst (store_rows st ! i), merge_values old v)])
      (\<lambda>e. exhausted 2 st e \<or> \<not> compatible old v \<and> uri_conflict chain token e)
      (merge_duplicate_nft hash i name_norm token_uri_norm image_uri_norm chain st)"
    (is "outcome ?Q ?F _")
proof -
  let ?nft = "rs_nfts st ! i"
  let ?update = "\<lambda>name uri img st1. res_bind (or_panic (upd (rs_nfts st1) i
         (?nft\<lparr>nf_name_id := name, nf_token_uri_id := uri, nf_image_uri_id := img\<rparr>)))
       (\<lambda>nfts. Inr (st1\<lparr>rs_nfts := nfts\<rparr>))"
  let ?image = "\<lambda>name uri st1. res_bind (merge_uri_value hash (nf_image_uri_id ?nft) image_uri_norm ''image_uri_norm'' chain token st1)
       (\<lambda>(img, st1). ?update name uri img st1)"
  let ?uri = "\<lambda>name st1. res_bind (merge_uri_value hash (nf_token_uri_id ?nft) token_uri_norm ''token_uri_norm'' chain token st1)
       (\<lambda>(uri, st1). ?image name uri st1)"
  have range: "ids_below (length (sp_strings (rs_strings st))) ?nft" using store_okD(6) [OF st, of ?nft] i by simp
  have rowi: "store_rows st ! i = nft_row st ?nft" using i by (simp add: store_rows_def)
  have old': "old = (texts st (nf_name_id ?nft), texts st (nf_token_uri_id ?nft), texts st (nf_image_uri_id ?nft))"
    by (simp add: old rowi nft_row_def)
  have tok: "pool_get (rs_strings st) (nf_token_id_id ?nft) = Some token"
    using range(1) by (simp add: token rowi nft_row_def key_text_def pool_get_def ids_below_def case_prod_unfold)
  note k = known_ids [OF range]
  have image_step: "outcome ?Q ?F (?image name uri st2)"
    if "grown hash 2 st st2" "known st2 name" "texts st2 name = opt_or (texts st (nf_name_id ?nft)) (nonblank_text name_norm)"
      "known st2 uri" "texts st2 uri = opt_or (texts st (nf_token_uri_id ?nft)) (nonempty_text token_uri_norm)"
      "agree (texts st (nf_token_uri_id ?nft)) (nonempty_text token_uri_norm)" for name uri st2
  proof (rule outcome_bind_weaken [OF merge_uri_value_ok [OF grown_ok [OF that(1)]]])
    fix r assume "case r of (img, st3) \<Rightarrow> store_ok hash st3 \<and> interned st2 st3 \<and> known st3 img \<and>
        texts st3 img = opt_or (texts st2 (nf_image_uri_id ?nft)) (nonempty_text image_uri_norm) \<and>
        agree (texts st2 (nf_image_uri_id ?nft)) (nonempty_text image_uri_norm)"
    then obtain img st3 where r: "r = (img, st3)" "store_ok hash st3" "interned st2 st3" "known st3 img"
        "texts st3 img = opt_or (texts st2 (nf_image_uri_id ?nft)) (nonempty_text image_uri_norm)"
        "agree (texts st2 (nf_image_uri_id ?nft)) (nonempty_text image_uri_norm)" by auto
    note g = grown_interned [OF that(1) r(2,3)]
    show "outcome ?Q ?F (case r of (img, st1) \<Rightarrow> ?update name uri img st1)"
      unfolding r(1) prod.case
      by (rule outcome_weaken [OF write_nft_ok [OF st i g]])
        (use that r interned_known [OF r(3)] grown_known [OF that(1) k(3)] in \<open>auto simp: old' v\<close>)
  qed (use grown_full [OF that(1)] grown_known [OF that(1) k(3)] in \<open>auto simp: old' v\<close>)
  have uri_step: "outcome ?Q ?F (?uri name st1)"
    if "grown hash 1 st st1" "known st1 name" "texts st1 name = opt_or (texts st (nf_name_id ?nft)) (nonblank_text name_norm)" for name st1
  proof (rule outcome_bind_weaken [OF merge_uri_value_ok [OF grown_ok [OF that(1)]]])
    fix r assume "case r of (uri, st2) \<Rightarrow> store_ok hash st2 \<and> interned st1 st2 \<and> known st2 uri \<and>
        texts st2 uri = opt_or (texts st1 (nf_token_uri_id ?nft)) (nonempty_text token_uri_norm) \<and>
        agree (texts st1 (nf_token_uri_id ?nft)) (nonempty_text token_uri_norm)"
    then obtain uri st2 where r: "r = (uri, st2)" "store_ok hash st2" "interned st1 st2" "known st2 uri"
        "texts st2 uri = opt_or (texts st1 (nf_token_uri_id ?nft)) (nonempty_text token_uri_norm)"
        "agree (texts st1 (nf_token_uri_id ?nft)) (nonempty_text token_uri_norm)" by auto
    have g: "grown hash 2 st st2" using grown_interned [OF that(1) r(2,3)] by (simp add: numeral_2_eq_2)
    show "outcome ?Q ?F (case r of (uri, st1) \<Rightarrow> ?image name uri st1)"
      unfolding r(1) prod.case
      by (rule image_step [OF g]) (use that r interned_known [OF r(3)] grown_known [OF that(1) k(2)] in auto)
  qed (use grown_full [OF that(1)] grown_known [OF that(1) k(2)] in \<open>auto simp: old' v\<close>)
  have g0: "grown hash 0 st st" using st by (simp add: grown_def)
  have g1: "grown hash 1 st st1" if "store_ok hash st1" "interned st st1" for st1
    using grown_interned [OF g0 that] by simp
  have "outcome ?Q ?F (res_bind (if nf_name_id ?nft = None then intern_nonblank_string hash name_norm st
       else Inr (nf_name_id ?nft, st)) (\<lambda>(name, st1). ?uri name st1))"
    by (intro outcome_bind_weaken [OF merged_name_ok [OF st k(1), of name_norm]])
      (use grown_full [OF g0] in \<open>auto intro!: uri_step g1\<close>)
  then show ?thesis by (simp add: merge_duplicate_nft_def i tok or_panic_def)
qed

text \<open>Appending an NFT whose key is new.\<close>

lemma push_row_ok:
  assumes st: "store_ok hash st" and st1: "grown hash k st st1"
    and key: "valid_key st1 (nf_contract_id nft, nf_token_id_id nft)"
      "(nf_contract_id nft, nf_token_id_id nft) \<notin> set (nft_keys (rs_nfts st1))"
    and ids: "known st1 (nf_name_id nft)" "known st1 (nf_token_uri_id nft)" "known st1 (nf_image_uri_id nft)"
    and chain: "fst (contract_names (rs_contracts st1) ! nf_contract_id nft) = chain_id"
  shows "outcome (\<lambda>st'. store_ok hash st' \<and> store_rows st' = store_rows st @ [nft_row st1 nft])
      (\<lambda>e. e = Error (Invalid ''too many NFTs for NftId'') \<and> 2 ^ 32 \<le> length (rs_nfts st)) (push_nft nft chain_id st1)"
proof (rule outcome_weaken [OF push_nft_ok [OF grown_ok [OF st1]]])
  show "ct_chain_id (rs_contracts st1 ! nf_contract_id nft) = chain_id"
    using chain key(1) by (simp add: valid_key_def contract_names_def)
  show "ids_below (length (sp_strings (rs_strings st1))) nft"
    using key(1) ids by (simp add: ids_below_def valid_key_def known_def)
  fix st' assume st': "store_ok hash st' \<and> rs_nfts st' = rs_nfts st1 @ [nft] \<and> rs_chains st' = rs_chains st1 \<and>
      rs_strings st' = rs_strings st1 \<and> contract_names (rs_contracts st') = contract_names (rs_contracts st1)"
  then have "nft_row st' = nft_row st1" by (intro ext) (simp add: nft_row_def key_text_def texts_def)
  moreover have "store_rows st1 = store_rows st" using st1 store_rows_extends [OF st] unfolding grown_def by blast
  ultimately show "store_ok hash st' \<and> store_rows st' = store_rows st @ [nft_row st1 nft]"
    using st' by (simp add: store_rows_def)
qed (use key grown_nfts [OF st1] in \<open>auto simp: valid_key_def\<close>)

definition store_full :: "'m resident_store \<Rightarrow> failure \<Rightarrow> bool" where
  "store_full st e \<longleftrightarrow>
     exhausted 4 st e \<or>
     e = Error (Invalid ''too many chains for ChainId'') \<and> 2 ^ 16 \<le> length (rs_chains st) \<or>
     e = Error (Invalid ''too many contracts for ContractId'') \<and> 2 ^ 32 \<le> length (rs_contracts st) \<or>
     e = Error (Invalid ''too many NFTs for NftId'') \<and> 2 ^ 32 \<le> length (rs_nfts st)"

lemma append_nft_ok:
  assumes st: "store_ok hash st" and st1: "grown hash 2 st st1"
    and key: "valid_key st1 (c, t)" "map_of (rs_nft_index st1) (c, t) = None"
    and chain: "fst (contract_names (rs_contracts st1) ! c) = chain_id"
  shows "outcome (\<lambda>st'. store_ok hash st' \<and> store_rows st' = store_rows st @
        [(key_text st1 (c, t), (nonblank_text name_norm, nonempty_text token_uri_norm, nonempty_text image_uri_norm))])
      (store_full st)
      (res_bind (intern_nonblank_string hash name_norm st1) (\<lambda>(name_id, st).
       res_bind (intern_nonempty_string hash token_uri_norm st) (\<lambda>(token_uri_id, st).
       res_bind (intern_nonempty_string hash image_uri_norm st) (\<lambda>(image_uri_id, st).
       push_nft \<lparr>nf_contract_id = c, nf_token_id_id = t, nf_name_id = name_id,
                  nf_token_uri_id = token_uri_id, nf_image_uri_id = image_uri_id\<rparr> chain_id st))))"
    (is "outcome ?Q _ _")
proof -
  have full: "store_full st e" if "grown hash j st sta" "pool_full sta e" "j \<le> 4" for j sta e
    using grown_full [OF that] by (simp add: store_full_def)
  have names: "(c, t) \<notin> set (nft_keys (rs_nfts st1))"
    using key(2) store_okD(7) [OF grown_ok [OF st1]] by (simp add: index_in_None)
  show ?thesis
  proof (rule outcome_bind_weaken [OF intern_nonblank_string_ok [OF grown_ok [OF st1]]]; clarify?)
    fix name st2 assume s2: "store_ok hash st2" "interned st1 st2" "known st2 name" "texts st2 name = nonblank_text name_norm"
    note g2 = grown_interned [OF st1 s2(1,2)]
    show "outcome ?Q (store_full st) (res_bind (intern_nonempty_string hash token_uri_norm st2) (\<lambda>(token_uri_id, st).
       res_bind (intern_nonempty_string hash image_uri_norm st) (\<lambda>(image_uri_id, st).
       push_nft \<lparr>nf_contract_id = c, nf_token_id_id = t, nf_name_id = name,
                  nf_token_uri_id = token_uri_id, nf_image_uri_id = image_uri_id\<rparr> chain_id st)))"
    proof (rule outcome_bind_weaken [OF intern_nonempty_string_ok [OF s2(1)]]; clarify?)
      fix uri st3 assume s3: "store_ok hash st3" "interned st2 st3" "known st3 uri" "texts st3 uri = nonempty_text token_uri_norm"
      note g3 = grown_interned [OF g2 s3(1,2)]
      show "outcome ?Q (store_full st) (res_bind (intern_nonempty_string hash image_uri_norm st3) (\<lambda>(image_uri_id, st).
         push_nft \<lparr>nf_contract_id = c, nf_token_id_id = t, nf_name_id = name,
                  nf_token_uri_id = uri, nf_image_uri_id = image_uri_id\<rparr> chain_id st))"
      proof (rule outcome_bind_weaken [OF intern_nonempty_string_ok [OF s3(1)]]; clarify?)
        fix img st4 assume s4: "store_ok hash st4" "interned st3 st4" "known st4 img" "texts st4 img = nonempty_text image_uri_norm"
        note g4 = grown_interned [OF g3 s4(1,2)]
        let ?nft = "\<lparr>nf_contract_id = c, nf_token_id_id = t, nf_name_id = name, nf_token_uri_id = uri, nf_image_uri_id = img\<rparr>"
        have ext: "extends st1 st4"
          using s2(2) s3(2) s4(2) by (blast intro: extends_trans interned_extends)
        note kt = key_text_extends [OF grown_ok [OF st1] ext key(1)]
        have t: "known st4 name" "texts st4 name = nonblank_text name_norm" "known st4 uri" "texts st4 uri = nonempty_text token_uri_norm"
          using s2(3,4) s3 s4 interned_known by metis+
        have same: "rs_contracts st4 = rs_contracts st1" "rs_nfts st4 = rs_nfts st1"
          using interned_same [OF s2(2)] interned_same [OF s3(2)] interned_same [OF s4(2)] by simp_all
        have row: "nft_row st4 ?nft = (key_text st1 (c, t), (nonblank_text name_norm, nonempty_text token_uri_norm, nonempty_text image_uri_norm))"
          by (simp add: nft_row_def kt t s4(4))
        show "outcome ?Q (store_full st) (push_nft ?nft chain_id st4)"
          by (rule outcome_weaken [OF push_row_ok [OF st g4]])
            (use kt(2) names same s4 t chain in \<open>auto simp: row store_full_def\<close>)
      qed (use full [OF g3] in simp_all)
    qed (use full [OF g2] in simp_all)
  qed (use full [OF st1] in simp_all)
qed

text \<open>An identity row as an abstract row.\<close>

definition row_of :: "string \<Rightarrow> string \<Rightarrow> string \<Rightarrow> string \<Rightarrow> string \<Rightarrow> string \<Rightarrow> row" where
  "row_of chain address token name_norm token_uri_norm image_uri_norm =
     ((chain, address, token), (nonblank_text name_norm, nonempty_text token_uri_norm, nonempty_text image_uri_norm))"

definition ingest_failure :: "'m resident_store \<Rightarrow> row \<Rightarrow> failure \<Rightarrow> bool" where
  "ingest_failure st r e \<longleftrightarrow>
     store_full st e \<or> merge_row r (store_rows st) = None \<and> uri_conflict (fst (fst r)) (snd (snd (fst r))) e"

text \<open>With chain, contract and token in place, the row is appended or merged.\<close>

lemma place_nft_ok:
  assumes st: "store_ok hash st" and st1: "grown hash 2 st st1" and key: "valid_key st1 (c, t)"
    and ktext: "key_text st1 (c, t) = (chain, address, token)"
    and chain: "fst (contract_names (rs_contracts st1) ! c) = chain_id"
    and r: "r = row_of chain address token name_norm token_uri_norm image_uri_norm"
  shows "outcome (\<lambda>st'. store_ok hash st' \<and> merge_row r (store_rows st) = Some (store_rows st')) (ingest_failure st r)
     (place_nft hash chain chain_id c t name_norm token_uri_norm image_uri_norm st1)"
proof -
  note ok = grown_ok [OF st1]
  have rows_eq: "store_rows st1 = store_rows st" using st1 store_rows_extends [OF st] unfolding grown_def by blast
  note merge = merge_row_index [OF distinct_store_rows [OF st], of "(chain, address, token)"]
  have ix: "map_of (rs_nft_index st1) (c, t) = index_in (map fst (store_rows st)) (chain, address, token)"
    using nft_index_rows [OF ok key] by (simp add: ktext rows_eq)
  show ?thesis
  proof (cases "map_of (rs_nft_index st1) (c, t)")
    case None
    then have "merge_row r (store_rows st) = Some (store_rows st @ [r])"
      using merge ix by (simp del: merge_row.simps add: r row_of_def)
    with append_nft_ok [OF st st1 key None chain, of name_norm token_uri_norm image_uri_norm] show ?thesis
      unfolding place_nft_def None option.case
      by (auto simp del: merge_row.simps simp: r row_of_def ktext ingest_failure_def elim!: outcome_weaken)
  next
    case (Some i)
    then have i: "i < length (store_rows st1)" "fst (store_rows st1 ! i) = (chain, address, token)"
      using index_in_SomeD [of "map fst (store_rows st)"] ix rows_eq by fastforce+
    then have len: "i < length (rs_nfts st1)" by (simp add: store_rows_def)
    have "exhausted 2 st1 e \<Longrightarrow> store_full st e" for e
      using st1 by (auto simp: grown_def exhausted_def store_full_def)
    moreover have "index_in (map fst (store_rows st)) (chain, address, token) = Some i" using ix Some by simp
    then have "merge_row r (store_rows st) =
        (if compatible (snd (store_rows st ! i)) (snd r)
         then Some ((store_rows st)[i := (fst r, merge_values (snd (store_rows st ! i)) (snd r))]) else None)"
      unfolding r row_of_def merge by simp
    ultimately show ?thesis
      unfolding place_nft_def Some option.case
      using merge_duplicate_nft_ok [OF ok len refl refl refl, of name_norm token_uri_norm image_uri_norm chain] i
      by (auto simp del: merge_row.simps simp: r row_of_def ingest_failure_def rows_eq elim!: outcome_weaken)
  qed
qed

lemma ingest_token_ok:
  assumes st: "store_ok hash st" and st3: "grown hash 1 st st3" and c: "c < length (rs_contracts st3)"
      "contract_names (rs_contracts st3) ! c = (chain_id, address)"
    and chain: "chain_id < length (rs_chains st3)" "rs_chains st3 ! chain_id = chain"
    and r: "r = row_of chain address token name_norm token_uri_norm image_uri_norm"
  shows "outcome (\<lambda>st'. store_ok hash st' \<and> merge_row r (store_rows st) = Some (store_rows st')) (ingest_failure st r)
     (res_bind (intern_string hash token st3) (\<lambda>(token_sid, st).
        place_nft hash chain chain_id c token_sid name_norm token_uri_norm image_uri_norm st))"
proof (rule outcome_bind_weaken [OF intern_string_ok [OF grown_ok [OF st3]]]; clarify?)
  fix t st4 assume s4: "store_ok hash st4" "interned st3 st4" "t < length (sp_strings (rs_strings st4))"
    "token = sp_strings (rs_strings st4) ! t"
  have g4: "grown hash 2 st st4" using grown_interned [OF st3 s4(1,2)] by (simp add: numeral_2_eq_2)
  show "outcome (\<lambda>st'. store_ok hash st' \<and> merge_row r (store_rows st) = Some (store_rows st')) (ingest_failure st r)
      (place_nft hash chain chain_id c t name_norm token_uri_norm image_uri_norm st4)"
    by (rule place_nft_ok [OF st g4 _ _ _ r])
      (use c chain s4 interned_same [OF s4(2)] in \<open>auto simp: valid_key_def key_text_def\<close>)
qed (use grown_full [OF st3, of _ 4] in \<open>simp_all add: ingest_failure_def store_full_def\<close>)

lemma ingest_address_ok:
  assumes st: "store_ok hash st" and st1: "grown hash 0 st st1" "rs_contracts st1 = rs_contracts st"
    and chain: "chain_id < length (rs_chains st1)" "rs_chains st1 ! chain_id = chain"
    and r: "r = row_of chain address token name_norm token_uri_norm image_uri_norm"
  shows "outcome (\<lambda>st'. store_ok hash st' \<and> merge_row r (store_rows st) = Some (store_rows st')) (ingest_failure st r)
     (res_bind (intern_string hash address st1) (\<lambda>(address_id, st).
      res_bind (or_panic (pool_get (rs_strings st) address_id)) (\<lambda>address_text.
      res_bind (contract_for chain_id address_id address_text st) (\<lambda>(contract, st).
      res_bind (intern_string hash token st) (\<lambda>(token_sid, st).
      place_nft hash chain chain_id contract token_sid name_norm token_uri_norm image_uri_norm st)))))"
    (is "outcome ?Q ?F _")
proof (rule outcome_bind_weaken [OF intern_string_ok [OF grown_ok [OF st1(1)]]]; clarify?)
  fix a st2 assume s2: "store_ok hash st2" "interned st1 st2" "a < length (sp_strings (rs_strings st2))"
    "address = sp_strings (rs_strings st2) ! a"
  have g2: "grown hash 1 st st2" using grown_interned [OF st1(1) s2(1,2)] by simp
  note same = interned_same [OF s2(2)]
  have chain2: "chain_id < length (rs_chains st2)" using same chain(1) by simp
  have "outcome ?Q ?F (res_bind (contract_for chain_id a (sp_strings (rs_strings st2) ! a) st2) (\<lambda>(contract, st).
    res_bind (intern_string hash token st) (\<lambda>(token_sid, st).
    place_nft hash chain chain_id contract token_sid name_norm token_uri_norm image_uri_norm st)))"
  proof (rule outcome_bind_weaken [OF contract_for_ok [OF s2(1) chain2 s2(3)]]; clarify?)
    fix c st3 assume s3: "store_ok hash st3" "extends st2 st3" "rs_strings st3 = rs_strings st2" "rs_chains st3 = rs_chains st2"
      "c < length (rs_contracts st3)" "contract_names (rs_contracts st3) ! c = (chain_id, sp_strings (rs_strings st2) ! a)"
    have g3: "grown hash 1 st st3" using g2 s3 by (auto simp: grown_def intro: extends_trans)
    show "outcome ?Q ?F (res_bind (intern_string hash token st3) (\<lambda>(token_sid, st).
        place_nft hash chain chain_id c token_sid name_norm token_uri_norm image_uri_norm st))"
      by (rule ingest_token_ok [OF st g3 _ _ _ _ r]) (use chain s2 s3 same in simp_all)
  qed (use same st1(2) in \<open>simp_all add: ingest_failure_def store_full_def\<close>)
  with s2(3,4) show "outcome ?Q ?F (res_bind (or_panic (pool_get (rs_strings st2) a)) (\<lambda>address_text.
    res_bind (contract_for chain_id a address_text st2) (\<lambda>(contract, st).
    res_bind (intern_string hash token st) (\<lambda>(token_sid, st).
    place_nft hash chain chain_id contract token_sid name_norm token_uri_norm image_uri_norm st))))"
    by (simp add: pool_get_def or_panic_def)
qed (use grown_full [OF st1(1), of _ 4] in \<open>simp_all add: ingest_failure_def store_full_def\<close>)

lemma ingest_identity_strs_ok:
  assumes st: "store_ok hash st" and key: "chain \<noteq> []" "address \<noteq> []" "token \<noteq> []"
    and r: "r = row_of chain address token name_norm token_uri_norm image_uri_norm"
  shows "outcome (\<lambda>st'. store_ok hash st' \<and> merge_row r (store_rows st) = Some (store_rows st')) (ingest_failure st r)
     (ingest_identity_strs hash chain address token name_norm token_uri_norm image_uri_norm so st)"
    (is "outcome ?Q ?F _")
proof -
  have "outcome ?Q ?F (res_bind (ensure_chain chain st) (\<lambda>(chain_id, st).
     res_bind (intern_string hash address st) (\<lambda>(address_id, st).
     res_bind (or_panic (pool_get (rs_strings st) address_id)) (\<lambda>address_text.
     res_bind (contract_for chain_id address_id address_text st) (\<lambda>(contract, st).
     res_bind (intern_string hash token st) (\<lambda>(token_sid, st).
     place_nft hash chain chain_id contract token_sid name_norm token_uri_norm image_uri_norm st))))))"
  proof (rule outcome_bind_weaken [OF ensure_chain_ok [OF st]])
    fix x assume "case x of (i, st') \<Rightarrow> store_ok hash st' \<and> extends st st' \<and> rs_strings st' = rs_strings st \<and>
      rs_contracts st' = rs_contracts st \<and> i < length (rs_chains st') \<and> rs_chains st' ! i = chain"
    then obtain i st1 where x: "x = (i, st1)" "grown hash 0 st st1" "rs_contracts st1 = rs_contracts st"
        "i < length (rs_chains st1)" "rs_chains st1 ! i = chain"
      by (cases x) (simp add: grown_def)
    show "outcome ?Q ?F (case x of (chain_id, st) \<Rightarrow> res_bind (intern_string hash address st) (\<lambda>(address_id, st).
       res_bind (or_panic (pool_get (rs_strings st) address_id)) (\<lambda>address_text.
       res_bind (contract_for chain_id address_id address_text st) (\<lambda>(contract, st).
       res_bind (intern_string hash token st) (\<lambda>(token_sid, st).
       place_nft hash chain chain_id contract token_sid name_norm token_uri_norm image_uri_norm st)))))"
      unfolding x(1) prod.case by (rule ingest_address_ok [OF st x(2-) r])
  qed (simp add: ingest_failure_def store_full_def)
  with key show ?thesis by (simp only: ingest_identity_strs_def simp_thms if_False)
qed

text \<open>C18. Ingesting an identity row refines merging a row into a list of rows: a row without chain,
  address or token id is ignored; otherwise, on success the store stays well-formed and its rows
  are the old ones with the row appended, or merged into the row with its key; and ingestion fails
  only on two different uris of one NFT, with the conflict as the error, or when the ids of the
  store are used up.\<close>

theorem ingest_identity_refines:
  assumes "store_ok hash st"
  shows "if chain = [] \<or> address = [] \<or> token = []
    then ingest_identity_strs hash chain address token name_norm token_uri_norm image_uri_norm so st = Inr st
    else let r = row_of chain address token name_norm token_uri_norm image_uri_norm
      in case ingest_identity_strs hash chain address token name_norm token_uri_norm image_uri_norm so st of
           Inr st' \<Rightarrow> store_ok hash st' \<and> merge_row r (store_rows st) = Some (store_rows st')
         | Inl e \<Rightarrow> store_full st e \<or> merge_row r (store_rows st) = None \<and> uri_conflict chain token e"
proof (cases "chain = [] \<or> address = [] \<or> token = []")
  case True
  then show ?thesis by (simp only: ingest_identity_strs_def if_True)
next
  case False
  with ingest_identity_strs_ok [OF assms _ _ _ refl, of chain address token name_norm token_uri_norm image_uri_norm so]
  show ?thesis by (simp add: Let_def outcome_def ingest_failure_def row_of_def del: merge_row.simps split: sum.splits)
qed

text \<open>A store with one row.\<close>

definition example_row :: "string \<Rightarrow> identity_row" where
  "example_row uri = \<lparr>ir_chain = ''eth'', ir_contract_address = ''a'', ir_token_id = ''1'', ir_name_norm = [],
     ir_token_uri_norm = uri, ir_image_uri_norm = [], ir_source_order = \<lparr>so_file_ordinal = 0, so_file_row_number = 0\<rparr>\<rparr>"

lemma example_row_of:
  "row_of ''eth'' ''a'' ''1'' [] ''u'' [] = ((''eth'', ''a'', ''1''), (None, Some ''u'', None))"
  "row_of ''eth'' ''a'' ''1'' [] ''w'' [] = ((''eth'', ''a'', ''1''), (None, Some ''w'', None))"
  by code_simp+

lemma example_store:
  obtains st where "ingest_identity_row (\<lambda>_. 0) (example_row ''u'') (with_options () limit []) = Inr st"
    "store_ok (\<lambda>_. 0) st" "store_rows st = [((''eth'', ''a'', ''1''), (None, Some ''u'', None))]"
    "length (sp_strings (rs_strings st)) = 3" "length (rs_chains st) = 1" "length (rs_contracts st) = 1" "length (rs_nfts st) = 1"
proof -
  let ?st = "with_options () limit [] :: unit resident_store"
  have trim_u: "trim ''u'' = ''u''" by code_simp
  have "case ingest_identity_row (\<lambda>_. 0) (example_row ''u'') ?st of
      Inr st \<Rightarrow> [length (sp_strings (rs_strings st)), length (rs_chains st), length (rs_contracts st), length (rs_nfts st)] = [3, 1, 1, 1]
    | Inl e \<Rightarrow> False"
    by (simp add: ingest_identity_row_def example_row_def ingest_identity_strs_def ensure_chain_def with_options_def
        intern_string_def intern_def push_first_def push_collision_def u32_try_from_def pool_new_def pool_get_def or_panic_def
        contract_for_def Let_def place_nft_def intern_nonblank_string_def intern_nonempty_string_def intern_nonblank_def
        intern_nonempty_def trim_u push_nft_def bump_nft_count_def entry_update_def count_contract_def)
  then obtain st where st: "ingest_identity_row (\<lambda>_. 0) (example_row ''u'') ?st = Inr st"
    and len: "length (sp_strings (rs_strings st)) = 3" "length (rs_chains st) = 1" "length (rs_contracts st) = 1" "length (rs_nfts st) = 1"
    by (cases "ingest_identity_row (\<lambda>_. 0) (example_row ''u'') ?st") auto
  have "store_rows ?st = []" by (simp add: store_rows_def with_options_def)
  then have "store_ok (\<lambda>_. 0) st \<and> store_rows st = [((''eth'', ''a'', ''1''), (None, Some ''u'', None))]"
    using ingest_identity_strs_ok [of "\<lambda>_. 0" ?st "''eth''" "''a''" "''1''" _ "[]" "''u''" "[]"
        "\<lparr>so_file_ordinal = 0, so_file_row_number = 0\<rparr>", OF store_ok_new _ _ _ refl] st
    by (auto simp: ingest_identity_row_def example_row_def outcome_def example_row_of)
  with st len that show ?thesis by blast
qed

text \<open>A second row of the NFT with another token uri.\<close>

theorem ingest_identity_refines_witness:
  "\<exists>st e. ingest_identity_row (\<lambda>_. 0) (example_row ''u'') (with_options () None []) = Inr st \<and>
     ingest_identity_row (\<lambda>_. 0) (example_row ''w'') st = Inl e \<and> uri_conflict ''eth'' ''1'' e"
proof -
  obtain st where st: "ingest_identity_row (\<lambda>_. 0) (example_row ''u'') (with_options () None []) = Inr st"
    "store_ok (\<lambda>_. 0) st" "store_rows st = [((''eth'', ''a'', ''1''), (None, Some ''u'', None))]"
    "length (sp_strings (rs_strings st)) = 3" "length (rs_chains st) = 1" "length (rs_contracts st) = 1" "length (rs_nfts st) = 1"
    by (rule example_store)
  have "\<not> store_full st e" for e by (simp add: st store_full_def exhausted_def)
  then obtain e where "ingest_identity_row (\<lambda>_. 0) (example_row ''w'') st = Inl e" "uri_conflict ''eth'' ''1'' e"
    using ingest_identity_refines [OF st(2), of "''eth''" "''a''" "''1''" "[]" "''w''" "[]" "\<lparr>so_file_ordinal = 0, so_file_row_number = 0\<rparr>"]
    by (auto simp: ingest_identity_row_def example_row_def example_row_of st(3) Let_def agree_def split: sum.splits)
  with st(1) show ?thesis by blast
qed

end
