(* ===== verification/Anchors.thy ===== *)
theory Anchors
  imports Store
begin

text \<open>
  Metadata anchors of a contract (\<open>ingest_metadata_anchor\<close>, \<open>ingest_metadata_records\<close>,
  \<open>insert_metadata_anchor\<close> and \<open>clear_contract_metadata\<close> in
  \<open>src/analysis2/crates/core/src/entity/store.rs\<close>): records in descending order of token ids, at most
  as many as the limit.

  \<open>par_sort_unstable_by\<close> is an insertion sort with the code's comparison; records it calls equal have
  the same token id and the same source row.
\<close>

section \<open>One record at a time\<close>

definition anchor_position :: "(string \<Rightarrow> nat option) \<Rightarrow> bool \<Rightarrow> string \<Rightarrow> metadata_record list \<Rightarrow> nat" where
  "anchor_position parse is_evm token anchors =
     (case binary_search_by (\<lambda>i. compare_token_ids_desc parse (mr_token_id (anchors ! i)) token is_evm) (length anchors) of
        Inl i \<Rightarrow> i
      | Inr i \<Rightarrow> i)"

definition insert_anchor ::
  "(string \<Rightarrow> nat option) \<Rightarrow> nat option \<Rightarrow> bool \<Rightarrow> metadata_record \<Rightarrow> metadata_record list \<Rightarrow> metadata_record list" where
  "insert_anchor parse limit is_evm r anchors =
     (if \<exists>a \<in> set anchors. mr_token_id a = mr_token_id r then anchors
      else let insert_at = anchor_position parse is_evm (mr_token_id r) anchors
        in if is_some_and (\<lambda>limit. limit \<le> insert_at \<and> limit \<le> length anchors) limit then anchors
           else let anchors = take insert_at anchors @ r # drop insert_at anchors
             in if is_some_and (\<lambda>limit. limit < length anchors) limit then butlast anchors else anchors)"

definition insert_metadata_anchor ::
  "(string \<Rightarrow> nat option) \<Rightarrow> nat \<Rightarrow> string \<Rightarrow> metadata_record \<Rightarrow> 'm resident_store \<Rightarrow> 'm resident_store result" where
  "insert_metadata_anchor parse contract chain r st =
     (if rs_metadata_anchor_limit st = Some 0 then Inr st
      else
        res_bind (or_panic (idx (rs_contracts st) contract)) (\<lambda>c.
        res_bind (or_panic (upd (rs_contracts st) contract
            (c\<lparr>ct_metadata_by_token :=
                 insert_anchor parse (rs_metadata_anchor_limit st) (store_is_evm_chain st chain) r (ct_metadata_by_token c)\<rparr>)))
          (\<lambda>contracts. Inr (st\<lparr>rs_contracts := contracts\<rparr>))))"

definition ingest_metadata_anchor ::
  "(string \<Rightarrow> nat) \<Rightarrow> (string \<Rightarrow> nat option) \<Rightarrow> string \<Rightarrow> string \<Rightarrow> metadata_record \<Rightarrow>
   'm resident_store \<Rightarrow> 'm resident_store result" where
  "ingest_metadata_anchor hash parse chain address r st =
     (if rs_metadata_anchor_limit st = Some 0 then Inr st
      else (case contract_id hash st chain address of
          None \<Rightarrow> Inr st
        | Some contract \<Rightarrow> insert_metadata_anchor parse contract chain r st))"

section \<open>Records in bulk\<close>

fun insert_by :: "('a \<Rightarrow> 'a \<Rightarrow> ordering) \<Rightarrow> 'a \<Rightarrow> 'a list \<Rightarrow> 'a list" where
  "insert_by compare x [] = [x]"
| "insert_by compare x (y # ys) = (if compare x y = OrdGreater then y # insert_by compare x ys else x # y # ys)"

definition sort_by :: "('a \<Rightarrow> 'a \<Rightarrow> ordering) \<Rightarrow> 'a list \<Rightarrow> 'a list" where
  "sort_by compare xs = foldr (insert_by compare) xs []"

text \<open>\<open>dedup_by\<close>: an element equal to the last one kept is dropped.\<close>

fun dedup_by :: "('a \<Rightarrow> 'a \<Rightarrow> bool) \<Rightarrow> 'a list \<Rightarrow> 'a list" where
  "dedup_by same (earlier # later # xs) =
     (if same later earlier then dedup_by same (earlier # xs) else earlier # dedup_by same (later # xs))"
| "dedup_by same xs = xs"

definition compare_records ::
  "(string \<Rightarrow> nat option) \<Rightarrow> bool \<Rightarrow> metadata_record \<Rightarrow> metadata_record \<Rightarrow> ordering" where
  "compare_records parse is_evm left right =
     ord_then (compare_token_ids_desc parse (mr_token_id left) (mr_token_id right) is_evm)
       (ord_then (cmp (mr_token_id left) (mr_token_id right))
         (cmp (order_key (mr_source_order left)) (order_key (mr_source_order right))))"

definition same_token :: "metadata_record \<Rightarrow> metadata_record \<Rightarrow> bool" where
  "same_token later earlier \<longleftrightarrow> mr_token_id later = mr_token_id earlier"

definition append_records ::
  "(string \<Rightarrow> nat option) \<Rightarrow> bool \<Rightarrow> metadata_record list \<Rightarrow> metadata_record list \<Rightarrow> metadata_record list" where
  "append_records parse is_evm records anchors =
     dedup_by same_token (sort_by (compare_records parse is_evm) (anchors @ records))"

fun ingest_limited ::
  "(string \<Rightarrow> nat) \<Rightarrow> (string \<Rightarrow> nat option) \<Rightarrow> string \<Rightarrow> string \<Rightarrow> metadata_record list \<Rightarrow>
   'm resident_store \<Rightarrow> 'm resident_store result" where
  "ingest_limited hash parse chain address [] st = Inr st"
| "ingest_limited hash parse chain address (r # records) st =
     res_bind (ingest_metadata_anchor hash parse chain address r st) (ingest_limited hash parse chain address records)"

definition ingest_metadata_records ::
  "(string \<Rightarrow> nat) \<Rightarrow> (string \<Rightarrow> nat option) \<Rightarrow> string \<Rightarrow> string \<Rightarrow> metadata_record list \<Rightarrow>
   'm resident_store \<Rightarrow> 'm resident_store result" where
  "ingest_metadata_records hash parse chain address records st =
     (if rs_metadata_anchor_limit st \<noteq> None then ingest_limited hash parse chain address records st
      else (case contract_id hash st chain address of
          None \<Rightarrow> Inr st
        | Some contract \<Rightarrow>
            res_bind (or_panic (idx (rs_contracts st) contract)) (\<lambda>c.
            res_bind (or_panic (upd (rs_contracts st) contract
                (c\<lparr>ct_metadata_by_token := append_records parse (store_is_evm_chain st chain) records (ct_metadata_by_token c)\<rparr>)))
              (\<lambda>contracts. Inr (st\<lparr>rs_contracts := contracts\<rparr>)))))"

definition clear_contract_metadata ::
  "(string \<Rightarrow> nat) \<Rightarrow> string \<Rightarrow> string \<Rightarrow> 'm resident_store \<Rightarrow> 'm resident_store result" where
  "clear_contract_metadata hash chain address st =
     (case contract_id hash st chain address of
        None \<Rightarrow> Inr st
      | Some contract \<Rightarrow>
          res_bind (or_panic (idx (rs_contracts st) contract)) (\<lambda>c.
          res_bind (or_panic (upd (rs_contracts st) contract (c\<lparr>ct_metadata_by_token := []\<rparr>)))
            (\<lambda>contracts. Inr (st\<lparr>rs_contracts := contracts\<rparr>))))"

section \<open>The anchors of a contract are the largest token ids\<close>

definition anchor_key :: "(string \<Rightarrow> nat option) \<Rightarrow> bool \<Rightarrow> metadata_record \<Rightarrow> nat \<times> nat \<times> string" where
  "anchor_key parse is_evm r = token_key parse is_evm (mr_token_id r)"

definition anchors_ok :: "(string \<Rightarrow> nat option) \<Rightarrow> bool \<Rightarrow> nat option \<Rightarrow> metadata_record list \<Rightarrow> bool" where
  "anchors_ok parse is_evm limit as \<longleftrightarrow>
     sorted_wrt (\<lambda>a b. anchor_key parse is_evm b \<le> anchor_key parse is_evm a) as \<and>
     distinct (map mr_token_id as) \<and> is_none_or (\<lambda>l. length as \<le> l) limit"

lemma cmp_eq: "cmp a b = OrdLess \<longleftrightarrow> a < b" "cmp a b = OrdGreater \<longleftrightarrow> b < a" "cmp a b = OrdEqual \<longleftrightarrow> a = b"
  by (auto simp: cmp_def)

lemma anchor_position_spec:
  assumes "sorted_wrt (\<lambda>a b. anchor_key parse is_evm b \<le> anchor_key parse is_evm a) as"
  shows "anchor_position parse is_evm (mr_token_id r) as \<le> length as \<and>
    (\<forall>a \<in> set (take (anchor_position parse is_evm (mr_token_id r) as) as). anchor_key parse is_evm r \<le> anchor_key parse is_evm a) \<and>
    (\<forall>a \<in> set (drop (anchor_position parse is_evm (mr_token_id r) as) as). anchor_key parse is_evm a \<le> anchor_key parse is_evm r)"
proof -
  let ?k = "anchor_key parse is_evm" and ?p = "anchor_position parse is_evm (mr_token_id r) as"
  let ?f = "\<lambda>i. compare_token_ids_desc parse (mr_token_id (as ! i)) (mr_token_id r) is_evm"
  have f: "?f i = cmp (?k r) (?k (as ! i))" for i by (simp add: compare_token_ids_desc_key anchor_key_def)
  have mono: "?k (as ! j) \<le> ?k (as ! i)" if "i \<le> j" "j < length as" for i j
    using that sorted_wrt_nth_less [OF assms, of i j] by (cases "i = j") auto
  have sorted: "compare_sorted ?f (length as)"
    unfolding compare_sorted_def f
  proof (intro allI impI)
    fix i j assume "i \<le> j" "j < length as"
    from mono [OF this] show "ord_rank (cmp (?k r) (?k (as ! i))) \<le> ord_rank (cmp (?k r) (?k (as ! j)))"
      by (auto simp: cmp_def)
  qed
  have pos: "?p \<le> length as \<and> (\<forall>j < ?p. ?k r \<le> ?k (as ! j)) \<and> (\<forall>j. ?p \<le> j \<and> j < length as \<longrightarrow> ?k (as ! j) \<le> ?k r)"
  proof (cases "binary_search_by ?f (length as)")
    case (Inl i)
    from binary_search_found [OF Inl sorted] have i: "i < length as" "?k r = ?k (as ! i)"
      unfolding f by (auto simp: cmp_def split: if_splits)
    have "?p = i" by (simp add: anchor_position_def Inl)
    then show ?thesis using i mono by (metis less_imp_le)
  next
    case (Inr i)
    have "?p = i" by (simp add: anchor_position_def Inr)
    with binary_search_missing [OF Inr sorted] show ?thesis
      unfolding f cmp_eq by (metis less_imp_le)
  qed
  then show ?thesis
    by (auto simp: in_set_conv_nth)
qed

lemma insert_anchor_sorted:
  assumes "sorted_wrt R as" "p \<le> length as" "\<forall>a \<in> set (take p as). R a r" "\<forall>a \<in> set (drop p as). R r a"
  shows "sorted_wrt R (take p as @ r # drop p as)"
proof -
  have "sorted_wrt R (take p as @ drop p as)" using assms(1) by simp
  with assms show ?thesis by (simp add: sorted_wrt_append del: append_take_drop_id)
qed

lemma butlast_smallest:
  assumes "sorted_wrt R xs" "x \<in> set xs" "x \<notin> set (butlast xs)" "a \<in> set (butlast xs)"
  shows "R a x"
proof -
  have ne: "xs \<noteq> []" using assms(2) by auto
  then have xs: "xs = butlast xs @ [last xs]" by simp
  with assms(2,3) have "x = last xs" by (metis Un_iff empty_iff empty_set insert_iff list.simps(15) set_append)
  then show ?thesis using assms(1,4) xs by (metis list.set_intros(1) sorted_wrt_append)
qed

text \<open>What inserting a record does: nothing to an anchor with that token id, otherwise the record
  is among the anchors, or the anchors are as many as allowed and all at least as large; at most
  one anchor leaves, smaller than all others.\<close>

definition insertion :: "(metadata_record \<Rightarrow> 'k::linorder) \<Rightarrow> nat option \<Rightarrow> metadata_record \<Rightarrow> metadata_record list \<Rightarrow> metadata_record list \<Rightarrow> bool" where
  "insertion key limit r as bs \<longleftrightarrow>
     set bs \<subseteq> insert r (set as) \<and> length as \<le> length bs \<and>
     (\<forall>x \<in> insert r (set as). mr_token_id x \<notin> mr_token_id ` set bs \<longrightarrow>
        limit = Some (length bs) \<and> (\<forall>b \<in> set bs. key x \<le> key b))"

lemma insert_anchor_new:
  assumes ok: "anchors_ok parse is_evm limit as" and new: "mr_token_id r \<notin> mr_token_id ` set as"
  shows "anchors_ok parse is_evm limit (insert_anchor parse limit is_evm r as) \<and>
    insertion (anchor_key parse is_evm) limit r as (insert_anchor parse limit is_evm r as)"
proof -
  let ?R = "\<lambda>a b. anchor_key parse is_evm b \<le> anchor_key parse is_evm a"
  let ?p = "anchor_position parse is_evm (mr_token_id r) as"
  let ?new = "take ?p as @ r # drop ?p as"
  have s: "sorted_wrt ?R as" "distinct (map mr_token_id as)" using ok by (simp_all add: anchors_ok_def)
  note pos = anchor_position_spec [OF s(1), of r]
  have sorted: "sorted_wrt ?R ?new" using pos by (intro insert_anchor_sorted [OF s(1)]) auto
  have set_new: "set ?new = insert r (set as)" by (metis append_take_drop_id list.simps(15) set_append Un_insert_right)
  have len: "length ?new = Suc (length as)" using pos by simp
  have "distinct (map mr_token_id (take ?p as @ drop ?p as))" using s(2) by simp
  then have dist: "distinct (map mr_token_id ?new)"
    using new by (auto simp del: append_take_drop_id dest: in_set_takeD in_set_dropD)
  consider (full) l where "limit = Some l" "l \<le> ?p" "l \<le> length as"
    | (pop) l where "limit = Some l" "\<not> (l \<le> ?p \<and> l \<le> length as)" "l < length ?new"
    | (grow) "is_none_or (\<lambda>l. length ?new \<le> l) limit" "\<not> is_some_and (\<lambda>l. l \<le> ?p \<and> l \<le> length as) limit"
  proof (cases limit)
    case (Some l)
    then show ?thesis using that(1) [of l] that(2) [of l] that(3) by (cases "l < length ?new") (auto simp del: length_append)
  qed (use that(3) in simp)
  then show ?thesis
  proof cases
    case full
    then have same: "insert_anchor parse limit is_evm r as = as" and "length as = l" "take ?p as = as"
      using new ok pos by (auto simp: insert_anchor_def anchors_ok_def image_iff)
    with full ok pos show ?thesis by (auto simp: insertion_def image_iff)
  next
    case pop
    then have res: "insert_anchor parse limit is_evm r as = butlast ?new" and l: "length as = l"
      using new ok len by (auto simp: insert_anchor_def anchors_ok_def image_iff Let_def)
    have "sorted_wrt ?R (butlast ?new)" "distinct (map mr_token_id (butlast ?new))"
      using sorted dist by (simp_all add: butlast_conv_take sorted_wrt_take take_map [symmetric] del: take_append)
    moreover have "set (butlast ?new) \<subseteq> insert r (set as)" using set_new by (blast dest: in_set_butlastD)
    moreover have "\<forall>b \<in> set (butlast ?new). ?R b x"
      if "x \<in> insert r (set as)" "mr_token_id x \<notin> mr_token_id ` set (butlast ?new)" for x
      using butlast_smallest [OF sorted] that set_new by blast
    moreover have "length (butlast ?new) = l" using len l by simp
    ultimately show ?thesis unfolding res insertion_def anchors_ok_def using pop(1) l by (simp add: is_none_or_simps)
  next
    case grow
    then have "insert_anchor parse limit is_evm r as = ?new"
      using new by (cases limit) (auto simp: insert_anchor_def image_iff Let_def)
    then show ?thesis using grow sorted dist set_new len by (auto simp: insertion_def anchors_ok_def)
  qed
qed

lemma insert_anchor_spec:
  assumes ok: "anchors_ok parse is_evm limit as"
  shows "anchors_ok parse is_evm limit (insert_anchor parse limit is_evm r as)"
    "insertion (anchor_key parse is_evm) limit r as (insert_anchor parse limit is_evm r as)"
proof -
  have "insert_anchor parse limit is_evm r as = as" if "mr_token_id r \<in> mr_token_id ` set as"
    using that by (auto simp: insert_anchor_def)
  then show "anchors_ok parse is_evm limit (insert_anchor parse limit is_evm r as)"
    "insertion (anchor_key parse is_evm) limit r as (insert_anchor parse limit is_evm r as)"
    using insert_anchor_new [OF ok, of r] ok by (cases "mr_token_id r \<in> mr_token_id ` set as"; force simp: insertion_def)+
qed

text \<open>A record once crowded out stays smaller than all anchors.\<close>

lemma insertion_keeps_smaller:
  assumes ok: "anchors_ok parse is_evm limit as" and full: "limit = Some (length as)"
    and small: "\<forall>a \<in> set as. k \<le> anchor_key parse is_evm a"
  shows "limit = Some (length (insert_anchor parse limit is_evm r as)) \<and>
    (\<forall>b \<in> set (insert_anchor parse limit is_evm r as). k \<le> anchor_key parse is_evm b)"
proof (cases "mr_token_id r \<in> mr_token_id ` set as")
  case True
  then have "insert_anchor parse limit is_evm r as = as" by (auto simp: insert_anchor_def)
  with full small show ?thesis by simp
next
  case False
  let ?bs = "insert_anchor parse limit is_evm r as" and ?ids = "\<lambda>xs. mr_token_id ` set xs"
  have bs: "anchors_ok parse is_evm limit ?bs" and ins: "insertion (anchor_key parse is_evm) limit r as ?bs"
    using insert_anchor_spec [OF ok] by blast+
  have len: "length ?bs = length as" using bs ins full by (simp add: anchors_ok_def insertion_def)
  have card: "card (?ids ?bs) = length as" "card (?ids as) = length as"
    using bs ok len by (metis anchors_ok_def distinct_card image_set length_map)+
  have "k \<le> anchor_key parse is_evm r" if "r \<in> set ?bs"
  proof -
    have "\<not> ?ids as \<subseteq> ?ids ?bs"
    proof
      assume "?ids as \<subseteq> ?ids ?bs"
      with that have "insert (mr_token_id r) (?ids as) \<subseteq> ?ids ?bs" by auto
      then have "card (insert (mr_token_id r) (?ids as)) \<le> card (?ids ?bs)" by (intro card_mono) auto
      with False card show False by simp
    qed
    then obtain a where "a \<in> set as" "mr_token_id a \<notin> ?ids ?bs" by auto
    with ins that have "anchor_key parse is_evm a \<le> anchor_key parse is_evm r" by (auto simp: insertion_def)
    with small \<open>a \<in> set as\<close> show ?thesis by (meson order_trans)
  qed
  then show ?thesis using ins small full len by (auto simp: insertion_def)
qed

text \<open>C21. Metadata anchors are the largest token ids: inserting records one at a time keeps the
  anchors of a contract in descending order of token ids, without a token id twice and within the
  limit; every anchor is one of the records; and a record whose token id is missing was crowded
  out: the anchors are then exactly as many as the limit, all at least as large.\<close>

theorem metadata_anchors_largest:
  "let as = fold (insert_anchor parse limit is_evm) records []
   in anchors_ok parse is_evm limit as \<and> set as \<subseteq> set records \<and>
     (\<forall>r \<in> set records. mr_token_id r \<notin> mr_token_id ` set as \<longrightarrow>
        limit = Some (length as) \<and> (\<forall>a \<in> set as. anchor_key parse is_evm r \<le> anchor_key parse is_evm a))"
proof (induction records rule: rev_induct)
  case Nil
  then show ?case by (cases limit) (simp_all add: anchors_ok_def)
next
  case (snoc r records)
  let ?k = "anchor_key parse is_evm"
  let ?as = "fold (insert_anchor parse limit is_evm) records []"
  let ?bs = "insert_anchor parse limit is_evm r ?as"
  have ok: "anchors_ok parse is_evm limit ?as" and sub: "set ?as \<subseteq> set records"
    and missing: "\<And>x. x \<in> set records \<Longrightarrow> mr_token_id x \<notin> mr_token_id ` set ?as \<Longrightarrow>
       limit = Some (length ?as) \<and> (\<forall>a \<in> set ?as. ?k x \<le> ?k a)"
    using snoc.IH unfolding Let_def by blast+
  note bs = insert_anchor_spec [OF ok, of r]
  have "limit = Some (length ?bs) \<and> (\<forall>b \<in> set ?bs. ?k x \<le> ?k b)"
    if x: "x \<in> set records" "mr_token_id x \<notin> mr_token_id ` set ?bs" for x
  proof (cases "mr_token_id x \<in> mr_token_id ` set ?as")
    case True
    then obtain y where y: "y \<in> set ?as" "mr_token_id y = mr_token_id x" by force
    then have "?k x = ?k y" by (simp add: anchor_key_def)
    with bs(2) y x(2) show ?thesis unfolding insertion_def by (metis insertCI)
  next
    case False
    from missing [OF x(1) False] insertion_keeps_smaller [OF ok] show ?thesis by blast
  qed
  then show ?case using bs sub by (auto simp: insertion_def Let_def)
qed

text \<open>Three records, a limit of two: \<open>10\<close> and \<open>2\<close> remain.\<close>

definition example_record :: "string \<Rightarrow> metadata_record" where
  "example_record token = \<lparr>mr_token_id = token, mr_canonical_json = [],
     mr_source_order = \<lparr>so_file_ordinal = 0, so_file_row_number = 0\<rparr>\<rparr>"

theorem metadata_anchors_largest_witness:
  "fold (insert_anchor read_digits (Some 2) True) [example_record ''1'', example_record ''10'', example_record ''2''] [] =
     [example_record ''10'', example_record ''2''] \<and>
   anchor_key read_digits True (example_record ''1'') \<le> anchor_key read_digits True (example_record ''2'')"
proof -
  let ?records = "[example_record ''1'', example_record ''10'', example_record ''2'']"
  have as: "fold (insert_anchor read_digits (Some 2) True) ?records [] = [example_record ''10'', example_record ''2'']"
    by code_simp
  show ?thesis
    using metadata_anchors_largest [of read_digits "Some 2" True ?records] unfolding as Let_def
    by (simp add: example_record_def)
qed

section \<open>Bulk ingestion\<close>

text \<open>The order of the bulk sort: token ids descending, then by their text, then by source order.\<close>

definition token_le :: "(string \<Rightarrow> nat option) \<Rightarrow> bool \<Rightarrow> string \<Rightarrow> string \<Rightarrow> bool" where
  "token_le parse is_evm s t \<longleftrightarrow>
     token_key parse is_evm t < token_key parse is_evm s \<or> token_key parse is_evm s = token_key parse is_evm t \<and> s \<le> t"

definition record_le :: "(string \<Rightarrow> nat option) \<Rightarrow> bool \<Rightarrow> metadata_record \<Rightarrow> metadata_record \<Rightarrow> bool" where
  "record_le parse is_evm a b \<longleftrightarrow>
     token_le parse is_evm (mr_token_id a) (mr_token_id b) \<and>
     (mr_token_id a = mr_token_id b \<longrightarrow> order_key (mr_source_order a) \<le> order_key (mr_source_order b))"

lemma compare_records_le: "compare_records parse is_evm a b \<noteq> OrdGreater \<longleftrightarrow> record_le parse is_evm a b"
  by (auto simp: compare_records_def compare_token_ids_desc_key record_le_def token_le_def cmp_def)

lemma token_le_antisym: "token_le parse is_evm s t \<Longrightarrow> token_le parse is_evm t s \<Longrightarrow> s = t"
  by (auto simp: token_le_def)

lemma record_le_order:
  "record_le parse is_evm a a"
  "record_le parse is_evm a b \<Longrightarrow> record_le parse is_evm b c \<Longrightarrow> record_le parse is_evm a c"
  "\<not> record_le parse is_evm a b \<Longrightarrow> record_le parse is_evm b a"
  by (auto simp: record_le_def token_le_def)

lemma set_insert_by: "set (insert_by compare x ys) = insert x (set ys)"
  by (induction ys) auto

lemma set_sort_by [simp]: "set (sort_by compare xs) = set xs"
  by (induction xs) (auto simp: sort_by_def set_insert_by)

lemma sorted_sort_records: "sorted_wrt (record_le parse is_evm) (sort_by (compare_records parse is_evm) xs)"
proof -
  have "sorted_wrt (record_le parse is_evm) (insert_by (compare_records parse is_evm) x ys)"
    if "sorted_wrt (record_le parse is_evm) ys" for x ys
    using that
  proof (induction ys)
    case (Cons y ys)
    show ?case
    proof (cases "record_le parse is_evm x y")
      case True
      then have "\<forall>z \<in> set ys. record_le parse is_evm x z" using Cons.prems record_le_order(2) by (metis sorted_wrt.simps(2))
      with True Cons.prems compare_records_le [of parse is_evm x y] show ?thesis by simp
    next
      case False
      then have "record_le parse is_evm y x" "compare_records parse is_evm x y = OrdGreater"
        using record_le_order(3) compare_records_le by blast+
      with Cons show ?thesis by (simp add: set_insert_by)
    qed
  qed simp
  then show ?thesis by (induction xs) (simp_all add: sort_by_def)
qed

lemma dedup_records:
  assumes "sorted_wrt (record_le parse is_evm) xs" "ys = dedup_by same_token xs"
  shows "set ys \<subseteq> set xs \<and> sorted_wrt (record_le parse is_evm) ys \<and> distinct (map mr_token_id ys) \<and>
    (\<forall>x \<in> set xs. \<exists>y \<in> set ys. mr_token_id y = mr_token_id x \<and> record_le parse is_evm y x)"
  using assms
proof (induction same_token xs arbitrary: ys rule: dedup_by.induct)
  case (1 earlier later xs)
  show ?case
  proof (cases "same_token later earlier")
    case True
    have "sorted_wrt (record_le parse is_evm) (earlier # xs)" using 1(3) by simp
    from 1(1) [OF True this refl] 1(4) True
    have ys: "set ys \<subseteq> set (earlier # xs)" "sorted_wrt (record_le parse is_evm) ys" "distinct (map mr_token_id ys)"
      "\<forall>x \<in> set (earlier # xs). \<exists>y \<in> set ys. mr_token_id y = mr_token_id x \<and> record_le parse is_evm y x"
      by simp_all
    then obtain y where "y \<in> set ys" "mr_token_id y = mr_token_id earlier" "record_le parse is_evm y earlier" by auto
    moreover have "record_le parse is_evm earlier later" using 1(3) by simp
    ultimately have "\<exists>y \<in> set ys. mr_token_id y = mr_token_id later \<and> record_le parse is_evm y later"
      using True record_le_order(2) unfolding same_token_def by metis
    with ys show ?thesis by auto
  next
    case False
    let ?zs = "dedup_by same_token (later # xs)"
    have zs: "set ?zs \<subseteq> set (later # xs)" "sorted_wrt (record_le parse is_evm) ?zs" "distinct (map mr_token_id ?zs)"
      "\<forall>x \<in> set (later # xs). \<exists>y \<in> set ?zs. mr_token_id y = mr_token_id x \<and> record_le parse is_evm y x"
      using 1(2) [OF False _ refl] 1(3) by auto
    have "mr_token_id x \<noteq> mr_token_id earlier" if "x \<in> set (later # xs)" for x
    proof
      assume x: "mr_token_id x = mr_token_id earlier"
      have "record_le parse is_evm later x" using that 1(3) record_le_order(1) by auto
      with x have "token_le parse is_evm (mr_token_id later) (mr_token_id earlier)" by (simp add: record_le_def)
      moreover have "token_le parse is_evm (mr_token_id earlier) (mr_token_id later)"
        using 1(3) by (simp add: record_le_def)
      ultimately show False using False token_le_antisym unfolding same_token_def by metis
    qed
    then have "mr_token_id earlier \<notin> mr_token_id ` set ?zs" using zs(1) by force
    moreover have "ys = earlier # ?zs" using 1(4) False by simp
    ultimately show ?thesis using zs 1(3) record_le_order(1) by auto
  qed
qed (simp_all add: record_le_order(1))

text \<open>Bulk ingestion without a limit keeps one record per token id, the one that comes first in the
  source, in descending order of token ids.\<close>

theorem append_records_spec:
  "let as = append_records parse is_evm records anchors
   in anchors_ok parse is_evm None as \<and> set as \<subseteq> set anchors \<union> set records \<and>
     (\<forall>r \<in> set anchors \<union> set records. \<exists>a \<in> set as. mr_token_id a = mr_token_id r \<and>
        order_key (mr_source_order a) \<le> order_key (mr_source_order r))"
proof -
  note d = dedup_records [OF sorted_sort_records refl, of parse is_evm "anchors @ records"]
  have "sorted_wrt (\<lambda>a b. anchor_key parse is_evm b \<le> anchor_key parse is_evm a) (append_records parse is_evm records anchors)"
    unfolding append_records_def
    by (rule sorted_wrt_mono_rel [of _ "record_le parse is_evm"])
      (use d in \<open>auto simp: record_le_def token_le_def anchor_key_def\<close>)
  moreover have "\<exists>a \<in> set (append_records parse is_evm records anchors). mr_token_id a = mr_token_id r \<and>
      order_key (mr_source_order a) \<le> order_key (mr_source_order r)" if "r \<in> set anchors \<union> set records" for r
  proof -
    have "r \<in> set (sort_by (compare_records parse is_evm) (anchors @ records))" using that by simp
    with d obtain a where "a \<in> set (append_records parse is_evm records anchors)" "mr_token_id a = mr_token_id r"
      "record_le parse is_evm a r" unfolding append_records_def by blast
    then show ?thesis by (auto simp: record_le_def)
  qed
  ultimately show ?thesis using d by (simp add: Let_def anchors_ok_def append_records_def)
qed

end
