(* ===== verification/StoreShards.thy ===== *)
theory StoreShards
  imports StoreRows Anchors
begin

text \<open>
  Merging a shard into a store (\<open>merge_shard\<close>, \<open>merge_mapped_uri\<close> in
  \<open>src/analysis2/crates/core/src/entity/store.rs\<close>), and that loading rows in shards gives the rows
  that loading them into one store gives.
\<close>

section \<open>Operations\<close>

fun ensure_chains :: "string list \<Rightarrow> 'm resident_store \<Rightarrow> (nat list \<times> 'm resident_store) result" where
  "ensure_chains [] st = Inr ([], st)"
| "ensure_chains (chain # cs) st =
     res_bind (ensure_chain chain st) (\<lambda>(i, st).
     res_bind (ensure_chains cs st) (\<lambda>(is, st). Inr (i # is, st)))"

fun intern_strings_of :: "(string \<Rightarrow> nat) \<Rightarrow> string list \<Rightarrow> 'm resident_store \<Rightarrow> (nat list \<times> 'm resident_store) result" where
  "intern_strings_of hash [] st = Inr ([], st)"
| "intern_strings_of hash (s # ss) st =
     res_bind (intern_string hash s st) (\<lambda>(i, st).
     res_bind (intern_strings_of hash ss st) (\<lambda>(is, st). Inr (i # is, st)))"

fun merge_anchors ::
  "(string \<Rightarrow> nat option) \<Rightarrow> nat \<Rightarrow> string \<Rightarrow> metadata_record list \<Rightarrow> 'm resident_store \<Rightarrow> 'm resident_store result" where
  "merge_anchors parse contract chain [] st = Inr st"
| "merge_anchors parse contract chain (r # records) st =
     res_bind (insert_metadata_anchor parse contract chain r st) (merge_anchors parse contract chain records)"

fun merge_contracts ::
  "(string \<Rightarrow> nat) \<Rightarrow> (string \<Rightarrow> nat option) \<Rightarrow> nat list \<Rightarrow> contract list \<Rightarrow> nat list \<Rightarrow> 'm resident_store \<Rightarrow>
   (nat list \<times> 'm resident_store) result" where
  "merge_contracts hash parse chain_map [] contract_map st = Inr (contract_map, st)"
| "merge_contracts hash parse chain_map (c # cs) contract_map st =
     res_bind (or_panic (idx chain_map (ct_chain_id c))) (\<lambda>chain_id.
     res_bind (intern_string hash (ct_address c) st) (\<lambda>(address_id, st).
     res_bind (contract_for chain_id address_id (ct_address c) st) (\<lambda>(contract, st).
     res_bind (or_panic (upd contract_map (ct_id c) contract)) (\<lambda>contract_map.
     res_bind (or_panic (chain_name st chain_id)) (\<lambda>chain.
     res_bind (merge_anchors parse contract chain (ct_metadata_by_token c) st)
       (merge_contracts hash parse chain_map cs contract_map))))))"

definition map_string_id :: "nat list \<Rightarrow> nat option \<Rightarrow> nat option result" where
  "map_string_id string_map i =
     (case i of None \<Rightarrow> Inr None | Some i \<Rightarrow> res_bind (or_panic (idx string_map i)) (\<lambda>j. Inr (Some j)))"

definition merge_mapped_uri ::
  "nat option \<Rightarrow> nat option \<Rightarrow> string \<Rightarrow> nat \<Rightarrow> string \<Rightarrow> nat option result" where
  "merge_mapped_uri existing incoming field contract token =
     (case (existing, incoming) of
        (None, v) \<Rightarrow> Inr v
      | (Some a, None) \<Rightarrow> Inr (Some a)
      | (Some a, Some b) \<Rightarrow>
          if a = b then Inr (Some a)
          else invalid (''snapshot conflict for contract '' @ print_decimal contract @ '', token '' @ token @
            '': distinct '' @ field @ '' values''))"

definition merge_existing_nft :: "nat \<Rightarrow> nft \<Rightarrow> string \<Rightarrow> 'm resident_store \<Rightarrow> 'm resident_store result" where
  "merge_existing_nft i nft token st =
     res_bind (or_panic (idx (rs_nfts st) i)) (\<lambda>existing.
     res_bind (merge_mapped_uri (nf_token_uri_id existing) (nf_token_uri_id nft) ''token_uri_norm'' (nf_contract_id nft) token) (\<lambda>uri.
     res_bind (merge_mapped_uri (nf_image_uri_id existing) (nf_image_uri_id nft) ''image_uri_norm'' (nf_contract_id nft) token) (\<lambda>img.
     res_bind (or_panic (upd (rs_nfts st) i
         (existing\<lparr>nf_name_id := (if nf_name_id existing = None then nf_name_id nft else nf_name_id existing),
                   nf_token_uri_id := uri, nf_image_uri_id := img\<rparr>)))
       (\<lambda>nfts. Inr (st\<lparr>rs_nfts := nfts\<rparr>)))))"

definition merge_nft :: "nat list \<Rightarrow> nat list \<Rightarrow> nft \<Rightarrow> 'm resident_store \<Rightarrow> 'm resident_store result" where
  "merge_nft contract_map string_map nft st =
     res_bind (or_panic (idx contract_map (nf_contract_id nft))) (\<lambda>contract.
     res_bind (map_string_id string_map (nf_name_id nft)) (\<lambda>name_id.
     res_bind (map_string_id string_map (nf_token_uri_id nft)) (\<lambda>token_uri_id.
     res_bind (map_string_id string_map (nf_image_uri_id nft)) (\<lambda>image_uri_id.
     res_bind (or_panic (idx string_map (nf_token_id_id nft))) (\<lambda>token_sid.
     res_bind (or_panic (pool_get (rs_strings st) token_sid)) (\<lambda>token.
     let mapped = \<lparr>nf_contract_id = contract, nf_token_id_id = token_sid, nf_name_id = name_id,
                    nf_token_uri_id = token_uri_id, nf_image_uri_id = image_uri_id\<rparr>
     in (case map_of (rs_nft_index st) (contract, token_sid) of
           Some i \<Rightarrow> merge_existing_nft i mapped token st
         | None \<Rightarrow>
             res_bind (or_panic (idx (rs_contracts st) contract)) (\<lambda>c. push_nft mapped (ct_chain_id c) st))))))))"

fun merge_nfts :: "nat list \<Rightarrow> nat list \<Rightarrow> nft list \<Rightarrow> 'm resident_store \<Rightarrow> 'm resident_store result" where
  "merge_nfts contract_map string_map [] st = Inr st"
| "merge_nfts contract_map string_map (nft # nfts) st =
     res_bind (merge_nft contract_map string_map nft st) (merge_nfts contract_map string_map nfts)"

definition merge_shard ::
  "(string \<Rightarrow> nat) \<Rightarrow> (string \<Rightarrow> nat option) \<Rightarrow> 'm resident_store \<Rightarrow> 'm resident_store \<Rightarrow> 'm resident_store result" where
  "merge_shard hash parse shard st =
     res_bind (ensure_chains (rs_chains shard) st) (\<lambda>(chain_map, st).
     res_bind (intern_strings_of hash (sp_strings (rs_strings shard)) st) (\<lambda>(string_map, st).
     res_bind (merge_contracts hash parse chain_map (rs_contracts shard) (replicate (length (rs_contracts shard)) 0) st)
       (\<lambda>(contract_map, st).
     merge_nfts contract_map string_map (rs_nfts shard) st)))"

section \<open>Merging row lists\<close>

declare merge_row.simps [simp del]

fun merge_rows :: "row list \<Rightarrow> row list \<Rightarrow> row list option" where
  "merge_rows [] acc = Some acc"
| "merge_rows (r # rs) acc = Option.bind (merge_row r acc) (merge_rows rs)"

lemma merge_rows_append: "merge_rows (rs @ qs) acc = Option.bind (merge_rows rs acc) (merge_rows qs)"
  by (induction rs arbitrary: acc) (simp_all split: bind_split)

lemma merge_values_assoc:
  "compatible u v \<Longrightarrow> compatible (merge_values u v) w \<longleftrightarrow> compatible u w \<and> compatible v w"
  "merge_values (merge_values u v) w = merge_values u (merge_values v w)"
proof -
  have "agree a b \<Longrightarrow> agree (opt_or a b) c \<longleftrightarrow> agree a c \<and> agree b c" for a b c :: "string option"
    by (cases a; cases b; cases c) (auto simp: agree_def)
  then show "compatible u v \<Longrightarrow> compatible (merge_values u v) w \<longleftrightarrow> compatible u w \<and> compatible v w"
    by (cases u; cases v; cases w) auto
  have "opt_or (opt_or a b) c = opt_or a (opt_or b c)" for a b c :: "string option"
    by (cases a; cases b) auto
  then show "merge_values (merge_values u v) w = merge_values u (merge_values v w)"
    by (cases u; cases v; cases w) auto
qed

lemma compatible_merge_right:
  "compatible v w \<Longrightarrow> compatible u (merge_values v w) \<longleftrightarrow> compatible u v \<and> compatible u w"
proof -
  have "agree b c \<Longrightarrow> agree a (opt_or b c) \<longleftrightarrow> agree a b \<and> agree a c" for a b c :: "string option"
    by (cases a; cases b; cases c) (auto simp: agree_def)
  then show "compatible v w \<Longrightarrow> compatible u (merge_values v w) \<longleftrightarrow> compatible u v \<and> compatible u w"
    by (cases u; cases v; cases w) auto
qed

definition at_key :: "row_key \<Rightarrow> (row_values \<Rightarrow> row_values) \<Rightarrow> row list \<Rightarrow> row list" where
  "at_key k f rs = map (\<lambda>(k', w). (k', if k' = k then f w else w)) rs"

lemma merge_row_at_key:
  "merge_row (k, v) rs =
     (case map_of rs k of
        None \<Rightarrow> Some (rs @ [(k, v)])
      | Some old \<Rightarrow> if compatible old v then Some (at_key k (\<lambda>w. merge_values w v) rs) else None)"
  by (simp add: merge_row.simps at_key_def split: option.split)

lemma map_of_at_key: "map_of (at_key k f rs) x = (if x = k then map_option f (map_of rs k) else map_of rs x)"
  by (induction rs) (auto simp: at_key_def)

lemma at_key_simps [simp]: "map fst (at_key k f rs) = map fst rs" "at_key k f (rs @ qs) = at_key k f rs @ at_key k f qs"
  "at_key k f (at_key k g rs) = at_key k (\<lambda>w. f (g w)) rs"
  "at_key k f [(k', w)] = [(k', if k' = k then f w else w)]"
  by (auto simp: at_key_def)

lemma at_key_commute: "k \<noteq> k' \<Longrightarrow> at_key k f (at_key k' g rs) = at_key k' g (at_key k f rs)"
  by (auto simp: at_key_def)

lemma at_key_missing: "map_of rs k = None \<Longrightarrow> at_key k f rs = rs"
  by (induction rs) (auto simp: at_key_def split: if_splits)

lemma merge_row_keys: "merge_row (k, w) acc = Some acc' \<Longrightarrow> fst ` set acc' = insert k (fst ` set acc)"
proof -
  assume m: "merge_row (k, w) acc = Some acc'"
  show ?thesis
  proof (cases "map_of acc k")
    case None
    with m show ?thesis by (auto simp: merge_row_at_key)
  next
    case (Some old)
    then have "k \<in> fst ` set acc" by (metis map_of_eq_None_iff option.discI)
    moreover have "map fst acc' = map fst acc" using m Some by (auto simp: merge_row_at_key split: if_splits)
    ultimately show ?thesis by (metis insert_absorb list.set_map)
  qed
qed

lemma merge_row_commute:
  assumes "k \<in> fst ` set acc" "k \<noteq> k'"
  shows "Option.bind (merge_row (k', w) acc) (merge_row (k, v)) = Option.bind (merge_row (k, v) acc) (merge_row (k', w))"
proof -
  obtain old where old: "map_of acc k = Some old" using assms(1) by (metis map_of_eq_None_iff not_None_eq)
  show ?thesis
  proof (cases "map_of acc k'")
    case None
    with old assms(2) show ?thesis by (simp add: merge_row_at_key map_of_at_key map_add_def)
  next
    case (Some old')
    with old assms(2) show ?thesis by (simp add: merge_row_at_key map_of_at_key at_key_commute)
  qed
qed

lemma merge_row_absorb:
  "Option.bind (merge_row (k, v) acc) (merge_row (k, w)) =
     (if compatible v w then merge_row (k, merge_values v w) acc else None)"
proof (cases "map_of acc k")
  case None
  then show ?thesis
    by (auto simp: merge_row_at_key map_add_def at_key_missing)
next
  case (Some old)
  show ?thesis
  proof (cases "compatible old v")
    case True
    with Some show ?thesis
      by (auto simp: merge_row_at_key map_of_at_key merge_values_assoc compatible_merge_right)
  next
    case False
    with Some show ?thesis by (auto simp: merge_row_at_key compatible_merge_right)
  qed
qed

lemma merge_rows_commute:
  assumes "k \<in> fst ` set acc" "k \<notin> fst ` set rs"
  shows "Option.bind (merge_rows rs acc) (merge_row (k, v)) = Option.bind (merge_row (k, v) acc) (merge_rows rs)"
  using assms
proof (induction rs arbitrary: acc)
  case (Cons r rs)
  obtain k' w where r: "r = (k', w)" by (cases r)
  have "Option.bind (merge_rows (r # rs) acc) (merge_row (k, v)) =
      Option.bind (merge_row r acc) (\<lambda>acc. Option.bind (merge_rows rs acc) (merge_row (k, v)))"
    by (simp split: bind_split)
  also have "\<dots> = Option.bind (merge_row r acc) (\<lambda>acc. Option.bind (merge_row (k, v) acc) (merge_rows rs))"
    using Cons merge_row_keys [of k' w acc] by (cases "merge_row r acc") (auto simp: r)
  also have "\<dots> = Option.bind (Option.bind (merge_row r acc) (merge_row (k, v))) (merge_rows rs)"
    by (cases "merge_row r acc") simp_all
  also have "Option.bind (merge_row r acc) (merge_row (k, v)) = Option.bind (merge_row (k, v) acc) (merge_row r)"
    unfolding r by (rule merge_row_commute) (use Cons.prems in \<open>auto simp: r\<close>)
  finally show ?case by (simp split: bind_split)
qed (simp split: bind_split)

text \<open>Merging a row into a list and then the list into an accumulator is merging the list and then
  the row.\<close>

lemma merge_row_fusion:
  assumes "distinct (map fst sh)"
  shows "Option.bind (merge_row r sh) (\<lambda>sh. merge_rows sh acc) = Option.bind (merge_rows sh acc) (merge_row r)"
  using assms
proof (induction sh arbitrary: acc)
  case Nil
  obtain k v where "r = (k, v)" by (cases r)
  then show ?case by (cases "merge_row r acc") (simp_all add: merge_row_at_key)
next
  case (Cons q sh)
  obtain k v k' v' where r: "r = (k, v)" and q: "q = (k', v')" by (cases r, cases q)
  show ?case
  proof (cases "k = k'")
    case True
    then have new: "map_of sh k = None" using Cons.prems by (simp add: q map_of_eq_None_iff)
    have "Option.bind (merge_row r (q # sh)) (\<lambda>sh. merge_rows sh acc) =
        (if compatible v' v then Option.bind (merge_row (k, merge_values v' v) acc) (merge_rows sh) else None)"
      using True new at_key_missing [OF new] by (simp add: r q merge_row_at_key at_key_def)
    also have "\<dots> = Option.bind (Option.bind (merge_row q acc) (merge_row r)) (merge_rows sh)"
      using merge_row_absorb [of k v' acc v] True by (simp add: r q)
    also have "\<dots> = Option.bind (merge_row q acc) (\<lambda>acc. Option.bind (merge_rows sh acc) (merge_row r))"
    proof (cases "merge_row q acc")
      case (Some acc')
      then have "k \<in> fst ` set acc'" using True merge_row_keys [of k' v' acc] by (simp add: q)
      with Some show ?thesis using merge_rows_commute [of k acc' sh v] new by (simp add: r map_of_eq_None_iff)
    qed simp
    finally show ?thesis by (simp split: bind_split)
  next
    case False
    then have "merge_row r (q # sh) = map_option (Cons q) (merge_row r sh)"
      by (auto simp: r q merge_row_at_key at_key_def split: option.split)
    then have "Option.bind (merge_row r (q # sh)) (\<lambda>sh. merge_rows sh acc) =
        Option.bind (merge_row q acc) (\<lambda>acc. Option.bind (merge_row r sh) (\<lambda>sh. merge_rows sh acc))"
      by (cases "merge_row r sh"; cases "merge_row q acc") simp_all
    also have "\<dots> = Option.bind (merge_row q acc) (\<lambda>acc. Option.bind (merge_rows sh acc) (merge_row r))"
      using Cons by simp
    finally show ?thesis by (simp split: bind_split)
  qed
qed

lemma merge_row_distinct: "merge_row r rs = Some rs' \<Longrightarrow> distinct (map fst rs) \<Longrightarrow> distinct (map fst rs')"
proof -
  obtain k v where "r = (k, v)" by (cases r)
  then show "merge_row r rs = Some rs' \<Longrightarrow> distinct (map fst rs) \<Longrightarrow> distinct (map fst rs')"
    by (auto simp: merge_row_at_key map_of_eq_None_iff split: option.splits if_splits)
qed

lemma merge_rows_distinct: "merge_rows rs acc = Some acc' \<Longrightarrow> distinct (map fst acc) \<Longrightarrow> distinct (map fst acc')"
  by (induction rs arbitrary: acc) (auto simp: bind_eq_Some_conv dest: merge_row_distinct)

lemma merge_rows_fusion:
  "Option.bind (merge_rows rs []) (\<lambda>sh. merge_rows sh acc) = merge_rows rs acc"
proof (induction rs rule: rev_induct)
  case (snoc r rs)
  have "Option.bind (merge_rows (rs @ [r]) []) (\<lambda>sh. merge_rows sh acc) =
      Option.bind (merge_rows rs []) (\<lambda>sh. Option.bind (merge_row r sh) (\<lambda>sh. merge_rows sh acc))"
    by (simp add: merge_rows_append split: bind_split)
  also have "\<dots> = Option.bind (merge_rows rs []) (\<lambda>sh. Option.bind (merge_rows sh acc) (merge_row r))"
    using merge_row_fusion merge_rows_distinct [of rs "[]"] by (cases "merge_rows rs []") simp_all
  also have "\<dots> = Option.bind (merge_rows rs acc) (merge_row r)" using snoc.IH by (auto split: bind_splits)
  finally show ?case by (simp add: merge_rows_append split: bind_split)
qed simp

section \<open>Stages of a merge\<close>

lemma outcome_conj: "outcome P E r \<Longrightarrow> outcome Q (\<lambda>_. True) r \<Longrightarrow> outcome (\<lambda>x. P x \<and> Q x) E r"
  by (cases r) simp_all

lemma grown_refl: "store_ok hash st \<Longrightarrow> grown hash 0 st st"
  by (simp add: grown_def)

lemma grown_trans: "grown hash j st st1 \<Longrightarrow> grown hash k st1 st2 \<Longrightarrow> grown hash (j + k) st st2"
  by (auto simp: grown_def intro: extends_trans)

lemma grown_extends: "grown hash k st st' \<Longrightarrow> extends st st'"
  by (simp add: grown_def)

text \<open>Positions of chains, strings and contracts stay valid in a grown store.\<close>

definition chain_at :: "'m resident_store \<Rightarrow> nat \<Rightarrow> string \<Rightarrow> bool" where
  "chain_at st i chain \<longleftrightarrow> i < length (rs_chains st) \<and> rs_chains st ! i = chain"

definition string_at :: "'m resident_store \<Rightarrow> nat \<Rightarrow> string \<Rightarrow> bool" where
  "string_at st i s \<longleftrightarrow> i < length (sp_strings (rs_strings st)) \<and> sp_strings (rs_strings st) ! i = s"

definition contract_at :: "'m resident_store \<Rightarrow> nat \<Rightarrow> nat \<times> string \<Rightarrow> bool" where
  "contract_at st i name \<longleftrightarrow> i < length (rs_contracts st) \<and> contract_names (rs_contracts st) ! i = name"

lemma positions_extend:
  assumes "extends st st'"
  shows "chain_at st i chain \<Longrightarrow> chain_at st' i chain" "string_at st i s \<Longrightarrow> string_at st' i s"
    "contract_at st i name \<Longrightarrow> contract_at st' i name"
  using assms prefix_nth [of "contract_names (rs_contracts st)" "contract_names (rs_contracts st')" i]
  by (auto simp: extends_def chain_at_def string_at_def contract_at_def dest: prefix_nth)

lemma ensure_chain_length: "outcome (\<lambda>(i, st'). length (rs_chains st') \<le> Suc (length (rs_chains st))) (\<lambda>_. True) (ensure_chain chain st)"
  by (auto simp: ensure_chain_def Let_def split: option.split)

lemma ensure_chain_at:
  assumes "store_ok hash st"
  shows "outcome (\<lambda>(i, st'). grown hash 0 st st' \<and> rs_contracts st' = rs_contracts st \<and> chain_at st' i chain \<and>
      length (rs_chains st') \<le> Suc (length (rs_chains st)))
    (\<lambda>e. e = Error (Invalid ''too many chains for ChainId'') \<and> 2 ^ 16 \<le> length (rs_chains st)) (ensure_chain chain st)"
  by (rule outcome_weaken [OF outcome_conj [OF ensure_chain_ok [OF assms] ensure_chain_length]])
    (auto simp: grown_def chain_at_def)

definition chains_full :: "nat \<Rightarrow> failure \<Rightarrow> bool" where
  "chains_full n e \<longleftrightarrow> e = Error (Invalid ''too many chains for ChainId'') \<and> 2 ^ 16 \<le> n"

lemma ensure_chains_ok:
  assumes "store_ok hash st"
  shows "outcome (\<lambda>(is, st'). grown hash 0 st st' \<and> rs_contracts st' = rs_contracts st \<and> list_all2 (chain_at st') is cs)
    (chains_full (length (rs_chains st) + length cs)) (ensure_chains cs st)"
  using assms
proof (induction cs arbitrary: st)
  case Nil
  then show ?case by (simp add: grown_refl)
next
  case (Cons c cs)
  show ?case
    unfolding ensure_chains.simps
  proof (rule outcome_bind_weaken [OF ensure_chain_at [OF Cons.prems]])
    fix x assume "case x of (i, st') \<Rightarrow> grown hash 0 st st' \<and> rs_contracts st' = rs_contracts st \<and> chain_at st' i c \<and>
      length (rs_chains st') \<le> Suc (length (rs_chains st))"
    then obtain i st1 where x: "x = (i, st1)" "grown hash 0 st st1" "rs_contracts st1 = rs_contracts st" "chain_at st1 i c"
      "length (rs_chains st1) \<le> Suc (length (rs_chains st))" by auto
    show "outcome (\<lambda>(is, st'). grown hash 0 st st' \<and> rs_contracts st' = rs_contracts st \<and> list_all2 (chain_at st') is (c # cs))
      (chains_full (length (rs_chains st) + length (c # cs)))
      (case x of (i, st) \<Rightarrow> res_bind (ensure_chains cs st) (\<lambda>(is, st). Inr (i # is, st)))"
      unfolding x(1) prod.case
      by (rule outcome_bind_weaken [OF Cons.IH [OF grown_ok [OF x(2)]]])
        (use x grown_trans [OF x(2)] positions_extend(1) [OF grown_extends _] in
          \<open>auto simp: chains_full_def simp del: One_nat_def dest: positions_extend(1) [OF grown_extends]\<close>)
  qed (auto simp: chains_full_def)
qed

lemma intern_string_at:
  assumes "store_ok hash st"
  shows "outcome (\<lambda>(i, st'). grown hash 1 st st' \<and> rs_contracts st' = rs_contracts st \<and> rs_chains st' = rs_chains st \<and> string_at st' i s)
    (exhausted 0 st) (intern_string hash s st)"
  by (rule outcome_weaken [OF intern_string_ok [OF assms]])
    (auto simp: string_at_def pool_full_def exhausted_def interned_same grown_def dest: interned_extends interned_length)

lemma intern_strings_of_ok:
  assumes "store_ok hash st"
  shows "outcome (\<lambda>(is, st'). grown hash (length ss) st st' \<and> rs_contracts st' = rs_contracts st \<and> rs_chains st' = rs_chains st \<and>
      list_all2 (string_at st') is ss)
    (exhausted (length ss) st) (intern_strings_of hash ss st)"
  using assms
proof (induction ss arbitrary: st)
  case Nil
  then show ?case by (simp add: grown_refl)
next
  case (Cons s ss)
  show ?case
    unfolding intern_strings_of.simps
  proof (rule outcome_bind_weaken [OF intern_string_at [OF Cons.prems]])
    fix x assume "case x of (i, st') \<Rightarrow> grown hash 1 st st' \<and> rs_contracts st' = rs_contracts st \<and> rs_chains st' = rs_chains st \<and> string_at st' i s"
    then obtain i st1 where x: "x = (i, st1)" "grown hash 1 st st1" "rs_contracts st1 = rs_contracts st" "rs_chains st1 = rs_chains st"
      "string_at st1 i s" by auto
    have more: "exhausted (length ss) st1 e \<Longrightarrow> exhausted (length (s # ss)) st e" for e
      using x(2) by (auto simp: exhausted_def grown_def)
    show "outcome (\<lambda>(is, st'). grown hash (length (s # ss)) st st' \<and> rs_contracts st' = rs_contracts st \<and> rs_chains st' = rs_chains st \<and>
        list_all2 (string_at st') is (s # ss)) (exhausted (length (s # ss)) st)
      (case x of (i, st) \<Rightarrow> res_bind (intern_strings_of hash ss st) (\<lambda>(is, st). Inr (i # is, st)))"
      unfolding x(1) prod.case
      by (rule outcome_bind_weaken [OF Cons.IH [OF grown_ok [OF x(2)]] more])
        (use x grown_trans [OF x(2), of "length ss"] in \<open>auto dest: positions_extend(2) [OF grown_extends]\<close>)
  qed (auto simp: exhausted_def)
qed

section \<open>Contracts of the shard\<close>

lemma store_ok_metadata:
  assumes st: "store_ok hash st" and i: "i < length (rs_contracts st)"
  shows "grown hash 0 st (st\<lparr>rs_contracts := (rs_contracts st)[i := (rs_contracts st ! i)\<lparr>ct_metadata_by_token := as\<rparr>]\<rparr>)"
proof -
  let ?contracts = "(rs_contracts st)[i := (rs_contracts st ! i)\<lparr>ct_metadata_by_token := as\<rparr>]"
  have names: "contract_names ?contracts = contract_names (rs_contracts st)" using i by (simp add: contract_names_update)
  have range: "\<forall>nft \<in> set (rs_nfts st). nf_contract_id nft < length ?contracts" using store_okD(5) [OF st] by simp
  have "ct_id (?contracts ! j) = ct_id (rs_contracts st ! j) \<and> ct_nft_count (?contracts ! j) = ct_nft_count (rs_contracts st ! j)"
    if "j < length (rs_contracts st)" for j using that i by (cases "j = i") simp_all
  then have "counts_ok ?contracts (rs_nfts st) (rs_totals st) (rs_rows_loaded st)"
    using st chain_counts_names [OF names range] by (simp add: store_ok_def counts_ok_def)
  with st show ?thesis by (simp add: grown_def store_ok_def names extends_def)
qed

lemma insert_metadata_anchor_grown:
  assumes st: "store_ok hash st" and i: "i < length (rs_contracts st)"
  shows "outcome (\<lambda>st'. grown hash 0 st st' \<and> length (rs_contracts st') = length (rs_contracts st)) (\<lambda>_. False)
    (insert_metadata_anchor parse i chain r st)"
  using grown_refl [OF st] store_ok_metadata [OF st i] i by (simp add: insert_metadata_anchor_def or_panic_def)

lemma merge_anchors_grown:
  assumes "store_ok hash st" "i < length (rs_contracts st)"
  shows "outcome (\<lambda>st'. grown hash 0 st st' \<and> length (rs_contracts st') = length (rs_contracts st)) (\<lambda>_. False)
    (merge_anchors parse i chain records st)"
  using assms
proof (induction records arbitrary: st)
  case Nil
  then show ?case by (simp add: grown_refl)
next
  case (Cons r records)
  show ?case
    unfolding merge_anchors.simps
    by (rule outcome_bind [OF insert_metadata_anchor_grown [OF Cons.prems]], rule outcome_weaken [OF Cons.IH])
      (use Cons.prems in \<open>auto simp: grown_ok dest: grown_trans [where j = 0 and k = 0]\<close>)
qed

definition contracts_full :: "nat \<Rightarrow> failure \<Rightarrow> bool" where
  "contracts_full n e \<longleftrightarrow> e = Error (Invalid ''too many contracts for ContractId'') \<and> 2 ^ 32 \<le> n"

lemma contract_for_length:
  "outcome (\<lambda>(i, st'). length (rs_contracts st') \<le> Suc (length (rs_contracts st))) (\<lambda>_. True) (contract_for chain_id a address st)"
  by (auto simp: contract_for_def Let_def split: option.split)

lemma contract_for_at:
  assumes "store_ok hash st" "chain_id < length (rs_chains st)" "string_at st a address"
  shows "outcome (\<lambda>(i, st'). grown hash 0 st st' \<and> rs_chains st' = rs_chains st \<and> contract_at st' i (chain_id, address) \<and>
      length (rs_contracts st') \<le> Suc (length (rs_contracts st)))
    (contracts_full (length (rs_contracts st))) (contract_for chain_id a address st)"
  using outcome_conj [OF contract_for_ok [OF assms(1,2), of a] contract_for_length] assms(3)
  by (auto simp: grown_def contract_at_def string_at_def contracts_full_def elim!: outcome_weaken)

text \<open>One contract: interned, found or created, and its anchors merged.\<close>

definition merge_contract ::
  "(string \<Rightarrow> nat) \<Rightarrow> (string \<Rightarrow> nat option) \<Rightarrow> nat \<Rightarrow> contract \<Rightarrow> 'm resident_store \<Rightarrow> (nat \<times> 'm resident_store) result" where
  "merge_contract hash parse chain_id c st =
     res_bind (intern_string hash (ct_address c) st) (\<lambda>(address_id, st).
     res_bind (contract_for chain_id address_id (ct_address c) st) (\<lambda>(contract, st).
     res_bind (or_panic (chain_name st chain_id)) (\<lambda>chain.
     res_bind (merge_anchors parse contract chain (ct_metadata_by_token c) st) (\<lambda>st. Inr (contract, st)))))"

definition contract_failure :: "'m resident_store \<Rightarrow> nat \<Rightarrow> failure \<Rightarrow> bool" where
  "contract_failure st n e \<longleftrightarrow> exhausted n st e \<or> contracts_full (length (rs_contracts st) + n) e"

lemma merge_contract_ok:
  assumes st: "store_ok hash st" and chain: "chain_id < length (rs_chains st)"
  shows "outcome (\<lambda>(i, st'). grown hash 1 st st' \<and> contract_at st' i (chain_id, ct_address c) \<and>
      length (rs_contracts st') \<le> Suc (length (rs_contracts st))) (contract_failure st 0) (merge_contract hash parse chain_id c st)"
    (is "outcome ?Q ?F _")
  unfolding merge_contract_def
proof (rule outcome_bind_weaken [OF intern_string_at [OF st]])
  fix x assume "case x of (i, st') \<Rightarrow> grown hash 1 st st' \<and> rs_contracts st' = rs_contracts st \<and> rs_chains st' = rs_chains st \<and>
    string_at st' i (ct_address c)"
  then obtain a st1 where x: "x = (a, st1)" "grown hash 1 st st1" "rs_contracts st1 = rs_contracts st" "rs_chains st1 = rs_chains st"
    "string_at st1 a (ct_address c)" by auto
  have "outcome ?Q ?F (res_bind (contract_for chain_id a (ct_address c) st1) (\<lambda>(contract, st).
     res_bind (or_panic (chain_name st chain_id)) (\<lambda>chain.
     res_bind (merge_anchors parse contract chain (ct_metadata_by_token c) st) (\<lambda>st. Inr (contract, st)))))"
  proof (rule outcome_bind_weaken [OF contract_for_at [OF grown_ok [OF x(2)] _ x(5)]])
    fix y assume "case y of (i, st') \<Rightarrow> grown hash 0 st1 st' \<and> rs_chains st' = rs_chains st1 \<and>
      contract_at st' i (chain_id, ct_address c) \<and> length (rs_contracts st') \<le> Suc (length (rs_contracts st1))"
    then obtain i st2 where y: "y = (i, st2)" "grown hash 0 st1 st2" "rs_chains st2 = rs_chains st1"
      "contract_at st2 i (chain_id, ct_address c)" "length (rs_contracts st2) \<le> Suc (length (rs_contracts st1))" by auto
    have i: "i < length (rs_contracts st2)" using y(4) by (simp add: contract_at_def)
    have "outcome ?Q ?F (res_bind (merge_anchors parse i n (ct_metadata_by_token c) st2) (\<lambda>st. Inr (i, st)))" for n
      by (rule outcome_bind_weaken [OF merge_anchors_grown [OF grown_ok [OF y(2)] i]])
        (use x y grown_trans [OF x(2) grown_trans [OF y(2), of 0]] in \<open>auto dest: positions_extend(3) [OF grown_extends]\<close>)
    then show "outcome ?Q ?F (case y of (contract, st) \<Rightarrow> res_bind (or_panic (chain_name st chain_id)) (\<lambda>chain.
       res_bind (merge_anchors parse contract chain (ct_metadata_by_token c) st) (\<lambda>st. Inr (contract, st))))"
      using chain by (simp add: y x chain_name_def or_panic_def)
  qed (use x chain in \<open>auto simp: contract_failure_def\<close>)
  then show "outcome ?Q ?F (case x of (address_id, st) \<Rightarrow> res_bind (contract_for chain_id address_id (ct_address c) st) (\<lambda>(contract, st).
     res_bind (or_panic (chain_name st chain_id)) (\<lambda>chain.
     res_bind (merge_anchors parse contract chain (ct_metadata_by_token c) st) (\<lambda>st. Inr (contract, st)))))"
    by (simp add: x(1))
qed (auto simp: contract_failure_def)

lemma merge_contracts_Cons:
  assumes "ct_chain_id c < length chain_map" "ct_id c < length contract_map"
  shows "merge_contracts hash parse chain_map (c # cs) contract_map st =
    res_bind (merge_contract hash parse (chain_map ! ct_chain_id c) c st)
      (\<lambda>(i, st). merge_contracts hash parse chain_map cs (contract_map[ct_id c := i]) st)"
  using assms
  by (auto simp: merge_contract_def or_panic_def res_bind_def split: sum.splits option.splits prod.splits)

lemma merge_contracts_ok:
  assumes "store_ok hash st" "\<forall>c \<in> set cs. ct_chain_id c < length chain_map" "\<forall>i \<in> set chain_map. i < length (rs_chains st)"
    and "map ct_id cs = [k..<length contract_map]" "k \<le> length contract_map"
  shows "outcome (\<lambda>(cm, st'). grown hash (length cs) st st' \<and> take k cm = take k contract_map \<and>
      list_all2 (\<lambda>c i. contract_at st' i (chain_map ! ct_chain_id c, ct_address c)) cs (drop k cm))
    (contract_failure st (length cs)) (merge_contracts hash parse chain_map cs contract_map st)"
  using assms
proof (induction cs arbitrary: st k contract_map)
  case Nil
  then have "length contract_map = k" by (metis le_antisym list.map_disc_iff list.simps(8) upt_eq_Nil_conv le_0_eq le_refl)
  with Nil show ?case by (simp add: grown_refl)
next
  case (Cons c cs)
  have less: "k < length contract_map" using Cons.prems(4) by (metis list.map_disc_iff list.discI upt_eq_Nil_conv not_less)
  then have k: "ct_id c = k" "map ct_id cs = [Suc k..<length contract_map]" "k < length contract_map"
    using Cons.prems(4) by (simp_all add: upt_conv_Cons)
  have in_map: "ct_chain_id c < length chain_map" using Cons.prems(2) by simp
  then have chain: "chain_map ! ct_chain_id c < length (rs_chains st)" using Cons.prems(3) by simp
  show ?case
    unfolding merge_contracts_Cons [OF in_map k(3) [folded k(1)]]
  proof (rule outcome_bind_weaken [OF merge_contract_ok [OF Cons.prems(1) chain]])
    fix x assume "case x of (i, st') \<Rightarrow> grown hash 1 st st' \<and> contract_at st' i (chain_map ! ct_chain_id c, ct_address c) \<and>
      length (rs_contracts st') \<le> Suc (length (rs_contracts st))"
    then obtain i st1 where x: "x = (i, st1)" "grown hash 1 st st1" "contract_at st1 i (chain_map ! ct_chain_id c, ct_address c)"
      "length (rs_contracts st1) \<le> Suc (length (rs_contracts st))" by auto
    have fail: "contract_failure st1 (length cs) e \<Longrightarrow> contract_failure st (length (c # cs)) e" for e
      using x(2,4) by (auto simp: contract_failure_def contracts_full_def exhausted_def grown_def)
    have chains1: "\<forall>i \<in> set chain_map. i < length (rs_chains st1)"
      using Cons.prems(3) grown_extends [OF x(2)] by (auto simp: extends_def dest!: prefix_length_le)
    have step: "list_all2 (\<lambda>c i. contract_at st2 i (chain_map ! ct_chain_id c, ct_address c)) (c # cs) (drop k cm) \<and> take k cm = take k contract_map"
      if "grown hash (length cs) st1 st2" "take (Suc k) cm = take (Suc k) (contract_map[k := i])"
        "list_all2 (\<lambda>c i. contract_at st2 i (chain_map ! ct_chain_id c, ct_address c)) cs (drop (Suc k) cm)" for cm st2
    proof -
      have len: "length (take (Suc k) cm) = Suc k" using that(2) k(3) by simp
      then have kl: "k < length cm" by simp
      have "cm ! k = i" using arg_cong [OF that(2), of "\<lambda>xs. xs ! k"] k(3) by simp
      then have "drop k cm = i # drop (Suc k) cm" using Cons_nth_drop_Suc [OF kl] by simp
      moreover have "take k (take (Suc k) cm) = take k (take (Suc k) (contract_map[k := i]))" using that(2) by simp
      then have "take k cm = take k contract_map" by (simp add: min_def)
      ultimately show ?thesis using that(3) positions_extend(3) [OF grown_extends [OF that(1)] x(3)] by simp
    qed
    show "outcome (\<lambda>(cm, st'). grown hash (length (c # cs)) st st' \<and> take k cm = take k contract_map \<and>
        list_all2 (\<lambda>c i. contract_at st' i (chain_map ! ct_chain_id c, ct_address c)) (c # cs) (drop k cm))
      (contract_failure st (length (c # cs)))
      (case x of (i, st) \<Rightarrow> merge_contracts hash parse chain_map cs (contract_map[ct_id c := i]) st)"
      unfolding x(1) prod.case k(1)
      by (rule outcome_weaken [OF Cons.IH [OF grown_ok [OF x(2)] _ chains1, of "Suc k" "contract_map[k := i]"]])
        (use Cons.prems k step fail grown_trans [OF x(2), of "length cs"] in auto)
  qed (auto simp: contract_failure_def exhausted_def contracts_full_def)
qed

section \<open>NFTs of the shard\<close>

definition shard_conflict :: "failure \<Rightarrow> bool" where
  "shard_conflict e \<longleftrightarrow> (\<exists>contract token. \<exists>field \<in> {''token_uri_norm'', ''image_uri_norm''}.
     e = Error (Invalid (''snapshot conflict for contract '' @ print_decimal contract @ '', token '' @ token @
       '': distinct '' @ field @ '' values'')))"

text \<open>The same chains, strings and contract names: texts are unchanged.\<close>

definition frame :: "'m resident_store \<Rightarrow> 'm resident_store \<Rightarrow> bool" where
  "frame st st' \<longleftrightarrow> rs_chains st' = rs_chains st \<and> rs_strings st' = rs_strings st \<and>
     contract_names (rs_contracts st') = contract_names (rs_contracts st)"

lemma frame_texts:
  assumes "frame st st'"
  shows "texts st' = texts st" "known st' = known st" "key_text st' = key_text st" "valid_key st' = valid_key st" "nft_row st' = nft_row st"
proof -
  have "length (rs_contracts st') = length (rs_contracts st)" using assms by (metis frame_def length_contract_names)
  with assms show "texts st' = texts st" "known st' = known st" "key_text st' = key_text st" "valid_key st' = valid_key st"
    "nft_row st' = nft_row st"
    by (auto simp: frame_def texts_def known_def key_text_def valid_key_def nft_row_def fun_eq_iff)
qed

lemma merge_mapped_uri_ok:
  assumes "store_ok hash st" "known st a" "known st b" "field \<in> {''token_uri_norm'', ''image_uri_norm''}"
  shows "outcome (\<lambda>c. known st c \<and> texts st c = opt_or (texts st a) (texts st b) \<and> agree (texts st a) (texts st b))
    (\<lambda>e. \<not> agree (texts st a) (texts st b) \<and> shard_conflict e) (merge_mapped_uri a b field contract token)"
proof (cases a)
  case (Some i)
  show ?thesis
  proof (cases b)
    case b: (Some j)
    have "i = j \<longleftrightarrow> sp_strings (rs_strings st) ! i = sp_strings (rs_strings st) ! j"
      using assms(2,3) store_okD(3) [OF assms(1)] by (simp add: Some b known_def nth_eq_iff_index_eq)
    then show ?thesis using assms(2-) by (auto simp: merge_mapped_uri_def Some b texts_def agree_def shard_conflict_def)
  qed (use assms(2) in \<open>simp add: merge_mapped_uri_def Some texts_def agree_def\<close>)
qed (use assms(3) in \<open>simp add: merge_mapped_uri_def texts_def agree_def\<close>)

lemma merge_existing_nft_ok:
  assumes st: "store_ok hash st" and i: "i < length (rs_nfts st)"
    and ids: "known st (nf_name_id nft)" "known st (nf_token_uri_id nft)" "known st (nf_image_uri_id nft)"
    and old: "old = snd (store_rows st ! i)" and v: "v = snd (nft_row st nft)"
  shows "outcome (\<lambda>st'. store_ok hash st' \<and> frame st st' \<and> length (rs_nfts st') = length (rs_nfts st) \<and> compatible old v \<and>
      store_rows st' = (store_rows st)[i := (fst (store_rows st ! i), merge_values old v)])
    (\<lambda>e. \<not> compatible old v \<and> shard_conflict e) (merge_existing_nft i nft token st)"
    (is "outcome ?Q ?F _")
proof -
  let ?old = "rs_nfts st ! i"
  have below: "ids_below (length (sp_strings (rs_strings st))) ?old" using store_okD(6) [OF st] i by simp
  note k = known_ids [OF below]
  have vals: "old = (texts st (nf_name_id ?old), texts st (nf_token_uri_id ?old), texts st (nf_image_uri_id ?old))"
    "v = (texts st (nf_name_id nft), texts st (nf_token_uri_id nft), texts st (nf_image_uri_id nft))"
    using i by (simp_all add: old v store_rows_def nft_row_def)
  let ?name = "if nf_name_id ?old = None then nf_name_id nft else nf_name_id ?old"
  have name: "known st ?name" "texts st ?name = opt_or (texts st (nf_name_id ?old)) (texts st (nf_name_id nft))"
    using k(1) ids(1) by (auto simp: texts_def)
  have written: "outcome ?Q ?F (res_bind (or_panic (upd (rs_nfts st) i
         (?old\<lparr>nf_name_id := ?name, nf_token_uri_id := uri, nf_image_uri_id := img\<rparr>)))
       (\<lambda>nfts. Inr (st\<lparr>rs_nfts := nfts\<rparr>)))"
    if "known st uri" "known st img" "texts st uri = opt_or (texts st (nf_token_uri_id ?old)) (texts st (nf_token_uri_id nft))"
      "texts st img = opt_or (texts st (nf_image_uri_id ?old)) (texts st (nf_image_uri_id nft))" "compatible old v" for uri img
    using write_nft_ok [OF st i grown_refl [OF st] name(1) that(1,2)] that name(2) i
    by (simp add: vals or_panic_def frame_def)
  have "outcome ?Q ?F (res_bind (merge_mapped_uri (nf_token_uri_id ?old) (nf_token_uri_id nft) ''token_uri_norm'' (nf_contract_id nft) token) (\<lambda>uri.
     res_bind (merge_mapped_uri (nf_image_uri_id ?old) (nf_image_uri_id nft) ''image_uri_norm'' (nf_contract_id nft) token) (\<lambda>img.
     res_bind (or_panic (upd (rs_nfts st) i (?old\<lparr>nf_name_id := ?name, nf_token_uri_id := uri, nf_image_uri_id := img\<rparr>)))
       (\<lambda>nfts. Inr (st\<lparr>rs_nfts := nfts\<rparr>)))))"
    by (rule outcome_bind_weaken [OF merge_mapped_uri_ok [OF st k(2) ids(2)]], simp, simp add: vals,
        rule outcome_bind_weaken [OF merge_mapped_uri_ok [OF st k(3) ids(3)]], simp, simp add: vals, rule written)
      (simp_all add: vals)
  then show ?thesis by (simp add: merge_existing_nft_def i or_panic_def)
qed

text \<open>The id maps take the shard's contracts and strings to those with the same text.\<close>

definition name_text :: "'m resident_store \<Rightarrow> nat \<Rightarrow> string \<times> string" where
  "name_text st i = (case contract_names (rs_contracts st) ! i of (chain, address) \<Rightarrow> (rs_chains st ! chain, address))"

definition maps_ok :: "'m resident_store \<Rightarrow> 'm resident_store \<Rightarrow> nat list \<Rightarrow> nat list \<Rightarrow> bool" where
  "maps_ok shard st contract_map string_map \<longleftrightarrow>
     length contract_map = length (rs_contracts shard) \<and>
     (\<forall>c < length (rs_contracts shard). contract_map ! c < length (rs_contracts st) \<and> name_text st (contract_map ! c) = name_text shard c) \<and>
     list_all2 (string_at st) string_map (sp_strings (rs_strings shard))"

lemma key_text_name: "key_text st (c, t) = (fst (name_text st c), snd (name_text st c), sp_strings (rs_strings st) ! t)"
  by (simp add: key_text_def name_text_def case_prod_unfold)

lemma frame_maps:
  assumes "frame st st'" "maps_ok shard st cm sm"
  shows "maps_ok shard st' cm sm"
proof -
  have "length (rs_contracts st') = length (rs_contracts st)" using assms(1) by (metis frame_def length_contract_names)
  moreover have "string_at st' = string_at st" "name_text st' = name_text st"
    using assms(1) by (simp_all add: frame_def string_at_def name_text_def fun_eq_iff)
  ultimately show ?thesis using assms(2) by (simp add: maps_ok_def)
qed

lemma map_string_id_ok:
  assumes "list_all2 (string_at st) sm (sp_strings (rs_strings shard))" "known shard i"
  obtains j where "map_string_id sm i = Inr j" "known st j" "texts st j = texts shard i"
  using assms list_all2_nthD2 [OF assms(1)]
  by (cases i) (force simp: map_string_id_def known_def texts_def string_at_def or_panic_def list_all2_lengthD)+

definition nfts_full :: "nat \<Rightarrow> failure \<Rightarrow> bool" where
  "nfts_full n e \<longleftrightarrow> e = Error (Invalid ''too many NFTs for NftId'') \<and> 2 ^ 32 \<le> n"

text \<open>Placing a mapped NFT.\<close>

lemma place_mapped_ok:
  fixes st :: "'m resident_store"
  assumes st: "store_ok hash st" and key: "valid_key st (nf_contract_id nft, nf_token_id_id nft)"
    and ids: "known st (nf_name_id nft)" "known st (nf_token_uri_id nft)" "known st (nf_image_uri_id nft)"
  shows "outcome (\<lambda>st'. store_ok hash st' \<and> frame st st' \<and> length (rs_nfts st') \<le> Suc (length (rs_nfts st)) \<and>
      merge_row (nft_row st nft) (store_rows st) = Some (store_rows st'))
    (\<lambda>e. nfts_full (length (rs_nfts st)) e \<or> merge_row (nft_row st nft) (store_rows st) = None \<and> shard_conflict e)
    (case map_of (rs_nft_index st) (nf_contract_id nft, nf_token_id_id nft) of
       Some i \<Rightarrow> merge_existing_nft i nft token st
     | None \<Rightarrow> res_bind (or_panic (idx (rs_contracts st) (nf_contract_id nft))) (\<lambda>c. push_nft nft (ct_chain_id c) st))"
proof -
  let ?k = "(nf_contract_id nft, nf_token_id_id nft)"
  have row: "nft_row st nft = (key_text st ?k, snd (nft_row st nft))" by (simp add: nft_row_def)
  note merge = merge_row_index [OF distinct_store_rows [OF st], of "key_text st ?k" "snd (nft_row st nft)", folded row]
  note ix = nft_index_rows [OF st key]
  show ?thesis
  proof (cases "map_of (rs_nft_index st) ?k")
    case None
    have c: "nf_contract_id nft < length (rs_contracts st)" using key by (simp add: valid_key_def)
    have new: "?k \<notin> set (nft_keys (rs_nfts st))" using None store_okD(7) [OF st] by (simp add: index_in_None)
    have below: "ids_below (length (sp_strings (rs_strings st))) nft"
      using key ids by (simp add: ids_below_def valid_key_def known_def)
    have "merge_row (nft_row st nft) (store_rows st) = Some (store_rows st @ [nft_row st nft])"
      using None ix unfolding merge by simp
    then have "outcome (\<lambda>st'. store_ok hash st' \<and> frame st st' \<and> length (rs_nfts st') \<le> Suc (length (rs_nfts st)) \<and>
        merge_row (nft_row st nft) (store_rows st) = Some (store_rows st')) (nfts_full (length (rs_nfts st)))
      (push_nft nft (ct_chain_id (rs_contracts st ! nf_contract_id nft)) st)"
    proof (intro outcome_weaken [OF push_nft_ok [OF st c below new refl]])
      fix st' :: "'m resident_store" assume st': "store_ok hash st' \<and> rs_nfts st' = rs_nfts st @ [nft] \<and> rs_chains st' = rs_chains st \<and>
        rs_strings st' = rs_strings st \<and> contract_names (rs_contracts st') = contract_names (rs_contracts st)"
      then have f: "frame st st'" by (simp add: frame_def)
      have "store_rows st' = store_rows st @ [nft_row st nft]" using st' frame_texts(5) [OF f] by (simp add: store_rows_def)
      then show "store_ok hash st' \<and> frame st st' \<and> length (rs_nfts st') \<le> Suc (length (rs_nfts st)) \<and>
        merge_row (nft_row st nft) (store_rows st) = Some (store_rows st')"
        if "merge_row (nft_row st nft) (store_rows st) = Some (store_rows st @ [nft_row st nft])" using st' f that by simp
    qed (simp_all add: nfts_full_def)
    then show ?thesis using c unfolding None option.case by (auto simp: or_panic_def elim!: outcome_weaken)
  next
    case (Some i)
    then have i: "i < length (rs_nfts st)" "fst (store_rows st ! i) = key_text st ?k"
      using ix index_in_SomeD [of "map fst (store_rows st)"] by (fastforce simp: store_rows_def)+
    have "merge_row (nft_row st nft) (store_rows st) =
        (if compatible (snd (store_rows st ! i)) (snd (nft_row st nft))
         then Some ((store_rows st)[i := (key_text st ?k, merge_values (snd (store_rows st ! i)) (snd (nft_row st nft)))]) else None)"
      using Some ix unfolding merge by simp
    with merge_existing_nft_ok [OF st i(1) ids refl refl, of token] i(2) show ?thesis
      unfolding Some option.case by (auto elim!: outcome_weaken)
  qed
qed

lemma merge_nft_ok:
  assumes st: "store_ok hash st" and maps: "maps_ok shard st cm sm"
    and nft: "nf_contract_id nft < length (rs_contracts shard)" "ids_below (length (sp_strings (rs_strings shard))) nft"
  shows "outcome (\<lambda>st'. store_ok hash st' \<and> frame st st' \<and> length (rs_nfts st') \<le> Suc (length (rs_nfts st)) \<and>
      merge_row (nft_row shard nft) (store_rows st) = Some (store_rows st'))
    (\<lambda>e. nfts_full (length (rs_nfts st)) e \<or> merge_row (nft_row shard nft) (store_rows st) = None \<and> shard_conflict e)
    (merge_nft cm sm nft st)"
proof -
  have c: "cm ! nf_contract_id nft < length (rs_contracts st)" "name_text st (cm ! nf_contract_id nft) = name_text shard (nf_contract_id nft)"
    "nf_contract_id nft < length cm" and sm: "list_all2 (string_at st) sm (sp_strings (rs_strings shard))"
    using maps nft(1) by (auto simp: maps_ok_def)
  note kn = known_ids [OF nft(2)]
  obtain name where name: "map_string_id sm (nf_name_id nft) = Inr name" "known st name" "texts st name = texts shard (nf_name_id nft)"
    using map_string_id_ok [OF sm kn(1)] .
  obtain uri where uri: "map_string_id sm (nf_token_uri_id nft) = Inr uri" "known st uri" "texts st uri = texts shard (nf_token_uri_id nft)"
    using map_string_id_ok [OF sm kn(2)] .
  obtain img where img: "map_string_id sm (nf_image_uri_id nft) = Inr img" "known st img" "texts st img = texts shard (nf_image_uri_id nft)"
    using map_string_id_ok [OF sm kn(3)] .
  have t: "nf_token_id_id nft < length sm" "string_at st (sm ! nf_token_id_id nft) (sp_strings (rs_strings shard) ! nf_token_id_id nft)"
    using sm nft(2) list_all2_nthD2 [OF sm, of "nf_token_id_id nft"] by (auto simp: ids_below_def list_all2_lengthD)
  let ?mapped = "\<lparr>nf_contract_id = cm ! nf_contract_id nft, nf_token_id_id = sm ! nf_token_id_id nft, nf_name_id = name,
     nf_token_uri_id = uri, nf_image_uri_id = img\<rparr>"
  have row: "nft_row st ?mapped = nft_row shard nft"
    using t(2) by (simp add: nft_row_def key_text_name c(2) name uri img string_at_def)
  have "valid_key st (nf_contract_id ?mapped, nf_token_id_id ?mapped)" using c(1) t(2) by (simp add: valid_key_def string_at_def)
  note placed = place_mapped_ok [OF st this, of "sp_strings (rs_strings shard) ! nf_token_id_id nft", unfolded row]
  have "merge_nft cm sm nft st =
     (case map_of (rs_nft_index st) (nf_contract_id ?mapped, nf_token_id_id ?mapped) of
       Some i \<Rightarrow> merge_existing_nft i ?mapped (sp_strings (rs_strings shard) ! nf_token_id_id nft) st
     | None \<Rightarrow> res_bind (or_panic (idx (rs_contracts st) (nf_contract_id ?mapped))) (\<lambda>c. push_nft ?mapped (ct_chain_id c) st))"
    using t by (simp add: merge_nft_def name uri img c(3) or_panic_def pool_get_def string_at_def Let_def cong: option.case_cong)
  then show ?thesis using placed name(2) uri(2) img(2) by simp
qed

lemma merge_nfts_ok:
  assumes "store_ok hash st" "maps_ok shard st cm sm"
    and "\<forall>nft \<in> set nfts. nf_contract_id nft < length (rs_contracts shard) \<and> ids_below (length (sp_strings (rs_strings shard))) nft"
  shows "outcome (\<lambda>st'. store_ok hash st' \<and> merge_rows (map (nft_row shard) nfts) (store_rows st) = Some (store_rows st'))
    (\<lambda>e. nfts_full (length (rs_nfts st) + length nfts) e \<or>
       merge_rows (map (nft_row shard) nfts) (store_rows st) = None \<and> shard_conflict e)
    (merge_nfts cm sm nfts st)"
  using assms
proof (induction nfts arbitrary: st)
  case (Cons nft nfts)
  have nft: "nf_contract_id nft < length (rs_contracts shard)" "ids_below (length (sp_strings (rs_strings shard))) nft"
    using Cons.prems(3) by simp_all
  show ?case
    unfolding merge_nfts.simps
  proof (rule outcome_bind_weaken [OF merge_nft_ok [OF Cons.prems(1,2) nft]])
    fix st1 assume st1: "store_ok hash st1 \<and> frame st st1 \<and> length (rs_nfts st1) \<le> Suc (length (rs_nfts st)) \<and>
      merge_row (nft_row shard nft) (store_rows st) = Some (store_rows st1)"
    then have "maps_ok shard st1 cm sm" using Cons.prems(2) frame_maps by blast
    then show "outcome (\<lambda>st'. store_ok hash st' \<and> merge_rows (map (nft_row shard) (nft # nfts)) (store_rows st) = Some (store_rows st'))
      (\<lambda>e. nfts_full (length (rs_nfts st) + length (nft # nfts)) e \<or>
       merge_rows (map (nft_row shard) (nft # nfts)) (store_rows st) = None \<and> shard_conflict e) (merge_nfts cm sm nfts st1)"
      by (intro outcome_weaken [OF Cons.IH]) (use st1 Cons.prems(3) in \<open>auto simp: nfts_full_def\<close>)
  qed (auto simp: nfts_full_def)
qed simp

definition shard_full :: "'m resident_store \<Rightarrow> 'm resident_store \<Rightarrow> failure \<Rightarrow> bool" where
  "shard_full shard st e \<longleftrightarrow>
     exhausted (length (sp_strings (rs_strings shard)) + length (rs_contracts shard)) st e \<or>
     chains_full (length (rs_chains st) + length (rs_chains shard)) e \<or>
     contracts_full (length (rs_contracts st) + length (rs_contracts shard)) e \<or>
     nfts_full (length (rs_nfts st) + length (rs_nfts shard)) e"

lemma maps_ok_stages:
  assumes shard: "store_ok hash shard" and chains: "list_all2 (chain_at st1) chain_map (rs_chains shard)"
    and strings: "list_all2 (string_at st2) string_map (sp_strings (rs_strings shard))"
    and ext: "extends st1 st2" "extends st2 st3"
    and contracts: "list_all2 (\<lambda>c i. contract_at st3 i (chain_map ! ct_chain_id c, ct_address c)) (rs_contracts shard) contract_map"
  shows "maps_ok shard st3 contract_map string_map"
proof -
  have "contract_map ! c < length (rs_contracts st3) \<and> name_text st3 (contract_map ! c) = name_text shard c"
    if c: "c < length (rs_contracts shard)" for c
  proof -
    let ?c = "rs_contracts shard ! c"
    have at: "contract_at st3 (contract_map ! c) (chain_map ! ct_chain_id ?c, ct_address ?c)"
      using list_all2_nthD [OF contracts c] .
    have "ct_chain_id ?c < length (rs_chains shard)" using store_okD(4) [OF shard c] c by (simp add: contract_names_def)
    then have "chain_at st1 (chain_map ! ct_chain_id ?c) (rs_chains shard ! ct_chain_id ?c)"
      using list_all2_nthD2 [OF chains] by blast
    then have "chain_at st3 (chain_map ! ct_chain_id ?c) (rs_chains shard ! ct_chain_id ?c)"
      using positions_extend(1) ext by blast
    with at c show ?thesis by (simp add: contract_at_def chain_at_def name_text_def contract_names_def)
  qed
  moreover have "list_all2 (string_at st3) string_map (sp_strings (rs_strings shard))"
    using strings positions_extend(2) [OF ext(2)] by (auto elim: list_all2_mono)
  ultimately show ?thesis using contracts by (simp add: maps_ok_def list_all2_lengthD)
qed

lemma merge_shard_ok:
  assumes st: "store_ok hash st" and shard: "store_ok hash shard"
  shows "outcome (\<lambda>st'. store_ok hash st' \<and> merge_rows (store_rows shard) (store_rows st) = Some (store_rows st'))
    (\<lambda>e. shard_full shard st e \<or> merge_rows (store_rows shard) (store_rows st) = None \<and> shard_conflict e)
    (merge_shard hash parse shard st)"
    (is "outcome ?Q ?F _")
  unfolding merge_shard_def
proof (rule outcome_bind_weaken [OF ensure_chains_ok [OF st]]; clarify?)
  fix chain_map st1 assume s1: "grown hash 0 st st1" "rs_contracts st1 = rs_contracts st" "list_all2 (chain_at st1) chain_map (rs_chains shard)"
  show "outcome ?Q ?F (res_bind (intern_strings_of hash (sp_strings (rs_strings shard)) st1) (\<lambda>(string_map, st).
     res_bind (merge_contracts hash parse chain_map (rs_contracts shard) (replicate (length (rs_contracts shard)) 0) st)
       (\<lambda>(contract_map, st). merge_nfts contract_map string_map (rs_nfts shard) st)))"
  proof (rule outcome_bind_weaken [OF intern_strings_of_ok [OF grown_ok [OF s1(1)]]]; clarify?)
    fix string_map st2 assume s2: "grown hash (length (sp_strings (rs_strings shard))) st1 st2" "rs_contracts st2 = rs_contracts st1"
      "rs_chains st2 = rs_chains st1" "list_all2 (string_at st2) string_map (sp_strings (rs_strings shard))"
    have in_chains: "\<forall>i \<in> set chain_map. i < length (rs_chains st2)"
      using s1(3) s2(3) by (auto simp: chain_at_def list_all2_conv_all_nth in_set_conv_nth)
    have chain_ids: "\<forall>c \<in> set (rs_contracts shard). ct_chain_id c < length chain_map"
      using store_okD(4) [OF shard] s1(3) by (auto simp: list_all2_lengthD in_set_conv_nth contract_names_def)
    have ids: "map ct_id (rs_contracts shard) = [0..<length (replicate (length (rs_contracts shard)) (0 :: nat))]"
      using shard by (intro nth_equalityI) (auto simp: store_ok_def counts_ok_def)
    show "outcome ?Q ?F (res_bind (merge_contracts hash parse chain_map (rs_contracts shard) (replicate (length (rs_contracts shard)) 0) st2)
       (\<lambda>(contract_map, st). merge_nfts contract_map string_map (rs_nfts shard) st))"
    proof (rule outcome_bind_weaken [OF merge_contracts_ok [OF grown_ok [OF s2(1)] chain_ids in_chains ids]]; clarify?)
      fix contract_map st3 assume s3: "grown hash (length (rs_contracts shard)) st2 st3"
        "list_all2 (\<lambda>c i. contract_at st3 i (chain_map ! ct_chain_id c, ct_address c)) (rs_contracts shard) (drop 0 contract_map)"
      have maps: "maps_ok shard st3 contract_map string_map"
        using maps_ok_stages [OF shard s1(3) s2(4) grown_extends [OF s2(1)] grown_extends [OF s3(1)]] s3(2) by simp
      have "store_rows st3 = store_rows st" "rs_nfts st3 = rs_nfts st"
        using store_rows_extends [OF st] extends_trans grown_extends [OF s1(1)] grown_extends [OF s2(1)] grown_extends [OF s3(1)]
        by (blast, simp add: extends_def)
      then show "outcome ?Q ?F (merge_nfts contract_map string_map (rs_nfts shard) st3)"
        by (intro outcome_weaken [OF merge_nfts_ok [OF grown_ok [OF s3(1)] maps]])
          (use store_okD(5,6) [OF shard] in \<open>auto simp: store_rows_def [of shard] shard_full_def\<close>)
    qed (use s1 s2 in \<open>auto simp: shard_full_def contract_failure_def contracts_full_def exhausted_def grown_def\<close>)
  qed (use s1 in \<open>auto simp: shard_full_def exhausted_def grown_def\<close>)
qed (auto simp: shard_full_def)

text \<open>C19. Merging a shard refines merging its rows, in order, into the rows of the store: the merged
  store is well-formed, its rows are the old ones with every row of the shard appended or merged,
  and the merge fails only on a conflict between two uris of one NFT, or when the ids of the store
  cannot hold both.\<close>

theorem merge_shard_refines:
  assumes "store_ok hash st" "store_ok hash shard"
  shows "case merge_shard hash parse shard st of
      Inr st' \<Rightarrow> store_ok hash st' \<and> merge_rows (store_rows shard) (store_rows st) = Some (store_rows st')
    | Inl e \<Rightarrow> shard_full shard st e \<or> merge_rows (store_rows shard) (store_rows st) = None \<and> shard_conflict e"
  using merge_shard_ok [OF assms] by (simp add: outcome_def)

theorem merge_shard_refines_witness:
  "\<exists>shard st. ingest_identity_row (\<lambda>_. 0) (example_row ''u'') (with_options () None []) = Inr shard \<and>
     merge_shard (\<lambda>_. 0) (\<lambda>_. None) shard (with_options () None []) = Inr st \<and>
     store_rows st = [((''eth'', ''a'', ''1''), (None, Some ''u'', None))]"
proof -
  let ?st = "with_options () None [] :: unit resident_store"
  obtain shard where sh: "ingest_identity_row (\<lambda>_. 0) (example_row ''u'') ?st = Inr shard"
    "store_ok (\<lambda>_. 0) shard" "store_rows shard = [((''eth'', ''a'', ''1''), (None, Some ''u'', None))]"
    "length (sp_strings (rs_strings shard)) = 3" "length (rs_chains shard) = 1" "length (rs_contracts shard) = 1" "length (rs_nfts shard) = 1"
    by (rule example_store)
  have empty: "store_rows ?st = []" by (simp add: store_rows_def with_options_def)
  have full: "\<not> shard_full shard ?st e" for e
    by (simp add: sh shard_full_def exhausted_def chains_full_def contracts_full_def nfts_full_def with_options_def)
  have "\<exists>st. merge_shard (\<lambda>_. 0) (\<lambda>_. None) shard ?st = Inr st \<and> store_rows st = [((''eth'', ''a'', ''1''), (None, Some ''u'', None))]"
    using merge_shard_refines [of "\<lambda>_. 0" ?st shard "\<lambda>_. None", OF store_ok_new sh(2)] full
    by (auto simp: sh(3) empty merge_row.simps split: sum.splits)
  with sh(1) show ?thesis by blast
qed

section \<open>Loading in shards\<close>

fun load_all :: "('r \<Rightarrow> 's \<Rightarrow> 's result) \<Rightarrow> 'r list \<Rightarrow> 's \<Rightarrow> 's result" where
  "load_all f [] st = Inr st"
| "load_all f (x # xs) st = res_bind (f x st) (load_all f xs)"

text \<open>The interface of a loader whose state holds rows: an ingested input adds its row, and fails
  only for lack of capacity or because its row conflicts.\<close>

locale row_loader =
  fixes ingest_op :: "'r \<Rightarrow> 's \<Rightarrow> 's result"
    and rows_of :: "'s \<Rightarrow> row list"
    and ok :: "'s \<Rightarrow> bool"
    and input_row :: "'r \<Rightarrow> row option"
    and full :: "'s \<Rightarrow> failure \<Rightarrow> bool"
  assumes ingest_rows: "ok st \<Longrightarrow> ingest_op x st = Inr st' \<Longrightarrow>
      ok st' \<and> merge_rows (List.map_filter input_row [x]) (rows_of st) = Some (rows_of st')"
    and ingest_fails: "ok st \<Longrightarrow> ingest_op x st = Inl e \<Longrightarrow>
      full st e \<or> merge_rows (List.map_filter input_row [x]) (rows_of st) = None"
begin

lemma load_rows:
  "ok st \<Longrightarrow> load_all ingest_op xs st = Inr st' \<Longrightarrow>
   ok st' \<and> merge_rows (List.map_filter input_row xs) (rows_of st) = Some (rows_of st')"
proof (induction xs arbitrary: st)
  case Nil
  then show ?case by (simp add: map_filter_simps)
next
  case (Cons x xs)
  then obtain st1 where st1: "ingest_op x st = Inr st1" "load_all ingest_op xs st1 = Inr st'" by (auto simp: res_bind_eq_Inr)
  note one = ingest_rows [OF Cons.prems(1) st1(1)]
  have "List.map_filter input_row (x # xs) = List.map_filter input_row [x] @ List.map_filter input_row xs"
    by (simp add: map_filter_simps split: option.split)
  with one Cons.IH [OF _ st1(2)] show ?case by (simp add: merge_rows_append)
qed

lemma load_fails:
  "ok st \<Longrightarrow> load_all ingest_op xs st = Inl e \<Longrightarrow>
   (\<exists>ys st'. prefix ys xs \<and> load_all ingest_op ys st = Inr st' \<and> full st' e) \<or>
   merge_rows (List.map_filter input_row xs) (rows_of st) = None"
proof (induction xs arbitrary: st)
  case (Cons x xs)
  have split: "List.map_filter input_row (x # xs) = List.map_filter input_row [x] @ List.map_filter input_row xs"
    by (simp add: map_filter_simps split: option.split)
  show ?case
  proof (cases "ingest_op x st")
    case (Inl e')
    then have "e' = e" using Cons.prems(2) by simp
    from ingest_fails [OF Cons.prems(1) Inl] this show ?thesis
      unfolding split merge_rows_append
      by (metis Nil_prefix bind.simps(1) load_all.simps(1))
  next
    case (Inr st1)
    then have "load_all ingest_op xs st1 = Inl e" using Cons.prems(2) by simp
    then have "(\<exists>ys st'. prefix ys xs \<and> load_all ingest_op ys st1 = Inr st' \<and> full st' e) \<or>
        merge_rows (List.map_filter input_row xs) (rows_of st1) = None"
      using ingest_rows [OF Cons.prems(1) Inr] Cons.IH [of st1] by simp
    then consider ys st' where "prefix ys xs" "load_all ingest_op ys st1 = Inr st'" "full st' e"
      | "merge_rows (List.map_filter input_row xs) (rows_of st1) = None" by auto
    then show ?thesis
    proof cases
      case 1
      then have "prefix (x # ys) (x # xs)" "load_all ingest_op (x # ys) st = Inr st'" using Inr by simp_all
      with 1(3) show ?thesis by blast
    next
      case 2
      with ingest_rows [OF Cons.prems(1) Inr] show ?thesis unfolding split merge_rows_append by simp
    qed
  qed
qed simp

end

definition identity_row_of :: "identity_row \<Rightarrow> row option" where
  "identity_row_of r =
     (if ir_chain r = [] \<or> ir_contract_address r = [] \<or> ir_token_id r = [] then None
      else Some (row_of (ir_chain r) (ir_contract_address r) (ir_token_id r) (ir_name_norm r) (ir_token_uri_norm r) (ir_image_uri_norm r)))"

lemma ingest_row_outcome:
  assumes "store_ok hash st"
  shows "outcome (\<lambda>st'. store_ok hash st' \<and> merge_rows (List.map_filter identity_row_of [r]) (store_rows st) = Some (store_rows st'))
    (\<lambda>e. store_full st e \<or> merge_rows (List.map_filter identity_row_of [r]) (store_rows st) = None) (ingest_identity_row hash r st)"
proof (cases "ir_chain r = [] \<or> ir_contract_address r = [] \<or> ir_token_id r = []")
  case True
  then have "ingest_identity_row hash r st = Inr st" by (simp only: ingest_identity_row_def ingest_identity_strs_def if_True)
  with True assms show ?thesis by (simp add: identity_row_of_def map_filter_simps)
next
  case False
  let ?r = "row_of (ir_chain r) (ir_contract_address r) (ir_token_id r) (ir_name_norm r) (ir_token_uri_norm r) (ir_image_uri_norm r)"
  have rows_r: "merge_rows (List.map_filter identity_row_of [r]) acc = merge_row ?r acc" for acc
    using False by (cases "merge_row ?r acc") (simp_all add: identity_row_of_def map_filter_simps)
  show ?thesis
    unfolding rows_r ingest_identity_row_def
    by (rule outcome_weaken [OF ingest_identity_strs_ok [OF assms _ _ _ refl]])
      (use False in \<open>auto simp: ingest_failure_def\<close>)
qed

interpretation store: row_loader "ingest_identity_row hash" store_rows "store_ok hash" identity_row_of store_full for hash
proof unfold_locales
  fix st st' :: "'a resident_store" and r e
  assume "store_ok hash st"
  note out = ingest_row_outcome [OF this, of r]
  show "ingest_identity_row hash r st = Inr st' \<Longrightarrow>
      store_ok hash st' \<and> merge_rows (List.map_filter identity_row_of [r]) (store_rows st) = Some (store_rows st')"
    and "ingest_identity_row hash r st = Inl e \<Longrightarrow>
      store_full st e \<or> merge_rows (List.map_filter identity_row_of [r]) (store_rows st) = None"
    using out by simp_all
qed

text \<open>C20. Loading in shards is loading directly: rows ingested into an empty shard that is then merged
  into a store give the rows that ingesting them into that store gives, and where one way fails and
  the other does not, ids were used up.\<close>

theorem sharded_load_equivalent:
  assumes st: "store_ok hash st"
    and shard: "load_all (ingest_identity_row hash) rs (with_options no_index limit evm_chains) = Inr shard"
  shows "case (merge_shard hash parse shard st, load_all (ingest_identity_row hash) rs st) of
      (Inr st1, Inr st2) \<Rightarrow> store_rows st1 = store_rows st2 \<and> store_ok hash st1 \<and> store_ok hash st2
    | (Inl e, Inr st2) \<Rightarrow> shard_full shard st e
    | (Inr st1, Inl e) \<Rightarrow> \<exists>qs st2. prefix qs rs \<and> load_all (ingest_identity_row hash) qs st = Inr st2 \<and> store_full st2 e
    | (Inl e, Inl e') \<Rightarrow> True"
proof -
  let ?rows = "List.map_filter identity_row_of rs"
  have "store_rows (with_options no_index limit evm_chains) = []" by (simp add: store_rows_def with_options_def)
  then have sh: "store_ok hash shard" "merge_rows ?rows [] = Some (store_rows shard)"
    using store.load_rows [OF store_ok_new shard] by simp_all
  then have fused: "merge_rows (store_rows shard) (store_rows st) = merge_rows ?rows (store_rows st)"
    using merge_rows_fusion [of ?rows "store_rows st"] by simp
  note merged = merge_shard_ok [OF st sh(1), of parse, unfolded fused]
  note direct = store.load_rows [OF st, of rs] store.load_fails [OF st, of rs]
  show ?thesis
    using merged direct
    by (cases "merge_shard hash parse shard st"; cases "load_all (ingest_identity_row hash) rs st") auto
qed

theorem sharded_load_equivalent_witness:
  "\<exists>shard st1 st2. load_all (ingest_identity_row (\<lambda>_. 0)) [example_row ''u''] (with_options () None []) = Inr shard \<and>
     merge_shard (\<lambda>_. 0) (\<lambda>_. None) shard (with_options () None []) = Inr st1 \<and>
     load_all (ingest_identity_row (\<lambda>_. 0)) [example_row ''u''] (with_options () None []) = Inr st2 \<and>
     store_rows st1 = store_rows st2"
proof -
  let ?st = "with_options () None [] :: unit resident_store"
  obtain shard where sh: "ingest_identity_row (\<lambda>_. 0) (example_row ''u'') ?st = Inr shard"
    "store_ok (\<lambda>_. 0) shard" "store_rows shard = [((''eth'', ''a'', ''1''), (None, Some ''u'', None))]"
    "length (sp_strings (rs_strings shard)) = 3" "length (rs_chains shard) = 1" "length (rs_contracts shard) = 1" "length (rs_nfts shard) = 1"
    by (rule example_store)
  then have load: "load_all (ingest_identity_row (\<lambda>_. 0)) [example_row ''u''] ?st = Inr shard" by simp
  have "\<not> shard_full shard ?st e" for e
    by (simp add: sh shard_full_def exhausted_def chains_full_def contracts_full_def nfts_full_def with_options_def)
  with sharded_load_equivalent [of "\<lambda>_. 0" ?st, OF store_ok_new load, of "\<lambda>_. None"] load
  have "\<exists>st1. merge_shard (\<lambda>_. 0) (\<lambda>_. None) shard ?st = Inr st1 \<and> store_rows st1 = store_rows shard"
    by (cases "merge_shard (\<lambda>_. 0) (\<lambda>_. None) shard ?st") simp_all
  with load show ?thesis by blast
qed

end
