(* ===== verification/StoreQueries.thy ===== *)
theory StoreQueries
  imports StoreShards
begin

text \<open>
  Queries and maintenance of the resident store: lookups of contracts and NFTs, the postings after
  a rebuild, removing the NFTs of seed contracts, and the totals that survive the release of the
  identity layer.
\<close>

section \<open>Lookups\<close>

lemma contract_id_iff:
  assumes st: "store_ok hash st"
  shows "contract_id hash st chain address = Some c \<longleftrightarrow> c < length (rs_contracts st) \<and> name_text st c = (chain, address)"
proof -
  let ?strings = "sp_strings (rs_strings st)" and ?names = "contract_names (rs_contracts st)"
  have look: "map_of (rs_chain_ids st) = index_in (rs_chains st)" "lookup hash (rs_strings st) s = index_in ?strings s"
    "a < length ?strings \<Longrightarrow> map_of (rs_contract_index st) (ch, a) = index_in ?names (ch, ?strings ! a)" for s ch a
    using st pool.lookup_position by (auto simp: store_ok_def chains_ok_def contracts_ok_def)
  show ?thesis
  proof
    assume "contract_id hash st chain address = Some c"
    then obtain ch a where "index_in (rs_chains st) chain = Some ch" "index_in ?strings address = Some a"
      "map_of (rs_contract_index st) (ch, a) = Some c"
      by (auto simp: contract_id_def look bind_eq_Some_conv)
    then have "rs_chains st ! ch = chain" "index_in ?names (ch, address) = Some c"
      using look(3) [of a ch] by (auto dest!: index_in_SomeD [of "rs_chains st"] index_in_SomeD [of ?strings])
    then show "c < length (rs_contracts st) \<and> name_text st c = (chain, address)"
      using index_in_SomeD [of ?names "(ch, address)" c] by (simp add: name_text_def)
  next
    assume r: "c < length (rs_contracts st) \<and> name_text st c = (chain, address)"
    obtain ch where n: "?names ! c = (ch, address)" "rs_chains st ! ch = chain"
      using r by (auto simp: name_text_def split: prod.splits)
    have ch: "ch < length (rs_chains st)" using store_okD(4) [OF st, of c] r n by simp
    have "(ch, address) \<in> set ?names" using r n nth_mem [of c ?names] by simp
    then have "address \<in> set ?strings" using st by (fastforce simp: store_ok_def contracts_ok_def)
    then obtain a where a: "a < length ?strings" "?strings ! a = address" by (auto simp: in_set_conv_nth)
    have "index_in (rs_chains st) chain = Some ch" "index_in ?strings address = Some a" "index_in ?names (ch, address) = Some c"
      using index_in_nth [OF store_okD(1) [OF st] ch] index_in_nth [OF store_okD(3) [OF st] a(1)]
        index_in_nth [OF store_okD(2) [OF st], of c] r n a by simp_all
    then show "contract_id hash st chain address = Some c" using look(3) [OF a(1), of ch] a by (simp add: contract_id_def look)
  qed
qed

section \<open>Postings\<close>

lemma contract_pairs_filter:
  assumes "length nfts < 2 ^ 32"
  shows "filter (\<lambda>p. fst p = c) (contract_nft_pairs nfts) = map (Pair c) (filter (\<lambda>i. nf_contract_id (nfts ! i) = c) [0..<length nfts])"
proof -
  have "contract_nft_pairs nfts = map (\<lambda>i. (nf_contract_id (nfts ! i), i)) [0..<length nfts]"
    using assms by (intro nth_equalityI) (simp_all add: contract_nft_pairs_def u32_small)
  then show ?thesis by (auto simp: filter_map comp_def)
qed

lemma nfts_for_contract_eq:
  assumes "length (rs_nfts st) < 2 ^ 32" "rs_contract_nft_csr st = build_contract_nft_csr (rs_nfts st)"
  shows "nfts_for_contract st c = filter (\<lambda>i. nf_contract_id (rs_nfts st ! i) = c) [0..<length (rs_nfts st)]"
proof -
  let ?pairs = "contract_nft_pairs (rs_nfts st)" and ?ids = "filter (\<lambda>i. nf_contract_id (rs_nfts st ! i) = c) [0..<length (rs_nfts st)]"
  have sorted: "sorted (map fst (sort ?pairs))" unfolding sorted_map
    by (rule sorted_wrt_mono_rel [of _ "(\<le>)"]) (auto simp: less_eq_prod_def)
  have "sorted (map (Pair c) ?ids)" by (auto simp: sorted_map less_eq_prod_def sorted_wrt_filter)
  then have "filter (\<lambda>p. fst p = c) (sort ?pairs) = map (Pair c) ?ids"
    unfolding filter_sort contract_pairs_filter [OF assms(1)] by (rule sorted_sort_id)
  moreover have "length (sort ?pairs) < 2 ^ 32" using assms(1) by (simp add: contract_nft_pairs_def)
  ultimately show ?thesis
    using csr.values_list [OF sorted, of c] assms(2) by (simp add: nfts_for_contract_def build_contract_nft_csr_def comp_def)
qed

section \<open>Removing the NFTs of seed contracts\<close>

lemma reindex_nfts_ok:
  assumes "nfts_ok (length (rs_contracts st)) m (take k nfts) (rs_nft_index st)"
    and "counts_ok (rs_contracts st) (take k nfts) (rs_totals st) k"
    and nfts: "distinct (nft_keys nfts)" "length nfts \<le> 2 ^ 32"
      "\<forall>nft \<in> set nfts. nf_contract_id nft < length (rs_contracts st) \<and> ids_below m nft"
    and "k \<le> length nfts"
  shows "\<exists>ix cs ts. reindex_nfts (drop k (enumerated nfts)) st = Inr (st\<lparr>rs_nft_index := ix, rs_contracts := cs, rs_totals := ts\<rparr>) \<and>
      nfts_ok (length cs) m nfts ix \<and> counts_ok cs nfts ts (length nfts) \<and>
      contract_names cs = contract_names (rs_contracts st)"
  using assms(1,2) nfts(3) assms(6)
proof (induction "length nfts - k" arbitrary: k st)
  case 0
  then have "k = length nfts" by simp
  with 0 show ?case
    by (intro exI [of _ "rs_nft_index st"] exI [of _ "rs_contracts st"] exI [of _ "rs_totals st"]) simp
next
  case (Suc d)
  then have k: "k < length nfts" by simp
  let ?nft = "nfts ! k" and ?cs = "rs_contracts st"
  let ?i = "nf_contract_id ?nft"
  let ?cs' = "?cs[?i := (?cs ! ?i)\<lparr>ct_nft_count := ct_nft_count (?cs ! ?i) + 1\<rparr>]"
  let ?st = "st\<lparr>rs_nft_index := ah_insert (?i, nf_token_id_id ?nft) k (rs_nft_index st), rs_contracts := ?cs',
     rs_totals := count_nft (ct_chain_id (?cs ! ?i)) (rs_totals st)\<rparr>"
  have i: "?i < length ?cs" "ids_below m ?nft" using Suc.prems(3) k by simp_all
  have take: "take (Suc k) nfts = take k nfts @ [?nft]" using k by (simp add: take_Suc_conv_app_nth)
  have "distinct (nft_keys (take (Suc k) nfts))" using nfts(1) by (simp add: nft_keys_def take_map [symmetric])
  then have new: "(?i, nf_token_id_id ?nft) \<notin> set (nft_keys (take k nfts))" by (simp add: take nft_keys_def)
  have range: "\<forall>nft \<in> set (take k nfts). nf_contract_id nft < length ?cs" using Suc.prems(3) by (auto dest: in_set_takeD)
  have names: "contract_names ?cs' = contract_names ?cs" using i by (simp add: contract_names_update)
  have "drop k (enumerated nfts) = (k, ?nft) # drop (Suc k) (enumerated nfts)"
    using Cons_nth_drop_Suc [of k "enumerated nfts"] k by simp
  moreover have "u32 k = k" using k nfts(2) by (intro u32_small) linarith
  ultimately have "reindex_nfts (drop k (enumerated nfts)) st = reindex_nfts (drop (Suc k) (enumerated nfts)) ?st"
    using i(1) by (simp add: bump_nft_count_def or_panic_def)
  moreover have "nfts_ok (length ?cs') m (take (Suc k) nfts) (rs_nft_index ?st)"
    using nfts_ok_snoc [OF Suc.prems(1) i new] k by (simp add: take)
  moreover have "counts_ok (rs_contracts ?st) (take (Suc k) nfts) (rs_totals ?st) (Suc k)"
    using counts_ok_new_nft [OF Suc.prems(2) range refl i(1) refl] by (simp add: take)
  ultimately show ?case using Suc.hyps(1) [of "Suc k" ?st] Suc.hyps(2) Suc.prems(3) k names by auto
qed

lemma reset_counts_ok:
  assumes "counts_ok contracts nfts totals n"
  shows "counts_ok (map (\<lambda>c. c\<lparr>ct_nft_count := 0\<rparr>) contracts) [] (map (\<lambda>(k, t). (k, t\<lparr>to_nfts := 0\<rparr>)) totals) 0"
proof -
  have look: "map_of (map (\<lambda>(k, t). (k, t\<lparr>to_nfts := 0\<rparr>)) totals) chain = map_option (\<lambda>t. t\<lparr>to_nfts := 0\<rparr>) (map_of totals chain)" for chain
    by (simp add: map_of_map)
  have "unwrap_or zero_totals (map_of (map (\<lambda>(k, t). (k, t\<lparr>to_nfts := 0\<rparr>)) totals) chain) =
      (unwrap_or zero_totals (map_of totals chain))\<lparr>to_nfts := 0\<rparr>" for chain
    unfolding look by (cases "map_of totals chain") (simp_all add: zero_totals_def)
  moreover have "length (filter (\<lambda>c. ct_chain_id c = chain) (map (\<lambda>c. c\<lparr>ct_nft_count := 0\<rparr>) contracts)) =
      length (filter (\<lambda>c. ct_chain_id c = chain) contracts)" for chain
    by (simp add: filter_map comp_def)
  moreover have "ah_distinct (map (\<lambda>(k, t). (k, t\<lparr>to_nfts := 0\<rparr>)) totals) = ah_distinct totals"
    unfolding ah_distinct_def by (simp add: comp_def case_prod_unfold)
  ultimately show ?thesis
    using assms by (simp add: counts_ok_def chain_counts_def contract_nfts_def)
qed

lemma rebuild_after_filter:
  assumes st: "store_ok hash st" and sub: "nfts = filter P (rs_nfts st)" and len: "length (rs_nfts st) \<le> 2 ^ 32"
  shows "\<exists>st'. rebuild_nft_identity_after_filter (st\<lparr>rs_nfts := nfts\<rparr>) = Inr st' \<and> store_ok hash st' \<and>
     frame st st' \<and> rs_nfts st' = nfts \<and> rs_contract_nft_csr st' = build_contract_nft_csr nfts"
proof -
  let ?st = "reset_nft_counts (st\<lparr>rs_nfts := nfts\<rparr>)" and ?m = "length (sp_strings (rs_strings st))"
  have reset: "contract_names (rs_contracts ?st) = contract_names (rs_contracts st)" "length (rs_contracts ?st) = length (rs_contracts st)"
    by (simp_all add: reset_nft_counts_def contract_names_def)
  have zero: "counts_ok (rs_contracts ?st) [] (rs_totals ?st) 0"
    using reset_counts_ok st unfolding store_ok_def reset_nft_counts_def by fastforce
  have none: "nfts_ok (length (rs_contracts ?st)) ?m [] (rs_nft_index ?st)"
    by (simp add: nfts_ok_def nft_keys_def reset_nft_counts_def index_in_def fun_eq_iff)
  have in_st: "nft \<in> set (rs_nfts st)" if "nft \<in> set nfts" for nft using that by (simp add: sub)
  have keys: "distinct (nft_keys nfts)"
    using store_okD(8) [OF st] distinct_map_filter [of _ "rs_nfts st"] by (auto simp: nft_keys_def sub)
  have short: "length nfts \<le> 2 ^ 32" using le_trans [OF length_filter_le len] by (simp only: sub)
  have range: "\<forall>nft \<in> set nfts. nf_contract_id nft < length (rs_contracts ?st) \<and> ids_below ?m nft"
    using store_okD(5,6) [OF st] in_st by (simp add: reset)
  obtain ix cs ts where r: "reindex_nfts (enumerated nfts) ?st = Inr (?st\<lparr>rs_nft_index := ix, rs_contracts := cs, rs_totals := ts\<rparr>)"
    "nfts_ok (length cs) ?m nfts ix" "counts_ok cs nfts ts (length nfts)" "contract_names cs = contract_names (rs_contracts ?st)"
    using reindex_nfts_ok [of ?st ?m 0 nfts] none zero keys short range by auto
  have "length cs = length (rs_contracts st)" using r(4) reset by (metis length_contract_names)
  then show ?thesis
    using st r reset
    by (simp add: rebuild_nft_identity_after_filter_def reset_nft_counts_def rebuild_contract_nft_csr_def store_ok_def frame_def)
qed

definition row_contract :: "row \<Rightarrow> string \<times> string" where
  "row_contract r = (fst (fst r), fst (snd (fst r)))"

lemma nft_row_contract: "row_contract (nft_row st nft) = name_text st (nf_contract_id nft)"
  by (simp add: row_contract_def nft_row_def key_text_name)

text \<open>C22. Removing seed contracts: the operation returns, keeps the store well-formed with all its
  counters and indexes, keeps every contract id, and leaves exactly the rows whose contract is not
  one of the named seeds.\<close>

theorem remove_seed_contract_nfts_spec:
  assumes st: "store_ok hash st" and len: "length (rs_nfts st) \<le> 2 ^ 32"
  shows "\<exists>st'. remove_seed_contract_nfts hash seeds st = Inr st' \<and> store_ok hash st' \<and>
     (\<forall>chain address. contract_id hash st' chain address = contract_id hash st chain address) \<and>
     store_rows st' = filter (\<lambda>r. row_contract r \<notin> set seeds) (store_rows st)"
proof -
  let ?removed = "List.map_filter (\<lambda>(chain, address). contract_id hash st chain address) seeds"
  have removed: "nf_contract_id nft \<in> set ?removed \<longleftrightarrow> name_text st (nf_contract_id nft) \<in> set seeds" if "nft \<in> set (rs_nfts st)" for nft
  proof -
    have "c \<in> set ?removed \<longleftrightarrow> (\<exists>s \<in> set seeds. contract_id hash st (fst s) (snd s) = Some c)" for c
      by (induction seeds) (auto simp: map_filter_simps split: option.splits)
    then show ?thesis using store_okD(5) [OF st that] contract_id_iff [OF st] by (metis prod.collapse)
  qed
  have keep: "row_contract (nft_row st nft) \<notin> set seeds \<longleftrightarrow> nf_contract_id nft \<notin> set ?removed"
    if "nft \<in> set (rs_nfts st)" for nft
    using removed [OF that] by (simp add: nft_row_contract)
  then have rows_kept: "filter (\<lambda>r. row_contract r \<notin> set seeds) (store_rows st) =
      map (nft_row st) (filter (\<lambda>nft. nf_contract_id nft \<notin> set ?removed) (rs_nfts st))"
    unfolding store_rows_def filter_map comp_def by (intro arg_cong [of _ _ "map (nft_row st)"] filter_cong refl)
  show ?thesis
  proof (cases "?removed = []")
    case True
    then show ?thesis using st rows_kept by (simp add: remove_seed_contract_nfts_def store_rows_def)
  next
    case False
    obtain st' where st': "rebuild_nft_identity_after_filter (st\<lparr>rs_nfts := filter (\<lambda>nft. nf_contract_id nft \<notin> set ?removed) (rs_nfts st)\<rparr>) = Inr st'"
      "store_ok hash st'" "frame st st'" "rs_nfts st' = filter (\<lambda>nft. nf_contract_id nft \<notin> set ?removed) (rs_nfts st)"
      using rebuild_after_filter [OF st refl len] by blast
    have "name_text st' = name_text st" "length (rs_contracts st') = length (rs_contracts st)"
      using st'(3) by (simp_all add: frame_def name_text_def fun_eq_iff) (metis length_contract_names)
    then have "contract_id hash st' chain address = contract_id hash st chain address" for chain address
      using contract_id_iff [OF st] contract_id_iff [OF st'(2)] by (metis option.exhaust)
    moreover have "store_rows st' = map (nft_row st) (rs_nfts st')" using frame_texts(5) [OF st'(3)] by (simp add: store_rows_def)
    ultimately show ?thesis using False st' rows_kept by (simp add: remove_seed_contract_nfts_def)
  qed
qed

theorem remove_seed_contract_nfts_spec_witness:
  "\<exists>st st'. ingest_identity_row (\<lambda>_. 0) (example_row ''u'') (with_options () None []) = Inr st \<and>
     remove_seed_contract_nfts (\<lambda>_. 0) [(''eth'', ''a'')] st = Inr st' \<and> store_rows st' = []"
proof -
  obtain st where st: "ingest_identity_row (\<lambda>_. 0) (example_row ''u'') (with_options () None []) = Inr st"
    "store_ok (\<lambda>_. 0) st" "store_rows st = [((''eth'', ''a'', ''1''), (None, Some ''u'', None))]"
    "length (sp_strings (rs_strings st)) = 3" "length (rs_chains st) = 1" "length (rs_contracts st) = 1" "length (rs_nfts st) = 1"
    by (rule example_store)
  obtain st' where "remove_seed_contract_nfts (\<lambda>_. 0) [(''eth'', ''a'')] st = Inr st'" "store_rows st' = []"
    using remove_seed_contract_nfts_spec [OF st(2), of "[(''eth'', ''a'')]"] st(3,7) by (auto simp: row_contract_def)
  with st(1) show ?thesis by blast
qed

section \<open>Totals\<close>

lemma sum_counts:
  assumes "distinct ks" "\<forall>x \<in> set xs. f x \<in> set ks"
  shows "sum_list (map (\<lambda>k. length (filter (\<lambda>x. f x = k) xs)) ks) = length xs"
  using assms(2)
proof (induction xs)
  case (Cons x xs)
  have "sum_list (map (\<lambda>k. if f x = k then 1 else 0) ks) = (1 :: nat)"
    using assms(1) Cons.prems by (simp add: sum_list_distinct_conv_sum_set)
  moreover have "sum_list (map (\<lambda>k. length (filter (\<lambda>y. f y = k) (x # xs))) ks) =
      sum_list (map (\<lambda>k. (if f x = k then 1 else 0) + length (filter (\<lambda>y. f y = k) xs)) ks)"
    by (intro arg_cong [of _ _ sum_list] map_cong) simp_all
  ultimately show ?case using Cons unfolding sum_list_addf by simp
qed simp

text \<open>The totals of a loaded store add up to its contracts and NFTs, and they survive the release
  of the identity layer, which keeps ids, chains and addresses of contracts.\<close>

theorem snapshot_totals:
  assumes st: "store_ok hash st"
  shows "snapshot_nft_count st = length (rs_nfts st) \<and> snapshot_contract_count st = length (rs_contracts st) \<and>
    snapshot_nft_count (shrink_identity_for_analysis no_index st) = length (rs_nfts st) \<and>
    map (\<lambda>c. (ct_id c, ct_chain_id c, ct_address c)) (rs_contracts (shrink_identity_for_analysis no_index st)) =
      map (\<lambda>c. (ct_id c, ct_chain_id c, ct_address c)) (rs_contracts st)"
proof -
  let ?cs = "rs_contracts st" and ?ks = "map fst (rs_totals st)"
  have dist: "distinct ?ks" and tot: "unwrap_or zero_totals (map_of (rs_totals st) k) = chain_counts ?cs (rs_nfts st) k" for k
    using st by (simp_all add: store_ok_def counts_ok_def ah_distinct_def)
  have each: "snd e = chain_counts ?cs (rs_nfts st) (fst e)" if "e \<in> set (rs_totals st)" for e
    using that dist tot [of "fst e"] by (simp add: map_of_eq_Some_iff [OF dist, THEN iffD2, of "fst e" "snd e"])
  have covered: "k \<in> set ?ks" if "chain_counts ?cs (rs_nfts st) k \<noteq> zero_totals" for k
    using that tot [of k] by (metis list.set_map map_of_eq_None_iff unwrap_or_simps(1))
  have "\<forall>nft \<in> set (rs_nfts st). nft_chain ?cs nft \<in> set ?ks"
    by (intro ballI covered) (auto simp: chain_counts_def zero_totals_def filter_empty_conv)
  then have nfts: "snapshot_nft_count st = length (rs_nfts st)"
    using sum_counts [OF dist, of "rs_nfts st" "nft_chain ?cs"] each
    by (simp add: snapshot_nft_count_def comp_def chain_counts_def cong: map_cong)
  have "\<forall>c \<in> set ?cs. ct_chain_id c \<in> set ?ks"
    by (intro ballI covered) (auto simp: chain_counts_def zero_totals_def filter_empty_conv)
  then have "snapshot_contract_count st = length ?cs"
    using sum_counts [OF dist, of ?cs ct_chain_id] each
    by (simp add: snapshot_contract_count_def comp_def chain_counts_def cong: map_cong)
  then show ?thesis using nfts
    by (simp add: shrink_identity_for_analysis_def Let_def drop_nft_index_def drop_metadata_index_def clear_metadata_anchors_def
        drop_name_indexes_def drop_uri_indexes_def snapshot_nft_count_def)
qed

end
