(* ===== verification/Hits.thy ===== *)
theory Hits
  imports Prelude F64
begin

text \<open>
  Hit edges and the hit graph (\<open>src/analysis2/crates/core/src/dedup/hits.rs\<close>).

  A hit graph is the vector of the accepted edges.  A hash set of ids is a \<open>set\<close>: the code reads
  its members and its size only, or sorts what it iterates.  The map from a contract to its NFTs is
  only looked up, so it is a partial function.
\<close>

section \<open>Data\<close>

datatype dimension = Name | TokenUri | ImageUri | Metadata

datatype scope_kind = IntraChain | ChainMatrix | CrossChainSummary

record hit_edge =
  he_seed_contract :: nat
  he_candidate_contract :: nat
  he_candidate_nft :: "nat option"
  he_dimension :: dimension
  he_score :: f64
  he_primary_chain :: nat
  he_secondary_chain :: nat

record hit_graph =
  hg_edges :: "hit_edge list"

type_synonym contract_nft_map = "nat \<Rightarrow> nat list option"

section \<open>Operations\<close>

definition hit_graph_new :: hit_graph where
  "hit_graph_new = \<lparr>hg_edges = []\<rparr>"

definition hit_graph_len :: "hit_graph \<Rightarrow> nat" where
  "hit_graph_len g = length (hg_edges g)"

definition hit_graph_is_empty :: "hit_graph \<Rightarrow> bool" where
  "hit_graph_is_empty g \<longleftrightarrow> hg_edges g = []"

definition into_edges :: "hit_graph \<Rightarrow> hit_edge list" where
  "into_edges g = hg_edges g"

definition push_edge :: "hit_edge \<Rightarrow> hit_graph \<Rightarrow> bool \<times> hit_graph" where
  "push_edge edge g =
     (if he_seed_contract edge = he_candidate_contract edge then (False, g)
      else (True, g\<lparr>hg_edges := hg_edges g @ [edge]\<rparr>))"

text \<open>The second graph is left empty.\<close>

definition append_graph :: "hit_graph \<Rightarrow> hit_graph \<Rightarrow> hit_graph \<times> hit_graph" where
  "append_graph other g = (g\<lparr>hg_edges := hg_edges g @ hg_edges other\<rparr>, other\<lparr>hg_edges := []\<rparr>)"

definition edge_in_scope :: "hit_edge \<Rightarrow> scope_kind \<Rightarrow> nat \<Rightarrow> nat option \<Rightarrow> bool" where
  "edge_in_scope edge scope primary_chain matrix_secondary =
     (if he_primary_chain edge \<noteq> primary_chain then False
      else (case scope of
          IntraChain \<Rightarrow> he_secondary_chain edge = primary_chain
        | ChainMatrix \<Rightarrow> is_some_and (\<lambda>sec. he_secondary_chain edge = sec \<and> he_secondary_chain edge \<noteq> primary_chain) matrix_secondary
        | CrossChainSummary \<Rightarrow> he_secondary_chain edge \<noteq> primary_chain))"

definition expand_edge_nfts :: "hit_edge \<Rightarrow> contract_nft_map \<Rightarrow> nat list" where
  "expand_edge_nfts edge contract_nfts =
     (case he_candidate_nft edge of
        Some nft \<Rightarrow> [nft]
      | None \<Rightarrow> unwrap_or [] (contract_nfts (he_candidate_contract edge)))"

text \<open>The insertion of the NFTs of an edge into a set, as the loops over the edges write it.\<close>

definition expand_into :: "contract_nft_map \<Rightarrow> hit_edge \<Rightarrow> nat set \<Rightarrow> nat set" where
  "expand_into contract_nfts edge out =
     (case he_candidate_nft edge of
        Some nft \<Rightarrow> insert nft out
      | None \<Rightarrow> (case contract_nfts (he_candidate_contract edge) of None \<Rightarrow> out | Some nfts \<Rightarrow> out \<union> set nfts))"

definition union_candidate_nfts ::
  "hit_graph \<Rightarrow> nat \<Rightarrow> scope_kind \<Rightarrow> nat \<Rightarrow> nat option \<Rightarrow> contract_nft_map \<Rightarrow> nat set" where
  "union_candidate_nfts g seed scope primary_chain matrix_secondary contract_nfts =
     fold (\<lambda>edge out.
       if he_seed_contract edge \<noteq> seed then out
       else if \<not> edge_in_scope edge scope primary_chain matrix_secondary then out
       else expand_into contract_nfts edge out) (hg_edges g) {}"

function dimension_candidate_nfts ::
  "hit_graph \<Rightarrow> nat \<Rightarrow> dimension \<Rightarrow> scope_kind \<Rightarrow> nat \<Rightarrow> nat option \<Rightarrow> contract_nft_map \<Rightarrow> nat set" where
  "dimension_candidate_nfts g seed dimension scope primary_chain matrix_secondary contract_nfts =
     (let out = fold (\<lambda>edge out.
            if he_seed_contract edge \<noteq> seed then out
            else if he_dimension edge \<noteq> dimension then out
            else if \<not> edge_in_scope edge scope primary_chain matrix_secondary then out
            else expand_into contract_nfts edge out) (hg_edges g) {}
      in if dimension = ImageUri
         then let token_uri = dimension_candidate_nfts g seed TokenUri scope primary_chain matrix_secondary contract_nfts
           in {nft \<in> out. nft \<notin> token_uri}
         else out)"
  by pat_completeness auto
termination
  by (relation "measure (\<lambda>(_, _, dimension, _). if dimension = ImageUri then 1 else 0)") auto

declare dimension_candidate_nfts.simps [simp del]

section \<open>What the sets hold\<close>

definition edge_nfts :: "contract_nft_map \<Rightarrow> hit_edge \<Rightarrow> nat set" where
  "edge_nfts contract_nfts edge = set (expand_edge_nfts edge contract_nfts)"

lemma expand_into_eq [simp]: "expand_into contract_nfts edge out = out \<union> edge_nfts contract_nfts edge"
  by (auto simp: expand_into_def edge_nfts_def expand_edge_nfts_def split: option.splits)

lemma finite_edge_nfts [simp]: "finite (edge_nfts contract_nfts edge)"
  by (simp add: edge_nfts_def)

lemma fold_collect:
  "fold (\<lambda>x out. if P x then out \<union> f x else out) xs A = A \<union> (\<Union>x \<in> {x \<in> set xs. P x}. f x)"
  by (induction xs arbitrary: A) auto

text \<open>The edges of a seed in a scope, and those of one dimension.\<close>

definition scoped :: "nat \<Rightarrow> scope_kind \<Rightarrow> nat \<Rightarrow> nat option \<Rightarrow> hit_edge \<Rightarrow> bool" where
  "scoped seed scope primary secondary edge \<longleftrightarrow>
     he_seed_contract edge = seed \<and> edge_in_scope edge scope primary secondary"

definition nfts_where :: "contract_nft_map \<Rightarrow> (hit_edge \<Rightarrow> bool) \<Rightarrow> hit_edge list \<Rightarrow> nat set" where
  "nfts_where contract_nfts P edges = (\<Union>edge \<in> {edge \<in> set edges. P edge}. edge_nfts contract_nfts edge)"

lemma finite_nfts_where [simp]: "finite (nfts_where contract_nfts P edges)"
  by (simp add: nfts_where_def)

lemma union_candidate_nfts_eq:
  "union_candidate_nfts g seed scope primary secondary cn = nfts_where cn (scoped seed scope primary secondary) (hg_edges g)"
proof -
  have "union_candidate_nfts g seed scope primary secondary cn =
      fold (\<lambda>edge out. if scoped seed scope primary secondary edge then out \<union> edge_nfts cn edge else out) (hg_edges g) {}"
    unfolding union_candidate_nfts_def by (intro fold_cong) (simp_all add: scoped_def fun_eq_iff)
  then show ?thesis by (simp add: fold_collect nfts_where_def)
qed

lemma dimension_scan_eq:
  "fold (\<lambda>edge out.
      if he_seed_contract edge \<noteq> seed then out
      else if he_dimension edge \<noteq> d then out
      else if \<not> edge_in_scope edge scope primary secondary then out
      else expand_into cn edge out) edges {} =
   nfts_where cn (\<lambda>edge. he_dimension edge = d \<and> scoped seed scope primary secondary edge) edges"
proof -
  have "fold (\<lambda>edge out.
      if he_seed_contract edge \<noteq> seed then out
      else if he_dimension edge \<noteq> d then out
      else if \<not> edge_in_scope edge scope primary secondary then out
      else expand_into cn edge out) edges {} =
    fold (\<lambda>edge out. if he_dimension edge = d \<and> scoped seed scope primary secondary edge
      then out \<union> edge_nfts cn edge else out) edges {}"
    by (intro fold_cong) (simp_all add: scoped_def fun_eq_iff)
  then show ?thesis by (simp add: fold_collect nfts_where_def)
qed

lemma dimension_candidate_nfts_eq:
  "dimension_candidate_nfts g seed d scope primary secondary cn =
     nfts_where cn (\<lambda>edge. he_dimension edge = d \<and> scoped seed scope primary secondary edge) (hg_edges g) -
     (if d = ImageUri
      then nfts_where cn (\<lambda>edge. he_dimension edge = TokenUri \<and> scoped seed scope primary secondary edge) (hg_edges g)
      else {})"
proof -
  have token: "dimension_candidate_nfts g seed TokenUri scope primary secondary cn =
      nfts_where cn (\<lambda>edge. he_dimension edge = TokenUri \<and> scoped seed scope primary secondary edge) (hg_edges g)"
    by (subst dimension_candidate_nfts.simps) (simp add: Let_def dimension_scan_eq del: expand_into_eq)
  show ?thesis
    by (subst dimension_candidate_nfts.simps)
      (auto simp: Let_def dimension_scan_eq token simp del: expand_into_eq)
qed

lemma nfts_where_split:
  "nfts_where cn P edges = (\<Union>d. nfts_where cn (\<lambda>edge. he_dimension edge = d \<and> P edge) edges)"
  by (auto simp: nfts_where_def)

lemma all_dimensions: "(\<Union>d. f d) = f Name \<union> f TokenUri \<union> f ImageUri \<union> f Metadata"
proof -
  have univ: "UNIV = {Name, TokenUri, ImageUri, Metadata}" by (auto intro: dimension.exhaust)
  show ?thesis unfolding univ by auto
qed

text \<open>Counting by dimension loses nothing and counts no NFT of a URI twice: the four sets of a
  seed and a scope cover exactly its union, and those of the token URI and of the image URI are
  disjoint, so together they count the NFTs with a URI hit.\<close>

theorem dimension_nfts_cover:
  "union_candidate_nfts g seed scope primary secondary cn =
     (\<Union>d. dimension_candidate_nfts g seed d scope primary secondary cn) \<and>
   dimension_candidate_nfts g seed TokenUri scope primary secondary cn \<inter>
     dimension_candidate_nfts g seed ImageUri scope primary secondary cn = {} \<and>
   card (dimension_candidate_nfts g seed TokenUri scope primary secondary cn) +
     card (dimension_candidate_nfts g seed ImageUri scope primary secondary cn) =
   card (nfts_where cn (\<lambda>edge. he_dimension edge \<in> {TokenUri, ImageUri} \<and> scoped seed scope primary secondary edge) (hg_edges g))"
proof (intro conjI)
  let ?d = "\<lambda>d. dimension_candidate_nfts g seed d scope primary secondary cn"
  show "union_candidate_nfts g seed scope primary secondary cn = (\<Union>d. ?d d)"
    unfolding union_candidate_nfts_eq by (subst nfts_where_split) (auto simp: all_dimensions dimension_candidate_nfts_eq)
  show disjoint: "?d TokenUri \<inter> ?d ImageUri = {}"
    by (auto simp: dimension_candidate_nfts_eq)
  have "?d TokenUri \<union> ?d ImageUri =
      nfts_where cn (\<lambda>edge. he_dimension edge \<in> {TokenUri, ImageUri} \<and> scoped seed scope primary secondary edge) (hg_edges g)"
    by (auto simp: dimension_candidate_nfts_eq nfts_where_def)
  moreover have "card (?d TokenUri \<union> ?d ImageUri) = card (?d TokenUri) + card (?d ImageUri)"
    using disjoint by (intro card_Un_disjoint) (simp_all add: dimension_candidate_nfts_eq)
  ultimately show "card (?d TokenUri) + card (?d ImageUri) = card (nfts_where cn
      (\<lambda>edge. he_dimension edge \<in> {TokenUri, ImageUri} \<and> scoped seed scope primary secondary edge) (hg_edges g))"
    by simp
qed

end
