(* ===== verification/Registry.thy ===== *)
theory Registry
  imports Hits
begin

text \<open>
  The candidate registry derived from hit graphs
  (\<open>src/analysis2/crates/core/src/dedup/candidates.rs\<close>): one relation for every pair of a seed
  and a candidate contract, with the dimensions of its edges and the NFTs they hit.

  The hash maps of the construction are association lists; the code sorts whatever it iterates.  The
  keys of \<open>pair_dims\<close> are visited once each, so reading an entry stands for \<open>remove\<close>.  The shared
  \<open>Arc\<close> of the NFTs of a whole contract is the cache \<open>whole_contract_nfts\<close>.
\<close>

section \<open>Data\<close>

definition dimension_ord :: "dimension \<Rightarrow> nat" where
  "dimension_ord d = (case d of Name \<Rightarrow> 0 | TokenUri \<Rightarrow> 1 | ImageUri \<Rightarrow> 2 | Metadata \<Rightarrow> 3)"

instantiation dimension :: linorder
begin

definition less_eq_dimension :: "dimension \<Rightarrow> dimension \<Rightarrow> bool" where
  "less_eq_dimension a b \<longleftrightarrow> dimension_ord a \<le> dimension_ord b"

definition less_dimension :: "dimension \<Rightarrow> dimension \<Rightarrow> bool" where
  "less_dimension a b \<longleftrightarrow> dimension_ord a < dimension_ord b"

instance
  by standard (auto simp: less_eq_dimension_def less_dimension_def dimension_ord_def split: dimension.splits)

end

record seed_candidate_relation =
  sc_seed_contract :: nat
  sc_candidate_contract :: nat
  sc_dimensions :: "dimension list"
  sc_nft_ids :: "nat list"

datatype pending_nfts = Explicit | ExplicitSet "nat set" | WholeContract

record candidate_registry =
  cr_candidate_contracts :: "nat list"
  cr_relations :: "seed_candidate_relation list"
  cr_relations_by_seed :: "(nat \<times> nat list) list"

definition registry_default :: candidate_registry where
  "registry_default = \<lparr>cr_candidate_contracts = [], cr_relations = [], cr_relations_by_seed = []\<rparr>"

section \<open>Construction\<close>

definition insert_explicit :: "nat \<Rightarrow> pending_nfts \<Rightarrow> pending_nfts" where
  "insert_explicit nft pending =
     (case pending of
        Explicit \<Rightarrow> ExplicitSet {nft}
      | ExplicitSet nfts \<Rightarrow> ExplicitSet (insert nft nfts)
      | WholeContract \<Rightarrow> WholeContract)"

record pair_state =
  ps_pair_dims :: "((nat \<times> nat) \<times> dimension set) list"
  ps_pair_nfts :: "((nat \<times> nat) \<times> pending_nfts) list"
  ps_candidates :: "nat set"

definition absorb_edge :: "hit_edge \<Rightarrow> pair_state \<Rightarrow> pair_state" where
  "absorb_edge edge st =
     (let key = (he_seed_contract edge, he_candidate_contract edge)
      in \<lparr>ps_pair_dims = entry_update ah_insert key {} (insert (he_dimension edge)) (ps_pair_dims st),
          ps_pair_nfts =
            (case he_candidate_nft edge of
               Some nft \<Rightarrow> entry_update ah_insert key Explicit (insert_explicit nft) (ps_pair_nfts st)
             | None \<Rightarrow> ah_insert key WholeContract (ps_pair_nfts st)),
          ps_candidates = insert (he_candidate_contract edge) (ps_candidates st)\<rparr>)"

definition whole_nfts ::
  "contract_nft_map \<Rightarrow> nat \<Rightarrow> (nat \<times> nat list) list \<Rightarrow> nat list \<times> (nat \<times> nat list) list" where
  "whole_nfts contract_nfts candidate cache =
     (case map_of cache candidate of
        Some ids \<Rightarrow> (ids, cache)
      | None \<Rightarrow> let ids = sort (unwrap_or [] (contract_nfts candidate)) in (ids, ah_insert candidate ids cache))"

record relation_state =
  rl_relations :: "seed_candidate_relation list"
  rl_by_seed :: "(nat \<times> nat list) list"
  rl_whole :: "(nat \<times> nat list) list"

definition push_relation :: "contract_nft_map \<Rightarrow> pair_state \<Rightarrow> nat \<times> nat \<Rightarrow> relation_state \<Rightarrow> relation_state" where
  "push_relation contract_nfts pairs key st =
     (let (seed, candidate) = key;
          dimensions = sorted_list_of_set (unwrap_or {} (map_of (ps_pair_dims pairs) key));
          (nft_ids, whole) =
            (case unwrap_or Explicit (map_of (ps_pair_nfts pairs) key) of
               WholeContract \<Rightarrow> whole_nfts contract_nfts candidate (rl_whole st)
             | ExplicitSet nfts \<Rightarrow> (sorted_list_of_set nfts, rl_whole st)
             | Explicit \<Rightarrow> ([], rl_whole st))
      in \<lparr>rl_relations = rl_relations st @ [\<lparr>sc_seed_contract = seed, sc_candidate_contract = candidate,
             sc_dimensions = dimensions, sc_nft_ids = nft_ids\<rparr>],
          rl_by_seed = entry_update ah_insert seed [] (\<lambda>is. is @ [length (rl_relations st)]) (rl_by_seed st),
          rl_whole = whole\<rparr>)"

definition from_hit_graphs :: "hit_graph list \<Rightarrow> contract_nft_map \<Rightarrow> candidate_registry" where
  "from_hit_graphs graphs contract_nfts =
     (let pairs = fold (\<lambda>graph. fold absorb_edge (hg_edges graph)) graphs
            \<lparr>ps_pair_dims = [], ps_pair_nfts = [], ps_candidates = {}\<rparr>;
          keys = sort (map fst (ps_pair_dims pairs));
          st = fold (push_relation contract_nfts pairs) keys \<lparr>rl_relations = [], rl_by_seed = [], rl_whole = []\<rparr>
      in \<lparr>cr_candidate_contracts = sorted_list_of_set (ps_candidates pairs),
          cr_relations = rl_relations st, cr_relations_by_seed = rl_by_seed st\<rparr>)"

definition from_hit_graph :: "hit_graph \<Rightarrow> contract_nft_map \<Rightarrow> candidate_registry" where
  "from_hit_graph graph contract_nfts = from_hit_graphs [graph] contract_nfts"

section \<open>Queries\<close>

definition relations_for_seed :: "nat \<Rightarrow> candidate_registry \<Rightarrow> seed_candidate_relation list" where
  "relations_for_seed seed r =
     List.map_filter (idx (cr_relations r)) (unwrap_or [] (map_of (cr_relations_by_seed r) seed))"

definition candidate_contract_count :: "candidate_registry \<Rightarrow> nat" where
  "candidate_contract_count r = length (cr_candidate_contracts r)"

definition keep_relation ::
  "nat set \<Rightarrow> seed_candidate_relation \<Rightarrow> seed_candidate_relation list \<times> (nat \<times> nat list) list \<Rightarrow>
   seed_candidate_relation list \<times> (nat \<times> nat list) list" where
  "keep_relation keep rel st =
     (if sc_candidate_contract rel \<notin> keep then st
      else (fst st @ [rel], entry_update ah_insert (sc_seed_contract rel) [] (\<lambda>is. is @ [length (fst st)]) (snd st)))"

definition filter_candidates :: "nat set \<Rightarrow> candidate_registry \<Rightarrow> candidate_registry" where
  "filter_candidates keep r =
     (if keep = {} then registry_default
      else let (relations, by_seed) = fold (keep_relation keep) (cr_relations r) ([], [])
        in \<lparr>cr_candidate_contracts = sort (filter (\<lambda>c. c \<in> keep) (cr_candidate_contracts r)),
            cr_relations = relations, cr_relations_by_seed = by_seed\<rparr>)"

section \<open>The registry as a function of the set of edges\<close>

definition edge_key :: "hit_edge \<Rightarrow> nat \<times> nat" where
  "edge_key edge = (he_seed_contract edge, he_candidate_contract edge)"

definition edges_at :: "hit_edge set \<Rightarrow> nat \<times> nat \<Rightarrow> hit_edge set" where
  "edges_at E k = {edge \<in> E. edge_key edge = k}"

definition hit_nfts :: "hit_edge set \<Rightarrow> nat set" where
  "hit_nfts E = {nft. \<exists>edge \<in> E. he_candidate_nft edge = Some nft}"

definition relation_of :: "contract_nft_map \<Rightarrow> hit_edge set \<Rightarrow> nat \<times> nat \<Rightarrow> seed_candidate_relation" where
  "relation_of contract_nfts E k =
     \<lparr>sc_seed_contract = fst k, sc_candidate_contract = snd k,
      sc_dimensions = sorted_list_of_set (he_dimension ` edges_at E k),
      sc_nft_ids =
        (if \<exists>edge \<in> edges_at E k. he_candidate_nft edge = None
         then sort (unwrap_or [] (contract_nfts (snd k)))
         else sorted_list_of_set (hit_nfts (edges_at E k)))\<rparr>"

definition seed_positions :: "seed_candidate_relation list \<Rightarrow> (nat \<times> nat list) list" where
  "seed_positions rels =
     fold (\<lambda>(i, rel). entry_update ah_insert (sc_seed_contract rel) [] (\<lambda>is. is @ [i])) (enumerated rels) []"

definition registry_of :: "contract_nft_map \<Rightarrow> hit_edge set \<Rightarrow> candidate_registry" where
  "registry_of contract_nfts E =
     (let relations = map (relation_of contract_nfts E) (sorted_list_of_set (edge_key ` E))
      in \<lparr>cr_candidate_contracts = sorted_list_of_set (he_candidate_contract ` E),
          cr_relations = relations, cr_relations_by_seed = seed_positions relations\<rparr>)"

definition pending_of :: "hit_edge set \<Rightarrow> pending_nfts" where
  "pending_of E = (if \<exists>edge \<in> E. he_candidate_nft edge = None then WholeContract else ExplicitSet (hit_nfts E))"

lemma edges_at_insert: "edges_at (insert e E) k = (if edge_key e = k then insert e (edges_at E k) else edges_at E k)"
  by (auto simp: edges_at_def)

lemma edges_at_empty: "edges_at E k = {} \<longleftrightarrow> k \<notin> edge_key ` E"
  by (auto simp: edges_at_def)

lemma hit_nfts_insert: "hit_nfts (insert e E) = (case he_candidate_nft e of None \<Rightarrow> hit_nfts E | Some nft \<Rightarrow> insert nft (hit_nfts E))"
  by (auto simp: hit_nfts_def split: option.splits)

lemma pending_of_insert:
  "pending_of (insert e E) =
     (case he_candidate_nft e of
        None \<Rightarrow> WholeContract
      | Some nft \<Rightarrow> insert_explicit nft (if E = {} then Explicit else pending_of E))"
  by (auto simp: pending_of_def insert_explicit_def hit_nfts_insert split: option.splits) (simp add: hit_nfts_def)

lemma absorb_edges:
  fixes edges :: "hit_edge list"
  defines "pairs \<equiv> fold absorb_edge edges \<lparr>ps_pair_dims = [], ps_pair_nfts = [], ps_candidates = {}\<rparr>"
  shows "ah_distinct (ps_pair_dims pairs)"
    "fst ` set (ps_pair_dims pairs) = edge_key ` set edges"
    "map_of (ps_pair_dims pairs) k =
       (if k \<in> edge_key ` set edges then Some (he_dimension ` edges_at (set edges) k) else None)"
    "map_of (ps_pair_nfts pairs) k =
       (if k \<in> edge_key ` set edges then Some (pending_of (edges_at (set edges) k)) else None)"
    "ps_candidates pairs = he_candidate_contract ` set edges"
  unfolding pairs_def
proof (induction edges arbitrary: k rule: rev_induct)
  case Nil
  { case 1 show ?case by (simp add: ah_distinct_def) next case 2 show ?case by simp
    next case 3 show ?case by simp next case 4 show ?case by simp next case 5 show ?case by simp }
next
  case (snoc e es)
  note simps = absorb_edge_def Let_def edge_key_def [symmetric] entry_update_def hashm.lookup_ins
  { case 1 show ?case using snoc.IH(1) by (simp add: simps hashm.invar_ins)
    next case 2 show ?case using snoc.IH(2) by (auto simp: simps hashm.keys_ins)
    next case 3 show ?case using snoc.IH(3) edges_at_empty [of "set es" "edge_key e"]
        by (auto simp: simps edges_at_insert)
    next case 4 show ?case using snoc.IH(4) edges_at_empty [of "set es" "edge_key e"]
        by (auto simp: simps edges_at_insert pending_of_insert split: option.splits)
    next case 5 show ?case using snoc.IH(5) by (simp add: simps) }
qed

lemma seed_positions_snoc:
  "seed_positions (rels @ [rel]) =
     entry_update ah_insert (sc_seed_contract rel) [] (\<lambda>is. is @ [length rels]) (seed_positions rels)"
  by (simp add: seed_positions_def enumerated_def zip_append1)

lemma push_relations:
  fixes edges :: "hit_edge list"
  defines "pairs \<equiv> fold absorb_edge edges \<lparr>ps_pair_dims = [], ps_pair_nfts = [], ps_candidates = {}\<rparr>"
  assumes "set keys \<subseteq> edge_key ` set edges"
  shows "let st = fold (push_relation cn pairs) keys \<lparr>rl_relations = [], rl_by_seed = [], rl_whole = []\<rparr>
    in rl_relations st = map (relation_of cn (set edges)) keys \<and>
       rl_by_seed st = seed_positions (map (relation_of cn (set edges)) keys) \<and>
       (\<forall>c ids. map_of (rl_whole st) c = Some ids \<longrightarrow> ids = sort (unwrap_or [] (cn c)))"
  using assms(2)
proof (induction keys rule: rev_induct)
  case Nil
  then show ?case by (simp add: seed_positions_def enumerated_def)
next
  case (snoc k ks)
  let ?start = "\<lparr>rl_relations = [], rl_by_seed = [], rl_whole = []\<rparr>"
  obtain seed c where k: "k = (seed, c)" by (cases k)
  have "k \<in> edge_key ` set edges" using snoc.prems by simp
  then have "map_of (ps_pair_dims pairs) k = Some (he_dimension ` edges_at (set edges) k)"
    "map_of (ps_pair_nfts pairs) k = Some (pending_of (edges_at (set edges) k))"
    by (simp_all add: pairs_def absorb_edges)
  note found = this
  define st where "st = fold (push_relation cn pairs) ks ?start"
  have IH: "rl_relations st = map (relation_of cn (set edges)) ks"
      "rl_by_seed st = seed_positions (map (relation_of cn (set edges)) ks)"
      "map_of (rl_whole st) c' = Some ids \<Longrightarrow> ids = sort (unwrap_or [] (cn c'))" for c' ids
    using snoc by (auto simp: st_def Let_def)
  have step: "fold (push_relation cn pairs) (ks @ [k]) ?start = push_relation cn pairs k st" by (simp add: st_def)
  have seed: "sc_seed_contract (relation_of cn (set edges) k) = seed" by (simp add: relation_of_def k)
  show ?case
  proof (cases "\<exists>edge \<in> edges_at (set edges) k. he_candidate_nft edge = None")
    case True
    then have "pending_of (edges_at (set edges) k) = WholeContract" by (simp add: pending_of_def)
    moreover have "relation_of cn (set edges) k = \<lparr>sc_seed_contract = seed, sc_candidate_contract = c,
        sc_dimensions = sorted_list_of_set (he_dimension ` edges_at (set edges) k), sc_nft_ids = sort (unwrap_or [] (cn c))\<rparr>"
      using True unfolding relation_of_def by (simp add: k)
    ultimately show ?thesis using found IH unfolding step
      by (cases "map_of (rl_whole st) c")
        (auto simp: k push_relation_def whole_nfts_def seed_positions_snoc hashm.lookup_ins Let_def split: if_splits)
  next
    case False
    then have "pending_of (edges_at (set edges) k) = ExplicitSet (hit_nfts (edges_at (set edges) k))" by (auto simp: pending_of_def)
    moreover have "relation_of cn (set edges) k = \<lparr>sc_seed_contract = seed, sc_candidate_contract = c,
        sc_dimensions = sorted_list_of_set (he_dimension ` edges_at (set edges) k),
        sc_nft_ids = sorted_list_of_set (hit_nfts (edges_at (set edges) k))\<rparr>"
      using False unfolding relation_of_def by (auto simp: k)
    ultimately show ?thesis using found IH unfolding step
      by (simp add: k push_relation_def seed_positions_snoc)
  qed
qed

lemma fold_graphs: "fold (\<lambda>graph. fold absorb_edge (hg_edges graph)) graphs st = fold absorb_edge (concat (map hg_edges graphs)) st"
  by (induction graphs arbitrary: st) simp_all

lemma from_hit_graphs_eq: "from_hit_graphs graphs cn = registry_of cn (\<Union>g \<in> set graphs. set (hg_edges g))"
proof -
  let ?edges = "concat (map hg_edges graphs)"
  let ?pairs = "fold absorb_edge ?edges \<lparr>ps_pair_dims = [], ps_pair_nfts = [], ps_candidates = {}\<rparr>"
  let ?keys = "sort (map fst (ps_pair_dims ?pairs))"
  note pairs = absorb_edges [of ?edges]
  have keys: "?keys = sorted_list_of_set (edge_key ` set ?edges)"
    using pairs(1,2) by (metis ah_distinct_def distinct_remdups_id list.set_map sorted_list_of_set_sort_remdups)
  have E: "set ?edges = (\<Union>g \<in> set graphs. set (hg_edges g))" by simp
  have "set ?keys \<subseteq> edge_key ` set ?edges" using pairs(2) by simp
  from push_relations [OF this, of cn]
  show ?thesis by (simp add: from_hit_graphs_def fold_graphs Let_def registry_of_def pairs(5) keys del: set_concat) (simp add: E del: set_concat)
qed

lemma seed_positions_indices:
  "unwrap_or [] (map_of (seed_positions rels) seed) = map fst (filter (\<lambda>(i, rel). sc_seed_contract rel = seed) (enumerated rels))"
proof (induction rels rule: rev_induct)
  case Nil
  then show ?case by (simp add: seed_positions_def enumerated_def)
next
  case (snoc rel rels)
  then show ?case
    by (auto simp: seed_positions_snoc hashm.lookup_entry_update enumerated_def zip_append1)
qed

lemma map_filter_map_fst: "(\<And>i x. (i, x) \<in> set ps \<Longrightarrow> f i = Some x) \<Longrightarrow> List.map_filter f (map fst ps) = map snd ps"
proof (induction ps)
  case (Cons p ps)
  have "f (fst p) = Some (snd p)" by (rule Cons.prems) simp
  moreover have "List.map_filter f (map fst ps) = map snd ps" by (rule Cons.IH) (rule Cons.prems, simp)
  ultimately show ?case by (simp add: List.map_filter_simps)
qed (simp add: List.map_filter_simps)

lemma filter_enumerated: "map snd (filter (\<lambda>(i, x). P x) (enumerated xs)) = filter P xs"
  by (metis (mono_tags, lifting) comp_def filter_cong filter_map map_snd_enumerated case_prod_unfold)

lemma relations_by_position:
  "List.map_filter (idx rels) (unwrap_or [] (map_of (seed_positions rels) seed)) = filter (\<lambda>rel. sc_seed_contract rel = seed) rels"
  by (subst seed_positions_indices, subst map_filter_map_fst)
    (auto simp: in_set_enumerated filter_enumerated)

text \<open>C39. The registry of any number of hit graphs depends on the set of their edges only: its
  candidates are the contracts hit, in order, and it holds one relation for every pair of a seed and a
  candidate, in order, with the dimensions of its edges in the report's order and with all NFTs of the
  candidate if some edge hits the whole contract, the NFTs hit otherwise.  Asking for a seed returns
  its relations, in order.\<close>

theorem registry_refines:
  "from_hit_graphs graphs cn = registry_of cn (\<Union>g \<in> set graphs. set (hg_edges g)) \<and>
   relations_for_seed seed (from_hit_graphs graphs cn) =
     map (relation_of cn (\<Union>g \<in> set graphs. set (hg_edges g)))
       (filter (\<lambda>k. fst k = seed) (sorted_list_of_set (edge_key ` (\<Union>g \<in> set graphs. set (hg_edges g)))))"
proof
  show "from_hit_graphs graphs cn = registry_of cn (\<Union>g \<in> set graphs. set (hg_edges g))" by (rule from_hit_graphs_eq)
  show "relations_for_seed seed (from_hit_graphs graphs cn) =
     map (relation_of cn (\<Union>g \<in> set graphs. set (hg_edges g)))
       (filter (\<lambda>k. fst k = seed) (sorted_list_of_set (edge_key ` (\<Union>g \<in> set graphs. set (hg_edges g)))))"
    by (simp add: from_hit_graphs_eq registry_of_def relations_for_seed_def Let_def relations_by_position filter_map comp_def)
      (simp add: relation_of_def)
qed

section \<open>Restriction to some candidates\<close>

lemma filter_sorted_set: "finite A \<Longrightarrow> filter P (sorted_list_of_set A) = sorted_list_of_set {x \<in> A. P x}"
  by (rule sorted_distinct_set_unique) (auto intro: sorted_filter [of id, simplified])

lemma keep_relations:
  "fold (keep_relation keep) rels ([], []) =
     (let kept = filter (\<lambda>rel. sc_candidate_contract rel \<in> keep) rels in (kept, seed_positions kept))"
proof (induction rels rule: rev_induct)
  case Nil
  then show ?case by (simp add: seed_positions_def enumerated_def)
qed (simp add: keep_relation_def Let_def seed_positions_snoc)

lemma filter_registry:
  assumes "finite E"
  shows "filter_candidates keep (registry_of cn E) = registry_of cn {edge \<in> E. he_candidate_contract edge \<in> keep}"
proof (cases "keep = {}")
  case True
  then show ?thesis
    by (simp add: filter_candidates_def registry_of_def registry_default_def seed_positions_def enumerated_def)
next
  case False
  let ?E = "{edge \<in> E. he_candidate_contract edge \<in> keep}"
  have keys: "filter (\<lambda>k. snd k \<in> keep) (sorted_list_of_set (edge_key ` E)) = sorted_list_of_set (edge_key ` ?E)"
    using assms by (subst filter_sorted_set) (auto simp: edge_key_def intro!: arg_cong [where f = sorted_list_of_set])
  have same: "relation_of cn E k = relation_of cn ?E k" if "snd k \<in> keep" for k
  proof -
    have "edges_at E k = edges_at ?E k" using that by (auto simp: edges_at_def edge_key_def)
    then show ?thesis by (simp only: relation_of_def)
  qed
  have "filter (\<lambda>rel. sc_candidate_contract rel \<in> keep) (map (relation_of cn E) (sorted_list_of_set (edge_key ` E))) =
      map (relation_of cn E) (sorted_list_of_set (edge_key ` ?E))"
    by (simp add: filter_map comp_def keys [symmetric]) (simp add: relation_of_def)
  also have "\<dots> = map (relation_of cn ?E) (sorted_list_of_set (edge_key ` ?E))"
    using assms by (intro map_cong same) (auto simp: edge_key_def)
  finally have relations: "filter (\<lambda>rel. sc_candidate_contract rel \<in> keep) (map (relation_of cn E) (sorted_list_of_set (edge_key ` E))) =
      map (relation_of cn ?E) (sorted_list_of_set (edge_key ` ?E))" .
  have "{c \<in> he_candidate_contract ` E. c \<in> keep} = he_candidate_contract ` ?E" by auto
  then have "sort (filter (\<lambda>c. c \<in> keep) (sorted_list_of_set (he_candidate_contract ` E))) = sorted_list_of_set (he_candidate_contract ` ?E)"
    using assms by (simp add: filter_sorted_set sorted_sort_id)
  with False show ?thesis
    by (simp add: filter_candidates_def registry_of_def keep_relations Let_def relations)
qed

text \<open>Restricting a registry to some candidates, as the evidence cache does, is building it from
  the edges of these candidates alone; in particular the positions by seed are those of the
  restricted relations.\<close>

theorem filter_candidates_commutes:
  "filter_candidates keep (from_hit_graphs graphs cn) =
     from_hit_graphs (map (\<lambda>g. g\<lparr>hg_edges := filter (\<lambda>edge. he_candidate_contract edge \<in> keep) (hg_edges g)\<rparr>) graphs) cn"
proof -
  have "(\<Union>g \<in> set graphs. {edge \<in> set (hg_edges g). he_candidate_contract edge \<in> keep}) =
      {edge \<in> (\<Union>g \<in> set graphs. set (hg_edges g)). he_candidate_contract edge \<in> keep}" by auto
  then show ?thesis by (simp add: from_hit_graphs_eq filter_registry)
qed

end
