(* ===== verification/Fallible.thy ===== *)
theory Fallible
  imports EntityIds
begin

text \<open>
  Loops whose body can fail: \<open>for x in xs { body(x)?; }\<close> over an explicit state, and the collection of
  the results of chunks computed in parallel.
\<close>

fun res_fold :: "('x \<Rightarrow> 's \<Rightarrow> 's result) \<Rightarrow> 'x list \<Rightarrow> 's \<Rightarrow> 's result" where
  "res_fold f [] s = Inr s"
| "res_fold f (x # xs) s = res_bind (f x s) (res_fold f xs)"

lemma res_bind_assoc: "res_bind (res_bind r f) g = res_bind r (\<lambda>x. res_bind (f x) g)"
  by (cases r) simp_all

lemma res_fold_append: "res_fold f (xs @ ys) s = res_bind (res_fold f xs s) (res_fold f ys)"
  by (induction xs arbitrary: s) (auto simp: res_bind_def split: sum.split)

text \<open>A loop whose body never fails is a fold.\<close>

lemma res_fold_total:
  assumes "\<And>x s. x \<in> set xs \<Longrightarrow> I s \<Longrightarrow> f x s = Inr (g x s) \<and> I (g x s)" "I s"
  shows "res_fold f xs s = Inr (fold g xs s) \<and> I (fold g xs s)"
  using assms by (induction xs arbitrary: s) auto

text \<open>\<open>iter().collect::<Result<Vec<_>, _>>()\<close>: the first error in the order of the list.\<close>

fun res_collect :: "'a result list \<Rightarrow> 'a list result" where
  "res_collect [] = Inr []"
| "res_collect (r # rs) = res_bind r (\<lambda>x. res_bind (res_collect rs) (\<lambda>xs. Inr (x # xs)))"

text \<open>Chunks of a parallel loop: a panic in any of them ends the whole loop.\<close>

definition par_collect :: "'a result list \<Rightarrow> 'a list result" where
  "par_collect rs = (if Inl Panic \<in> set rs then Inl Panic else res_collect rs)"

text \<open>\<open>slice::chunks(n)\<close> for a positive \<open>n\<close>.\<close>

function chunks_of :: "nat \<Rightarrow> 'a list \<Rightarrow> 'a list list" where
  "chunks_of n xs = (if n = 0 \<or> xs = [] then [] else take n xs # chunks_of n (drop n xs))"
  by pat_completeness auto
termination
  by (relation "measure (\<lambda>(n, xs). length xs)") auto

declare chunks_of.simps [simp del]

lemma concat_chunks_of: "0 < n \<Longrightarrow> concat (chunks_of n xs) = xs"
  by (induction n xs rule: chunks_of.induct) (subst chunks_of.simps, simp)

lemma chunks_of_nonempty: "c \<in> set (chunks_of n xs) \<Longrightarrow> c \<noteq> [] \<and> set c \<subseteq> set xs"
proof (induction n xs rule: chunks_of.induct)
  case (1 n xs)
  then show ?case
    by (subst (asm) (2) chunks_of.simps) (auto split: if_splits dest: in_set_takeD in_set_dropD)
qed

lemma res_collect_map: "(\<And>x. x \<in> set xs \<Longrightarrow> f x = Inr (g x)) \<Longrightarrow> res_collect (map f xs) = Inr (map g xs)"
  by (induction xs) simp_all

lemma par_collect_map: "(\<And>x. x \<in> set xs \<Longrightarrow> f x = Inr (g x)) \<Longrightarrow> par_collect (map f xs) = Inr (map g xs)"
  by (auto simp: par_collect_def res_collect_map)

text \<open>The position in an enumeration, as the \<open>u16\<close> chain id it is cast to.\<close>

definition u16 :: "nat \<Rightarrow> nat" where
  "u16 n = n mod 2 ^ 16"

lemma u16_small: "n < 2 ^ 16 \<Longrightarrow> u16 n = n"
  by (simp add: u16_def)

end
