(* ===== verification/UriQuery.thy ===== *)
theory UriQuery
  imports Fallible Store Hits
begin

text \<open>
  The exact-match query of token and image URIs for a seed contract
  (\<open>src/analysis2/crates/core/src/dedup/uri.rs\<close>).

  The progress observer can cancel the query at every poll: \<open>cancelled\<close> tells at which polls it does.
  The hash maps of the query are partial functions, read by key and extended by
  \<open>entry(k).or_default()\<close>; the drained queries are sorted by their URI.  A failed query returns no
  graph, its callers pass the error on.  \<open>par\<close> stands for the two conditions on the thread pool.
\<close>

section \<open>Data\<close>

datatype uri_scope = Intra | Cross nat

datatype uri_poll = PollStart | PollToken nat | PollImage nat

type_synonym scope_map = "nat \<Rightarrow> uri_scope set option"
type_synonym candidate_map = "uri_scope \<Rightarrow> nat set option"

definition extend_entry :: "'k \<Rightarrow> 'a set \<Rightarrow> ('k \<Rightarrow> 'a set option) \<Rightarrow> 'k \<Rightarrow> 'a set option" where
  "extend_entry k xs m = m(k \<mapsto> unwrap_or {} (m k) \<union> xs)"

definition parallel_uri_query_chunk :: nat where
  "parallel_uri_query_chunk = 16"

definition for_chain_count :: "nat \<Rightarrow> nat list list" where
  "for_chain_count n = replicate n []"

text \<open>The graph and the two optional accumulators of a query.\<close>

record uri_sink =
  us_graph :: hit_graph
  us_hit_scopes :: "scope_map option"
  us_hit_candidates :: "candidate_map option"

definition check_cancelled :: "bool \<Rightarrow> unit result" where
  "check_cancelled stop = (if stop then Inl (Error Cancelled) else Inr ())"

section \<open>Emitting the hits of one URI\<close>

fun has_seed_and_other_contract ::
  "'m resident_store \<Rightarrow> nat set option \<Rightarrow> nat \<Rightarrow> bool \<Rightarrow> bool \<Rightarrow> nat list \<Rightarrow> bool result" where
  "has_seed_and_other_contract st excl seed has_seed has_other [] = Inr False"
| "has_seed_and_other_contract st excl seed has_seed has_other (ni # members) =
     (if is_some_and (\<lambda>s. ni \<in> s) excl then has_seed_and_other_contract st excl seed has_seed has_other members
      else res_bind (or_panic (idx (rs_nfts st) ni)) (\<lambda>nft.
        let has_seed = (has_seed \<or> nf_contract_id nft = seed);
            has_other = (has_other \<or> nf_contract_id nft \<noteq> seed)
        in if has_seed \<and> has_other then Inr True
           else has_seed_and_other_contract st excl seed has_seed has_other members))"

definition emit_member ::
  "'m resident_store \<Rightarrow> nat \<Rightarrow> nat \<Rightarrow> nat \<Rightarrow> dimension \<Rightarrow> uri_scope \<Rightarrow> nat set option \<Rightarrow> nat \<Rightarrow>
   bool \<times> uri_sink \<Rightarrow> (bool \<times> uri_sink) result" where
  "emit_member st seed seed_chain secondary dimension scope excl ni acc =
     (let (any, sink) = acc
      in if is_some_and (\<lambda>s. ni \<in> s) excl then Inr (any, sink)
         else res_bind (or_panic (idx (rs_nfts st) ni)) (\<lambda>nft.
           let cand = nf_contract_id nft
           in if cand = seed then Inr (any, sink)
              else
                let (pushed, graph) = push_edge
                      \<lparr>he_seed_contract = seed, he_candidate_contract = cand, he_candidate_nft = Some ni,
                       he_dimension = dimension, he_score = 1, he_primary_chain = seed_chain,
                       he_secondary_chain = secondary\<rparr> (us_graph sink);
                    sink = sink\<lparr>us_graph := graph\<rparr>
                in if pushed
                   then Inr (True, sink\<lparr>us_hit_candidates := map_option (extend_entry scope {ni}) (us_hit_candidates sink)\<rparr>)
                   else Inr (any, sink)))"

definition mark_scope :: "uri_scope \<Rightarrow> nat list \<Rightarrow> uri_sink \<Rightarrow> uri_sink" where
  "mark_scope scope seed_nfts sink =
     sink\<lparr>us_hit_scopes := map_option (fold (\<lambda>seed_nft. extend_entry seed_nft {scope}) seed_nfts) (us_hit_scopes sink)\<rparr>"

definition emit_scope ::
  "'m resident_store \<Rightarrow> nat \<Rightarrow> nat \<Rightarrow> nat \<Rightarrow> nat list \<Rightarrow> dimension \<Rightarrow> uri_scope \<Rightarrow> nat set option \<Rightarrow>
   nat list \<Rightarrow> uri_sink \<Rightarrow> uri_sink result" where
  "emit_scope st seed seed_chain secondary seed_nfts dimension scope excl members sink =
     res_bind (res_fold (emit_member st seed seed_chain secondary dimension scope excl) members (False, sink))
       (\<lambda>(any, sink). Inr (if any then mark_scope scope seed_nfts sink else sink))"

definition emit_peer ::
  "'m resident_store \<Rightarrow> nat \<Rightarrow> nat \<Rightarrow> nat list \<Rightarrow> dimension \<Rightarrow> nat list list \<Rightarrow> uri_scope set option \<Rightarrow>
   candidate_map option \<Rightarrow> nat \<times> nat list \<Rightarrow> uri_sink \<Rightarrow> uri_sink result" where
  "emit_peer st seed seed_chain seed_nfts dimension by_chain skip_scopes exclude entry sink =
     (let (peer_index, peer_members) = entry;
          peer = u16 peer_index;
          scope = Cross peer;
          excl = Option.bind exclude (\<lambda>m. m scope);
          alive = (\<lambda>members. \<exists>ni \<in> set members. \<not> is_some_and (\<lambda>s. ni \<in> s) excl)
      in if peer = seed_chain \<or> peer_members = [] then Inr sink
         else if is_some_and (\<lambda>s. scope \<in> s) skip_scopes then Inr sink
         else if \<not> alive peer_members then Inr sink
         else (case idx by_chain seed_chain of
             None \<Rightarrow> Inr sink
           | Some primary_members \<Rightarrow>
               if \<not> alive primary_members then Inr sink
               else emit_scope st seed seed_chain peer seed_nfts dimension scope excl peer_members sink))"

definition emit_uri_hits ::
  "'m resident_store \<Rightarrow> nat \<Rightarrow> nat \<Rightarrow> nat list \<Rightarrow> dimension \<Rightarrow> nat list list \<Rightarrow> uri_scope set option \<Rightarrow>
   candidate_map option \<Rightarrow> uri_sink \<Rightarrow> uri_sink result" where
  "emit_uri_hits st seed seed_chain seed_nfts dimension by_chain skip_scopes exclude sink =
     res_bind
       (if is_some_and (\<lambda>s. Intra \<in> s) skip_scopes then Inr sink
        else (case idx by_chain seed_chain of
            None \<Rightarrow> Inr sink
          | Some primary_members \<Rightarrow>
              let excl = Option.bind exclude (\<lambda>m. m Intra)
              in res_bind (has_seed_and_other_contract st excl seed False False primary_members) (\<lambda>both.
                if both then emit_scope st seed seed_chain seed_chain seed_nfts dimension Intra excl primary_members sink
                else Inr sink)))
       (\<lambda>sink.
          if is_none_or (\<lambda>members. members = []) (idx by_chain seed_chain) then Inr sink
          else res_fold (emit_peer st seed seed_chain seed_nfts dimension by_chain skip_scopes exclude) (enumerated by_chain) sink)"

section \<open>The query\<close>

definition collect_query :: "'m resident_store \<Rightarrow> (nft \<Rightarrow> nat option) \<Rightarrow> nat \<Rightarrow> (nat \<times> nat list) list \<Rightarrow> (nat \<times> nat list) list result" where
  "collect_query st uri_of seed_nft queries =
     res_bind (or_panic (idx (rs_nfts st) seed_nft)) (\<lambda>nft.
       case uri_of nft of
         Some uri_id \<Rightarrow> Inr (entry_update ah_insert uri_id [] (\<lambda>nfts. nfts @ [seed_nft]) queries)
       | None \<Rightarrow> Inr queries)"

definition collect_queries :: "'m resident_store \<Rightarrow> (nft \<Rightarrow> nat option) \<Rightarrow> nat list \<Rightarrow> (nat \<times> nat list) list result" where
  "collect_queries st uri_of seed_nfts =
     res_bind (res_fold (collect_query st uri_of) seed_nfts []) (\<lambda>queries. Inr (sort_key fst queries))"

definition token_query ::
  "(uri_poll \<Rightarrow> bool) \<Rightarrow> 'm resident_store \<Rightarrow> nat \<Rightarrow> nat \<Rightarrow> nat \<times> nat list \<Rightarrow>
   nat list list \<times> uri_sink \<Rightarrow> (nat list list \<times> uri_sink) result" where
  "token_query cancelled st seed seed_chain query acc =
     (let (uri_id, source_nfts) = query; (by_chain, sink) = acc
      in res_bind (check_cancelled (cancelled (PollToken uri_id))) (\<lambda>_.
         res_bind (or_panic (fill_by_chain (rs_token_uri_csr st) uri_id by_chain)) (\<lambda>(found, by_chain).
         if found
         then res_bind (emit_uri_hits st seed seed_chain source_nfts TokenUri by_chain None None sink) (\<lambda>sink. Inr (by_chain, sink))
         else Inr (by_chain, sink))))"

definition intersect_token_hit_scopes :: "nat list \<Rightarrow> scope_map \<Rightarrow> uri_scope set" where
  "intersect_token_hit_scopes source_nfts token_hit_scopes =
     (case source_nfts of
        [] \<Rightarrow> {}
      | first # rest \<Rightarrow>
          (case token_hit_scopes first of
             None \<Rightarrow> {}
           | Some scopes \<Rightarrow>
               fold (\<lambda>seed_nft output. {scope \<in> output. is_some_and (\<lambda>candidate. scope \<in> candidate) (token_hit_scopes seed_nft)})
                 rest scopes))"

definition image_query ::
  "(uri_poll \<Rightarrow> bool) \<Rightarrow> 'm resident_store \<Rightarrow> nat \<Rightarrow> nat \<Rightarrow> scope_map \<Rightarrow> candidate_map \<Rightarrow> nat \<times> nat list \<Rightarrow>
   nat list list \<times> uri_sink \<Rightarrow> (nat list list \<times> uri_sink) result" where
  "image_query cancelled st seed seed_chain scopes candidates query acc =
     (let (uri_id, source_nfts) = query; (by_chain, sink) = acc
      in res_bind (check_cancelled (cancelled (PollImage uri_id))) (\<lambda>_.
         res_bind (or_panic (fill_by_chain (rs_image_uri_csr st) uri_id by_chain)) (\<lambda>(found, by_chain).
         if found
         then let skip_scopes = intersect_token_hit_scopes source_nfts scopes;
                  skip = (if skip_scopes = {} then None else Some skip_scopes)
           in res_bind (emit_uri_hits st seed seed_chain source_nfts ImageUri by_chain skip (Some candidates) sink) (\<lambda>sink. Inr (by_chain, sink))
         else Inr (by_chain, sink))))"

definition new_token_sink :: uri_sink where
  "new_token_sink = \<lparr>us_graph = hit_graph_new, us_hit_scopes = Some (\<lambda>_. None), us_hit_candidates = Some (\<lambda>_. None)\<rparr>"

definition new_image_sink :: uri_sink where
  "new_image_sink = \<lparr>us_graph = hit_graph_new, us_hit_scopes = None, us_hit_candidates = None\<rparr>"

text \<open>The entries of a chunk's map merged into the accumulated one.\<close>

definition merge_entries :: "('k \<Rightarrow> 'a set option) option \<Rightarrow> ('k \<Rightarrow> 'a set option) option \<Rightarrow> ('k \<Rightarrow> 'a set option) option" where
  "merge_entries from into =
     (case (from, into) of
        (Some f, Some m) \<Rightarrow> Some (\<lambda>k. case f k of None \<Rightarrow> m k | Some xs \<Rightarrow> extend_entry k xs m k)
      | _ \<Rightarrow> into)"

definition merge_chunk :: "uri_sink \<Rightarrow> uri_sink \<Rightarrow> uri_sink" where
  "merge_chunk chunk sink =
     \<lparr>us_graph = fst (append_graph (us_graph chunk) (us_graph sink)),
      us_hit_scopes = merge_entries (us_hit_scopes chunk) (us_hit_scopes sink),
      us_hit_candidates = merge_entries (us_hit_candidates chunk) (us_hit_candidates sink)\<rparr>"

definition run_queries ::
  "bool \<Rightarrow> nat \<Rightarrow> (nat \<times> nat list \<Rightarrow> nat list list \<times> uri_sink \<Rightarrow> (nat list list \<times> uri_sink) result) \<Rightarrow> uri_sink \<Rightarrow>
   (nat \<times> nat list) list \<Rightarrow> nat list list \<times> uri_sink \<Rightarrow> (nat list list \<times> uri_sink) result" where
  "run_queries par chain_count step fresh queries acc =
     (if length queries > parallel_uri_query_chunk \<and> par
      then res_bind
        (par_collect (map (\<lambda>chunk. res_bind (res_fold step chunk (for_chain_count chain_count, fresh)) (\<lambda>(_, sink). Inr sink))
           (chunks_of parallel_uri_query_chunk queries)))
        (\<lambda>sinks. Inr (fst acc, fold merge_chunk sinks (snd acc)))
      else res_fold step queries acc)"

definition query_uri_for_seed_with_scratch ::
  "bool \<Rightarrow> (uri_poll \<Rightarrow> bool) \<Rightarrow> 'm resident_store \<Rightarrow> nat \<Rightarrow> nat list list \<Rightarrow> hit_graph \<Rightarrow> hit_graph result" where
  "query_uri_for_seed_with_scratch par cancelled st seed by_chain graph =
     res_bind (check_cancelled (cancelled PollStart)) (\<lambda>_.
     case idx (rs_contracts st) seed of
       None \<Rightarrow> invalid (''unknown seed contract id '' @ print_decimal seed)
     | Some contract \<Rightarrow>
         let seed_chain = ct_chain_id contract;
             seed_nfts = nfts_for_contract st seed;
             chain_count = length (rs_chains st)
         in res_bind (collect_queries st nf_token_uri_id seed_nfts) (\<lambda>token_queries.
            res_bind (run_queries par chain_count (token_query cancelled st seed seed_chain) new_token_sink token_queries
              (by_chain, new_token_sink\<lparr>us_graph := graph\<rparr>)) (\<lambda>(by_chain, sink).
            res_bind (collect_queries st nf_image_uri_id seed_nfts) (\<lambda>image_queries.
            let scopes = unwrap_or (\<lambda>_. None) (us_hit_scopes sink);
                candidates = unwrap_or (\<lambda>_. None) (us_hit_candidates sink)
            in res_bind (run_queries par chain_count (image_query cancelled st seed seed_chain scopes candidates) new_image_sink
                 image_queries (by_chain, new_image_sink\<lparr>us_graph := us_graph sink\<rparr>)) (\<lambda>(by_chain, sink).
               Inr (us_graph sink))))))"

definition query_uri_for_seed ::
  "bool \<Rightarrow> (uri_poll \<Rightarrow> bool) \<Rightarrow> 'm resident_store \<Rightarrow> nat \<Rightarrow> hit_graph \<Rightarrow> hit_graph result" where
  "query_uri_for_seed par cancelled st seed graph =
     query_uri_for_seed_with_scratch par cancelled st seed (for_chain_count (length (rs_chains st))) graph"

end
