(* ===== verification/UriHits.thy ===== *)
theory UriHits
  imports UriQuery StoreQueries
begin

text \<open>
  What the URI query emits.  On a store whose posting indexes are built, the loops over the buckets of
  a URI append the edges of its NFTs outside the seed, scope by scope (\<open>add_hits\<close>); chunks computed
  apart and merged give the same sink.
\<close>

section \<open>The posting indexes of the store\<close>

definition nft_contract :: "'m resident_store \<Rightarrow> nat \<Rightarrow> nat" where
  "nft_contract st i = nf_contract_id (rs_nfts st ! i)"

definition chain_of_nft :: "'m resident_store \<Rightarrow> nat \<Rightarrow> nat" where
  "chain_of_nft st i = ct_chain_id (rs_contracts st ! nft_contract st i)"

definition uri_ready :: "'m resident_store \<Rightarrow> bool" where
  "uri_ready st \<longleftrightarrow>
     length (rs_nfts st) < 2 ^ 32 \<and> length (rs_chains st) \<le> 2 ^ 16 \<and>
     (\<forall>i < length (rs_nfts st). nft_contract st i < length (rs_contracts st)) \<and>
     (\<forall>c \<in> set (rs_contracts st). ct_chain_id c < length (rs_chains st)) \<and>
     rs_contract_nft_csr st = build_contract_nft_csr (rs_nfts st) \<and>
     rs_token_uri_csr st = build_uri_chain_index (rs_nfts st) (rs_contracts st) True \<and>
     rs_image_uri_csr st = build_uri_chain_index (rs_nfts st) (rs_contracts st) False"

definition uri_members :: "'m resident_store \<Rightarrow> (nft \<Rightarrow> nat option) \<Rightarrow> nat \<Rightarrow> nat \<Rightarrow> nat list" where
  "uri_members st uri_of u c = filter (\<lambda>i. uri_of (rs_nfts st ! i) = Some u \<and> chain_of_nft st i = c) [0..<length (rs_nfts st)]"

lemma in_uri_members: "i \<in> set (uri_members st uri_of u c) \<longleftrightarrow> i < length (rs_nfts st) \<and> uri_of (rs_nfts st ! i) = Some u \<and> chain_of_nft st i = c"
  by (auto simp: uri_members_def)

lemma distinct_uri_members [simp]: "distinct (uri_members st uri_of u c)"
  by (simp add: uri_members_def)

lemma store_ok_ready:
  assumes "store_ok hash st" "length (rs_nfts st) < 2 ^ 32" "length (rs_chains st) \<le> 2 ^ 16"
  shows "uri_ready (rebuild_uri_csr st)"
proof -
  have "\<forall>nft \<in> set (rs_nfts st). nf_contract_id nft < length (rs_contracts st)"
    using assms(1) by (simp add: store_ok_def nfts_ok_def)
  moreover have "\<forall>c \<in> set (rs_contracts st). ct_chain_id c < length (rs_chains st)"
  proof
    fix c assume "c \<in> set (rs_contracts st)"
    then obtain i where "i < length (rs_contracts st)" "c = rs_contracts st ! i" by (auto simp: in_set_conv_nth)
    then show "ct_chain_id c < length (rs_chains st)"
      using store_okD(4) [OF assms(1), of i] by (simp add: contract_names_def)
  qed
  ultimately show ?thesis using assms(2,3)
    by (simp add: uri_ready_def rebuild_uri_csr_def nft_contract_def)
qed

definition uri_field :: "bool \<Rightarrow> nft \<Rightarrow> nat option" where
  "uri_field token = (if token then nf_token_uri_id else nf_image_uri_id)"

lemma map_filter_values: "List.map_filter g (map f xs) = map (\<lambda>x. the (g (f x))) (filter (\<lambda>x. g (f x) \<noteq> None) xs)"
  by (induction xs) (auto simp: List.map_filter_simps split: option.splits)

lemma uri_triples:
  fixes st :: "'m resident_store"
  assumes "uri_ready st"
  shows "List.map_filter (uri_triple (rs_contracts st) token) (enumerated (rs_nfts st)) =
    map (\<lambda>i. (the (uri_field token (rs_nfts st ! i)), chain_of_nft st i, i)) (filter (\<lambda>i. uri_field token (rs_nfts st ! i) \<noteq> None) [0..<length (rs_nfts st)])"
proof -
  have enum: "enumerated xs = map (\<lambda>i. (i, xs ! i)) [0..<length xs]" for xs :: "nft list"
    by (intro nth_equalityI) simp_all
  have entry: "uri_triple (rs_contracts st) token (i, rs_nfts st ! i) =
      map_option (\<lambda>u. (u, chain_of_nft st i, i)) (uri_field token (rs_nfts st ! i))" if "i < length (rs_nfts st)" for i
    using assms that by (cases "uri_field token (rs_nfts st ! i)")
      (auto simp: uri_triple_def uri_field_def uri_ready_def chain_of_nft_def nft_contract_def u32_small)
  show ?thesis unfolding enum map_filter_values by (auto simp: entry intro!: map_cong filter_cong)
qed

lemma fill_by_chain_store:
  fixes st :: "'m resident_store"
  assumes ready: "uri_ready st"
  shows "fill_by_chain (build_uri_chain_index (rs_nfts st) (rs_contracts st) token) u by_chain =
    Some (\<exists>i < length (rs_nfts st). uri_field token (rs_nfts st ! i) = Some u, map (uri_members st (uri_field token) u) [0..<length by_chain])"
proof -
  let ?ts = "List.map_filter (uri_triple (rs_contracts st) token) (enumerated (rs_nfts st))"
  have ts: "?ts = map (\<lambda>i. (the (uri_field token (rs_nfts st ! i)), chain_of_nft st i, i)) (filter (\<lambda>i. uri_field token (rs_nfts st ! i) \<noteq> None) [0..<length (rs_nfts st)])"
    by (rule uri_triples [OF ready])
  have "length ?ts \<le> length [0..<length (rs_nfts st)]" unfolding ts by (metis length_filter_le length_map)
  then have len: "length (sort ?ts) < 2 ^ 32" using ready by (simp add: uri_ready_def)
  have "fst ` set ?ts = {u. \<exists>i < length (rs_nfts st). uri_field token (rs_nfts st ! i) = Some u}" unfolding ts by force
  moreover have "map (snd \<circ> snd) (filter (\<lambda>t. fst t = u \<and> fst (snd t) = c) (sort ?ts)) = uri_members st (uri_field token) u c" for c
  proof -
    have f: "filter (\<lambda>t. fst t = u \<and> fst (snd t) = c) ?ts = map (\<lambda>i. (u, c, i)) (uri_members st (uri_field token) u c)"
      unfolding ts by (auto simp: filter_map uri_members_def comp_def intro!: map_cong filter_cong)
    have "sorted (map (\<lambda>i. (u, c, i)) (uri_members st (uri_field token) u c))"
      by (auto simp: sorted_map less_eq_prod_def uri_members_def sorted_wrt_filter)
    then show ?thesis unfolding filter_sort f by (simp add: sorted_sort_id comp_def)
  qed
  ultimately show ?thesis
    unfolding build_uri_chain_index_def by (subst csr_fill [OF _ len]) simp_all
qed

section \<open>Adding hits to a sink\<close>

definition hit_of :: "'m resident_store \<Rightarrow> nat \<Rightarrow> nat \<Rightarrow> dimension \<Rightarrow> nat \<Rightarrow> hit_edge" where
  "hit_of st seed seed_chain dimension i =
     \<lparr>he_seed_contract = seed, he_candidate_contract = nft_contract st i, he_candidate_nft = Some i,
      he_dimension = dimension, he_score = 1, he_primary_chain = seed_chain, he_secondary_chain = chain_of_nft st i\<rparr>"

definition add_hits :: "(nat \<Rightarrow> hit_edge) \<Rightarrow> uri_scope \<Rightarrow> nat list \<Rightarrow> nat list \<Rightarrow> uri_sink \<Rightarrow> uri_sink" where
  "add_hits edge scope seed_nfts hs sink =
     (if hs = [] then sink
      else \<lparr>us_graph = \<lparr>hg_edges = hg_edges (us_graph sink) @ map edge hs\<rparr>,
            us_hit_scopes = map_option (fold (\<lambda>seed_nft. extend_entry seed_nft {scope}) seed_nfts) (us_hit_scopes sink),
            us_hit_candidates = map_option (extend_entry scope (set hs)) (us_hit_candidates sink)\<rparr>)"

definition other_nfts :: "'m resident_store \<Rightarrow> nat \<Rightarrow> nat set \<Rightarrow> nat list \<Rightarrow> nat list" where
  "other_nfts st seed excl members = filter (\<lambda>i. i \<notin> excl \<and> nft_contract st i \<noteq> seed) members"

lemma extend_entry_twice [simp]: "extend_entry k A (extend_entry k B m) = extend_entry k (B \<union> A) m"
  by (auto simp: extend_entry_def)

lemma or_panic_simps [simp]: "or_panic (Some x) = Inr x" "or_panic None = Inl Panic"
  by (simp_all add: or_panic_def)

lemma is_some_and_member: "is_some_and (\<lambda>s. x \<in> s) o' \<longleftrightarrow> x \<in> unwrap_or {} o'"
  by (cases o') simp_all

lemma emit_members:
  assumes "\<forall>i \<in> set members. i < length (rs_nfts st) \<and> chain_of_nft st i = c"
  shows "res_fold (emit_member st seed seed_chain c d scope excl) members (any, sink) =
    (let hs = other_nfts st seed (unwrap_or {} excl) members
     in Inr (any \<or> hs \<noteq> [],
          if hs = [] then sink
          else sink\<lparr>us_graph := \<lparr>hg_edges = hg_edges (us_graph sink) @ map (hit_of st seed seed_chain d) hs\<rparr>,
            us_hit_candidates := map_option (extend_entry scope (set hs)) (us_hit_candidates sink)\<rparr>))"
  using assms
proof (induction members arbitrary: any sink)
  case Nil
  then show ?case by (simp add: other_nfts_def)
next
  case (Cons i members)
  have i: "i < length (rs_nfts st)" "chain_of_nft st i = c" using Cons.prems by simp_all
  show ?case
  proof (cases "i \<in> unwrap_or {} excl \<or> nft_contract st i = seed")
    case True
    then have "emit_member st seed seed_chain c d scope excl i (any, sink) = Inr (any, sink)"
      using i by (auto simp: emit_member_def is_some_and_member nft_contract_def)
    with True Cons show ?thesis by (auto simp: other_nfts_def)
  next
    case False
    let ?sink = "sink\<lparr>us_graph := \<lparr>hg_edges = hg_edges (us_graph sink) @ [hit_of st seed seed_chain d i]\<rparr>,
      us_hit_candidates := map_option (extend_entry scope {i}) (us_hit_candidates sink)\<rparr>"
    have "emit_member st seed seed_chain c d scope excl i (any, sink) = Inr (True, ?sink)"
      using False i
      by (cases "us_graph sink") (auto simp: emit_member_def is_some_and_member nft_contract_def push_edge_def hit_of_def Let_def)
    moreover have "other_nfts st seed (unwrap_or {} excl) (i # members) = i # other_nfts st seed (unwrap_or {} excl) members"
      using False by (simp add: other_nfts_def)
    moreover note Cons.IH [of True ?sink]
    ultimately show ?thesis using Cons.prems
      by (cases "other_nfts st seed (unwrap_or {} excl) members") (simp_all add: Let_def option.map_comp comp_def insert_commute)
  qed
qed

lemma emit_scope_eq:
  assumes "\<forall>i \<in> set members. i < length (rs_nfts st) \<and> chain_of_nft st i = c"
  shows "emit_scope st seed seed_chain c seed_nfts d scope excl members sink =
    Inr (add_hits (hit_of st seed seed_chain d) scope seed_nfts (other_nfts st seed (unwrap_or {} excl) members) sink)"
  by (cases sink) (simp add: emit_scope_def emit_members [OF assms] add_hits_def mark_scope_def Let_def)

section \<open>All scopes of one URI\<close>

definition chain_scope :: "nat \<Rightarrow> nat \<Rightarrow> uri_scope" where
  "chain_scope seed_chain c = (if c = seed_chain then Intra else Cross c)"

definition scope_order :: "nat \<Rightarrow> nat \<Rightarrow> nat list" where
  "scope_order seed_chain n = seed_chain # filter (\<lambda>c. c \<noteq> seed_chain) [0..<n]"

definition excluded_in :: "candidate_map option \<Rightarrow> uri_scope \<Rightarrow> nat set" where
  "excluded_in exclude scope = unwrap_or {} (Option.bind exclude (\<lambda>m. m scope))"

definition chain_hits ::
  "'m resident_store \<Rightarrow> nat \<Rightarrow> nat \<Rightarrow> uri_scope set \<Rightarrow> candidate_map option \<Rightarrow> nat list list \<Rightarrow> nat \<Rightarrow> nat list" where
  "chain_hits st seed seed_chain skip exclude by_chain c =
     (if chain_scope seed_chain c \<in> skip then []
      else other_nfts st seed (excluded_in exclude (chain_scope seed_chain c)) (by_chain ! c))"

lemma seed_and_other:
  assumes "\<forall>i \<in> set members. i < length (rs_nfts st)"
  shows "has_seed_and_other_contract st excl seed a b members =
    Inr (let live = filter (\<lambda>i. i \<notin> unwrap_or {} excl) members
         in live \<noteq> [] \<and> (a \<or> (\<exists>i \<in> set live. nft_contract st i = seed)) \<and> (b \<or> (\<exists>i \<in> set live. nft_contract st i \<noteq> seed)))"
  using assms
proof (induction members arbitrary: a b)
  case (Cons i members)
  then show ?case by (auto simp: Let_def is_some_and_member nft_contract_def filter_empty_conv)
qed (simp add: Let_def)

lemma emit_uri_hits_eq:
  fixes st :: "'m resident_store"
  assumes members: "\<forall>c < length by_chain. \<forall>i \<in> set (by_chain ! c). i < length (rs_nfts st) \<and> chain_of_nft st i = c"
    and chains: "seed_chain < length by_chain" "length by_chain \<le> 2 ^ 16"
    and s: "s \<in> set (by_chain ! seed_chain)" "nft_contract st s = seed"
    and excl: "\<forall>scope. s \<notin> excluded_in exclude scope"
  shows "emit_uri_hits st seed seed_chain seed_nfts d by_chain skip exclude sink =
    Inr (fold (\<lambda>c. add_hits (hit_of st seed seed_chain d) (chain_scope seed_chain c) seed_nfts
           (chain_hits st seed seed_chain (unwrap_or {} skip) exclude by_chain c)) (scope_order seed_chain (length by_chain)) sink)"
proof -
  let ?add = "\<lambda>c. add_hits (hit_of st seed seed_chain d) (chain_scope seed_chain c) seed_nfts
    (chain_hits st seed seed_chain (unwrap_or {} skip) exclude by_chain c)"
  have no_hits: "other_nfts st seed X ms = []" if "\<not> (\<exists>i \<in> set (filter (\<lambda>i. i \<notin> X) ms). nft_contract st i \<noteq> seed)" for X ms
    using that by (auto simp: other_nfts_def filter_empty_conv)
  have intra: "(if is_some_and (\<lambda>s. Intra \<in> s) skip then Inr sink
      else (case idx by_chain seed_chain of
          None \<Rightarrow> Inr sink
        | Some primary_members \<Rightarrow>
            let excl = Option.bind exclude (\<lambda>m. m Intra)
            in res_bind (has_seed_and_other_contract st excl seed False False primary_members) (\<lambda>both.
              if both then emit_scope st seed seed_chain seed_chain seed_nfts d Intra excl primary_members sink
              else Inr sink))) = Inr (?add seed_chain sink)"
  proof (cases "Intra \<in> unwrap_or {} skip")
    case True
    then show ?thesis by (simp add: is_some_and_member chain_hits_def chain_scope_def add_hits_def)
  next
    case False
    let ?live = "filter (\<lambda>i. i \<notin> excluded_in exclude Intra) (by_chain ! seed_chain)"
    have "s \<in> set ?live" using s excl by simp
    then have both: "has_seed_and_other_contract st (Option.bind exclude (\<lambda>m. m Intra)) seed False False (by_chain ! seed_chain) =
        Inr (\<exists>i \<in> set ?live. nft_contract st i \<noteq> seed)"
      using members chains(1) s(2) by (subst seed_and_other) (auto simp: Let_def excluded_in_def filter_empty_conv)
    show ?thesis using False chains(1) members no_hits [of "excluded_in exclude Intra" "by_chain ! seed_chain"]
      by (auto simp: is_some_and_member both emit_scope_eq chain_hits_def chain_scope_def add_hits_def excluded_in_def Let_def)
  qed
  have peer: "emit_peer st seed seed_chain seed_nfts d by_chain skip exclude (c, by_chain ! c) sink' =
      Inr (if c = seed_chain then sink' else ?add c sink')" if "c < length by_chain" for c sink'
  proof -
    have c: "u16 c = c" using that chains(2) by (simp add: u16_small)
    have alive: "(\<exists>i \<in> set ms. \<not> is_some_and (\<lambda>s. i \<in> s) (Option.bind exclude (\<lambda>m. m (Cross c)))) \<longleftrightarrow>
        (\<exists>i \<in> set ms. i \<notin> excluded_in exclude (Cross c))" for ms
      by (simp add: is_some_and_member excluded_in_def)
    have prim: "\<exists>i \<in> set (by_chain ! seed_chain). i \<notin> excluded_in exclude (Cross c)" using s excl by blast
    have dead: "other_nfts st seed X ms = []" if "\<not> (\<exists>i \<in> set ms. i \<notin> X)" for X ms
      using that by (auto simp: other_nfts_def filter_empty_conv)
    show ?thesis using that chains(1) members
      by (auto simp: emit_peer_def c alive prim is_some_and_member chain_hits_def chain_scope_def emit_scope_eq
          excluded_in_def [symmetric] dead add_hits_def other_nfts_def Let_def simp del: u16_def)
  qed
  have "res_fold (emit_peer st seed seed_chain seed_nfts d by_chain skip exclude) (map (\<lambda>c. (c, by_chain ! c)) cs) sink' =
      Inr (fold ?add (filter (\<lambda>c. c \<noteq> seed_chain) cs) sink')" if "set cs \<subseteq> {..<length by_chain}" for cs sink'
    using that by (induction cs arbitrary: sink') (simp_all add: peer)
  moreover have "enumerated by_chain = map (\<lambda>c. (c, by_chain ! c)) [0..<length by_chain]"
    by (intro nth_equalityI) simp_all
  moreover have "\<not> is_none_or (\<lambda>members. members = []) (idx by_chain seed_chain)" using s chains(1) by auto
  ultimately show ?thesis unfolding emit_uri_hits_def intra by (simp add: scope_order_def atLeast0LessThan)
qed

section \<open>Queries run in sequence or in chunks\<close>

definition query_fold ::
  "(nat \<Rightarrow> hit_edge) \<Rightarrow> nat \<Rightarrow> nat \<Rightarrow> (nat \<times> nat list \<Rightarrow> nat \<Rightarrow> nat list) \<Rightarrow> nat \<times> nat list \<Rightarrow> uri_sink \<Rightarrow> uri_sink" where
  "query_fold edge seed_chain n H q =
     fold (\<lambda>c. add_hits edge (chain_scope seed_chain c) (snd q) (H q c)) (scope_order seed_chain n)"

definition accepts :: "uri_sink \<Rightarrow> uri_sink \<Rightarrow> bool" where
  "accepts chunk sink \<longleftrightarrow>
     (us_hit_scopes chunk = None \<longrightarrow> us_hit_scopes sink = None) \<and> (us_hit_candidates chunk = None \<longrightarrow> us_hit_candidates sink = None)"

lemma merge_entries_None [simp]: "merge_entries None m = m" "merge_entries (Some f) None = None"
  by (simp_all add: merge_entries_def)

lemma merge_entries_extend:
  "merge_entries (Some (extend_entry k xs f)) m = map_option (extend_entry k xs) (merge_entries (Some f) m)"
  by (cases m) (auto simp: merge_entries_def extend_entry_def fun_eq_iff split: option.splits)

lemma merge_entries_extends:
  "merge_entries (Some (fold (\<lambda>k. extend_entry k xs) ks f)) m = map_option (fold (\<lambda>k. extend_entry k xs) ks) (merge_entries (Some f) m)"
  by (induction ks arbitrary: f)
    (simp_all add: merge_entries_extend option.map_comp comp_def option.map_id)

lemma accepts_add_hits: "accepts chunk sink \<Longrightarrow> accepts (add_hits edge scope srcs hs chunk) sink"
  by (simp add: accepts_def add_hits_def)

lemma merge_add_hits:
  assumes "accepts chunk sink"
  shows "merge_chunk (add_hits edge scope srcs hs chunk) sink = add_hits edge scope srcs hs (merge_chunk chunk sink)"
  using assms
  by (cases "us_hit_scopes chunk"; cases "us_hit_candidates chunk")
    (auto simp: accepts_def add_hits_def merge_chunk_def append_graph_def merge_entries_extends merge_entries_extend)

lemma merge_query_fold:
  assumes "accepts chunk sink"
  shows "merge_chunk (query_fold edge seed_chain n H q chunk) sink = query_fold edge seed_chain n H q (merge_chunk chunk sink) \<and>
    accepts (query_fold edge seed_chain n H q chunk) sink"
proof -
  have "merge_chunk (fold (\<lambda>c. add_hits edge (chain_scope seed_chain c) srcs (h c)) cs chunk) sink =
      fold (\<lambda>c. add_hits edge (chain_scope seed_chain c) srcs (h c)) cs (merge_chunk chunk sink) \<and>
      accepts (fold (\<lambda>c. add_hits edge (chain_scope seed_chain c) srcs (h c)) cs chunk) sink" for cs srcs h
    using assms by (induction cs arbitrary: chunk) (simp_all add: merge_add_hits accepts_add_hits)
  then show ?thesis by (simp add: query_fold_def)
qed

lemma merge_queries:
  assumes "accepts chunk sink"
  shows "merge_chunk (fold (query_fold edge seed_chain n H) qs chunk) sink = fold (query_fold edge seed_chain n H) qs (merge_chunk chunk sink)"
  using assms by (induction qs arbitrary: chunk) (simp_all add: merge_query_fold)

lemma fold_add_hits_shape [simp]:
  "us_hit_scopes (fold (\<lambda>c. add_hits edge (f c) srcs (h c)) cs sink) = None \<longleftrightarrow> us_hit_scopes sink = None"
  "us_hit_candidates (fold (\<lambda>c. add_hits edge (f c) srcs (h c)) cs sink) = None \<longleftrightarrow> us_hit_candidates sink = None"
  by (induction cs arbitrary: sink) (simp_all add: add_hits_def)

lemma query_fold_shape:
  "us_hit_scopes (fold (query_fold edge seed_chain n H) qs sink) = None \<longleftrightarrow> us_hit_scopes sink = None"
  "us_hit_candidates (fold (query_fold edge seed_chain n H) qs sink) = None \<longleftrightarrow> us_hit_candidates sink = None"
  by (induction qs arbitrary: sink) (simp_all add: query_fold_def)

text \<open>A step as the queries take it: cancelled, or one more query folded into the sink.\<close>

definition steps_as ::
  "(nat \<times> nat list \<Rightarrow> nat list list \<times> uri_sink \<Rightarrow> (nat list list \<times> uri_sink) result) \<Rightarrow> (nat \<times> nat list \<Rightarrow> bool) \<Rightarrow>
   (nat \<times> nat list \<Rightarrow> uri_sink \<Rightarrow> uri_sink) \<Rightarrow> nat \<Rightarrow> (nat \<times> nat list) list \<Rightarrow> bool" where
  "steps_as step stop G n queries \<longleftrightarrow>
     (\<forall>q \<in> set queries. \<forall>bc sink. length bc = n \<longrightarrow>
        (\<exists>bc'. length bc' = n \<and> step q (bc, sink) = (if stop q then Inl (Error Cancelled) else Inr (bc', G q sink))))"

lemma steps_sequential:
  assumes "steps_as step stop G n queries" "length bc = n"
  shows "\<exists>bc'. length bc' = n \<and>
    res_fold step queries (bc, sink) = (if \<exists>q \<in> set queries. stop q then Inl (Error Cancelled) else Inr (bc', fold G queries sink))"
  using assms
proof (induction queries arbitrary: bc sink)
  case (Cons q qs)
  obtain bc' where bc': "length bc' = n" "step q (bc, sink) = (if stop q then Inl (Error Cancelled) else Inr (bc', G q sink))"
    using Cons.prems by (force simp: steps_as_def)
  have "steps_as step stop G n qs" using Cons.prems(1) by (simp add: steps_as_def)
  from Cons.IH [OF this bc'(1), of "G q sink"] bc' show ?case by (cases "stop q") auto
qed auto

lemma res_collect_cancelled:
  assumes "\<forall>x \<in> set xs. f x = (if stop x then Inl e else Inr (g x))" "\<exists>x \<in> set xs. stop x"
  shows "res_collect (map f xs) = Inl e"
  using assms
proof (induction xs)
  case (Cons x xs)
  show ?case
  proof (cases "stop x")
    case False
    then have "res_collect (map f xs) = Inl e" using Cons by auto
    with False Cons.prems show ?thesis by simp
  qed (use Cons.prems in simp)
qed simp

lemma steps_mono: "steps_as step stop G n queries \<Longrightarrow> set qs \<subseteq> set queries \<Longrightarrow> steps_as step stop G n qs"
  unfolding steps_as_def by blast

lemma steps_run:
  assumes steps: "steps_as step stop (query_fold edge seed_chain m H) n queries" and len: "length bc = n"
    and fresh: "accepts fresh sink" "merge_chunk fresh sink = sink" "us_hit_scopes fresh = None \<longleftrightarrow> us_hit_scopes sink = None"
      "us_hit_candidates fresh = None \<longleftrightarrow> us_hit_candidates sink = None"
      "\<And>s. us_hit_scopes s = None \<longleftrightarrow> us_hit_scopes sink = None \<Longrightarrow> us_hit_candidates s = None \<longleftrightarrow> us_hit_candidates sink = None \<Longrightarrow>
        merge_chunk fresh s = s"
  shows "\<exists>bc'. length bc' = n \<and> run_queries par n step fresh queries (bc, sink) =
    (if \<exists>q \<in> set queries. stop q then Inl (Error Cancelled) else Inr (bc', fold (query_fold edge seed_chain m H) queries sink))"
proof (cases "length queries > parallel_uri_query_chunk \<and> par")
  case False
  then show ?thesis using steps_sequential [OF steps len] by (auto simp: run_queries_def)
next
  case True
  let ?G = "query_fold edge seed_chain m H" and ?chunks = "chunks_of parallel_uri_query_chunk queries"
  let ?run = "\<lambda>chunk. res_bind (res_fold step chunk (for_chain_count n, fresh)) (\<lambda>(_, sink). Inr sink)"
  have queries: "concat ?chunks = queries" by (rule concat_chunks_of) (simp add: parallel_uri_query_chunk_def)
  have run: "?run chunk = (if \<exists>q \<in> set chunk. stop q then Inl (Error Cancelled) else Inr (fold ?G chunk fresh))" if "chunk \<in> set ?chunks" for chunk
  proof -
    have "steps_as step stop ?G n chunk" using steps_mono [OF steps] chunks_of_nonempty [OF that] by blast
    from steps_sequential [OF this, of "for_chain_count n" fresh] show ?thesis by (auto simp: for_chain_count_def)
  qed
  have no_panic: "Inl Panic \<notin> set (map ?run ?chunks)" by (auto simp: run)
  have merged: "fold merge_chunk (map (\<lambda>chunk. fold ?G chunk fresh) cs) s = fold ?G (concat cs) s"
    if "us_hit_scopes s = None \<longleftrightarrow> us_hit_scopes sink = None" "us_hit_candidates s = None \<longleftrightarrow> us_hit_candidates sink = None" for cs s
    using that
  proof (induction cs arbitrary: s)
    case (Cons c cs)
    have "accepts fresh s" using Cons.prems fresh(3,4) by (auto simp: accepts_def)
    then have "merge_chunk (fold ?G c fresh) s = fold ?G c s" using Cons.prems by (simp add: merge_queries fresh(5))
    with Cons show ?case by (simp add: query_fold_shape)
  qed simp
  show ?thesis
  proof (cases "\<exists>q \<in> set queries. stop q")
    case stop: True
    then have "\<exists>chunk \<in> set ?chunks. \<exists>q \<in> set chunk. stop q" using queries by (metis (no_types, lifting) UN_E set_concat)
    then have "res_collect (map ?run ?chunks) = Inl (Error Cancelled)" 
      by (intro res_collect_cancelled [where stop = "\<lambda>chunk. \<exists>q \<in> set chunk. stop q" and g = "\<lambda>chunk. fold ?G chunk fresh"])
        (simp_all add: run)
    with True no_panic stop len show ?thesis by (auto simp: run_queries_def par_collect_def)
  next
    case False
    then have "\<forall>chunk \<in> set ?chunks. \<not> (\<exists>q \<in> set chunk. stop q)" using queries by (metis (no_types, lifting) UN_I set_concat)
    then have "par_collect (map ?run ?chunks) = Inr (map (\<lambda>chunk. fold ?G chunk fresh) ?chunks)"
      by (intro par_collect_map) (simp add: run)
    with True False merged [of sink ?chunks] len show ?thesis by (simp add: run_queries_def queries)
  qed
qed

section \<open>Grouping the seed's NFTs by URI\<close>

lemma sort_key_entries:
  assumes "ah_distinct m"
  shows "sort_key fst m = map (\<lambda>u. (u, the (map_of m u))) (sorted_list_of_set (fst ` set m))" (is "?s = _")
proof -
  have dist: "distinct (map fst m)" using assms by (simp add: ah_distinct_def)
  have "distinct (map fst ?s)" using dist by (metis (no_types, lifting) distinct_map distinct_sort set_sort)
  then have keys: "map fst ?s = sorted_list_of_set (fst ` set m)"
    by (intro sorted_distinct_set_unique) simp_all
  have entry: "the (map_of m (fst p)) = snd p" if "p \<in> set ?s" for p
  proof -
    have "(fst p, snd p) \<in> set m" using that by simp
    from map_of_is_SomeI [OF dist this] show ?thesis by simp
  qed
  have "map (\<lambda>p. (fst p, the (map_of m (fst p)))) ?s = ?s" by (intro map_idI) (simp add: entry prod_eq_iff)
  then have "?s = map (\<lambda>u. (u, the (map_of m u))) (map fst ?s)" by (simp add: comp_def)
  then show ?thesis by (simp only: keys)
qed

lemma collect_queries_eq:
  assumes "\<forall>s \<in> set seed_nfts. s < length (rs_nfts st)"
  shows "collect_queries st uri_of seed_nfts =
    Inr (map (\<lambda>u. (u, filter (\<lambda>s. uri_of (rs_nfts st ! s) = Some u) seed_nfts))
      (sorted_list_of_set {u. \<exists>s \<in> set seed_nfts. uri_of (rs_nfts st ! s) = Some u}))"
proof -
  have "\<exists>m. res_fold (collect_query st uri_of) seed_nfts [] = Inr m \<and> ah_distinct m \<and>
      (\<forall>u. map_of m u = (if \<exists>s \<in> set seed_nfts. uri_of (rs_nfts st ! s) = Some u
         then Some (filter (\<lambda>s. uri_of (rs_nfts st ! s) = Some u) seed_nfts) else None))"
    using assms
  proof (induction seed_nfts rule: rev_induct)
    case Nil
    then show ?case by (simp add: ah_distinct_def)
  next
    case (snoc s ss)
    then obtain m where m: "res_fold (collect_query st uri_of) ss [] = Inr m" "ah_distinct m"
      "\<And>u. map_of m u = (if \<exists>s \<in> set ss. uri_of (rs_nfts st ! s) = Some u
         then Some (filter (\<lambda>s. uri_of (rs_nfts st ! s) = Some u) ss) else None)" by auto
    have none: "filter (\<lambda>s. uri_of (rs_nfts st ! s) = Some u) ss = []" if "\<not> (\<exists>s \<in> set ss. uri_of (rs_nfts st ! s) = Some u)" for u
      using that by (auto simp: filter_empty_conv)
    have s: "s < length (rs_nfts st)" using snoc.prems by simp
    show ?case
    proof (cases "uri_of (rs_nfts st ! s)")
      case None
      have "res_fold (collect_query st uri_of) (ss @ [s]) [] = Inr m"
        using None m(1) s by (simp add: res_fold_append collect_query_def [of _ _ s])
      with None m show ?thesis by auto
    next
      case (Some u)
      have "res_fold (collect_query st uri_of) (ss @ [s]) [] = Inr (entry_update ah_insert u [] (\<lambda>nfts. nfts @ [s]) m)"
        using Some m(1) s by (simp add: res_fold_append collect_query_def [of _ _ s])
      moreover have "ah_distinct (entry_update ah_insert u [] (\<lambda>nfts. nfts @ [s]) m)"
        using m(2) by (rule hashm.invar_entry_update)
      ultimately show ?thesis using Some m(3) none [of u] by (auto simp: hashm.lookup_entry_update)
    qed
  qed
  then obtain m where m: "res_fold (collect_query st uri_of) seed_nfts [] = Inr m" "ah_distinct m"
    "\<And>u. map_of m u = (if \<exists>s \<in> set seed_nfts. uri_of (rs_nfts st ! s) = Some u
         then Some (filter (\<lambda>s. uri_of (rs_nfts st ! s) = Some u) seed_nfts) else None)" by blast
  let ?uris = "{u. \<exists>s \<in> set seed_nfts. uri_of (rs_nfts st ! s) = Some u}"
  have keys: "fst ` set m = ?uris"
    using m(3) by (auto simp: dom_map_of_conv_image_fst [symmetric] dom_def split: if_splits)
  then have fin: "finite ?uris" by (metis finite_imageI finite_set)
  have "map (\<lambda>u. (u, the (map_of m u))) (sorted_list_of_set ?uris) =
      map (\<lambda>u. (u, filter (\<lambda>s. uri_of (rs_nfts st ! s) = Some u) seed_nfts)) (sorted_list_of_set ?uris)"
    using fin by (intro map_cong refl) (simp add: m(3))
  then show ?thesis using m(1,2) by (simp add: collect_queries_def sort_key_entries keys)
qed

end
