(* ===== verification/UriExact.thy ===== *)
theory UriExact
  imports UriHits
begin

text \<open>
  The URI query as a whole: which edges it appends, and that chunks computed in parallel give the
  same graph as the sequential loops.
\<close>

section \<open>The sink after a phase\<close>

type_synonym hit_step = "uri_scope \<times> nat list \<times> nat list"

definition phase_steps :: "nat \<Rightarrow> nat \<Rightarrow> (nat \<times> nat list \<Rightarrow> nat \<Rightarrow> nat list) \<Rightarrow> (nat \<times> nat list) list \<Rightarrow> hit_step list" where
  "phase_steps seed_chain n H qs =
     concat (map (\<lambda>q. map (\<lambda>c. (chain_scope seed_chain c, snd q, H q c)) (scope_order seed_chain n)) qs)"

lemma fold_queries_steps:
  "fold (query_fold edge seed_chain n H) qs sink =
     fold (\<lambda>(scope, srcs, hs). add_hits edge scope srcs hs) (phase_steps seed_chain n H qs) sink"
proof (induction qs arbitrary: sink)
  case (Cons q qs)
  then show ?case by (simp add: phase_steps_def query_fold_def fold_map comp_def)
qed (simp add: phase_steps_def)

lemma steps_edges:
  "hg_edges (us_graph (fold (\<lambda>(scope, srcs, hs). add_hits edge scope srcs hs) steps sink)) =
     hg_edges (us_graph sink) @ map edge (concat (map (snd \<circ> snd) steps))"
  by (induction steps arbitrary: sink) (auto simp: add_hits_def)

lemma extend_entries:
  "unwrap_or {} (fold (\<lambda>k. extend_entry k A) ks m k) = unwrap_or {} (m k) \<union> (if k \<in> set ks then A else {})"
  by (induction ks arbitrary: m) (auto simp: extend_entry_def)

lemma steps_scopes:
  assumes "us_hit_scopes sink = Some m"
  shows "\<exists>m'. us_hit_scopes (fold (\<lambda>(scope, srcs, hs). add_hits edge scope srcs hs) steps sink) = Some m' \<and>
    (\<forall>s. unwrap_or {} (m' s) = unwrap_or {} (m s) \<union> {scope. \<exists>srcs hs. (scope, srcs, hs) \<in> set steps \<and> hs \<noteq> [] \<and> s \<in> set srcs})"
  using assms
proof (induction steps arbitrary: sink m)
  case (Cons step steps)
  obtain scope srcs hs where step: "step = (scope, srcs, hs)" by (cases step)
  let ?m = "if hs = [] then m else fold (\<lambda>s. extend_entry s {scope}) srcs m"
  have "us_hit_scopes (add_hits edge scope srcs hs sink) = Some ?m" using Cons.prems by (simp add: add_hits_def)
  from Cons.IH [OF this] obtain m' where
    m': "us_hit_scopes (fold (\<lambda>(scope, srcs, hs). add_hits edge scope srcs hs) (step # steps) sink) = Some m'"
      "\<And>s. unwrap_or {} (m' s) = unwrap_or {} (?m s) \<union> {scope. \<exists>srcs hs. (scope, srcs, hs) \<in> set steps \<and> hs \<noteq> [] \<and> s \<in> set srcs}"
    by (auto simp: step)
  then show ?case by (intro exI [of _ m']) (auto simp: step extend_entries)
qed simp

lemma steps_candidates:
  assumes "us_hit_candidates sink = Some m"
  shows "\<exists>m'. us_hit_candidates (fold (\<lambda>(scope, srcs, hs). add_hits edge scope srcs hs) steps sink) = Some m' \<and>
    (\<forall>k. unwrap_or {} (m' k) = unwrap_or {} (m k) \<union> {i. \<exists>srcs hs. (k, srcs, hs) \<in> set steps \<and> i \<in> set hs})"
  using assms
proof (induction steps arbitrary: sink m)
  case (Cons step steps)
  obtain scope srcs hs where step: "step = (scope, srcs, hs)" by (cases step)
  let ?m = "if hs = [] then m else extend_entry scope (set hs) m"
  have "us_hit_candidates (add_hits edge scope srcs hs sink) = Some ?m" using Cons.prems by (simp add: add_hits_def)
  from Cons.IH [OF this] obtain m' where
    m': "us_hit_candidates (fold (\<lambda>(scope, srcs, hs). add_hits edge scope srcs hs) (step # steps) sink) = Some m'"
      "\<And>k. unwrap_or {} (m' k) = unwrap_or {} (?m k) \<union> {i. \<exists>srcs hs. (k, srcs, hs) \<in> set steps \<and> i \<in> set hs}"
    by (auto simp: step)
  then show ?case by (intro exI [of _ m']) (auto simp: step extend_entry_def)
qed simp

lemma distinct_concat_map:
  assumes "distinct xs" "\<And>x. x \<in> set xs \<Longrightarrow> distinct (f x)"
    "\<And>x y i. x \<in> set xs \<Longrightarrow> y \<in> set xs \<Longrightarrow> i \<in> set (f x) \<Longrightarrow> i \<in> set (f y) \<Longrightarrow> x = y"
  shows "distinct (concat (map f xs))"
  using assms
proof (induction xs)
  case (Cons x xs)
  have "distinct (concat (map f xs))" by (rule Cons.IH) (use Cons.prems in auto)
  moreover have "set (f x) \<inter> set (f y) = {}" if "y \<in> set xs" for y
  proof (rule ccontr)
    assume "set (f x) \<inter> set (f y) \<noteq> {}"
    then have "x = y" using Cons.prems(3) [of x y] that by auto
    with that Cons.prems(1) show False by simp
  qed
  ultimately show ?case using Cons.prems(2) [of x] by auto
qed simp

section \<open>The two phases on a store with indexes\<close>

definition seed_nft :: "'m resident_store \<Rightarrow> nat \<Rightarrow> nat \<Rightarrow> bool" where
  "seed_nft st seed s \<longleftrightarrow> s < length (rs_nfts st) \<and> nft_contract st s = seed"

definition seed_uris :: "'m resident_store \<Rightarrow> (nft \<Rightarrow> nat option) \<Rightarrow> nat \<Rightarrow> nat set" where
  "seed_uris st uri_of seed = {u. \<exists>s. seed_nft st seed s \<and> uri_of (rs_nfts st ! s) = Some u}"

definition seed_queries :: "'m resident_store \<Rightarrow> (nft \<Rightarrow> nat option) \<Rightarrow> nat \<Rightarrow> (nat \<times> nat list) list" where
  "seed_queries st uri_of seed =
     map (\<lambda>u. (u, filter (\<lambda>s. uri_of (rs_nfts st ! s) = Some u) (filter (\<lambda>s. nft_contract st s = seed) [0..<length (rs_nfts st)])))
       (sorted_list_of_set (seed_uris st uri_of seed))"

lemma finite_seed_uris [simp]: "finite (seed_uris st uri_of seed)"
proof -
  have "seed_uris st uri_of seed \<subseteq> (\<lambda>s. the (uri_of (rs_nfts st ! s))) ` {..<length (rs_nfts st)}"
    by (force simp: seed_uris_def seed_nft_def)
  then show ?thesis by (rule finite_subset) simp
qed

lemma seed_nfts_eq: "uri_ready st \<Longrightarrow> nfts_for_contract st seed = filter (\<lambda>s. nft_contract st s = seed) [0..<length (rs_nfts st)]"
  by (subst nfts_for_contract_eq) (simp_all add: uri_ready_def nft_contract_def)

lemma collect_seed_queries: "uri_ready st \<Longrightarrow> collect_queries st uri_of (nfts_for_contract st seed) = Inr (seed_queries st uri_of seed)"
  by (subst collect_queries_eq) (auto simp: seed_nfts_eq seed_queries_def seed_uris_def seed_nft_def intro!: map_cong arg_cong [where f = sorted_list_of_set])

lemma in_seed_queries:
  "q \<in> set (seed_queries st uri_of seed) \<Longrightarrow>
     fst q \<in> seed_uris st uri_of seed \<and> set (snd q) = {s. seed_nft st seed s \<and> uri_of (rs_nfts st ! s) = Some (fst q)}"
  by (auto simp: seed_queries_def seed_nft_def)

lemma distinct_seed_queries: "distinct (map fst (seed_queries st uri_of seed))"
  by (simp add: seed_queries_def comp_def)

definition seed_chain_of :: "'m resident_store \<Rightarrow> nat \<Rightarrow> nat" where
  "seed_chain_of st seed = ct_chain_id (rs_contracts st ! seed)"

lemma seed_nft_chain: "seed_nft st seed s \<Longrightarrow> chain_of_nft st s = seed_chain_of st seed"
  by (simp add: seed_nft_def chain_of_nft_def seed_chain_of_def)

lemma chain_of_nft_less: "uri_ready st \<Longrightarrow> i < length (rs_nfts st) \<Longrightarrow> chain_of_nft st i < length (rs_chains st)"
  by (simp add: uri_ready_def chain_of_nft_def)

lemma set_scope_order: "seed_chain < n \<Longrightarrow> set (scope_order seed_chain n) = {..<n}"
  by (auto simp: scope_order_def)

lemma distinct_scope_order: "distinct (scope_order seed_chain n)"
  by (simp add: scope_order_def)

text \<open>The hits of a URI on a chain, less those of an excluded set.\<close>

definition uri_hits :: "'m resident_store \<Rightarrow> (nft \<Rightarrow> nat option) \<Rightarrow> nat \<Rightarrow> (uri_scope \<Rightarrow> nat set) \<Rightarrow> (nat list \<Rightarrow> uri_scope set) \<Rightarrow>
    nat \<times> nat list \<Rightarrow> nat \<Rightarrow> nat list" where
  "uri_hits st uri_of seed excl skip q c =
     (let scope = chain_scope (seed_chain_of st seed) c
      in if scope \<in> skip (snd q) then [] else other_nfts st seed (excl scope) (uri_members st uri_of (fst q) c))"

lemma emit_query:
  fixes st :: "'m resident_store"
  assumes ready: "uri_ready st" and seed: "seed < length (rs_contracts st)" and bc: "length bc = length (rs_chains st)"
    and q: "q \<in> set (seed_queries st (uri_field token) seed)"
    and excl: "\<And>s scope. seed_nft st seed s \<Longrightarrow> s \<notin> excluded_in exclude scope"
    and skip: "unwrap_or {} skip = sk (snd q)"
  shows "emit_uri_hits st seed (seed_chain_of st seed) (snd q) d (map (uri_members st (uri_field token) (fst q)) [0..<length bc]) skip exclude sink =
    Inr (query_fold (hit_of st seed (seed_chain_of st seed) d) (seed_chain_of st seed) (length (rs_chains st))
      (uri_hits st (uri_field token) seed (excluded_in exclude) sk) q sink)"
proof -
  let ?bc = "map (uri_members st (uri_field token) (fst q)) [0..<length bc]" and ?chain = "seed_chain_of st seed"
  obtain s where s: "seed_nft st seed s" "uri_field token (rs_nfts st ! s) = Some (fst q)"
    using in_seed_queries [OF q] by (auto simp: seed_uris_def)
  have chain: "?chain < length (rs_chains st)" using ready seed by (simp add: uri_ready_def seed_chain_of_def)
  have "emit_uri_hits st seed ?chain (snd q) d ?bc skip exclude sink =
    Inr (fold (\<lambda>c. add_hits (hit_of st seed ?chain d) (chain_scope ?chain c) (snd q)
           (chain_hits st seed ?chain (unwrap_or {} skip) exclude ?bc c)) (scope_order ?chain (length ?bc)) sink)"
    using s chain bc ready excl [OF s(1)] seed_nft_chain [OF s(1)]
    by (intro emit_uri_hits_eq [of _ _ _ s]) (auto simp: in_uri_members uri_ready_def seed_nft_def)
  also have "\<dots> = Inr (query_fold (hit_of st seed ?chain d) ?chain (length (rs_chains st))
      (uri_hits st (uri_field token) seed (excluded_in exclude) sk) q sink)"
    unfolding query_fold_def using set_scope_order [OF chain] bc
    by (intro arg_cong [where f = Inr] fold_cong) (auto simp: chain_hits_def uri_hits_def skip Let_def)
  finally show ?thesis .
qed

lemma query_found: "uri_ready st \<Longrightarrow> q \<in> set (seed_queries st uri_of seed) \<Longrightarrow> \<exists>i < length (rs_nfts st). uri_of (rs_nfts st ! i) = Some (fst q)"
  using in_seed_queries [of q st uri_of seed] by (auto simp: seed_uris_def seed_nft_def)

abbreviation token_hits_of :: "'m resident_store \<Rightarrow> nat \<Rightarrow> nat \<times> nat list \<Rightarrow> nat \<Rightarrow> nat list" where
  "token_hits_of st seed \<equiv> uri_hits st nf_token_uri_id seed (\<lambda>_. {}) (\<lambda>_. {})"

lemma token_steps:
  assumes "uri_ready st" "seed < length (rs_contracts st)"
  shows "steps_as (token_query cancelled st seed (seed_chain_of st seed)) (\<lambda>q. cancelled (PollToken (fst q)))
    (query_fold (hit_of st seed (seed_chain_of st seed) TokenUri) (seed_chain_of st seed) (length (rs_chains st)) (token_hits_of st seed))
    (length (rs_chains st)) (seed_queries st nf_token_uri_id seed)"
  unfolding steps_as_def
proof (intro ballI allI impI)
  fix q :: "nat \<times> nat list" and bc :: "nat list list" and sink
  assume q: "q \<in> set (seed_queries st nf_token_uri_id seed)" and bc: "length bc = length (rs_chains st)"
  have field: "uri_field True = nf_token_uri_id" by (simp add: uri_field_def)
  have "excluded_in None = (\<lambda>_. {})" by (simp add: excluded_in_def fun_eq_iff)
  then have emit: "emit_uri_hits st seed (seed_chain_of st seed) (snd q) TokenUri (map (uri_members st nf_token_uri_id (fst q)) [0..<length bc]) None None sink =
    Inr (query_fold (hit_of st seed (seed_chain_of st seed) TokenUri) (seed_chain_of st seed) (length (rs_chains st)) (token_hits_of st seed) q sink)"
    using emit_query [OF assms bc, of q True None None "\<lambda>_. {}" TokenUri sink] q by (simp add: field)
  have fill: "fill_by_chain (rs_token_uri_csr st) (fst q) bc = Some (True, map (uri_members st nf_token_uri_id (fst q)) [0..<length bc])"
    using fill_by_chain_store [OF assms(1), of True "fst q" bc] assms(1) query_found [OF assms(1) q] by (simp add: uri_ready_def field)
  show "\<exists>bc'. length bc' = length (rs_chains st) \<and> token_query cancelled st seed (seed_chain_of st seed) q (bc, sink) =
    (if cancelled (PollToken (fst q)) then Inl (Error Cancelled)
     else Inr (bc', query_fold (hit_of st seed (seed_chain_of st seed) TokenUri) (seed_chain_of st seed) (length (rs_chains st)) (token_hits_of st seed) q sink))"
    using bc by (intro exI [of _ "map (uri_members st nf_token_uri_id (fst q)) [0..<length bc]"])
      (simp add: token_query_def case_prod_unfold check_cancelled_def fill [unfolded bc] emit [unfolded bc])
qed

lemma image_steps:
  assumes "uri_ready st" "seed < length (rs_contracts st)"
    and excl: "\<And>s scope. seed_nft st seed s \<Longrightarrow> s \<notin> unwrap_or {} (candidates scope)"
  shows "steps_as (image_query cancelled st seed (seed_chain_of st seed) scopes candidates) (\<lambda>q. cancelled (PollImage (fst q)))
    (query_fold (hit_of st seed (seed_chain_of st seed) ImageUri) (seed_chain_of st seed) (length (rs_chains st))
      (uri_hits st nf_image_uri_id seed (\<lambda>scope. unwrap_or {} (candidates scope)) (\<lambda>srcs. intersect_token_hit_scopes srcs scopes)))
    (length (rs_chains st)) (seed_queries st nf_image_uri_id seed)"
  unfolding steps_as_def
proof (intro ballI allI impI)
  fix q :: "nat \<times> nat list" and bc :: "nat list list" and sink
  let ?H = "uri_hits st nf_image_uri_id seed (\<lambda>scope. unwrap_or {} (candidates scope)) (\<lambda>srcs. intersect_token_hit_scopes srcs scopes)"
  let ?skip = "if intersect_token_hit_scopes (snd q) scopes = {} then None else Some (intersect_token_hit_scopes (snd q) scopes)"
  assume q: "q \<in> set (seed_queries st nf_image_uri_id seed)" and bc: "length bc = length (rs_chains st)"
  have field: "uri_field False = nf_image_uri_id" by (simp add: uri_field_def)
  have ex: "excluded_in (Some candidates) = (\<lambda>scope. unwrap_or {} (candidates scope))" by (simp add: excluded_in_def fun_eq_iff)
  have emit: "emit_uri_hits st seed (seed_chain_of st seed) (snd q) ImageUri (map (uri_members st nf_image_uri_id (fst q)) [0..<length bc]) ?skip (Some candidates) sink =
    Inr (query_fold (hit_of st seed (seed_chain_of st seed) ImageUri) (seed_chain_of st seed) (length (rs_chains st)) ?H q sink)"
    using emit_query [OF assms(1,2) bc, of q False "Some candidates" ?skip "\<lambda>srcs. intersect_token_hit_scopes srcs scopes" ImageUri sink] q excl
    by (simp add: field ex)
  have fill: "fill_by_chain (rs_image_uri_csr st) (fst q) bc = Some (True, map (uri_members st nf_image_uri_id (fst q)) [0..<length bc])"
    using fill_by_chain_store [OF assms(1), of False "fst q" bc] assms(1) query_found [OF assms(1) q] by (simp add: uri_ready_def field)
  show "\<exists>bc'. length bc' = length (rs_chains st) \<and> image_query cancelled st seed (seed_chain_of st seed) scopes candidates q (bc, sink) =
    (if cancelled (PollImage (fst q)) then Inl (Error Cancelled)
     else Inr (bc', query_fold (hit_of st seed (seed_chain_of st seed) ImageUri) (seed_chain_of st seed) (length (rs_chains st)) ?H q sink))"
    using bc by (intro exI [of _ "map (uri_members st nf_image_uri_id (fst q)) [0..<length bc]"])
      (simp add: image_query_def case_prod_unfold check_cancelled_def fill [unfolded bc] emit [unfolded bc] Let_def)
qed

section \<open>The NFTs a phase hits\<close>

lemma chain_scope_eq [simp]: "chain_scope seed_chain c = chain_scope seed_chain c' \<longleftrightarrow> c = c'"
  by (auto simp: chain_scope_def)

lemma in_uri_hits:
  "i \<in> set (uri_hits st uri_of seed excl skip q c) \<longleftrightarrow>
     i < length (rs_nfts st) \<and> uri_of (rs_nfts st ! i) = Some (fst q) \<and> chain_of_nft st i = c \<and> nft_contract st i \<noteq> seed \<and>
     chain_scope (seed_chain_of st seed) c \<notin> skip (snd q) \<and> i \<notin> excl (chain_scope (seed_chain_of st seed) c)"
  by (auto simp: uri_hits_def other_nfts_def in_uri_members Let_def)

lemma distinct_uri_hits: "distinct (uri_hits st uri_of seed excl skip q c)"
  by (simp add: uri_hits_def other_nfts_def Let_def)

lemma phase_steps_concat:
  "concat (map (snd \<circ> snd) (phase_steps sc n H qs)) = concat (map (\<lambda>q. concat (map (H q) (scope_order sc n))) qs)"
  by (induction qs) (simp_all add: phase_steps_def comp_def)

lemma phase_indices:
  fixes st :: "'m resident_store" and uri_of :: "nft \<Rightarrow> nat option" and seed :: nat
    and excl :: "uri_scope \<Rightarrow> nat set" and skip :: "nat list \<Rightarrow> uri_scope set"
  assumes "uri_ready st" "seed < length (rs_contracts st)"
  defines "sc \<equiv> seed_chain_of st seed" and "n \<equiv> length (rs_chains st)" and "qs \<equiv> seed_queries st uri_of seed"
  defines "is \<equiv> concat (map (snd \<circ> snd) (phase_steps sc n (uri_hits st uri_of seed excl skip) qs))"
  shows "distinct is" "set is = {i. \<exists>q \<in> set qs. i \<in> set (uri_hits st uri_of seed excl skip q (chain_of_nft st i))}"
proof -
  let ?H = "uri_hits st uri_of seed excl skip"
  have order: "set (scope_order sc n) = {..<n}"
    using assms(1,2) by (intro set_scope_order) (simp add: uri_ready_def sc_def n_def seed_chain_of_def)
  have eq: "is = concat (map (\<lambda>q. concat (map (?H q) (scope_order sc n))) qs)"
    unfolding is_def by (rule phase_steps_concat)
  have keys: "distinct (map fst qs)" unfolding qs_def by (rule distinct_seed_queries)
  then have same: "q = q'" if "q \<in> set qs" "q' \<in> set qs" "fst q = fst q'" for q q'
    using that by (metis eq_key_imp_eq_value prod.collapse)
  show "distinct is" unfolding eq
  proof (rule distinct_concat_map)
    show "distinct qs" using keys by (simp add: distinct_map)
    show "distinct (concat (map (?H q) (scope_order sc n)))" for q
      by (rule distinct_concat_map) (auto simp: distinct_scope_order distinct_uri_hits in_uri_hits)
    show "q = q'" if "q \<in> set qs" "q' \<in> set qs" "i \<in> set (concat (map (?H q) (scope_order sc n)))"
      "i \<in> set (concat (map (?H q') (scope_order sc n)))" for q q' i
      using that by (intro same) (auto simp: in_uri_hits)
  qed
  show "set is = {i. \<exists>q \<in> set qs. i \<in> set (?H q (chain_of_nft st i))}"
  proof -
    have "i \<in> set (?H q c) \<longleftrightarrow> c = chain_of_nft st i \<and> c < n \<and> i \<in> set (?H q (chain_of_nft st i))" for i q c
      using chain_of_nft_less [OF assms(1), of i] by (auto simp: in_uri_hits n_def)
    moreover have "i \<in> set is \<longleftrightarrow> (\<exists>q \<in> set qs. \<exists>c < n. i \<in> set (?H q c))" for i
      by (simp add: eq order) blast
    ultimately show ?thesis by blast
  qed
qed

definition token_hit :: "'m resident_store \<Rightarrow> nat \<Rightarrow> nat \<Rightarrow> bool" where
  "token_hit st seed i \<longleftrightarrow>
     i < length (rs_nfts st) \<and> nft_contract st i \<noteq> seed \<and>
     (\<exists>s u. seed_nft st seed s \<and> nf_token_uri_id (rs_nfts st ! s) = Some u \<and> nf_token_uri_id (rs_nfts st ! i) = Some u)"

text \<open>An NFT of the seed reaches a chain by its token URI.\<close>

definition token_reaches :: "'m resident_store \<Rightarrow> nat \<Rightarrow> nat \<Rightarrow> nat \<Rightarrow> bool" where
  "token_reaches st seed s c \<longleftrightarrow>
     (\<exists>j u. j < length (rs_nfts st) \<and> nft_contract st j \<noteq> seed \<and> chain_of_nft st j = c \<and>
        nf_token_uri_id (rs_nfts st ! s) = Some u \<and> nf_token_uri_id (rs_nfts st ! j) = Some u)"

definition image_hit :: "'m resident_store \<Rightarrow> nat \<Rightarrow> nat \<Rightarrow> bool" where
  "image_hit st seed i \<longleftrightarrow>
     i < length (rs_nfts st) \<and> nft_contract st i \<noteq> seed \<and> \<not> token_hit st seed i \<and>
     (\<exists>s u. seed_nft st seed s \<and> nf_image_uri_id (rs_nfts st ! s) = Some u \<and> nf_image_uri_id (rs_nfts st ! i) = Some u \<and>
        \<not> token_reaches st seed s (chain_of_nft st i))"

lemma in_queries_iff:
  "(\<exists>q \<in> set (seed_queries st uri_of seed). P (fst q) (set (snd q))) \<longleftrightarrow>
     (\<exists>u \<in> seed_uris st uri_of seed. P u {s. seed_nft st seed s \<and> uri_of (rs_nfts st ! s) = Some u})"
  by (auto simp: seed_queries_def seed_nft_def conj_commute conj_left_commute)

lemma token_indices:
  "(\<exists>q \<in> set (seed_queries st nf_token_uri_id seed). i \<in> set (token_hits_of st seed q (chain_of_nft st i))) \<longleftrightarrow> token_hit st seed i"
  using in_queries_iff [of st nf_token_uri_id seed "\<lambda>u _. i < length (rs_nfts st) \<and> nf_token_uri_id (rs_nfts st ! i) = Some u \<and> nft_contract st i \<noteq> seed"]
  by (auto simp: in_uri_hits token_hit_def seed_uris_def)

lemma intersect_scopes:
  assumes "srcs \<noteq> []"
  shows "scope \<in> intersect_token_hit_scopes srcs scopes \<longleftrightarrow> (\<forall>s \<in> set srcs. scope \<in> unwrap_or {} (scopes s))"
proof -
  have fold: "scope \<in> fold (\<lambda>s output. {scope \<in> output. is_some_and (\<lambda>candidate. scope \<in> candidate) (scopes s)}) ss A \<longleftrightarrow>
      scope \<in> A \<and> (\<forall>s \<in> set ss. scope \<in> unwrap_or {} (scopes s))" for ss A
    by (induction ss arbitrary: A) (auto simp: is_some_and_member)
  obtain s ss where "srcs = s # ss" using assms by (cases srcs) auto
  then show ?thesis by (cases "scopes s") (simp_all add: intersect_token_hit_scopes_def fold)
qed

text \<open>What the maps hold after the token phase.\<close>

lemma token_phase_maps:
  fixes st :: "'m resident_store"
  assumes ready: "uri_ready st" and seed: "seed < length (rs_contracts st)"
  defines "sc \<equiv> seed_chain_of st seed"
  defines "steps \<equiv> phase_steps sc (length (rs_chains st)) (token_hits_of st seed) (seed_queries st nf_token_uri_id seed)"
  shows "seed_nft st seed s \<Longrightarrow> c < length (rs_chains st) \<Longrightarrow>
      chain_scope sc c \<in> {scope. \<exists>srcs hs. (scope, srcs, hs) \<in> set steps \<and> hs \<noteq> [] \<and> s \<in> set srcs} \<longleftrightarrow> token_reaches st seed s c"
    "i \<in> {i. \<exists>srcs hs. (k, srcs, hs) \<in> set steps \<and> i \<in> set hs} \<longleftrightarrow> token_hit st seed i \<and> k = chain_scope sc (chain_of_nft st i)"
proof -
  have order: "set (scope_order sc (length (rs_chains st))) = {..<length (rs_chains st)}"
    using assms(1,2) by (intro set_scope_order) (simp add: uri_ready_def sc_def seed_chain_of_def)
  have steps: "(scope, srcs, hs) \<in> set steps \<longleftrightarrow> (\<exists>q \<in> set (seed_queries st nf_token_uri_id seed). \<exists>c < length (rs_chains st).
      scope = chain_scope sc c \<and> srcs = snd q \<and> hs = token_hits_of st seed q c)" for scope srcs hs
    by (auto simp: steps_def phase_steps_def order)
  {
    assume s: "seed_nft st seed s" and c: "c < length (rs_chains st)"
    have "chain_scope sc c \<in> {scope. \<exists>srcs hs. (scope, srcs, hs) \<in> set steps \<and> hs \<noteq> [] \<and> s \<in> set srcs} \<longleftrightarrow>
        (\<exists>q \<in> set (seed_queries st nf_token_uri_id seed). s \<in> set (snd q) \<and> (\<exists>j. j \<in> set (token_hits_of st seed q c)))"
    proof -
      have "hs \<noteq> [] \<longleftrightarrow> (\<exists>j. j \<in> set hs)" for hs :: "nat list" by (cases hs) auto
      then show ?thesis using c unfolding steps mem_Collect_eq chain_scope_eq by blast
    qed
    also have "\<dots> \<longleftrightarrow> token_reaches st seed s c"
      using s in_queries_iff [of st nf_token_uri_id seed "\<lambda>u S. s \<in> S \<and> (\<exists>j < length (rs_nfts st). nf_token_uri_id (rs_nfts st ! j) = Some u \<and> chain_of_nft st j = c \<and> nft_contract st j \<noteq> seed)"]
      by (auto simp: in_uri_hits token_reaches_def seed_uris_def)
    finally show "chain_scope sc c \<in> {scope. \<exists>srcs hs. (scope, srcs, hs) \<in> set steps \<and> hs \<noteq> [] \<and> s \<in> set srcs} \<longleftrightarrow> token_reaches st seed s c" .
  }
  let ?Q = "set (seed_queries st nf_token_uri_id seed)"
  have at: "i \<in> set (token_hits_of st seed q c) \<longleftrightarrow>
      c = chain_of_nft st i \<and> c < length (rs_chains st) \<and> i \<in> set (token_hits_of st seed q (chain_of_nft st i))" for q c
    using chain_of_nft_less [OF ready, of i] by (auto simp: in_uri_hits)
  have "i \<in> {i. \<exists>srcs hs. (k, srcs, hs) \<in> set steps \<and> i \<in> set hs} \<longleftrightarrow>
      (\<exists>q \<in> ?Q. \<exists>c < length (rs_chains st). k = chain_scope sc c \<and> i \<in> set (token_hits_of st seed q c))"
    unfolding mem_Collect_eq steps by blast
  also have "\<dots> \<longleftrightarrow> (\<exists>q \<in> ?Q. i \<in> set (token_hits_of st seed q (chain_of_nft st i))) \<and> k = chain_scope sc (chain_of_nft st i)"
  proof
    assume "\<exists>q \<in> ?Q. \<exists>c < length (rs_chains st). k = chain_scope sc c \<and> i \<in> set (token_hits_of st seed q c)"
    then obtain q c where q: "q \<in> ?Q" "k = chain_scope sc c" "i \<in> set (token_hits_of st seed q c)" by blast
    with at [of q c] show "(\<exists>q \<in> ?Q. i \<in> set (token_hits_of st seed q (chain_of_nft st i))) \<and> k = chain_scope sc (chain_of_nft st i)"
      by auto
  next
    assume "(\<exists>q \<in> ?Q. i \<in> set (token_hits_of st seed q (chain_of_nft st i))) \<and> k = chain_scope sc (chain_of_nft st i)"
    then obtain q where q: "q \<in> ?Q" "i \<in> set (token_hits_of st seed q (chain_of_nft st i))" "k = chain_scope sc (chain_of_nft st i)" by blast
    with at [of q "chain_of_nft st i"]
    show "\<exists>q \<in> ?Q. \<exists>c < length (rs_chains st). k = chain_scope sc c \<and> i \<in> set (token_hits_of st seed q c)" by blast
  qed
  finally have "i \<in> {i. \<exists>srcs hs. (k, srcs, hs) \<in> set steps \<and> i \<in> set hs} \<longleftrightarrow>
      (\<exists>q \<in> ?Q. i \<in> set (token_hits_of st seed q (chain_of_nft st i))) \<and> k = chain_scope sc (chain_of_nft st i)" .
  then show "i \<in> {i. \<exists>srcs hs. (k, srcs, hs) \<in> set steps \<and> i \<in> set hs} \<longleftrightarrow> token_hit st seed i \<and> k = chain_scope sc (chain_of_nft st i)"
    by (simp add: token_indices)
qed

lemma image_indices:
  fixes st :: "'m resident_store"
  assumes ready: "uri_ready st"
    and scopes: "\<And>s c. seed_nft st seed s \<Longrightarrow> c < length (rs_chains st) \<Longrightarrow>
      chain_scope (seed_chain_of st seed) c \<in> unwrap_or {} (scopes s) \<longleftrightarrow> token_reaches st seed s c"
    and cands: "\<And>i k. i \<in> unwrap_or {} (cands k) \<longleftrightarrow> token_hit st seed i \<and> k = chain_scope (seed_chain_of st seed) (chain_of_nft st i)"
  shows "(\<exists>q \<in> set (seed_queries st nf_image_uri_id seed).
      i \<in> set (uri_hits st nf_image_uri_id seed (\<lambda>scope. unwrap_or {} (cands scope)) (\<lambda>srcs. intersect_token_hit_scopes srcs scopes) q (chain_of_nft st i))) \<longleftrightarrow>
    image_hit st seed i" (is "?L \<longleftrightarrow> _")
proof -
  let ?P = "\<lambda>u S. i < length (rs_nfts st) \<and> nf_image_uri_id (rs_nfts st ! i) = Some u \<and> nft_contract st i \<noteq> seed \<and>
      (\<exists>s \<in> S. \<not> token_reaches st seed s (chain_of_nft st i)) \<and> \<not> token_hit st seed i"
  have "i \<in> set (uri_hits st nf_image_uri_id seed (\<lambda>scope. unwrap_or {} (cands scope)) (\<lambda>srcs. intersect_token_hit_scopes srcs scopes) q (chain_of_nft st i)) \<longleftrightarrow>
      ?P (fst q) (set (snd q))" if q: "q \<in> set (seed_queries st nf_image_uri_id seed)" for q
  proof -
    have seeds: "\<forall>s \<in> set (snd q). seed_nft st seed s" and "snd q \<noteq> []"
      using in_seed_queries [OF q] by (auto simp: seed_uris_def)
    then show ?thesis
      using scopes chain_of_nft_less [OF ready, of i] by (auto simp: in_uri_hits intersect_scopes cands)
  qed
  then have "?L \<longleftrightarrow> (\<exists>q \<in> set (seed_queries st nf_image_uri_id seed). ?P (fst q) (set (snd q)))" by blast
  then show ?thesis unfolding in_queries_iff [of st nf_image_uri_id seed ?P]
    by (auto simp: image_hit_def seed_uris_def)
qed

section \<open>The whole query\<close>

lemma merge_fresh:
  "us_hit_scopes s \<noteq> None \<Longrightarrow> us_hit_candidates s \<noteq> None \<Longrightarrow> merge_chunk new_token_sink s = s"
  "us_hit_scopes s = None \<Longrightarrow> us_hit_candidates s = None \<Longrightarrow> merge_chunk new_image_sink s = s"
  by (cases s; cases "us_graph s"; auto simp: merge_chunk_def append_graph_def new_token_sink_def new_image_sink_def
      hit_graph_new_def merge_entries_def)+

lemma fresh_fields [simp]:
  "us_hit_scopes new_token_sink = Some (\<lambda>_. None)" "us_hit_candidates new_token_sink = Some (\<lambda>_. None)"
  "us_hit_scopes new_image_sink = None" "us_hit_candidates new_image_sink = None"
  by (simp_all add: new_token_sink_def new_image_sink_def)

definition uri_cancelled :: "(uri_poll \<Rightarrow> bool) \<Rightarrow> 'm resident_store \<Rightarrow> nat \<Rightarrow> bool" where
  "uri_cancelled cancelled st seed \<longleftrightarrow>
     cancelled PollStart \<or> (\<exists>u \<in> seed_uris st nf_token_uri_id seed. cancelled (PollToken u)) \<or>
     (\<exists>u \<in> seed_uris st nf_image_uri_id seed. cancelled (PollImage u))"

lemma seed_query_keys: "fst ` set (seed_queries st uri_of seed) = seed_uris st uri_of seed"
  by (auto simp: seed_queries_def image_image)

lemma run_token_queries:
  assumes "uri_ready st" "seed < length (rs_contracts st)" "length bc = length (rs_chains st)"
  shows "\<exists>bc'. length bc' = length (rs_chains st) \<and>
    run_queries par (length (rs_chains st)) (token_query cancelled st seed (seed_chain_of st seed)) new_token_sink
      (seed_queries st nf_token_uri_id seed) (bc, new_token_sink\<lparr>us_graph := graph\<rparr>) =
    (if \<exists>u \<in> seed_uris st nf_token_uri_id seed. cancelled (PollToken u) then Inl (Error Cancelled)
     else Inr (bc', fold (query_fold (hit_of st seed (seed_chain_of st seed) TokenUri) (seed_chain_of st seed) (length (rs_chains st)) (token_hits_of st seed))
       (seed_queries st nf_token_uri_id seed) (new_token_sink\<lparr>us_graph := graph\<rparr>)))"
proof -
  have stop: "(\<exists>q \<in> set (seed_queries st nf_token_uri_id seed). cancelled (PollToken (fst q))) \<longleftrightarrow> (\<exists>u \<in> seed_uris st nf_token_uri_id seed. cancelled (PollToken u))"
    by (simp add: seed_query_keys [symmetric])
  show ?thesis unfolding stop [symmetric]
    by (rule steps_run [OF token_steps [OF assms(1,2)] assms(3)]) (simp_all add: merge_fresh accepts_def)
qed

lemma run_image_queries:
  assumes "uri_ready st" "seed < length (rs_contracts st)" "length bc = length (rs_chains st)"
    and "\<And>s scope. seed_nft st seed s \<Longrightarrow> s \<notin> unwrap_or {} (cands scope)"
  shows "\<exists>bc'. length bc' = length (rs_chains st) \<and>
    run_queries par (length (rs_chains st)) (image_query cancelled st seed (seed_chain_of st seed) scopes cands) new_image_sink
      (seed_queries st nf_image_uri_id seed) (bc, new_image_sink\<lparr>us_graph := graph\<rparr>) =
    (if \<exists>u \<in> seed_uris st nf_image_uri_id seed. cancelled (PollImage u) then Inl (Error Cancelled)
     else Inr (bc', fold (query_fold (hit_of st seed (seed_chain_of st seed) ImageUri) (seed_chain_of st seed) (length (rs_chains st))
         (uri_hits st nf_image_uri_id seed (\<lambda>scope. unwrap_or {} (cands scope)) (\<lambda>srcs. intersect_token_hit_scopes srcs scopes)))
       (seed_queries st nf_image_uri_id seed) (new_image_sink\<lparr>us_graph := graph\<rparr>)))"
proof -
  have stop: "(\<exists>q \<in> set (seed_queries st nf_image_uri_id seed). cancelled (PollImage (fst q))) \<longleftrightarrow> (\<exists>u \<in> seed_uris st nf_image_uri_id seed. cancelled (PollImage u))"
    by (simp add: seed_query_keys [symmetric])
  show ?thesis unfolding stop [symmetric]
    by (rule steps_run [OF image_steps [OF assms(1,2,4)] assms(3)]) (simp_all add: merge_fresh accepts_def)
qed

lemma query_edges:
  fixes st :: "'m resident_store"
  assumes ready: "uri_ready st" and seed: "seed < length (rs_contracts st)" and bc: "length bc = length (rs_chains st)"
  shows "\<exists>es. distinct es \<and>
    set es = hit_of st seed (seed_chain_of st seed) TokenUri ` {i. token_hit st seed i} \<union>
      hit_of st seed (seed_chain_of st seed) ImageUri ` {i. image_hit st seed i} \<and>
    (\<forall>par. query_uri_for_seed_with_scratch par cancelled st seed bc graph =
       (if uri_cancelled cancelled st seed then Inl (Error Cancelled) else Inr \<lparr>hg_edges = hg_edges graph @ es\<rparr>))"
proof -
  let ?chain = "seed_chain_of st seed" and ?n = "length (rs_chains st)"
  let ?tq = "seed_queries st nf_token_uri_id seed" and ?iq = "seed_queries st nf_image_uri_id seed"
  let ?steps = "phase_steps ?chain ?n (token_hits_of st seed) ?tq"
  define sink where "sink = fold (query_fold (hit_of st seed ?chain TokenUri) ?chain ?n (token_hits_of st seed)) ?tq (new_token_sink\<lparr>us_graph := graph\<rparr>)"
  have sink_steps: "sink = fold (\<lambda>(scope, srcs, hs). add_hits (hit_of st seed ?chain TokenUri) scope srcs hs) ?steps (new_token_sink\<lparr>us_graph := graph\<rparr>)"
    unfolding sink_def by (rule fold_queries_steps)
  have start: "us_hit_scopes (new_token_sink\<lparr>us_graph := graph\<rparr>) = Some (\<lambda>_. None)"
    "us_hit_candidates (new_token_sink\<lparr>us_graph := graph\<rparr>) = Some (\<lambda>_. None)" by simp_all
  obtain scopes where sc: "us_hit_scopes sink = Some scopes"
    "\<And>s. unwrap_or {} (scopes s) = {scope. \<exists>srcs hs. (scope, srcs, hs) \<in> set ?steps \<and> hs \<noteq> [] \<and> s \<in> set srcs}"
    using steps_scopes [OF start(1), of "hit_of st seed ?chain TokenUri" ?steps] unfolding sink_steps by (auto simp del: fold_simps)
  obtain cands where cn: "us_hit_candidates sink = Some cands"
    "\<And>k. unwrap_or {} (cands k) = {i. \<exists>srcs hs. (k, srcs, hs) \<in> set ?steps \<and> i \<in> set hs}"
    using steps_candidates [OF start(2), of "hit_of st seed ?chain TokenUri" ?steps] unfolding sink_steps by (auto simp del: fold_simps)
  note maps = token_phase_maps [OF ready seed]
  let ?H = "uri_hits st nf_image_uri_id seed (\<lambda>scope. unwrap_or {} (cands scope)) (\<lambda>srcs. intersect_token_hit_scopes srcs scopes)"
  have cands_hit: "i \<in> unwrap_or {} (cands k) \<longleftrightarrow> token_hit st seed i \<and> k = chain_scope ?chain (chain_of_nft st i)" for i k
    unfolding cn(2) by (rule maps(2))
  have scopes_reach: "seed_nft st seed s \<Longrightarrow> c < ?n \<Longrightarrow> chain_scope ?chain c \<in> unwrap_or {} (scopes s) \<longleftrightarrow> token_reaches st seed s c" for s c
    unfolding sc(2) by (rule maps(1))
  have excl: "s \<notin> unwrap_or {} (cands scope)" if "seed_nft st seed s" for s scope
    using that by (auto simp: cands_hit token_hit_def seed_nft_def)
  define result where "result = fold (query_fold (hit_of st seed ?chain ImageUri) ?chain ?n ?H) ?iq (new_image_sink\<lparr>us_graph := us_graph sink\<rparr>)"
  let ?ts = "concat (map (snd \<circ> snd) ?steps)" and ?is = "concat (map (snd \<circ> snd) (phase_steps ?chain ?n ?H ?iq))"
  let ?es = "map (hit_of st seed ?chain TokenUri) ?ts @ map (hit_of st seed ?chain ImageUri) ?is"
  have edges: "hg_edges (us_graph result) = hg_edges graph @ ?es"
    unfolding result_def fold_queries_steps steps_edges by (simp add: sink_steps steps_edges)
  have inj: "inj (hit_of st seed ?chain d)" for d by (auto simp: inj_def hit_of_def)
  have ts: "distinct ?ts" "set ?ts = {i. token_hit st seed i}"
    using phase_indices [OF ready seed, where uri_of = nf_token_uri_id and excl = "\<lambda>_. {}" and skip = "\<lambda>_. {}"] token_indices [of st seed] by simp_all
  have "is": "distinct ?is" "set ?is = {i. image_hit st seed i}"
    using phase_indices [OF ready seed, where uri_of = nf_image_uri_id] image_indices [OF ready scopes_reach cands_hit] by simp_all
  have "distinct ?es"
    using ts(1) "is"(1) inj by (auto simp: distinct_map inj_on_def inj_def hit_of_def)
  moreover have "set ?es = hit_of st seed ?chain TokenUri ` {i. token_hit st seed i} \<union> hit_of st seed ?chain ImageUri ` {i. image_hit st seed i}"
    using ts(2) "is"(2) by simp
  moreover have "query_uri_for_seed_with_scratch par cancelled st seed bc graph =
      (if uri_cancelled cancelled st seed then Inl (Error Cancelled) else Inr \<lparr>hg_edges = hg_edges graph @ ?es\<rparr>)" for par
  proof -
    obtain bc1 where tok: "length bc1 = ?n"
      "run_queries par ?n (token_query cancelled st seed ?chain) new_token_sink ?tq (bc, new_token_sink\<lparr>us_graph := graph\<rparr>) =
        (if \<exists>u \<in> seed_uris st nf_token_uri_id seed. cancelled (PollToken u) then Inl (Error Cancelled) else Inr (bc1, sink))"
      using run_token_queries [OF ready seed bc] unfolding sink_def by blast
    obtain bc2 where img: "run_queries par ?n (image_query cancelled st seed ?chain scopes cands) new_image_sink ?iq (bc1, new_image_sink\<lparr>us_graph := us_graph sink\<rparr>) =
        (if \<exists>u \<in> seed_uris st nf_image_uri_id seed. cancelled (PollImage u) then Inl (Error Cancelled) else Inr (bc2, result))"
      using run_image_queries [OF ready seed tok(1), where cands = cands, OF excl] unfolding result_def by blast
    have "us_graph result = \<lparr>hg_edges = hg_edges graph @ ?es\<rparr>" using edges by (cases "us_graph result") simp
    with seed tok(2) img show ?thesis
      by (simp add: query_uri_for_seed_with_scratch_def check_cancelled_def uri_cancelled_def collect_seed_queries [OF ready] Let_def
          seed_chain_of_def [symmetric] sc(1) cn(1))
  qed
  ultimately show ?thesis by blast
qed

text \<open>C25. On a store whose posting indexes are built, a URI query that is not cancelled appends to the
  graph one edge for every NFT outside the seed that shares its token URI with an NFT of the seed, and
  one for every NFT outside the seed without such a hit that shares its image URI with an NFT of the
  seed, provided that one of the seed's NFTs with this image has no token hit on the chain of the NFT.
  No edge comes twice; the score is 1 and the scope is the chain of the hit NFT.\<close>

theorem query_uri_exact:
  assumes "uri_ready st" "seed < length (rs_contracts st)" "\<not> uri_cancelled cancelled st seed"
  shows "\<exists>es. query_uri_for_seed par cancelled st seed graph = Inr \<lparr>hg_edges = hg_edges graph @ es\<rparr> \<and> distinct es \<and>
    set es = hit_of st seed (seed_chain_of st seed) TokenUri ` {i. token_hit st seed i} \<union>
      hit_of st seed (seed_chain_of st seed) ImageUri ` {i. image_hit st seed i}"
  using query_edges [OF assms(1,2), of "for_chain_count (length (rs_chains st))" cancelled graph] assms(3)
  by (auto simp: query_uri_for_seed_def for_chain_count_def)

text \<open>A store with a seed on chain 0, a contract sharing its token URI and one on chain 1 sharing its
  image URI.\<close>

definition uri_example_contract :: "nat \<Rightarrow> nat \<Rightarrow> contract" where
  "uri_example_contract i chain =
     \<lparr>ct_id = i, ct_chain_id = chain, ct_address = ''0x1'', ct_nft_count = 1, ct_name_id = None, ct_metadata_by_token = []\<rparr>"

definition uri_example_nft :: "nat \<Rightarrow> nat option \<Rightarrow> nat option \<Rightarrow> nft" where
  "uri_example_nft c token_uri image_uri =
     \<lparr>nf_contract_id = c, nf_token_id_id = 9, nf_name_id = None, nf_token_uri_id = token_uri, nf_image_uri_id = image_uri\<rparr>"

definition uri_example :: "unit resident_store" where
  "uri_example = rebuild_uri_csr ((store_new ())\<lparr>rs_chains := [''ethereum'', ''base''],
     rs_contracts := [uri_example_contract 0 0, uri_example_contract 1 0, uri_example_contract 2 1],
     rs_nfts := [uri_example_nft 0 (Some 1) (Some 5), uri_example_nft 1 (Some 1) None, uri_example_nft 2 None (Some 5)]\<rparr>)"

lemma uri_example_fields [simp]:
  "rs_chains uri_example = [''ethereum'', ''base'']"
  "rs_contracts uri_example = [uri_example_contract 0 0, uri_example_contract 1 0, uri_example_contract 2 1]"
  "rs_nfts uri_example = [uri_example_nft 0 (Some 1) (Some 5), uri_example_nft 1 (Some 1) None, uri_example_nft 2 None (Some 5)]"
  by (simp_all add: uri_example_def rebuild_uri_csr_def)

lemma uri_example_ready: "uri_ready uri_example"
  by (auto simp: uri_ready_def nft_contract_def uri_example_contract_def uri_example_nft_def less_Suc_eq)
    (simp_all add: uri_example_def rebuild_uri_csr_def uri_example_contract_def uri_example_nft_def)

lemma uri_example_seed: "seed_nft uri_example 0 s \<longleftrightarrow> s = 0"
  by (auto simp: seed_nft_def nft_contract_def uri_example_nft_def less_Suc_eq)

lemma uri_example_others: "j < length (rs_nfts uri_example) \<and> nft_contract uri_example j \<noteq> 0 \<longleftrightarrow> j = 1 \<or> j = 2"
  by (auto simp: nft_contract_def uri_example_nft_def less_Suc_eq)

lemma uri_example_hits: "{i. token_hit uri_example 0 i} = {1}" "{i. image_hit uri_example 0 i} = {2}"
proof -
  have t: "token_hit uri_example 0 i \<longleftrightarrow> i = 1" for i
    using uri_example_others [of i] unfolding token_hit_def uri_example_seed by (auto simp: uri_example_nft_def)
  then show "{i. token_hit uri_example 0 i} = {1}" by simp
  have chains: "chain_of_nft uri_example 1 = 0" "chain_of_nft uri_example 2 = 1"
    by (simp_all add: chain_of_nft_def nft_contract_def uri_example_nft_def uri_example_contract_def)
  have "\<not> token_reaches uri_example 0 0 (chain_of_nft uri_example 2)"
  proof
    assume "token_reaches uri_example 0 0 (chain_of_nft uri_example 2)"
    then obtain j u where j: "j < length (rs_nfts uri_example)" "nft_contract uri_example j \<noteq> 0"
      "chain_of_nft uri_example j = 1" "nf_token_uri_id (rs_nfts uri_example ! j) = Some u"
      unfolding token_reaches_def chains by blast
    then have "j = 1 \<or> j = 2" using uri_example_others [of j] by blast
    with j(3,4) chains show False by (auto simp: uri_example_nft_def)
  qed
  then have "image_hit uri_example 0 i \<longleftrightarrow> i = 2" for i
    using uri_example_others [of i] unfolding image_hit_def t uri_example_seed by (auto simp: uri_example_nft_def)
  then show "{i. image_hit uri_example 0 i} = {2}" by simp
qed

theorem query_uri_exact_witness:
  "\<exists>es. query_uri_for_seed False (\<lambda>_. False) uri_example 0 hit_graph_new = Inr \<lparr>hg_edges = es\<rparr> \<and> distinct es \<and>
     set es = {hit_of uri_example 0 0 TokenUri 1, hit_of uri_example 0 0 ImageUri 2}"
  using query_uri_exact [OF uri_example_ready, of 0 "\<lambda>_. False" False hit_graph_new]
  by (auto simp: uri_cancelled_def uri_example_hits hit_graph_new_def seed_chain_of_def uri_example_contract_def)

text \<open>C26. Running the URI queries of a seed in chunks on a thread pool and merging their graphs, hit
  scopes and candidates gives the same result as the sequential loops, the same edges in the same
  order or the same cancellation.\<close>

theorem query_uri_parallel:
  assumes "uri_ready st" "seed < length (rs_contracts st)"
  shows "query_uri_for_seed True cancelled st seed graph = query_uri_for_seed False cancelled st seed graph"
  using query_edges [OF assms, of "for_chain_count (length (rs_chains st))" cancelled graph]
  by (auto simp: query_uri_for_seed_def for_chain_count_def)

theorem query_uri_parallel_witness:
  "query_uri_for_seed True (\<lambda>_. False) uri_example 0 hit_graph_new = query_uri_for_seed False (\<lambda>_. False) uri_example 0 hit_graph_new"
  using query_uri_parallel [OF uri_example_ready, of 0 "\<lambda>_. False" hit_graph_new] by simp

end
