(* ===== verification/Scale.thy ===== *)
theory Scale
  imports UriExact
begin

text \<open>
  Counters of a reporting scope and duplicate-scale rows
  (\<open>src/analysis2/crates/core/src/reporting/aggregate.rs\<close>).

  The \<open>u64\<close> counters are sizes of sets of \<open>u32\<close> ids and sums of chain totals, as \<open>nat\<close>.  The sets of
  chain names are only tested and summed over, so they are \<open>set\<close>s.
\<close>

section \<open>Data\<close>

record scope_nft_counts =
  nc_name :: nat
  nc_token_uri :: nat
  nc_image_uri :: nat
  nc_metadata :: nat
  nc_total :: nat

definition from_sets :: "nat \<Rightarrow> nat \<Rightarrow> nat \<Rightarrow> nat \<Rightarrow> nat \<Rightarrow> scope_nft_counts" where
  "from_sets name token_uri image_uri metadata all_nfts =
     \<lparr>nc_name = name, nc_token_uri = token_uri, nc_image_uri = image_uri, nc_metadata = metadata, nc_total = all_nfts\<rparr>"

record duplicate_scale_row =
  ds_category :: string
  ds_duplicate_nft_count :: nat
  ds_duplicate_nft_ratio :: "f64 option"
  ds_duplicate_nft_ratio_numerator :: nat
  ds_duplicate_nft_ratio_denominator :: nat
  ds_duplicate_contract_count :: nat
  ds_duplicate_contract_ratio :: "f64 option"
  ds_duplicate_contract_ratio_numerator :: nat
  ds_duplicate_contract_ratio_denominator :: nat

record chain_matrix_block =
  cm_secondary_chain :: string
  cm_rows :: "duplicate_scale_row list"

record seed_duplicate_scale =
  sd_intra_chain :: "duplicate_scale_row list"
  sd_chain_matrix :: "chain_matrix_block list"
  sd_cross_chain_summary :: "duplicate_scale_row list"

section \<open>The NFTs of contracts\<close>

definition build_contract_nft_map :: "'m resident_store \<Rightarrow> contract_nft_map" where
  "build_contract_nft_map st =
     fold (\<lambda>contract m.
       let ids = nfts_for_contract st (ct_id contract)
       in if ids \<noteq> [] then m(ct_id contract \<mapsto> ids) else m) (rs_contracts st) (\<lambda>_. None)"

text \<open>The contracts are visited in the order of a hash set, each once.\<close>

definition build_contract_nft_map_for_graphs :: "'m resident_store \<Rightarrow> hit_graph list \<Rightarrow> contract_nft_map" where
  "build_contract_nft_map_for_graphs st graphs =
     (let contracts = remdups (map he_candidate_contract (filter (\<lambda>edge. he_candidate_nft edge = None) (concat (map hg_edges graphs))))
      in fold (\<lambda>contract m.
           let ids = nfts_for_contract st contract
           in if ids \<noteq> [] then m(contract \<mapsto> ids) else m) contracts (\<lambda>_. None))"

section \<open>Counting a scope\<close>

record dimension_nft_sets =
  dn_token_uri :: "nat set"
  dn_image_uri :: "nat set"
  dn_metadata :: "nat set"
  dn_name :: "nat set"

definition no_nfts :: dimension_nft_sets where
  "no_nfts = \<lparr>dn_token_uri = {}, dn_image_uri = {}, dn_metadata = {}, dn_name = {}\<rparr>"

definition insert_edge :: "contract_nft_map \<Rightarrow> hit_edge \<Rightarrow> dimension_nft_sets \<Rightarrow> dimension_nft_sets" where
  "insert_edge cn edge sets =
     (case he_dimension edge of
        TokenUri \<Rightarrow> sets\<lparr>dn_token_uri := expand_into cn edge (dn_token_uri sets)\<rparr>
      | ImageUri \<Rightarrow> sets\<lparr>dn_image_uri := expand_into cn edge (dn_image_uri sets)\<rparr>
      | Metadata \<Rightarrow> sets\<lparr>dn_metadata := expand_into cn edge (dn_metadata sets)\<rparr>
      | Name \<Rightarrow> sets\<lparr>dn_name := expand_into cn edge (dn_name sets)\<rparr>)"

definition count_scope_nfts ::
  "hit_graph \<Rightarrow> nat \<Rightarrow> scope_kind \<Rightarrow> nat \<Rightarrow> nat option \<Rightarrow> contract_nft_map \<Rightarrow> scope_nft_counts" where
  "count_scope_nfts g seed scope primary_chain matrix_secondary cn =
     (let (sets, all_nfts) = fold (\<lambda>edge (sets, all_nfts).
            if he_seed_contract edge \<noteq> seed then (sets, all_nfts)
            else if \<not> edge_in_scope edge scope primary_chain matrix_secondary then (sets, all_nfts)
            else (insert_edge cn edge sets, expand_into cn edge all_nfts)) (hg_edges g) (no_nfts, {});
          image_uri = {nft \<in> dn_image_uri sets. nft \<notin> dn_token_uri sets}
      in from_sets (card (dn_name sets)) (card (dn_token_uri sets)) (card image_uri) (card (dn_metadata sets)) (card all_nfts))"

section \<open>Rows\<close>

definition ratio :: "nat \<Rightarrow> nat \<Rightarrow> f64 option" where
  "ratio numer denom = (if denom = 0 then None else Some (f64_of_nat numer / f64_of_nat denom))"

definition scale_row :: "string \<Rightarrow> nat \<Rightarrow> nat \<Rightarrow> nat \<Rightarrow> nat \<Rightarrow> duplicate_scale_row" where
  "scale_row category nft contract nft_denom contract_denom =
     \<lparr>ds_category = category,
      ds_duplicate_nft_count = nft, ds_duplicate_nft_ratio = ratio nft nft_denom,
      ds_duplicate_nft_ratio_numerator = nft, ds_duplicate_nft_ratio_denominator = nft_denom,
      ds_duplicate_contract_count = contract, ds_duplicate_contract_ratio = ratio contract contract_denom,
      ds_duplicate_contract_ratio_numerator = contract, ds_duplicate_contract_ratio_denominator = contract_denom\<rparr>"

definition contracts_for_nfts :: "nat set \<Rightarrow> 'm resident_store \<Rightarrow> nat set" where
  "contracts_for_nfts nfts st = (\<lambda>nft. nf_contract_id (rs_nfts st ! nft)) ` {nft \<in> nfts. nft < length (rs_nfts st)}"

definition category_name :: "dimension \<Rightarrow> string" where
  "category_name d =
     (case d of TokenUri \<Rightarrow> ''token_uri'' | ImageUri \<Rightarrow> ''image_uri'' | Metadata \<Rightarrow> ''metadata'' | Name \<Rightarrow> ''name'')"

definition dimension_sets ::
  "hit_graph \<Rightarrow> nat \<Rightarrow> scope_kind \<Rightarrow> nat \<Rightarrow> nat option \<Rightarrow> contract_nft_map \<Rightarrow> (dimension \<times> nat set) list" where
  "dimension_sets g seed scope primary secondary cn =
     map (\<lambda>d. (d, dimension_candidate_nfts g seed d scope primary secondary cn)) [TokenUri, ImageUri, Metadata, Name]"

text \<open>One row for every dimension and one for their union, as both builders push them.\<close>

definition push_rows :: "'m resident_store \<Rightarrow> nat \<times> nat \<Rightarrow> (dimension \<times> nat set) list \<Rightarrow> duplicate_scale_row list" where
  "push_rows st denominators dims =
     (let (nft_denom, contract_denom) = denominators;
          (rows, union_nfts) = fold (\<lambda>(d, nfts) (rows, union_nfts).
            (rows @ [scale_row (category_name d) (card nfts) (card (contracts_for_nfts nfts st)) nft_denom contract_denom],
             union_nfts \<union> nfts)) dims ([], {})
      in rows @ [scale_row ''total'' (card union_nfts) (card (contracts_for_nfts union_nfts st)) nft_denom contract_denom])"

definition sum_totals :: "'m resident_store \<Rightarrow> nat list \<Rightarrow> nat \<times> nat" where
  "sum_totals st cs =
     fold (\<lambda>chain (nfts, contracts).
       let totals = unwrap_or zero_totals (map_of (rs_totals st) chain)
       in (nfts + to_nfts totals, contracts + to_contracts totals)) cs (0, 0)"

definition rows_from_dimension_sets ::
  "'m resident_store \<Rightarrow> nat list \<Rightarrow> dimension_nft_sets \<Rightarrow> duplicate_scale_row list" where
  "rows_from_dimension_sets st denominator_chains sets =
     (let sets = sets\<lparr>dn_image_uri := {nft \<in> dn_image_uri sets. nft \<notin> dn_token_uri sets}\<rparr>
      in push_rows st (sum_totals st denominator_chains)
           [(TokenUri, dn_token_uri sets), (ImageUri, dn_image_uri sets), (Metadata, dn_metadata sets), (Name, dn_name sets)])"

definition other_chains :: "'m resident_store \<Rightarrow> nat \<Rightarrow> nat list" where
  "other_chains st primary = filter (\<lambda>chain. chain \<noteq> primary) (map u16 [0..<length (rs_chains st)])"

definition build_duplicate_scale_rows ::
  "'m resident_store \<Rightarrow> hit_graph \<Rightarrow> nat \<Rightarrow> scope_kind \<Rightarrow> nat \<Rightarrow> nat option \<Rightarrow> contract_nft_map \<Rightarrow> duplicate_scale_row list" where
  "build_duplicate_scale_rows st g seed scope primary_chain matrix_secondary cn =
     (let denominator_chains =
            (case scope of
               IntraChain \<Rightarrow> [primary_chain]
             | ChainMatrix \<Rightarrow> (case matrix_secondary of None \<Rightarrow> [] | Some secondary \<Rightarrow> [secondary])
             | CrossChainSummary \<Rightarrow> other_chains st primary_chain)
      in push_rows st (sum_totals st denominator_chains)
           (dimension_sets g seed scope primary_chain matrix_secondary cn))"

definition scan_edge ::
  "contract_nft_map \<Rightarrow> nat \<Rightarrow> nat \<Rightarrow> hit_edge \<Rightarrow> dimension_nft_sets list \<times> dimension_nft_sets \<Rightarrow>
   dimension_nft_sets list \<times> dimension_nft_sets" where
  "scan_edge cn seed primary edge st =
     (let (by_secondary, cross) = st
      in if he_seed_contract edge \<noteq> seed \<or> he_primary_chain edge \<noteq> primary then (by_secondary, cross)
         else
           (case idx by_secondary (he_secondary_chain edge) of
              Some sets \<Rightarrow> by_secondary[he_secondary_chain edge := insert_edge cn edge sets]
            | None \<Rightarrow> by_secondary,
            if he_secondary_chain edge \<noteq> primary then insert_edge cn edge cross else cross))"

text \<open>Taking a bucket leaves the empty one behind; no bucket is read again.\<close>

definition build_seed_duplicate_scale ::
  "'m resident_store \<Rightarrow> hit_graph \<Rightarrow> nat \<Rightarrow> contract_nft_map \<Rightarrow> seed_duplicate_scale option" where
  "build_seed_duplicate_scale st g seed cn =
     do {
       contract \<leftarrow> idx (rs_contracts st) seed;
       let primary = ct_chain_id contract;
       let (by_secondary, cross) = fold (scan_edge cn seed primary) (hg_edges g)
             (replicate (length (rs_chains st)) no_nfts, no_nfts);
       intra \<leftarrow> idx by_secondary primary;
       let blocks = map (\<lambda>(i, name). \<lparr>cm_secondary_chain = rs_chains st ! u16 i, cm_rows = rows_from_dimension_sets st [u16 i] (by_secondary ! i)\<rparr>)
             (filter (\<lambda>(i, name). u16 i \<noteq> primary) (enumerated (rs_chains st)));
       Some \<lparr>sd_intra_chain = rows_from_dimension_sets st [primary] intra,
             sd_chain_matrix = sort_key cm_secondary_chain blocks,
             sd_cross_chain_summary = rows_from_dimension_sets st (other_chains st primary) cross\<rparr>
     }"

section \<open>Roll-ups over relations\<close>

record all_chains_relation_ref =
  rr_seed_chain :: string
  rr_seed_address :: string
  rr_candidate_chain :: string
  rr_candidate_address :: string
  rr_dimensions :: "string list"
  rr_nft_ids :: "nat list"

datatype scope_scale_filter = AllScopes | IntraScope | CrossScope | MatrixScope string string

definition relation_matches :: "all_chains_relation_ref \<Rightarrow> scope_scale_filter \<Rightarrow> bool" where
  "relation_matches rel f =
     (let same = eq_ignore_ascii_case (rr_seed_chain rel) (rr_candidate_chain rel)
      in case f of
           AllScopes \<Rightarrow> True
         | IntraScope \<Rightarrow> same
         | CrossScope \<Rightarrow> \<not> same
         | MatrixScope primary secondary \<Rightarrow>
             \<not> same \<and> eq_ignore_ascii_case (rr_seed_chain rel) primary \<and> eq_ignore_ascii_case (rr_candidate_chain rel) secondary)"

definition snapshot_denominators :: "'m resident_store \<Rightarrow> string set \<Rightarrow> nat \<times> nat" where
  "snapshot_denominators st names =
     (let totals = (\<lambda>name. case map_of (rs_chain_ids st) name of
            None \<Rightarrow> zero_totals
          | Some cid \<Rightarrow> unwrap_or zero_totals (map_of (rs_totals st) cid))
      in (\<Sum>name \<in> names. to_nfts (totals name), \<Sum>name \<in> names. to_contracts (totals name)))"

definition denominator_chains :: "'m resident_store \<Rightarrow> string set \<Rightarrow> scope_scale_filter \<Rightarrow> string set" where
  "denominator_chains st primary_chains f =
     (case f of
        AllScopes \<Rightarrow> to_ascii_lowercase ` set (rs_chains st)
      | IntraScope \<Rightarrow> primary_chains
      | CrossScope \<Rightarrow> to_ascii_lowercase ` set (filter (\<lambda>candidate. \<exists>primary \<in> primary_chains. \<not> eq_ignore_ascii_case candidate primary) (rs_chains st))
      | MatrixScope primary secondary \<Rightarrow> {to_ascii_lowercase secondary})"

text \<open>The NFTs and the contracts (\<open>chain:address\<close>) of one dimension.\<close>

definition absorb_relation :: "(all_chains_relation_ref \<Rightarrow> bool) \<Rightarrow> all_chains_relation_ref \<Rightarrow> nat set \<times> string set \<Rightarrow> nat set \<times> string set" where
  "absorb_relation has rel sets =
     (if has rel then (fst sets \<union> set (rr_nft_ids rel), insert (rr_candidate_chain rel @ '':'' @ rr_candidate_address rel) (snd sets))
      else sets)"

definition build_scope_duplicate_scale_for_chains ::
  "'m resident_store \<Rightarrow> all_chains_relation_ref list \<Rightarrow> scope_scale_filter \<Rightarrow> string set \<Rightarrow> duplicate_scale_row list" where
  "build_scope_duplicate_scale_for_chains st relations f primary_chains =
     (let filtered = filter (\<lambda>rel. relation_matches rel f) relations;
          (nft_denom, contract_denom) = snapshot_denominators st (denominator_chains st primary_chains f);
          collect = (\<lambda>has. fold (absorb_relation has) filtered ({}, {}));
          (token_nfts, token_contracts) = collect (\<lambda>rel. ''token_uri'' \<in> set (rr_dimensions rel));
          (image_nfts, image_contracts) = collect (\<lambda>rel. ''image_uri'' \<in> set (rr_dimensions rel));
          (metadata_nfts, metadata_contracts) = collect (\<lambda>rel. ''metadata'' \<in> set (rr_dimensions rel));
          (name_nfts, name_contracts) = collect (\<lambda>rel. ''name'' \<in> set (rr_dimensions rel));
          (total_nfts, total_contracts) = collect (\<lambda>rel. True);
          image_nfts = {nft \<in> image_nfts. nft \<notin> token_nfts};
          row = (\<lambda>category nfts contracts. scale_row category (card nfts) (card contracts) nft_denom contract_denom)
      in [row ''token_uri'' token_nfts token_contracts, row ''image_uri'' image_nfts image_contracts,
          row ''metadata'' metadata_nfts metadata_contracts, row ''name'' name_nfts name_contracts,
          row ''total'' total_nfts total_contracts])"

definition build_scope_duplicate_scale ::
  "'m resident_store \<Rightarrow> all_chains_relation_ref list \<Rightarrow> scope_scale_filter \<Rightarrow> duplicate_scale_row list" where
  "build_scope_duplicate_scale st relations f =
     build_scope_duplicate_scale_for_chains st relations f (set (map (\<lambda>rel. to_ascii_lowercase (rr_seed_chain rel)) relations))"

definition build_all_chains_duplicate_scale :: "'m resident_store \<Rightarrow> all_chains_relation_ref list \<Rightarrow> duplicate_scale_row list" where
  "build_all_chains_duplicate_scale st relations = build_scope_duplicate_scale st relations AllScopes"

definition matrix_secondary_chains :: "all_chains_relation_ref list \<Rightarrow> string list" where
  "matrix_secondary_chains relations =
     sort_dedup (map (\<lambda>rel. to_ascii_lowercase (rr_candidate_chain rel))
       (filter (\<lambda>rel. \<not> eq_ignore_ascii_case (rr_seed_chain rel) (rr_candidate_chain rel)) relations))"

section \<open>One scan against one scan per dimension and scope\<close>

definition collected :: "contract_nft_map \<Rightarrow> (hit_edge \<Rightarrow> bool) \<Rightarrow> hit_edge list \<Rightarrow> dimension_nft_sets" where
  "collected cn P edges =
     (let nfts = (\<lambda>d. nfts_where cn (\<lambda>edge. he_dimension edge = d \<and> P edge) edges)
      in \<lparr>dn_token_uri = nfts TokenUri, dn_image_uri = nfts ImageUri, dn_metadata = nfts Metadata, dn_name = nfts Name\<rparr>)"

lemma nfts_where_snoc: "nfts_where cn P (edges @ [e]) = nfts_where cn P edges \<union> (if P e then edge_nfts cn e else {})"
  by (auto simp: nfts_where_def)

lemma collected_Nil [simp]: "collected cn P [] = no_nfts"
  by (simp add: collected_def no_nfts_def nfts_where_def)

lemma collected_snoc: "collected cn P (edges @ [e]) = (if P e then insert_edge cn e (collected cn P edges) else collected cn P edges)"
  by (cases "he_dimension e") (auto simp: collected_def nfts_where_snoc insert_edge_def Let_def)

lemma collected_cong: "(\<And>edge. P edge \<longleftrightarrow> Q edge) \<Longrightarrow> collected cn P edges = collected cn Q edges"
  by (simp add: collected_def)

lemma rows_of_collected:
  assumes "\<And>edge. P edge \<longleftrightarrow> scoped seed scope primary secondary edge"
  shows "rows_from_dimension_sets st cs (collected cn P (hg_edges g)) =
    push_rows st (sum_totals st cs) (dimension_sets g seed scope primary secondary cn)"
proof -
  have P: "P = scoped seed scope primary secondary" using assms by blast
  have minus: "{nft \<in> A. nft \<notin> B} = A - B" for A B :: "nat set" by auto
  show ?thesis unfolding P
    by (simp add: rows_from_dimension_sets_def dimension_sets_def collected_def dimension_candidate_nfts_eq Let_def minus)
qed

lemma scan_edges:
  "fold (scan_edge cn seed primary) edges (replicate n no_nfts, no_nfts) =
     (map (\<lambda>c. collected cn (\<lambda>edge. he_seed_contract edge = seed \<and> he_primary_chain edge = primary \<and> he_secondary_chain edge = c) edges) [0..<n],
      collected cn (\<lambda>edge. he_seed_contract edge = seed \<and> he_primary_chain edge = primary \<and> he_secondary_chain edge \<noteq> primary) edges)"
proof (induction edges rule: rev_induct)
  case Nil
  then show ?case by (simp add: map_replicate_const)
next
  case (snoc e es)
  show ?case
  proof (cases "he_seed_contract e = seed \<and> he_primary_chain e = primary")
    case False
    then have "P \<longleftrightarrow> False" if "P \<Longrightarrow> he_seed_contract e = seed \<and> he_primary_chain e = primary" for P using that by blast
    with False snoc show ?thesis by (auto simp: scan_edge_def collected_snoc)
  next
    case True
    then show ?thesis using snoc
      by (auto simp: scan_edge_def collected_snoc idx_def Let_def intro!: nth_equalityI simp: nth_list_update)
  qed
qed

lemma scoped_intra: "scoped seed IntraChain primary None edge \<longleftrightarrow>
    he_seed_contract edge = seed \<and> he_primary_chain edge = primary \<and> he_secondary_chain edge = primary"
  by (auto simp: scoped_def edge_in_scope_def)

lemma scoped_matrix: "c \<noteq> primary \<Longrightarrow> scoped seed ChainMatrix primary (Some c) edge \<longleftrightarrow>
    he_seed_contract edge = seed \<and> he_primary_chain edge = primary \<and> he_secondary_chain edge = c"
  by (auto simp: scoped_def edge_in_scope_def)

lemma scoped_cross: "scoped seed CrossChainSummary primary None edge \<longleftrightarrow>
    he_seed_contract edge = seed \<and> he_primary_chain edge = primary \<and> he_secondary_chain edge \<noteq> primary"
  by (auto simp: scoped_def edge_in_scope_def)

text \<open>C40. The three duplicate-scale sections of a seed, built in one scan of its graph, hold the rows
  that the builder of a single scope computes with a scan per dimension: those of the seed's chain, of
  every other chain (ordered by name), and of all other chains together.\<close>

theorem seed_scale_one_scan:
  fixes st :: "'m resident_store"
  assumes "seed < length (rs_contracts st)" "ct_chain_id (rs_contracts st ! seed) < length (rs_chains st)"
    "length (rs_chains st) \<le> 2 ^ 16"
  defines "primary \<equiv> ct_chain_id (rs_contracts st ! seed)"
  shows "build_seed_duplicate_scale st g seed cn =
    Some \<lparr>sd_intra_chain = build_duplicate_scale_rows st g seed IntraChain primary None cn,
      sd_chain_matrix = sort_key cm_secondary_chain
        (map (\<lambda>c. \<lparr>cm_secondary_chain = rs_chains st ! c, cm_rows = build_duplicate_scale_rows st g seed ChainMatrix primary (Some c) cn\<rparr>)
          (filter (\<lambda>c. c \<noteq> primary) [0..<length (rs_chains st)])),
      sd_cross_chain_summary = build_duplicate_scale_rows st g seed CrossChainSummary primary None cn\<rparr>"
proof -
  let ?n = "length (rs_chains st)" and ?edges = "hg_edges g"
  let ?P = "\<lambda>c edge. he_seed_contract edge = seed \<and> he_primary_chain edge = primary \<and> he_secondary_chain edge = c"
  have small: "u16 c = c" if "c < ?n" for c using that assms(3) by (simp add: u16_small)
  have intra: "rows_from_dimension_sets st [primary] (collected cn (?P primary) ?edges) =
      build_duplicate_scale_rows st g seed IntraChain primary None cn"
    by (subst rows_of_collected [OF scoped_intra [symmetric]]) (simp add: build_duplicate_scale_rows_def)
  have matrix: "rows_from_dimension_sets st [c] (collected cn (?P c) ?edges) =
      build_duplicate_scale_rows st g seed ChainMatrix primary (Some c) cn" if "c \<noteq> primary" for c
    by (subst rows_of_collected [OF scoped_matrix [OF that, symmetric]]) (simp add: build_duplicate_scale_rows_def)
  have cross: "rows_from_dimension_sets st (other_chains st primary)
      (collected cn (\<lambda>edge. he_seed_contract edge = seed \<and> he_primary_chain edge = primary \<and> he_secondary_chain edge \<noteq> primary) ?edges) =
      build_duplicate_scale_rows st g seed CrossChainSummary primary None cn"
    by (subst rows_of_collected [OF scoped_cross [symmetric]]) (simp add: build_duplicate_scale_rows_def)
  have enum: "enumerated (rs_chains st) = map (\<lambda>i. (i, rs_chains st ! i)) [0..<?n]" by (intro nth_equalityI) simp_all
  have "map (\<lambda>(i, name). \<lparr>cm_secondary_chain = rs_chains st ! u16 i,
        cm_rows = rows_from_dimension_sets st [u16 i] (map (\<lambda>c. collected cn (?P c) ?edges) [0..<?n] ! i)\<rparr>)
      (filter (\<lambda>(i, name). u16 i \<noteq> primary) (enumerated (rs_chains st))) =
    map (\<lambda>c. \<lparr>cm_secondary_chain = rs_chains st ! c, cm_rows = build_duplicate_scale_rows st g seed ChainMatrix primary (Some c) cn\<rparr>)
      (filter (\<lambda>c. c \<noteq> primary) [0..<?n])"
    unfolding enum by (auto simp: filter_map comp_def small matrix intro!: map_cong filter_cong)
  then show ?thesis
    using assms(1,2) by (simp add: build_seed_duplicate_scale_def scan_edges primary_def [symmetric] intra cross)
qed

theorem seed_scale_one_scan_witness:
  "build_seed_duplicate_scale uri_example \<lparr>hg_edges = [hit_of uri_example 0 0 TokenUri 1, hit_of uri_example 0 0 ImageUri 2]\<rparr> 0 (\<lambda>_. None) =
     (let g = \<lparr>hg_edges = [hit_of uri_example 0 0 TokenUri 1, hit_of uri_example 0 0 ImageUri 2]\<rparr>
      in Some \<lparr>sd_intra_chain = build_duplicate_scale_rows uri_example g 0 IntraChain 0 None (\<lambda>_. None),
        sd_chain_matrix = [\<lparr>cm_secondary_chain = ''base'', cm_rows = build_duplicate_scale_rows uri_example g 0 ChainMatrix 0 (Some 1) (\<lambda>_. None)\<rparr>],
        sd_cross_chain_summary = build_duplicate_scale_rows uri_example g 0 CrossChainSummary 0 None (\<lambda>_. None)\<rparr>)"
  using seed_scale_one_scan [of 0 uri_example "\<lparr>hg_edges = [hit_of uri_example 0 0 TokenUri 1, hit_of uri_example 0 0 ImageUri 2]\<rparr>" "\<lambda>_. None"]
  by (simp add: uri_example_contract_def upt_rec Let_def)

text \<open>The single scan of \<open>count_scope_nfts\<close> counts the sets of the four dimensions and of their
  union.\<close>

theorem count_scope_nfts_exact:
  "count_scope_nfts g seed scope primary secondary cn =
     from_sets (card (dimension_candidate_nfts g seed Name scope primary secondary cn))
       (card (dimension_candidate_nfts g seed TokenUri scope primary secondary cn))
       (card (dimension_candidate_nfts g seed ImageUri scope primary secondary cn))
       (card (dimension_candidate_nfts g seed Metadata scope primary secondary cn))
       (card (union_candidate_nfts g seed scope primary secondary cn))"
proof -
  have "fold (\<lambda>edge (sets, all_nfts).
      if he_seed_contract edge \<noteq> seed then (sets, all_nfts)
      else if \<not> edge_in_scope edge scope primary secondary then (sets, all_nfts)
      else (insert_edge cn edge sets, expand_into cn edge all_nfts)) edges (no_nfts, {}) =
    (collected cn (scoped seed scope primary secondary) edges, nfts_where cn (scoped seed scope primary secondary) edges)" for edges
  proof (induction edges rule: rev_induct)
    case (snoc e es)
    then show ?case by (auto simp: collected_snoc nfts_where_snoc scoped_def)
  qed (simp add: nfts_where_def)
  moreover have "{nft \<in> A. nft \<notin> B} = A - B" for A B :: "nat set" by auto
  ultimately show ?thesis
    by (simp add: count_scope_nfts_def collected_def dimension_candidate_nfts_eq union_candidate_nfts_eq Let_def)
qed

section \<open>Numerators and denominators\<close>

text \<open>The NFTs of the edges exist and lie on the edges' secondary chains, as the queries make them.\<close>

definition located :: "'m resident_store \<Rightarrow> contract_nft_map \<Rightarrow> hit_graph \<Rightarrow> bool" where
  "located st cn g \<longleftrightarrow>
     (\<forall>edge \<in> set (hg_edges g). \<forall>i \<in> edge_nfts cn edge.
        i < length (rs_nfts st) \<and> nft_chain (rs_contracts st) (rs_nfts st ! i) = he_secondary_chain edge)"

definition share_ok :: "nat \<Rightarrow> nat \<Rightarrow> f64 option \<Rightarrow> bool" where
  "share_ok numer denom share \<longleftrightarrow> numer \<le> denom \<and> (case share of None \<Rightarrow> denom = 0 | Some x \<Rightarrow> 0 \<le> x \<and> x \<le> 1)"

definition row_ok :: "duplicate_scale_row \<Rightarrow> bool" where
  "row_ok r \<longleftrightarrow>
     share_ok (ds_duplicate_nft_ratio_numerator r) (ds_duplicate_nft_ratio_denominator r) (ds_duplicate_nft_ratio r) \<and>
     share_ok (ds_duplicate_contract_ratio_numerator r) (ds_duplicate_contract_ratio_denominator r) (ds_duplicate_contract_ratio r)"

lemma share_ok_ratio:
  assumes "numer \<le> denom" "denom < 2 ^ 53"
  shows "share_ok numer denom (ratio numer denom)"
proof -
  have exact: "f64_of_nat n = Fin (of_nat n)" if "n \<le> denom" for n
    using round_f64_int [of "int n"] that assms(2) by (simp add: f64_of_nat_def)
  have le: "f64_of_nat numer \<le> f64_of_nat denom" "0 \<le> f64_of_nat numer"
    using assms(1) by (simp_all add: exact f64_ops)
  have fin: "is_finite (f64_of_nat numer)" using assms(1) by (simp add: exact is_finite_def)
  show ?thesis
  proof (cases "denom = 0")
    case True
    then show ?thesis using assms(1) by (simp add: share_ok_def ratio_def)
  next
    case False
    then have pos: "0 < f64_of_nat denom" by (simp add: exact f64_ops)
    show ?thesis using False assms(1) f64_div_le_one [OF le(2,1) pos fin] f64_div_nonneg [OF le(2) pos fin]
      by (simp add: share_ok_def ratio_def)
  qed
qed

lemma sum_totals_counts:
  assumes "counts_ok (rs_contracts st) (rs_nfts st) (rs_totals st) n"
  shows "sum_totals st D =
    (sum_list (map (\<lambda>c. length (filter (\<lambda>nft. nft_chain (rs_contracts st) nft = c) (rs_nfts st))) D),
     sum_list (map (\<lambda>c. length (filter (\<lambda>k. ct_chain_id k = c) (rs_contracts st))) D))"
proof -
  have each: "unwrap_or zero_totals (map_of (rs_totals st) c) = chain_counts (rs_contracts st) (rs_nfts st) c" for c
    using assms by (simp add: counts_ok_def)
  have "fold (\<lambda>chain (nfts, contracts).
      let totals = unwrap_or zero_totals (map_of (rs_totals st) chain)
      in (nfts + to_nfts totals, contracts + to_contracts totals)) D (a, b) =
    (a + sum_list (map (\<lambda>c. length (filter (\<lambda>nft. nft_chain (rs_contracts st) nft = c) (rs_nfts st))) D),
     b + sum_list (map (\<lambda>c. length (filter (\<lambda>k. ct_chain_id k = c) (rs_contracts st))) D))" for a b
    by (induction D arbitrary: a b) (simp_all add: each chain_counts_def Let_def)
  then show ?thesis by (simp add: sum_totals_def)
qed

lemma card_on_chains:
  assumes "\<forall>i \<in> A. i < length xs \<and> f (xs ! i) \<in> set D"
  shows "card A \<le> sum_list (map (\<lambda>c. length (filter (\<lambda>x. f x = c) xs)) D)"
proof -
  have "A \<subseteq> (\<Union>c \<in> set D. {i. i < length xs \<and> f (xs ! i) = c})" using assms by auto
  then have "card A \<le> card (\<Union>c \<in> set D. {i. i < length xs \<and> f (xs ! i) = c})" by (rule card_mono [rotated]) simp
  also have "\<dots> \<le> sum_list (map (\<lambda>c. card {i. i < length xs \<and> f (xs ! i) = c}) D)"
  proof (induction D)
    case (Cons d D)
    then show ?case using card_Un_le [of "{i. i < length xs \<and> f (xs ! i) = d}"] by (simp add: order_trans)
        (meson add_left_mono order_trans)
  qed simp
  finally show ?thesis by (simp add: length_filter_conv_card)
qed

lemma sum_lengths_le:
  assumes "distinct D"
  shows "sum_list (map (\<lambda>c. length (filter (\<lambda>x. f x = c) xs)) D) \<le> length xs"
proof (induction xs)
  case (Cons x xs)
  have "sum_list (map (\<lambda>c. if f x = c then 1 else 0) D) \<le> (1 :: nat)"
    using assms by (simp add: sum_list_distinct_conv_sum_set)
  moreover have "sum_list (map (\<lambda>c. length (filter (\<lambda>y. f y = c) (x # xs))) D) =
      sum_list (map (\<lambda>c. (if f x = c then 1 else 0) + length (filter (\<lambda>y. f y = c) xs)) D)"
    by (intro arg_cong [of _ _ sum_list] map_cong) simp_all
  ultimately show ?case using Cons unfolding sum_list_addf by simp
qed simp

text \<open>The rows of sets of NFTs that lie on the chains of the denominator.\<close>

lemma push_rows_ok:
  fixes st :: "'m resident_store"
  assumes counts: "counts_ok (rs_contracts st) (rs_nfts st) (rs_totals st) n"
    and range: "\<forall>nft \<in> set (rs_nfts st). nf_contract_id nft < length (rs_contracts st)"
    and len: "length (rs_nfts st) < 2 ^ 53" "length (rs_contracts st) < 2 ^ 53" and D: "distinct D"
    and sets: "\<forall>(d, nfts) \<in> set ps. \<forall>i \<in> nfts. i < length (rs_nfts st) \<and> nft_chain (rs_contracts st) (rs_nfts st ! i) \<in> set D"
  shows "\<forall>row \<in> set (push_rows st (sum_totals st D) ps). row_ok row"
proof -
  obtain nft_denom contract_denom where denoms: "sum_totals st D = (nft_denom, contract_denom)" by (cases "sum_totals st D")
  have row: "row_ok (scale_row category (card A) (card (contracts_for_nfts A st)) nft_denom contract_denom)"
    if A: "\<forall>i \<in> A. i < length (rs_nfts st) \<and> nft_chain (rs_contracts st) (rs_nfts st ! i) \<in> set D" for category A
  proof -
    have "\<forall>c \<in> contracts_for_nfts A st. c < length (rs_contracts st) \<and> ct_chain_id (rs_contracts st ! c) \<in> set D"
      using A range by (auto simp: contracts_for_nfts_def nft_chain_def)
    then have "card A \<le> nft_denom" "card (contracts_for_nfts A st) \<le> contract_denom"
      "nft_denom \<le> length (rs_nfts st)" "contract_denom \<le> length (rs_contracts st)"
      using denoms card_on_chains [OF A] card_on_chains [of "contracts_for_nfts A st" "rs_contracts st" ct_chain_id D]
        sum_lengths_le [OF D, of "nft_chain (rs_contracts st)" "rs_nfts st"] sum_lengths_le [OF D, of ct_chain_id "rs_contracts st"]
      by (simp_all add: sum_totals_counts [OF counts])
    then show ?thesis using len by (simp add: row_ok_def scale_row_def share_ok_ratio)
  qed
  let ?step = "\<lambda>(d, nfts) (rows, union_nfts).
    (rows @ [scale_row (category_name d) (card nfts) (card (contracts_for_nfts nfts st)) nft_denom contract_denom], union_nfts \<union> nfts)"
  have "case fold ?step ps (rows, U) of (rows, U) \<Rightarrow>
      (\<forall>row \<in> set rows. row_ok row) \<and> (\<forall>i \<in> U. i < length (rs_nfts st) \<and> nft_chain (rs_contracts st) (rs_nfts st ! i) \<in> set D)"
    if "\<forall>row \<in> set rows. row_ok row" "\<forall>i \<in> U. i < length (rs_nfts st) \<and> nft_chain (rs_contracts st) (rs_nfts st ! i) \<in> set D" for rows U
    using sets that
  proof (induction ps arbitrary: rows U)
    case (Cons p ps)
    obtain d A where p: "p = (d, A)" by (cases p)
    have "?step p (rows, U) = (rows @ [scale_row (category_name d) (card A) (card (contracts_for_nfts A st)) nft_denom contract_denom], U \<union> A)"
      by (simp add: p)
    moreover have "\<forall>i \<in> A. i < length (rs_nfts st) \<and> nft_chain (rs_contracts st) (rs_nfts st ! i) \<in> set D"
      using Cons.prems(1) by (simp add: p)
    ultimately show ?case
      using Cons.IH [of "rows @ [scale_row (category_name d) (card A) (card (contracts_for_nfts A st)) nft_denom contract_denom]" "U \<union> A"]
        Cons.prems row by (simp add: p ball_Un)
  qed simp
  from this [of "[]" "{}"] show ?thesis by (auto simp: push_rows_def denoms Let_def row split: prod.splits)
qed

text \<open>On a loaded store every row of a scope is a share: the NFTs and contracts it counts are among
  those of the chains in its denominators, so that a ratio is defined unless its denominator is 0 and
  lies between 0 and 1.\<close>

theorem duplicate_scale_shares:
  fixes st :: "'m resident_store"
  assumes st: "store_ok hash st" and len: "length (rs_nfts st) < 2 ^ 32" "length (rs_contracts st) \<le> 2 ^ 32" "length (rs_chains st) \<le> 2 ^ 16"
    and g: "located st cn g" and row: "r \<in> set (build_duplicate_scale_rows st g seed scope primary secondary cn)"
  shows "row_ok r"
proof -
  let ?D = "case scope of IntraChain \<Rightarrow> [primary] | ChainMatrix \<Rightarrow> (case secondary of None \<Rightarrow> [] | Some s \<Rightarrow> [s])
      | CrossChainSummary \<Rightarrow> other_chains st primary"
  have small: "map u16 [0..<length (rs_chains st)] = [0..<length (rs_chains st)]"
    using len(3) by (intro map_idI) (simp add: u16_small)
  have counts: "counts_ok (rs_contracts st) (rs_nfts st) (rs_totals st) (rs_rows_loaded st)" using st by (simp add: store_ok_def)
  have range: "\<forall>nft \<in> set (rs_nfts st). nf_contract_id nft < length (rs_contracts st)" using store_okD(5) [OF st] by blast
  have D: "distinct ?D" by (auto simp: other_chains_def small split: scope_kind.split option.split)
  have on: "i < length (rs_nfts st) \<and> nft_chain (rs_contracts st) (rs_nfts st ! i) \<in> set ?D"
    if i: "i \<in> nfts_where cn (\<lambda>edge. he_dimension edge = d \<and> scoped seed scope primary secondary edge) (hg_edges g)" for i d
  proof -
    obtain edge where e: "edge \<in> set (hg_edges g)" "scoped seed scope primary secondary edge" "i \<in> edge_nfts cn edge"
      using i by (auto simp: nfts_where_def)
    then have i: "i < length (rs_nfts st)" "nft_chain (rs_contracts st) (rs_nfts st ! i) = he_secondary_chain edge"
      using g by (auto simp: located_def)
    have "nf_contract_id (rs_nfts st ! i) < length (rs_contracts st)" using range i(1) by simp
    then have "nft_chain (rs_contracts st) (rs_nfts st ! i) < length (rs_chains st)"
      using store_okD(4) [OF st] by (simp add: nft_chain_def contract_names_def)
    with i e(2) show ?thesis
      by (auto simp: scoped_def edge_in_scope_def other_chains_def small is_some_and_iff split: scope_kind.splits if_splits)
  qed
  have "\<forall>(d, nfts) \<in> set (dimension_sets g seed scope primary secondary cn). \<forall>i \<in> nfts.
      i < length (rs_nfts st) \<and> nft_chain (rs_contracts st) (rs_nfts st ! i) \<in> set ?D"
    using on by (auto simp: dimension_sets_def dimension_candidate_nfts_eq)
  from push_rows_ok [OF counts range _ _ D this] row len show ?thesis
    by (simp add: build_duplicate_scale_rows_def)
qed

text \<open>A loaded store with one NFT, hit by its token URI.\<close>

theorem duplicate_scale_shares_witness:
  "\<exists>st r. ingest_identity_row (\<lambda>_. 0) (example_row ''u'') (with_options () None []) = Inr st \<and>
     r \<in> set (build_duplicate_scale_rows st \<lparr>hg_edges = [hit_of st 7 0 TokenUri 0]\<rparr> 7 IntraChain 0 None (\<lambda>_. None)) \<and>
     ds_duplicate_nft_count r = 1 \<and> row_ok r"
proof -
  obtain st where st: "ingest_identity_row (\<lambda>_. 0) (example_row ''u'') (with_options () None []) = Inr st"
    "store_ok (\<lambda>_. 0) st" "store_rows st = [((''eth'', ''a'', ''1''), (None, Some ''u'', None))]"
    "length (sp_strings (rs_strings st)) = 3" "length (rs_chains st) = 1" "length (rs_contracts st) = 1" "length (rs_nfts st) = 1"
    by (rule example_store)
  let ?g = "\<lparr>hg_edges = [hit_of st 7 0 TokenUri 0]\<rparr>"
  let ?rows = "build_duplicate_scale_rows st ?g 7 IntraChain 0 None (\<lambda>_. None)"
  have "nf_contract_id (rs_nfts st ! 0) = 0" using store_okD(5) [OF st(2), of "rs_nfts st ! 0"] st(6,7) by simp
  moreover have "ct_chain_id (rs_contracts st ! 0) = 0"
    using store_okD(4) [OF st(2), of 0] st(5,6) by (simp add: contract_names_def)
  ultimately have chain: "nft_chain (rs_contracts st) (rs_nfts st ! 0) = 0" "chain_of_nft st 0 = 0"
    by (simp_all add: nft_chain_def chain_of_nft_def nft_contract_def)
  have nfts: "edge_nfts cn (hit_of st 7 0 TokenUri 0) = {0}" for cn by (simp add: edge_nfts_def expand_edge_nfts_def hit_of_def)
  have located: "located st (\<lambda>_. None) ?g" 
    using st(7) chain unfolding located_def by (simp add: nfts) (simp add: hit_of_def)
  have "nfts_where (\<lambda>_. None) (\<lambda>edge. he_dimension edge = TokenUri \<and> scoped 7 IntraChain 0 None edge) [hit_of st 7 0 TokenUri 0] = {0}"
    by (simp add: nfts_where_def nfts) (simp add: hit_of_def scoped_def edge_in_scope_def chain(2))
  then have "ds_duplicate_nft_count (hd ?rows) = 1" and "?rows \<noteq> []"
    by (auto simp: build_duplicate_scale_rows_def push_rows_def dimension_sets_def dimension_candidate_nfts_eq scale_row_def
        split: prod.split)
  moreover have "row_ok (hd ?rows)"
    by (rule duplicate_scale_shares [where seed = 7 and scope = IntraChain and primary = 0 and secondary = None, OF st(2) _ _ _ located]) (use st(5-7) \<open>?rows \<noteq> []\<close> in simp_all)
  ultimately show ?thesis using st(1) by (intro exI [of _ st] exI [of _ "hd ?rows"]) simp
qed

end
