(* ===== verification/NameTokens.thy ===== *)
theory NameTokens
  imports Prelude "HOL-Library.Multiset"
begin

unbundle bit_operations_syntax

text \<open>
  The characters of a name and their occurrence tokens
  (\<open>src/analysis2/crates/core/src/dedup/name/mod.rs\<close>): \<open>chars\<close>, \<open>char_len_fast\<close>,
  \<open>visit_occurrence_tokens\<close> and \<open>sorted_overlap_at_least\<close>.

  A Rust \<open>char\<close> is its scalar value as \<open>nat\<close>; \<open>chars\<close> decodes the UTF-8 bytes of a string.  The
  occurrence tokens of a sorted list of characters number the repetitions of each character, so the
  overlap of two names as multisets is the number of tokens they share.
\<close>

section \<open>Characters\<close>

definition utf8_width :: "char \<Rightarrow> nat" where
  "utf8_width b = (let n = of_char b :: nat in if n < 0xC0 then 1 else if n < 0xE0 then 2 else if n < 0xF0 then 3 else 4)"

definition utf8_scalar :: "char \<Rightarrow> string \<Rightarrow> nat" where
  "utf8_scalar b continuation =
     foldl (\<lambda>n c. n * 64 + of_char c mod 64)
       (let n = of_char b :: nat in if n < 0x80 then n else if n < 0xE0 then n mod 32 else if n < 0xF0 then n mod 16 else n mod 8)
       continuation"

function chars :: "string \<Rightarrow> nat list" where
  "chars [] = []"
| "chars (b # bs) = utf8_scalar b (take (utf8_width b - 1) bs) # chars (drop (utf8_width b - 1) bs)"
  by pat_completeness auto
termination
  by (relation "measure length") auto

definition is_ascii :: "string \<Rightarrow> bool" where
  "is_ascii s \<longleftrightarrow> (\<forall>b \<in> set s. of_char b < (128 :: nat))"

definition char_len_fast :: "string \<Rightarrow> nat" where
  "char_len_fast s = (if is_ascii s then length s else length (chars s))"

lemma char_len_fast_eq: "char_len_fast s = length (chars s)"
proof -
  have "is_ascii s \<Longrightarrow> length (chars s) = length s"
    by (induction s rule: chars.induct) (simp_all add: is_ascii_def utf8_width_def)
  then show ?thesis by (simp add: char_len_fast_def)
qed

section \<open>Occurrence tokens\<close>

definition occurrence_token :: "nat \<Rightarrow> nat \<Rightarrow> nat" where
  "occurrence_token character rank = push_bit 32 character OR rank"

text \<open>The rank cannot exceed the length of the slice, so its checked increment does not fail.\<close>

fun visit_from :: "nat option \<Rightarrow> nat \<Rightarrow> nat list \<Rightarrow> nat list" where
  "visit_from previous rank [] = []"
| "visit_from previous rank (character # cs) =
     (let rank = (if previous = Some character then rank + 1 else 0)
      in occurrence_token character rank # visit_from (Some character) rank cs)"

definition visit_occurrence_tokens :: "nat list \<Rightarrow> nat list" where
  "visit_occurrence_tokens sorted_chars = visit_from None 0 sorted_chars"

lemma length_visit_from [simp]: "length (visit_from p r cs) = length cs"
  by (induction p r cs rule: visit_from.induct) (simp_all add: Let_def)

lemma length_visit [simp]: "length (visit_occurrence_tokens cs) = length cs"
  by (simp add: visit_occurrence_tokens_def)

lemma token_inject:
  assumes "r < 2 ^ 32" "r' < 2 ^ 32" "occurrence_token c r = occurrence_token c' r'"
  shows "c = c' \<and> r = r'"
proof -
  have "drop_bit 32 (occurrence_token c r) = c" "take_bit 32 (occurrence_token c r) = r" if "r < 2 ^ 32" for c r :: nat
  proof -
    have r: "take_bit 32 r = r" "drop_bit 32 r = 0" using that by (simp_all add: take_bit_nat_eq_self drop_bit_eq_div)
    show "drop_bit 32 (occurrence_token c r) = c" "take_bit 32 (occurrence_token c r) = r"
      unfolding occurrence_token_def drop_bit_or take_bit_or r
      by (simp add: drop_bit_eq_div push_bit_eq_mult) (simp add: take_bit_push_bit)
  qed
  with assms show ?thesis by metis
qed

text \<open>The tokens of a list: every character with the ranks below its number of occurrences; and those
  of the rest of a list after a character and its rank.\<close>

definition pair_token :: "nat \<times> nat \<Rightarrow> nat" where
  "pair_token p = occurrence_token (fst p) (snd p)"

definition ranks_after :: "nat option \<Rightarrow> nat \<Rightarrow> nat list \<Rightarrow> (nat \<times> nat) set" where
  "ranks_after p r cs =
     {(x, k). if p = Some x then r < k \<and> k \<le> r + count (mset cs) x else k < count (mset cs) x}"

lemma visit_from_ranks:
  assumes "sorted cs" "\<And>c. p = Some c \<Longrightarrow> \<forall>x \<in> set cs. c \<le> x"
  shows "set (visit_from p r cs) = pair_token ` ranks_after p r cs"
  using assms
proof (induction p r cs rule: visit_from.induct)
  case (1 p r)
  have "ranks_after p r [] = {}" by (auto simp: ranks_after_def split: if_splits)
  then show ?case by simp
next
  case (2 p r a cs)
  define r' where "r' = (if p = Some a then r + 1 else 0)"
  have IH: "set (visit_from (Some a) r' cs) = pair_token ` ranks_after (Some a) r' cs"
    using "2.IH" [OF r'_def] "2.prems"(1) by simp
  have fresh: "c \<notin> set (a # cs)" if "p = Some c" "c \<noteq> a" for c
    using "2.prems"(1) "2.prems"(2) [OF that(1)] that(2) by auto
  have "ranks_after p r (a # cs) = insert (a, r') (ranks_after (Some a) r' cs)"
  proof (cases "p = Some a")
    case True
    then show ?thesis by (auto simp: ranks_after_def r'_def split: if_splits)
  next
    case False
    have "count (mset cs) c = 0" if "p = Some c" for c
      using fresh [OF that] False that by (auto simp: count_eq_zero_iff)
    with False show ?thesis by (cases p) (auto simp: ranks_after_def r'_def simp del: count_mset_0_iff count_eq_zero_iff split: if_splits)
  qed
  then show ?case using IH by (simp add: r'_def [symmetric] Let_def pair_token_def)
qed

definition token_set :: "nat list \<Rightarrow> nat set" where
  "token_set cs = pair_token ` {(c, r). r < count (mset cs) c}"

lemma set_visit: "sorted cs \<Longrightarrow> set (visit_occurrence_tokens cs) = token_set cs"
  unfolding visit_occurrence_tokens_def token_set_def by (subst visit_from_ranks) (simp_all add: ranks_after_def)

lemma finite_ranks: "finite {(c, r). r < count M c}"
proof -
  have "{(c, r). r < count M c} \<subseteq> set_mset M \<times> {..<size M}"
    by (auto simp: count_greater_zero_iff [symmetric] simp del: count_greater_zero_iff intro: less_le_trans count_le_size)
  then show ?thesis by (rule finite_subset) simp
qed

lemma card_ranks: "card {(c, r). r < count M c} = size M"
proof -
  have "{(c, r). r < count M c} = (SIGMA c:set_mset M. {..<count M c})"
    by (auto simp: count_greater_zero_iff [symmetric] simp del: count_greater_zero_iff)
  then show ?thesis by (simp add: size_multiset_overloaded_eq)
qed

lemma inj_tokens:
  assumes "\<And>c. count M c \<le> 2 ^ 32"
  shows "inj_on pair_token {(c, r). r < count M c}"
proof (rule inj_onI)
  fix p q assume p: "p \<in> {(c, r). r < count M c}" and q: "q \<in> {(c, r). r < count M c}" and eq: "pair_token p = pair_token q"
  have "snd p < 2 ^ 32" "snd q < 2 ^ 32"
    using p q assms [of "fst p"] assms [of "fst q"] by (auto simp del: numeral_power_eq_of_nat_cancel_iff)
  with eq token_inject [of "snd p" "snd q" "fst p" "fst q"] show "p = q" by (simp add: pair_token_def prod_eq_iff)
qed

lemma short_count: "length cs \<le> 2 ^ 32 \<Longrightarrow> count (mset cs) c \<le> 2 ^ 32"
  using count_le_size [of "mset cs" c] by simp

lemma distinct_visit:
  assumes "sorted cs" "length cs \<le> 2 ^ 32"
  shows "distinct (visit_occurrence_tokens cs)"
proof (rule card_distinct)
  have "card (token_set cs) = size (mset cs)"
    unfolding token_set_def card_image [OF inj_tokens, OF short_count, OF assms(2)] by (rule card_ranks)
  then show "card (set (visit_occurrence_tokens cs)) = length (visit_occurrence_tokens cs)"
    by (simp add: set_visit [OF assms(1)])
qed

text \<open>Shared tokens count the overlap of the multisets.\<close>

definition overlap :: "nat list \<Rightarrow> nat list \<Rightarrow> nat" where
  "overlap as bs = size (mset as \<inter># mset bs)"

lemma shared_tokens:
  assumes "length as \<le> 2 ^ 32" "length bs \<le> 2 ^ 32"
  shows "card (token_set as \<inter> token_set bs) = overlap as bs"
proof -
  let ?t = pair_token and ?R = "\<lambda>M. {(c, r). r < count M c}"
  have "?t ` ?R (mset as) \<inter> ?t ` ?R (mset bs) = ?t ` ?R (mset as \<inter># mset bs)"
  proof (intro equalityI subsetI)
    fix t assume "t \<in> ?t ` ?R (mset as) \<inter> ?t ` ?R (mset bs)"
    then obtain p q where p: "t = pair_token p" "p \<in> ?R (mset as)" and q: "t = pair_token q" "q \<in> ?R (mset bs)"
      by blast
    from p q have t: "t = pair_token p" "snd p < count (mset as) (fst p)"
      "t = pair_token q" "snd q < count (mset bs) (fst q)" by (simp_all add: case_prod_unfold)
    have "snd p < 2 ^ 32" "snd q < 2 ^ 32"
      using t(2,4) short_count [OF assms(1), of "fst p"] short_count [OF assms(2), of "fst q"] by linarith+
    with t token_inject [of "snd p" "snd q" "fst p" "fst q"] have "p = q" by (simp add: pair_token_def prod_eq_iff)
    with t show "t \<in> ?t ` ?R (mset as \<inter># mset bs)" by (auto simp: case_prod_unfold)
  qed auto
  moreover have "count (mset as \<inter># mset bs) c \<le> 2 ^ 32" for c
    using short_count [OF assms(1), of c] by simp
  ultimately show ?thesis unfolding token_set_def overlap_def
    using card_image [OF inj_tokens, of "mset as \<inter># mset bs"] card_ranks [of "mset as \<inter># mset bs"] by (simp del: count_inter_mset)
qed

text \<open>The prefix filter: two sets of tokens that share enough of them meet in any prefix of the one
  that leaves out fewer.\<close>

lemma prefix_meets:
  assumes "distinct ts" "required \<le> card (set ts \<inter> B)" "0 < required"
  shows "\<exists>t \<in> set (take (length ts - required + 1) ts). t \<in> B"
proof (rule ccontr)
  assume "\<not> (\<exists>t \<in> set (take (length ts - required + 1) ts). t \<in> B)"
  then have "set ts \<inter> B \<subseteq> set (drop (length ts - required + 1) ts)"
    using set_append [of "take (length ts - required + 1) ts" "drop (length ts - required + 1) ts"]
    unfolding append_take_drop_id by blast
  then have "card (set ts \<inter> B) \<le> card (set (drop (length ts - required + 1) ts))" by (rule card_mono [rotated]) simp
  also have "\<dots> \<le> length (drop (length ts - required + 1) ts)" by (rule card_length)
  finally have le: "card (set ts \<inter> B) \<le> length ts - (length ts - required + 1)" by simp
  have "card (set ts \<inter> B) \<le> card (set ts)" by (rule card_mono) simp_all
  also have "\<dots> \<le> length ts" by (rule card_length)
  finally have "card (set ts \<inter> B) \<le> length ts" .
  with le assms(2,3) show False by linarith
qed

section \<open>Overlap of sorted slices\<close>

text \<open>\<open>overlap + min(left.len() - i, right.len() - j)\<close> bounds what can still be reached.\<close>

fun overlap_from :: "nat \<Rightarrow> nat \<Rightarrow> nat list \<Rightarrow> nat list \<Rightarrow> bool" where
  "overlap_from required n [] bs = False"
| "overlap_from required n as [] = False"
| "overlap_from required n (a # as) (b # bs) =
     (if n + min (length (a # as)) (length (b # bs)) < required then False
      else if a = b then (if required \<le> n + 1 then True else overlap_from required (n + 1) as bs)
      else if a < b then overlap_from required n as (b # bs)
      else overlap_from required n (a # as) bs)"

definition sorted_overlap_at_least :: "nat list \<Rightarrow> nat list \<Rightarrow> nat \<Rightarrow> bool" where
  "sorted_overlap_at_least left right required = (if required = 0 then True else overlap_from required 0 left right)"

lemma overlap_le: "overlap as bs \<le> min (length as) (length bs)"
  using size_mset_mono [of "mset as \<inter># mset bs" "mset as"] size_mset_mono [of "mset as \<inter># mset bs" "mset bs"]
  by (simp add: overlap_def)

lemma overlap_less:
  assumes "sorted (b # bs)" "a < b"
  shows "overlap (a # as) (b # bs) = overlap as (b # bs)"
proof -
  have "a \<notin># mset (b # bs)" using assms by auto
  then show ?thesis by (simp add: overlap_def del: mset.simps(2)) (simp add: inter_add_left1)
qed

lemma overlap_commute: "overlap as bs = overlap bs as"
  unfolding overlap_def by (rule arg_cong [where f = size]) (auto intro: multiset_eqI)

lemma overlap_same: "overlap (a # as) (a # bs) = Suc (overlap as bs)"
  by (simp add: overlap_def)

lemma overlap_from_iff:
  assumes "sorted as" "sorted bs" "n < required"
  shows "overlap_from required n as bs \<longleftrightarrow> required \<le> n + overlap as bs"
  using assms
proof (induction required n as bs rule: overlap_from.induct)
  case (3 required n a as b bs)
  have bound: "overlap (a # as) (b # bs) \<le> min (length (a # as)) (length (b # bs))" by (rule overlap_le)
  show ?case
  proof (cases "n + min (length (a # as)) (length (b # bs)) < required")
    case True
    with bound show ?thesis by simp
  next
    case enough: False
    consider "a = b" | "a < b" | "b < a" by (rule linorder_cases)
    then show ?thesis
    proof cases
      case 1
      with enough "3.IH"(1) "3.prems" show ?thesis by (auto simp: overlap_same)
    next
      case 2
      with enough "3.IH"(2) "3.prems" overlap_less [OF "3.prems"(2) 2, of as] show ?thesis by simp
    next
      case 3
      with enough "3.IH"(3) "3.prems" overlap_less [OF "3.prems"(1) 3, of bs] show ?thesis
        by (simp add: overlap_commute [of "a # as"])
    qed
  qed
qed (simp_all add: overlap_def)

lemma sorted_overlap_iff:
  "sorted left \<Longrightarrow> sorted right \<Longrightarrow> sorted_overlap_at_least left right required \<longleftrightarrow> required \<le> overlap left right"
  by (simp add: sorted_overlap_at_least_def overlap_from_iff)

end
