(* ===== verification/NameRepresentative.thy ===== *)
theory NameRepresentative
  imports StoreQueries Fallible
begin

text \<open>
  The representative name of an EVM contract
  (\<open>src/analysis2/crates/core/src/dedup/name/representative.rs\<close>): the most frequent usable name of its
  NFTs, ties to the smallest in byte order.

  The loops over the hash maps run in an order the program does not fix.  \<open>order n\<close> is that order for
  a map of \<open>n\<close> entries, any permutation of the positions; the results are proved not to depend on it.
  \<open>u64\<close> counters are \<open>nat\<close>.
\<close>

section \<open>Operations\<close>

definition null_like :: "string list" where
  "null_like = [''none'', ''null'', ''nil'', ''undefined'', ''n/a'', ''na'', ''n.a.'', ''nan'', ''-'', ''--'', ''.'']"

definition is_usable_name :: "string \<Rightarrow> bool" where
  "is_usable_name name =
     (let trimmed = trim name
      in if trimmed = [] then False
         else if \<exists>null \<in> set null_like. eq_ignore_ascii_case trimmed null then False
         else \<not> (length trimmed = 1 \<and> ascii_digit (hd trimmed)))"

definition iterate :: "(nat \<Rightarrow> nat list) \<Rightarrow> 'a list \<Rightarrow> 'a list" where
  "iterate order xs = map ((!) xs) (order (length xs))"

definition store_string :: "'m resident_store \<Rightarrow> nat \<Rightarrow> string result" where
  "store_string st i = or_panic (pool_get (rs_strings st) i)"

definition on_evm_chain :: "'m resident_store \<Rightarrow> contract \<Rightarrow> bool result" where
  "on_evm_chain st contract =
     res_bind (or_panic (chain_name st (ct_chain_id contract))) (\<lambda>chain. Inr (store_is_evm_chain st chain))"

definition count_nft_name ::
  "'m resident_store \<Rightarrow> nat \<Rightarrow> (nat \<times> nat) list \<Rightarrow> (nat \<times> nat) list result" where
  "count_nft_name st ni counts =
     res_bind (or_panic (idx (rs_nfts st) ni)) (\<lambda>nft.
       case nf_name_id nft of
         None \<Rightarrow> Inr counts
       | Some name_id \<Rightarrow>
           res_bind (store_string st name_id) (\<lambda>name.
             Inr (if is_usable_name name then entry_update ah_insert name_id 0 Suc counts else counts)))"

text \<open>\<open>count > selected_count || count == selected_count && string(name) < string(selected_name)\<close>\<close>

definition replaces :: "'m resident_store \<Rightarrow> nat \<times> nat \<Rightarrow> nat \<times> nat \<Rightarrow> bool result" where
  "replaces st new selected =
     (if snd selected < snd new then Inr True
      else if snd new = snd selected
      then res_bind (store_string st (fst new)) (\<lambda>a. res_bind (store_string st (fst selected)) (\<lambda>b. Inr (a < b)))
      else Inr False)"

definition pick_name ::
  "'m resident_store \<Rightarrow> nat \<times> nat \<Rightarrow> (nat \<times> nat) option \<Rightarrow> (nat \<times> nat) option result" where
  "pick_name st new selected =
     (case selected of
        Some sel \<Rightarrow> res_bind (replaces st new sel) (\<lambda>replace. Inr (Some (if replace then new else sel)))
      | None \<Rightarrow> Inr (Some new))"

definition contract_representative ::
  "(nat \<Rightarrow> nat list) \<Rightarrow> 'm resident_store \<Rightarrow> contract \<Rightarrow> (nat \<times> nat) option result" where
  "contract_representative order st contract =
     res_bind (on_evm_chain st contract) (\<lambda>evm.
       if \<not> evm then Inr None
       else
         res_bind (res_fold (count_nft_name st) (unwrap_or [] (csr_values_for (rs_contract_nft_csr st) (ct_id contract))) [])
           (\<lambda>counts.
         res_bind (res_fold (pick_name st) (iterate order counts) None) (\<lambda>selected.
           Inr (map_option (\<lambda>(name_id, _). (ct_id contract, name_id)) selected))))"

definition count_contract_name ::
  "'m resident_store \<Rightarrow> nft \<Rightarrow> ((nat \<times> nat) \<times> nat) list \<Rightarrow> ((nat \<times> nat) \<times> nat) list result" where
  "count_contract_name st nft counts =
     (case nf_name_id nft of
        None \<Rightarrow> Inr counts
      | Some name_id \<Rightarrow>
          res_bind (or_panic (idx (rs_contracts st) (nf_contract_id nft))) (\<lambda>contract.
          res_bind (on_evm_chain st contract) (\<lambda>evm.
            if \<not> evm then Inr counts
            else res_bind (store_string st name_id) (\<lambda>name.
              Inr (if is_usable_name name
                   then entry_update ah_insert (nf_contract_id nft, name_id) 0 Suc counts else counts)))))"

definition pick_contract_name ::
  "'m resident_store \<Rightarrow> (nat \<times> nat) \<times> nat \<Rightarrow> (nat \<times> nat \<times> nat) list \<Rightarrow> (nat \<times> nat \<times> nat) list result" where
  "pick_contract_name st entry selected =
     (let ((contract, name), count) = entry
      in case map_of selected contract of
           Some current \<Rightarrow>
             res_bind (replaces st (name, count) current) (\<lambda>replace.
               Inr (if replace then ah_insert contract (name, count) selected else selected))
         | None \<Rightarrow> Inr (ah_insert contract (name, count) selected))"

definition select_evm_representatives_without_csr ::
  "(nat \<Rightarrow> nat list) \<Rightarrow> 'm resident_store \<Rightarrow> (nat \<times> nat) list result" where
  "select_evm_representatives_without_csr order st =
     res_bind (res_fold (count_contract_name st) (rs_nfts st) []) (\<lambda>counts.
     res_bind (res_fold (pick_contract_name st) (iterate order counts) []) (\<lambda>selected.
       Inr (sort_key fst (map (\<lambda>(contract, name, _). (contract, name)) (iterate order selected)))))"

definition select_evm_representatives :: "(nat \<Rightarrow> nat list) \<Rightarrow> 'm resident_store \<Rightarrow> (nat \<times> nat) list result" where
  "select_evm_representatives order st =
     (if csr_is_empty (rs_contract_nft_csr st) \<and> rs_nfts st \<noteq> []
      then select_evm_representatives_without_csr order st
      else res_bind (par_collect (map (contract_representative order st) (rs_contracts st))) (\<lambda>selected.
        Inr (sort_key fst (List.map_filter id selected))))"

section \<open>The mode of a list of names\<close>

definition permutes_positions :: "(nat \<Rightarrow> nat list) \<Rightarrow> bool" where
  "permutes_positions order \<longleftrightarrow> (\<forall>n. mset (order n) = mset [0..<n])"

lemma mset_iterate: "permutes_positions order \<Longrightarrow> mset (iterate order xs) = mset xs"
proof -
  assume "permutes_positions order"
  then have "mset (iterate order xs) = image_mset ((!) xs) (mset [0..<length xs])"
    by (simp add: iterate_def permutes_positions_def)
  also have "\<dots> = mset (map ((!) xs) [0..<length xs])" by simp
  finally show ?thesis by (simp only: map_nth)
qed

lemma set_iterate: "permutes_positions order \<Longrightarrow> set (iterate order xs) = set xs"
  by (metis mset_iterate set_mset_mset)

definition text_of :: "'m resident_store \<Rightarrow> nat \<Rightarrow> string" where
  "text_of st i = sp_strings (rs_strings st) ! i"

definition known_string :: "'m resident_store \<Rightarrow> nat \<Rightarrow> bool" where
  "known_string st i \<longleftrightarrow> i < length (sp_strings (rs_strings st))"

lemma store_string_known [simp]: "known_string st i \<Longrightarrow> store_string st i = Inr (text_of st i)"
  by (simp add: known_string_def store_string_def pool_get_def text_of_def or_panic_def)

text \<open>Candidates ordered by falling count, then by text: the best is the least.\<close>

definition rank_key :: "'m resident_store \<Rightarrow> nat \<times> nat \<Rightarrow> int \<times> string" where
  "rank_key st p = (- int (snd p), text_of st (fst p))"

lemma replaces_eq:
  "known_string st (fst a) \<Longrightarrow> known_string st (fst b) \<Longrightarrow> replaces st a b = Inr (rank_key st a < rank_key st b)"
  by (auto simp: replaces_def rank_key_def less_prod_def')

lemma pick_name_fold:
  assumes "\<forall>x \<in> set xs. known_string st (fst x)" "xs \<noteq> []"
  shows "\<exists>b \<in> set xs. res_fold (pick_name st) xs None = Inr (Some b) \<and> (\<forall>x \<in> set xs. rank_key st b \<le> rank_key st x)"
  using assms
proof (induction xs rule: rev_induct)
  case (snoc x xs)
  show ?case
  proof (cases "xs = []")
    case False
    with snoc obtain b where b: "b \<in> set xs" "res_fold (pick_name st) xs None = Inr (Some b)"
      "\<forall>x \<in> set xs. rank_key st b \<le> rank_key st x" by auto
    from snoc.prems b(1) have "replaces st x b = Inr (rank_key st x < rank_key st b)" by (intro replaces_eq) auto
    then have step: "res_fold (pick_name st) (xs @ [x]) None = Inr (Some (if rank_key st x < rank_key st b then x else b))"
      by (simp add: res_fold_append b(2)) (simp add: pick_name_def)
    show ?thesis
    proof (cases "rank_key st x < rank_key st b")
      case True
      then have "\<forall>y \<in> set (xs @ [x]). rank_key st x \<le> rank_key st y" using b(3) by (auto intro: order_trans less_imp_le)
      with True step show ?thesis by auto
    next
      case False
      with b step show ?thesis by auto
    qed
  qed (simp add: pick_name_def)
qed simp

text \<open>\<open>is_mode st names n\<close>: no name occurs more often than \<open>n\<close>, and no smaller one as often.\<close>

definition is_mode :: "'m resident_store \<Rightarrow> nat list \<Rightarrow> nat \<Rightarrow> bool" where
  "is_mode st names n \<longleftrightarrow>
     n \<in> set names \<and>
     (\<forall>m \<in> set names. count_list names m < count_list names n \<or>
        (count_list names m = count_list names n \<and> text_of st n \<le> text_of st m))"

definition tally :: "'a list \<Rightarrow> ('a \<times> nat) list" where
  "tally names = fold (\<lambda>n. entry_update ah_insert n 0 Suc) names []"

lemma count_list_filter: "length (filter (\<lambda>x. x = n) xs) = count_list xs n"
  by (induction xs) auto

lemma tally_lookup: "map_of (tally names) n = (if n \<in> set names then Some (count_list names n) else None)"
  using hashm.lookup_fold_entry_update [of "\<lambda>n. n" 0 "\<lambda>_. Suc" names "[]" n]
  by (simp add: tally_def fold_Suc count_list_filter)

lemma tally_entries: "set (tally names) = (\<lambda>n. (n, count_list names n)) ` set names"
proof -
  have "distinct (map fst (tally names))"
    unfolding tally_def by (intro hashm.invar_distinct hashm.invar_fold_entry_update hashm.invar_Nil)
  then have "(n, c) \<in> set (tally names) \<longleftrightarrow> map_of (tally names) n = Some c" for n c by simp
  then show ?thesis by (auto simp: tally_lookup split: if_splits)
qed

lemma pick_mode:
  assumes "permutes_positions order" "\<forall>n \<in> set names. known_string st n"
  shows "\<exists>sel. res_fold (pick_name st) (iterate order (tally names)) None = Inr sel \<and>
    (case sel of None \<Rightarrow> names = [] | Some (n, c) \<Rightarrow> is_mode st names n)"
proof (cases "names = []")
  case True
  then show ?thesis using mset_iterate [OF assms(1), of "tally ([] :: nat list)"] by (simp add: tally_def)
next
  case False
  let ?xs = "iterate order (tally names)"
  have set: "set ?xs = (\<lambda>n. (n, count_list names n)) ` set names"
    using set_iterate [OF assms(1), of "tally names"] by (simp add: tally_entries)
  with False have "?xs \<noteq> []" by (metis image_is_empty set_empty)
  from pick_name_fold [OF _ this, of st] set assms(2) obtain b where
    b: "b \<in> set ?xs" "res_fold (pick_name st) ?xs None = Inr (Some b)" "\<forall>x \<in> set ?xs. rank_key st b \<le> rank_key st x"
    by auto
  then have "is_mode st names (fst b)" unfolding set
    by (auto simp: is_mode_def rank_key_def less_eq_prod_def)
  with b show ?thesis by (auto split: prod.split)
qed

section \<open>Both paths select the modes\<close>

definition usable_names :: "'m resident_store \<Rightarrow> nft list \<Rightarrow> nat list" where
  "usable_names st nfts = List.map_filter (\<lambda>nft. opt_filter (\<lambda>n. is_usable_name (text_of st n)) (nf_name_id nft)) nfts"

definition names_of_contract :: "'m resident_store \<Rightarrow> nat \<Rightarrow> nat list" where
  "names_of_contract st c = usable_names st (filter (\<lambda>nft. nf_contract_id nft = c) (rs_nfts st))"

definition evm_contract :: "'m resident_store \<Rightarrow> nat \<Rightarrow> bool" where
  "evm_contract st c \<longleftrightarrow> store_is_evm_chain st (rs_chains st ! ct_chain_id (rs_contracts st ! c))"

text \<open>What the selection needs of the store; it is part of the invariant of the store.\<close>

definition names_ready :: "'m resident_store \<Rightarrow> bool" where
  "names_ready st \<longleftrightarrow>
     distinct (sp_strings (rs_strings st)) \<and>
     (\<forall>i < length (rs_contracts st).
        ct_id (rs_contracts st ! i) = i \<and> ct_chain_id (rs_contracts st ! i) < length (rs_chains st)) \<and>
     (\<forall>nft \<in> set (rs_nfts st). nf_contract_id nft < length (rs_contracts st) \<and> is_none_or (known_string st) (nf_name_id nft))"

lemma store_ok_names_ready: "store_ok hash st \<Longrightarrow> names_ready st"
proof -
  assume st: "store_ok hash st"
  have "is_none_or (known_string st) (nf_name_id nft)" if "nft \<in> set (rs_nfts st)" for nft
    using store_okD(6) [OF st that] by (cases "nf_name_id nft") (simp_all add: ids_below_def known_string_def)
  moreover have "ct_chain_id (rs_contracts st ! i) < length (rs_chains st)" if "i < length (rs_contracts st)" for i
    using store_okD(4) [OF st that] that by (simp add: contract_names_def)
  moreover have "ct_id (rs_contracts st ! i) = i" if "i < length (rs_contracts st)" for i
    using st that by (simp add: store_ok_def counts_ok_def)
  ultimately show ?thesis using store_okD(3,5) [OF st] by (simp add: names_ready_def)
qed

lemma names_readyD:
  assumes "names_ready st"
  shows "distinct (sp_strings (rs_strings st))"
    "c < length (rs_contracts st) \<Longrightarrow> ct_id (rs_contracts st ! c) = c"
    "c < length (rs_contracts st) \<Longrightarrow> ct_chain_id (rs_contracts st ! c) < length (rs_chains st)"
    "nft \<in> set (rs_nfts st) \<Longrightarrow> nf_contract_id nft < length (rs_contracts st)"
    "nft \<in> set (rs_nfts st) \<Longrightarrow> is_none_or (known_string st) (nf_name_id nft)"
  using assms by (auto simp: names_ready_def)

lemma nft_name_known: "names_ready st \<Longrightarrow> nft \<in> set (rs_nfts st) \<Longrightarrow> nf_name_id nft = Some n \<Longrightarrow> known_string st n"
  using names_readyD(5) [of st nft] by simp

lemma usable_names_known:
  "names_ready st \<Longrightarrow> set nfts \<subseteq> set (rs_nfts st) \<Longrightarrow> n \<in> set (usable_names st nfts) \<Longrightarrow> known_string st n"
  by (auto simp: usable_names_def List.map_filter_def intro: nft_name_known)

lemma names_of_contract_known: "names_ready st \<Longrightarrow> \<forall>n \<in> set (names_of_contract st c). known_string st n"
  using usable_names_known [of st "filter (\<lambda>nft. nf_contract_id nft = c) (rs_nfts st)"]
  by (simp add: names_of_contract_def)

lemma on_evm_chain_eq:
  assumes "names_ready st" "c < length (rs_contracts st)"
  shows "on_evm_chain st (rs_contracts st ! c) = Inr (evm_contract st c)"
proof -
  have "ct_chain_id (rs_contracts st ! c) < length (rs_chains st)" by (rule names_readyD(3) [OF assms])
  then show ?thesis by (simp add: on_evm_chain_def chain_name_def or_panic_def evm_contract_def)
qed

lemma count_names_fold:
  assumes "names_ready st" "\<forall>i \<in> set ids. i < length (rs_nfts st)"
  shows "res_fold (count_nft_name st) ids counts =
    Inr (fold (\<lambda>n. entry_update ah_insert n 0 Suc) (usable_names st (map ((!) (rs_nfts st)) ids)) counts)"
  using assms(2)
proof (induction ids arbitrary: counts)
  case (Cons i ids)
  have "known_string st n" if "nf_name_id (rs_nfts st ! i) = Some n" for n
    using Cons.prems that by (intro nft_name_known [OF assms(1)]) auto
  then show ?case using Cons
    by (cases "nf_name_id (rs_nfts st ! i)")
      (auto simp: count_nft_name_def or_panic_def usable_names_def List.map_filter_def)
qed (simp add: usable_names_def List.map_filter_def)

lemma mode_unique:
  assumes "names_ready st" "\<forall>n \<in> set names. known_string st n" "is_mode st names m" "is_mode st names n"
  shows "m = n"
proof -
  have mn: "m \<in> set names" "n \<in> set names" using assms(3,4) by (simp_all add: is_mode_def)
  have "count_list names m = count_list names n \<and> text_of st m = text_of st n"
    using assms(3,4) mn unfolding is_mode_def by (metis antisym less_asym less_irrefl)
  then show ?thesis
    using names_readyD(1) [OF assms(1)] assms(2) mn by (simp add: text_of_def known_string_def nth_eq_iff_index_eq)
qed

lemma contract_representative_spec:
  assumes "names_ready st" "permutes_positions order" "c < length (rs_contracts st)"
    "nfts_for_contract st c = filter (\<lambda>i. nf_contract_id (rs_nfts st ! i) = c) [0..<length (rs_nfts st)]"
  shows "\<exists>sel. contract_representative order st (rs_contracts st ! c) = Inr sel \<and>
    (case sel of
       None \<Rightarrow> \<not> evm_contract st c \<or> names_of_contract st c = []
     | Some (d, n) \<Rightarrow> d = c \<and> evm_contract st c \<and> is_mode st (names_of_contract st c) n)"
proof (cases "evm_contract st c")
  case True
  let ?ids = "filter (\<lambda>i. nf_contract_id (rs_nfts st ! i) = c) [0..<length (rs_nfts st)]"
  have id: "ct_id (rs_contracts st ! c) = c" by (rule names_readyD(2) [OF assms(1,3)])
  have "map ((!) (rs_nfts st)) ?ids = filter (\<lambda>nft. nf_contract_id nft = c) (map ((!) (rs_nfts st)) [0..<length (rs_nfts st)])"
    by (simp add: filter_map comp_def)
  then have nfts: "map ((!) (rs_nfts st)) ?ids = filter (\<lambda>nft. nf_contract_id nft = c) (rs_nfts st)"
    by (simp only: map_nth)
  have counts: "res_fold (count_nft_name st) (unwrap_or [] (csr_values_for (rs_contract_nft_csr st) c)) [] =
      Inr (tally (names_of_contract st c))"
    using count_names_fold [OF assms(1), of ?ids "[]"] assms(4)
    by (simp add: nfts_for_contract_def nfts tally_def names_of_contract_def)
  note known = names_of_contract_known [OF assms(1)]
  from pick_mode [OF assms(2) known] obtain sel where
    "res_fold (pick_name st) (iterate order (tally (names_of_contract st c))) None = Inr sel"
    "case sel of None \<Rightarrow> names_of_contract st c = [] | Some (n, k) \<Rightarrow> is_mode st (names_of_contract st c) n" by blast
  then show ?thesis
    using True id counts by (auto simp: contract_representative_def on_evm_chain_eq [OF assms(1,3)] split: option.splits)
next
  case False
  then show ?thesis by (simp add: contract_representative_def on_evm_chain_eq [OF assms(1,3)])
qed

text \<open>What both paths promise: the modes of the EVM contracts that have a usable name.\<close>

definition representatives_of :: "'m resident_store \<Rightarrow> (nat \<times> nat) list \<Rightarrow> bool" where
  "representatives_of st out \<longleftrightarrow>
     sorted (map fst out) \<and> distinct (map fst out) \<and>
     (\<forall>c n. (c, n) \<in> set out \<longleftrightarrow>
        c < length (rs_contracts st) \<and> evm_contract st c \<and> is_mode st (names_of_contract st c) n)"

lemma representatives_unique:
  assumes "representatives_of st out" "representatives_of st out'"
  shows "out = out'"
proof -
  have "(c, n) \<in> set out \<longleftrightarrow> (c, n) \<in> set out'" for c n
    using assms unfolding representatives_of_def by blast
  then have eq: "set out = set out'" by (intro set_eqI) (simp add: split_paired_all)
  have d: "sorted (map fst out)" "distinct (map fst out)" "sorted (map fst out')" "distinct (map fst out')"
    using assms unfolding representatives_of_def by blast+
  then have "inj_on fst (set out \<union> set out')" unfolding eq Un_absorb by (simp add: distinct_map)
  then show ?thesis by (rule map_sorted_distinct_set_unique) (use d eq in simp_all)
qed

text \<open>The names of the NFTs on EVM chains, with their contracts.\<close>

definition contract_name_pairs :: "'m resident_store \<Rightarrow> nft list \<Rightarrow> (nat \<times> nat) list" where
  "contract_name_pairs st nfts =
     List.map_filter (\<lambda>nft. if evm_contract st (nf_contract_id nft)
        then map_option (Pair (nf_contract_id nft)) (opt_filter (\<lambda>n. is_usable_name (text_of st n)) (nf_name_id nft))
        else None) nfts"

lemma count_contract_names_fold:
  assumes "names_ready st" "set nfts \<subseteq> set (rs_nfts st)"
  shows "res_fold (count_contract_name st) nfts counts =
    Inr (fold (\<lambda>p. entry_update ah_insert p 0 Suc) (contract_name_pairs st nfts) counts)"
  using assms(2)
proof (induction nfts arbitrary: counts)
  case (Cons nft nfts)
  have nft: "nft \<in> set (rs_nfts st)" using Cons.prems by simp
  have c: "nf_contract_id nft < length (rs_contracts st)" by (rule names_readyD(4) [OF assms(1) nft])
  note evm = on_evm_chain_eq [OF assms(1) c]
  show ?case
    using Cons c nft_name_known [OF assms(1) nft]
    by (cases "nf_name_id nft") (auto simp: count_contract_name_def or_panic_def evm contract_name_pairs_def List.map_filter_def)
qed (simp add: contract_name_pairs_def List.map_filter_def)

lemma contract_name_pairs_simps:
  "contract_name_pairs st [] = []"
  "contract_name_pairs st (nft # nfts) =
    (case opt_filter (\<lambda>n. is_usable_name (text_of st n)) (nf_name_id nft) of
       Some n \<Rightarrow> if evm_contract st (nf_contract_id nft) then [(nf_contract_id nft, n)] else []
     | None \<Rightarrow> []) @ contract_name_pairs st nfts"
  "usable_names st [] = []"
  "usable_names st (nft # nfts) =
    (case opt_filter (\<lambda>n. is_usable_name (text_of st n)) (nf_name_id nft) of Some n \<Rightarrow> [n] | None \<Rightarrow> []) @ usable_names st nfts"
  by (cases "nf_name_id nft"; simp add: contract_name_pairs_def usable_names_def List.map_filter_def)+

lemma pairs_of_contract:
  "map snd (filter (\<lambda>p. fst p = c) (contract_name_pairs st nfts)) =
    (if evm_contract st c then usable_names st (filter (\<lambda>nft. nf_contract_id nft = c) nfts) else [])"
proof (induction nfts)
  case (Cons nft nfts)
  then show ?case
    by (cases "opt_filter (\<lambda>n. is_usable_name (text_of st n)) (nf_name_id nft)")
      (simp_all add: contract_name_pairs_simps del: opt_filter_eq_Some)
qed (simp add: contract_name_pairs_simps)

lemma count_list_pairs: "count_list ps (c, n) = count_list (map snd (filter (\<lambda>p. fst p = c) ps)) n"
  by (induction ps) auto

lemma pick_contracts_fold:
  assumes "\<forall>x \<in> set xs. known_string st (snd (fst x))"
  shows "\<exists>sel. res_fold (pick_contract_name st) xs [] = Inr sel \<and> ah_distinct sel \<and>
    (\<forall>c. case map_of sel c of
        None \<Rightarrow> \<forall>x \<in> set xs. fst (fst x) \<noteq> c
      | Some b \<Rightarrow> ((c, fst b), snd b) \<in> set xs \<and> (\<forall>n k. ((c, n), k) \<in> set xs \<longrightarrow> rank_key st b \<le> rank_key st (n, k)))"
  using assms
proof (induction xs rule: rev_induct)
  case Nil
  then show ?case by (simp add: ah_distinct_def)
next
  case (snoc x xs)
  obtain c n k where x: "x = ((c, n), k)" by (metis prod.exhaust)
  from snoc obtain sel where sel: "res_fold (pick_contract_name st) xs [] = Inr sel" "ah_distinct sel"
    "\<And>c. case map_of sel c of
        None \<Rightarrow> \<forall>x \<in> set xs. fst (fst x) \<noteq> c
      | Some b \<Rightarrow> ((c, fst b), snd b) \<in> set xs \<and> (\<forall>n k. ((c, n), k) \<in> set xs \<longrightarrow> rank_key st b \<le> rank_key st (n, k))"
    by auto
  define new where "new = (case map_of sel c of None \<Rightarrow> True | Some b \<Rightarrow> rank_key st (n, k) < rank_key st b)"
  have "pick_contract_name st x sel = Inr (if new then ah_insert c (n, k) sel else sel)"
  proof (cases "map_of sel c")
    case (Some b)
    then have "known_string st (fst b)" "known_string st n" using sel(3) [of c] snoc.prems x by auto
    then have "replaces st (n, k) b = Inr (rank_key st (n, k) < rank_key st b)" by (intro replaces_eq) simp_all
    then show ?thesis using Some by (simp add: pick_contract_name_def x new_def)
  qed (simp add: pick_contract_name_def x new_def)
  then have step: "res_fold (pick_contract_name st) (xs @ [x]) [] = Inr (if new then ah_insert c (n, k) sel else sel)"
    using sel(1) by (simp add: res_fold_append)
  let ?P = "\<lambda>xs sel d. case map_of sel d of
      None \<Rightarrow> \<forall>x \<in> set xs. fst (fst x) \<noteq> d
    | Some b \<Rightarrow> ((d, fst b), snd b) \<in> set xs \<and> (\<forall>n k. ((d, n), k) \<in> set xs \<longrightarrow> rank_key st b \<le> rank_key st (n, k))"
  have "?P (xs @ [x]) (if new then ah_insert c (n, k) sel else sel) d" for d
  proof (cases "d = c")
    case False
    then show ?thesis using sel(3) [of d] x by (auto simp: hashm.lookup_ins split: option.splits)
  next
    case True
    show ?thesis
    proof (cases "map_of sel c")
      case None
      then show ?thesis using True sel(3) [of c] x by (auto simp: hashm.lookup_ins new_def)
    next
      case (Some b)
      then show ?thesis using True sel(3) [of c] x
        by (auto simp: hashm.lookup_ins new_def not_less dest: less_imp_le intro: order_trans)
    qed
  qed
  with step sel(2) show ?case by (auto simp: ah_distinct_insert)
qed

lemma contract_pairs_set:
  assumes "names_ready st"
  shows "(c, n) \<in> set (contract_name_pairs st (rs_nfts st)) \<longleftrightarrow> evm_contract st c \<and> n \<in> set (names_of_contract st c)"
    and "evm_contract st c \<Longrightarrow> count_list (contract_name_pairs st (rs_nfts st)) (c, n) = count_list (names_of_contract st c) n"
proof -
  have pairs: "(c, n) \<in> set ps \<longleftrightarrow> n \<in> set (map snd (filter (\<lambda>p. fst p = c) ps))" for ps :: "(nat \<times> nat) list"
    by force
  show "(c, n) \<in> set (contract_name_pairs st (rs_nfts st)) \<longleftrightarrow> evm_contract st c \<and> n \<in> set (names_of_contract st c)"
    unfolding pairs [of "contract_name_pairs st (rs_nfts st)"] pairs_of_contract names_of_contract_def by simp
  show "evm_contract st c \<Longrightarrow> count_list (contract_name_pairs st (rs_nfts st)) (c, n) = count_list (names_of_contract st c) n"
    by (simp add: count_list_pairs pairs_of_contract names_of_contract_def)
qed

lemma contract_with_names:
  assumes "names_ready st" "names_of_contract st c \<noteq> []"
  shows "c < length (rs_contracts st)"
proof -
  from assms(2) have "filter (\<lambda>nft. nf_contract_id nft = c) (rs_nfts st) \<noteq> []"
    by (auto simp: names_of_contract_def contract_name_pairs_simps)
  then show ?thesis using names_readyD(4) [OF assms(1)] by (auto simp: filter_empty_conv)
qed

lemma without_csr_spec:
  assumes st: "names_ready st" and perm: "permutes_positions order"
  shows "\<exists>out. select_evm_representatives_without_csr order st = Inr out \<and> representatives_of st out"
proof -
  let ?pairs = "contract_name_pairs st (rs_nfts st)"
  have counts: "res_fold (count_contract_name st) (rs_nfts st) [] = Inr (tally ?pairs)"
    using count_contract_names_fold [OF st order_refl, of "[]"] by (simp add: tally_def)
  have entries: "((c, n), k) \<in> set (iterate order (tally ?pairs)) \<longleftrightarrow>
      evm_contract st c \<and> n \<in> set (names_of_contract st c) \<and> k = count_list (names_of_contract st c) n" for c n k
    using contract_pairs_set [OF st] by (auto simp: set_iterate [OF perm] tally_entries)
  have "\<forall>x \<in> set (iterate order (tally ?pairs)). known_string st (snd (fst x))"
    using entries names_of_contract_known [OF st] by (metis prod.collapse)
  from pick_contracts_fold [OF this] obtain sel where
    sel: "res_fold (pick_contract_name st) (iterate order (tally ?pairs)) [] = Inr sel" "ah_distinct sel"
    and best: "\<And>c. case map_of sel c of
        None \<Rightarrow> \<forall>x \<in> set (iterate order (tally ?pairs)). fst (fst x) \<noteq> c
      | Some b \<Rightarrow> ((c, fst b), snd b) \<in> set (iterate order (tally ?pairs)) \<and>
          (\<forall>n k. ((c, n), k) \<in> set (iterate order (tally ?pairs)) \<longrightarrow> rank_key st b \<le> rank_key st (n, k))" by blast
  define out where "out = sort_key fst (map (\<lambda>(c, n, _). (c, n)) (iterate order sel))"
  have mode: "is_mode st (names_of_contract st c) n" "evm_contract st c" "c < length (rs_contracts st)"
    if "map_of sel c = Some (n, k)" for c n k
  proof -
    have b: "((c, n), k) \<in> set (iterate order (tally ?pairs))"
      "\<forall>m j. ((c, m), j) \<in> set (iterate order (tally ?pairs)) \<longrightarrow> rank_key st (n, k) \<le> rank_key st (m, j)"
      using best [of c] that by auto
    then have n: "evm_contract st c" "n \<in> set (names_of_contract st c)" unfolding entries by blast+
    then have "names_of_contract st c \<noteq> []" by force
    then show "c < length (rs_contracts st)" by (rule contract_with_names [OF st])
    show "evm_contract st c" by (rule n(1))
    show "is_mode st (names_of_contract st c) n"
      using b unfolding entries by (auto simp: is_mode_def rank_key_def less_eq_prod_def)
  qed
  have found: "\<exists>n k. map_of sel c = Some (n, k)" if evm: "evm_contract st c" and ne: "names_of_contract st c \<noteq> []" for c
  proof (cases "map_of sel c")
    case None
    obtain n where "n \<in> set (names_of_contract st c)" using ne by (cases "names_of_contract st c") auto
    with entries evm have "((c, n), count_list (names_of_contract st c) n) \<in> set (iterate order (tally ?pairs))" by simp
    with best [of c] None show ?thesis by auto
  qed auto
  have distinct: "distinct (map fst sel)" using sel(2) by (simp add: ah_distinct_def)
  have mset_out: "mset out = mset (map (\<lambda>(c, n, _). (c, n)) sel)"
    using mset_iterate [OF perm, of sel] by (simp add: out_def)
  have set_out: "(c, n) \<in> set out \<longleftrightarrow> (\<exists>k. map_of sel c = Some (n, k))" for c n
    using mset_eq_setD [OF mset_out] distinct by force
  have fsts: "mset (map fst out) = mset (map fst sel)"
    unfolding mset_map [of fst] mset_out by (simp add: multiset.map_comp comp_def case_prod_unfold)
  have "representatives_of st out"
    unfolding representatives_of_def
  proof (intro conjI allI)
    show "sorted (map fst out)" by (simp add: out_def)
    show "distinct (map fst out)" using mset_eq_imp_distinct_iff [OF fsts] distinct by simp
    fix c n
    show "(c, n) \<in> set out \<longleftrightarrow>
        c < length (rs_contracts st) \<and> evm_contract st c \<and> is_mode st (names_of_contract st c) n"
    proof
      assume "c < length (rs_contracts st) \<and> evm_contract st c \<and> is_mode st (names_of_contract st c) n"
      then have r: "evm_contract st c" "is_mode st (names_of_contract st c) n" by simp_all
      then have "names_of_contract st c \<noteq> []" by (auto simp: is_mode_def)
      from found [OF r(1) this] obtain m k where m: "map_of sel c = Some (m, k)" by blast
      have "m = n" by (rule mode_unique [OF st names_of_contract_known [OF st] mode(1) [OF m] r(2)])
      with m show "(c, n) \<in> set out" by (auto simp: set_out)
    qed (auto simp: set_out dest: mode)
  qed
  then show ?thesis using counts sel(1) by (simp add: select_evm_representatives_without_csr_def out_def)
qed

lemma with_csr_spec:
  assumes st: "names_ready st" and perm: "permutes_positions order"
    and posts: "\<And>c. nfts_for_contract st c = filter (\<lambda>i. nf_contract_id (rs_nfts st ! i) = c) [0..<length (rs_nfts st)]"
  shows "\<exists>rs. par_collect (map (contract_representative order st) (rs_contracts st)) = Inr rs \<and>
    representatives_of st (sort_key fst (List.map_filter id rs))"
proof -
  let ?contracts = "rs_contracts st"
  define ok where "ok = (\<lambda>c sel. contract_representative order st (?contracts ! c) = Inr sel \<and>
    (case sel of
       None \<Rightarrow> \<not> evm_contract st c \<or> names_of_contract st c = []
     | Some (d, n) \<Rightarrow> d = c \<and> evm_contract st c \<and> is_mode st (names_of_contract st c) n))"
  have "\<forall>c. \<exists>sel. c < length ?contracts \<longrightarrow> ok c sel"
    using contract_representative_spec [OF st perm _ posts] by (auto simp: ok_def)
  then obtain f where f: "\<And>c. c < length ?contracts \<Longrightarrow> ok c (f c)" by metis
  let ?rs = "map f [0..<length ?contracts]"
  have "map (contract_representative order st) ?contracts = map (\<lambda>c. contract_representative order st (?contracts ! c)) [0..<length ?contracts]"
    by (rule nth_equalityI) simp_all
  moreover have "par_collect (map (\<lambda>c. contract_representative order st (?contracts ! c)) [0..<length ?contracts]) = Inr ?rs"
    using f by (intro par_collect_map) (simp add: ok_def)
  ultimately have collect: "par_collect (map (contract_representative order st) ?contracts) = Inr ?rs" by simp
  have keys: "map fst (List.map_filter id ?rs) = filter (\<lambda>c. f c \<noteq> None) [0..<length ?contracts]"
  proof -
    have "map fst (List.map_filter id (map f cs)) = filter (\<lambda>c. f c \<noteq> None) cs" if "\<forall>c \<in> set cs. c < length ?contracts" for cs
      using that f by (induction cs) (fastforce simp: List.map_filter_def ok_def)+
    then show ?thesis by simp
  qed
  have "representatives_of st (sort_key fst (List.map_filter id ?rs))"
    unfolding representatives_of_def
  proof (intro conjI allI)
    show "sorted (map fst (sort_key fst (List.map_filter id ?rs)))" by simp
    have "mset (map fst (sort_key fst (List.map_filter id ?rs))) = mset (map fst (List.map_filter id ?rs))" by simp
    then show "distinct (map fst (sort_key fst (List.map_filter id ?rs)))"
      using mset_eq_imp_distinct_iff keys by (metis distinct_filter distinct_upt)
    fix c n
    have "(c, n) \<in> set (sort_key fst (List.map_filter id ?rs)) \<longleftrightarrow> (\<exists>d < length ?contracts. f d = Some (c, n))"
      by (force simp: List.map_filter_def)
    also have "\<dots> \<longleftrightarrow> c < length ?contracts \<and> evm_contract st c \<and> is_mode st (names_of_contract st c) n"
    proof
      assume "\<exists>d < length ?contracts. f d = Some (c, n)"
      then show "c < length ?contracts \<and> evm_contract st c \<and> is_mode st (names_of_contract st c) n"
        using f by (fastforce simp: ok_def)
    next
      assume r: "c < length ?contracts \<and> evm_contract st c \<and> is_mode st (names_of_contract st c) n"
      then have "names_of_contract st c \<noteq> []" by (auto simp: is_mode_def)
      with r f [of c] obtain m where m: "f c = Some (c, m)" "is_mode st (names_of_contract st c) m"
        by (auto simp: ok_def split: option.splits)
      then have "m = n" using mode_unique [OF st names_of_contract_known [OF st] m(2)] r by blast
      with m r show "\<exists>d < length ?contracts. f d = Some (c, n)" by blast
    qed
    finally show "(c, n) \<in> set (sort_key fst (List.map_filter id ?rs)) \<longleftrightarrow>
        c < length ?contracts \<and> evm_contract st c \<and> is_mode st (names_of_contract st c) n" .
  qed
  with collect show ?thesis by blast
qed

lemma empty_csr_posts: "csr_is_empty (rs_contract_nft_csr st) \<Longrightarrow> nfts_for_contract st c = []"
  by (simp add: nfts_for_contract_def csr_values_for_def row_for_def csr_is_empty_def binary_search_def binary_search_by_def)

text \<open>The postings of the contracts are those of its NFTs, or none have been built.\<close>

definition postings_current :: "'m resident_store \<Rightarrow> bool" where
  "postings_current st \<longleftrightarrow>
     rs_contract_nft_csr st = build_contract_nft_csr (rs_nfts st) \<or> csr_is_empty (rs_contract_nft_csr st)"

text \<open>C31. On every well-formed store the representatives are, in the order of the contract ids, exactly
  the EVM contracts that have a usable name, each with its most frequent name and the smallest of
  several; with or without the postings, and whatever order the hash maps are walked in.\<close>

theorem representatives_exact:
  assumes "names_ready st" "permutes_positions order" "postings_current st" "length (rs_nfts st) < 2 ^ 32"
  shows "\<exists>out. select_evm_representatives order st = Inr out \<and> representatives_of st out"
proof (cases "csr_is_empty (rs_contract_nft_csr st) \<and> rs_nfts st \<noteq> []")
  case True
  with without_csr_spec [OF assms(1,2)] show ?thesis by (simp add: select_evm_representatives_def)
next
  case False
  have "nfts_for_contract st c = filter (\<lambda>i. nf_contract_id (rs_nfts st ! i) = c) [0..<length (rs_nfts st)]" for c
    using nfts_for_contract_eq [OF assms(4)] empty_csr_posts [of st] assms(3) False
    by (auto simp: postings_current_def)
  from with_csr_spec [OF assms(1,2) this] show ?thesis using False by (auto simp: select_evm_representatives_def)
qed

section \<open>An example\<close>

definition name_example_contract :: "nat \<Rightarrow> nat \<Rightarrow> contract" where
  "name_example_contract i chain =
     \<lparr>ct_id = i, ct_chain_id = chain, ct_address = ''0x1'', ct_nft_count = 1, ct_name_id = None, ct_metadata_by_token = []\<rparr>"

definition name_example_nft :: "nat \<Rightarrow> nat option \<Rightarrow> nft" where
  "name_example_nft c name =
     \<lparr>nf_contract_id = c, nf_token_id_id = 9, nf_name_id = name, nf_token_uri_id = None, nf_image_uri_id = None\<rparr>"

text \<open>Two EVM contracts and two Solana collections.\<close>

definition name_example :: "unit resident_store" where
  "name_example = rebuild_contract_nft_csr ((with_options () None [''ethereum''])\<lparr>rs_chains := [''ethereum'', ''solana''],
     rs_strings := pool_new\<lparr>sp_strings := [''Beta'', ''Alpha'', ''null'', ''Alphb'']\<rparr>,
     rs_contracts := [name_example_contract 0 0, name_example_contract 1 0, name_example_contract 2 1, name_example_contract 3 1],
     rs_nfts := [name_example_nft 0 (Some 0), name_example_nft 0 (Some 1), name_example_nft 1 (Some 1), name_example_nft 2 (Some 3),
       name_example_nft 3 (Some 1), name_example_nft 3 (Some 2)]\<rparr>)"

lemma name_example_fields [simp]:
  "rs_chains name_example = [''ethereum'', ''solana'']"
  "rs_evm_chains name_example = [''ethereum'']"
  "rs_strings name_example = pool_new\<lparr>sp_strings := [''Beta'', ''Alpha'', ''null'', ''Alphb'']\<rparr>"
  "rs_contracts name_example =
    [name_example_contract 0 0, name_example_contract 1 0, name_example_contract 2 1, name_example_contract 3 1]"
  "rs_nfts name_example = [name_example_nft 0 (Some 0), name_example_nft 0 (Some 1), name_example_nft 1 (Some 1), name_example_nft 2 (Some 3),
       name_example_nft 3 (Some 1), name_example_nft 3 (Some 2)]"
  "rs_contract_nft_csr name_example = build_contract_nft_csr (rs_nfts name_example)"
  by (simp_all add: name_example_def rebuild_contract_nft_csr_def with_options_def)

lemma name_example_ready: "names_ready name_example"
  by (auto simp: names_ready_def name_example_contract_def name_example_nft_def known_string_def less_Suc_eq)

lemma upto_positions: "permutes_positions (\<lambda>n. [0..<n])"
  by (simp add: permutes_positions_def)

theorem representatives_exact_witness:
  "\<exists>out. select_evm_representatives (\<lambda>n. [0..<n]) name_example = Inr out \<and> representatives_of name_example out"
  using representatives_exact [OF name_example_ready upto_positions] by (simp add: postings_current_def)

end
