(* ===== verification/NameIndex.thy ===== *)
theory NameIndex
  imports NameTokens NameRepresentative UriQuery
begin

text \<open>
  The index of the names (\<open>finalize_name_index\<close> in
  \<open>src/analysis2/crates/core/src/dedup/name/mod.rs\<close>): postings from names to EVM contracts and Solana
  NFTs, the names in the order of their lengths with their sorted characters, and the occurrence
  tokens of every name with their postings.

  \<open>cancelled\<close> tells at which polls the progress observer cancels; a parallel loop over chunks polls
  once for each of them.  Hash sets whose elements are sorted afterwards are lists without
  repetitions.  Ids are cast by \<open>u32\<close> where the code casts them.  A failed call returns no store, its
  callers pass the error on.  The \<open>debug_assert\<close> at the end is not part of a release build.
\<close>

section \<open>Postings of the names\<close>

datatype name_poll = PollProfiles nat | PollLayout nat | PollCatalog nat | PollTokens nat

definition clear_name_ids :: "'m resident_store \<Rightarrow> 'm resident_store" where
  "clear_name_ids st = st\<lparr>rs_contracts := map (\<lambda>c. c\<lparr>ct_name_id := None\<rparr>) (rs_contracts st)\<rparr>"

definition set_name_id :: "nat \<times> nat \<Rightarrow> contract list \<Rightarrow> contract list result" where
  "set_name_id rep contracts =
     (let (contract_id, name_id) = rep
      in res_bind (or_panic (idx contracts contract_id)) (\<lambda>c.
         or_panic (upd contracts contract_id (c\<lparr>ct_name_id := Some name_id\<rparr>))))"

definition store_representatives ::
  "(nat \<Rightarrow> nat list) \<Rightarrow> 'm resident_store \<Rightarrow> 'm resident_store result" where
  "store_representatives order st =
     res_bind (select_evm_representatives order st) (\<lambda>reps.
     res_bind (res_fold set_name_id reps (rs_contracts st)) (\<lambda>contracts.
     Inr (st\<lparr>rs_contracts := contracts,
             rs_name_contract_csr := from_sorted_pairs (sort (map (\<lambda>(contract_id, name_id). (name_id, contract_id)) reps))\<rparr>)))"

definition nft_name_pair :: "'m resident_store \<Rightarrow> nat \<times> nft \<Rightarrow> (nat \<times> nat) option result" where
  "nft_name_pair st entry =
     (let (ni, nft) = entry
      in case nf_name_id nft of
           None \<Rightarrow> Inr None
         | Some name_id \<Rightarrow>
             res_bind (or_panic (idx (rs_contracts st) (nf_contract_id nft))) (\<lambda>contract.
             res_bind (on_evm_chain st contract) (\<lambda>evm.
               if evm then Inr None
               else res_bind (store_string st name_id) (\<lambda>name.
                 Inr (then_some (is_usable_name name) (name_id, u32 ni))))))"

definition store_nft_names :: "'m resident_store \<Rightarrow> 'm resident_store result" where
  "store_nft_names st =
     res_bind (par_collect (map (nft_name_pair st) (enumerated (rs_nfts st)))) (\<lambda>pairs.
       Inr (st\<lparr>rs_name_nft_csr := from_sorted_pairs (sort (List.map_filter id pairs))\<rparr>))"

section \<open>The names in the order of their lengths\<close>

type_synonym profile = "nat \<times> nat \<times> nat list"

definition name_chunk :: nat where
  "name_chunk = 1024"

text \<open>\<open>keys.dedup()\<close> after the sort; the strings of the keys are known when they are compared.\<close>

definition keyed_names :: "'m resident_store \<Rightarrow> (nat \<times> nat) list result" where
  "keyed_names st =
     (let keys = sort_dedup (cx_keys (rs_name_contract_csr st) @ cx_keys (rs_name_nft_csr st))
      in res_bind (par_collect (map (\<lambda>i. res_bind (store_string st i) (\<lambda>s. Inr (char_len_fast s, i))) keys)) (\<lambda>keyed.
         Inr (sort_key (\<lambda>(char_len, i). (char_len, unwrap_or [] (pool_get (rs_strings st) i))) keyed)))"

definition name_profile :: "'m resident_store \<Rightarrow> nat \<times> nat \<Rightarrow> profile result" where
  "name_profile st keyed =
     (let (char_len, i) = keyed in res_bind (store_string st i) (\<lambda>s. Inr (char_len, i, sort (chars s))))"

text \<open>A parallel loop over chunks that polls before each of them.\<close>

definition par_chunks :: "(nat \<Rightarrow> bool) \<Rightarrow> ('a list \<Rightarrow> 'b result) \<Rightarrow> 'a list \<Rightarrow> 'b list result" where
  "par_chunks cancelled f xs =
     par_collect (map (\<lambda>(k, chunk). res_bind (check_cancelled (cancelled k)) (\<lambda>_. f chunk))
       (enumerated (chunks_of name_chunk xs)))"

definition name_profiles :: "(name_poll \<Rightarrow> bool) \<Rightarrow> 'm resident_store \<Rightarrow> (nat \<times> nat) list \<Rightarrow> profile list result" where
  "name_profiles cancelled st keyed =
     res_bind (par_chunks (\<lambda>k. cancelled (PollProfiles k)) (\<lambda>chunk. res_collect (map (name_profile st) chunk)) keyed)
       (\<lambda>chunks. Inr (concat chunks))"

definition clear_profiles :: "'m resident_store \<Rightarrow> 'm resident_store" where
  "clear_profiles st =
     st\<lparr>rs_name_keys_by_len := [], rs_name_key_char_lens := [], rs_name_sorted_char_offsets := [0],
        rs_name_sorted_chars := [], rs_name_key_positions := [], rs_name_occurrence_token_offsets := [0],
        rs_name_occurrence_tokens := [], rs_name_occurrence_postings := csr_new\<rparr>"

definition lay_profile ::
  "(name_poll \<Rightarrow> bool) \<Rightarrow> nat \<times> profile \<Rightarrow> 'm resident_store \<Rightarrow> 'm resident_store result" where
  "lay_profile cancelled entry st =
     (let (key_index, char_len, i, sorted_chars) = entry
      in res_bind (if key_index mod 1024 = 0 then check_cancelled (cancelled (PollLayout key_index)) else Inr ()) (\<lambda>_.
         if char_len < 2 ^ 32
         then let all_chars = rs_name_sorted_chars st @ sorted_chars
           in Inr (st\<lparr>rs_name_keys_by_len := rs_name_keys_by_len st @ [i],
                rs_name_key_char_lens := rs_name_key_char_lens st @ [char_len],
                rs_name_key_positions := ah_insert i (u32 key_index) (rs_name_key_positions st),
                rs_name_sorted_chars := all_chars,
                rs_name_sorted_char_offsets := rs_name_sorted_char_offsets st @ [length all_chars]\<rparr>)
         else invalid ''indexed name is too long for u32''))"

section \<open>Occurrence tokens\<close>

definition profile_tokens :: "profile \<Rightarrow> nat list" where
  "profile_tokens p = visit_occurrence_tokens (snd (snd p))"

definition occurrence_catalog :: "(name_poll \<Rightarrow> bool) \<Rightarrow> profile list \<Rightarrow> nat list result" where
  "occurrence_catalog cancelled profiles =
     res_bind (par_chunks (\<lambda>k. cancelled (PollCatalog k)) (\<lambda>chunk. Inr (remdups (concat (map profile_tokens chunk)))) profiles)
       (\<lambda>chunks.
          if length (concat chunks) \<ge> 2 ^ 32 then invalid ''too many name occurrence postings''
          else let keys = sort_dedup (concat chunks)
            in if length keys \<ge> 2 ^ 32 then invalid ''too many name occurrence tokens'' else Inr keys)"

definition occurrence_ids :: "nat list \<Rightarrow> nat \<Rightarrow> nat option" where
  "occurrence_ids keys raw = map_of (map (\<lambda>(token, raw). (raw, u32 token)) (enumerated keys)) raw"

definition name_tokens :: "(name_poll \<Rightarrow> bool) \<Rightarrow> nat list \<Rightarrow> profile list \<Rightarrow> nat list list result" where
  "name_tokens cancelled keys profiles =
     res_bind (par_chunks (\<lambda>k. cancelled (PollTokens k))
         (\<lambda>chunk. res_collect (map (\<lambda>p. res_collect (map (\<lambda>raw. or_panic (occurrence_ids keys raw)) (profile_tokens p))) chunk))
         profiles)
       (\<lambda>chunks. Inr (concat chunks))"

text \<open>The atomic counters, added to in any order.\<close>

definition count_posting :: "nat \<Rightarrow> nat list \<Rightarrow> nat list result" where
  "count_posting token counts =
     res_bind (or_panic (idx counts token)) (\<lambda>n. or_panic (upd counts token (u32 (n + 1))))"

definition posting_counts :: "nat \<Rightarrow> nat list list \<Rightarrow> nat list result" where
  "posting_counts n tokens = res_fold count_posting (concat tokens) (replicate n 0)"

text \<open>Rare tokens first; every token has been counted, so its counter exists.\<close>

definition rare_first :: "nat list \<Rightarrow> nat list \<Rightarrow> nat list" where
  "rare_first counts tokens = sort_key (\<lambda>token. (counts ! token, token)) tokens"

definition posting_pairs :: "nat list list \<Rightarrow> (nat \<times> nat) list" where
  "posting_pairs tokens = concat (map (\<lambda>(key_index, ts). map (\<lambda>token. (token, u32 key_index)) ts) (enumerated tokens))"

definition lay_tokens :: "nat list \<Rightarrow> 'm resident_store \<Rightarrow> 'm resident_store" where
  "lay_tokens tokens st =
     (let all_tokens = rs_name_occurrence_tokens st @ tokens
      in st\<lparr>rs_name_occurrence_tokens := all_tokens,
            rs_name_occurrence_token_offsets := rs_name_occurrence_token_offsets st @ [length all_tokens]\<rparr>)"

definition store_tokens ::
  "(name_poll \<Rightarrow> bool) \<Rightarrow> profile list \<Rightarrow> 'm resident_store \<Rightarrow> 'm resident_store result" where
  "store_tokens cancelled profiles st =
     res_bind (occurrence_catalog cancelled profiles) (\<lambda>keys.
     res_bind (name_tokens cancelled keys profiles) (\<lambda>tokens.
     res_bind (posting_counts (length keys) tokens) (\<lambda>counts.
     let tokens = map (rare_first counts) tokens
     in if sum_list (map length tokens) \<ge> 2 ^ 32 then invalid ''too many name occurrence postings''
        else Inr ((fold lay_tokens tokens st)\<lparr>rs_name_occurrence_postings := from_sorted_pairs (sort (posting_pairs tokens))\<rparr>))))"

section \<open>The index\<close>

definition store_profiles ::
  "(name_poll \<Rightarrow> bool) \<Rightarrow> profile list \<Rightarrow> 'm resident_store \<Rightarrow> 'm resident_store result" where
  "store_profiles cancelled profiles st =
     (if length profiles \<ge> 2 ^ 32 then invalid ''too many indexed names for u32''
      else res_fold (lay_profile cancelled) (enumerated profiles) (clear_profiles st))"

definition finalize_name_index ::
  "(nat \<Rightarrow> nat list) \<Rightarrow> (name_poll \<Rightarrow> bool) \<Rightarrow> 'm resident_store \<Rightarrow> 'm resident_store result" where
  "finalize_name_index order cancelled st =
     (let st = clear_name_ids
            (if csr_is_empty (rs_contract_nft_csr st) \<and> rs_nfts st \<noteq> [] then rebuild_contract_nft_csr st else st)
      in res_bind (store_representatives order st) (\<lambda>st.
         res_bind (store_nft_names st) (\<lambda>st.
         res_bind (keyed_names st) (\<lambda>keyed.
         res_bind (name_profiles cancelled st keyed) (\<lambda>profiles.
         res_bind (store_profiles cancelled profiles st) (\<lambda>st.
         store_tokens cancelled profiles st))))))"

end
