(* ===== verification/NameIndexOk.thy ===== *)
theory NameIndexOk
  imports NameIndex
begin

text \<open>
  What \<open>finalize_name_index\<close> leaves in the store: \<open>name_index_ok\<close> says which names are keys, in which
  order, and what the rows of characters, the rows of tokens and the postings hold.
\<close>

section \<open>Rows and postings\<close>

lemma csr_sorted_values:
  assumes "length ps < 2 ^ 32" "sorted (map snd (filter (\<lambda>p. fst p = k) ps))"
  shows "csr_values_for (from_sorted_pairs (sort ps)) k =
    (if k \<in> fst ` set ps then Some (map snd (filter (\<lambda>p. fst p = k) ps)) else None)"
proof -
  have sorted: "sorted (map fst (sort ps))" unfolding sorted_map
    by (rule sorted_wrt_mono_rel [of _ "(\<le>)"]) (auto simp: less_eq_prod_def)
  have "sorted_wrt (\<lambda>p q. p \<le> q) (filter (\<lambda>p. fst p = k) ps)"
  proof (rule sorted_wrt_mono_rel)
    show "sorted_wrt (\<lambda>p q. snd p \<le> snd q) (filter (\<lambda>p. fst p = k) ps)" using assms(2) by (simp add: sorted_map)
  qed (auto simp: less_eq_prod_def)
  then have "filter (\<lambda>p. fst p = k) (sort ps) = filter (\<lambda>p. fst p = k) ps"
    unfolding filter_sort by (rule sorted_sort_id)
  then show ?thesis using csr.build_values [OF sorted, of k] assms(1) by simp
qed

text \<open>Pairs made of the positions of a list.\<close>

lemma map_filter_positions:
  assumes "\<And>i. i < length xs \<Longrightarrow> f (i, xs ! i) = (if P i then Some (g i, i) else None)"
  shows "map snd (filter (\<lambda>p. fst p = k) (List.map_filter f (enumerated xs))) = filter (\<lambda>i. P i \<and> g i = k) [0..<length xs]"
    "set (List.map_filter f (enumerated xs)) = {(g i, i) | i. i < length xs \<and> P i}"
proof -
  have eq: "enumerated xs = map (\<lambda>i. (i, xs ! i)) [0..<length xs]" by (rule nth_equalityI) simp_all
  have "map snd (filter (\<lambda>p. fst p = k) (List.map_filter f (map (\<lambda>i. (i, xs ! i)) is))) = filter (\<lambda>i. P i \<and> g i = k) is"
    if "\<forall>i \<in> set is. i < length xs" for "is"
    using that assms by (induction "is") (auto simp: List.map_filter_def)
  then show "map snd (filter (\<lambda>p. fst p = k) (List.map_filter f (enumerated xs))) = filter (\<lambda>i. P i \<and> g i = k) [0..<length xs]"
    unfolding eq by simp
  show "set (List.map_filter f (enumerated xs)) = {(g i, i) | i. i < length xs \<and> P i}"
    unfolding eq using assms by (force simp: List.map_filter_def split: if_splits)
qed

lemma length_map_filter_le: "length (List.map_filter f xs) \<le> length xs"
  by (induction xs) (auto simp: List.map_filter_def le_SucI split: option.splits)

section \<open>The postings of the names\<close>

definition solana_name :: "'m resident_store \<Rightarrow> nat \<Rightarrow> nat \<Rightarrow> bool" where
  "solana_name st i n \<longleftrightarrow>
     nf_name_id (rs_nfts st ! i) = Some n \<and> is_usable_name (text_of st n) \<and> \<not> evm_contract st (nf_contract_id (rs_nfts st ! i))"

definition nft_postings_ok :: "'m resident_store \<Rightarrow> bool" where
  "nft_postings_ok st \<longleftrightarrow>
     (\<forall>n. csr_values_for (rs_name_nft_csr st) n =
        (if \<exists>i < length (rs_nfts st). solana_name st i n
         then Some (filter (\<lambda>i. solana_name st i n) [0..<length (rs_nfts st)]) else None))"

text \<open>The facts about names only read these parts of the store.\<close>

definition name_base :: "'m resident_store \<Rightarrow> nft list \<times> string_pool \<times> string list \<times> string list \<times> (nat \<times> nat) list" where
  "name_base st =
     (rs_nfts st, rs_strings st, rs_chains st, rs_evm_chains st, map (\<lambda>c. (ct_id c, ct_chain_id c)) (rs_contracts st))"

lemma name_base_simps [simp]:
  "name_base (st\<lparr>rs_name_nft_csr := csr\<rparr>) = name_base st"
  "name_base (st\<lparr>rs_name_contract_csr := csr\<rparr>) = name_base st"
  "name_base (st\<lparr>rs_contract_nft_csr := csr\<rparr>) = name_base st"
  "name_base (st\<lparr>rs_contracts := contracts, rs_name_contract_csr := csr\<rparr>) = name_base (st\<lparr>rs_contracts := contracts\<rparr>)"
  by (simp_all add: name_base_def)

lemma name_baseD:
  assumes "name_base st' = name_base st"
  shows "rs_nfts st' = rs_nfts st" "rs_strings st' = rs_strings st" "rs_chains st' = rs_chains st"
    "rs_evm_chains st' = rs_evm_chains st" "length (rs_contracts st') = length (rs_contracts st)"
    "c < length (rs_contracts st) \<Longrightarrow> ct_id (rs_contracts st' ! c) = ct_id (rs_contracts st ! c)"
    "c < length (rs_contracts st) \<Longrightarrow> ct_chain_id (rs_contracts st' ! c) = ct_chain_id (rs_contracts st ! c)"
proof -
  have m: "map (\<lambda>c. (ct_id c, ct_chain_id c)) (rs_contracts st') = map (\<lambda>c. (ct_id c, ct_chain_id c)) (rs_contracts st)"
    using assms by (simp add: name_base_def)
  then show len: "length (rs_contracts st') = length (rs_contracts st)" by (rule map_eq_imp_length_eq)
  show "c < length (rs_contracts st) \<Longrightarrow> ct_id (rs_contracts st' ! c) = ct_id (rs_contracts st ! c)"
    "c < length (rs_contracts st) \<Longrightarrow> ct_chain_id (rs_contracts st' ! c) = ct_chain_id (rs_contracts st ! c)"
    using arg_cong [OF m, of "\<lambda>xs. xs ! c"] len by simp_all
qed (use assms in \<open>simp_all add: name_base_def\<close>)

lemma known_string_cong: "name_base st' = name_base st \<Longrightarrow> known_string st' = known_string st"
  using name_baseD(2) [of st' st] by (simp add: known_string_def fun_eq_iff)

lemma names_ready_cong: "name_base st' = name_base st \<Longrightarrow> names_ready st' \<longleftrightarrow> names_ready st"
  using name_baseD [of st' st] known_string_cong [of st' st] by (simp add: names_ready_def)

lemma text_of_cong: "name_base st' = name_base st \<Longrightarrow> text_of st' = text_of st"
  using name_baseD(2) [of st' st] by (simp add: text_of_def fun_eq_iff)

lemma evm_contract_cong:
  "name_base st' = name_base st \<Longrightarrow> c < length (rs_contracts st) \<Longrightarrow> evm_contract st' c = evm_contract st c"
  using name_baseD [of st' st] by (simp add: evm_contract_def store_is_evm_chain_def)

lemma solana_name_cong:
  assumes "name_base st' = name_base st" "names_ready st" "i < length (rs_nfts st)"
  shows "solana_name st' i n = solana_name st i n"
proof -
  have "nf_contract_id (rs_nfts st ! i) < length (rs_contracts st)" using assms(3) by (intro names_readyD(4) [OF assms(2)]) simp
  then show ?thesis
    using name_baseD(1) [OF assms(1)] text_of_cong [OF assms(1)] evm_contract_cong [OF assms(1)] by (simp add: solana_name_def)
qed

lemma names_of_contract_cong: "name_base st' = name_base st \<Longrightarrow> names_of_contract st' c = names_of_contract st c"
  using name_baseD(1) [of st' st] text_of_cong [of st' st] by (simp add: names_of_contract_def usable_names_def)

lemma is_mode_cong: "name_base st' = name_base st \<Longrightarrow> is_mode st' names n = is_mode st names n"
  using text_of_cong [of st' st] by (simp add: is_mode_def)

lemma nft_name_pair_eq:
  assumes "names_ready st" "i < length (rs_nfts st)" "length (rs_nfts st) < 2 ^ 32"
  shows "nft_name_pair st (i, rs_nfts st ! i) =
    Inr (if \<exists>n. solana_name st i n then Some (the (nf_name_id (rs_nfts st ! i)), i) else None)"
proof (cases "nf_name_id (rs_nfts st ! i)")
  case (Some n)
  let ?nft = "rs_nfts st ! i"
  have nft: "?nft \<in> set (rs_nfts st)" using assms(2) by simp
  have c: "nf_contract_id ?nft < length (rs_contracts st)" by (rule names_readyD(4) [OF assms(1) nft])
  have "u32 i = i" using assms(2,3) by (simp add: u32_small)
  then show ?thesis
    using Some c nft_name_known [OF assms(1) nft Some] on_evm_chain_eq [OF assms(1) c]
    by (auto simp: nft_name_pair_def or_panic_def solana_name_def)
qed (simp add: nft_name_pair_def solana_name_def)

lemma csr_keys: "length ps < 2 ^ 32 \<Longrightarrow> set (cx_keys (from_sorted_pairs ps)) = fst ` set ps"
  using csr_loop_eq [of "\<lparr>cx_keys = [], cx_offsets = [0], cx_values = []\<rparr>" ps] groups_keys [of fst ps]
  by (simp add: from_sorted_pairs_def)

lemma nft_postings_cong:
  assumes "name_base st' = name_base st" "names_ready st"
  shows "nft_postings_ok st' \<longleftrightarrow>
     (\<forall>n. csr_values_for (rs_name_nft_csr st') n =
        (if \<exists>i < length (rs_nfts st). solana_name st i n
         then Some (filter (\<lambda>i. solana_name st i n) [0..<length (rs_nfts st)]) else None))"
proof -
  have nfts: "rs_nfts st' = rs_nfts st" by (rule name_baseD(1) [OF assms(1)])
  have "filter (\<lambda>i. solana_name st' i n) [0..<length (rs_nfts st)] = filter (\<lambda>i. solana_name st i n) [0..<length (rs_nfts st)]" for n
    using solana_name_cong [OF assms] by (intro filter_cong) simp_all
  moreover have "(\<exists>i < length (rs_nfts st). solana_name st' i n) \<longleftrightarrow> (\<exists>i < length (rs_nfts st). solana_name st i n)" for n
    using solana_name_cong [OF assms] by blast
  ultimately show ?thesis by (simp add: nft_postings_ok_def nfts)
qed

lemma store_nft_names_ok:
  assumes "names_ready st" "length (rs_nfts st) < 2 ^ 32"
  shows "\<exists>csr. store_nft_names st = Inr (st\<lparr>rs_name_nft_csr := csr\<rparr>) \<and> nft_postings_ok (st\<lparr>rs_name_nft_csr := csr\<rparr>) \<and>
    set (cx_keys csr) = {n. \<exists>i < length (rs_nfts st). solana_name st i n}"
proof -
  let ?f = "\<lambda>(i, nft :: nft). if \<exists>n. solana_name st i n then Some (the (nf_name_id nft), i) else None"
  let ?ps = "List.map_filter ?f (enumerated (rs_nfts st))"
  let ?csr = "from_sorted_pairs (sort ?ps)"
  have "par_collect (map (nft_name_pair st) (enumerated (rs_nfts st))) = Inr (map ?f (enumerated (rs_nfts st)))"
    using nft_name_pair_eq [OF assms(1) _ assms(2)] by (intro par_collect_map) (auto simp: in_set_enumerated)
  then have run: "store_nft_names st = Inr (st\<lparr>rs_name_nft_csr := ?csr\<rparr>)"
    by (simp add: store_nft_names_def List.map_filter_def filter_map comp_def)
  have len: "length ?ps < 2 ^ 32"
    using length_map_filter_le [of ?f "enumerated (rs_nfts st)"] assms(2) by simp
  have f: "?f (i, rs_nfts st ! i) = (if \<exists>n. solana_name st i n then Some (the (nf_name_id (rs_nfts st ! i)), i) else None)" for i
    by simp
  note positions = map_filter_positions [where f = ?f and xs = "rs_nfts st" and P = "\<lambda>i. \<exists>n. solana_name st i n"
    and g = "\<lambda>i. the (nf_name_id (rs_nfts st ! i))", OF f]
  have name: "(\<exists>m. solana_name st i m) \<and> the (nf_name_id (rs_nfts st ! i)) = n \<longleftrightarrow> solana_name st i n" for i n
    by (auto simp: solana_name_def)
  have keys: "fst ` set ?ps = {n. \<exists>i < length (rs_nfts st). solana_name st i n}"
    unfolding positions(2) using name by force
  have "csr_values_for ?csr n = (if \<exists>i < length (rs_nfts st). solana_name st i n
      then Some (filter (\<lambda>i. solana_name st i n) [0..<length (rs_nfts st)]) else None)" for n
    using csr_sorted_values [OF len, of n] unfolding positions(1) name keys by (simp add: sorted_wrt_filter)
  then have "nft_postings_ok (st\<lparr>rs_name_nft_csr := ?csr\<rparr>)" 
    using nft_postings_cong [OF name_base_simps(1) assms(1), of ?csr] by simp
  moreover have "set (cx_keys ?csr) = {n. \<exists>i < length (rs_nfts st). solana_name st i n}"
    using csr_keys [of "sort ?ps"] len keys by simp
  ultimately show ?thesis using run by blast
qed

text \<open>The names of the contracts: the modes, as \<open>representatives_exact\<close> describes them.\<close>

definition contract_mode :: "'m resident_store \<Rightarrow> nat \<Rightarrow> nat \<Rightarrow> bool" where
  "contract_mode st c n \<longleftrightarrow> evm_contract st c \<and> is_mode st (names_of_contract st c) n"

definition contract_names_ok :: "'m resident_store \<Rightarrow> bool" where
  "contract_names_ok st \<longleftrightarrow>
     (\<forall>c < length (rs_contracts st). \<forall>n. ct_name_id (rs_contracts st ! c) = Some n \<longleftrightarrow> contract_mode st c n)"

definition contract_postings_ok :: "'m resident_store \<Rightarrow> bool" where
  "contract_postings_ok st \<longleftrightarrow>
     (\<forall>n. csr_values_for (rs_name_contract_csr st) n =
        (if \<exists>c < length (rs_contracts st). contract_mode st c n
         then Some (filter (\<lambda>c. contract_mode st c n) [0..<length (rs_contracts st)]) else None))"

text \<open>Writing the names keeps everything else of the contracts.\<close>

definition renamed :: "contract list \<Rightarrow> (nat \<Rightarrow> nat option) \<Rightarrow> contract list" where
  "renamed contracts name = map (\<lambda>(c, contract). contract\<lparr>ct_name_id := name c\<rparr>) (enumerated contracts)"

lemma length_renamed [simp]: "length (renamed contracts name) = length contracts"
  by (simp add: renamed_def)

lemma nth_renamed [simp]: "c < length contracts \<Longrightarrow> renamed contracts name ! c = (contracts ! c)\<lparr>ct_name_id := name c\<rparr>"
  by (simp add: renamed_def)

lemma set_names_fold:
  assumes "\<forall>(c, n) \<in> set reps. c < length contracts" "distinct (map fst reps)"
  shows "res_fold set_name_id reps (renamed contracts name) =
    Inr (renamed contracts (\<lambda>c. case map_of reps c of Some n \<Rightarrow> Some n | None \<Rightarrow> name c))"
  using assms
proof (induction reps arbitrary: name)
  case (Cons rep reps)
  obtain c n where rep: "rep = (c, n)" by fastforce
  have c: "c < length contracts" using Cons.prems rep by simp
  have "(renamed contracts name)[c := (renamed contracts name ! c)\<lparr>ct_name_id := Some n\<rparr>] = renamed contracts (name(c := Some n))"
    using c by (intro nth_equalityI) (auto simp: nth_list_update)
  then have "set_name_id rep (renamed contracts name) = Inr (renamed contracts (name(c := Some n)))"
    using c by (simp add: set_name_id_def rep or_panic_def)
  moreover have "(\<lambda>d. case map_of reps d of Some n \<Rightarrow> Some n | None \<Rightarrow> (name(c := Some n)) d) =
      (\<lambda>d. case map_of (rep # reps) d of Some n \<Rightarrow> Some n | None \<Rightarrow> name d)"
  proof
    fix d
    have "map_of reps c = None" using Cons.prems(2) rep by (simp add: map_of_eq_None_iff)
    then show "(case map_of reps d of Some n \<Rightarrow> Some n | None \<Rightarrow> (name(c := Some n)) d) =
      (case map_of (rep # reps) d of Some n \<Rightarrow> Some n | None \<Rightarrow> name d)"
      using rep by (auto split: option.split)
  qed
  moreover have "res_fold set_name_id reps (renamed contracts (name(c := Some n))) =
      Inr (renamed contracts (\<lambda>d. case map_of reps d of Some n \<Rightarrow> Some n | None \<Rightarrow> (name(c := Some n)) d))"
    using Cons.prems by (intro Cons.IH) auto
  ultimately show ?case by (simp only: res_fold.simps res_bind_simps)
next
  case Nil
  then show ?case by simp
qed

lemma store_representatives_ok:
  assumes "names_ready st" "permutes_positions order" "postings_current st" "length (rs_nfts st) < 2 ^ 32"
    "length (rs_contracts st) < 2 ^ 32" "\<forall>c \<in> set (rs_contracts st). ct_name_id c = None"
  shows "\<exists>st'. store_representatives order st = Inr st' \<and> name_base st' = name_base st \<and>
    rs_contract_nft_csr st' = rs_contract_nft_csr st \<and>
    contract_names_ok st' \<and> contract_postings_ok st' \<and>
    set (cx_keys (rs_name_contract_csr st')) = {n. \<exists>c < length (rs_contracts st). contract_mode st c n}"
proof -
  let ?contracts = "rs_contracts st"
  obtain reps where reps: "select_evm_representatives order st = Inr reps" "representatives_of st reps"
    using representatives_exact [OF assms(1-4)] by blast
  have sorted: "sorted (map fst reps)" "distinct (map fst reps)"
    and member: "\<And>c n. (c, n) \<in> set reps \<longleftrightarrow> c < length ?contracts \<and> contract_mode st c n"
    using reps(2) unfolding representatives_of_def contract_mode_def by blast+
  have start: "?contracts = renamed ?contracts (\<lambda>_. None)"
    using assms(6) by (intro nth_equalityI) simp_all
  have "(\<lambda>c. case map_of reps c of Some n \<Rightarrow> Some n | None \<Rightarrow> None) = map_of reps" by (auto split: option.split)
  moreover have "\<forall>(c, n) \<in> set reps. c < length ?contracts" using member by blast
  ultimately have fold: "res_fold set_name_id reps ?contracts = Inr (renamed ?contracts (map_of reps))"
    using set_names_fold [of reps ?contracts "\<lambda>_. None"] sorted(2) start by simp
  let ?ps = "map (\<lambda>(contract_id, name_id). (name_id, contract_id)) reps"
  define st' where "st' = st\<lparr>rs_contracts := renamed ?contracts (map_of reps), rs_name_contract_csr := from_sorted_pairs (sort ?ps)\<rparr>"
  have run: "store_representatives order st = Inr st'" by (simp add: store_representatives_def reps(1) fold st'_def)
  have "map (\<lambda>c. (ct_id c, ct_chain_id c)) (renamed ?contracts (map_of reps)) = map (\<lambda>c. (ct_id c, ct_chain_id c)) ?contracts"
    by (rule nth_equalityI) simp_all
  then have base: "name_base st' = name_base st" by (simp add: st'_def name_base_def)
  have mode: "contract_mode st' c n \<longleftrightarrow> contract_mode st c n" if "c < length ?contracts" for c n
    using that evm_contract_cong [OF base] names_of_contract_cong [OF base] is_mode_cong [OF base]
    by (simp add: contract_mode_def)
  have names: "contract_names_ok st'"
    using mode member sorted(2) by (auto simp: contract_names_ok_def st'_def)
  have len: "length ?ps < 2 ^ 32"
  proof -
    have "set (map fst reps) \<subseteq> {..<length ?contracts}" using member by auto
    then have "card (set (map fst reps)) \<le> length ?contracts" using card_mono [of "{..<length ?contracts}"] by simp
    then show ?thesis using assms(5) distinct_card [OF sorted(2)] by simp
  qed
  have keys: "fst ` set ?ps = {n. \<exists>c < length ?contracts. contract_mode st c n}" using member by force
  have snds: "map snd (filter (\<lambda>p. fst p = n) ?ps) = map fst (filter (\<lambda>r. snd r = n) reps)" for n
    by (induction reps) auto
  have sub: "sorted (map fst (filter (\<lambda>r. snd r = n) reps)) \<and> distinct (map fst (filter (\<lambda>r. snd r = n) reps))" for n
    using sorted by (simp add: sorted_filter distinct_map_filter)
  have "map fst (filter (\<lambda>r. snd r = n) reps) = filter (\<lambda>c. contract_mode st c n) [0..<length ?contracts]" for n
  proof (rule sorted_distinct_set_unique)
    show "set (map fst (filter (\<lambda>r. snd r = n) reps)) = set (filter (\<lambda>c. contract_mode st c n) [0..<length ?contracts])"
      using member by force
  qed (use sub [of n] in \<open>simp_all add: sorted_wrt_filter\<close>)
  then have "csr_values_for (from_sorted_pairs (sort ?ps)) n = (if \<exists>c < length ?contracts. contract_mode st c n
      then Some (filter (\<lambda>c. contract_mode st c n) [0..<length ?contracts]) else None)" for n
    using csr_sorted_values [OF len, of n] sub [of n] unfolding snds keys by simp
  moreover have "filter (\<lambda>c. contract_mode st' c n) [0..<length ?contracts] = filter (\<lambda>c. contract_mode st c n) [0..<length ?contracts]" for n
    using mode by (intro filter_cong) simp_all
  moreover have "(\<exists>c < length ?contracts. contract_mode st' c n) \<longleftrightarrow> (\<exists>c < length ?contracts. contract_mode st c n)" for n
    using mode by blast
  ultimately have "contract_postings_ok st'" by (simp add: contract_postings_ok_def st'_def)
  moreover have "set (cx_keys (rs_name_contract_csr st')) = {n. \<exists>c < length ?contracts. contract_mode st c n}"
    using csr_keys [of "sort ?ps"] len keys by (simp add: st'_def)
  moreover have "rs_contract_nft_csr st' = rs_contract_nft_csr st" by (simp add: st'_def)
  ultimately show ?thesis using run base names by blast
qed

section \<open>The names in the order of their lengths\<close>

definition name_len :: "'m resident_store \<Rightarrow> nat \<Rightarrow> nat" where
  "name_len st i = length (chars (text_of st i))"

definition sorted_name :: "'m resident_store \<Rightarrow> nat \<Rightarrow> nat list" where
  "sorted_name st i = sort (chars (text_of st i))"

definition profile_of :: "'m resident_store \<Rightarrow> nat \<Rightarrow> profile" where
  "profile_of st i = (name_len st i, i, sorted_name st i)"

lemma length_sorted_name [simp]: "length (sorted_name st i) = name_len st i"
  by (simp add: sorted_name_def name_len_def)

lemma pool_get_known [simp]: "known_string st i \<Longrightarrow> pool_get (rs_strings st) i = Some (text_of st i)"
  by (simp add: known_string_def pool_get_def text_of_def)

lemma keyed_names_ok:
  assumes "\<forall>i \<in> set (cx_keys (rs_name_contract_csr st)) \<union> set (cx_keys (rs_name_nft_csr st)). known_string st i"
  shows "\<exists>ks. keyed_names st = Inr (map (\<lambda>i. (name_len st i, i)) ks) \<and> distinct ks \<and>
    set ks = set (cx_keys (rs_name_contract_csr st)) \<union> set (cx_keys (rs_name_nft_csr st)) \<and>
    sorted (map (\<lambda>i. (name_len st i, text_of st i)) ks)"
proof -
  let ?keys = "sort_dedup (cx_keys (rs_name_contract_csr st) @ cx_keys (rs_name_nft_csr st))"
  let ?pair = "\<lambda>i. (name_len st i, i)"
  let ?key = "\<lambda>(char_len, i). (char_len, unwrap_or [] (pool_get (rs_strings st) i))"
  have known: "\<forall>i \<in> set ?keys. known_string st i" using assms by simp
  have collect: "par_collect (map (\<lambda>i. res_bind (store_string st i) (\<lambda>s. Inr (char_len_fast s, i))) ?keys) = Inr (map ?pair ?keys)"
    using known by (intro par_collect_map) (simp add: char_len_fast_eq name_len_def)
  define ks where "ks = map snd (sort_key ?key (map ?pair ?keys))"
  have mset: "mset ks = mset ?keys" by (simp add: ks_def multiset.map_comp comp_def)
  have set: "set ks = set ?keys" using mset_eq_setD [OF mset] .
  have pairs: "x = ?pair (snd x)" if "x \<in> set (sort_key ?key (map ?pair ?keys))" for x using that by auto
  have eq: "sort_key ?key (map ?pair ?keys) = map ?pair ks"
    unfolding ks_def map_map comp_def by (rule map_idI [symmetric]) (use pairs in simp)
  have keys: "map ?key (map ?pair ks) = map (\<lambda>i. (name_len st i, text_of st i)) ks"
    unfolding map_map comp_def using known set by (intro map_cong) simp_all
  have "sorted (map ?key (sort_key ?key (map ?pair ?keys)))" by (rule sorted_sort_key)
  then have "sorted (map (\<lambda>i. (name_len st i, text_of st i)) ks)" unfolding eq keys .
  moreover have "distinct ks" using mset_eq_imp_distinct_iff [OF mset] by simp
  moreover have "keyed_names st = Inr (map ?pair ks)" unfolding keyed_names_def Let_def collect by (simp add: eq)
  ultimately show ?thesis using set by auto
qed

lemma par_chunks_eq:
  assumes "\<forall>k. \<not> cancelled k" "\<And>chunk. set chunk \<subseteq> set xs \<Longrightarrow> f chunk = Inr (g chunk)"
  shows "par_chunks cancelled f xs = Inr (map g (chunks_of name_chunk xs))"
proof -
  have "par_collect (map (\<lambda>(k, chunk). res_bind (check_cancelled (cancelled k)) (\<lambda>_. f chunk)) (enumerated (chunks_of name_chunk xs))) =
      Inr (map (g \<circ> snd) (enumerated (chunks_of name_chunk xs)))"
  proof (rule par_collect_map)
    fix x assume "x \<in> set (enumerated (chunks_of name_chunk xs))"
    then obtain k where "x = (k, chunks_of name_chunk xs ! k)" "k < length (chunks_of name_chunk xs)"
      by (metis in_set_enumerated surj_pair)
    then have "snd x \<in> set (chunks_of name_chunk xs)" by simp
    then have "f (snd x) = Inr (g (snd x))" using chunks_of_nonempty assms(2) by blast
    then show "(case x of (k, chunk) \<Rightarrow> res_bind (check_cancelled (cancelled k)) (\<lambda>_. f chunk)) = Inr ((g \<circ> snd) x)"
      using assms(1) by (simp add: check_cancelled_def split_def)
  qed
  then show ?thesis by (simp add: par_chunks_def flip: map_map)
qed

lemma concat_map_chunks: "concat (map (map h) (chunks_of name_chunk xs)) = map h xs"
  using concat_chunks_of [of name_chunk xs] by (metis map_concat name_chunk_def zero_less_numeral)

lemma name_profiles_ok:
  assumes "\<forall>p. \<not> cancelled p" "\<forall>i \<in> set ks. known_string st i"
  shows "name_profiles cancelled st (map (\<lambda>i. (name_len st i, i)) ks) = Inr (map (profile_of st) ks)"
proof -
  let ?keyed = "map (\<lambda>i. (name_len st i, i)) ks"
  have one: "name_profile st x = Inr (profile_of st (snd x))" if "x \<in> set ?keyed" for x
    using that assms(2) by (auto simp: name_profile_def profile_of_def sorted_name_def)
  have "par_chunks (\<lambda>k. cancelled (PollProfiles k)) (\<lambda>chunk. res_collect (map (name_profile st) chunk)) ?keyed =
      Inr (map (map (\<lambda>x. profile_of st (snd x))) (chunks_of name_chunk ?keyed))"
    using assms(1) one by (intro par_chunks_eq res_collect_map) auto
  then show ?thesis by (simp add: name_profiles_def concat_map_chunks comp_def)
qed

text \<open>The fields that the layout of the names writes.\<close>

definition with_profiles :: "profile list \<Rightarrow> (nat \<times> nat) list \<Rightarrow> 'm resident_store \<Rightarrow> 'm resident_store" where
  "with_profiles ps positions st =
     (clear_profiles st)\<lparr>rs_name_keys_by_len := map (\<lambda>p. fst (snd p)) ps, rs_name_key_char_lens := map fst ps,
        rs_name_key_positions := positions,
        rs_name_sorted_chars := concat (map (\<lambda>p. snd (snd p)) ps),
        rs_name_sorted_char_offsets := 0 # ends 0 (map (\<lambda>p. snd (snd p)) ps)\<rparr>"

definition key_positions :: "nat list \<Rightarrow> (nat \<times> nat) list" where
  "key_positions ks = fold (\<lambda>(k, i). ah_insert i (u32 k)) (enumerated ks) []"

lemma map_of_key_positions:
  "distinct ks \<Longrightarrow> length ks < 2 ^ 32 \<Longrightarrow> map_of (key_positions ks) = index_in ks"
proof (induction ks rule: rev_induct)
  case (snoc k ks)
  have "map_of (key_positions (ks @ [k])) i = index_in (ks @ [k]) i" for i
  proof -
    have "map_of (key_positions (ks @ [k])) i = (if i = k then Some (length ks) else index_in ks i)"
      using snoc by (simp add: key_positions_def enumerated_snoc hashm.lookup_ins u32_small)
    moreover have "index_in (ks @ [k]) k = Some (length ks)" using snoc.prems by (intro index_in_snoc) simp
    moreover have "index_in (ks @ [k]) i = index_in ks i" if "i \<noteq> k"
    proof (cases "i \<in> set ks")
      case False
      then show ?thesis using that index_in_None [of ks i] index_in_None [of "ks @ [k]" i] by simp
    qed (rule index_in_append)
    ultimately show ?thesis by simp
  qed
  then show ?case by blast
qed (simp add: key_positions_def enumerated_def index_in_def fun_eq_iff)

lemma lay_profiles_fold:
  assumes "\<forall>p. \<not> cancelled p" "\<forall>p \<in> set ps. fst p < 2 ^ 32"
  shows "res_fold (lay_profile cancelled) (enumerated ps) (clear_profiles st) =
    Inr (with_profiles ps (key_positions (map (\<lambda>p. fst (snd p)) ps)) st)"
  using assms(2)
proof (induction ps rule: rev_induct)
  case Nil
  then show ?case by (simp add: enumerated_def with_profiles_def clear_profiles_def key_positions_def)
next
  case (snoc p ps)
  obtain len i cs where p: "p = (len, i, cs)" using prod_cases3 by blast
  have "lay_profile cancelled (length ps, p) (with_profiles ps (key_positions (map (\<lambda>p. fst (snd p)) ps)) st) =
      Inr (with_profiles (ps @ [p]) (key_positions (map (\<lambda>p. fst (snd p)) (ps @ [p]))) st)"
    using snoc.prems assms(1)
    by (simp add: lay_profile_def p with_profiles_def clear_profiles_def check_cancelled_def key_positions_def
        enumerated_snoc ends_snoc Let_def)
  with snoc show ?case by (simp add: enumerated_snoc res_fold_append)
qed

section \<open>Occurrence tokens\<close>

text \<open>The catalog: all tokens of all names, in increasing order.\<close>

definition catalog :: "profile list \<Rightarrow> nat list" where
  "catalog ps = sort_dedup (concat (map profile_tokens ps))"

lemma length_profile_tokens [simp]: "length (profile_tokens p) = length (snd (snd p))"
  by (simp add: profile_tokens_def)

lemma length_remdups_chunks:
  "length (concat (map (\<lambda>chunk. remdups (concat (map f chunk))) chunks)) \<le> length (concat (map f (concat chunks)))"
proof (induction chunks)
  case (Cons chunk chunks)
  then show ?case using length_remdups_leq [of "concat (map f chunk)"]
    by (simp only: list.map concat.simps length_append map_append concat_append add_mono)
qed simp

lemma catalog_ok:
  assumes "\<forall>p. \<not> cancelled p" "length (concat (map profile_tokens ps)) < 2 ^ 32"
  shows "occurrence_catalog cancelled ps = Inr (catalog ps)" "length (catalog ps) < 2 ^ 32"
proof -
  let ?chunks = "map (\<lambda>chunk. remdups (concat (map profile_tokens chunk))) (chunks_of name_chunk ps)"
  have par: "par_chunks (\<lambda>k. cancelled (PollCatalog k)) (\<lambda>chunk. Inr (remdups (concat (map profile_tokens chunk)))) ps = Inr ?chunks"
    using assms(1) by (intro par_chunks_eq) auto
  have ps: "concat (chunks_of name_chunk ps) = ps" by (rule concat_chunks_of) (simp add: name_chunk_def)
  have len: "length (concat ?chunks) < 2 ^ 32"
    using length_remdups_chunks [of profile_tokens "chunks_of name_chunk ps"] assms(2) unfolding ps by simp
  have "set (concat ?chunks) = set (concat (map profile_tokens (concat (chunks_of name_chunk ps))))" by simp
  then have eq: "sort_dedup (concat ?chunks) = catalog ps" unfolding ps catalog_def sort_dedup_eq by simp
  have "length (sort_dedup (concat (map profile_tokens ps))) \<le> length (concat (map profile_tokens ps))"
    unfolding sort_dedup_def using remdups_adj_length [of "sort (concat (map profile_tokens ps))"] by simp
  then show cat: "length (catalog ps) < 2 ^ 32" using assms(2) unfolding catalog_def by linarith
  show "occurrence_catalog cancelled ps = Inr (catalog ps)"
    using len cat unfolding occurrence_catalog_def par by (simp add: eq not_le)
qed

lemma distinct_catalog [simp]: "distinct (catalog ps)"
  by (simp add: catalog_def)

lemma set_catalog: "set (catalog ps) = (\<Union>p \<in> set ps. set (profile_tokens p))"
  by (simp add: catalog_def)

definition token_id :: "profile list \<Rightarrow> nat \<Rightarrow> nat" where
  "token_id ps raw = the (index_in (catalog ps) raw)"

lemma token_id_nth:
  assumes "raw \<in> set (catalog ps)"
  shows "index_in (catalog ps) raw = Some (token_id ps raw)" "token_id ps raw < length (catalog ps)"
    "catalog ps ! token_id ps raw = raw"
proof -
  obtain k where k: "index_in (catalog ps) raw = Some k" using assms index_in_None [of "catalog ps" raw] by fastforce
  then show "index_in (catalog ps) raw = Some (token_id ps raw)" by (simp add: token_id_def)
  from index_in_SomeD [OF this] show "token_id ps raw < length (catalog ps)" "catalog ps ! token_id ps raw = raw" by simp_all
qed

lemma inj_token_id: "inj_on (token_id ps) (set (catalog ps))"
  by (rule inj_onI) (metis token_id_nth(3))

lemma occurrence_ids_eq:
  assumes "length keys < 2 ^ 32" "distinct keys"
  shows "occurrence_ids keys raw = index_in keys raw"
proof -
  have map: "map (\<lambda>(token, raw). (raw, u32 token)) (enumerated keys) = zip keys [0..<length keys]"
    using assms(1) by (intro nth_equalityI) (simp_all add: u32_small)
  show ?thesis
  proof (cases "raw \<in> set keys")
    case True
    then obtain i where i: "i < length keys" "keys ! i = raw" by (auto simp: in_set_conv_nth)
    then have "map_of (zip keys [0..<length keys]) raw = Some i"
      using map_of_zip_nth [of keys "[0..<length keys]" i] assms(2) by simp
    moreover have "index_in keys raw = Some i" using i index_in_nth [OF assms(2), of i] by simp
    ultimately show ?thesis by (simp add: occurrence_ids_def map)
  next
    case False
    then have "map_of (zip keys [0..<length keys]) raw = None" by (simp add: map_of_zip_is_None)
    moreover have "index_in keys raw = None" using False index_in_None [of keys raw] by blast
    ultimately show ?thesis by (simp add: occurrence_ids_def map)
  qed
qed

definition raw_ids :: "profile list \<Rightarrow> profile \<Rightarrow> nat list" where
  "raw_ids ps p = map (token_id ps) (profile_tokens p)"

lemma name_tokens_ok:
  assumes "\<forall>p. \<not> cancelled p" "length (catalog ps) < 2 ^ 32"
  shows "name_tokens cancelled (catalog ps) ps = Inr (map (raw_ids ps) ps)"
proof -
  have one: "res_collect (map (\<lambda>raw. or_panic (occurrence_ids (catalog ps) raw)) (profile_tokens p)) = Inr (raw_ids ps p)"
    if "p \<in> set ps" for p
    unfolding raw_ids_def
  proof (rule res_collect_map)
    fix raw assume "raw \<in> set (profile_tokens p)"
    with that have "raw \<in> set (catalog ps)" by (auto simp: set_catalog)
    then show "or_panic (occurrence_ids (catalog ps) raw) = Inr (token_id ps raw)"
      using occurrence_ids_eq [OF assms(2) distinct_catalog] token_id_nth(1) by simp
  qed
  have "par_chunks (\<lambda>k. cancelled (PollTokens k))
      (\<lambda>chunk. res_collect (map (\<lambda>p. res_collect (map (\<lambda>raw. or_panic (occurrence_ids (catalog ps) raw)) (profile_tokens p))) chunk)) ps =
      Inr (map (map (raw_ids ps)) (chunks_of name_chunk ps))"
    using assms(1) one by (intro par_chunks_eq res_collect_map) auto
  then show ?thesis by (simp add: name_tokens_def concat_map_chunks)
qed

lemma posting_counts_ok:
  assumes "\<forall>ts \<in> set tokens. \<forall>t \<in> set ts. t < n"
  shows "\<exists>counts. posting_counts n tokens = Inr counts"
proof -
  have "\<exists>out. res_fold count_posting ts counts = Inr out" if "\<forall>t \<in> set ts. t < length counts" for ts counts
    using that
  proof (induction ts arbitrary: counts)
    case (Cons t ts)
    then have "count_posting t counts = Inr (counts[t := u32 (counts ! t + 1)])" by (simp add: count_posting_def or_panic_def)
    with Cons show ?case by simp
  qed simp
  then show ?thesis using assms by (auto simp: posting_counts_def)
qed

lemma mset_rare_first [simp]: "mset (rare_first counts ts) = mset ts"
  by (simp add: rare_first_def)

lemma set_rare_first [simp]: "set (rare_first counts ts) = set ts"
  by (simp add: rare_first_def)

lemma distinct_rare_first [simp]: "distinct (rare_first counts ts) = distinct ts"
  by (simp add: rare_first_def)

lemma length_rare_first [simp]: "length (rare_first counts ts) = length ts"
  by (simp add: rare_first_def)

lemma lay_tokens_fold:
  "fold lay_tokens toks st = st\<lparr>rs_name_occurrence_tokens := rs_name_occurrence_tokens st @ concat toks,
     rs_name_occurrence_token_offsets := rs_name_occurrence_token_offsets st @ ends (length (rs_name_occurrence_tokens st)) toks\<rparr>"
  by (induction toks arbitrary: st) (simp_all add: lay_tokens_def Let_def)

text \<open>The postings of a token: the positions of the names that have it.\<close>

lemma posting_pairs_filter:
  assumes "length toks < 2 ^ 32" "\<forall>ts \<in> set toks. distinct ts"
  shows "map snd (filter (\<lambda>p. fst p = t) (posting_pairs toks)) = filter (\<lambda>i. t \<in> set (toks ! i)) [0..<length toks]"
    "fst ` set (posting_pairs toks) = \<Union> (set ` set toks)"
proof -
  have eq: "posting_pairs toks = concat (map (\<lambda>i. map (\<lambda>token. (token, i)) (toks ! i)) [0..<length toks])"
  proof -
    have "map (\<lambda>(key_index, ts). map (\<lambda>token. (token, u32 key_index)) ts) (enumerated toks) =
        map (\<lambda>i. map (\<lambda>token. (token, i)) (toks ! i)) [0..<length toks]"
      using assms(1) by (intro nth_equalityI) (simp_all add: u32_small)
    then show ?thesis by (simp add: posting_pairs_def)
  qed
  have one: "map snd (filter (\<lambda>p. fst p = t) (map (\<lambda>token. (token, i)) ts)) = (if t \<in> set ts then [i] else [])"
    if "distinct ts" for ts and i :: nat
    using that by (induction ts) auto
  have "map snd (filter (\<lambda>p. fst p = t) (concat (map (\<lambda>i. map (\<lambda>token. (token, i)) (toks ! i)) is))) =
      filter (\<lambda>i. t \<in> set (toks ! i)) is" if "\<forall>i \<in> set is. i < length toks" for "is"
    using that
  proof (induction "is")
    case (Cons i "is")
    then have "distinct (toks ! i)" using assms(2) by simp
    with Cons show ?case by (simp add: one)
  qed simp
  then show "map snd (filter (\<lambda>p. fst p = t) (posting_pairs toks)) = filter (\<lambda>i. t \<in> set (toks ! i)) [0..<length toks]"
    unfolding eq by simp
  show "fst ` set (posting_pairs toks) = \<Union> (set ` set toks)"
    unfolding posting_pairs_def by (force simp: in_set_conv_nth [of _ toks] in_set_enumerated)
qed

lemma length_posting_pairs: "length (posting_pairs toks) = sum_list (map length toks)"
proof -
  have "map (length \<circ> (\<lambda>(key_index, ts). map (\<lambda>token. (token, u32 key_index)) ts)) (enumerated toks) = map length toks"
    by (rule nth_equalityI) simp_all
  then show ?thesis by (simp add: posting_pairs_def length_concat)
qed

section \<open>The index\<close>

definition key_chars :: "'m resident_store \<Rightarrow> nat \<Rightarrow> nat list option" where
  "key_chars st i = row_at (rs_name_sorted_char_offsets st) (rs_name_sorted_chars st) i"

definition key_tokens :: "'m resident_store \<Rightarrow> nat \<Rightarrow> nat list option" where
  "key_tokens st i = row_at (rs_name_occurrence_token_offsets st) (rs_name_occurrence_tokens st) i"

definition tokens_at :: "'m resident_store \<Rightarrow> nat \<Rightarrow> nat list" where
  "tokens_at st i = unwrap_or [] (key_tokens st i)"

definition raw_tokens :: "'m resident_store \<Rightarrow> nat \<Rightarrow> nat list" where
  "raw_tokens st n = visit_occurrence_tokens (sorted_name st n)"

text \<open>The names by length, with their characters.\<close>

definition names_laid :: "'m resident_store \<Rightarrow> bool" where
  "names_laid st \<longleftrightarrow>
     (let keys = rs_name_keys_by_len st
      in distinct keys \<and> length keys < 2 ^ 32 \<and> (\<forall>n \<in> set keys. known_string st n \<and> name_len st n < 2 ^ 32) \<and>
         sorted (map (\<lambda>n. (name_len st n, text_of st n)) keys) \<and>
         rs_name_key_char_lens st = map (name_len st) keys \<and>
         map_of (rs_name_key_positions st) = index_in keys \<and>
         (\<forall>i. key_chars st i = map_option (sorted_name st) (idx keys i)))"

text \<open>The tokens of a name stand for its occurrence tokens, and the postings invert them.\<close>

definition tokens_laid :: "'m resident_store \<Rightarrow> (nat \<Rightarrow> nat) \<Rightarrow> bool" where
  "tokens_laid st tok \<longleftrightarrow>
     (let keys = rs_name_keys_by_len st; n = length keys
      in (\<forall>i < n. key_tokens st i = Some (tokens_at st i) \<and>
            mset (tokens_at st i) = image_mset tok (mset (raw_tokens st (keys ! i)))) \<and>
         inj_on tok (\<Union>i < n. set (raw_tokens st (keys ! i))) \<and>
         (\<forall>t. csr_values_for (rs_name_occurrence_postings st) t =
            (if \<exists>i < n. t \<in> set (tokens_at st i) then Some (filter (\<lambda>i. t \<in> set (tokens_at st i)) [0..<n]) else None)))"

lemma name_len_cong: "name_base st' = name_base st \<Longrightarrow> name_len st' = name_len st"
  using text_of_cong [of st' st] by (simp add: name_len_def fun_eq_iff)

lemma sorted_name_cong: "name_base st' = name_base st \<Longrightarrow> sorted_name st' = sorted_name st"
  using text_of_cong [of st' st] by (simp add: sorted_name_def fun_eq_iff)

lemma names_laidI:
  assumes "name_base st' = name_base st" "rs_name_keys_by_len st' = ks" "rs_name_key_char_lens st' = map (name_len st) ks"
    "map_of (rs_name_key_positions st') = index_in ks"
    "rs_name_sorted_chars st' = concat (map (sorted_name st) ks)"
    "rs_name_sorted_char_offsets st' = 0 # ends 0 (map (sorted_name st) ks)"
    "distinct ks" "length ks < 2 ^ 32" "\<forall>n \<in> set ks. known_string st n" "\<forall>n \<in> set ks. name_len st n < 2 ^ 32"
    "sorted (map (\<lambda>n. (name_len st n, text_of st n)) ks)"
  shows "names_laid st'"
proof -
  have "key_chars st' i = map_option (sorted_name st) (idx ks i)" for i
    unfolding key_chars_def assms(5,6) row_at_rows by (simp add: idx_def)
  then show ?thesis
    using assms unfolding names_laid_def Let_def text_of_cong [OF assms(1)] name_len_cong [OF assms(1)]
      sorted_name_cong [OF assms(1)] known_string_cong [OF assms(1)] by simp
qed

lemma with_profiles_of:
  "with_profiles (map (profile_of st) ks) positions st = (clear_profiles st)\<lparr>rs_name_keys_by_len := ks,
     rs_name_key_char_lens := map (name_len st) ks, rs_name_key_positions := positions,
     rs_name_sorted_chars := concat (map (sorted_name st) ks),
     rs_name_sorted_char_offsets := 0 # ends 0 (map (sorted_name st) ks)\<rparr>"
proof -
  have "map (\<lambda>p. fst (snd p)) (map (profile_of st) ks) = ks" "map (\<lambda>p. snd (snd p)) (map (profile_of st) ks) = map (sorted_name st) ks"
    "map fst (map (profile_of st) ks) = map (name_len st) ks" by (simp_all add: profile_of_def comp_def)
  then show ?thesis by (simp only: with_profiles_def)
qed

lemma store_profiles_ok:
  assumes "\<forall>p. \<not> cancelled p" "length ks < 2 ^ 32" "\<forall>n \<in> set ks. name_len st n < 2 ^ 32"
  shows "store_profiles cancelled (map (profile_of st) ks) st = Inr (with_profiles (map (profile_of st) ks) (key_positions ks) st)"
proof -
  have "map (\<lambda>p. fst (snd p)) (map (profile_of st) ks) = ks" by (simp add: profile_of_def comp_def)
  then show ?thesis
    using assms lay_profiles_fold [of cancelled "map (profile_of st) ks" st] by (simp add: store_profiles_def profile_of_def)
qed

text \<open>The tokens, for the profiles of \<open>ks\<close>.\<close>

lemma store_tokens_ok:
  assumes cancel: "\<forall>p. \<not> cancelled p" and sizes: "sum_list (map (name_len st) ks) < 2 ^ 32" "length ks < 2 ^ 32"
    and fresh: "rs_name_occurrence_tokens st1 = []" "rs_name_occurrence_token_offsets st1 = [0]"
    and same: "name_base st1 = name_base st" "rs_name_keys_by_len st1 = ks"
  shows "\<exists>tokens offsets postings tok. let st2 = st1\<lparr>rs_name_occurrence_tokens := tokens, rs_name_occurrence_token_offsets := offsets,
      rs_name_occurrence_postings := postings\<rparr> in store_tokens cancelled (map (profile_of st) ks) st1 = Inr st2 \<and> tokens_laid st2 tok"
proof -
  let ?ps = "map (profile_of st) ks"
  have raw: "profile_tokens (profile_of st n) = raw_tokens st n" for n
    by (simp add: profile_tokens_def profile_of_def raw_tokens_def)
  have "length (concat (map profile_tokens ?ps)) = sum_list (map (name_len st) ks)"
    by (simp add: length_concat comp_def profile_of_def)
  with sizes have vol: "length (concat (map profile_tokens ?ps)) < 2 ^ 32" by simp
  note cat = catalog_ok [OF cancel vol]
  have "\<forall>ts \<in> set (map (raw_ids ?ps) ?ps). \<forall>t \<in> set ts. t < length (catalog ?ps)"
    using token_id_nth(2) [of _ ?ps] by (fastforce simp: raw_ids_def set_catalog)
  from posting_counts_ok [OF this] obtain counts where
    counts: "posting_counts (length (catalog ?ps)) (map (raw_ids ?ps) ?ps) = Inr counts" by blast
  define toks where "toks = map (rare_first counts) (map (raw_ids ?ps) ?ps)"
  have len: "length toks = length ks" by (simp add: toks_def)
  have nth: "toks ! i = rare_first counts (raw_ids ?ps (profile_of st (ks ! i)))" if "i < length ks" for i
    using that by (simp add: toks_def)
  have sum: "sum_list (map length toks) < 2 ^ 32"
    using sizes(1) by (simp add: toks_def comp_def raw_ids_def profile_of_def)
  define st2 where "st2 = st1\<lparr>rs_name_occurrence_tokens := concat toks, rs_name_occurrence_token_offsets := 0 # ends 0 toks,
      rs_name_occurrence_postings := from_sorted_pairs (sort (posting_pairs toks))\<rparr>"
  have run: "store_tokens cancelled ?ps st1 = Inr st2"
    using sum unfolding store_tokens_def cat(1) res_bind_simps name_tokens_ok [OF cancel cat(2)] counts Let_def
      toks_def [symmetric] lay_tokens_fold fresh st2_def by simp
  have base: "name_base st2 = name_base st" using same(1) by (simp add: st2_def name_base_def)
  have at: "tokens_at st2 i = toks ! i" "key_tokens st2 i = Some (toks ! i)" if "i < length ks" for i
  proof -
    show "key_tokens st2 i = Some (toks ! i)" using that len by (simp add: key_tokens_def st2_def row_at_rows)
    then show "tokens_at st2 i = toks ! i" by (simp add: tokens_at_def)
  qed
  have raw2: "raw_tokens st2 = raw_tokens st" using sorted_name_cong [OF base] by (simp add: raw_tokens_def fun_eq_iff)
  have catset: "(\<Union>i < length ks. set (raw_tokens st (ks ! i))) \<subseteq> set (catalog ?ps)"
    by (auto simp: set_catalog raw intro: nth_mem)
  have short: "name_len st n < 2 ^ 32" if "n \<in> set ks" for n
    using member_le_sum_list [of "name_len st n" "map (name_len st) ks"] that sizes(1) by simp
  have dist: "distinct (raw_tokens st n)" if "n \<in> set ks" for n
    unfolding raw_tokens_def using short [OF that] by (intro distinct_visit) (simp_all add: sorted_name_def name_len_def)
  have "\<forall>ts \<in> set toks. distinct ts"
  proof
    fix ts assume "ts \<in> set toks"
    then obtain n where n: "n \<in> set ks" "ts = rare_first counts (raw_ids ?ps (profile_of st n))" by (auto simp: toks_def)
    have "set (raw_tokens st n) \<subseteq> set (catalog ?ps)" using n(1) by (auto simp: set_catalog raw)
    then have "inj_on (token_id ?ps) (set (raw_tokens st n))" by (rule inj_on_subset [OF inj_token_id])
    then show "distinct ts" using n dist by (simp add: raw_ids_def raw distinct_map)
  qed
  note post = posting_pairs_filter [OF _ this]
  have posts: "csr_values_for (rs_name_occurrence_postings st2) t =
      (if \<exists>i < length ks. t \<in> set (tokens_at st2 i) then Some (filter (\<lambda>i. t \<in> set (tokens_at st2 i)) [0..<length ks]) else None)" for t
  proof -
    have "csr_values_for (rs_name_occurrence_postings st2) t =
        (if t \<in> \<Union> (set ` set toks) then Some (filter (\<lambda>i. t \<in> set (toks ! i)) [0..<length toks]) else None)"
      using csr_sorted_values [of "posting_pairs toks" t] sum post(1) [of t] post(2) sizes(2) len
      by (simp add: length_posting_pairs st2_def sorted_wrt_filter)
    moreover have "t \<in> \<Union> (set ` set toks) \<longleftrightarrow> (\<exists>i < length ks. t \<in> set (tokens_at st2 i))"
    proof -
      have "t \<in> \<Union> (set ` set toks) \<longleftrightarrow> (\<exists>i < length ks. t \<in> set (toks ! i))"
        unfolding UN_iff len [symmetric] by (metis in_set_conv_nth)
      then show ?thesis using at(1) by auto
    qed
    moreover have "filter (\<lambda>i. t \<in> set (toks ! i)) [0..<length toks] = filter (\<lambda>i. t \<in> set (tokens_at st2 i)) [0..<length ks]"
      unfolding len using at(1) by (intro filter_cong) simp_all
    ultimately show ?thesis by simp
  qed
  have "mset (tokens_at st2 i) = image_mset (token_id ?ps) (mset (raw_tokens st2 (ks ! i)))" if "i < length ks" for i
    using that by (simp add: at nth raw_ids_def raw raw2)
  moreover have "inj_on (token_id ?ps) (\<Union>i < length ks. set (raw_tokens st2 (ks ! i)))"
    unfolding raw2 by (rule inj_on_subset [OF inj_token_id catset])
  moreover have "rs_name_keys_by_len st2 = ks" using same(2) by (simp add: st2_def)
  ultimately have "tokens_laid st2 (token_id ?ps)" using at posts by (simp add: tokens_laid_def)
  with run show ?thesis unfolding st2_def Let_def by blast
qed

text \<open>The whole index.\<close>

definition name_index_ok :: "'m resident_store \<Rightarrow> bool" where
  "name_index_ok st \<longleftrightarrow>
     names_ready st \<and> contract_names_ok st \<and> contract_postings_ok st \<and> nft_postings_ok st \<and> names_laid st \<and>
     (\<exists>tok. tokens_laid st tok) \<and>
     set (rs_name_keys_by_len st) =
       {n. \<exists>c < length (rs_contracts st). contract_mode st c n} \<union> {n. \<exists>i < length (rs_nfts st). solana_name st i n}"

text \<open>The characters of all strings of the pool.\<close>

definition pool_volume :: "'m resident_store \<Rightarrow> nat" where
  "pool_volume st = sum_list (map (\<lambda>s. length (chars s)) (sp_strings (rs_strings st)))"

lemma keys_volume:
  assumes "distinct ks" "\<forall>n \<in> set ks. known_string st n"
  shows "sum_list (map (name_len st) ks) \<le> pool_volume st"
proof -
  let ?n = "length (sp_strings (rs_strings st))"
  have "sum_list (map (name_len st) ks) = sum (name_len st) (set ks)" using assms(1) by (simp add: sum_list_distinct_conv_sum_set)
  also have "\<dots> \<le> sum (name_len st) {..<?n}" using assms(2) by (intro sum_mono2) (auto simp: known_string_def)
  also have "\<dots> = sum_list (map (name_len st) [0..<?n])" by (simp add: sum_list_distinct_conv_sum_set atLeast0LessThan)
  also have "map (name_len st) [0..<?n] = map (\<lambda>s. length (chars s)) (sp_strings (rs_strings st))"
    by (rule nth_equalityI) (simp_all add: name_len_def text_of_def)
  finally show ?thesis by (simp add: pool_volume_def)
qed

lemma contract_mode_cong:
  "name_base st' = name_base st \<Longrightarrow> c < length (rs_contracts st) \<Longrightarrow> contract_mode st' c n = contract_mode st c n"
  using evm_contract_cong [of st' st] names_of_contract_cong [of st' st] is_mode_cong [of st' st]
  by (simp add: contract_mode_def)

lemma contract_names_cong:
  assumes "name_base st' = name_base st" "rs_contracts st' = rs_contracts st" "rs_name_contract_csr st' = rs_name_contract_csr st"
  shows "contract_names_ok st' = contract_names_ok st" "contract_postings_ok st' = contract_postings_ok st"
proof -
  show "contract_names_ok st' = contract_names_ok st"
    using assms(2) contract_mode_cong [OF assms(1)] by (simp add: contract_names_ok_def)
  have "filter (\<lambda>c. contract_mode st' c n) [0..<length (rs_contracts st)] = filter (\<lambda>c. contract_mode st c n) [0..<length (rs_contracts st)]" for n
    using contract_mode_cong [OF assms(1)] by (intro filter_cong) simp_all
  moreover have "(\<exists>c < length (rs_contracts st). contract_mode st' c n) \<longleftrightarrow> (\<exists>c < length (rs_contracts st). contract_mode st c n)" for n
    using contract_mode_cong [OF assms(1)] by blast
  ultimately show "contract_postings_ok st' = contract_postings_ok st"
    using assms(2,3) by (simp add: contract_postings_ok_def)
qed

lemma mode_known: "names_ready st \<Longrightarrow> contract_mode st c n \<Longrightarrow> known_string st n"
  using names_of_contract_known [of st c] by (auto simp: contract_mode_def is_mode_def)

lemma solana_known: "names_ready st \<Longrightarrow> i < length (rs_nfts st) \<Longrightarrow> solana_name st i n \<Longrightarrow> known_string st n"
  using nft_name_known [of st "rs_nfts st ! i" n] by (simp add: solana_name_def)

lemma finalize_name_index_ok:
  assumes "names_ready st" "permutes_positions order" "postings_current st" "\<forall>p. \<not> cancelled p"
    "length (rs_nfts st) < 2 ^ 32" "length (rs_contracts st) < 2 ^ 32" "length (sp_strings (rs_strings st)) < 2 ^ 32"
    "pool_volume st < 2 ^ 32"
  shows "\<exists>st'. finalize_name_index order cancelled st = Inr st' \<and> name_base st' = name_base st \<and> name_index_ok st' \<and>
    (rs_nfts st \<noteq> [] \<longrightarrow> rs_contract_nft_csr st' = build_contract_nft_csr (rs_nfts st'))"
proof -
  define st0 where "st0 = clear_name_ids (if csr_is_empty (rs_contract_nft_csr st) \<and> rs_nfts st \<noteq> [] then rebuild_contract_nft_csr st else st)"
  have base0: "name_base st0 = name_base st"
    by (simp add: st0_def clear_name_ids_def rebuild_contract_nft_csr_def name_base_def comp_def)
  note ready0 = names_ready_cong [OF base0] and D0 = name_baseD [OF base0]
  have "postings_current st0"
    using assms(3) by (auto simp: st0_def clear_name_ids_def rebuild_contract_nft_csr_def postings_current_def)
  moreover have "\<forall>c \<in> set (rs_contracts st0). ct_name_id c = None" by (simp add: st0_def clear_name_ids_def)
  ultimately obtain st1 where st1: "store_representatives order st0 = Inr st1" "name_base st1 = name_base st0"
      "contract_names_ok st1" "contract_postings_ok st1" "rs_contract_nft_csr st1 = rs_contract_nft_csr st0"
      "set (cx_keys (rs_name_contract_csr st1)) = {n. \<exists>c < length (rs_contracts st0). contract_mode st0 c n}"
    using store_representatives_ok [of st0 order] assms ready0 D0
    by auto
  have base1: "name_base st1 = name_base st" using st1(2) base0 by simp
  have ready1: "names_ready st1" using names_ready_cong [OF base1] assms(1) by simp
  obtain csr where csr: "store_nft_names st1 = Inr (st1\<lparr>rs_name_nft_csr := csr\<rparr>)" "nft_postings_ok (st1\<lparr>rs_name_nft_csr := csr\<rparr>)"
      "set (cx_keys csr) = {n. \<exists>i < length (rs_nfts st1). solana_name st1 i n}"
    using store_nft_names_ok [OF ready1] assms(5) name_baseD(1) [OF base1] by auto
  define st2 where "st2 = st1\<lparr>rs_name_nft_csr := csr\<rparr>"
  have base2: "name_base st2 = name_base st" using base1 by (simp add: st2_def)
  have ready2: "names_ready st2" using names_ready_cong [OF base2] assms(1) by simp
  have contracts2: "rs_contracts st2 = rs_contracts st1" "rs_nfts st2 = rs_nfts st1" "length (rs_contracts st1) = length (rs_contracts st0)"
    using name_baseD(5) [OF st1(2)] by (simp_all add: st2_def)
  have mode12: "contract_mode st2 c n = contract_mode st0 c n" if "c < length (rs_contracts st0)" for c n
    using contract_mode_cong [of st2 st0 c n] base2 base0 that by simp
  have keyset: "set (cx_keys (rs_name_contract_csr st2)) \<union> set (cx_keys (rs_name_nft_csr st2)) =
      {n. \<exists>c < length (rs_contracts st2). contract_mode st2 c n} \<union> {n. \<exists>i < length (rs_nfts st2). solana_name st2 i n}"
    using st1(6) csr(3) contracts2 mode12 solana_name_cong [of st2 st1] ready1 by (auto simp: st2_def)
  have known: "\<forall>n \<in> set (cx_keys (rs_name_contract_csr st2)) \<union> set (cx_keys (rs_name_nft_csr st2)). known_string st2 n"
    unfolding keyset using mode_known [OF ready2] solana_known [OF ready2] by blast
  obtain ks where ks: "keyed_names st2 = Inr (map (\<lambda>n. (name_len st2 n, n)) ks)" "distinct ks"
      "set ks = set (cx_keys (rs_name_contract_csr st2)) \<union> set (cx_keys (rs_name_nft_csr st2))"
      "sorted (map (\<lambda>n. (name_len st2 n, text_of st2 n)) ks)"
    using keyed_names_ok [OF known] by blast
  have kknown: "\<forall>n \<in> set ks. known_string st2 n" using known ks(3) by simp
  have strings: "rs_strings st2 = rs_strings st" by (rule name_baseD(2) [OF base2])
  have volume: "sum_list (map (name_len st2) ks) < 2 ^ 32"
    using keys_volume [OF ks(2) kknown] assms(8) strings by (simp add: pool_volume_def)
  have "set ks \<subseteq> {..<length (sp_strings (rs_strings st))}" using kknown strings by (auto simp: known_string_def)
  then have "card (set ks) \<le> length (sp_strings (rs_strings st))" using card_mono [of "{..<length (sp_strings (rs_strings st))}"] by simp
  then have lenks: "length ks < 2 ^ 32" using assms(7) distinct_card [OF ks(2)] by simp
  have short: "\<forall>n \<in> set ks. name_len st2 n < 2 ^ 32"
    using volume member_le_sum_list [of _ "map (name_len st2) ks"] by fastforce
  define st3 where "st3 = with_profiles (map (profile_of st2) ks) (key_positions ks) st2"
  have profiles: "name_profiles cancelled st2 (map (\<lambda>n. (name_len st2 n, n)) ks) = Inr (map (profile_of st2) ks)"
    by (rule name_profiles_ok [OF assms(4) kknown])
  have stored: "store_profiles cancelled (map (profile_of st2) ks) st2 = Inr st3"
    unfolding st3_def by (rule store_profiles_ok [OF assms(4) lenks short])
  have st3: "rs_name_occurrence_tokens st3 = []" "rs_name_occurrence_token_offsets st3 = [0]" "rs_name_keys_by_len st3 = ks"
    "name_base st3 = name_base st2" "rs_contracts st3 = rs_contracts st2" "rs_name_contract_csr st3 = rs_name_contract_csr st2"
    "rs_name_nft_csr st3 = rs_name_nft_csr st2" "rs_nfts st3 = rs_nfts st2"
    unfolding st3_def with_profiles_of by (simp_all add: clear_profiles_def name_base_def)
  from store_tokens_ok [OF assms(4) volume lenks st3(1,2,4,3)] obtain tokens offsets postings tok where
    st4: "store_tokens cancelled (map (profile_of st2) ks) st3 = Inr (st3\<lparr>rs_name_occurrence_tokens := tokens,
      rs_name_occurrence_token_offsets := offsets, rs_name_occurrence_postings := postings\<rparr>)"
    "tokens_laid (st3\<lparr>rs_name_occurrence_tokens := tokens, rs_name_occurrence_token_offsets := offsets,
      rs_name_occurrence_postings := postings\<rparr>) tok" unfolding Let_def by blast
  define st4 where "st4 = st3\<lparr>rs_name_occurrence_tokens := tokens, rs_name_occurrence_token_offsets := offsets,
      rs_name_occurrence_postings := postings\<rparr>"
  have fields: "rs_contracts st4 = rs_contracts st2" "rs_name_contract_csr st4 = rs_name_contract_csr st2"
    "rs_name_nft_csr st4 = rs_name_nft_csr st2" "rs_nfts st4 = rs_nfts st2" "rs_name_keys_by_len st4 = ks"
    by (simp_all add: st4_def st3)
  have base4: "name_base st4 = name_base st2" using st3(4) by (simp add: st4_def name_base_def)
  have run: "finalize_name_index order cancelled st = Inr st4"
    using st1(1) csr(1) ks(1) profiles stored st4(1)
    by (simp add: finalize_name_index_def st0_def [symmetric] Let_def st2_def [symmetric] st4_def)
  have "names_laid st4"
  proof (rule names_laidI [OF base4 fields(5)])
    show "map_of (rs_name_key_positions st4) = index_in ks"
      unfolding st4_def st3_def with_profiles_of using map_of_key_positions [OF ks(2) lenks] by simp
  qed (use ks lenks kknown short in \<open>simp_all add: st4_def st3_def with_profiles_of\<close>)
  moreover have "contract_names_ok st4" "contract_postings_ok st4"
    using contract_names_cong [of st4 st1] st1(3,4) base4 base2 base1 fields contracts2 by (simp_all add: st2_def)
  moreover have "nft_postings_ok st4"
    using csr(2) nft_postings_cong [OF base4 ready2] nft_postings_cong [OF refl ready2] fields(3) by (simp add: st2_def)
  moreover have "names_ready st4" using names_ready_cong [OF base4] ready2 by simp
  moreover have "set (rs_name_keys_by_len st4) =
      {n. \<exists>c < length (rs_contracts st4). contract_mode st4 c n} \<union> {n. \<exists>i < length (rs_nfts st4). solana_name st4 i n}"
    unfolding fields ks(3) keyset using contract_mode_cong [OF base4] solana_name_cong [OF base4 ready2] by blast
  ultimately have "name_index_ok st4" using st4(2) by (auto simp: name_index_ok_def st4_def)
  moreover have "rs_contract_nft_csr st4 = rs_contract_nft_csr st0"
    unfolding st4_def st3_def with_profiles_of using st1(5) by (simp add: clear_profiles_def st2_def)
  moreover have "rs_contract_nft_csr st0 = build_contract_nft_csr (rs_nfts st)" if "rs_nfts st \<noteq> []"
    using assms(3) that by (auto simp: st0_def clear_name_ids_def rebuild_contract_nft_csr_def postings_current_def)
  moreover have "rs_nfts st4 = rs_nfts st" using fields(4) name_baseD(1) [OF base2] by simp
  ultimately show ?thesis using run base4 base2 by auto
qed

text \<open>C27. The name index is built right: on a well-formed store that fits its 32-bit ids and is not
  cancelled, \<open>finalize_name_index\<close> succeeds and leaves an index in which every contract carries its
  representative name, the postings of a name are exactly the EVM contracts it represents and the Solana
  NFTs that carry it, the keys are those names in the order of their lengths with their sorted
  characters, and every occurrence token leads to exactly the names that have it.\<close>

theorem name_index_built:
  assumes "names_ready st" "permutes_positions order" "postings_current st" "\<forall>p. \<not> cancelled p"
    "length (rs_nfts st) < 2 ^ 32" "length (rs_contracts st) < 2 ^ 32" "length (sp_strings (rs_strings st)) < 2 ^ 32"
    "pool_volume st < 2 ^ 32"
  shows "\<exists>st'. finalize_name_index order cancelled st = Inr st' \<and> name_base st' = name_base st \<and> name_index_ok st'"
  using finalize_name_index_ok [OF assms] by blast

theorem name_index_built_witness:
  "\<exists>st'. finalize_name_index (\<lambda>n. [0..<n]) (\<lambda>_. False) name_example = Inr st' \<and> name_base st' = name_base name_example \<and>
     name_index_ok st'"
  using name_index_built [OF name_example_ready upto_positions, of "\<lambda>_. False"]
  by (simp add: postings_current_def pool_volume_def utf8_width_def)

end
