(* ===== verification/NameSeen.thy ===== *)
theory NameSeen
  imports Fallible "HOL-Library.Word"
begin

text \<open>
  The candidates already seen by one name query
  (\<open>NameCandidateSeen\<close> in \<open>src/analysis2/crates/core/src/dedup/name/mod.rs\<close>): a dense vector of
  \<open>u16\<close> generations that a new query invalidates by counting up, or a sparse hash set.

  Generations keep their width: the counter wraps, and the slots are then filled with zero.  The
  locale \<open>query_set\<close> is the contract the query relies on: after \<open>begin_query\<close> nothing has been seen,
  and \<open>insert\<close> tells whether its candidate is new.  Out-of-range slots panic.
\<close>

section \<open>Operations\<close>

datatype candidate_seen = Dense "16 word list" "16 word" | Sparse "nat set"

definition begin_query :: "nat \<Rightarrow> candidate_seen \<Rightarrow> candidate_seen" where
  "begin_query name_count seen =
     (case seen of
        Dense generations generation \<Rightarrow>
          let (generations, generation) =
                (if length generations \<noteq> name_count then (replicate name_count 0, 0) else (generations, generation));
              generation = generation + 1
          in if generation = 0 then Dense (map (\<lambda>_. 0) generations) 1 else Dense generations generation
      | Sparse _ \<Rightarrow> Sparse {})"

definition seen_insert :: "nat \<Rightarrow> candidate_seen \<Rightarrow> (bool \<times> candidate_seen) result" where
  "seen_insert candidate seen =
     (case seen of
        Dense generations generation \<Rightarrow>
          res_bind (or_panic (idx generations candidate)) (\<lambda>slot.
            if slot = generation then Inr (False, seen)
            else res_bind (or_panic (upd generations candidate generation)) (\<lambda>generations.
              Inr (True, Dense generations generation)))
      | Sparse s \<Rightarrow> Inr (candidate \<notin> s, Sparse (insert candidate s)))"

definition dense_name_seen_budget_bytes :: nat where
  "dense_name_seen_budget_bytes = 4 * 1024 * 1024 * 1024"

definition checked_mul_usize :: "nat \<Rightarrow> nat \<Rightarrow> nat option" where
  "checked_mul_usize a b = (if a * b < 2 ^ 64 then Some (a * b) else None)"

definition worker_pool_seen :: "nat \<Rightarrow> nat \<Rightarrow> candidate_seen" where
  "worker_pool_seen name_count worker_count =
     (let dense = is_some_and (\<lambda>bytes. bytes \<le> dense_name_seen_budget_bytes)
            (Option.bind (checked_mul_usize name_count 2) (\<lambda>bytes. checked_mul_usize bytes (max worker_count 1)))
      in if dense then Dense (replicate name_count 0) 0 else Sparse {})"

text \<open>The loop of the query over postings: a candidate not seen yet is pushed.\<close>

definition push_unseen :: "nat \<Rightarrow> candidate_seen \<times> nat list \<Rightarrow> (candidate_seen \<times> nat list) result" where
  "push_unseen candidate acc =
     (let (seen, candidates) = acc
      in res_bind (seen_insert candidate seen) (\<lambda>(new, seen).
        Inr (seen, if new then candidates @ [candidate] else candidates)))"

section \<open>The contract\<close>

definition first_occurrences :: "'a list \<Rightarrow> 'a list" where
  "first_occurrences xs = rev (remdups (rev xs))"

lemma first_occurrences_nil [simp]: "first_occurrences [] = []"
  by (simp add: first_occurrences_def)

lemma first_occurrences_snoc:
  "first_occurrences (xs @ [x]) = first_occurrences xs @ (if x \<in> set xs then [] else [x])"
  by (simp add: first_occurrences_def)

lemma set_first_occurrences [simp]: "set (first_occurrences xs) = set xs"
  by (simp add: first_occurrences_def)

lemma distinct_first_occurrences [simp]: "distinct (first_occurrences xs)"
  by (simp add: first_occurrences_def)

text \<open>\<open>ready n s\<close>: a query over \<open>n\<close> names has begun on \<open>s\<close>.\<close>

locale query_set =
  fixes begin_op :: "nat \<Rightarrow> 's \<Rightarrow> 's"
    and insert_op :: "nat \<Rightarrow> 's \<Rightarrow> (bool \<times> 's) result"
    and members :: "'s \<Rightarrow> nat set"
    and invar :: "'s \<Rightarrow> bool"
    and ready :: "nat \<Rightarrow> 's \<Rightarrow> bool"
  assumes ready_invar: "ready n s \<Longrightarrow> invar s"
    and begin_ready: "invar s \<Longrightarrow> ready n (begin_op n s)"
    and begin_members: "invar s \<Longrightarrow> members (begin_op n s) = {}"
    and insert_spec: "ready n s \<Longrightarrow> c < n \<Longrightarrow>
      \<exists>s'. insert_op c s = Inr (c \<notin> members s, s') \<and> ready n s' \<and> members s' = insert c (members s)"
begin

definition push :: "nat \<Rightarrow> 's \<times> nat list \<Rightarrow> ('s \<times> nat list) result" where
  "push c acc = (case acc of (s, xs) \<Rightarrow>
     res_bind (insert_op c s) (\<lambda>(new, s). Inr (s, if new then xs @ [c] else xs)))"

lemma push_simp: "push c (s, xs) = res_bind (insert_op c s) (\<lambda>(new, s). Inr (s, if new then xs @ [c] else xs))"
  by (simp add: push_def)

lemma push_unseen_members:
  assumes "ready n s" "\<forall>c \<in> set cs. c < n"
  shows "\<exists>s'. res_fold push cs (s, xs) = Inr (s', xs @ filter (\<lambda>c. c \<notin> members s) (first_occurrences cs)) \<and>
    ready n s' \<and> members s' = members s \<union> set cs"
  using assms(2)
proof (induction cs rule: rev_induct)
  case Nil
  then show ?case using assms(1) by simp
next
  case (snoc c cs)
  from snoc obtain s' where s': "res_fold push cs (s, xs) = Inr (s', xs @ filter (\<lambda>c. c \<notin> members s) (first_occurrences cs))"
    "ready n s'" "members s' = members s \<union> set cs" by auto
  from insert_spec [OF s'(2), of c] snoc.prems obtain s'' where
    "insert_op c s' = Inr (c \<notin> members s', s'')" "ready n s''" "members s'' = insert c (members s')" by auto
  with s' show ?case by (auto simp: res_fold_append push_simp first_occurrences_snoc)
qed

text \<open>What one query finds does not depend on the queries before it.\<close>

lemma query_members:
  assumes "invar s" "\<forall>c \<in> set cs. c < n"
  shows "\<exists>s'. res_fold push cs (begin_op n s, []) = Inr (s', first_occurrences cs) \<and> ready n s' \<and> members s' = set cs"
  using push_unseen_members [OF begin_ready [OF assms(1)] assms(2), of "[]"] begin_members [OF assms(1), of n] by simp

end

section \<open>The two representations\<close>

definition seen_members :: "candidate_seen \<Rightarrow> nat set" where
  "seen_members seen =
     (case seen of
        Dense generations generation \<Rightarrow> {c. c < length generations \<and> generations ! c = generation}
      | Sparse s \<Rightarrow> s)"

text \<open>No slot is ahead of the current generation.\<close>

definition seen_ok :: "candidate_seen \<Rightarrow> bool" where
  "seen_ok seen =
     (case seen of Dense generations generation \<Rightarrow> \<forall>slot \<in> set generations. slot \<le> generation | Sparse _ \<Rightarrow> True)"

definition seen_ready :: "nat \<Rightarrow> candidate_seen \<Rightarrow> bool" where
  "seen_ready n seen \<longleftrightarrow> seen_ok seen \<and> (case seen of Dense generations _ \<Rightarrow> length generations = n | Sparse _ \<Rightarrow> True)"

lemma next_generation: "slot \<le> g \<Longrightarrow> g + 1 \<noteq> 0 \<Longrightarrow> slot < g + 1" for slot g :: "16 word"
  using unatSuc [of g] by (simp add: add.commute word_less_nat_alt word_le_nat_alt)

interpretation name_seen: query_set begin_query seen_insert seen_members seen_ok seen_ready
proof
  show "seen_ready n s \<Longrightarrow> seen_ok s" for n s by (simp add: seen_ready_def)
  show "seen_ok s \<Longrightarrow> seen_ready n (begin_query n s)" for n s
  proof (cases s)
    case (Dense gs g)
    moreover assume "seen_ok s"
    ultimately show ?thesis
      using next_generation [of _ g] by (auto simp: seen_ok_def seen_ready_def begin_query_def Let_def less_imp_le)
  qed (simp add: seen_ready_def seen_ok_def begin_query_def)
  show "seen_ok s \<Longrightarrow> seen_members (begin_query n s) = {}" for n s
  proof (cases s)
    case (Dense gs g)
    moreover assume "seen_ok s"
    ultimately show ?thesis
      by (auto simp: seen_ok_def seen_members_def begin_query_def Let_def dest: next_generation [rotated] dest!: nth_mem)
  qed (simp add: seen_members_def begin_query_def)
  show "\<exists>s'. seen_insert c s = Inr (c \<notin> seen_members s, s') \<and> seen_ready n s' \<and> seen_members s' = insert c (seen_members s)"
    if "seen_ready n s" "c < n" for n s c
  proof (cases s)
    case (Dense gs g)
    with that have c: "c < length gs" "length gs = n" "\<forall>slot \<in> set gs. slot \<le> g"
      by (auto simp: seen_ready_def seen_ok_def)
    show ?thesis
    proof (cases "gs ! c = g")
      case True
      with c that Dense show ?thesis by (auto simp: seen_insert_def or_panic_def seen_members_def)
    next
      case False
      moreover have "seen_ready n (Dense (gs[c := g]) g)"
        using c set_update_subset_insert [of gs c g] by (auto simp: seen_ready_def seen_ok_def)
      moreover have "seen_members (Dense (gs[c := g]) g) = insert c (seen_members s)"
        using c Dense by (auto simp: seen_members_def nth_list_update)
      ultimately show ?thesis using c Dense by (simp add: seen_insert_def or_panic_def seen_members_def)
    qed
  next
    case (Sparse seen)
    then show ?thesis by (auto simp: seen_insert_def seen_members_def seen_ready_def seen_ok_def)
  qed
qed

lemma push_unseen_eq: "push_unseen = name_seen.push"
  by (simp add: fun_eq_iff push_unseen_def name_seen.push_def split_def)

lemma worker_pool_seen_ok: "seen_ok (worker_pool_seen name_count worker_count)"
  by (simp add: worker_pool_seen_def seen_ok_def Let_def)

section \<open>A sequence of queries\<close>

text \<open>Queries on one scratch: the number of names and the postings each of them walks.\<close>

fun seen_queries :: "(nat \<times> nat list) list \<Rightarrow> candidate_seen \<Rightarrow> nat list list result" where
  "seen_queries [] seen = Inr []"
| "seen_queries ((n, cs) # qs) seen =
     res_bind (res_fold push_unseen cs (begin_query n seen, [])) (\<lambda>(seen, candidates).
     res_bind (seen_queries qs seen) (\<lambda>rest. Inr (candidates # rest)))"

text \<open>C32. A scratch never leaks candidates between queries: whatever number of queries a worker runs,
  also across the wrap-around of the \<open>u16\<close> generation, each of them sees exactly its own candidates,
  each once and in the order of its postings, for both representations.\<close>

theorem name_seen_independent:
  assumes "seen_ok seen" "\<forall>(n, cs) \<in> set qs. \<forall>c \<in> set cs. c < n"
  shows "seen_queries qs seen = Inr (map (\<lambda>(n, cs). first_occurrences cs) qs)"
  using assms
proof (induction qs arbitrary: seen)
  case (Cons q qs)
  obtain n cs where q: "q = (n, cs)" by fastforce
  from Cons.prems q have "\<forall>c \<in> set cs. c < n" by simp
  from name_seen.query_members [OF Cons.prems(1) this] obtain s where
    "res_fold push_unseen cs (begin_query n seen, []) = Inr (s, first_occurrences cs)" "seen_ready n s"
    unfolding push_unseen_eq by blast
  with Cons q show ?case by (simp add: seen_ready_def)
qed simp

theorem name_seen_independent_witness:
  "seen_queries [(3, [2, 0, 2]), (3, [0, 0]), (2, [1])] (Dense [0xFFFF, 0, 1] 0xFFFF) = Inr [[2, 0], [0], [1]]"
  using name_seen_independent [of "Dense [0xFFFF, 0, 1] 0xFFFF" "[(3, [2, 0, 2]), (3, [0, 0]), (2, [1])]"]
  by (simp add: seen_ok_def first_occurrences_def)

end
