(* ===== verification/NameBounds.thy ===== *)
theory NameBounds
  imports F64 Search
begin

text \<open>
  The bounds that prune name candidates
  (\<open>src/analysis2/crates/core/src/dedup/name/bounds.rs\<close>): upper bounds of the Jaro-Winkler similarity
  from two lengths or from the overlap of the characters, and the smallest overlap that can still
  reach a threshold, found by a binary search.

  The search is right only if the bound grows with the overlap, and the length window of the query
  only if it falls with the distance of the lengths.  Both are proved here for the rounded
  operations: the increments of the bound are larger than the rounding errors
  (\<open>boost_mono\<close>).  Lengths are \<open>usize\<close> values as \<open>nat\<close>; those of a vector are below \<open>2 ^ 63\<close>.
\<close>

section \<open>Operations\<close>

definition usize_max :: nat where
  "usize_max = 2 ^ 64 - 1"

definition sat_add_usize :: "nat \<Rightarrow> nat \<Rightarrow> nat" where
  "sat_add_usize a b = min (a + b) usize_max"

text \<open>\<open>f64::min\<close>: a \<open>NaN\<close> operand is ignored.\<close>

definition f64_min :: "f64 \<Rightarrow> f64 \<Rightarrow> f64" where
  "f64_min a b = (if a = NaN then b else if b = NaN then a else if b < a then b else a)"

definition rounding_epsilon :: f64 where
  "rounding_epsilon = round_f64 (1 / 10 ^ 12)"

definition reaches_threshold :: "f64 \<Rightarrow> f64 \<Rightarrow> bool" where
  "reaches_threshold upper_bound threshold \<longleftrightarrow>
     threshold \<le> upper_bound \<or> threshold - upper_bound \<le> rounding_epsilon"

definition optimistic_from_overlap :: "nat \<Rightarrow> nat \<Rightarrow> nat \<Rightarrow> f64" where
  "optimistic_from_overlap left_len right_len common =
     (if left_len = 0 \<or> right_len = 0 \<or> common = 0 then 0
      else let common = f64_of_nat (min (min common left_len) right_len);
               jaro = (common / f64_of_nat left_len + common / f64_of_nat right_len + 1) / Fin 3;
               prefix = f64_min common (f64_of_nat (min (min left_len right_len) 4));
               similarity = (if round_f64 (7 / 10) < jaro then jaro + round_f64 (1 / 10) * prefix * (1 - jaro) else jaro)
        in f64_min similarity 1)"

definition upper_bound_from_lengths :: "nat \<Rightarrow> nat \<Rightarrow> f64" where
  "upper_bound_from_lengths left_len right_len =
     (if left_len = 0 \<or> right_len = 0 then (if left_len = right_len then 1 else 0)
      else let shorter = f64_of_nat (min left_len right_len);
               longer = f64_of_nat (max left_len right_len);
               max_jaro = (1 + shorter / longer + 1) / Fin 3;
               max_prefix = f64_of_nat (min (min left_len right_len) 4)
        in f64_min (max_jaro + round_f64 (1 / 10) * max_prefix * (1 - max_jaro)) 1)"

definition lengths_can_reach :: "nat \<Rightarrow> nat \<Rightarrow> f64 \<Rightarrow> bool" where
  "lengths_can_reach left_len right_len threshold =
     reaches_threshold (upper_bound_from_lengths left_len right_len) threshold"

text \<open>The loop of the binary search.\<close>

function overlap_search :: "nat \<Rightarrow> nat \<Rightarrow> f64 \<Rightarrow> nat \<Rightarrow> nat \<Rightarrow> nat" where
  "overlap_search left_len right_len threshold low high =
     (if low < high
      then let middle = low + (high - low) div 2
        in if reaches_threshold (optimistic_from_overlap left_len right_len middle) threshold
           then overlap_search left_len right_len threshold low middle
           else overlap_search left_len right_len threshold (middle + 1) high
      else low)"
  by pat_completeness auto
termination
  by (relation "measure (\<lambda>(_, _, _, low, high). high - low)") auto

declare overlap_search.simps [simp del]

definition minimum_multiset_overlap :: "nat \<Rightarrow> nat \<Rightarrow> f64 \<Rightarrow> nat" where
  "minimum_multiset_overlap left_len right_len threshold =
     (if left_len = 0 \<and> right_len = 0 then 0
      else if threshold = NaN \<or> 1 < threshold then sat_add_usize (min left_len right_len) 1
      else if threshold \<le> 0 then 0
      else overlap_search left_len right_len threshold 0 (sat_add_usize (min left_len right_len) 1))"

section \<open>Rounding errors\<close>

lemma round_rat_multiple:
  assumes "pow2 (e + 52) \<le> q" "-1074 \<le> e"
  shows "\<exists>m. round_rat q = of_int m * pow2 e"
proof -
  have q: "0 < q" using assms(1) pow2_pos [of "e + 52"] by linarith
  then have "pow2 (e + 52) < pow2 (ilog2 q + 1)" using ilog2_bounds(2) [of q] assms(1) by simp
  then have "e \<le> last_place q" using assms(2) by (simp add: pow2_less_iff last_place_def)
  then obtain n where n: "pow2 (last_place q) = of_int n * pow2 e" using pow2_multiple by blast
  have "round_rat q = of_int (round_half_even (q / pow2 (last_place q)) * n) * pow2 e"
    using q n by (simp add: round_rat_def round_at_def)
  then show ?thesis by blast
qed

lemma last_place_below:
  assumes "0 < q" "q < pow2 (e + 53)" "-1074 \<le> e"
  shows "last_place q \<le> e"
proof -
  have "pow2 (ilog2 q) < pow2 (e + 53)" using ilog2_bounds(1) [of q] assms by simp
  then show ?thesis using assms(3) by (simp add: pow2_less_iff last_place_def)
qed

lemma round_rat_grid:
  assumes "0 \<le> of_int m * pow2 e" "of_int m * pow2 e < pow2 (e + 53)" "-1074 \<le> e"
  shows "round_rat (of_int m * pow2 e) = of_int m * pow2 e"
proof (cases "of_int m * pow2 e = 0")
  case False
  with assms last_place_below [of "of_int m * pow2 e" e] have "last_place (of_int m * pow2 e) \<le> e" by simp
  then obtain n where "pow2 e = of_int n * pow2 (last_place (of_int m * pow2 e))" using pow2_multiple by blast
  then have "of_int m * pow2 e = of_int (m * n) * pow2 (last_place (of_int m * pow2 e))" by simp
  with False show ?thesis using round_at_multiple round_rat_def by metis
qed simp

lemma rhe_error: "\<bar>of_int (round_half_even q) - q\<bar> \<le> 1 / 2"
proof -
  have "of_int \<lfloor>q\<rfloor> \<le> q" "q < of_int \<lfloor>q\<rfloor> + 1" by linarith+
  then show ?thesis by (simp add: round_half_even_def Let_def abs_le_iff)
qed

lemma round_rat_error:
  assumes "0 \<le> q" "q < pow2 (e + 53)" "-1074 \<le> e"
  shows "\<bar>round_rat q - q\<bar> \<le> pow2 e / 2"
proof (cases "q = 0")
  case False
  let ?p = "pow2 (last_place q)"
  have "round_rat q - q = (of_int (round_half_even (q / ?p)) - q / ?p) * ?p"
    using False by (simp add: round_rat_def round_at_def algebra_simps)
  then have "\<bar>round_rat q - q\<bar> = \<bar>of_int (round_half_even (q / ?p)) - q / ?p\<bar> * ?p"
    by (simp add: abs_mult less_imp_le)
  also have "\<dots> \<le> 1 / 2 * ?p" using rhe_error by (intro mult_right_mono) (simp_all add: less_imp_le)
  also have "\<dots> \<le> 1 / 2 * pow2 e"
    using pow2_mono [OF last_place_below [of q e]] assms False by (intro mult_left_mono) simp_all
  finally show ?thesis by simp
qed (simp add: less_imp_le)

section \<open>The bounds grow\<close>

text \<open>The bonus of a common prefix: \<open>jaro + k * (1 - jaro)\<close>.\<close>

definition boost :: "rat \<Rightarrow> rat \<Rightarrow> rat" where
  "boost jaro k = round_rat (jaro + round_rat (k * round_rat (1 - jaro)))"

text \<open>Above one half the values are multiples of \<open>2 ^ (-53)\<close> and their distance to one is exact.\<close>

lemma complement_exact:
  assumes "round_rat j = j" "1 / 2 \<le> j" "j \<le> 1"
  shows "\<exists>m. j = of_int m * pow2 (-53)" "round_rat (1 - j) = 1 - j"
proof -
  have "pow2 (-53 + 52) \<le> j" using assms(2) by (simp add: pow2_def)
  then obtain m where m: "j = of_int m * pow2 (-53)" using round_rat_multiple [of "-53" j] assms(1) by auto
  then show "\<exists>m. j = of_int m * pow2 (-53)" ..
  have "1 - j = of_int (2 ^ 53 - m) * pow2 (-53)" unfolding m by (simp add: pow2_def field_simps)
  moreover have "1 - j < pow2 (-53 + 53)" using assms by simp
  ultimately show "round_rat (1 - j) = 1 - j" using round_rat_grid [of "2 ^ 53 - m" "-53"] assms(3) by simp
qed

lemma half_gap: "e \<le> j - i \<Longrightarrow> 0 < e \<Longrightarrow> a - b \<le> 1 / 2 * (j - i) + e / 4 \<Longrightarrow> i + a \<le> j + b"
  for a b e i j :: rat
  by (simp add: field_simps)

lemma boost_mono_jaro:
  assumes "round_rat i = i" "round_rat j = j" "1 / 2 \<le> i" "i \<le> j" "j \<le> 1" "0 \<le> k" "k < 1 / 2"
  shows "boost i k \<le> boost j k"
proof (cases "i = j")
  case False
  have ij: "i \<le> 1" "1 / 2 \<le> j" using assms by simp_all
  note ex = complement_exact [OF assms(1,3) ij(1)] complement_exact [OF assms(2) ij(2) assms(5)]
  obtain m n where mn: "i = of_int m * pow2 (-53)" "j = of_int n * pow2 (-53)" using ex by blast
  have "m < n" using False assms(4) by (simp add: mn less_le mult_le_cancel_right_pos [OF pow2_pos])
  then have "(1 :: rat) \<le> of_int (n - m)" by simp
  then have gap: "pow2 (-53) \<le> j - i"
    using mult_right_mono [of 1 "of_int (n - m)" "pow2 (-53)"] by (simp add: mn algebra_simps less_imp_le)
  have err: "\<bar>round_rat (k * (1 - x)) - k * (1 - x)\<bar> \<le> pow2 (-55) / 2" if "1 / 2 \<le> x" "x \<le> 1" for x
  proof (rule round_rat_error)
    have "k * (1 - x) \<le> k * (1 / 2)" using that assms(6) by (intro mult_left_mono) simp_all
    also have "\<dots> < 1 / 4" using assms(7) by simp
    finally show "k * (1 - x) < pow2 (-55 + 53)" by (simp add: pow2_def)
  qed (use that assms(6) in simp_all)
  have small: "pow2 (-55) = pow2 (-53) / 4" by (simp add: pow2_def)
  have "k * (j - i) \<le> 1 / 2 * (j - i)" using assms by (intro mult_right_mono) simp_all
  moreover have "k * (1 - i) - k * (1 - j) = k * (j - i)" by (simp add: algebra_simps)
  ultimately have "round_rat (k * (1 - i)) - round_rat (k * (1 - j)) \<le> 1 / 2 * (j - i) + pow2 (-53) / 4"
    using err [OF assms(3) ij(1)] err [OF ij(2) assms(5)] unfolding small abs_le_iff by linarith
  then have "i + round_rat (k * (1 - i)) \<le> j + round_rat (k * (1 - j))" by (rule half_gap [OF gap pow2_pos])
  then show ?thesis unfolding boost_def ex(2,4) by (rule round_rat_mono)
qed simp

lemma boost_mono_weight:
  assumes "k \<le> k'" "j \<le> 1"
  shows "boost j k \<le> boost j k'"
  unfolding boost_def
  using round_rat_nonneg [of "1 - j"] assms by (intro round_rat_mono add_left_mono mult_right_mono) simp_all

lemma boost_mono:
  assumes "round_rat i = i" "round_rat j = j" "1 / 2 \<le> i" "i \<le> j" "j \<le> 1" "0 \<le> k" "k \<le> k'" "k' < 1 / 2"
  shows "boost i k \<le> boost j k'"
  using boost_mono_weight [of k k' i] boost_mono_jaro [of i j k'] assms by simp

lemma boost_ge: "round_rat j = j \<Longrightarrow> j \<le> 1 \<Longrightarrow> 0 \<le> k \<Longrightarrow> j \<le> boost j k"
  using round_rat_mono [of j "j + round_rat (k * round_rat (1 - j))"]
  by (simp add: boost_def round_rat_nonneg)

section \<open>The bounds as rounded rationals\<close>

lemma round_rat_exact: "n < 2 ^ 53 \<Longrightarrow> round_rat (of_nat n) = of_nat n"
  using round_rat_int [of "int n"] by simp

lemma round_rat_small:
  assumes "0 \<le> q" "q \<le> 2 ^ 64"
  shows "round_f64 q = Fin (round_rat q)" "round_rat q \<le> 2 ^ 64"
proof -
  have "round_rat (2 ^ 64) = 2 ^ 64"
    using round_rat_grid [of 1 64] by (simp add: pow2_def)
  with round_rat_mono [OF assms(2)] show le: "round_rat q \<le> 2 ^ 64" by simp
  have "(2 :: rat) ^ 64 < 2 ^ 1024" by (rule power_strict_increasing) simp_all
  then show "round_f64 q = Fin (round_rat q)"
    using le round_rat_nonneg [OF assms(1)] by (simp add: round_f64_def Let_def)
qed

definition nat_rat :: "nat \<Rightarrow> rat" where
  "nat_rat n = round_rat (of_nat n)"

definition is_len :: "nat \<Rightarrow> bool" where
  "is_len n \<longleftrightarrow> n < 2 ^ 63"

lemma of_nat_le_pow: "is_len n \<Longrightarrow> (of_nat n :: rat) \<le> 2 ^ 63"
  unfolding is_len_def by (metis less_imp_le of_nat_le_iff of_nat_numeral of_nat_power)

lemma f64_of_len: "is_len n \<Longrightarrow> f64_of_nat n = Fin (nat_rat n)"
  using round_rat_small(1) [of "of_nat n"] of_nat_le_pow [of n] by (simp add: f64_of_nat_def nat_rat_def)

lemma nat_rat_mono: "m \<le> n \<Longrightarrow> nat_rat m \<le> nat_rat n"
  by (simp add: nat_rat_def round_rat_mono)

lemma nat_rat_small: "n < 2 ^ 53 \<Longrightarrow> nat_rat n = of_nat n"
  by (simp add: nat_rat_def round_rat_exact)

lemma nat_rat_pos: "0 < n \<Longrightarrow> 1 \<le> nat_rat n"
  using nat_rat_mono [of 1 n] nat_rat_small [of 1] by simp

lemma nat_rat_nonneg [simp]: "0 \<le> nat_rat n"
  by (simp add: nat_rat_def round_rat_nonneg)

lemma nat_rat_le: "is_len n \<Longrightarrow> nat_rat n \<le> 2 ^ 64"
  using round_rat_small(2) [of "of_nat n"] of_nat_le_pow [of n] by (simp add: nat_rat_def)

text \<open>The similarity before the bonus and the weight of a prefix.\<close>

definition jaro_rat :: "rat \<Rightarrow> rat" where
  "jaro_rat s = round_rat (round_rat (s + 1) / 3)"

definition weight :: "rat \<Rightarrow> rat" where
  "weight prefix = round_rat (round_rat (1 / 10) * prefix)"

lemma jaro_rat_mono: "s \<le> s' \<Longrightarrow> jaro_rat s \<le> jaro_rat s'"
  unfolding jaro_rat_def by (intro round_rat_mono divide_right_mono) simp_all

lemma round_rat_const: "round_rat 1 = 1" "round_rat 2 = 2" "round_rat 3 = 3"
  using round_rat_exact [of 1] round_rat_exact [of 2] round_rat_exact [of 3] by simp_all

lemma jaro_rat_le: "s \<le> 2 \<Longrightarrow> jaro_rat s \<le> 1"
  using jaro_rat_mono [of s 2] by (simp add: jaro_rat_def round_rat_const)

lemma jaro_rat_ge: "1 \<le> s \<Longrightarrow> 1 / 2 \<le> jaro_rat s"
proof -
  assume "1 \<le> s"
  from jaro_rat_mono [OF this] have "round_rat (2 / 3) \<le> jaro_rat s" by (simp add: jaro_rat_def round_rat_const)
  moreover have "round_rat (1 / 2) \<le> round_rat (2 / 3)" by (rule round_rat_mono) simp
  moreover have "round_rat (1 / 2) = 1 / 2" using round_rat_grid [of 1 "-1"] by (simp add: pow2_def)
  ultimately show ?thesis by simp
qed

lemma tenth: "0 \<le> round_rat (1 / 10)" "round_rat (1 / 10) \<le> 7 / 64"
proof -
  have "round_rat (7 / 64) = 7 / 64" using round_rat_grid [of 7 "-6"] by (simp add: pow2_def)
  then show "round_rat (1 / 10) \<le> 7 / 64" using round_rat_mono [of "1 / 10" "7 / 64"] by simp
qed (simp add: round_rat_nonneg)

lemma weight_mono: "p \<le> q \<Longrightarrow> weight p \<le> weight q"
  unfolding weight_def using tenth(1) by (intro round_rat_mono mult_left_mono)

lemma weight_range:
  assumes "0 \<le> p" "p \<le> 4"
  shows "0 \<le> weight p" "weight p < 1 / 2"
proof -
  show "0 \<le> weight p" using assms tenth(1) by (simp add: weight_def round_rat_nonneg)
  have "round_rat (1 / 10) * p \<le> 7 / 64 * 4" using assms tenth by (intro mult_mono) simp_all
  then have "weight p \<le> round_rat (7 / 16)" unfolding weight_def by (intro round_rat_mono) simp
  also have "round_rat (7 / 16) = 7 / 16" using round_rat_grid [of 7 "-4"] by (simp add: pow2_def)
  finally show "weight p < 1 / 2" by simp
qed

lemma jaro_rat_rounded [simp]: "round_rat (jaro_rat s) = jaro_rat s"
  by (simp add: jaro_rat_def)

lemma boost_range:
  assumes "round_rat j = j" "0 \<le> j" "j \<le> 1" "0 \<le> k" "k < 1 / 2"
  shows "0 \<le> boost j k"
  using boost_ge [OF assms(1,3,4)] assms(2) by linarith

section \<open>The bounds of the code\<close>

lemmas f64_eval = plus_f64_def times_f64_def divide_f64_def minus_f64_def less_f64_def less_eq_f64_def
  zero_f64_def one_f64_def

lemma f64_min_Fin [simp]: "f64_min (Fin a) (Fin b) = Fin (min a b)"
  by (simp add: f64_min_def less_f64_def)

lemma jaro_Fin:
  assumes "0 \<le> s" "s \<le> 2"
  shows "(Fin s + 1) / Fin 3 = Fin (jaro_rat s)"
proof -
  have "s + 1 \<le> 2 ^ 64" using assms by simp
  with assms have "round_f64 (s + 1) = Fin (round_rat (s + 1))" by (intro round_rat_small) simp_all
  moreover have "round_rat (s + 1) \<le> round_rat 3" using assms by (intro round_rat_mono) simp
  then have "round_rat (s + 1) / 3 \<le> 2 ^ 64" by (simp add: round_rat_const)
  then have "round_f64 (round_rat (s + 1) / 3) = Fin (round_rat (round_rat (s + 1) / 3))"
    using assms by (intro round_rat_small) (simp_all add: round_rat_nonneg)
  ultimately show ?thesis by (simp add: f64_eval jaro_rat_def)
qed

lemma boost_Fin:
  assumes "0 \<le> j" "j \<le> 1" "round_rat j = j" "0 \<le> p" "p \<le> 4"
  shows "Fin j + round_f64 (1 / 10) * Fin p * (1 - Fin j) = Fin (boost j (weight p))"
proof -
  have tenth_Fin: "round_f64 (1 / 10) = Fin (round_rat (1 / 10))" by (rule round_rat_small) simp_all
  have "round_rat (1 / 10) * p \<le> 7 / 64 * 4" using assms tenth by (intro mult_mono) simp_all
  then have w: "round_f64 (round_rat (1 / 10) * p) = Fin (weight p)"
    unfolding weight_def using assms tenth(1) by (intro round_rat_small) simp_all
  have c: "round_f64 (1 - j) = Fin (round_rat (1 - j))" using assms by (intro round_rat_small) simp_all
  have c1: "0 \<le> round_rat (1 - j)" "round_rat (1 - j) \<le> 1"
    using assms round_rat_mono [of "1 - j" 1] by (simp_all add: round_rat_nonneg round_rat_const)
  have "weight p * round_rat (1 - j) \<le> 1 / 2 * 1"
    using weight_range [OF assms(4,5)] c1 by (intro mult_mono) simp_all
  then have b: "round_f64 (weight p * round_rat (1 - j)) = Fin (round_rat (weight p * round_rat (1 - j)))"
    using weight_range [OF assms(4,5)] c1 by (intro round_rat_small) simp_all
  have "round_rat (weight p * round_rat (1 - j)) \<le> round_rat 1"
    using \<open>weight p * round_rat (1 - j) \<le> 1 / 2 * 1\<close> by (intro round_rat_mono) simp
  moreover have "0 \<le> round_rat (weight p * round_rat (1 - j))"
    using weight_range [OF assms(4,5)] c1 by (simp add: round_rat_nonneg)
  ultimately have s: "round_f64 (j + round_rat (weight p * round_rat (1 - j))) =
      Fin (round_rat (j + round_rat (weight p * round_rat (1 - j))))"
    using assms by (intro round_rat_small) (simp_all add: round_rat_const)
  show ?thesis unfolding boost_def by (simp add: f64_eval tenth_Fin w c b s)
qed

lemma ratio_Fin:
  assumes "is_len m" "is_len n" "m \<le> n" "0 < n"
  shows "f64_of_nat m / f64_of_nat n = Fin (round_rat (nat_rat m / nat_rat n))"
    "0 \<le> round_rat (nat_rat m / nat_rat n)" "round_rat (nat_rat m / nat_rat n) \<le> 1"
proof -
  have q: "0 \<le> nat_rat m / nat_rat n" "nat_rat m / nat_rat n \<le> 1"
    using nat_rat_mono [OF assms(3)] nat_rat_pos [OF assms(4)] by simp_all
  then show "0 \<le> round_rat (nat_rat m / nat_rat n)" "round_rat (nat_rat m / nat_rat n) \<le> 1"
    using round_rat_mono [of "nat_rat m / nat_rat n" 1] by (simp_all add: round_rat_nonneg round_rat_const)
  have "nat_rat n \<noteq> 0" using nat_rat_pos [OF assms(4)] by simp
  with q show "f64_of_nat m / f64_of_nat n = Fin (round_rat (nat_rat m / nat_rat n))"
    by (simp add: f64_of_len assms divide_f64_def round_rat_small)
qed

text \<open>The bound from the lengths: \<open>r\<close> is the rounded ratio of the lengths and \<open>p\<close> the longest prefix.\<close>

definition length_rat :: "rat \<Rightarrow> nat \<Rightarrow> rat" where
  "length_rat r p = min (boost (jaro_rat (round_rat (1 + r))) (weight (of_nat p))) 1"

lemma sum_ratio:
  assumes "0 \<le> r" "r \<le> 1"
  shows "1 \<le> round_rat (1 + r)" "round_rat (1 + r) \<le> 2"
  using round_rat_mono [of 1 "1 + r"] round_rat_mono [of "1 + r" 2] assms by (simp_all add: round_rat_const)

lemma length_rat_mono:
  assumes "0 \<le> r" "r \<le> s" "s \<le> 1" "p \<le> q" "q \<le> 4"
  shows "length_rat r p \<le> length_rat s q"
proof -
  have "boost (jaro_rat (round_rat (1 + r))) (weight (of_nat p)) \<le> boost (jaro_rat (round_rat (1 + s))) (weight (of_nat q))"
  proof (rule boost_mono)
    show "jaro_rat (round_rat (1 + r)) \<le> jaro_rat (round_rat (1 + s))"
      using assms by (intro jaro_rat_mono round_rat_mono) simp
    show "1 / 2 \<le> jaro_rat (round_rat (1 + r))" "jaro_rat (round_rat (1 + s)) \<le> 1"
      using jaro_rat_ge [OF sum_ratio(1), of r] jaro_rat_le [OF sum_ratio(2), of s] assms by simp_all
    show "0 \<le> weight (of_nat p)" "weight (of_nat q) < 1 / 2"
      using weight_range(1) [of "of_nat p"] weight_range(2) [of "of_nat q"] of_nat_mono [of p 4, where 'a = rat]
        of_nat_mono [of q 4, where 'a = rat] assms by simp_all
    show "weight (of_nat p) \<le> weight (of_nat q)" using assms by (intro weight_mono) simp
  qed simp_all
  then show ?thesis by (simp add: length_rat_def min.coboundedI1)
qed

lemma upper_bound_Fin:
  assumes "is_len m" "is_len n" "0 < m" "0 < n"
  shows "upper_bound_from_lengths m n =
    Fin (length_rat (round_rat (nat_rat (min m n) / nat_rat (max m n))) (min (min m n) 4))"
proof -
  have len: "is_len (min m n)" "is_len (max m n)" "is_len (min (min m n) 4)"
    using assms by (simp_all add: is_len_def)
  have r: "f64_of_nat (min m n) / f64_of_nat (max m n) = Fin (round_rat (nat_rat (min m n) / nat_rat (max m n)))"
    "0 \<le> round_rat (nat_rat (min m n) / nat_rat (max m n))" "round_rat (nat_rat (min m n) / nat_rat (max m n)) \<le> 1"
    using assms by (intro ratio_Fin len; simp)+
  let ?r = "round_rat (nat_rat (min m n) / nat_rat (max m n))"
  have one: "1 + Fin ?r = Fin (round_rat (1 + ?r))"
    using r by (simp add: one_f64_def plus_f64_def round_rat_small)
  note s = sum_ratio [OF r(2,3)]
  have prefix: "f64_of_nat (min (min m n) 4) = Fin (of_nat (min (min m n) 4))"
    unfolding f64_of_len [OF len(3)] by (simp add: nat_rat_small)
  have jaro: "0 \<le> jaro_rat (round_rat (1 + ?r))" "jaro_rat (round_rat (1 + ?r)) \<le> 1"
    using jaro_rat_ge [OF s(1)] jaro_rat_le [OF s(2)] by simp_all
  have p: "0 \<le> (of_nat (min (min m n) 4) :: rat)" "(of_nat (min (min m n) 4) :: rat) \<le> 4" by simp_all
  have "(1 + Fin ?r + 1) / Fin 3 = Fin (jaro_rat (round_rat (1 + ?r)))"
    unfolding one using s by (intro jaro_Fin) simp_all
  then show ?thesis
    unfolding upper_bound_from_lengths_def Let_def r(1) prefix length_rat_def
    using assms boost_Fin [OF jaro jaro_rat_rounded p] by (simp add: one_f64_def)
qed

text \<open>The bound from the overlap.\<close>

definition overlap_rat :: "nat \<Rightarrow> nat \<Rightarrow> nat \<Rightarrow> rat" where
  "overlap_rat l r n =
     (let jaro = jaro_rat (round_rat (round_rat (nat_rat n / nat_rat l) + round_rat (nat_rat n / nat_rat r)))
      in min (if round_rat (7 / 10) < jaro then boost jaro (weight (min (nat_rat n) (of_nat (min (min l r) 4)))) else jaro) 1)"

lemma seven_tenths: "1 / 2 \<le> round_rat (7 / 10)"
proof -
  have "round_rat (1 / 2) = 1 / 2" using round_rat_grid [of 1 "-1"] by (simp add: pow2_def)
  then show ?thesis using round_rat_mono [of "1 / 2" "7 / 10"] by simp
qed

lemma overlap_jaro:
  assumes "is_len l" "is_len r" "n \<le> l" "n \<le> r" "0 < l" "0 < r"
  defines "s \<equiv> round_rat (round_rat (nat_rat n / nat_rat l) + round_rat (nat_rat n / nat_rat r))"
  shows "f64_of_nat n / f64_of_nat l + f64_of_nat n / f64_of_nat r = Fin s" "0 \<le> s" "s \<le> 2"
proof -
  have n: "is_len n" using assms by (simp add: is_len_def)
  note a = ratio_Fin [OF n assms(1,3,5)] and b = ratio_Fin [OF n assms(2,4,6)]
  let ?q = "round_rat (nat_rat n / nat_rat l) + round_rat (nat_rat n / nat_rat r)"
  have q: "0 \<le> ?q" "?q \<le> 2" using a b by simp_all
  then show "f64_of_nat n / f64_of_nat l + f64_of_nat n / f64_of_nat r = Fin s"
    unfolding a(1) b(1) s_def by (simp add: plus_f64_def round_rat_small)
  show "0 \<le> s" "s \<le> 2"
    using q round_rat_mono [OF q(2)] by (simp_all add: s_def round_rat_nonneg round_rat_const)
qed

lemma overlap_bound_Fin:
  assumes "is_len l" "is_len r" "n \<le> l" "n \<le> r" "0 < n"
  shows "optimistic_from_overlap l r n = Fin (overlap_rat l r n)"
proof -
  have pos: "0 < l" "0 < r" using assms by simp_all
  note sum = overlap_jaro [OF assms(1-4) pos]
  let ?s = "round_rat (round_rat (nat_rat n / nat_rat l) + round_rat (nat_rat n / nat_rat r))"
  let ?p = "min (nat_rat n) (of_nat (min (min l r) 4))"
  have len: "is_len n" "is_len (min (min l r) 4)" using assms by (simp_all add: is_len_def)
  have prefix: "f64_min (f64_of_nat n) (f64_of_nat (min (min l r) 4)) = Fin ?p"
    unfolding f64_of_len [OF len(1)] f64_of_len [OF len(2)] by (simp add: nat_rat_small)
  have p: "0 \<le> ?p" "?p \<le> 4" by simp_all
  note jaro = jaro_Fin [OF sum(2,3)]
  have const: "round_f64 (7 / 10) = Fin (round_rat (7 / 10))" by (rule round_rat_small) simp_all
  have n: "min (min n l) r = n" using assms by simp
  have boost: "Fin (jaro_rat ?s) + round_f64 (1 / 10) * Fin ?p * (1 - Fin (jaro_rat ?s)) = Fin (boost (jaro_rat ?s) (weight ?p))"
    if "round_rat (7 / 10) < jaro_rat ?s"
    using that seven_tenths jaro_rat_le [OF sum(3)] p by (intro boost_Fin) simp_all
  show ?thesis
    unfolding optimistic_from_overlap_def Let_def n sum(1) jaro prefix const overlap_rat_def
    using assms pos boost by (simp add: less_f64_def one_f64_def)
qed

lemma overlap_rat_mono:
  assumes "is_len l" "is_len r" "m \<le> n" "n \<le> l" "n \<le> r" "0 < m"
  shows "overlap_rat l r m \<le> overlap_rat l r n"
proof -
  define s where "s = (\<lambda>n. round_rat (round_rat (nat_rat n / nat_rat l) + round_rat (nat_rat n / nat_rat r)))"
  define p where "p = (\<lambda>n. min (nat_rat n) (of_nat (min (min l r) 4)))"
  have pos: "0 < l" "0 < r" using assms by simp_all
  have "s m \<le> s n" unfolding s_def using nat_rat_mono [OF assms(3)]
    by (intro round_rat_mono add_mono divide_right_mono) simp_all
  then have j: "jaro_rat (s m) \<le> jaro_rat (s n)" by (rule jaro_rat_mono)
  have j1: "jaro_rat (s n) \<le> 1" using overlap_jaro(3) [OF assms(1,2,4,5) pos] by (intro jaro_rat_le) (simp add: s_def)
  have p: "0 \<le> p m" "p m \<le> p n" "p n \<le> 4" using nat_rat_mono [OF assms(3)] by (auto simp: p_def min_def)
  have w: "0 \<le> weight (p m)" "weight (p m) \<le> weight (p n)" "weight (p n) < 1 / 2"
    using p weight_range(1) [of "p m"] weight_range(2) [of "p n"] by (simp_all add: weight_mono)
  let ?v = "\<lambda>n. if round_rat (7 / 10) < jaro_rat (s n) then boost (jaro_rat (s n)) (weight (p n)) else jaro_rat (s n)"
  have "?v m \<le> ?v n"
  proof (cases "round_rat (7 / 10) < jaro_rat (s m)")
    case True
    with j j1 w seven_tenths show ?thesis by (simp add: boost_mono)
  next
    case False
    with j j1 w boost_ge [of "jaro_rat (s n)" "weight (p n)"] show ?thesis by simp
  qed
  moreover have "overlap_rat l r n = min (?v n) 1" for n by (simp only: overlap_rat_def Let_def s_def p_def)
  ultimately show ?thesis by (metis min.mono order_refl)
qed

lemma overlap_rat_nonneg:
  assumes "is_len l" "is_len r" "n \<le> l" "n \<le> r" "0 < n"
  shows "0 \<le> overlap_rat l r n"
proof -
  have pos: "0 < l" "0 < r" using assms by simp_all
  define s where "s = round_rat (round_rat (nat_rat n / nat_rat l) + round_rat (nat_rat n / nat_rat r))"
  define k where "k = weight (min (nat_rat n) (of_nat (min (min l r) 4)))"
  have "0 \<le> s" "s \<le> 2" using overlap_jaro(2,3) [OF assms(1-4) pos] by (simp_all add: s_def)
  then have j: "0 \<le> jaro_rat s" "jaro_rat s \<le> 1" by (simp_all add: jaro_rat_le) (simp add: jaro_rat_def round_rat_nonneg)
  have "0 \<le> k" unfolding k_def by (rule weight_range) simp_all
  with j boost_ge [of "jaro_rat s" k] have "0 \<le> boost (jaro_rat s) k" by simp
  with j show ?thesis unfolding overlap_rat_def Let_def s_def [symmetric] k_def [symmetric] by simp
qed

section \<open>Reaching a threshold\<close>

lemma reaches_mono:
  assumes "u \<le> v" "reaches_threshold (Fin u) t"
  shows "reaches_threshold (Fin v) t"
proof (cases t)
  case (Fin q)
  have "round_f64 (q - v) \<le> round_f64 (q - u)" using assms(1) by (intro round_f64_mono) simp
  with assms Fin show ?thesis
    by (auto simp: reaches_threshold_def less_eq_f64_def minus_f64_def intro: f64_le_trans [unfolded less_eq_f64_def])
qed (use assms in \<open>auto simp: reaches_threshold_def less_eq_f64_def minus_f64_def\<close>)

lemma overlap_bound_mono:
  assumes "is_len l" "is_len r" "m \<le> n" "n \<le> min l r" "reaches_threshold (optimistic_from_overlap l r m) t"
  shows "reaches_threshold (optimistic_from_overlap l r n) t"
proof (cases "m = 0 \<or> l = 0 \<or> r = 0")
  case True
  then have m: "optimistic_from_overlap l r m = Fin 0" by (auto simp: optimistic_from_overlap_def zero_f64_def)
  show ?thesis
  proof (cases "n = 0 \<or> l = 0 \<or> r = 0")
    case True
    then have "optimistic_from_overlap l r n = Fin 0" by (auto simp: optimistic_from_overlap_def zero_f64_def)
    with m assms(5) show ?thesis by simp
  next
    case False
    with assms overlap_rat_nonneg [of l r n] reaches_mono [of 0 "overlap_rat l r n" t] m show ?thesis
      by (simp add: overlap_bound_Fin)
  qed
next
  case False
  with assms overlap_rat_mono [of l r m n] reaches_mono [of "overlap_rat l r m" "overlap_rat l r n" t] show ?thesis
    by (simp add: overlap_bound_Fin)
qed

text \<open>The binary search finds the border of a predicate that stays true.\<close>

lemma overlap_search_border:
  defines "reach \<equiv> \<lambda>l r t n. reaches_threshold (optimistic_from_overlap l r n) t"
  assumes "low \<le> high" "\<forall>m n. m \<le> n \<and> n < high \<and> reach l r t m \<longrightarrow> reach l r t n"
  shows "low \<le> overlap_search l r t low high \<and> overlap_search l r t low high \<le> high \<and>
    (\<forall>n. low \<le> n \<and> n < high \<longrightarrow> (overlap_search l r t low high \<le> n \<longleftrightarrow> reach l r t n))"
  using assms(2,3)
proof (induction l r t low high rule: overlap_search.induct)
  case (1 l r t low high)
  show ?case
  proof (cases "low < high")
    case True
    define mid where "mid = low + (high - low) div 2"
    have mid: "low \<le> mid" "mid < high" using True by (auto simp: mid_def)
    show ?thesis
    proof (cases "reach l r t mid")
      case True
      have step: "overlap_search l r t low high = overlap_search l r t low mid"
        using \<open>low < high\<close> True by (subst overlap_search.simps) (simp add: Let_def mid_def reach_def)
      have IH: "low \<le> overlap_search l r t low mid \<and> overlap_search l r t low mid \<le> mid \<and>
          (\<forall>n. low \<le> n \<and> n < mid \<longrightarrow> (overlap_search l r t low mid \<le> n \<longleftrightarrow> reach l r t n))"
      proof (rule "1.IH"(1) [OF \<open>low < high\<close> mid_def])
        show "reaches_threshold (optimistic_from_overlap l r mid) t" using True by (simp add: reach_def)
        show "\<forall>m n. m \<le> n \<and> n < mid \<and> reach l r t m \<longrightarrow> reach l r t n"
          using "1.prems"(2) mid(2) by (meson less_trans)
      qed (rule mid)
      show ?thesis
      proof (intro conjI allI impI)
        fix n assume n: "low \<le> n \<and> n < high"
        show "overlap_search l r t low high \<le> n \<longleftrightarrow> reach l r t n"
        proof (cases "n < mid")
          case False
          with n "1.prems"(2) True have "reach l r t n" by (meson not_less)
          with False IH step show ?thesis by simp
        qed (use IH step n in auto)
      qed (use IH step mid in auto)
    next
      case False
      have step: "overlap_search l r t low high = overlap_search l r t (mid + 1) high"
        using \<open>low < high\<close> False by (subst overlap_search.simps) (simp add: Let_def mid_def reach_def)
      have IH: "mid + 1 \<le> overlap_search l r t (mid + 1) high \<and> overlap_search l r t (mid + 1) high \<le> high \<and>
          (\<forall>n. mid + 1 \<le> n \<and> n < high \<longrightarrow> (overlap_search l r t (mid + 1) high \<le> n \<longleftrightarrow> reach l r t n))"
      proof (rule "1.IH"(2) [OF \<open>low < high\<close> mid_def])
        show "\<not> reaches_threshold (optimistic_from_overlap l r mid) t" using False by (simp add: reach_def)
        show "mid + 1 \<le> high" using mid(2) by simp
      qed (rule "1.prems"(2))
      show ?thesis
      proof (intro conjI allI impI)
        fix n assume n: "low \<le> n \<and> n < high"
        show "overlap_search l r t low high \<le> n \<longleftrightarrow> reach l r t n"
        proof (cases "mid < n")
          case False
          with n "1.prems"(2) \<open>\<not> reach l r t mid\<close> mid have "\<not> reach l r t n" by (meson not_less)
          with False IH step show ?thesis by simp
        qed (use IH step n in auto)
      qed (use IH step mid in auto)
    qed
  next
    case False
    with "1.prems"(1) show ?thesis by (subst (1 2 3) overlap_search.simps) auto
  qed
qed

lemma minimum_overlap_border:
  assumes "is_len left_len" "is_len right_len" "0 < left_len \<or> 0 < right_len" "0 < threshold" "threshold \<le> 1"
    "common \<le> min left_len right_len"
  shows "(minimum_multiset_overlap left_len right_len threshold \<le> common \<longleftrightarrow>
      reaches_threshold (optimistic_from_overlap left_len right_len common) threshold) \<and>
    minimum_multiset_overlap left_len right_len threshold \<le> min left_len right_len + 1"
proof -
  obtain q where t: "threshold = Fin q" "0 < q" "q \<le> 1"
    using assms(4,5) by (cases threshold) (auto simp: less_f64_def less_eq_f64_def zero_f64_def one_f64_def)
  have sat: "sat_add_usize (min left_len right_len) 1 = min left_len right_len + 1"
    using assms(1) by (simp add: sat_add_usize_def usize_max_def is_len_def)
  have eq: "minimum_multiset_overlap left_len right_len threshold =
      overlap_search left_len right_len threshold 0 (min left_len right_len + 1)"
    unfolding minimum_multiset_overlap_def sat using assms(3) t
    by (auto simp: less_f64_def less_eq_f64_def zero_f64_def one_f64_def)
  have "\<forall>m n. m \<le> n \<and> n < min left_len right_len + 1 \<and>
      reaches_threshold (optimistic_from_overlap left_len right_len m) threshold \<longrightarrow>
      reaches_threshold (optimistic_from_overlap left_len right_len n) threshold"
    using overlap_bound_mono [OF assms(1,2)] by (metis Suc_eq_plus1 less_Suc_eq_le)
  from overlap_search_border [OF _ this, of 0] show ?thesis
    unfolding eq using assms(6) less_Suc_eq_le [of common "min left_len right_len"] by simp
qed

text \<open>C30. The required overlap is exact in the rounded arithmetic: for a threshold in \<open>(0, 1]\<close> the
  bound of an overlap reaches the threshold exactly from the overlap that
  \<open>minimum_multiset_overlap\<close> returns on, and that is at most one more than the shorter length.\<close>

theorem minimum_overlap_exact:
  assumes "is_len left_len" "is_len right_len" "0 < left_len \<or> 0 < right_len" "0 < threshold" "threshold \<le> 1"
    "common \<le> min left_len right_len"
  shows "(minimum_multiset_overlap left_len right_len threshold \<le> common \<longleftrightarrow>
      reaches_threshold (optimistic_from_overlap left_len right_len common) threshold) \<and>
    minimum_multiset_overlap left_len right_len threshold \<le> min left_len right_len + 1"
  by (rule minimum_overlap_border [OF assms])

theorem minimum_overlap_exact_witness:
  "(minimum_multiset_overlap 4 5 1 \<le> 3 \<longleftrightarrow> reaches_threshold (optimistic_from_overlap 4 5 3) 1) \<and>
   minimum_multiset_overlap 4 5 1 \<le> 5"
  using minimum_overlap_exact [of 4 5 1 3] by (simp add: is_len_def f64_eval)

section \<open>The length window\<close>

text \<open>\<open>slice::partition_point\<close>: a binary search for the first element that fails the predicate.\<close>

definition partition_point :: "('a \<Rightarrow> bool) \<Rightarrow> 'a list \<Rightarrow> nat" where
  "partition_point P xs =
     (case binary_search_by (\<lambda>i. if P (xs ! i) then OrdLess else OrdGreater) (length xs) of Inl i \<Rightarrow> i | Inr i \<Rightarrow> i)"

definition window_start :: "nat list \<Rightarrow> nat \<Rightarrow> f64 \<Rightarrow> nat" where
  "window_start lengths query_len threshold =
     partition_point (\<lambda>cand_len. cand_len < query_len \<and> \<not> lengths_can_reach query_len cand_len threshold) lengths"

definition window_end :: "nat list \<Rightarrow> nat \<Rightarrow> f64 \<Rightarrow> nat" where
  "window_end lengths query_len threshold =
     partition_point (\<lambda>cand_len. cand_len \<le> query_len \<or> lengths_can_reach query_len cand_len threshold) lengths"

lemma partition_point_spec:
  assumes "\<And>i j. i \<le> j \<Longrightarrow> j < length xs \<Longrightarrow> P (xs ! j) \<Longrightarrow> P (xs ! i)"
  shows "partition_point P xs \<le> length xs \<and> (\<forall>i < length xs. i < partition_point P xs \<longleftrightarrow> P (xs ! i))"
proof -
  let ?f = "\<lambda>i. if P (xs ! i) then OrdLess else OrdGreater"
  have sorted: "compare_sorted ?f (length xs)" using assms by (auto simp: compare_sorted_def)
  show ?thesis
  proof (cases "binary_search_by ?f (length xs)")
    case (Inl i)
    with binary_search_found [OF Inl sorted] show ?thesis by (simp split: if_splits)
  next
    case (Inr i)
    from binary_search_missing [OF Inr sorted] have "i \<le> length xs" "\<forall>j < i. P (xs ! j)" "\<forall>j. i \<le> j \<and> j < length xs \<longrightarrow> \<not> P (xs ! j)"
      by (auto split: if_splits)
    with Inr show ?thesis by (auto simp: partition_point_def not_less)
  qed
qed

lemma sorted_partition_point:
  assumes "sorted xs" "\<And>x y. x \<le> y \<Longrightarrow> y \<in> set xs \<Longrightarrow> x \<in> set xs \<Longrightarrow> P y \<Longrightarrow> P x"
  shows "partition_point P xs \<le> length xs \<and> (\<forall>i < length xs. i < partition_point P xs \<longleftrightarrow> P (xs ! i))"
proof (rule partition_point_spec)
  fix i j assume ij: "i \<le> j" "j < length xs" "P (xs ! j)"
  then have "xs ! i \<le> xs ! j" "xs ! j \<in> set xs" "xs ! i \<in> set xs" using sorted_nth_mono [OF assms(1)] by auto
  then show "P (xs ! i)" using assms(2) ij(3) by blast
qed

lemma upper_bound_cases:
  assumes "is_len q" "is_len c" "0 < q"
  shows "\<exists>u. upper_bound_from_lengths q c = Fin u \<and> 0 \<le> u"
proof (cases "c = 0")
  case False
  let ?r = "round_rat (nat_rat (min q c) / nat_rat (max q c))"
  have len: "is_len (min q c)" "is_len (max q c)" using assms by (simp_all add: is_len_def)
  have r: "0 \<le> ?r" "?r \<le> 1" using ratio_Fin(2,3) [OF len] assms False by auto
  have "0 \<le> jaro_rat (round_rat (1 + ?r))" "jaro_rat (round_rat (1 + ?r)) \<le> 1"
    using jaro_rat_ge [OF sum_ratio(1) [OF r]] jaro_rat_le [OF sum_ratio(2) [OF r]] by simp_all
  moreover have "0 \<le> weight (of_nat (min (min q c) 4))" by (rule weight_range) simp_all
  ultimately have "0 \<le> boost (jaro_rat (round_rat (1 + ?r))) (weight (of_nat (min (min q c) 4)))"
    using boost_ge [of "jaro_rat (round_rat (1 + ?r))"] by (meson jaro_rat_rounded order_trans)
  then show ?thesis using upper_bound_Fin [OF assms(1,2,3)] False by (simp add: length_rat_def)
qed (use assms in \<open>simp add: upper_bound_from_lengths_def zero_f64_def\<close>)

text \<open>Below the query a longer candidate reaches more, above it a shorter one.\<close>

lemma reach_below:
  assumes "is_len q" "c \<le> d" "d \<le> q" "lengths_can_reach q c t"
  shows "lengths_can_reach q d t"
proof (cases "c = 0")
  case True
  show ?thesis
  proof (cases "q = 0")
    case False
    have "is_len d" using assms by (simp add: is_len_def)
    with upper_bound_cases [OF assms(1), of d] False obtain u where "upper_bound_from_lengths q d = Fin u" "0 \<le> u" by auto
    moreover have "upper_bound_from_lengths q c = Fin 0" using True False by (simp add: upper_bound_from_lengths_def zero_f64_def)
    ultimately show ?thesis using assms(4) reaches_mono by (simp add: lengths_can_reach_def)
  qed (use True assms in simp)
next
  case False
  have len: "is_len c" "is_len d" using assms by (simp_all add: is_len_def)
  have r: "round_rat (nat_rat c / nat_rat q) \<le> round_rat (nat_rat d / nat_rat q)" "round_rat (nat_rat d / nat_rat q) \<le> 1"
    using nat_rat_mono [OF assms(2)] ratio_Fin(3) [OF len(2) assms(1,3)] False assms
    by (auto intro!: round_rat_mono divide_right_mono)
  have "length_rat (round_rat (nat_rat c / nat_rat q)) (min c 4) \<le> length_rat (round_rat (nat_rat d / nat_rat q)) (min d 4)"
    using r assms by (intro length_rat_mono) (simp_all add: round_rat_nonneg)
  with reaches_mono [OF this, of t] assms False len show ?thesis
    by (simp add: lengths_can_reach_def upper_bound_Fin min_absorb2 max_absorb1)
qed

lemma reach_above:
  assumes "is_len d" "q < c" "c \<le> d" "lengths_can_reach q d t"
  shows "lengths_can_reach q c t"
proof (cases "q = 0")
  case False
  have len: "is_len c" "is_len q" using assms by (simp_all add: is_len_def)
  have pos: "0 < nat_rat c" using nat_rat_pos [of c] assms by simp
  have r: "round_rat (nat_rat q / nat_rat d) \<le> round_rat (nat_rat q / nat_rat c)" "round_rat (nat_rat q / nat_rat c) \<le> 1"
    using nat_rat_mono [OF assms(3)] pos ratio_Fin(3) [OF len(2,1)] assms
    by (auto intro!: round_rat_mono divide_left_mono mult_pos_pos)
  have "length_rat (round_rat (nat_rat q / nat_rat d)) (min q 4) \<le> length_rat (round_rat (nat_rat q / nat_rat c)) (min q 4)"
    using r by (intro length_rat_mono) (simp_all add: round_rat_nonneg)
  with reaches_mono [OF this, of t] assms False len show ?thesis
    by (simp add: lengths_can_reach_def upper_bound_Fin min_absorb1 max_absorb2)
qed (use assms in \<open>simp add: lengths_can_reach_def upper_bound_from_lengths_def\<close>)

lemma length_window_exact_gen:
  assumes "sorted lengths" "is_len query_len" "\<forall>c \<in> set lengths. is_len c"
  shows "window_end lengths query_len threshold \<le> length lengths"
    "i < length lengths \<Longrightarrow> window_start lengths query_len threshold \<le> i \<and> i < window_end lengths query_len threshold \<longleftrightarrow>
      lengths ! i = query_len \<or> lengths_can_reach query_len (lengths ! i) threshold"
proof -
  let ?below = "\<lambda>c. c < query_len \<and> \<not> lengths_can_reach query_len c threshold"
  let ?reach = "\<lambda>c. c \<le> query_len \<or> lengths_can_reach query_len c threshold"
  have "?below y \<Longrightarrow> x \<le> y \<Longrightarrow> ?below x" for x y
    using reach_below [OF assms(2), of x y] by auto
  then have start: "i < length lengths \<Longrightarrow> i < window_start lengths query_len threshold \<longleftrightarrow> ?below (lengths ! i)" for i
    using sorted_partition_point [OF assms(1), of ?below] by (auto simp: window_start_def)
  have "?reach y \<Longrightarrow> x \<le> y \<Longrightarrow> y \<in> set lengths \<Longrightarrow> ?reach x" for x y
    using reach_above [of y query_len x] assms(3) by (meson le_trans not_le)
  then have "window_end lengths query_len threshold \<le> length lengths \<and>
      (\<forall>i < length lengths. i < window_end lengths query_len threshold \<longleftrightarrow> ?reach (lengths ! i))"
    unfolding window_end_def by (intro sorted_partition_point [OF assms(1)]) blast
  then show "window_end lengths query_len threshold \<le> length lengths"
    "i < length lengths \<Longrightarrow> window_start lengths query_len threshold \<le> i \<and> i < window_end lengths query_len threshold \<longleftrightarrow>
      lengths ! i = query_len \<or> lengths_can_reach query_len (lengths ! i) threshold"
    using start [of i] by auto
qed

text \<open>The two binary searches over the sorted lengths delimit exactly the candidates the length
  bound cannot exclude, although the bound is rounded: a candidate lies in the window if and only if it
  has the length of the query or its length can reach the threshold.\<close>

theorem length_window_exact:
  assumes "sorted lengths" "is_len query_len" "\<forall>c \<in> set lengths. is_len c" "i < length lengths"
  shows "window_start lengths query_len threshold \<le> i \<and> i < window_end lengths query_len threshold \<longleftrightarrow>
    lengths ! i = query_len \<or> lengths_can_reach query_len (lengths ! i) threshold"
  by (rule length_window_exact_gen(2) [OF assms])

theorem length_window_exact_witness:
  "window_start [2, 3, 5, 9] 5 1 \<le> 1 \<and> 1 < window_end [2, 3, 5, 9] 5 1 \<longleftrightarrow> lengths_can_reach 5 3 1"
  using length_window_exact [of "[2, 3, 5, 9]" 5 1 1] by (simp add: is_len_def)

end
