(* ===== verification/NameQuery.thy ===== *)
theory NameQuery
  imports NameIndexOk NameSeen NameBounds
begin

text \<open>
  The name query of a seed contract (\<open>query_name_for_seed\<close> in
  \<open>src/analysis2/crates/core/src/dedup/name/mod.rs\<close>).

  \<open>similarity query candidate cutoff\<close> stands for the crate \<open>rapidfuzz\<close>: the Jaro-Winkler similarity of
  two character sequences, if it reaches the cutoff.  The progress observer can cancel before every
  query; \<open>par\<close> stands for the two conditions on the thread pool.  The hash sets of a scratch are only
  asked for membership.  A failed query returns no graph, its callers pass the error on.
\<close>

section \<open>Scratch\<close>

record name_query_scratch =
  nq_query_ids :: "nat list"
  nq_query_id_seen :: "nat set"
  nq_query_chars :: "nat list"
  nq_query_sorted :: "nat list"
  nq_candidates :: "nat list"
  nq_candidate_seen :: candidate_seen
  nq_emitted :: "(nat \<times> nat) set"

definition for_worker_pool :: "nat \<Rightarrow> nat \<Rightarrow> name_query_scratch" where
  "for_worker_pool name_count worker_count =
     \<lparr>nq_query_ids = [], nq_query_id_seen = {}, nq_query_chars = [], nq_query_sorted = [], nq_candidates = [],
      nq_candidate_seen = worker_pool_seen name_count worker_count, nq_emitted = {}\<rparr>"

definition sparse_scratch :: name_query_scratch where
  "sparse_scratch =
     \<lparr>nq_query_ids = [], nq_query_id_seen = {}, nq_query_chars = [], nq_query_sorted = [], nq_candidates = [],
      nq_candidate_seen = Sparse {}, nq_emitted = {}\<rparr>"

section \<open>Emitting the hits of a name\<close>

type_synonym emission = "hit_graph \<times> (nat \<times> nat) set"

definition push_collection_edge ::
  "'m resident_store \<Rightarrow> nat \<Rightarrow> nat \<Rightarrow> f64 \<Rightarrow> nat \<Rightarrow> emission \<Rightarrow> emission result" where
  "push_collection_edge st seed seed_chain score candidate acc =
     (let (graph, seen) = acc
      in if candidate = seed then Inr acc
         else res_bind (or_panic (idx (rs_contracts st) candidate)) (\<lambda>contract.
           let secondary = ct_chain_id contract
           in if (candidate, secondary) \<in> seen then Inr acc
              else Inr (snd (push_edge
                  \<lparr>he_seed_contract = seed, he_candidate_contract = candidate, he_candidate_nft = None,
                   he_dimension = Name, he_score = score, he_primary_chain = seed_chain,
                   he_secondary_chain = secondary\<rparr> graph), insert (candidate, secondary) seen)))"

text \<open>All contracts and NFTs filed under a name.\<close>

definition emit_name ::
  "'m resident_store \<Rightarrow> nat \<Rightarrow> nat \<Rightarrow> nat \<times> f64 \<Rightarrow> emission \<Rightarrow> emission result" where
  "emit_name st seed seed_chain hit acc =
     (let (name_id, score) = hit
      in res_bind (res_fold (push_collection_edge st seed seed_chain score)
             (unwrap_or [] (csr_values_for (rs_name_contract_csr st) name_id)) acc) (\<lambda>acc.
         res_fold (\<lambda>ni acc. res_bind (or_panic (idx (rs_nfts st) ni)) (\<lambda>nft.
             push_collection_edge st seed seed_chain score (nf_contract_id nft) acc))
           (unwrap_or [] (csr_values_for (rs_name_nft_csr st) name_id)) acc))"

definition emit_into ::
  "'m resident_store \<Rightarrow> nat \<Rightarrow> nat \<Rightarrow> nat \<times> f64 \<Rightarrow> hit_graph \<times> name_query_scratch \<Rightarrow> (hit_graph \<times> name_query_scratch) result" where
  "emit_into st seed seed_chain hit state =
     (let (graph, scratch) = state
      in res_bind (emit_name st seed seed_chain hit (graph, nq_emitted scratch)) (\<lambda>(graph, emitted).
         Inr (graph, scratch\<lparr>nq_emitted := emitted\<rparr>)))"

section \<open>The candidates of a group of equal lengths\<close>

text \<open>What a query knows of its name: id, length, sorted characters and occurrence tokens.\<close>

record name_query =
  qn_id :: nat
  qn_len :: nat
  qn_sorted :: "nat list"
  qn_tokens :: "nat list option"

definition f64_clamp :: "f64 \<Rightarrow> f64 \<Rightarrow> f64 \<Rightarrow> f64" where
  "f64_clamp x lo hi = (if x < lo then lo else if hi < x then hi else x)"

text \<open>The part of a posting inside the group.\<close>

definition scan_posting ::
  "'m resident_store \<Rightarrow> nat \<Rightarrow> nat \<Rightarrow> nat \<Rightarrow> candidate_seen \<times> nat list \<Rightarrow> (candidate_seen \<times> nat list) result" where
  "scan_posting st group_start group_end token acc =
     (case csr_values_for (rs_name_occurrence_postings st) token of
        None \<Rightarrow> Inr acc
      | Some posting \<Rightarrow>
          let start = partition_point (\<lambda>candidate. candidate < u32 group_start) posting;
              end = partition_point (\<lambda>candidate. candidate < u32 group_end) posting
          in res_bind (or_panic (Csr.slice posting start end)) (\<lambda>part. res_fold push_unseen part acc))"

definition group_candidates ::
  "'m resident_store \<Rightarrow> name_query \<Rightarrow> nat \<Rightarrow> nat \<Rightarrow> nat \<Rightarrow> candidate_seen \<Rightarrow> (candidate_seen \<times> nat list) result" where
  "group_candidates st q required group_start group_end seen =
     (case qn_tokens q of
        Some query_tokens \<Rightarrow>
          if required = 0 then Inr (seen, map u32 [group_start..<group_end])
          else let prefix_len = min (sat_add_usize (qn_len q - required) 1) (length query_tokens)
            in res_fold (scan_posting st group_start group_end) (take prefix_len query_tokens) (seen, [])
      | None \<Rightarrow> Inr (seen, map u32 [group_start..<group_end]))"

definition score_candidate ::
  "'m resident_store \<Rightarrow> (nat list \<Rightarrow> nat list \<Rightarrow> f64 \<Rightarrow> f64 option) \<Rightarrow> nat \<Rightarrow> nat \<Rightarrow> f64 \<Rightarrow> name_query \<Rightarrow> nat \<Rightarrow>
   nat \<Rightarrow> hit_graph \<times> name_query_scratch \<Rightarrow> (hit_graph \<times> name_query_scratch) result" where
  "score_candidate st similarity seed seed_chain threshold q required key_index state =
     res_bind (or_panic (idx (rs_name_keys_by_len st) key_index)) (\<lambda>name_id.
       if name_id = qn_id q then Inr state
       else
         res_bind (store_string st name_id) (\<lambda>cand_text.
         res_bind (or_panic (key_chars st key_index)) (\<lambda>cand_sorted.
           if \<not> sorted_overlap_at_least (qn_sorted q) cand_sorted required then Inr state
           else (case similarity (nq_query_chars (snd state)) (chars cand_text) (f64_clamp threshold 0 1) of
                None \<Rightarrow> Inr state
              | Some score \<Rightarrow> emit_into st seed seed_chain (name_id, score) state))))"

definition emit_group ::
  "'m resident_store \<Rightarrow> (nat list \<Rightarrow> nat list \<Rightarrow> f64 \<Rightarrow> f64 option) \<Rightarrow> nat \<Rightarrow> nat \<Rightarrow> f64 \<Rightarrow> name_query \<Rightarrow> nat \<Rightarrow> nat \<Rightarrow> nat \<Rightarrow>
   hit_graph \<times> name_query_scratch \<Rightarrow> (hit_graph \<times> name_query_scratch) result" where
  "emit_group st similarity seed seed_chain threshold q cand_len group_start group_end state =
     (let required = minimum_multiset_overlap (qn_len q) cand_len threshold;
          (graph, scratch) = state
      in res_bind (group_candidates st q required group_start group_end (nq_candidate_seen scratch)) (\<lambda>(seen, candidates).
         let candidates = sort candidates
         in res_fold (score_candidate st similarity seed seed_chain threshold q required) candidates
              (graph, scratch\<lparr>nq_candidate_seen := seen, nq_candidates := candidates\<rparr>)))"

section \<open>The groups of the window\<close>

text \<open>A group has at least its first member, whatever the order of the list.\<close>

lemma partition_point_pos:
  assumes "xs \<noteq> []" "P (hd xs)"
  shows "0 < partition_point P xs"
proof -
  let ?f = "\<lambda>i. if P (xs ! i) then OrdLess else OrdGreater"
  have first: "P (xs ! 0)" using assms by (simp add: hd_conv_nth)
  show ?thesis
  proof (cases "bisect ?f 0 (length xs) = 0")
    case True
    with first assms(1) show ?thesis by (simp add: partition_point_def binary_search_by_def)
  next
    case False
    with assms(1) show ?thesis by (simp add: partition_point_def binary_search_by_def Let_def)
  qed
qed

lemma res_bind_cong [fundef_cong]:
  "r = r' \<Longrightarrow> (\<And>x. r' = Inr x \<Longrightarrow> f x = g x) \<Longrightarrow> res_bind r f = res_bind r' g"
  by (cases r') simp_all

function emit_groups ::
  "'m resident_store \<Rightarrow> (nat list \<Rightarrow> nat list \<Rightarrow> f64 \<Rightarrow> f64 option) \<Rightarrow> nat \<Rightarrow> nat \<Rightarrow> f64 \<Rightarrow> name_query \<Rightarrow> nat \<Rightarrow> nat \<Rightarrow>
   hit_graph \<times> name_query_scratch \<Rightarrow> (hit_graph \<times> name_query_scratch) result" where
  "emit_groups st similarity seed seed_chain threshold q hi lo state =
     (if lo < hi
      then (case Csr.slice (rs_name_key_char_lens st) lo hi of
          None \<Rightarrow> Inl Panic
        | Some [] \<Rightarrow> Inl Panic
        | Some (cand_len # others) \<Rightarrow>
            let stop = partition_point (\<lambda>len. len = cand_len) (cand_len # others) + lo
            in res_bind (emit_group st similarity seed seed_chain threshold q cand_len lo stop state)
                 (emit_groups st similarity seed seed_chain threshold q hi stop))
      else Inr state)"
  by pat_completeness auto
termination
proof (relation "measure (\<lambda>(_, _, _, _, _, _, hi, lo, _). hi - lo)")
  fix lo hi cand_len stop :: nat and others
  assume "lo < hi" "stop = partition_point (\<lambda>len. len = cand_len) (cand_len # others) + lo"
  moreover have "0 < partition_point (\<lambda>len. len = cand_len) (cand_len # others)" by (rule partition_point_pos) simp_all
  ultimately show "((st, similarity, seed, seed_chain, threshold, q, hi, stop, x),
      (st, similarity, seed, seed_chain, threshold, q, hi, lo, state)) \<in>
      measure (\<lambda>(_, _, _, _, _, _, hi, lo, _). hi - lo)" for st similarity seed seed_chain threshold q x state
    by simp
qed simp

declare emit_groups.simps [simp del]

section \<open>One query\<close>

definition prepare_query :: "'m resident_store \<Rightarrow> nat \<Rightarrow> string \<Rightarrow> name_query_scratch \<Rightarrow> (name_query \<times> name_query_scratch) result" where
  "prepare_query st query_id query_text scratch =
     res_bind
       (case map_of (rs_name_key_positions st) query_id of
          Some index \<Rightarrow>
            res_bind (or_panic (idx (rs_name_key_char_lens st) index)) (\<lambda>len.
            res_bind (or_panic (key_chars st index)) (\<lambda>sorted_chars.
              Inr (\<lparr>qn_id = query_id, qn_len = len, qn_sorted = sorted_chars, qn_tokens = key_tokens st index\<rparr>, scratch)))
        | None \<Rightarrow>
            let sorted_chars = sort (chars query_text)
            in Inr (\<lparr>qn_id = query_id, qn_len = char_len_fast query_text, qn_sorted = sorted_chars, qn_tokens = None\<rparr>,
                 scratch\<lparr>nq_query_sorted := sorted_chars\<rparr>))
       (\<lambda>(q, scratch). Inr (q, scratch\<lparr>nq_query_chars := chars query_text\<rparr>))"

definition emit_for_query ::
  "'m resident_store \<Rightarrow> (nat list \<Rightarrow> nat list \<Rightarrow> f64 \<Rightarrow> f64 option) \<Rightarrow> nat \<Rightarrow> nat \<Rightarrow> nat \<Rightarrow> string \<Rightarrow> f64 \<Rightarrow>
   hit_graph \<times> name_query_scratch \<Rightarrow> (hit_graph \<times> name_query_scratch) result" where
  "emit_for_query st similarity seed seed_chain query_id query_text threshold state =
     (let (graph, scratch) = state
      in res_bind (prepare_query st query_id query_text scratch) (\<lambda>(q, scratch).
         res_bind (emit_into st seed seed_chain (query_id, 1) (graph, scratch)) (\<lambda>(graph, scratch).
           if 1 < threshold \<or> threshold = NaN then Inr (graph, scratch)
           else if rs_name_keys_by_len st = [] then Inr (graph, scratch)
           else
             let lo = window_start (rs_name_key_char_lens st) (qn_len q) threshold;
                 hi = window_end (rs_name_key_char_lens st) (qn_len q) threshold;
                 scratch = scratch\<lparr>nq_candidate_seen := begin_query (length (rs_name_keys_by_len st)) (nq_candidate_seen scratch)\<rparr>
             in emit_groups st similarity seed seed_chain threshold q hi lo (graph, scratch))))"

section \<open>The query of a seed\<close>

datatype name_query_poll = NamePollStart | NamePollQuery nat

definition parallel_name_query_chunk :: nat where
  "parallel_name_query_chunk = 8"

definition collect_query_id :: "'m resident_store \<Rightarrow> nat \<Rightarrow> nat set \<times> nat list \<Rightarrow> (nat set \<times> nat list) result" where
  "collect_query_id st ni acc =
     (let (seen, ids) = acc
      in res_bind (or_panic (idx (rs_nfts st) ni)) (\<lambda>nft.
         case nf_name_id nft of
           None \<Rightarrow> Inr acc
         | Some name_id \<Rightarrow>
             res_bind (store_string st name_id) (\<lambda>name.
               Inr (if is_usable_name name \<and> name_id \<notin> seen then (insert name_id seen, ids @ [name_id]) else acc))))"

definition seed_query_ids :: "'m resident_store \<Rightarrow> nat \<Rightarrow> contract \<Rightarrow> bool \<Rightarrow> (nat set \<times> nat list) result" where
  "seed_query_ids st seed contract seed_is_evm =
     (if seed_is_evm
      then Inr ({}, case ct_name_id contract of Some name_id \<Rightarrow> [name_id] | None \<Rightarrow> [])
      else res_fold (collect_query_id st) (unwrap_or [] (csr_values_for (rs_contract_nft_csr st) seed)) ({}, []))"

definition run_query ::
  "(name_query_poll \<Rightarrow> bool) \<Rightarrow> 'm resident_store \<Rightarrow> (nat list \<Rightarrow> nat list \<Rightarrow> f64 \<Rightarrow> f64 option) \<Rightarrow> nat \<Rightarrow> nat \<Rightarrow> f64 \<Rightarrow> nat \<Rightarrow>
   hit_graph \<times> name_query_scratch \<Rightarrow> (hit_graph \<times> name_query_scratch) result" where
  "run_query cancelled st similarity seed seed_chain threshold query_id state =
     res_bind (check_cancelled (cancelled (NamePollQuery query_id))) (\<lambda>_.
     res_bind (store_string st query_id) (\<lambda>query_text.
       emit_for_query st similarity seed seed_chain query_id query_text threshold state))"

text \<open>The edges of a chunk whose candidate has not been emitted by an earlier one.\<close>

definition merge_edge :: "hit_edge \<Rightarrow> emission \<Rightarrow> emission" where
  "merge_edge edge acc =
     (let (graph, emitted) = acc; key = (he_candidate_contract edge, he_secondary_chain edge)
      in if key \<in> emitted then acc else (snd (push_edge edge graph), insert key emitted))"

text \<open>A worker keeps its scratch between the chunks it takes; \<open>worker_scratch\<close> is the one a chunk finds.\<close>

definition query_chunk ::
  "(name_query_poll \<Rightarrow> bool) \<Rightarrow> 'm resident_store \<Rightarrow> (nat list \<Rightarrow> nat list \<Rightarrow> f64 \<Rightarrow> f64 option) \<Rightarrow> nat \<Rightarrow> nat \<Rightarrow> f64 \<Rightarrow>
   name_query_scratch \<Rightarrow> nat list \<Rightarrow> hit_graph result" where
  "query_chunk cancelled st similarity seed seed_chain threshold worker_scratch ids =
     res_bind (res_fold (run_query cancelled st similarity seed seed_chain threshold) ids
         (hit_graph_new, worker_scratch\<lparr>nq_emitted := {}\<rparr>))
       (\<lambda>(graph, _). Inr graph)"

definition query_name_for_seed_with_scratch ::
  "bool \<Rightarrow> (nat list \<Rightarrow> name_query_scratch) \<Rightarrow> (name_query_poll \<Rightarrow> bool) \<Rightarrow> 'm resident_store \<Rightarrow>
   (nat list \<Rightarrow> nat list \<Rightarrow> f64 \<Rightarrow> f64 option) \<Rightarrow> nat \<Rightarrow> f64 \<Rightarrow> hit_graph \<times> name_query_scratch \<Rightarrow>
   (hit_graph \<times> name_query_scratch) result" where
  "query_name_for_seed_with_scratch par worker_scratch cancelled st similarity seed threshold state =
     (let (graph, scratch) = state
      in res_bind (check_cancelled (cancelled NamePollStart)) (\<lambda>_.
         case idx (rs_contracts st) seed of
           None \<Rightarrow> invalid (''unknown seed contract id '' @ print_decimal seed)
         | Some contract \<Rightarrow>
             res_bind (on_evm_chain st contract) (\<lambda>seed_is_evm.
             res_bind (seed_query_ids st seed contract seed_is_evm) (\<lambda>(seen, ids).
             let seed_chain = ct_chain_id contract;
                 scratch = scratch\<lparr>nq_query_ids := ids, nq_query_id_seen := seen, nq_emitted := {}\<rparr>
             in if length ids > parallel_name_query_chunk \<and> par
                then res_bind
                  (par_collect (map (\<lambda>chunk. query_chunk cancelled st similarity seed seed_chain threshold (worker_scratch chunk) chunk)
                     (chunks_of parallel_name_query_chunk ids)))
                  (\<lambda>graphs.
                     let (graph, emitted) = fold merge_edge (concat (map into_edges graphs)) (graph, nq_emitted scratch)
                     in Inr (graph, scratch\<lparr>nq_emitted := emitted\<rparr>))
                else res_fold (run_query cancelled st similarity seed seed_chain threshold) ids (graph, scratch)))))"

definition query_name_for_seed ::
  "bool \<Rightarrow> (nat list \<Rightarrow> name_query_scratch) \<Rightarrow> (name_query_poll \<Rightarrow> bool) \<Rightarrow> 'm resident_store \<Rightarrow>
   (nat list \<Rightarrow> nat list \<Rightarrow> f64 \<Rightarrow> f64 option) \<Rightarrow> nat \<Rightarrow> f64 \<Rightarrow> hit_graph \<Rightarrow> hit_graph result" where
  "query_name_for_seed par worker_scratch cancelled st similarity seed threshold graph =
     res_bind (query_name_for_seed_with_scratch par worker_scratch cancelled st similarity seed threshold
         (graph, for_worker_pool (length (rs_name_keys_by_len st)) 1))
       (\<lambda>(graph, _). Inr graph)"

end
