(* ===== verification/JaroWinkler.thy ===== *)
theory JaroWinkler
  imports NameBounds NameTokens
begin

text \<open>
  The Jaro-Winkler similarity, the metric for which the bounds of
  \<open>src/analysis2/crates/core/src/dedup/name/bounds.rs\<close> are made.  The comparator itself is a third-party
  crate and stays a parameter; \<open>is_jaro_winkler\<close> states what its documentation promises: a score is the value
  of the metric, up to an error of \<open>10 ^ (-13)\<close> for the floating-point evaluation.  From it follows that the
  bounds of the code, in rounded arithmetic, lose nothing (\<open>jaro_winkler_bounds\<close>).
\<close>

section \<open>The metric\<close>

text \<open>A matching pairs equal characters, each at most once.\<close>

definition char_matching :: "nat list \<Rightarrow> nat list \<Rightarrow> (nat \<times> nat) set \<Rightarrow> bool" where
  "char_matching as bs M \<longleftrightarrow>
     M \<subseteq> {..<length as} \<times> {..<length bs} \<and> inj_on fst M \<and> inj_on snd M \<and> (\<forall>(i, j) \<in> M. as ! i = bs ! j)"

fun common_prefix :: "nat list \<Rightarrow> nat list \<Rightarrow> nat" where
  "common_prefix (a # as) (b # bs) = (if a = b then Suc (common_prefix as bs) else 0)"
| "common_prefix _ _ = 0"

text \<open>Jaro: \<open>m\<close> matches and \<open>t\<close> transpositions of two texts of lengths \<open>l\<close> and \<open>r\<close>.\<close>

definition jaro_metric :: "nat \<Rightarrow> nat \<Rightarrow> nat \<Rightarrow> nat \<Rightarrow> rat" where
  "jaro_metric l r m t =
     (if l = 0 \<and> r = 0 then 1 else if m = 0 then 0
      else (of_nat m / of_nat l + of_nat m / of_nat r + of_nat (m - t) / of_nat m) / 3)"

text \<open>Winkler: above 0.7, a bonus of a tenth of the distance to 1 for each of up to four first characters.\<close>

definition winkler_bonus :: "rat \<Rightarrow> nat \<Rightarrow> rat" where
  "winkler_bonus j p = (if 7 / 10 < j then j + of_nat p / 10 * (1 - j) else j)"

definition jaro_winkler_metric :: "nat list \<Rightarrow> nat list \<Rightarrow> nat \<Rightarrow> nat \<Rightarrow> rat" where
  "jaro_winkler_metric as bs m t =
     winkler_bonus (jaro_metric (length as) (length bs) m t) (min (common_prefix as bs) 4)"

definition is_jaro_winkler :: "(nat list \<Rightarrow> nat list \<Rightarrow> f64 \<Rightarrow> f64 option) \<Rightarrow> f64 \<Rightarrow> bool" where
  "is_jaro_winkler similarity cutoff \<longleftrightarrow>
     (\<forall>as bs score. similarity as bs cutoff = Some score \<longrightarrow> cutoff \<le> score \<and>
        (\<exists>s M t. score = Fin s \<and> char_matching as bs M \<and> t \<le> card M \<and>
           \<bar>s - jaro_winkler_metric as bs (card M) t\<bar> \<le> 1 / 10 ^ 13))"

section \<open>Matches and the overlap\<close>

lemma char_matching_finite: "char_matching as bs M \<Longrightarrow> finite M"
  unfolding char_matching_def by (meson finite_SigmaI finite_lessThan finite_subset)

lemma image_positions_subset:
  assumes "I \<subseteq> {..<length xs}"
  shows "image_mset ((!) xs) (mset_set I) \<subseteq># mset xs"
proof -
  have "image_mset ((!) xs) (mset_set I) \<subseteq># image_mset ((!) xs) (mset_set {..<length xs})"
    by (intro image_mset_subseteq_mono subset_imp_msubset_mset_set assms finite_lessThan)
  also have "\<dots> = mset (map ((!) xs) [0..<length xs])"
    by (simp add: atLeast0LessThan mset_upt)
  finally show ?thesis by (simp add: map_nth)
qed

lemma matching_overlap:
  assumes "char_matching as bs M"
  shows "card M \<le> overlap (sort as) (sort bs)"
proof -
  let ?N = "image_mset (\<lambda>p. as ! fst p) (mset_set M)"
  have inj: "inj_on fst M" "inj_on snd M" and eq: "\<forall>p \<in> M. as ! fst p = bs ! snd p"
    and sub: "fst ` M \<subseteq> {..<length as}" "snd ` M \<subseteq> {..<length bs}"
    using assms by (auto simp: char_matching_def)
  have "?N = image_mset ((!) as) (mset_set (fst ` M))"
    using inj(1) by (simp add: multiset.map_comp comp_def flip: image_mset_mset_set)
  then have left: "?N \<subseteq># mset as" using image_positions_subset [OF sub(1)] by simp
  have "?N = image_mset (\<lambda>p. bs ! snd p) (mset_set M)"
    using eq char_matching_finite [OF assms] by (intro image_mset_cong) simp
  also have "\<dots> = image_mset ((!) bs) (mset_set (snd ` M))"
    using inj(2) by (simp add: multiset.map_comp comp_def flip: image_mset_mset_set)
  finally have right: "?N \<subseteq># mset bs" using image_positions_subset [OF sub(2)] by simp
  from left right have "?N \<subseteq># mset as \<inter># mset bs" by simp
  then have "size ?N \<le> size (mset as \<inter># mset bs)" by (rule size_mset_mono)
  then show ?thesis by (simp add: overlap_def)
qed

lemma common_prefix_overlap: "common_prefix as bs \<le> overlap (sort as) (sort bs)"
proof -
  have "common_prefix as bs \<le> size (mset as \<inter># mset bs)"
    by (induction as bs rule: common_prefix.induct) auto
  then show ?thesis by (simp add: overlap_def)
qed

section \<open>Rounding errors from below\<close>

text \<open>One unit is \<open>2 ^ (-53)\<close>, half the distance of the values around 1.\<close>

definition unit_error :: rat where
  "unit_error = 1 / 2 ^ 53"

lemma unit_error_pos [simp]: "0 < unit_error" "0 \<le> unit_error"
  by (simp_all add: unit_error_def)

lemma round_below_2:
  assumes "0 \<le> q" "q < 2"
  shows "q - unit_error \<le> round_rat q" "round_rat q \<le> q + unit_error"
proof -
  have "\<bar>round_rat q - q\<bar> \<le> pow2 (-52) / 2" using assms by (intro round_rat_error) (simp_all add: pow2_def)
  moreover have "pow2 (-52) / 2 = unit_error" by (simp add: pow2_def unit_error_def)
  ultimately show "q - unit_error \<le> round_rat q" "round_rat q \<le> q + unit_error" by linarith+
qed

lemma round_below_4:
  assumes "0 \<le> q" "q < 4"
  shows "q - 2 * unit_error \<le> round_rat q"
proof -
  have "\<bar>round_rat q - q\<bar> \<le> pow2 (-51) / 2" using assms by (intro round_rat_error) (simp_all add: pow2_def)
  moreover have "pow2 (-51) / 2 = 2 * unit_error" by (simp add: pow2_def unit_error_def)
  ultimately show ?thesis by linarith
qed

lemma round_relative:
  assumes "1 \<le> q"
  shows "\<bar>round_rat q - q\<bar> \<le> q * unit_error"
proof -
  have pos: "0 < q" using assms by simp
  have b: "pow2 (ilog2 q) \<le> q" "q < pow2 (ilog2 q + 1)" using ilog2_bounds [of q] assms by simp_all
  have "pow2 0 < pow2 (ilog2 q + 1)" using b(2) assms by simp
  then have e: "0 \<le> ilog2 q" unfolding pow2_less_iff by simp
  have "\<bar>round_rat q - q\<bar> \<le> pow2 (ilog2 q - 52) / 2"
    using b(2) e pos by (intro round_rat_error) (simp_all add: algebra_simps)
  also have "\<dots> = pow2 (ilog2 q) * unit_error" unfolding pow2_diff by (simp add: pow2_def unit_error_def)
  also have "\<dots> \<le> q * unit_error" using b(1) by (intro mult_right_mono) simp_all
  finally show ?thesis .
qed

lemma nat_rat_relative: "of_nat n - of_nat n * unit_error \<le> nat_rat n" "nat_rat n \<le> of_nat n + of_nat n * unit_error"
  using round_relative [of "of_nat n"] by (cases n; simp add: nat_rat_def abs_le_iff)+

lemma ratio_below:
  assumes "m \<le> n" "0 < n"
  shows "of_nat m / of_nat n - 3 * unit_error \<le> round_rat (nat_rat m / nat_rat n)"
proof -
  let ?x = "of_nat m / of_nat n :: rat"
  have x: "0 \<le> ?x" "?x \<le> 1" using assms by simp_all
  have n: "0 < (of_nat n :: rat)" "0 < nat_rat n" using assms(2) nat_rat_pos [of n] by simp_all
  have "(?x - 2 * unit_error) * nat_rat n \<le> nat_rat m"
  proof (cases "0 \<le> ?x - 2 * unit_error")
    case True
    have "(?x - 2 * unit_error) * nat_rat n \<le> (?x - 2 * unit_error) * (of_nat n * (1 + unit_error))"
      using True nat_rat_relative(2) [of n] by (intro mult_left_mono) (simp_all add: algebra_simps)
    also have "\<dots> = of_nat m * (1 - unit_error) - of_nat n * (2 * unit_error * (1 - ?x) + 2 * unit_error * unit_error)"
      using n(1) by (simp add: field_simps)
    also have "\<dots> \<le> of_nat m * (1 - unit_error)"
      using x n by (simp add: less_imp_le)
    also have "\<dots> \<le> nat_rat m" using nat_rat_relative(1) [of m] by (simp add: algebra_simps)
    finally show ?thesis .
  next
    case False
    then have "(?x - 2 * unit_error) * nat_rat n \<le> 0" using n(2) by (simp add: mult_nonpos_nonneg)
    then show ?thesis using nat_rat_nonneg order_trans by blast
  qed
  then have below: "?x - 2 * unit_error \<le> nat_rat m / nat_rat n" using n(2) by (simp add: pos_le_divide_eq)
  have "0 \<le> nat_rat m / nat_rat n" "nat_rat m / nat_rat n < 2"
    using nat_rat_mono [OF assms(1)] n(2) by (simp_all add: pos_divide_less_eq)
  from round_below_2 [OF this] below show ?thesis by linarith
qed

text \<open>From a lower bound of the rounded sum of the ratios to one of the value with its bonus.\<close>

lemma jaro_below:
  assumes "0 \<le> s" "s \<le> 2" "S - 8 * unit_error \<le> s"
  shows "(S + 1) / 3 - 5 * unit_error \<le> jaro_rat s"
proof -
  have sum: "s + 1 - 2 * unit_error \<le> round_rat (s + 1)" using assms by (intro round_below_4) simp_all
  have "round_rat (s + 1) \<le> 3" using round_rat_mono [of "s + 1" 3] assms(2) by (simp add: round_rat_const)
  then have "round_rat (s + 1) / 3 - unit_error \<le> jaro_rat s"
    unfolding jaro_rat_def using round_below_2 [of "round_rat (s + 1) / 3"] assms(1) by (simp add: round_rat_nonneg)
  then have "round_rat (s + 1) \<le> 3 * jaro_rat s + 3 * unit_error" by (simp add: field_simps)
  with sum assms(3) unit_error_pos(1) have "S + 1 \<le> 3 * jaro_rat s + 15 * unit_error" by linarith
  then show ?thesis by (simp add: field_simps)
qed

lemma weight_below: "p \<le> 4 \<Longrightarrow> 0 \<le> p \<Longrightarrow> p / 10 - 5 * unit_error \<le> weight p"
proof -
  assume p: "p \<le> 4" "0 \<le> p"
  have tenth_below: "1 / 10 - unit_error \<le> round_rat (1 / 10)" using round_below_2 [of "1 / 10"] by simp
  have product: "(1 / 10 - unit_error) * p \<le> round_rat (1 / 10) * p" using tenth_below p(2) by (rule mult_right_mono)
  have "round_rat (1 / 10) * p \<le> 7 / 64 * 4" using p tenth by (intro mult_mono) simp_all
  then have "round_rat (1 / 10) * p - unit_error \<le> weight p"
    unfolding weight_def using round_below_2 [of "round_rat (1 / 10) * p"] p tenth(1) by simp
  moreover have "unit_error * p \<le> unit_error * 4" using p(1) by (intro mult_left_mono) (simp_all add: less_imp_le)
  moreover have "(1 / 10 - unit_error) * p = p / 10 - unit_error * p" by (simp add: algebra_simps)
  ultimately show ?thesis using product by linarith
qed

lemma boost_below:
  assumes j: "round_rat j = j" "1 / 2 \<le> j" "j \<le> 1" and k: "0 \<le> k" "k < 1 / 2"
    and J: "J - 5 * unit_error \<le> j" "0 \<le> J" "J \<le> 1" and P: "P - 5 * unit_error \<le> k"
  shows "J + P * (1 - J) - 13 * unit_error \<le> boost j k"
proof -
  have exact: "round_rat (1 - j) = 1 - j" by (rule complement_exact(2) [OF j])
  have "k * (1 - j) \<le> 1 / 2 * 1" using j k by (intro mult_mono) simp_all
  then have product: "k * (1 - j) - unit_error \<le> round_rat (k * (1 - j))" "0 \<le> k * (1 - j)" "k * (1 - j) < 2"
    using round_below_2 [of "k * (1 - j)"] j k by simp_all
  have "round_rat (k * (1 - j)) \<le> 1"
    using round_rat_mono [of "k * (1 - j)" 1] \<open>k * (1 - j) \<le> 1 / 2 * 1\<close> by (simp add: round_rat_const)
  then have "j + round_rat (k * (1 - j)) - 2 * unit_error \<le> boost j k"
    unfolding boost_def exact using j product by (intro round_below_4) (simp_all add: round_rat_nonneg)
  then have total: "j + k * (1 - j) - 3 * unit_error \<le> boost j k" using product(1) by linarith
  have u: "0 < unit_error" by (rule unit_error_pos)
  have "(1 - k) * (J - 5 * unit_error) \<le> (1 - k) * j" using J(1) k by (intro mult_left_mono) simp_all
  then have "(J - 5 * unit_error) + k * (1 - (J - 5 * unit_error)) \<le> j + k * (1 - j)" by (simp add: algebra_simps)
  moreover have "(P - 5 * unit_error) * (1 - J) \<le> k * (1 - J)" using P J(3) by (intro mult_right_mono) simp_all
  moreover have "0 \<le> k * (5 * unit_error)" using k(1) u by simp
  moreover have "5 * unit_error * (1 - J) \<le> 5 * unit_error * 1" using J u by (intro mult_left_mono) simp_all
  ultimately have "J + P * (1 - J) - 10 * unit_error \<le> j + k * (1 - j)" by (simp add: algebra_simps)
  with total show ?thesis by linarith
qed

section \<open>The bounds from below\<close>

text \<open>An upper limit of the metric: the Jaro value \<open>J\<close> of the best matching with the bonus of \<open>p\<close> characters.\<close>

lemma below_one: "x \<le> 1 \<Longrightarrow> x - 13 * unit_error \<le> 1"
  using unit_error_pos(1) by linarith

lemma bonus_small:
  assumes "x \<le> J + b" "b \<le> 4 / 10 * (1 - J)" "J \<le> 7 / 10 + 6 * unit_error"
  shows "x \<le> 82 / 100 + 6 * unit_error"
proof -
  have "4 / 10 * (1 - J) = 4 / 10 - 4 / 10 * J" by (simp add: right_diff_distrib)
  with assms unit_error_pos(1) show ?thesis by linarith
qed

lemma bonus_le_one:
  fixes J :: rat
  assumes "J \<le> 1" "p \<le> 4"
  shows "J + of_nat p / 10 * (1 - J) \<le> 1"
proof -
  have "(of_nat p :: rat) / 10 * (1 - J) \<le> 1 * (1 - J)"
    using assms(1) of_nat_mono [OF assms(2), where 'a = rat] by (intro mult_right_mono) simp_all
  then show ?thesis by simp
qed

lemma overlap_rat_below:
  assumes len: "is_len l" "is_len r" "c \<le> l" "c \<le> r" "0 < c" and p: "p \<le> c" "p \<le> 4"
  defines "J \<equiv> (of_nat c / of_nat l + of_nat c / of_nat r + 1) / 3 :: rat"
  shows "J \<le> 7 / 10 + 6 * unit_error \<or> J + of_nat p / 10 * (1 - J) - 13 * unit_error \<le> overlap_rat l r c"
proof -
  have pos: "0 < l" "0 < r" using len by simp_all
  let ?a = "round_rat (nat_rat c / nat_rat l)" and ?b = "round_rat (nat_rat c / nat_rat r)"
  let ?s = "round_rat (?a + ?b)" and ?k = "weight (min (nat_rat c) (of_nat (min (min l r) 4)))"
  have c: "is_len c" using len by (simp add: is_len_def)
  note a = ratio_Fin [OF c len(1,3) pos(1)] and b = ratio_Fin [OF c len(2,4) pos(2)]
  have S: "0 \<le> (of_nat c / of_nat l :: rat)" "(of_nat c / of_nat l :: rat) \<le> 1" "0 \<le> (of_nat c / of_nat r :: rat)" "(of_nat c / of_nat r :: rat) \<le> 1"
    using len by simp_all
  have sum: "of_nat c / of_nat l + of_nat c / of_nat r - 8 * unit_error \<le> ?s"
    using ratio_below [OF len(3) pos(1)] ratio_below [OF len(4) pos(2)] round_below_4 [of "?a + ?b"] a b unit_error_pos(1) by linarith
  note s = overlap_jaro(2,3) [OF len(1-4) pos]
  have below: "J - 5 * unit_error \<le> jaro_rat ?s" unfolding J_def by (rule jaro_below [OF s sum])
  have J: "0 \<le> J" "J \<le> 1" using S by (simp_all add: J_def)
  have "of_nat p \<le> nat_rat c" using nat_rat_mono [OF p(1)] nat_rat_small [of p] p(2) by simp
  moreover have "(of_nat p :: rat) \<le> of_nat (min (min l r) 4)" using p len by (intro of_nat_mono) simp
  ultimately have "weight (of_nat p) \<le> ?k" by (intro weight_mono) simp
  moreover have "of_nat p / 10 - 5 * unit_error \<le> weight (of_nat p)"
    using weight_below [of "of_nat p"] of_nat_mono [OF p(2), where 'a = rat] by simp
  ultimately have k: "of_nat p / 10 - 5 * unit_error \<le> ?k" by linarith
  have k_range: "0 \<le> ?k" "?k < 1 / 2" by (rule weight_range; simp)+
  show ?thesis
  proof (cases "round_rat (7 / 10) < jaro_rat ?s")
    case True
    have "J + of_nat p / 10 * (1 - J) - 13 * unit_error \<le> boost (jaro_rat ?s) ?k"
      using True seven_tenths jaro_rat_le [OF s(2)] by (intro boost_below k_range below J k) simp_all
    then have "J + of_nat p / 10 * (1 - J) - 13 * unit_error \<le> min (boost (jaro_rat ?s) ?k) 1"
      by (rule min.boundedI) (rule below_one [OF bonus_le_one [OF J(2) p(2)]])
    then show ?thesis using True unfolding overlap_rat_def Let_def by simp
  next
    case False
    have "round_rat (7 / 10) \<le> 7 / 10 + unit_error" by (rule round_below_2) simp_all
    with False below show ?thesis by linarith
  qed
qed

lemma length_rat_below:
  assumes "m \<le> n" "0 < m" "p \<le> 4"
  defines "J \<equiv> (1 + of_nat m / of_nat n + 1) / 3 :: rat"
  shows "J + of_nat p / 10 * (1 - J) - 13 * unit_error \<le> length_rat (round_rat (nat_rat m / nat_rat n)) p"
proof -
  have pos: "0 < n" using assms by simp
  let ?r = "round_rat (nat_rat m / nat_rat n)"
  let ?s = "round_rat (1 + ?r)"
  have "0 \<le> nat_rat m / nat_rat n" "nat_rat m / nat_rat n \<le> 1"
    using nat_rat_mono [OF assms(1)] nat_rat_pos [OF pos] by simp_all
  then have r: "0 \<le> ?r" "?r \<le> 1" using round_rat_mono [of "nat_rat m / nat_rat n" 1] by (simp_all add: round_rat_nonneg round_rat_const)
  note s = sum_ratio [OF r]
  have sum: "1 + of_nat m / of_nat n - 8 * unit_error \<le> ?s"
    using ratio_below [OF assms(1) pos] round_below_4 [of "1 + ?r"] r unit_error_pos(1) by linarith
  have p: "(of_nat p :: rat) \<le> 4" using of_nat_mono [OF assms(3), where 'a = rat] by simp
  have ratio: "0 \<le> (of_nat m / of_nat n :: rat)" "(of_nat m / of_nat n :: rat) \<le> 1" using assms by simp_all
  have J: "0 \<le> J" "J \<le> 1" using ratio by (simp_all add: J_def)
  have "J + of_nat p / 10 * (1 - J) - 13 * unit_error \<le> boost (jaro_rat ?s) (weight (of_nat p))"
  proof (rule boost_below)
    show "J - 5 * unit_error \<le> jaro_rat ?s" unfolding J_def using s(1) by (intro jaro_below s(2) sum) simp
    show "of_nat p / 10 - 5 * unit_error \<le> weight (of_nat p)" using p by (intro weight_below) simp_all
    show "0 \<le> weight (of_nat p)" "weight (of_nat p) < 1 / 2" using p by (intro weight_range; simp)+
  qed (use J jaro_rat_ge [OF s(1)] jaro_rat_le [OF s(2)] in simp_all)
  then show ?thesis unfolding length_rat_def by (rule min.boundedI) (rule below_one [OF bonus_le_one [OF J(2) assms(3)]])
qed

text \<open>The metric stays below such a limit.\<close>

lemma winkler_bonus_le:
  assumes "j \<le> J" "J \<le> 1" "p \<le> 4"
  shows "winkler_bonus j p \<le> J + of_nat p / 10 * (1 - J)"
proof -
  have p: "(of_nat p :: rat) / 10 \<le> 1" using of_nat_mono [OF assms(3), where 'a = rat] by simp
  have "(1 - of_nat p / 10) * j \<le> (1 - of_nat p / 10) * J" using assms(1) p by (intro mult_left_mono) simp_all
  then have "j + of_nat p / 10 * (1 - j) \<le> J + of_nat p / 10 * (1 - J)" by (simp add: algebra_simps diff_divide_distrib)
  moreover have "0 \<le> of_nat p / 10 * (1 - j)" using assms(1,2) by simp
  ultimately show ?thesis by (simp add: winkler_bonus_def)
qed

lemma jaro_metric_le:
  assumes "m \<le> c" "t \<le> m" "0 < m" "m \<le> l"
  shows "jaro_metric l r m t \<le> (of_nat c / of_nat l + of_nat c / of_nat r + 1) / 3"
proof -
  have "(of_nat m :: rat) / of_nat l \<le> of_nat c / of_nat l" "(of_nat m :: rat) / of_nat r \<le> of_nat c / of_nat r"
    using assms(1) by (intro divide_right_mono; simp)+
  moreover have "(of_nat (m - t) :: rat) / of_nat m \<le> 1" using assms(3) by simp
  ultimately have "of_nat m / of_nat l + of_nat m / of_nat r + of_nat (m - t) / of_nat m \<le>
      (of_nat c / of_nat l + of_nat c / of_nat r + 1 :: rat)" by linarith
  then have "(of_nat m / of_nat l + of_nat m / of_nat r + of_nat (m - t) / of_nat m) / 3 \<le>
      (of_nat c / of_nat l + of_nat c / of_nat r + 1 :: rat) / 3" by (rule divide_right_mono) simp
  then show ?thesis using assms(3,4) unfolding jaro_metric_def by simp
qed

lemma reaches_close: "q - u \<le> 1 / 10 ^ 12 \<Longrightarrow> reaches_threshold (Fin u) (Fin q)"
  using round_f64_mono [of "q - u" "1 / 10 ^ 12"] by (simp add: reaches_threshold_def rounding_epsilon_def minus_f64_def)

section \<open>The bounds lose nothing\<close>

lemma jaro_winkler_bounds:
  assumes metric: "is_jaro_winkler similarity threshold" and threshold: "round_f64 (83 / 100) \<le> threshold" "threshold \<le> 1"
    and len: "is_len (length as)" "is_len (length bs)" and hit: "similarity as bs threshold = Some score"
  shows "(length bs = length as \<or> lengths_can_reach (length as) (length bs) threshold) \<and>
    minimum_multiset_overlap (length as) (length bs) threshold \<le> overlap (sort as) (sort bs)"
proof -
  let ?l = "length as" and ?r = "length bs" and ?c = "overlap (sort as) (sort bs)"
  obtain s M t where score: "threshold \<le> score" "score = Fin s" and M: "char_matching as bs M" "t \<le> card M"
    and close: "\<bar>s - jaro_winkler_metric as bs (card M) t\<bar> \<le> 1 / 10 ^ 13"
    using metric hit unfolding is_jaro_winkler_def by blast
  have "round_rat (53 / 64) = 53 / 64" using round_rat_grid [of 53 "-6"] by (simp add: pow2_def)
  then have least: "53 / 64 \<le> round_rat (83 / 100)" using round_rat_mono [of "53 / 64" "83 / 100"] by simp
  have "round_f64 (83 / 100) = Fin (round_rat (83 / 100))" by (rule round_rat_small) simp_all
  then obtain q where q: "threshold = Fin q" "53 / 64 \<le> q" "q \<le> 1"
    using threshold least by (cases threshold) (auto simp: less_eq_f64_def one_f64_def)
  let ?x = "jaro_winkler_metric as bs (card M) t" and ?p = "min (common_prefix as bs) 4"
  have "q \<le> s" using score by (simp add: q(1) less_eq_f64_def)
  then have x: "q - 1 / 10 ^ 13 \<le> ?x" using abs_le_D1 [OF close] by linarith
  have c: "?c \<le> min ?l ?r" using overlap_le [of "sort as" "sort bs"] by simp
  have m: "card M \<le> ?c" by (rule matching_overlap [OF M(1)])
  have p: "?p \<le> ?c" "?p \<le> 4" using common_prefix_overlap [of as bs] by simp_all
  show ?thesis
  proof (cases "?l = 0 \<and> ?r = 0")
    case True
    then show ?thesis by (simp add: minimum_multiset_overlap_def)
  next
    case False
    have "0 < card M"
    proof (rule ccontr)
      assume "\<not> 0 < card M"
      then have "?x = 0" using False by (simp add: jaro_winkler_metric_def jaro_metric_def winkler_bonus_def)
      then show False using x q(2) by simp
    qed
    moreover have "?c \<le> ?l" "?c \<le> ?r" using c by simp_all
    ultimately have pos: "0 < ?c" "0 < ?l" "0 < ?r" using m by linarith+
    have "card M \<le> ?l" using m c by simp
    note jaro = jaro_metric_le [OF m M(2) \<open>0 < card M\<close> this, of ?r]
    define J :: rat where "J = (of_nat ?c / of_nat ?l + of_nat ?c / of_nat ?r + 1) / 3"
    have ratios: "(of_nat ?c :: rat) / of_nat ?l \<le> 1" "(of_nat ?c :: rat) / of_nat ?r \<le> 1" using c by (simp_all add: divide_le_eq_1)
    have J: "J \<le> 1" using ratios by (simp add: J_def)
    have limit: "?x \<le> J + of_nat ?p / 10 * (1 - J)"
      unfolding jaro_winkler_metric_def using jaro J p(2) by (intro winkler_bonus_le) (simp_all add: J_def)
    have "reaches_threshold (optimistic_from_overlap ?l ?r ?c) threshold"
    proof -
      have "\<not> J \<le> 7 / 10 + 6 * unit_error"
      proof
        assume small: "J \<le> 7 / 10 + 6 * unit_error"
        have "(of_nat ?p :: rat) / 10 \<le> 4 / 10" using of_nat_mono [OF p(2), where 'a = rat] by simp
        then have "of_nat ?p / 10 * (1 - J) \<le> 4 / 10 * (1 - J)" using J by (intro mult_right_mono) simp_all
        then have "?x \<le> 82 / 100 + 6 * unit_error" by (rule bonus_small [OF limit _ small])
        then show False using x q(2) by (simp add: unit_error_def)
      qed
      then have "J + of_nat ?p / 10 * (1 - J) - 13 * unit_error \<le> overlap_rat ?l ?r ?c"
        unfolding J_def using overlap_rat_below [OF len _ _ pos(1) p] c by auto
      then have "q - overlap_rat ?l ?r ?c \<le> 1 / 10 ^ 12" using limit x by (simp add: unit_error_def)
      then show ?thesis using overlap_bound_Fin [OF len, of ?c] c pos(1) by (simp add: q(1) reaches_close)
    qed
    then have overlap: "minimum_multiset_overlap ?l ?r threshold \<le> ?c"
      using minimum_overlap_border [OF len, of threshold ?c] pos c q by (simp add: less_f64_def less_eq_f64_def zero_f64_def one_f64_def)
    have "lengths_can_reach ?l ?r threshold"
    proof -
      let ?m = "min ?l ?r" and ?n = "max ?l ?r" and ?p4 = "min (min ?l ?r) 4"
      define K :: rat where "K = (1 + of_nat ?m / of_nat ?n + 1) / 3"
      have "(of_nat ?c :: rat) / of_nat ?l + of_nat ?c / of_nat ?r \<le> of_nat ?m / of_nat ?l + of_nat ?m / of_nat ?r"
        using c by (intro add_mono divide_right_mono of_nat_mono) simp_all
      also have "\<dots> = 1 + of_nat ?m / of_nat ?n" using pos by (simp add: min_def max_def add.commute)
      finally have JK: "J \<le> K" unfolding J_def K_def by (intro divide_right_mono add_right_mono) simp_all
      have K: "K \<le> 1" using pos by (simp add: K_def divide_le_eq_1 le_max_iff_disj less_max_iff_disj)
      have p4: "?p \<le> ?p4" using p c by simp
      have "?x \<le> K + of_nat ?p / 10 * (1 - K)"
        unfolding jaro_winkler_metric_def using jaro JK K p(2) by (intro winkler_bonus_le) (simp_all add: J_def)
      also have "\<dots> \<le> K + of_nat ?p4 / 10 * (1 - K)"
        using of_nat_mono [OF p4, where 'a = rat] K by (intro add_left_mono mult_right_mono divide_right_mono) simp_all
      finally have "?x - 13 * unit_error \<le> K + of_nat ?p4 / 10 * (1 - K) - 13 * unit_error" by (rule diff_right_mono)
      also have "\<dots> \<le> length_rat (round_rat (nat_rat ?m / nat_rat ?n)) ?p4"
        unfolding K_def using pos by (intro length_rat_below) simp_all
      finally have "q - length_rat (round_rat (nat_rat ?m / nat_rat ?n)) ?p4 \<le> 1 / 10 ^ 12" using x by (simp add: unit_error_def)
      then show ?thesis
        unfolding lengths_can_reach_def upper_bound_Fin [OF len pos(2,3)] q(1) by (rule reaches_close)
    qed
    with overlap show ?thesis by simp
  qed
qed

section \<open>A reference implementation\<close>

text \<open>The metric computed exactly and rounded once, with the greedy matching inside the usual window.\<close>

definition match_char :: "nat \<Rightarrow> nat list \<Rightarrow> nat list \<Rightarrow> nat \<Rightarrow> (nat \<times> nat) list \<Rightarrow> (nat \<times> nat) list" where
  "match_char window as bs i found =
     (case List.find (\<lambda>j. j \<notin> snd ` set found \<and> i \<le> j + window \<and> j \<le> i + window \<and> as ! i = bs ! j) [0..<length bs] of
        None \<Rightarrow> found | Some j \<Rightarrow> found @ [(i, j)])"

definition jaro_matches :: "nat list \<Rightarrow> nat list \<Rightarrow> (nat \<times> nat) list" where
  "jaro_matches as bs = fold (match_char (max (length as) (length bs) div 2 - 1) as bs) [0..<length as] []"

definition jaro_transpositions :: "nat list \<Rightarrow> nat list \<Rightarrow> (nat \<times> nat) list \<Rightarrow> nat" where
  "jaro_transpositions as bs found =
     length (filter (\<lambda>(a, b). a \<noteq> b) (zip (map (\<lambda>p. as ! fst p) found) (map ((!) bs) (sort (map snd found))))) div 2"

definition jaro_winkler_reference :: "nat list \<Rightarrow> nat list \<Rightarrow> f64 \<Rightarrow> f64 option" where
  "jaro_winkler_reference as bs cutoff =
     (let found = jaro_matches as bs;
          score = round_f64 (jaro_winkler_metric as bs (length found) (jaro_transpositions as bs found))
      in then_some (cutoff \<le> score) score)"

lemma match_char_ok:
  assumes "char_matching as bs (set found)" "distinct found" "\<forall>p \<in> set found. fst p < i" "i < length as"
  shows "char_matching as bs (set (match_char w as bs i found)) \<and> distinct (match_char w as bs i found) \<and>
    (\<forall>p \<in> set (match_char w as bs i found). fst p < Suc i)"
proof (cases "List.find (\<lambda>j. j \<notin> snd ` set found \<and> i \<le> j + w \<and> j \<le> i + w \<and> as ! i = bs ! j) [0..<length bs]")
  case None
  then show ?thesis using assms less_Suc_eq by (auto simp: match_char_def)
next
  case (Some j)
  then have j: "j < length bs" "j \<notin> snd ` set found" "as ! i = bs ! j" by (auto simp: find_Some_iff)
  have "i \<notin> fst ` set found" using assms(3) by auto
  then show ?thesis
    using assms j Some less_Suc_eq by (auto simp: match_char_def char_matching_def)
qed

lemma jaro_matches_ok: "char_matching as bs (set (jaro_matches as bs)) \<and> distinct (jaro_matches as bs)"
proof -
  have "n \<le> length as \<Longrightarrow> char_matching as bs (set (fold (match_char w as bs) [0..<n] [])) \<and> distinct (fold (match_char w as bs) [0..<n] []) \<and>
      (\<forall>p \<in> set (fold (match_char w as bs) [0..<n] []). fst p < n)" for n w
  proof (induction n)
    case (Suc n)
    then show ?case using match_char_ok [of as bs "fold (match_char w as bs) [0..<n] []" n w] by simp
  qed (simp add: char_matching_def)
  then show ?thesis by (simp add: jaro_matches_def)
qed

lemma jaro_transpositions_le: "jaro_transpositions as bs found \<le> length found"
proof -
  have "jaro_transpositions as bs found \<le> length (zip (map (\<lambda>p. as ! fst p) found) (map ((!) bs) (sort (map snd found)))) div 2"
    unfolding jaro_transpositions_def by (intro div_le_mono length_filter_le)
  then show ?thesis by simp
qed

lemma jaro_winkler_metric_range:
  assumes "char_matching as bs M" "t \<le> card M"
  shows "0 \<le> jaro_winkler_metric as bs (card M) t" "jaro_winkler_metric as bs (card M) t \<le> 1"
proof -
  let ?j = "jaro_metric (length as) (length bs) (card M) t"
  have m: "card M \<le> length as" "card M \<le> length bs"
    using matching_overlap [OF assms(1)] overlap_le [of "sort as" "sort bs"] by simp_all
  have ratios: "(of_nat (card M) :: rat) / of_nat (length as) \<le> 1" "(of_nat (card M) :: rat) / of_nat (length bs) \<le> 1"
    using m by (simp_all add: divide_le_eq_1)
  have one: "?j \<le> 1"
  proof (cases "card M = 0")
    case True
    then show ?thesis by (simp add: jaro_metric_def)
  next
    case False
    then show ?thesis using jaro_metric_le [OF order_refl assms(2) _ m(1), of "length bs"] ratios by simp
  qed
  have "0 \<le> ?j" by (simp add: jaro_metric_def)
  moreover have "?j \<le> winkler_bonus ?j p" for p using one by (simp add: winkler_bonus_def)
  ultimately show "0 \<le> jaro_winkler_metric as bs (card M) t" unfolding jaro_winkler_metric_def by (metis order_trans)
  show "jaro_winkler_metric as bs (card M) t \<le> 1"
    unfolding jaro_winkler_metric_def using winkler_bonus_le [OF one order_refl, of "min (common_prefix as bs) 4"] by simp
qed

lemma jaro_winkler_reference_ok: "is_jaro_winkler jaro_winkler_reference cutoff"
  unfolding is_jaro_winkler_def
proof (intro allI impI)
  fix as bs score assume hit: "jaro_winkler_reference as bs cutoff = Some score"
  let ?found = "jaro_matches as bs"
  let ?t = "jaro_transpositions as bs ?found"
  let ?x = "jaro_winkler_metric as bs (card (set ?found)) ?t"
  note ok = jaro_matches_ok [of as bs]
  have card: "card (set ?found) = length ?found" using ok distinct_card by blast
  have t: "?t \<le> card (set ?found)" using jaro_transpositions_le card by simp
  note range = jaro_winkler_metric_range [OF conjunct1 [OF ok] t]
  have score: "score = round_f64 ?x" "cutoff \<le> score"
    using hit by (auto simp: jaro_winkler_reference_def Let_def card then_some_def split: if_splits)
  have "?x \<le> 2 ^ 64" using range(2) by simp
  then have "score = Fin (round_rat ?x)" unfolding score(1) using range(1) by (intro round_rat_small)
  moreover have "\<bar>round_rat ?x - ?x\<bar> \<le> 1 / 10 ^ 13"
  proof -
    have "?x < 2" using range(2) by simp
    note near = round_below_2 [OF range(1) this]
    have "unit_error \<le> 1 / 10 ^ 13" by (simp add: unit_error_def)
    with near show ?thesis by (intro abs_leI) linarith+
  qed
  ultimately show "cutoff \<le> score \<and> (\<exists>s M t. score = Fin s \<and> char_matching as bs M \<and> t \<le> card M \<and>
      \<bar>s - jaro_winkler_metric as bs (card M) t\<bar> \<le> 1 / 10 ^ 13)"
    using score(2) ok t by blast
qed

end
