(* ===== verification/NameExact.thy ===== *)
theory NameExact
  imports NameQuery JaroWinkler
begin

text \<open>
  The name query is exact: pruning by tokens, by the overlap of the characters and by length loses no
  hit, the order of the hits is that of the names by length, and chunks in parallel give the graph of
  the sequential run.
\<close>

section \<open>Emission\<close>

definition chain_of_contract :: "'m resident_store \<Rightarrow> nat \<Rightarrow> nat" where
  "chain_of_contract st c = ct_chain_id (rs_contracts st ! c)"

definition collection_edge :: "'m resident_store \<Rightarrow> nat \<Rightarrow> nat \<times> f64 \<Rightarrow> hit_edge" where
  "collection_edge st seed hit =
     \<lparr>he_seed_contract = seed, he_candidate_contract = fst hit, he_candidate_nft = None, he_dimension = Name,
      he_score = snd hit, he_primary_chain = chain_of_contract st seed, he_secondary_chain = chain_of_contract st (fst hit)\<rparr>"

text \<open>The first hit of every candidate outside a set.\<close>

fun first_by :: "(nat \<times> f64) list \<Rightarrow> nat set \<Rightarrow> (nat \<times> f64) list" where
  "first_by [] S = []"
| "first_by (h # hs) S = (if fst h \<in> S then first_by hs S else h # first_by hs (insert (fst h) S))"

text \<open>The state after a list of hits, from the candidates already emitted.\<close>

definition emitted_keys :: "'m resident_store \<Rightarrow> nat set \<Rightarrow> (nat \<times> nat) set" where
  "emitted_keys st S = (\<lambda>c. (c, chain_of_contract st c)) ` S"

definition after_hits :: "'m resident_store \<Rightarrow> nat \<Rightarrow> (nat \<times> f64) list \<Rightarrow> hit_graph \<times> nat set \<Rightarrow> hit_graph \<times> nat set" where
  "after_hits st seed hits acc =
     (case acc of (g, S) \<Rightarrow>
       (g\<lparr>hg_edges := hg_edges g @ map (collection_edge st seed) (first_by hits (insert seed S))\<rparr>, S \<union> (fst ` set hits - {seed})))"

lemma first_by_append: "first_by (xs @ ys) S = first_by xs S @ first_by ys (S \<union> fst ` set xs)"
  by (induction xs arbitrary: S) (simp_all add: insert_absorb)

lemma after_hits_nil [simp]: "after_hits st seed [] acc = acc"
  by (cases acc) (simp add: after_hits_def)

lemma after_hits_append: "after_hits st seed (xs @ ys) acc = after_hits st seed ys (after_hits st seed xs acc)"
proof -
  have "insert seed (S \<union> (fst ` set xs - {seed})) = insert seed S \<union> fst ` set xs" for S by auto
  then show ?thesis by (cases acc) (auto simp: after_hits_def first_by_append)
qed

lemma emitted_keys_iff: "(c, chain_of_contract st c) \<in> emitted_keys st S \<longleftrightarrow> c \<in> S"
  by (auto simp: emitted_keys_def)

definition as_emission :: "'m resident_store \<Rightarrow> hit_graph \<times> nat set \<Rightarrow> emission" where
  "as_emission st acc = (fst acc, emitted_keys st (snd acc))"

lemma push_collection_edge_eq:
  assumes "c < length (rs_contracts st)" "seed \<notin> snd acc"
  shows "push_collection_edge st seed (chain_of_contract st seed) score c (as_emission st acc) =
    Inr (as_emission st (after_hits st seed [(c, score)] acc))"
proof -
  obtain g S where acc: "acc = (g, S)" by fastforce
  have chain: "ct_chain_id (rs_contracts st ! c) = chain_of_contract st c" by (simp add: chain_of_contract_def)
  show ?thesis
    using assms by (auto simp: push_collection_edge_def acc as_emission_def after_hits_def or_panic_def chain emitted_keys_iff
        push_edge_def collection_edge_def insert_absorb Let_def) (simp_all add: emitted_keys_def)
qed

lemma after_hits_seed: "seed \<notin> snd acc \<Longrightarrow> seed \<notin> snd (after_hits st seed hits acc)"
  by (cases acc) (simp add: after_hits_def)

lemma push_edges_fold:
  assumes "\<forall>c \<in> set cs. c < length (rs_contracts st)" "seed \<notin> snd acc"
  shows "res_fold (push_collection_edge st seed (chain_of_contract st seed) score) cs (as_emission st acc) =
    Inr (as_emission st (after_hits st seed (map (\<lambda>c. (c, score)) cs) acc))"
  using assms
proof (induction cs arbitrary: acc)
  case (Cons c cs)
  let ?acc = "after_hits st seed [(c, score)] acc"
  have "push_collection_edge st seed (chain_of_contract st seed) score c (as_emission st acc) = Inr (as_emission st ?acc)"
    using Cons.prems by (intro push_collection_edge_eq) simp_all
  moreover have "res_fold (push_collection_edge st seed (chain_of_contract st seed) score) cs (as_emission st ?acc) =
      Inr (as_emission st (after_hits st seed (map (\<lambda>c. (c, score)) cs) ?acc))"
    using Cons.prems by (intro Cons.IH after_hits_seed) simp_all
  moreover have "after_hits st seed (map (\<lambda>c. (c, score)) (c # cs)) acc = after_hits st seed (map (\<lambda>c. (c, score)) cs) ?acc"
    unfolding list.map after_hits_append [symmetric] append.simps ..
  ultimately show ?case by (simp only: res_fold.simps res_bind_simps)
qed simp

lemma res_fold_map:
  "(\<And>x s. x \<in> set xs \<Longrightarrow> f x s = g (h x) s) \<Longrightarrow> res_fold f xs s = res_fold g (map h xs) s"
proof (induction xs arbitrary: s)
  case (Cons x xs)
  then have "res_fold f xs = res_fold g (map h xs)" by (intro ext) simp
  with Cons.prems show ?case by simp
qed simp

text \<open>The candidates filed under a name.\<close>

definition name_candidates :: "'m resident_store \<Rightarrow> nat \<Rightarrow> nat list" where
  "name_candidates st n =
     filter (\<lambda>c. contract_mode st c n) [0..<length (rs_contracts st)] @
     map (\<lambda>i. nf_contract_id (rs_nfts st ! i)) (filter (\<lambda>i. solana_name st i n) [0..<length (rs_nfts st)])"

definition hits_of_name :: "'m resident_store \<Rightarrow> nat \<times> f64 \<Rightarrow> (nat \<times> f64) list" where
  "hits_of_name st hit = map (\<lambda>c. (c, snd hit)) (name_candidates st (fst hit))"

lemma emit_name_eq:
  assumes "name_index_ok st" "seed \<notin> snd acc"
  shows "emit_name st seed (chain_of_contract st seed) hit (as_emission st acc) =
    Inr (as_emission st (after_hits st seed (hits_of_name st hit) acc))"
proof -
  obtain n score where hit: "hit = (n, score)" by fastforce
  let ?cs = "filter (\<lambda>c. contract_mode st c n) [0..<length (rs_contracts st)]"
    and ?ns = "filter (\<lambda>i. solana_name st i n) [0..<length (rs_nfts st)]"
  have ready: "names_ready st" using assms(1) by (simp add: name_index_ok_def)
  have cs: "unwrap_or [] (csr_values_for (rs_name_contract_csr st) n) = ?cs"
    using assms(1) by (auto simp: name_index_ok_def contract_postings_ok_def filter_empty_conv)
  have ns: "unwrap_or [] (csr_values_for (rs_name_nft_csr st) n) = ?ns"
    using assms(1) by (auto simp: name_index_ok_def nft_postings_ok_def filter_empty_conv)
  let ?acc = "after_hits st seed (map (\<lambda>c. (c, score)) ?cs) acc"
  have first: "res_fold (push_collection_edge st seed (chain_of_contract st seed) score) ?cs (as_emission st acc) = Inr (as_emission st ?acc)"
    using assms(2) by (intro push_edges_fold) simp_all
  have "res_fold (\<lambda>ni acc. res_bind (or_panic (idx (rs_nfts st) ni)) (\<lambda>nft.
      push_collection_edge st seed (chain_of_contract st seed) score (nf_contract_id nft) acc)) ?ns e =
    res_fold (push_collection_edge st seed (chain_of_contract st seed) score) (map (\<lambda>i. nf_contract_id (rs_nfts st ! i)) ?ns) e" for e
    by (rule res_fold_map) (simp add: or_panic_def)
  moreover have "res_fold (push_collection_edge st seed (chain_of_contract st seed) score)
      (map (\<lambda>i. nf_contract_id (rs_nfts st ! i)) ?ns) (as_emission st ?acc) =
    Inr (as_emission st (after_hits st seed (map (\<lambda>c. (c, score)) (map (\<lambda>i. nf_contract_id (rs_nfts st ! i)) ?ns)) ?acc))"
    using after_hits_seed [OF assms(2)] names_readyD(4) [OF ready] by (intro push_edges_fold) simp_all
  ultimately show ?thesis
    unfolding hit emit_name_def case_prod_conv Let_def cs ns first res_bind_simps
    by (simp add: hits_of_name_def name_candidates_def after_hits_append)
qed

lemma emit_into_eq:
  assumes "name_index_ok st" "seed \<notin> snd acc" "nq_emitted scratch = emitted_keys st (snd acc)"
  shows "emit_into st seed (chain_of_contract st seed) hit (fst acc, scratch) =
    Inr (fst (after_hits st seed (hits_of_name st hit) acc),
      scratch\<lparr>nq_emitted := emitted_keys st (snd (after_hits st seed (hits_of_name st hit) acc))\<rparr>)"
  using emit_name_eq [OF assms(1,2), of hit] assms(3) by (simp add: emit_into_def as_emission_def)

section \<open>The query and the keys\<close>

abbreviation key_at :: "'m resident_store \<Rightarrow> nat \<Rightarrow> nat" where
  "key_at st i \<equiv> rs_name_keys_by_len st ! i"

abbreviation key_count :: "'m resident_store \<Rightarrow> nat" where
  "key_count st \<equiv> length (rs_name_keys_by_len st)"

lemma names_laidD:
  assumes "names_laid st"
  shows "distinct (rs_name_keys_by_len st)" "key_count st < 2 ^ 32"
    "i < key_count st \<Longrightarrow> known_string st (key_at st i)" "i < key_count st \<Longrightarrow> name_len st (key_at st i) < 2 ^ 32"
    "sorted (rs_name_key_char_lens st)" "rs_name_key_char_lens st = map (name_len st) (rs_name_keys_by_len st)"
    "map_of (rs_name_key_positions st) = index_in (rs_name_keys_by_len st)"
    "i < key_count st \<Longrightarrow> key_chars st i = Some (sorted_name st (key_at st i))"
proof -
  have keys: "sorted (map (\<lambda>n. (name_len st n, text_of st n)) (rs_name_keys_by_len st))"
    and len: "rs_name_key_char_lens st = map (name_len st) (rs_name_keys_by_len st)"
    using assms by (simp_all add: names_laid_def Let_def)
  show "sorted (rs_name_key_char_lens st)" unfolding len sorted_map
    by (rule sorted_wrt_mono_rel [OF _ keys [unfolded sorted_map]]) (auto simp: less_eq_prod_def)
qed (use assms in \<open>simp_all add: names_laid_def Let_def\<close>)

text \<open>What \<open>prepare_query\<close> finds out about the name \<open>n\<close>.\<close>

definition query_of :: "'m resident_store \<Rightarrow> nat \<Rightarrow> name_query \<Rightarrow> bool" where
  "query_of st n q \<longleftrightarrow>
     qn_id q = n \<and> qn_len q = name_len st n \<and> qn_sorted q = sorted_name st n \<and>
     is_none_or (\<lambda>ts. \<exists>i < key_count st. key_at st i = n \<and> ts = tokens_at st i) (qn_tokens q)"

lemma prepare_query_ok:
  assumes "names_laid st" "tokens_laid st tok"
  shows "\<exists>q scratch'. prepare_query st n (text_of st n) scratch = Inr (q, scratch') \<and> query_of st n q \<and>
    nq_query_chars scratch' = chars (text_of st n) \<and> nq_emitted scratch' = nq_emitted scratch \<and>
    nq_candidate_seen scratch' = nq_candidate_seen scratch"
proof (cases "index_in (rs_name_keys_by_len st) n")
  case None
  then show ?thesis using names_laidD(7) [OF assms(1)]
    by (simp add: prepare_query_def query_of_def char_len_fast_eq name_len_def sorted_name_def Let_def)
next
  case (Some i)
  from index_in_SomeD [OF this] have i: "i < key_count st" "key_at st i = n" by simp_all
  have "key_tokens st i = Some (tokens_at st i)" using assms(2) i(1) by (simp add: tokens_laid_def Let_def)
  then show ?thesis using Some i names_laidD(6-8) [OF assms(1)]
    by (auto simp: prepare_query_def query_of_def or_panic_def)
qed

text \<open>Tokens count the common characters.\<close>

definition common_chars :: "'m resident_store \<Rightarrow> nat \<Rightarrow> nat \<Rightarrow> nat" where
  "common_chars st m n = overlap (sorted_name st m) (sorted_name st n)"

lemma raw_tokens_set: "set (raw_tokens st n) = token_set (sorted_name st n)"
  by (simp add: raw_tokens_def set_visit sorted_name_def)

lemma tokens_at_facts:
  assumes laid: "names_laid st" "tokens_laid st tok" and i: "i < key_count st"
  shows "set (tokens_at st i) = tok ` token_set (sorted_name st (key_at st i))"
    "distinct (tokens_at st i)" "length (tokens_at st i) = name_len st (key_at st i)"
proof -
  let ?raw = "raw_tokens st (key_at st i)"
  have mset: "mset (tokens_at st i) = mset (map tok ?raw)" using laid(2) i by (simp add: tokens_laid_def Let_def)
  have "set ?raw \<subseteq> (\<Union>j < key_count st. set (raw_tokens st (key_at st j)))" using i by blast
  moreover have "inj_on tok (\<Union>j < key_count st. set (raw_tokens st (key_at st j)))"
    using laid(2) by (simp add: tokens_laid_def Let_def)
  ultimately have inj: "inj_on tok (set ?raw)" by (rule inj_on_subset [rotated])
  show "set (tokens_at st i) = tok ` token_set (sorted_name st (key_at st i))"
    using mset_eq_setD [OF mset] by (simp add: raw_tokens_set)
  have "distinct ?raw" unfolding raw_tokens_def
    using names_laidD(4) [OF laid(1) i] by (intro distinct_visit) (simp_all add: sorted_name_def name_len_def)
  then show "distinct (tokens_at st i)" using mset_eq_imp_distinct_iff [OF mset] inj by (simp add: distinct_map)
  show "length (tokens_at st i) = name_len st (key_at st i)"
    using mset_eq_length [OF mset] by (simp add: raw_tokens_def)
qed

lemma shared_token_count:
  assumes laid: "names_laid st" "tokens_laid st tok" and ij: "i < key_count st" "j < key_count st"
  shows "card (set (tokens_at st i) \<inter> set (tokens_at st j)) = common_chars st (key_at st i) (key_at st j)"
proof -
  let ?s = "\<lambda>i. token_set (sorted_name st (key_at st i))"
  have "?s i \<union> ?s j \<subseteq> (\<Union>k < key_count st. set (raw_tokens st (key_at st k)))" using ij unfolding raw_tokens_set by blast
  moreover have "inj_on tok (\<Union>k < key_count st. set (raw_tokens st (key_at st k)))"
    using laid(2) by (simp add: tokens_laid_def Let_def)
  ultimately have inj: "inj_on tok (?s i \<union> ?s j)" by (rule inj_on_subset [rotated])
  have "set (tokens_at st i) \<inter> set (tokens_at st j) = tok ` (?s i \<inter> ?s j)"
    unfolding tokens_at_facts(1) [OF laid ij(1)] tokens_at_facts(1) [OF laid ij(2)]
    using inj_on_image_Int [OF inj, of "?s i" "?s j"] by simp
  moreover have "inj_on tok (?s i \<inter> ?s j)" using inj by (rule inj_on_subset) blast
  moreover have "length (sorted_name st (key_at st k)) \<le> 2 ^ 32" if "k < key_count st" for k
    using names_laidD(4) [OF laid(1) that] by simp
  ultimately show ?thesis using ij shared_tokens by (simp add: card_image common_chars_def)
qed

section \<open>The candidates of a group\<close>

lemma border_filter:
  assumes "m \<le> length xs" "\<forall>i < length xs. i < m \<longleftrightarrow> P (xs ! i)"
  shows "filter P xs = take m xs" "filter (\<lambda>x. \<not> P x) xs = drop m xs"
proof -
  have "P (xs ! i)" if "i < m" for i using assms that less_le_trans by blast
  moreover have "\<not> P (xs ! (m + i))" if "i < length xs - m" for i
    using assms(2) that by (metis add.commute less_diff_conv not_add_less1)
  ultimately have "\<forall>x \<in> set (take m xs). P x" "\<forall>x \<in> set (drop m xs). \<not> P x"
    by (auto simp: in_set_conv_nth)
  then have "filter P (take m xs @ drop m xs) = take m xs" "filter (\<lambda>x. \<not> P x) (take m xs @ drop m xs) = drop m xs"
    by (simp_all only: filter_append filter_True) (simp_all add: filter_empty_conv)
  then show "filter P xs = take m xs" "filter (\<lambda>x. \<not> P x) xs = drop m xs" by simp_all
qed

lemma sorted_between:
  fixes xs :: "nat list"
  assumes "sorted xs" "a \<le> b"
  shows "Csr.slice xs (partition_point (\<lambda>x. x < a) xs) (partition_point (\<lambda>x. x < b) xs) = Some (filter (\<lambda>x. a \<le> x \<and> x < b) xs)"
proof -
  define s where "s = partition_point (\<lambda>x. x < a) xs"
  define e where "e = partition_point (\<lambda>x. x < b) xs"
  have s: "s \<le> length xs" "\<forall>i < length xs. i < s \<longleftrightarrow> xs ! i < a"
    using sorted_partition_point [OF assms(1), of "\<lambda>x. x < a"] by (auto simp: s_def)
  have e: "e \<le> length xs" "\<forall>i < length xs. i < e \<longleftrightarrow> xs ! i < b"
    using sorted_partition_point [OF assms(1), of "\<lambda>x. x < b"] by (auto simp: e_def)
  have "s \<le> e"
  proof (rule ccontr)
    assume "\<not> s \<le> e"
    then have "e < s" by simp
    then have len: "e < length xs" using s(1) by (rule less_le_trans)
    with \<open>e < s\<close> s(2) have "xs ! e < a" by blast
    moreover have "\<not> xs ! e < b" using len e(2) by blast
    ultimately show False using assms(2) by simp
  qed
  have "filter (\<lambda>x. \<not> x < a) (take e xs) = drop s (take e xs)"
    using s e \<open>s \<le> e\<close> by (intro border_filter(2)) auto
  moreover have "filter (\<lambda>x. a \<le> x \<and> x < b) xs = filter (\<lambda>x. \<not> x < a) (filter (\<lambda>x. x < b) xs)"
    by (simp add: not_less conj_commute)
  ultimately have "filter (\<lambda>x. a \<le> x \<and> x < b) xs = drop s (take e xs)" using border_filter(1) [OF e] by simp
  then show ?thesis using \<open>s \<le> e\<close> e(1) by (simp add: Csr.slice_def s_def [symmetric] e_def [symmetric] drop_take)
qed

lemma res_fold_concat:
  "(\<And>x s. x \<in> set xs \<Longrightarrow> f x s = res_fold g (h x) s) \<Longrightarrow> res_fold f xs s = res_fold g (concat (map h xs)) s"
proof (induction xs arbitrary: s)
  case (Cons x xs)
  then have "res_fold f xs = res_fold g (concat (map h xs))" by (intro ext) simp
  with Cons.prems show ?case by (simp add: res_fold_append)
qed simp

lemma scan_posting_eq:
  assumes "names_laid st" "tokens_laid st tok" "gs \<le> ge" "ge \<le> key_count st"
  shows "scan_posting st gs ge t acc = res_fold push_unseen (filter (\<lambda>i. t \<in> set (tokens_at st i)) [gs..<ge]) acc"
proof -
  let ?n = "key_count st"
  have small: "u32 gs = gs" "u32 ge = ge" using assms(3,4) names_laidD(2) [OF assms(1)] by (simp_all add: u32_small)
  have group: "filter (\<lambda>i. t \<in> set (tokens_at st i) \<and> gs \<le> i \<and> i < ge) [0..<?n] =
      filter (\<lambda>i. t \<in> set (tokens_at st i)) [gs..<ge]"
    using assms(3,4) by (intro sorted_distinct_set_unique) (auto simp: sorted_wrt_filter)
  show ?thesis
  proof (cases "\<exists>i < ?n. t \<in> set (tokens_at st i)")
    case True
    then have "csr_values_for (rs_name_occurrence_postings st) t = Some (filter (\<lambda>i. t \<in> set (tokens_at st i)) [0..<?n])"
      using assms(2) by (simp add: tokens_laid_def Let_def)
    then show ?thesis
      using sorted_between [of "filter (\<lambda>i. t \<in> set (tokens_at st i)) [0..<?n]" gs ge] assms(3)
      by (simp add: scan_posting_def small Let_def or_panic_def group sorted_wrt_filter)
  next
    case False
    then have "csr_values_for (rs_name_occurrence_postings st) t = None" using assms(2) by (simp add: tokens_laid_def Let_def)
    moreover have "filter (\<lambda>i. t \<in> set (tokens_at st i)) [gs..<ge] = []"
      using False assms(4) by (auto simp: filter_empty_conv)
    ultimately show ?thesis by (simp add: scan_posting_def)
  qed
qed

text \<open>The sorted candidates are the members of the group selected by a predicate that keeps every name
  with the required overlap.\<close>

lemma group_candidates_ok:
  assumes laid: "names_laid st" "tokens_laid st tok" and q: "query_of st n q" and range: "gs \<le> ge" "ge \<le> key_count st"
    and seen: "seen_ready (key_count st) seen" "seen_members seen \<inter> {gs..<ge} = {}"
  shows "\<exists>seen' cs keep. group_candidates st q required gs ge seen = Inr (seen', cs) \<and> seen_ready (key_count st) seen' \<and>
    seen_members seen' \<subseteq> seen_members seen \<union> {gs..<ge} \<and> sort cs = filter keep [gs..<ge] \<and>
    (\<forall>i \<in> {gs..<ge}. required \<le> common_chars st n (key_at st i) \<longrightarrow> keep i)"
proof (cases "qn_tokens q = None \<or> required = 0")
  case True
  have "map u32 [gs..<ge] = [gs..<ge]"
    using range names_laidD(2) [OF laid(1)] by (intro map_idI) (simp add: u32_small)
  then have "group_candidates st q required gs ge seen = Inr (seen, [gs..<ge])"
    using True by (auto simp: group_candidates_def split: option.split)
  then show ?thesis using seen by (intro exI [of _ seen] exI [of _ "[gs..<ge]"] exI [of _ "\<lambda>_. True"]) (simp add: sorted_sort_id)
next
  case False
  then obtain j where j: "qn_tokens q = Some (tokens_at st j)" "j < key_count st" "key_at st j = n"
    using q by (auto simp: query_of_def)
  define prefix where "prefix = take (min (sat_add_usize (qn_len q - required) 1) (length (tokens_at st j))) (tokens_at st j)"
  define keep where "keep = (\<lambda>i. \<exists>t \<in> set prefix. t \<in> set (tokens_at st i))"
  let ?cs = "concat (map (\<lambda>t. filter (\<lambda>i. t \<in> set (tokens_at st i)) [gs..<ge]) prefix)"
  have "group_candidates st q required gs ge seen = res_fold (scan_posting st gs ge) prefix (seen, [])"
    using False j(1) by (simp add: group_candidates_def prefix_def Let_def)
  also have "\<dots> = res_fold push_unseen ?cs (seen, [])"
    by (rule res_fold_concat) (rule scan_posting_eq [OF laid range])
  finally have run: "group_candidates st q required gs ge seen = res_fold push_unseen ?cs (seen, [])" .
  have cs: "set ?cs = {i. gs \<le> i \<and> i < ge \<and> keep i}" by (auto simp: keep_def)
  then have "\<forall>c \<in> set ?cs. c < key_count st" using range by auto
  from name_seen.push_unseen_members [OF seen(1) this, of "[]"] obtain seen' where
    r: "res_fold push_unseen ?cs (seen, []) = Inr (seen', filter (\<lambda>c. c \<notin> seen_members seen) (first_occurrences ?cs))"
    "seen_ready (key_count st) seen'" "seen_members seen' = seen_members seen \<union> set ?cs"
    unfolding push_unseen_eq by auto
  have new: "filter (\<lambda>c. c \<notin> seen_members seen) (first_occurrences ?cs) = first_occurrences ?cs"
    using seen(2) cs by (intro filter_True) auto
  have "sort (first_occurrences ?cs) = filter keep [gs..<ge]"
    using cs by (intro sorted_distinct_set_unique) (auto simp: sorted_wrt_filter)
  moreover have "keep i" if i: "i \<in> {gs..<ge}" "required \<le> common_chars st n (key_at st i)" for i
  proof -
    have ik: "i < key_count st" using i range by simp
    have len: "length (tokens_at st j) = qn_len q" using tokens_at_facts(3) [OF laid j(2)] j(3) q by (simp add: query_of_def)
    have "required \<le> card (set (tokens_at st j) \<inter> set (tokens_at st i))"
      using shared_token_count [OF laid j(2) ik] i(2) j(3) by simp
    from prefix_meets [OF tokens_at_facts(2) [OF laid j(2)] this] False obtain t where
      t: "t \<in> set (take (qn_len q - required + 1) (tokens_at st j))" "t \<in> set (tokens_at st i)" unfolding len by auto
    have "qn_len q < 2 ^ 32" using names_laidD(4) [OF laid(1) j(2)] j(3) q by (simp add: query_of_def)
    then have "sat_add_usize (qn_len q - required) 1 = qn_len q - required + 1" by (simp add: sat_add_usize_def usize_max_def)
    then have "prefix = take (qn_len q - required + 1) (tokens_at st j)" by (simp add: prefix_def min_def)
    with t show ?thesis by (auto simp: keep_def)
  qed
  moreover have "seen_members seen' \<subseteq> seen_members seen \<union> {gs..<ge}" using r(3) cs by auto
  ultimately show ?thesis using run r(1,2) new by auto
qed

section \<open>The hits of a query\<close>

definition passes_bounds :: "'m resident_store \<Rightarrow> f64 \<Rightarrow> nat \<Rightarrow> nat \<Rightarrow> bool" where
  "passes_bounds st threshold n m \<longleftrightarrow>
     (name_len st m = name_len st n \<or> lengths_can_reach (name_len st n) (name_len st m) threshold) \<and>
     minimum_multiset_overlap (name_len st n) (name_len st m) threshold \<le> common_chars st n m"

definition near_hit ::
  "'m resident_store \<Rightarrow> (nat list \<Rightarrow> nat list \<Rightarrow> f64 \<Rightarrow> f64 option) \<Rightarrow> f64 \<Rightarrow> nat \<Rightarrow> nat \<Rightarrow> (nat \<times> f64) list" where
  "near_hit st similarity threshold n m =
     (if m \<noteq> n \<and> minimum_multiset_overlap (name_len st n) (name_len st m) threshold \<le> common_chars st n m
      then (case similarity (chars (text_of st n)) (chars (text_of st m)) (f64_clamp threshold 0 1) of
          None \<Rightarrow> [] | Some score \<Rightarrow> hits_of_name st (m, score))
      else [])"

text \<open>A scratch in the middle of the query of \<open>n\<close>.\<close>

definition in_query :: "'m resident_store \<Rightarrow> nat \<Rightarrow> nat \<Rightarrow> hit_graph \<times> nat set \<Rightarrow> name_query_scratch \<Rightarrow> bool" where
  "in_query st seed n acc scratch \<longleftrightarrow>
     seed \<notin> snd acc \<and> nq_emitted scratch = emitted_keys st (snd acc) \<and> nq_query_chars scratch = chars (text_of st n)"

lemma emit_into_in_query:
  assumes "name_index_ok st" "in_query st seed n acc scratch"
  shows "\<exists>scratch'. emit_into st seed (chain_of_contract st seed) hit (fst acc, scratch) =
      Inr (fst (after_hits st seed (hits_of_name st hit) acc), scratch') \<and>
    in_query st seed n (after_hits st seed (hits_of_name st hit) acc) scratch' \<and>
    nq_candidate_seen scratch' = nq_candidate_seen scratch"
  using assms emit_into_eq [of st seed acc scratch hit] after_hits_seed [of seed acc] by (simp add: in_query_def)

lemma score_candidate_ok:
  fixes similarity :: "nat list \<Rightarrow> nat list \<Rightarrow> f64 \<Rightarrow> f64 option" and threshold :: f64
  assumes ok: "name_index_ok st" and q: "query_of st n q" and i: "i < key_count st" and state: "in_query st seed n acc scratch"
    and required: "required = minimum_multiset_overlap (name_len st n) (name_len st (key_at st i)) threshold"
  defines "hits \<equiv> near_hit st similarity threshold n (key_at st i)"
  shows "\<exists>scratch'. score_candidate st similarity seed (chain_of_contract st seed) threshold q required i (fst acc, scratch) =
      Inr (fst (after_hits st seed hits acc), scratch') \<and> in_query st seed n (after_hits st seed hits acc) scratch' \<and>
    nq_candidate_seen scratch' = nq_candidate_seen scratch"
proof -
  have laid: "names_laid st" using ok by (simp add: name_index_ok_def)
  let ?m = "key_at st i"
  have overlap: "sorted_overlap_at_least (qn_sorted q) (sorted_name st ?m) required \<longleftrightarrow> required \<le> common_chars st n ?m"
    using q sorted_overlap_iff [of "sorted_name st n" "sorted_name st ?m"]
    by (simp add: query_of_def common_chars_def) (simp add: sorted_name_def)
  have lookups: "or_panic (idx (rs_name_keys_by_len st) i) = Inr ?m" "store_string st ?m = Inr (text_of st ?m)"
    "or_panic (key_chars st i) = Inr (sorted_name st ?m)" "qn_id q = n"
    using i q names_laidD(3,8) [OF laid i] by (simp_all add: query_of_def or_panic_def)
  have chars: "nq_query_chars (snd (fst acc, scratch)) = chars (text_of st n)" using state by (simp add: in_query_def)
  show ?thesis
  proof (cases "?m = n \<or> \<not> required \<le> common_chars st n ?m")
    case True
    then have "hits = []" using required by (auto simp: hits_def near_hit_def)
    moreover have "score_candidate st similarity seed (chain_of_contract st seed) threshold q required i (fst acc, scratch) = Inr (fst acc, scratch)"
      using True by (auto simp: score_candidate_def lookups overlap)
    ultimately show ?thesis using state by simp
  next
    case False
    then have run: "score_candidate st similarity seed (chain_of_contract st seed) threshold q required i (fst acc, scratch) =
        (case similarity (chars (text_of st n)) (chars (text_of st ?m)) (f64_clamp threshold 0 1) of
           None \<Rightarrow> Inr (fst acc, scratch)
         | Some score \<Rightarrow> emit_into st seed (chain_of_contract st seed) (?m, score) (fst acc, scratch))"
      by (simp add: score_candidate_def lookups overlap chars [simplified])
    show ?thesis
    proof (cases "similarity (chars (text_of st n)) (chars (text_of st ?m)) (f64_clamp threshold 0 1)")
      case None
      then show ?thesis using run state by (simp add: hits_def near_hit_def)
    next
      case (Some score)
      then have "hits = hits_of_name st (?m, score)" using False required by (simp add: hits_def near_hit_def)
      then show ?thesis using run Some emit_into_in_query [OF ok state, of "(?m, score)"] by simp
    qed
  qed
qed

lemma score_candidates_ok:
  fixes similarity :: "nat list \<Rightarrow> nat list \<Rightarrow> f64 \<Rightarrow> f64 option" and threshold :: f64
  assumes ok: "name_index_ok st" and q: "query_of st n q"
    and "\<forall>i \<in> set is. i < key_count st \<and> required = minimum_multiset_overlap (name_len st n) (name_len st (key_at st i)) threshold"
    and "in_query st seed n acc scratch"
  defines "hits \<equiv> \<lambda>is. concat (map (\<lambda>i. near_hit st similarity threshold n (key_at st i)) is)"
  shows "\<exists>scratch'. res_fold (score_candidate st similarity seed (chain_of_contract st seed) threshold q required) is (fst acc, scratch) =
      Inr (fst (after_hits st seed (hits is) acc), scratch') \<and> in_query st seed n (after_hits st seed (hits is) acc) scratch' \<and>
    nq_candidate_seen scratch' = nq_candidate_seen scratch"
  using assms(3,4)
proof (induction "is" arbitrary: acc scratch)
  case Nil
  then show ?case by (simp add: hits_def)
next
  case (Cons i "is")
  let ?acc = "after_hits st seed (near_hit st similarity threshold n (key_at st i)) acc"
  from score_candidate_ok [OF ok q _ Cons.prems(2), of i required threshold similarity] Cons.prems(1) obtain scratch1 where
    one: "score_candidate st similarity seed (chain_of_contract st seed) threshold q required i (fst acc, scratch) = Inr (fst ?acc, scratch1)"
    "in_query st seed n ?acc scratch1" "nq_candidate_seen scratch1 = nq_candidate_seen scratch" by auto
  from Cons.IH [OF _ one(2)] Cons.prems(1) one show ?case by (auto simp: hits_def after_hits_append)
qed

lemma emit_group_ok:
  fixes similarity :: "nat list \<Rightarrow> nat list \<Rightarrow> f64 \<Rightarrow> f64 option" and threshold :: f64
  assumes ok: "name_index_ok st" and q: "query_of st n q" and range: "gs \<le> ge" "ge \<le> key_count st"
    and len: "\<forall>i \<in> {gs..<ge}. name_len st (key_at st i) = cand_len"
    and state: "in_query st seed n acc scratch" "seen_ready (key_count st) (nq_candidate_seen scratch)"
      "seen_members (nq_candidate_seen scratch) \<subseteq> {..<gs}"
  defines "hits \<equiv> concat (map (\<lambda>i. near_hit st similarity threshold n (key_at st i)) [gs..<ge])"
  shows "\<exists>scratch'. emit_group st similarity seed (chain_of_contract st seed) threshold q cand_len gs ge (fst acc, scratch) =
      Inr (fst (after_hits st seed hits acc), scratch') \<and> in_query st seed n (after_hits st seed hits acc) scratch' \<and>
    seen_ready (key_count st) (nq_candidate_seen scratch') \<and> seen_members (nq_candidate_seen scratch') \<subseteq> {..<ge}"
proof -
  obtain tok where laid: "names_laid st" "tokens_laid st tok" using ok by (auto simp: name_index_ok_def)
  define required where "required = minimum_multiset_overlap (name_len st n) cand_len threshold"
  have fresh: "seen_members (nq_candidate_seen scratch) \<inter> {gs..<ge} = {}" using state(3) by auto
  from group_candidates_ok [OF laid q range state(2) fresh, of required] obtain seen cs keep where
    g: "group_candidates st q required gs ge (nq_candidate_seen scratch) = Inr (seen, cs)" "seen_ready (key_count st) seen"
    "seen_members seen \<subseteq> seen_members (nq_candidate_seen scratch) \<union> {gs..<ge}" "sort cs = filter keep [gs..<ge]"
    and keep: "\<forall>i \<in> {gs..<ge}. required \<le> common_chars st n (key_at st i) \<longrightarrow> keep i" by blast
  let ?scratch = "scratch\<lparr>nq_candidate_seen := seen, nq_candidates := sort cs\<rparr>"
  have "qn_len q = name_len st n" using q by (simp add: query_of_def)
  then have run: "emit_group st similarity seed (chain_of_contract st seed) threshold q cand_len gs ge (fst acc, scratch) =
      res_fold (score_candidate st similarity seed (chain_of_contract st seed) threshold q required) (sort cs) (fst acc, ?scratch)"
    using g(1) by (simp add: emit_group_def Let_def required_def)
  have drop: "near_hit st similarity threshold n (key_at st i) = []" if "i \<in> {gs..<ge}" "\<not> keep i" for i
    using keep that len by (auto simp: near_hit_def required_def)
  have "concat (map (\<lambda>i. near_hit st similarity threshold n (key_at st i)) (filter keep is)) =
      concat (map (\<lambda>i. near_hit st similarity threshold n (key_at st i)) is)" if "set is \<subseteq> {gs..<ge}" for "is"
    using that drop by (induction "is") auto
  then have hits: "hits = concat (map (\<lambda>i. near_hit st similarity threshold n (key_at st i)) (sort cs))"
    by (simp add: hits_def g(4))
  have "\<forall>i \<in> set (sort cs). i < key_count st \<and> required = minimum_multiset_overlap (name_len st n) (name_len st (key_at st i)) threshold"
    using g(4) len range by (auto simp: required_def)
  moreover have "in_query st seed n acc ?scratch" using state(1) by (simp add: in_query_def)
  ultimately obtain scratch' where
    "res_fold (score_candidate st similarity seed (chain_of_contract st seed) threshold q required) (sort cs) (fst acc, ?scratch) =
      Inr (fst (after_hits st seed hits acc), scratch')"
    "in_query st seed n (after_hits st seed hits acc) scratch'" "nq_candidate_seen scratch' = seen"
    using score_candidates_ok [OF ok q, of "sort cs" required threshold seed acc ?scratch similarity] unfolding hits by auto
  moreover have "seen_members seen \<subseteq> {..<ge}" using g(3) state(3) range by fastforce
  ultimately show ?thesis using g(2) run by auto
qed

text \<open>The groups follow each other through the window.\<close>

lemma first_group:
  assumes "sorted lens" "gs < hi" "hi \<le> length lens"
  shows "\<exists>others. Csr.slice lens gs hi = Some (lens ! gs # others) \<and>
    (let stop = partition_point (\<lambda>len. len = lens ! gs) (lens ! gs # others) + gs
     in gs < stop \<and> stop \<le> hi \<and> (\<forall>i \<in> {gs..<stop}. lens ! i = lens ! gs))"
proof -
  define xs where "xs = take (hi - gs) (drop gs lens)"
  have len: "length xs = hi - gs" using assms by (simp add: xs_def)
  have nth: "xs ! i = lens ! (gs + i)" if "i < hi - gs" for i using that assms by (simp add: xs_def)
  obtain others where xs: "xs = lens ! gs # others"
    using len nth [of 0] assms(2) by (cases xs) auto
  have slice: "Csr.slice lens gs hi = Some xs" using assms by (simp add: Csr.slice_def xs_def)
  define stop where "stop = partition_point (\<lambda>len. len = lens ! gs) xs"
  have least: "lens ! gs \<le> x" if x: "x \<in> set xs" for x
  proof -
    from x obtain i where i: "i < hi - gs" "x = xs ! i" unfolding in_set_conv_nth len by blast
    then show ?thesis using sorted_nth_mono [OF assms(1), of gs "gs + i"] assms nth by simp
  qed
  have "sorted xs" using assms(1) by (simp add: xs_def sorted_wrt_drop sorted_wrt_take)
  then have pp: "stop \<le> length xs \<and> (\<forall>i < length xs. i < stop \<longleftrightarrow> xs ! i = lens ! gs)"
    unfolding stop_def by (rule sorted_partition_point) (use least in force)
  have "0 < stop" unfolding stop_def by (rule partition_point_pos) (simp_all add: xs)
  moreover have "stop + gs \<le> hi"
  proof -
    have "stop \<le> hi - gs" using conjunct1 [OF pp] unfolding len .
    then show ?thesis using assms(2) by linarith
  qed
  moreover have same: "lens ! i = lens ! gs" if i: "i \<in> {gs..<stop + gs}" for i
  proof -
    have "i - gs < stop" "gs \<le> i" using i by auto
    then have "i - gs < length xs" using pp by linarith
    with \<open>i - gs < stop\<close> pp have "xs ! (i - gs) = lens ! gs" by blast
    with \<open>i - gs < length xs\<close> \<open>gs \<le> i\<close> nth [of "i - gs"] len show "lens ! i = lens ! gs" by simp
  qed
  ultimately show ?thesis using slice unfolding Let_def stop_def xs
    by (intro exI [of _ others] conjI ballI) (assumption | linarith | erule same [unfolded stop_def xs])+
qed

lemma emit_groups_ok:
  fixes similarity :: "nat list \<Rightarrow> nat list \<Rightarrow> f64 \<Rightarrow> f64 option" and threshold :: f64
  assumes ok: "name_index_ok st" and q: "query_of st n q" and hi: "hi \<le> key_count st"
    and "in_query st seed n acc scratch" "seen_ready (key_count st) (nq_candidate_seen scratch)"
      "seen_members (nq_candidate_seen scratch) \<subseteq> {..<gs}"
  defines "hits \<equiv> \<lambda>gs. concat (map (\<lambda>i. near_hit st similarity threshold n (key_at st i)) [gs..<hi])"
  shows "\<exists>scratch'. emit_groups st similarity seed (chain_of_contract st seed) threshold q hi gs (fst acc, scratch) =
      Inr (fst (after_hits st seed (hits gs) acc), scratch') \<and> in_query st seed n (after_hits st seed (hits gs) acc) scratch' \<and>
    seen_ready (key_count st) (nq_candidate_seen scratch')"
  using assms(4-6)
proof (induction "hi - gs" arbitrary: gs acc scratch rule: less_induct)
  case less
  let ?lens = "rs_name_key_char_lens st"
  have laid: "names_laid st" using ok by (simp add: name_index_ok_def)
  show ?case
  proof (cases "gs < hi")
    case False
    then show ?thesis using less.prems by (subst emit_groups.simps) (simp add: hits_def)
  next
    case True
    have "hi \<le> length ?lens" using hi names_laidD(6) [OF laid] by simp
    from first_group [OF names_laidD(5) [OF laid] True this] obtain others where
      slice: "Csr.slice ?lens gs hi = Some (?lens ! gs # others)"
      and "let stop = partition_point (\<lambda>len. len = ?lens ! gs) (?lens ! gs # others) + gs
         in gs < stop \<and> stop \<le> hi \<and> (\<forall>i \<in> {gs..<stop}. ?lens ! i = ?lens ! gs)" by blast
    moreover define stop where "stop = partition_point (\<lambda>len. len = ?lens ! gs) (?lens ! gs # others) + gs"
    ultimately have stop: "gs < stop" "stop \<le> hi" "\<forall>i \<in> {gs..<stop}. ?lens ! i = ?lens ! gs" unfolding Let_def by blast+
    have lens: "\<forall>i \<in> {gs..<stop}. name_len st (key_at st i) = ?lens ! gs"
    proof
      fix i assume i: "i \<in> {gs..<stop}"
      then have "?lens ! i = name_len st (key_at st i)" using stop(2) hi by (simp add: names_laidD(6) [OF laid])
      then show "name_len st (key_at st i) = ?lens ! gs" using stop(3) i by metis
    qed
    let ?hits = "concat (map (\<lambda>i. near_hit st similarity threshold n (key_at st i)) [gs..<stop])"
    have inside: "gs \<le> stop" "stop \<le> key_count st" using stop(1,2) hi by simp_all
    from emit_group_ok [OF ok q inside lens less.prems, of similarity threshold] obtain scratch1 where
      one: "emit_group st similarity seed (chain_of_contract st seed) threshold q (?lens ! gs) gs stop (fst acc, scratch) =
        Inr (fst (after_hits st seed ?hits acc), scratch1)" "in_query st seed n (after_hits st seed ?hits acc) scratch1"
      "seen_ready (key_count st) (nq_candidate_seen scratch1)" "seen_members (nq_candidate_seen scratch1) \<subseteq> {..<stop}" by blast
    have "hi - stop < hi - gs" using stop(1,2) by simp
    from less.hyps [OF this one(2-4)] obtain scratch2 where
      two: "emit_groups st similarity seed (chain_of_contract st seed) threshold q hi stop (fst (after_hits st seed ?hits acc), scratch1) =
        Inr (fst (after_hits st seed (hits stop) (after_hits st seed ?hits acc)), scratch2)"
      "in_query st seed n (after_hits st seed (hits stop) (after_hits st seed ?hits acc)) scratch2"
      "seen_ready (key_count st) (nq_candidate_seen scratch2)" by blast
    have "hits gs = ?hits @ hits stop"
      using upt_add_eq_append [of gs stop "hi - stop"] stop(1,2) by (simp add: hits_def)
    then have hits: "after_hits st seed (hits gs) acc = after_hits st seed (hits stop) (after_hits st seed ?hits acc)"
      by (simp add: after_hits_append)
    have "emit_groups st similarity seed (chain_of_contract st seed) threshold q hi gs (fst acc, scratch) =
        res_bind (emit_group st similarity seed (chain_of_contract st seed) threshold q (?lens ! gs) gs stop (fst acc, scratch))
          (emit_groups st similarity seed (chain_of_contract st seed) threshold q hi stop)"
      unfolding stop_def by (subst emit_groups.simps) (simp only: True slice if_True option.case list.case Let_def)
    then have "emit_groups st similarity seed (chain_of_contract st seed) threshold q hi gs (fst acc, scratch) =
        Inr (fst (after_hits st seed (hits gs) acc), scratch2)"
      by (simp only: one(1) two(1) hits res_bind_simps)
    then show ?thesis using two hits by auto
  qed
qed

section \<open>A query is an exhaustive scan\<close>

text \<open>The hits of the name \<open>n\<close>: its own, with score one, and those of the other keys that pass the bounds.\<close>

definition scan_key ::
  "'m resident_store \<Rightarrow> (nat list \<Rightarrow> nat list \<Rightarrow> f64 \<Rightarrow> f64 option) \<Rightarrow> f64 \<Rightarrow> nat \<Rightarrow> nat \<Rightarrow> (nat \<times> f64) list" where
  "scan_key st similarity threshold n m =
     (if m \<noteq> n \<and> passes_bounds st threshold n m
      then (case similarity (chars (text_of st n)) (chars (text_of st m)) (f64_clamp threshold 0 1) of
          None \<Rightarrow> [] | Some score \<Rightarrow> hits_of_name st (m, score))
      else [])"

definition query_hits ::
  "'m resident_store \<Rightarrow> (nat list \<Rightarrow> nat list \<Rightarrow> f64 \<Rightarrow> f64 option) \<Rightarrow> f64 \<Rightarrow> nat \<Rightarrow> (nat \<times> f64) list" where
  "query_hits st similarity threshold n =
     hits_of_name st (n, 1) @
     (if 1 < threshold \<or> threshold = NaN then []
      else concat (map (scan_key st similarity threshold n) (rs_name_keys_by_len st)))"

lemma concat_if: "concat (map f (filter P xs)) = concat (map (\<lambda>x. if P x then f x else []) xs)"
  by (induction xs) simp_all

lemma window_scan:
  fixes threshold :: f64
  assumes laid: "names_laid st" and len: "is_len (name_len st n)"
  defines "lo \<equiv> window_start (rs_name_key_char_lens st) (name_len st n) threshold"
    and "hi \<equiv> window_end (rs_name_key_char_lens st) (name_len st n) threshold"
  shows "hi \<le> key_count st"
    "concat (map (\<lambda>i. near_hit st similarity threshold n (key_at st i)) [lo..<hi]) =
      concat (map (scan_key st similarity threshold n) (rs_name_keys_by_len st))"
proof -
  let ?lens = "rs_name_key_char_lens st" and ?n = "key_count st"
  have lens: "sorted ?lens" "length ?lens = ?n" "\<And>i. i < ?n \<Longrightarrow> ?lens ! i = name_len st (key_at st i)"
    using names_laidD(5,6) [OF laid] by simp_all
  have "\<forall>c \<in> set ?lens. is_len c"
    using names_laidD(4) [OF laid] lens(2,3) by (force simp: in_set_conv_nth [of _ ?lens] is_len_def)
  from length_window_exact_gen [OF lens(1) len this] lens
  have window: "i < ?n \<Longrightarrow> lo \<le> i \<and> i < hi \<longleftrightarrow> name_len st (key_at st i) = name_len st n \<or>
      lengths_can_reach (name_len st n) (name_len st (key_at st i)) threshold" and hi: "hi \<le> ?n" for i
    by (auto simp: lo_def hi_def)
  show "hi \<le> ?n" by (rule hi)
  have "[lo..<hi] = filter (\<lambda>i. lo \<le> i \<and> i < hi) [0..<?n]"
    using hi by (intro sorted_distinct_set_unique) (auto simp: sorted_wrt_filter)
  then have "concat (map (\<lambda>i. near_hit st similarity threshold n (key_at st i)) [lo..<hi]) =
      concat (map (\<lambda>i. if lo \<le> i \<and> i < hi then near_hit st similarity threshold n (key_at st i) else []) [0..<?n])"
    by (simp only: concat_if)
  also have "map (\<lambda>i. if lo \<le> i \<and> i < hi then near_hit st similarity threshold n (key_at st i) else []) [0..<?n] =
      map (\<lambda>i. scan_key st similarity threshold n (key_at st i)) [0..<?n]"
  proof (intro map_cong refl)
    fix i assume "i \<in> set [0..<?n]"
    then have "i < ?n" by simp
    from window [OF this] show "(if lo \<le> i \<and> i < hi then near_hit st similarity threshold n (key_at st i) else []) =
        scan_key st similarity threshold n (key_at st i)"
      by (auto simp: near_hit_def scan_key_def passes_bounds_def)
  qed
  also have "map (\<lambda>i. scan_key st similarity threshold n (key_at st i)) [0..<?n] =
      map (scan_key st similarity threshold n) (rs_name_keys_by_len st)"
    by (rule nth_equalityI) simp_all
  finally show "concat (map (\<lambda>i. near_hit st similarity threshold n (key_at st i)) [lo..<hi]) =
      concat (map (scan_key st similarity threshold n) (rs_name_keys_by_len st))" .
qed

text \<open>A scratch between two queries.\<close>

definition between_queries :: "'m resident_store \<Rightarrow> nat \<Rightarrow> hit_graph \<times> nat set \<Rightarrow> name_query_scratch \<Rightarrow> bool" where
  "between_queries st seed acc scratch \<longleftrightarrow>
     seed \<notin> snd acc \<and> nq_emitted scratch = emitted_keys st (snd acc) \<and> seen_ok (nq_candidate_seen scratch)"

lemma emit_for_query_ok:
  fixes similarity :: "nat list \<Rightarrow> nat list \<Rightarrow> f64 \<Rightarrow> f64 option" and threshold :: f64
  assumes ok: "name_index_ok st" and len: "is_len (name_len st n)" and state: "between_queries st seed acc scratch"
  defines "acc' \<equiv> after_hits st seed (query_hits st similarity threshold n) acc"
  shows "\<exists>scratch'. emit_for_query st similarity seed (chain_of_contract st seed) n (text_of st n) threshold (fst acc, scratch) =
      Inr (fst acc', scratch') \<and> between_queries st seed acc' scratch'"
proof -
  obtain tok where laid: "names_laid st" "tokens_laid st tok" using ok by (auto simp: name_index_ok_def)
  obtain q scratch1 where prep: "prepare_query st n (text_of st n) scratch = Inr (q, scratch1)" "query_of st n q"
    "nq_query_chars scratch1 = chars (text_of st n)" "nq_emitted scratch1 = nq_emitted scratch"
    "nq_candidate_seen scratch1 = nq_candidate_seen scratch"
    using prepare_query_ok [OF laid] by blast
  have "in_query st seed n acc scratch1" using state prep by (simp add: in_query_def between_queries_def)
  from emit_into_in_query [OF ok this, of "(n, 1)"] obtain scratch2 where
    exact: "emit_into st seed (chain_of_contract st seed) (n, 1) (fst acc, scratch1) =
      Inr (fst (after_hits st seed (hits_of_name st (n, 1)) acc), scratch2)"
    "in_query st seed n (after_hits st seed (hits_of_name st (n, 1)) acc) scratch2"
    "nq_candidate_seen scratch2 = nq_candidate_seen scratch" using prep(5) by auto
  let ?acc = "after_hits st seed (hits_of_name st (n, 1)) acc"
  have seen: "seen_ok (nq_candidate_seen scratch2)" using state exact(3) by (simp add: between_queries_def)
  show ?thesis
  proof (cases "1 < threshold \<or> threshold = NaN \<or> rs_name_keys_by_len st = []")
    case True
    then have "acc' = ?acc" by (auto simp: acc'_def query_hits_def)
    moreover have "emit_for_query st similarity seed (chain_of_contract st seed) n (text_of st n) threshold (fst acc, scratch) =
        Inr (fst ?acc, scratch2)"
      using True by (auto simp: emit_for_query_def prep(1) exact(1))
    moreover have "between_queries st seed ?acc scratch2" using exact(2) seen by (simp add: between_queries_def in_query_def)
    ultimately show ?thesis by simp
  next
    case False
    let ?lo = "window_start (rs_name_key_char_lens st) (name_len st n) threshold"
      and ?hi = "window_end (rs_name_key_char_lens st) (name_len st n) threshold"
    let ?scratch = "scratch2\<lparr>nq_candidate_seen := begin_query (key_count st) (nq_candidate_seen scratch2)\<rparr>"
    have qlen: "qn_len q = name_len st n" using prep(2) by (simp add: query_of_def)
    have run: "emit_for_query st similarity seed (chain_of_contract st seed) n (text_of st n) threshold (fst acc, scratch) =
        emit_groups st similarity seed (chain_of_contract st seed) threshold q ?hi ?lo (fst ?acc, ?scratch)"
      using False by (simp add: emit_for_query_def prep(1) exact(1) qlen Let_def)
    have "in_query st seed n ?acc ?scratch" using exact(2) by (simp add: in_query_def)
    moreover have "seen_ready (key_count st) (nq_candidate_seen ?scratch)" using name_seen.begin_ready [OF seen] by simp
    moreover have "seen_members (nq_candidate_seen ?scratch) \<subseteq> {..<?lo}" using name_seen.begin_members [OF seen] by simp
    ultimately obtain scratch3 where
      groups: "emit_groups st similarity seed (chain_of_contract st seed) threshold q ?hi ?lo (fst ?acc, ?scratch) =
        Inr (fst (after_hits st seed (concat (map (\<lambda>i. near_hit st similarity threshold n (key_at st i)) [?lo..<?hi])) ?acc), scratch3)"
      "in_query st seed n (after_hits st seed (concat (map (\<lambda>i. near_hit st similarity threshold n (key_at st i)) [?lo..<?hi])) ?acc) scratch3"
      "seen_ready (key_count st) (nq_candidate_seen scratch3)"
      using emit_groups_ok [OF ok prep(2) window_scan(1) [OF laid(1) len]] by blast
    have "acc' = after_hits st seed (concat (map (\<lambda>i. near_hit st similarity threshold n (key_at st i)) [?lo..<?hi])) ?acc"
      unfolding window_scan(2) [OF laid(1) len] using False by (simp add: acc'_def query_hits_def after_hits_append)
    then show ?thesis using run groups by (auto simp: between_queries_def in_query_def seen_ready_def)
  qed
qed

section \<open>The query of a seed\<close>

definition seed_ids :: "'m resident_store \<Rightarrow> nat \<Rightarrow> nat list" where
  "seed_ids st seed =
     (if evm_contract st seed then (case ct_name_id (rs_contracts st ! seed) of Some n \<Rightarrow> [n] | None \<Rightarrow> [])
      else first_occurrences (names_of_contract st seed))"

lemma seed_ids_keys:
  assumes ok: "name_index_ok st" and seed: "seed < length (rs_contracts st)" and n: "n \<in> set (seed_ids st seed)"
  shows "n \<in> set (rs_name_keys_by_len st)" "known_string st n" "is_len (name_len st n)"
proof -
  have ready: "names_ready st" and laid: "names_laid st" using ok by (simp_all add: name_index_ok_def)
  show key: "n \<in> set (rs_name_keys_by_len st)"
  proof (cases "evm_contract st seed")
    case True
    then have "ct_name_id (rs_contracts st ! seed) = Some n" using n by (simp add: seed_ids_def split: option.splits)
    then have "contract_mode st seed n" using ok seed by (simp add: name_index_ok_def contract_names_ok_def)
    then show ?thesis using ok seed by (auto simp: name_index_ok_def)
  next
    case False
    then have "n \<in> set (names_of_contract st seed)" using n by (simp add: seed_ids_def)
    then obtain i where "i < length (rs_nfts st)" "nf_contract_id (rs_nfts st ! i) = seed" "nf_name_id (rs_nfts st ! i) = Some n"
      "is_usable_name (text_of st n)"
      by (force simp: names_of_contract_def usable_names_def List.map_filter_def in_set_conv_nth [of _ "rs_nfts st"])
    then have "solana_name st i n" "i < length (rs_nfts st)" using False by (simp_all add: solana_name_def)
    then show ?thesis using ok by (auto simp: name_index_ok_def)
  qed
  then obtain i where "i < key_count st" "key_at st i = n" by (auto simp: in_set_conv_nth)
  then show "known_string st n" "is_len (name_len st n)"
    using names_laidD(3,4) [OF laid, of i] by (simp_all add: is_len_def)
qed

lemma collect_ids_fold:
  assumes "names_ready st" "\<forall>i \<in> set is. i < length (rs_nfts st)" "seen = set ids"
  shows "res_fold (collect_query_id st) is (seen, ids) =
    (let new = usable_names st (map ((!) (rs_nfts st)) is)
     in Inr (seen \<union> set new, ids @ filter (\<lambda>n. n \<notin> seen) (first_occurrences new)))"
  using assms(2)
proof (induction "is" rule: rev_induct)
  case Nil
  then show ?case by (simp add: contract_name_pairs_simps)
next
  case (snoc i "is")
  let ?nft = "rs_nfts st ! i" and ?old = "usable_names st (map ((!) (rs_nfts st)) is)"
  have snoc_names: "usable_names st (map ((!) (rs_nfts st)) (is @ [i])) =
      ?old @ (case opt_filter (\<lambda>n. is_usable_name (text_of st n)) (nf_name_id ?nft) of Some n \<Rightarrow> [n] | None \<Rightarrow> [])"
    by (cases "nf_name_id ?nft"; simp add: usable_names_def List.map_filter_def)
  have "collect_query_id st i acc = Inr (case opt_filter (\<lambda>n. is_usable_name (text_of st n)) (nf_name_id ?nft) of
      Some n \<Rightarrow> if n \<in> fst acc then acc else (insert n (fst acc), snd acc @ [n]) | None \<Rightarrow> acc)" for acc
  proof (cases "nf_name_id ?nft")
    case (Some n)
    have "?nft \<in> set (rs_nfts st)" using snoc.prems by simp
    from nft_name_known [OF assms(1) this Some] snoc.prems Some show ?thesis
      by (auto simp: collect_query_id_def or_panic_def split_def opt_filter_def)
  qed (use snoc.prems in \<open>simp add: collect_query_id_def or_panic_def split_def\<close>)
  with snoc show ?case
    by (cases "opt_filter (\<lambda>n. is_usable_name (text_of st n)) (nf_name_id ?nft)")
      (auto simp: res_fold_append snoc_names Let_def first_occurrences_snoc simp del: opt_filter_eq_Some map_append)
qed

lemma seed_query_ids_ok:
  assumes ok: "name_index_ok st" and seed: "seed < length (rs_contracts st)"
    and posts: "rs_contract_nft_csr st = build_contract_nft_csr (rs_nfts st)" "length (rs_nfts st) < 2 ^ 32"
  shows "\<exists>seen. seed_query_ids st seed (rs_contracts st ! seed) (evm_contract st seed) = Inr (seen, seed_ids st seed)"
proof (cases "evm_contract st seed")
  case False
  have ready: "names_ready st" using ok by (simp add: name_index_ok_def)
  let ?ids = "filter (\<lambda>i. nf_contract_id (rs_nfts st ! i) = seed) [0..<length (rs_nfts st)]"
  have "map ((!) (rs_nfts st)) ?ids = filter (\<lambda>nft. nf_contract_id nft = seed) (map ((!) (rs_nfts st)) [0..<length (rs_nfts st)])"
    by (simp add: filter_map comp_def)
  then have "usable_names st (map ((!) (rs_nfts st)) ?ids) = names_of_contract st seed"
    by (simp only: map_nth names_of_contract_def)
  moreover have "unwrap_or [] (csr_values_for (rs_contract_nft_csr st) seed) = ?ids"
    using nfts_for_contract_eq [OF posts(2,1), of seed] by (simp add: nfts_for_contract_def)
  ultimately show ?thesis
    using collect_ids_fold [OF ready, of ?ids "{}" "[]"] False by (simp add: seed_query_ids_def seed_ids_def Let_def)
qed (simp add: seed_query_ids_def seed_ids_def)

definition hits_of_ids ::
  "'m resident_store \<Rightarrow> (nat list \<Rightarrow> nat list \<Rightarrow> f64 \<Rightarrow> f64 option) \<Rightarrow> f64 \<Rightarrow> nat list \<Rightarrow> (nat \<times> f64) list" where
  "hits_of_ids st similarity threshold ids = concat (map (query_hits st similarity threshold) ids)"

lemma run_queries_ok:
  fixes similarity :: "nat list \<Rightarrow> nat list \<Rightarrow> f64 \<Rightarrow> f64 option" and threshold :: f64
  assumes ok: "name_index_ok st" and go: "\<forall>p. \<not> cancelled p"
    and "\<forall>n \<in> set ids. known_string st n \<and> is_len (name_len st n)" "between_queries st seed acc scratch"
  shows "\<exists>scratch'. res_fold (run_query cancelled st similarity seed (chain_of_contract st seed) threshold) ids (fst acc, scratch) =
      Inr (fst (after_hits st seed (hits_of_ids st similarity threshold ids) acc), scratch') \<and>
    between_queries st seed (after_hits st seed (hits_of_ids st similarity threshold ids) acc) scratch'"
  using assms(3,4)
proof (induction ids arbitrary: acc scratch)
  case (Cons n ids)
  let ?acc = "after_hits st seed (query_hits st similarity threshold n) acc"
  have n: "known_string st n" "is_len (name_len st n)" using Cons.prems(1) by simp_all
  from emit_for_query_ok [OF ok n(2) Cons.prems(2), of similarity threshold] obtain scratch1 where
    one: "emit_for_query st similarity seed (chain_of_contract st seed) n (text_of st n) threshold (fst acc, scratch) =
      Inr (fst ?acc, scratch1)" "between_queries st seed ?acc scratch1" by blast
  from Cons.IH [OF _ one(2)] Cons.prems(1) obtain scratch2 where
    two: "res_fold (run_query cancelled st similarity seed (chain_of_contract st seed) threshold) ids (fst ?acc, scratch1) =
      Inr (fst (after_hits st seed (hits_of_ids st similarity threshold ids) ?acc), scratch2)"
    "between_queries st seed (after_hits st seed (hits_of_ids st similarity threshold ids) ?acc) scratch2" by auto
  have hits: "after_hits st seed (hits_of_ids st similarity threshold (n # ids)) acc =
      after_hits st seed (hits_of_ids st similarity threshold ids) ?acc"
    by (simp add: hits_of_ids_def after_hits_append)
  have "run_query cancelled st similarity seed (chain_of_contract st seed) threshold n (fst acc, scratch) = Inr (fst ?acc, scratch1)"
    using go n(1) one(1) by (simp add: run_query_def check_cancelled_def)
  with two show ?case unfolding hits by simp
qed (simp add: hits_of_ids_def)

section \<open>Parallel chunks\<close>

lemma first_by_subset: "set (first_by hs S) \<subseteq> set hs"
  by (induction hs S rule: first_by.induct) auto

lemma fst_first_by: "fst ` set (first_by hs S) = fst ` set hs - S"
  by (induction hs S rule: first_by.induct) (auto simp: insert_absorb)

text \<open>Dropping repeated candidates twice is dropping them once.\<close>

lemma first_by_first_by: "T \<subseteq> S \<Longrightarrow> first_by (first_by hs T) S = first_by hs S"
proof (induction hs T arbitrary: S rule: first_by.induct)
  case (2 h hs T)
  show ?case
  proof (cases "fst h \<in> T")
    case True
    then show ?thesis using 2 by (simp add: subset_iff)
  next
    case False
    show ?thesis
    proof (cases "fst h \<in> S")
      case True
      then have "insert (fst h) T \<subseteq> S" using "2.prems" by simp
      then show ?thesis using "2.IH"(2) [OF False] True False by simp
    next
      case out: False
      have "insert (fst h) T \<subseteq> insert (fst h) S" using "2.prems" by auto
      then show ?thesis using "2.IH"(2) [OF False] out False by simp
    qed
  qed
qed simp

lemma first_by_chunks:
  assumes "T \<subseteq> S"
  shows "first_by (concat (map (\<lambda>hs. first_by hs T) hss)) S = first_by (concat hss) S"
  using assms
proof (induction hss arbitrary: S)
  case (Cons hs hss)
  have "S \<union> fst ` set (first_by hs T) = S \<union> fst ` set hs" using Cons.prems by (auto simp: fst_first_by)
  moreover have "T \<subseteq> S \<union> fst ` set hs" using Cons.prems by auto
  ultimately show ?case using Cons first_by_first_by [OF Cons.prems] by (simp add: first_by_append)
qed simp

lemma first_by_unseen: "\<forall>h \<in> set hits. fst h \<noteq> seed \<Longrightarrow> first_by hits S = first_by hits (insert seed S)"
  by (induction hits S rule: first_by.induct) (auto simp: insert_commute)

lemma concat_map_concat: "concat (map (\<lambda>xs. concat (map f xs)) xss) = concat (map f (concat xss))"
  by (induction xss) simp_all

text \<open>Merging the edges of the chunks is emitting their hits.\<close>

lemma merge_edges_fold:
  assumes "seed \<notin> S" "\<forall>h \<in> set hits. fst h \<noteq> seed"
  shows "fold merge_edge (map (collection_edge st seed) hits) (g, emitted_keys st S) =
    (g\<lparr>hg_edges := hg_edges g @ map (collection_edge st seed) (first_by hits S)\<rparr>, emitted_keys st (S \<union> fst ` set hits))"
  using assms
proof (induction hits arbitrary: g S)
  case (Cons h hits)
  have h: "fst h \<noteq> seed" using Cons.prems by simp
  have key: "(he_candidate_contract (collection_edge st seed h), he_secondary_chain (collection_edge st seed h)) =
      (fst h, chain_of_contract st (fst h))" by (simp add: collection_edge_def)
  show ?case
  proof (cases "fst h \<in> S")
    case True
    then have "merge_edge (collection_edge st seed h) (g, emitted_keys st S) = (g, emitted_keys st S)"
      by (simp add: merge_edge_def key emitted_keys_iff)
    then show ?thesis using Cons True by (simp add: insert_absorb)
  next
    case False
    let ?g = "g\<lparr>hg_edges := hg_edges g @ [collection_edge st seed h]\<rparr>"
    have "merge_edge (collection_edge st seed h) (g, emitted_keys st S) = (?g, emitted_keys st (insert (fst h) S))"
      using False h by (simp add: merge_edge_def key emitted_keys_iff push_edge_def) (simp add: collection_edge_def emitted_keys_def)
    moreover have "seed \<notin> insert (fst h) S" using Cons.prems h by simp
    ultimately show ?thesis using Cons.IH [of "insert (fst h) S" ?g] Cons.prems False by simp
  qed
qed (simp add: emitted_keys_def)

lemma query_name_eq:
  assumes "name_index_ok st" "rs_contract_nft_csr st = build_contract_nft_csr (rs_nfts st)" "length (rs_nfts st) < 2 ^ 32"
    "seed < length (rs_contracts st)" "\<forall>p. \<not> cancelled p" "\<forall>chunk. seen_ok (nq_candidate_seen (worker_scratch chunk))"
  shows "query_name_for_seed par worker_scratch cancelled st similarity seed threshold graph =
    Inr (graph\<lparr>hg_edges := hg_edges graph @
      map (collection_edge st seed) (first_by (hits_of_ids st similarity threshold (seed_ids st seed)) {seed})\<rparr>)"
proof -
  note ok = assms(1) and seed = assms(4)
  have ready: "names_ready st" using ok by (simp add: name_index_ok_def)
  let ?ids = "seed_ids st seed" and ?chain = "chain_of_contract st seed"
  have ids: "\<forall>n \<in> set ?ids. known_string st n \<and> is_len (name_len st n)" using seed_ids_keys [OF ok seed] by blast
  obtain seen where query_ids: "seed_query_ids st seed (rs_contracts st ! seed) (evm_contract st seed) = Inr (seen, ?ids)"
    using seed_query_ids_ok [OF ok seed assms(2,3)] by blast
  have chain: "ct_chain_id (rs_contracts st ! seed) = ?chain" by (simp add: chain_of_contract_def)
  define scratch where "scratch = (for_worker_pool (key_count st) 1)\<lparr>nq_query_ids := ?ids, nq_query_id_seen := seen, nq_emitted := {}\<rparr>"
  have between: "between_queries st seed (graph, {}) scratch"
    by (simp add: between_queries_def scratch_def for_worker_pool_def worker_pool_seen_ok emitted_keys_def)
  let ?result = "graph\<lparr>hg_edges := hg_edges graph @ map (collection_edge st seed) (first_by (hits_of_ids st similarity threshold ?ids) {seed})\<rparr>"
  have run: "query_name_for_seed par worker_scratch cancelled st similarity seed threshold graph =
    res_bind (if length ?ids > parallel_name_query_chunk \<and> par
              then res_bind
                  (par_collect (map (\<lambda>chunk. query_chunk cancelled st similarity seed ?chain threshold (worker_scratch chunk) chunk)
                     (chunks_of parallel_name_query_chunk ?ids)))
                  (\<lambda>graphs. let (graph, emitted) = fold merge_edge (concat (map into_edges graphs)) (graph, {})
                     in Inr (graph, scratch\<lparr>nq_emitted := emitted\<rparr>))
              else res_fold (run_query cancelled st similarity seed ?chain threshold) ?ids (graph, scratch))
      (\<lambda>(graph, _). Inr graph)"
    using seed assms(5) on_evm_chain_eq [OF ready seed] query_ids
    by (simp add: query_name_for_seed_def query_name_for_seed_with_scratch_def check_cancelled_def chain Let_def
        scratch_def [symmetric] flip: if_distrib) (simp add: scratch_def Let_def)
  show ?thesis
  proof (cases "length ?ids > parallel_name_query_chunk \<and> par")
    case False
    from run_queries_ok [OF ok assms(5) ids between, of similarity threshold] obtain scratch' where
      "res_fold (run_query cancelled st similarity seed ?chain threshold) ?ids (graph, scratch) =
        Inr (fst (after_hits st seed (hits_of_ids st similarity threshold ?ids) (graph, {})), scratch')" by auto
    then show ?thesis unfolding run if_not_P [OF False] by (simp add: after_hits_def)
  next
    case True
    let ?chunks = "chunks_of parallel_name_query_chunk ?ids"
    let ?g = "\<lambda>chunk. \<lparr>hg_edges = map (collection_edge st seed) (first_by (hits_of_ids st similarity threshold chunk) {seed})\<rparr>"
    have chunk: "query_chunk cancelled st similarity seed ?chain threshold (worker_scratch chunk) chunk = Inr (?g chunk)"
      if "chunk \<in> set ?chunks" for chunk
    proof -
      have sub: "\<forall>n \<in> set chunk. known_string st n \<and> is_len (name_len st n)" using chunks_of_nonempty [OF that] ids by blast
      have "between_queries st seed (hit_graph_new, {}) ((worker_scratch chunk)\<lparr>nq_emitted := {}\<rparr>)"
        using assms(6) by (simp add: between_queries_def emitted_keys_def)
      from run_queries_ok [OF ok assms(5) sub this, of similarity threshold] obtain scratch' where
        "res_fold (run_query cancelled st similarity seed ?chain threshold) chunk (hit_graph_new, (worker_scratch chunk)\<lparr>nq_emitted := {}\<rparr>) =
          Inr (fst (after_hits st seed (hits_of_ids st similarity threshold chunk) (hit_graph_new, {})), scratch')" by auto
      then show ?thesis by (simp add: query_chunk_def after_hits_def hit_graph_new_def)
    qed
    have collect: "par_collect (map (\<lambda>chunk. query_chunk cancelled st similarity seed ?chain threshold (worker_scratch chunk) chunk) ?chunks) =
        Inr (map ?g ?chunks)" using chunk by (rule par_collect_map)
    let ?hits = "concat (map (\<lambda>chunk. first_by (hits_of_ids st similarity threshold chunk) {seed}) ?chunks)"
    have edges: "concat (map into_edges (map ?g ?chunks)) = map (collection_edge st seed) ?hits"
      by (simp add: into_edges_def map_concat comp_def)
    have fresh: "\<forall>h \<in> set ?hits. fst h \<noteq> seed"
    proof
      fix h assume "h \<in> set ?hits"
      then obtain chunk where "h \<in> set (first_by (hits_of_ids st similarity threshold chunk) {seed})" by auto
      then have "fst h \<in> fst ` set (first_by (hits_of_ids st similarity threshold chunk) {seed})" by (rule imageI)
      then show "fst h \<noteq> seed" by (simp add: fst_first_by)
    qed
    have merged: "fold merge_edge (map (collection_edge st seed) ?hits) (graph, emitted_keys st {}) =
        (graph\<lparr>hg_edges := hg_edges graph @ map (collection_edge st seed) (first_by ?hits {})\<rparr>, emitted_keys st ({} \<union> fst ` set ?hits))"
      by (rule merge_edges_fold) (use fresh in simp_all)
    have "concat ?chunks = ?ids" by (rule concat_chunks_of) (simp add: parallel_name_query_chunk_def)
    then have flat: "concat (map (hits_of_ids st similarity threshold) ?chunks) = hits_of_ids st similarity threshold ?ids"
      unfolding hits_of_ids_def by (metis concat_map_concat)
    have "first_by ?hits {} = first_by ?hits {seed}"
      using fresh by (intro first_by_unseen)
    also have "\<dots> = first_by (hits_of_ids st similarity threshold ?ids) {seed}"
      using first_by_chunks [of "{seed}" "{seed}" "map (hits_of_ids st similarity threshold) ?chunks"] flat by (simp add: comp_def)
    finally have "first_by ?hits {} = first_by (hits_of_ids st similarity threshold ?ids) {seed}" .
    then show ?thesis unfolding run if_P [OF True] collect res_bind_simps edges
      using merged by (simp add: emitted_keys_def)
  qed
qed

text \<open>C28. The name query is exact and does not depend on how it is run: on a finalized index, with any
  worker scratches, any number of threads and any behaviour of the similarity, the query of a seed appends to
  the graph one edge per candidate collection, the first hit of each, in the order of the query names and of
  the exhaustive scan over all names by length that pass the bounds; chunks in parallel and the
  sequential loop give the same graph.\<close>

theorem query_name_exact:
  assumes "name_index_ok st" "rs_contract_nft_csr st = build_contract_nft_csr (rs_nfts st)" "length (rs_nfts st) < 2 ^ 32"
    "seed < length (rs_contracts st)" "\<forall>p. \<not> cancelled p" "\<forall>chunk. seen_ok (nq_candidate_seen (worker_scratch chunk))"
  shows "query_name_for_seed par worker_scratch cancelled st similarity seed threshold graph =
    Inr (graph\<lparr>hg_edges := hg_edges graph @
      map (collection_edge st seed) (first_by (hits_of_ids st similarity threshold (seed_ids st seed)) {seed})\<rparr>)"
  by (rule query_name_eq [OF assms])

section \<open>Nothing is lost\<close>

text \<open>What the bounds promise of the similarity (the first line of
  \<open>src/analysis2/crates/core/src/dedup/name/bounds.rs\<close>): they exclude no pair of names that it accepts.\<close>

definition bounds_sound :: "(nat list \<Rightarrow> nat list \<Rightarrow> f64 \<Rightarrow> f64 option) \<Rightarrow> f64 \<Rightarrow> bool" where
  "bounds_sound similarity threshold \<longleftrightarrow>
     (\<forall>a b score. is_len (length a) \<and> is_len (length b) \<and> similarity a b (f64_clamp threshold 0 1) = Some score \<longrightarrow>
        (length b = length a \<or> lengths_can_reach (length a) (length b) threshold) \<and>
        minimum_multiset_overlap (length a) (length b) threshold \<le> overlap (sort a) (sort b))"

definition similar_names ::
  "'m resident_store \<Rightarrow> (nat list \<Rightarrow> nat list \<Rightarrow> f64 \<Rightarrow> f64 option) \<Rightarrow> f64 \<Rightarrow> nat \<Rightarrow> nat \<Rightarrow> bool" where
  "similar_names st similarity threshold n m \<longleftrightarrow>
     m = n \<or> similarity (chars (text_of st n)) (chars (text_of st m)) (f64_clamp threshold 0 1) \<noteq> None"

lemma candidates_of_hits [simp]: "fst ` set (hits_of_name st h) = set (name_candidates st (fst h))"
  by (simp add: hits_of_name_def image_image)

lemma sound_scan:
  assumes ok: "name_index_ok st" and sound: "bounds_sound similarity threshold" and n: "is_len (name_len st n)"
    and m: "m \<in> set (rs_name_keys_by_len st)"
  shows "fst ` set (scan_key st similarity threshold n m) =
    (if m \<noteq> n \<and> similar_names st similarity threshold n m then set (name_candidates st m) else {})"
proof -
  have laid: "names_laid st" using ok by (simp add: name_index_ok_def)
  obtain i where "i < key_count st" "key_at st i = m" using m by (auto simp: in_set_conv_nth)
  then have "is_len (name_len st m)" using names_laidD(4) [OF laid, of i] by (simp add: is_len_def)
  then have pass: "passes_bounds st threshold n m"
    if "similarity (chars (text_of st n)) (chars (text_of st m)) (f64_clamp threshold 0 1) = Some score" for score
    using sound n that by (auto simp: bounds_sound_def passes_bounds_def name_len_def common_chars_def sorted_name_def)
  show ?thesis
  proof (cases "similarity (chars (text_of st n)) (chars (text_of st m)) (f64_clamp threshold 0 1)")
    case (Some score)
    then have "scan_key st similarity threshold n m = (if m \<noteq> n then hits_of_name st (m, score) else [])"
      unfolding scan_key_def using pass [OF Some] by (metis (no_types, lifting) option.simps(5))
    moreover have "similar_names st similarity threshold n m" using Some by (simp add: similar_names_def)
    ultimately show ?thesis by (cases "m = n") simp_all
  next
    case None
    then have "scan_key st similarity threshold n m = []" by (simp add: scan_key_def)
    moreover have "\<not> (m \<noteq> n \<and> similar_names st similarity threshold n m)" using None by (simp add: similar_names_def)
    ultimately show ?thesis by (simp only: if_False list.set image_empty)
  qed
qed

lemma hits_candidates:
  assumes ok: "name_index_ok st" and sound: "bounds_sound similarity threshold" and go: "\<not> 1 < threshold" "threshold \<noteq> NaN"
    and ids: "\<forall>n \<in> set ids. n \<in> set (rs_name_keys_by_len st) \<and> is_len (name_len st n)"
  shows "fst ` set (hits_of_ids st similarity threshold ids) =
    {c. \<exists>n \<in> set ids. \<exists>m \<in> set (rs_name_keys_by_len st). similar_names st similarity threshold n m \<and> c \<in> set (name_candidates st m)}"
proof -
  have "fst ` set (query_hits st similarity threshold n) =
      {c. \<exists>m \<in> set (rs_name_keys_by_len st). similar_names st similarity threshold n m \<and> c \<in> set (name_candidates st m)}"
    if n: "n \<in> set ids" for n
  proof -
    have key: "n \<in> set (rs_name_keys_by_len st)" "is_len (name_len st n)" using ids n by blast+
    have "fst ` set (query_hits st similarity threshold n) =
        set (name_candidates st n) \<union> (\<Union>m \<in> set (rs_name_keys_by_len st). fst ` set (scan_key st similarity threshold n m))"
      using go by (simp add: query_hits_def image_Un image_UN)
    also have "\<dots> = set (name_candidates st n) \<union> (\<Union>m \<in> set (rs_name_keys_by_len st).
        if m \<noteq> n \<and> similar_names st similarity threshold n m then set (name_candidates st m) else {})"
      using sound_scan [OF ok sound key(2)] by simp
    also have "\<dots> = {c. \<exists>m \<in> set (rs_name_keys_by_len st). similar_names st similarity threshold n m \<and> c \<in> set (name_candidates st m)}"
      using key(1) by (auto simp: similar_names_def split: if_splits)
    finally show ?thesis .
  qed
  then show ?thesis unfolding hits_of_ids_def by (auto simp: image_UN)
qed

lemma distinct_first_by: "distinct (map fst (first_by hs S))"
proof (induction hs S rule: first_by.induct)
  case (2 h hs S)
  then show ?case using fst_first_by [of hs "insert (fst h) S"] by auto
qed simp

lemma jaro_winkler_sound:
  assumes "is_jaro_winkler similarity threshold" "round_f64 (83 / 100) \<le> threshold" "threshold \<le> 1"
  shows "bounds_sound similarity threshold"
proof -
  have "0 \<le> threshold" by (rule f64_le_trans [OF round_f64_nonneg assms(2)]) simp
  then have "f64_clamp threshold 0 1 = threshold" using assms(3) by (simp add: f64_clamp_def f64_le_iff)
  then show ?thesis using jaro_winkler_bounds [OF assms] unfolding bounds_sound_def by metis
qed

text \<open>C29. Nothing is lost: if the comparator is a Jaro-Winkler similarity (\<open>is_jaro_winkler\<close>: its scores are
  the values of the metric up to \<open>10 ^ (-13)\<close>) and the threshold lies between 0.83 and 1 (the default is
  0.98), the query, pruned by the length window and the overlap of the characters, finds exactly the
  collections an exhaustive comparison of every name of the seed with every indexed name finds, each once: a
  collection is a hit if and only if it is not the seed and carries a name that equals a name of the seed or
  that the comparator accepts.  Below 0.82 the bonus of the metric, which sets in at 0.7, can depend on a
  rounding error of the comparator.\<close>

theorem query_name_lossless:
  assumes "name_index_ok st" "rs_contract_nft_csr st = build_contract_nft_csr (rs_nfts st)" "length (rs_nfts st) < 2 ^ 32"
    "seed < length (rs_contracts st)" "\<forall>p. \<not> cancelled p" "\<forall>chunk. seen_ok (nq_candidate_seen (worker_scratch chunk))"
    "is_jaro_winkler similarity threshold" "round_f64 (83 / 100) \<le> threshold" "threshold \<le> 1"
  shows "\<exists>edges. query_name_for_seed par worker_scratch cancelled st similarity seed threshold hit_graph_new = Inr \<lparr>hg_edges = edges\<rparr> \<and>
    distinct (map he_candidate_contract edges) \<and>
    he_candidate_contract ` set edges =
      {c. c \<noteq> seed \<and> (\<exists>n \<in> set (seed_ids st seed). \<exists>m \<in> set (rs_name_keys_by_len st).
         similar_names st similarity threshold n m \<and> c \<in> set (name_candidates st m))}"
proof -
  have sound: "bounds_sound similarity threshold" by (rule jaro_winkler_sound [OF assms(7-9)])
  have go: "\<not> 1 < threshold" "threshold \<noteq> NaN" using assms(9) by (simp_all add: f64_le_iff)
  let ?hits = "first_by (hits_of_ids st similarity threshold (seed_ids st seed)) {seed}"
  have candidates: "map he_candidate_contract (map (collection_edge st seed) ?hits) = map fst ?hits"
    by (simp add: collection_edge_def comp_def)
  have ids: "\<forall>n \<in> set (seed_ids st seed). n \<in> set (rs_name_keys_by_len st) \<and> is_len (name_len st n)"
    using seed_ids_keys [OF assms(1,4)] by blast
  have "he_candidate_contract ` set (map (collection_edge st seed) ?hits) = fst ` set ?hits"
    using arg_cong [OF candidates, of set] by (simp add: image_image)
  also have "\<dots> = fst ` set (hits_of_ids st similarity threshold (seed_ids st seed)) - {seed}" by (rule fst_first_by)
  finally have found: "he_candidate_contract ` set (map (collection_edge st seed) ?hits) =
      {c. c \<noteq> seed \<and> (\<exists>n \<in> set (seed_ids st seed). \<exists>m \<in> set (rs_name_keys_by_len st).
         similar_names st similarity threshold n m \<and> c \<in> set (name_candidates st m))}"
    unfolding hits_candidates [OF assms(1) sound go ids] by auto
  have "query_name_for_seed par worker_scratch cancelled st similarity seed threshold hit_graph_new =
      Inr \<lparr>hg_edges = map (collection_edge st seed) ?hits\<rparr>"
    using query_name_eq [OF assms(1-6), of par similarity threshold hit_graph_new] by (simp add: hit_graph_new_def)
  moreover have "distinct (map he_candidate_contract (map (collection_edge st seed) ?hits))"
    unfolding candidates by (rule distinct_first_by)
  ultimately show ?thesis using found by blast
qed

section \<open>Examples\<close>

text \<open>A similarity that accepts equal names only.\<close>

definition same_name :: "nat list \<Rightarrow> nat list \<Rightarrow> f64 \<Rightarrow> f64 option" where
  "same_name a b cutoff = (if a = b then Some 1 else None)"

lemma name_example_run:
  "\<exists>st. finalize_name_index (\<lambda>n. [0..<n]) (\<lambda>_. False) name_example = Inr st \<and> name_index_ok st \<and>
     rs_contract_nft_csr st = build_contract_nft_csr (rs_nfts st) \<and> length (rs_nfts st) < 2 ^ 32 \<and> 3 < length (rs_contracts st)"
proof -
  from finalize_name_index_ok [OF name_example_ready upto_positions, of "\<lambda>_. False"]
  obtain st where "finalize_name_index (\<lambda>n. [0..<n]) (\<lambda>_. False) name_example = Inr st"
    "name_base st = name_base name_example" "name_index_ok st" "rs_contract_nft_csr st = build_contract_nft_csr (rs_nfts st)"
    by (auto simp: postings_current_def pool_volume_def utf8_width_def)
  then show ?thesis using name_baseD(1,5) [of st name_example] by (intro exI [of _ st]) simp
qed

theorem query_name_exact_witness:
  "\<exists>st. finalize_name_index (\<lambda>n. [0..<n]) (\<lambda>_. False) name_example = Inr st \<and>
     query_name_for_seed True (\<lambda>_. sparse_scratch) (\<lambda>_. False) st same_name 0 1 hit_graph_new =
     Inr (hit_graph_new\<lparr>hg_edges := hg_edges hit_graph_new @
       map (collection_edge st 0) (first_by (hits_of_ids st same_name 1 (seed_ids st 0)) {0})\<rparr>)"
proof -
  obtain st where st: "finalize_name_index (\<lambda>n. [0..<n]) (\<lambda>_. False) name_example = Inr st"
    and ok: "name_index_ok st" "rs_contract_nft_csr st = build_contract_nft_csr (rs_nfts st)" "length (rs_nfts st) < 2 ^ 32"
    and three: "3 < length (rs_contracts st)" using name_example_run by blast
  have zero: "0 < length (rs_contracts st)" using three by linarith
  have seen: "\<forall>chunk :: nat list. seen_ok (nq_candidate_seen sparse_scratch)" by (simp add: sparse_scratch_def seen_ok_def)
  from query_name_exact [OF ok zero _ seen, of "\<lambda>_. False" True same_name 1 hit_graph_new] st show ?thesis by blast
qed

theorem query_name_lossless_witness:
  "\<exists>st. finalize_name_index (\<lambda>n. [0..<n]) (\<lambda>_. False) name_example = Inr st \<and>
     (\<exists>edges. query_name_for_seed True (\<lambda>_. sparse_scratch) (\<lambda>_. False) st jaro_winkler_reference 0 (round_f64 (98 / 100)) hit_graph_new = Inr \<lparr>hg_edges = edges\<rparr> \<and>
       distinct (map he_candidate_contract edges) \<and>
       he_candidate_contract ` set edges =
         {c. c \<noteq> 0 \<and> (\<exists>n \<in> set (seed_ids st 0). \<exists>m \<in> set (rs_name_keys_by_len st).
            similar_names st jaro_winkler_reference (round_f64 (98 / 100)) n m \<and> c \<in> set (name_candidates st m))})"
proof -
  obtain st where st: "finalize_name_index (\<lambda>n. [0..<n]) (\<lambda>_. False) name_example = Inr st"
    and ok: "name_index_ok st" "rs_contract_nft_csr st = build_contract_nft_csr (rs_nfts st)" "length (rs_nfts st) < 2 ^ 32"
    and three: "3 < length (rs_contracts st)" using name_example_run by blast
  have zero: "0 < length (rs_contracts st)" using three by linarith
  have seen: "\<forall>chunk :: nat list. seen_ok (nq_candidate_seen sparse_scratch)" by (simp add: sparse_scratch_def seen_ok_def)
  have "round_f64 (83 / 100) \<le> round_f64 (98 / 100)" by (rule round_f64_mono) simp
  moreover have "round_f64 (98 / 100) \<le> 1" using round_f64_mono [of "98 / 100" 1] by (simp add: one_f64_def)
  ultimately show ?thesis using query_name_lossless [OF ok zero _ seen jaro_winkler_reference_ok, of "\<lambda>_. False" "round_f64 (98 / 100)" True] st by blast
qed

end
