(* ===== verification/F64Extra.thy ===== *)
theory F64Extra
  imports F64
begin

text \<open>
  Further operations of \<open>f64\<close> that the metadata scores use: \<open>sqrt\<close>, the neighbours of a value
  (\<open>next_up\<close>, \<open>next_down\<close>), \<open>is_normal\<close> and the machine epsilon.  Both zeros are one value, as in
  \<open>F64\<close>: their neighbours are the same.
\<close>

section \<open>Square root\<close>

text \<open>The integer square root by bisection.\<close>

function isqrt_between :: "int \<Rightarrow> int \<Rightarrow> int \<Rightarrow> int" where
  "isqrt_between n lo hi =
     (if hi - lo \<le> 1 then lo
      else let m = (lo + hi) div 2
        in if m * m \<le> n then isqrt_between n m hi else isqrt_between n lo m)"
  by pat_completeness auto
termination
  by (relation "measure (\<lambda>(_, lo, hi). nat (hi - lo))") auto

declare isqrt_between.simps [simp del]

definition isqrt :: "int \<Rightarrow> int" where
  "isqrt n = isqrt_between n 0 (n + 1)"

lemma isqrt_between_spec:
  "lo < hi \<Longrightarrow> lo * lo \<le> n \<Longrightarrow> n < hi * hi \<Longrightarrow>
   (let r = isqrt_between n lo hi in lo \<le> r \<and> r * r \<le> n \<and> n < (r + 1) * (r + 1))"
proof (induction n lo hi rule: isqrt_between.induct)
  case (1 n lo hi)
  show ?case
  proof (cases "hi - lo \<le> 1")
    case True
    with 1 have "hi = lo + 1" by simp
    with 1 True show ?thesis by (subst isqrt_between.simps) (simp add: Let_def)
  next
    case False
    let ?m = "(lo + hi) div 2"
    have "lo < ?m" "?m < hi" using False by linarith+
    with 1 False show ?thesis by (subst isqrt_between.simps) (fastforce simp: Let_def not_le)
  qed
qed

lemma isqrt_spec:
  assumes "0 \<le> n"
  shows "0 \<le> isqrt n \<and> isqrt n * isqrt n \<le> n \<and> n < (isqrt n + 1) * (isqrt n + 1)"
proof -
  have "n < (n + 1) * (n + 1)" using assms by (simp add: algebra_simps add_strict_increasing)
  then show ?thesis using isqrt_between_spec [of 0 "n + 1" n] assms by (simp add: isqrt_def Let_def)
qed

text \<open>The root of \<open>q\<close> has its last place at half the exponent of \<open>q\<close>; it is never subnormal.  A root
  cannot lie half way between two values of this precision, so ties do not occur.\<close>

definition f64_sqrt :: "f64 \<Rightarrow> f64" where
  "f64_sqrt x =
     (case x of
        NaN \<Rightarrow> NaN
      | Inf negative \<Rightarrow> if negative then NaN else Inf False
      | Fin q \<Rightarrow>
          if q < 0 then NaN
          else if q = 0 then Fin 0
          else let e = ilog2 q div 2 - 52;
                   n = isqrt \<lfloor>q / pow2 (2 * e)\<rfloor>;
                   middle = (of_int n + 1 / 2) * pow2 e
            in Fin (of_int (if q < middle * middle then n else n + 1) * pow2 e))"

section \<open>Neighbours\<close>

definition f64_max_value :: rat where
  "f64_max_value = (2 ^ 53 - 1) * 2 ^ 971"

definition f64_next_up :: "f64 \<Rightarrow> f64" where
  "f64_next_up x =
     (case x of
        NaN \<Rightarrow> NaN
      | Inf negative \<Rightarrow> if negative then Fin (- f64_max_value) else Inf False
      | Fin q \<Rightarrow>
          if q = 0 then Fin (pow2 (-1074))
          else if 0 < q then (if q = f64_max_value then Inf False else Fin (q + pow2 (last_place q)))
          else if - q = pow2 (ilog2 q) \<and> -1022 < ilog2 q then Fin (q + pow2 (last_place q - 1))
          else Fin (q + pow2 (last_place q)))"

definition f64_next_down :: "f64 \<Rightarrow> f64" where
  "f64_next_down x = f64_neg (f64_next_up (f64_neg x))"

definition f64_is_normal :: "f64 \<Rightarrow> bool" where
  "f64_is_normal x \<longleftrightarrow> (case x of Fin q \<Rightarrow> pow2 (-1022) \<le> \<bar>q\<bar> | _ \<Rightarrow> False)"

definition f64_epsilon :: f64 where
  "f64_epsilon = Fin (pow2 (-52))"

section \<open>Laws\<close>

lemma f64_mul_comm: "x * y = y * x" for x y :: f64
  by (cases x; cases y) (auto simp: times_f64_def mult.commute)

end
