(* ===== verification/Bm25.thy ===== *)
theory Bm25
  imports F64Extra NameTokens NameBounds Store Fallible "HOL-Library.Word"
begin

unbundle bit_operations_syntax

text \<open>
  The metadata scores (\<open>src/analysis2/crates/core/src/dedup/metadata/bm25.rs\<close>): tokens of a canonical
  document, prepared documents with a frequency histogram and a 128 bit mask of their terms, and the BM25
  cosine of a pair, whose corpus is the pair itself.  Terms are pairs of a term id and a frequency, sorted
  by id.  Sums are in binary64 and in the order of the code.  \<open>char::is_alphanumeric\<close> outside ASCII is the
  parameter \<open>alphanumeric\<close>, the Unicode table of the standard library.
\<close>

section \<open>Tokens\<close>

fun split_tokens :: "('a \<Rightarrow> bool) \<Rightarrow> 'a list \<Rightarrow> 'a list \<Rightarrow> 'a list list" where
  "split_tokens P token [] = (if token = [] then [] else [token])"
| "split_tokens P token (x # xs) =
     (if P x then split_tokens P (token @ [x]) xs
      else (if token = [] then [] else [token]) @ split_tokens P [] xs)"

definition ascii_alphanumeric :: "char \<Rightarrow> bool" where
  "ascii_alphanumeric c \<longleftrightarrow>
     (let n = of_char c :: nat in 48 \<le> n \<and> n \<le> 57 \<or> 65 \<le> n \<and> n \<le> 90 \<or> 97 \<le> n \<and> n \<le> 122)"

text \<open>The characters of a string, each with its bytes.\<close>

function char_bytes :: "string \<Rightarrow> string list" where
  "char_bytes [] = []"
| "char_bytes (b # bs) = (b # take (utf8_width b - 1) bs) # char_bytes (drop (utf8_width b - 1) bs)"
  by pat_completeness auto
termination
  by (relation "measure length") auto

definition scalar_of :: "string \<Rightarrow> nat" where
  "scalar_of bytes = utf8_scalar (hd bytes) (tl bytes)"

definition document_tokens :: "(nat \<Rightarrow> bool) \<Rightarrow> string \<Rightarrow> string list" where
  "document_tokens alphanumeric canonical =
     (if is_ascii canonical then split_tokens ascii_alphanumeric [] canonical
      else map concat (split_tokens (\<lambda>bytes. alphanumeric (scalar_of bytes)) [] (char_bytes canonical)))"

section \<open>Prepared documents\<close>

type_synonym doc_term = "nat \<times> nat"

datatype frequency_histogram = Inline nat "(nat \<times> nat) list" | Heap "(nat \<times> nat) list"

definition inline_frequencies :: nat where
  "inline_frequencies = 4"

text \<open>The first entry with the frequency is counted up; \<open>None\<close> if there is none.\<close>

fun bump :: "nat \<Rightarrow> (nat \<times> nat) list \<Rightarrow> (nat \<times> nat) list option" where
  "bump frequency [] = None"
| "bump frequency ((candidate, n) # entries) =
     (if candidate = frequency then Some ((candidate, u32 (n + 1)) # entries)
      else map_option ((#) (candidate, n)) (bump frequency entries))"

text \<open>The fixed array \<open>inline\<close> is represented by its used part, the rest is \<open>(0, 0)\<close>.\<close>

definition histogram_step ::
  "doc_term \<Rightarrow> (nat \<times> nat) list \<times> (nat \<times> nat) list option \<Rightarrow> (nat \<times> nat) list \<times> (nat \<times> nat) list option" where
  "histogram_step tid st =
     (let (inline, heap) = st; frequency = snd tid
      in case heap of
           Some entries \<Rightarrow> (inline, Some (unwrap_or (entries @ [(frequency, 1)]) (bump frequency entries)))
         | None \<Rightarrow>
             (case bump frequency inline of
                Some inline \<Rightarrow> (inline, None)
              | None \<Rightarrow>
                  if length inline < inline_frequencies then (inline @ [(frequency, 1)], None)
                  else (inline, Some (inline @ [(frequency, 1)]))))"

definition histogram_from_terms :: "doc_term list \<Rightarrow> frequency_histogram" where
  "histogram_from_terms terms =
     (case fold histogram_step terms ([], None) of
        (inline, Some entries) \<Rightarrow> Heap (sort_key fst entries)
      | (inline, None) \<Rightarrow>
          Inline (length inline) (sort_key fst inline @ replicate (inline_frequencies - length inline) (0, 0)))"

definition histogram_slice :: "frequency_histogram \<Rightarrow> (nat \<times> nat) list" where
  "histogram_slice histogram = (case histogram of Inline len entries \<Rightarrow> take len entries | Heap entries \<Rightarrow> entries)"

record prepared_document =
  pd_term_start :: nat
  pd_term_len :: nat
  pd_frequency_histogram :: frequency_histogram
  pd_term_mask :: "64 word \<times> 64 word"
  pd_length :: nat

definition sat_add_u32 :: "nat \<Rightarrow> nat \<Rightarrow> nat" where
  "sat_add_u32 a b = min (a + b) (2 ^ 32 - 1)"

definition mask_bit :: "nat \<Rightarrow> nat" where
  "mask_bit tid = unat (drop_bit 57 (of_nat tid * (0x9e3779b97f4a7c15 :: 64 word)))"

definition mark_term :: "nat \<Rightarrow> 64 word \<times> 64 word \<Rightarrow> 64 word \<times> 64 word" where
  "mark_term tid bits =
     (let b = mask_bit tid; word = push_bit (b mod 64) 1
      in if b div 64 = 0 then (fst bits OR word, snd bits) else (fst bits, snd bits OR word))"

definition from_compact_terms :: "doc_term list \<Rightarrow> prepared_document" where
  "from_compact_terms terms =
     (let (bits, len) = fold (\<lambda>(tid, frequency) (bits, len). (mark_term tid bits, sat_add_u32 len frequency)) terms ((0, 0), 0)
      in \<lparr>pd_term_start = 0, pd_term_len = u32 (length terms), pd_frequency_histogram = histogram_from_terms terms,
          pd_term_mask = bits, pd_length = len\<rparr>)"

definition set_term_start :: "nat \<Rightarrow> prepared_document \<Rightarrow> prepared_document" where
  "set_term_start start document = document\<lparr>pd_term_start := start\<rparr>"

definition document_terms_in :: "prepared_document \<Rightarrow> doc_term list \<Rightarrow> doc_term list result" where
  "document_terms_in document terms =
     or_panic (Csr.slice terms (pd_term_start document) (pd_term_start document + pd_term_len document))"

section \<open>Weights\<close>

definition bm25_k1 :: f64 where "bm25_k1 = round_f64 (12 / 10)"
definition bm25_b :: f64 where "bm25_b = round_f64 (75 / 100)"
definition idf_once :: f64 where "idf_once = round_f64 (693147180559945309417232121458 / 10 ^ 30)"
definition idf_shared :: f64 where "idf_shared = round_f64 (1823215567939546 / 10 ^ 16)"
definition idf_ratio_squared :: f64 where "idf_ratio_squared = (idf_shared / idf_once) * (idf_shared / idf_once)"
definition upper_bound_epsilon :: f64 where "upper_bound_epsilon = round_f64 (1 / 10 ^ 12)"
definition min_length_norm :: f64 where "min_length_norm = bm25_k1 * (1 - bm25_b)"
definition max_length_norm :: f64 where "max_length_norm = bm25_k1 * (1 - bm25_b + Fin 2 * bm25_b)"

definition length_norm :: "nat \<Rightarrow> f64 \<Rightarrow> f64" where
  "length_norm document_length avgdl = bm25_k1 * (1 - bm25_b + bm25_b * f64_of_nat document_length / f64_max avgdl 1)"

definition bm25_weight :: "nat \<Rightarrow> f64 \<Rightarrow> f64 \<Rightarrow> f64" where
  "bm25_weight frequency len_norm idf =
     (let frequency = f64_of_nat frequency;
          tf_norm = (frequency * (bm25_k1 + 1)) / (frequency + len_norm)
      in idf * tf_norm)"

definition histogram_entry ::
  "f64 \<Rightarrow> f64 \<Rightarrow> nat \<times> nat \<Rightarrow> f64 \<times> f64 \<times> nat \<Rightarrow> f64 \<times> f64 \<times> nat" where
  "histogram_entry len_norm unit_weight entry st =
     (let (frequency, n) = entry; (base_norm, top_norm_upper, skip) = st;
          weighted = (if frequency = 1 then unit_weight else bm25_weight frequency len_norm idf_once);
          squared = weighted * weighted;
          skipped = min skip n; selected = n - skipped
      in (base_norm + squared * f64_of_nat n,
          if 0 < selected
          then f64_next_up (top_norm_upper + f64_next_up (f64_next_up squared * f64_of_nat selected))
          else top_norm_upper,
          skip - skipped))"

definition histogram_norms :: "(nat \<times> nat) list \<Rightarrow> f64 \<Rightarrow> f64 \<Rightarrow> nat \<Rightarrow> nat \<Rightarrow> f64 \<times> f64" where
  "histogram_norms histogram len_norm unit_weight skipped_low_frequency_terms shared_term_limit =
     (let (base_norm, top_norm_upper, _) = fold (histogram_entry len_norm unit_weight) histogram (0, 0, skipped_low_frequency_terms);
          summation_inflation = f64_next_up (1 + Fin 4 * (f64_of_nat shared_term_limit + 1) * f64_epsilon)
      in (base_norm, f64_next_up (top_norm_upper * summation_inflation)))"

definition full_norm_upper :: "f64 \<Rightarrow> nat \<Rightarrow> f64" where
  "full_norm_upper base_norm term_len =
     (let rounding_factor = f64_next_up (1 + Fin 8 * (f64_of_nat term_len + 1) * f64_epsilon)
      in f64_next_up (base_norm * rounding_factor))"

section \<open>The rare prefix of a document\<close>

definition prefix_step :: "nat \<Rightarrow> f64 \<times> f64 \<Rightarrow> f64 \<times> f64" where
  "prefix_step frequency st =
     (let (suffix_shared_max, prefix_unique_min) = st;
          shared = bm25_weight frequency min_length_norm idf_shared;
          unique = bm25_weight frequency max_length_norm idf_once
      in (f64_max (suffix_shared_max - shared * shared) 0, prefix_unique_min + unique * unique))"

fun prefix_scan :: "f64 \<Rightarrow> f64 \<Rightarrow> nat \<Rightarrow> nat list \<Rightarrow> f64 \<times> f64 \<Rightarrow> nat" where
  "prefix_scan threshold rounding_margin index [] st = index"
| "prefix_scan threshold rounding_margin index (frequency # frequencies) st =
     (let st = prefix_step frequency st;
          (suffix_shared_max, prefix_unique_min) = st;
          denominator = prefix_unique_min + suffix_shared_max;
          upper_bound = (if denominator \<le> 0 then 0 else f64_sqrt (suffix_shared_max / denominator))
      in if upper_bound + upper_bound_epsilon + rounding_margin < threshold then index + 1
         else prefix_scan threshold rounding_margin (index + 1) frequencies st)"

definition lossless_prefix_len :: "nat list \<Rightarrow> f64 \<Rightarrow> nat" where
  "lossless_prefix_len frequencies threshold =
     (if frequencies = [] \<or> threshold = NaN \<or> 1 < threshold then 0
      else if threshold \<le> 0 then length frequencies
      else
        let rounding_margin = Fin 64 * f64_epsilon * f64_of_nat (length frequencies);
            suffix_shared_max = fold (\<lambda>frequency total.
              let weighted = bm25_weight frequency min_length_norm idf_shared in total + weighted * weighted) frequencies 0
        in prefix_scan threshold rounding_margin 0 frequencies (suffix_shared_max, 0))"

section \<open>Shared terms\<close>

fun merge_shared :: "doc_term list \<Rightarrow> doc_term list \<Rightarrow> (nat \<times> nat) list" where
  "merge_shared [] rs = []"
| "merge_shared ls [] = []"
| "merge_shared (l # ls) (r # rs) =
     (if fst l = fst r then (snd l, snd r) # merge_shared ls rs
      else if fst l < fst r then merge_shared ls (r # rs)
      else merge_shared (l # ls) rs)"

text \<open>The doubling steps; a step is at least 1.\<close>

function gallop_step :: "doc_term list \<Rightarrow> nat \<Rightarrow> nat \<Rightarrow> nat \<Rightarrow> nat" where
  "gallop_step terms start target step =
     (if 0 < step \<and> step < length terms - start \<and> fst (terms ! (start + step)) < target
      then gallop_step terms start target (step * 2) else step)"
  by pat_completeness auto
termination
  by (relation "measure (\<lambda>(terms, start, _, step). length terms - start - step)") auto

declare gallop_step.simps [simp del]

definition galloping_lower_bound :: "doc_term list \<Rightarrow> nat \<Rightarrow> nat \<Rightarrow> nat" where
  "galloping_lower_bound terms start target =
     (if length terms \<le> start \<or> target \<le> fst (terms ! start) then start
      else
        let step = gallop_step terms start target 1;
            low = start + step div 2 + 1;
            high = min (start + step + 1) (length terms)
        in low + partition_point (\<lambda>t. fst t < target) (take (high - low) (drop low terms)))"

fun gallop_shared :: "doc_term list \<Rightarrow> doc_term list \<Rightarrow> nat \<Rightarrow> (nat \<times> nat) list" where
  "gallop_shared [] longer longer_pos = []"
| "gallop_shared ((tid, short_tf) # shorter) longer longer_pos =
     (let longer_pos = galloping_lower_bound longer longer_pos tid
      in case idx longer longer_pos of
           None \<Rightarrow> []
         | Some (candidate, long_tf) \<Rightarrow>
             if candidate \<noteq> tid then gallop_shared shorter longer longer_pos
             else (short_tf, long_tf) # gallop_shared shorter longer (longer_pos + 1))"

definition swap_frequencies :: "nat \<times> nat \<Rightarrow> nat \<times> nat" where
  "swap_frequencies p = (snd p, fst p)"

definition shared_terms :: "doc_term list \<Rightarrow> doc_term list \<Rightarrow> (nat \<times> nat) list" where
  "shared_terms left right =
     (let (shorter, longer, swapped) = (if length left \<le> length right then (left, right, False) else (right, left, True))
      in if length shorter * 4 < length longer
         then (if swapped then map swap_frequencies else id) (gallop_shared shorter longer 0)
         else merge_shared left right)"

section \<open>The score of a pair\<close>

record shared_weights =
  sw_left_norm :: f64
  sw_right_norm :: f64
  sw_dot :: f64
  sw_count :: nat

definition no_weights :: shared_weights where
  "no_weights = \<lparr>sw_left_norm = 0, sw_right_norm = 0, sw_dot = 0, sw_count = 0\<rparr>"

definition add_with_norms :: "f64 \<Rightarrow> f64 \<Rightarrow> f64 \<Rightarrow> f64 \<Rightarrow> shared_weights \<Rightarrow> shared_weights" where
  "add_with_norms left_once right_once left_squared right_squared s =
     \<lparr>sw_left_norm = sw_left_norm s + left_squared, sw_right_norm = sw_right_norm s + right_squared,
      sw_dot = sw_dot s + left_once * right_once, sw_count = u32 (sw_count s + 1)\<rparr>"

definition add_shared :: "f64 \<Rightarrow> f64 \<Rightarrow> shared_weights \<Rightarrow> shared_weights" where
  "add_shared left_once right_once = add_with_norms left_once right_once (left_once * left_once) (right_once * right_once)"

record pair_weights =
  pw_left_length_norm :: f64
  pw_right_length_norm :: f64
  pw_left_unit_weight :: f64
  pw_right_unit_weight :: f64
  pw_left_base_norm :: f64
  pw_right_base_norm :: f64
  pw_left_shared_norm_upper :: f64
  pw_right_shared_norm_upper :: f64
  pw_left_term_len :: nat
  pw_right_term_len :: nat
  pw_bound_rounding_margin :: f64

definition pair_weights_new :: "prepared_document \<Rightarrow> prepared_document \<Rightarrow> pair_weights" where
  "pair_weights_new left right =
     (let avgdl = f64_of_nat (u32 (pd_length left + pd_length right)) / Fin 2;
          left_length_norm = length_norm (pd_length left) avgdl;
          right_length_norm = length_norm (pd_length right) avgdl;
          left_unit_weight = bm25_weight 1 left_length_norm idf_once;
          right_unit_weight = bm25_weight 1 right_length_norm idf_once;
          shared_term_limit = min (pd_term_len left) (pd_term_len right);
          (left_base_norm, left_shared_norm_upper) =
            histogram_norms (histogram_slice (pd_frequency_histogram left)) left_length_norm left_unit_weight
              (pd_term_len left - shared_term_limit) shared_term_limit;
          (right_base_norm, right_shared_norm_upper) =
            histogram_norms (histogram_slice (pd_frequency_histogram right)) right_length_norm right_unit_weight
              (pd_term_len right - shared_term_limit) shared_term_limit
      in \<lparr>pw_left_length_norm = left_length_norm, pw_right_length_norm = right_length_norm,
          pw_left_unit_weight = left_unit_weight, pw_right_unit_weight = right_unit_weight,
          pw_left_base_norm = left_base_norm, pw_right_base_norm = right_base_norm,
          pw_left_shared_norm_upper = left_shared_norm_upper, pw_right_shared_norm_upper = right_shared_norm_upper,
          pw_left_term_len = pd_term_len left, pw_right_term_len = pd_term_len right,
          pw_bound_rounding_margin = Fin 64 * f64_epsilon *
            (f64_of_nat (pd_term_len left) + f64_of_nat (pd_term_len right) + Fin 16)\<rparr>)"

definition left_once :: "pair_weights \<Rightarrow> nat \<Rightarrow> f64" where
  "left_once w frequency =
     (if frequency = 1 then pw_left_unit_weight w else bm25_weight frequency (pw_left_length_norm w) idf_once)"

definition right_once :: "pair_weights \<Rightarrow> nat \<Rightarrow> f64" where
  "right_once w frequency =
     (if frequency = 1 then pw_right_unit_weight w else bm25_weight frequency (pw_right_length_norm w) idf_once)"

definition left_norm_squared :: "pair_weights \<Rightarrow> shared_weights \<Rightarrow> f64" where
  "left_norm_squared w s = f64_max (pw_left_base_norm w - (1 - idf_ratio_squared) * sw_left_norm s) 0"

definition right_norm_squared :: "pair_weights \<Rightarrow> shared_weights \<Rightarrow> f64" where
  "right_norm_squared w s = f64_max (pw_right_base_norm w - (1 - idf_ratio_squared) * sw_right_norm s) 0"

definition pair_score :: "pair_weights \<Rightarrow> shared_weights \<Rightarrow> f64" where
  "pair_score w s =
     (if sw_count s = 0 then 0
      else let denominator = f64_sqrt (left_norm_squared w s * right_norm_squared w s)
        in if denominator \<le> 0 then 0 else idf_ratio_squared * sw_dot s / denominator)"

definition terminal_rounding_guard :: f64 where
  "terminal_rounding_guard = Fin 16 * f64_epsilon"

definition terminal_negative_below_threshold :: "f64 \<Rightarrow> f64 \<Rightarrow> f64 \<Rightarrow> f64 \<Rightarrow> bool" where
  "terminal_negative_below_threshold numerator denominator_squared threshold rounding_margin =
     (if \<not> is_finite numerator \<or> numerator < 0 \<or> \<not> f64_is_normal denominator_squared \<or> \<not> f64_is_normal threshold then False
      else
        let guarded_threshold =
              f64_next_down ((threshold - upper_bound_epsilon - rounding_margin) * (1 - terminal_rounding_guard))
        in if \<not> f64_is_normal guarded_threshold \<or> guarded_threshold \<le> 0 then False
           else
             let numerator_upper = f64_next_up numerator;
                 numerator_squared_upper = f64_next_up (numerator_upper * numerator_upper);
                 threshold_squared_lower = f64_next_down (guarded_threshold * guarded_threshold);
                 denominator_squared_lower = f64_next_down denominator_squared;
                 rejection_boundary = f64_next_down (threshold_squared_lower * denominator_squared_lower)
             in is_finite numerator_squared_upper \<and> is_finite rejection_boundary \<and>
                numerator_squared_upper < rejection_boundary)"

definition score_at_least :: "pair_weights \<Rightarrow> shared_weights \<Rightarrow> f64 \<Rightarrow> bool" where
  "score_at_least w s threshold =
     (if sw_count s = 0 then threshold \<le> 0
      else
        let denominator_squared = left_norm_squared w s * right_norm_squared w s;
            numerator = idf_ratio_squared * sw_dot s
        in if terminal_negative_below_threshold numerator denominator_squared threshold (pw_bound_rounding_margin w)
           then False
           else
             let denominator = f64_sqrt denominator_squared;
                 score = (if denominator \<le> 0 then 0 else numerator / denominator)
             in threshold \<le> score)"

section \<open>Pruning\<close>

definition initial_upper_bound_below_threshold :: "pair_weights \<Rightarrow> f64 \<Rightarrow> bool" where
  "initial_upper_bound_below_threshold w threshold =
     (let rejection_threshold = threshold - upper_bound_epsilon - pw_bound_rounding_margin w
      in if rejection_threshold = NaN \<or> rejection_threshold \<le> 0 then False
         else
           let rejection_threshold = f64_next_down rejection_threshold;
               left_shared = pw_left_shared_norm_upper w;
               right_shared = pw_right_shared_norm_upper w
           in if left_shared \<le> 0 \<or> right_shared \<le> 0 then False
              else
                let reduction = 1 - idf_ratio_squared;
                    minimum_left_norm = f64_next_down (pw_left_base_norm w - f64_next_up (reduction * left_shared));
                    minimum_right_norm = f64_next_down (pw_right_base_norm w - f64_next_up (reduction * right_shared))
                in if minimum_left_norm \<le> 0 \<or> minimum_right_norm \<le> 0 then False
                   else
                     let ratio_fourth = f64_next_up (idf_ratio_squared * idf_ratio_squared);
                         shared_norm_product = f64_next_up (left_shared * right_shared);
                         numerator_squared = f64_next_up (ratio_fourth * shared_norm_product);
                         denominator_squared = f64_next_down (minimum_left_norm * minimum_right_norm);
                         threshold_squared = f64_next_down (rejection_threshold * rejection_threshold)
                     in if denominator_squared \<le> 0 \<or> threshold_squared \<le> 0 then False
                        else numerator_squared < f64_next_down (threshold_squared * denominator_squared))"

record iterative_bound =
  ib_left_full_norm_upper :: f64
  ib_right_full_norm_upper :: f64
  ib_threshold_squared :: f64

definition iterative_bound_of :: "pair_weights \<Rightarrow> f64 \<Rightarrow> iterative_bound option" where
  "iterative_bound_of w threshold =
     (let rejection_threshold = threshold - upper_bound_epsilon - pw_bound_rounding_margin w
      in if \<not> is_finite rejection_threshold \<or> rejection_threshold \<le> 0 then None
         else
           let threshold_squared = f64_next_down (rejection_threshold * rejection_threshold)
           in if \<not> is_finite threshold_squared \<or> threshold_squared \<le> 0 then None
              else Some \<lparr>ib_left_full_norm_upper = full_norm_upper (pw_left_base_norm w) (pw_left_term_len w),
                ib_right_full_norm_upper = full_norm_upper (pw_right_base_norm w) (pw_right_term_len w),
                ib_threshold_squared = threshold_squared\<rparr>)"

definition upper_bound_below_threshold ::
  "pair_weights \<Rightarrow> iterative_bound \<Rightarrow> shared_weights \<Rightarrow> f64 \<Rightarrow> f64 \<Rightarrow> bool" where
  "upper_bound_below_threshold w bound s processed_left_norm processed_right_norm =
     (let remaining_left = f64_next_up (f64_max (ib_left_full_norm_upper bound - processed_left_norm) 0);
          remaining_right = f64_next_up (f64_max (ib_right_full_norm_upper bound - processed_right_norm) 0);
          remaining_dot = f64_next_up (f64_sqrt (remaining_left * remaining_right));
          maximum_dot = f64_next_up (sw_dot s + remaining_dot);
          reduction = 1 - idf_ratio_squared;
          minimum_left_norm =
            f64_next_down (f64_max (pw_left_base_norm w - reduction * (sw_left_norm s + remaining_left)) 0);
          minimum_right_norm =
            f64_next_down (f64_max (pw_right_base_norm w - reduction * (sw_right_norm s + remaining_right)) 0)
      in if minimum_left_norm \<le> 0 \<or> minimum_right_norm \<le> 0 then False
         else
           let numerator = f64_next_up (idf_ratio_squared * maximum_dot);
               numerator_squared = f64_next_up (numerator * numerator);
               denominator_squared = f64_next_down (minimum_left_norm * minimum_right_norm)
           in if denominator_squared \<le> 0 then False
              else numerator_squared < f64_next_down (ib_threshold_squared bound * denominator_squared))"

definition term_range :: "doc_term list \<Rightarrow> (nat \<times> nat) option" where
  "term_range terms = (if terms = [] then None else Some (fst (hd terms), fst (last terms)))"

definition may_share_term :: "prepared_document \<Rightarrow> doc_term list \<Rightarrow> prepared_document \<Rightarrow> doc_term list \<Rightarrow> bool" where
  "may_share_term left left_terms right right_terms =
     (let disjoint = (case (term_range left_terms, term_range right_terms) of
            (Some (left_first, left_last), Some (right_first, right_last)) \<Rightarrow> left_last < right_first \<or> right_last < left_first
          | _ \<Rightarrow> True)
      in if disjoint then False
         else \<not> (fst (pd_term_mask left) AND fst (pd_term_mask right) = 0 \<and>
                 snd (pd_term_mask left) AND snd (pd_term_mask right) = 0))"

section \<open>The decision\<close>

record threshold_decision =
  td_matched :: bool
  td_zero_overlap_pruned :: bool
  td_upper_bound_pruned :: bool

definition decision_at_least ::
  "pair_weights \<Rightarrow> shared_weights \<Rightarrow> f64 \<Rightarrow> bool \<Rightarrow> threshold_decision \<times> f64 option" where
  "decision_at_least w s threshold upper_bound_pruned =
     (let zero_overlap = (sw_count s = 0)
      in if zero_overlap \<and> threshold \<le> 0
         then (\<lparr>td_matched = True, td_zero_overlap_pruned = False, td_upper_bound_pruned = False\<rparr>, Some 0)
         else let matched = score_at_least w s threshold
           in (\<lparr>td_matched = matched, td_zero_overlap_pruned = zero_overlap \<and> 0 < threshold,
                td_upper_bound_pruned = upper_bound_pruned\<rparr>, then_some matched (pair_score w s)))"

definition sum_shared :: "pair_weights \<Rightarrow> (nat \<times> nat) list \<Rightarrow> shared_weights" where
  "sum_shared w pairs = fold (\<lambda>(left_tf, right_tf). add_shared (left_once w left_tf) (right_once w right_tf)) pairs no_weights"

definition cosine_similarity :: "prepared_document \<Rightarrow> doc_term list \<Rightarrow> prepared_document \<Rightarrow> doc_term list \<Rightarrow> f64" where
  "cosine_similarity left left_terms right right_terms =
     (let w = pair_weights_new left right in pair_score w (sum_shared w (shared_terms left_terms right_terms)))"

record pair_scan =
  ps_left_norm :: f64
  ps_right_norm :: f64
  ps_shared :: shared_weights
  ps_comparisons :: nat

text \<open>Every eighth comparison the bound is consulted; the counter wraps at a multiple of eight.\<close>

definition scan_rejects :: "pair_weights \<Rightarrow> iterative_bound option \<Rightarrow> pair_scan \<Rightarrow> bool" where
  "scan_rejects w bound st \<longleftrightarrow>
     ps_comparisons st mod 8 = 0 \<and>
     is_some_and (\<lambda>bound. upper_bound_below_threshold w bound (ps_shared st) (ps_left_norm st) (ps_right_norm st)) bound"

definition scan_equal :: "pair_weights \<Rightarrow> nat \<Rightarrow> nat \<Rightarrow> pair_scan \<Rightarrow> pair_scan" where
  "scan_equal w left_tf right_tf st =
     (let left = left_once w left_tf; right = right_once w right_tf;
          left_squared = left * left; right_squared = right * right
      in \<lparr>ps_left_norm = ps_left_norm st + left_squared, ps_right_norm = ps_right_norm st + right_squared,
          ps_shared = add_with_norms left right left_squared right_squared (ps_shared st),
          ps_comparisons = u32 (ps_comparisons st + 1)\<rparr>)"

definition scan_left :: "pair_weights \<Rightarrow> nat \<Rightarrow> pair_scan \<Rightarrow> pair_scan" where
  "scan_left w left_tf st =
     (let left = left_once w left_tf
      in st\<lparr>ps_left_norm := ps_left_norm st + left * left, ps_comparisons := u32 (ps_comparisons st + 1)\<rparr>)"

definition scan_right :: "pair_weights \<Rightarrow> nat \<Rightarrow> pair_scan \<Rightarrow> pair_scan" where
  "scan_right w right_tf st =
     (let right = right_once w right_tf
      in st\<lparr>ps_right_norm := ps_right_norm st + right * right, ps_comparisons := u32 (ps_comparisons st + 1)\<rparr>)"

text \<open>\<open>None\<close> is the rejection by the bound.\<close>

fun scan_pair ::
  "pair_weights \<Rightarrow> iterative_bound option \<Rightarrow> doc_term list \<Rightarrow> doc_term list \<Rightarrow> pair_scan \<Rightarrow> shared_weights option" where
  "scan_pair w bound [] rs st = Some (ps_shared st)"
| "scan_pair w bound ls [] st = Some (ps_shared st)"
| "scan_pair w bound (l # ls) (r # rs) st =
     (if fst l = fst r
      then let st = scan_equal w (snd l) (snd r) st
        in if scan_rejects w bound st then None else scan_pair w bound ls rs st
      else if fst l < fst r
      then let st = scan_left w (snd l) st
        in if scan_rejects w bound st then None else scan_pair w bound ls (r # rs) st
      else let st = scan_right w (snd r) st
        in if scan_rejects w bound st then None else scan_pair w bound (l # ls) rs st)"

definition rejected :: "bool \<Rightarrow> bool \<Rightarrow> threshold_decision \<times> f64 option" where
  "rejected zero_overlap upper_bound =
     (\<lparr>td_matched = False, td_zero_overlap_pruned = zero_overlap, td_upper_bound_pruned = upper_bound\<rparr>, None)"

definition similarity_at_least_impl ::
  "prepared_document \<Rightarrow> doc_term list \<Rightarrow> prepared_document \<Rightarrow> doc_term list \<Rightarrow> f64 \<Rightarrow> bool \<Rightarrow> threshold_decision \<times> f64 option" where
  "similarity_at_least_impl left left_terms right right_terms threshold overlap_filter_passed =
     (if threshold \<le> 0
      then (\<lparr>td_matched = True, td_zero_overlap_pruned = False, td_upper_bound_pruned = False\<rparr>, None)
      else if \<not> overlap_filter_passed \<and> \<not> may_share_term left left_terms right right_terms then rejected True False
      else
        let w = pair_weights_new left right
        in if initial_upper_bound_below_threshold w threshold then rejected False True
           else if length left_terms * 4 < length right_terms \<or> length right_terms * 4 < length left_terms
           then decision_at_least w (sum_shared w (shared_terms left_terms right_terms)) threshold False
           else (case scan_pair w (iterative_bound_of w threshold) left_terms right_terms
                   \<lparr>ps_left_norm = 0, ps_right_norm = 0, ps_shared = no_weights, ps_comparisons = 0\<rparr> of
                None \<Rightarrow> rejected False True
              | Some s \<Rightarrow> decision_at_least w s threshold False))"

definition similarity_at_least ::
  "prepared_document \<Rightarrow> doc_term list \<Rightarrow> prepared_document \<Rightarrow> doc_term list \<Rightarrow> f64 \<Rightarrow> threshold_decision" where
  "similarity_at_least left left_terms right right_terms threshold =
     fst (similarity_at_least_impl left left_terms right right_terms threshold False)"

definition similarity_score_if_at_least ::
  "prepared_document \<Rightarrow> doc_term list \<Rightarrow> prepared_document \<Rightarrow> doc_term list \<Rightarrow> f64 \<Rightarrow> f64 option" where
  "similarity_score_if_at_least left left_terms right right_terms threshold =
     (let (decision, score) = similarity_at_least_impl left left_terms right right_terms threshold False
      in if \<not> td_matched decision then None
         else Some (unwrap_or (cosine_similarity left left_terms right right_terms) score))"

end
