(* ===== verification/MetaQuery.thy ===== *)
theory MetaQuery
  imports Bm25 UriQuery NameRepresentative
begin

unbundle bit_operations_syntax

text \<open>
  The metadata query (\<open>src/analysis2/crates/core/src/dedup/metadata/mod.rs\<close> and \<open>align.rs\<close>): the
  index with its dense postings, the alignment of the anchors of two contracts, the candidates of a seed
  and their scores.  Worker scratch keeps a bit per contract and a cache of scores.  The counters of the
  log lines are left out; the number of threads and the permission to use them are parameters.
\<close>

section \<open>The index\<close>

record 'a dense_csr =
  dc_offsets :: "nat list"
  dc_values :: "'a list"

definition dense_new :: "'a dense_csr" where
  "dense_new = \<lparr>dc_offsets = [], dc_values = []\<rparr>"

definition dense_values_for :: "'a dense_csr \<Rightarrow> nat \<Rightarrow> 'a list option" where
  "dense_values_for csr key =
     Option.bind (idx (dc_offsets csr) key) (\<lambda>start.
     Option.bind (idx (dc_offsets csr) (key + 1)) (\<lambda>stop. Csr.slice (dc_values csr) start stop))"

definition dense_iter :: "'a dense_csr \<Rightarrow> 'a list list result" where
  "dense_iter csr =
     res_collect (map (\<lambda>(start, stop). or_panic (Csr.slice (dc_values csr) start stop))
       (zip (dc_offsets csr) (tl (dc_offsets csr))))"

text \<open>\<open>pair[1] - pair[0]\<close> on \<open>u32\<close>.\<close>

definition dense_len_for :: "'a dense_csr \<Rightarrow> nat \<Rightarrow> nat" where
  "dense_len_for csr key =
     (case (idx (dc_offsets csr) key, idx (dc_offsets csr) (key + 1)) of
        (Some start, Some stop) \<Rightarrow> u32 (2 ^ 32 + stop - start)
      | _ \<Rightarrow> 0)"

record anchor_ref =
  an_token_key :: nat
  an_document_id :: nat

record metadata_index =
  mi_documents :: "prepared_document list"
  mi_terms :: "doc_term list"
  mi_doc_contracts :: "nat dense_csr"
  mi_contract_anchors :: "anchor_ref dense_csr"
  mi_contract_is_evm :: "bool list"
  mi_term_postings :: "nat dense_csr"

type_synonym metadata_store = "metadata_index resident_store"

definition document_terms :: "metadata_index \<Rightarrow> nat \<Rightarrow> doc_term list result" where
  "document_terms index document_id =
     res_bind (or_panic (idx (mi_documents index) document_id)) (\<lambda>document. document_terms_in document (mi_terms index))"

section \<open>Alignment\<close>

definition select_documents :: "bool \<Rightarrow> anchor_ref list \<Rightarrow> bool \<Rightarrow> anchor_ref list \<Rightarrow> (nat \<times> nat) option" where
  "select_documents left_is_evm left_anchors right_is_evm right_anchors =
     (case (left_anchors, right_anchors) of
        (first_left # _, first_right # _) \<Rightarrow>
          Some (unwrap_or (an_document_id first_left, an_document_id first_right)
            (if left_is_evm \<and> right_is_evm
             then first_some (\<lambda>left. map_option (\<lambda>right. (an_document_id left, an_document_id right))
                 (List.find (\<lambda>right. an_token_key right = an_token_key left) right_anchors)) left_anchors
             else None))
      | _ \<Rightarrow> None)"

section \<open>Candidate marks\<close>

type_synonym score_cache = "((nat \<times> nat) \<times> f64 option) list"

record metadata_scratch =
  ms_candidate_bits :: "64 word list"
  ms_ordered_terms :: "(nat \<times> nat \<times> nat) list"
  ms_frequencies :: "nat list"
  ms_seed_documents :: "nat list"
  ms_output :: "nat list"
  ms_score_cache :: score_cache

definition metadata_scratch_default :: metadata_scratch where
  "metadata_scratch_default =
     \<lparr>ms_candidate_bits = [], ms_ordered_terms = [], ms_frequencies = [], ms_seed_documents = [], ms_output = [],
      ms_score_cache = []\<rparr>"

type_synonym marks = "64 word list \<times> nat list"

definition unmark :: "nat \<Rightarrow> 64 word list \<Rightarrow> 64 word list result" where
  "unmark cid bits =
     res_bind (or_panic (idx bits (cid div 64))) (\<lambda>word.
       or_panic (upd bits (cid div 64) (word AND NOT (push_bit (cid mod 64) 1))))"

definition begin_candidates :: "nat \<Rightarrow> marks \<Rightarrow> marks result" where
  "begin_candidates contract_count m =
     (let (bits, output) = m
      in res_bind (res_fold unmark output bits) (\<lambda>bits.
         let words = (contract_count + 63) div 64
         in Inr (if length bits < words then bits @ replicate (words - length bits) 0 else bits, [])))"

definition mark_candidate :: "nat \<Rightarrow> marks \<Rightarrow> marks result" where
  "mark_candidate cid m =
     (let (bits, output) = m; flag = push_bit (cid mod 64) 1
      in res_bind (or_panic (idx bits (cid div 64))) (\<lambda>word.
         if word AND flag = 0
         then res_bind (or_panic (upd bits (cid div 64) (word OR flag))) (\<lambda>bits. Inr (bits, output @ [cid]))
         else Inr (bits, output)))"

definition mark_other :: "nat \<Rightarrow> nat \<Rightarrow> marks \<Rightarrow> marks result" where
  "mark_other seed cid m = (if cid \<noteq> seed then mark_candidate cid m else Inr m)"

section \<open>The candidates of a seed\<close>

definition mark_document :: "metadata_index \<Rightarrow> nat \<Rightarrow> nat \<Rightarrow> marks \<Rightarrow> marks result" where
  "mark_document index seed document_id m =
     (case dense_values_for (mi_doc_contracts index) document_id of
        None \<Rightarrow> Inr m
      | Some contracts \<Rightarrow> res_fold (mark_other seed) contracts m)"

definition mark_anchored :: "nat \<Rightarrow> nat \<times> anchor_ref list \<Rightarrow> marks \<Rightarrow> marks result" where
  "mark_anchored seed entry m =
     (let (cid, anchors) = entry
      in if u32 cid \<noteq> seed \<and> anchors \<noteq> [] then mark_candidate (u32 cid) m else Inr m)"

definition mark_term_documents :: "metadata_index \<Rightarrow> nat \<Rightarrow> nat \<Rightarrow> marks \<Rightarrow> marks result" where
  "mark_term_documents index seed tid m =
     (case dense_values_for (mi_term_postings index) tid of
        None \<Rightarrow> Inr m
      | Some documents \<Rightarrow> res_fold (mark_document index seed) documents m)"

definition rarity_order :: "metadata_index \<Rightarrow> doc_term list \<Rightarrow> (nat \<times> nat \<times> nat) list" where
  "rarity_order index doc_terms =
     sort (map (\<lambda>(tid, frequency). (dense_len_for (mi_term_postings index) tid, tid, frequency)) doc_terms)"

definition probe_document ::
  "metadata_index \<Rightarrow> nat \<Rightarrow> f64 \<Rightarrow> nat \<Rightarrow> metadata_scratch \<times> marks \<Rightarrow> (metadata_scratch \<times> marks) result" where
  "probe_document index seed threshold document_id st =
     (let (scratch, m) = st
      in res_bind (document_terms index document_id) (\<lambda>doc_terms.
         if doc_terms = [] then Inr st
         else
           let ordered_terms = rarity_order index doc_terms;
               frequencies = map (\<lambda>(_, _, frequency). frequency) ordered_terms;
               prefix_len = lossless_prefix_len frequencies threshold
           in res_bind (res_fold (mark_term_documents index seed) (map (\<lambda>(_, tid, _). tid) (take prefix_len ordered_terms)) m)
                (\<lambda>m. Inr (scratch\<lparr>ms_ordered_terms := ordered_terms, ms_frequencies := frequencies\<rparr>, m))))"

definition collect_seed_document :: "anchor_ref \<Rightarrow> nat list \<Rightarrow> nat list" where
  "collect_seed_document anchor documents =
     (if an_document_id anchor \<in> set documents then documents else documents @ [an_document_id anchor])"

definition finish_candidates :: "metadata_scratch \<times> marks \<Rightarrow> metadata_scratch result" where
  "finish_candidates st =
     (let (scratch, bits, output) = st in Inr (scratch\<lparr>ms_candidate_bits := bits, ms_output := sort output\<rparr>))"

definition collect_candidates ::
  "metadata_index \<Rightarrow> nat \<Rightarrow> anchor_ref list \<Rightarrow> f64 \<Rightarrow> metadata_scratch \<Rightarrow> metadata_scratch result" where
  "collect_candidates index seed seed_anchors threshold scratch =
     res_bind (begin_candidates (length (mi_contract_is_evm index)) (ms_candidate_bits scratch, ms_output scratch)) (\<lambda>m.
     let seed_documents = fold collect_seed_document seed_anchors [];
         scratch = scratch\<lparr>ms_seed_documents := seed_documents\<rparr>
     in res_bind (res_fold (mark_document index seed) seed_documents m) (\<lambda>m.
        if threshold = NaN \<or> 1 < threshold then finish_candidates (scratch, m)
        else if threshold \<le> 0
        then res_bind (dense_iter (mi_contract_anchors index)) (\<lambda>anchored.
             res_bind (res_fold (mark_anchored seed) (enumerated anchored) m) (\<lambda>m. finish_candidates (scratch, m)))
        else res_bind (res_fold (probe_document index seed threshold) seed_documents (scratch, m)) finish_candidates))"

section \<open>The edge of a candidate\<close>

definition pair_key :: "nat \<Rightarrow> nat \<Rightarrow> nat \<times> nat" where
  "pair_key left_doc right_doc = (if left_doc \<le> right_doc then (left_doc, right_doc) else (right_doc, left_doc))"

definition score_pair :: "metadata_index \<Rightarrow> f64 \<Rightarrow> nat \<Rightarrow> nat \<Rightarrow> f64 option result" where
  "score_pair index threshold left_doc right_doc =
     res_bind (or_panic (idx (mi_documents index) left_doc)) (\<lambda>left.
     res_bind (or_panic (idx (mi_documents index) right_doc)) (\<lambda>right.
     res_bind (document_terms index left_doc) (\<lambda>left_terms.
     res_bind (document_terms index right_doc) (\<lambda>right_terms.
       Inr (similarity_score_if_at_least left left_terms right right_terms threshold)))))"

definition cached_score :: "metadata_index \<Rightarrow> f64 \<Rightarrow> nat \<Rightarrow> nat \<Rightarrow> score_cache \<Rightarrow> (f64 option \<times> score_cache) result" where
  "cached_score index threshold left_doc right_doc cache =
     (if left_doc = right_doc then Inr (Some 1, cache)
      else (case map_of cache (pair_key left_doc right_doc) of
          Some cached \<Rightarrow> Inr (cached, cache)
        | None \<Rightarrow>
            res_bind (score_pair index threshold left_doc right_doc) (\<lambda>score.
              Inr (score, ah_insert (pair_key left_doc right_doc) score cache))))"

record metadata_seed_query =
  sq_seed :: nat
  sq_seed_chain :: nat
  sq_seed_is_evm :: bool
  sq_seed_anchors :: "anchor_ref list"
  sq_threshold :: f64

definition edge_for_candidate ::
  "metadata_store \<Rightarrow> metadata_seed_query \<Rightarrow> nat \<Rightarrow> score_cache \<Rightarrow> (hit_edge option \<times> score_cache) result" where
  "edge_for_candidate st q candidate cache =
     (let index = rs_metadata_index st
      in if candidate = sq_seed q then Inr (None, cache)
         else (case dense_values_for (mi_contract_anchors index) candidate of
             None \<Rightarrow> Inr (None, cache)
           | Some candidate_anchors \<Rightarrow>
               if candidate_anchors = [] then Inr (None, cache)
               else
                 res_bind (or_panic (idx (mi_contract_is_evm index) candidate)) (\<lambda>candidate_is_evm.
                 case select_documents (sq_seed_is_evm q) (sq_seed_anchors q) candidate_is_evm candidate_anchors of
                   None \<Rightarrow> Inr (None, cache)
                 | Some (left_doc, right_doc) \<Rightarrow>
                     res_bind (cached_score index (sq_threshold q) left_doc right_doc cache) (\<lambda>(score, cache).
                       case score of
                         None \<Rightarrow> Inr (None, cache)
                       | Some score \<Rightarrow>
                           res_bind (or_panic (idx (rs_contracts st) candidate)) (\<lambda>contract.
                             Inr (Some \<lparr>he_seed_contract = sq_seed q, he_candidate_contract = candidate, he_candidate_nft = None,
                               he_dimension = Metadata, he_score = score, he_primary_chain = sq_seed_chain q,
                               he_secondary_chain = ct_chain_id contract\<rparr>, cache))))))"

section \<open>The query of a seed\<close>

datatype metadata_poll = MetaPollStart | MetaPollChunk nat | MetaPollCandidate nat

definition parallel_metadata_candidate_chunk :: nat where
  "parallel_metadata_candidate_chunk = 64"

definition max_metadata_candidate_chunk :: nat where
  "max_metadata_candidate_chunk = 4 * 1024"

definition metadata_candidate_chunk :: "nat \<Rightarrow> nat \<Rightarrow> nat" where
  "metadata_candidate_chunk threads candidate_count =
     (let target_chunks = max (threads * 4) 1
      in min (max ((candidate_count + target_chunks - 1) div target_chunks) parallel_metadata_candidate_chunk)
           max_metadata_candidate_chunk)"

definition candidate_step ::
  "metadata_store \<Rightarrow> metadata_seed_query \<Rightarrow> nat \<Rightarrow> hit_edge list \<times> score_cache \<Rightarrow> (hit_edge list \<times> score_cache) result" where
  "candidate_step st q candidate acc =
     (let (edges, cache) = acc
      in res_bind (edge_for_candidate st q candidate cache) (\<lambda>(edge, cache).
         Inr (case edge of None \<Rightarrow> edges | Some edge \<Rightarrow> edges @ [edge], cache)))"

definition candidate_chunk ::
  "(metadata_poll \<Rightarrow> bool) \<Rightarrow> metadata_store \<Rightarrow> metadata_seed_query \<Rightarrow> nat \<times> nat list \<Rightarrow> hit_edge list result" where
  "candidate_chunk cancelled st q chunk =
     (let (k, candidates) = chunk
      in res_bind (check_cancelled (cancelled (MetaPollChunk k))) (\<lambda>_.
         res_bind (res_fold (candidate_step st q) candidates ([], [])) (\<lambda>(edges, _). Inr edges)))"

definition push_edges :: "hit_edge list \<Rightarrow> hit_graph \<Rightarrow> hit_graph" where
  "push_edges edges graph = fold (\<lambda>edge graph. snd (push_edge edge graph)) edges graph"

definition sequential_step ::
  "(metadata_poll \<Rightarrow> bool) \<Rightarrow> metadata_store \<Rightarrow> metadata_seed_query \<Rightarrow> nat \<times> nat \<Rightarrow> hit_graph \<times> score_cache \<Rightarrow>
   (hit_graph \<times> score_cache) result" where
  "sequential_step cancelled st q entry acc =
     (let (position, candidate) = entry; (graph, cache) = acc
      in res_bind (if position mod 256 = 0 then check_cancelled (cancelled (MetaPollCandidate position)) else Inr ()) (\<lambda>_.
         res_bind (edge_for_candidate st q candidate cache) (\<lambda>(edge, cache).
           Inr (case edge of None \<Rightarrow> graph | Some edge \<Rightarrow> snd (push_edge edge graph), cache))))"

definition query_metadata_for_seed_with_scratch ::
  "nat \<Rightarrow> bool \<Rightarrow> (metadata_poll \<Rightarrow> bool) \<Rightarrow> metadata_store \<Rightarrow> nat \<Rightarrow> f64 \<Rightarrow> hit_graph \<times> metadata_scratch \<Rightarrow>
   (hit_graph \<times> metadata_scratch) result" where
  "query_metadata_for_seed_with_scratch threads allowed cancelled st seed threshold state =
     (let (graph, scratch) = state; index = rs_metadata_index st
      in res_bind (check_cancelled (cancelled MetaPollStart)) (\<lambda>_.
         case idx (rs_contracts st) seed of
           None \<Rightarrow> invalid (''unknown seed contract id '' @ print_decimal seed)
         | Some contract \<Rightarrow>
             if mi_documents index = [] then Inr (graph, scratch)
             else
               let seed_anchors = unwrap_or [] (dense_values_for (mi_contract_anchors index) seed)
               in if seed_anchors = [] then Inr (graph, scratch)
                  else
                    res_bind (or_panic (idx (mi_contract_is_evm index) seed)) (\<lambda>seed_is_evm.
                    res_bind (collect_candidates index seed seed_anchors threshold scratch) (\<lambda>scratch.
                    let scratch = scratch\<lparr>ms_score_cache := []\<rparr>;
                        q = \<lparr>sq_seed = seed, sq_seed_chain = ct_chain_id contract, sq_seed_is_evm = seed_is_evm,
                             sq_seed_anchors = seed_anchors, sq_threshold = threshold\<rparr>;
                        candidates = ms_output scratch
                    in if length candidates > parallel_metadata_candidate_chunk \<and> allowed \<and> threads > 1
                       then res_bind (par_collect (map (candidate_chunk cancelled st q)
                              (enumerated (chunks_of (metadata_candidate_chunk threads (length candidates)) candidates))))
                            (\<lambda>chunks. Inr (push_edges (concat chunks) graph, scratch))
                       else res_bind (res_fold (sequential_step cancelled st q) (enumerated candidates) (graph, []))
                            (\<lambda>(graph, cache). Inr (graph, scratch\<lparr>ms_score_cache := cache\<rparr>))))))"

definition query_metadata_for_seed ::
  "nat \<Rightarrow> bool \<Rightarrow> (metadata_poll \<Rightarrow> bool) \<Rightarrow> metadata_store \<Rightarrow> nat \<Rightarrow> f64 \<Rightarrow> hit_graph \<Rightarrow> hit_graph result" where
  "query_metadata_for_seed threads allowed cancelled st seed threshold graph =
     res_bind (query_metadata_for_seed_with_scratch threads allowed cancelled st seed threshold (graph, metadata_scratch_default))
       (\<lambda>(graph, _). Inr graph)"

end
