(* ===== verification/Tasks.thy ===== *)
theory Tasks
  imports Fallible "HOL-Library.Multiset"
begin

text \<open>
  Tasks that run in parallel and call a shared, synchronised structure, as in the parallel loops of
  \<open>src/analysis2/crates/core/src/dedup/metadata/mod.rs\<close>.  A task is a list of calls; each call is atomic.
  A schedule is any list of positions of tasks whose next call runs; when it is over, the tasks run to
  completion in their order.  So every interleaving of the calls is the run of some schedule, and a
  theorem for all schedules holds for every timing of the threads.  A task stops at its first failure.
\<close>

type_synonym ('c, 'r) task = "'c list \<times> 'r list result"

definition task_step ::
  "('c \<Rightarrow> 's \<Rightarrow> ('r \<times> 's) result) \<Rightarrow> nat \<Rightarrow> ('c, 'r) task list \<times> 's \<Rightarrow> ('c, 'r) task list \<times> 's" where
  "task_step exec i state =
     (let (tasks, s) = state
      in case idx tasks i of
           Some (call # calls, Inr rs) \<Rightarrow>
             (case exec call s of
                Inr (r, s) \<Rightarrow> (tasks[i := (calls, Inr (rs @ [r]))], s)
              | Inl e \<Rightarrow> (tasks[i := ([], Inl e)], s))
         | _ \<Rightarrow> (tasks, s))"

definition remaining_turns :: "'c list list \<Rightarrow> nat list" where
  "remaining_turns callss = concat (map (\<lambda>(i, calls). replicate (length calls) i) (enumerated callss))"

definition run_tasks ::
  "('c \<Rightarrow> 's \<Rightarrow> ('r \<times> 's) result) \<Rightarrow> nat list \<Rightarrow> 'c list list \<Rightarrow> 's \<Rightarrow> 'r list result list \<times> 's" where
  "run_tasks exec schedule callss s =
     (let (tasks, s) = fold (task_step exec) (schedule @ remaining_turns callss) (map (\<lambda>calls. (calls, Inr [])) callss, s)
      in (map snd tasks, s))"

text \<open>\<open>par_iter().map(..).collect::<Vec<_>>()\<close>: a panic of a task ends the loop, errors stay values.\<close>

definition join_tasks :: "'r list result list \<Rightarrow> 'r list result list result" where
  "join_tasks results = (if Inl Panic \<in> set results then Inl Panic else Inr results)"

lemma mset_concat_update:
  "i < length xss \<Longrightarrow> xss ! i = c # cs \<Longrightarrow> mset (concat xss) = add_mset c (mset (concat (xss[i := cs])))"
proof (induction xss arbitrary: i)
  case (Cons xs xss)
  then show ?case by (cases i) auto
qed simp

lemma count_remaining_turns: "i < length callss \<Longrightarrow> count_list (remaining_turns callss) i = length (callss ! i)"
proof -
  assume i: "i < length callss"
  have count: "count_list (concat (map (\<lambda>(j, calls). replicate (length calls) j) entries)) i =
      (\<Sum>(j, calls) \<leftarrow> entries. if j = i then length calls else 0)" for entries :: "(nat \<times> 'a list) list"
    by (induction entries) (auto simp: count_list_eq_length_filter)
  have "(\<Sum>(j, calls) \<leftarrow> enumerated callss. if j = i then length calls else 0) =
      (\<Sum>j \<leftarrow> [0..<length callss]. if j = i then length (callss ! j) else 0)"
    by (rule arg_cong [where f = sum_list], rule nth_equalityI) (auto simp: enumerated_def)
  also have "\<dots> = length (callss ! i)"
    using i by (simp add: interv_sum_list_conv_sum_set_nat sum.If_cases)
  finally show ?thesis by (simp add: remaining_turns_def count)
qed

text \<open>
  A shared structure that serves the calls \<open>T\<close>: after the calls \<open>M\<close> its state satisfies \<open>inv M\<close>, whatever
  the order in which they ran; a further call succeeds, and the answers given stay right.
\<close>

locale task_service =
  fixes exec :: "'c \<Rightarrow> 's \<Rightarrow> ('r \<times> 's) result"
    and inv :: "'c multiset \<Rightarrow> 'c multiset \<Rightarrow> 's \<Rightarrow> bool"
    and answer :: "'s \<Rightarrow> 'c \<Rightarrow> 'r \<Rightarrow> bool"
  assumes served: "inv T M s \<Longrightarrow> add_mset c M \<subseteq># T \<Longrightarrow>
      \<exists>r s'. exec c s = Inr (r, s') \<and> inv T (add_mset c M) s' \<and> answer s' c r"
    and stable: "inv T M s \<Longrightarrow> add_mset c M \<subseteq># T \<Longrightarrow> exec c s = Inr (r, s') \<Longrightarrow> answer s d q \<Longrightarrow> answer s' d q"
begin

definition running :: "'c list list \<Rightarrow> 's \<Rightarrow> ('c, 'r) task list \<times> 's \<Rightarrow> bool" where
  "running callss start state \<longleftrightarrow>
     (let (tasks, s) = state
      in length tasks = length callss \<and> (\<forall>d q. answer start d q \<longrightarrow> answer s d q) \<and>
         (\<exists>M. inv (mset (concat callss)) M s \<and> M + mset (concat (map fst tasks)) = mset (concat callss)) \<and>
         (\<forall>i < length callss. \<exists>finished rs. snd (tasks ! i) = Inr rs \<and> finished @ fst (tasks ! i) = callss ! i \<and>
            list_all2 (answer s) finished rs))"

lemma running_step:
  assumes "running callss start (tasks, s)"
  shows "running callss start (task_step exec j (tasks, s)) \<and>
    (\<forall>i < length callss. fst (fst (task_step exec j (tasks, s)) ! i) = (if i = j then tl (fst (tasks ! i)) else fst (tasks ! i)))"
proof -
  let ?T = "mset (concat callss)"
  have len: "length tasks = length callss" using assms by (simp add: running_def)
  obtain M where M: "inv ?T M s" "M + mset (concat (map fst tasks)) = ?T" using assms by (auto simp: running_def)
  have each: "\<exists>finished rs. snd (tasks ! i) = Inr rs \<and> finished @ fst (tasks ! i) = callss ! i \<and> list_all2 (answer s) finished rs"
    if "i < length callss" for i using assms that by (auto simp: running_def)
  show ?thesis
  proof (cases "j < length callss \<and> fst (tasks ! j) \<noteq> []")
    case False
    then have "task_step exec j (tasks, s) = (tasks, s)"
      using len by (cases "tasks ! j") (auto simp: task_step_def idx_def split: list.split)
    then show ?thesis using assms False by auto
  next
    case True
    then obtain c cs where pending: "fst (tasks ! j) = c # cs" by (cases "fst (tasks ! j)") auto
    obtain finished rs where task: "snd (tasks ! j) = Inr rs" "finished @ c # cs = callss ! j" "list_all2 (answer s) finished rs"
      using each [of j] True pending by auto
    have split: "mset (concat (map fst tasks)) = add_mset c (mset (concat (map fst (tasks[j := (cs, Inr (rs @ [r]))]))))" for r
      using mset_concat_update [of j "map fst tasks" c cs] True len pending by (simp add: map_update)
    have "?T = add_mset c M + mset (concat (map fst (tasks[j := (cs, Inr (rs @ [undefined]))])))" using M(2) split [of undefined] by simp
    then have within: "add_mset c M \<subseteq># ?T" by (metis mset_subset_eq_add_left)
    obtain r s' where run: "exec c s = Inr (r, s')" "inv ?T (add_mset c M) s'" "answer s' c r"
      using served [OF M(1) within] by blast
    have keep: "answer s d q \<Longrightarrow> answer s' d q" for d q using stable [OF M(1) within run(1)] .
    let ?tasks = "tasks[j := (cs, Inr (rs @ [r]))]"
    have "tasks ! j = (c # cs, Inr rs)" using pending task(1) by (cases "tasks ! j") simp
    then have step: "task_step exec j (tasks, s) = (?tasks, s')"
      using True len run(1) by (simp add: task_step_def idx_def)
    have "\<exists>finished rs. snd (?tasks ! i) = Inr rs \<and> finished @ fst (?tasks ! i) = callss ! i \<and> list_all2 (answer s') finished rs"
      if i: "i < length callss" for i
    proof (cases "i = j")
      case True
      have "list_all2 (answer s') (finished @ [c]) (rs @ [r])"
        using task(3) run(3) keep by (auto intro!: list_all2_appendI elim: list_all2_mono)
      then show ?thesis using True len i task(2) by (intro exI [of _ "finished @ [c]"] exI [of _ "rs @ [r]"]) simp
    next
      case False
      then show ?thesis using each [OF i] keep list_all2_mono [of "answer s" _ _ "answer s'"] by auto blast
    qed
    moreover have "add_mset c M + mset (concat (map fst ?tasks)) = ?T" using M(2) split [of r] by simp
    moreover have "\<forall>d q. answer start d q \<longrightarrow> answer s' d q" using assms keep by (auto simp: running_def)
    ultimately have "running callss start (?tasks, s')" using run(2) len by (auto simp: running_def)
    then show ?thesis using step len pending by (auto simp: nth_list_update)
  qed
qed

lemma running_fold:
  assumes "running callss start state"
  shows "running callss start (fold (task_step exec) turns state) \<and>
    (\<forall>i < length callss. length (fst (fst (fold (task_step exec) turns state) ! i)) = length (fst (fst state ! i)) - count_list turns i)"
  using assms
proof (induction turns arbitrary: state)
  case (Cons j turns)
  obtain tasks s where state: "state = (tasks, s)" by fastforce
  note step = running_step [OF Cons.prems [unfolded state], of j]
  show ?case using Cons.IH [OF step [THEN conjunct1]] step by (auto simp: state)
qed simp

lemma run_tasks_ok:
  assumes "inv (mset (concat callss)) {#} s"
  shows "\<exists>rss s'. run_tasks exec schedule callss s = (map Inr rss, s') \<and> inv (mset (concat callss)) (mset (concat callss)) s' \<and>
    list_all2 (list_all2 (answer s')) callss rss \<and> (\<forall>d q. answer s d q \<longrightarrow> answer s' d q)"
proof -
  let ?start = "(map (\<lambda>calls. (calls, Inr [])) callss, s) :: ('c, 'r) task list \<times> 's"
  have "running callss s ?start" using assms by (auto simp: running_def comp_def)
  note fold = running_fold [OF this, of "schedule @ remaining_turns callss"]
  obtain tasks s' where final: "fold (task_step exec) (schedule @ remaining_turns callss) ?start = (tasks, s')" by fastforce
  have running: "running callss s (tasks, s')" using fold final by simp
  have len: "length tasks = length callss" using running by (simp add: running_def)
  have empty: "fst (tasks ! i) = []" if "i < length callss" for i
  proof -
    have "length (fst (tasks ! i)) = length (callss ! i) - count_list (schedule @ remaining_turns callss) i"
      using fold final that by auto
    then show ?thesis using count_remaining_turns [OF that] by simp
  qed
  then have none: "concat (map fst tasks) = []" using len by (auto simp: in_set_conv_nth) (metis fst_conv)
  obtain M where "inv (mset (concat callss)) M s'" "M + mset (concat (map fst tasks)) = mset (concat callss)"
    using running by (auto simp: running_def)
  then have inv: "inv (mset (concat callss)) (mset (concat callss)) s'" unfolding none by simp
  have "\<exists>rs. snd (tasks ! i) = Inr rs \<and> list_all2 (answer s') (callss ! i) rs" if "i < length callss" for i
    using running empty [OF that] that by (force simp: running_def)
  then obtain rs where rs: "\<And>i. i < length callss \<Longrightarrow> snd (tasks ! i) = Inr (rs i) \<and> list_all2 (answer s') (callss ! i) (rs i)"
    by metis
  have "map snd tasks = map Inr (map rs [0..<length callss])" using rs len by (intro nth_equalityI) simp_all
  moreover have "list_all2 (list_all2 (answer s')) callss (map rs [0..<length callss])"
    using rs by (simp add: list_all2_conv_all_nth)
  moreover have "\<forall>d q. answer s d q \<longrightarrow> answer s' d q" using running by (simp add: running_def)
  ultimately show ?thesis using final inv
    by (intro exI [of _ "map rs [0..<length callss]"] exI [of _ s']) (simp add: run_tasks_def)
qed

text \<open>The same calls in the order of a list.\<close>

lemma calls_ok:
  assumes "inv T M s" "M + mset calls \<subseteq># T"
  shows "\<exists>s'. res_fold (\<lambda>call s. res_bind (exec call s) (\<lambda>(_, s). Inr s)) calls s = Inr s' \<and> inv T (M + mset calls) s'"
  using assms
proof (induction calls arbitrary: M s)
  case (Cons c calls)
  have "add_mset c M + mset calls \<subseteq># T" using Cons.prems(2) by simp
  moreover from this have "add_mset c M \<subseteq># T" using mset_subset_eq_add_left subset_mset.order_trans by blast
  from served [OF Cons.prems(1) this] obtain r s1 where "exec c s = Inr (r, s1)" "inv T (add_mset c M) s1" by blast
  ultimately show ?case using Cons.IH [of "add_mset c M" s1] by simp
qed simp

end

lemma join_tasks_Inr [simp]: "join_tasks (map Inr rss) = Inr (map Inr rss)"
  by (auto simp: join_tasks_def)

end
