(* ===== verification/Interner.thy ===== *)
theory Interner
  imports Tasks
begin

unbundle bit_operations_syntax

text \<open>
  The sharded catalog of terms (\<open>ParallelTermInterner\<close> in
  \<open>src/analysis2/crates/core/src/dedup/metadata/mod.rs\<close>): 256 maps under locks and one atomic counter.
  A call is atomic: it either finds the term or, under the write lock of its shard, takes the next id.
  The hash of the seeded \<open>ahash\<close> state is the parameter \<open>hash\<close>.
\<close>

definition term_interner_shards :: nat where
  "term_interner_shards = 256"

record term_interner =
  ti_shards :: "(string \<times> nat) list list"
  ti_next_id :: nat

definition interner_new :: term_interner where
  "interner_new = \<lparr>ti_shards = replicate term_interner_shards [], ti_next_id = 0\<rparr>"

definition shard_of :: "(string \<Rightarrow> nat) \<Rightarrow> term_interner \<Rightarrow> string \<Rightarrow> nat" where
  "shard_of hash ti s = hash s AND (length (ti_shards ti) - 1)"

definition intern_term :: "(string \<Rightarrow> nat) \<Rightarrow> string \<Rightarrow> term_interner \<Rightarrow> (nat \<times> term_interner) result" where
  "intern_term hash s ti =
     res_bind (or_panic (idx (ti_shards ti) (shard_of hash ti s))) (\<lambda>shard.
       case map_of shard s of
         Some i \<Rightarrow> Inr (i, ti)
       | None \<Rightarrow>
           if ti_next_id ti < 2 ^ 32 - 1
           then Inr (ti_next_id ti,
             ti\<lparr>ti_shards := (ti_shards ti)[shard_of hash ti s := ah_insert s (ti_next_id ti) shard], ti_next_id := ti_next_id ti + 1\<rparr>)
           else invalid ''too many BM25 terms for u32'')"

definition interner_len :: "term_interner \<Rightarrow> nat" where
  "interner_len ti = ti_next_id ti"

definition place_value :: "string \<times> nat \<Rightarrow> string option list \<Rightarrow> string option list result" where
  "place_value entry slots = or_panic (upd slots (snd entry) (Some (fst entry)))"

definition into_indexed_values :: "term_interner \<Rightarrow> string list result" where
  "into_indexed_values ti =
     res_bind (res_fold place_value (concat (ti_shards ti)) (replicate (interner_len ti) None)) (\<lambda>slots.
       res_collect (map (\<lambda>v. case v of Some s \<Rightarrow> Inr s | None \<Rightarrow> invalid ''metadata interner id gap'') slots))"

section \<open>What the catalog holds\<close>

definition term_id :: "(string \<Rightarrow> nat) \<Rightarrow> term_interner \<Rightarrow> string \<Rightarrow> nat option" where
  "term_id hash ti s = map_of (ti_shards ti ! shard_of hash ti s) s"

text \<open>The terms of the catalog and their ids, from 0 without gaps.\<close>

definition interner_ok :: "(string \<Rightarrow> nat) \<Rightarrow> term_interner \<Rightarrow> bool" where
  "interner_ok hash ti \<longleftrightarrow>
     length (ti_shards ti) = term_interner_shards \<and>
     (\<forall>j < term_interner_shards. distinct (map fst (ti_shards ti ! j)) \<and> (\<forall>s \<in> fst ` set (ti_shards ti ! j). shard_of hash ti s = j)) \<and>
     (\<forall>s i. term_id hash ti s = Some i \<longrightarrow> i < ti_next_id ti) \<and>
     (\<forall>s t i. term_id hash ti s = Some i \<longrightarrow> term_id hash ti t = Some i \<longrightarrow> s = t) \<and>
     (\<forall>i < ti_next_id ti. \<exists>s. term_id hash ti s = Some i)"

lemma shard_of_less: "length (ti_shards ti) = term_interner_shards \<Longrightarrow> shard_of hash ti s < term_interner_shards"
proof -
  assume "length (ti_shards ti) = term_interner_shards"
  then have "shard_of hash ti s = take_bit 8 (hash s)"
    by (simp add: shard_of_def term_interner_shards_def take_bit_eq_mask mask_eq_exp_minus_1)
  then show ?thesis using take_bit_nat_less_exp [of 8 "hash s"] by (simp add: term_interner_shards_def)
qed

lemma term_id_empty [simp]: "term_id hash interner_new s = None"
proof -
  have "shard_of hash interner_new s < term_interner_shards" by (rule shard_of_less) (simp add: interner_new_def)
  then show ?thesis by (simp add: term_id_def) (simp add: interner_new_def)
qed

lemma interner_ok_new: "interner_ok hash interner_new"
  by (auto simp: interner_ok_def) (auto simp: interner_new_def)

lemma term_id_count:
  assumes "interner_ok hash ti"
  shows "ti_next_id ti = card (dom (term_id hash ti))" "finite (dom (term_id hash ti))"
proof -
  have "bij_betw (\<lambda>s. the (term_id hash ti s)) (dom (term_id hash ti)) {..<ti_next_id ti}"
    unfolding bij_betw_def
  proof
    show "inj_on (\<lambda>s. the (term_id hash ti s)) (dom (term_id hash ti))"
    proof (rule inj_onI)
      fix s t assume "s \<in> dom (term_id hash ti)" "t \<in> dom (term_id hash ti)" "the (term_id hash ti s) = the (term_id hash ti t)"
      then obtain i where "term_id hash ti s = Some i" "term_id hash ti t = Some i" by auto
      then show "s = t" using assms unfolding interner_ok_def by blast
    qed
    have "i < ti_next_id ti" if "term_id hash ti s = Some i" for s i using assms that unfolding interner_ok_def by blast
    moreover have "\<exists>s. term_id hash ti s = Some i" if "i < ti_next_id ti" for i using assms that unfolding interner_ok_def by blast
    ultimately show "(\<lambda>s. the (term_id hash ti s)) ` dom (term_id hash ti) = {..<ti_next_id ti}"
      by (auto simp: image_iff dom_def) (metis option.sel)
  qed
  from bij_betw_same_card [OF this] bij_betw_finite [OF this]
  show "ti_next_id ti = card (dom (term_id hash ti))" "finite (dom (term_id hash ti))" by simp_all
qed

lemma intern_term_ok:
  assumes ok: "interner_ok hash ti" and room: "card (insert s (dom (term_id hash ti))) < 2 ^ 32"
  shows "\<exists>i ti'. intern_term hash s ti = Inr (i, ti') \<and> interner_ok hash ti' \<and> term_id hash ti' s = Some i \<and>
    dom (term_id hash ti') = insert s (dom (term_id hash ti)) \<and> (\<forall>t j. term_id hash ti t = Some j \<longrightarrow> term_id hash ti' t = Some j)"
proof -
  have len: "length (ti_shards ti) = term_interner_shards" using ok by (simp add: interner_ok_def)
  let ?j = "shard_of hash ti s"
  have j: "?j < length (ti_shards ti)" using shard_of_less [OF len] len by simp
  show ?thesis
  proof (cases "term_id hash ti s")
    case (Some i)
    then have "intern_term hash s ti = Inr (i, ti)" using j by (simp add: intern_term_def term_id_def or_panic_def)
    then show ?thesis using ok Some by (auto simp: insert_absorb)
  next
    case None
    then have "ti_next_id ti < 2 ^ 32 - 1"
      using room term_id_count [OF ok] by (simp add: card_insert_if domIff)
    obtain ti' where ti': "ti' =
        ti\<lparr>ti_shards := (ti_shards ti)[?j := ah_insert s (ti_next_id ti) (ti_shards ti ! ?j)], ti_next_id := ti_next_id ti + 1\<rparr>"
      by blast
    then have shards: "ti_shards ti' = (ti_shards ti)[?j := ah_insert s (ti_next_id ti) (ti_shards ti ! ?j)]"
      and upper: "ti_next_id ti' = Suc (ti_next_id ti)" by simp_all
    have run: "intern_term hash s ti = Inr (ti_next_id ti, ti')"
      using None j \<open>ti_next_id ti < 2 ^ 32 - 1\<close> by (simp add: intern_term_def term_id_def or_panic_def ti')
    have shard: "shard_of hash ti' t = shard_of hash ti t" for t by (simp add: shard_of_def shards)
    have lookup: "term_id hash ti' t = (if t = s then Some (ti_next_id ti) else term_id hash ti t)" for t
      using j by (auto simp: term_id_def shard shards nth_list_update hashm.lookup_ins)
    have "interner_ok hash ti'"
      unfolding interner_ok_def
    proof (intro conjI)
      show "length (ti_shards ti') = term_interner_shards" using len by (simp add: shards)
      show "\<forall>j < term_interner_shards. distinct (map fst (ti_shards ti' ! j)) \<and> (\<forall>t \<in> fst ` set (ti_shards ti' ! j). shard_of hash ti' t = j)"
      proof (intro allI impI)
        fix k assume k: "k < term_interner_shards"
        then have old: "distinct (map fst (ti_shards ti ! k))" "\<forall>t \<in> fst ` set (ti_shards ti ! k). shard_of hash ti t = k"
          using ok by (auto simp: interner_ok_def)
        show "distinct (map fst (ti_shards ti' ! k)) \<and> (\<forall>t \<in> fst ` set (ti_shards ti' ! k). shard_of hash ti' t = k)"
        proof (cases "k = ?j")
          case True
          have "ti_shards ti' ! k = ah_insert s (ti_next_id ti) (ti_shards ti ! k)" using True j by (simp add: shards)
          moreover have "distinct (map fst (ah_insert s (ti_next_id ti) (ti_shards ti ! k)))"
            using ah_distinct_insert [of "ti_shards ti ! k"] old(1) by (simp add: ah_distinct_def)
          moreover have "\<forall>t \<in> insert s (fst ` set (ti_shards ti ! k)). shard_of hash ti' t = k"
            unfolding shard using old(2) True by blast
          ultimately show ?thesis using keys_ah_insert [of s "ti_next_id ti" "ti_shards ti ! k"] by simp
        qed (use old in \<open>simp add: shards shard\<close>)
      qed
      show "\<forall>t i. term_id hash ti' t = Some i \<longrightarrow> i < ti_next_id ti'"
      proof (intro allI impI)
        fix t i assume "term_id hash ti' t = Some i"
        moreover have "i < ti_next_id ti" if "term_id hash ti t = Some i" using ok that unfolding interner_ok_def by blast
        ultimately show "i < ti_next_id ti'" unfolding lookup upper by (cases "t = s") (auto intro: less_SucI)
      qed
      show "\<forall>t u i. term_id hash ti' t = Some i \<longrightarrow> term_id hash ti' u = Some i \<longrightarrow> t = u"
      proof (intro allI impI)
        fix t u i assume "term_id hash ti' t = Some i" "term_id hash ti' u = Some i"
        moreover have "i \<noteq> ti_next_id ti" if "term_id hash ti v = Some i" for v using ok that unfolding interner_ok_def by blast
        moreover have "v = w" if "term_id hash ti v = Some i" "term_id hash ti w = Some i" for v w
          using ok that unfolding interner_ok_def by blast
        ultimately show "t = u" unfolding lookup by (metis option.sel)
      qed
      show "\<forall>i < ti_next_id ti'. \<exists>t. term_id hash ti' t = Some i"
      proof (intro allI impI)
        fix i assume "i < ti_next_id ti'"
        then consider "i = ti_next_id ti" | "i < ti_next_id ti" unfolding upper by fastforce
        then show "\<exists>t. term_id hash ti' t = Some i"
        proof cases
          case 2
          then obtain t where "term_id hash ti t = Some i" using ok unfolding interner_ok_def by blast
          then show ?thesis using None unfolding lookup by (metis option.distinct(1))
        qed (auto simp: lookup)
      qed
    qed
    moreover have "dom (term_id hash ti') = insert s (dom (term_id hash ti))" by (auto simp: lookup split: if_splits)
    moreover have "\<forall>t j. term_id hash ti t = Some j \<longrightarrow> term_id hash ti' t = Some j" using None by (auto simp: lookup)
    ultimately show ?thesis using run lookup [of s] by auto
  qed
qed

text \<open>The catalog as a service: it serves the terms \<open>U\<close>, after the calls for \<open>V\<close> it holds them and those of \<open>D\<close>.\<close>

definition interner_serves :: "(string \<Rightarrow> nat) \<Rightarrow> string set \<Rightarrow> string set \<Rightarrow> string set \<Rightarrow> term_interner \<Rightarrow> bool" where
  "interner_serves hash D U V ti \<longleftrightarrow>
     interner_ok hash ti \<and> finite (D \<union> U) \<and> card (D \<union> U) < 2 ^ 32 \<and> V \<subseteq> U \<and> dom (term_id hash ti) = D \<union> V"

lemma interner_served:
  assumes "interner_serves hash D U V ti" "s \<in> U"
  shows "\<exists>i ti'. intern_term hash s ti = Inr (i, ti') \<and> interner_serves hash D U (insert s V) ti' \<and> term_id hash ti' s = Some i \<and>
    (\<forall>t j. term_id hash ti t = Some j \<longrightarrow> term_id hash ti' t = Some j)"
proof -
  have "card (insert s (D \<union> V)) \<le> card (D \<union> U)"
    using assms by (intro card_mono) (auto simp: interner_serves_def)
  then have "card (insert s (dom (term_id hash ti))) < 2 ^ 32" using assms(1) by (simp add: interner_serves_def)
  from intern_term_ok [OF _ this] assms show ?thesis by (auto simp: interner_serves_def)
qed

interpretation interner: task_service "intern_term hash" "\<lambda>T M. interner_serves hash D (set_mset T) (set_mset M)"
    "\<lambda>ti s i. term_id hash ti s = Some i"
  for hash D
proof unfold_locales
  fix T M s c
  assume inv: "interner_serves hash D (set_mset T) (set_mset M) s" and within: "add_mset c M \<subseteq># T"
  have "c \<in> set_mset T" using set_mset_mono [OF within] by simp
  from interner_served [OF inv this]
  show "\<exists>r s'. intern_term hash c s = Inr (r, s') \<and> interner_serves hash D (set_mset T) (set_mset (add_mset c M)) s' \<and>
      term_id hash s' c = Some r" by auto
next
  fix T M s c r s' d q
  assume inv: "interner_serves hash D (set_mset T) (set_mset M) s" and within: "add_mset c M \<subseteq># T"
    and run: "intern_term hash c s = Inr (r, s')" and old: "term_id hash s d = Some q"
  have "c \<in> set_mset T" using set_mset_mono [OF within] by simp
  from interner_served [OF inv this] run old show "term_id hash s' d = Some q" by auto
qed

lemma map_of_shards:
  assumes "interner_ok hash ti"
  shows "(s, i) \<in> set (concat (ti_shards ti)) \<longleftrightarrow> term_id hash ti s = Some i"
proof -
  have len: "length (ti_shards ti) = term_interner_shards" using assms by (simp add: interner_ok_def)
  have shard: "shard_of hash ti s < length (ti_shards ti)" using shard_of_less [OF len] len by simp
  have place: "(s, i) \<in> set (ti_shards ti ! j) \<longleftrightarrow> j = shard_of hash ti s \<and> term_id hash ti s = Some i" if "j < length (ti_shards ti)" for j
  proof -
    have "distinct (map fst (ti_shards ti ! j))" "\<forall>s \<in> fst ` set (ti_shards ti ! j). shard_of hash ti s = j"
      using assms that len by (auto simp: interner_ok_def)
    then show ?thesis by (force simp: term_id_def)
  qed
  have "(s, i) \<in> set (concat (ti_shards ti)) \<longleftrightarrow> (\<exists>j < length (ti_shards ti). (s, i) \<in> set (ti_shards ti ! j))"
    unfolding set_concat using in_set_conv_nth [of _ "ti_shards ti"] by auto
  then show ?thesis using place shard by auto
qed

lemma place_values:
  assumes "\<forall>(s, i) \<in> set entries. i < length slots" "\<And>s t i. (s, i) \<in> set entries \<Longrightarrow> (t, i) \<in> set entries \<Longrightarrow> s = t"
  shows "\<exists>slots'. res_fold place_value entries slots = Inr slots' \<and> length slots' = length slots \<and>
    (\<forall>(s, i) \<in> set entries. slots' ! i = Some s) \<and> (\<forall>i. i \<notin> snd ` set entries \<longrightarrow> slots' ! i = slots ! i)"
  using assms
proof (induction entries arbitrary: slots)
  case (Cons e entries)
  obtain s i where e: "e = (s, i)" by fastforce
  have step: "place_value e slots = Inr (slots[i := Some s])" using Cons.prems(1) by (simp add: place_value_def upd_def or_panic_def e)
  have "\<exists>slots'. res_fold place_value entries (slots[i := Some s]) = Inr slots' \<and> length slots' = length (slots[i := Some s]) \<and>
      (\<forall>(s, i) \<in> set entries. slots' ! i = Some s) \<and> (\<forall>j. j \<notin> snd ` set entries \<longrightarrow> slots' ! j = slots[i := Some s] ! j)"
    using Cons.prems by (intro Cons.IH) (auto simp: e)
  then obtain slots' where slots': "res_fold place_value entries (slots[i := Some s]) = Inr slots'" "length slots' = length slots"
    "\<forall>(s, i) \<in> set entries. slots' ! i = Some s" "\<forall>j. j \<notin> snd ` set entries \<longrightarrow> slots' ! j = slots[i := Some s] ! j"
    by auto
  have "slots' ! i = Some s"
  proof (cases "i \<in> snd ` set entries")
    case True
    then obtain t where "(t, i) \<in> set entries" by force
    then show ?thesis using slots'(3) Cons.prems(2) [of s i t] e by auto
  qed (use slots'(4) Cons.prems(1) in \<open>auto simp: e\<close>)
  then show ?case using step slots' by (auto simp: e)
qed simp

text \<open>The catalog as a list: every id is the position of its term.\<close>

lemma into_indexed_values_ok:
  assumes ok: "interner_ok hash ti"
  shows "\<exists>names. into_indexed_values ti = Inr names \<and> distinct names \<and> length names = ti_next_id ti \<and>
    (\<forall>s i. term_id hash ti s = Some i \<longleftrightarrow> i < length names \<and> names ! i = s)"
proof -
  let ?n = "ti_next_id ti" and ?entries = "concat (ti_shards ti)"
  have entries: "(s, i) \<in> set ?entries \<longleftrightarrow> term_id hash ti s = Some i" for s i using map_of_shards [OF ok] .
  have "\<forall>(s, i) \<in> set ?entries. i < length (replicate ?n (None :: string option))"
    using ok entries unfolding interner_ok_def by fastforce
  moreover have "s = t" if "(s, i) \<in> set ?entries" "(t, i) \<in> set ?entries" for s t i
    using ok that unfolding entries interner_ok_def by blast
  ultimately obtain slots' where slots': "res_fold place_value ?entries (replicate ?n None) = Inr slots'" "length slots' = ?n"
    "\<forall>(s, i) \<in> set ?entries. slots' ! i = Some s"
    using place_values [of ?entries "replicate ?n None"] by auto
  let ?names = "map the slots'"
  have found: "slots' ! i = Some s" if "term_id hash ti s = Some i" for s i using slots'(3) that entries by blast
  have known: "\<exists>s. term_id hash ti s = Some i" if "i < ?n" for i using ok that unfolding interner_ok_def by blast
  have names: "term_id hash ti s = Some i \<longleftrightarrow> i < ?n \<and> ?names ! i = s" for s i
  proof
    assume s: "term_id hash ti s = Some i"
    then have "i < ?n" using ok unfolding interner_ok_def by blast
    then show "i < ?n \<and> ?names ! i = s" using found [OF s] slots'(2) by simp
  next
    assume i: "i < ?n \<and> ?names ! i = s"
    then obtain t where t: "term_id hash ti t = Some i" using known by blast
    have "?names ! i = the (slots' ! i)" using i slots'(2) by (intro nth_map) simp
    then have "s = t" using i found [OF t] by simp
    with t show "term_id hash ti s = Some i" by simp
  qed
  have some: "(case v of Some s \<Rightarrow> Inr s | None \<Rightarrow> invalid ''metadata interner id gap'') = Inr (the v)" if v: "v \<in> set slots'" for v
  proof -
    obtain i where "i < ?n" "v = slots' ! i" using v slots'(2) by (auto simp: in_set_conv_nth)
    then show ?thesis using known found by fastforce
  qed
  have "res_collect (map (\<lambda>v. case v of Some s \<Rightarrow> Inr s | None \<Rightarrow> invalid ''metadata interner id gap'') slots') = Inr ?names"
    using some by (rule res_collect_map)
  then have "into_indexed_values ti = Inr ?names" using slots'(1) by (simp add: into_indexed_values_def interner_len_def)
  moreover have "distinct ?names"
    unfolding distinct_conv_nth using names slots'(2) by (metis length_map option.inject)
  ultimately show ?thesis using names slots'(2) by (intro exI [of _ ?names]) simp
qed

end
