(* ===== verification/MetaIndex.thy ===== *)
theory MetaIndex
  imports MetaQuery Interner
begin

text \<open>
  The construction of the metadata index (\<open>finalize_metadata_index\<close> in
  \<open>src/analysis2/crates/core/src/dedup/metadata/mod.rs\<close>): the catalog of the anchors of all contracts, the
  documents and their terms, the postings of the terms.  The parallel loops run as the tasks of \<open>Tasks\<close>:
  \<open>schedule\<close> gives the interleaving of each of them, \<open>cancelled\<close> the polls at which the observer cancels,
  \<open>hash\<close> the hash of the interners.  Log lines, progress counts and capacities are left out.
\<close>

datatype metadata_build_poll = CatalogPoll nat | TokenizePoll nat | PostingsPoll nat | PostingsDocumentPoll nat

definition vec_resize :: "nat \<Rightarrow> 'a \<Rightarrow> 'a list \<Rightarrow> 'a list" where
  "vec_resize n v xs = (if length xs < n then xs @ replicate (n - length xs) v else take n xs)"

section \<open>The catalog of the anchors\<close>

definition catalog_batch_len :: nat where
  "catalog_batch_len = 4 * 1024"

definition contract_max :: nat where
  "contract_max = 2 ^ 32 - 1"

datatype catalog_call = InternCanonical string | InternToken string

definition catalog_exec ::
  "(string \<Rightarrow> nat) \<Rightarrow> catalog_call \<Rightarrow> term_interner \<times> term_interner \<Rightarrow> (nat \<times> term_interner \<times> term_interner) result" where
  "catalog_exec hash call s =
     (let (canonical, tokens) = s
      in case call of
           InternCanonical t \<Rightarrow> res_bind (intern_term hash t canonical) (\<lambda>(i, canonical). Inr (i, canonical, tokens))
         | InternToken t \<Rightarrow> res_bind (intern_term hash t tokens) (\<lambda>(i, tokens). Inr (i, canonical, tokens)))"

definition record_calls :: "bool \<Rightarrow> metadata_record \<Rightarrow> catalog_call list" where
  "record_calls is_evm r =
     [InternCanonical (mr_canonical_json r),
      InternToken (if is_evm then normalized_evm_token_slice (mr_token_id r) else mr_token_id r)]"

definition catalog_task :: "'m resident_store \<Rightarrow> contract \<Rightarrow> (nat \<times> bool \<times> catalog_call list) result" where
  "catalog_task st contract =
     res_bind (or_panic (chain_name st (ct_chain_id contract))) (\<lambda>chain.
       let is_evm = store_is_evm_chain st chain
       in Inr (ct_id contract, is_evm, concat (map (record_calls is_evm) (ct_metadata_by_token contract))))"

text \<open>The ids of the calls of a task, document and token in turn.\<close>

fun pair_anchors :: "nat list \<Rightarrow> anchor_ref list" where
  "pair_anchors (document # token # ids) = \<lparr>an_token_key = token, an_document_id = document\<rparr> # pair_anchors ids"
| "pair_anchors _ = []"

record metadata_catalog =
  mc_canonical :: term_interner
  mc_tokens :: term_interner
  mc_first :: "nat list"
  mc_extras :: "(nat \<times> nat list) list"
  mc_offsets :: "nat list"
  mc_anchors :: "anchor_ref list"
  mc_is_evm :: "bool list"

definition note_holder :: "nat \<Rightarrow> anchor_ref \<Rightarrow> nat list \<times> (nat \<times> nat list) list \<Rightarrow> (nat list \<times> (nat \<times> nat list) list) result" where
  "note_holder cid anchor holders =
     (let (first, extras) = holders; document = an_document_id anchor
      in res_bind (or_panic (idx first document)) (\<lambda>holder.
         if holder = contract_max then res_bind (or_panic (upd first document cid)) (\<lambda>first. Inr (first, extras))
         else if holder \<noteq> cid
         then let contracts = unwrap_or [] (map_of extras document)
           in Inr (first, ah_insert document (if contracts \<noteq> [] \<and> last contracts = cid then contracts else contracts @ [cid]) extras)
         else Inr (first, extras)))"

definition catalog_contract :: "(nat \<times> bool) \<times> nat list result \<Rightarrow> metadata_catalog \<Rightarrow> metadata_catalog result" where
  "catalog_contract entry cg =
     (let ((cid, is_evm), ids) = entry
      in res_bind ids (\<lambda>ids.
         let anchors = pair_anchors ids
         in res_bind (or_panic (upd (mc_is_evm cg) cid is_evm)) (\<lambda>contract_is_evm.
            res_bind (res_fold (note_holder cid) anchors (mc_first cg, mc_extras cg)) (\<lambda>(first, extras).
            let anchor_values = mc_anchors cg @ anchors
            in case u32_try_from (length anchor_values) of
                 None \<Rightarrow> invalid ''too many metadata anchors for u32''
               | Some stop \<Rightarrow>
                   Inr (cg\<lparr>mc_first := first, mc_extras := extras, mc_offsets := mc_offsets cg @ [stop], mc_anchors := anchor_values,
                     mc_is_evm := contract_is_evm\<rparr>)))))"

definition catalog_batch ::
  "(string \<Rightarrow> nat) \<Rightarrow> (metadata_build_poll \<Rightarrow> nat list) \<Rightarrow> (metadata_build_poll \<Rightarrow> bool) \<Rightarrow> 'm resident_store \<Rightarrow>
   nat \<times> contract list \<Rightarrow> metadata_catalog \<Rightarrow> metadata_catalog result" where
  "catalog_batch hash schedule cancelled st entry cg =
     (let (k, contracts) = entry
      in res_bind (check_cancelled (cancelled (CatalogPoll k))) (\<lambda>_.
         res_bind (res_collect (map (catalog_task st) contracts)) (\<lambda>tasks.
         let (results, canonical, tokens) = run_tasks (catalog_exec hash) (schedule (CatalogPoll k))
               (map (\<lambda>(_, _, calls). calls) tasks) (mc_canonical cg, mc_tokens cg)
         in res_bind (join_tasks results) (\<lambda>results.
            res_fold catalog_contract (zip (map (\<lambda>(cid, is_evm, _). (cid, is_evm)) tasks) results)
              (cg\<lparr>mc_canonical := canonical, mc_tokens := tokens,
                 mc_first := vec_resize (interner_len canonical) contract_max (mc_first cg)\<rparr>)))))"

definition metadata_catalog_of ::
  "(string \<Rightarrow> nat) \<Rightarrow> (metadata_build_poll \<Rightarrow> nat list) \<Rightarrow> (metadata_build_poll \<Rightarrow> bool) \<Rightarrow> 'm resident_store \<Rightarrow>
   metadata_catalog result" where
  "metadata_catalog_of hash schedule cancelled st =
     res_fold (catalog_batch hash schedule cancelled st) (enumerated (chunks_of catalog_batch_len (rs_contracts st)))
       \<lparr>mc_canonical = interner_new, mc_tokens = interner_new, mc_first = [], mc_extras = [], mc_offsets = [0],
        mc_anchors = [], mc_is_evm = replicate (length (rs_contracts st)) False\<rparr>"

section \<open>The terms of a document\<close>

definition inline_metadata_terms :: nat where
  "inline_metadata_terms = 16"

type_synonym term_counts = "(string \<times> nat) list option \<times> (string \<times> nat) list"

fun first_position :: "string \<Rightarrow> (string \<times> nat) list \<Rightarrow> nat option" where
  "first_position s [] = None"
| "first_position s (t # ts) = (if fst t = s then Some 0 else map_option Suc (first_position s ts))"

definition term_position :: "string \<Rightarrow> term_counts \<Rightarrow> nat option" where
  "term_position s st = (case fst st of Some positions \<Rightarrow> map_of positions s | None \<Rightarrow> first_position s (snd st))"

definition count_term :: "string \<Rightarrow> term_counts \<Rightarrow> term_counts result" where
  "count_term s st =
     (let (positions, counts) = st
      in case term_position s st of
           Some p \<Rightarrow>
             res_bind (or_panic (idx counts p)) (\<lambda>(t, n).
             res_bind (or_panic (upd counts p (t, sat_add_u32 n 1))) (\<lambda>counts. Inr (positions, counts)))
         | None \<Rightarrow>
             let positions = (if length counts = inline_metadata_terms
                   then Some (fold (\<lambda>(p, t, _). ah_insert t p) (enumerated counts) []) else positions)
             in Inr (map_option (ah_insert s (length counts)) positions, counts @ [(s, 1)]))"

definition tokenize_metadata_document :: "(nat \<Rightarrow> bool) \<Rightarrow> string \<Rightarrow> (string \<times> nat) list result" where
  "tokenize_metadata_document alphanumeric canonical =
     res_bind (res_fold count_term (document_tokens alphanumeric canonical) (None, [])) (\<lambda>(_, counts). Inr counts)"

section \<open>The documents\<close>

definition tokenize_batch_len :: nat where
  "tokenize_batch_len = 4 * 1024"

record metadata_corpus =
  mk_interner :: term_interner
  mk_documents :: "prepared_document list"
  mk_terms :: "doc_term list"
  mk_frequency :: "nat list"

definition count_document :: "doc_term \<Rightarrow> nat list \<Rightarrow> nat list result" where
  "count_document t frequency =
     res_bind (or_panic (idx frequency (fst t))) (\<lambda>n. or_panic (upd frequency (fst t) (sat_add_u32 n 1)))"

definition interned_terms :: "(string \<times> nat) list \<Rightarrow> nat list \<Rightarrow> doc_term list" where
  "interned_terms counts ids = sort_key fst (zip ids (map snd counts))"

definition prepare_document :: "(string \<times> nat) list \<times> nat list result \<Rightarrow> metadata_corpus \<Rightarrow> metadata_corpus result" where
  "prepare_document entry corpus =
     (let (counts, ids) = entry
      in res_bind ids (\<lambda>ids.
         let doc_terms = interned_terms counts ids
         in case u32_try_from (length (mk_terms corpus)) of
              None \<Rightarrow> invalid ''too many metadata terms for u32''
            | Some start \<Rightarrow>
                res_bind (res_fold count_document doc_terms (mk_frequency corpus)) (\<lambda>frequency.
                Inr (corpus\<lparr>mk_documents := mk_documents corpus @ [set_term_start start (from_compact_terms doc_terms)],
                  mk_terms := mk_terms corpus @ doc_terms, mk_frequency := frequency\<rparr>))))"

definition tokenize_batch ::
  "(string \<Rightarrow> nat) \<Rightarrow> (nat \<Rightarrow> bool) \<Rightarrow> (metadata_build_poll \<Rightarrow> nat list) \<Rightarrow> (metadata_build_poll \<Rightarrow> bool) \<Rightarrow>
   nat \<times> string list \<Rightarrow> metadata_corpus \<Rightarrow> metadata_corpus result" where
  "tokenize_batch hash alphanumeric schedule cancelled entry corpus =
     (let (k, canonicals) = entry
      in res_bind (check_cancelled (cancelled (TokenizePoll k))) (\<lambda>_.
         res_bind (res_collect (map (tokenize_metadata_document alphanumeric) canonicals)) (\<lambda>raws.
         let (results, interner) = run_tasks (intern_term hash) (schedule (TokenizePoll k)) (map (map fst) raws) (mk_interner corpus)
         in res_bind (join_tasks results) (\<lambda>results.
            res_fold prepare_document (zip raws results)
              (corpus\<lparr>mk_interner := interner, mk_frequency := vec_resize (interner_len interner) 0 (mk_frequency corpus)\<rparr>)))))"

definition metadata_corpus_of ::
  "(string \<Rightarrow> nat) \<Rightarrow> (nat \<Rightarrow> bool) \<Rightarrow> (metadata_build_poll \<Rightarrow> nat list) \<Rightarrow> (metadata_build_poll \<Rightarrow> bool) \<Rightarrow>
   string list \<Rightarrow> metadata_corpus result" where
  "metadata_corpus_of hash alphanumeric schedule cancelled canonicals =
     res_fold (tokenize_batch hash alphanumeric schedule cancelled) (enumerated (chunks_of tokenize_batch_len canonicals))
       \<lparr>mk_interner = interner_new, mk_documents = [], mk_terms = [], mk_frequency = []\<rparr>"

section \<open>The postings of the terms\<close>

definition progress_batch_len :: nat where
  "progress_batch_len = 1024"

definition sat_add_u64 :: "nat \<Rightarrow> nat \<Rightarrow> nat" where
  "sat_add_u64 a b = min (a + b) (2 ^ 64 - 1)"

definition add_offset :: "nat \<Rightarrow> nat \<times> nat list \<Rightarrow> (nat \<times> nat list) result" where
  "add_offset frequency st =
     (let total = sat_add_u64 (fst st) frequency
      in case u32_try_from total of
           None \<Rightarrow> invalid ''too many metadata postings for u32''
         | Some offset \<Rightarrow> Inr (total, snd st @ [offset]))"

datatype posting_call = PollPostings metadata_build_poll | NameDocument nat | PostTerm nat nat

type_synonym postings_state = "nat list \<times> nat list"

definition posting_exec ::
  "(metadata_build_poll \<Rightarrow> bool) \<Rightarrow> posting_call \<Rightarrow> postings_state \<Rightarrow> (unit \<times> postings_state) result" where
  "posting_exec cancelled call s =
     (case call of
        PollPostings poll \<Rightarrow> res_bind (check_cancelled (cancelled poll)) (\<lambda>_. Inr ((), s))
      | NameDocument document_id \<Rightarrow>
          (case u32_try_from document_id of
             None \<Rightarrow> invalid ''too many metadata documents for u32''
           | Some _ \<Rightarrow> Inr ((), s))
      | PostTerm tid document_id \<Rightarrow>
          (let (cursors, postings) = s
           in res_bind (or_panic (idx cursors tid)) (\<lambda>position.
              res_bind (or_panic (upd cursors tid (u32 (position + 1)))) (\<lambda>cursors.
              res_bind (or_panic (upd postings position document_id)) (\<lambda>postings. Inr ((), cursors, postings))))))"

definition document_calls :: "doc_term list \<Rightarrow> nat \<times> prepared_document \<Rightarrow> posting_call list result" where
  "document_calls doc_terms entry =
     (let (document_id, document) = entry
      in res_bind (document_terms_in document doc_terms) (\<lambda>ts.
         Inr (NameDocument document_id # map (\<lambda>(tid, _). PostTerm tid document_id) ts)))"

definition chunk_calls :: "doc_term list \<Rightarrow> nat \<times> (nat \<times> prepared_document) list \<Rightarrow> posting_call list result" where
  "chunk_calls doc_terms chunk =
     res_bind (res_collect (map (document_calls doc_terms) (snd chunk))) (\<lambda>calls.
       Inr (PollPostings (PostingsPoll (fst chunk)) # concat calls))"

definition post_document ::
  "(metadata_build_poll \<Rightarrow> bool) \<Rightarrow> doc_term list \<Rightarrow> nat \<times> prepared_document \<Rightarrow> postings_state \<Rightarrow> postings_state result" where
  "post_document cancelled doc_terms entry s =
     res_bind (if fst entry mod progress_batch_len = 0 then check_cancelled (cancelled (PostingsDocumentPoll (fst entry))) else Inr ()) (\<lambda>_.
     res_bind (document_calls doc_terms entry) (\<lambda>calls.
       res_fold (\<lambda>call s. res_bind (posting_exec cancelled call s) (\<lambda>(_, s). Inr s)) calls s))"

definition fill_postings ::
  "nat \<Rightarrow> (metadata_build_poll \<Rightarrow> nat list) \<Rightarrow> (metadata_build_poll \<Rightarrow> bool) \<Rightarrow> prepared_document list \<Rightarrow> doc_term list \<Rightarrow>
   postings_state \<Rightarrow> postings_state result" where
  "fill_postings threads schedule cancelled documents doc_terms s =
     (if progress_batch_len \<le> length documents \<and> 1 < threads
      then res_bind (par_collect (map (chunk_calls doc_terms) (enumerated (chunks_of progress_batch_len (enumerated documents))))) (\<lambda>tasks.
        let (results, s) = run_tasks (posting_exec cancelled) (schedule (PostingsPoll 0)) tasks s
        in res_bind (par_collect results) (\<lambda>_. Inr s))
      else res_fold (post_document cancelled doc_terms) (enumerated documents) s)"

definition build_term_postings ::
  "nat \<Rightarrow> (metadata_build_poll \<Rightarrow> nat list) \<Rightarrow> (metadata_build_poll \<Rightarrow> bool) \<Rightarrow> prepared_document list \<Rightarrow> doc_term list \<Rightarrow>
   nat list \<Rightarrow> nat dense_csr result" where
  "build_term_postings threads schedule cancelled documents doc_terms frequency =
     (case u32_try_from (length frequency) of
        None \<Rightarrow> invalid ''too many BM25 terms for u32''
      | Some _ \<Rightarrow>
          res_bind (res_fold add_offset frequency (0, [0])) (\<lambda>(total, offsets).
          res_bind (fill_postings threads schedule cancelled documents doc_terms
              (take (length frequency) offsets, replicate total 0)) (\<lambda>(_, postings).
            Inr \<lparr>dc_offsets = offsets, dc_values = postings\<rparr>)))"

section \<open>The index\<close>

definition lay_holders ::
  "nat \<times> nat \<Rightarrow> nat list \<times> nat list \<times> (nat \<times> nat list) list \<Rightarrow> (nat list \<times> nat list \<times> (nat \<times> nat list) list) result" where
  "lay_holders entry st =
     (let (document_id, first_contract) = entry; (offsets, holders, extras) = st; key = u32 document_id;
          holders = holders @ first_contract # unwrap_or [] (map_of extras key);
          extras = filter (\<lambda>(k, _). k \<noteq> key) extras
      in case u32_try_from (length holders) of
           None \<Rightarrow> invalid ''dense CSR exceeds u32 capacity''
         | Some offset \<Rightarrow> Inr (offsets @ [offset], holders, extras))"

definition from_first_and_extras :: "nat list \<Rightarrow> (nat \<times> nat list) list \<Rightarrow> nat dense_csr result" where
  "from_first_and_extras first extras =
     res_bind (res_fold lay_holders (enumerated first) ([0], [], extras)) (\<lambda>(offsets, holders, _).
       Inr \<lparr>dc_offsets = offsets, dc_values = holders\<rparr>)"

definition finalize_metadata_index ::
  "(string \<Rightarrow> nat) \<Rightarrow> (nat \<Rightarrow> bool) \<Rightarrow> nat \<Rightarrow> (metadata_build_poll \<Rightarrow> nat list) \<Rightarrow> (metadata_build_poll \<Rightarrow> bool) \<Rightarrow>
   metadata_store \<Rightarrow> metadata_store result" where
  "finalize_metadata_index hash alphanumeric threads schedule cancelled st =
     res_bind (metadata_catalog_of hash schedule cancelled st) (\<lambda>cg.
     res_bind (into_indexed_values (mc_canonical cg)) (\<lambda>canonicals.
     res_bind (metadata_corpus_of hash alphanumeric schedule cancelled canonicals) (\<lambda>corpus.
     res_bind (build_term_postings threads schedule cancelled (mk_documents corpus) (mk_terms corpus) (mk_frequency corpus)) (\<lambda>postings.
     res_bind (from_first_and_extras (mc_first cg) (mc_extras cg)) (\<lambda>doc_contracts.
       Inr ((clear_metadata_anchors st)\<lparr>rs_metadata_index :=
         \<lparr>mi_documents = mk_documents corpus, mi_terms = mk_terms corpus, mi_doc_contracts = doc_contracts,
          mi_contract_anchors = \<lparr>dc_offsets = mc_offsets cg, dc_values = mc_anchors cg\<rparr>,
          mi_contract_is_evm = mc_is_evm cg, mi_term_postings = postings\<rparr>\<rparr>))))))"

end
