(* ===== verification/MetaTerms.thy ===== *)
theory MetaTerms
  imports MetaIndex NameSeen
begin

text \<open>
  The terms of a document: with its inline scan and its hash table of positions the tokenizer counts
  the tokens of a document in the order of their first occurrences.
\<close>

section \<open>Counting\<close>

definition capped_count :: "string list \<Rightarrow> string \<Rightarrow> nat" where
  "capped_count ts s = min (count_list ts s) (2 ^ 32 - 1)"

definition term_counts_of :: "string list \<Rightarrow> (string \<times> nat) list" where
  "term_counts_of ts = map (\<lambda>s. (s, capped_count ts s)) (first_occurrences ts)"

text \<open>Above the inline window the positions are kept in the hash table.\<close>

definition counting :: "string list \<Rightarrow> term_counts \<Rightarrow> bool" where
  "counting ts st \<longleftrightarrow>
     snd st = term_counts_of ts \<and>
     (case fst st of
        None \<Rightarrow> length (snd st) \<le> inline_metadata_terms
      | Some positions \<Rightarrow> inline_metadata_terms < length (snd st) \<and> (\<forall>s. map_of positions s = first_position s (snd st)))"

lemma first_position_None: "first_position s ts = None \<longleftrightarrow> s \<notin> fst ` set ts"
  by (induction ts) auto

lemma first_position_SomeD: "first_position s ts = Some p \<Longrightarrow> p < length ts \<and> fst (ts ! p) = s"
  by (induction ts arbitrary: p) (auto split: if_splits)

lemma first_position_append:
  "first_position s (ts @ us) = (case first_position s ts of Some p \<Rightarrow> Some p | None \<Rightarrow> map_option ((+) (length ts)) (first_position s us))"
  by (induction ts) (cases "first_position s us"; auto split: option.splits)+

lemma first_position_keys: "map fst ts = map fst us \<Longrightarrow> first_position s ts = first_position s us"
proof (induction ts arbitrary: us)
  case (Cons t ts)
  then show ?case by (cases us) simp_all
qed simp

lemma positions_of_counts:
  assumes "distinct (map fst counts)"
  shows "map_of (fold (\<lambda>(p, t, _). ah_insert t p) (enumerated counts) []) s = first_position s counts"
  using assms
proof (induction counts rule: rev_induct)
  case (snoc c counts)
  have "map_of (fold (\<lambda>(p, t, _). ah_insert t p) (enumerated counts) []) s = first_position s counts"
    using snoc by simp
  moreover have "first_position (fst c) counts = None" using snoc.prems by (simp add: first_position_None)
  ultimately show ?case
    by (auto simp: enumerated_snoc hashm.lookup_ins first_position_append case_prod_unfold split: option.split)
qed (simp add: enumerated_def)

lemma term_counts_snoc_new: "s \<notin> set ts \<Longrightarrow> term_counts_of (ts @ [s]) = term_counts_of ts @ [(s, 1)]"
  by (auto simp: term_counts_of_def first_occurrences_snoc capped_count_def count_list_0_iff)

lemma distinct_term_counts: "distinct (map fst (term_counts_of ts))"
  by (simp add: term_counts_of_def comp_def first_occurrences_def)

lemma fst_term_counts: "fst ` set (term_counts_of ts) = set ts"
  by (force simp: term_counts_of_def first_occurrences_def)

lemma count_term_ok:
  assumes "counting ts st"
  shows "\<exists>st'. count_term s st = Inr st' \<and> counting (ts @ [s]) st'"
proof -
  obtain positions counts where st: "st = (positions, counts)" by fastforce
  have counts: "counts = term_counts_of ts" using assms by (simp add: counting_def st)
  have position: "term_position s st = first_position s counts"
    using assms by (auto simp: counting_def term_position_def st split: option.splits)
  show ?thesis
  proof (cases "first_position s counts")
    case (Some p)
    then have p: "p < length counts" "fst (counts ! p) = s" using first_position_SomeD by auto
    have s: "s \<in> set ts" using p nth_mem [of p counts] fst_term_counts [of ts] counts by force
    then have entry: "counts ! p = (s, capped_count ts s)" "p < length (first_occurrences ts)" "first_occurrences ts ! p = s"
      using p by (simp_all add: counts term_counts_of_def)
    obtain counts' where counts': "counts' = counts[p := (s, sat_add_u32 (capped_count ts s) 1)]" by blast
    have "counts' = term_counts_of (ts @ [s])"
      unfolding counts'
    proof (rule nth_equalityI)
      show "length (counts[p := (s, sat_add_u32 (capped_count ts s) 1)]) = length (term_counts_of (ts @ [s]))"
        using s by (simp add: counts term_counts_of_def first_occurrences_snoc)
      fix i assume "i < length (counts[p := (s, sat_add_u32 (capped_count ts s) 1)])"
      then have i: "i < length (first_occurrences ts)" by (simp add: counts term_counts_of_def)
      have "first_occurrences ts ! i = s \<longleftrightarrow> i = p"
        using entry i nth_eq_iff_index_eq [of "first_occurrences ts" i p] by (auto simp: first_occurrences_def)
      then show "counts[p := (s, sat_add_u32 (capped_count ts s) 1)] ! i = term_counts_of (ts @ [s]) ! i"
        using i s entry by (auto simp: counts term_counts_of_def first_occurrences_snoc nth_list_update capped_count_def sat_add_u32_def)
    qed
    moreover have "map fst counts' = map fst counts" "length counts' = length counts"
      using p by (simp_all add: counts' map_update list_update_same_conv)
    ultimately have "counting (ts @ [s]) (positions, counts')"
      using assms first_position_keys [of counts' counts] by (auto simp: counting_def st split: option.splits)
    then show ?thesis using Some position p entry by (simp add: count_term_def st idx_def upd_def or_panic_def counts')
  next
    case None
    then have s: "s \<notin> set ts" using fst_term_counts [of ts] by (simp add: first_position_None counts)
    let ?positions = "if length counts = inline_metadata_terms
        then Some (fold (\<lambda>(p, t, _). ah_insert t p) (enumerated counts) []) else positions"
    have run: "count_term s st = Inr (map_option (ah_insert s (length counts)) ?positions, counts @ [(s, 1)])"
      using None position by (simp add: count_term_def st Let_def)
    have "map_of m t = first_position t counts" if "?positions = Some m" for m t
      using that assms positions_of_counts [OF distinct_term_counts, of ts t]
      by (auto simp: counting_def st counts split: if_splits)
    moreover have "first_position t (counts @ [(s, 1)]) = (if t = s then Some (length counts) else first_position t counts)" for t
      using None by (auto simp: first_position_append split: option.split)
    moreover have "?positions = None \<longleftrightarrow> Suc (length counts) \<le> inline_metadata_terms"
      using assms by (auto simp: counting_def st split: option.splits)
    ultimately have "counting (ts @ [s]) (map_option (ah_insert s (length counts)) ?positions, counts @ [(s, 1)])"
      using term_counts_snoc_new [OF s] counts by (cases ?positions) (auto simp: counting_def hashm.lookup_ins)
    with run show ?thesis by blast
  qed
qed

lemma tokenize_counts: "tokenize_metadata_document alphanumeric canonical = Inr (term_counts_of (document_tokens alphanumeric canonical))"
proof -
  have "\<exists>st'. res_fold count_term us st = Inr st' \<and> counting (ts @ us) st'" if "counting ts st" for ts us st
    using that
  proof (induction us arbitrary: ts st)
    case (Cons u us)
    obtain st' where "count_term u st = Inr st'" "counting (ts @ [u]) st'" using count_term_ok [OF Cons.prems] by blast
    with Cons.IH [of "ts @ [u]" st'] show ?case by simp
  qed simp
  moreover have "counting [] (None, [])" by (simp add: counting_def term_counts_of_def)
  ultimately obtain st' where "res_fold count_term (document_tokens alphanumeric canonical) (None, []) = Inr st'"
    "counting (document_tokens alphanumeric canonical) st'" by fastforce
  then show ?thesis by (simp add: tokenize_metadata_document_def counting_def case_prod_unfold)
qed

text \<open>C38. The terms of a document are counted exactly: whether the inline scan or the hash table finds their
  positions, and at the change from one to the other, each token is listed once, in the order of the first
  occurrences, with the number of its occurrences, capped at the largest \<open>u32\<close>.\<close>

theorem metadata_terms_counted:
  "tokenize_metadata_document alphanumeric canonical =
     Inr (map (\<lambda>s. (s, min (count_list (document_tokens alphanumeric canonical) s) (2 ^ 32 - 1)))
       (first_occurrences (document_tokens alphanumeric canonical)))"
  unfolding tokenize_counts term_counts_of_def capped_count_def by (rule refl)

end
