(* ===== verification/Bm25Ok.thy ===== *)
theory Bm25Ok
  imports Bm25
begin

text \<open>
  The metadata score: exchanging the documents of a pair changes nothing, so that one cached score
  serves both orders; the galloping search visits exactly the shared terms; the test on term ranges and
  masks rejects only pairs without a shared term; and a reported score is the cosine of the pair and
  reaches the threshold.
\<close>

section \<open>Exchanging the documents\<close>

definition swap_shared :: "shared_weights \<Rightarrow> shared_weights" where
  "swap_shared s =
     \<lparr>sw_left_norm = sw_right_norm s, sw_right_norm = sw_left_norm s, sw_dot = sw_dot s, sw_count = sw_count s\<rparr>"

definition swap_weights :: "pair_weights \<Rightarrow> pair_weights" where
  "swap_weights w =
     \<lparr>pw_left_length_norm = pw_right_length_norm w, pw_right_length_norm = pw_left_length_norm w,
      pw_left_unit_weight = pw_right_unit_weight w, pw_right_unit_weight = pw_left_unit_weight w,
      pw_left_base_norm = pw_right_base_norm w, pw_right_base_norm = pw_left_base_norm w,
      pw_left_shared_norm_upper = pw_right_shared_norm_upper w, pw_right_shared_norm_upper = pw_left_shared_norm_upper w,
      pw_left_term_len = pw_right_term_len w, pw_right_term_len = pw_left_term_len w,
      pw_bound_rounding_margin = pw_bound_rounding_margin w\<rparr>"

definition swap_bound :: "iterative_bound \<Rightarrow> iterative_bound" where
  "swap_bound b =
     \<lparr>ib_left_full_norm_upper = ib_right_full_norm_upper b, ib_right_full_norm_upper = ib_left_full_norm_upper b,
      ib_threshold_squared = ib_threshold_squared b\<rparr>"

definition swap_scan :: "pair_scan \<Rightarrow> pair_scan" where
  "swap_scan st =
     \<lparr>ps_left_norm = ps_right_norm st, ps_right_norm = ps_left_norm st, ps_shared = swap_shared (ps_shared st),
      ps_comparisons = ps_comparisons st\<rparr>"

lemma swap_shared_simps [simp]:
  "sw_left_norm (swap_shared s) = sw_right_norm s" "sw_right_norm (swap_shared s) = sw_left_norm s"
  "sw_dot (swap_shared s) = sw_dot s" "sw_count (swap_shared s) = sw_count s"
  "swap_shared no_weights = no_weights"
  by (simp_all add: swap_shared_def no_weights_def)

lemma swap_weights_simps [simp]:
  "pw_left_base_norm (swap_weights w) = pw_right_base_norm w" "pw_right_base_norm (swap_weights w) = pw_left_base_norm w"
  "pw_left_shared_norm_upper (swap_weights w) = pw_right_shared_norm_upper w"
  "pw_right_shared_norm_upper (swap_weights w) = pw_left_shared_norm_upper w"
  "pw_left_term_len (swap_weights w) = pw_right_term_len w" "pw_right_term_len (swap_weights w) = pw_left_term_len w"
  "pw_bound_rounding_margin (swap_weights w) = pw_bound_rounding_margin w"
  "left_once (swap_weights w) = right_once w" "right_once (swap_weights w) = left_once w"
  by (simp_all add: swap_weights_def left_once_def right_once_def fun_eq_iff)

lemma pair_weights_swap: "pair_weights_new right left = swap_weights (pair_weights_new left right)"
  by (simp add: pair_weights_new_def swap_weights_def case_prod_unfold Let_def min.commute add.commute f64_add_comm)

lemma add_with_norms_swap:
  "add_with_norms b a sb sa (swap_shared s) = swap_shared (add_with_norms a b sa sb s)"
  by (simp add: add_with_norms_def swap_shared_def f64_mul_comm)

lemma sum_shared_swap: "sum_shared (swap_weights w) (map swap_frequencies ps) = swap_shared (sum_shared w ps)"
proof -
  have "fold (\<lambda>(l, r). add_shared (right_once w l) (left_once w r)) (map swap_frequencies ps) (swap_shared s) =
      swap_shared (fold (\<lambda>(l, r). add_shared (left_once w l) (right_once w r)) ps s)" for s
    by (induction ps arbitrary: s) (simp_all add: swap_frequencies_def case_prod_unfold add_shared_def add_with_norms_swap)
  from this [of no_weights] show ?thesis by (simp add: sum_shared_def)
qed

lemma merge_shared_Nil [simp]: "merge_shared ls [] = []"
  by (cases ls) simp_all

lemma merge_shared_swap: "merge_shared rs ls = map swap_frequencies (merge_shared ls rs)"
  by (induction ls rs rule: merge_shared.induct) (auto simp: swap_frequencies_def)

lemma swap_swap [simp]: "map swap_frequencies (map swap_frequencies ps) = ps"
  by (induction ps) (simp_all add: swap_frequencies_def)

lemma shared_terms_swap: "shared_terms right left = map swap_frequencies (shared_terms left right)"
proof (cases "length left = length right")
  case True
  then show ?thesis by (simp add: shared_terms_def merge_shared_swap [of right])
next
  case False
  then show ?thesis
    by (cases "length left \<le> length right")
      (simp_all add: shared_terms_def Let_def merge_shared_swap [of right] del: map_map)
qed

lemma norm_swap [simp]:
  "left_norm_squared (swap_weights w) (swap_shared s) = right_norm_squared w s"
  "right_norm_squared (swap_weights w) (swap_shared s) = left_norm_squared w s"
  by (simp_all add: left_norm_squared_def right_norm_squared_def)

lemma pair_score_swap [simp]: "pair_score (swap_weights w) (swap_shared s) = pair_score w s"
  by (simp add: pair_score_def Let_def f64_mul_comm [of "right_norm_squared w s"])

lemma score_at_least_swap [simp]: "score_at_least (swap_weights w) (swap_shared s) threshold = score_at_least w s threshold"
  by (simp add: score_at_least_def Let_def f64_mul_comm [of "right_norm_squared w s"])

lemma decision_swap [simp]:
  "decision_at_least (swap_weights w) (swap_shared s) threshold u = decision_at_least w s threshold u"
  by (simp add: decision_at_least_def Let_def)

lemma initial_bound_swap [simp]:
  "initial_upper_bound_below_threshold (swap_weights w) threshold = initial_upper_bound_below_threshold w threshold"
  by (simp add: initial_upper_bound_below_threshold_def Let_def f64_mul_comm disj_commute)

lemma iterative_bound_swap: "iterative_bound_of (swap_weights w) threshold = map_option swap_bound (iterative_bound_of w threshold)"
  by (simp add: iterative_bound_of_def swap_bound_def Let_def)

lemma upper_bound_swap:
  "upper_bound_below_threshold (swap_weights w) (swap_bound b) (swap_shared s) r l = upper_bound_below_threshold w b s l r"
  by (simp add: upper_bound_below_threshold_def swap_bound_def Let_def f64_mul_comm disj_commute)

lemma scan_rejects_swap:
  "scan_rejects (swap_weights w) (map_option swap_bound bound) (swap_scan st) = scan_rejects w bound st"
  by (cases bound) (simp_all add: scan_rejects_def swap_scan_def upper_bound_swap)

lemma scan_steps_swap:
  "scan_equal (swap_weights w) r l (swap_scan st) = swap_scan (scan_equal w l r st)"
  "scan_left (swap_weights w) r (swap_scan st) = swap_scan (scan_right w r st)"
  "scan_right (swap_weights w) l (swap_scan st) = swap_scan (scan_left w l st)"
  by (simp_all add: scan_equal_def scan_left_def scan_right_def swap_scan_def Let_def add_with_norms_swap)

lemma scan_pair_swap:
  "scan_pair (swap_weights w) (map_option swap_bound bound) rs ls (swap_scan st) =
     map_option swap_shared (scan_pair w bound ls rs st)"
proof (induction w bound ls rs st rule: scan_pair.induct)
  case (1 w bound rs st)
  then show ?case by (cases rs) (simp_all add: swap_scan_def)
next
  case (2 w bound l ls st)
  then show ?case by (simp add: swap_scan_def)
next
  case (3 w bound l ls r rs st)
  then show ?case by (auto simp: scan_steps_swap scan_rejects_swap Let_def)
qed

lemma may_share_swap: "may_share_term right rs left ls = may_share_term left ls right rs"
  by (auto simp: may_share_term_def and.commute split: option.split)

lemma similarity_impl_swap:
  "similarity_at_least_impl right rs left ls threshold passed = similarity_at_least_impl left ls right rs threshold passed"
proof -
  let ?w = "pair_weights_new left right"
  let ?start = "\<lparr>ps_left_norm = 0, ps_right_norm = 0, ps_shared = no_weights, ps_comparisons = 0\<rparr> :: pair_scan"
  have start: "swap_scan ?start = ?start" by (simp add: swap_scan_def)
  have scan: "scan_pair (swap_weights ?w) (iterative_bound_of (swap_weights ?w) threshold) rs ls ?start =
      map_option swap_shared (scan_pair ?w (iterative_bound_of ?w threshold) ls rs ?start)"
    unfolding iterative_bound_swap using scan_pair_swap [of ?w "iterative_bound_of ?w threshold" rs ls ?start] start by simp
  have sum: "sum_shared (swap_weights ?w) (shared_terms rs ls) = swap_shared (sum_shared ?w (shared_terms ls rs))"
    unfolding shared_terms_swap [of rs ls] by (rule sum_shared_swap)
  show ?thesis
    unfolding similarity_at_least_impl_def may_share_swap [of right] pair_weights_swap [of right left]
      initial_bound_swap Let_def scan sum decision_swap
    by (auto split: option.split)
qed

lemma cosine_swap: "cosine_similarity right rs left ls = cosine_similarity left ls right rs"
  by (simp add: cosine_similarity_def pair_weights_swap [of right left] shared_terms_swap [of rs ls] sum_shared_swap Let_def)

lemma score_swap:
  "similarity_score_if_at_least right rs left ls threshold = similarity_score_if_at_least left ls right rs threshold"
  unfolding similarity_score_if_at_least_def similarity_impl_swap [of right] cosine_swap [of right] by (rule refl)

text \<open>C34. The score of a pair of documents does not depend on their order: for every pair and every
  threshold, with all the pruning, the exchanged pair is accepted or rejected alike and with the same
  rounded score.  The score cache of a query, whose key is the unordered pair, relies on it.\<close>

theorem metadata_score_symmetric:
  "similarity_score_if_at_least right right_terms left left_terms threshold =
   similarity_score_if_at_least left left_terms right right_terms threshold"
  by (rule score_swap)

section \<open>The shared terms\<close>

definition terms_sorted :: "doc_term list \<Rightarrow> bool" where
  "terms_sorted ts \<longleftrightarrow> sorted_wrt (<) (map fst ts)"

lemma terms_sorted_Cons: "terms_sorted (t # ts) \<longleftrightarrow> (\<forall>u \<in> set ts. fst t < fst u) \<and> terms_sorted ts"
  by (auto simp: terms_sorted_def)

lemma terms_sorted_nth: "terms_sorted ts \<Longrightarrow> i \<le> j \<Longrightarrow> j < length ts \<Longrightarrow> fst (ts ! i) \<le> fst (ts ! j)"
  by (cases "i = j") (auto simp: terms_sorted_def sorted_wrt_map sorted_wrt_iff_nth_less less_imp_le)

lemma gallop_step_spec:
  assumes "terms_sorted ts" "0 < step" "start + step div 2 < length ts" "fst (ts ! (start + step div 2)) < target"
  shows "let s = gallop_step ts start target step in
    0 < s \<and> start + s div 2 < length ts \<and> fst (ts ! (start + s div 2)) < target \<and>
    (start + s < length ts \<longrightarrow> target \<le> fst (ts ! (start + s)))"
  using assms
proof (induction ts start target step rule: gallop_step.induct)
  case (1 ts start target step)
  show ?case
  proof (cases "step < length ts - start \<and> fst (ts ! (start + step)) < target")
    case True
    then show ?thesis using 1 by (subst gallop_step.simps) auto
  next
    case False
    then show ?thesis using "1.prems" by (subst gallop_step.simps) (auto simp: Let_def not_less)
  qed
qed

lemma galloping_lower_bound_spec:
  fixes target :: nat
  assumes "terms_sorted ts" "start \<le> length ts"
  defines "p \<equiv> galloping_lower_bound ts start target"
  shows "start \<le> p" "p \<le> length ts" "\<forall>i. start \<le> i \<and> i < p \<longrightarrow> fst (ts ! i) < target"
    "\<forall>i. p \<le> i \<and> i < length ts \<longrightarrow> target \<le> fst (ts ! i)"
proof -
  have "start \<le> p \<and> p \<le> length ts \<and> (\<forall>i. start \<le> i \<and> i < p \<longrightarrow> fst (ts ! i) < target) \<and>
      (\<forall>i. p \<le> i \<and> i < length ts \<longrightarrow> target \<le> fst (ts ! i))"
  proof (cases "length ts \<le> start \<or> target \<le> fst (ts ! start)")
    case True
    then have "p = start" by (simp add: p_def galloping_lower_bound_def)
    with True assms terms_sorted_nth [OF assms(1), of start] show ?thesis by fastforce
  next
    case False
    define s where "s = gallop_step ts start target 1"
    define low where "low = start + s div 2 + 1"
    define high where "high = min (start + s + 1) (length ts)"
    let ?part = "take (high - low) (drop low ts)"
    define k where "k = partition_point (\<lambda>t. fst t < target) ?part"
    have s: "start + s div 2 < length ts" "fst (ts ! (start + s div 2)) < target"
      "start + s < length ts \<Longrightarrow> target \<le> fst (ts ! (start + s))" "0 < s"
      using gallop_step_spec [OF assms(1), of 1 start target] False by (simp_all add: s_def Let_def)
    have p: "p = low + k" using False by (simp add: p_def galloping_lower_bound_def s_def low_def high_def k_def Let_def)
    have len: "length ?part = high - low" "low \<le> high" "high \<le> length ts"
      using s(1,4) by (auto simp: low_def high_def)
    have nth: "?part ! i = ts ! (low + i)" if "i < high - low" for i using that len by simp
    have "k \<le> length ?part \<and> (\<forall>i < length ?part. i < k \<longleftrightarrow> fst (?part ! i) < target)"
      unfolding k_def
    proof (rule partition_point_spec)
      fix i j assume ij: "i \<le> j" "j < length ?part" "fst (?part ! j) < target"
      then have "fst (ts ! (low + i)) \<le> fst (ts ! (low + j))" using terms_sorted_nth [OF assms(1), of "low + i" "low + j"] len by simp
      with ij nth len show "fst (?part ! i) < target" by simp
    qed
    then have k: "k \<le> high - low" "\<And>i. i < high - low \<Longrightarrow> i < k \<longleftrightarrow> fst (ts ! (low + i)) < target"
      using len nth by auto
    have below: "fst (ts ! i) < target" if "start \<le> i" "i < p" for i
    proof (cases "i < low")
      case True
      then have "fst (ts ! i) \<le> fst (ts ! (start + s div 2))"
        using terms_sorted_nth [OF assms(1), of i "start + s div 2"] s(1) by (simp add: low_def)
      then show ?thesis using s(2) by simp
    next
      case False
      then have "i - low < k" "low + (i - low) = i" using that(2) p by linarith+
      then show ?thesis using k(2) [of "i - low"] k(1) by simp
    qed
    have above: "target \<le> fst (ts ! i)" if "p \<le> i" "i < length ts" for i
    proof (cases "i < high")
      case True
      then have "low + (i - low) = i" "\<not> i - low < k" "i - low < high - low" using that(1) p by linarith+
      then show ?thesis using k(2) [of "i - low"] by (simp add: not_less)
    next
      case False
      then have "start + s < length ts" "start + s \<le> i" using that by (auto simp: high_def)
      then show ?thesis using s(3) terms_sorted_nth [OF assms(1), of "start + s" i] that(2) by linarith
    qed
    show ?thesis using below above k(1) len p by (auto simp: low_def)
  qed
  then show "start \<le> p" "p \<le> length ts" "\<forall>i. start \<le> i \<and> i < p \<longrightarrow> fst (ts ! i) < target"
    "\<forall>i. p \<le> i \<and> i < length ts \<longrightarrow> target \<le> fst (ts ! i)" by blast+
qed

lemma merge_shared_skip:
  "\<forall>u \<in> set us. fst u < fst t \<Longrightarrow> merge_shared (t # ts) (us @ rs) = merge_shared (t # ts) rs"
  by (induction us) auto

lemma gallop_shared_merge:
  "terms_sorted longer \<Longrightarrow> start \<le> length longer \<Longrightarrow>
   gallop_shared shorter longer start = merge_shared shorter (drop start longer)"
proof (induction shorter longer start rule: gallop_shared.induct)
  case (2 tid short_tf shorter longer start)
  define p where "p = galloping_lower_bound longer start tid"
  note p = galloping_lower_bound_spec [OF "2.prems", of tid, folded p_def]
  have split: "drop start longer = take (p - start) (drop start longer) @ drop p longer"
    using p(1) by (metis append_take_drop_id drop_drop le_add_diff_inverse2)
  have "fst (longer ! (start + i)) < tid" if "i < p - start" for i using p(3) that by simp
  then have "\<forall>u \<in> set (take (p - start) (drop start longer)). fst u < tid"
    by (fastforce simp: in_set_conv_nth)
  then have skip: "merge_shared ((tid, short_tf) # shorter) (drop start longer) = merge_shared ((tid, short_tf) # shorter) (drop p longer)"
    by (subst split) (rule merge_shared_skip, simp)
  show ?case
  proof (cases "p < length longer")
    case False
    then show ?thesis using skip by (simp add: p_def [symmetric] Let_def idx_def)
  next
    case True
    then have drop: "drop p longer = longer ! p # drop (Suc p) longer" by (simp add: Cons_nth_drop_Suc)
    obtain candidate long_tf where at: "longer ! p = (candidate, long_tf)" by fastforce
    have "tid \<le> candidate" using p(4) True at by (metis fst_conv order_refl)
    with 2 True at drop skip show ?thesis
      by (auto simp: p_def [symmetric] Let_def idx_def)
  qed
qed simp

lemma shared_terms_merge:
  assumes "terms_sorted left" "terms_sorted right"
  shows "shared_terms left right = merge_shared left right"
  using assms gallop_shared_merge [of right 0 left] gallop_shared_merge [of left 0 right] merge_shared_swap [of left right]
  by (auto simp: shared_terms_def simp del: map_map)

lemma map_filter_cong: "(\<And>x. x \<in> set xs \<Longrightarrow> f x = g x) \<Longrightarrow> List.map_filter f xs = List.map_filter g xs"
  by (induction xs) (simp_all add: List.map_filter_simps split: option.split)

lemma merge_shared_lookup:
  assumes "terms_sorted left" "terms_sorted right"
  shows "merge_shared left right =
    List.map_filter (\<lambda>(tid, left_tf). map_option (\<lambda>right_tf. (left_tf, right_tf)) (map_of right tid)) left"
  using assms
proof (induction left right rule: merge_shared.induct)
  case (1 rs)
  then show ?case by (simp add: List.map_filter_simps)
next
  case (2 l ls)
  show ?case by (simp add: List.map_filter_def case_prod_unfold)
next
  case (3 l ls r rs)
  have none: "map_of rs (fst l) = None" if "fst l \<le> fst r"
    using that "3.prems"(2) by (force simp: terms_sorted_Cons map_of_eq_None_iff)
  have ls: "List.map_filter (\<lambda>(tid, left_tf). map_option (\<lambda>right_tf. (left_tf, right_tf)) (map_of (r # rs) tid)) ls =
      List.map_filter (\<lambda>(tid, left_tf). map_option (\<lambda>right_tf. (left_tf, right_tf)) (map_of rs tid)) ls" if "fst r \<le> fst l"
  proof -
    have "fst u \<noteq> fst r" if "u \<in> set ls" for u using that \<open>fst r \<le> fst l\<close> "3.prems"(1) by (fastforce simp: terms_sorted_Cons)
    then show ?thesis by (intro map_filter_cong) (auto simp: case_prod_unfold)
  qed
  show ?case
  proof (cases "fst l" "fst r" rule: linorder_cases)
    case equal
    then have "merge_shared (l # ls) (r # rs) = (snd l, snd r) # merge_shared ls rs" by simp
    with equal "3.IH"(1) [OF equal] "3.prems" ls show ?thesis
      by (simp add: terms_sorted_Cons List.map_filter_simps case_prod_unfold)
  next
    case less
    then have "merge_shared (l # ls) (r # rs) = merge_shared ls (r # rs)" by simp
    with less "3.IH"(2) "3.prems" none show ?thesis
      by (simp add: terms_sorted_Cons List.map_filter_simps case_prod_unfold)
  next
    case greater
    then have "merge_shared (l # ls) (r # rs) = merge_shared (l # ls) rs" by simp
    with greater "3.IH"(3) "3.prems" ls show ?thesis
      by (cases "map_of rs (fst l)") (simp_all add: terms_sorted_Cons List.map_filter_simps case_prod_unfold)
  qed
qed

text \<open>The terms that a score counts are exactly the shared ones: whichever of the merge and the
  galloping search runs, the frequencies visited are those of the terms of both documents, in the order of
  the term ids, each with its frequency on the left and on the right.\<close>

theorem shared_terms_exact:
  assumes "terms_sorted left" "terms_sorted right"
  shows "shared_terms left right =
    List.map_filter (\<lambda>(tid, left_tf). map_option (\<lambda>right_tf. (left_tf, right_tf)) (map_of right tid)) left"
  using shared_terms_merge [OF assms] merge_shared_lookup [OF assms] by simp

section \<open>The test for overlap\<close>

definition in_mask :: "64 word \<times> 64 word \<Rightarrow> nat \<Rightarrow> bool" where
  "in_mask bits b \<longleftrightarrow> (if b div 64 = 0 then bit (fst bits) (b mod 64) else bit (snd bits) (b mod 64))"

lemma in_mask_mark: "in_mask (mark_term tid bits) b \<longleftrightarrow> in_mask bits b \<or> b mod 64 = mask_bit tid mod 64 \<and> (b div 64 = 0 \<longleftrightarrow> mask_bit tid div 64 = 0)"
  by (auto simp: in_mask_def mark_term_def Let_def bit_or_iff bit_exp_iff)

lemma mask_of_terms:
  "tid \<in> fst ` set ts \<or> in_mask bits (mask_bit tid) \<Longrightarrow>
   in_mask (fst (fold (\<lambda>(tid, frequency) (bits, len). (mark_term tid bits, sat_add_u32 len frequency)) ts (bits, len))) (mask_bit tid)"
proof (induction ts arbitrary: bits len)
  case (Cons t ts)
  have "tid \<in> fst ` set ts \<or> in_mask (mark_term (fst t) bits) (mask_bit tid)"
    using Cons.prems by (auto simp: in_mask_mark)
  from Cons.IH [OF this] show ?case by (simp add: case_prod_unfold)
qed simp

lemma mask_of_document: "tid \<in> fst ` set ts \<Longrightarrow> in_mask (pd_term_mask (from_compact_terms ts)) (mask_bit tid)"
  using mask_of_terms [of tid ts "(0, 0)" 0] by (simp add: from_compact_terms_def case_prod_unfold Let_def)

lemma common_term_shared:
  assumes "terms_sorted ls" "terms_sorted rs" "pd_term_mask left = pd_term_mask (from_compact_terms ls)"
    "pd_term_mask right = pd_term_mask (from_compact_terms rs)" "tid \<in> fst ` set ls" "tid \<in> fst ` set rs"
  shows "may_share_term left ls right rs"
proof -
  have ends: "fst (hd ts) \<le> t \<and> t \<le> fst (last ts)" if sorted: "terms_sorted ts" and t: "t \<in> fst ` set ts" for ts t
  proof -
    obtain i where i: "i < length ts" "t = fst (ts ! i)" using t by (auto simp: in_set_conv_nth)
    moreover have "ts \<noteq> []" using i(1) by auto
    ultimately show ?thesis
      using terms_sorted_nth [OF sorted, of 0 i] terms_sorted_nth [OF sorted, of i "length ts - 1"] by (simp add: hd_conv_nth last_conv_nth)
  qed
  have "ls \<noteq> []" "rs \<noteq> []" using assms(5,6) by auto
  moreover have "\<not> (fst (last ls) < fst (hd rs) \<or> fst (last rs) < fst (hd ls))"
    using ends [OF assms(1,5)] ends [OF assms(2,6)] by linarith
  moreover have "\<not> (fst (pd_term_mask left) AND fst (pd_term_mask right) = 0 \<and> snd (pd_term_mask left) AND snd (pd_term_mask right) = 0)"
  proof
    assume zero: "fst (pd_term_mask left) AND fst (pd_term_mask right) = 0 \<and> snd (pd_term_mask left) AND snd (pd_term_mask right) = 0"
    have "in_mask (pd_term_mask left) (mask_bit tid)" "in_mask (pd_term_mask right) (mask_bit tid)"
      using mask_of_document assms(3-6) by simp_all
    then have "bit (fst (pd_term_mask left) AND fst (pd_term_mask right)) (mask_bit tid mod 64) \<or>
        bit (snd (pd_term_mask left) AND snd (pd_term_mask right)) (mask_bit tid mod 64)"
      by (auto simp: in_mask_def bit_and_iff split: if_splits)
    with zero show False by simp
  qed
  ultimately show ?thesis by (simp add: may_share_term_def term_range_def)
qed

lemma overlap_filter_lossless:
  assumes "terms_sorted ls" "terms_sorted rs" "pd_term_mask left = pd_term_mask (from_compact_terms ls)"
    "pd_term_mask right = pd_term_mask (from_compact_terms rs)" "\<not> may_share_term left ls right rs"
  shows "shared_terms ls rs = []"
proof -
  have "map_of rs tid = None" if "tid \<in> fst ` set ls" for tid
    using common_term_shared [OF assms(1-4) that] assms(5) by (auto simp: map_of_eq_None_iff)
  then have "map_of rs (fst t) = None" if "t \<in> set ls" for t using that by simp
  then show ?thesis
    unfolding shared_terms_merge [OF assms(1,2)] merge_shared_lookup [OF assms(1,2)]
    by (simp add: List.map_filter_def filter_empty_conv case_prod_unfold)
qed

section \<open>Reported scores\<close>

lemma scan_pair_sum:
  "scan_pair w bound ls rs st = Some s \<Longrightarrow>
   s = fold (\<lambda>(left_tf, right_tf). add_shared (left_once w left_tf) (right_once w right_tf)) (merge_shared ls rs) (ps_shared st)"
  by (induction w bound ls rs st rule: scan_pair.induct)
    (auto simp: scan_equal_def scan_left_def scan_right_def add_shared_def Let_def split: if_splits)

lemma score_at_least_score: "score_at_least w s threshold \<Longrightarrow> \<not> threshold \<le> 0 \<Longrightarrow> threshold \<le> pair_score w s"
  by (auto simp: score_at_least_def pair_score_def Let_def split: if_splits)

lemma decision_score:
  assumes "decision_at_least w s threshold u = (decision, score)" "td_matched decision" "\<not> threshold \<le> 0"
  shows "score = Some (pair_score w s) \<and> threshold \<le> pair_score w s"
  using assms score_at_least_score by (auto simp: decision_at_least_def Let_def)

text \<open>C35. A reported metadata score is right: for documents with sorted terms, whatever the pruning does,
  a score that is returned is the cosine of the pair and, for a positive threshold, reaches the threshold;
  and a pair is dropped by the test for overlap only if no term is shared, so that its cosine is 0.\<close>

theorem metadata_score_sound:
  assumes "terms_sorted ls" "terms_sorted rs" "pd_term_mask left = pd_term_mask (from_compact_terms ls)"
    "pd_term_mask right = pd_term_mask (from_compact_terms rs)"
  shows "(\<forall>s. similarity_score_if_at_least left ls right rs threshold = Some s \<longrightarrow>
      s = cosine_similarity left ls right rs \<and> (threshold \<le> 0 \<or> threshold \<le> s)) \<and>
    (td_zero_overlap_pruned (similarity_at_least left ls right rs threshold) \<longrightarrow> cosine_similarity left ls right rs = 0)"
proof -
  let ?w = "pair_weights_new left right"
  let ?start = "\<lparr>ps_left_norm = 0, ps_right_norm = 0, ps_shared = no_weights, ps_comparisons = 0\<rparr> :: pair_scan"
  have none: "cosine_similarity left ls right rs = 0" if "\<not> may_share_term left ls right rs"
    using overlap_filter_lossless [OF assms that] by (simp add: cosine_similarity_def sum_shared_def no_weights_def pair_score_def Let_def)
  have count: "cosine_similarity left ls right rs = pair_score ?w (sum_shared ?w (shared_terms ls rs))"
    by (simp add: cosine_similarity_def Let_def)
  have scan: "s = sum_shared ?w (shared_terms ls rs)" if "scan_pair ?w bound ls rs ?start = Some s" for bound s
    using scan_pair_sum [OF that] shared_terms_merge [OF assms(1,2)] by (simp add: sum_shared_def)
  obtain decision score where impl: "similarity_at_least_impl left ls right rs threshold False = (decision, score)" by fastforce
  have matched: "unwrap_or (cosine_similarity left ls right rs) score = cosine_similarity left ls right rs \<and>
      (threshold \<le> 0 \<or> threshold \<le> cosine_similarity left ls right rs)" if m: "td_matched decision"
  proof (cases "threshold \<le> 0")
    case True
    then show ?thesis using impl by (auto simp: similarity_at_least_impl_def)
  next
    case False
    obtain u where "decision_at_least ?w (sum_shared ?w (shared_terms ls rs)) threshold u = (decision, score)"
      using impl False m scan
      by (auto simp: similarity_at_least_impl_def rejected_def Let_def split: if_splits option.splits)
    from decision_score [OF this m False] show ?thesis unfolding count by simp
  qed
  have pruned: "cosine_similarity left ls right rs = 0" if zero: "td_zero_overlap_pruned decision"
  proof (cases "may_share_term left ls right rs")
    case True
    then have "\<exists>u. decision_at_least ?w (sum_shared ?w (shared_terms ls rs)) threshold u = (decision, score)"
      using impl zero scan
      by (auto simp: similarity_at_least_impl_def rejected_def Let_def split: if_splits option.splits)
    then have "sw_count (sum_shared ?w (shared_terms ls rs)) = 0"
      using zero by (auto simp: decision_at_least_def Let_def split: if_splits)
    then show ?thesis unfolding count by (simp add: pair_score_def)
  next
    case False
    then show ?thesis by (rule none)
  qed
  show ?thesis
    using matched pruned by (auto simp: similarity_score_if_at_least_def similarity_at_least_def impl)
qed

section \<open>Examples\<close>

theorem shared_terms_exact_witness:
  "shared_terms [(1, 2), (3, 1)] [(0, 5), (1, 4), (7, 1)] = [(2, 4)]"
  using shared_terms_exact [of "[(1, 2), (3, 1)]" "[(0, 5), (1, 4), (7, 1)]"]
  by (simp add: terms_sorted_def List.map_filter_simps)

theorem metadata_score_sound_witness:
  "cosine_similarity (from_compact_terms [(1, 1)]) [(1, 1)] (from_compact_terms [(2, 1)]) [(2, 1)] = 0"
proof -
  have "td_zero_overlap_pruned (similarity_at_least (from_compact_terms [(1, 1)]) [(1, 1)] (from_compact_terms [(2, 1)]) [(2, 1)] 1)"
    by (simp add: similarity_at_least_def similarity_at_least_impl_def may_share_term_def term_range_def rejected_def f64_ops)
  then show ?thesis
    using metadata_score_sound [of "[(1, 1)]" "[(2, 1)]" "from_compact_terms [(1, 1)]" "from_compact_terms [(2, 1)]" 1]
    by (simp add: terms_sorted_def)
qed

end
