(* ===== verification/MetaExact.thy ===== *)
theory MetaExact
  imports MetaQuery Bm25Ok
begin

unbundle bit_operations_syntax

text \<open>
  The metadata query against its specification: the bits of the scratch mark exactly the candidates
  collected so far and are cleared for the next seed; the candidates are those of a declarative
  definition, in ascending order; cached scores are the scores of the pair, whose order is irrelevant; so the
  query appends one edge per accepted candidate, for every number of threads and every way of
  dividing the candidates into chunks.
\<close>

section \<open>Marks\<close>

definition marked :: "nat \<Rightarrow> marks \<Rightarrow> nat set \<Rightarrow> bool" where
  "marked n m S \<longleftrightarrow>
     distinct (snd m) \<and> set (snd m) = S \<and> (\<forall>c < n. c div 64 < length (fst m)) \<and> (\<forall>c \<in> S. c div 64 < length (fst m)) \<and>
     (\<forall>c. c div 64 < length (fst m) \<longrightarrow> bit (fst m ! (c div 64)) (c mod 64) = (c \<in> S))"

lemma bit_flag: "bit (push_bit (c mod 64) (1 :: 64 word)) i \<longleftrightarrow> i = c mod 64"
  by (auto simp: bit_exp_iff)

lemma and_flag: "(word AND push_bit (c mod 64) 1 = 0) = (\<not> bit word (c mod 64))" for word :: "64 word"
proof
  assume "word AND push_bit (c mod 64) 1 = 0"
  then have "\<not> bit (word AND push_bit (c mod 64) 1) (c mod 64)" by simp
  then show "\<not> bit word (c mod 64)" by (simp add: bit_and_iff bit_flag del: push_bit_of_1)
next
  assume "\<not> bit word (c mod 64)"
  then have "\<not> bit (word AND push_bit (c mod 64) 1) i" for i
    by (auto simp: bit_and_iff bit_flag simp del: push_bit_of_1)
  then show "word AND push_bit (c mod 64) 1 = 0" by (intro bit_eqI) simp
qed

lemma same_place: "c div 64 = d div 64 \<Longrightarrow> c mod 64 = d mod 64 \<longleftrightarrow> c = d" for c d :: nat
  by (metis div_mult_mod_eq)

lemma mark_candidate_ok:
  assumes "marked n m S" "c < n"
  shows "\<exists>m'. mark_candidate c m = Inr m' \<and> marked n m' (insert c S)"
proof -
  obtain bits found where m: "m = (bits, found)" by fastforce
  let ?i = "c div 64" and ?flag = "push_bit (c mod 64) (1 :: 64 word)"
  have i: "?i < length bits" using assms by (simp add: marked_def m)
  have known: "bit (bits ! ?i) (c mod 64) = (c \<in> S)" using assms(1) i by (simp add: marked_def m)
  show ?thesis
  proof (cases "c \<in> S")
    case True
    then have "mark_candidate c m = Inr m"
      using i known by (simp add: mark_candidate_def m and_flag idx_def or_panic_def Let_def del: push_bit_of_1)
    then show ?thesis using assms(1) True by (simp add: insert_absorb)
  next
    case False
    then have "mark_candidate c m = Inr (bits[?i := bits ! ?i OR ?flag], found @ [c])"
      using i known by (simp add: mark_candidate_def m and_flag idx_def upd_def or_panic_def Let_def del: push_bit_of_1)
    moreover have "bit (bits[?i := bits ! ?i OR ?flag] ! (d div 64)) (d mod 64) = (d \<in> insert c S)" if "d div 64 < length bits" for d
    proof (cases "d div 64 = ?i")
      case True
      have "bit (bits ! ?i) (d mod 64) = (d \<in> S)" using assms(1) i True [symmetric] by (simp add: marked_def m)
      then show ?thesis using i same_place [of c d] True by (auto simp: bit_or_iff bit_flag simp del: push_bit_of_1)
    qed (use assms(1) that in \<open>auto simp: marked_def m\<close>)
    ultimately show ?thesis using assms i False by (simp add: marked_def m)
  qed
qed

lemma marked_fold:
  assumes "\<And>x m S. x \<in> set xs \<Longrightarrow> marked n m S \<Longrightarrow> \<exists>m'. f x m = Inr m' \<and> marked n m' (S \<union> g x)"
    and "marked n m S"
  shows "\<exists>m'. res_fold f xs m = Inr m' \<and> marked n m' (S \<union> \<Union> (g ` set xs))"
  using assms
proof (induction xs arbitrary: m S)
  case (Cons x xs)
  from Cons.prems(1) [of x m S] Cons.prems(2) obtain m' where m': "f x m = Inr m'" "marked n m' (S \<union> g x)" by auto
  from Cons.IH [OF _ m'(2)] Cons.prems(1) obtain m'' where
    "res_fold f xs m' = Inr m''" "marked n m'' (S \<union> g x \<union> \<Union> (g ` set xs))" by auto
  with m' show ?case by (auto simp: Un_assoc)
qed simp

lemma mark_other_ok:
  assumes "marked n m S" "c < n"
  shows "\<exists>m'. mark_other seed c m = Inr m' \<and> marked n m' (S \<union> ({c} - {seed}))"
  using mark_candidate_ok [OF assms] assms(1) by (cases "c = seed") (auto simp: mark_other_def)

lemma unmark_fold:
  assumes "\<forall>c \<in> set found. c div 64 < length bits"
  shows "\<exists>bits'. res_fold unmark found bits = Inr bits' \<and> length bits' = length bits \<and>
    (\<forall>c. c div 64 < length bits \<longrightarrow> bit (bits' ! (c div 64)) (c mod 64) = (bit (bits ! (c div 64)) (c mod 64) \<and> c \<notin> set found))"
  using assms
proof (induction found arbitrary: bits)
  case (Cons d found)
  let ?bits = "bits[d div 64 := bits ! (d div 64) AND NOT (push_bit (d mod 64) 1)]"
  have step: "unmark d bits = Inr ?bits"
    using Cons.prems by (simp add: unmark_def idx_def upd_def or_panic_def)
  have cleared: "bit (?bits ! (c div 64)) (c mod 64) = (bit (bits ! (c div 64)) (c mod 64) \<and> c \<noteq> d)" if "c div 64 < length bits" for c
    using that same_place [of c d]
    by (cases "c div 64 = d div 64") (auto simp: bit_and_iff bit_not_iff bit_flag simp del: push_bit_of_1)
  have "\<forall>c \<in> set found. c div 64 < length ?bits" using Cons.prems by simp
  from Cons.IH [OF this] obtain bits' where "res_fold unmark found ?bits = Inr bits'" "length bits' = length bits"
    "\<forall>c. c div 64 < length bits \<longrightarrow> bit (bits' ! (c div 64)) (c mod 64) = (bit (?bits ! (c div 64)) (c mod 64) \<and> c \<notin> set found)"
    by auto
  with step cleared show ?case by (intro exI [of _ bits']) auto
qed simp

lemma begin_candidates_ok:
  assumes "marked k m S"
  shows "\<exists>m'. begin_candidates n m = Inr m' \<and> marked n m' {}"
proof -
  obtain bits found where m: "m = (bits, found)" by fastforce
  have "\<forall>c \<in> set found. c div 64 < length bits" using assms by (simp add: marked_def m)
  from unmark_fold [OF this] obtain bits' where bits': "res_fold unmark found bits = Inr bits'" "length bits' = length bits"
    "\<forall>c. c div 64 < length bits \<longrightarrow> bit (bits' ! (c div 64)) (c mod 64) = (bit (bits ! (c div 64)) (c mod 64) \<and> c \<notin> set found)"
    by blast
  have clear: "\<not> bit (bits' ! (c div 64)) (c mod 64)" if "c div 64 < length bits'" for c
    using that bits'(2,3) assms by (auto simp: marked_def m)
  let ?words = "(n + 63) div 64"
  let ?out = "if length bits' < ?words then bits' @ replicate (?words - length bits') 0 else bits'"
  have "c div 64 < length ?out" if "c < n" for c using that by (auto simp: less_eq_div_iff_mult_less_eq)
  moreover have "\<not> bit (?out ! (c div 64)) (c mod 64)" if "c div 64 < length ?out" for c
    using that clear [of c] by (auto simp: nth_append split: if_splits)
  ultimately have "marked n (?out, []) {}" by (simp add: marked_def)
  then show ?thesis using bits'(1) by (simp add: begin_candidates_def m Let_def)
qed

section \<open>Dense postings\<close>

definition dense_row :: "'a dense_csr \<Rightarrow> nat \<Rightarrow> 'a list" where
  "dense_row csr key = unwrap_or [] (dense_values_for csr key)"

definition dense_ok :: "'a dense_csr \<Rightarrow> nat \<Rightarrow> bool" where
  "dense_ok csr n \<longleftrightarrow>
     length (dc_offsets csr) = n + 1 \<and> sorted (dc_offsets csr) \<and> last (dc_offsets csr) \<le> length (dc_values csr)"

lemma dense_ok_nth:
  assumes "dense_ok csr n" "i < n"
  shows "dc_offsets csr ! i \<le> dc_offsets csr ! Suc i" "dc_offsets csr ! Suc i \<le> length (dc_values csr)"
proof -
  have "dc_offsets csr ! Suc i \<le> last (dc_offsets csr)"
    using assms by (subst last_conv_nth) (auto simp: dense_ok_def intro: sorted_nth_mono)
  then show "dc_offsets csr ! Suc i \<le> length (dc_values csr)" using assms(1) by (simp add: dense_ok_def)
  show "dc_offsets csr ! i \<le> dc_offsets csr ! Suc i" using assms by (auto simp: dense_ok_def intro: sorted_nth_mono)
qed

lemma dense_values:
  assumes "dense_ok csr n"
  shows "dense_values_for csr i = (if i < n then Some (dense_row csr i) else None)"
  using assms dense_ok_nth [OF assms, of i]
  by (auto simp: dense_values_for_def dense_row_def idx_def dense_ok_def Csr.slice_def)

lemma dense_iter_ok:
  assumes "dense_ok csr n"
  shows "dense_iter csr = Inr (map (dense_row csr) [0..<n])"
proof -
  have len: "length (dc_offsets csr) = Suc n" using assms by (simp add: dense_ok_def)
  have zip: "zip (dc_offsets csr) (tl (dc_offsets csr)) = map (\<lambda>i. (dc_offsets csr ! i, dc_offsets csr ! Suc i)) [0..<n]"
    using len by (intro nth_equalityI) (simp_all add: nth_tl)
  have "or_panic (Csr.slice (dc_values csr) (dc_offsets csr ! i) (dc_offsets csr ! Suc i)) = Inr (dense_row csr i)" if "i < n" for i
    using that dense_ok_nth [OF assms that] len by (simp add: dense_row_def dense_values_for_def idx_def Csr.slice_def or_panic_def)
  then have "res_collect (map (\<lambda>i. or_panic (Csr.slice (dc_values csr) (dc_offsets csr ! i) (dc_offsets csr ! Suc i))) [0..<n]) =
      Inr (map (dense_row csr) [0..<n])"
    by (intro res_collect_map) simp
  then show ?thesis unfolding dense_iter_def zip by (simp add: comp_def)
qed

section \<open>The candidates\<close>

text \<open>A well-formed index over \<open>n\<close> contracts.\<close>

definition meta_ok :: "metadata_index \<Rightarrow> nat \<Rightarrow> bool" where
  "meta_ok index n \<longleftrightarrow>
     dense_ok (mi_contract_anchors index) n \<and> length (mi_contract_is_evm index) = n \<and>
     (\<forall>c < n. \<forall>a \<in> set (dense_row (mi_contract_anchors index) c). an_document_id a < length (mi_documents index)) \<and>
     (\<forall>d. \<forall>c \<in> set (dense_row (mi_doc_contracts index) d). c < n) \<and>
     (\<forall>document \<in> set (mi_documents index). pd_term_start document + pd_term_len document \<le> length (mi_terms index))"

definition terms_at :: "metadata_index \<Rightarrow> nat \<Rightarrow> doc_term list" where
  "terms_at index d =
     (let document = mi_documents index ! d in take (pd_term_len document) (drop (pd_term_start document) (mi_terms index)))"

definition anchors_at :: "metadata_index \<Rightarrow> nat \<Rightarrow> anchor_ref list" where
  "anchors_at index = dense_row (mi_contract_anchors index)"

definition holders_of :: "metadata_index \<Rightarrow> nat \<Rightarrow> nat set" where
  "holders_of index d = set (dense_row (mi_doc_contracts index) d)"

definition prefix_terms :: "metadata_index \<Rightarrow> f64 \<Rightarrow> nat \<Rightarrow> nat list" where
  "prefix_terms index threshold d =
     (let ordered = rarity_order index (terms_at index d)
      in map (\<lambda>(_, tid, _). tid) (take (lossless_prefix_len (map (\<lambda>(_, _, frequency). frequency) ordered) threshold) ordered))"

definition posted_documents :: "metadata_index \<Rightarrow> nat \<Rightarrow> nat set" where
  "posted_documents index tid = set (dense_row (mi_term_postings index) tid)"

definition metadata_candidates :: "metadata_index \<Rightarrow> nat \<Rightarrow> f64 \<Rightarrow> nat set" where
  "metadata_candidates index seed threshold =
     (let documents = an_document_id ` set (anchors_at index seed)
      in (\<Union>d \<in> documents. holders_of index d) \<union>
         (if threshold = NaN \<or> 1 < threshold then {}
          else if threshold \<le> 0 then {c. anchors_at index c \<noteq> []}
          else \<Union>d \<in> documents. \<Union>tid \<in> set (prefix_terms index threshold d). \<Union>d' \<in> posted_documents index tid. holders_of index d'))
     - {seed}"

lemma document_terms_ok:
  assumes "meta_ok index n" "d < length (mi_documents index)"
  shows "document_terms index d = Inr (terms_at index d)"
  using assms nth_mem [OF assms(2)]
  by (auto simp: document_terms_def document_terms_in_def terms_at_def meta_ok_def idx_def Csr.slice_def or_panic_def Let_def)

lemma mark_document_ok:
  assumes "meta_ok index n" "marked n m S"
  shows "\<exists>m'. mark_document index seed d m = Inr m' \<and> marked n m' (S \<union> (holders_of index d - {seed}))"
proof (cases "dense_values_for (mi_doc_contracts index) d")
  case None
  then show ?thesis using assms(2) by (simp add: mark_document_def holders_of_def dense_row_def)
next
  case (Some contracts)
  then have "\<forall>c \<in> set contracts. c < n" using assms(1) by (auto simp: meta_ok_def dense_row_def dest: spec [of _ d])
  then have "\<exists>m'. res_fold (mark_other seed) contracts m = Inr m' \<and> marked n m' (S \<union> (\<Union>c \<in> set contracts. {c} - {seed}))"
    using mark_other_ok by (intro marked_fold [OF _ assms(2)]) blast
  moreover have "(\<Union>c \<in> set contracts. {c} - {seed}) = holders_of index d - {seed}"
    using Some by (auto simp: holders_of_def dense_row_def)
  ultimately show ?thesis using Some by (simp add: mark_document_def)
qed

lemma mark_term_documents_ok:
  assumes "meta_ok index n" "marked n m S"
  shows "\<exists>m'. mark_term_documents index seed tid m = Inr m' \<and>
    marked n m' (S \<union> (\<Union>d \<in> posted_documents index tid. holders_of index d - {seed}))"
proof (cases "dense_values_for (mi_term_postings index) tid")
  case None
  then show ?thesis using assms(2) by (simp add: mark_term_documents_def posted_documents_def dense_row_def)
next
  case (Some documents)
  have "\<exists>m'. res_fold (mark_document index seed) documents m = Inr m' \<and> marked n m' (S \<union> (\<Union>d \<in> set documents. holders_of index d - {seed}))"
    using mark_document_ok [OF assms(1)] by (intro marked_fold [OF _ assms(2)]) blast
  then show ?thesis using Some by (simp add: mark_term_documents_def posted_documents_def dense_row_def)
qed

text \<open>The parts of the scratch that a query leaves behind do not matter.\<close>

lemma probe_document_ok:
  assumes "meta_ok index n" "marked n m S" "d < length (mi_documents index)"
  shows "\<exists>scratch' m'. probe_document index seed threshold d (scratch, m) = Inr (scratch', m') \<and>
    marked n m' (S \<union> (\<Union>tid \<in> set (prefix_terms index threshold d). \<Union>d' \<in> posted_documents index tid. holders_of index d' - {seed}))"
proof (cases "terms_at index d = []")
  case True
  then show ?thesis using assms document_terms_ok [OF assms(1,3)]
    by (simp add: probe_document_def prefix_terms_def rarity_order_def)
next
  case False
  have "\<exists>m'. res_fold (mark_term_documents index seed) (prefix_terms index threshold d) m = Inr m' \<and>
      marked n m' (S \<union> (\<Union>tid \<in> set (prefix_terms index threshold d). \<Union>d' \<in> posted_documents index tid. holders_of index d' - {seed}))"
    using mark_term_documents_ok [OF assms(1)] by (intro marked_fold [OF _ assms(2)]) blast
  then show ?thesis
    using False document_terms_ok [OF assms(1,3)] by (auto simp: probe_document_def prefix_terms_def Let_def)
qed

lemma probe_documents_ok:
  assumes "meta_ok index n" "\<forall>d \<in> set documents. d < length (mi_documents index)" "marked n m S"
  shows "\<exists>scratch' m'. res_fold (probe_document index seed threshold) documents (scratch, m) = Inr (scratch', m') \<and>
    marked n m' (S \<union> (\<Union>d \<in> set documents. \<Union>tid \<in> set (prefix_terms index threshold d). \<Union>d' \<in> posted_documents index tid. holders_of index d' - {seed}))"
  using assms(2,3)
proof (induction documents arbitrary: scratch m S)
  case (Cons d documents)
  obtain scratch1 m1 where 1: "probe_document index seed threshold d (scratch, m) = Inr (scratch1, m1)"
    "marked n m1 (S \<union> (\<Union>tid \<in> set (prefix_terms index threshold d). \<Union>d' \<in> posted_documents index tid. holders_of index d' - {seed}))"
    using probe_document_ok [OF assms(1) Cons.prems(2), of d seed threshold scratch] Cons.prems(1) by auto
  from Cons.IH [OF _ 1(2), of scratch1] Cons.prems(1) 1(1) show ?case by (simp add: Un_assoc)
qed simp

lemma seed_documents: "set (fold collect_seed_document anchors documents) = set documents \<union> an_document_id ` set anchors"
  by (induction anchors arbitrary: documents) (auto simp: collect_seed_document_def)

definition scratch_ok :: "metadata_scratch \<Rightarrow> bool" where
  "scratch_ok scratch \<longleftrightarrow> marked 0 (ms_candidate_bits scratch, ms_output scratch) (set (ms_output scratch))"

lemma finish_candidates_ok:
  assumes "marked n m S"
  shows "\<exists>scratch'. finish_candidates (scratch, m) = Inr scratch' \<and> ms_output scratch' = sorted_list_of_set S \<and> scratch_ok scratch'"
proof -
  obtain bits found where m: "m = (bits, found)" by fastforce
  have S: "S = set found" "distinct found" using assms by (simp_all add: marked_def m)
  then have "sort found = sorted_list_of_set S" by (simp add: sorted_list_of_set_sort_remdups distinct_remdups_id)
  then show ?thesis using assms S by (simp add: finish_candidates_def m scratch_ok_def marked_def)
qed

lemma collect_candidates_ok:
  assumes ok: "meta_ok index n" and seed: "seed < n" and small: "n \<le> 2 ^ 32" and scratch: "scratch_ok scratch"
  shows "\<exists>scratch'. collect_candidates index seed (anchors_at index seed) threshold scratch = Inr scratch' \<and>
    ms_output scratch' = sorted_list_of_set (metadata_candidates index seed threshold) \<and> scratch_ok scratch'"
proof -
  let ?documents = "fold collect_seed_document (anchors_at index seed) []"
  have set_docs: "set ?documents = an_document_id ` set (anchors_at index seed)" by (simp add: seed_documents)
  have known: "\<forall>d \<in> set ?documents. d < length (mi_documents index)"
    unfolding set_docs using ok seed by (auto simp: meta_ok_def anchors_at_def)
  have n: "length (mi_contract_is_evm index) = n" using ok by (simp add: meta_ok_def)
  let ?base = "\<Union>d \<in> set ?documents. holders_of index d - {seed}"
  obtain m0 where m0: "begin_candidates n (ms_candidate_bits scratch, ms_output scratch) = Inr m0" "marked n m0 {}"
    using begin_candidates_ok [OF scratch [unfolded scratch_ok_def]] by blast
  have "\<exists>m'. res_fold (mark_document index seed) ?documents m0 = Inr m' \<and> marked n m' ({} \<union> ?base)"
    using mark_document_ok [OF ok] by (intro marked_fold [OF _ m0(2)]) blast
  then obtain m1 where m1: "res_fold (mark_document index seed) ?documents m0 = Inr m1" "marked n m1 ?base" by auto
  let ?scratch = "scratch\<lparr>ms_seed_documents := ?documents\<rparr>"
  show ?thesis
  proof (cases "threshold = NaN \<or> 1 < threshold")
    case True
    then have "metadata_candidates index seed threshold = ?base" by (auto simp: metadata_candidates_def set_docs Let_def)
    then show ?thesis using finish_candidates_ok [OF m1(2), of ?scratch] m0 m1 True by (simp add: collect_candidates_def n Let_def)
  next
    case high: False
    show ?thesis
    proof (cases "threshold \<le> 0")
      case True
      let ?rows = "map (dense_row (mi_contract_anchors index)) [0..<n]"
      let ?mark = "\<lambda>(cid, anchors). if cid \<noteq> seed \<and> anchors \<noteq> [] then {cid} else {}"
      have iter: "dense_iter (mi_contract_anchors index) = Inr ?rows" using ok by (intro dense_iter_ok) (simp add: meta_ok_def)
      have entry: "\<exists>m'. mark_anchored seed e m = Inr m' \<and> marked n m' (S \<union> ?mark e)"
        if "e \<in> set (enumerated ?rows)" "marked n m S" for e m S
      proof -
        have "fst e < n" using that(1) in_set_enumerated [of "fst e" "snd e" ?rows] by simp
        then have "u32 (fst e) = fst e" using small by (simp add: u32_def)
        then show ?thesis using that(2) mark_candidate_ok [OF that(2) \<open>fst e < n\<close>] by (auto simp: mark_anchored_def case_prod_unfold) (metis surj_pair)+
      qed
      have "\<exists>m'. res_fold (mark_anchored seed) (enumerated ?rows) m1 = Inr m' \<and> marked n m' (?base \<union> \<Union> (?mark ` set (enumerated ?rows)))"
        by (rule marked_fold [OF entry m1(2)])
      moreover have "\<Union> (?mark ` set (enumerated ?rows)) = {c. anchors_at index c \<noteq> []} - {seed}"
      proof -
        have "anchors_at index c = []" if "\<not> c < n" for c
          using ok that dense_values [of "mi_contract_anchors index" n c] by (simp add: anchors_at_def dense_row_def meta_ok_def)
        moreover have "set (enumerated ?rows) = (\<lambda>i. (i, anchors_at index i)) ` {..<n}"
          by (auto simp: in_set_enumerated anchors_at_def image_iff)
        ultimately show ?thesis by (auto simp: image_image not_less [symmetric] split: if_splits)
      qed
      moreover have "metadata_candidates index seed threshold = ?base \<union> ({c. anchors_at index c \<noteq> []} - {seed})"
        using high True by (auto simp: metadata_candidates_def set_docs Let_def)
      ultimately obtain m' where "res_fold (mark_anchored seed) (enumerated ?rows) m1 = Inr m'"
        "marked n m' (metadata_candidates index seed threshold)" by auto
      then show ?thesis using finish_candidates_ok [of n m' _ ?scratch] m0 m1 True high iter
        by (simp add: collect_candidates_def n Let_def)
    next
      case False
      obtain scratch' m' where probes: "res_fold (probe_document index seed threshold) ?documents (?scratch, m1) = Inr (scratch', m')"
        "marked n m' (?base \<union> (\<Union>d \<in> set ?documents. \<Union>tid \<in> set (prefix_terms index threshold d). \<Union>d' \<in> posted_documents index tid. holders_of index d' - {seed}))"
        using probe_documents_ok [OF ok known m1(2)] by blast
      have "metadata_candidates index seed threshold =
          ?base \<union> (\<Union>d \<in> set ?documents. \<Union>tid \<in> set (prefix_terms index threshold d). \<Union>d' \<in> posted_documents index tid. holders_of index d' - {seed})"
        using high False by (auto simp: metadata_candidates_def set_docs Let_def)
      then show ?thesis using finish_candidates_ok [of n m' _ scratch'] probes m0 m1 False high
        by (simp add: collect_candidates_def n Let_def)
    qed
  qed
qed

text \<open>Every candidate is a contract.\<close>

lemma anchors_at_range: "meta_ok index n \<Longrightarrow> anchors_at index c \<noteq> [] \<Longrightarrow> c < n"
  using dense_values [of "mi_contract_anchors index" n c] unfolding anchors_at_def dense_row_def meta_ok_def
  by (metis unwrap_or_simps(1))

lemma candidates_range:
  assumes "meta_ok index n" "c \<in> metadata_candidates index seed threshold"
  shows "c < n" "c \<noteq> seed"
proof -
  have holder: "c < n" if "c \<in> holders_of index d" for d using assms(1) that unfolding meta_ok_def holders_of_def by blast
  show "c \<noteq> seed" using assms(2) by (simp add: metadata_candidates_def Let_def)
  from assms(2) have "(\<exists>d. c \<in> holders_of index d) \<or> anchors_at index c \<noteq> []"
    by (fastforce simp: metadata_candidates_def Let_def split: if_splits)
  then show "c < n" using holder anchors_at_range [OF assms(1)] by blast
qed

section \<open>Edges\<close>

definition score_of :: "metadata_index \<Rightarrow> f64 \<Rightarrow> nat \<Rightarrow> nat \<Rightarrow> f64 option" where
  "score_of index threshold l r =
     (if l = r then Some 1
      else similarity_score_if_at_least (mi_documents index ! l) (terms_at index l) (mi_documents index ! r) (terms_at index r)
        threshold)"

lemma score_of_swap: "score_of index threshold r l = score_of index threshold l r"
  by (simp add: score_of_def score_swap [of "mi_documents index ! r"])

lemma score_of_key: "(case pair_key l r of (a, b) \<Rightarrow> score_of index threshold a b) = score_of index threshold l r"
  by (simp add: pair_key_def score_of_swap [of index threshold r])

definition cache_ok :: "metadata_index \<Rightarrow> f64 \<Rightarrow> score_cache \<Rightarrow> bool" where
  "cache_ok index threshold cache \<longleftrightarrow> (\<forall>a b v. map_of cache (a, b) = Some v \<longrightarrow> v = score_of index threshold a b)"

lemma cached_score_ok:
  assumes ok: "meta_ok index n" and l: "l < length (mi_documents index)" and r: "r < length (mi_documents index)"
    and cache: "cache_ok index threshold cache"
  shows "\<exists>cache'. cached_score index threshold l r cache = Inr (score_of index threshold l r, cache') \<and> cache_ok index threshold cache'"
proof (cases "l = r")
  case True
  then show ?thesis using cache by (simp add: cached_score_def score_of_def)
next
  case differ: False
  obtain a b where key: "pair_key l r = (a, b)" by fastforce
  then have ab: "score_of index threshold a b = score_of index threshold l r" using score_of_key [of index threshold l r] by simp
  show ?thesis
  proof (cases "map_of cache (a, b)")
    case None
    have "score_pair index threshold l r = Inr (score_of index threshold l r)"
      using l r differ document_terms_ok [OF ok] by (simp add: score_pair_def score_of_def idx_def or_panic_def)
    then have "cached_score index threshold l r cache =
        Inr (score_of index threshold l r, ah_insert (a, b) (score_of index threshold l r) cache)"
      using differ key None by (simp add: cached_score_def)
    moreover have "cache_ok index threshold (ah_insert (a, b) (score_of index threshold l r) cache)"
      using cache ab by (auto simp: cache_ok_def hashm.lookup_ins split: if_splits)
    ultimately show ?thesis by blast
  next
    case (Some v)
    then show ?thesis using cache differ key ab by (simp add: cached_score_def cache_ok_def)
  qed
qed

definition metadata_seed :: "metadata_store \<Rightarrow> nat \<Rightarrow> f64 \<Rightarrow> metadata_seed_query" where
  "metadata_seed st seed threshold =
     \<lparr>sq_seed = seed, sq_seed_chain = ct_chain_id (rs_contracts st ! seed),
      sq_seed_is_evm = mi_contract_is_evm (rs_metadata_index st) ! seed,
      sq_seed_anchors = anchors_at (rs_metadata_index st) seed, sq_threshold = threshold\<rparr>"

definition metadata_edge :: "metadata_store \<Rightarrow> nat \<Rightarrow> f64 \<Rightarrow> nat \<Rightarrow> hit_edge option" where
  "metadata_edge st seed threshold candidate =
     (let index = rs_metadata_index st
      in Option.bind (select_documents (mi_contract_is_evm index ! seed) (anchors_at index seed)
             (mi_contract_is_evm index ! candidate) (anchors_at index candidate)) (\<lambda>(l, r).
         map_option (\<lambda>score. \<lparr>he_seed_contract = seed, he_candidate_contract = candidate, he_candidate_nft = None,
             he_dimension = Metadata, he_score = score, he_primary_chain = ct_chain_id (rs_contracts st ! seed),
             he_secondary_chain = ct_chain_id (rs_contracts st ! candidate)\<rparr>)
           (score_of index threshold l r)))"

lemma select_documents_known:
  assumes "select_documents a ls b rs = Some (l, r)"
  shows "l \<in> an_document_id ` set ls" "r \<in> an_document_id ` set rs"
  using assms
  by (auto simp: select_documents_def unwrap_or_def find_Some_iff split: list.splits option.splits if_splits
      dest!: first_some_SomeD intro!: imageI)

lemma edge_for_candidate_ok:
  assumes ok: "meta_ok (rs_metadata_index st) n" and n: "n = length (rs_contracts st)" and seed: "seed < n"
    and candidate: "candidate < n" "candidate \<noteq> seed" and cache: "cache_ok (rs_metadata_index st) threshold cache"
  shows "\<exists>cache'. edge_for_candidate st (metadata_seed st seed threshold) candidate cache =
    Inr (metadata_edge st seed threshold candidate, cache') \<and> cache_ok (rs_metadata_index st) threshold cache'"
proof -
  let ?index = "rs_metadata_index st"
  let ?select = "select_documents (mi_contract_is_evm ?index ! seed) (anchors_at ?index seed)
    (mi_contract_is_evm ?index ! candidate) (anchors_at ?index candidate)"
  have row: "dense_values_for (mi_contract_anchors ?index) candidate = Some (anchors_at ?index candidate)"
    using ok candidate(1) dense_values [of "mi_contract_anchors ?index" n candidate] by (simp add: meta_ok_def anchors_at_def)
  have evm: "idx (mi_contract_is_evm ?index) candidate = Some (mi_contract_is_evm ?index ! candidate)"
    using ok candidate(1) by (simp add: meta_ok_def idx_def)
  have contract: "idx (rs_contracts st) candidate = Some (rs_contracts st ! candidate)"
    using candidate(1) n by (simp add: idx_def)
  show ?thesis
  proof (cases "anchors_at ?index candidate = []")
    case True
    then show ?thesis using cache candidate(2) row
      by (simp add: edge_for_candidate_def metadata_edge_def metadata_seed_def select_documents_def Let_def split: list.split)
  next
    case anchors: False
    show ?thesis
    proof (cases ?select)
      case None
      then show ?thesis using cache candidate(2) row anchors evm
        by (simp add: edge_for_candidate_def metadata_edge_def metadata_seed_def or_panic_def Let_def cong: option.case_cong if_cong)
    next
      case (Some pair)
      obtain l r where pair: "pair = (l, r)" by fastforce
      have known: "l < length (mi_documents ?index)" "r < length (mi_documents ?index)"
        using select_documents_known [OF Some [unfolded pair]] ok seed candidate(1) by (auto simp: meta_ok_def anchors_at_def)
      from cached_score_ok [OF ok known cache] obtain cache' where
        "cached_score ?index threshold l r cache = Inr (score_of ?index threshold l r, cache')" "cache_ok ?index threshold cache'"
        by blast
      then show ?thesis using candidate(2) row anchors evm contract Some pair
        by (cases "score_of ?index threshold l r") (simp_all add: edge_for_candidate_def metadata_edge_def metadata_seed_def or_panic_def Let_def cong: option.case_cong if_cong)
    qed
  qed
qed

section \<open>The query\<close>

definition metadata_edges :: "metadata_store \<Rightarrow> nat \<Rightarrow> f64 \<Rightarrow> hit_edge list" where
  "metadata_edges st seed threshold =
     List.map_filter (metadata_edge st seed threshold) (sorted_list_of_set (metadata_candidates (rs_metadata_index st) seed threshold))"

lemma map_filter_concat: "concat (map (List.map_filter f) xss) = List.map_filter f (concat xss)"
  by (induction xss) (auto simp: List.map_filter_def)

lemma in_map_filter: "y \<in> set (List.map_filter f xs) \<longleftrightarrow> (\<exists>x \<in> set xs. f x = Some y)"
  by (induction xs) (auto simp: List.map_filter_simps split: option.split)

lemma push_edges_eq:
  "\<forall>edge \<in> set edges. he_seed_contract edge \<noteq> he_candidate_contract edge \<Longrightarrow>
   push_edges edges graph = graph\<lparr>hg_edges := hg_edges graph @ edges\<rparr>"
  by (induction edges arbitrary: graph) (simp_all add: push_edges_def push_edge_def)

lemma metadata_edge_pair:
  "metadata_edge st seed threshold c = Some edge \<Longrightarrow> he_seed_contract edge = seed \<and> he_candidate_contract edge = c"
  by (auto simp: metadata_edge_def Let_def split: bind_splits)

lemma sequential_ok:
  assumes ok: "meta_ok (rs_metadata_index st) n" and n: "n = length (rs_contracts st)" and seed: "seed < n"
    and run: "\<forall>p. \<not> cancelled p" and entries: "\<forall>e \<in> set entries. snd e < n \<and> snd e \<noteq> seed"
    and cache: "cache_ok (rs_metadata_index st) threshold cache"
  shows "\<exists>cache'. res_fold (sequential_step cancelled st (metadata_seed st seed threshold)) entries (graph, cache) =
    Inr (push_edges (List.map_filter (metadata_edge st seed threshold) (map snd entries)) graph, cache')"
  using entries cache
proof (induction entries arbitrary: graph cache)
  case Nil
  then show ?case by (simp add: push_edges_def List.map_filter_simps)
next
  case (Cons e entries)
  obtain k c where e: "e = (k, c)" by fastforce
  obtain cache1 where 1: "edge_for_candidate st (metadata_seed st seed threshold) c cache =
      Inr (metadata_edge st seed threshold c, cache1)" "cache_ok (rs_metadata_index st) threshold cache1"
    using edge_for_candidate_ok [OF ok n seed _ _ Cons.prems(2), of c] Cons.prems(1) e by auto
  let ?graph = "case metadata_edge st seed threshold c of None \<Rightarrow> graph | Some edge \<Rightarrow> snd (push_edge edge graph)"
  have step: "sequential_step cancelled st (metadata_seed st seed threshold) e (graph, cache) = Inr (?graph, cache1)"
    using 1 run by (simp add: sequential_step_def e check_cancelled_def)
  from Cons.IH [of cache1 ?graph] 1(2) Cons.prems(1) obtain cache2 where
    "res_fold (sequential_step cancelled st (metadata_seed st seed threshold)) entries (?graph, cache1) =
       Inr (push_edges (List.map_filter (metadata_edge st seed threshold) (map snd entries)) ?graph, cache2)" by auto
  with step show ?case by (simp add: e push_edges_def List.map_filter_simps split: option.split)
qed

lemma candidates_fold_ok:
  assumes ok: "meta_ok (rs_metadata_index st) n" and n: "n = length (rs_contracts st)" and seed: "seed < n"
    and candidates: "\<forall>c \<in> set candidates. c < n \<and> c \<noteq> seed" and cache: "cache_ok (rs_metadata_index st) threshold cache"
  shows "\<exists>cache'. res_fold (candidate_step st (metadata_seed st seed threshold)) candidates (edges, cache) =
    Inr (edges @ List.map_filter (metadata_edge st seed threshold) candidates, cache')"
  using candidates cache
proof (induction candidates arbitrary: edges cache)
  case Nil
  then show ?case by (simp add: List.map_filter_simps)
next
  case (Cons c candidates)
  obtain cache1 where 1: "edge_for_candidate st (metadata_seed st seed threshold) c cache =
      Inr (metadata_edge st seed threshold c, cache1)" "cache_ok (rs_metadata_index st) threshold cache1"
    using edge_for_candidate_ok [OF ok n seed _ _ Cons.prems(2), of c] Cons.prems(1) by auto
  let ?edges = "case metadata_edge st seed threshold c of None \<Rightarrow> edges | Some edge \<Rightarrow> edges @ [edge]"
  have step: "candidate_step st (metadata_seed st seed threshold) c (edges, cache) = Inr (?edges, cache1)"
    using 1 by (simp add: candidate_step_def)
  from Cons.IH [of cache1 ?edges] 1(2) Cons.prems(1) obtain cache2 where
    "res_fold (candidate_step st (metadata_seed st seed threshold)) candidates (?edges, cache1) =
       Inr (?edges @ List.map_filter (metadata_edge st seed threshold) candidates, cache2)" by auto
  with step show ?case by (simp add: List.map_filter_simps split: option.split)
qed

lemma candidate_chunks_ok:
  assumes ok: "meta_ok (rs_metadata_index st) n" and n: "n = length (rs_contracts st)" and seed: "seed < n"
    and run: "\<forall>p. \<not> cancelled p" and candidates: "\<forall>c \<in> set candidates. c < n \<and> c \<noteq> seed"
  shows "\<exists>chunks. par_collect (map (candidate_chunk cancelled st (metadata_seed st seed threshold))
      (enumerated (chunks_of (metadata_candidate_chunk threads (length candidates)) candidates))) = Inr chunks \<and>
    concat chunks = List.map_filter (metadata_edge st seed threshold) candidates"
proof -
  let ?parts = "chunks_of (metadata_candidate_chunk threads (length candidates)) candidates"
  let ?edges = "List.map_filter (metadata_edge st seed threshold)"
  have parts: "concat ?parts = candidates"
    by (rule concat_chunks_of)
      (simp add: metadata_candidate_chunk_def parallel_metadata_candidate_chunk_def max_metadata_candidate_chunk_def Let_def)
  have chunk: "candidate_chunk cancelled st (metadata_seed st seed threshold) e = Inr (?edges (snd e))" if "e \<in> set (enumerated ?parts)" for e
  proof -
    have "snd e \<in> set ?parts" using that in_set_enumerated [of "fst e" "snd e" ?parts] by simp
    then have part: "\<forall>c \<in> set (snd e). c < n \<and> c \<noteq> seed" using candidates parts by (metis UN_I set_concat)
    have "cache_ok (rs_metadata_index st) threshold []" by (simp add: cache_ok_def)
    from candidates_fold_ok [OF ok n seed part this, of "[]"] run show ?thesis
      by (auto simp: candidate_chunk_def check_cancelled_def split: prod.splits)
  qed
  have "concat (map (\<lambda>e. ?edges (snd e)) (enumerated ?parts)) = ?edges candidates"
    using map_filter_concat [of "metadata_edge st seed threshold" ?parts] parts
    by (metis (no_types, lifting) map_map map_snd_enumerated comp_def map_cong)
  moreover have "par_collect (map (candidate_chunk cancelled st (metadata_seed st seed threshold)) (enumerated ?parts)) =
      Inr (map (\<lambda>e. ?edges (snd e)) (enumerated ?parts))"
    by (rule par_collect_map) (rule chunk)
  ultimately show ?thesis by blast
qed

lemma query_metadata_eq:
  assumes "meta_ok (rs_metadata_index st) (length (rs_contracts st))" "length (rs_contracts st) \<le> 2 ^ 32"
    "seed < length (rs_contracts st)" "\<forall>p. \<not> cancelled p" "scratch_ok scratch"
  shows "\<exists>scratch'. query_metadata_for_seed_with_scratch threads allowed cancelled st seed threshold (graph, scratch) =
      Inr (graph\<lparr>hg_edges := hg_edges graph @ metadata_edges st seed threshold\<rparr>, scratch') \<and> scratch_ok scratch'"
proof -
  let ?index = "rs_metadata_index st" and ?n = "length (rs_contracts st)" and ?q = "metadata_seed st seed threshold"
  let ?candidates = "sorted_list_of_set (metadata_candidates ?index seed threshold)"
  note ok = assms(1)
  have row: "dense_values_for (mi_contract_anchors ?index) seed = Some (anchors_at ?index seed)"
    using ok assms(3) dense_values [of "mi_contract_anchors ?index" ?n seed] by (simp add: meta_ok_def anchors_at_def)
  have "anchors_at ?index seed = []" if "mi_documents ?index = []"
    using ok assms(3) that by (cases "anchors_at ?index seed") (auto simp: meta_ok_def anchors_at_def)
  then have no_edges: "metadata_edges st seed threshold = []" if "mi_documents ?index = [] \<or> anchors_at ?index seed = []"
    using that by (auto simp: metadata_edges_def metadata_edge_def select_documents_def List.map_filter_def Let_def)
  have start: "check_cancelled (cancelled MetaPollStart) = Inr ()" "idx (rs_contracts st) seed = Some (rs_contracts st ! seed)"
    using assms(3,4) by (simp_all add: check_cancelled_def idx_def)
  show ?thesis
  proof (cases "mi_documents ?index = [] \<or> anchors_at ?index seed = []")
    case True
    have same: "graph\<lparr>hg_edges := hg_edges graph @ metadata_edges st seed threshold\<rparr> = graph"
      unfolding no_edges [OF True] by (cases graph) simp
    show ?thesis using row start assms(5) True unfolding same
      by (auto simp: query_metadata_for_seed_with_scratch_def Let_def)
  next
    case False
    have evm: "idx (mi_contract_is_evm ?index) seed = Some (mi_contract_is_evm ?index ! seed)"
      using ok assms(3) by (simp add: meta_ok_def idx_def)
    obtain scratch1 where 1: "collect_candidates ?index seed (anchors_at ?index seed) threshold scratch = Inr scratch1"
      "ms_output scratch1 = ?candidates" "scratch_ok scratch1"
      using collect_candidates_ok [OF ok assms(3,2,5)] by blast
    have finite: "finite (metadata_candidates ?index seed threshold)"
      by (rule finite_subset [of _ "{..<?n}"]) (auto intro: candidates_range(1) [OF ok])
    have candidates: "\<forall>c \<in> set ?candidates. c < ?n \<and> c \<noteq> seed" using candidates_range [OF ok] finite by simp
    have edges: "push_edges (List.map_filter (metadata_edge st seed threshold) ?candidates) graph =
        graph\<lparr>hg_edges := hg_edges graph @ metadata_edges st seed threshold\<rparr>"
      unfolding metadata_edges_def using candidates
      by (intro push_edges_eq) (auto simp: in_map_filter dest!: metadata_edge_pair)
    have entries: "\<forall>e \<in> set (enumerated ?candidates). snd e < ?n \<and> snd e \<noteq> seed"
    proof
      fix e assume "e \<in> set (enumerated ?candidates)"
      then have "snd e \<in> set ?candidates" using in_set_enumerated [of "fst e" "snd e" ?candidates] by simp
      then show "snd e < ?n \<and> snd e \<noteq> seed" using candidates by blast
    qed
    have empty: "cache_ok ?index threshold []" by (simp add: cache_ok_def)
    obtain cache where sequential: "res_fold (sequential_step cancelled st ?q) (enumerated ?candidates) (graph, []) =
        Inr (push_edges (List.map_filter (metadata_edge st seed threshold) (map snd (enumerated ?candidates))) graph, cache)"
      using sequential_ok [OF ok refl assms(3,4) entries empty, of graph] by blast
    obtain chunks where "par_collect (map (candidate_chunk cancelled st ?q)
          (enumerated (chunks_of (metadata_candidate_chunk threads (length ?candidates)) ?candidates))) = Inr chunks"
        "concat chunks = List.map_filter (metadata_edge st seed threshold) ?candidates"
      using candidate_chunks_ok [OF ok refl assms(3,4) candidates] by blast
    then show ?thesis using False row start evm 1 sequential edges
      by (simp add: query_metadata_for_seed_with_scratch_def or_panic_def metadata_seed_def [symmetric] scratch_ok_def Let_def
        cong: option.case_cong if_cong)
  qed
qed

text \<open>C33. The metadata query of a seed on a well-formed index appends, for every scratch left behind by
  earlier queries, every number of threads and every division of the candidates into chunks, exactly the
  edges of the specification: in ascending order of the candidates, one edge for each candidate whose
  documents, aligned by a common token where both chains are EVM, are equal or reach the threshold, with
  their score; and it leaves the scratch fit for the next seed.\<close>

theorem query_metadata_exact:
  assumes "meta_ok (rs_metadata_index st) (length (rs_contracts st))" "length (rs_contracts st) \<le> 2 ^ 32"
    "seed < length (rs_contracts st)" "\<forall>p. \<not> cancelled p" "scratch_ok scratch"
  shows "\<exists>scratch'. query_metadata_for_seed_with_scratch threads allowed cancelled st seed threshold (graph, scratch) =
      Inr (graph\<lparr>hg_edges := hg_edges graph @ metadata_edges st seed threshold\<rparr>, scratch') \<and> scratch_ok scratch'"
  by (rule query_metadata_eq [OF assms])

section \<open>Example\<close>

text \<open>Two contracts that carry the same document for the same token.\<close>

definition meta_example :: metadata_store where
  "meta_example = store_new
     \<lparr>mi_documents = [from_compact_terms [(0, 1)]], mi_terms = [(0, 1)],
      mi_doc_contracts = \<lparr>dc_offsets = [0, 2], dc_values = [0, 1]\<rparr>,
      mi_contract_anchors = \<lparr>dc_offsets = [0, 1, 2], dc_values = replicate 2 \<lparr>an_token_key = 0, an_document_id = 0\<rparr>\<rparr>,
      mi_contract_is_evm = [True, True], mi_term_postings = \<lparr>dc_offsets = [0, 1], dc_values = [0]\<rparr>\<rparr>
     \<lparr>rs_contracts := map (\<lambda>i. \<lparr>ct_id = i, ct_chain_id = 0, ct_address = [], ct_nft_count = 1, ct_name_id = None,
        ct_metadata_by_token = []\<rparr>) [0, 1]\<rparr>"

lemma meta_example_rows:
  "dense_row (mi_contract_anchors (rs_metadata_index meta_example)) c =
     (if c < 2 then [\<lparr>an_token_key = 0, an_document_id = 0\<rparr>] else [])"
  "dense_row (mi_doc_contracts (rs_metadata_index meta_example)) d = (if d = 0 then [0, 1] else [])"
  "dense_row (mi_term_postings (rs_metadata_index meta_example)) t = (if t = 0 then [0] else [])"
  by (auto simp: meta_example_def store_new_def with_options_def dense_row_def dense_values_for_def idx_def Csr.slice_def
      less_Suc_eq numeral_2_eq_2)

lemma meta_example_ok: "meta_ok (rs_metadata_index meta_example) (length (rs_contracts meta_example))"
proof -
  have "pd_term_start (from_compact_terms [(0, 1)]) + pd_term_len (from_compact_terms [(0, 1)]) = 1"
    by (simp add: from_compact_terms_def u32_def case_prod_unfold Let_def)
  then show ?thesis
    unfolding meta_ok_def meta_example_rows
    by (auto simp: meta_example_def store_new_def with_options_def dense_ok_def)
qed

theorem query_metadata_exact_witness:
  "\<exists>scratch. query_metadata_for_seed_with_scratch 4 True (\<lambda>_. False) meta_example 0 1 (hit_graph_new, metadata_scratch_default) =
     Inr (\<lparr>hg_edges = [\<lparr>he_seed_contract = 0, he_candidate_contract = 1, he_candidate_nft = None, he_dimension = Metadata,
       he_score = 1, he_primary_chain = 0, he_secondary_chain = 0\<rparr>]\<rparr>, scratch)"
proof -
  have "metadata_candidates (rs_metadata_index meta_example) 0 1 = {1}"
    by (auto simp: metadata_candidates_def anchors_at_def holders_of_def posted_documents_def meta_example_rows f64_eval
        split: if_splits)
  then have "metadata_edges meta_example 0 1 = [\<lparr>he_seed_contract = 0, he_candidate_contract = 1, he_candidate_nft = None,
      he_dimension = Metadata, he_score = 1, he_primary_chain = 0, he_secondary_chain = 0\<rparr>]"
    by (simp add: metadata_edges_def metadata_edge_def select_documents_def anchors_at_def meta_example_rows score_of_def
        List.map_filter_simps Let_def)
      (simp add: meta_example_def store_new_def with_options_def)
  moreover have "scratch_ok metadata_scratch_default" by (simp add: scratch_ok_def metadata_scratch_default_def marked_def)
  moreover have "0 < length (rs_contracts meta_example)" "length (rs_contracts meta_example) \<le> 2 ^ 32"
    by (simp_all add: meta_example_def)
  ultimately show ?thesis
    using query_metadata_exact [OF meta_example_ok, of 0 "\<lambda>_. False" metadata_scratch_default 4 True 1 hit_graph_new]
    by (auto simp: hit_graph_new_def)
qed

end
