(* ===== verification/MetaCatalog.thy ===== *)
theory MetaCatalog
  imports MetaTerms MetaExact
begin

text \<open>
  The catalog of the anchors: after the batches it lists for each contract its anchors with the ids of their
  document and token, and for each document the contracts that hold it, in ascending order, for every
  interleaving of the interners' calls.
\<close>

section \<open>Rows\<close>

definition dense_of :: "'a list list \<Rightarrow> 'a dense_csr" where
  "dense_of rws = \<lparr>dc_offsets = 0 # ends 0 rws, dc_values = concat rws\<rparr>"

lemma dense_values_of: "dense_values_for (dense_of rws) i = idx rws i"
  using row_at_rows [of rws i] by (simp add: dense_values_for_def dense_of_def row_at_def)

lemma dense_row_of: "dense_row (dense_of rws) i = (if i < length rws then rws ! i else [])"
  by (simp add: dense_row_def dense_values_of idx_def)

lemma dense_ok_of: "dense_ok (dense_of rws) (length rws)"
proof -
  have offset: "(0 # ends 0 rws) ! i = length (concat (take i rws))" if "i \<le> length rws" for i
    using nth_ends [OF that, of 0] by simp
  have "sorted (0 # ends 0 rws)"
    unfolding sorted_iff_nth_mono
  proof (intro allI impI)
    fix i j assume "i \<le> j" "j < length (0 # ends 0 rws)"
    then have j: "j \<le> length rws" and i: "i \<le> length rws" by simp_all
    have "take j rws = take i rws @ take (j - i) (drop i rws)" using \<open>i \<le> j\<close> by (simp add: take_drop [symmetric] flip: take_add)
    then show "(0 # ends 0 rws) ! i \<le> (0 # ends 0 rws) ! j" unfolding offset [OF i] offset [OF j] by simp
  qed
  moreover have "last (0 # ends 0 rws) = length (concat rws)"
    using offset [of "length rws"] by (subst last_conv_nth) simp_all
  ultimately show ?thesis by (simp add: dense_ok_def dense_of_def)
qed

lemma dense_of_snoc:
  "dense_of (rws @ [row]) = \<lparr>dc_offsets = dc_offsets (dense_of rws) @ [length (concat rws @ row)], dc_values = dc_values (dense_of rws) @ row\<rparr>"
  by (simp add: dense_of_def ends_snoc)

section \<open>The holders of a document\<close>

definition add_last :: "nat \<Rightarrow> nat list \<Rightarrow> nat list" where
  "add_last c xs = (if xs \<noteq> [] \<and> last xs = c then xs else xs @ [c])"

definition holder_list :: "nat list \<times> (nat \<times> nat list) list \<Rightarrow> nat \<Rightarrow> nat list" where
  "holder_list h d =
     (if d < length (fst h) \<and> fst h ! d \<noteq> contract_max then fst h ! d # unwrap_or [] (map_of (snd h) d) else [])"

text \<open>Extra holders are listed only behind a first one; the extras are kept under the ids of documents.\<close>

definition holders_ok :: "nat list \<times> (nat \<times> nat list) list \<Rightarrow> bool" where
  "holders_ok h \<longleftrightarrow> ah_distinct (snd h) \<and> (\<forall>d. holder_list h d = [] \<longrightarrow> map_of (snd h) d = None) \<and>
     (\<forall>d. sorted_wrt (<) (holder_list h d))"

lemma note_holder_ok:
  assumes ok: "holders_ok h" and d: "an_document_id a < length (fst h)" and c: "c < contract_max"
    and below: "\<forall>x \<in> set (holder_list h (an_document_id a)). x \<le> c"
  shows "\<exists>h'. note_holder c a h = Inr h' \<and> holders_ok h' \<and> length (fst h') = length (fst h) \<and>
    (\<forall>e. holder_list h' e = (if e = an_document_id a then add_last c (holder_list h e) else holder_list h e))"
proof -
  obtain first extras where h: "h = (first, extras)" by fastforce
  let ?d = "an_document_id a"
  have inc: "sorted_wrt (<) (add_last c xs)" if "sorted_wrt (<) xs" "\<forall>x \<in> set xs. x \<le> c" for xs
  proof (cases "xs \<noteq> [] \<and> last xs = c")
    case False
    have "x < c" if "x \<in> set xs" for x
    proof -
      have "x \<le> last xs" "last xs \<le> c"
        using that \<open>sorted_wrt (<) xs\<close> \<open>\<forall>x \<in> set xs. x \<le> c\<close>
        by (cases xs rule: rev_cases; auto simp: sorted_wrt_append less_imp_le)+
      then show "x < c" using False that by (cases "xs = []") auto
    qed
    then show ?thesis using that False by (auto simp: add_last_def sorted_wrt_append)
  qed (use that in \<open>simp add: add_last_def\<close>)
  have sorted: "sorted_wrt (<) (holder_list h e)" and extra: "holder_list h e = [] \<Longrightarrow> map_of extras e = None"
    and distinct: "ah_distinct extras" for e using ok by (auto simp: holders_ok_def h)
  have len: "?d < length first" using d by (simp add: h)
  have result: "\<exists>h'. note_holder c a h = Inr h' \<and> length (fst h') = length first \<and> ah_distinct (snd h') \<and>
      (\<forall>e. holder_list h' e = (if e = ?d then add_last c (holder_list h e) else holder_list h e)) \<and>
      (\<forall>e. e \<noteq> ?d \<longrightarrow> map_of (snd h') e = map_of extras e)"
  proof (cases "first ! ?d = contract_max")
    case True
    then have "holder_list h ?d = []" by (simp add: holder_list_def h)
    then have "map_of extras ?d = None" using extra by blast
    moreover have "note_holder c a h = Inr (first[?d := c], extras)"
      using True len by (simp add: note_holder_def h upd_def or_panic_def Let_def)
    ultimately show ?thesis
      using True len c distinct by (auto simp: holder_list_def h add_last_def nth_list_update)
  next
    case busy: False
    then have list: "holder_list h ?d = first ! ?d # unwrap_or [] (map_of extras ?d)" using len by (simp add: holder_list_def h)
    show ?thesis
    proof (cases "first ! ?d = c")
      case True
      have "unwrap_or [] (map_of extras ?d) = []"
        using below sorted [of ?d] unfolding list True by (cases "unwrap_or [] (map_of extras ?d)") auto
      then have "add_last c (holder_list h ?d) = holder_list h ?d" by (simp add: list True add_last_def)
      moreover have "note_holder c a h = Inr h" using busy True len by (simp add: note_holder_def h or_panic_def Let_def)
      ultimately show ?thesis using distinct by (auto simp: h)
    next
      case False
      let ?old = "unwrap_or [] (map_of extras ?d)"
      have run: "note_holder c a h = Inr (first, ah_insert ?d (add_last c ?old) extras)"
        using busy False len by (simp add: note_holder_def h or_panic_def add_last_def Let_def)
      have "holder_list (first, ah_insert ?d (add_last c ?old) extras) e =
          (if e = ?d then add_last c (holder_list h e) else holder_list h e)" for e
        using list busy len False by (auto simp: holder_list_def h hashm.lookup_ins add_last_def)
      then show ?thesis using run ah_distinct_insert [OF distinct] by (auto simp: hashm.lookup_ins)
    qed
  qed
  then obtain h' where h': "note_holder c a h = Inr h'" "length (fst h') = length first" "ah_distinct (snd h')"
    "\<forall>e. holder_list h' e = (if e = ?d then add_last c (holder_list h e) else holder_list h e)"
    "\<forall>e. e \<noteq> ?d \<longrightarrow> map_of (snd h') e = map_of extras e" by blast
  have "holders_ok h'"
    unfolding holders_ok_def
  proof (intro conjI allI impI)
    fix e
    show "sorted_wrt (<) (holder_list h' e)" using h'(4) inc [OF sorted below] sorted by simp
    show "map_of (snd h') e = None" if "holder_list h' e = []"
      using that h'(4,5) extra by (auto simp: add_last_def split: if_splits)
  qed (rule h'(3))
  then show ?thesis using h' by (auto simp: h)
qed

lemma add_last_idem [simp]: "add_last c (add_last c xs) = add_last c xs"
  by (simp add: add_last_def)

lemma note_holders_ok:
  assumes "holders_ok h" "\<forall>a \<in> set anchors. an_document_id a < length (fst h)" "c < contract_max"
    "\<forall>d. \<forall>x \<in> set (holder_list h d). x \<le> c"
  shows "\<exists>h'. res_fold (note_holder c) anchors h = Inr h' \<and> holders_ok h' \<and> length (fst h') = length (fst h) \<and>
    (\<forall>d. holder_list h' d = (if d \<in> an_document_id ` set anchors then add_last c (holder_list h d) else holder_list h d))"
  using assms
proof (induction anchors arbitrary: h)
  case (Cons a anchors)
  from note_holder_ok [of h a c] Cons.prems obtain h1 where h1: "note_holder c a h = Inr h1" "holders_ok h1"
    "length (fst h1) = length (fst h)"
    "\<forall>e. holder_list h1 e = (if e = an_document_id a then add_last c (holder_list h e) else holder_list h e)" by auto
  have "\<forall>d. \<forall>x \<in> set (holder_list h1 d). x \<le> c"
    using Cons.prems(4) unfolding h1(4) [rule_format] by (auto simp: add_last_def)
  from Cons.IH [OF h1(2) _ Cons.prems(3) this] Cons.prems(2) h1(3) obtain h2 where
    "res_fold (note_holder c) anchors h1 = Inr h2" "holders_ok h2" "length (fst h2) = length (fst h)"
    "\<forall>d. holder_list h2 d = (if d \<in> an_document_id ` set anchors then add_last c (holder_list h1 d) else holder_list h1 d)" by auto
  then show ?case using h1 by (intro exI [of _ h2]) auto
qed simp

section \<open>Laying out the holders\<close>

lemma map_of_filter_key: "map_of (filter (\<lambda>(k, _). k \<noteq> key) m) d = (if d = key then None else map_of m d)"
  by (induction m) auto

lemma enumerated_map: "enumerated xs = map (\<lambda>i. (i, xs ! i)) [0..<length xs]"
  by (rule nth_equalityI) (simp_all add: enumerated_def)

lemma length_concat_upto:
  assumes "k \<le> n"
  shows "length (concat (map f [0..<k])) \<le> length (concat (map f [0..<n]))"
proof -
  have "[0..<n] = [0..<k] @ [k..<n]" using upt_add_eq_append [of 0 k "n - k"] assms by simp
  then show ?thesis by simp
qed

lemma lay_holders_ok:
  fixes first extras
  defines "hl \<equiv> holder_list (first, extras)"
  assumes small: "length (concat (map hl [0..<length first])) < 2 ^ 32" "length first < 2 ^ 32"
    and full: "\<forall>d < length first. hl d \<noteq> []"
  shows "from_first_and_extras first extras = Inr (dense_of (map hl [0..<length first]))"
proof -
  have "\<exists>left. res_fold lay_holders (map (\<lambda>i. (i, first ! i)) [0..<k]) ([0], [], extras) =
      Inr (dc_offsets (dense_of (map hl [0..<k])), concat (map hl [0..<k]), left) \<and> (\<forall>d \<ge> k. map_of left d = map_of extras d)"
    if "k \<le> length first" for k
    using that
  proof (induction k)
    case 0
    then show ?case by (simp add: dense_of_def)
  next
    case (Suc k)
    then obtain left where left: "res_fold lay_holders (map (\<lambda>i. (i, first ! i)) [0..<k]) ([0], [], extras) =
        Inr (dc_offsets (dense_of (map hl [0..<k])), concat (map hl [0..<k]), left)" "\<forall>d \<ge> k. map_of left d = map_of extras d" by auto
    have k: "k < length first" using Suc.prems by simp
    have "hl k \<noteq> []" using full k by blast
    then have row: "hl k = first ! k # unwrap_or [] (map_of left k)" using left(2) k by (auto simp: hl_def holder_list_def split: if_splits)
    have "length (concat (map hl [0..<Suc k])) < 2 ^ 32"
      using length_concat_upto [OF Suc.prems, of hl] small(1) by simp
    then have "u32_try_from (length (concat (map hl [0..<k]) @ hl k)) = Some (length (concat (map hl [0..<k]) @ hl k))"
      by (simp add: u32_try_from_def)
    moreover have "u32 k = k" using k small(2) by (intro u32_small) simp
    ultimately have "lay_holders (k, first ! k) (dc_offsets (dense_of (map hl [0..<k])), concat (map hl [0..<k]), left) =
        Inr (dc_offsets (dense_of (map hl [0..<k] @ [hl k])), concat (map hl [0..<k]) @ hl k, filter (\<lambda>(j, _). j \<noteq> k) left)"
      unfolding dense_of_snoc by (simp add: lay_holders_def row Let_def)
    then show ?case using left by (simp add: res_fold_append map_of_filter_key)
  qed
  from this [OF order_refl] show ?thesis
    by (auto simp: from_first_and_extras_def enumerated_map dense_of_def)
qed

section \<open>The calls of a contract\<close>

definition contract_evm :: "'m resident_store \<Rightarrow> nat \<Rightarrow> bool" where
  "contract_evm st c = store_is_evm_chain st (rs_chains st ! ct_chain_id (rs_contracts st ! c))"

definition contract_records :: "'m resident_store \<Rightarrow> nat \<Rightarrow> metadata_record list" where
  "contract_records st c = ct_metadata_by_token (rs_contracts st ! c)"

definition token_text :: "bool \<Rightarrow> metadata_record \<Rightarrow> string" where
  "token_text is_evm r = (if is_evm then normalized_evm_token_slice (mr_token_id r) else mr_token_id r)"

text \<open>The anchor of a record carries the ids of its document and of its token.\<close>

definition anchor_of :: "(string \<Rightarrow> nat) \<Rightarrow> term_interner \<times> term_interner \<Rightarrow> bool \<Rightarrow> metadata_record \<Rightarrow> anchor_ref \<Rightarrow> bool" where
  "anchor_of hash catalogs is_evm r a \<longleftrightarrow>
     term_id hash (fst catalogs) (mr_canonical_json r) = Some (an_document_id a) \<and>
     term_id hash (snd catalogs) (token_text is_evm r) = Some (an_token_key a)"

definition catalog_answer :: "(string \<Rightarrow> nat) \<Rightarrow> term_interner \<times> term_interner \<Rightarrow> catalog_call \<Rightarrow> nat \<Rightarrow> bool" where
  "catalog_answer hash catalogs call i \<longleftrightarrow>
     (case call of
        InternCanonical s \<Rightarrow> term_id hash (fst catalogs) s = Some i
      | InternToken s \<Rightarrow> term_id hash (snd catalogs) s = Some i)"

definition canonical_calls :: "catalog_call multiset \<Rightarrow> string set" where
  "canonical_calls M = {s. InternCanonical s \<in># M}"

definition token_calls :: "catalog_call multiset \<Rightarrow> string set" where
  "token_calls M = {s. InternToken s \<in># M}"

definition catalog_serves ::
  "(string \<Rightarrow> nat) \<Rightarrow> string set \<Rightarrow> string set \<Rightarrow> catalog_call multiset \<Rightarrow> catalog_call multiset \<Rightarrow>
   term_interner \<times> term_interner \<Rightarrow> bool" where
  "catalog_serves hash D E T M s \<longleftrightarrow>
     interner_serves hash D (canonical_calls T) (canonical_calls M) (fst s) \<and>
     interner_serves hash E (token_calls T) (token_calls M) (snd s)"

lemma calls_add [simp]:
  "canonical_calls (add_mset (InternCanonical s) M) = insert s (canonical_calls M)"
  "canonical_calls (add_mset (InternToken s) M) = canonical_calls M"
  "token_calls (add_mset (InternToken s) M) = insert s (token_calls M)"
  "token_calls (add_mset (InternCanonical s) M) = token_calls M"
  "canonical_calls {#} = {}" "token_calls {#} = {}"
  by (auto simp: canonical_calls_def token_calls_def)

interpretation catalog: task_service "catalog_exec hash" "catalog_serves hash D E" "catalog_answer hash"
  for hash D E
proof unfold_locales
  fix T M s c
  assume inv: "catalog_serves hash D E T M s" and within: "add_mset c M \<subseteq># T"
  obtain canonical tokens where s: "s = (canonical, tokens)" by fastforce
  have "c \<in># T" using set_mset_mono [OF within] by simp
  show "\<exists>r s'. catalog_exec hash c s = Inr (r, s') \<and> catalog_serves hash D E T (add_mset c M) s' \<and> catalog_answer hash s' c r"
  proof (cases c)
    case (InternCanonical t)
    then have "t \<in> canonical_calls T" using \<open>c \<in># T\<close> by (simp add: canonical_calls_def)
    from interner_served [of hash D "canonical_calls T" "canonical_calls M" canonical, OF _ this] inv show ?thesis
      by (auto simp: InternCanonical catalog_exec_def catalog_serves_def catalog_answer_def s)
  next
    case (InternToken t)
    then have "t \<in> token_calls T" using \<open>c \<in># T\<close> by (simp add: token_calls_def)
    from interner_served [of hash E "token_calls T" "token_calls M" tokens, OF _ this] inv show ?thesis
      by (auto simp: InternToken catalog_exec_def catalog_serves_def catalog_answer_def s)
  qed
next
  fix T M s c r s' d q
  assume inv: "catalog_serves hash D E T M s" and within: "add_mset c M \<subseteq># T"
    and run: "catalog_exec hash c s = Inr (r, s')" and old: "catalog_answer hash s d q"
  obtain canonical tokens where s: "s = (canonical, tokens)" by fastforce
  have "c \<in># T" using set_mset_mono [OF within] by simp
  show "catalog_answer hash s' d q"
  proof (cases c)
    case (InternCanonical t)
    then have "t \<in> canonical_calls T" using \<open>c \<in># T\<close> by (simp add: canonical_calls_def)
    from interner_served [of hash D "canonical_calls T" "canonical_calls M" canonical, OF _ this] inv run old show ?thesis
      by (auto simp: InternCanonical catalog_exec_def catalog_serves_def catalog_answer_def s split: catalog_call.splits)
  next
    case (InternToken t)
    then have "t \<in> token_calls T" using \<open>c \<in># T\<close> by (simp add: token_calls_def)
    from interner_served [of hash E "token_calls T" "token_calls M" tokens, OF _ this] inv run old show ?thesis
      by (auto simp: InternToken catalog_exec_def catalog_serves_def catalog_answer_def s split: catalog_call.splits)
  qed
qed

lemma pair_anchors_ok:
  "list_all2 (catalog_answer hash s) (concat (map (record_calls is_evm) rs)) ids \<Longrightarrow>
   list_all2 (anchor_of hash s is_evm) rs (pair_anchors ids)"
proof (induction rs arbitrary: ids)
  case (Cons r rs)
  then show ?case
    by (auto simp: record_calls_def list_all2_Cons1 catalog_answer_def anchor_of_def token_text_def)
qed simp

section \<open>The catalog after some contracts\<close>

text \<open>What the catalog relies on: contracts carry their positions as ids and known chains, and there are few enough.\<close>

definition metadata_source_ok :: "'m resident_store \<Rightarrow> bool" where
  "metadata_source_ok st \<longleftrightarrow>
     (\<forall>c < length (rs_contracts st). ct_id (rs_contracts st ! c) = c \<and> ct_chain_id (rs_contracts st ! c) < length (rs_chains st)) \<and>
     length (rs_contracts st) < 2 ^ 32 \<and>
     length (concat (map (contract_records st) [0..<length (rs_contracts st)])) < 2 ^ 32"

definition contract_texts :: "'m resident_store \<Rightarrow> nat \<Rightarrow> string set" where
  "contract_texts st c = mr_canonical_json ` set (contract_records st c)"

definition contract_tokens :: "'m resident_store \<Rightarrow> nat \<Rightarrow> string set" where
  "contract_tokens st c = token_text (contract_evm st c) ` set (contract_records st c)"

text \<open>The contracts below \<open>m\<close> that hold a text.\<close>

definition text_holders :: "'m resident_store \<Rightarrow> nat \<Rightarrow> string \<Rightarrow> nat list" where
  "text_holders st m s = filter (\<lambda>c. s \<in> contract_texts st c) [0..<m]"

definition catalog_rows ::
  "(string \<Rightarrow> nat) \<Rightarrow> term_interner \<times> term_interner \<Rightarrow> 'm resident_store \<Rightarrow> nat \<Rightarrow> anchor_ref list list \<Rightarrow> bool" where
  "catalog_rows hash s st m rws \<longleftrightarrow>
     length rws = m \<and> (\<forall>c < m. list_all2 (anchor_of hash s (contract_evm st c)) (contract_records st c) (rws ! c))"

definition catalog_inv :: "(string \<Rightarrow> nat) \<Rightarrow> 'm resident_store \<Rightarrow> nat \<Rightarrow> metadata_catalog \<Rightarrow> bool" where
  "catalog_inv hash st m cg \<longleftrightarrow>
     interner_ok hash (mc_canonical cg) \<and> interner_ok hash (mc_tokens cg) \<and>
     length (mc_first cg) = ti_next_id (mc_canonical cg) \<and> holders_ok (mc_first cg, mc_extras cg) \<and>
     (\<forall>s d. term_id hash (mc_canonical cg) s = Some d \<longrightarrow> holder_list (mc_first cg, mc_extras cg) d = text_holders st m s) \<and>
     (\<exists>rws. catalog_rows hash (mc_canonical cg, mc_tokens cg) st m rws \<and>
        \<lparr>dc_offsets = mc_offsets cg, dc_values = mc_anchors cg\<rparr> = dense_of rws) \<and>
     length (mc_is_evm cg) = length (rs_contracts st) \<and> (\<forall>c < m. mc_is_evm cg ! c = contract_evm st c)"

lemma text_holders_Suc: "text_holders st (Suc m) s = (if s \<in> contract_texts st m then add_last m (text_holders st m s) else text_holders st m s)"
proof -
  have "\<not> (text_holders st m s \<noteq> [] \<and> last (text_holders st m s) = m)"
    using last_in_set [of "text_holders st m s"] by (auto simp: text_holders_def)
  then have "add_last m (text_holders st m s) = text_holders st m s @ [m]" by (simp only: add_last_def if_False)
  then show ?thesis by (simp add: text_holders_def)
qed

lemma length_catalog_rows:
  assumes "catalog_rows hash s st m rws"
  shows "length (concat rws) = length (concat (map (contract_records st) [0..<m]))"
proof -
  have "map length rws = map length (map (contract_records st) [0..<m])"
  proof (rule nth_equalityI)
    fix c assume c: "c < length (map length rws)"
    then have "list_all2 (anchor_of hash s (contract_evm st c)) (contract_records st c) (rws ! c)"
      using assms by (simp add: catalog_rows_def)
    from list_all2_lengthD [OF this] show "map length rws ! c = map length (map (contract_records st) [0..<m]) ! c"
      using c assms by (simp add: catalog_rows_def)
  qed (use assms in \<open>simp add: catalog_rows_def\<close>)
  then show ?thesis by (metis length_concat)
qed

lemma catalog_rows_snoc:
  assumes "catalog_rows hash s st m rws" "list_all2 (anchor_of hash s (contract_evm st m)) (contract_records st m) anchors"
  shows "catalog_rows hash s st (Suc m) (rws @ [anchors])"
  using assms by (auto simp: catalog_rows_def nth_append less_Suc_eq)

lemma catalog_contract_ok:
  assumes source: "metadata_source_ok st" and m: "m < length (rs_contracts st)" and inv: "catalog_inv hash st m cg"
    and ids: "list_all2 (catalog_answer hash (mc_canonical cg, mc_tokens cg))
      (concat (map (record_calls (contract_evm st m)) (contract_records st m))) ids"
  shows "\<exists>cg'. catalog_contract ((m, contract_evm st m), Inr ids) cg = Inr cg' \<and> catalog_inv hash st (Suc m) cg' \<and>
    mc_canonical cg' = mc_canonical cg \<and> mc_tokens cg' = mc_tokens cg"
proof -
  let ?s = "(mc_canonical cg, mc_tokens cg)" and ?h = "(mc_first cg, mc_extras cg)" and ?anchors = "pair_anchors ids"
  have anchors: "list_all2 (anchor_of hash ?s (contract_evm st m)) (contract_records st m) ?anchors" using pair_anchors_ok [OF ids] .
  obtain rws where rws: "catalog_rows hash ?s st m rws" "\<lparr>dc_offsets = mc_offsets cg, dc_values = mc_anchors cg\<rparr> = dense_of rws"
    using inv unfolding catalog_inv_def by blast
  have parts: "mc_offsets cg = dc_offsets (dense_of rws)" "mc_anchors cg = concat rws"
    using rws(2) by (simp_all add: dense_of_def)
  have id: "d < ti_next_id (mc_canonical cg)" if "term_id hash (mc_canonical cg) s = Some d" for s d
    using inv that unfolding catalog_inv_def interner_ok_def by blast
  have inj: "s = t" if "term_id hash (mc_canonical cg) s = Some d" "term_id hash (mc_canonical cg) t = Some d" for s t d
    using inv that unfolding catalog_inv_def interner_ok_def by blast
  have known: "\<exists>s. term_id hash (mc_canonical cg) s = Some d" if "d < ti_next_id (mc_canonical cg)" for d
    using inv that unfolding catalog_inv_def interner_ok_def by blast
  have holders: "holder_list ?h d = text_holders st m s" if "term_id hash (mc_canonical cg) s = Some d" for s d
    using inv that unfolding catalog_inv_def by blast
  have docs: "d \<in> an_document_id ` set ?anchors \<longleftrightarrow> s \<in> contract_texts st m" if "term_id hash (mc_canonical cg) s = Some d" for s d
  proof
    assume "d \<in> an_document_id ` set ?anchors"
    then obtain i where i: "i < length ?anchors" "d = an_document_id (?anchors ! i)" by (auto simp: in_set_conv_nth)
    then have "term_id hash (mc_canonical cg) (mr_canonical_json (contract_records st m ! i)) = Some d" "i < length (contract_records st m)"
      using anchors by (auto simp: list_all2_conv_all_nth anchor_of_def)
    then show "s \<in> contract_texts st m" using inj [OF that] nth_mem by (auto simp: contract_texts_def)
  next
    assume "s \<in> contract_texts st m"
    then obtain i where i: "i < length (contract_records st m)" "s = mr_canonical_json (contract_records st m ! i)"
      by (auto simp: contract_texts_def in_set_conv_nth)
    then have "d = an_document_id (?anchors ! i)" "i < length ?anchors"
      using anchors that by (auto simp: list_all2_conv_all_nth anchor_of_def)
    then show "d \<in> an_document_id ` set ?anchors" using nth_mem by blast
  qed
  have range: "\<forall>a \<in> set ?anchors. an_document_id a < length (fst ?h)"
  proof
    fix a assume "a \<in> set ?anchors"
    then obtain r where "anchor_of hash ?s (contract_evm st m) r a" using anchors by (auto simp: list_all2_conv_all_nth in_set_conv_nth)
    then show "an_document_id a < length (fst ?h)" using inv id by (auto simp: anchor_of_def catalog_inv_def)
  qed
  have below: "\<forall>d. \<forall>x \<in> set (holder_list ?h d). x \<le> m"
  proof (intro allI ballI)
    fix d x assume x: "x \<in> set (holder_list ?h d)"
    then have "d < length (mc_first cg)" by (auto simp: holder_list_def split: if_splits)
    moreover have "length (mc_first cg) = ti_next_id (mc_canonical cg)" using inv unfolding catalog_inv_def by blast
    ultimately obtain s where "term_id hash (mc_canonical cg) s = Some d" using known by metis
    then show "x \<le> m" using x holders by (auto simp: text_holders_def)
  qed
  have "m < contract_max" using source m by (simp add: metadata_source_ok_def contract_max_def)
  then obtain h' where h': "res_fold (note_holder m) ?anchors ?h = Inr h'" "holders_ok h'" "length (fst h') = length (mc_first cg)"
    "\<forall>d. holder_list h' d = (if d \<in> an_document_id ` set ?anchors then add_last m (holder_list ?h d) else holder_list ?h d)"
    using note_holders_ok [OF _ range _ below] inv by (auto simp: catalog_inv_def)
  obtain first extras where pair: "h' = (first, extras)" by fastforce
  have rows': "catalog_rows hash ?s st (Suc m) (rws @ [?anchors])" using catalog_rows_snoc [OF rws(1) anchors] .
  have "length (concat (rws @ [?anchors])) < 2 ^ 32"
    using length_catalog_rows [OF rows'] length_concat_upto [of "Suc m" "length (rs_contracts st)" "contract_records st"] m source
    by (simp add: metadata_source_ok_def)
  then have few: "u32_try_from (length (mc_anchors cg @ ?anchors)) = Some (length (mc_anchors cg @ ?anchors))"
    by (simp add: u32_try_from_def parts)
  obtain cg' where cg': "cg' = cg\<lparr>mc_first := first, mc_extras := extras, mc_offsets := mc_offsets cg @ [length (mc_anchors cg @ ?anchors)],
      mc_anchors := mc_anchors cg @ ?anchors, mc_is_evm := (mc_is_evm cg)[m := contract_evm st m]\<rparr>" by blast
  have "m < length (mc_is_evm cg)" using inv m by (simp add: catalog_inv_def)
  then have run: "catalog_contract ((m, contract_evm st m), Inr ids) cg = Inr cg'"
    using h'(1) few by (simp add: catalog_contract_def pair upd_def or_panic_def Let_def cg' del: length_append)
  have "catalog_inv hash st (Suc m) cg'"
    unfolding catalog_inv_def
  proof (intro conjI)
    show "interner_ok hash (mc_canonical cg')" "interner_ok hash (mc_tokens cg')" using inv by (simp_all add: cg' catalog_inv_def)
    show "length (mc_first cg') = ti_next_id (mc_canonical cg')" using inv h'(3) by (simp add: cg' catalog_inv_def pair)
    show "holders_ok (mc_first cg', mc_extras cg')" using h'(2) by (simp add: cg' pair)
    show "\<forall>s d. term_id hash (mc_canonical cg') s = Some d \<longrightarrow> holder_list (mc_first cg', mc_extras cg') d = text_holders st (Suc m) s"
      using h'(4) docs holders by (simp add: cg' pair text_holders_Suc)
    have "\<lparr>dc_offsets = mc_offsets cg', dc_values = mc_anchors cg'\<rparr> = dense_of (rws @ [?anchors])"
      unfolding dense_of_snoc by (simp add: cg' parts dense_of_def)
    then show "\<exists>rws. catalog_rows hash (mc_canonical cg', mc_tokens cg') st (Suc m) rws \<and>
        \<lparr>dc_offsets = mc_offsets cg', dc_values = mc_anchors cg'\<rparr> = dense_of rws"
      using rows' by (intro exI [of _ "rws @ [?anchors]"]) (simp add: cg')
    show "length (mc_is_evm cg') = length (rs_contracts st)" using inv by (simp add: cg' catalog_inv_def)
    show "\<forall>c < Suc m. mc_is_evm cg' ! c = contract_evm st c"
      using inv \<open>m < length (mc_is_evm cg)\<close> by (auto simp: cg' catalog_inv_def nth_list_update less_Suc_eq)
  qed
  then show ?thesis using run by (auto simp: cg')
qed

section \<open>A batch of contracts\<close>

definition contract_calls :: "'m resident_store \<Rightarrow> nat \<Rightarrow> catalog_call list" where
  "contract_calls st c = concat (map (record_calls (contract_evm st c)) (contract_records st c))"

lemma catalog_contracts_ok:
  assumes source: "metadata_source_ok st" and n: "m + length idss \<le> length (rs_contracts st)" and inv: "catalog_inv hash st m cg"
    and ids: "list_all2 (list_all2 (catalog_answer hash (mc_canonical cg, mc_tokens cg))) (map (contract_calls st) [m..<m + length idss]) idss"
  shows "\<exists>cg'. res_fold catalog_contract (zip (map (\<lambda>c. (c, contract_evm st c)) [m..<m + length idss]) (map Inr idss)) cg = Inr cg' \<and>
    catalog_inv hash st (m + length idss) cg' \<and> mc_canonical cg' = mc_canonical cg \<and> mc_tokens cg' = mc_tokens cg"
  using n inv ids
proof (induction idss arbitrary: m cg)
  case (Cons ids idss)
  have upto: "[m..<m + length (ids # idss)] = m # [Suc m..<Suc m + length idss]" by (simp add: upt_rec)
  have "list_all2 (catalog_answer hash (mc_canonical cg, mc_tokens cg)) (contract_calls st m) ids"
    using Cons.prems(3) unfolding upto by simp
  then obtain cg1 where cg1: "catalog_contract ((m, contract_evm st m), Inr ids) cg = Inr cg1" "catalog_inv hash st (Suc m) cg1"
    "mc_canonical cg1 = mc_canonical cg" "mc_tokens cg1 = mc_tokens cg"
    using catalog_contract_ok [OF source _ Cons.prems(2), of ids] Cons.prems(1) by (auto simp: contract_calls_def)
  have "list_all2 (list_all2 (catalog_answer hash (mc_canonical cg1, mc_tokens cg1))) (map (contract_calls st) [Suc m..<Suc m + length idss]) idss"
    using Cons.prems(3) unfolding upto cg1(3,4) by simp
  from Cons.IH [OF _ cg1(2) this] Cons.prems(1) obtain cg2 where
    "res_fold catalog_contract (zip (map (\<lambda>c. (c, contract_evm st c)) [Suc m..<Suc m + length idss]) (map Inr idss)) cg1 = Inr cg2"
    "catalog_inv hash st (Suc m + length idss) cg2" "mc_canonical cg2 = mc_canonical cg1" "mc_tokens cg2 = mc_tokens cg1" by auto
  then show ?case unfolding upto using cg1 by simp
qed simp

definition catalog_holds :: "(string \<Rightarrow> nat) \<Rightarrow> 'm resident_store \<Rightarrow> nat \<Rightarrow> metadata_catalog \<Rightarrow> bool" where
  "catalog_holds hash st m cg \<longleftrightarrow>
     dom (term_id hash (mc_canonical cg)) = (\<Union>c \<in> {..<m}. contract_texts st c) \<and>
     dom (term_id hash (mc_tokens cg)) = (\<Union>c \<in> {..<m}. contract_tokens st c)"

lemma contract_call_sets:
  "canonical_calls (mset (contract_calls st c)) = contract_texts st c" "token_calls (mset (contract_calls st c)) = contract_tokens st c"
  by (auto simp: canonical_calls_def token_calls_def contract_calls_def record_calls_def contract_texts_def contract_tokens_def
      token_text_def split: if_splits)

lemma batch_call_sets:
  "canonical_calls (mset (concat (map (contract_calls st) cs))) = (\<Union>c \<in> set cs. contract_texts st c)"
  "token_calls (mset (concat (map (contract_calls st) cs))) = (\<Union>c \<in> set cs. contract_tokens st c)"
  using contract_call_sets [of st] by (fastforce simp: canonical_calls_def token_calls_def)+

lemma few_texts:
  assumes "metadata_source_ok st" "C \<subseteq> {..<length (rs_contracts st)}"
  shows "finite (\<Union>c \<in> C. contract_texts st c)" "card (\<Union>c \<in> C. contract_texts st c) < 2 ^ 32"
    "finite (\<Union>c \<in> C. contract_tokens st c)" "card (\<Union>c \<in> C. contract_tokens st c) < 2 ^ 32"
proof -
  let ?all = "concat (map (\<lambda>c. map (Pair c) (contract_records st c)) [0..<length (rs_contracts st)])"
  have len: "length ?all = length (concat (map (contract_records st) [0..<length (rs_contracts st)]))"
    by (simp add: length_concat comp_def)
  have all: "(c, r) \<in> set ?all" if "c \<in> C" "r \<in> set (contract_records st c)" for c r
    using that assms(2) by (force intro!: bexI [of _ c])
  have texts: "(\<Union>c \<in> C. contract_texts st c) \<subseteq> (\<lambda>(c, r). mr_canonical_json r) ` set ?all"
    unfolding contract_texts_def using all by fast
  have tokens: "(\<Union>c \<in> C. contract_tokens st c) \<subseteq> (\<lambda>(c, r). token_text (contract_evm st c) r) ` set ?all"
    unfolding contract_tokens_def using all by fast
  have small: "length ?all < 2 ^ 32" unfolding len using assms(1) unfolding metadata_source_ok_def by blast
  have bound: "card (f ` set ?all) < 2 ^ 32" for f :: "nat \<times> metadata_record \<Rightarrow> string"
    using card_image_le [OF finite_set, of f ?all] card_length [of ?all] small by linarith
  show "finite (\<Union>c \<in> C. contract_texts st c)" "finite (\<Union>c \<in> C. contract_tokens st c)"
    using finite_subset [OF texts] finite_subset [OF tokens] by simp_all
  show "card (\<Union>c \<in> C. contract_texts st c) < 2 ^ 32"
    using card_mono [OF finite_imageI [OF finite_set] texts] bound le_less_trans by blast
  show "card (\<Union>c \<in> C. contract_tokens st c) < 2 ^ 32"
    using card_mono [OF finite_imageI [OF finite_set] tokens] bound le_less_trans by blast
qed

lemma anchor_of_grows:
  assumes "\<And>d q. catalog_answer hash s d q \<Longrightarrow> catalog_answer hash s' d q" "anchor_of hash s is_evm r a"
  shows "anchor_of hash s' is_evm r a"
  using assms(1) [of "InternCanonical (mr_canonical_json r)"] assms(1) [of "InternToken (token_text is_evm r)"] assms(2)
  by (simp add: anchor_of_def catalog_answer_def)

text \<open>Larger catalogs, with room for the holders of the new documents.\<close>

lemma catalog_inv_grows:
  assumes inv: "catalog_inv hash st m cg" and holds: "catalog_holds hash st m cg" and ok: "interner_ok hash canonical" "interner_ok hash tokens"
    and grows: "\<And>d q. catalog_answer hash (mc_canonical cg, mc_tokens cg) d q \<Longrightarrow> catalog_answer hash (canonical, tokens) d q"
  shows "catalog_inv hash st m (cg\<lparr>mc_canonical := canonical, mc_tokens := tokens,
    mc_first := vec_resize (interner_len canonical) contract_max (mc_first cg)\<rparr>)"
proof -
  have canonical: "term_id hash canonical s = Some d" if "term_id hash (mc_canonical cg) s = Some d" for s d
    using grows [of "InternCanonical s" d] that by (simp add: catalog_answer_def)
  have "dom (term_id hash (mc_canonical cg)) \<subseteq> dom (term_id hash canonical)" using canonical by blast
  then have "ti_next_id (mc_canonical cg) \<le> ti_next_id canonical"
    using term_id_count ok(1) inv by (metis card_mono catalog_inv_def)
  moreover have len: "length (mc_first cg) = ti_next_id (mc_canonical cg)" using inv by (simp add: catalog_inv_def)
  ultimately have resize: "vec_resize (interner_len canonical) contract_max (mc_first cg) =
      mc_first cg @ replicate (ti_next_id canonical - ti_next_id (mc_canonical cg)) contract_max"
    by (auto simp: vec_resize_def interner_len_def)
  have same: "holder_list (mc_first cg @ replicate k contract_max, mc_extras cg) d = holder_list (mc_first cg, mc_extras cg) d" for k d
    by (auto simp: holder_list_def nth_append)
  obtain rws where rws: "catalog_rows hash (mc_canonical cg, mc_tokens cg) st m rws"
    "\<lparr>dc_offsets = mc_offsets cg, dc_values = mc_anchors cg\<rparr> = dense_of rws" using inv unfolding catalog_inv_def by blast
  have rows': "catalog_rows hash (canonical, tokens) st m rws"
    unfolding catalog_rows_def
  proof (intro conjI allI impI)
    fix c assume "c < m"
    then have "list_all2 (anchor_of hash (mc_canonical cg, mc_tokens cg) (contract_evm st c)) (contract_records st c) (rws ! c)"
      using rws(1) by (simp add: catalog_rows_def)
    then show "list_all2 (anchor_of hash (canonical, tokens) (contract_evm st c)) (contract_records st c) (rws ! c)"
      by (rule list_all2_mono) (rule anchor_of_grows [OF grows])
  qed (use rws(1) in \<open>simp add: catalog_rows_def\<close>)
  have holders: "holder_list (mc_first cg, mc_extras cg) d = text_holders st m s" if d: "term_id hash canonical s = Some d" for s d
  proof (cases "s \<in> dom (term_id hash (mc_canonical cg))")
    case True
    then obtain e where e: "term_id hash (mc_canonical cg) s = Some e" by blast
    then have "e = d" using canonical [OF e] d by simp
    then show ?thesis using e inv unfolding catalog_inv_def by blast
  next
    case False
    then have "s \<notin> contract_texts st c" if "c < m" for c using holds that unfolding catalog_holds_def by blast
    then have none: "text_holders st m s = []" by (simp add: text_holders_def filter_empty_conv)
    have "ti_next_id (mc_canonical cg) \<le> d"
    proof (rule ccontr)
      assume "\<not> ti_next_id (mc_canonical cg) \<le> d"
      then obtain t where t: "term_id hash (mc_canonical cg) t = Some d"
        using inv unfolding catalog_inv_def interner_ok_def by (meson not_le)
      then have "t = s" using canonical [OF t] d ok(1) unfolding interner_ok_def by blast
      then show False using t False by blast
    qed
    then show ?thesis unfolding none by (simp add: holder_list_def len)
  qed
  show ?thesis
    unfolding catalog_inv_def
    using inv ok rows' rws(2) holders same \<open>ti_next_id (mc_canonical cg) \<le> ti_next_id canonical\<close> len
    by (auto simp: resize catalog_inv_def holders_ok_def)
qed

lemma catalog_task_ok:
  assumes "metadata_source_ok st" "c < length (rs_contracts st)"
  shows "catalog_task st (rs_contracts st ! c) = Inr (c, contract_evm st c, contract_calls st c)"
  using assms
  by (simp add: catalog_task_def chain_name_def metadata_source_ok_def contract_evm_def contract_calls_def contract_records_def or_panic_def
      Let_def)

lemma catalog_batch_ok:
  assumes source: "metadata_source_ok st" and run: "\<forall>p. \<not> cancelled p" and range: "m \<le> m'" "m' \<le> length (rs_contracts st)"
    and inv: "catalog_inv hash st m cg" and holds: "catalog_holds hash st m cg"
  shows "\<exists>cg'. catalog_batch hash schedule cancelled st (k, map ((!) (rs_contracts st)) [m..<m']) cg = Inr cg' \<and>
    catalog_inv hash st m' cg' \<and> catalog_holds hash st m' cg'"
proof -
  let ?callss = "map (contract_calls st) [m..<m']"
  let ?D = "\<Union>c \<in> {..<m}. contract_texts st c" and ?E = "\<Union>c \<in> {..<m}. contract_tokens st c"
  let ?T = "mset (concat ?callss)"
  have tasks: "res_collect (map (catalog_task st) (map ((!) (rs_contracts st)) [m..<m'])) =
      Inr (map (\<lambda>c. (c, contract_evm st c, contract_calls st c)) [m..<m'])"
    unfolding map_map comp_def using range by (intro res_collect_map catalog_task_ok [OF source]) auto
  have more: "?D \<union> canonical_calls ?T = (\<Union>c \<in> {..<m'}. contract_texts st c)" "?E \<union> token_calls ?T = (\<Union>c \<in> {..<m'}. contract_tokens st c)"
    unfolding batch_call_sets using range(1) by (auto simp: UN_Un [symmetric] ivl_disj_un)
  have "catalog_serves hash ?D ?E ?T {#} (mc_canonical cg, mc_tokens cg)"
    using few_texts [OF source, of "{..<m'}"] range(2) inv holds
    unfolding catalog_serves_def interner_serves_def calls_add more catalog_holds_def catalog_inv_def
    by (simp add: more subset_iff)
  from catalog.run_tasks_ok [OF this, of "schedule (CatalogPoll k)"] obtain idss canonical tokens where
    tasks_run: "run_tasks (catalog_exec hash) (schedule (CatalogPoll k)) ?callss (mc_canonical cg, mc_tokens cg) = (map Inr idss, canonical, tokens)"
    and served: "catalog_serves hash ?D ?E ?T ?T (canonical, tokens)"
    and answers: "list_all2 (list_all2 (catalog_answer hash (canonical, tokens))) ?callss idss"
    and grows: "\<And>d q. catalog_answer hash (mc_canonical cg, mc_tokens cg) d q \<Longrightarrow> catalog_answer hash (canonical, tokens) d q"
    by (metis surj_pair)
  let ?cg = "cg\<lparr>mc_canonical := canonical, mc_tokens := tokens, mc_first := vec_resize (interner_len canonical) contract_max (mc_first cg)\<rparr>"
  have ok: "interner_ok hash canonical" "interner_ok hash tokens" "dom (term_id hash canonical) = (\<Union>c \<in> {..<m'}. contract_texts st c)"
    "dom (term_id hash tokens) = (\<Union>c \<in> {..<m'}. contract_tokens st c)"
    using served unfolding catalog_serves_def interner_serves_def more by auto
  have inv': "catalog_inv hash st m ?cg" by (rule catalog_inv_grows [OF inv holds ok(1,2) grows])
  have len: "length idss = m' - m" using list_all2_lengthD [OF answers] by simp
  then have upto: "[m..<m + length idss] = [m..<m']" using range(1) by simp
  obtain cg' where cg': "res_fold catalog_contract (zip (map (\<lambda>c. (c, contract_evm st c)) [m..<m']) (map Inr idss)) ?cg = Inr cg'"
    "catalog_inv hash st m' cg'" "mc_canonical cg' = canonical" "mc_tokens cg' = tokens"
    using catalog_contracts_ok [OF source _ inv', of idss] answers len range unfolding upto by auto
  have "catalog_batch hash schedule cancelled st (k, map ((!) (rs_contracts st)) [m..<m']) cg = Inr cg'"
    using run tasks tasks_run cg'(1) by (simp add: catalog_batch_def check_cancelled_def comp_def Let_def)
  moreover have "catalog_holds hash st m' cg'" using ok(3,4) cg'(3,4) by (simp add: catalog_holds_def)
  ultimately show ?thesis using cg'(2) by blast
qed

lemma catalog_batches_ok:
  assumes source: "metadata_source_ok st" and run: "\<forall>p. \<not> cancelled p"
    and rest: "m \<le> length (rs_contracts st)" "concat (map snd entries) = drop m (rs_contracts st)"
    and inv: "catalog_inv hash st m cg" and holds: "catalog_holds hash st m cg"
  shows "\<exists>cg'. res_fold (catalog_batch hash schedule cancelled st) entries cg = Inr cg' \<and>
    catalog_inv hash st (length (rs_contracts st)) cg' \<and> catalog_holds hash st (length (rs_contracts st)) cg'"
  using rest inv holds
proof (induction entries arbitrary: m cg)
  case Nil
  then have "m = length (rs_contracts st)" by simp
  then show ?case using Nil by auto
next
  case (Cons e entries)
  obtain k contracts where e: "e = (k, contracts)" by fastforce
  let ?m' = "m + length contracts"
  have split: "drop m (rs_contracts st) = contracts @ concat (map snd entries)" using Cons.prems(2) e by simp
  have m': "?m' \<le> length (rs_contracts st)" using arg_cong [OF split, of length] Cons.prems(1) by simp
  have "contracts = take (length contracts) (drop m (rs_contracts st))" unfolding split by simp
  also have "\<dots> = map ((!) (rs_contracts st)) [m..<?m']" using m' by (intro nth_equalityI) simp_all
  finally have contracts: "contracts = map ((!) (rs_contracts st)) [m..<?m']" .
  have rest: "concat (map snd entries) = drop ?m' (rs_contracts st)"
    using arg_cong [OF split, of "drop (length contracts)"] by (simp add: add.commute)
  obtain cg1 where cg1: "catalog_batch hash schedule cancelled st e cg = Inr cg1" "catalog_inv hash st ?m' cg1" "catalog_holds hash st ?m' cg1"
    using catalog_batch_ok [OF source run _ m' Cons.prems(3,4), of schedule k] contracts e by auto
  from Cons.IH [OF m' rest cg1(2,3)] cg1(1) show ?case by simp
qed

lemma metadata_catalog_ok:
  assumes "metadata_source_ok st" "\<forall>p. \<not> cancelled p"
  shows "\<exists>cg. metadata_catalog_of hash schedule cancelled st = Inr cg \<and>
    catalog_inv hash st (length (rs_contracts st)) cg \<and> catalog_holds hash st (length (rs_contracts st)) cg"
proof -
  let ?start = "\<lparr>mc_canonical = interner_new, mc_tokens = interner_new, mc_first = [], mc_extras = [], mc_offsets = [0],
    mc_anchors = [], mc_is_evm = replicate (length (rs_contracts st)) False\<rparr>"
  have "catalog_rows hash (interner_new, interner_new) st 0 []" "\<lparr>dc_offsets = [0], dc_values = []\<rparr> = dense_of []"
    by (simp_all add: catalog_rows_def dense_of_def)
  then have "catalog_inv hash st 0 ?start"
    unfolding catalog_inv_def
    by (auto simp: interner_ok_new holders_ok_def holder_list_def ah_distinct_def) (simp add: interner_new_def)
  moreover have "catalog_holds hash st 0 ?start" by (simp add: catalog_holds_def dom_def)
  moreover have "concat (map snd (enumerated (chunks_of catalog_batch_len (rs_contracts st)))) = drop 0 (rs_contracts st)"
    using concat_chunks_of [of catalog_batch_len "rs_contracts st"] by (simp add: catalog_batch_len_def)
  ultimately show ?thesis using catalog_batches_ok [OF assms, of 0] by (simp add: metadata_catalog_of_def)
qed

end
