(* ===== verification/MetaCorpus.thy ===== *)
theory MetaCorpus
  imports MetaCatalog
begin

text \<open>
  The documents: after the batches each text has its terms, sorted by id and with the counts of its tokens,
  in one row of the shared list, and each term the number of documents that contain it.
\<close>

section \<open>The terms of one document\<close>

definition doc_row :: "(string \<Rightarrow> nat) \<Rightarrow> term_interner \<Rightarrow> string list \<Rightarrow> doc_term list \<Rightarrow> bool" where
  "doc_row hash ti ts row \<longleftrightarrow>
     terms_sorted row \<and> length row \<le> length ts \<and>
     (\<forall>t f. (t, f) \<in> set row \<longleftrightarrow> (\<exists>s \<in> set ts. term_id hash ti s = Some t \<and> f = capped_count ts s))"

lemma interned_terms_ok:
  assumes ok: "interner_ok hash ti" and ids: "list_all2 (\<lambda>s i. term_id hash ti s = Some i) (first_occurrences ts) ids"
  shows "doc_row hash ti ts (interned_terms (term_counts_of ts) ids)"
proof -
  let ?fs = "first_occurrences ts" and ?row = "interned_terms (term_counts_of ts) ids"
  have len: "length ids = length ?fs" using list_all2_lengthD [OF ids] by simp
  have nth: "term_id hash ti (?fs ! i) = Some (ids ! i)" if "i < length ids" for i
    using ids that len by (auto simp: list_all2_conv_all_nth)
  have "distinct ids"
    unfolding distinct_conv_nth
  proof (intro allI impI)
    fix i j assume ij: "i < length ids" "j < length ids" "i \<noteq> j"
    then have "?fs ! i \<noteq> ?fs ! j" using len by (simp add: nth_eq_iff_index_eq)
    moreover have "?fs ! i = ?fs ! j" if same: "ids ! i = ids ! j"
    proof -
      have "term_id hash ti (?fs ! i) = Some (ids ! i)" "term_id hash ti (?fs ! j) = Some (ids ! i)" using nth ij same by simp_all
      then show ?thesis using ok unfolding interner_ok_def by blast
    qed
    ultimately show "ids ! i \<noteq> ids ! j" by blast
  qed
  have zip: "zip ids (map snd (term_counts_of ts)) = map (\<lambda>i. (ids ! i, capped_count ts (?fs ! i))) [0..<length ids]"
    using len by (intro nth_equalityI) (simp_all add: term_counts_of_def)
  have "map fst (zip ids (map snd (term_counts_of ts))) = ids" using len by (simp add: term_counts_of_def)
  then have "mset (map fst ?row) = mset ids" unfolding interned_terms_def by (metis mset_map mset_sort)
  then have "distinct (map fst ?row)" using \<open>distinct ids\<close> by (metis mset_eq_imp_distinct_iff)
  moreover have "sorted (map fst ?row)" by (simp add: interned_terms_def)
  ultimately have "terms_sorted ?row" by (simp add: terms_sorted_def strict_sorted_iff)
  moreover have "(t, f) \<in> set ?row \<longleftrightarrow> (\<exists>s \<in> set ts. term_id hash ti s = Some t \<and> f = capped_count ts s)" for t f
  proof
    assume "(t, f) \<in> set ?row"
    then obtain i where i: "i < length ids" "t = ids ! i" "f = capped_count ts (?fs ! i)"
      unfolding interned_terms_def set_sort zip by auto
    have "?fs ! i \<in> set ?fs" using i(1) len by (intro nth_mem) simp
    then have "?fs ! i \<in> set ts" by simp
    then show "\<exists>s \<in> set ts. term_id hash ti s = Some t \<and> f = capped_count ts s" using i nth by blast
  next
    assume "\<exists>s \<in> set ts. term_id hash ti s = Some t \<and> f = capped_count ts s"
    then obtain s where s: "s \<in> set ts" "term_id hash ti s = Some t" "f = capped_count ts s" by blast
    then have "s \<in> set ?fs" by simp
    then obtain i where i: "i < length ids" "?fs ! i = s" unfolding in_set_conv_nth len by blast
    then have "t = ids ! i" using nth [OF i(1)] s(2) by simp
    then show "(t, f) \<in> set ?row" unfolding interned_terms_def set_sort zip using i s(3) by auto
  qed
  moreover have "length ?row \<le> length ts"
    using length_remdups_leq [of "rev ts"] len by (simp add: interned_terms_def zip first_occurrences_def)
  ultimately show ?thesis by (simp add: doc_row_def)
qed

lemma doc_row_grows:
  assumes "doc_row hash ti ts row" "set ts \<subseteq> dom (term_id hash ti)" "\<And>s i. term_id hash ti s = Some i \<Longrightarrow> term_id hash ti' s = Some i"
  shows "doc_row hash ti' ts row"
proof -
  have "term_id hash ti' s = term_id hash ti s" if "s \<in> set ts" for s
    using assms(2) assms(3) [of s] that by (metis domD in_mono)
  then show ?thesis using assms(1) by (simp add: doc_row_def cong: bex_cong)
qed

lemma doc_row_fst: "doc_row hash ti ts row \<Longrightarrow> fst ` set row = {t. \<exists>s \<in> set ts. term_id hash ti s = Some t}"
  unfolding doc_row_def by force

lemma doc_row_range: "interner_ok hash ti \<Longrightarrow> doc_row hash ti ts row \<Longrightarrow> t \<in> fst ` set row \<Longrightarrow> t < ti_next_id ti"
  unfolding doc_row_fst interner_ok_def by blast

section \<open>Document frequencies\<close>

lemma count_documents_ok:
  assumes "distinct (map fst row)" "\<forall>t \<in> fst ` set row. t < length frequency \<and> frequency ! t < 2 ^ 32 - 1"
  shows "res_fold count_document row frequency =
    Inr (map (\<lambda>t. if t \<in> fst ` set row then frequency ! t + 1 else frequency ! t) [0..<length frequency])"
  using assms
proof (induction row arbitrary: frequency)
  case Nil
  then show ?case by (simp add: map_nth)
next
  case (Cons r row)
  let ?frequency = "frequency[fst r := frequency ! fst r + 1]"
  have r: "fst r < length frequency" "frequency ! fst r < 2 ^ 32 - 1" using Cons.prems(2) by auto
  then have "count_document r frequency = Inr ?frequency"
    by (simp add: count_document_def upd_def or_panic_def sat_add_u32_def)
  moreover have "\<forall>t \<in> fst ` set row. t < length ?frequency \<and> ?frequency ! t < 2 ^ 32 - 1"
    using Cons.prems by (auto simp: nth_list_update)
  moreover have "map (\<lambda>t. if t \<in> fst ` set row then ?frequency ! t + 1 else ?frequency ! t) [0..<length ?frequency] =
      map (\<lambda>t. if t \<in> fst ` set (r # row) then frequency ! t + 1 else frequency ! t) [0..<length frequency]"
    using Cons.prems(1) r(1) by (intro nth_equalityI) (auto simp: nth_list_update)
  ultimately show ?case using Cons.IH [of ?frequency] Cons.prems(1) by simp
qed

section \<open>The corpus after some documents\<close>

definition row_frequency :: "doc_term list list \<Rightarrow> nat \<Rightarrow> nat" where
  "row_frequency rws t = length (filter (\<lambda>row. t \<in> fst ` set row) rws)"

definition corpus_rows ::
  "(string \<Rightarrow> nat) \<Rightarrow> (nat \<Rightarrow> bool) \<Rightarrow> string list \<Rightarrow> metadata_corpus \<Rightarrow> doc_term list list \<Rightarrow> bool" where
  "corpus_rows hash alphanumeric docs corpus rws \<longleftrightarrow>
     interner_ok hash (mk_interner corpus) \<and>
     list_all2 (\<lambda>canonical. doc_row hash (mk_interner corpus) (document_tokens alphanumeric canonical)) docs rws \<and>
     mk_documents corpus = map (\<lambda>d. set_term_start (length (concat (take d rws))) (from_compact_terms (rws ! d))) [0..<length rws] \<and>
     mk_terms corpus = concat rws \<and>
     mk_frequency corpus = map (row_frequency rws) [0..<ti_next_id (mk_interner corpus)]"

lemma prepare_document_ok:
  assumes corpus: "corpus_rows hash alphanumeric docs corpus rws"
    and ids: "list_all2 (\<lambda>s i. term_id hash (mk_interner corpus) s = Some i) (first_occurrences (document_tokens alphanumeric canonical)) ids"
    and few: "length docs < 2 ^ 32 - 1" "length (concat (map (document_tokens alphanumeric) docs)) < 2 ^ 32"
  shows "\<exists>corpus' row. prepare_document (term_counts_of (document_tokens alphanumeric canonical), Inr ids) corpus = Inr corpus' \<and>
    corpus_rows hash alphanumeric (docs @ [canonical]) corpus' (rws @ [row]) \<and> mk_interner corpus' = mk_interner corpus"
proof -
  let ?ts = "document_tokens alphanumeric canonical" and ?ti = "mk_interner corpus"
  let ?row = "interned_terms (term_counts_of ?ts) ids"
  have ok: "interner_ok hash ?ti" using corpus by (simp add: corpus_rows_def)
  have row: "doc_row hash ?ti ?ts ?row" using interned_terms_ok [OF ok ids] .
  have each: "list_all2 (\<lambda>canonical. doc_row hash ?ti (document_tokens alphanumeric canonical)) docs rws" using corpus by (simp add: corpus_rows_def)
  then have len: "length rws = length docs" by (simp add: list_all2_lengthD)
  have frequency: "mk_frequency corpus = map (row_frequency rws) [0..<ti_next_id ?ti]" using corpus by (simp add: corpus_rows_def)
  have "row_frequency rws t < 2 ^ 32 - 1" for t
    using length_filter_le [of _ rws] few(1) len unfolding row_frequency_def by (metis le_less_trans)
  moreover have "t < ti_next_id ?ti" if "t \<in> fst ` set ?row" for t using doc_row_range [OF ok row that] .
  moreover have "distinct (map fst ?row)" using row by (simp add: doc_row_def terms_sorted_def strict_sorted_iff)
  ultimately have counted: "res_fold count_document ?row (mk_frequency corpus) =
      Inr (map (\<lambda>t. if t \<in> fst ` set ?row then mk_frequency corpus ! t + 1 else mk_frequency corpus ! t) [0..<length (mk_frequency corpus)])"
    by (intro count_documents_ok) (auto simp: frequency)
  have "map (\<lambda>t. if t \<in> fst ` set ?row then mk_frequency corpus ! t + 1 else mk_frequency corpus ! t) [0..<length (mk_frequency corpus)] =
      map (row_frequency (rws @ [?row])) [0..<ti_next_id ?ti]"
    unfolding frequency by (intro nth_equalityI) (auto simp: row_frequency_def)
  note counted = counted [unfolded this]
  have "length (concat rws) \<le> length (concat (map (document_tokens alphanumeric) docs))"
    using each by (induction rule: list_all2_induct) (auto simp: doc_row_def)
  then have "u32_try_from (length (mk_terms corpus)) = Some (length (concat rws))"
    using few(2) corpus by (simp add: u32_try_from_def corpus_rows_def)
  moreover obtain corpus' where corpus': "corpus' =
      corpus\<lparr>mk_documents := mk_documents corpus @ [set_term_start (length (concat rws)) (from_compact_terms ?row)],
        mk_terms := mk_terms corpus @ ?row, mk_frequency := map (row_frequency (rws @ [?row])) [0..<ti_next_id ?ti]\<rparr>" by blast
  ultimately have run: "prepare_document (term_counts_of ?ts, Inr ids) corpus = Inr corpus'"
    using counted by (simp add: prepare_document_def Let_def)
  have "mk_documents corpus' =
      map (\<lambda>d. set_term_start (length (concat (take d (rws @ [?row])))) (from_compact_terms ((rws @ [?row]) ! d))) [0..<length (rws @ [?row])]"
    using corpus by (auto simp: corpus' corpus_rows_def nth_append)
  moreover have "list_all2 (\<lambda>canonical. doc_row hash ?ti (document_tokens alphanumeric canonical)) (docs @ [canonical]) (rws @ [?row])"
    using each row by (intro list_all2_appendI) simp_all
  ultimately have "corpus_rows hash alphanumeric (docs @ [canonical]) corpus' (rws @ [?row])"
    using corpus ok by (simp add: corpus_rows_def corpus' del: map_append upt_Suc)
  with run show ?thesis by (auto simp: corpus')
qed

lemma prepare_documents_ok:
  assumes "corpus_rows hash alphanumeric docs corpus rws"
    "list_all2 (\<lambda>canonical. list_all2 (\<lambda>s i. term_id hash (mk_interner corpus) s = Some i) (first_occurrences (document_tokens alphanumeric canonical))) new idss"
    "length (docs @ new) < 2 ^ 32" "length (concat (map (document_tokens alphanumeric) (docs @ new))) < 2 ^ 32"
  shows "\<exists>corpus' rws'. res_fold prepare_document (zip (map (\<lambda>canonical. term_counts_of (document_tokens alphanumeric canonical)) new) (map Inr idss)) corpus =
      Inr corpus' \<and> corpus_rows hash alphanumeric (docs @ new) corpus' rws' \<and> mk_interner corpus' = mk_interner corpus"
  using assms
proof (induction new arbitrary: docs corpus rws idss)
  case Nil
  then show ?case by auto
next
  case (Cons canonical new)
  obtain ids idss' where idss: "idss = ids # idss'"
    "list_all2 (\<lambda>s i. term_id hash (mk_interner corpus) s = Some i) (first_occurrences (document_tokens alphanumeric canonical)) ids"
    using Cons.prems(2) by (auto simp: list_all2_Cons1)
  have few: "length docs < 2 ^ 32 - 1" "length (concat (map (document_tokens alphanumeric) docs)) < 2 ^ 32"
    using Cons.prems(3,4) by simp_all
  obtain corpus1 row where step: "prepare_document (term_counts_of (document_tokens alphanumeric canonical), Inr ids) corpus = Inr corpus1"
    "corpus_rows hash alphanumeric (docs @ [canonical]) corpus1 (rws @ [row])" "mk_interner corpus1 = mk_interner corpus"
    using prepare_document_ok [OF Cons.prems(1) idss(2) few] by blast
  have rest: "list_all2 (\<lambda>canonical. list_all2 (\<lambda>s i. term_id hash (mk_interner corpus1) s = Some i)
      (first_occurrences (document_tokens alphanumeric canonical))) new idss'"
    using Cons.prems(2) idss(1) step(3) by simp
  have "length ((docs @ [canonical]) @ new) < 2 ^ 32" "length (concat (map (document_tokens alphanumeric) ((docs @ [canonical]) @ new))) < 2 ^ 32"
    using Cons.prems(3,4) by simp_all
  from Cons.IH [OF step(2) rest this] step(1,3) idss(1) show ?case by (auto simp: append_assoc)
qed

lemma corpus_rows_grows:
  assumes corpus: "corpus_rows hash alphanumeric docs corpus rws" and ok: "interner_ok hash ti"
    and holds: "(\<Union>canonical \<in> set docs. set (document_tokens alphanumeric canonical)) \<subseteq> dom (term_id hash (mk_interner corpus))"
    and grows: "\<And>s i. term_id hash (mk_interner corpus) s = Some i \<Longrightarrow> term_id hash ti s = Some i"
  shows "corpus_rows hash alphanumeric docs (corpus\<lparr>mk_interner := ti, mk_frequency := vec_resize (interner_len ti) 0 (mk_frequency corpus)\<rparr>) rws"
proof -
  let ?old = "mk_interner corpus"
  have each: "list_all2 (\<lambda>canonical. doc_row hash ?old (document_tokens alphanumeric canonical)) docs rws" and old: "interner_ok hash ?old"
    and frequency: "mk_frequency corpus = map (row_frequency rws) [0..<ti_next_id ?old]"
    using corpus by (simp_all add: corpus_rows_def)
  have len: "length rws = length docs" using list_all2_lengthD [OF each] by simp
  have doc: "doc_row hash ?old (document_tokens alphanumeric (docs ! d)) (rws ! d)" if "d < length docs" for d
    using list_all2_nthD [OF each that] .
  have "list_all2 (\<lambda>canonical. doc_row hash ti (document_tokens alphanumeric canonical)) docs rws"
    unfolding list_all2_conv_all_nth
  proof (intro conjI allI impI)
    fix d assume d: "d < length docs"
    have "set (document_tokens alphanumeric (docs ! d)) \<subseteq> dom (term_id hash ?old)" using holds nth_mem [OF d] by blast
    from doc_row_grows [OF doc [OF d] this grows] show "doc_row hash ti (document_tokens alphanumeric (docs ! d)) (rws ! d)" .
  qed (simp add: len)
  moreover have "ti_next_id ?old \<le> ti_next_id ti"
  proof -
    have "dom (term_id hash ?old) \<subseteq> dom (term_id hash ti)" using grows by blast
    then show ?thesis using term_id_count [OF ok] term_id_count [OF old] by (metis card_mono)
  qed
  moreover have "row_frequency rws t = 0" if "ti_next_id ?old \<le> t" for t
  proof -
    have "t \<notin> fst ` set row" if row: "row \<in> set rws" for row
    proof -
      obtain d where d: "d < length rws" "row = rws ! d" using row by (auto simp: in_set_conv_nth)
      then have "doc_row hash ?old (document_tokens alphanumeric (docs ! d)) row" using doc [of d] len by simp
      from doc_row_range [OF old this, of t] show ?thesis using \<open>ti_next_id ?old \<le> t\<close> by linarith
    qed
    then show ?thesis by (simp add: row_frequency_def filter_empty_conv)
  qed
  then have "vec_resize (interner_len ti) 0 (mk_frequency corpus) = map (row_frequency rws) [0..<ti_next_id ti]"
    using \<open>ti_next_id ?old \<le> ti_next_id ti\<close>
    by (intro nth_equalityI) (auto simp: vec_resize_def interner_len_def frequency nth_append)
  ultimately show ?thesis using corpus ok by (simp add: corpus_rows_def)
qed

definition corpus_inv :: "(string \<Rightarrow> nat) \<Rightarrow> (nat \<Rightarrow> bool) \<Rightarrow> string list \<Rightarrow> metadata_corpus \<Rightarrow> bool" where
  "corpus_inv hash alphanumeric docs corpus \<longleftrightarrow>
     (\<exists>rws. corpus_rows hash alphanumeric docs corpus rws) \<and>
     dom (term_id hash (mk_interner corpus)) = (\<Union>canonical \<in> set docs. set (document_tokens alphanumeric canonical))"

definition corpus_small :: "(nat \<Rightarrow> bool) \<Rightarrow> string list \<Rightarrow> bool" where
  "corpus_small alphanumeric docs \<longleftrightarrow> length docs < 2 ^ 32 \<and> length (concat (map (document_tokens alphanumeric) docs)) < 2 ^ 32"

lemma tokenize_batch_ok:
  assumes run: "\<forall>p. \<not> cancelled p" and inv: "corpus_inv hash alphanumeric docs corpus" and small: "corpus_small alphanumeric (docs @ new)"
  shows "\<exists>corpus'. tokenize_batch hash alphanumeric schedule cancelled (k, new) corpus = Inr corpus' \<and>
    corpus_inv hash alphanumeric (docs @ new) corpus'"
proof -
  let ?tokens = "document_tokens alphanumeric"
  let ?callss = "map (\<lambda>canonical. first_occurrences (?tokens canonical)) new"
  let ?D = "\<Union>canonical \<in> set docs. set (?tokens canonical)" and ?T = "mset (concat ?callss)"
  obtain rws where rws: "corpus_rows hash alphanumeric docs corpus rws" and dom: "dom (term_id hash (mk_interner corpus)) = ?D"
    using inv by (auto simp: corpus_inv_def)
  have more: "?D \<union> set_mset ?T = (\<Union>canonical \<in> set (docs @ new). set (?tokens canonical))" by auto
  have all: "(\<Union>canonical \<in> set (docs @ new). set (?tokens canonical)) = set (concat (map ?tokens (docs @ new)))" by simp
  have "card (\<Union>canonical \<in> set (docs @ new). set (?tokens canonical)) < 2 ^ 32"
    unfolding all using card_length [of "concat (map ?tokens (docs @ new))"] small by (simp add: corpus_small_def)
  then have "interner_serves hash ?D (set_mset ?T) (set_mset {#}) (mk_interner corpus)"
    using rws dom unfolding interner_serves_def more by (simp add: corpus_rows_def)
  from interner.run_tasks_ok [OF this, of "schedule (TokenizePoll k)"] obtain idss ti where
    tasks_run: "run_tasks (intern_term hash) (schedule (TokenizePoll k)) ?callss (mk_interner corpus) = (map Inr idss, ti)"
    and served: "interner_serves hash ?D (set_mset ?T) (set_mset ?T) ti"
    and answers: "list_all2 (list_all2 (\<lambda>s i. term_id hash ti s = Some i)) ?callss idss"
    and kept: "\<forall>s i. term_id hash (mk_interner corpus) s = Some i \<longrightarrow> term_id hash ti s = Some i"
    by blast
  have grows: "term_id hash (mk_interner corpus) s = Some i \<Longrightarrow> term_id hash ti s = Some i" for s i using kept by blast
  let ?corpus = "corpus\<lparr>mk_interner := ti, mk_frequency := vec_resize (interner_len ti) 0 (mk_frequency corpus)\<rparr>"
  have ok: "interner_ok hash ti" "dom (term_id hash ti) = (\<Union>canonical \<in> set (docs @ new). set (?tokens canonical))"
    using served unfolding interner_serves_def more by auto
  have "corpus_rows hash alphanumeric docs ?corpus rws"
    using corpus_rows_grows [OF rws ok(1) _ grows] dom by simp
  moreover have "list_all2 (\<lambda>canonical. list_all2 (\<lambda>s i. term_id hash (mk_interner ?corpus) s = Some i) (first_occurrences (?tokens canonical))) new idss"
    using answers by (simp add: list_all2_map1)
  ultimately obtain corpus' rws' where corpus': "res_fold prepare_document (zip (map (\<lambda>canonical. term_counts_of (?tokens canonical)) new) (map Inr idss)) ?corpus = Inr corpus'"
    "corpus_rows hash alphanumeric (docs @ new) corpus' rws'" "mk_interner corpus' = ti"
    using prepare_documents_ok [of hash alphanumeric docs ?corpus rws new idss] small by (auto simp: corpus_small_def)
  have "res_collect (map (tokenize_metadata_document alphanumeric) new) = Inr (map (\<lambda>canonical. term_counts_of (?tokens canonical)) new)"
    by (intro res_collect_map) (rule tokenize_counts)
  moreover have "map fst (term_counts_of ts) = first_occurrences ts" for ts by (simp add: term_counts_of_def comp_def)
  ultimately have "tokenize_batch hash alphanumeric schedule cancelled (k, new) corpus = Inr corpus'"
    using run tasks_run corpus'(1) by (simp add: tokenize_batch_def check_cancelled_def comp_def)
  then show ?thesis using corpus' ok(2) by (auto simp: corpus_inv_def)
qed

lemma metadata_corpus_ok:
  assumes run: "\<forall>p. \<not> cancelled p" and small: "corpus_small alphanumeric docs"
  shows "\<exists>corpus. metadata_corpus_of hash alphanumeric schedule cancelled docs = Inr corpus \<and> corpus_inv hash alphanumeric docs corpus"
proof -
  have batches: "\<exists>corpus'. res_fold (tokenize_batch hash alphanumeric schedule cancelled) entries corpus = Inr corpus' \<and>
      corpus_inv hash alphanumeric (before @ concat (map snd entries)) corpus'"
    if "corpus_inv hash alphanumeric before corpus" "corpus_small alphanumeric (before @ concat (map snd entries))" for entries before corpus
    using that
  proof (induction entries arbitrary: before corpus)
    case (Cons e entries)
    obtain k new where e: "e = (k, new)" by fastforce
    have "corpus_small alphanumeric (before @ new)" using Cons.prems(2) by (simp add: e corpus_small_def)
    from tokenize_batch_ok [OF run Cons.prems(1) this, of schedule k] obtain corpus1 where
      "tokenize_batch hash alphanumeric schedule cancelled e corpus = Inr corpus1" "corpus_inv hash alphanumeric (before @ new) corpus1"
      by (auto simp: e)
    with Cons.IH [of "before @ new" corpus1] Cons.prems(2) show ?case by (simp add: e)
  qed simp
  have "corpus_rows hash alphanumeric [] \<lparr>mk_interner = interner_new, mk_documents = [], mk_terms = [], mk_frequency = []\<rparr> []"
    by (simp add: corpus_rows_def interner_ok_new) (simp add: interner_new_def)
  then have "corpus_inv hash alphanumeric [] \<lparr>mk_interner = interner_new, mk_documents = [], mk_terms = [], mk_frequency = []\<rparr>"
    by (auto simp: corpus_inv_def dom_def)
  from batches [OF this, of "enumerated (chunks_of tokenize_batch_len docs)"] show ?thesis
    using small concat_chunks_of [of tokenize_batch_len docs] by (simp add: metadata_corpus_of_def tokenize_batch_len_def)
qed

end
