(* ===== verification/MetaPostings.thy ===== *)
theory MetaPostings
  imports MetaCorpus
begin

text \<open>
  The postings of the terms: whichever of the two loops fills them, and in whichever order the threads
  do, the row of a term holds each document that contains it once.
\<close>

section \<open>Offsets\<close>

definition posting_offset :: "doc_term list list \<Rightarrow> nat \<Rightarrow> nat" where
  "posting_offset rws t = (\<Sum>u < t. row_frequency rws u)"

lemma posting_offset_mono: "t \<le> u \<Longrightarrow> posting_offset rws t \<le> posting_offset rws u"
  unfolding posting_offset_def by (intro sum_mono2) auto

lemma posting_offset_total:
  assumes "\<forall>row \<in> set rws. distinct (map fst row) \<and> fst ` set row \<subseteq> {..<n}"
  shows "posting_offset rws n = length (concat rws)"
  using assms
proof (induction rws)
  case (Cons row rws)
  have "row_frequency (row # rws) t = (if t \<in> fst ` set row then 1 else 0) + row_frequency rws t" for t
    by (simp add: row_frequency_def)
  then have "posting_offset (row # rws) n = (\<Sum>t < n. if t \<in> fst ` set row then 1 else 0) + posting_offset rws n"
    by (simp add: posting_offset_def sum.distrib)
  moreover have "(\<Sum>t < n. if t \<in> fst ` set row then 1 else 0) = card ({..<n} \<inter> fst ` set row)" by (simp add: sum.If_cases)
  moreover have "{..<n} \<inter> fst ` set row = fst ` set row" using Cons.prems by auto
  moreover have "card (fst ` set row) = length row"
    using Cons.prems distinct_card [of "map fst row"] by simp
  ultimately show ?case using Cons by simp
qed (simp add: posting_offset_def row_frequency_def)

lemma add_offsets_ok:
  assumes "posting_offset rws n < 2 ^ 32"
  shows "res_fold add_offset (map (row_frequency rws) [0..<n]) (0, [0]) = Inr (posting_offset rws n, map (posting_offset rws) [0..<Suc n])"
  using assms
proof (induction n)
  case 0
  then show ?case by (simp add: posting_offset_def)
next
  case (Suc n)
  have next_offset: "posting_offset rws (Suc n) = posting_offset rws n + row_frequency rws n" by (simp add: posting_offset_def)
  have "posting_offset rws n < 2 ^ 32" using Suc.prems next_offset by simp
  moreover have "add_offset (row_frequency rws n) (posting_offset rws n, map (posting_offset rws) [0..<Suc n]) =
      Inr (posting_offset rws (Suc n), map (posting_offset rws) [0..<Suc n] @ [posting_offset rws (Suc n)])"
    using Suc.prems unfolding next_offset by (simp add: add_offset_def sat_add_u64_def u32_try_from_def Let_def)
  ultimately show ?case using Suc.IH by (simp add: res_fold_append)
qed

section \<open>The calls that fill the postings\<close>

fun posted_to :: "nat \<Rightarrow> posting_call \<Rightarrow> nat option" where
  "posted_to t (PostTerm u d) = (if u = t then Some d else None)"
| "posted_to t _ = None"

definition posts :: "posting_call multiset \<Rightarrow> nat \<Rightarrow> nat multiset" where
  "posts M t = image_mset (\<lambda>c. the (posted_to t c)) (filter_mset (\<lambda>c. posted_to t c \<noteq> None) M)"

lemma posts_simps [simp]:
  "posts {#} t = {#}" "posts (add_mset (PollPostings p) M) t = posts M t" "posts (add_mset (NameDocument d) M) t = posts M t"
  "posts (add_mset (PostTerm u d) M) t = (if u = t then add_mset d (posts M t) else posts M t)"
  "posts (M + N) t = posts M t + posts N t"
  by (simp_all add: posts_def)

lemma posts_mono: "M \<subseteq># T \<Longrightarrow> posts M t \<subseteq># posts T t"
  unfolding posts_def by (intro image_mset_subseteq_mono multiset_filter_mono)

lemma set_posts: "d \<in># posts M t \<longleftrightarrow> PostTerm t d \<in># M"
proof -
  have "(\<exists>c. c \<in># M \<and> posted_to t c = Some d) \<longleftrightarrow> PostTerm t d \<in># M"
  proof
    assume "\<exists>c. c \<in># M \<and> posted_to t c = Some d"
    then obtain c where "c \<in># M" "posted_to t c = Some d" by blast
    then show "PostTerm t d \<in># M" by (cases c) (auto split: if_splits)
  qed (rule exI [of _ "PostTerm t d"], simp)
  then show ?thesis by (force simp: posts_def)
qed

text \<open>Calls that the postings with rows of the lengths \<open>off\<close> can take.\<close>

definition call_ok :: "(metadata_build_poll \<Rightarrow> bool) \<Rightarrow> nat \<Rightarrow> posting_call \<Rightarrow> bool" where
  "call_ok cancelled n call \<longleftrightarrow>
     (case call of PollPostings p \<Rightarrow> \<not> cancelled p | NameDocument d \<Rightarrow> d < 2 ^ 32 | PostTerm t d \<Rightarrow> t < n)"

definition posting_serves ::
  "(metadata_build_poll \<Rightarrow> bool) \<Rightarrow> (nat \<Rightarrow> nat) \<Rightarrow> nat \<Rightarrow> posting_call multiset \<Rightarrow> posting_call multiset \<Rightarrow> postings_state \<Rightarrow> bool" where
  "posting_serves cancelled off n T M s \<longleftrightarrow>
     (\<forall>c \<in># T. call_ok cancelled n c) \<and> (\<forall>t < n. off (Suc t) = off t + size (posts T t)) \<and> off n < 2 ^ 32 \<and>
     length (fst s) = n \<and> length (snd s) = off n \<and>
     (\<forall>t < n. fst s ! t = off t + size (posts M t) \<and>
        mset (map ((!) (snd s)) [off t..<off t + size (posts M t)]) = posts M t)"

lemma offsets_mono:
  fixes off :: "nat \<Rightarrow> nat"
  assumes "\<forall>t < n. off t \<le> off (Suc t)" "t \<le> u" "u \<le> n"
  shows "off t \<le> off u"
  using assms(2,3)
proof (induction u rule: dec_induct)
  case (step k)
  then show ?case using assms(1) [rule_format, of k] by simp
qed simp

lemma posting_served:
  assumes inv: "posting_serves cancelled off n T M s" and within: "add_mset c M \<subseteq># T"
  shows "\<exists>s'. posting_exec cancelled c s = Inr ((), s') \<and> posting_serves cancelled off n T (add_mset c M) s'"
proof -
  obtain cursors postings where s: "s = (cursors, postings)" by fastforce
  have "c \<in># T" using set_mset_mono [OF within] by simp
  then have ok: "call_ok cancelled n c" using inv by (simp add: posting_serves_def)
  show ?thesis
  proof (cases c)
    case (PollPostings p)
    then show ?thesis using ok inv by (simp add: posting_exec_def call_ok_def check_cancelled_def posting_serves_def)
  next
    case (NameDocument d)
    then show ?thesis using ok inv by (simp add: posting_exec_def call_ok_def u32_try_from_def posting_serves_def)
  next
    case (PostTerm t d)
    have t: "t < n" using ok PostTerm by (simp add: call_ok_def)
    have step: "off (Suc u) = off u + size (posts T u)" if "u < n" for u using inv that by (simp add: posting_serves_def)
    have state: "length cursors = n" "length postings = off n" "off n < 2 ^ 32"
      "cursors ! u = off u + size (posts M u)" "mset (map ((!) postings) [off u..<off u + size (posts M u)]) = posts M u" if "u < n" for u
      using inv that by (simp_all add: posting_serves_def s)
    have mono: "off u \<le> off v" if "u \<le> v" "v \<le> n" for u v using offsets_mono [of n off u v] step that by simp
    have room: "Suc (size (posts M t)) \<le> size (posts T t)"
      using size_mset_mono [OF posts_mono [OF within, of t]] PostTerm by simp
    have filled: "size (posts M u) \<le> size (posts T u)" for u
      using size_mset_mono [OF posts_mono [OF within, of u]] PostTerm by (auto split: if_splits)
    let ?p = "off t + size (posts M t)"
    have p: "?p < off (Suc t)" using room step [OF t] by simp
    then have "?p < off n" using mono [of "Suc t" n] t by simp
    let ?s = "(cursors[t := Suc ?p], postings[?p := d])"
    have run: "posting_exec cancelled c s = Inr ((), ?s)"
      using state [OF t] t \<open>?p < off n\<close> by (simp add: posting_exec_def PostTerm s upd_def or_panic_def u32_small)
    have row: "(cursors[t := Suc ?p]) ! u = off u + size (posts (add_mset c M) u) \<and>
        mset (map ((!) (postings[?p := d])) [off u..<off u + size (posts (add_mset c M) u)]) = posts (add_mset c M) u" if u: "u < n" for u
    proof (cases "u = t")
      case True
      have longer: "map ((!) (postings[?p := d])) [off t..<Suc ?p] = map ((!) postings) [off t..<?p] @ [d]"
        using state(2) [OF t] \<open>?p < off n\<close> by simp
      have "mset (map ((!) (postings[?p := d])) [off t..<Suc ?p]) = add_mset d (posts M t)"
        unfolding longer using state(5) [OF t] by (simp del: mset_map mset_upt)
      moreover have "off t + size (posts (add_mset c M) t) = Suc ?p" "posts (add_mset c M) t = add_mset d (posts M t)"
        by (simp_all add: PostTerm)
      ultimately show ?thesis using True state(1) [OF t] t by (simp del: mset_map mset_upt)
    next
      case False
      have "?p \<notin> {off u..<off u + size (posts M u)}"
      proof (cases "u < t")
        case True
        then have "off u + size (posts M u) \<le> off t" using filled [of u] step [OF u] mono [of "Suc u" t] t by simp
        then show ?thesis by simp
      next
        case above: False
        then have "off (Suc t) \<le> off u" using False mono [of "Suc t" u] u by simp
        then show ?thesis using p by simp
      qed
      then have same: "map ((!) (postings[?p := d])) [off u..<off u + size (posts M u)] = map ((!) postings) [off u..<off u + size (posts M u)]"
        by (intro map_cong refl) (auto simp: nth_list_update)
      have "posts (add_mset c M) u = posts M u" using False by (simp add: PostTerm)
      show ?thesis unfolding \<open>posts (add_mset c M) u = posts M u\<close> same using False state [OF u] by (simp del: mset_map mset_upt)
    qed
    have "posting_serves cancelled off n T (add_mset c M) ?s"
      using inv row by (simp add: posting_serves_def s)
    then show ?thesis using run by blast
  qed
qed

interpretation postings: task_service "posting_exec cancelled" "posting_serves cancelled off n" "\<lambda>_ _ _. True"
  for cancelled off n
proof unfold_locales
  fix T M s c
  assume "posting_serves cancelled off n T M s" "add_mset c M \<subseteq># T"
  from posting_served [OF this]
  show "\<exists>r s'. posting_exec cancelled c s = Inr (r, s') \<and> posting_serves cancelled off n T (add_mset c M) s' \<and> True" by blast
qed

section \<open>Filling the postings\<close>

text \<open>The documents laid out over the rows of their terms.\<close>

definition laid_document :: "doc_term list list \<Rightarrow> nat \<Rightarrow> prepared_document" where
  "laid_document rws d = set_term_start (length (concat (take d rws))) (from_compact_terms (rws ! d))"

definition postable :: "doc_term list list \<Rightarrow> nat \<Rightarrow> bool" where
  "postable rws n \<longleftrightarrow>
     (\<forall>row \<in> set rws. distinct (map fst row) \<and> fst ` set row \<subseteq> {..<n}) \<and> length rws < 2 ^ 32 \<and> length (concat rws) < 2 ^ 32"

definition term_calls :: "doc_term list list \<Rightarrow> nat \<Rightarrow> posting_call list" where
  "term_calls rws d = NameDocument d # map (\<lambda>(t, _). PostTerm t d) (rws ! d)"

lemma laid_document_terms:
  assumes "d < length rws" "length (concat rws) < 2 ^ 32"
  shows "document_terms_in (laid_document rws d) (concat rws) = Inr (rws ! d)"
proof -
  have cut: "rws = take d rws @ rws ! d # drop (Suc d) rws" using id_take_nth_drop [OF assms(1)] .
  have "length (concat rws) = length (concat (take d rws)) + length (rws ! d) + length (concat (drop (Suc d) rws))"
    by (subst cut) simp
  then have "u32 (length (rws ! d)) = length (rws ! d)" using assms(2) by (intro u32_small) simp
  moreover have "length (concat (take (Suc d) rws)) = length (concat (take d rws)) + length (rws ! d)"
    using assms(1) by (simp add: take_Suc_conv_app_nth)
  ultimately show ?thesis
    using slice_row [OF assms(1)]
    by (simp add: document_terms_in_def laid_document_def set_term_start_def from_compact_terms_def case_prod_unfold Let_def or_panic_def)
qed

lemma document_calls_ok:
  assumes "postable rws n" "d < length rws"
  shows "document_calls (concat rws) (d, laid_document rws d) = Inr (term_calls rws d)"
  using laid_document_terms [OF assms(2)] assms(1) by (simp add: document_calls_def term_calls_def postable_def)

lemma posts_term_calls:
  assumes "postable rws n" "\<forall>d \<in> set ds. d < length rws"
  shows "posts (mset (concat (map (term_calls rws) ds))) t = mset (filter (\<lambda>d. t \<in> fst ` set (rws ! d)) ds)"
  using assms(2)
proof (induction ds)
  case (Cons d ds)
  have row: "posts (mset (map (\<lambda>(t, _). PostTerm t d) row)) t = (if t \<in> fst ` set row then {#d#} else {#})" if "distinct (map fst row)" for row :: "doc_term list"
    using that
  proof (induction row)
    case (Cons x row)
    then have "fst x \<notin> fst ` set row" by simp
    with Cons show ?case by (cases "fst x = t") (simp_all add: case_prod_unfold image_iff del: mset_map)
  qed simp
  have "distinct (map fst (rws ! d))" using assms(1) Cons.prems nth_mem [of d rws] by (simp add: postable_def)
  from row [OF this] show ?case using Cons by (simp add: term_calls_def del: mset_map)
qed simp

lemma row_frequency_filter: "length (filter (\<lambda>d. t \<in> fst ` set (rws ! d)) [0..<length rws]) = row_frequency rws t"
proof -
  have "filter (\<lambda>row. t \<in> fst ` set row) rws = map ((!) rws) (filter (\<lambda>d. t \<in> fst ` set (rws ! d)) [0..<length rws])"
    by (subst (1) map_nth [symmetric]) (simp add: filter_map comp_def)
  then show ?thesis by (simp add: row_frequency_def)
qed

lemma term_calls_ok: "postable rws n \<Longrightarrow> d < length rws \<Longrightarrow> c \<in> set (term_calls rws d) \<Longrightarrow> call_ok cancelled n c"
  using nth_mem [of d rws] by (fastforce simp: postable_def term_calls_def call_ok_def)

definition posted :: "doc_term list list \<Rightarrow> nat \<Rightarrow> nat list \<Rightarrow> bool" where
  "posted rws n postings \<longleftrightarrow>
     length postings = posting_offset rws n \<and>
     (\<forall>t < n. mset (map ((!) postings) [posting_offset rws t..<posting_offset rws (Suc t)]) =
        mset (filter (\<lambda>d. t \<in> fst ` set (rws ! d)) [0..<length rws]))"

lemma posting_start:
  assumes post: "postable rws n" and calls: "\<forall>c \<in># T. call_ok cancelled n c"
    and rest: "\<And>t. posts T t = mset (filter (\<lambda>d. t \<in> fst ` set (rws ! d)) [0..<length rws])"
  shows "posting_serves cancelled (posting_offset rws) n T {#} (map (posting_offset rws) [0..<n], replicate (posting_offset rws n) 0)"
    "posting_serves cancelled (posting_offset rws) n T T s \<Longrightarrow> posted rws n (snd s)"
proof -
  have total: "posting_offset rws n < 2 ^ 32" using posting_offset_total [of rws n] post by (simp add: postable_def)
  have step: "posting_offset rws (Suc t) = posting_offset rws t + size (posts T t)" for t
    using row_frequency_filter [of t rws] by (simp add: rest posting_offset_def del: mset_filter)
  show "posting_serves cancelled (posting_offset rws) n T {#} (map (posting_offset rws) [0..<n], replicate (posting_offset rws n) 0)"
    using total calls step by (simp add: posting_serves_def)
  show "posted rws n (snd s)" if "posting_serves cancelled (posting_offset rws) n T T s"
    using that step rest unfolding posted_def posting_serves_def by metis
qed

lemma fill_postings_ok:
  assumes post: "postable rws n" and run: "\<forall>p. \<not> cancelled p"
  shows "\<exists>s'. fill_postings threads schedule cancelled (map (laid_document rws) [0..<length rws]) (concat rws)
      (map (posting_offset rws) [0..<n], replicate (posting_offset rws n) 0) = Inr s' \<and> posted rws n (snd s')"
proof -
  let ?documents = "map (laid_document rws) [0..<length rws]"
  let ?start = "(map (posting_offset rws) [0..<n], replicate (posting_offset rws n) 0)"
  have enum: "enumerated ?documents = map (\<lambda>d. (d, laid_document rws d)) [0..<length rws]" by (simp add: enumerated_map)
  show ?thesis
  proof (cases "progress_batch_len \<le> length ?documents \<and> 1 < threads")
    case True
    let ?chunks = "chunks_of progress_batch_len (enumerated ?documents)"
    let ?calls = "\<lambda>(k, chunk). PollPostings (PostingsPoll k) # concat (map (term_calls rws) (map fst chunk))"
    have chunks: "concat ?chunks = enumerated ?documents" by (rule concat_chunks_of) (simp add: progress_batch_len_def)
    have entry: "snd e = laid_document rws (fst e) \<and> fst e < length rws" if "chunk \<in> set ?chunks" "e \<in> set chunk" for chunk e
    proof -
      have "e \<in> set (concat ?chunks)" using that unfolding set_concat by blast
      then have "e \<in> set (enumerated ?documents)" unfolding chunks .
      then show ?thesis unfolding enum by auto
    qed
    have calls: "chunk_calls (concat rws) c = Inr (?calls c)" if c: "c \<in> set (enumerated ?chunks)" for c
    proof -
      have chunk: "snd c \<in> set ?chunks" using c in_set_enumerated [of "fst c" "snd c" ?chunks] by simp
      have "document_calls (concat rws) e = Inr (term_calls rws (fst e))" if "e \<in> set (snd c)" for e
        using entry [OF chunk that] document_calls_ok [OF post, of "fst e"] by (cases e) simp
      then have "res_collect (map (document_calls (concat rws)) (snd c)) = Inr (map (\<lambda>e. term_calls rws (fst e)) (snd c))"
        by (intro res_collect_map)
      then show ?thesis by (simp add: chunk_calls_def case_prod_unfold comp_def)
    qed
    let ?tasks = "map ?calls (enumerated ?chunks)"
    let ?T = "mset (concat ?tasks)"
    have "posts (mset (concat (map ?calls cs))) t = posts (mset (concat (map (term_calls rws) (map fst (concat (map snd cs)))))) t"
      for cs :: "(nat \<times> (nat \<times> prepared_document) list) list" and t
      by (induction cs) (simp_all add: case_prod_unfold comp_def)
    then have "posts ?T t = mset (filter (\<lambda>d. t \<in> fst ` set (rws ! d)) [0..<length rws])" for t
      using posts_term_calls [OF post, of "[0..<length rws]" t] chunks by (simp add: enum comp_def)
    moreover have "\<forall>c \<in># ?T. call_ok cancelled n c"
    proof
      fix c assume "c \<in># ?T"
      then obtain e where e: "e \<in> set (enumerated ?chunks)" "c \<in> set (?calls e)"
        unfolding set_mset_mset set_concat set_map by blast
      have chunk: "snd e \<in> set ?chunks" using e(1) in_set_enumerated [of "fst e" "snd e" ?chunks] by simp
      from e(2) consider "c = PollPostings (PostingsPoll (fst e))" | x where "x \<in> set (snd e)" "c \<in> set (term_calls rws (fst x))"
        by (auto simp: case_prod_unfold)
      then show "call_ok cancelled n c"
      proof cases
        case 1
        then show ?thesis using run by (simp add: call_ok_def)
      next
        case 2
        then show ?thesis using term_calls_ok [OF post] entry [OF chunk] by blast
      qed
    qed
    ultimately have T: "posting_serves cancelled (posting_offset rws) n ?T {#} ?start"
      "\<And>s. posting_serves cancelled (posting_offset rws) n ?T ?T s \<Longrightarrow> posted rws n (snd s)"
      using posting_start [OF post, of ?T cancelled] by blast+
    from postings.run_tasks_ok [OF T(1), of "schedule (PostingsPoll 0)"] obtain rss s' where
      run_tasks: "run_tasks (posting_exec cancelled) (schedule (PostingsPoll 0)) ?tasks ?start = (map Inr rss, s')"
      and served: "posting_serves cancelled (posting_offset rws) n ?T ?T s'" by blast
    have "par_collect (map (chunk_calls (concat rws)) (enumerated ?chunks)) = Inr ?tasks" by (rule par_collect_map) (rule calls)
    moreover have "par_collect (map Inr rss) = Inr rss" using par_collect_map [of rss Inr id] by simp
    ultimately show ?thesis using True run_tasks T(2) [OF served] by (simp add: fill_postings_def)
  next
    case False
    let ?T = "mset (concat (map (term_calls rws) [0..<length rws]))"
    have "posts ?T t = mset (filter (\<lambda>d. t \<in> fst ` set (rws ! d)) [0..<length rws])" for t
      by (rule posts_term_calls [OF post]) simp
    moreover have "\<forall>c \<in># ?T. call_ok cancelled n c" using term_calls_ok [OF post] by auto
    ultimately have T: "posting_serves cancelled (posting_offset rws) n ?T {#} ?start"
      "\<And>s. posting_serves cancelled (posting_offset rws) n ?T ?T s \<Longrightarrow> posted rws n (snd s)"
      using posting_start [OF post, of ?T cancelled] by blast+
    have "\<exists>s'. res_fold (post_document cancelled (concat rws)) (map (\<lambda>d. (d, laid_document rws d)) [0..<k]) ?start = Inr s' \<and>
        posting_serves cancelled (posting_offset rws) n ?T (mset (concat (map (term_calls rws) [0..<k]))) s'" if "k \<le> length rws" for k
      using that
    proof (induction k)
      case 0
      then show ?case using T(1) by simp
    next
      case (Suc k)
      then obtain s1 where s1: "res_fold (post_document cancelled (concat rws)) (map (\<lambda>d. (d, laid_document rws d)) [0..<k]) ?start = Inr s1"
        "posting_serves cancelled (posting_offset rws) n ?T (mset (concat (map (term_calls rws) [0..<k]))) s1" by auto
      have "[0..<length rws] = [0..<Suc k] @ [Suc k..<length rws]" using upt_add_eq_append [of 0 "Suc k" "length rws - Suc k"] Suc.prems by (simp only: le_add_diff_inverse zero_le)
      then have "mset (concat (map (term_calls rws) [0..<k])) + mset (term_calls rws k) \<subseteq># ?T" by (simp del: upt_Suc) simp
      from postings.calls_ok [OF s1(2) this] obtain s2 where
        "res_fold (\<lambda>call s. res_bind (posting_exec cancelled call s) (\<lambda>(_, s). Inr s)) (term_calls rws k) s1 = Inr s2"
        "posting_serves cancelled (posting_offset rws) n ?T (mset (concat (map (term_calls rws) [0..<k])) + mset (term_calls rws k)) s2" by blast
      moreover from this have "post_document cancelled (concat rws) (k, laid_document rws k) s1 = Inr s2"
        using document_calls_ok [OF post, of k] Suc.prems run by (simp add: post_document_def check_cancelled_def)
      ultimately show ?case using s1(1) by (simp add: res_fold_append)
    qed
    from this [OF order_refl] obtain s' where s': "res_fold (post_document cancelled (concat rws)) (enumerated ?documents) ?start = Inr s'"
      "posting_serves cancelled (posting_offset rws) n ?T ?T s'" unfolding enum by blast
    show ?thesis unfolding fill_postings_def if_not_P [OF False] using s'(1) T(2) [OF s'(2)] by blast
  qed
qed

lemma build_term_postings_ok:
  assumes post: "postable rws n" and n: "n < 2 ^ 32" and run: "\<forall>p. \<not> cancelled p"
  shows "\<exists>csr. build_term_postings threads schedule cancelled (map (laid_document rws) [0..<length rws]) (concat rws) (map (row_frequency rws) [0..<n]) =
      Inr csr \<and> (\<forall>t. set (dense_row csr t) = {d. d < length rws \<and> t \<in> fst ` set (rws ! d)})"
proof -
  have total: "posting_offset rws n < 2 ^ 32" using posting_offset_total [of rws n] post by (simp add: postable_def)
  obtain s' where fill: "fill_postings threads schedule cancelled (map (laid_document rws) [0..<length rws]) (concat rws)
      (map (posting_offset rws) [0..<n], replicate (posting_offset rws n) 0) = Inr s'" "posted rws n (snd s')"
    using fill_postings_ok [OF post run] by blast
  let ?csr = "\<lparr>dc_offsets = map (posting_offset rws) [0..<Suc n], dc_values = snd s'\<rparr>"
  have "build_term_postings threads schedule cancelled (map (laid_document rws) [0..<length rws]) (concat rws) (map (row_frequency rws) [0..<n]) = Inr ?csr"
    using n add_offsets_ok [OF total] fill(1) by (simp add: build_term_postings_def u32_try_from_def case_prod_unfold)
  moreover have "set (dense_row ?csr t) = {d. d < length rws \<and> t \<in> fst ` set (rws ! d)}" for t
  proof (cases "t < n")
    case True
    let ?a = "posting_offset rws t" and ?b = "posting_offset rws (Suc t)"
    have le: "?a \<le> ?b" "?b \<le> length (snd s')"
      using posting_offset_mono [of t "Suc t" rws] posting_offset_mono [of "Suc t" n rws] True fill(2) by (simp_all add: posted_def)
    have "idx (map (posting_offset rws) [0..<Suc n]) t = Some ?a" "idx (map (posting_offset rws) [0..<Suc n]) (t + 1) = Some ?b"
      using True by (simp_all add: idx_def nth_append del: upt_Suc)
    then have "dense_row ?csr t = take (?b - ?a) (drop ?a (snd s'))"
      using le by (simp add: dense_row_def dense_values_for_def Csr.slice_def)
    also have "\<dots> = map ((!) (snd s')) [?a..<?b]" using le by (intro nth_equalityI) simp_all
    finally have "mset (dense_row ?csr t) = mset (filter (\<lambda>d. t \<in> fst ` set (rws ! d)) [0..<length rws])"
      using fill(2) True unfolding posted_def by metis
    from arg_cong [OF this, of set_mset] show ?thesis by auto
  next
    case False
    then have "idx (map (posting_offset rws) [0..<Suc n]) (t + 1) = None" by (simp add: idx_def)
    then have "dense_row ?csr t = []"
      by (cases "idx (map (posting_offset rws) [0..<Suc n]) t") (simp_all add: dense_row_def dense_values_for_def)
    moreover have "t \<notin> fst ` set (rws ! d)" if "d < length rws" for d
      using post nth_mem [OF that] False by (auto simp: postable_def)
    ultimately show ?thesis by auto
  qed
  ultimately show ?thesis by blast
qed

end
