(* ===== verification/MetaBuilt.thy ===== *)
theory MetaBuilt
  imports MetaPostings
begin

text \<open>
  The finished metadata index: what \<open>finalize_metadata_index\<close> leaves in the store, and what the query over
  it finds, in terms of the records that were loaded.
\<close>

section \<open>The contents of the index\<close>

text \<open>The tokens of all records, counted per record, fit into a \<open>u32\<close>.\<close>

definition metadata_tokens_small :: "(nat \<Rightarrow> bool) \<Rightarrow> 'm resident_store \<Rightarrow> bool" where
  "metadata_tokens_small alphanumeric st \<longleftrightarrow>
     length (concat (map (\<lambda>r. document_tokens alphanumeric (mr_canonical_json r))
       (concat (map (contract_records st) [0..<length (rs_contracts st)])))) < 2 ^ 32"

text \<open>
  \<open>docs\<close>, \<open>keys\<close> and \<open>names\<close> are the documents, tokens and terms in the order of their ids.  The order depends
  on the timing of the threads, everything else does not.
\<close>

definition metadata_contents ::
  "(nat \<Rightarrow> bool) \<Rightarrow> 'm resident_store \<Rightarrow> metadata_index \<Rightarrow> string list \<Rightarrow> string list \<Rightarrow> string list \<Rightarrow> bool" where
  "metadata_contents alphanumeric st index docs keys names \<longleftrightarrow>
     distinct docs \<and> distinct keys \<and> distinct names \<and>
     set docs = (\<Union>c \<in> {..<length (rs_contracts st)}. contract_texts st c) \<and> length (mi_documents index) = length docs \<and>
     (\<forall>c < length (rs_contracts st). mi_contract_is_evm index ! c = contract_evm st c \<and>
        list_all2 (\<lambda>r a. an_document_id a < length docs \<and> docs ! an_document_id a = mr_canonical_json r \<and>
            an_token_key a < length keys \<and> keys ! an_token_key a = token_text (contract_evm st c) r)
          (contract_records st c) (anchors_at index c)) \<and>
     (\<forall>d < length docs. dense_row (mi_doc_contracts index) d = text_holders st (length (rs_contracts st)) (docs ! d)) \<and>
     (\<forall>d < length docs. terms_sorted (terms_at index d) \<and>
        (\<exists>start. mi_documents index ! d = set_term_start start (from_compact_terms (terms_at index d))) \<and>
        (\<forall>t f. (t, f) \<in> set (terms_at index d) \<longleftrightarrow>
           t < length names \<and> names ! t \<in> set (document_tokens alphanumeric (docs ! d)) \<and>
           f = capped_count (document_tokens alphanumeric (docs ! d)) (names ! t))) \<and>
     (\<forall>t. posted_documents index t = {d. d < length docs \<and> t \<in> fst ` set (terms_at index d)})"

lemma sum_distinct_le:
  fixes f :: "'a \<Rightarrow> nat"
  assumes "distinct xs" "set xs \<subseteq> set ys"
  shows "sum_list (map f xs) \<le> sum_list (map f ys)"
proof -
  have "sum f (set ys) \<le> sum_list (map f ys)" for ys :: "'a list"
    by (induction ys) (auto simp: sum.insert_if)
  moreover have "sum_list (map f xs) = sum f (set xs)" using assms(1) by (simp add: sum_list_distinct_conv_sum_set)
  moreover have "sum f (set xs) \<le> sum f (set ys)" using assms(2) by (intro sum_mono2) auto
  ultimately show ?thesis by (metis le_trans)
qed

lemma corpus_small_records:
  assumes source: "metadata_source_ok st" and small: "metadata_tokens_small alphanumeric st"
    and docs: "distinct docs" "set docs = (\<Union>c \<in> {..<length (rs_contracts st)}. contract_texts st c)"
  shows "corpus_small alphanumeric docs"
proof -
  let ?records = "concat (map (contract_records st) [0..<length (rs_contracts st)])"
  have sub: "set docs \<subseteq> set (map mr_canonical_json ?records)" unfolding docs(2) contract_texts_def by fastforce
  have "length docs \<le> length ?records" using sum_distinct_le [OF docs(1) sub, of "\<lambda>_. 1"] by (simp add: sum_list_triv comp_def del: map_concat)
  then have "length docs < 2 ^ 32" using source unfolding metadata_source_ok_def by linarith
  moreover have "length (concat (map (document_tokens alphanumeric) docs)) < 2 ^ 32"
    using sum_distinct_le [OF docs(1) sub, of "\<lambda>s. length (document_tokens alphanumeric s)"] small
    by (simp add: metadata_tokens_small_def length_concat comp_def del: map_concat)
  ultimately show ?thesis by (simp add: corpus_small_def)
qed

lemma few_holders:
  assumes "distinct docs"
  shows "length (concat (map (\<lambda>d. text_holders st n (docs ! d)) [0..<length docs])) \<le> length (concat (map (contract_records st) [0..<n]))"
proof -
  have count: "length (filter P [0..<k]) = (\<Sum>i < k. if P i then 1 else 0)" for P and k :: nat
    by (induction k) auto
  have "card {d. d < length docs \<and> docs ! d \<in> contract_texts st c} \<le> length (contract_records st c)" for c
  proof -
    have "inj_on ((!) docs) {d. d < length docs \<and> docs ! d \<in> contract_texts st c}"
      using assms by (auto simp: inj_on_def nth_eq_iff_index_eq)
    then have "card {d. d < length docs \<and> docs ! d \<in> contract_texts st c} \<le> card (contract_texts st c)"
      by (rule card_inj_on_le) (auto simp: contract_texts_def)
    also have "\<dots> \<le> length (contract_records st c)"
      unfolding contract_texts_def using card_image_le [OF finite_set] card_length le_trans by blast
    finally show ?thesis .
  qed
  moreover have "(\<Sum>d < length docs. if docs ! d \<in> contract_texts st c then 1 else 0) = card {d. d < length docs \<and> docs ! d \<in> contract_texts st c}" for c
    by (simp add: sum.If_cases Int_def)
  ultimately have each: "(\<Sum>d < length docs. if docs ! d \<in> contract_texts st c then 1 else 0) \<le> length (contract_records st c)" for c
    by simp
  have "length (concat (map (\<lambda>d. text_holders st n (docs ! d)) [0..<length docs])) =
      (\<Sum>d < length docs. \<Sum>c < n. if docs ! d \<in> contract_texts st c then 1 else 0)"
    by (simp add: length_concat comp_def text_holders_def count interv_sum_list_conv_sum_set_nat atLeast0LessThan)
  also have "\<dots> = (\<Sum>c < n. \<Sum>d < length docs. if docs ! d \<in> contract_texts st c then 1 else 0)" by (rule sum.swap)
  also have "\<dots> \<le> (\<Sum>c < n. length (contract_records st c))" by (intro sum_mono each)
  also have "\<dots> = length (concat (map (contract_records st) [0..<n]))"
    by (simp add: length_concat comp_def interv_sum_list_conv_sum_set_nat atLeast0LessThan)
  finally show ?thesis .
qed

lemma terms_at_rows:
  assumes "mi_documents index = map (laid_document rws) [0..<length rws]" "mi_terms index = concat rws" "d < length rws"
    "length (concat rws) < 2 ^ 32"
  shows "terms_at index d = rws ! d"
  using laid_document_terms [OF assms(3,4)] assms(1-3)
  by (auto simp: terms_at_def document_terms_in_def Csr.slice_def or_panic_def Let_def split: if_splits)

lemma finalize_metadata_ok:
  assumes source: "metadata_source_ok st" and small: "metadata_tokens_small alphanumeric st" and run: "\<forall>p. \<not> cancelled p"
  shows "\<exists>index docs keys names. finalize_metadata_index hash alphanumeric threads schedule cancelled st =
      Inr ((clear_metadata_anchors st)\<lparr>rs_metadata_index := index\<rparr>) \<and>
    meta_ok index (length (rs_contracts st)) \<and> metadata_contents alphanumeric st index docs keys names"
proof -
  let ?n = "length (rs_contracts st)"
  obtain cg where cg: "metadata_catalog_of hash schedule cancelled st = Inr cg" "catalog_inv hash st ?n cg" "catalog_holds hash st ?n cg"
    using metadata_catalog_ok [OF source run] by blast
  have interners: "interner_ok hash (mc_canonical cg)" "interner_ok hash (mc_tokens cg)" using cg(2) by (simp_all add: catalog_inv_def)
  obtain docs where docs: "into_indexed_values (mc_canonical cg) = Inr docs" "distinct docs" "length docs = ti_next_id (mc_canonical cg)"
    "\<forall>s i. term_id hash (mc_canonical cg) s = Some i \<longleftrightarrow> i < length docs \<and> docs ! i = s"
    using into_indexed_values_ok [OF interners(1)] by blast
  obtain keys where keys: "distinct keys" "\<forall>s i. term_id hash (mc_tokens cg) s = Some i \<longleftrightarrow> i < length keys \<and> keys ! i = s"
    using into_indexed_values_ok [OF interners(2)] by blast
  have set_docs: "set docs = (\<Union>c \<in> {..<?n}. contract_texts st c)"
  proof -
    have "set docs = dom (term_id hash (mc_canonical cg))" using docs(4) by (auto simp: in_set_conv_nth dom_def)
    then show ?thesis using cg(3) by (simp add: catalog_holds_def)
  qed
  have corpus_small: "corpus_small alphanumeric docs" using corpus_small_records [OF source small docs(2) set_docs] .
  obtain corpus where corpus: "metadata_corpus_of hash alphanumeric schedule cancelled docs = Inr corpus" "corpus_inv hash alphanumeric docs corpus"
    using metadata_corpus_ok [OF run corpus_small] by blast
  then obtain rws where rws: "corpus_rows hash alphanumeric docs corpus rws" by (auto simp: corpus_inv_def)
  let ?ti = "mk_interner corpus"
  have ti: "interner_ok hash ?ti" using rws by (simp add: corpus_rows_def)
  obtain names where names: "distinct names" "length names = ti_next_id ?ti"
    "\<forall>s i. term_id hash ?ti s = Some i \<longleftrightarrow> i < length names \<and> names ! i = s"
    using into_indexed_values_ok [OF ti] by blast
  have each: "list_all2 (\<lambda>canonical. doc_row hash ?ti (document_tokens alphanumeric canonical)) docs rws" using rws by (simp add: corpus_rows_def)
  have len: "length rws = length docs" using list_all2_lengthD [OF each] by simp
  have row: "doc_row hash ?ti (document_tokens alphanumeric (docs ! d)) (rws ! d)" if "d < length docs" for d using list_all2_nthD [OF each that] .
  have few: "length (concat rws) < 2 ^ 32"
  proof -
    have "length (concat rws) \<le> length (concat (map (document_tokens alphanumeric) docs))"
      using each by (induction rule: list_all2_induct) (auto simp: doc_row_def)
    then show ?thesis using corpus_small by (simp add: corpus_small_def)
  qed
  have "postable rws (ti_next_id ?ti)"
    unfolding postable_def
  proof (intro conjI ballI few)
    show "length rws < 2 ^ 32" using corpus_small by (simp add: len corpus_small_def)
    fix r assume "r \<in> set rws"
    then obtain d where d: "d < length docs" "r = rws ! d" by (auto simp: in_set_conv_nth len)
    show "distinct (map fst r)" using row [OF d(1)] by (simp add: d(2) doc_row_def terms_sorted_def strict_sorted_iff)
    show "fst ` set r \<subseteq> {..<ti_next_id ?ti}" using doc_row_range [OF ti row [OF d(1)]] by (auto simp: d(2))
  qed
  moreover have "ti_next_id ?ti < 2 ^ 32"
  proof -
    have "dom (term_id hash ?ti) = set (concat (map (document_tokens alphanumeric) docs))" using corpus(2) by (simp add: corpus_inv_def)
    then have "ti_next_id ?ti \<le> length (concat (map (document_tokens alphanumeric) docs))"
      using term_id_count(1) [OF ti] card_length by metis
    then show ?thesis using corpus_small by (simp add: corpus_small_def)
  qed
  ultimately obtain postings where postings: "build_term_postings threads schedule cancelled (map (laid_document rws) [0..<length rws])
      (concat rws) (map (row_frequency rws) [0..<ti_next_id ?ti]) = Inr postings"
    "\<forall>t. set (dense_row postings t) = {d. d < length rws \<and> t \<in> fst ` set (rws ! d)}"
    using build_term_postings_ok [OF _ _ run] by blast
  have parts: "mk_documents corpus = map (laid_document rws) [0..<length rws]" "mk_terms corpus = concat rws"
    "mk_frequency corpus = map (row_frequency rws) [0..<ti_next_id ?ti]"
    using rws by (simp_all add: corpus_rows_def laid_document_def)
  let ?hl = "holder_list (mc_first cg, mc_extras cg)"
  have first: "length (mc_first cg) = length docs" using cg(2) docs(3) by (simp add: catalog_inv_def)
  have holders: "?hl d = text_holders st ?n (docs ! d)" if "d < length docs" for d
    using cg(2) docs(4) that unfolding catalog_inv_def by blast
  have "from_first_and_extras (mc_first cg) (mc_extras cg) = Inr (dense_of (map ?hl [0..<length (mc_first cg)]))"
  proof (rule lay_holders_ok)
    show "\<forall>d < length (mc_first cg). ?hl d \<noteq> []"
    proof (intro allI impI)
      fix d assume "d < length (mc_first cg)"
      then have d: "d < length docs" by (simp add: first)
      have "docs ! d \<in> set docs" using d by simp
      then obtain c where "c < ?n" "docs ! d \<in> contract_texts st c" unfolding set_docs by blast
      then show "?hl d \<noteq> []" unfolding holders [OF d] text_holders_def by (auto simp: filter_empty_conv)
    qed
    show "length (mc_first cg) < 2 ^ 32" using corpus_small by (simp add: first corpus_small_def)
    have "map ?hl [0..<length (mc_first cg)] = map (\<lambda>d. text_holders st ?n (docs ! d)) [0..<length docs]"
      using holders by (simp add: first)
    then show "length (concat (map ?hl [0..<length (mc_first cg)])) < 2 ^ 32"
      using few_holders [OF docs(2), of st ?n] source by (simp add: metadata_source_ok_def)
  qed
  then have doc_contracts: "from_first_and_extras (mc_first cg) (mc_extras cg) = Inr (dense_of (map ?hl [0..<length docs]))" by (simp add: first)
  obtain arows where arows: "catalog_rows hash (mc_canonical cg, mc_tokens cg) st ?n arows"
    "\<lparr>dc_offsets = mc_offsets cg, dc_values = mc_anchors cg\<rparr> = dense_of arows" using cg(2) unfolding catalog_inv_def by blast
  obtain index where index: "index =
      \<lparr>mi_documents = mk_documents corpus, mi_terms = mk_terms corpus, mi_doc_contracts = dense_of (map ?hl [0..<length docs]),
       mi_contract_anchors = \<lparr>dc_offsets = mc_offsets cg, dc_values = mc_anchors cg\<rparr>,
       mi_contract_is_evm = mc_is_evm cg, mi_term_postings = postings\<rparr>" by blast
  have run_all: "finalize_metadata_index hash alphanumeric threads schedule cancelled st =
      Inr ((clear_metadata_anchors st)\<lparr>rs_metadata_index := index\<rparr>)"
    using cg(1) docs(1) corpus(1) postings(1) doc_contracts
    by (simp add: finalize_metadata_index_def parts index del: metadata_index.update_convs)
  have fields: "mi_documents index = map (laid_document rws) [0..<length rws]" "mi_terms index = concat rws"
    "mi_contract_anchors index = dense_of arows" "mi_contract_is_evm index = mc_is_evm cg" "mi_term_postings index = postings"
    "mi_doc_contracts index = dense_of (map ?hl [0..<length docs])"
    by (simp_all add: index parts arows(2))
  have anchors: "anchors_at index c = (if c < ?n then arows ! c else [])" for c
    using arows(1) by (simp add: anchors_at_def fields dense_row_of catalog_rows_def)
  have rel: "list_all2 (anchor_of hash (mc_canonical cg, mc_tokens cg) (contract_evm st c)) (contract_records st c) (anchors_at index c)"
    if "c < ?n" for c using arows(1) that by (simp add: anchors catalog_rows_def)
  have holder_row: "dense_row (mi_doc_contracts index) d = (if d < length docs then text_holders st ?n (docs ! d) else [])" for d
    using holders by (simp add: fields dense_row_of)
  have terms: "terms_at index d = rws ! d" if "d < length docs" for d
    using terms_at_rows [OF fields(1,2) _ few] that len by simp
  have evm: "length (mc_is_evm cg) = ?n" "\<forall>c < ?n. mc_is_evm cg ! c = contract_evm st c" using cg(2) by (simp_all add: catalog_inv_def)
  have "meta_ok index ?n"
    unfolding meta_ok_def
  proof (intro conjI allI impI ballI)
    show "dense_ok (mi_contract_anchors index) ?n" using dense_ok_of [of arows] arows(1) by (simp add: fields catalog_rows_def)
    show "length (mi_contract_is_evm index) = ?n" by (simp add: fields evm)
    show "an_document_id a < length (mi_documents index)" if c: "c < ?n" and a: "a \<in> set (dense_row (mi_contract_anchors index) c)" for c a
    proof -
      have "a \<in> set (anchors_at index c)" using a by (simp add: anchors_at_def)
      then obtain r where "anchor_of hash (mc_canonical cg, mc_tokens cg) (contract_evm st c) r a"
        using rel [OF c] by (auto simp: list_all2_conv_all_nth in_set_conv_nth)
      then show ?thesis using docs(4) by (simp add: fields anchor_of_def len)
    qed
    show "c < ?n" if "c \<in> set (dense_row (mi_doc_contracts index) d)" for c d
      using that by (auto simp: holder_row text_holders_def split: if_splits)
    show "pd_term_start document + pd_term_len document \<le> length (mi_terms index)" if document: "document \<in> set (mi_documents index)" for document
    proof -
      obtain d where d: "d < length rws" "document = laid_document rws d" using document by (auto simp: fields)
      from laid_document_terms [OF d(1) few] show ?thesis
        by (auto simp: d(2) fields document_terms_in_def Csr.slice_def or_panic_def split: if_splits)
    qed
  qed
  moreover have "metadata_contents alphanumeric st index docs keys names"
    unfolding metadata_contents_def
  proof (intro conjI allI impI)
    show "distinct docs" "distinct keys" "distinct names" by fact+
    show "set docs = (\<Union>c \<in> {..<?n}. contract_texts st c)" by fact
    show "length (mi_documents index) = length docs" by (simp add: fields len)
    show "mi_contract_is_evm index ! c = contract_evm st c" if "c < ?n" for c using evm(2) that by (simp add: fields)
    show "list_all2 (\<lambda>r a. an_document_id a < length docs \<and> docs ! an_document_id a = mr_canonical_json r \<and>
        an_token_key a < length keys \<and> keys ! an_token_key a = token_text (contract_evm st c) r) (contract_records st c) (anchors_at index c)"
      if "c < ?n" for c
      by (rule list_all2_mono [OF rel [OF that]]) (use docs(4) keys(2) in \<open>auto simp: anchor_of_def\<close>)
    show "dense_row (mi_doc_contracts index) d = text_holders st ?n (docs ! d)" if "d < length docs" for d using that by (simp add: holder_row)
    show "posted_documents index t = {d. d < length docs \<and> t \<in> fst ` set (terms_at index d)}" for t
      using postings(2) terms by (auto simp: posted_documents_def fields len)
    fix d assume d: "d < length docs"
    show "terms_sorted (terms_at index d)" using row [OF d] by (simp add: terms [OF d] doc_row_def)
    show "\<exists>start. mi_documents index ! d = set_term_start start (from_compact_terms (terms_at index d))"
      using d by (auto simp: fields len terms [OF d] laid_document_def)
    show "(t, f) \<in> set (terms_at index d) \<longleftrightarrow> t < length names \<and> names ! t \<in> set (document_tokens alphanumeric (docs ! d)) \<and>
        f = capped_count (document_tokens alphanumeric (docs ! d)) (names ! t)" for t f
      using row [OF d] names(3) by (auto simp: terms [OF d] doc_row_def)
  qed
  ultimately show ?thesis using run_all by blast
qed

text \<open>C36. For every interleaving of the threads, on either path and for every hash function, building the
  metadata index of a store whose counts fit into the id types succeeds and yields a well-formed index
  with exactly the loaded contents: each contract's anchors carry the ids of the documents and tokens of its
  records, each document lists its holders in ascending order and its terms with their counts, sorted by
  id, and each term the documents that contain it.  Of the store only the anchors are given up.\<close>

theorem metadata_index_built:
  assumes "metadata_source_ok st" "metadata_tokens_small alphanumeric st" "\<forall>p. \<not> cancelled p"
  shows "\<exists>index docs keys names. finalize_metadata_index hash alphanumeric threads schedule cancelled st =
      Inr ((clear_metadata_anchors st)\<lparr>rs_metadata_index := index\<rparr>) \<and>
    meta_ok index (length (rs_contracts st)) \<and> metadata_contents alphanumeric st index docs keys names"
  by (rule finalize_metadata_ok [OF assms])

section \<open>What the query finds in the records\<close>

text \<open>The records of two contracts that are compared: on EVM chains the first whose token both carry.\<close>

definition aligned_records ::
  "bool \<Rightarrow> metadata_record list \<Rightarrow> bool \<Rightarrow> metadata_record list \<Rightarrow> (metadata_record \<times> metadata_record) option" where
  "aligned_records left_is_evm ls right_is_evm rs =
     (case (ls, rs) of
        (l # _, r # _) \<Rightarrow>
          Some (unwrap_or (l, r)
            (if left_is_evm \<and> right_is_evm
             then first_some (\<lambda>l. map_option (Pair l) (List.find (\<lambda>r. token_text True r = token_text True l) rs)) ls else None))
      | _ \<Rightarrow> None)"

lemma find_related:
  "list_all2 R rs bs \<Longrightarrow> (\<And>r b. R r b \<Longrightarrow> P r = Q b) \<Longrightarrow> rel_option R (List.find P rs) (List.find Q bs)"
  by (induction rule: list_all2_induct) auto

lemma first_some_related:
  "list_all2 R ls as \<Longrightarrow> (\<And>l a. R l a \<Longrightarrow> rel_option S (f l) (g a)) \<Longrightarrow> rel_option S (first_some f ls) (first_some g as)"
proof (induction rule: list_all2_induct)
  case (Cons l ls a as)
  from Cons.prems [OF Cons.hyps(1)] Cons.IH [OF Cons.prems] show ?case by (cases "f l"; cases "g a") auto
qed simp

definition record_anchor :: "string list \<Rightarrow> string list \<Rightarrow> bool \<Rightarrow> metadata_record \<Rightarrow> anchor_ref \<Rightarrow> bool" where
  "record_anchor docs keys is_evm r a \<longleftrightarrow>
     an_document_id a < length docs \<and> docs ! an_document_id a = mr_canonical_json r \<and>
     an_token_key a < length keys \<and> keys ! an_token_key a = token_text is_evm r"

lemma select_aligned:
  assumes "distinct keys" "list_all2 (record_anchor docs keys e) ls as" "list_all2 (record_anchor docs keys e') rs bs"
    "aligned_records e ls e' rs = Some (l, r)"
  shows "\<exists>i j. select_documents e as e' bs = Some (i, j) \<and> i < length docs \<and> j < length docs \<and>
    docs ! i = mr_canonical_json l \<and> docs ! j = mr_canonical_json r"
proof -
  let ?rel = "\<lambda>(l, r) (i, j). i < length docs \<and> j < length docs \<and> docs ! i = mr_canonical_json l \<and> docs ! j = mr_canonical_json r"
  obtain l0 ls' r0 rs' where lists: "ls = l0 # ls'" "rs = r0 # rs'"
    using assms(4) by (auto simp: aligned_records_def split: list.splits)
  obtain a0 as' b0 bs' where anchors: "as = a0 # as'" "bs = b0 # bs'" and heads: "record_anchor docs keys e l0 a0" "record_anchor docs keys e' r0 b0"
    using assms(2,3) by (auto simp: lists list_all2_Cons1)
  have shared: "rel_option ?rel (first_some (\<lambda>l. map_option (Pair l) (List.find (\<lambda>r. token_text True r = token_text True l) rs)) ls)
      (first_some (\<lambda>left. map_option (\<lambda>right. (an_document_id left, an_document_id right))
         (List.find (\<lambda>right. an_token_key right = an_token_key left) bs)) as)" if evm: "e" "e'"
  proof (rule first_some_related [OF assms(2)])
    fix l a assume l: "record_anchor docs keys e l a"
    have "rel_option (record_anchor docs keys e') (List.find (\<lambda>r. token_text True r = token_text True l) rs)
        (List.find (\<lambda>right. an_token_key right = an_token_key a) bs)"
    proof (rule find_related [OF assms(3)])
      fix r b assume "record_anchor docs keys e' r b"
      then show "(token_text True r = token_text True l) = (an_token_key b = an_token_key a)"
        using l evm nth_eq_iff_index_eq [OF assms(1), of "an_token_key b" "an_token_key a"] by (auto simp: record_anchor_def)
    qed
    then show "rel_option ?rel (map_option (Pair l) (List.find (\<lambda>r. token_text True r = token_text True l) rs))
        (map_option (\<lambda>right. (an_document_id a, an_document_id right)) (List.find (\<lambda>right. an_token_key right = an_token_key a) bs))"
      using l by (auto simp: option.rel_map record_anchor_def elim!: option.rel_mono_strong)
  qed
  show ?thesis
  proof (cases "e \<and> e'")
    case True
    then show ?thesis using shared assms(4) heads
      by (auto simp: aligned_records_def select_documents_def lists anchors record_anchor_def unwrap_or_def simp del: first_some.simps
          split: option.splits elim!: option.rel_cases)
  next
    case False
    then show ?thesis using assms(4) heads
      by (auto simp: aligned_records_def select_documents_def lists anchors record_anchor_def)
  qed
qed

lemma copies_found:
  assumes ok: "meta_ok index (length (rs_contracts st))" and contents: "metadata_contents alphanumeric st index docs keys names"
    and seed: "seed < length (rs_contracts st)" and c: "c < length (rs_contracts st)" "c \<noteq> seed"
    and aligned: "aligned_records (contract_evm st seed) (contract_records st seed) (contract_evm st c) (contract_records st c) = Some (l, r)"
    and copy: "mr_canonical_json l = mr_canonical_json r" and st': "st' = (clear_metadata_anchors st)\<lparr>rs_metadata_index := index\<rparr>"
  shows "\<lparr>he_seed_contract = seed, he_candidate_contract = c, he_candidate_nft = None, he_dimension = Metadata, he_score = 1,
      he_primary_chain = ct_chain_id (rs_contracts st ! seed), he_secondary_chain = ct_chain_id (rs_contracts st ! c)\<rparr> \<in>
    set (metadata_edges st' seed threshold)"
proof -
  let ?n = "length (rs_contracts st)"
  have index: "rs_metadata_index st' = index" by (simp add: st')
  have chains: "ct_chain_id (rs_contracts st' ! k) = ct_chain_id (rs_contracts st ! k)" if "k < ?n" for k
    using that by (simp add: st' clear_metadata_anchors_def)
  have evm: "mi_contract_is_evm index ! k = contract_evm st k" and rel: "list_all2 (record_anchor docs keys (contract_evm st k)) (contract_records st k) (anchors_at index k)"
    if "k < ?n" for k
    using contents that unfolding metadata_contents_def record_anchor_def by blast+
  have distinct: "distinct docs" "distinct keys" using contents by (simp_all add: metadata_contents_def)
  obtain i j where select: "select_documents (contract_evm st seed) (anchors_at index seed) (contract_evm st c) (anchors_at index c) = Some (i, j)"
    and ij: "i < length docs" "j < length docs" "docs ! i = mr_canonical_json l" "docs ! j = mr_canonical_json r"
    using select_aligned [OF distinct(2) rel [OF seed] rel [OF c(1)] aligned] by blast
  have same: "i = j" using ij copy distinct(1) by (metis nth_eq_iff_index_eq)
  have edge: "metadata_edge st' seed threshold c = Some \<lparr>he_seed_contract = seed, he_candidate_contract = c, he_candidate_nft = None,
      he_dimension = Metadata, he_score = 1, he_primary_chain = ct_chain_id (rs_contracts st ! seed),
      he_secondary_chain = ct_chain_id (rs_contracts st ! c)\<rparr>"
    using select same evm [OF seed] evm [OF c(1)] chains [OF seed] chains [OF c(1)] by (simp add: metadata_edge_def index score_of_def Let_def)
  have i: "i \<in> an_document_id ` set (anchors_at index seed)" and j: "j \<in> an_document_id ` set (anchors_at index c)"
    using select_documents_known [OF select] by simp_all
  obtain a where a: "a \<in> set (anchors_at index c)" "j = an_document_id a" using j by blast
  obtain k where k: "k < length (anchors_at index c)" "a = anchors_at index c ! k" using a(1) by (auto simp: in_set_conv_nth)
  then have "k < length (contract_records st c)" "record_anchor docs keys (contract_evm st c) (contract_records st c ! k) a"
    using rel [OF c(1)] by (auto simp: list_all2_conv_all_nth)
  then have "docs ! i \<in> contract_texts st c" using a(2) same nth_mem by (fastforce simp: record_anchor_def contract_texts_def)
  then have "c \<in> holders_of index i"
    using contents ij(1) c(1) by (auto simp: metadata_contents_def holders_of_def text_holders_def)
  then have "c \<in> metadata_candidates index seed threshold" using i c(2) by (auto simp: metadata_candidates_def Let_def)
  moreover have "finite (metadata_candidates index seed threshold)"
    by (rule finite_subset [of _ "{..<?n}"]) (auto intro: candidates_range(1) [OF ok])
  ultimately show ?thesis
    unfolding metadata_edges_def index in_map_filter using edge by (intro bexI [of _ c]) simp_all
qed

text \<open>C37. No copied metadata is missed: for every interleaving of the threads that build the index, every number of
  threads that answer the query, every threshold and every scratch of earlier queries, a contract whose
  aligned record has the same canonical metadata as the seed's is reported, with score 1.\<close>

theorem metadata_copies_found:
  assumes "metadata_source_ok st" "metadata_tokens_small alphanumeric st" "\<forall>p. \<not> cancelled p" "\<forall>p. \<not> stopped p"
    "seed < length (rs_contracts st)" "c < length (rs_contracts st)" "c \<noteq> seed" "scratch_ok scratch"
    "aligned_records (contract_evm st seed) (contract_records st seed) (contract_evm st c) (contract_records st c) = Some (l, r)"
    "mr_canonical_json l = mr_canonical_json r"
  shows "\<exists>st' graph scratch'. finalize_metadata_index hash alphanumeric threads schedule cancelled st = Inr st' \<and>
    query_metadata_for_seed_with_scratch query_threads allowed stopped st' seed threshold (hit_graph_new, scratch) = Inr (graph, scratch') \<and>
    \<lparr>he_seed_contract = seed, he_candidate_contract = c, he_candidate_nft = None, he_dimension = Metadata, he_score = 1,
      he_primary_chain = ct_chain_id (rs_contracts st ! seed), he_secondary_chain = ct_chain_id (rs_contracts st ! c)\<rparr> \<in> set (hg_edges graph)"
proof -
  obtain index docs keys names where build: "finalize_metadata_index hash alphanumeric threads schedule cancelled st =
      Inr ((clear_metadata_anchors st)\<lparr>rs_metadata_index := index\<rparr>)" (is "_ = Inr ?st'")
    and ok: "meta_ok index (length (rs_contracts st))" and contents: "metadata_contents alphanumeric st index docs keys names"
    using finalize_metadata_ok [OF assms(1-3)] by blast
  have len: "length (rs_contracts ?st') = length (rs_contracts st)" by (simp add: clear_metadata_anchors_def)
  have ok': "meta_ok (rs_metadata_index ?st') (length (rs_contracts ?st'))" unfolding len using ok by simp
  have small: "length (rs_contracts ?st') \<le> 2 ^ 32" unfolding len using assms(1) by (simp add: metadata_source_ok_def)
  have seed: "seed < length (rs_contracts ?st')" unfolding len by (rule assms(5))
  from query_metadata_eq [OF ok' small seed assms(4,8)]
  obtain scratch' where query: "query_metadata_for_seed_with_scratch query_threads allowed stopped ?st' seed threshold (hit_graph_new, scratch) =
      Inr (hit_graph_new\<lparr>hg_edges := hg_edges hit_graph_new @ metadata_edges ?st' seed threshold\<rparr>, scratch')" by blast
  from copies_found [OF ok contents assms(5,6,7,9,10) refl, of threshold] build query show ?thesis by fastforce
qed

section \<open>Examples\<close>

text \<open>Two EVM contracts whose first tokens, \<open>7\<close> and \<open>007\<close>, carry the same document.\<close>

definition source_example :: metadata_store where
  "source_example = (store_new
       \<lparr>mi_documents = [], mi_terms = [], mi_doc_contracts = dense_new, mi_contract_anchors = dense_new,
        mi_contract_is_evm = [], mi_term_postings = dense_new\<rparr>)
     \<lparr>rs_chains := [''eth''], rs_evm_chains := [''eth''],
      rs_contracts := map (\<lambda>(i, token). \<lparr>ct_id = i, ct_chain_id = 0, ct_address = [], ct_nft_count = 1, ct_name_id = None,
        ct_metadata_by_token = [\<lparr>mr_token_id = token, mr_canonical_json = ''a b a'',
          mr_source_order = \<lparr>so_file_ordinal = 0, so_file_row_number = 0\<rparr>\<rparr>]\<rparr>) [(0, ''7''), (1, ''007'')]\<rparr>"

lemma source_example_ok:
  "metadata_source_ok source_example" "metadata_tokens_small (\<lambda>_. True) source_example"
  "length (rs_contracts source_example) = 2" "\<And>c. c < 2 \<Longrightarrow> contract_evm source_example c"
proof -
  show two: "length (rs_contracts source_example) = 2" by (simp add: source_example_def)
  have records: "contract_records source_example c = [\<lparr>mr_token_id = (if c = 0 then ''7'' else ''007''), mr_canonical_json = ''a b a'',
      mr_source_order = \<lparr>so_file_ordinal = 0, so_file_row_number = 0\<rparr>\<rparr>]" if "c < 2" for c
    using that by (auto simp: contract_records_def source_example_def less_2_cases_iff)
  have upto: "[0..<2] = [0, 1 :: nat]" by (simp add: upt_rec)
  show "metadata_source_ok source_example"
    unfolding metadata_source_ok_def two upto by (simp add: records) (auto simp: source_example_def less_2_cases_iff)
  have "document_tokens (\<lambda>_. True) ''a b a'' = [''a'', ''b'', ''a'']" by code_simp
  then show "metadata_tokens_small (\<lambda>_. True) source_example"
    unfolding metadata_tokens_small_def two upto by (simp add: records)
  show "contract_evm source_example c" if "c < 2" for c
    using that by (auto simp: contract_evm_def source_example_def store_is_evm_chain_def less_2_cases_iff)
qed

theorem metadata_index_built_witness:
  "\<exists>index docs keys names. finalize_metadata_index (\<lambda>_. 0) (\<lambda>_. True) 4 (\<lambda>_. [1, 0]) (\<lambda>_. False) source_example =
      Inr ((clear_metadata_anchors source_example)\<lparr>rs_metadata_index := index\<rparr>) \<and>
    meta_ok index (length (rs_contracts source_example)) \<and> metadata_contents (\<lambda>_. True) source_example index docs keys names"
  using metadata_index_built [OF source_example_ok(1,2), of "\<lambda>_. False" "\<lambda>_. 0" 4 "\<lambda>_. [1, 0]"] by simp

theorem metadata_copies_found_witness:
  "\<exists>st' graph scratch'. finalize_metadata_index (\<lambda>_. 0) (\<lambda>_. True) 4 (\<lambda>_. [1, 0]) (\<lambda>_. False) source_example = Inr st' \<and>
    query_metadata_for_seed_with_scratch 4 True (\<lambda>_. False) st' 0 (Fin (3 / 4)) (hit_graph_new, metadata_scratch_default) = Inr (graph, scratch') \<and>
    \<lparr>he_seed_contract = 0, he_candidate_contract = 1, he_candidate_nft = None, he_dimension = Metadata, he_score = 1,
      he_primary_chain = 0, he_secondary_chain = 0\<rparr> \<in> set (hg_edges graph)"
proof -
  let ?l = "\<lparr>mr_token_id = ''7'', mr_canonical_json = ''a b a'', mr_source_order = \<lparr>so_file_ordinal = 0, so_file_row_number = 0\<rparr>\<rparr>"
    and ?r = "\<lparr>mr_token_id = ''007'', mr_canonical_json = ''a b a'', mr_source_order = \<lparr>so_file_ordinal = 0, so_file_row_number = 0\<rparr>\<rparr>"
  have "contract_records source_example 0 = [?l]" "contract_records source_example 1 = [?r]"
    by (simp_all add: contract_records_def source_example_def)
  then have aligned: "aligned_records (contract_evm source_example 0) (contract_records source_example 0)
      (contract_evm source_example 1) (contract_records source_example 1) = Some (?l, ?r)"
    by (simp add: aligned_records_def unwrap_or_def split: option.split)
  have small: "0 < length (rs_contracts source_example)" "1 < length (rs_contracts source_example)" by (simp_all add: source_example_ok(3))
  have chains: "ct_chain_id (rs_contracts source_example ! 0) = 0" "ct_chain_id (rs_contracts source_example ! 1) = 0"
    by (simp_all add: source_example_def)
  have scratch: "scratch_ok metadata_scratch_default" by (simp add: scratch_ok_def metadata_scratch_default_def marked_def)
  from metadata_copies_found [OF source_example_ok(1,2) _ _ small _ scratch aligned, of "\<lambda>_. False" "\<lambda>_. False" "\<lambda>_. 0" 4 "\<lambda>_. [1, 0]" 4 True "Fin (3 / 4)"]
  show ?thesis using chains by simp
qed

end
