(* ===== verification/Candidate.thy ===== *)
theory Candidate
  imports StoreInvariant Attribution Lifecycle Economics Behaviors
begin

text \<open>
  The analysis of one candidate (\<open>src/analysis2/crates/core/src/analysis/mod.rs\<close>): how the
  detectors are composed, the projection of a finished analysis to a scope of seed relations, the
  completeness of the evidence, and what is released before the summary.

  \<open>rayon::join\<close> and \<open>par_sort_by\<close> compute the values of their sequential counterparts: the model has
  one branch for both.  \<open>order\<close> is the traversal order of a hash map inside \<open>compute_economics\<close>.
  \<open>analysis_timestamp\<close> is a field of the configuration, the clock only its default.
\<close>

section \<open>The result\<close>

record candidate_analysis =
  ca_contract_id :: nat
  ca_chain :: string
  ca_address :: string
  ca_legit :: legit_classification
  ca_legit_by_seed :: "(string \<times> legit_classification) list"
  ca_attribution :: "(string \<times> address_attribution) list"
  ca_lifecycle :: lifecycle_facts
  ca_value_flow :: value_flow_facts
  ca_behaviors :: behavior_facts
  ca_behavior_instances :: "behavior_instance list"
  ca_economics :: economic_facts
  ca_economics_quality :: economics_quality
  ca_evidence_quality :: evidence_quality
  ca_collection_nft_count :: "nat option"
  ca_collection_nft_count_complete :: bool
  ca_analysis_timestamp :: int

definition default_lifecycle :: lifecycle_facts where
  "default_lifecycle =
     \<lparr>lf_deployment_timestamp = None, lf_first_activity_timestamp = None, lf_first_mint_timestamp = None,
      lf_first_transfer_timestamp = None, lf_first_sale_timestamp = None, lf_first_victim_timestamp = None,
      lf_deployment_to_first_transfer_seconds = None, lf_deployment_to_first_sale_seconds = None,
      lf_deployment_to_first_victim_seconds = None, lf_first_activity_to_first_victim_seconds = None,
      lf_first_victim_holding_seconds = None\<rparr>"

definition default_economics_quality :: economics_quality where
  "default_economics_quality = \<lparr>eq_gas = NotRequested, eq_value_flows = NotRequested, eq_notes = []\<rparr>"

type_synonym relations = "(string \<times> legit_signals) list"

definition classify_relations :: "relations \<Rightarrow> (string \<times> legit_classification) list" where
  "classify_relations = map (\<lambda>(key, signals). (key, classify signals))"

definition fully_legit :: "(string \<times> legit_classification) list \<Rightarrow> bool" where
  "fully_legit by_seed \<longleftrightarrow> by_seed \<noteq> [] \<and> (\<forall>(key, relation) \<in> set by_seed. lc_is_legit_duplicate relation)"

section \<open>Operations\<close>

definition analyze_candidate ::
  "gas_order \<Rightarrow> 'm resident_store \<Rightarrow> nat \<Rightarrow> evidence_bundle \<Rightarrow> paper_config \<Rightarrow> candidate_analysis result" where
  "analyze_candidate order st contract ev cfg =
     (case idx (rs_contracts st) contract of
        None \<Rightarrow> invalid (''unknown contract id '' @ print_decimal contract)
      | Some contract_row \<Rightarrow>
          if eb_contract_id ev \<noteq> contract
          then invalid (''evidence contract_id '' @ print_decimal (eb_contract_id ev) @ '' != requested '' @ print_decimal contract)
          else
            let legit = classify (eb_legit ev);
                legit_by_seed = classify_relations (eb_relation_legit ev);
                result = (\<lambda>chain attribution lifecycle value_flow behaviors instances economics quality.
                  \<lparr>ca_contract_id = contract, ca_chain = chain, ca_address = ct_address contract_row,
                   ca_legit = legit, ca_legit_by_seed = legit_by_seed, ca_attribution = attribution,
                   ca_lifecycle = lifecycle, ca_value_flow = value_flow, ca_behaviors = behaviors,
                   ca_behavior_instances = instances, ca_economics = economics, ca_economics_quality = quality,
                   ca_evidence_quality = eb_quality ev, ca_collection_nft_count = eb_collection_nft_count ev,
                   ca_collection_nft_count_complete = eb_collection_nft_count_complete ev,
                   ca_analysis_timestamp = pc_analysis_timestamp cfg\<rparr>)
            in if fully_legit legit_by_seed
               then res_bind (or_panic (chain_name st (ct_chain_id contract_row))) (\<lambda>chain.
                 Inr (result chain [] default_lifecycle default_value_flow_facts default_behavior_facts []
                        default_economic_facts default_economics_quality))
               else
                 let transfer_graph = graph_from_transfers (eb_transfers ev)
                 in res_bind (or_panic (strongly_connected_components transfer_graph)) (\<lambda>transfer_sccs.
                    res_bind (or_panic (attribute_addresses ev transfer_graph)) (\<lambda>attribution.
                    let roles = ar_roles attribution;
                        lifecycle = build_lifecycle ev roles (pc_analysis_timestamp cfg);
                        value_flow = build_value_flow ev roles
                    in res_bind (or_panic (detect_behaviors ev transfer_graph transfer_sccs roles cfg)) (\<lambda>detected.
                    let (economics, economics_quality) = compute_economics order ev roles
                    in res_bind (or_panic (chain_name st (ct_chain_id contract_row))) (\<lambda>chain.
                    Inr (result chain (sort_key fst (ar_records attribution)) lifecycle value_flow (ba_facts detected)
                           (ba_instances detected) economics economics_quality))))))"

definition project_relation_signals :: "candidate_analysis \<Rightarrow> relations \<Rightarrow> candidate_analysis" where
  "project_relation_signals a relation_signals =
     (let (merged, any_complete) = merge_relations (map snd relation_signals);
          merged = (if is_legit_duplicate merged \<or> any_complete then merged\<lparr>ls_verification_complete := True\<rparr> else merged);
          projected = a\<lparr>ca_legit := classify merged, ca_legit_by_seed := classify_relations relation_signals\<rparr>
      in if fully_legit (ca_legit_by_seed projected)
         then projected\<lparr>ca_attribution := [], ca_lifecycle := default_lifecycle, ca_value_flow := default_value_flow_facts,
                ca_behaviors := default_behavior_facts, ca_behavior_instances := [],
                ca_economics := default_economic_facts, ca_economics_quality := default_economics_quality\<rparr>
         else projected)"

definition complete_status :: "evidence_status \<Rightarrow> bool" where
  "complete_status status \<longleftrightarrow> status = Complete \<or> status = Empty"

definition has_complete_evidence :: "candidate_analysis \<Rightarrow> bool" where
  "has_complete_evidence a =
     (let q = ca_evidence_quality a; e = ca_economics a
      in if q_excluded_non_nft q then True
         else if fully_legit (ca_legit_by_seed a)
         then (\<forall>(key, relation) \<in> set (ca_legit_by_seed a). lc_verification_complete relation)
         else
           let base_complete = complete_status (q_transfers q) \<and> complete_status (q_sales q) \<and> complete_status (q_holders q) \<and>
                 complete_status (q_prices q) \<and> complete_status (q_gas q) \<and> complete_status (q_value_flows q);
               chain_complete = (\<not> eq_ignore_ascii_case (ca_chain a) ''solana'' \<or>
                 complete_status (q_assets q) \<and> complete_status (q_histories q))
           in base_complete \<and> chain_complete \<and>
              ef_unpriced_sale_count e = 0 \<and> ef_amountless_sale_count e = 0 \<and> ef_assumed_stablecoin_peg_sale_count e = 0 \<and>
              ef_unpriced_operator_sale_proceeds_count e = 0 \<and> ef_unknown_operator_sale_proceeds_count e = 0 \<and>
              ef_unknown_royalty_recipient_count e = 0 \<and> ef_unpriced_operator_paid_mint_payment_count e = 0 \<and>
              ef_unknown_paid_mint_receiver_count e = 0 \<and> ef_unpriced_honest_paid_mint_loss_count e = 0 \<and>
              ef_unpriced_value_flow_count e = 0)"

definition shrink_instance :: "behavior_instance \<Rightarrow> behavior_instance" where
  "shrink_instance i =
     i\<lparr>bi_transactions := [], bi_gini_nft_count := None, bi_gini_token_transaction_count := None, bi_fan_out := None,
       bi_path_length := None, bi_low_value_hops := None, bi_source_address_count := None, bi_nft_share := None,
       bi_value_share := None, bi_exit_delay_seconds := None, bi_exit_to_internal_price_ratio := None,
       bi_exit_to_cycle_nft_ratio := None, bi_start_block := None, bi_end_block := None, bi_start_timestamp := None,
       bi_end_timestamp := None, bi_native_value := 0, bi_usd_value := 0, bi_linked_loss_native := 0\<rparr>"

definition shrink_for_summary_memory :: "candidate_analysis \<Rightarrow> candidate_analysis" where
  "shrink_for_summary_memory a =
     a\<lparr>ca_attribution := map (\<lambda>(address, attr). (address, attr\<lparr>at_evidence := []\<rparr>)) (ca_attribution a),
       ca_lifecycle := default_lifecycle, ca_value_flow := default_value_flow_facts,
       ca_behavior_instances := map shrink_instance (ca_behavior_instances a)\<rparr>"

section \<open>The detectors do not read the relations\<close>

definition relabel :: "legit_signals \<Rightarrow> relations \<Rightarrow> evidence_bundle \<Rightarrow> evidence_bundle" where
  "relabel legit relations ev = ev\<lparr>eb_legit := legit, eb_relation_legit := relations\<rparr>"

lemma relabel_fields [simp]:
  "eb_contract_id (relabel l r ev) = eb_contract_id ev" "eb_chain (relabel l r ev) = eb_chain ev"
  "eb_address (relabel l r ev) = eb_address ev" "eb_transfers (relabel l r ev) = eb_transfers ev"
  "eb_sales (relabel l r ev) = eb_sales ev" "eb_holders (relabel l r ev) = eb_holders ev"
  "eb_collection_nft_count (relabel l r ev) = eb_collection_nft_count ev"
  "eb_collection_nft_count_complete (relabel l r ev) = eb_collection_nft_count_complete ev"
  "eb_prices (relabel l r ev) = eb_prices ev" "eb_value_flows (relabel l r ev) = eb_value_flows ev"
  "eb_quality (relabel l r ev) = eb_quality ev" "eb_controllers (relabel l r ev) = eb_controllers ev"
  "eb_deployment (relabel l r ev) = eb_deployment ev" "eb_deployment_timestamp (relabel l r ev) = eb_deployment_timestamp ev"
  "eb_legit (relabel l r ev) = l" "eb_relation_legit (relabel l r ev) = r"
  by (simp_all add: relabel_def)

lemma relabel_sets [simp]:
  "controller_set (relabel l r ev) = controller_set ev"
  "holder_set (relabel l r ev) = holder_set ev"
  "deployment_fee_payer (relabel l r ev) = deployment_fee_payer ev"
  "paid_buyers (relabel l r ev) = paid_buyers ev"
  "attributed_seller_counts (relabel l r ev) = attributed_seller_counts ev"
  "event_addresses (relabel l r ev) = event_addresses ev"
  "bundle_victims (relabel l r ev) = bundle_victims ev"
  by (simp_all add: controller_set_def holder_set_def deployment_fee_payer_def paid_buyers_def attributed_seller_counts_def event_addresses_def bundle_victims_def)

lemma relabel_sellers [simp]:
  "high_volume_sellers (relabel l r ev) = high_volume_sellers ev"
  "all_addresses (relabel l r ev) = all_addresses ev"
  "operator_evidence (relabel l r ev) = operator_evidence ev"
  by (simp_all add: high_volume_sellers_def all_addresses_def operator_evidence_def fun_eq_iff cong: option.case_cong if_cong prop_event.case_cong)

lemma relabel_roles [simp]:
  "attribution_roles (relabel l r ev) = attribution_roles ev"
  "static_pushes (relabel l r ev) = static_pushes ev"
  "attribution_cycles (relabel l r ev) = attribution_cycles ev"
  by (simp_all add: attribution_roles_def static_pushes_def attribution_cycles_def fun_eq_iff cong: option.case_cong if_cong prop_event.case_cong)

lemma relabel_attribution [simp]:
  "all_pushes (relabel l r ev) = all_pushes ev"
  "attribute_addresses (relabel l r ev) = attribute_addresses ev"
  by (simp_all add: all_pushes_def attribute_addresses_eq fun_eq_iff cong: option.case_cong if_cong prop_event.case_cong)

lemma relabel_times [simp]:
  "current_victim_tokens (relabel l r ev) = current_victim_tokens ev"
  "first_times_of (relabel l r ev) = first_times_of ev"
  "still_holds (relabel l r ev) = still_holds ev"
  by (simp_all add: current_victim_tokens_def first_times_of_def still_holds_def fun_eq_iff cong: option.case_cong if_cong prop_event.case_cong)

lemma relabel_acquisition [simp]: "acquisition_at (relabel l r ev) = acquisition_at ev"
  by (simp add: acquisition_at_def fun_eq_iff cong: option.case_cong if_cong prop_event.case_cong)

lemma relabel_acquired [simp]:
  "disposed_at (relabel l r ev) = disposed_at ev"
  by (simp_all add: disposed_at_def fun_eq_iff cong: option.case_cong if_cong prop_event.case_cong)

lemma relabel_holding [simp]: "holding_seconds (relabel l r ev) = holding_seconds ev"
  by (simp add: holding_seconds_def fun_eq_iff cong: option.case_cong)

lemma relabel_lifecycle [simp]: "build_lifecycle (relabel l r ev) = build_lifecycle ev"
  by (simp add: build_lifecycle_def fun_eq_iff)

lemma relabel_value_flow [simp]:
  "initial_flow (relabel l r ev) = initial_flow ev"
  "build_value_flow (relabel l r ev) = build_value_flow ev"
  by (simp_all add: initial_flow_def build_value_flow_def fun_eq_iff cong: option.case_cong if_cong prop_event.case_cong)

lemma relabel_events [simp]:
  "event_block (relabel l r ev) = event_block ev"
  "event_time (relabel l r ev) = event_time ev"
  "event_from (relabel l r ev) = event_from ev"
  "prop_event_to (relabel l r ev) = prop_event_to ev"
  "prop_event_transaction (relabel l r ev) = prop_event_transaction ev"
  "event_token (relabel l r ev) = event_token ev"
  "absorb_event (relabel l r ev) = absorb_event ev"
  "low_value (relabel l r ev) = low_value ev"
  by (simp_all add: event_block_def event_time_def event_from_def prop_event_to_def prop_event_transaction_def event_token_def absorb_event_def low_value_def fun_eq_iff cong: option.case_cong if_cong prop_event.case_cong)

lemma relabel_event_order [simp]:
  "prop_event_order (relabel l r ev) = prop_event_order ev"
  "path_events (relabel l r ev) = path_events ev"
  by (simp_all add: prop_event_order_def path_events_def fun_eq_iff cong: option.case_cong if_cong prop_event.case_cong)

lemma relabel_event_precedes [simp]:
  "prop_event_precedes (relabel l r ev) = prop_event_precedes ev"
  "outgoing_events (relabel l r ev) = outgoing_events ev"
  by (simp_all add: prop_event_precedes_def outgoing_events_def fun_eq_iff cong: option.case_cong if_cong prop_event.case_cong)

lemma relabel_instances [simp]: "instance_from_prop_events kind (relabel l r ev) = instance_from_prop_events kind ev"
  by (simp add: instance_from_prop_events_def fun_eq_iff cong: option.case_cong if_cong prop_event.case_cong)

lemma relabel_search [simp]:
  "search (relabel l r ev) outgoing token addresses selected n = search ev outgoing token addresses selected n"
proof (induction ev outgoing token addresses selected n rule: search.induct)
  case (1 ev outgoing token addresses selected n)
  show ?case
  proof (cases "map_of outgoing (token, last addresses)")
    case None
    then show ?thesis by (subst (1 2) search.simps) simp
  next
    case (Some events)
    have "(if selected \<noteq> [] \<and> \<not> prop_event_precedes ev (last selected) event then None
        else let next = prop_event_to ev event
          in if next = [] \<or> next \<in> set addresses then None
             else search (relabel l r ev) outgoing token (addresses @ [next]) (selected @ [event]) n) =
      (if selected \<noteq> [] \<and> \<not> prop_event_precedes ev (last selected) event then None
        else let next = prop_event_to ev event
          in if next = [] \<or> next \<in> set addresses then None
             else search ev outgoing token (addresses @ [next]) (selected @ [event]) n)"
      if "event \<in> set events" "addresses \<noteq> []" "\<not> n \<le> length addresses" for event
      using 1 that Some by (auto simp: Let_def)
    then have "first_some (\<lambda>event. if selected \<noteq> [] \<and> \<not> prop_event_precedes ev (last selected) event then None
          else let next = prop_event_to ev event
            in if next = [] \<or> next \<in> set addresses then None
               else search (relabel l r ev) outgoing token (addresses @ [next]) (selected @ [event]) n) events =
        first_some (\<lambda>event. if selected \<noteq> [] \<and> \<not> prop_event_precedes ev (last selected) event then None
          else let next = prop_event_to ev event
            in if next = [] \<or> next \<in> set addresses then None
               else search ev outgoing token (addresses @ [next]) (selected @ [event]) n) events"
      if "addresses \<noteq> []" "\<not> n \<le> length addresses" using that by (intro first_some_cong refl)
    then show ?thesis using Some by (subst (1 2) search.simps) (simp cong: if_cong)
  qed
qed

lemma relabel_layered_parts [simp]:
  "layered_event_path_from (relabel l r ev) = layered_event_path_from ev"
  "layered_path_addresses (relabel l r ev) = layered_path_addresses ev"
  by (simp_all add: layered_event_path_from_def layered_path_addresses_def fun_eq_iff cong: option.case_cong if_cong prop_event.case_cong)

lemma relabel_layered_instances [simp]:
  "layered_instance (relabel l r ev) = layered_instance ev"
  "layered_starts (relabel l r ev) = layered_starts ev"
  by (simp_all add: layered_instance_def layered_starts_def fun_eq_iff cong: option.case_cong if_cong prop_event.case_cong)

lemma relabel_layered_step [simp]: "layered_step (relabel l r ev) = layered_step ev"
  by (simp add: layered_step_def fun_eq_iff cong: option.case_cong if_cong)

lemma relabel_layered [simp]:
  "layered_paths (relabel l r ev) = layered_paths ev"
  by (simp add: layered_paths_def fun_eq_iff cong: option.case_cong if_cong prop_event.case_cong)

lemma relabel_cycles [simp]:
  "cycle_values_of (relabel l r ev) = cycle_values_of ev"
  by (simp add: cycle_values_of_def fun_eq_iff cong: option.case_cong if_cong prop_event.case_cong)

lemma relabel_linked_step [simp]: "linked_step (relabel l r ev) = linked_step ev"
  by (simp add: linked_step_def fun_eq_iff cong: option.case_cong if_cong prop_event.case_cong)

lemma relabel_stars [simp]:
  "star_components (relabel l r ev) = star_components ev"
  "linked_losses (relabel l r ev) = linked_losses ev"
  by (simp_all add: star_components_def linked_losses_def fun_eq_iff cong: option.case_cong if_cong prop_event.case_cong)

lemma relabel_star [simp]:
  "star_instance (relabel l r ev) = star_instance ev"
  "star_behaviors (relabel l r ev) = star_behaviors ev"
  by (simp_all add: star_instance_def star_behaviors_def fun_eq_iff cong: option.case_cong if_cong prop_event.case_cong)

lemma relabel_inventory [simp]:
  "inbound_events (relabel l r ev) = inbound_events ev"
  "inventory_total (relabel l r ev) = inventory_total ev"
  "inventory_nfts (relabel l r ev) = inventory_nfts ev"
  by (simp_all add: inbound_events_def inventory_total_def inventory_nfts_def fun_eq_iff cong: option.case_cong if_cong prop_event.case_cong)

lemma relabel_inventories [simp]:
  "inventory_instance (relabel l r ev) = inventory_instance ev"
  "inventory_instances (relabel l r ev) = inventory_instances ev"
  by (simp_all add: inventory_instance_def inventory_instances_def fun_eq_iff cong: option.case_cong if_cong prop_event.case_cong)

lemma relabel_behaviors [simp]:
  "detect_behaviors (relabel l r ev) = detect_behaviors ev"
  by (simp add: detect_behaviors_def fun_eq_iff cong: option.case_cong if_cong prop_event.case_cong)

definition relabel_ctx :: "legit_signals \<Rightarrow> relations \<Rightarrow> econ_context \<Rightarrow> econ_context" where
  "relabel_ctx l r ctx = ctx\<lparr>ec_ev := relabel l r (ec_ev ctx)\<rparr>"

lemma relabel_ctx_fields [simp]:
  "ec_ev (relabel_ctx l r ctx) = relabel l r (ec_ev ctx)" "ec_operators (relabel_ctx l r ctx) = ec_operators ctx"
  "ec_honest_buyers (relabel_ctx l r ctx) = ec_honest_buyers ctx"
  "ec_honest_holders (relabel_ctx l r ctx) = ec_honest_holders ctx"
  by (simp_all add: relabel_ctx_def)

lemma relabel_norm_in [simp]: "norm_in (relabel_ctx l r ctx) = norm_in ctx"
  by (simp add: norm_in_def fun_eq_iff cong: option.case_cong if_cong prop_event.case_cong)

lemma relabel_gas [simp]:
  "operator_gas (relabel_ctx l r ctx) = operator_gas ctx"
  "quoted_price (relabel_ctx l r ctx) = quoted_price ctx"
  by (simp_all add: operator_gas_def quoted_price_def fun_eq_iff cong: option.case_cong if_cong prop_event.case_cong)

lemma relabel_gas_steps [simp]:
  "deployment_gas (relabel_ctx l r ctx) = deployment_gas ctx"
  "sale_gas (relabel_ctx l r ctx) = sale_gas ctx"
  "transfer_gas (relabel_ctx l r ctx) = transfer_gas ctx"
  "flow_gas (relabel_ctx l r ctx) = flow_gas ctx"
  by (simp_all add: deployment_gas_def sale_gas_def transfer_gas_def flow_gas_def fun_eq_iff cong: option.case_cong if_cong prop_event.case_cong)

lemma relabel_sale_steps [simp]:
  "count_sale (relabel_ctx l r ctx) = count_sale ctx"
  "sale_volumes (relabel_ctx l r ctx) = sale_volumes ctx"
  "operator_sale (relabel_ctx l r ctx) = operator_sale ctx"
  "operator_royalty (relabel_ctx l r ctx) = operator_royalty ctx"
  "secondary_exposure (relabel_ctx l r ctx) = secondary_exposure ctx"
  by (simp_all add: count_sale_def sale_volumes_def operator_sale_def operator_royalty_def secondary_exposure_def fun_eq_iff cong: option.case_cong if_cong prop_event.case_cong)

lemma relabel_mint_parts [simp]:
  "receiver_is_operator (relabel_ctx l r ctx) = receiver_is_operator ctx"
  "mint_receiver (relabel_ctx l r ctx) = mint_receiver ctx"
  "count_flow (relabel_ctx l r ctx) = count_flow ctx"
  by (simp_all add: receiver_is_operator_def mint_receiver_def count_flow_def fun_eq_iff cong: option.case_cong if_cong prop_event.case_cong)

lemma relabel_mint_steps [simp]:
  "operator_mint (relabel_ctx l r ctx) = operator_mint ctx"
  "mint_exposure (relabel_ctx l r ctx) = mint_exposure ctx"
  by (simp_all add: operator_mint_def mint_exposure_def fun_eq_iff cong: option.case_cong if_cong prop_event.case_cong)

lemma relabel_econ_steps [simp]:
  "econ_sale (relabel_ctx l r ctx) = econ_sale ctx"
  "econ_transfer (relabel_ctx l r ctx) = econ_transfer ctx"
  "econ_flow (relabel_ctx l r ctx) = econ_flow ctx"
  by (simp_all add: econ_sale_def econ_transfer_def econ_flow_def fun_eq_iff cong: option.case_cong if_cong prop_event.case_cong)

lemma relabel_loops [simp]: "econ_loops (relabel_ctx l r ctx) = econ_loops ctx"
  unfolding econ_loops_def relabel_ctx_fields relabel_fields by (simp add: Let_def)

lemma relabel_context [simp]: "econ_context_of (relabel l r ev) roles = relabel_ctx l r (econ_context_of ev roles)"
  by (simp add: econ_context_of_def relabel_ctx_def Let_def)

lemma relabel_economics [simp]: "compute_economics order (relabel l r ev) = compute_economics order ev"
  by (simp add: compute_economics_def initial_notes_def fun_eq_iff cong: option.case_cong if_cong prop_event.case_cong)

section \<open>The analysis returns\<close>

definition chains_known :: "'m resident_store \<Rightarrow> bool" where
  "chains_known st \<longleftrightarrow> (\<forall>c \<in> set (rs_contracts st). ct_chain_id c < length (rs_chains st))"

lemma store_ok_chains_known: "store_ok hash st \<Longrightarrow> chains_known st"
  by (auto simp: store_ok_def contracts_ok_def chains_known_def contract_names_def)

text \<open>What the analysis computes for a bundle that is not legitimate as a whole.\<close>

definition full_analysis ::
  "gas_order \<Rightarrow> string \<Rightarrow> string \<Rightarrow> evidence_bundle \<Rightarrow> paper_config \<Rightarrow> attribution_result \<Rightarrow> behavior_analysis \<Rightarrow> candidate_analysis" where
  "full_analysis order chain address ev cfg attribution detected =
     \<lparr>ca_contract_id = eb_contract_id ev, ca_chain = chain, ca_address = address, ca_legit = classify (eb_legit ev),
      ca_legit_by_seed = classify_relations (eb_relation_legit ev),
      ca_attribution = sort_key fst (ar_records attribution),
      ca_lifecycle = build_lifecycle ev (ar_roles attribution) (pc_analysis_timestamp cfg),
      ca_value_flow = build_value_flow ev (ar_roles attribution), ca_behaviors = ba_facts detected,
      ca_behavior_instances = ba_instances detected,
      ca_economics = fst (compute_economics order ev (ar_roles attribution)),
      ca_economics_quality = snd (compute_economics order ev (ar_roles attribution)),
      ca_evidence_quality = eb_quality ev, ca_collection_nft_count = eb_collection_nft_count ev,
      ca_collection_nft_count_complete = eb_collection_nft_count_complete ev,
      ca_analysis_timestamp = pc_analysis_timestamp cfg\<rparr>"

definition cleared :: "candidate_analysis \<Rightarrow> candidate_analysis" where
  "cleared a = a\<lparr>ca_attribution := [], ca_lifecycle := default_lifecycle, ca_value_flow := default_value_flow_facts,
     ca_behaviors := default_behavior_facts, ca_behavior_instances := [], ca_economics := default_economic_facts,
     ca_economics_quality := default_economics_quality\<rparr>"

definition detected_for :: "evidence_bundle \<Rightarrow> paper_config \<Rightarrow> attribution_result \<Rightarrow> behavior_analysis \<Rightarrow> bool" where
  "detected_for ev cfg attribution detected \<longleftrightarrow>
     (\<exists>sccs. strongly_connected_components (graph_from_transfers (eb_transfers ev)) = Some sccs \<and>
        detect_behaviors ev (graph_from_transfers (eb_transfers ev)) sccs (ar_roles attribution) cfg = Some detected)"

lemma attribution_returns: "\<exists>r. attribute_addresses ev (graph_from_transfers ts) = Some r"
  using star_distributors_transfers [of ts] by (auto simp: attribute_addresses_eq)

lemma detection_returns:
  assumes "strongly_connected_components (graph_from_transfers ts) = Some sccs"
  shows "\<exists>r. detect_behaviors ev (graph_from_transfers ts) sccs roles cfg = Some r"
proof -
  have ok: "graph_ok (graph_from_transfers ts)" unfolding graph_from_transfers_def by (rule build_graph_ok)
  have "set (concat sccs) = {..<vertex_count (graph_from_transfers ts)}"
    using scc_result [OF ok] assms by (metis option.inject)
  then have "\<forall>c \<in> set sccs. \<forall>v \<in> set c. v < vertex_count (graph_from_transfers ts)" by auto
  then show ?thesis by (rule detect_behaviors_returns [OF ok])
qed

lemma attributed_addresses:
  assumes "attribute_addresses ev tg = Some r"
  shows "map fst (ar_records r) = all_addresses ev" "sorted (map fst (ar_records r))"
proof -
  have finite: "finite (controller_set ev \<union> set_option (deployment_fee_payer ev) \<union> holder_set ev \<union> paid_buyers ev \<union>
      set (event_addresses ev))"
    by (simp add: controller_set_def holder_set_def paid_buyers_def)
  show keys: "map fst (ar_records r) = all_addresses ev"
    using assms by (auto simp: attribute_addresses_eq attribution_record_def comp_def case_prod_unfold attribution_roles_keys)
  show "sorted (map fst (ar_records r))" unfolding keys using finite by (simp add: all_addresses_def)
qed

lemma analyze_candidate_eq:
  assumes "chains_known st" "contract < length (rs_contracts st)" "eb_contract_id ev = contract"
  shows "\<exists>attribution detected. attribute_addresses ev (graph_from_transfers (eb_transfers ev)) = Some attribution \<and>
    detected_for ev cfg attribution detected \<and>
    analyze_candidate order st contract ev cfg = Inr
      ((if fully_legit (classify_relations (eb_relation_legit ev)) then cleared else id)
        (full_analysis order (rs_chains st ! ct_chain_id (rs_contracts st ! contract)) (ct_address (rs_contracts st ! contract))
          ev cfg attribution detected))"
proof -
  let ?g = "graph_from_transfers (eb_transfers ev)"
  obtain sccs where sccs: "strongly_connected_components ?g = Some sccs"
    unfolding graph_from_transfers_def by (rule scc_result [OF build_graph_ok])
  obtain attribution where attribution: "attribute_addresses ev ?g = Some attribution" using attribution_returns by blast
  obtain detected where detected: "detect_behaviors ev ?g sccs (ar_roles attribution) cfg = Some detected"
    using detection_returns [OF sccs] by blast
  have "rs_contracts st ! contract \<in> set (rs_contracts st)" using assms(2) by simp
  then have "ct_chain_id (rs_contracts st ! contract) < length (rs_chains st)" using assms(1) by (simp add: chains_known_def)
  then have "analyze_candidate order st contract ev cfg = Inr
      ((if fully_legit (classify_relations (eb_relation_legit ev)) then cleared else id)
        (full_analysis order (rs_chains st ! ct_chain_id (rs_contracts st ! contract)) (ct_address (rs_contracts st ! contract))
          ev cfg attribution detected))"
    using assms(2,3) sccs attribution detected
    by (cases "fully_legit (classify_relations (eb_relation_legit ev))")
      (simp_all add: analyze_candidate_def chain_name_def full_analysis_def cleared_def or_panic_def Let_def case_prod_unfold)
  then show ?thesis using sccs attribution detected by (auto simp: detected_for_def)
qed


section \<open>Projection is re-analysis\<close>

text \<open>The signals of a scope.\<close>

definition scope_signals :: "relations \<Rightarrow> legit_signals" where
  "scope_signals relation_signals =
     (let (merged, any_complete) = merge_relations (map snd relation_signals)
      in if is_legit_duplicate merged \<or> any_complete then merged\<lparr>ls_verification_complete := True\<rparr> else merged)"

definition in_scope :: "string set \<Rightarrow> evidence_bundle \<Rightarrow> relations" where
  "in_scope S ev = filter (\<lambda>(seed_key, _). seed_key \<in> S) (eb_relation_legit ev)"

lemma filtered_relabel: "filtered_for_analysis ev S = relabel (scope_signals (in_scope S ev)) (in_scope S ev) ev"
proof (cases "in_scope S ev = []")
  case True
  then show ?thesis
    by (simp add: filtered_for_analysis_def in_scope_def relabel_def scope_signals_def finalize_legit_signals_def
        merge_relations_def default_signals_def is_legit_duplicate_def)
next
  case False
  then show ?thesis
    by (simp add: filtered_for_analysis_def in_scope_def relabel_def scope_signals_def finalize_legit_signals_def
        case_prod_unfold Let_def)
qed

lemma project_eq:
  "project_relation_signals a rels =
     (if fully_legit (classify_relations rels) then cleared else id)
       (a\<lparr>ca_legit := classify (scope_signals rels), ca_legit_by_seed := classify_relations rels\<rparr>)"
  by (simp add: project_relation_signals_def scope_signals_def cleared_def case_prod_unfold Let_def)

lemma full_analysis_relabel:
  "full_analysis order chain address (relabel l r ev) cfg attribution detected =
     (full_analysis order chain address ev cfg attribution detected)\<lparr>ca_legit := classify l, ca_legit_by_seed := classify_relations r\<rparr>"
  by (simp add: full_analysis_def)

lemma fully_legit_in_scope:
  assumes "fully_legit (classify_relations (eb_relation_legit ev))" "in_scope S ev \<noteq> []"
  shows "fully_legit (classify_relations (in_scope S ev))"
  using assms by (auto simp: fully_legit_def classify_relations_def in_scope_def)

lemma cleared_simps [simp]:
  "cleared (cleared a) = cleared a"
  "(cleared a)\<lparr>ca_legit := l, ca_legit_by_seed := r\<rparr> = cleared (a\<lparr>ca_legit := l, ca_legit_by_seed := r\<rparr>)"
  "ca_legit_by_seed (cleared a) = ca_legit_by_seed a"
  by (simp_all add: cleared_def)

lemma analyzed_known:
  assumes "analyze_candidate order st contract ev cfg = Inr a"
  shows "contract < length (rs_contracts st)" "eb_contract_id ev = contract"
proof -
  show lt: "contract < length (rs_contracts st)"
  proof (rule ccontr)
    assume "\<not> contract < length (rs_contracts st)"
    with assms show False by (simp add: analyze_candidate_def idx_def invalid_def)
  qed
  show "eb_contract_id ev = contract"
  proof (rule ccontr)
    assume "eb_contract_id ev \<noteq> contract"
    with assms lt show False by (simp add: analyze_candidate_def invalid_def)
  qed
qed

text \<open>C24. If the finished analysis was not cleared as fully legitimate, or the scope keeps at least one of
  its relations, then reusing it for the scope is analysing the evidence of the scope again: the projection
  of the analysis to the relations of the set of seeds equals the analysis of the bundle filtered to these
  seeds.  The condition cannot be dropped (\<open>empty_scope_keeps_cleared_facts\<close>).\<close>

theorem project_is_reanalysis:
  assumes "chains_known st" "analyze_candidate order st contract ev cfg = Inr a"
    "fully_legit (ca_legit_by_seed a) \<longrightarrow> in_scope S ev \<noteq> []"
  shows "analyze_candidate order st contract (filtered_for_analysis ev S) cfg = Inr (project_relation_signals a (in_scope S ev))"
proof -
  note known = analyzed_known [OF assms(2)]
  let ?rels = "in_scope S ev"
  let ?ev = "relabel (scope_signals ?rels) ?rels ev"
  let ?full = "full_analysis order (rs_chains st ! ct_chain_id (rs_contracts st ! contract)) (ct_address (rs_contracts st ! contract))"
  obtain attribution detected where
    parts: "attribute_addresses ev (graph_from_transfers (eb_transfers ev)) = Some attribution" "detected_for ev cfg attribution detected"
    and "analyze_candidate order st contract ev cfg = Inr
      ((if fully_legit (classify_relations (eb_relation_legit ev)) then cleared else id) (?full ev cfg attribution detected))"
    using analyze_candidate_eq [OF assms(1) known] by blast
  then have a: "a = (if fully_legit (classify_relations (eb_relation_legit ev)) then cleared else id) (?full ev cfg attribution detected)"
    using assms(2) by simp
  have again: "analyze_candidate order st contract ?ev cfg = Inr
      ((if fully_legit (classify_relations ?rels) then cleared else id) (?full ?ev cfg attribution detected))"
  proof -
    obtain attribution' detected' where
      parts': "attribute_addresses ?ev (graph_from_transfers (eb_transfers ?ev)) = Some attribution'" "detected_for ?ev cfg attribution' detected'"
      and eq: "analyze_candidate order st contract ?ev cfg = Inr
        ((if fully_legit (classify_relations (eb_relation_legit ?ev)) then cleared else id) (?full ?ev cfg attribution' detected'))"
      using analyze_candidate_eq [OF assms(1) known(1), where ev = ?ev and cfg = cfg and order = order] known(2) by auto
    have "attribution' = attribution" using parts(1) parts'(1) by simp
    moreover have "detected' = detected" using parts(2) parts'(2) calculation by (auto simp: detected_for_def)
    ultimately show ?thesis using eq by simp
  qed
  have "fully_legit (ca_legit_by_seed a) = fully_legit (classify_relations (eb_relation_legit ev))"
    unfolding a by (simp add: full_analysis_def)
  then show ?thesis
    using assms(3) fully_legit_in_scope [of ev S] unfolding filtered_relabel again project_eq full_analysis_relabel a
    by (cases "fully_legit (classify_relations (eb_relation_legit ev))") simp_all
qed

text \<open>The exception is real: the projection to a scope without relations keeps the cleared facts, where
  the analysis of the scope attributes every address.\<close>

theorem empty_scope_keeps_cleared_facts:
  assumes "chains_known st" "analyze_candidate order st contract ev cfg = Inr a" "fully_legit (ca_legit_by_seed a)"
    "in_scope S ev = []" "all_addresses ev \<noteq> []"
  shows "\<exists>b. analyze_candidate order st contract (filtered_for_analysis ev S) cfg = Inr b \<and>
    ca_attribution b \<noteq> [] \<and> ca_attribution (project_relation_signals a (in_scope S ev)) = []"
proof -
  note known = analyzed_known [OF assms(2)]
  let ?ev = "relabel (scope_signals []) [] ev"
  obtain attribution where attribution: "attribute_addresses ?ev (graph_from_transfers (eb_transfers ?ev)) = Some attribution"
    and b: "\<exists>detected. analyze_candidate order st contract ?ev cfg = Inr
      (full_analysis order (rs_chains st ! ct_chain_id (rs_contracts st ! contract)) (ct_address (rs_contracts st ! contract))
        ?ev cfg attribution detected)"
    using analyze_candidate_eq [OF assms(1) known(1), where ev = ?ev and cfg = cfg and order = order] known(2) by (auto simp: fully_legit_def classify_relations_def)
  have "ar_records attribution \<noteq> []" using attributed_addresses(1) [OF attribution] assms(5) by auto
  then have found: "ca_attribution (full_analysis order c d ?ev cfg attribution detected) \<noteq> []" for c d detected
    by (simp add: full_analysis_def flip: length_greater_0_conv)
  have "ca_attribution a = []"
    using analyze_candidate_eq [OF assms(1) known, of cfg order] assms(2,3) by (auto simp: cleared_def full_analysis_def split: if_splits)
  then have "ca_attribution (project_relation_signals a []) = []"
    by (simp add: project_eq cleared_def)
  with b found show ?thesis unfolding filtered_relabel assms(4) by metis
qed

section \<open>Example\<close>

definition candidate_store :: "unit resident_store" where
  "candidate_store = (with_options () None [''base''])\<lparr>rs_chains := [''base''],
     rs_contracts := [\<lparr>ct_id = 0, ct_chain_id = 0, ct_address = ''0x1'', ct_nft_count = 0, ct_name_id = None, ct_metadata_by_token = []\<rparr>]\<rparr>"

definition candidate_evidence :: evidence_bundle where
  "candidate_evidence = (empty_bundle 0 ''base'' ''0x1'')\<lparr>eb_controllers := [''0x2''],
     eb_relation_legit := [(''base:0x3'', default_signals), (''base:0x4'', default_signals\<lparr>ls_verified_migration := True\<rparr>)]\<rparr>"

lemma candidate_store_known: "chains_known candidate_store"
  by (simp add: chains_known_def candidate_store_def)

definition candidate_config :: paper_config where
  "candidate_config = \<lparr>pc_min_cycle_size = 2, pc_layered_path_addresses = 3, pc_fan_out = 3, pc_top_concentration_fraction = 0, pc_analysis_timestamp = 100\<rparr>"

lemma candidate_example:
  "length (rs_contracts candidate_store) = 1" "eb_contract_id candidate_evidence = 0"
  "eb_relation_legit candidate_evidence = [(''base:0x3'', default_signals), (''base:0x4'', default_signals\<lparr>ls_verified_migration := True\<rparr>)]"
  by (simp_all add: candidate_store_def candidate_evidence_def empty_bundle_def)

lemma candidate_not_legit: "\<not> fully_legit (classify_relations (eb_relation_legit candidate_evidence))"
  by (simp add: candidate_example fully_legit_def classify_relations_def default_signals_def classify_def is_legit_duplicate_def)


theorem project_is_reanalysis_witness:
  "\<exists>a. analyze_candidate id candidate_store 0 candidate_evidence candidate_config = Inr a \<and>
     analyze_candidate id candidate_store 0 (filtered_for_analysis candidate_evidence {''base:0x4''}) candidate_config =
       Inr (project_relation_signals a (in_scope {''base:0x4''} candidate_evidence))"
proof -
  have "0 < length (rs_contracts candidate_store)" using candidate_example by simp
  from analyze_candidate_eq [OF candidate_store_known this candidate_example(2), of candidate_config id] candidate_not_legit
  obtain a where a: "analyze_candidate id candidate_store 0 candidate_evidence candidate_config = Inr a" by auto
  have "in_scope {''base:0x4''} candidate_evidence \<noteq> []" by (simp add: in_scope_def candidate_example)
  with project_is_reanalysis [OF candidate_store_known a, of "{''base:0x4''}"] a show ?thesis by blast
qed

end
