(* ===== verification/Spec2Isabelle.thy ===== *)
theory Spec2Isabelle
  imports ValueFlowEdges MintPayment Attribution Lifecycle Economics Behaviors
    StringPool Csr EntityIds StoreQueries StoreShards Registry Scale NameExact MetaBuilt Candidate
begin

text \<open>
  \<^bold>\<open>The program.\<close>  \<open>analysis2\<close> (\<open>src/analysis2/crates/core/src\<close>) finds copies of NFT collections
  and analyses the contracts that issue them.  A snapshot of NFTs is loaded into a resident store;
  seeds are queried against it for equal URIs, similar names and similar metadata; the hits become
  candidate relations and duplicate-scale tables; for each candidate, evidence (transfers, sales,
  holders, prices, fund flows) is fetched and turned into roles of addresses, behaviours, economics
  and a life cycle.  All paths below are relative to that directory.

  \<^bold>\<open>Conventions.\<close>  \<open>Prelude\<close> fixes the model of the standard library: byte strings, trimming,
  options, checked indexing (\<open>None\<close> is the panic), and the interface \<open>keyed_container\<close> of maps with
  its two implementations (\<open>BTreeMap\<close>, \<open>AHashMap\<close>).  \<open>F64\<close> is binary64 with rounding.  \<open>EntityIds\<close>
  has the errors of \<open>error.rs\<close> and the result type; \<open>Fallible\<close> the loops whose body can fail and
  the chunks of parallel loops.  Ids are \<open>u16\<close>/\<open>u32\<close> values as \<open>nat\<close> with the casts and capacity
  checks of the code (\<open>u16\<close>, \<open>u32\<close>, \<open>u32_try_from\<close>); \<open>u64\<close> counters are \<open>nat\<close>.  Where the order
  of a hash map could be seen, it is a parameter (\<open>gas_order\<close> in \<open>Economics\<close>).

  \<^bold>\<open>The resident store\<close> (\<open>entity/\<close>).  \<open>StringPool\<close> (\<open>string_pool.rs\<close>): interning by hash with collision
  lists; it refines a list of different strings for every hash function.  \<open>Csr\<close> (\<open>csr.rs\<close>): posting
  indexes built from sorted pairs and triples return exactly the values of a key, in order.
  \<open>EntityIds\<close> (\<open>ids.rs\<close>): entities, normalisation and order of token ids.  \<open>Store\<close> (\<open>store.rs\<close>): state and
  operations; \<open>StoreInvariant\<close>: \<open>store_ok\<close> and its preservation; \<open>StoreRows\<close>: loading a row refines
  merging it into an abstract table; \<open>Anchors\<close>: the bounded lists of metadata anchors;
  \<open>StoreShards\<close>: merging shards refines loading their rows, so a sharded load equals a sequential
  one; \<open>StoreQueries\<close>: lookups and the removal of seed contracts.

  \<^bold>\<open>Hits and candidates\<close> (\<open>dedup/\<close>, \<open>reporting/aggregate.rs\<close>).  \<open>Hits\<close> (\<open>hits.rs\<close>): edges, scopes, sets of
  a dimension.  \<open>UriQuery\<close> (\<open>uri.rs\<close>): the query of token and image URIs; \<open>UriHits\<close> and
  \<open>UriExact\<close> show which edges it appends and that parallel chunks change nothing.  \<open>Registry\<close>
  (\<open>candidates.rs\<close>): the registry is a function of the set of edges, and restricting it commutes with
  building it.  \<open>Scale\<close>: one scan of a seed's graph gives the tables of every scope, and every
  share lies between 0 and 1.

  \<^bold>\<open>The name query\<close> (\<open>dedup/name/\<close>).  \<open>NameTokens\<close>: characters, occurrence tokens, multiset overlap.
  \<open>NameSeen\<close>: the generation-stamped candidate set behaves as a set that each query finds empty.
  \<open>NameBounds\<close> (\<open>bounds.rs\<close>): both binary searches are exact in rounded arithmetic.
  \<open>NameRepresentative\<close> (\<open>representative.rs\<close>): the representative is the mode.  \<open>NameIndex\<close> and
  \<open>NameIndexOk\<close> (\<open>mod.rs\<close>): the finalized index is well formed.  \<open>NameQuery\<close> and \<open>NameExact\<close>: the query
  with its length window, prefix filter and chunks equals an exhaustive scan with the bounds.  The
  comparator of \<open>rapidfuzz\<close> is a parameter; \<open>JaroWinkler\<close> states the metric it documents and proves that the
  rounded bounds of the code are sound for it, so for thresholds from 0.83 the query loses nothing.

  \<^bold>\<open>The metadata query\<close> (\<open>dedup/metadata/\<close>).  \<open>F64Extra\<close>: square roots and neighbours of binary64 values.
  \<open>Bm25\<close> and \<open>Bm25Ok\<close> (\<open>bm25.rs\<close>): tokens, documents and the BM25 cosine of a pair; scores are symmetric
  and what the thresholded routine reports is the full score.  \<open>MetaQuery\<close> and \<open>MetaExact\<close> (\<open>mod.rs\<close>,
  \<open>align.rs\<close>): the query over a well-formed index, with its reused marks, its score cache and its chunks,
  appends exactly the edges of a declarative definition.

  \<^bold>\<open>The metadata index\<close> (\<open>finalize_metadata_index\<close> in \<open>mod.rs\<close>).  \<open>Tasks\<close>: parallel tasks with a shared
  structure whose calls are atomic; a schedule, any list of task positions, says whose call runs next,
  and the tasks left over run to completion, so that every interleaving is some schedule.  The laws of a
  shared structure are the locale \<open>task_service\<close>.  \<open>Interner\<close>: the sharded catalog of terms, for every
  hash; its ids have no gaps.  \<open>MetaIndex\<close>: the construction: the catalog of the anchors, the term counts
  of a document, the documents, the postings filled through shared cursors.  \<open>MetaTerms\<close>: the counts
  agree with a plain count of the tokens on both sides of the inline window.  \<open>MetaCatalog\<close>, \<open>MetaCorpus\<close>
  and \<open>MetaPostings\<close> prove the three passes correct for all schedules and interpret the locale on them.
  \<open>MetaBuilt\<close>: the index is well formed, its contents are those of the records loaded, and two contracts
  with the same document find each other.  The order of the ids depends on the schedule.  A failed
  construction returns the error only; the store left behind is not described.

  \<^bold>\<open>Evidence\<close> (\<open>enrich/\<close>, \<open>seed/address.rs\<close>).  \<open>Address\<close>: base58, validation and normalisation.
  \<open>Evidence\<close> (\<open>types.rs\<close>): the evidence bundle and the merging of legitimacy signals.  \<open>Roles\<close>
  (\<open>roles.rs\<close>, \<open>analysis/legit.rs\<close>): victims.  \<open>ValueFlowEdges\<close> (\<open>value_flow.rs\<close>, parts of \<open>alchemy.rs\<close>):
  operator seeds, the association of native transfers, the status of a query and its independence
  of the arrival order.  \<open>MintPayment\<close> (\<open>mint_payment.rs\<close>): which flow pays for a mint.

  \<^bold>\<open>Analysis\<close> (\<open>analysis/\<close>).  \<open>AddressGraph\<close>, \<open>SccInvariant\<close>, \<open>Tarjan\<close> (\<open>graph.rs\<close>): the compact graph
  and the iterative component search.  \<open>Attribution\<close> (\<open>attribution.rs\<close>), \<open>Lifecycle\<close> (\<open>lifecycle.rs\<close>),
  \<open>Economics\<close> (\<open>economics.rs\<close>), and \<open>behavior.rs\<close> in \<open>BehaviorData\<close>, \<open>Search\<close>, \<open>LayeredTransfer\<close>,
  \<open>WashCycles\<close>, \<open>StarInventory\<close> and \<open>Behaviors\<close>.  Accesses outside of an ill-formed graph panic (\<open>None\<close>).
  \<open>Candidate\<close> (\<open>mod.rs\<close>) composes them: the analysis returns for every input, and projecting it to a
  reporting scope equals analysing the scope again, unless it was cleared as fully legitimate and the
  scope keeps none of its relations.

  \<^bold>\<open>Fuel and bounds.\<close>  The component search runs with fuel; the bound is a function of the graph's
  size and shown to suffice (\<open>scc_result\<close>), so the theorem states that it returns.  All other loops
  terminate structurally or by a measure.  The posting indexes hold fewer than \<open>2 ^ 32\<close> values and
  there are at most \<open>2 ^ 16\<close> chains, as the id types demand; theorems name these bounds where they use
  them.

  \<^bold>\<open>Not modelled.\<close>  Network providers and their paging (\<open>enrich/alchemy.rs\<close> beyond the assembly of value
  flows, \<open>controllers.rs\<close>, \<open>etherscan.rs\<close>, \<open>helius.rs\<close>, \<open>http.rs\<close>, \<open>opensea.rs\<close>, \<open>orchestrator.rs\<close>,
  \<open>seed/nftscan.rs\<close>, \<open>seed_nft.rs\<close>), Parquet reading, JSON and Markdown writing, caches on disk,
  progress display and the command line are I/O around the parts above.  Thread pools appear as
  chunks whose results are collected in order.
\<close>

end
